(* ===== verification/Prelude.thy ===== *)
theory Prelude
  imports Main "HOL-Library.Sublist" "HOL-Library.Char_ord" "HOL-Library.List_Lexorder"
begin

text \<open>
  Shared material of the development: the conventions for Go values and the generic lemmas the
  component theories build on.

  \<^item> A Go string is a sequence of bytes and an Isabelle \<open>char\<close> is an 8-bit value, so Go strings
    are \<open>string\<close>; \<open>strings.Compare\<close> is the byte-wise lexicographic order, the instance that
    \<open>Char_ord\<close> and \<open>List_Lexorder\<close> give.
  \<^item> A function that returns \<open>(T, error)\<close> returns the sum \<open>error + T\<close>, \<open>Inl\<close> for the error.
  \<^item> \<open>strings.TrimSpace\<close> removes leading and trailing Unicode white space; its byte-level
    behaviour is written out here because identifiers of the authorization and locking components
    pass through it.
\<close>

named_theorems gst_defs \<open>unfolding rules of small non-recursive model definitions\<close>

section \<open>Lists\<close>

lemma distinct_map_filter_imp: "distinct (map f xs) \<Longrightarrow> distinct (map f (filter P xs))"
  by (induction xs) auto

lemma nth_mem_conv: "x \<in> set xs \<longleftrightarrow> (\<exists>i<length xs. xs ! i = x)"
  by (simp add: in_set_conv_nth)

section \<open>Go's strings.TrimSpace\<close>

text \<open>
  \<open>strip_prefix w s\<close> is \<open>strings.CutPrefix\<close>: the rest of \<open>s\<close> after \<open>w\<close>, when \<open>s\<close> starts with \<open>w\<close>.
\<close>

fun strip_prefix :: "'a list \<Rightarrow> 'a list \<Rightarrow> 'a list option" where
  "strip_prefix [] ys = Some ys"
| "strip_prefix (x # xs) [] = None"
| "strip_prefix (x # xs) (y # ys) = (if x = y then strip_prefix xs ys else None)"

lemma strip_prefix_Some_iff: "strip_prefix w s = Some r \<longleftrightarrow> s = w @ r"
  by (induction w s rule: strip_prefix.induct) auto

lemma strip_prefix_None_iff: "strip_prefix w s = None \<longleftrightarrow> \<not> prefix w s"
  using strip_prefix_Some_iff [of w s] by (cases "strip_prefix w s") (auto simp: prefix_def)

lemma strip_prefix_append [simp]: "strip_prefix w (w @ r) = Some r"
  by (simp add: strip_prefix_Some_iff)

fun strip_first :: "'a list list \<Rightarrow> 'a list \<Rightarrow> 'a list option" where
  "strip_first [] s = None"
| "strip_first (w # ws) s =
     (case strip_prefix w s of Some r \<Rightarrow> Some r | None \<Rightarrow> strip_first ws s)"

lemma strip_first_SomeD:
  "strip_first ws s = Some r \<Longrightarrow> \<exists>w\<in>set ws. s = w @ r"
  by (induction ws) (auto simp: strip_prefix_Some_iff split: option.splits)

lemma strip_first_None_iff:
  "strip_first ws s = None \<longleftrightarrow> (\<forall>w\<in>set ws. \<not> prefix w s)"
  by (induction ws) (auto simp: strip_prefix_None_iff strip_prefix_Some_iff split: option.splits)

text \<open>
  The UTF-8 encodings of the code points \<open>unicode.IsSpace\<close> accepts: six ASCII controls and the
  blank, U+0085, U+00A0, U+1680, U+2000 to U+200A, U+2028, U+2029, U+202F, U+205F and U+3000.
\<close>

definition white_space :: "string list" where
  "white_space =
    [[CHR 0x09], [CHR 0x0A], [CHR 0x0B], [CHR 0x0C], [CHR 0x0D], [CHR 0x20],
     [CHR 0xC2, CHR 0x85], [CHR 0xC2, CHR 0xA0], [CHR 0xE1, CHR 0x9A, CHR 0x80],
     [CHR 0xE2, CHR 0x80, CHR 0x80], [CHR 0xE2, CHR 0x80, CHR 0x81],
     [CHR 0xE2, CHR 0x80, CHR 0x82], [CHR 0xE2, CHR 0x80, CHR 0x83],
     [CHR 0xE2, CHR 0x80, CHR 0x84], [CHR 0xE2, CHR 0x80, CHR 0x85],
     [CHR 0xE2, CHR 0x80, CHR 0x86], [CHR 0xE2, CHR 0x80, CHR 0x87],
     [CHR 0xE2, CHR 0x80, CHR 0x88], [CHR 0xE2, CHR 0x80, CHR 0x89],
     [CHR 0xE2, CHR 0x80, CHR 0x8A], [CHR 0xE2, CHR 0x80, CHR 0xA8],
     [CHR 0xE2, CHR 0x80, CHR 0xA9], [CHR 0xE2, CHR 0x80, CHR 0xAF],
     [CHR 0xE2, CHR 0x81, CHR 0x9F], [CHR 0xE3, CHR 0x80, CHR 0x80]]"

lemma white_space_nonempty: "[] \<notin> set white_space"
  by (simp add: white_space_def)

lemma rev_white_space_nonempty: "[] \<notin> set (map rev white_space)"
  by (simp add: white_space_def)

text \<open>Every removed encoding is not empty, so a fuel of the length of the string is enough.\<close>

fun trim_fuel :: "nat \<Rightarrow> string list \<Rightarrow> string \<Rightarrow> string" where
  "trim_fuel 0 ws s = s"
| "trim_fuel (Suc n) ws s =
     (case strip_first ws s of None \<Rightarrow> s | Some r \<Rightarrow> trim_fuel n ws r)"

definition trim_left :: "string \<Rightarrow> string" where
  "trim_left s = trim_fuel (length s) white_space s"

definition trim_right :: "string \<Rightarrow> string" where
  "trim_right s = rev (trim_fuel (length s) (map rev white_space) (rev s))"

definition TrimSpace :: "string \<Rightarrow> string" where
  "TrimSpace s = trim_right (trim_left s)"

lemma trim_fuel_suffix: "suffix (trim_fuel n ws s) s"
proof (induction n arbitrary: s)
  case (Suc n)
  show ?case
  proof (cases "strip_first ws s")
    case (Some r)
    then obtain w where "s = w @ r" by (blast dest: strip_first_SomeD)
    with Suc [of r] Some show ?thesis by (simp add: suffix_appendI)
  qed simp
qed simp

lemma trim_fuel_clean:
  assumes "[] \<notin> set ws" and "length s \<le> n"
  shows "strip_first ws (trim_fuel n ws s) = None"
  using assms(2)
proof (induction n arbitrary: s)
  case 0
  with assms(1) show ?case by (auto simp: strip_first_None_iff)
next
  case (Suc n)
  show ?case
  proof (cases "strip_first ws s")
    case (Some r)
    then obtain w where "w \<in> set ws" "s = w @ r" by (blast dest: strip_first_SomeD)
    with assms(1) Suc.prems have "length r \<le> n" by (cases w) auto
    with Suc.IH Some show ?thesis by simp
  qed simp
qed

lemma trim_fuel_fixed: "strip_first ws s = None \<Longrightarrow> trim_fuel n ws s = s"
  by (cases n) auto

lemma trim_left_clean: "strip_first white_space (trim_left s) = None"
  by (simp add: trim_left_def trim_fuel_clean white_space_nonempty)

lemma trim_right_clean: "strip_first (map rev white_space) (rev (trim_right s)) = None"
  using rev_white_space_nonempty by (simp add: trim_right_def trim_fuel_clean)

lemma trim_right_prefix: "prefix (trim_right s) s"
  using trim_fuel_suffix [of "length s" "map rev white_space" "rev s"]
  by (simp add: trim_right_def suffix_to_prefix)

lemma strip_first_None_prefix:
  "strip_first ws s = None \<Longrightarrow> prefix t s \<Longrightarrow> strip_first ws t = None"
  by (auto simp: strip_first_None_iff)

lemma TrimSpace_clean:
  "strip_first white_space (TrimSpace s) = None"
  "strip_first (map rev white_space) (rev (TrimSpace s)) = None"
  using strip_first_None_prefix [OF trim_left_clean trim_right_prefix]
  by (simp_all add: TrimSpace_def trim_right_clean)

lemma TrimSpace_fixed:
  assumes "strip_first white_space s = None" "strip_first (map rev white_space) (rev s) = None"
  shows "TrimSpace s = s"
  using assms by (simp add: TrimSpace_def trim_left_def trim_right_def trim_fuel_fixed)

lemma TrimSpace_idem [simp]: "TrimSpace (TrimSpace s) = TrimSpace s"
  by (rule TrimSpace_fixed) (rule TrimSpace_clean)+

lemma TrimSpace_Nil [simp]: "TrimSpace [] = []"
  by (simp add: TrimSpace_def trim_left_def trim_right_def)

section \<open>strings.Join and strings.Split\<close>

fun strings_Join :: "'a list \<Rightarrow> 'a list list \<Rightarrow> 'a list" where
  "strings_Join sep [] = []"
| "strings_Join sep [x] = x"
| "strings_Join sep (x # y # ys) = x @ sep @ strings_Join sep (y # ys)"

lemma strings_Join_Cons:
  "strings_Join sep (x # xs) = x @ (if xs = [] then [] else sep @ strings_Join sep xs)"
  by (cases xs) auto

text \<open>
  Joining with a one-character separator that no part contains is injective on non-empty lists:
  the separator occurs exactly between the parts.
\<close>

lemma append_sep_eqD:
  "x @ c # r = y @ c # s \<Longrightarrow> c \<notin> set x \<Longrightarrow> c \<notin> set y \<Longrightarrow> x = y \<and> r = s"
  by (induction x arbitrary: y) (auto simp: Cons_eq_append_conv)

lemma strings_Join_sep_inj:
  assumes "strings_Join [c] xs = strings_Join [c] ys" "xs \<noteq> []" "ys \<noteq> []"
    and "\<forall>x\<in>set xs. c \<notin> set x" "\<forall>y\<in>set ys. c \<notin> set y"
  shows "xs = ys"
  using assms
proof (induction xs arbitrary: ys)
  case (Cons x xs)
  then obtain z zs where ys: "ys = z # zs" by (cases ys) auto
  show ?case
  proof (cases "xs = [] \<or> zs = []")
    case True
    with Cons.prems ys show ?thesis by (auto simp: strings_Join_Cons split: if_splits)
  next
    case False
    with Cons.prems ys have "x @ c # strings_Join [c] xs = z @ c # strings_Join [c] zs"
      by (simp add: strings_Join_Cons [of _ x] strings_Join_Cons [of _ z])
    then have "x = z" "strings_Join [c] xs = strings_Join [c] zs"
      using Cons.prems ys append_sep_eqD by (metis list.set_intros(1))+
    with Cons False ys show ?thesis by simp
  qed
qed simp

end
