(* ===== verification/Rbac_Policies.thy ===== *)
theory Rbac_Policies
  imports Prelude
begin

text \<open>
  The in-memory policy store of \<^verbatim>\<open>src/authz/rbac/policies.go\<close>: every rule the process decides
  from, held per rule kind, in insertion order, keyed by its exact bytes.

  The four properties the package depends on, identity by value, adding an existing rule changing
  nothing, removals reporting what went, and insertion order kept, are proved here and stated as an
  interface in \<open>Rbac_Container\<close>.
\<close>

section \<open>Rules and rule kinds\<close>

type_synonym rule = "string list"

definition tenantRoleGrouping :: string where
  "tenantRoleGrouping = ''g''"

definition systemRoleGrouping :: string where
  "systemRoleGrouping = ''g2''"

definition permissionPtype :: string where
  "permissionPtype = ''p''"

lemmas ptype_defs = tenantRoleGrouping_def systemRoleGrouping_def permissionPtype_def

definition ruleTokens :: "string \<Rightarrow> nat option" where
  "ruleTokens ptype =
     (if ptype = permissionPtype then Some 5
      else if ptype = tenantRoleGrouping then Some 3
      else if ptype = systemRoleGrouping then Some 2
      else None)"

definition rulePtypes :: "string list" where
  "rulePtypes = [permissionPtype, tenantRoleGrouping, systemRoleGrouping]"

section \<open>The policy set\<close>

record policySet =
  rules_of :: "string \<Rightarrow> rule list"
  seen_of :: "string \<Rightarrow> string set"

definition newPolicySet :: policySet where
  "newPolicySet = \<lparr>rules_of = (\<lambda>_. []), seen_of = (\<lambda>_. {})\<rparr>"

definition ruleKey :: "rule \<Rightarrow> string" where
  "ruleKey rule = strings_Join [CHR 0x00] rule"

text \<open>
  The loop of \<open>add\<close>: the first component is the \<open>affected\<close> slice, the second the set.
\<close>

fun add_rules :: "policySet \<Rightarrow> string \<Rightarrow> rule list \<Rightarrow> rule list \<times> policySet" where
  "add_rules s ptype [] = ([], s)"
| "add_rules s ptype (rule # rules) =
     (if ruleKey rule \<in> seen_of s ptype then add_rules s ptype rules
      else
        (let s1 = s\<lparr>seen_of := (seen_of s)(ptype := insert (ruleKey rule) (seen_of s ptype)),
                    rules_of := (rules_of s)(ptype := rules_of s ptype @ [rule])\<rparr>;
             rest = add_rules s1 ptype rules
         in (rule # fst rest, snd rest)))"

definition policySet_add :: "policySet \<Rightarrow> string \<Rightarrow> rule list \<Rightarrow> rule list \<times> policySet" where
  "policySet_add s ptype rules = add_rules s ptype rules"

text \<open>
  \<open>remove\<close> first collects the keys that are present, deleting each from \<open>seen\<close>, then filters the
  rules once. Both early returns leave the set as it is.
\<close>

fun collect_removing :: "string set \<Rightarrow> rule list \<Rightarrow> string set \<times> string set" where
  "collect_removing seen [] = ({}, seen)"
| "collect_removing seen (rule # rules) =
     (if ruleKey rule \<notin> seen then collect_removing seen rules
      else
        (let (removing, seen') = collect_removing (seen - {ruleKey rule}) rules
         in (insert (ruleKey rule) removing, seen')))"

definition policySet_remove :: "policySet \<Rightarrow> string \<Rightarrow> rule list \<Rightarrow> rule list \<times> policySet" where
  "policySet_remove s ptype rules =
     (if seen_of s ptype = {} then ([], s)
      else
        (let (removing, seen') = collect_removing (seen_of s ptype) rules
         in if removing = {} then ([], s)
            else
              (filter (\<lambda>r. ruleKey r \<in> removing) (rules_of s ptype),
               s\<lparr>seen_of := (seen_of s)(ptype := seen'),
                 rules_of := (rules_of s)(ptype := filter (\<lambda>r. ruleKey r \<notin> removing) (rules_of s ptype))\<rparr>)))"

text \<open>
  \<open>ruleMatchesFilter\<close> walks the filter values; \<open>position\<close> is \<open>fieldIndex + i\<close>. Every caller passes
  the literal index 0 or 1, so the index is a natural number here.
\<close>

fun ruleMatchesFilter :: "rule \<Rightarrow> nat \<Rightarrow> string list \<Rightarrow> bool" where
  "ruleMatchesFilter rule position [] = True"
| "ruleMatchesFilter rule position (value # values) =
     (if value = [] then ruleMatchesFilter rule (Suc position) values
      else if length rule \<le> position \<or> rule ! position \<noteq> value then False
      else ruleMatchesFilter rule (Suc position) values)"

definition policySet_removeFiltered ::
  "policySet \<Rightarrow> string \<Rightarrow> nat \<Rightarrow> string list \<Rightarrow> rule list \<times> policySet" where
  "policySet_removeFiltered s ptype fieldIndex fieldValues =
     (let rules = rules_of s ptype in
      if rules = [] then ([], s)
      else
        (let affected = filter (\<lambda>r. ruleMatchesFilter r fieldIndex fieldValues) rules;
             kept = filter (\<lambda>r. \<not> ruleMatchesFilter r fieldIndex fieldValues) rules
         in (affected,
             s\<lparr>seen_of := (seen_of s)(ptype := seen_of s ptype - ruleKey ` set affected),
               rules_of := (rules_of s)(ptype := kept)\<rparr>)))"

definition policySet_filtered :: "policySet \<Rightarrow> string \<Rightarrow> nat \<Rightarrow> string \<Rightarrow> rule list" where
  "policySet_filtered s ptype fieldIndex value =
     filter (\<lambda>r. fieldIndex < length r \<and> r ! fieldIndex = value) (rules_of s ptype)"

definition policySet_all :: "policySet \<Rightarrow> string \<Rightarrow> rule list" where
  "policySet_all s ptype = rules_of s ptype"

section \<open>Identity of rules\<close>

text \<open>
  A rule is well formed for its kind when it carries exactly the declared number of values and none
  of them contains the NUL byte that \<open>ruleKey\<close> joins with.
\<close>

definition rule_ok :: "string \<Rightarrow> rule \<Rightarrow> bool" where
  "rule_ok ptype rule \<longleftrightarrow>
     ruleTokens ptype = Some (length rule) \<and> (\<forall>v\<in>set rule. CHR 0x00 \<notin> set v)"

lemma rule_ok_nonempty: "rule_ok ptype rule \<Longrightarrow> rule \<noteq> []"
  by (auto simp: rule_ok_def ruleTokens_def split: if_splits)

lemma ruleKey_inj:
  assumes "rule_ok pt r" "rule_ok pt' r'" "ruleKey r = ruleKey r'"
  shows "r = r'"
proof (rule strings_Join_sep_inj)
  show "strings_Join [CHR 0x00] r = strings_Join [CHR 0x00] r'"
    using assms(3) by (simp add: ruleKey_def)
  show "r \<noteq> []" "r' \<noteq> []"
    using assms by (auto dest: rule_ok_nonempty)
qed (use assms in \<open>simp_all add: rule_ok_def\<close>)

lemma ruleKey_image_iff:
  "rule_ok pt r \<Longrightarrow> \<forall>x\<in>set rs. rule_ok pt x \<Longrightarrow> ruleKey r \<in> ruleKey ` set rs \<longleftrightarrow> r \<in> set rs"
  by (auto dest: ruleKey_inj)

section \<open>The invariant\<close>

text \<open>
  \<open>seen\<close> holds exactly the keys of the rules held, and no key is held twice.
\<close>

definition policySet_wf :: "policySet \<Rightarrow> bool" where
  "policySet_wf s \<longleftrightarrow>
     (\<forall>ptype. seen_of s ptype = ruleKey ` set (rules_of s ptype) \<and>
              distinct (map ruleKey (rules_of s ptype)))"

lemma policySet_wf_new: "policySet_wf newPolicySet"
  by (simp add: policySet_wf_def newPolicySet_def)

lemma policySet_wfD:
  assumes "policySet_wf s"
  shows "seen_of s ptype = ruleKey ` set (rules_of s ptype)"
    and "distinct (map ruleKey (rules_of s ptype))"
  using assms by (simp_all add: policySet_wf_def)

text \<open>
  \<open>new_rules old rules\<close> is the sublist of \<open>rules\<close> that \<open>add\<close> stores: those not among \<open>old\<close>, each
  at its first occurrence.
\<close>

fun new_rules :: "'a list \<Rightarrow> 'a list \<Rightarrow> 'a list" where
  "new_rules old [] = []"
| "new_rules old (r # rs) =
     (if r \<in> set old then new_rules old rs else r # new_rules (old @ [r]) rs)"

lemma set_new_rules: "set old \<union> set (new_rules old rs) = set old \<union> set rs"
  by (induction old rs rule: new_rules.induct) auto

lemma set_new_rules_subset: "set (new_rules old rs) \<subseteq> set rs"
  by (induction old rs rule: new_rules.induct) auto

lemma distinct_new_rules: "distinct old \<Longrightarrow> distinct (old @ new_rules old rs)"
  by (induction old rs rule: new_rules.induct) auto

lemma add_rules_wf: "policySet_wf s \<Longrightarrow> policySet_wf (snd (add_rules s ptype rs))"
proof (induction s ptype rs rule: add_rules.induct)
  case (2 s ptype rule rules)
  show ?case
  proof (cases "ruleKey rule \<in> seen_of s ptype")
    case False
    then have "policySet_wf
      (s\<lparr>seen_of := (seen_of s)(ptype := insert (ruleKey rule) (seen_of s ptype)),
         rules_of := (rules_of s)(ptype := rules_of s ptype @ [rule])\<rparr>)"
      using "2.prems" by (auto simp: policySet_wf_def)
    with 2 False show ?thesis by (simp add: Let_def)
  qed (use 2 in simp)
qed simp

lemma add_rules_other: "pt \<noteq> ptype \<Longrightarrow> rules_of (snd (add_rules s ptype rs)) pt = rules_of s pt"
  by (induction s ptype rs rule: add_rules.induct) (auto simp: Let_def)

lemma add_rules_spec:
  assumes "policySet_wf s" "\<forall>r\<in>set (rules_of s ptype). rule_ok ptype r" "\<forall>r\<in>set rs. rule_ok ptype r"
  shows "fst (add_rules s ptype rs) = new_rules (rules_of s ptype) rs \<and>
    rules_of (snd (add_rules s ptype rs)) ptype =
      rules_of s ptype @ new_rules (rules_of s ptype) rs"
  using assms
proof (induction s ptype rs rule: add_rules.induct)
  case (2 s ptype rule rules)
  have mem: "ruleKey rule \<in> seen_of s ptype \<longleftrightarrow> rule \<in> set (rules_of s ptype)"
    using "2.prems" ruleKey_image_iff [of ptype rule "rules_of s ptype"] by (simp add: policySet_wfD)
  show ?case
  proof (cases "rule \<in> set (rules_of s ptype)")
    case True
    with 2 mem show ?thesis by simp
  next
    case False
    let ?s1 = "s\<lparr>seen_of := (seen_of s)(ptype := insert (ruleKey rule) (seen_of s ptype)),
         rules_of := (rules_of s)(ptype := rules_of s ptype @ [rule])\<rparr>"
    have "policySet_wf ?s1"
      using "2.prems" False mem by (auto simp: policySet_wf_def)
    with 2 False mem show ?thesis by (simp add: Let_def)
  qed
qed simp

lemma collect_removing_spec:
  "collect_removing seen rs = (ruleKey ` set rs \<inter> seen, seen - ruleKey ` set rs)"
  by (induction seen rs rule: collect_removing.induct) auto

lemma policySet_remove_wf: "policySet_wf s \<Longrightarrow> policySet_wf (snd (policySet_remove s ptype rs))"
  unfolding policySet_remove_def collect_removing_spec policySet_wf_def
  by (auto simp: Let_def distinct_map_filter_imp)

lemma policySet_remove_other:
  "pt \<noteq> ptype \<Longrightarrow> rules_of (snd (policySet_remove s ptype rs)) pt = rules_of s pt"
  by (simp add: policySet_remove_def collect_removing_spec Let_def)

lemma policySet_remove_spec:
  assumes "policySet_wf s" "\<forall>r\<in>set (rules_of s ptype). rule_ok ptype r" "\<forall>r\<in>set rs. rule_ok ptype r"
  shows "fst (policySet_remove s ptype rs) = filter (\<lambda>r. r \<in> set rs) (rules_of s ptype)"
    and "rules_of (snd (policySet_remove s ptype rs)) ptype =
      filter (\<lambda>r. r \<notin> set rs) (rules_of s ptype)"
proof -
  have key: "ruleKey r \<in> ruleKey ` set rs \<inter> seen_of s ptype \<longleftrightarrow> r \<in> set rs"
    if "r \<in> set (rules_of s ptype)" for r
    using that assms by (auto simp: policySet_wfD dest: ruleKey_inj)
  have none: "ruleKey ` set rs \<inter> seen_of s ptype = {} \<Longrightarrow> r \<in> set (rules_of s ptype) \<Longrightarrow> r \<notin> set rs" for r
    using key by blast
  show "fst (policySet_remove s ptype rs) = filter (\<lambda>r. r \<in> set rs) (rules_of s ptype)"
    using key none assms(1)
    by (auto simp: policySet_remove_def collect_removing_spec Let_def policySet_wfD
        filter_empty_conv cong: filter_cong)
  show "rules_of (snd (policySet_remove s ptype rs)) ptype =
      filter (\<lambda>r. r \<notin> set rs) (rules_of s ptype)"
    using key none assms(1)
    by (auto simp: policySet_remove_def collect_removing_spec Let_def policySet_wfD
        filter_id_conv cong: filter_cong intro!: filter_True [symmetric])
qed

lemma policySet_removeFiltered_wf:
  "policySet_wf s \<Longrightarrow> policySet_wf (snd (policySet_removeFiltered s ptype i vs))"
  unfolding policySet_removeFiltered_def policySet_wf_def Let_def
  by (auto simp: distinct_map_filter_imp distinct_map inj_on_def)

lemma policySet_removeFiltered_other:
  "pt \<noteq> ptype \<Longrightarrow> rules_of (snd (policySet_removeFiltered s ptype i vs)) pt = rules_of s pt"
  by (simp add: policySet_removeFiltered_def Let_def)

lemma policySet_removeFiltered_spec:
  "fst (policySet_removeFiltered s ptype i vs) =
     filter (\<lambda>r. ruleMatchesFilter r i vs) (rules_of s ptype)"
  "rules_of (snd (policySet_removeFiltered s ptype i vs)) ptype =
     filter (\<lambda>r. \<not> ruleMatchesFilter r i vs) (rules_of s ptype)"
  by (auto simp: policySet_removeFiltered_def Let_def)

end
