(* ===== verification/Rbac_Graph.thy ===== *)
theory Rbac_Graph
  imports Rbac_Policies
begin

text \<open>
  Role reachability, \<^verbatim>\<open>src/authz/rbac/rolegraph.go\<close>, and the closure walk of
  \<^verbatim>\<open>src/authz/rbac/authorize.go\<close>. Both walk the graph level by level with a set of names already
  seen and stop after \<open>maxRoleHierarchy\<close> levels. The specification is the relation "is assigned
  directly" and its bounded powers; the walks are proved to compute exactly that.
\<close>

section \<open>The graph\<close>

definition maxRoleHierarchy :: nat where
  "maxRoleHierarchy = 10"

record roleGraph =
  graph_tenant :: "string \<Rightarrow> string \<Rightarrow> string list"
  graph_system :: "string \<Rightarrow> string list"

fun add_tenant_links :: "(string \<Rightarrow> string \<Rightarrow> string list) \<Rightarrow> rule list \<Rightarrow> string \<Rightarrow> string \<Rightarrow> string list" where
  "add_tenant_links g [] = g"
| "add_tenant_links g (rule # rules) =
     add_tenant_links
       (g(rule ! 2 := (g (rule ! 2))(rule ! 0 := g (rule ! 2) (rule ! 0) @ [rule ! 1]))) rules"

fun add_system_links :: "(string \<Rightarrow> string list) \<Rightarrow> rule list \<Rightarrow> string \<Rightarrow> string list" where
  "add_system_links g [] = g"
| "add_system_links g (rule # rules) =
     add_system_links (g(rule ! 0 := g (rule ! 0) @ [rule ! 1])) rules"

definition buildRoleGraph :: "policySet \<Rightarrow> roleGraph" where
  "buildRoleGraph ps =
     \<lparr>graph_tenant = add_tenant_links (\<lambda>_ _. []) (policySet_all ps tenantRoleGrouping),
      graph_system = add_system_links (\<lambda>_. []) (policySet_all ps systemRoleGrouping)\<rparr>"

definition directRoles :: "roleGraph \<Rightarrow> string \<Rightarrow> string \<Rightarrow> string \<Rightarrow> string list" where
  "directRoles g grouping name domain =
     (if grouping = systemRoleGrouping then graph_system g name else graph_tenant g domain name)"

lemma add_tenant_links_eq:
  "add_tenant_links g rs domain name =
     g domain name @ map (\<lambda>r. r ! 1) (filter (\<lambda>r. r ! 0 = name \<and> r ! 2 = domain) rs)"
  by (induction rs arbitrary: g) auto

lemma add_system_links_eq:
  "add_system_links g rs name = g name @ map (\<lambda>r. r ! 1) (filter (\<lambda>r. r ! 0 = name) rs)"
  by (induction rs arbitrary: g) auto

text \<open>
  The graph is exactly the grouping rules: a name holds directly the roles its assignments name, in
  the order the assignments were added.
\<close>

lemma directRoles_tenant:
  "directRoles (buildRoleGraph ps) tenantRoleGrouping name domain =
     map (\<lambda>r. r ! 1) (filter (\<lambda>r. r ! 0 = name \<and> r ! 2 = domain) (rules_of ps tenantRoleGrouping))"
  by (simp add: directRoles_def buildRoleGraph_def add_tenant_links_eq policySet_all_def ptype_defs)

lemma directRoles_system:
  "directRoles (buildRoleGraph ps) systemRoleGrouping name domain =
     map (\<lambda>r. r ! 1) (filter (\<lambda>r. r ! 0 = name) (rules_of ps systemRoleGrouping))"
  by (simp add: directRoles_def buildRoleGraph_def add_system_links_eq policySet_all_def)

section \<open>hasLink\<close>

text \<open>
  The two inner loops over the frontier and the roles each name holds, as one function each: the
  result says whether the role was met, and carries the names seen and the next frontier.
\<close>

fun link_scan_held :: "string \<Rightarrow> string list \<Rightarrow> string set \<Rightarrow> string list \<Rightarrow> bool \<times> string set \<times> string list" where
  "link_scan_held role [] seen next = (False, seen, next)"
| "link_scan_held role (held # rest) seen next =
     (if held = role then (True, seen, next)
      else if held \<in> seen then link_scan_held role rest seen next
      else link_scan_held role rest (insert held seen) (next @ [held]))"

fun link_scan_frontier ::
  "(string \<Rightarrow> string list) \<Rightarrow> string \<Rightarrow> string list \<Rightarrow> string set \<Rightarrow> string list \<Rightarrow> bool \<times> string set \<times> string list" where
  "link_scan_frontier direct role [] seen next = (False, seen, next)"
| "link_scan_frontier direct role (name # names) seen next =
     (case link_scan_held role (direct name) seen next of
        (found, seen', next') \<Rightarrow>
          if found then (True, seen', next')
          else link_scan_frontier direct role names seen' next')"

text \<open>The first argument counts the levels left of \<open>maxRoleHierarchy\<close>.\<close>

fun link_levels :: "nat \<Rightarrow> (string \<Rightarrow> string list) \<Rightarrow> string \<Rightarrow> string set \<Rightarrow> string list \<Rightarrow> bool" where
  "link_levels 0 direct role seen frontier = False"
| "link_levels (Suc level) direct role seen frontier =
     (if frontier = [] then False
      else
        (case link_scan_frontier direct role frontier seen [] of
           (found, seen', next') \<Rightarrow>
             if found then True else link_levels level direct role seen' next'))"

definition hasLink :: "roleGraph \<Rightarrow> string \<Rightarrow> string \<Rightarrow> string \<Rightarrow> string \<Rightarrow> bool" where
  "hasLink g grouping subject role domain =
     (if subject = role then True
      else link_levels maxRoleHierarchy (\<lambda>name. directRoles g grouping name domain) role {subject} [subject])"

section \<open>subjectRoleClosure\<close>

fun closure_scan_held :: "string list \<Rightarrow> string set \<Rightarrow> string list \<Rightarrow> string set \<times> string list" where
  "closure_scan_held [] seen next = (seen, next)"
| "closure_scan_held (role # rest) seen next =
     (if role \<in> seen then closure_scan_held rest seen next
      else closure_scan_held rest (insert role seen) (next @ [role]))"

fun closure_scan_frontier ::
  "(string \<Rightarrow> string list) \<Rightarrow> string list \<Rightarrow> string set \<Rightarrow> string list \<Rightarrow> string set \<times> string list" where
  "closure_scan_frontier direct [] seen next = (seen, next)"
| "closure_scan_frontier direct (name # names) seen next =
     (case closure_scan_held (direct name) seen next of
        (seen', next') \<Rightarrow> closure_scan_frontier direct names seen' next')"

fun closure_levels :: "nat \<Rightarrow> (string \<Rightarrow> string list) \<Rightarrow> string set \<Rightarrow> string list \<Rightarrow> string list \<Rightarrow> string list" where
  "closure_levels 0 direct seen frontier closure = closure"
| "closure_levels (Suc level) direct seen frontier closure =
     (if frontier = [] then closure
      else
        (case closure_scan_frontier direct frontier seen [] of
           (seen', next') \<Rightarrow>
             closure_levels level direct seen' (sort next') (closure @ sort next')))"

definition subjectRoleClosure :: "roleGraph option \<Rightarrow> string \<Rightarrow> string \<Rightarrow> string list" where
  "subjectRoleClosure policyGraph subject tenant =
     (case policyGraph of
        None \<Rightarrow> []
      | Some graph \<Rightarrow>
          if subject = [] then []
          else closure_levels maxRoleHierarchy
                 (\<lambda>name. directRoles graph tenantRoleGrouping name tenant) {subject} [subject] [])"

section \<open>Bounded reachability\<close>

text \<open>\<open>links direct\<close> is the relation "holds directly".\<close>

definition links :: "(string \<Rightarrow> string list) \<Rightarrow> (string \<times> string) set" where
  "links direct = {(a, b). b \<in> set (direct a)}"

definition reaches :: "(string \<Rightarrow> string list) \<Rightarrow> nat \<Rightarrow> string \<Rightarrow> string \<Rightarrow> bool" where
  "reaches direct n a b \<longleftrightarrow> (\<exists>m. 1 \<le> m \<and> m \<le> n \<and> (a, b) \<in> links direct ^^ m)"

lemma links_Image: "links direct `` A = (\<Union>a\<in>A. set (direct a))"
  by (auto simp: links_def)

lemma closure_scan_held_spec:
  "closure_scan_held held seen next = (seen', next') \<Longrightarrow>
     seen' = seen \<union> set held \<and> set next' = set next \<union> (set held - seen) \<and>
     (distinct next \<and> set next \<subseteq> seen \<longrightarrow> distinct next')"
  by (induction held seen "next" rule: closure_scan_held.induct) (auto split: if_splits)

lemma closure_scan_frontier_spec:
  "closure_scan_frontier direct frontier seen next = (seen', next') \<Longrightarrow>
     seen' = seen \<union> links direct `` set frontier \<and>
     set next' = set next \<union> (links direct `` set frontier - seen) \<and>
     (distinct next \<and> set next \<subseteq> seen \<longrightarrow> distinct next')"
proof (induction direct frontier seen "next" rule: closure_scan_frontier.induct)
  case (2 direct name names seen "next")
  obtain s n where sn: "closure_scan_held (direct name) seen next = (s, n)" by fastforce
  from closure_scan_held_spec [OF sn]
  have h: "s = seen \<union> set (direct name)" "set n = set next \<union> (set (direct name) - seen)"
    "distinct next \<and> set next \<subseteq> seen \<longrightarrow> distinct n" by auto
  from 2 sn have
    "seen' = s \<union> links direct `` set names" "set next' = set n \<union> (links direct `` set names - s)"
    "distinct n \<and> set n \<subseteq> s \<longrightarrow> distinct next'" by auto
  with h show ?case by (auto simp: links_Image)
qed (auto simp: links_Image)

lemma link_scan_held_spec:
  "role \<notin> seen \<Longrightarrow> link_scan_held role held seen next = (found, seen', next') \<Longrightarrow>
     found = (role \<in> set held) \<and>
     (\<not> found \<longrightarrow> closure_scan_held held seen next = (seen', next') \<and> role \<notin> seen')"
  by (induction role held seen "next" rule: link_scan_held.induct) (auto split: if_splits)

lemma link_scan_frontier_spec:
  "role \<notin> seen \<Longrightarrow> link_scan_frontier direct role frontier seen next = (found, seen', next') \<Longrightarrow>
     found = (role \<in> links direct `` set frontier) \<and>
     (\<not> found \<longrightarrow> closure_scan_frontier direct frontier seen next = (seen', next') \<and> role \<notin> seen')"
proof (induction direct role frontier seen "next" rule: link_scan_frontier.induct)
  case (2 direct role name names seen "next")
  obtain f s n where fsn: "link_scan_held role (direct name) seen next = (f, s, n)"
    by (cases "link_scan_held role (direct name) seen next") auto
  have h: "f = (role \<in> set (direct name))"
    "\<not> f \<longrightarrow> closure_scan_held (direct name) seen next = (s, n) \<and> role \<notin> s"
    using link_scan_held_spec [OF 2(2) fsn] by auto
  show ?case
  proof (cases f)
    case True
    with 2 fsn h show ?thesis by (auto simp: links_Image)
  next
    case False
    with 2 fsn h show ?thesis by (auto simp: links_Image)
  qed
qed (auto simp: links_Image)

text \<open>
  The step lemma of both walks. \<open>seen\<close> is closed but for the frontier, so a path from the frontier
  to a name outside what the next level has seen passes through the next frontier, and is shorter
  from there.
\<close>

lemma leave_seen:
  assumes "(y, z) \<in> E ^^ m" "y \<in> seen" "z \<notin> seen \<union> E `` frontier"
    and "E `` (seen - frontier) \<subseteq> seen"
  shows "\<exists>x m'. x \<in> E `` frontier - seen \<and> 1 \<le> m' \<and> m' < m \<and> (x, z) \<in> E ^^ m'"
  using assms(1,2)
proof (induction m arbitrary: y)
  case 0
  with assms(3) show ?case by simp
next
  case (Suc m)
  then obtain w where w: "(y, w) \<in> E" "(w, z) \<in> E ^^ m" by (meson relpow_Suc_D2)
  show ?case
  proof (cases "w \<in> seen")
    case True
    with Suc.IH [OF w(2) True] show ?thesis by (meson less_Suc_eq)
  next
    case False
    with w(1) Suc.prems(2) assms(4) have "w \<in> E `` frontier - seen" by blast
    moreover from this assms(3) w(2) have "m \<noteq> 0" by (metis DiffD1 UnCI relpow_0_E)
    ultimately show ?thesis using w(2) by (intro exI [of _ w] exI [of _ m]) auto
  qed
qed

lemma next_level:
  assumes "frontier \<subseteq> seen" "E `` (seen - frontier) \<subseteq> seen" "z \<notin> seen"
  shows "(\<exists>m x. 1 \<le> m \<and> m \<le> Suc n \<and> x \<in> frontier \<and> (x, z) \<in> E ^^ m) \<longleftrightarrow>
    z \<in> E `` frontier \<or>
    (\<exists>m x. 1 \<le> m \<and> m \<le> n \<and> x \<in> E `` frontier - seen \<and> (x, z) \<in> E ^^ m)" (is "?L \<longleftrightarrow> ?R")
proof
  assume ?L
  then obtain m x where m: "1 \<le> m" "m \<le> Suc n" "x \<in> frontier" "(x, z) \<in> E ^^ m" by blast
  show ?R
  proof (cases "z \<in> E `` frontier")
    case False
    with assms m leave_seen [of x z m E seen frontier] show ?thesis
      by (metis UnE in_mono less_Suc_eq_le order_less_le_trans)
  qed simp
next
  assume ?R
  then show ?L
  proof
    assume "z \<in> E `` frontier"
    then obtain x where "x \<in> frontier" "(x, z) \<in> E" by blast
    then show ?L by (intro exI [of _ 1] exI [of _ x]) auto
  next
    assume "\<exists>m x. 1 \<le> m \<and> m \<le> n \<and> x \<in> E `` frontier - seen \<and> (x, z) \<in> E ^^ m"
    then obtain m x w where "1 \<le> m" "m \<le> n" "w \<in> frontier" "(w, x) \<in> E" "(x, z) \<in> E ^^ m" by blast
    then have "(w, z) \<in> E ^^ Suc m" by (blast intro: relpow_Suc_I2)
    with \<open>m \<le> n\<close> \<open>w \<in> frontier\<close> show ?L by (intro exI [of _ "Suc m"] exI [of _ w]) simp
  qed
qed

lemma level_closed:
  assumes "E `` (seen - frontier) \<subseteq> seen"
  shows "E `` ((seen \<union> E `` frontier) - (E `` frontier - seen)) \<subseteq> seen \<union> E `` frontier"
  using assms by blast

lemma link_levels_spec:
  assumes "set frontier \<subseteq> seen" "links direct `` (seen - set frontier) \<subseteq> seen" "role \<notin> seen"
  shows "link_levels n direct role seen frontier \<longleftrightarrow>
    (\<exists>m x. 1 \<le> m \<and> m \<le> n \<and> x \<in> set frontier \<and> (x, role) \<in> links direct ^^ m)"
  using assms
proof (induction n arbitrary: seen frontier)
  case (Suc n)
  obtain found seen' next' where scan: "link_scan_frontier direct role frontier seen [] = (found, seen', next')"
    by (cases "link_scan_frontier direct role frontier seen []") auto
  note spec = link_scan_frontier_spec [OF Suc.prems(3) scan]
  note level = next_level [OF Suc.prems(1,2,3), of n]
  show ?case
  proof (cases "frontier = [] \<or> found")
    case True
    then show ?thesis using spec level scan by auto
  next
    case False
    with spec have "closure_scan_frontier direct frontier seen [] = (seen', next')" "role \<notin> seen'" by auto
    with closure_scan_frontier_spec [OF this(1)]
    have s: "seen' = seen \<union> links direct `` set frontier"
      "set next' = links direct `` set frontier - seen" by auto
    have "link_levels n direct role seen' next' \<longleftrightarrow>
      (\<exists>m x. 1 \<le> m \<and> m \<le> n \<and> x \<in> set next' \<and> (x, role) \<in> links direct ^^ m)"
      using s \<open>role \<notin> seen'\<close> level_closed [OF Suc.prems(2)] by (intro Suc.IH) auto
    with False spec level scan s show ?thesis by simp
  qed
qed auto

lemma closure_levels_keep: "z \<in> set closure \<Longrightarrow> z \<in> set (closure_levels n direct seen frontier closure)"
  by (induction n arbitrary: seen frontier closure) (auto simp: case_prod_beta)

lemma closure_levels_spec:
  assumes "set frontier \<subseteq> seen" "links direct `` (seen - set frontier) \<subseteq> seen" "z \<notin> seen"
  shows "z \<in> set (closure_levels n direct seen frontier closure) \<longleftrightarrow>
    z \<in> set closure \<or> (\<exists>m x. 1 \<le> m \<and> m \<le> n \<and> x \<in> set frontier \<and> (x, z) \<in> links direct ^^ m)"
  using assms
proof (induction n arbitrary: seen frontier closure)
  case (Suc n)
  obtain seen' next' where scan: "closure_scan_frontier direct frontier seen [] = (seen', next')"
    by (cases "closure_scan_frontier direct frontier seen []") auto
  from closure_scan_frontier_spec [OF scan]
  have s: "seen' = seen \<union> links direct `` set frontier"
    "set next' = links direct `` set frontier - seen" by auto
  note level = next_level [OF Suc.prems(1,2,3), of n]
  show ?case
  proof (cases "frontier = []")
    case False
    have tail: "z \<in> set (closure_levels n direct seen' (sort next') c) \<longleftrightarrow>
      z \<in> set c \<or> (\<exists>m x. 1 \<le> m \<and> m \<le> n \<and> x \<in> set next' \<and> (x, z) \<in> links direct ^^ m)"
      if "z \<notin> seen'" for c
    proof -
      have "set (sort next') \<subseteq> seen'" using s by auto
      moreover have "links direct `` (seen' - set (sort next')) \<subseteq> seen'"
        using s level_closed [OF Suc.prems(2)] by simp
      ultimately show ?thesis using Suc.IH [OF _ _ that, of "sort next'" c] by simp
    qed
    show ?thesis
    proof (cases "z \<in> seen'")
      case True
      with s Suc.prems(3) have "z \<in> set next'" by simp
      with False scan level s closure_levels_keep show ?thesis by simp
    next
      case False
      with tail [OF False, of "closure @ sort next'"] \<open>frontier \<noteq> []\<close> scan level s show ?thesis by simp
    qed
  qed auto
qed auto

lemma reaches_single:
  "reaches direct n a b \<longleftrightarrow> (\<exists>m x. 1 \<le> m \<and> m \<le> n \<and> x \<in> set [a] \<and> (x, b) \<in> links direct ^^ m)"
  by (auto simp: reaches_def)

lemma hasLink_iff:
  assumes "subject \<noteq> role"
  shows "hasLink g grouping subject role domain \<longleftrightarrow>
    reaches (\<lambda>name. directRoles g grouping name domain) maxRoleHierarchy subject role"
  unfolding reaches_single
  using assms by (simp add: hasLink_def) (subst link_levels_spec; simp)

lemma closure_levels_disjoint:
  "x \<in> set (closure_levels n direct seen frontier closure) \<Longrightarrow> x \<in> set closure \<or> x \<notin> seen"
proof (induction n direct seen frontier closure rule: closure_levels.induct)
  case (2 level direct seen frontier closure)
  obtain seen' next' where scan: "closure_scan_frontier direct frontier seen [] = (seen', next')"
    by (cases "closure_scan_frontier direct frontier seen []") auto
  from closure_scan_frontier_spec [OF scan] have
    "seen \<subseteq> seen'" "set next' \<inter> seen = {}" by auto
  with 2 scan show ?case by (auto split: if_splits)
qed simp

lemma set_subjectRoleClosure:
  assumes "subject \<noteq> []"
  shows "set (subjectRoleClosure (Some graph) subject tenant) =
    {role. role \<noteq> subject \<and>
       reaches (\<lambda>name. directRoles graph tenantRoleGrouping name tenant) maxRoleHierarchy subject role}"
proof -
  let ?direct = "\<lambda>name. directRoles graph tenantRoleGrouping name tenant"
  let ?c = "closure_levels maxRoleHierarchy ?direct {subject} [subject] []"
  have "role \<in> set ?c \<longleftrightarrow> reaches ?direct maxRoleHierarchy subject role" if "role \<noteq> subject" for role
    using that closure_levels_spec [of "[subject]" "{subject}" ?direct role maxRoleHierarchy "[]"]
    by (auto simp: reaches_def)
  moreover have "subject \<notin> set ?c"
    using closure_levels_disjoint [of subject maxRoleHierarchy ?direct "{subject}" "[subject]" "[]"] by auto
  ultimately have "role \<in> set ?c \<longleftrightarrow> role \<noteq> subject \<and> reaches ?direct maxRoleHierarchy subject role" for role
    by (cases "role = subject") simp_all
  then show ?thesis
    using assms by (auto simp: subjectRoleClosure_def)
qed

end
