(* ===== verification/Utf8.thy ===== *)
theory Utf8
  imports Prelude
begin

text \<open>
  Go's view of a byte string as a sequence of runes, as \<open>unicode/utf8\<close> decodes it: the regular
  expression engine behind the path templates of \<^verbatim>\<open>src/authz/rbac/pathmatch.go\<close> reads both the
  pattern and the path this way. A pattern with an ill-formed sequence is refused; a path with one
  is read with the replacement rune U+FFFD in its place.
\<close>

type_synonym rune = nat

definition bytes :: "string \<Rightarrow> nat list" where
  "bytes s = map of_char s"

definition runeError :: rune where
  "runeError = 0xFFFD"

definition cont :: "nat \<Rightarrow> bool" where
  "cont b \<longleftrightarrow> 0x80 \<le> b \<and> b \<le> 0xBF"

text \<open>
  \<open>decode_rune bs\<close> is the rune at the front of \<open>bs\<close> and the number of bytes it takes, \<open>None\<close> when
  the front is no well-formed sequence (overlong forms, surrogates and values beyond U+10FFFF are
  excluded by the ranges of the second byte).
\<close>

definition decode_rune :: "nat list \<Rightarrow> (rune \<times> nat) option" where
  "decode_rune bs =
    (case bs of
       [] \<Rightarrow> None
     | b0 # r0 \<Rightarrow>
        if b0 < 0x80 then Some (b0, 1)
        else if 0xC2 \<le> b0 \<and> b0 \<le> 0xDF then
          (case r0 of
             b1 # _ \<Rightarrow> if cont b1 then Some ((b0 - 0xC0) * 64 + (b1 - 0x80), 2) else None
           | [] \<Rightarrow> None)
        else if 0xE0 \<le> b0 \<and> b0 \<le> 0xEF then
          (case r0 of
             b1 # b2 # _ \<Rightarrow>
               if (if b0 = 0xE0 then 0xA0 else 0x80) \<le> b1 \<and> b1 \<le> (if b0 = 0xED then 0x9F else 0xBF)
                  \<and> cont b2
               then Some ((b0 - 0xE0) * 4096 + (b1 - 0x80) * 64 + (b2 - 0x80), 3) else None
           | _ \<Rightarrow> None)
        else if 0xF0 \<le> b0 \<and> b0 \<le> 0xF4 then
          (case r0 of
             b1 # b2 # b3 # _ \<Rightarrow>
               if (if b0 = 0xF0 then 0x90 else 0x80) \<le> b1 \<and> b1 \<le> (if b0 = 0xF4 then 0x8F else 0xBF)
                  \<and> cont b2 \<and> cont b3
               then Some ((b0 - 0xF0) * 262144 + (b1 - 0x80) * 4096 + (b2 - 0x80) * 64 + (b3 - 0x80), 4)
               else None
           | _ \<Rightarrow> None)
        else None)"

lemma decode_rune_width: "decode_rune bs = Some (r, n) \<Longrightarrow> 0 < n"
  by (auto simp: decode_rune_def split: list.splits if_splits)

lemma decode_rune_ascii: "b < 0x80 \<Longrightarrow> decode_rune (b # bs) = Some (b, 1)"
  by (simp add: decode_rune_def)

text \<open>A rune below U+0080 comes from exactly one byte, the byte of that value.\<close>

lemma decode_rune_small:
  assumes "decode_rune bs = Some (r, n)" "r < 0x80"
  shows "n = 1 \<and> (\<exists>rest. bs = r # rest)"
proof -
  have two: "128 \<le> (b0 - 192) * 64 + (b1 - 128)" if "194 \<le> b0" for b0 b1 :: nat
    using that by linarith
  have three: "128 \<le> (b0 - 224) * 4096 + (b1 - 128) * 64 + (b2 - 128)"
    if "224 \<le> b0" "(if b0 = 224 then 160 else 128) \<le> b1" for b0 b1 b2 :: nat
    using that by (cases "b0 = 224") auto
  have four: "128 \<le> (b0 - 240) * 262144 + (b1 - 128) * 4096 + (b2 - 128) * 64 + (b3 - 128)"
    if "240 \<le> b0" "(if b0 = 240 then 144 else 128) \<le> b1" for b0 b1 b2 b3 :: nat
    using that by (cases "b0 = 240") auto
  show ?thesis
    using assms two three four
    by (auto simp: decode_rune_def not_less [symmetric] split: list.splits if_splits)
qed

text \<open>
  \<open>runes\<close> is the decoding of a \<open>for range\<close> loop; \<open>runes_strict\<close> is the one of \<open>regexp.Compile\<close>,
  which fails on the first ill-formed sequence.
\<close>

function runes :: "nat list \<Rightarrow> rune list" where
  "runes bs =
     (case bs of [] \<Rightarrow> []
      | b # rest \<Rightarrow>
          (case decode_rune bs of
             Some (r, n) \<Rightarrow> r # runes (drop n bs)
           | None \<Rightarrow> runeError # runes rest))"
  by pat_completeness auto
termination
  by (relation "measure length") (auto dest: decode_rune_width)

function runes_strict :: "nat list \<Rightarrow> rune list option" where
  "runes_strict bs =
     (if bs = [] then Some []
      else
        (case decode_rune bs of
           Some (r, n) \<Rightarrow> map_option (Cons r) (runes_strict (drop n bs))
         | None \<Rightarrow> None))"
  by pat_completeness auto
termination
  by (relation "measure length") (auto dest: decode_rune_width)

declare runes.simps [simp del] runes_strict.simps [simp del]

lemma runes_Nil [simp]: "runes [] = []"
  by (simp add: runes.simps)

lemma runes_ascii_Cons: "b < 0x80 \<Longrightarrow> runes (b # bs) = b # runes bs"
  by (simp add: runes.simps [of "b # bs"] decode_rune_ascii)

lemma runes_ascii: "\<forall>b\<in>set bs. b < 0x80 \<Longrightarrow> runes bs = bs"
  by (induction bs) (auto simp: runes_ascii_Cons)

lemma runes_strict_ascii: "\<forall>b\<in>set bs. b < 0x80 \<Longrightarrow> runes_strict bs = Some bs"
  by (induction bs) (auto simp: runes_strict.simps [of "_ # _"] runes_strict.simps [of "[]"] decode_rune_ascii)

text \<open>
  Nothing but an ASCII byte is read as an ASCII rune, so a path whose runes spell an ASCII text is
  that text byte for byte.
\<close>

lemma runes_eq_ascii:
  "runes bs = as \<Longrightarrow> \<forall>a\<in>set as. a < 0x80 \<Longrightarrow> bs = as"
proof (induction bs arbitrary: as rule: runes.induct)
  case (1 bs)
  show ?case
  proof (cases bs)
    case (Cons b rest)
    show ?thesis
    proof (cases "decode_rune bs")
      case None
      with 1 Cons show ?thesis by (auto simp: runes.simps [of "_ # _"] runeError_def)
    next
      case (Some rn)
      then obtain r n where rn: "decode_rune bs = Some (r, n)" by (cases rn) auto
      with 1 Cons have eq: "as = r # runes (drop n bs)" and r: "r < 0x80"
        by (auto simp: runes.simps [of "_ # _"])
      from decode_rune_small [OF rn r] have n: "n = 1" and b: "bs = r # rest" using Cons by auto
      have "rest = runes rest"
        using 1(2) [OF Cons rn refl, of "runes rest"] 1(4) eq n b by auto
      with eq n b show ?thesis by simp
    qed
  qed (use 1 in \<open>simp add: runes.simps\<close>)
qed

definition is_ascii :: "string \<Rightarrow> bool" where
  "is_ascii s \<longleftrightarrow> (\<forall>b\<in>set (bytes s). b < 0x80)"

lemma is_ascii_simps [simp]:
  "is_ascii []"
  "is_ascii (c # s) \<longleftrightarrow> of_char c < (0x80 :: nat) \<and> is_ascii s"
  "is_ascii (s @ t) \<longleftrightarrow> is_ascii s \<and> is_ascii t"
  by (auto simp: is_ascii_def bytes_def)

lemma bytes_simps [simp]:
  "bytes [] = []"
  "bytes (c # s) = of_char c # bytes s"
  "bytes (s @ t) = bytes s @ bytes t"
  by (simp_all add: bytes_def)

lemma bytes_inj: "bytes s = bytes t \<longleftrightarrow> s = t"
  by (simp add: bytes_def inj_map_eq_map inj_on_def)

lemma bytes_eq_Nil [simp]: "bytes s = [] \<longleftrightarrow> s = []"
  by (simp add: bytes_def)

lemma runes_eq_bytes_ascii: "is_ascii t \<Longrightarrow> runes (bytes s) = bytes t \<longleftrightarrow> s = t"
  using runes_eq_ascii [of "bytes s" "bytes t"] runes_ascii [of "bytes t"]
  by (auto simp: is_ascii_def bytes_inj)

text \<open>ASCII bytes are never part of a longer sequence, so decoding keeps them all.\<close>

lemma decode_rune_high:
  assumes "decode_rune bs = Some (r, n)" "0x80 \<le> r"
  shows "\<forall>b\<in>set (take n bs). 0x80 \<le> b"
  using assms
  by (auto simp: decode_rune_def cont_def split: list.splits if_splits)

lemma decode_rune_low:
  assumes "decode_rune bs = Some (r, n)" "r < 0x80"
  shows "take n bs = [r]"
  using decode_rune_small [OF assms] by auto

lemma count_runes_ascii: "a < 0x80 \<Longrightarrow> count_list (runes bs) a = count_list bs a"
proof (induction bs rule: runes.induct)
  case (1 bs)
  show ?case
  proof (cases bs)
    case (Cons b rest)
    show ?thesis
    proof (cases "decode_rune bs")
      case None
      then have "b \<noteq> a" using Cons 1(3) decode_rune_ascii [of b rest] by auto
      moreover have "count_list (runes rest) a = count_list rest a"
        using 1(1) [OF Cons None] 1(3) by simp
      ultimately show ?thesis
        using None Cons 1(3) by (simp add: runes.simps [of "_ # _"] runeError_def)
    next
      case (Some rn)
      then obtain r n where rn: "decode_rune bs = Some (r, n)" by (cases rn) auto
      have IH: "count_list (runes (drop n bs)) a = count_list (drop n bs) a"
        using 1(2) [OF Cons rn refl] 1(3) by simp
      have "count_list (take n bs) a = (if r = a then 1 else 0)"
      proof (cases "r < 0x80")
        case True
        with decode_rune_low [OF rn] show ?thesis by simp
      next
        case False
        then have "a \<notin> set (take n bs)" using decode_rune_high [OF rn] 1(3) by auto
        with False 1(3) show ?thesis by (auto simp: count_list_0_iff)
      qed
      moreover have "count_list bs a = count_list (take n bs) a + count_list (drop n bs) a"
        by (metis append_take_drop_id count_list_append)
      ultimately show ?thesis
        using IH rn Cons by (simp add: runes.simps [of "_ # _"])
    qed
  qed simp
qed

section \<open>Well-formed texts\<close>

text \<open>
  A byte string and the runes it is the encoding of: an ASCII byte stands for itself, and every other
  rune for a group of bytes none of which is ASCII.
\<close>

inductive encodes :: "nat list \<Rightarrow> rune list \<Rightarrow> bool" where
  encodes_Nil: "encodes [] []"
| encodes_ascii: "c < 0x80 \<Longrightarrow> encodes bs rs \<Longrightarrow> encodes (c # bs) (c # rs)"
| encodes_high: "hi \<noteq> [] \<Longrightarrow> \<forall>b\<in>set hi. 0x80 \<le> b \<Longrightarrow> 0x80 \<le> r \<Longrightarrow> \<forall>x. decode_rune (hi @ x) = Some (r, length hi) \<Longrightarrow>
    encodes bs rs \<Longrightarrow> encodes (hi @ bs) (r # rs)"

lemma decode_rune_prefix:
  assumes "decode_rune bs = Some (r, n)"
  shows "n \<le> length bs \<and> (\<forall>x. decode_rune (take n bs @ x) = Some (r, n))"
proof (cases bs)
  case Nil
  with assms show ?thesis by (simp add: decode_rune_def)
next
  case (Cons b0 r0)
  consider "r0 = []" | b1 where "r0 = [b1]" | b1 b2 where "r0 = [b1, b2]" | b1 b2 b3 r3 where "r0 = b1 # b2 # b3 # r3"
    by (metis list.exhaust)
  then show ?thesis using assms unfolding Cons by cases (auto simp: decode_rune_def split: if_splits)
qed

lemma encodes_runes_strict: "encodes bs rs \<Longrightarrow> runes_strict bs = Some rs"
proof (induction rule: encodes.induct)
  case (encodes_high hi r bs rs)
  then have "decode_rune (hi @ bs) = Some (r, length hi)" by blast
  with encodes_high show ?case by (simp add: runes_strict.simps [of "hi @ bs"])
qed (simp_all add: runes_strict.simps [of "[]"] runes_strict.simps [of "_ # _"] decode_rune_ascii)

lemma runes_strict_encodes: "runes_strict bs = Some rs \<Longrightarrow> encodes bs rs"
proof (induction bs arbitrary: rs rule: runes_strict.induct)
  case (1 bs)
  show ?case
  proof (cases "bs = []")
    case True
    with 1 show ?thesis by (simp add: runes_strict.simps encodes_Nil)
  next
    case False
    with 1 obtain r n rs' where rn: "decode_rune bs = Some (r, n)" "runes_strict (drop n bs) = Some rs'" "rs = r # rs'"
      by (subst (asm) (3) runes_strict.simps) (auto split: option.splits)
    have e: "encodes (drop n bs) rs'" using 1(1) [OF False rn(1) refl rn(2)] .
    show ?thesis
    proof (cases "r < 0x80")
      case True
      from decode_rune_small [OF rn(1) True] e rn(3) True show ?thesis by (auto intro: encodes_ascii)
    next
      case False
      have len: "length (take n bs) = n" "\<forall>x. decode_rune (take n bs @ x) = Some (r, length (take n bs))"
        using decode_rune_prefix [OF rn(1)] by auto
      have "encodes (take n bs @ drop n bs) (r # rs')"
        by (rule encodes_high) (use e len False decode_rune_width [OF rn(1)] decode_rune_high [OF rn(1)] in auto)
      with rn(3) show ?thesis by simp
    qed
  qed
qed

lemma encodes_empty [simp]: "encodes [] rs \<longleftrightarrow> rs = []" "encodes bs [] \<longleftrightarrow> bs = []"
  by (auto elim: encodes.cases intro: encodes_Nil)

lemma encodes_append: "encodes a a' \<Longrightarrow> encodes b b' \<Longrightarrow> encodes (a @ b) (a' @ b')"
  by (induction rule: encodes.induct) (auto intro: encodes.intros simp: append_assoc)

lemma encodes_all_ascii: "\<forall>b\<in>set bs. b < 0x80 \<Longrightarrow> encodes bs bs"
  by (induction bs) (auto intro: encodes.intros)

lemma encodes_span:
  assumes "encodes bs rs" "\<And>c. 0x80 \<le> c \<Longrightarrow> P c"
  shows "encodes (takeWhile P bs) (takeWhile P rs) \<and> encodes (dropWhile P bs) (dropWhile P rs)"
  using assms(1)
proof (induction rule: encodes.induct)
  case (encodes_high hi r bs rs)
  then have "takeWhile P (hi @ bs) = hi @ takeWhile P bs" "dropWhile P (hi @ bs) = dropWhile P bs"
    using assms(2) by (auto simp: takeWhile_append2 dropWhile_append2)
  with encodes_high assms(2) [of r] show ?case by (auto intro: encodes.encodes_high)
qed (auto intro: encodes.intros)

text \<open>Both begin with the same ASCII character, or neither begins with one.\<close>

lemma encodes_head:
  assumes "encodes (b # bs) (r # rs)"
  shows "b = r \<and> r < 0x80 \<and> encodes bs rs \<or> 0x80 \<le> b \<and> 0x80 \<le> r"
  using assms by (cases rule: encodes.cases) (auto simp: Cons_eq_append_conv)

end
