(* ===== verification/Rbac_Path.thy ===== *)
theory Rbac_Path
  imports Utf8
begin

text \<open>
  Path templates, \<^verbatim>\<open>src/authz/rbac/pathmatch.go\<close>. The code assembles the text of a regular
  expression from the template, quoting everything but the two forms of the template language, and
  matches the request path against it. Both halves are modelled: the text the code builds, and the
  regular expression engine on the sublanguage that text stays in (literals, quoted metacharacters,
  \<^verbatim>\<open>[^/]+\<close> and \<^verbatim>\<open>.*\<close> between anchors), over runes as the engine reads them.

  The template language itself is stated independently, as its documentation does (\<open>spells\<close>,
  \<open>doc_match\<close>); the main result is that the pipeline never matches more than that language on a template
  of any script, and exactly that language on paths without a newline, so no stored object reaches
  further than its template spells.
\<close>

section \<open>The expression text\<close>

text \<open>Rune and byte values of the characters the expressions are made of.\<close>

abbreviation (input) slash :: nat where "slash \<equiv> 0x2F"
abbreviation (input) star :: nat where "star \<equiv> 0x2A"
abbreviation (input) lbrace :: nat where "lbrace \<equiv> 0x7B"
abbreviation (input) rbrace :: nat where "rbrace \<equiv> 0x7D"
abbreviation (input) backslash :: nat where "backslash \<equiv> 0x5C"
abbreviation (input) newline :: nat where "newline \<equiv> 0x0A"

text \<open>The bytes \<open>regexp.QuoteMeta\<close> escapes: \<^verbatim>\<open>\.+*?()|[]{}^$\<close>.\<close>

definition regexp_meta :: "nat list" where
  "regexp_meta = [0x5C, 0x2E, 0x2B, 0x2A, 0x3F, 0x28, 0x29, 0x7C, 0x5B, 0x5D, 0x7B, 0x7D, 0x5E, 0x24]"

definition QuoteMeta :: "nat list \<Rightarrow> nat list" where
  "QuoteMeta s = concat (map (\<lambda>c. if c \<in> set regexp_meta then [backslash, c] else [c]) s)"

text \<open>\<open>strings.Split(literal, "/*")\<close>: the spans between the non-overlapping occurrences.\<close>

function split_wildcard :: "nat list \<Rightarrow> nat list list" where
  "split_wildcard s =
     (case s of
        [] \<Rightarrow> [[]]
      | c # rest \<Rightarrow>
          (case strip_prefix [slash, star] s of
             Some r \<Rightarrow> [] # split_wildcard r
           | None \<Rightarrow>
               (case split_wildcard rest of
                  [] \<Rightarrow> [[c]]
                | span # spans \<Rightarrow> (c # span) # spans)))"
  by pat_completeness auto
termination
  by (relation "measure length") (auto simp: strip_prefix_Some_iff split: if_splits)

declare split_wildcard.simps [simp del]

definition quotePathTemplate :: "nat list \<Rightarrow> nat list" where
  "quotePathTemplate literal =
     strings_Join [slash, 0x2E, star] (map QuoteMeta (split_wildcard literal))"

text \<open>
  \<open>pathTemplatePlaceholder\<close> is \<^verbatim>\<open>\{[^/{}]+\}\<close>. Its body excludes braces, so a match at a given
  left brace, if there is one, is the maximal run of body characters followed by a right brace.
\<close>

definition placeholder_body :: "nat \<Rightarrow> bool" where
  "placeholder_body c \<longleftrightarrow> c \<noteq> slash \<and> c \<noteq> lbrace \<and> c \<noteq> rbrace"

definition placeholder_at :: "nat list \<Rightarrow> nat list option" where
  "placeholder_at s =
     (case s of
        [] \<Rightarrow> None
      | c # t \<Rightarrow>
          if c \<noteq> lbrace \<or> takeWhile placeholder_body t = [] then None
          else
            (case dropWhile placeholder_body t of
               [] \<Rightarrow> None
             | d # rest \<Rightarrow> if d = rbrace then Some rest else None))"

text \<open>
  \<open>find_placeholder\<close> is one step of \<open>FindAllStringIndex\<close>: the text before the leftmost
  placeholder and the text after it.
\<close>

fun find_placeholder :: "nat list \<Rightarrow> (nat list \<times> nat list) option" where
  "find_placeholder [] = None"
| "find_placeholder (c # s) =
     (case placeholder_at (c # s) of
        Some rest \<Rightarrow> Some ([], rest)
      | None \<Rightarrow> map_option (\<lambda>(before, rest). (c # before, rest)) (find_placeholder s))"

lemma placeholder_at_length: "placeholder_at s = Some rest \<Longrightarrow> length rest < length s"
proof -
  assume "placeholder_at s = Some rest"
  then obtain c t d where "s = c # t" "dropWhile placeholder_body t = d # rest"
    by (auto simp: placeholder_at_def split: list.splits if_splits)
  then show ?thesis
    using length_dropWhile_le [of placeholder_body t] by auto
qed

lemma find_placeholder_length: "find_placeholder s = Some (before, rest) \<Longrightarrow> length rest < length s"
  by (induction s arbitrary: before)
    (auto dest: placeholder_at_length split: option.splits)

text \<open>The loop over the placeholders and the text after the last one.\<close>

function pattern_body :: "nat list \<Rightarrow> nat list" where
  "pattern_body template =
     (case find_placeholder template of
        None \<Rightarrow> quotePathTemplate template
      | Some (literal, rest) \<Rightarrow>
          quotePathTemplate literal @ [0x5B, 0x5E, slash, 0x5D, 0x2B] @ pattern_body rest)"
  by pat_completeness auto
termination
  by (relation "measure length") (auto dest: find_placeholder_length)

declare pattern_body.simps [simp del]

definition pattern_text :: "nat list \<Rightarrow> nat list" where
  "pattern_text template = [0x5E] @ pattern_body template @ [0x24]"

section \<open>The regular expression engine on that sublanguage\<close>

datatype regexp_op = OpLiteral rune | OpSegment | OpAnyStar

text \<open>
  \<open>OpSegment\<close> is \<^verbatim>\<open>[^/]+\<close>, a negated class, which includes the newline; \<open>OpAnyStar\<close> is \<^verbatim>\<open>.*\<close>
  without the \<open>s\<close> flag, which does not. \<open>None\<close> is a text outside the sublanguage.
\<close>

function parse_ops :: "rune list \<Rightarrow> regexp_op list option" where
  "parse_ops s =
     (case s of
        [] \<Rightarrow> None
      | c # rest \<Rightarrow>
          if s = [0x24] then Some []
          else
            (case strip_prefix [0x5B, 0x5E, slash, 0x5D, 0x2B] s of
               Some r \<Rightarrow> map_option (Cons OpSegment) (parse_ops r)
             | None \<Rightarrow>
                 (case strip_prefix [0x2E, star] s of
                    Some r \<Rightarrow> map_option (Cons OpAnyStar) (parse_ops r)
                  | None \<Rightarrow>
                      if c = backslash then
                        (case rest of
                           [] \<Rightarrow> None
                         | d # r \<Rightarrow>
                             if d \<in> set regexp_meta
                             then map_option (Cons (OpLiteral d)) (parse_ops r) else None)
                      else if c \<in> set regexp_meta then None
                      else map_option (Cons (OpLiteral c)) (parse_ops rest))))"
  by pat_completeness auto
termination
  by (relation "measure length") (auto simp: strip_prefix_Some_iff split: if_splits)

declare parse_ops.simps [simp del]

definition regexp_Compile :: "nat list \<Rightarrow> regexp_op list option" where
  "regexp_Compile text =
     (case runes_strict text of
        None \<Rightarrow> None
      | Some rs \<Rightarrow> (case strip_prefix [0x5E] rs of None \<Rightarrow> None | Some body \<Rightarrow> parse_ops body))"

fun regexp_match :: "regexp_op list \<Rightarrow> rune list \<Rightarrow> bool" where
  "regexp_match [] s = (s = [])"
| "regexp_match (OpLiteral c # ops) [] = False"
| "regexp_match (OpLiteral c # ops) (x # s) = (x = c \<and> regexp_match ops s)"
| "regexp_match (OpSegment # ops) [] = False"
| "regexp_match (OpSegment # ops) (x # s) =
     (x \<noteq> slash \<and> (regexp_match ops s \<or> regexp_match (OpSegment # ops) s))"
| "regexp_match (OpAnyStar # ops) [] = regexp_match ops []"
| "regexp_match (OpAnyStar # ops) (x # s) =
     (regexp_match ops (x # s) \<or> (x \<noteq> newline \<and> regexp_match (OpAnyStar # ops) s))"

section \<open>compilePathTemplate and pathMatch\<close>

datatype path_error = UnusablePathTemplate string

definition compilePathTemplate :: "string \<Rightarrow> path_error + regexp_op list" where
  "compilePathTemplate template =
     (case regexp_Compile (pattern_text (bytes template)) of
        None \<Rightarrow> Inl (UnusablePathTemplate template)
      | Some ops \<Rightarrow> Inr ops)"

definition pathMatch :: "string \<Rightarrow> string \<Rightarrow> path_error + bool" where
  "pathMatch path template =
     (case compilePathTemplate template of
        Inl e \<Rightarrow> Inl e
      | Inr ops \<Rightarrow> Inr (regexp_match ops (runes (bytes path))))"

text \<open>
  The process keeps what every template compiled to, a failure included, in \<open>pathTemplateCache\<close>.
\<close>

type_synonym template_cache = "string \<rightharpoonup> (path_error + regexp_op list)"

definition compile_cached :: "template_cache \<Rightarrow> string \<Rightarrow> (path_error + regexp_op list) \<times> template_cache" where
  "compile_cached cache template =
     (case cache template of
        Some compiled \<Rightarrow> (compiled, cache)
      | None \<Rightarrow>
          (let compiled = compilePathTemplate template
           in (compiled, cache(template \<mapsto> compiled))))"

definition pathMatch_cached :: "template_cache \<Rightarrow> string \<Rightarrow> string \<Rightarrow> (path_error + bool) \<times> template_cache" where
  "pathMatch_cached cache path template =
     (let (compiled, cache') = compile_cached cache template
      in (case compiled of
            Inl e \<Rightarrow> Inl e
          | Inr ops \<Rightarrow> Inr (regexp_match ops (runes (bytes path))), cache'))"

definition cache_ok :: "template_cache \<Rightarrow> bool" where
  "cache_ok cache \<longleftrightarrow> (\<forall>t c. cache t = Some c \<longrightarrow> c = compilePathTemplate t)"

lemma pathMatch_cached_transparent:
  "cache_ok cache \<Longrightarrow>
     fst (pathMatch_cached cache path template) = pathMatch path template \<and>
     cache_ok (snd (pathMatch_cached cache path template)) \<and>
     dom (snd (pathMatch_cached cache path template)) = insert template (dom cache)"
  by (auto simp: pathMatch_cached_def compile_cached_def pathMatch_def cache_ok_def Let_def
      split: option.splits)

section \<open>The template language\<close>

text \<open>
  The language the documentation describes, read off the template in one pass: \<^verbatim>\<open>{name}\<close> stands for
  one non-empty segment, \<^verbatim>\<open>/*\<close> for a separator and the rest of the path, everything else for
  itself.
\<close>

datatype item = Text nat | Segment | Rest

function template_items :: "nat list \<Rightarrow> item list" where
  "template_items s =
     (case s of
        [] \<Rightarrow> []
      | c # t \<Rightarrow>
          (case placeholder_at s of
             Some r \<Rightarrow> Segment # template_items r
           | None \<Rightarrow>
               (case strip_prefix [slash, star] s of
                  Some r \<Rightarrow> Rest # template_items r
                | None \<Rightarrow> Text c # template_items t)))"
  by pat_completeness auto
termination
  by (relation "measure length") (auto simp: strip_prefix_Some_iff dest: placeholder_at_length split: if_splits)

declare template_items.simps [simp del]

lemma placeholder_at_other: "c \<noteq> lbrace \<Longrightarrow> placeholder_at (c # t) = None"
  by (simp add: placeholder_at_def)

lemma template_items_Nil [simp]: "template_items [] = []"
  by (simp add: template_items.simps)

lemma template_items_Segment: "placeholder_at s = Some r \<Longrightarrow> template_items s = Segment # template_items r"
  by (subst template_items.simps) (cases s, simp_all add: placeholder_at_def [of "[]"])

lemma template_items_Rest: "template_items (slash # star # r) = Rest # template_items r"
  by (subst template_items.simps) (simp add: placeholder_at_other)

lemma template_items_Text:
  "placeholder_at (c # t) = None \<Longrightarrow> strip_prefix [slash, star] (c # t) = None \<Longrightarrow>
     template_items (c # t) = Text c # template_items t"
  by (subst template_items.simps) (simp del: strip_prefix.simps)

lemmas template_items_unfold = template_items_Segment template_items_Rest template_items_Text

lemma template_induct [case_names Nil Segment Rest Text]:
  assumes "P []"
    and "\<And>s r. placeholder_at s = Some r \<Longrightarrow> P r \<Longrightarrow> P s"
    and "\<And>r. P r \<Longrightarrow> P (slash # star # r)"
    and "\<And>c t. placeholder_at (c # t) = None \<Longrightarrow> strip_prefix [slash, star] (c # t) = None \<Longrightarrow>
      P t \<Longrightarrow> P (c # t)"
  shows "P s"
proof (induction s rule: length_induct)
  case (1 s)
  show ?case
  proof (cases s)
    case (Cons c t)
    consider r where "placeholder_at s = Some r" | r where "s = slash # star # r"
      | "placeholder_at (c # t) = None" "strip_prefix [slash, star] (c # t) = None"
      using Cons by (cases "placeholder_at s"; cases "strip_prefix [slash, star] s")
        (auto simp: strip_prefix_Some_iff simp del: strip_prefix.simps)
    then show ?thesis
    proof cases
      case (1 r)
      with \<open>\<forall>t. length t < length s \<longrightarrow> P t\<close> show ?thesis
        using assms(2) placeholder_at_length by blast
    next
      case (2 r)
      with \<open>\<forall>t. length t < length s \<longrightarrow> P t\<close> show ?thesis using assms(3) by simp
    next
      case 3
      with \<open>\<forall>t. length t < length s \<longrightarrow> P t\<close> Cons show ?thesis using assms(4) by simp
    qed
  qed (simp add: assms(1))
qed

text \<open>The text left after a placeholder is a suffix of the template.\<close>

lemma placeholder_at_shape:
  assumes "placeholder_at s = Some r"
  shows "\<exists>body. s = lbrace # body @ rbrace # r \<and> body \<noteq> [] \<and> slash \<notin> set body"
proof -
  from assms obtain t where s: "s = lbrace # t" and t: "takeWhile placeholder_body t \<noteq> []"
    and d: "dropWhile placeholder_body t = rbrace # r"
    by (auto simp: placeholder_at_def split: list.splits if_splits)
  have "t = takeWhile placeholder_body t @ rbrace # r" using d by (metis takeWhile_dropWhile_id)
  moreover have "slash \<notin> set (takeWhile placeholder_body t)"
    by (auto simp: placeholder_body_def dest: set_takeWhileD)
  ultimately show ?thesis using s t by blast
qed

inductive template_match :: "item list \<Rightarrow> rune list \<Rightarrow> bool" where
  match_end: "template_match [] []"
| match_text: "template_match is s \<Longrightarrow> template_match (Text c # is) (c # s)"
| match_segment: "seg \<noteq> [] \<Longrightarrow> slash \<notin> set seg \<Longrightarrow> template_match is s \<Longrightarrow>
    template_match (Segment # is) (seg @ s)"
| match_rest: "newline \<notin> set rest \<Longrightarrow> template_match is s \<Longrightarrow>
    template_match (Rest # is) (slash # rest @ s)"

fun ops_of :: "item list \<Rightarrow> regexp_op list" where
  "ops_of [] = []"
| "ops_of (Text c # is) = OpLiteral c # ops_of is"
| "ops_of (Segment # is) = OpSegment # ops_of is"
| "ops_of (Rest # is) = OpLiteral slash # OpAnyStar # ops_of is"

lemma regexp_match_segment:
  "regexp_match (OpSegment # ops) s \<longleftrightarrow>
     (\<exists>seg r. s = seg @ r \<and> seg \<noteq> [] \<and> slash \<notin> set seg \<and> regexp_match ops r)"
proof (induction s)
  case (Cons x s)
  show ?case
  proof
    assume "regexp_match (OpSegment # ops) (x # s)"
    then have x: "x \<noteq> slash" and "regexp_match ops s \<or> regexp_match (OpSegment # ops) s" by auto
    then show "\<exists>seg r. x # s = seg @ r \<and> seg \<noteq> [] \<and> slash \<notin> set seg \<and> regexp_match ops r"
    proof (elim disjE)
      assume "regexp_match ops s"
      with x show ?thesis by (intro exI [of _ "[x]"] exI [of _ s]) simp
    next
      assume "regexp_match (OpSegment # ops) s"
      with Cons.IH obtain seg r where "s = seg @ r" "slash \<notin> set seg" "regexp_match ops r" by blast
      with x show ?thesis by (intro exI [of _ "x # seg"] exI [of _ r]) simp
    qed
  next
    assume "\<exists>seg r. x # s = seg @ r \<and> seg \<noteq> [] \<and> slash \<notin> set seg \<and> regexp_match ops r"
    then obtain seg r where "s = seg @ r" "x \<noteq> slash" "slash \<notin> set seg" "regexp_match ops r"
      by (auto simp: Cons_eq_append_conv)
    with Cons.IH show "regexp_match (OpSegment # ops) (x # s)" by (cases "seg = []") auto
  qed
qed simp

lemma regexp_match_any:
  "regexp_match (OpAnyStar # ops) s \<longleftrightarrow>
     (\<exists>pre r. s = pre @ r \<and> newline \<notin> set pre \<and> regexp_match ops r)"
proof (induction s)
  case (Cons x s)
  show ?case
  proof
    assume "regexp_match (OpAnyStar # ops) (x # s)"
    then consider "regexp_match ops (x # s)" | "x \<noteq> newline" "regexp_match (OpAnyStar # ops) s" by auto
    then show "\<exists>pre r. x # s = pre @ r \<and> newline \<notin> set pre \<and> regexp_match ops r"
    proof cases
      case 1
      then show ?thesis by (intro exI [of _ "[]"] exI [of _ "x # s"]) simp
    next
      case 2
      with Cons.IH obtain pre r where "s = pre @ r" "newline \<notin> set pre" "regexp_match ops r" by blast
      with 2 show ?thesis by (intro exI [of _ "x # pre"] exI [of _ r]) simp
    qed
  next
    assume "\<exists>pre r. x # s = pre @ r \<and> newline \<notin> set pre \<and> regexp_match ops r"
    then consider "regexp_match ops (x # s)"
      | pre r where "s = pre @ r" "x \<noteq> newline" "newline \<notin> set pre" "regexp_match ops r"
      by (auto simp: Cons_eq_append_conv)
    then show "regexp_match (OpAnyStar # ops) (x # s)"
      using Cons.IH by cases (simp, metis regexp_match.simps(7))
  qed
qed auto

lemma template_match_Nil_iff [simp]: "template_match [] s \<longleftrightarrow> s = []"
  by (auto elim: template_match.cases intro: template_match.intros)

inductive_simps template_match_Text [simp]: "template_match (Text c # is) s"
inductive_simps template_match_Segment: "template_match (Segment # is) s"
inductive_simps template_match_Rest: "template_match (Rest # is) s"

lemma regexp_match_Literal:
  "regexp_match (OpLiteral c # ops) s \<longleftrightarrow> (\<exists>r. s = c # r \<and> regexp_match ops r)"
  by (cases s) auto

lemma regexp_match_ops_of: "regexp_match (ops_of is) s \<longleftrightarrow> template_match is s"
proof (induction "is" arbitrary: s)
  case (Cons i "is")
  then show ?case
    by (cases i)
      (auto simp: regexp_match_Literal regexp_match_segment regexp_match_any
        template_match_Segment template_match_Rest)
qed simp

section \<open>The pipeline decides the template language\<close>

fun render :: "item list \<Rightarrow> nat list" where
  "render [] = []"
| "render (Text c # is) = QuoteMeta [c] @ render is"
| "render (Segment # is) = [0x5B, 0x5E, slash, 0x5D, 0x2B] @ render is"
| "render (Rest # is) = [slash, 0x2E, star] @ render is"

lemma QuoteMeta_simps [simp]:
  "QuoteMeta [] = []" "QuoteMeta (c # s) = QuoteMeta [c] @ QuoteMeta s"
  by (simp_all add: QuoteMeta_def)

declare QuoteMeta_simps(2) [simp del]

lemma parse_ops_literal:
  assumes "rest \<noteq> []"
  shows "parse_ops (QuoteMeta [c] @ rest) = map_option (Cons (OpLiteral c)) (parse_ops rest)"
  using assms
  by (auto simp: QuoteMeta_def regexp_meta_def parse_ops.simps [of "_ # _"])

lemma parse_ops_end: "parse_ops [0x24] = Some []"
  by (simp add: parse_ops.simps)

lemma parse_ops_segment:
  "parse_ops ([0x5B, 0x5E, slash, 0x5D, 0x2B] @ rest) = map_option (Cons OpSegment) (parse_ops rest)"
  by (simp add: parse_ops.simps [of "_ # _"])

lemma parse_ops_rest:
  "parse_ops ([slash, 0x2E, star] @ rest) =
     map_option (\<lambda>ops. OpLiteral slash # OpAnyStar # ops) (parse_ops rest)"
  by (simp add: parse_ops.simps [of "_ # _"] regexp_meta_def option.map_comp comp_def)

lemma parse_ops_render: "parse_ops (render is @ [0x24]) = Some (ops_of is)"
proof (induction "is")
  case (Cons i "is")
  then show ?case
    using parse_ops_literal [of "render is @ [0x24]"] parse_ops_segment [of "render is @ [0x24]"]
      parse_ops_rest [of "render is @ [0x24]"]
    by (cases i) simp_all
qed (simp add: parse_ops_end)

lemma split_wildcard_nonempty: "split_wildcard s \<noteq> []"
  by (subst split_wildcard.simps) (auto split: list.splits option.splits)

lemma quotePathTemplate_Nil [simp]: "quotePathTemplate [] = []"
  by (simp add: quotePathTemplate_def split_wildcard.simps)

lemma quotePathTemplate_wildcard:
  "quotePathTemplate (slash # star # r) = [slash, 0x2E, star] @ quotePathTemplate r"
  using split_wildcard_nonempty [of r]
  by (simp add: quotePathTemplate_def split_wildcard.simps [of "_ # _"] strings_Join_Cons)

lemma quotePathTemplate_Cons:
  assumes "strip_prefix [slash, star] (c # r) = None"
  shows "quotePathTemplate (c # r) = QuoteMeta [c] @ quotePathTemplate r"
proof -
  obtain span spans where r: "split_wildcard r = span # spans"
    using split_wildcard_nonempty [of r] by (cases "split_wildcard r") auto
  then have "split_wildcard (c # r) = (c # span) # spans"
    using assms by (subst split_wildcard.simps) (simp del: strip_prefix.simps)
  with r show ?thesis
    by (simp add: quotePathTemplate_def strings_Join_Cons QuoteMeta_simps(2) [of c span])
qed

lemma find_placeholder_prefix: "find_placeholder t = Some (b, r) \<Longrightarrow> prefix b t"
  by (induction t arbitrary: b) (auto split: option.splits)

lemma pattern_body_Nil [simp]: "pattern_body [] = []"
  by (simp add: pattern_body.simps)

lemma pattern_body_placeholder:
  assumes "placeholder_at s = Some r"
  shows "pattern_body s = [0x5B, 0x5E, slash, 0x5D, 0x2B] @ pattern_body r"
proof -
  obtain c t where "s = c # t" using assms by (cases s) (auto simp: placeholder_at_def)
  with assms show ?thesis by (subst pattern_body.simps) simp
qed

lemma pattern_body_wildcard: "pattern_body (slash # star # r) = [slash, 0x2E, star] @ pattern_body r"
  by (cases "find_placeholder r")
    (auto simp: pattern_body.simps [of "_ # _"] pattern_body.simps [of r] placeholder_at_other
      quotePathTemplate_wildcard)

lemma pattern_body_text:
  assumes "placeholder_at (c # t) = None" "strip_prefix [slash, star] (c # t) = None"
  shows "pattern_body (c # t) = QuoteMeta [c] @ pattern_body t"
proof (cases "find_placeholder t")
  case None
  with assms show ?thesis
    by (simp add: pattern_body.simps [of "_ # _"] pattern_body.simps [of t] quotePathTemplate_Cons)
next
  case (Some br)
  then obtain b r where br: "find_placeholder t = Some (b, r)" by (cases br) auto
  then have "prefix b t" by (rule find_placeholder_prefix)
  with assms(2) have "strip_prefix [slash, star] (c # b) = None"
    by (auto simp: strip_prefix_None_iff prefix_def)
  with br assms show ?thesis
    by (simp add: pattern_body.simps [of "_ # _"] pattern_body.simps [of t] quotePathTemplate_Cons)
qed

lemma pattern_body_render: "pattern_body s = render (template_items s)"
proof (induction s rule: template_induct)
  case (Segment s r)
  then show ?case by (simp add: pattern_body_placeholder template_items_Segment)
next
  case (Rest r)
  then show ?case by (simp add: pattern_body_wildcard template_items_Rest)
next
  case (Text c t)
  then show ?case by (simp add: pattern_body_text template_items_Text del: strip_prefix.simps)
qed simp

subsection \<open>Templates of any script\<close>

text \<open>
  All the characters the template language and the expression language give a meaning are ASCII, so the
  expression assembled from the bytes of a template is the encoding of the one assembled from its runes.
\<close>

lemma encodes_placeholder:
  assumes "encodes bs rs"
  shows "rel_option encodes (placeholder_at bs) (placeholder_at rs)"
  using assms
proof (cases rule: encodes.cases)
  case (encodes_ascii c bs' rs')
  have span: "encodes (takeWhile placeholder_body bs') (takeWhile placeholder_body rs')"
    "encodes (dropWhile placeholder_body bs') (dropWhile placeholder_body rs')"
    using encodes_span [OF encodes_ascii(4), of placeholder_body] by (auto simp: placeholder_body_def)
  have empty: "takeWhile placeholder_body bs' = [] \<longleftrightarrow> takeWhile placeholder_body rs' = []"
    "dropWhile placeholder_body bs' = [] \<longleftrightarrow> dropWhile placeholder_body rs' = []" using span by (metis encodes_empty)+
  show ?thesis
  proof (cases "dropWhile placeholder_body bs'")
    case Nil
    with empty(2) have n: "dropWhile placeholder_body rs' = []" by blast
    show ?thesis unfolding encodes_ascii(1,2) placeholder_at_def list.case Nil n by simp
  next
    case (Cons d bs2)
    with empty(2) obtain e rs2 where rs: "dropWhile placeholder_body rs' = e # rs2" by (cases "dropWhile placeholder_body rs'") auto
    have "d = e \<and> encodes bs2 rs2 \<or> d \<noteq> rbrace \<and> e \<noteq> rbrace"
      using encodes_head [of d bs2 e rs2] span(2) unfolding Cons rs by auto
    with Cons rs empty(1) encodes_ascii show ?thesis by (auto simp: placeholder_at_def)
  qed
qed (auto simp: placeholder_at_def neq_Nil_conv)

lemma encodes_wildcard:
  assumes "encodes (c # bs) (c # rs)" "c < 0x80"
  shows "rel_option encodes (strip_prefix [slash, star] (c # bs)) (strip_prefix [slash, star] (c # rs))"
proof -
  have e: "encodes bs rs" using encodes_head [OF assms(1)] assms(2) by auto
  show ?thesis
  proof (cases bs)
    case (Cons d bs')
    with e obtain d' rs' where "rs = d' # rs'" by (cases rs) auto
    with Cons e encodes_head [of d bs' d' rs'] show ?thesis by auto
  qed (use e in auto)
qed

lemma template_items_high: "\<forall>b\<in>set hi. 0x80 \<le> b \<Longrightarrow> template_items (hi @ s) = map Text hi @ template_items s"
  by (induction hi) (simp_all add: template_items_Text placeholder_at_other)

lemma render_high: "\<forall>b\<in>set hi. 0x80 \<le> b \<Longrightarrow> render (map Text hi @ is) = hi @ render is"
  by (induction hi) (auto simp: QuoteMeta_def regexp_meta_def)

lemma encodes_render: "encodes bs rs \<Longrightarrow> encodes (render (template_items bs)) (render (template_items rs))"
proof (induction bs arbitrary: rs rule: length_induct)
  case (1 bs)
  note IH = 1(1) [rule_format]
  from 1(2) show ?case
  proof (cases rule: encodes.cases)
    case (encodes_ascii c bs' rs')
    have whole: "encodes (c # bs') (c # rs')" using 1(2) encodes_ascii by simp
    show ?thesis
    proof (cases "placeholder_at bs")
      case (Some r1)
      with encodes_placeholder [OF 1(2)] obtain r2 where r2: "placeholder_at rs = Some r2" "encodes r1 r2"
        by (cases "placeholder_at rs") auto
      have "encodes (render (template_items r1)) (render (template_items r2))"
        using IH [OF placeholder_at_length [OF Some] r2(2)] .
      with Some r2(1) show ?thesis by (simp add: template_items_Segment encodes.encodes_ascii)
    next
      case None
      with encodes_placeholder [OF 1(2)] have none: "placeholder_at (c # bs') = None" "placeholder_at (c # rs') = None"
        using encodes_ascii by (simp_all add: option_rel_Some1)
      show ?thesis
      proof (cases "strip_prefix [slash, star] (c # bs')")
        case s1: None
        with encodes_wildcard [OF whole encodes_ascii(3)] have "strip_prefix [slash, star] (c # rs') = None"
          by (simp del: strip_prefix.simps)
        moreover have "encodes (QuoteMeta [c]) (QuoteMeta [c])"
          using encodes_ascii(3) by (intro encodes_all_ascii) (auto simp: QuoteMeta_def)
        ultimately show ?thesis
          using s1 none encodes_ascii IH [of bs' rs'] by (simp add: template_items_Text encodes_append del: strip_prefix.simps)
      next
        case (Some r1)
        with encodes_wildcard [OF whole encodes_ascii(3)] obtain r2 where r2: "strip_prefix [slash, star] (c # rs') = Some r2" "encodes r1 r2"
          by (cases "strip_prefix [slash, star] (c # rs')") (auto simp del: strip_prefix.simps)
        then have "bs = slash # star # r1" "rs = slash # star # r2"
          using Some encodes_ascii by (auto simp: strip_prefix_Some_iff simp del: strip_prefix.simps)
        with r2(2) IH [of r1 r2] show ?thesis by (simp add: template_items_Rest encodes.encodes_ascii)
      qed
    qed
  next
    case (encodes_high hi r bs' rs')
    have "encodes (render (template_items bs')) (render (template_items rs'))"
      using IH [of bs' rs'] encodes_high by simp
    then show ?thesis
      using encodes_high template_items_high [of hi bs'] render_high [of hi] template_items_high [of "[r]" rs'] render_high [of "[r]"]
        encodes.encodes_high [of hi r "render (template_items bs')" "render (template_items rs')"] by simp
  qed simp
qed

lemma compilePathTemplate_utf8:
  assumes "runes_strict (bytes template) = Some ts"
  shows "compilePathTemplate template = Inr (ops_of (template_items ts))"
proof -
  have "encodes (render (template_items (bytes template))) (render (template_items ts))"
    by (rule encodes_render) (rule runes_strict_encodes [OF assms])
  then have "encodes (pattern_text (bytes template)) ([0x5E] @ render (template_items ts) @ [0x24])"
    unfolding pattern_text_def pattern_body_render by (intro encodes_append encodes_all_ascii) simp_all
  from encodes_runes_strict [OF this] show ?thesis
    by (simp add: compilePathTemplate_def regexp_Compile_def parse_ops_render)
qed

lemma pathMatch_utf8:
  assumes "runes_strict (bytes template) = Some ts"
  shows "pathMatch path template = Inr (template_match (template_items ts) (runes (bytes path)))"
  by (simp add: pathMatch_def compilePathTemplate_utf8 [OF assms] regexp_match_ops_of)

lemma pathMatch_ascii:
  assumes "is_ascii template"
  shows "pathMatch path template =
     Inr (template_match (template_items (bytes template)) (runes (bytes path)))"
  using assms by (intro pathMatch_utf8 runes_strict_ascii) (simp add: is_ascii_def)

subsection \<open>The language as documented\<close>

text \<open>
  What the documentation of \<open>pathMatch\<close> says, on its own terms: \<^verbatim>\<open>{name}\<close> matches one segment,
  \<^verbatim>\<open>/*\<close> matches the rest of the path, separators included, and everything else is the text it looks
  like. Where a template spells one of the two forms, it is that form.
\<close>

definition is_placeholder :: "rune list \<Rightarrow> rune list \<Rightarrow> bool" where
  "is_placeholder s rest \<longleftrightarrow> (\<exists>body. s = [lbrace] @ body @ [rbrace] @ rest \<and> body \<noteq> [] \<and> {slash, lbrace, rbrace} \<inter> set body = {})"

inductive spells :: "rune list \<Rightarrow> item list \<Rightarrow> bool" where
  spells_end: "spells [] []"
| spells_segment: "is_placeholder s rest \<Longrightarrow> spells rest is \<Longrightarrow> spells s (Segment # is)"
| spells_rest: "spells rest is \<Longrightarrow> spells ([slash, star] @ rest) (Rest # is)"
| spells_text: "\<nexists>rest. is_placeholder (c # s) rest \<or> c # s = [slash, star] @ rest \<Longrightarrow> spells s is \<Longrightarrow> spells (c # s) (Text c # is)"

inductive doc_match :: "item list \<Rightarrow> rune list \<Rightarrow> bool" where
  doc_end: "doc_match [] []"
| doc_text: "doc_match is s \<Longrightarrow> doc_match (Text c # is) (c # s)"
| doc_segment: "seg \<noteq> [] \<Longrightarrow> slash \<notin> set seg \<Longrightarrow> doc_match is s \<Longrightarrow> doc_match (Segment # is) (seg @ s)"
| doc_rest: "doc_match is s \<Longrightarrow> doc_match (Rest # is) (slash # rest @ s)"

lemma is_placeholder_iff: "is_placeholder s rest \<longleftrightarrow> placeholder_at s = Some rest"
proof
  assume "is_placeholder s rest"
  then obtain body where s: "s = lbrace # body @ rbrace # rest" and b: "body \<noteq> []" "\<forall>c\<in>set body. placeholder_body c"
    by (auto simp: is_placeholder_def placeholder_body_def)
  have "takeWhile placeholder_body (body @ rbrace # rest) = body" "dropWhile placeholder_body (body @ rbrace # rest) = rbrace # rest"
    using b(2) by (simp_all add: placeholder_body_def takeWhile_tail dropWhile_append2)
  with s b(1) show "placeholder_at s = Some rest" by (simp add: placeholder_at_def)
next
  assume "placeholder_at s = Some rest"
  then obtain t where t: "s = lbrace # t" "takeWhile placeholder_body t \<noteq> []" "dropWhile placeholder_body t = rbrace # rest"
    by (auto simp: placeholder_at_def split: list.splits if_splits)
  moreover have "t = takeWhile placeholder_body t @ rbrace # rest" using t(3) by (metis takeWhile_dropWhile_id)
  moreover have "\<forall>c\<in>set (takeWhile placeholder_body t). placeholder_body c" by (auto dest: set_takeWhileD)
  ultimately show "is_placeholder s rest" unfolding is_placeholder_def
    by (intro exI [of _ "takeWhile placeholder_body t"]) (auto simp: placeholder_body_def)
qed

lemma spells_items: "spells s (template_items s)"
proof (induction s rule: template_induct)
  case (Segment s r)
  then show ?case by (auto simp: template_items_Segment is_placeholder_iff intro: spells_segment)
next
  case (Rest r)
  then show ?case using spells_rest [of r] by (simp add: template_items_Rest)
next
  case (Text c t)
  then have "\<nexists>rest. is_placeholder (c # t) rest \<or> c # t = [slash, star] @ rest"
    by (auto simp: is_placeholder_iff)
  then have "spells (c # t) (Text c # template_items t)" using Text(3) by (rule spells_text)
  with Text(1,2) show ?case by (simp add: template_items_Text del: strip_prefix.simps)
qed (simp add: spells_end)

lemma spells_unique: "spells s is \<Longrightarrow> is = template_items s"
proof (induction rule: spells.induct)
  case (spells_text c s "is")
  then have none: "placeholder_at (c # s) \<noteq> Some rest" "c # s \<noteq> [slash, star] @ rest" for rest
    by (auto simp: is_placeholder_iff)
  have "placeholder_at (c # s) = None" using none(1) by (cases "placeholder_at (c # s)") auto
  moreover have "strip_prefix [slash, star] (c # s) = None"
    using none(2) by (auto simp: strip_prefix_None_iff prefix_def simp del: strip_prefix.simps)
  ultimately show ?case using spells_text by (simp add: template_items_Text del: strip_prefix.simps)
qed (simp_all add: template_items_Segment template_items_Rest is_placeholder_iff)

lemma template_match_doc: "template_match is s \<Longrightarrow> doc_match is s"
  by (induction rule: template_match.induct) (auto intro: doc_match.intros)

lemma doc_match_template: "doc_match is s \<Longrightarrow> newline \<notin> set s \<Longrightarrow> template_match is s"
  by (induction rule: doc_match.induct) (auto intro: template_match.intros)

subsection \<open>Consequences\<close>

definition wildcard_free :: "string \<Rightarrow> bool" where
  "wildcard_free t \<longleftrightarrow> \<not> sublist [CHR ''/'', CHR ''*''] t"

lemma no_wildcard_Cons: "\<not> sublist w (c # t) \<Longrightarrow> \<not> sublist w t"
  by (simp add: sublist_Cons_right)

lemma no_wildcard_append: "\<not> sublist w (a @ b) \<Longrightarrow> \<not> sublist w b"
  by (auto simp: sublist_append)

lemma no_wildcard_placeholder:
  assumes "placeholder_at s = Some r" "\<not> sublist w s"
  shows "\<not> sublist w r"
proof -
  obtain body where "s = (lbrace # body @ [rbrace]) @ r"
    using placeholder_at_shape [OF assms(1)] by auto
  with assms(2) show ?thesis using no_wildcard_append by metis
qed

lemma wildcard_sublist: "sublist [a, b] (a # b # r)"
  using sublist_append_rightI [of "[a, b]" r] by simp

lemma no_wildcard_items:
  assumes "\<not> sublist [slash, star] s"
  shows "Rest \<notin> set (template_items s)"
  using assms
proof (induction s rule: template_induct)
  case (Segment s r)
  then show ?case by (simp add: template_items_Segment no_wildcard_placeholder)
next
  case (Rest r)
  then show ?case by (simp add: wildcard_sublist)
next
  case (Text c t)
  then show ?case
    using no_wildcard_Cons [of _ c t] by (simp add: template_items_Text del: strip_prefix.simps)
qed simp

lemma no_placeholder_items:
  assumes "lbrace \<notin> set s" "\<not> sublist [slash, star] s"
  shows "template_items s = map Text s"
  using assms
proof (induction s rule: template_induct)
  case (Segment s r)
  then show ?case using placeholder_at_shape [OF Segment(1)] by auto
next
  case (Rest r)
  then show ?case by (simp add: wildcard_sublist)
next
  case (Text c t)
  then show ?case
    using no_wildcard_Cons [of _ c t] by (simp add: template_items_Text del: strip_prefix.simps)
qed simp

lemma template_match_literal: "template_match (map Text s) p \<longleftrightarrow> p = s"
  by (induction s arbitrary: p) auto

lemma sublist_bytes: "sublist (bytes s) (bytes t) \<longleftrightarrow> sublist s t"
proof
  assume "sublist (bytes s) (bytes t)"
  then obtain a b where "bytes t = a @ bytes s @ b" by (auto simp: sublist_def)
  then obtain a' t' where t: "t = a' @ t'" "bytes t' = bytes s @ b"
    unfolding bytes_def by (metis map_eq_append_conv)
  then obtain s' b' where "t' = s' @ b'" "bytes s' = bytes s"
    unfolding bytes_def by (metis map_eq_append_conv)
  with t show "sublist s t" by (auto simp: bytes_inj sublist_def)
next
  assume "sublist s t"
  then obtain a b where "t = a @ s @ b" by (auto simp: sublist_def)
  then show "sublist (bytes s) (bytes t)" by simp
qed

lemma wildcard_free_bytes: "wildcard_free t \<longleftrightarrow> \<not> sublist [slash, star] (bytes t)"
  using sublist_bytes [of "[CHR ''/'', CHR ''*'']" t] by (simp add: wildcard_free_def)

lemma char_in_bytes: "of_char c \<in> set (bytes s) \<longleftrightarrow> c \<in> set s"
  by (auto simp: bytes_def)

lemma match_counts_slash:
  "template_match is s \<Longrightarrow> Rest \<notin> set is \<Longrightarrow> count_list s slash = count_list is (Text slash)"
  by (induction rule: template_match.induct) (auto simp: count_list_0_iff)

lemma items_count_slash:
  "\<not> sublist [slash, star] s \<Longrightarrow> count_list (template_items s) (Text slash) = count_list s slash"
proof (induction s rule: template_induct)
  case (Segment s r)
  then show ?case
    using placeholder_at_shape [OF Segment(1)] no_wildcard_placeholder [OF Segment(1)]
    by (auto simp: template_items_Segment)
next
  case (Rest r)
  then show ?case by (simp add: wildcard_sublist)
next
  case (Text c t)
  then show ?case
    using no_wildcard_Cons [of _ c t] by (auto simp: template_items_Text simp del: strip_prefix.simps)
qed simp

lemma count_bytes: "count_list (bytes s) (of_char c) = count_list s c"
  by (induction s) auto

section \<open>Properties\<close>

text \<open>
  C28: the expression pipeline of \<open>pathMatch\<close> (locating the placeholders, quoting the rest, compiling and
  matching) decides the documented template language, for every template that is well-formed UTF-8 and
  every path. The template spells one sequence of items; matching never fails on it; a path is never
  matched that the documentation does not match, and a path without a newline is matched exactly when
  the documentation says so. (Across a newline the wildcard, \<^verbatim>\<open>.*\<close> without the \<open>s\<close> flag, stops short
  of the rest of the path the documentation promises.)
\<close>

theorem pathMatch_decides_template_language:
  assumes "runes_strict (bytes template) = Some ts"
  shows "\<exists>is m. spells ts is \<and> (\<forall>is'. spells ts is' \<longrightarrow> is' = is) \<and> pathMatch path template = Inr m \<and>
    (m \<longrightarrow> doc_match is (runes (bytes path))) \<and>
    (CHR 0x0A \<notin> set path \<longrightarrow> m = doc_match is (runes (bytes path)))"
proof -
  have "newline \<notin> set (runes (bytes path))" if "CHR 0x0A \<notin> set path"
    using that count_runes_ascii [of newline "bytes path"] char_in_bytes [of "CHR 0x0A" path] by (simp add: count_list_0_iff)
  then show ?thesis
    using spells_items spells_unique template_match_doc doc_match_template pathMatch_utf8 [OF assms] by blast
qed

theorem pathMatch_decides_template_language_witness:
  "(\<exists>is. spells (bytes ''/api/{id}/*'') is \<and> doc_match is (runes (bytes ''/api/7/a/b''))) \<and>
   (\<exists>is. spells (bytes ''/api/*'') is \<and> \<not> doc_match is (runes (bytes ''/apix'')))"
proof -
  have a: "runes_strict (bytes ''/api/{id}/*'') = Some (bytes ''/api/{id}/*'')" "runes_strict (bytes ''/api/*'') = Some (bytes ''/api/*'')"
    by (rule runes_strict_ascii, simp)+
  have e: "pathMatch ''/api/7/a/b'' ''/api/{id}/*'' = Inr True" "pathMatch ''/apix'' ''/api/*'' = Inr False" by code_simp+
  have "\<exists>is. spells (bytes ''/api/{id}/*'') is \<and> doc_match is (runes (bytes ''/api/7/a/b''))"
    using pathMatch_decides_template_language [OF a(1), of "''/api/7/a/b''"] unfolding e(1) sum.inject by blast
  moreover have "CHR 0x0A \<notin> set ''/apix''" by simp
  then have "\<exists>is. spells (bytes ''/api/*'') is \<and> \<not> doc_match is (runes (bytes ''/apix''))"
    using pathMatch_decides_template_language [OF a(2), of "''/apix''"] unfolding e(2) sum.inject by blast
  ultimately show ?thesis by blast
qed

text \<open>
  A stored object that holds neither a placeholder brace nor a wildcard grants exactly the path
  it spells: every other metacharacter of the expression language is inert.
\<close>

theorem pathMatch_literal_exact:
  assumes "is_ascii template" and "CHR 0x7B \<notin> set template" and "wildcard_free template"
  shows "pathMatch path template = Inr (path = template)"
proof -
  have "lbrace \<notin> set (bytes template)"
    using assms(2) char_in_bytes [of "CHR 0x7B" template] by simp
  moreover have "\<not> sublist [slash, star] (bytes template)"
    using assms(3) by (simp add: wildcard_free_bytes)
  ultimately show ?thesis
    using assms(1)
    by (simp add: pathMatch_ascii no_placeholder_items template_match_literal runes_eq_bytes_ascii)
qed

theorem pathMatch_literal_exact_witness:
  "pathMatch ''/api/x'' ''/api/.*'' = Inr False \<and> pathMatch ''/api/.*'' ''/api/.*'' = Inr True"
proof -
  have a: "is_ascii ''/api/.*''" and b: "CHR 0x7B \<notin> set ''/api/.*''" by simp_all
  have c: "wildcard_free ''/api/.*''" by (simp add: wildcard_free_def sublist_Cons_right)
  show ?thesis
    using pathMatch_literal_exact [OF a b c, of "''/api/x''"]
      pathMatch_literal_exact [OF a b c, of "''/api/.*''"] by simp
qed

text \<open>
  A placeholder never spans a separator: a template without the wildcard only matches paths with
  as many separators as the template itself has.
\<close>

theorem placeholder_never_spans_separator:
  assumes "is_ascii template" and "wildcard_free template" and "pathMatch path template = Inr True"
  shows "count_list path (CHR ''/'') = count_list template (CHR ''/'')"
proof -
  have w: "\<not> sublist [slash, star] (bytes template)"
    using assms(2) by (simp add: wildcard_free_bytes)
  have "template_match (template_items (bytes template)) (runes (bytes path))"
    using assms(1,3) by (simp add: pathMatch_ascii)
  then have "count_list (runes (bytes path)) slash = count_list (bytes template) slash"
    using match_counts_slash no_wildcard_items [OF w] items_count_slash [OF w] by metis
  then show ?thesis
    using count_runes_ascii [of slash "bytes path"] count_bytes [of path "CHR ''/''"]
      count_bytes [of template "CHR ''/''"] by simp
qed

theorem placeholder_never_spans_separator_witness:
  "count_list ''/a/b-c'' (CHR ''/'') = count_list ''/a/{x}-{y}'' (CHR ''/'')"
proof (rule placeholder_never_spans_separator)
  show "is_ascii ''/a/{x}-{y}''" by simp
  show "wildcard_free ''/a/{x}-{y}''" by (simp add: wildcard_free_def sublist_Cons_right)
  show "pathMatch ''/a/b-c'' ''/a/{x}-{y}'' = Inr True" by code_simp
qed

text \<open>
  C29: the template cache is transparent: on a cache that only holds compilations, a cached match
  answers what an uncached one answers, keeps the cache that way, and adds the template alone, never
  the path a client sent.
\<close>

theorem template_cache_transparent:
  assumes "cache_ok cache"
  shows "fst (pathMatch_cached cache path template) = pathMatch path template \<and>
     cache_ok (snd (pathMatch_cached cache path template)) \<and>
     dom (snd (pathMatch_cached cache path template)) = insert template (dom cache)"
  by (rule pathMatch_cached_transparent [OF assms])

theorem template_cache_transparent_witness:
  "cache_ok Map.empty \<and> fst (pathMatch_cached Map.empty ''/a'' ''/a'') = pathMatch ''/a'' ''/a''"
proof -
  have "cache_ok Map.empty" by (simp add: cache_ok_def)
  with template_cache_transparent [OF this, of "''/a''" "''/a''"] show ?thesis by blast
qed

end
