(* ===== verification/Tenant.thy ===== *)
theory Tenant
  imports Prelude
begin

text \<open>
  Row scoping by tenant, \<^verbatim>\<open>src/internal/tenant/context.go\<close> and \<^verbatim>\<open>src/internal/tenant/tenant.go\<close>.
  A context carries an optional explicit scope and, when it came from a request, the tenant the
  request was authorized in. The clauses Gorm applies to every statement of a scoped model are
  functions on a statement: the predicate on reads, updates and deletes, the stamp on inserts, the
  refusal of an update naming another tenant.

  Gorm, which runs the statement, is represented by the meaning of the clauses: a row is selected
  when it satisfies every condition added to the statement.
\<close>

section \<open>The scope a context acts in\<close>

definition tenant_Default :: string where
  "tenant_Default = ''default''"

record scope =
  scope_id :: string
  scope_across :: bool

text \<open>\<open>request_tenant\<close> is \<open>requestctx.FromContext(ctx).TenantID()\<close>, empty outside a request.\<close>

record ctx =
  ctx_scope :: "scope option"
  ctx_request_tenant :: string

definition Background :: ctx where
  "Background = \<lparr>ctx_scope = None, ctx_request_tenant = []\<rparr>"

text \<open>A nil context is \<open>None\<close>.\<close>

definition tenant_In :: "ctx option \<Rightarrow> string \<Rightarrow> ctx" where
  "tenant_In ctx tid =
     (let c = (case ctx of None \<Rightarrow> Background | Some c \<Rightarrow> c);
          trimmed = TrimSpace tid;
          named = (if trimmed = [] then tenant_Default else trimmed)
      in c\<lparr>ctx_scope := Some \<lparr>scope_id = named, scope_across = False\<rparr>\<rparr>)"

definition tenant_Across :: "ctx option \<Rightarrow> ctx" where
  "tenant_Across ctx =
     (let c = (case ctx of None \<Rightarrow> Background | Some c \<Rightarrow> c)
      in c\<lparr>ctx_scope := Some \<lparr>scope_id = [], scope_across = True\<rparr>\<rparr>)"

definition requestTenant :: "ctx \<Rightarrow> string" where
  "requestTenant c = TrimSpace (ctx_request_tenant c)"

definition resolve :: "ctx option \<Rightarrow> scope" where
  "resolve ctx =
     (case ctx of
        None \<Rightarrow> \<lparr>scope_id = tenant_Default, scope_across = False\<rparr>
      | Some c \<Rightarrow>
          (case ctx_scope c of
             Some s \<Rightarrow>
               if scope_across s \<and> scope_id s = [] then s\<lparr>scope_id := requestTenant c\<rparr> else s
           | None \<Rightarrow>
               if requestTenant c \<noteq> [] then \<lparr>scope_id = requestTenant c, scope_across = False\<rparr>
               else \<lparr>scope_id = tenant_Default, scope_across = False\<rparr>))"

definition tenant_From :: "ctx option \<Rightarrow> string \<times> bool" where
  "tenant_From ctx =
     (let s = resolve ctx in if scope_across s then ([], False) else (scope_id s, True))"

text \<open>
  A context the package built never carries an explicit single-tenant scope without a name; every
  scope comes from \<open>In\<close> or \<open>Across\<close>.
\<close>

definition ctx_ok :: "ctx option \<Rightarrow> bool" where
  "ctx_ok ctx \<longleftrightarrow>
     (case ctx of None \<Rightarrow> True
      | Some c \<Rightarrow> (case ctx_scope c of None \<Rightarrow> True | Some s \<Rightarrow> scope_across s \<or> scope_id s \<noteq> []))"

lemma tenant_Default_nonempty [simp]: "tenant_Default \<noteq> []"
  by (simp add: tenant_Default_def)

lemma ctx_ok_built [simp]:
  "ctx_ok None" "ctx_ok (Some Background)" "ctx_ok (Some (tenant_In ctx tid))"
  "ctx_ok (Some (tenant_Across ctx))"
  by (simp_all add: ctx_ok_def Background_def tenant_In_def tenant_Across_def Let_def)

lemma resolve_named: "ctx_ok ctx \<Longrightarrow> \<not> scope_across (resolve ctx) \<Longrightarrow> scope_id (resolve ctx) \<noteq> []"
  by (auto simp: ctx_ok_def resolve_def split: option.splits if_splits)

lemma resolve_In:
  "resolve (Some (tenant_In ctx tid)) =
     \<lparr>scope_id = (if TrimSpace tid = [] then tenant_Default else TrimSpace tid), scope_across = False\<rparr>"
  by (simp add: resolve_def tenant_In_def Let_def)

lemma resolve_Across: "scope_across (resolve (Some (tenant_Across ctx)))"
  by (simp add: resolve_def tenant_Across_def Let_def)

section \<open>The clauses\<close>

datatype tenant_error = ErrTenantRequired | ErrTenantImmutable string string

text \<open>
  A statement: its context, the tenant conditions added to it, the marker that one was added, the
  tenant column of the rows it writes, and the error it carries. An empty tenant column is Go's zero
  value.
\<close>

record statement =
  stmt_context :: "ctx option"
  stmt_where :: "string list"
  stmt_marked :: bool
  stmt_rows :: "string list"
  stmt_error :: "tenant_error option"

definition newStatement :: "ctx option \<Rightarrow> string list \<Rightarrow> statement" where
  "newStatement ctx rows =
     \<lparr>stmt_context = ctx, stmt_where = [], stmt_marked = False, stmt_rows = rows, stmt_error = None\<rparr>"

definition predicateClause :: "statement \<Rightarrow> statement" where
  "predicateClause stmt =
     (if stmt_marked stmt then stmt
      else
        (let s = resolve (stmt_context stmt)
         in if scope_across s then stmt
            else stmt\<lparr>stmt_where := stmt_where stmt @ [scope_id s], stmt_marked := True\<rparr>))"

fun stamp_rows :: "scope \<Rightarrow> tenant_error option \<Rightarrow> string list \<Rightarrow> tenant_error option \<times> string list" where
  "stamp_rows s err [] = (err, [])"
| "stamp_rows s err (row # rows) =
     (case err of
        Some e \<Rightarrow> (let rest = stamp_rows s err rows in (fst rest, row # snd rest))
      | None \<Rightarrow>
          if \<not> scope_across s then (let rest = stamp_rows s None rows in (fst rest, scope_id s # snd rest))
          else if row \<noteq> [] then (let rest = stamp_rows s None rows in (fst rest, row # snd rest))
          else if scope_id s = [] then
            (let rest = stamp_rows s (Some ErrTenantRequired) rows in (fst rest, row # snd rest))
          else (let rest = stamp_rows s None rows in (fst rest, scope_id s # snd rest)))"

definition stampClause :: "statement \<Rightarrow> statement" where
  "stampClause stmt =
     (let r = stamp_rows (resolve (stmt_context stmt)) (stmt_error stmt) (stmt_rows stmt)
      in stmt\<lparr>stmt_rows := snd r, stmt_error := fst r\<rparr>)"

fun refuse_moved :: "scope \<Rightarrow> tenant_error option \<Rightarrow> string list \<Rightarrow> tenant_error option" where
  "refuse_moved s err [] = err"
| "refuse_moved s err (row # rows) =
     (case err of
        Some e \<Rightarrow> refuse_moved s err rows
      | None \<Rightarrow>
          if row \<noteq> [] \<and> row \<noteq> scope_id s
          then refuse_moved s (Some (ErrTenantImmutable row (scope_id s))) rows
          else refuse_moved s None rows)"

definition immutableClause :: "statement \<Rightarrow> statement" where
  "immutableClause stmt =
     (let s = resolve (stmt_context stmt)
      in if scope_across s then stmt
         else stmt\<lparr>stmt_error := refuse_moved s (stmt_error stmt) (stmt_rows stmt)\<rparr>)"

text \<open>The clause lists of the column type.\<close>

definition QueryClauses :: "statement \<Rightarrow> statement" where
  "QueryClauses stmt = predicateClause stmt"

definition DeleteClauses :: "statement \<Rightarrow> statement" where
  "DeleteClauses stmt = predicateClause stmt"

definition UpdateClauses :: "statement \<Rightarrow> statement" where
  "UpdateClauses stmt = immutableClause (predicateClause stmt)"

definition CreateClauses :: "statement \<Rightarrow> statement" where
  "CreateClauses stmt = stampClause stmt"

text \<open>What a statement selects of a table: the rows that satisfy every condition.\<close>

definition selects :: "statement \<Rightarrow> string \<Rightarrow> bool" where
  "selects stmt tenant \<longleftrightarrow> (\<forall>w\<in>set (stmt_where stmt). tenant = w)"

section \<open>Lemmas\<close>

lemma stmt_context_predicate [simp]: "stmt_context (predicateClause stmt) = stmt_context stmt"
  by (simp add: predicateClause_def Let_def)

lemma predicateClause_idem: "predicateClause (predicateClause stmt) = predicateClause stmt"
  by (simp add: predicateClause_def Let_def)

lemma stamp_rows_error: "stamp_rows s (Some e) rows = (Some e, rows)"
  by (induction rows) (simp_all add: Let_def)

lemma stamp_rows_single:
  "\<not> scope_across s \<Longrightarrow> stamp_rows s None rows = (None, map (\<lambda>_. scope_id s) rows)"
  by (induction rows) (simp_all add: Let_def)

lemma stamp_rows_across:
  assumes "scope_across s" "scope_id s \<noteq> [] \<or> [] \<notin> set rows"
  shows "stamp_rows s None rows = (None, map (\<lambda>r. if r = [] then scope_id s else r) rows)"
  using assms(2) by (induction rows) (use assms(1) in \<open>auto simp: Let_def\<close>)

lemma stamp_rows_refused:
  assumes "scope_across s" "scope_id s = []" "[] \<in> set rows"
  shows "fst (stamp_rows s None rows) = Some ErrTenantRequired"
  using assms(3)
  by (induction rows) (use assms(1,2) in \<open>auto simp: Let_def stamp_rows_error\<close>)

lemma refuse_moved_error: "refuse_moved s (Some e) rows = Some e"
  by (induction rows) simp_all

lemma refuse_moved_None:
  "refuse_moved s None rows = None \<longleftrightarrow> (\<forall>row\<in>set rows. row = [] \<or> row = scope_id s)"
  by (induction rows) (auto simp: refuse_moved_error)

section \<open>Properties\<close>



text \<open>
  An update under a single-tenant context is refused exactly when some row names a tenant other
  than the one acted in, and an insert under a cross-tenant context is refused exactly when some row
  names none and no request names the tenant acted in.
\<close>

theorem tenant_refusals:
  "(stmt_error (UpdateClauses (newStatement ctx rows)) = None \<longleftrightarrow>
     scope_across (resolve ctx) \<or> (\<forall>row\<in>set rows. row = [] \<or> row = scope_id (resolve ctx))) \<and>
   (stmt_error (CreateClauses (newStatement ctx rows)) = None \<longleftrightarrow>
     \<not> scope_across (resolve ctx) \<or> scope_id (resolve ctx) \<noteq> [] \<or> [] \<notin> set rows)"
proof
  show "stmt_error (UpdateClauses (newStatement ctx rows)) = None \<longleftrightarrow>
     scope_across (resolve ctx) \<or> (\<forall>row\<in>set rows. row = [] \<or> row = scope_id (resolve ctx))"
    by (auto simp: UpdateClauses_def predicateClause_def immutableClause_def newStatement_def
        refuse_moved_None Let_def)
  show "stmt_error (CreateClauses (newStatement ctx rows)) = None \<longleftrightarrow>
     \<not> scope_across (resolve ctx) \<or> scope_id (resolve ctx) \<noteq> [] \<or> [] \<notin> set rows"
    using stamp_rows_refused [of "resolve ctx" rows] stamp_rows_single [of "resolve ctx" rows]
      stamp_rows_across [of "resolve ctx" rows]
    by (cases "scope_across (resolve ctx)")
      (auto simp: CreateClauses_def stampClause_def newStatement_def Let_def)
qed

theorem tenant_refusals_witness:
  "stmt_error (UpdateClauses (newStatement (Some (tenant_In None ''acme'')) [''other''])) \<noteq> None"
proof -
  have "resolve (Some (tenant_In None ''acme'')) = \<lparr>scope_id = ''acme'', scope_across = False\<rparr>"
    by code_simp
  then show ?thesis
    using tenant_refusals [of "Some (tenant_In None ''acme'')" "[''other'']"] by simp
qed

end
