(* ===== verification/Rbac_Authorize.thy ===== *)
theory Rbac_Authorize
  imports Rbac_Graph Rbac_Path Tenant
begin

text \<open>
  A decision, from the decision index to the answer a transport gives:
  \<^verbatim>\<open>src/authz/rbac/index.go\<close>, \<^verbatim>\<open>authorize.go\<close>, \<^verbatim>\<open>decision.go\<close>, \<^verbatim>\<open>enforce.go\<close>, the reads of
  \<^verbatim>\<open>rbac.go\<close> and \<^verbatim>\<open>noop.go\<close>.

  The matcher that specifies a policy decision, evaluated once per stored rule, is \<open>policy_matches\<close>
  below; the index, the role closure and the order of the branches are what executes. The properties
  say that the two answer alike, that the strongest grant is the one named, and that an error comes
  only from a stored rule whose tenant, role and action the request reaches.

  Spans and elapsed times are not modelled; log entries and the decision counter's labels are.
\<close>

section \<open>Names and data\<close>

definition UserRoot :: string where "UserRoot = ''root''"
definition RoleAdmin :: string where "RoleAdmin = ''admin''"
definition SystemRoleRoot :: string where "SystemRoleRoot = ''system_root''"
definition RoleAuthenticated :: string where "RoleAuthenticated = ''authenticated''"
definition EffectAllow :: string where "EffectAllow = ''allow''"
definition EffectDeny :: string where "EffectDeny = ''deny''"

lemmas rbac_names = UserRoot_def RoleAdmin_def SystemRoleRoot_def RoleAuthenticated_def EffectAllow_def EffectDeny_def

datatype GrantSource =
  GrantSourceSystemRoot | GrantSourceTenantAdmin | GrantSourceAuthenticated | GrantSourceRole

datatype DenyReason =
  DenyReasonUnauthenticated | DenyReasonNoRole | DenyReasonNoPolicy | DenyReasonNotInitialized

text \<open>The empty source and the empty reason are \<open>None\<close>; a nil matched rule is the empty list.\<close>

record Decision =
  Allowed :: bool
  Source :: "GrantSource option"
  Reason :: "DenyReason option"
  MatchedRule :: rule

record indexedRule =
  indexed_rule :: rule
  indexed_template :: string
  indexed_action :: string

text \<open>A key absent from either level of \<open>byTenantRole\<close> reads as the nil slice.\<close>

record decisionIndex =
  authenticated :: "indexedRule list"
  byTenantRole :: "string \<Rightarrow> string \<Rightarrow> indexedRule list"

text \<open>
  The package variables a decision reads. Each is nil until a policy set is installed.
\<close>

record policy_world =
  policyRules :: "policySet option"
  policyIndex :: "decisionIndex option"
  policyGraph :: "roleGraph option"

section \<open>The decision index\<close>

fun index_rules :: "decisionIndex \<Rightarrow> rule list \<Rightarrow> decisionIndex" where
  "index_rules index [] = index"
| "index_rules index (rule # rules) =
     (if length rule < 5 \<or> rule ! 4 \<noteq> EffectAllow then index_rules index rules
      else
        (let indexed = \<lparr>indexed_rule = rule, indexed_template = rule ! 2, indexed_action = rule ! 3\<rparr>
         in if rule ! 1 = RoleAuthenticated
            then index_rules (index\<lparr>authenticated := authenticated index @ [indexed]\<rparr>) rules
            else
              (let roles = byTenantRole index (rule ! 0)
               in index_rules
                    (index\<lparr>byTenantRole :=
                       (byTenantRole index)(rule ! 0 := roles(rule ! 1 := roles (rule ! 1) @ [indexed]))\<rparr>)
                    rules)))"

definition buildDecisionIndex :: "policySet \<Rightarrow> decisionIndex" where
  "buildDecisionIndex ps =
     index_rules \<lparr>authenticated = [], byTenantRole = (\<lambda>_ _. [])\<rparr> (policySet_all ps permissionPtype)"

fun matchRules :: "indexedRule list \<Rightarrow> string \<Rightarrow> string \<Rightarrow> path_error + (bool \<times> rule)" where
  "matchRules [] object action = Inr (False, [])"
| "matchRules (r # rules) object action =
     (if indexed_action r \<noteq> action then matchRules rules object action
      else
        (case pathMatch object (indexed_template r) of
           Inl err \<Rightarrow> Inl err
         | Inr matched \<Rightarrow> if matched then Inr (True, indexed_rule r) else matchRules rules object action))"

definition rebuildDerived :: "policySet option \<Rightarrow> policy_world \<Rightarrow> policy_world" where
  "rebuildDerived ps w =
     (case ps of
        None \<Rightarrow> w\<lparr>policyIndex := None, policyGraph := None\<rparr>
      | Some s \<Rightarrow> w\<lparr>policyIndex := Some (buildDecisionIndex s), policyGraph := Some (buildRoleGraph s)\<rparr>)"

definition installed :: "policySet \<Rightarrow> policy_world" where
  "installed s =
     rebuildDerived (Some s) \<lparr>policyRules = Some s, policyIndex = None, policyGraph = None\<rparr>"

section \<open>Authorize\<close>

definition normalizeTenant :: "string \<Rightarrow> string" where
  "normalizeTenant tid = (let trimmed = TrimSpace tid in if trimmed \<noteq> [] then trimmed else tenant_Default)"

text \<open>\<open>domain\<close> is the optional last argument; absent it reads as the empty scope.\<close>

definition hasRoleLink :: "policy_world \<Rightarrow> string \<Rightarrow> string \<Rightarrow> string \<Rightarrow> string option \<Rightarrow> bool" where
  "hasRoleLink w ptype subject role domain =
     (if subject = role then False
      else
        (case policyGraph w of
           None \<Rightarrow> False
         | Some graph \<Rightarrow> hasLink graph ptype subject role (case domain of None \<Rightarrow> [] | Some d \<Rightarrow> d)))"

text \<open>The loop over the roles a subject reaches; the result is that of \<open>authorize\<close>.\<close>

type_synonym answer = "path_error + (bool \<times> GrantSource option \<times> rule)"

fun match_roles :: "(string \<Rightarrow> indexedRule list) \<Rightarrow> string \<Rightarrow> string list \<Rightarrow> string \<Rightarrow> string \<Rightarrow> answer" where
  "match_roles tenantRules subject [] object action = Inr (False, None, [])"
| "match_roles tenantRules subject (role # roles) object action =
     (if role = subject then match_roles tenantRules subject roles object action
      else
        (case matchRules (tenantRules role) object action of
           Inl err \<Rightarrow> Inl err
         | Inr (allowed, matchedRule) \<Rightarrow>
             if allowed then Inr (True, Some GrantSourceRole, matchedRule)
             else match_roles tenantRules subject roles object action))"

definition authorize :: "policy_world \<Rightarrow> string \<Rightarrow> string \<Rightarrow> string \<Rightarrow> string \<Rightarrow> answer" where
  "authorize w tenant subject object action =
     (if hasRoleLink w systemRoleGrouping subject SystemRoleRoot None
      then Inr (True, Some GrantSourceSystemRoot, [])
      else if hasRoleLink w tenantRoleGrouping subject RoleAdmin (Some tenant)
      then Inr (True, Some GrantSourceTenantAdmin, [])
      else
        (case policyIndex w of
           None \<Rightarrow> Inr (False, None, [])
         | Some index \<Rightarrow>
             (let role_branch =
                match_roles (byTenantRole index tenant) subject
                  (subjectRoleClosure (policyGraph w) subject tenant) object action
              in if subject \<noteq> [] then
                   (case matchRules (authenticated index) object action of
                      Inl err \<Rightarrow> Inl err
                    | Inr (allowed, matchedRule) \<Rightarrow>
                        if allowed then Inr (True, Some GrantSourceAuthenticated, matchedRule)
                        else role_branch)
                 else role_branch)))"

definition denyReason :: "policy_world \<Rightarrow> string \<Rightarrow> string \<Rightarrow> DenyReason" where
  "denyReason w tenant subject =
     (case policyGraph w of
        None \<Rightarrow> DenyReasonNoRole
      | Some graph \<Rightarrow>
          if directRoles graph tenantRoleGrouping subject tenant = [] then DenyReasonNoRole
          else DenyReasonNoPolicy)"

definition rbac_Authorize ::
  "policy_world \<Rightarrow> string \<Rightarrow> string \<Rightarrow> string \<Rightarrow> string \<Rightarrow> Decision \<times> path_error option" where
  "rbac_Authorize w tenant0 subject object action =
     (let tenant = normalizeTenant tenant0
      in case authorize w tenant subject object action of
           Inl err \<Rightarrow>
             (\<lparr>Allowed = False, Source = None, Reason = None, MatchedRule = []\<rparr>, Some err)
         | Inr (allowed, source, matchedRule) \<Rightarrow>
             (\<lparr>Allowed = allowed, Source = source,
               Reason = (if allowed then None else Some (denyReason w tenant subject)),
               MatchedRule = matchedRule\<rparr>, None))"

definition noop_Authorize :: "Decision \<times> path_error option" where
  "noop_Authorize =
     (\<lparr>Allowed = False, Source = None, Reason = Some DenyReasonNotInitialized, MatchedRule = []\<rparr>, None)"

text \<open>\<open>RBAC\<close> answers with \<open>noop\<close> until a policy set is installed.\<close>

definition RBAC_Authorize ::
  "policy_world \<Rightarrow> string \<Rightarrow> string \<Rightarrow> string \<Rightarrow> string \<Rightarrow> Decision \<times> path_error option" where
  "RBAC_Authorize w tenant subject object action =
     (case policyRules w of
        None \<Rightarrow> noop_Authorize
      | Some _ \<Rightarrow> rbac_Authorize w tenant subject object action)"

text \<open>The labels the decision counter is incremented under: effect, source, reason.\<close>

fun grant_source_name :: "GrantSource \<Rightarrow> string" where
  "grant_source_name GrantSourceSystemRoot = ''system_root''"
| "grant_source_name GrantSourceTenantAdmin = ''tenant_admin''"
| "grant_source_name GrantSourceAuthenticated = ''authenticated''"
| "grant_source_name GrantSourceRole = ''role''"

fun deny_reason_name :: "DenyReason \<Rightarrow> string" where
  "deny_reason_name DenyReasonUnauthenticated = ''unauthenticated''"
| "deny_reason_name DenyReasonNoRole = ''no_role''"
| "deny_reason_name DenyReasonNoPolicy = ''no_policy''"
| "deny_reason_name DenyReasonNotInitialized = ''not_initialized''"

definition countDecision :: "Decision \<Rightarrow> path_error option \<Rightarrow> string \<times> string \<times> string" where
  "countDecision decision err =
     (if err \<noteq> None then (''error'', [], [])
      else if Allowed decision
      then (EffectAllow, (case Source decision of None \<Rightarrow> [] | Some s \<Rightarrow> grant_source_name s), [])
      else (EffectDeny, [], (case Reason decision of None \<Rightarrow> [] | Some r \<Rightarrow> deny_reason_name r)))"

section \<open>Enforce\<close>

record Subject =
  UserID :: string
  Username :: string
  TenantID :: string

text \<open>
  One log entry: the shared fields, then what each kind of entry adds. A field that is not written is
  \<open>None\<close>; an entry without an effect is a failure.
\<close>

record log_entry =
  log_tenant :: string
  log_sub :: string
  log_obj :: string
  log_act :: string
  log_username :: string
  log_eft :: "string option"
  log_allowed_by :: "GrantSource option"
  log_matched_rule :: "rule option"
  log_denied_by :: "DenyReason option"
  log_error :: "path_error option"

definition enforceLogFields :: "Subject \<Rightarrow> string \<Rightarrow> string \<Rightarrow> string \<Rightarrow> string \<Rightarrow> log_entry" where
  "enforceLogFields subject tenantID sub obj act =
     \<lparr>log_tenant = tenantID, log_sub = sub, log_obj = obj, log_act = act,
      log_username = Username subject, log_eft = None, log_allowed_by = None,
      log_matched_rule = None, log_denied_by = None, log_error = None\<rparr>"

definition logGrant ::
  "Subject \<Rightarrow> string \<Rightarrow> string \<Rightarrow> string \<Rightarrow> string \<Rightarrow> GrantSource option \<Rightarrow> rule \<Rightarrow> log_entry" where
  "logGrant subject tenantID sub obj act source matchedRule =
     (enforceLogFields subject tenantID sub obj act)
       \<lparr>log_eft := Some EffectAllow, log_allowed_by := source,
        log_matched_rule := (if 0 < length matchedRule then Some matchedRule else None)\<rparr>"

definition logDeny ::
  "Subject \<Rightarrow> string \<Rightarrow> string \<Rightarrow> string \<Rightarrow> string \<Rightarrow> DenyReason option \<Rightarrow> log_entry" where
  "logDeny subject tenantID sub obj act reason =
     (enforceLogFields subject tenantID sub obj act)
       \<lparr>log_eft := Some EffectDeny, log_denied_by := reason\<rparr>"

definition logFailure ::
  "Subject \<Rightarrow> string \<Rightarrow> string \<Rightarrow> string \<Rightarrow> string \<Rightarrow> path_error \<Rightarrow> log_entry" where
  "logFailure subject tenantID sub obj act err =
     (enforceLogFields subject tenantID sub obj act)\<lparr>log_error := Some err\<rparr>"

text \<open>A refusal carries the status and message the client is answered with.\<close>

datatype service_error = ServiceError nat string "path_error option"

definition permission_denied :: service_error where
  "permission_denied = ServiceError 403 ''permission denied'' None"

definition authorization_unavailable :: "path_error \<Rightarrow> service_error" where
  "authorization_unavailable err = ServiceError 500 ''authorization unavailable'' (Some err)"

record enforced =
  enf_ctx :: "ctx option"
  enf_tenant :: string
  enf_error :: "service_error option"
  enf_log :: log_entry

definition Enforce :: "policy_world \<Rightarrow> ctx option \<Rightarrow> Subject \<Rightarrow> string \<Rightarrow> string \<Rightarrow> enforced" where
  "Enforce w ctx subject obj act =
     (let sub = TrimSpace (UserID subject)
      in if sub = [] then
           \<lparr>enf_ctx = ctx, enf_tenant = [], enf_error = Some permission_denied,
            enf_log = logDeny subject [] sub obj act (Some DenyReasonUnauthenticated)\<rparr>
         else
           (let trimmed = TrimSpace (TenantID subject);
                tenantID = (if trimmed = [] then tenant_Default else trimmed)
            in case RBAC_Authorize w tenantID sub obj act of
                 (decision, Some err) \<Rightarrow>
                   \<lparr>enf_ctx = ctx, enf_tenant = tenantID,
                    enf_error = Some (authorization_unavailable err),
                    enf_log = logFailure subject tenantID sub obj act err\<rparr>
               | (decision, None) \<Rightarrow>
                   if \<not> Allowed decision then
                     \<lparr>enf_ctx = ctx, enf_tenant = tenantID, enf_error = Some permission_denied,
                      enf_log = logDeny subject tenantID sub obj act (Reason decision)\<rparr>
                   else
                     \<lparr>enf_ctx = (if Source decision = Some GrantSourceSystemRoot
                                 then Some (tenant_Across ctx) else ctx),
                      enf_tenant = tenantID, enf_error = None,
                      enf_log = logGrant subject tenantID sub obj act (Source decision)
                                  (MatchedRule decision)\<rparr>))"

section \<open>The specification of a policy decision\<close>

text \<open>
  Membership as the stored grouping rules give it: one link per rule, at most \<open>maxRoleHierarchy\<close> of
  them in a chain.
\<close>

definition tenant_links :: "policySet \<Rightarrow> string \<Rightarrow> (string \<times> string) set" where
  "tenant_links ps tenant =
     {(member, role). \<exists>r\<in>set (rules_of ps tenantRoleGrouping). r ! 0 = member \<and> r ! 1 = role \<and> r ! 2 = tenant}"

definition system_links :: "policySet \<Rightarrow> (string \<times> string) set" where
  "system_links ps =
     {(member, role). \<exists>r\<in>set (rules_of ps systemRoleGrouping). r ! 0 = member \<and> r ! 1 = role}"

definition within_links :: "(string \<times> string) set \<Rightarrow> string \<Rightarrow> string \<Rightarrow> bool" where
  "within_links rel a b \<longleftrightarrow> (\<exists>n. 1 \<le> n \<and> n \<le> maxRoleHierarchy \<and> (a, b) \<in> rel ^^ n)"

text \<open>
  The matcher, on one stored rule: the branch of the implicit role compares neither membership nor
  tenant; the other refuses a rule naming the subject itself.
\<close>

definition rule_reaches :: "policySet \<Rightarrow> string \<Rightarrow> string \<Rightarrow> string \<Rightarrow> rule \<Rightarrow> bool" where
  "rule_reaches ps tenant subject action r \<longleftrightarrow>
     5 \<le> length r \<and> r ! 4 = EffectAllow \<and> r ! 3 = action \<and>
     (r ! 1 = RoleAuthenticated \<and> subject \<noteq> [] \<or>
      subject \<noteq> r ! 1 \<and> r ! 0 = tenant \<and> within_links (tenant_links ps tenant) subject (r ! 1))"

definition policy_matches :: "policySet \<Rightarrow> string \<Rightarrow> string \<Rightarrow> string \<Rightarrow> string \<Rightarrow> rule \<Rightarrow> bool" where
  "policy_matches ps tenant subject object action r \<longleftrightarrow>
     rule_reaches ps tenant subject action r \<and> pathMatch object (r ! 2) = Inr True"

section \<open>Lemmas on the index\<close>

definition to_indexed :: "rule \<Rightarrow> indexedRule" where
  "to_indexed r = \<lparr>indexed_rule = r, indexed_template = r ! 2, indexed_action = r ! 3\<rparr>"

definition allow_rule :: "rule \<Rightarrow> bool" where
  "allow_rule r \<longleftrightarrow> 5 \<le> length r \<and> r ! 4 = EffectAllow"

lemma indexed_sel [simp]:
  "indexed_rule (to_indexed r) = r" "indexed_template (to_indexed r) = r ! 2"
  "indexed_action (to_indexed r) = r ! 3"
  by (simp_all add: to_indexed_def)

lemma index_rules_spec:
  "authenticated (index_rules index rs) =
     authenticated index @ map to_indexed (filter (\<lambda>r. allow_rule r \<and> r ! 1 = RoleAuthenticated) rs) \<and>
   byTenantRole (index_rules index rs) t role =
     byTenantRole index t role @
       map to_indexed (filter (\<lambda>r. allow_rule r \<and> r ! 1 \<noteq> RoleAuthenticated \<and> r ! 0 = t \<and> r ! 1 = role) rs)"
proof (induction rs arbitrary: index)
  case (Cons r rs)
  show ?case
    by (cases "allow_rule r"; cases "r ! 1 = RoleAuthenticated")
      (auto simp: Cons.IH Let_def allow_rule_def to_indexed_def)
qed simp

lemma index_authenticated:
  "authenticated (buildDecisionIndex ps) =
     map to_indexed (filter (\<lambda>r. allow_rule r \<and> r ! 1 = RoleAuthenticated) (rules_of ps permissionPtype))"
  using index_rules_spec by (simp add: buildDecisionIndex_def policySet_all_def)

lemma index_byTenantRole:
  "byTenantRole (buildDecisionIndex ps) t role =
     map to_indexed (filter (\<lambda>r. allow_rule r \<and> r ! 1 \<noteq> RoleAuthenticated \<and> r ! 0 = t \<and> r ! 1 = role)
       (rules_of ps permissionPtype))"
  using index_rules_spec by (simp add: buildDecisionIndex_def policySet_all_def)

lemma matchRules_error:
  "matchRules rs obj act = Inl e \<Longrightarrow>
     \<exists>r\<in>set rs. indexed_action r = act \<and> pathMatch obj (indexed_template r) = Inl e"
  by (induction rs) (auto split: if_splits sum.splits)

lemma matchRules_allowed:
  "matchRules rs obj act = Inr (True, m) \<Longrightarrow>
     \<exists>r\<in>set rs. indexed_action r = act \<and> pathMatch obj (indexed_template r) = Inr True \<and> indexed_rule r = m"
  by (induction rs) (auto split: if_splits sum.splits)

lemma matchRules_refused:
  "matchRules rs obj act = Inr (False, m) \<Longrightarrow> r \<in> set rs \<Longrightarrow> indexed_action r = act \<Longrightarrow>
     pathMatch obj (indexed_template r) = Inr False"
  by (induction rs) (auto split: if_splits sum.splits)

lemmas matchRules_dest = matchRules_error matchRules_allowed matchRules_refused

lemma match_roles_error:
  "match_roles tr sub roles obj act = Inl e \<Longrightarrow>
     \<exists>role\<in>set roles. role \<noteq> sub \<and> matchRules (tr role) obj act = Inl e"
  by (induction roles) (auto split: if_splits sum.splits prod.splits)

lemma match_roles_allowed:
  "match_roles tr sub roles obj act = Inr (True, src, m) \<Longrightarrow>
     src = Some GrantSourceRole \<and>
     (\<exists>role\<in>set roles. role \<noteq> sub \<and> matchRules (tr role) obj act = Inr (True, m))"
  by (induction roles) (auto split: if_splits sum.splits prod.splits)

lemma match_roles_refused:
  assumes "match_roles tr sub roles obj act = Inr (False, src, m)"
  shows "src = None \<and> m = [] \<and> (\<forall>role\<in>set roles. role \<noteq> sub \<longrightarrow> (\<exists>m. matchRules (tr role) obj act = Inr (False, m)))"
  using assms by (induction roles) (auto split: if_splits sum.splits prod.splits)

section \<open>Lemmas on membership\<close>

lemma links_tenant:
  "links (\<lambda>name. directRoles (buildRoleGraph ps) tenantRoleGrouping name tenant) = tenant_links ps tenant"
  by (auto simp: links_def tenant_links_def directRoles_tenant)

lemma links_system:
  "links (\<lambda>name. directRoles (buildRoleGraph ps) systemRoleGrouping name d) = system_links ps"
  by (auto simp: links_def system_links_def directRoles_system)

lemma installed_sel [simp]:
  "policyRules (installed ps) = Some ps"
  "policyIndex (installed ps) = Some (buildDecisionIndex ps)"
  "policyGraph (installed ps) = Some (buildRoleGraph ps)"
  by (simp_all add: installed_def rebuildDerived_def)

lemma hasRoleLink_tenant:
  "hasRoleLink (installed ps) tenantRoleGrouping subject role (Some tenant) \<longleftrightarrow>
     subject \<noteq> role \<and> within_links (tenant_links ps tenant) subject role"
  by (cases "subject = role") (simp_all add: hasRoleLink_def hasLink_iff reaches_def links_tenant within_links_def)

lemma hasRoleLink_system:
  "hasRoleLink (installed ps) systemRoleGrouping subject role None \<longleftrightarrow>
     subject \<noteq> role \<and> within_links (system_links ps) subject role"
  by (cases "subject = role") (simp_all add: hasRoleLink_def hasLink_iff reaches_def links_system within_links_def)

lemma closure_installed:
  "role \<in> set (subjectRoleClosure (Some (buildRoleGraph ps)) subject tenant) \<longleftrightarrow>
     subject \<noteq> [] \<and> role \<noteq> subject \<and> within_links (tenant_links ps tenant) subject role"
  by (cases "subject = []")
    (simp add: subjectRoleClosure_def,
     simp add: set_subjectRoleClosure reaches_def links_tenant within_links_def)

section \<open>Lemmas on decisions\<close>

text \<open>The two branches decided before any policy is consulted.\<close>

definition is_root :: "policySet \<Rightarrow> string \<Rightarrow> bool" where
  "is_root ps subject \<longleftrightarrow> subject \<noteq> SystemRoleRoot \<and> within_links (system_links ps) subject SystemRoleRoot"

definition is_admin :: "policySet \<Rightarrow> string \<Rightarrow> string \<Rightarrow> bool" where
  "is_admin ps tenant subject \<longleftrightarrow>
     subject \<noteq> RoleAdmin \<and> within_links (tenant_links ps tenant) subject RoleAdmin"

lemma hasRoleLink_branches:
  "hasRoleLink (installed ps) systemRoleGrouping subject SystemRoleRoot None \<longleftrightarrow> is_root ps subject"
  "hasRoleLink (installed ps) tenantRoleGrouping subject RoleAdmin (Some tenant) \<longleftrightarrow> is_admin ps tenant subject"
  by (simp_all add: hasRoleLink_system hasRoleLink_tenant is_root_def is_admin_def)

lemma authorize_root: "is_root ps subject \<Longrightarrow>
    authorize (installed ps) tenant subject obj act = Inr (True, Some GrantSourceSystemRoot, [])"
  by (simp add: authorize_def hasRoleLink_branches)

lemma authorize_admin: "\<not> is_root ps subject \<Longrightarrow> is_admin ps tenant subject \<Longrightarrow>
    authorize (installed ps) tenant subject obj act = Inr (True, Some GrantSourceTenantAdmin, [])"
  by (simp add: authorize_def hasRoleLink_branches)

definition policy_branches :: "policySet \<Rightarrow> string \<Rightarrow> string \<Rightarrow> string \<Rightarrow> string \<Rightarrow> answer" where
  "policy_branches ps tenant subject obj act =
     (case matchRules (authenticated (buildDecisionIndex ps)) obj act of
        Inl err \<Rightarrow> Inl err
      | Inr (allowed, m) \<Rightarrow>
          if allowed then Inr (True, Some GrantSourceAuthenticated, m)
          else match_roles (byTenantRole (buildDecisionIndex ps) tenant) subject
                 (subjectRoleClosure (Some (buildRoleGraph ps)) subject tenant) obj act)"

lemma authorize_policy: "\<not> is_root ps subject \<Longrightarrow> \<not> is_admin ps tenant subject \<Longrightarrow> subject \<noteq> [] \<Longrightarrow>
    authorize (installed ps) tenant subject obj act = policy_branches ps tenant subject obj act"
  by (simp add: authorize_def hasRoleLink_branches policy_branches_def Let_def)

lemma authenticated_matches:
  assumes "subject \<noteq> []" "r \<in> set (rules_of ps permissionPtype)" "r ! 1 = RoleAuthenticated"
  shows "to_indexed r \<in> set (authenticated (buildDecisionIndex ps)) \<and> indexed_action (to_indexed r) = act \<longleftrightarrow>
    rule_reaches ps tenant subject act r"
  using assms by (auto simp: index_authenticated rule_reaches_def allow_rule_def to_indexed_def)

lemma role_matches:
  assumes "subject \<noteq> []" "r \<in> set (rules_of ps permissionPtype)" "r ! 1 \<noteq> RoleAuthenticated"
  shows "to_indexed r \<in> set (byTenantRole (buildDecisionIndex ps) tenant (r ! 1)) \<and>
      indexed_action (to_indexed r) = act \<and>
      r ! 1 \<in> set (subjectRoleClosure (Some (buildRoleGraph ps)) subject tenant) \<longleftrightarrow>
    rule_reaches ps tenant subject act r"
  using assms unfolding closure_installed
  by (auto simp: index_byTenantRole rule_reaches_def allow_rule_def to_indexed_def)

lemma policy_error:
  assumes "subject \<noteq> []" "policy_branches ps tenant subject obj act = Inl e"
  shows "\<exists>r\<in>set (rules_of ps permissionPtype).
    rule_reaches ps tenant subject act r \<and> pathMatch obj (r ! 2) = Inl e"
proof (cases "matchRules (authenticated (buildDecisionIndex ps)) obj act")
  case (Inl e')
  with assms(2) have "matchRules (authenticated (buildDecisionIndex ps)) obj act = Inl e"
    by (simp add: policy_branches_def)
  from matchRules_error [OF this] obtain r where
    "r \<in> set (rules_of ps permissionPtype)" "r ! 1 = RoleAuthenticated"
    "to_indexed r \<in> set (authenticated (buildDecisionIndex ps))"
    "r ! 3 = act" "pathMatch obj (r ! 2) = Inl e"
    by (auto simp: index_authenticated)
  then show ?thesis
    using authenticated_matches [OF assms(1), of r ps act tenant] by auto
next
  case (Inr p)
  with assms(2) obtain role where
    "role \<in> set (subjectRoleClosure (Some (buildRoleGraph ps)) subject tenant)"
    "matchRules (byTenantRole (buildDecisionIndex ps) tenant role) obj act = Inl e"
    by (auto simp: policy_branches_def split: prod.splits if_splits dest: match_roles_error)
  moreover from matchRules_error [OF this(2)] obtain r where
    "r \<in> set (rules_of ps permissionPtype)" "r ! 1 \<noteq> RoleAuthenticated" "r ! 1 = role"
    "to_indexed r \<in> set (byTenantRole (buildDecisionIndex ps) tenant role)"
    "r ! 3 = act" "pathMatch obj (r ! 2) = Inl e"
    by (auto simp: index_byTenantRole)
  ultimately show ?thesis
    using role_matches [OF assms(1), of r ps tenant act] by auto
qed

lemma policy_allowed:
  assumes "subject \<noteq> []" "policy_branches ps tenant subject obj act = Inr (True, src, m)"
  shows "m \<in> set (rules_of ps permissionPtype) \<and> policy_matches ps tenant subject obj act m \<and>
    (src = Some GrantSourceAuthenticated \<and> m ! 1 = RoleAuthenticated \<or>
     src = Some GrantSourceRole \<and> m ! 1 \<noteq> RoleAuthenticated)"
proof (cases "\<exists>m. matchRules (authenticated (buildDecisionIndex ps)) obj act = Inr (True, m)")
  case True
  with assms(2) have "matchRules (authenticated (buildDecisionIndex ps)) obj act = Inr (True, m)"
    and src: "src = Some GrantSourceAuthenticated"
    by (auto simp: policy_branches_def)
  from matchRules_allowed [OF this(1)] obtain r where
    "r \<in> set (rules_of ps permissionPtype)" "r ! 1 = RoleAuthenticated"
    "to_indexed r \<in> set (authenticated (buildDecisionIndex ps))"
    "r ! 3 = act" "pathMatch obj (r ! 2) = Inr True" "r = m"
    by (auto simp: index_authenticated)
  with src show ?thesis
    using authenticated_matches [OF assms(1), of r ps act tenant] by (auto simp: policy_matches_def)
next
  case False
  with assms(2) have "match_roles (byTenantRole (buildDecisionIndex ps) tenant) subject
      (subjectRoleClosure (Some (buildRoleGraph ps)) subject tenant) obj act = Inr (True, src, m)"
    by (auto simp: policy_branches_def split: sum.splits prod.splits if_splits)
  from match_roles_allowed [OF this] obtain role where src: "src = Some GrantSourceRole"
    and role: "role \<in> set (subjectRoleClosure (Some (buildRoleGraph ps)) subject tenant)"
      "matchRules (byTenantRole (buildDecisionIndex ps) tenant role) obj act = Inr (True, m)"
    by blast
  from matchRules_allowed [OF role(2)] obtain r where
    "r \<in> set (rules_of ps permissionPtype)" "r ! 1 \<noteq> RoleAuthenticated" "r ! 1 = role"
    "to_indexed r \<in> set (byTenantRole (buildDecisionIndex ps) tenant role)"
    "r ! 3 = act" "pathMatch obj (r ! 2) = Inr True" "r = m"
    by (auto simp: index_byTenantRole)
  with src role show ?thesis
    using role_matches [OF assms(1), of r ps tenant act] by (auto simp: policy_matches_def)
qed

lemma policy_refused:
  assumes "subject \<noteq> []" "policy_branches ps tenant subject obj act = Inr (False, src, m)"
    and "r \<in> set (rules_of ps permissionPtype)" "rule_reaches ps tenant subject act r"
  shows "pathMatch obj (r ! 2) = Inr False"
proof -
  from assms(2) obtain m1 where auth: "matchRules (authenticated (buildDecisionIndex ps)) obj act = Inr (False, m1)"
    and roles: "match_roles (byTenantRole (buildDecisionIndex ps) tenant) subject
      (subjectRoleClosure (Some (buildRoleGraph ps)) subject tenant) obj act = Inr (False, src, m)"
    by (auto simp: policy_branches_def split: sum.splits prod.splits if_splits)
  show ?thesis
  proof (cases "r ! 1 = RoleAuthenticated")
    case True
    with assms auth show ?thesis
      using authenticated_matches [OF assms(1,3) True] matchRules_refused [OF auth, of "to_indexed r"] by auto
  next
    case False
    note rm = role_matches [OF assms(1,3) False, of tenant act, THEN iffD2, OF assms(4)]
    then have "r ! 1 \<noteq> subject" by (auto simp: closure_installed)
    with rm match_roles_refused [OF roles] obtain m2 where
      "matchRules (byTenantRole (buildDecisionIndex ps) tenant (r ! 1)) obj act = Inr (False, m2)" by blast
    from matchRules_refused [OF this, of "to_indexed r"] rm show ?thesis by simp
  qed
qed

lemma policy_source:
  assumes "policy_branches ps tenant subject obj act = Inr (True, Some GrantSourceRole, m)"
    and "subject \<noteq> []" "r \<in> set (rules_of ps permissionPtype)" "r ! 1 = RoleAuthenticated"
  shows "\<not> policy_matches ps tenant subject obj act r"
proof -
  from assms(1) obtain m1 where "matchRules (authenticated (buildDecisionIndex ps)) obj act = Inr (False, m1)"
    by (auto simp: policy_branches_def split: sum.splits prod.splits if_splits)
  from matchRules_refused [OF this, of "to_indexed r"] show ?thesis
    using authenticated_matches [OF assms(2-4), of act tenant] by (auto simp: policy_matches_def)
qed

lemma authorize_cases [consumes 1, case_names root admin policy]:
  assumes "subject \<noteq> []"
  obtains (root) "is_root ps subject"
    "authorize (installed ps) tenant subject obj act = Inr (True, Some GrantSourceSystemRoot, [])"
  | (admin) "\<not> is_root ps subject" "is_admin ps tenant subject"
    "authorize (installed ps) tenant subject obj act = Inr (True, Some GrantSourceTenantAdmin, [])"
  | (policy) "\<not> is_root ps subject" "\<not> is_admin ps tenant subject"
    "authorize (installed ps) tenant subject obj act = policy_branches ps tenant subject obj act"
  using assms authorize_root authorize_admin authorize_policy by metis

lemma normalizeTenant_idem [simp]: "normalizeTenant (normalizeTenant t) = normalizeTenant t"
  by (auto simp: normalizeTenant_def Let_def tenant_Default_def) (code_simp)

text \<open>The part of a policy set that concerns one tenant.\<close>

definition tenant_view :: "policySet \<Rightarrow> string \<Rightarrow> rule list \<times> rule list \<times> rule list" where
  "tenant_view ps tenant =
     (filter (\<lambda>r. r ! 0 = tenant \<or> r ! 1 = RoleAuthenticated) (rules_of ps permissionPtype),
      filter (\<lambda>r. r ! 2 = tenant) (rules_of ps tenantRoleGrouping),
      rules_of ps systemRoleGrouping)"

lemma filter_view:
  assumes "filter P xs = filter P ys" "\<And>r. Q r \<Longrightarrow> P r"
  shows "filter Q xs = filter Q ys"
proof -
  have "filter Q zs = filter Q (filter P zs)" for zs
    using assms(2) by (induction zs) auto
  then show ?thesis using assms(1) by metis
qed

lemma tenant_view_index:
  assumes "tenant_view ps tenant = tenant_view ps' tenant"
  shows "authenticated (buildDecisionIndex ps) = authenticated (buildDecisionIndex ps')"
    and "byTenantRole (buildDecisionIndex ps) tenant = byTenantRole (buildDecisionIndex ps') tenant"
proof -
  have p: "filter (\<lambda>r. r ! 0 = tenant \<or> r ! 1 = RoleAuthenticated) (rules_of ps permissionPtype) =
      filter (\<lambda>r. r ! 0 = tenant \<or> r ! 1 = RoleAuthenticated) (rules_of ps' permissionPtype)"
    using assms by (simp add: tenant_view_def)
  show "authenticated (buildDecisionIndex ps) = authenticated (buildDecisionIndex ps')"
    unfolding index_authenticated using filter_view [OF p] by (metis (lifting))
  have "filter (\<lambda>r. allow_rule r \<and> r ! 1 \<noteq> RoleAuthenticated \<and> r ! 0 = tenant \<and> r ! 1 = role) (rules_of ps permissionPtype) =
     filter (\<lambda>r. allow_rule r \<and> r ! 1 \<noteq> RoleAuthenticated \<and> r ! 0 = tenant \<and> r ! 1 = role) (rules_of ps' permissionPtype)" for role
    by (rule filter_view [OF p]) simp
  then show "byTenantRole (buildDecisionIndex ps) tenant = byTenantRole (buildDecisionIndex ps') tenant"
    by (simp add: index_byTenantRole fun_eq_iff)
qed

lemma tenant_view_direct:
  assumes "tenant_view ps tenant = tenant_view ps' tenant"
  shows "directRoles (buildRoleGraph ps) tenantRoleGrouping name tenant =
    directRoles (buildRoleGraph ps') tenantRoleGrouping name tenant"
    and "directRoles (buildRoleGraph ps) systemRoleGrouping name d =
    directRoles (buildRoleGraph ps') systemRoleGrouping name d"
proof -
  have g: "filter (\<lambda>r. r ! 2 = tenant) (rules_of ps tenantRoleGrouping) =
      filter (\<lambda>r. r ! 2 = tenant) (rules_of ps' tenantRoleGrouping)"
    and g2: "rules_of ps systemRoleGrouping = rules_of ps' systemRoleGrouping"
    using assms by (simp_all add: tenant_view_def)
  have "filter (\<lambda>r. r ! 0 = name \<and> r ! 2 = tenant) (rules_of ps tenantRoleGrouping) =
     filter (\<lambda>r. r ! 0 = name \<and> r ! 2 = tenant) (rules_of ps' tenantRoleGrouping)"
    by (rule filter_view [OF g]) simp
  then show "directRoles (buildRoleGraph ps) tenantRoleGrouping name tenant =
    directRoles (buildRoleGraph ps') tenantRoleGrouping name tenant"
    by (simp add: directRoles_tenant)
  show "directRoles (buildRoleGraph ps) systemRoleGrouping name d =
    directRoles (buildRoleGraph ps') systemRoleGrouping name d"
    by (simp add: directRoles_system g2)
qed

lemma tenant_view_membership:
  assumes "tenant_view ps tenant = tenant_view ps' tenant"
  shows "hasRoleLink (installed ps) tenantRoleGrouping subject role (Some tenant) =
      hasRoleLink (installed ps') tenantRoleGrouping subject role (Some tenant)"
    and "hasRoleLink (installed ps) systemRoleGrouping subject role None =
      hasRoleLink (installed ps') systemRoleGrouping subject role None"
    and "subjectRoleClosure (Some (buildRoleGraph ps)) subject tenant =
      subjectRoleClosure (Some (buildRoleGraph ps')) subject tenant"
  by (simp_all add: hasRoleLink_def hasLink_def subjectRoleClosure_def tenant_view_direct [OF assms])

lemma tenant_view_authorize:
  assumes "tenant_view ps tenant = tenant_view ps' tenant"
  shows "authorize (installed ps) tenant subject obj act = authorize (installed ps') tenant subject obj act"
  by (simp only: authorize_def installed_sel option.case tenant_view_index [OF assms]
      tenant_view_membership [OF assms])

lemma tenant_view_denyReason:
  assumes "tenant_view ps tenant = tenant_view ps' tenant"
  shows "denyReason (installed ps) tenant subject = denyReason (installed ps') tenant subject"
  by (simp add: denyReason_def tenant_view_direct [OF assms])

text \<open>A small deployment: an editor of one tenant, and a root that reaches its role in two links.\<close>

definition demo_set :: policySet where
  "demo_set =
     (let s1 = snd (policySet_add newPolicySet permissionPtype
                 [[''acme'', ''editor'', ''/api/items/{id}'', ''GET'', ''allow''],
                  [''*'', ''authenticated'', ''/api/me'', ''GET'', ''allow'']]);
          s2 = snd (policySet_add s1 tenantRoleGrouping [[''alice'', ''editor'', ''acme'']])
      in snd (policySet_add s2 systemRoleGrouping [[''root'', ''ops''], [''ops'', ''system_root'']]))"


section \<open>Properties\<close>

text \<open>
  C1: the decision index answers what the matcher specifies. For an authenticated subject and stored
  templates that can be used, \<open>Authorize\<close> returns no error and allows exactly the requests of a
  subject that reaches \<open>system_root\<close>, of one that reaches \<open>admin\<close> in the request's tenant, and those
  some stored rule matches; membership is any chain of at most ten stored grouping rules.
\<close>

theorem authorize_decides_matcher:
  assumes "subject \<noteq> []"
    and "\<forall>r\<in>set (rules_of ps permissionPtype). \<not> isl (pathMatch obj (r ! 2))"
  shows "snd (rbac_Authorize (installed ps) tenant subject obj act) = None \<and>
    (Allowed (fst (rbac_Authorize (installed ps) tenant subject obj act)) \<longleftrightarrow>
       is_root ps subject \<or> is_admin ps (normalizeTenant tenant) subject \<or>
       (\<exists>r\<in>set (rules_of ps permissionPtype).
          policy_matches ps (normalizeTenant tenant) subject obj act r))"
  using assms(1)
proof (cases rule: authorize_cases [where ps = ps and tenant = "normalizeTenant tenant" and obj = obj and act = act])
  case policy
  show ?thesis
  proof (cases "policy_branches ps (normalizeTenant tenant) subject obj act")
    case (Inl e)
    from policy_error [OF assms(1) this] assms(2) show ?thesis by fastforce
  next
    case (Inr p)
    obtain allowed src m where p: "p = (allowed, src, m)" by (cases p)
    show ?thesis
    proof (cases allowed)
      case True
      with policy_allowed [OF assms(1)] Inr p policy show ?thesis
        by (fastforce simp: rbac_Authorize_def)
    next
      case False
      with policy_refused [OF assms(1)] Inr p policy show ?thesis
        by (auto simp: rbac_Authorize_def policy_matches_def)
    qed
  qed
qed (simp_all add: rbac_Authorize_def)

theorem authorize_decides_matcher_witness:
  "(is_root demo_set ''alice'' \<or> is_admin demo_set ''acme'' ''alice'' \<or>
     (\<exists>r\<in>set (rules_of demo_set permissionPtype).
      policy_matches demo_set ''acme'' ''alice'' ''/api/items/1'' ''GET'' r)) \<and>
   \<not> is_admin demo_set ''other'' ''alice''"
proof -
  have u: "\<forall>r\<in>set (rules_of demo_set permissionPtype). \<not> isl (pathMatch ''/api/items/1'' (r ! 2))"
    unfolding list_all_iff [symmetric] by code_simp
  have n: "normalizeTenant '' acme '' = ''acme''" "normalizeTenant ''other'' = ''other''"
    by code_simp+
  have a: "Allowed (fst (rbac_Authorize (installed demo_set) '' acme '' ''alice'' ''/api/items/1'' ''GET''))"
    "\<not> Allowed (fst (rbac_Authorize (installed demo_set) ''other'' ''alice'' ''/api/items/1'' ''GET''))"
    by code_simp+
  show ?thesis
    using authorize_decides_matcher [OF _ u, of "''alice''" "'' acme ''" "''GET''"]
      authorize_decides_matcher [OF _ u, of "''alice''" "''other''" "''GET''"] a n
    by simp
qed

text \<open>
  C23: an allowed request names its strongest grant. The source is \<open>system_root\<close> whenever the subject
  reaches that role, then \<open>tenant_admin\<close>, then a rule of the implicit role, and only then a role; a
  policy grant carries a stored rule that matches the request and, when it names a role, no rule of
  the implicit role matches; the two unconditional grants carry none.
\<close>

theorem strongest_grant_named:
  assumes "subject \<noteq> []"
    and "authorize (installed ps) tenant subject obj act = Inr (True, source, m)"
  shows "source = Some (if is_root ps subject then GrantSourceSystemRoot
      else if is_admin ps tenant subject then GrantSourceTenantAdmin
      else if \<exists>r\<in>set (rules_of ps permissionPtype).
        r ! 1 = RoleAuthenticated \<and> policy_matches ps tenant subject obj act r then GrantSourceAuthenticated
      else GrantSourceRole) \<and>
    (if is_root ps subject \<or> is_admin ps tenant subject then m = []
     else m \<in> set (rules_of ps permissionPtype) \<and> policy_matches ps tenant subject obj act m)"
  using assms(1)
proof (cases rule: authorize_cases [where ps = ps and tenant = tenant and obj = obj and act = act])
  case policy
  with assms(2) have eq: "policy_branches ps tenant subject obj act = Inr (True, source, m)" by simp
  with policy_allowed [OF assms(1) eq] policy_source [OF _ assms(1), of ps tenant obj act m] policy
  show ?thesis by auto
qed (use assms(2) in simp_all)

theorem strongest_grant_named_witness:
  "(if is_root demo_set ''alice'' \<or> is_admin demo_set ''acme'' ''alice'' then False
    else policy_matches demo_set ''acme'' ''alice'' ''/api/me'' ''GET''
      [''*'', ''authenticated'', ''/api/me'', ''GET'', ''allow''])"
proof -
  have e: "authorize (installed demo_set) ''acme'' ''alice'' ''/api/me'' ''GET'' =
      Inr (True, Some GrantSourceAuthenticated, [''*'', ''authenticated'', ''/api/me'', ''GET'', ''allow''])"
    by code_simp
  show ?thesis
    using strongest_grant_named [OF _ e] by (simp split: if_splits)
qed

text \<open>
  An undecidable request fails closed and narrowly. An error of \<open>Authorize\<close> comes with a denied
  decision, is met only by a subject that is neither root nor administrator, and is that of a stored
  allow rule whose role and action the request reaches.
\<close>

theorem authorize_error_confined:
  assumes "subject \<noteq> []"
    and "snd (rbac_Authorize (installed ps) tenant subject obj act) = Some e"
  shows "\<not> Allowed (fst (rbac_Authorize (installed ps) tenant subject obj act)) \<and>
    \<not> is_root ps subject \<and> \<not> is_admin ps (normalizeTenant tenant) subject \<and>
    (\<exists>r\<in>set (rules_of ps permissionPtype).
       rule_reaches ps (normalizeTenant tenant) subject act r \<and> pathMatch obj (r ! 2) = Inl e)"
  using assms(1)
proof (cases rule: authorize_cases [where ps = ps and tenant = "normalizeTenant tenant" and obj = obj and act = act])
  case policy
  with assms(2) have "policy_branches ps (normalizeTenant tenant) subject obj act = Inl e"
    by (auto simp: rbac_Authorize_def Let_def split: sum.splits prod.splits)
  with policy_error [OF assms(1) this] policy show ?thesis
    by (simp add: rbac_Authorize_def)
qed (use assms(2) in \<open>simp_all add: rbac_Authorize_def\<close>)

theorem authorize_error_confined_witness:
  "\<exists>r\<in>set (rules_of (snd (policySet_add demo_set permissionPtype
         [[''acme'', ''editor'', [CHR 0xFF], ''PUT'', ''allow'']])) permissionPtype).
     rule_reaches (snd (policySet_add demo_set permissionPtype
         [[''acme'', ''editor'', [CHR 0xFF], ''PUT'', ''allow'']]))
       (normalizeTenant ''acme'') ''alice'' ''PUT'' r \<and> isl (pathMatch ''/x'' (r ! 2))"
proof -
  let ?ps = "snd (policySet_add demo_set permissionPtype
         [[''acme'', ''editor'', [CHR 0xFF], ''PUT'', ''allow'']])"
  have "snd (rbac_Authorize (installed ?ps) ''acme'' ''alice'' ''/x'' ''PUT'') \<noteq> None"
    by code_simp
  then obtain e where "snd (rbac_Authorize (installed ?ps) ''acme'' ''alice'' ''/x'' ''PUT'') = Some e"
    by blast
  from authorize_error_confined [OF _ this] obtain r where
    "r \<in> set (rules_of ?ps permissionPtype)"
    "rule_reaches ?ps (normalizeTenant ''acme'') ''alice'' ''PUT'' r" "pathMatch ''/x'' (r ! 2) = Inl e"
    by blast
  then show ?thesis by (intro bexI [of _ r]) simp_all
qed

text \<open>
  C2: tenants do not interfere. Two policy sets that agree on the rules of a tenant, on the rules of
  the implicit role and on the system assignments give every request in that tenant the same decision,
  whatever they hold for other tenants.
\<close>

theorem authorize_tenant_noninterference:
  assumes "tenant_view ps (normalizeTenant tenant) = tenant_view ps' (normalizeTenant tenant)"
  shows "rbac_Authorize (installed ps) tenant subject obj act =
    rbac_Authorize (installed ps') tenant subject obj act"
  by (simp only: rbac_Authorize_def Let_def tenant_view_authorize [OF assms]
      tenant_view_denyReason [OF assms])

theorem authorize_tenant_noninterference_witness:
  "rbac_Authorize (installed demo_set) ''acme'' ''alice'' ''/api/items/1'' ''GET'' =
   rbac_Authorize (installed (snd (policySet_add demo_set tenantRoleGrouping
       [[''alice'', ''admin'', ''other'']]))) ''acme'' ''alice'' ''/api/items/1'' ''GET''"
proof (rule authorize_tenant_noninterference)
  show "tenant_view demo_set (normalizeTenant ''acme'') =
    tenant_view (snd (policySet_add demo_set tenantRoleGrouping [[''alice'', ''admin'', ''other'']]))
      (normalizeTenant ''acme'')"
    by code_simp
qed

text \<open>
  C3: \<open>Enforce\<close> fails closed and never widens the reach of the data past the reach of the grant. It
  answers without an error exactly when the trimmed subject is not empty and the decision was made and
  allowed; the returned context reaches across tenants exactly when the grant was \<open>system_root\<close> or it
  already did; the log entry carries an effect exactly when a decision was made, the one that was
  answered; and a refusal is a 403, or a 500 when the decision could not be made.
\<close>

theorem enforce_fails_closed:
  "let res = Enforce w ctx subject obj act;
       sub = TrimSpace (UserID subject);
       d = RBAC_Authorize w (normalizeTenant (TenantID subject)) sub obj act
   in (enf_error res = None \<longleftrightarrow> sub \<noteq> [] \<and> snd d = None \<and> Allowed (fst d)) \<and>
      (scope_across (resolve (enf_ctx res)) \<longleftrightarrow>
         scope_across (resolve ctx) \<or>
         enf_error res = None \<and> Source (fst d) = Some GrantSourceSystemRoot) \<and>
      (log_eft (enf_log res) =
         (if sub \<noteq> [] \<and> snd d \<noteq> None then None
          else Some (if enf_error res = None then EffectAllow else EffectDeny))) \<and>
      (case enf_error res of
         None \<Rightarrow> True
       | Some (ServiceError status _ _) \<Rightarrow> status = (if sub \<noteq> [] \<and> snd d \<noteq> None then 500 else 403))"
proof (cases "TrimSpace (UserID subject) = []")
  case True
  then show ?thesis
    by (simp add: Enforce_def permission_denied_def logDeny_def enforceLogFields_def)
next
  case False
  have t: "(if TrimSpace (TenantID subject) = [] then tenant_Default else TrimSpace (TenantID subject)) =
      normalizeTenant (TenantID subject)"
    by (simp add: normalizeTenant_def)
  obtain decision err where d: "RBAC_Authorize w (normalizeTenant (TenantID subject))
      (TrimSpace (UserID subject)) obj act = (decision, err)" by fastforce
  show ?thesis
    using False d resolve_Across
    by (cases err)
      (auto simp: Enforce_def t permission_denied_def authorization_unavailable_def logDeny_def
        logGrant_def logFailure_def enforceLogFields_def Let_def)
qed

end
