(* ===== verification/Rbac_Container.thy ===== *)
theory Rbac_Container
  imports Rbac_Policies
begin

text \<open>
  The change batches of \<^verbatim>\<open>src/authz/rbac/mutation.go\<close> and what both halves of a write, the stored
  table and the in-memory set, promise about replaying one. The promise is the locale
  \<open>rule_container\<close>; the policy set is interpreted here, the table in \<open>Rbac_Store\<close>. Two containers
  holding the same rules hold the same rules, in the same order, after any batch, and report the same
  counts.
\<close>

section \<open>Mutations\<close>

datatype policyOp = policyAdd | policyRemove | policyRemoveFiltered

record policyMutation =
  mut_op :: policyOp
  mut_ptype :: string
  mut_rules :: "rule list"
  mut_fieldIndex :: nat
  mut_fieldValues :: "string list"

definition addRules :: "string \<Rightarrow> rule list \<Rightarrow> policyMutation" where
  "addRules ptype rules =
     \<lparr>mut_op = policyAdd, mut_ptype = ptype, mut_rules = rules, mut_fieldIndex = 0, mut_fieldValues = []\<rparr>"

definition removeRules :: "string \<Rightarrow> rule list \<Rightarrow> policyMutation" where
  "removeRules ptype rules =
     \<lparr>mut_op = policyRemove, mut_ptype = ptype, mut_rules = rules, mut_fieldIndex = 0, mut_fieldValues = []\<rparr>"

definition removeFiltered :: "string \<Rightarrow> nat \<Rightarrow> string list \<Rightarrow> policyMutation" where
  "removeFiltered ptype fieldIndex fieldValues =
     \<lparr>mut_op = policyRemoveFiltered, mut_ptype = ptype, mut_rules = [], mut_fieldIndex = fieldIndex,
      mut_fieldValues = fieldValues\<rparr>"

lemmas mutation_defs = addRules_def removeRules_def removeFiltered_def

text \<open>\<open>validate\<close>; the position of the empty value appears in the error text only.\<close>

datatype empty_value = EmptyRuleField string nat | FilterWithoutValues string | EmptyFilterField string nat

fun first_empty :: "nat \<Rightarrow> string list \<Rightarrow> nat option" where
  "first_empty i [] = None"
| "first_empty i (v # vs) = (if v = [] then Some i else first_empty (Suc i) vs)"

fun first_empty_rule :: "rule list \<Rightarrow> nat option" where
  "first_empty_rule [] = None"
| "first_empty_rule (r # rs) = (case first_empty 0 r of Some i \<Rightarrow> Some i | None \<Rightarrow> first_empty_rule rs)"

definition validate :: "policyMutation \<Rightarrow> empty_value option" where
  "validate m =
     (case mut_op m of
        policyRemoveFiltered \<Rightarrow>
          if mut_fieldValues m = [] then Some (FilterWithoutValues (mut_ptype m))
          else map_option (\<lambda>i. EmptyFilterField (mut_ptype m) (mut_fieldIndex m + i)) (first_empty 0 (mut_fieldValues m))
      | _ \<Rightarrow> map_option (EmptyRuleField (mut_ptype m)) (first_empty_rule (mut_rules m)))"

lemma first_empty_None: "first_empty i vs = None \<longleftrightarrow> [] \<notin> set vs"
  by (induction vs arbitrary: i) auto

lemma first_empty_rule_None: "first_empty_rule rs = None \<longleftrightarrow> (\<forall>r\<in>set rs. [] \<notin> set r)"
  by (induction rs) (simp_all add: first_empty_None [symmetric, of _ 0] split: option.split)

lemma validate_None:
  "validate m = None \<longleftrightarrow>
     (if mut_op m = policyRemoveFiltered then mut_fieldValues m \<noteq> [] \<and> [] \<notin> set (mut_fieldValues m)
      else \<forall>r\<in>set (mut_rules m). [] \<notin> set r)"
  by (cases "mut_op m") (simp_all add: validate_def first_empty_None first_empty_rule_None)

text \<open>
  What the callers of the package hand over: rules sized to their kind, filters within the columns.
\<close>

definition ruleColumnCount :: nat where "ruleColumnCount = 6"

definition mutation_ok :: "policyMutation \<Rightarrow> bool" where
  "mutation_ok m \<longleftrightarrow>
     ruleTokens (mut_ptype m) \<noteq> None \<and>
     (if mut_op m = policyRemoveFiltered
      then mut_fieldIndex m + length (mut_fieldValues m) \<le> ruleColumnCount
      else \<forall>r\<in>set (mut_rules m). rule_ok (mut_ptype m) r)"

section \<open>Rule containers\<close>

locale rule_container =
  fixes good :: "'s \<Rightarrow> bool"
    and contents :: "'s \<Rightarrow> string \<Rightarrow> rule list"
    and add :: "'s \<Rightarrow> string \<Rightarrow> rule list \<Rightarrow> 's"
    and remove :: "'s \<Rightarrow> string \<Rightarrow> rule list \<Rightarrow> nat \<times> 's"
    and remove_filtered :: "'s \<Rightarrow> string \<Rightarrow> nat \<Rightarrow> string list \<Rightarrow> nat \<times> 's"
  assumes contents_ok: "good s \<Longrightarrow> r \<in> set (contents s pt) \<Longrightarrow> rule_ok pt r"
    and contents_distinct: "good s \<Longrightarrow> distinct (contents s pt)"
    and add_good: "good s \<Longrightarrow> ruleTokens pt \<noteq> None \<Longrightarrow> \<forall>r\<in>set rs. rule_ok pt r \<Longrightarrow> good (add s pt rs)"
    and add_contents: "good s \<Longrightarrow> ruleTokens pt \<noteq> None \<Longrightarrow> \<forall>r\<in>set rs. rule_ok pt r \<Longrightarrow>
      contents (add s pt rs) =
        (contents s)(pt := contents s pt @ new_rules (contents s pt) rs)"
    and remove_good: "good s \<Longrightarrow> ruleTokens pt \<noteq> None \<Longrightarrow> \<forall>r\<in>set rs. rule_ok pt r \<Longrightarrow>
      good (snd (remove s pt rs))"
    and remove_contents: "good s \<Longrightarrow> ruleTokens pt \<noteq> None \<Longrightarrow> \<forall>r\<in>set rs. rule_ok pt r \<Longrightarrow>
      contents (snd (remove s pt rs)) = (contents s)(pt := filter (\<lambda>r. r \<notin> set rs) (contents s pt))"
    and remove_count: "good s \<Longrightarrow> ruleTokens pt \<noteq> None \<Longrightarrow> \<forall>r\<in>set rs. rule_ok pt r \<Longrightarrow>
      fst (remove s pt rs) = length (filter (\<lambda>r. r \<in> set rs) (contents s pt))"
    and filtered_good: "good s \<Longrightarrow> ruleTokens pt \<noteq> None \<Longrightarrow> i + length vs \<le> ruleColumnCount \<Longrightarrow>
      good (snd (remove_filtered s pt i vs))"
    and filtered_contents: "good s \<Longrightarrow> ruleTokens pt \<noteq> None \<Longrightarrow> i + length vs \<le> ruleColumnCount \<Longrightarrow>
      contents (snd (remove_filtered s pt i vs)) =
        (contents s)(pt := filter (\<lambda>r. \<not> ruleMatchesFilter r i vs) (contents s pt))"
    and filtered_count: "good s \<Longrightarrow> ruleTokens pt \<noteq> None \<Longrightarrow> i + length vs \<le> ruleColumnCount \<Longrightarrow>
      fst (remove_filtered s pt i vs) = length (filter (\<lambda>r. ruleMatchesFilter r i vs) (contents s pt))"
begin

text \<open>Replaying one mutation: the count of a removal, none for an insertion.\<close>

definition replay :: "'s \<Rightarrow> policyMutation \<Rightarrow> nat option \<times> 's" where
  "replay s m =
     (case mut_op m of
        policyAdd \<Rightarrow> (None, add s (mut_ptype m) (mut_rules m))
      | policyRemove \<Rightarrow> map_prod Some (\<lambda>x. x) (remove s (mut_ptype m) (mut_rules m))
      | policyRemoveFiltered \<Rightarrow>
          map_prod Some (\<lambda>x. x) (remove_filtered s (mut_ptype m) (mut_fieldIndex m) (mut_fieldValues m)))"

lemma replay_good: "good s \<Longrightarrow> mutation_ok m \<Longrightarrow> good (snd (replay s m))"
  by (cases "mut_op m") (simp_all add: replay_def mutation_ok_def add_good remove_good filtered_good)

end

text \<open>
  The same batch replayed on the two containers, one after the other.
\<close>

fun replay_all :: "('s \<Rightarrow> policyMutation \<Rightarrow> nat option \<times> 's) \<Rightarrow> 's \<Rightarrow> policyMutation list \<Rightarrow> nat option list \<times> 's" where
  "replay_all f s [] = ([], s)"
| "replay_all f s (m # ms) =
     (let r = f s m; rest = replay_all f (snd r) ms in (fst r # fst rest, snd rest))"

locale rule_mirror =
  stored: rule_container good contents add remove remove_filtered +
  held: rule_container good' contents' add' remove' remove_filtered'
  for good :: "'s \<Rightarrow> bool" and contents add remove remove_filtered
    and good' :: "'t \<Rightarrow> bool" and contents' add' remove' remove_filtered'
begin

lemma replay_mirror:
  assumes "good s" "good' t" "contents s = contents' t" "mutation_ok m"
  shows "fst (stored.replay s m) = fst (held.replay t m) \<and>
    contents (snd (stored.replay s m)) = contents' (snd (held.replay t m))"
  using assms
  by (cases "mut_op m")
    (simp_all add: stored.replay_def held.replay_def mutation_ok_def stored.add_contents held.add_contents
      stored.remove_contents held.remove_contents stored.remove_count held.remove_count
      stored.filtered_contents held.filtered_contents stored.filtered_count held.filtered_count)

lemma replay_all_mirror:
  assumes "good s" "good' t" "contents s = contents' t" "\<forall>m\<in>set ms. mutation_ok m"
  shows "fst (replay_all stored.replay s ms) = fst (replay_all held.replay t ms) \<and>
    contents (snd (replay_all stored.replay s ms)) = contents' (snd (replay_all held.replay t ms)) \<and>
    good (snd (replay_all stored.replay s ms)) \<and> good' (snd (replay_all held.replay t ms))"
  using assms
proof (induction ms arbitrary: s t)
  case (Cons m ms)
  from Cons.prems replay_mirror [of s t m] stored.replay_good [of s m] held.replay_good [of t m]
  have "contents (snd (stored.replay s m)) = contents' (snd (held.replay t m))"
    "fst (stored.replay s m) = fst (held.replay t m)"
    "good (snd (stored.replay s m))" "good' (snd (held.replay t m))" by auto
  with Cons show ?case by (simp add: Let_def)
qed simp

end

section \<open>The policy set as a container\<close>

definition policySet_good :: "policySet \<Rightarrow> bool" where
  "policySet_good s \<longleftrightarrow> policySet_wf s \<and> (\<forall>pt. \<forall>r\<in>set (rules_of s pt). rule_ok pt r)"

definition counted :: "rule list \<times> 's \<Rightarrow> nat \<times> 's" where
  "counted p = (length (fst p), snd p)"

lemma counted_sel [simp]: "fst (counted p) = length (fst p)" "snd (counted p) = snd p"
  by (simp_all add: counted_def)

lemma policySet_good_new: "policySet_good newPolicySet"
  by (simp add: policySet_good_def policySet_wf_new) (simp add: newPolicySet_def)

lemma policySet_add_contents:
  assumes "policySet_good s" "\<forall>r\<in>set rs. rule_ok pt r"
  shows "rules_of (snd (policySet_add s pt rs)) =
    (rules_of s)(pt := rules_of s pt @ new_rules (rules_of s pt) rs)"
proof
  fix pt'
  show "rules_of (snd (policySet_add s pt rs)) pt' =
    ((rules_of s)(pt := rules_of s pt @ new_rules (rules_of s pt) rs)) pt'"
    using assms add_rules_spec [of s pt rs] add_rules_other [of pt' pt s rs]
    by (auto simp: policySet_add_def policySet_good_def)
qed

lemma policySet_remove_contents:
  assumes "policySet_good s" "\<forall>r\<in>set rs. rule_ok pt r"
  shows "rules_of (snd (policySet_remove s pt rs)) =
    (rules_of s)(pt := filter (\<lambda>r. r \<notin> set rs) (rules_of s pt))"
  using assms policySet_remove_spec(2) [of s pt rs] policySet_remove_other [of _ pt s rs]
  by (auto simp: policySet_good_def fun_eq_iff)

lemma policySet_removeFiltered_contents:
  "rules_of (snd (policySet_removeFiltered s pt i vs)) =
     (rules_of s)(pt := filter (\<lambda>r. \<not> ruleMatchesFilter r i vs) (rules_of s pt))"
  using policySet_removeFiltered_other [of _ pt s i vs]
  by (auto simp: policySet_removeFiltered_spec fun_eq_iff)

lemma policySet_good_intro:
  "policySet_wf s \<Longrightarrow> \<forall>pt. \<forall>r\<in>set (rules_of s pt). rule_ok pt r \<Longrightarrow> policySet_good s"
  by (simp add: policySet_good_def)

interpretation memory: rule_container policySet_good rules_of "\<lambda>s pt rs. snd (policySet_add s pt rs)"
  "\<lambda>s pt rs. counted (policySet_remove s pt rs)"
  "\<lambda>s pt i vs. counted (policySet_removeFiltered s pt i vs)"
proof
  fix s pt r assume "policySet_good s" "r \<in> set (rules_of s pt)"
  then show "rule_ok pt r" by (auto simp: policySet_good_def)
next
  fix s pt assume "policySet_good s"
  then show "distinct (rules_of s pt)"
    by (auto simp: policySet_good_def policySet_wf_def distinct_map)
next
  fix s pt rs assume a: "policySet_good s" "ruleTokens pt \<noteq> None" "\<forall>r\<in>set rs. rule_ok pt r"
  show "rules_of (snd (policySet_add s pt rs)) = (rules_of s)(pt := rules_of s pt @ new_rules (rules_of s pt) rs)"
    using a by (simp add: policySet_add_contents)
  then show "policySet_good (snd (policySet_add s pt rs))"
    using a set_new_rules_subset [of "rules_of s pt" rs] add_rules_wf [of s pt rs]
    by (intro policySet_good_intro) (auto simp: policySet_good_def policySet_add_def)
  show "rules_of (snd (counted (policySet_remove s pt rs))) = (rules_of s)(pt := filter (\<lambda>r. r \<notin> set rs) (rules_of s pt))"
    using a by (simp add: policySet_remove_contents)
  then show "policySet_good (snd (counted (policySet_remove s pt rs)))"
    using a policySet_remove_wf [of s pt rs] by (intro policySet_good_intro) (auto simp: policySet_good_def)
  show "fst (counted (policySet_remove s pt rs)) = length (filter (\<lambda>r. r \<in> set rs) (rules_of s pt))"
    using a policySet_remove_spec(1) [of s pt rs] by (simp add: policySet_good_def)
next
  fix s pt i and vs :: "string list" assume a: "policySet_good s" "ruleTokens pt \<noteq> None" "i + length vs \<le> ruleColumnCount"
  show c: "rules_of (snd (counted (policySet_removeFiltered s pt i vs))) =
      (rules_of s)(pt := filter (\<lambda>r. \<not> ruleMatchesFilter r i vs) (rules_of s pt))"
    by (simp add: policySet_removeFiltered_contents)
  then show "policySet_good (snd (counted (policySet_removeFiltered s pt i vs)))"
    using a policySet_removeFiltered_wf [of s pt i vs] by (intro policySet_good_intro) (auto simp: policySet_good_def)
  show "fst (counted (policySet_removeFiltered s pt i vs)) = length (filter (\<lambda>r. ruleMatchesFilter r i vs) (rules_of s pt))"
    by (simp add: policySet_removeFiltered_spec)
qed

end
