(* ===== verification/Rbac_Store.thy ===== *)
theory Rbac_Store
  imports Rbac_Container
begin

text \<open>
  The stored half of the policy set, \<^verbatim>\<open>src/authz/rbac/adapter.go\<close>: rows of the policy table, the
  inserts and deletes of a batch, and the load that rebuilds the in-memory set.

  The database is a table of rows in id order under the unique index over the kind and all six value
  columns. Two things about it vary per deployment and are part of its state: the collation its
  string comparisons go through, and the statements it fails (one entry per statement, none left
  means the statement succeeds). An exact collation and no failures make the table an interpretation
  of \<open>rule_container\<close>.
\<close>

section \<open>Rows\<close>

record policyRow =
  row_ID :: nat
  row_Ptype :: string
  row_V0 :: string
  row_V1 :: string
  row_V2 :: string
  row_V3 :: string
  row_V4 :: string
  row_V5 :: string

definition newPolicyRow :: "string \<Rightarrow> rule \<Rightarrow> policyRow" where
  "newPolicyRow ptype rule =
     (let values = take ruleColumnCount (rule @ replicate ruleColumnCount [])
      in \<lparr>row_ID = 0, row_Ptype = ptype, row_V0 = values ! 0, row_V1 = values ! 1, row_V2 = values ! 2,
          row_V3 = values ! 3, row_V4 = values ! 4, row_V5 = values ! 5\<rparr>)"

definition row_values :: "policyRow \<Rightarrow> string list" where
  "row_values r = [row_V0 r, row_V1 r, row_V2 r, row_V3 r, row_V4 r, row_V5 r]"

datatype store_error =
    StoreFault string
  | FilterOutOfRange nat nat
  | RowWithoutPtype nat
  | RowUnknownPtype nat string

definition row_rule :: "policyRow \<Rightarrow> store_error + rule" where
  "row_rule r =
     (if row_Ptype r = [] then Inl (RowWithoutPtype (row_ID r))
      else
        (case ruleTokens (row_Ptype r) of
           None \<Rightarrow> Inl (RowUnknownPtype (row_ID r) (row_Ptype r))
         | Some tokens \<Rightarrow> Inr (take tokens (row_values r))))"

section \<open>The table\<close>

record policy_db =
  db_rows :: "policyRow list"
  db_next :: nat
  db_coll :: "string \<Rightarrow> string"
  db_faults :: "string option list"

text \<open>One statement: the failure it meets, if any.\<close>

definition statement_fault :: "policy_db \<Rightarrow> string option \<times> policy_db" where
  "statement_fault db =
     (case db_faults db of [] \<Rightarrow> (None, db) | f # fs \<Rightarrow> (f, db\<lparr>db_faults := fs\<rparr>))"

definition same_row :: "(string \<Rightarrow> string) \<Rightarrow> policyRow \<Rightarrow> policyRow \<Rightarrow> bool" where
  "same_row coll a b \<longleftrightarrow>
     coll (row_Ptype a) = coll (row_Ptype b) \<and> map coll (row_values a) = map coll (row_values b)"

fun insert_rows :: "policy_db \<Rightarrow> policyRow list \<Rightarrow> policy_db" where
  "insert_rows db [] = db"
| "insert_rows db (r # rs) =
     (if \<exists>x\<in>set (db_rows db). same_row (db_coll db) x r then insert_rows db rs
      else insert_rows
             (db\<lparr>db_rows := db_rows db @ [r\<lparr>row_ID := db_next db\<rparr>], db_next := Suc (db_next db)\<rparr>) rs)"

definition addPolicies :: "policy_db \<Rightarrow> string \<Rightarrow> rule list \<Rightarrow> store_error option \<times> policy_db" where
  "addPolicies db ptype rules =
     (if rules = [] then (None, db)
      else
        (case statement_fault db of
           (Some e, db') \<Rightarrow> (Some (StoreFault e), db')
         | (None, db') \<Rightarrow> (None, insert_rows db' (map (newPolicyRow ptype) rules))))"

definition delete_rows :: "policy_db \<Rightarrow> (policyRow \<Rightarrow> bool) \<Rightarrow> nat \<times> policy_db" where
  "delete_rows db P =
     (length (filter P (db_rows db)), db\<lparr>db_rows := filter (\<lambda>r. \<not> P r) (db_rows db)\<rparr>)"

fun remove_each :: "policy_db \<Rightarrow> string \<Rightarrow> rule list \<Rightarrow> nat \<Rightarrow> (store_error + nat) \<times> policy_db" where
  "remove_each db ptype [] removed = (Inr removed, db)"
| "remove_each db ptype (rule # rules) removed =
     (case statement_fault db of
        (Some e, db') \<Rightarrow> (Inl (StoreFault e), db')
      | (None, db') \<Rightarrow>
          (let d = delete_rows db' (\<lambda>r. same_row (db_coll db') r (newPolicyRow ptype rule))
           in remove_each (snd d) ptype rules (removed + fst d)))"

definition removePoliciesCount :: "policy_db \<Rightarrow> string \<Rightarrow> rule list \<Rightarrow> (store_error + nat) \<times> policy_db" where
  "removePoliciesCount db ptype rules = remove_each db ptype rules 0"

text \<open>The conditions of a filtered delete; \<open>column\<close> is \<open>fieldIndex + i\<close>.\<close>

fun columns_match :: "(string \<Rightarrow> string) \<Rightarrow> string list \<Rightarrow> nat \<Rightarrow> string list \<Rightarrow> bool" where
  "columns_match coll values column [] = True"
| "columns_match coll values column (v # vs) =
     (if v = [] then columns_match coll values (Suc column) vs
      else coll (values ! column) = coll v \<and> columns_match coll values (Suc column) vs)"

definition removeFilteredPolicyCount ::
  "policy_db \<Rightarrow> string \<Rightarrow> nat \<Rightarrow> string list \<Rightarrow> (store_error + nat) \<times> policy_db" where
  "removeFilteredPolicyCount db ptype fieldIndex fieldValues =
     (if fieldIndex + length fieldValues > ruleColumnCount
      then (Inl (FilterOutOfRange fieldIndex (length fieldValues)), db)
      else
        (case statement_fault db of
           (Some e, db') \<Rightarrow> (Inl (StoreFault e), db')
         | (None, db') \<Rightarrow>
             (let d = delete_rows db' (\<lambda>r. db_coll db' (row_Ptype r) = db_coll db' ptype \<and>
                        columns_match (db_coll db') (row_values r) fieldIndex fieldValues)
              in (Inr (fst d), snd d))))"

fun load_rows :: "policySet \<Rightarrow> policyRow list \<Rightarrow> store_error + policySet" where
  "load_rows s [] = Inr s"
| "load_rows s (r # rs) =
     (case row_rule r of
        Inl e \<Rightarrow> Inl e
      | Inr rule \<Rightarrow> load_rows (snd (policySet_add s (row_Ptype r) [rule])) rs)"

definition loadPolicies :: "policy_db \<Rightarrow> (store_error + policySet) \<times> policy_db" where
  "loadPolicies db =
     (case statement_fault db of
        (Some e, db') \<Rightarrow> (Inl (StoreFault e), db')
      | (None, db') \<Rightarrow> (load_rows newPolicySet (db_rows db'), db'))"

section \<open>Well-formed tables\<close>

definition row_good :: "policyRow \<Rightarrow> bool" where
  "row_good r \<longleftrightarrow>
     (\<exists>rule. rule_ok (row_Ptype r) rule \<and> row_values r = row_values (newPolicyRow (row_Ptype r) rule))"

definition row_key :: "policyRow \<Rightarrow> string \<times> string list" where
  "row_key r = (row_Ptype r, row_values r)"

definition db_good :: "policy_db \<Rightarrow> bool" where
  "db_good db \<longleftrightarrow>
     db_faults db = [] \<and> inj (db_coll db) \<and> (\<forall>r\<in>set (db_rows db). row_good r) \<and>
     distinct (map row_key (db_rows db))"

definition tokens_of :: "string \<Rightarrow> nat" where
  "tokens_of pt = (case ruleTokens pt of None \<Rightarrow> 0 | Some n \<Rightarrow> n)"

definition rule_of :: "policyRow \<Rightarrow> rule" where
  "rule_of r = take (tokens_of (row_Ptype r)) (row_values r)"

definition stored_rules :: "policy_db \<Rightarrow> string \<Rightarrow> rule list" where
  "stored_rules db pt = map rule_of (filter (\<lambda>r. row_Ptype r = pt) (db_rows db))"

lemma take6:
  assumes "length xs = 6" shows "xs = [xs ! 0, xs ! 1, xs ! 2, xs ! 3, xs ! 4, xs ! 5]"
  using assms by (auto simp: numeral_nat length_Suc_conv)

lemma row_values_new [simp]: "row_values (newPolicyRow pt rule) = take 6 (rule @ replicate 6 [])"
  using take6 [of "take 6 (rule @ replicate 6 [])"]
  by (simp add: row_values_def newPolicyRow_def Let_def ruleColumnCount_def)

lemma row_Ptype_new [simp]: "row_Ptype (newPolicyRow pt rule) = pt"
  by (simp add: newPolicyRow_def Let_def)

lemma row_ID_update [simp]: "row_values (r\<lparr>row_ID := i\<rparr>) = row_values r"
  by (simp add: row_values_def)

lemma row_key_new [simp]:
  "row_key (r\<lparr>row_ID := i\<rparr>) = row_key r" "rule_of (r\<lparr>row_ID := i\<rparr>) = rule_of r"
  "row_good (r\<lparr>row_ID := i\<rparr>) = row_good r"
  by (simp_all add: row_key_def rule_of_def row_good_def)

lemma rule_ok_tokens: "rule_ok pt rule \<Longrightarrow> ruleTokens pt = Some (length rule) \<and> length rule \<le> 5 \<and> pt \<noteq> []"
  by (auto simp: rule_ok_def ruleTokens_def ptype_defs split: if_splits)

lemma rule_of_new: "rule_ok pt rule \<Longrightarrow> rule_of (newPolicyRow pt rule) = rule"
  by (auto dest: rule_ok_tokens simp: rule_of_def tokens_of_def)

lemma row_goodE:
  assumes "row_good r"
  obtains rule where "rule_ok (row_Ptype r) rule" "row_key r = row_key (newPolicyRow (row_Ptype r) rule)"
    "rule_of r = rule"
proof -
  from assms obtain rule where *: "rule_ok (row_Ptype r) rule"
    "row_values r = row_values (newPolicyRow (row_Ptype r) rule)" by (auto simp: row_good_def)
  then have "rule_of r = rule"
    using rule_of_new [of "row_Ptype r" rule] by (simp add: rule_of_def)
  with that * show thesis by (simp add: row_key_def)
qed

lemma row_good_new: "rule_ok pt rule \<Longrightarrow> row_good (newPolicyRow pt rule)"
  by (auto simp: row_good_def)

lemma row_good_rule: "row_good r \<Longrightarrow> rule_ok (row_Ptype r) (rule_of r)"
  by (erule row_goodE) simp

lemma row_key_rule:
  assumes "row_good r" "row_good r'"
  shows "row_key r = row_key r' \<longleftrightarrow> row_Ptype r = row_Ptype r' \<and> rule_of r = rule_of r'"
proof
  assume "row_key r = row_key r'"
  then show "row_Ptype r = row_Ptype r' \<and> rule_of r = rule_of r'" by (simp add: row_key_def rule_of_def)
next
  assume "row_Ptype r = row_Ptype r' \<and> rule_of r = rule_of r'"
  with assms show "row_key r = row_key r'" by (metis row_goodE)
qed

lemma same_row_key: "inj coll \<Longrightarrow> same_row coll a b \<longleftrightarrow> row_key a = row_key b"
  by (auto simp: same_row_def row_key_def inj_eq inj_map_eq_map)

lemma row_rule_good:
  assumes "row_good r" shows "row_rule r = Inr (rule_of r)"
proof -
  from row_good_rule [OF assms] obtain n where "ruleTokens (row_Ptype r) = Some n" "row_Ptype r \<noteq> []"
    using rule_ok_tokens by blast
  then show ?thesis by (simp add: row_rule_def rule_of_def tokens_of_def)
qed

section \<open>The table as a container\<close>

lemma db_good_rows: "db_good db \<Longrightarrow> r \<in> set (db_rows db) \<Longrightarrow> row_good r"
  by (simp add: db_good_def)

lemma statement_ok: "db_good db \<Longrightarrow> statement_fault db = (None, db)"
  by (simp add: db_good_def statement_fault_def)

lemma stored_rules_mem:
  "db_good db \<Longrightarrow> rule_ok pt rule \<Longrightarrow>
     rule \<in> set (stored_rules db pt) \<longleftrightarrow> (\<exists>x\<in>set (db_rows db). row_key x = row_key (newPolicyRow pt rule))"
  using row_key_rule [OF db_good_rows row_good_new]
  by (auto simp: stored_rules_def rule_of_new image_iff)

lemma same_row_mem:
  assumes "db_good db" "rule_ok pt rule"
  shows "(\<exists>x\<in>set (db_rows db). same_row (db_coll db) x (newPolicyRow pt rule)) \<longleftrightarrow> rule \<in> set (stored_rules db pt)"
  using assms by (auto simp: stored_rules_mem same_row_key db_good_def)

lemma insert_rows_spec:
  assumes "db_good db" "\<forall>r\<in>set rs. rule_ok pt r"
  shows "db_good (insert_rows db (map (newPolicyRow pt) rs)) \<and>
    stored_rules (insert_rows db (map (newPolicyRow pt) rs)) =
      (stored_rules db)(pt := stored_rules db pt @ new_rules (stored_rules db pt) rs)"
  using assms
proof (induction rs arbitrary: db)
  case (Cons r rs)
  have ok: "rule_ok pt r" using Cons.prems by simp
  show ?case
  proof (cases "r \<in> set (stored_rules db pt)")
    case True
    with Cons ok show ?thesis by (simp add: same_row_mem)
  next
    case False
    let ?db = "db\<lparr>db_rows := db_rows db @ [(newPolicyRow pt r)\<lparr>row_ID := db_next db\<rparr>], db_next := Suc (db_next db)\<rparr>"
    have good: "db_good ?db"
      using Cons.prems False ok row_good_new [OF ok] stored_rules_mem [OF Cons.prems(1) ok]
      by (auto simp: db_good_def image_iff)
    have "stored_rules ?db = (stored_rules db)(pt := stored_rules db pt @ [r])"
      by (auto simp: stored_rules_def fun_eq_iff rule_of_new [OF ok])
    with Cons.IH [OF good] Cons.prems False ok show ?thesis
      by (simp add: same_row_mem fun_eq_iff)
  qed
qed simp

lemma delete_rows_good: "db_good db \<Longrightarrow> db_good (snd (delete_rows db P))"
  by (auto simp: db_good_def delete_rows_def distinct_map_filter_imp)

lemma delete_rows_spec:
  assumes "\<And>r. r \<in> set (db_rows db) \<Longrightarrow> P r \<longleftrightarrow> row_Ptype r = pt \<and> Q (rule_of r)"
  shows "fst (delete_rows db P) = length (filter Q (stored_rules db pt))"
    and "stored_rules (snd (delete_rows db P)) = (stored_rules db)(pt := filter (\<lambda>x. \<not> Q x) (stored_rules db pt))"
proof -
  have "filter P (db_rows db) = filter (\<lambda>r. row_Ptype r = pt \<and> Q (rule_of r)) (db_rows db)"
    by (rule filter_cong) (simp_all add: assms)
  then show "fst (delete_rows db P) = length (filter Q (stored_rules db pt))"
    by (simp add: delete_rows_def stored_rules_def filter_map conj_commute comp_def)
  have "filter (\<lambda>r. \<not> P r) (db_rows db) = filter (\<lambda>r. \<not> (row_Ptype r = pt \<and> Q (rule_of r))) (db_rows db)"
    by (rule filter_cong) (simp_all add: assms)
  then show "stored_rules (snd (delete_rows db P)) =
      (stored_rules db)(pt := filter (\<lambda>x. \<not> Q x) (stored_rules db pt))"
    by (auto simp: delete_rows_def stored_rules_def filter_map comp_def fun_eq_iff
        intro!: arg_cong [where f = "map rule_of"] filter_cong)
qed

lemma columns_match_rule:
  assumes "inj coll" "length rule \<le> length values" "take (length rule) values = rule"
    "\<forall>v\<in>set (drop (length rule) values). v = []" "column + length vs \<le> length values"
  shows "columns_match coll values column vs \<longleftrightarrow> ruleMatchesFilter rule column vs"
  using assms(5)
proof (induction vs arbitrary: column)
  case (Cons v vs)
  show ?case
  proof (cases "column < length rule")
    case True
    then have "values ! column = rule ! column" using assms(3) by (metis nth_take)
    with Cons True assms(1) show ?thesis by (auto simp: inj_eq)
  next
    case False
    have "values ! column = drop (length rule) values ! (column - length rule)"
      using False Cons.prems by (simp add: nth_drop)
    moreover have "column - length rule < length (drop (length rule) values)"
      using False Cons.prems by simp
    ultimately have "values ! column = []"
      using assms(4) nth_mem by metis
    with Cons False assms(1) show ?thesis by (auto simp: inj_eq)
  qed
qed simp

lemma length_filter_split:
  "length (filter (\<lambda>x. x = a) xs) + length (filter P (filter (\<lambda>x. x \<noteq> a) xs)) =
     length (filter (\<lambda>x. x = a \<or> P x) xs)"
  by (induction xs) auto

lemma delete_rule:
  assumes "db_good db" "rule_ok pt rule"
  defines "d \<equiv> delete_rows db (\<lambda>r. same_row (db_coll db) r (newPolicyRow pt rule))"
  shows "fst d = length (filter (\<lambda>x. x = rule) (stored_rules db pt))"
    and "stored_rules (snd d) = (stored_rules db)(pt := filter (\<lambda>x. x \<noteq> rule) (stored_rules db pt))"
proof -
  have "same_row (db_coll db) r (newPolicyRow pt rule) \<longleftrightarrow> row_Ptype r = pt \<and> rule_of r = rule"
    if "r \<in> set (db_rows db)" for r
    using that assms row_key_rule [OF db_good_rows row_good_new, of db r pt rule]
    by (simp add: same_row_key db_good_def rule_of_new)
  then show "fst d = length (filter (\<lambda>x. x = rule) (stored_rules db pt))"
    and "stored_rules (snd d) = (stored_rules db)(pt := filter (\<lambda>x. x \<noteq> rule) (stored_rules db pt))"
    unfolding d_def by (rule delete_rows_spec; simp)+
qed

lemma remove_each_spec:
  assumes "db_good db" "\<forall>r\<in>set rs. rule_ok pt r"
  shows "fst (remove_each db pt rs n) = Inr (n + length (filter (\<lambda>r. r \<in> set rs) (stored_rules db pt))) \<and>
    stored_rules (snd (remove_each db pt rs n)) =
      (stored_rules db)(pt := filter (\<lambda>r. r \<notin> set rs) (stored_rules db pt)) \<and>
    db_good (snd (remove_each db pt rs n))"
  using assms
proof (induction rs arbitrary: db n)
  case (Cons r rs)
  have ok: "rule_ok pt r" using Cons.prems by simp
  note d = delete_rule [OF Cons.prems(1) ok] delete_rows_good [OF Cons.prems(1)]
  show ?case
    using Cons.IH [OF d(3), of "\<lambda>x. same_row (db_coll db) x (newPolicyRow pt r)"] Cons.prems
      length_filter_split [of r "stored_rules db pt" "\<lambda>x. x \<in> set rs"]
    by (auto simp: statement_ok d Let_def fun_eq_iff conj_commute)
qed simp

lemma row_values_good:
  assumes "row_good r"
  shows "take (length (rule_of r)) (row_values r) = rule_of r"
    "length (rule_of r) \<le> length (row_values r)" "length (row_values r) = 6"
    "\<forall>v\<in>set (drop (length (rule_of r)) (row_values r)). v = []"
proof -
  from assms obtain rule where *: "rule_ok (row_Ptype r) rule"
    "row_key r = row_key (newPolicyRow (row_Ptype r) rule)" "rule_of r = rule"
    by (rule row_goodE)
  then have v: "row_values r = rule @ replicate (6 - length rule) []" and "length rule \<le> 5"
    by (auto simp: row_key_def dest!: rule_ok_tokens)
  with * show "take (length (rule_of r)) (row_values r) = rule_of r"
    "length (rule_of r) \<le> length (row_values r)" "length (row_values r) = 6"
    "\<forall>v\<in>set (drop (length (rule_of r)) (row_values r)). v = []" by auto
qed

lemma removeFiltered_spec:
  assumes "db_good db" "i + length vs \<le> ruleColumnCount"
  shows "fst (removeFilteredPolicyCount db pt i vs) =
      Inr (length (filter (\<lambda>r. ruleMatchesFilter r i vs) (stored_rules db pt))) \<and>
    stored_rules (snd (removeFilteredPolicyCount db pt i vs)) =
      (stored_rules db)(pt := filter (\<lambda>r. \<not> ruleMatchesFilter r i vs) (stored_rules db pt)) \<and>
    db_good (snd (removeFilteredPolicyCount db pt i vs))"
proof -
  let ?P = "\<lambda>r. db_coll db (row_Ptype r) = db_coll db pt \<and> columns_match (db_coll db) (row_values r) i vs"
  have "?P r \<longleftrightarrow> row_Ptype r = pt \<and> ruleMatchesFilter (rule_of r) i vs" if "r \<in> set (db_rows db)" for r
    using assms row_values_good [OF db_good_rows [OF assms(1) that]]
      columns_match_rule [of "db_coll db" "rule_of r" "row_values r" i vs]
    by (auto simp: db_good_def inj_eq ruleColumnCount_def)
  note d = delete_rows_spec [OF this]
  show ?thesis
    using assms by (simp add: removeFilteredPolicyCount_def statement_ok Let_def d delete_rows_good)
qed

text \<open>The count of a delete the database accepted.\<close>

definition stored_count :: "(store_error + nat) \<times> policy_db \<Rightarrow> nat \<times> policy_db" where
  "stored_count p = (case fst p of Inl _ \<Rightarrow> 0 | Inr n \<Rightarrow> n, snd p)"

lemma stored_count_sel [simp]:
  "fst p = Inr n \<Longrightarrow> fst (stored_count p) = n" "snd (stored_count p) = snd p"
  by (simp_all add: stored_count_def)

lemma stored_rules_ok:
  assumes "db_good db" "r \<in> set (stored_rules db pt)" shows "rule_ok pt r"
  using assms row_good_rule [OF db_good_rows] by (auto simp: stored_rules_def)

lemma stored_rules_distinct:
  assumes "db_good db" shows "distinct (stored_rules db pt)"
proof -
  have "distinct (map row_key (filter (\<lambda>r. row_Ptype r = pt) (db_rows db)))"
    using assms by (simp add: db_good_def distinct_map_filter_imp)
  then show ?thesis
    using row_key_rule [OF db_good_rows [OF assms] db_good_rows [OF assms]]
    by (auto simp: stored_rules_def distinct_map inj_on_def)
qed

lemma addPolicies_spec:
  assumes "db_good db" "\<forall>r\<in>set rs. rule_ok pt r"
  shows "fst (addPolicies db pt rs) = None \<and> db_good (snd (addPolicies db pt rs)) \<and>
    stored_rules (snd (addPolicies db pt rs)) =
      (stored_rules db)(pt := stored_rules db pt @ new_rules (stored_rules db pt) rs)"
  using assms insert_rows_spec [OF assms] by (simp add: addPolicies_def statement_ok)

interpretation table: rule_container db_good stored_rules "\<lambda>db pt rs. snd (addPolicies db pt rs)"
  "\<lambda>db pt rs. stored_count (removePoliciesCount db pt rs)"
  "\<lambda>db pt i vs. stored_count (removeFilteredPolicyCount db pt i vs)"
proof
qed (auto simp: stored_rules_ok stored_rules_distinct addPolicies_spec removePoliciesCount_def
    remove_each_spec removeFiltered_spec)

interpretation mirror: rule_mirror db_good stored_rules "\<lambda>db pt rs. snd (addPolicies db pt rs)"
  "\<lambda>db pt rs. stored_count (removePoliciesCount db pt rs)"
  "\<lambda>db pt i vs. stored_count (removeFilteredPolicyCount db pt i vs)"
  policySet_good rules_of "\<lambda>s pt rs. snd (policySet_add s pt rs)"
  "\<lambda>s pt rs. counted (policySet_remove s pt rs)"
  "\<lambda>s pt i vs. counted (policySet_removeFiltered s pt i vs)"
  by unfold_locales

section \<open>Loading\<close>

lemma load_rows_spec:
  assumes "policySet_good s" "\<forall>r\<in>set rows. row_good r" "distinct (map row_key rows)"
    "\<And>pt. set (rules_of s pt) \<inter> rule_of ` {r \<in> set rows. row_Ptype r = pt} = {}"
  shows "\<exists>s'. load_rows s rows = Inr s' \<and> policySet_good s' \<and>
    (\<forall>pt. rules_of s' pt = rules_of s pt @ map rule_of (filter (\<lambda>r. row_Ptype r = pt) rows))"
  using assms
proof (induction rows arbitrary: s)
  case (Cons r rows)
  let ?s = "snd (policySet_add s (row_Ptype r) [rule_of r])"
  have good: "row_good r" and ok: "rule_ok (row_Ptype r) (rule_of r)"
    using Cons.prems row_good_rule by auto
  have notin: "rule_of r \<notin> set (rules_of s (row_Ptype r))" using Cons.prems(4) [of "row_Ptype r"] by auto
  have c: "rules_of ?s = (rules_of s)(row_Ptype r := rules_of s (row_Ptype r) @ [rule_of r])"
    using memory.add_contents [OF Cons.prems(1), of "row_Ptype r" "[rule_of r]"] ok notin
    by (auto dest: rule_ok_tokens)
  have g: "policySet_good ?s"
    using memory.add_good [OF Cons.prems(1), of "row_Ptype r" "[rule_of r]"] ok by (auto dest: rule_ok_tokens)
  have fresh: "set (rules_of ?s pt) \<inter> rule_of ` {x \<in> set rows. row_Ptype x = pt} = {}" for pt
  proof -
    have "rule_of r \<noteq> rule_of x" if "x \<in> set rows" "row_Ptype x = row_Ptype r" for x
      using that Cons.prems(2,3) row_key_rule [OF good, of x] by auto
    then show ?thesis using Cons.prems(4) [of pt] by (auto simp: c)
  qed
  from Cons.IH [OF g _ _ fresh] Cons.prems(2,3) obtain s' where
    "load_rows ?s rows = Inr s'" "policySet_good s'"
    "\<forall>pt. rules_of s' pt = rules_of ?s pt @ map rule_of (filter (\<lambda>r. row_Ptype r = pt) rows)" by auto
  then show ?case using good by (auto simp: row_rule_good c)
qed simp

lemma loadPolicies_spec:
  assumes "db_good db"
  shows "\<exists>s. loadPolicies db = (Inr s, db) \<and> policySet_good s \<and> rules_of s = stored_rules db"
proof -
  have "\<exists>s. load_rows newPolicySet (db_rows db) = Inr s \<and> policySet_good s \<and>
    (\<forall>pt. rules_of s pt = rules_of newPolicySet pt @ map rule_of (filter (\<lambda>r. row_Ptype r = pt) (db_rows db)))"
    using assms by (intro load_rows_spec)
      (simp_all add: policySet_good_new db_good_def, simp add: newPolicySet_def)
  then show ?thesis
    using assms by (auto simp: loadPolicies_def statement_ok newPolicySet_def stored_rules_def fun_eq_iff)
qed

end
