(* ===== verification/Rbac_Mutation.thy ===== *)
theory Rbac_Mutation
  imports Rbac_Authorize Rbac_Store "HOL-Library.Product_Lexorder"
begin

text \<open>
  Policy writes and reads: \<^verbatim>\<open>src/authz/rbac/mutation.go\<close>, \<^verbatim>\<open>reload.go\<close>, \<^verbatim>\<open>init.go\<close>,
  \<^verbatim>\<open>permission.go\<close> and \<^verbatim>\<open>assignment.go\<close>. A write has a stored half, which runs inside a
  transaction and takes its number there, and a memory half, which runs after the commit. \<open>mutate\<close> is
  the two in the transaction it opens itself; \<open>Rbac_Protocol\<close> interleaves the halves of many.

  The policy lock is represented by every definition below being one step of the process. The
  sequence counters are unsigned 64-bit in the code and numbers here: a process would have to make
  \<open>2\<^sup>6\<^sup>4\<close> writes to tell the two apart.
\<close>

section \<open>The process\<close>

record rbac_process =
  world :: policy_world
  store :: policy_db
  policySequence :: nat
  appliedSequence :: nat
  policiesDiverged :: bool
  reloadRetryRunning :: bool

datatype rbac_error =
    ErrEmptyPolicyValue empty_value
  | ErrReservedRole string
  | ErrSubjectIsRole string
  | ErrRBACDisabled
  | ErrStore store_error
  | ErrCommit string
  | ErrReload store_error
  | ErrAfterCommit rbac_error
  | ErrJoined rbac_error rbac_error

section \<open>Reload\<close>

definition publishPolicyDivergence :: "bool \<Rightarrow> rbac_process \<Rightarrow> rbac_process" where
  "publishPolicyDivergence diverged s = s\<lparr>policiesDiverged := diverged\<rparr>"

definition reload :: "rbac_process \<Rightarrow> rbac_error option \<times> rbac_process" where
  "reload s =
     (case loadPolicies (store s) of
        (Inl err, db) \<Rightarrow> (Some (ErrReload err), s\<lparr>store := db\<rparr>)
      | (Inr ps, db) \<Rightarrow>
          (None,
           publishPolicyDivergence False
             (s\<lparr>store := db, world := rebuildDerived (Some ps) ((world s)\<lparr>policyRules := Some ps\<rparr>)\<rparr>)))"

text \<open>
  The retry goroutine is started at most once; what it does is one more \<open>reload\<close> later, a step of
  its own.
\<close>

definition scheduleReloadRetry :: "rbac_process \<Rightarrow> rbac_process" where
  "scheduleReloadRetry s = s\<lparr>reloadRetryRunning := True\<rparr>"

definition recoverPolicies :: "rbac_process \<Rightarrow> rbac_error option \<Rightarrow> rbac_error option \<times> rbac_process" where
  "recoverPolicies s cause =
     (case reload s of
        (None, s') \<Rightarrow> (cause, s')
      | (Some reloaded, s') \<Rightarrow>
          (let s2 = scheduleReloadRetry (publishPolicyDivergence True s')
           in case cause of
                None \<Rightarrow> (Some reloaded, s2)
              | Some c \<Rightarrow> (Some (ErrJoined c reloaded), s2)))"

text \<open>One wake-up of the retry loop, and one tick of the periodic reconciliation.\<close>

definition retry_tick :: "rbac_process \<Rightarrow> rbac_process" where
  "retry_tick s =
     (if \<not> reloadRetryRunning s then s
      else if \<not> policiesDiverged s then s\<lparr>reloadRetryRunning := False\<rparr>
      else
        (case reload s of
           (None, s') \<Rightarrow> s'\<lparr>reloadRetryRunning := False\<rparr>
         | (Some _, s') \<Rightarrow> s'))"

definition periodic_tick :: "rbac_process \<Rightarrow> rbac_process" where
  "periodic_tick s = (case policyRules (world s) of None \<Rightarrow> s | Some _ \<Rightarrow> snd (reload s))"

section \<open>The two halves of a write\<close>

type_synonym stored_counts = "nat option list"

definition store_one :: "policy_db \<Rightarrow> policyMutation \<Rightarrow> (store_error + nat option) \<times> policy_db" where
  "store_one db m =
     (case mut_op m of
        policyAdd \<Rightarrow>
          (let r = addPolicies db (mut_ptype m) (mut_rules m)
           in (case fst r of None \<Rightarrow> Inr None | Some e \<Rightarrow> Inl e, snd r))
      | policyRemove \<Rightarrow>
          (let r = removePoliciesCount db (mut_ptype m) (mut_rules m)
           in (map_sum (\<lambda>e. e) Some (fst r), snd r))
      | policyRemoveFiltered \<Rightarrow>
          (let r = removeFilteredPolicyCount db (mut_ptype m) (mut_fieldIndex m) (mut_fieldValues m)
           in (map_sum (\<lambda>e. e) Some (fst r), snd r)))"

fun applyToStore :: "policy_db \<Rightarrow> policyMutation list \<Rightarrow> (store_error + stored_counts) \<times> policy_db" where
  "applyToStore db [] = (Inr [], db)"
| "applyToStore db (m # ms) =
     (case store_one db m of
        (Inl e, db') \<Rightarrow> (Inl e, db')
      | (Inr c, db') \<Rightarrow>
          (case applyToStore db' ms of
             (Inl e, db'') \<Rightarrow> (Inl e, db'')
           | (Inr cs, db'') \<Rightarrow> (Inr (c # cs), db'')))"

text \<open>
  The loop of \<open>applyMutations\<close> over the set, which it changes in place: what was replayed before a
  mismatch stays.
\<close>

definition apply_one :: "policySet \<Rightarrow> policyMutation \<Rightarrow> rule list \<times> policySet" where
  "apply_one ps m =
     (case mut_op m of
        policyAdd \<Rightarrow> policySet_add ps (mut_ptype m) (mut_rules m)
      | policyRemove \<Rightarrow> policySet_remove ps (mut_ptype m) (mut_rules m)
      | policyRemoveFiltered \<Rightarrow>
          policySet_removeFiltered ps (mut_ptype m) (mut_fieldIndex m) (mut_fieldValues m))"

fun apply_each :: "policySet \<Rightarrow> policyMutation list \<Rightarrow> stored_counts \<Rightarrow> bool \<times> policySet" where
  "apply_each ps (m # ms) (c # cs) =
     (let r = apply_one ps m
      in case c of
           None \<Rightarrow> apply_each (snd r) ms cs
         | Some n \<Rightarrow> if n \<noteq> length (fst r) then (False, snd r) else apply_each (snd r) ms cs)"
| "apply_each ps _ _ = (True, ps)"

definition applyMutations :: "rbac_process \<Rightarrow> nat \<Rightarrow> policyMutation list \<Rightarrow> stored_counts \<Rightarrow> bool \<times> rbac_process" where
  "applyMutations s sequence mutations storedCounts =
     (let overtaken = sequence < appliedSequence s;
          s1 = s\<lparr>appliedSequence := max (appliedSequence s) sequence\<rparr>
      in if overtaken then (False, s1)
         else
           (case policyRules (world s1) of
              None \<Rightarrow> (True, s1)
            | Some ps \<Rightarrow>
                (let r = apply_each ps mutations storedCounts;
                     w = (world s1)\<lparr>policyRules := Some (snd r)\<rparr>
                 in if \<not> fst r then (False, s1\<lparr>world := w\<rparr>)
                    else (True, s1\<lparr>world := rebuildDerived (Some (snd r)) w\<rparr>))))"

definition applyToModel ::
  "rbac_process \<Rightarrow> nat \<Rightarrow> policyMutation list \<Rightarrow> stored_counts \<Rightarrow> rbac_error option \<times> rbac_process" where
  "applyToModel s sequence mutations storedCounts =
     (case applyMutations s sequence mutations storedCounts of
        (True, s') \<Rightarrow> (None, s')
      | (False, s') \<Rightarrow> recoverPolicies s' None)"

text \<open>
  The stored half, up to and including the commit: a failed statement or a failed commit rolls the
  rows back. The result of a success is the action registered to run after the commit.
\<close>

type_synonym pending = "nat \<times> policyMutation list \<times> stored_counts"

fun validate_all :: "policyMutation list \<Rightarrow> empty_value option" where
  "validate_all [] = None"
| "validate_all (m # ms) = (case validate m of Some e \<Rightarrow> Some e | None \<Rightarrow> validate_all ms)"

definition rollback :: "policy_db \<Rightarrow> policy_db \<Rightarrow> policy_db" where
  "rollback before db = db\<lparr>db_rows := db_rows before\<rparr>"

definition mutate_stored :: "rbac_process \<Rightarrow> policyMutation list \<Rightarrow> (rbac_error + pending) \<times> rbac_process" where
  "mutate_stored s mutations =
     (case applyToStore (store s) mutations of
        (Inl e, db) \<Rightarrow> (Inl (ErrStore e), s\<lparr>store := rollback (store s) db\<rparr>)
      | (Inr counts, db) \<Rightarrow>
          (let sequence = Suc (policySequence s);
               s1 = s\<lparr>policySequence := sequence\<rparr>
           in case statement_fault db of
                (Some e, db') \<Rightarrow> (Inl (ErrCommit e), s1\<lparr>store := rollback (store s) db'\<rparr>)
              | (None, db') \<Rightarrow> (Inr (sequence, mutations, counts), s1\<lparr>store := db'\<rparr>)))"

definition mutate :: "rbac_process \<Rightarrow> policyMutation list \<Rightarrow> rbac_error option \<times> rbac_process" where
  "mutate s mutations =
     (if mutations = [] then (None, s)
      else
        (case validate_all mutations of
           Some e \<Rightarrow> (Some (ErrEmptyPolicyValue e), s)
         | None \<Rightarrow>
             (case mutate_stored s mutations of
                (Inl e, s') \<Rightarrow> (Some e, s')
              | (Inr (sequence, ms, counts), s') \<Rightarrow>
                  (case applyToModel s' sequence ms counts of
                     (None, s'') \<Rightarrow> (None, s'')
                   | (Some e, s'') \<Rightarrow> (Some (ErrAfterCommit e), s'')))))"

section \<open>Permissions\<close>

record Permission =
  Object :: string
  Action :: string

fun unique_permissions :: "Permission set \<Rightarrow> Permission list \<Rightarrow> Permission list" where
  "unique_permissions seen [] = []"
| "unique_permissions seen (p # ps) =
     (if p \<in> seen then unique_permissions seen ps else p # unique_permissions (insert p seen) ps)"

text \<open>The sort compares the object, then the action; after the deduplication no two entries tie.\<close>

definition permissionPolicies :: "string \<Rightarrow> string \<Rightarrow> Permission list \<Rightarrow> rule list" where
  "permissionPolicies tenant role permissions =
     map (\<lambda>p. [tenant, role, Object p, Action p, EffectAllow])
       (sort_key (\<lambda>p. (Object p, Action p)) (unique_permissions {} permissions))"

definition replacePermissions ::
  "rbac_process \<Rightarrow> string \<Rightarrow> string \<Rightarrow> Permission list \<Rightarrow> rbac_error option \<times> rbac_process" where
  "replacePermissions s tenant role permissions =
     (let rules = permissionPolicies tenant role permissions;
          mutations = [removeFiltered permissionPtype 0 [tenant, role]] @
                      (if rules \<noteq> [] then [addRules permissionPtype rules] else [])
      in mutate s mutations)"

definition errIfReservedRole :: "string \<Rightarrow> rbac_error option" where
  "errIfReservedRole role = (if role = RoleAuthenticated then Some (ErrReservedRole role) else None)"

definition SetRolePermissions ::
  "rbac_process \<Rightarrow> string \<Rightarrow> string \<Rightarrow> Permission list \<Rightarrow> rbac_error option \<times> rbac_process" where
  "SetRolePermissions s tenant role permissions =
     (case errIfReservedRole role of
        Some e \<Rightarrow> (Some e, s)
      | None \<Rightarrow> replacePermissions s (normalizeTenant tenant) role permissions)"

definition authenticatedPolicyTenant :: string where
  "authenticatedPolicyTenant = ''*''"

definition SetPermissionsForAuthenticated ::
  "rbac_process \<Rightarrow> Permission list \<Rightarrow> rbac_error option \<times> rbac_process" where
  "SetPermissionsForAuthenticated s permissions =
     replacePermissions s authenticatedPolicyTenant RoleAuthenticated permissions"

definition RemoveRole :: "rbac_process \<Rightarrow> string \<Rightarrow> string \<Rightarrow> rbac_error option \<times> rbac_process" where
  "RemoveRole s tenant0 role =
     (let tenant = normalizeTenant tenant0
      in mutate s [removeFiltered permissionPtype 0 [tenant, role],
                   removeFiltered tenantRoleGrouping 1 [role, tenant]])"

section \<open>Assignments\<close>

definition AssignRole :: "rbac_process \<Rightarrow> string \<Rightarrow> string \<Rightarrow> string \<Rightarrow> rbac_error option \<times> rbac_process" where
  "AssignRole s tenant0 subject role =
     (let tenant = normalizeTenant tenant0
      in if subject = role then (Some (ErrSubjectIsRole subject), s)
         else mutate s [addRules tenantRoleGrouping [[subject, role, tenant]]])"

definition UnassignRole :: "rbac_process \<Rightarrow> string \<Rightarrow> string \<Rightarrow> string \<Rightarrow> rbac_error option \<times> rbac_process" where
  "UnassignRole s tenant0 subject role =
     (let tenant = normalizeTenant tenant0
      in mutate s [removeRules tenantRoleGrouping [[subject, role, tenant]]])"

definition AssignSystemRole :: "rbac_process \<Rightarrow> string \<Rightarrow> string \<Rightarrow> rbac_error option \<times> rbac_process" where
  "AssignSystemRole s subject role =
     (if subject = role then (Some (ErrSubjectIsRole subject), s)
      else mutate s [addRules systemRoleGrouping [[subject, role]]])"

definition UnassignSystemRole :: "rbac_process \<Rightarrow> string \<Rightarrow> string \<Rightarrow> rbac_error option \<times> rbac_process" where
  "UnassignSystemRole s subject role = mutate s [removeRules systemRoleGrouping [[subject, role]]]"

definition RemoveSubject :: "rbac_process \<Rightarrow> string \<Rightarrow> rbac_error option \<times> rbac_process" where
  "RemoveSubject s subject =
     mutate s [removeFiltered tenantRoleGrouping 0 [subject], removeFiltered systemRoleGrouping 0 [subject]]"

definition HasSystemRole :: "rbac_process \<Rightarrow> string \<Rightarrow> string \<Rightarrow> bool" where
  "HasSystemRole s subject role = hasRoleLink (world s) systemRoleGrouping subject role None"

definition isBuiltInSystemRole :: "string \<Rightarrow> string \<Rightarrow> bool" where
  "isBuiltInSystemRole subject role \<longleftrightarrow> subject = UserRoot \<and> role = SystemRoleRoot"

section \<open>Reads of the assignments\<close>

fun roles_loop :: "string \<Rightarrow> rule list \<Rightarrow> string list" where
  "roles_loop tenant [] = []"
| "roles_loop tenant (policy # rest) =
     (if length policy < 3 \<or> policy ! 2 \<noteq> tenant then roles_loop tenant rest
      else if TrimSpace (policy ! 1) \<noteq> [] then TrimSpace (policy ! 1) # roles_loop tenant rest
      else roles_loop tenant rest)"

definition RolesForSubject :: "policySet \<Rightarrow> string \<Rightarrow> string \<Rightarrow> string list" where
  "RolesForSubject ps tenant subject0 =
     (let subject = TrimSpace subject0
      in if subject = [] then []
         else roles_loop (normalizeTenant tenant) (policySet_filtered ps tenantRoleGrouping 0 subject))"

text \<open>The shared loop of the two reads that collect one column, each value once.\<close>

fun column_loop :: "nat \<Rightarrow> string set \<Rightarrow> rule list \<Rightarrow> string list" where
  "column_loop col seen [] = []"
| "column_loop col seen (policy # rest) =
     (if length policy < 3 \<or> TrimSpace (policy ! 1) = [] then column_loop col seen rest
      else
        (let v = TrimSpace (policy ! col)
         in if v = [] \<or> v \<in> seen then column_loop col seen rest
            else v # column_loop col (insert v seen) rest))"

definition SubjectsInTenant :: "policySet \<Rightarrow> string \<Rightarrow> string list" where
  "SubjectsInTenant ps tenant =
     column_loop 0 {} (policySet_filtered ps tenantRoleGrouping 2 (normalizeTenant tenant))"

definition TenantsForSubject :: "policySet \<Rightarrow> string \<Rightarrow> string list" where
  "TenantsForSubject ps subject0 =
     (let subject = TrimSpace subject0
      in if subject = [] then []
         else sort (column_loop 2 {} (policySet_filtered ps tenantRoleGrouping 0 subject)))"

section \<open>Init\<close>

definition installPolicySet :: "policySet \<Rightarrow> rbac_process \<Rightarrow> rbac_process" where
  "installPolicySet ps s = s\<lparr>world := rebuildDerived (Some ps) ((world s)\<lparr>policyRules := Some ps\<rparr>)\<rparr>"

definition rbac_Init :: "bool \<Rightarrow> rbac_process \<Rightarrow> rbac_error option \<times> rbac_process" where
  "rbac_Init enabled s =
     (if \<not> enabled then (None, s)
      else
        (case loadPolicies (store s) of
           (Inl e, db) \<Rightarrow> (Some (ErrStore e), s\<lparr>store := db\<rparr>)
         | (Inr ps, db) \<Rightarrow>
             AssignSystemRole (installPolicySet ps (s\<lparr>store := db\<rparr>)) UserRoot SystemRoleRoot))"

text \<open>
  The writes as \<open>RBAC()\<close> dispatches them: refused until a policy set is installed.
\<close>

definition RBAC_write ::
  "rbac_process \<Rightarrow> (rbac_process \<Rightarrow> rbac_error option \<times> rbac_process) \<Rightarrow> rbac_error option \<times> rbac_process" where
  "RBAC_write s op = (case policyRules (world s) of None \<Rightarrow> (Some ErrRBACDisabled, s) | Some _ \<Rightarrow> op s)"

definition RBAC_HasSystemRole :: "rbac_process \<Rightarrow> string \<Rightarrow> string \<Rightarrow> bool" where
  "RBAC_HasSystemRole s subject role =
     (case policyRules (world s) of
        None \<Rightarrow> isBuiltInSystemRole subject role
      | Some _ \<Rightarrow> HasSystemRole s subject role)"

section \<open>Replaying a batch on both halves\<close>

text \<open>Memory and storage hold the same rules in the same order, and everything is derived from them.\<close>

definition in_step :: "rbac_process \<Rightarrow> bool" where
  "in_step s \<longleftrightarrow>
     db_good (store s) \<and> appliedSequence s \<le> policySequence s \<and>
     (\<exists>ps. world s = installed ps \<and> policySet_good ps \<and> rules_of ps = stored_rules (store s))"

lemma installed_rebuild: "rebuildDerived (Some ps) (w\<lparr>policyRules := Some ps\<rparr>) = installed ps"
  by (simp add: rebuildDerived_def installed_def)

lemma removePoliciesCount_ok:
  "db_good db \<Longrightarrow> \<forall>r\<in>set rs. rule_ok pt r \<Longrightarrow> \<exists>n d. removePoliciesCount db pt rs = (Inr n, d)"
  using remove_each_spec [of db rs pt 0] by (auto simp: removePoliciesCount_def prod_eq_iff)

lemma removeFilteredPolicyCount_ok:
  "db_good db \<Longrightarrow> i + length vs \<le> ruleColumnCount \<Longrightarrow>
     \<exists>n d. removeFilteredPolicyCount db pt i vs = (Inr n, d)"
  using removeFiltered_spec [of db i vs pt] by (auto simp: prod_eq_iff)

lemma stored_count_Inr [simp]: "stored_count (Inr n, d) = (n, d)"
  by (simp add: stored_count_def)

lemma store_one_replay:
  assumes "db_good db" "mutation_ok m"
  shows "store_one db m = (Inr (fst (table.replay db m)), snd (table.replay db m))"
proof (cases "mut_op m")
  case policyAdd
  with assms addPolicies_spec [of db "mut_rules m" "mut_ptype m"] show ?thesis
    by (simp add: store_one_def table.replay_def mutation_ok_def Let_def)
next
  case policyRemove
  with assms removePoliciesCount_ok [of db "mut_rules m" "mut_ptype m"] show ?thesis
    by (auto simp: store_one_def table.replay_def mutation_ok_def Let_def)
next
  case policyRemoveFiltered
  with assms removeFilteredPolicyCount_ok [of db "mut_fieldIndex m" "mut_fieldValues m" "mut_ptype m"]
  show ?thesis by (auto simp: store_one_def table.replay_def mutation_ok_def Let_def)
qed

lemma applyToStore_replay:
  assumes "db_good db" "\<forall>m\<in>set ms. mutation_ok m"
  shows "applyToStore db ms = (Inr (fst (replay_all table.replay db ms)), snd (replay_all table.replay db ms))"
  using assms
proof (induction ms arbitrary: db)
  case (Cons m ms)
  then have "mutation_ok m" by simp
  with Cons.IH [OF table.replay_good [OF Cons.prems(1)]] Cons.prems show ?case
    by (simp add: store_one_replay Let_def)
qed simp

lemma memory_replay_apply:
  "snd (memory.replay ps m) = snd (apply_one ps m)"
  "fst (memory.replay ps m) = (if mut_op m = policyAdd then None else Some (length (fst (apply_one ps m))))"
  by (cases "mut_op m"; simp add: memory.replay_def apply_one_def)+

lemma apply_each_replay:
  "apply_each ps ms (fst (replay_all memory.replay ps ms)) = (True, snd (replay_all memory.replay ps ms))"
  by (induction ms arbitrary: ps) (simp_all add: Let_def memory_replay_apply)

lemma mutate_stored_good:
  assumes "db_good (store s)" "\<forall>m\<in>set ms. mutation_ok m"
  shows "mutate_stored s ms =
    (Inr (Suc (policySequence s), ms, fst (replay_all table.replay (store s) ms)),
     s\<lparr>policySequence := Suc (policySequence s), store := snd (replay_all table.replay (store s) ms)\<rparr>)"
proof -
  have "db_good (snd (replay_all table.replay (store s) ms))"
    using assms
  proof (induction ms arbitrary: s)
    case (Cons m ms)
    from Cons.IH [of "s\<lparr>store := snd (table.replay (store s) m)\<rparr>"] Cons.prems
      table.replay_good [of "store s" m] show ?case by (simp add: Let_def)
  qed simp
  with assms show ?thesis
    by (simp add: mutate_stored_def applyToStore_replay statement_ok Let_def)
qed

text \<open>A validated batch on a process in step: no error, and the process is in step again.\<close>

lemma mutate_in_step:
  assumes "in_step s" "ms \<noteq> []" "\<forall>m\<in>set ms. mutation_ok m" "validate_all ms = None"
  obtains ps where "policyRules (world s) = Some ps" "policySet_good ps" "world s = installed ps"
    "rules_of ps = stored_rules (store s)"
    "fst (mutate s ms) = None" "in_step (snd (mutate s ms))"
    "world (snd (mutate s ms)) = installed (snd (replay_all memory.replay ps ms))"
proof -
  from assms(1) obtain ps where ps: "world s = installed ps" "policySet_good ps"
    "rules_of ps = stored_rules (store s)" and db: "db_good (store s)"
    and seq: "appliedSequence s \<le> policySequence s"
    by (auto simp: in_step_def)
  note m = mirror.replay_all_mirror [OF db ps(2) ps(3) [symmetric] assms(3)]
  let ?ps = "snd (replay_all memory.replay ps ms)"
  let ?counts = "fst (replay_all table.replay (store s) ms)"
  let ?s1 = "s\<lparr>policySequence := Suc (policySequence s), store := snd (replay_all table.replay (store s) ms)\<rparr>"
  have ap: "apply_each ps ms ?counts = (True, ?ps)"
    using m apply_each_replay [of ps ms] by simp
  have "applyToModel ?s1 (Suc (policySequence s)) ms ?counts =
      (None, ?s1\<lparr>appliedSequence := Suc (policySequence s), world := installed ?ps\<rparr>)"
    using seq ap by (simp add: applyToModel_def applyMutations_def Let_def ps(1) installed_rebuild max_def)
  then have "mutate s ms = (None, ?s1\<lparr>appliedSequence := Suc (policySequence s), world := installed ?ps\<rparr>)"
    using assms(2,4) mutate_stored_good [OF db assms(3)] by (simp add: mutate_def)
  with that ps m show thesis by (auto simp: in_step_def)
qed

section \<open>Lemmas on the operations\<close>

text \<open>An identifier the deployment can store: not empty, no NUL byte.\<close>

definition ident :: "string \<Rightarrow> bool" where
  "ident v \<longleftrightarrow> v \<noteq> [] \<and> CHR 0x00 \<notin> set v"

definition permission_ok :: "Permission \<Rightarrow> bool" where
  "permission_ok p \<longleftrightarrow> ident (Object p) \<and> ident (Action p)"

lemma trim_fuel_subset: "set (trim_fuel n ws v) \<subseteq> set v"
  using trim_fuel_suffix [of n ws v] by (auto dest: set_mono_suffix)

lemma TrimSpace_subset: "set (TrimSpace v) \<subseteq> set v"
  using trim_right_prefix [of "trim_left v"] trim_fuel_subset
  by (fastforce simp: TrimSpace_def trim_left_def dest: set_mono_prefix)

lemma normalizeTenant_ident: "CHR 0x00 \<notin> set tenant \<Longrightarrow> ident (normalizeTenant tenant)"
  using TrimSpace_subset [of tenant]
  by (auto simp: normalizeTenant_def ident_def Let_def tenant_Default_def)

lemma rule_ok_kinds:
  "rule_ok permissionPtype r \<longleftrightarrow> length r = 5 \<and> (\<forall>v\<in>set r. CHR 0x00 \<notin> set v)"
  "rule_ok tenantRoleGrouping r \<longleftrightarrow> length r = 3 \<and> (\<forall>v\<in>set r. CHR 0x00 \<notin> set v)"
  "rule_ok systemRoleGrouping r \<longleftrightarrow> length r = 2 \<and> (\<forall>v\<in>set r. CHR 0x00 \<notin> set v)"
  by (auto simp: rule_ok_def ruleTokens_def ptype_defs)

lemma kinds_distinct:
  "tenantRoleGrouping \<noteq> systemRoleGrouping" "permissionPtype \<noteq> systemRoleGrouping"
  "permissionPtype \<noteq> tenantRoleGrouping" "systemRoleGrouping \<noteq> tenantRoleGrouping"
  by (simp_all add: ptype_defs)

lemma ruleTokens_kinds [simp]:
  "ruleTokens permissionPtype = Some 5" "ruleTokens tenantRoleGrouping = Some 3"
  "ruleTokens systemRoleGrouping = Some 2"
  by (simp_all add: ruleTokens_def ptype_defs)

lemma set_unique_permissions: "set (unique_permissions seen ps) = set ps - seen"
  by (induction ps arbitrary: seen) auto

lemma distinct_unique_permissions: "distinct (unique_permissions seen ps)"
  by (induction ps arbitrary: seen) (auto simp: set_unique_permissions)

lemma set_permissionPolicies:
  "set (permissionPolicies tenant role perms) = (\<lambda>p. [tenant, role, Object p, Action p, EffectAllow]) ` set perms"
  by (simp add: permissionPolicies_def set_unique_permissions)

lemma distinct_permissionPolicies: "distinct (permissionPolicies tenant role perms)"
  by (auto simp: permissionPolicies_def distinct_map distinct_unique_permissions inj_on_def)

lemma EffectAllow_ident: "ident EffectAllow"
  by (simp add: ident_def EffectAllow_def)

lemma validate_all_None: "validate_all ms = None \<longleftrightarrow> (\<forall>m\<in>set ms. validate m = None)"
  by (induction ms) (auto split: option.splits)

declare validate_all.simps [simp del]

lemma new_rules_fresh: "distinct rs \<Longrightarrow> set old \<inter> set rs = {} \<Longrightarrow> new_rules old rs = rs"
  by (induction old rs rule: new_rules.induct) auto

lemma matches_tenant_role:
  "length r = 5 \<Longrightarrow> tenant \<noteq> [] \<Longrightarrow> role \<noteq> [] \<Longrightarrow>
     ruleMatchesFilter r 0 [tenant, role] \<longleftrightarrow> r ! 0 = tenant \<and> r ! 1 = role"
  by auto

lemma matches_first: "r \<noteq> [] \<Longrightarrow> v \<noteq> [] \<Longrightarrow> ruleMatchesFilter r 0 [v] \<longleftrightarrow> r ! 0 = v"
  by auto

definition replaced :: "policySet \<Rightarrow> string \<Rightarrow> string \<Rightarrow> Permission list \<Rightarrow> rule list" where
  "replaced ps tenant role perms =
     filter (\<lambda>r. \<not> (r ! 0 = tenant \<and> r ! 1 = role)) (rules_of ps permissionPtype) @
     permissionPolicies tenant role perms"

definition replace_batch :: "string \<Rightarrow> string \<Rightarrow> Permission list \<Rightarrow> policyMutation list" where
  "replace_batch tenant role perms =
     [removeFiltered permissionPtype 0 [tenant, role]] @
     (if permissionPolicies tenant role perms \<noteq> []
      then [addRules permissionPtype (permissionPolicies tenant role perms)] else [])"

lemma replace_batch_ok:
  assumes "ident tenant" "ident role" "\<forall>p\<in>set perms. permission_ok p"
  shows "\<forall>m\<in>set (replace_batch tenant role perms). mutation_ok m"
    and "validate_all (replace_batch tenant role perms) = None"
  using assms EffectAllow_ident
  by (auto simp: replace_batch_def mutation_ok_def mutation_defs rule_ok_kinds ruleColumnCount_def
      set_permissionPolicies permission_ok_def ident_def validate_all_None validate_None)

lemma replace_batch_contents:
  assumes "policySet_good ps" "ident tenant" "ident role" "\<forall>p\<in>set perms. permission_ok p"
  shows "rules_of (snd (replay_all memory.replay ps (replace_batch tenant role perms))) =
    (rules_of ps)(permissionPtype := replaced ps tenant role perms)"
proof -
  let ?f = "removeFiltered permissionPtype 0 [tenant, role]"
  let ?rs = "permissionPolicies tenant role perms"
  have len: "length r = 5" if "r \<in> set (rules_of ps permissionPtype)" for r
    using memory.contents_ok [OF assms(1) that] by (simp add: rule_ok_kinds)
  have f: "rules_of (snd (memory.replay ps ?f)) = (rules_of ps)(permissionPtype :=
      filter (\<lambda>r. \<not> (r ! 0 = tenant \<and> r ! 1 = role)) (rules_of ps permissionPtype))"
  proof -
    have "filter (\<lambda>r. \<not> ruleMatchesFilter r 0 [tenant, role]) (rules_of ps permissionPtype) =
        filter (\<lambda>r. \<not> (r ! 0 = tenant \<and> r ! 1 = role)) (rules_of ps permissionPtype)"
      using assms len by (intro filter_cong) (simp_all add: matches_tenant_role ident_def del: ruleMatchesFilter.simps)
    then show ?thesis
      using memory.filtered_contents [OF assms(1), of permissionPtype 0 "[tenant, role]"]
      by (simp add: memory.replay_def mutation_defs ruleColumnCount_def del: ruleMatchesFilter.simps)
  qed
  have good: "policySet_good (snd (memory.replay ps ?f))"
    using assms memory.replay_good [of ps ?f] by (simp add: mutation_ok_def mutation_defs ruleColumnCount_def)
  have ok: "\<forall>r\<in>set ?rs. rule_ok permissionPtype r"
    using assms EffectAllow_ident by (auto simp: set_permissionPolicies rule_ok_kinds permission_ok_def ident_def)
  have fresh: "new_rules (filter (\<lambda>r. \<not> (r ! 0 = tenant \<and> r ! 1 = role)) (rules_of ps permissionPtype)) ?rs = ?rs"
    by (rule new_rules_fresh) (auto simp: distinct_permissionPolicies set_permissionPolicies)
  show ?thesis
    using f memory.add_contents [OF good _ ok] fresh
    by (auto simp: replace_batch_def replaced_def Let_def memory.replay_def mutation_defs)
qed

text \<open>The subject's own assignments gone from both groupings.\<close>

definition remove_batch :: "string \<Rightarrow> policyMutation list" where
  "remove_batch subject = [removeFiltered tenantRoleGrouping 0 [subject], removeFiltered systemRoleGrouping 0 [subject]]"

lemma remove_batch_ok:
  "ident subject \<Longrightarrow> (\<forall>m\<in>set (remove_batch subject). mutation_ok m) \<and> validate_all (remove_batch subject) = None"
  by (auto simp: remove_batch_def mutation_ok_def mutation_defs ruleColumnCount_def ident_def
      validate_all_None validate_None)

lemma remove_batch_contents:
  assumes "policySet_good ps" "ident subject"
  shows "rules_of (snd (replay_all memory.replay ps (remove_batch subject))) =
    (rules_of ps)(tenantRoleGrouping := filter (\<lambda>r. r ! 0 \<noteq> subject) (rules_of ps tenantRoleGrouping),
                  systemRoleGrouping := filter (\<lambda>r. r ! 0 \<noteq> subject) (rules_of ps systemRoleGrouping))"
proof -
  let ?ps1 = "snd (memory.replay ps (removeFiltered tenantRoleGrouping 0 [subject]))"
  have ne: "r \<noteq> []" if "policySet_good qs" "r \<in> set (rules_of qs pt)" for qs r pt
    using memory.contents_ok [OF that] by (rule rule_ok_nonempty)
  have one: "rules_of (snd (memory.replay qs (removeFiltered pt 0 [subject]))) =
      (rules_of qs)(pt := filter (\<lambda>r. r ! 0 \<noteq> subject) (rules_of qs pt))"
    if "policySet_good qs" "ruleTokens pt \<noteq> None" for qs pt
    using that assms(2) memory.filtered_contents [OF that, of 0 "[subject]"] ne [OF that(1)]
    by (auto simp: memory.replay_def mutation_defs ruleColumnCount_def ident_def fun_eq_iff intro!: filter_cong)
  have "policySet_good ?ps1"
    using assms memory.replay_good [of ps] by (simp add: mutation_ok_def mutation_defs ruleColumnCount_def)
  then show ?thesis
    using assms(1) one [of ps tenantRoleGrouping] one [of ?ps1 systemRoleGrouping]
    by (simp add: remove_batch_def Let_def kinds_distinct)
qed

lemma no_links_no_reach:
  assumes "\<And>b. (a, b) \<notin> rel" shows "\<not> within_links rel a b"
proof
  assume "within_links rel a b"
  then obtain n where n: "1 \<le> n" "(a, b) \<in> rel ^^ n" by (auto simp: within_links_def)
  then obtain m where "n = Suc m" by (cases n) auto
  with n(2) obtain c where "(a, c) \<in> rel" using relpow_Suc_D2 by metis
  with assms show False by blast
qed

section \<open>Properties\<close>

text \<open>A process with an empty, exact, fault-free table, as it comes up.\<close>

definition fresh_process :: rbac_process where
  "fresh_process =
     \<lparr>world = \<lparr>policyRules = None, policyIndex = None, policyGraph = None\<rparr>,
      store = \<lparr>db_rows = [], db_next = 1, db_coll = (\<lambda>v. v), db_faults = []\<rparr>,
      policySequence = 0, appliedSequence = 0, policiesDiverged = False, reloadRetryRunning = False\<rparr>"

lemma installed_in_step:
  assumes "db_good (store s)" "policySet_good ps" "rules_of ps = stored_rules (store s)"
    "appliedSequence s \<le> policySequence s"
  shows "in_step (installPolicySet ps s)"
  using assms by (auto simp: in_step_def installPolicySet_def installed_rebuild)

lemma mutate_result_in_step:
  assumes "in_step s" "ms \<noteq> []" "\<forall>m\<in>set ms. mutation_ok m" "validate_all ms = None"
  shows "fst (mutate s ms) = None \<and> in_step (snd (mutate s ms))"
  using mutate_in_step [OF assms] by metis

text \<open>
  C25: memory follows storage. On a process whose memory holds exactly the stored rules, over an exact
  collation and a database that answers, any validated batch of well-formed mutations succeeds and
  leaves memory holding exactly the stored rules again, in the stored order, with the index and the
  role graph derived from them.
\<close>

theorem mutate_keeps_in_step:
  assumes "in_step s" "\<forall>m\<in>set ms. mutation_ok m \<and> validate m = None"
  shows "fst (mutate s ms) = None \<and> in_step (snd (mutate s ms))"
proof (cases "ms = []")
  case True
  with assms show ?thesis by (simp add: mutate_def)
next
  case False
  with assms show ?thesis by (intro mutate_result_in_step) (auto simp: validate_all_None)
qed

lemma fresh_in_step: "in_step (installPolicySet newPolicySet fresh_process)"
  by (rule installed_in_step [OF _ policySet_good_new])
    (simp_all add: fresh_process_def db_good_def newPolicySet_def stored_rules_def fun_eq_iff)

theorem mutate_keeps_in_step_witness:
  "in_step (snd (mutate (installPolicySet newPolicySet fresh_process)
     [addRules tenantRoleGrouping [[''alice'', ''editor'', ''acme'']]]))"
proof -
  have "\<forall>m\<in>set [addRules tenantRoleGrouping [[''alice'', ''editor'', ''acme'']]].
      mutation_ok m \<and> validate m = None"
    by (simp add: mutation_ok_def mutation_defs rule_ok_kinds validate_None)
  from mutate_keeps_in_step [OF fresh_in_step this] show ?thesis ..
qed

text \<open>
  A write that fails before its commit changes nothing. Whatever the collation and whichever
  statement the database fails, the rows and everything decisions read are as before, and the error is
  not one of the after-commit kind; a batch with an empty value is refused before any statement.
\<close>

theorem mutate_failure_atomic:
  assumes "fst (mutate s ms) = Some e" "\<And>c. e \<noteq> ErrAfterCommit c"
  shows "world (snd (mutate s ms)) = world s \<and> db_rows (store (snd (mutate s ms))) = db_rows (store s) \<and>
    policiesDiverged (snd (mutate s ms)) = policiesDiverged s \<and>
    appliedSequence (snd (mutate s ms)) = appliedSequence s \<and>
    ((\<exists>v. e = ErrEmptyPolicyValue v) = (\<exists>m\<in>set ms. validate m \<noteq> None))"
proof (cases "validate_all ms")
  case (Some v)
  then have "\<exists>m\<in>set ms. validate m \<noteq> None" "ms \<noteq> []"
    using validate_all_None [of ms] by (auto simp: validate_all.simps)
  with Some assms show ?thesis by (auto simp: mutate_def)
next
  case None
  then have v: "\<not> (\<exists>m\<in>set ms. validate m \<noteq> None)" by (simp add: validate_all_None)
  show ?thesis
  proof (cases "mutate_stored s ms")
    case (Pair r s')
    with None assms v show ?thesis
      by (auto simp: mutate_def mutate_stored_def rollback_def Let_def
          split: sum.splits prod.splits option.splits if_splits)
  qed
qed

theorem mutate_failure_atomic_witness:
  "db_rows (store (snd (mutate (fresh_process\<lparr>store := (store fresh_process)\<lparr>db_faults := [Some ''gone'']\<rparr>\<rparr>)
     [addRules systemRoleGrouping [[''root'', ''system_root'']]]))) = []"
proof -
  let ?s = "fresh_process\<lparr>store := (store fresh_process)\<lparr>db_faults := [Some ''gone'']\<rparr>\<rparr>"
  let ?ms = "[addRules systemRoleGrouping [[''root'', ''system_root'']]]"
  have "fst (mutate ?s ?ms) = Some (ErrStore (StoreFault ''gone''))"
    by (simp add: mutate_def validate_all.simps validate_def mutation_defs mutate_stored_def store_one_def
        addPolicies_def statement_fault_def)
  from mutate_failure_atomic [OF this] show ?thesis by (simp add: fresh_process_def)
qed

text \<open>
  \<open>SetRolePermissions\<close> replaces exactly. On a process in step it succeeds, and afterwards the
  permission rules are those of other tenant and role pairs, untouched and in order, followed by one
  rule per distinct permission given, sorted; assignments are untouched. For the reserved role it is
  refused and changes nothing.
\<close>

theorem set_role_permissions_exact:
  assumes "in_step s" "ident role" "CHR 0x00 \<notin> set tenant" "\<forall>p\<in>set perms. permission_ok p"
  shows "if role = RoleAuthenticated
    then SetRolePermissions s tenant role perms = (Some (ErrReservedRole role), s)
    else fst (SetRolePermissions s tenant role perms) = None \<and>
      in_step (snd (SetRolePermissions s tenant role perms)) \<and>
      (\<exists>ps ps'. world s = installed ps \<and> world (snd (SetRolePermissions s tenant role perms)) = installed ps' \<and>
         rules_of ps' = (rules_of ps)(permissionPtype := replaced ps (normalizeTenant tenant) role perms))"
proof (cases "role = RoleAuthenticated")
  case False
  have n: "ident (normalizeTenant tenant)"
    using assms(3) by (rule normalizeTenant_ident)
  have eq: "SetRolePermissions s tenant role perms =
      mutate s (replace_batch (normalizeTenant tenant) role perms)"
    using False by (simp add: SetRolePermissions_def errIfReservedRole_def replacePermissions_def
        replace_batch_def Let_def)
  note ok = replace_batch_ok [OF n assms(2,4)]
  have ne: "replace_batch (normalizeTenant tenant) role perms \<noteq> []" by (simp add: replace_batch_def)
  show ?thesis
    using mutate_in_step [OF assms(1) ne ok] replace_batch_contents [OF _ n assms(2,4)] False eq by metis
qed (simp add: SetRolePermissions_def errIfReservedRole_def)

theorem set_role_permissions_exact_witness:
  "fst (SetRolePermissions (installPolicySet newPolicySet fresh_process) '''' ''editor''
     [\<lparr>Object = ''/api/items'', Action = ''GET''\<rparr>]) = None"
proof -
  have r: "ident ''editor''" "''editor'' \<noteq> RoleAuthenticated"
    by (simp_all add: ident_def RoleAuthenticated_def)
  have p: "\<forall>p\<in>set [\<lparr>Object = ''/api/items'', Action = ''GET''\<rparr>]. permission_ok p"
    by (simp add: permission_ok_def ident_def)
  show ?thesis
    using set_role_permissions_exact [OF fresh_in_step r(1) _ p, of "''''"] r(2) by simp
qed

text \<open>
  Removing a subject revokes it. On a process in step \<open>RemoveSubject\<close> succeeds, and afterwards no
  request of that subject, in any tenant, is allowed by a role: what is still allowed is allowed by a
  rule of the implicit role.
\<close>

theorem remove_subject_revokes:
  assumes "in_step s" "ident subject"
  shows "fst (RemoveSubject s subject) = None \<and> in_step (snd (RemoveSubject s subject)) \<and>
    (case authorize (world (snd (RemoveSubject s subject))) tenant subject obj act of
       Inl _ \<Rightarrow> True
     | Inr (allowed, source, _) \<Rightarrow> allowed = (source = Some GrantSourceAuthenticated))"
proof -
  have ne: "remove_batch subject \<noteq> []" by (simp add: remove_batch_def)
  have eq: "RemoveSubject s subject = mutate s (remove_batch subject)"
    by (simp add: RemoveSubject_def remove_batch_def)
  obtain ps where ps: "policySet_good ps" "fst (mutate s (remove_batch subject)) = None"
    "in_step (snd (mutate s (remove_batch subject)))"
    "world (snd (mutate s (remove_batch subject))) = installed (snd (replay_all memory.replay ps (remove_batch subject)))"
    using mutate_in_step [OF assms(1) ne] remove_batch_ok [OF assms(2)] by metis
  let ?ps = "snd (replay_all memory.replay ps (remove_batch subject))"
  note c = remove_batch_contents [OF ps(1) assms(2)]
  have g: "(subject, b) \<notin> tenant_links ?ps t" for b t
    by (auto simp: tenant_links_def c kinds_distinct)
  have g2: "(subject, b) \<notin> system_links ?ps" for b
    by (auto simp: system_links_def c)
  note none = no_links_no_reach [OF g] no_links_no_reach [OF g2]
  have sub: "subject \<noteq> []" using assms(2) by (simp add: ident_def)
  have "authorize (installed ?ps) tenant subject obj act = policy_branches ?ps tenant subject obj act"
    using none sub by (intro authorize_policy) (simp_all add: is_root_def is_admin_def)
  moreover have "subjectRoleClosure (Some (buildRoleGraph ?ps)) subject tenant = []"
    using closure_installed [of _ ?ps subject tenant] none(1) by (metis last_in_set)
  ultimately show ?thesis
    using ps(2-4) by (auto simp: eq policy_branches_def split: sum.splits prod.splits)
qed

theorem remove_subject_revokes_witness:
  "fst (RemoveSubject (installPolicySet newPolicySet fresh_process) ''alice'') = None"
  using remove_subject_revokes [OF fresh_in_step, of "''alice''"] by (simp add: ident_def)

lemma reload_good:
  assumes "db_good (store s)" "appliedSequence s \<le> policySequence s"
  shows "fst (reload s) = None \<and> in_step (snd (reload s)) \<and> \<not> policiesDiverged (snd (reload s))"
proof -
  obtain ps where "loadPolicies (store s) = (Inr ps, store s)" "policySet_good ps"
    "rules_of ps = stored_rules (store s)" using loadPolicies_spec [OF assms(1)] by blast
  with assms show ?thesis
    by (auto simp: reload_def publishPolicyDivergence_def installed_rebuild in_step_def)
qed

definition root_batch :: "policyMutation list" where
  "root_batch = [addRules systemRoleGrouping [[UserRoot, SystemRoleRoot]]]"

lemma root_batch_ok: "(\<forall>m\<in>set root_batch. mutation_ok m) \<and> validate_all root_batch = None \<and> root_batch \<noteq> []"
  by (simp add: root_batch_def mutation_ok_def mutation_defs rule_ok_kinds validate_all_None validate_None
      rbac_names)

lemma root_batch_root:
  assumes "policySet_good ps" shows "is_root (snd (replay_all memory.replay ps root_batch)) UserRoot"
proof -
  let ?ps = "snd (replay_all memory.replay ps root_batch)"
  have "rules_of ?ps systemRoleGrouping = rules_of ps systemRoleGrouping @
      new_rules (rules_of ps systemRoleGrouping) [[UserRoot, SystemRoleRoot]]"
    using memory.add_contents [OF assms, of systemRoleGrouping "[[UserRoot, SystemRoleRoot]]"]
    by (simp add: root_batch_def memory.replay_def mutation_defs rule_ok_kinds rbac_names)
  then have "[UserRoot, SystemRoleRoot] \<in> set (rules_of ?ps systemRoleGrouping)"
    using set_new_rules [of "rules_of ps systemRoleGrouping" "[[UserRoot, SystemRoleRoot]]"] by auto
  then have "(UserRoot, SystemRoleRoot) \<in> system_links ?ps" by (force simp: system_links_def)
  then show ?thesis
    by (auto simp: is_root_def within_links_def rbac_names maxRoleHierarchy_def intro!: exI [of _ 1])
qed

text \<open>
  A reload heals. Whatever a process held before, a reload from a well-formed table that answers
  succeeds, leaves the process in step with storage and clears the divergence flag; initialization
  over such a table succeeds, ends in step, and the built-in root user holds \<open>system_root\<close>.
\<close>

theorem reload_and_init_heal:
  assumes "db_good (store s)" "appliedSequence s \<le> policySequence s"
  shows "fst (reload s) = None \<and> in_step (snd (reload s)) \<and> \<not> policiesDiverged (snd (reload s)) \<and>
    fst (rbac_Init True s) = None \<and> in_step (snd (rbac_Init True s)) \<and>
    RBAC_HasSystemRole (snd (rbac_Init True s)) UserRoot SystemRoleRoot"
proof -
  obtain ps where ps: "loadPolicies (store s) = (Inr ps, store s)" "policySet_good ps"
    "rules_of ps = stored_rules (store s)" using loadPolicies_spec [OF assms(1)] by blast
  have step: "in_step (installPolicySet ps s)"
    using assms ps by (intro installed_in_step) simp_all
  have init: "rbac_Init True s = mutate (installPolicySet ps s) root_batch"
    by (simp add: rbac_Init_def ps(1) AssignSystemRole_def root_batch_def) (simp add: rbac_names)
  obtain qs where "policySet_good qs" "fst (mutate (installPolicySet ps s) root_batch) = None"
    "in_step (snd (mutate (installPolicySet ps s) root_batch))"
    "world (snd (mutate (installPolicySet ps s) root_batch)) = installed (snd (replay_all memory.replay qs root_batch))"
    using mutate_in_step [OF step] root_batch_ok by metis
  with init reload_good [OF assms] root_batch_root show ?thesis
    by (simp add: RBAC_HasSystemRole_def HasSystemRole_def hasRoleLink_branches)
qed

theorem reload_and_init_heal_witness:
  "RBAC_HasSystemRole (snd (rbac_Init True fresh_process)) ''root'' ''system_root''"
proof -
  have "db_good (store fresh_process)" "appliedSequence fresh_process \<le> policySequence fresh_process"
    by (simp_all add: fresh_process_def db_good_def)
  from reload_and_init_heal [OF this] show ?thesis by (simp add: rbac_names)
qed

end
