(* ===== verification/Rbac_Protocol.thy ===== *)
theory Rbac_Protocol
  imports Rbac_Mutation
begin

text \<open>
  Many writers at once. Every transaction commits its rows and takes its number in one step; the
  memory halves run later, in whatever order the scheduler picks, between reloads. Which of its coming
  statements the database will fail may change at any time: that is a step of its own. The step relation is over the process of \<open>Rbac_Mutation\<close> and
  the list of memory halves still waiting.

  That numbering and commit are one step is what row locks give batches whose rules overlap
  (\<^verbatim>\<open>policySequence\<close> in \<^verbatim>\<open>src/authz/rbac/mutation.go\<close>), the only batches whose order matters.

  The property: once nothing waits and the divergence flag is down, memory holds exactly the stored
  rules and decisions are derived from them. The invariant says which rules may still differ: those
  whose last writer is still waiting.
\<close>

section \<open>What a batch does to one rule\<close>

definition touches :: "policyMutation \<Rightarrow> string \<Rightarrow> rule \<Rightarrow> bool" where
  "touches m pt r \<longleftrightarrow>
     mut_ptype m = pt \<and>
     (if mut_op m = policyRemoveFiltered then ruleMatchesFilter r (mut_fieldIndex m) (mut_fieldValues m)
      else r \<in> set (mut_rules m))"

definition effect :: "policyMutation \<Rightarrow> string \<Rightarrow> rule \<Rightarrow> bool \<Rightarrow> bool" where
  "effect m pt r held = (if touches m pt r then mut_op m = policyAdd else held)"

definition batch_touches :: "policyMutation list \<Rightarrow> string \<Rightarrow> rule \<Rightarrow> bool" where
  "batch_touches ms pt r \<longleftrightarrow> (\<exists>m\<in>set ms. touches m pt r)"

fun batch_effect :: "policyMutation list \<Rightarrow> string \<Rightarrow> rule \<Rightarrow> bool \<Rightarrow> bool" where
  "batch_effect [] pt r held = held"
| "batch_effect (m # ms) pt r held = batch_effect ms pt r (effect m pt r held)"

lemma batch_effect_untouched: "\<not> batch_touches ms pt r \<Longrightarrow> batch_effect ms pt r held = held"
  by (induction ms arbitrary: held) (auto simp: batch_touches_def effect_def)

lemma batch_effect_touched: "batch_touches ms pt r \<Longrightarrow> batch_effect ms pt r held = batch_effect ms pt r held'"
proof (induction ms arbitrary: held held')
  case (Cons m ms)
  show ?case
  proof (cases "touches m pt r")
    case True
    then show ?thesis by (simp add: effect_def)
  next
    case False
    with Cons.prems have "batch_touches ms pt r" by (simp add: batch_touches_def)
    from Cons.IH [OF this] show ?thesis by (simp only: batch_effect.simps)
  qed
qed (simp add: batch_touches_def)

context rule_container
begin

lemma replay_effect:
  assumes "good s" "mutation_ok m"
  shows "r \<in> set (contents (snd (replay s m)) pt) \<longleftrightarrow> effect m pt r (r \<in> set (contents s pt))"
proof (cases "mut_op m")
  case policyAdd
  with assms set_new_rules [of "contents s pt" "mut_rules m"] show ?thesis
    by (auto simp: replay_def mutation_ok_def add_contents effect_def touches_def)
qed (use assms in \<open>auto simp: replay_def mutation_ok_def remove_contents filtered_contents effect_def touches_def\<close>)

lemma replay_all_good: "good s \<Longrightarrow> \<forall>m\<in>set ms. mutation_ok m \<Longrightarrow> good (snd (replay_all replay s ms))"
  by (induction ms arbitrary: s) (simp_all add: replay_good Let_def)

lemma replay_all_effect:
  assumes "good s" "\<forall>m\<in>set ms. mutation_ok m"
  shows "r \<in> set (contents (snd (replay_all replay s ms)) pt) \<longleftrightarrow> batch_effect ms pt r (r \<in> set (contents s pt))"
  using assms by (induction ms arbitrary: s) (simp_all add: replay_good Let_def replay_effect)

end

section \<open>The stored half under faults\<close>

definition erase :: "policy_db \<Rightarrow> policy_db" where
  "erase db = db\<lparr>db_faults := []\<rparr>"

definition db_exact :: "policy_db \<Rightarrow> bool" where
  "db_exact db \<longleftrightarrow> db_good (erase db)"

lemma erase_sel [simp]:
  "db_rows (erase db) = db_rows db" "db_coll (erase db) = db_coll db" "db_next (erase db) = db_next db"
  "db_faults (erase db) = []" "stored_rules (erase db) = stored_rules db" "erase (erase db) = erase db"
  by (simp_all add: erase_def stored_rules_def fun_eq_iff)

lemma statement_fault_erase: "erase (snd (statement_fault db)) = erase db"
  by (simp add: statement_fault_def erase_def split: list.split)

lemma statement_fault_erased [simp]: "statement_fault (erase db) = (None, erase db)"
  by (simp add: statement_fault_def)

lemma erase_update: "erase (db\<lparr>db_rows := rs, db_next := n\<rparr>) = (erase db)\<lparr>db_rows := rs, db_next := n\<rparr>"
  by (cases db) (simp add: erase_def)

lemma insert_rows_erase: "erase (insert_rows db rs) = insert_rows (erase db) rs"
  by (induction db rs rule: insert_rows.induct) (simp_all add: erase_update)

lemma delete_rows_erase:
  "fst (delete_rows (erase db) P) = fst (delete_rows db P)"
  "snd (delete_rows (erase db) P) = erase (snd (delete_rows db P))"
  by (simp_all add: delete_rows_def erase_def)

lemma statement_faultD:
  "statement_fault db = (f, db') \<Longrightarrow> erase db' = erase db \<and> db_coll db' = db_coll db"
  by (auto simp: statement_fault_def erase_def split: list.splits)

lemma addPolicies_erase:
  "fst (addPolicies db pt rs) = None \<Longrightarrow> addPolicies (erase db) pt rs = (None, erase (snd (addPolicies db pt rs)))"
  using statement_faultD [of db] by (auto simp: addPolicies_def insert_rows_erase split: prod.splits option.splits)

lemma remove_each_erase:
  "fst (remove_each db pt rs n) = Inr c \<Longrightarrow>
     remove_each (erase db) pt rs n = (Inr c, erase (snd (remove_each db pt rs n)))"
proof (induction rs arbitrary: db n)
  case (Cons r rs)
  obtain f db' where f: "statement_fault db = (f, db')" by fastforce
  with Cons.prems have "f = None" by (cases f) auto
  moreover have "erase db = erase db'" "db_coll db' = db_coll db" using statement_faultD [OF f] by auto
  ultimately show ?case
    using Cons f delete_rows_erase [of db'] by (simp add: Let_def)
qed simp

lemma removeFiltered_erase:
  assumes "fst (removeFilteredPolicyCount db pt i vs) = Inr c"
  shows "removeFilteredPolicyCount (erase db) pt i vs = (Inr c, erase (snd (removeFilteredPolicyCount db pt i vs)))"
proof -
  obtain f db' where f: "statement_fault db = (f, db')" by fastforce
  with assms have "f = None" "\<not> i + length vs > ruleColumnCount"
    by (auto simp: removeFilteredPolicyCount_def split: if_splits option.splits)
  moreover have "erase db = erase db'" "db_coll db' = db_coll db" using statement_faultD [OF f] by auto
  ultimately show ?thesis
    using assms f delete_rows_erase [of db'] by (simp add: removeFilteredPolicyCount_def Let_def)
qed

lemma store_one_erase:
  "fst (store_one db m) = Inr c \<Longrightarrow> store_one (erase db) m = (Inr c, erase (snd (store_one db m)))"
proof (cases "mut_op m")
  case policyAdd
  assume "fst (store_one db m) = Inr c"
  with policyAdd have "fst (addPolicies db (mut_ptype m) (mut_rules m)) = None" "c = None"
    by (auto simp: store_one_def Let_def split: option.splits)
  with policyAdd addPolicies_erase [of db "mut_ptype m" "mut_rules m"] show ?thesis
    by (simp add: store_one_def Let_def)
next
  case policyRemove
  assume "fst (store_one db m) = Inr c"
  with policyRemove obtain n where "fst (remove_each db (mut_ptype m) (mut_rules m) 0) = Inr n" "c = Some n"
    by (cases "fst (remove_each db (mut_ptype m) (mut_rules m) 0)") (auto simp: store_one_def Let_def removePoliciesCount_def)
  with policyRemove remove_each_erase [of db "mut_ptype m" "mut_rules m" 0 n] show ?thesis
    by (simp add: store_one_def Let_def removePoliciesCount_def)
next
  case policyRemoveFiltered
  let ?r = "removeFilteredPolicyCount db (mut_ptype m) (mut_fieldIndex m) (mut_fieldValues m)"
  assume "fst (store_one db m) = Inr c"
  with policyRemoveFiltered obtain n where "fst ?r = Inr n" "c = Some n"
    by (cases "fst ?r") (auto simp: store_one_def Let_def)
  with policyRemoveFiltered removeFiltered_erase [of db "mut_ptype m" "mut_fieldIndex m" "mut_fieldValues m" n]
  show ?thesis by (simp add: store_one_def Let_def)
qed

lemma applyToStore_erase:
  "applyToStore db ms = (Inr cs, db') \<Longrightarrow> applyToStore (erase db) ms = (Inr cs, erase db')"
proof (induction ms arbitrary: db cs)
  case (Cons m ms)
  from Cons.prems obtain c db1 cs' where 1: "store_one db m = (Inr c, db1)"
    and 2: "applyToStore db1 ms = (Inr cs', db')" "cs = c # cs'"
    by (auto split: prod.splits sum.splits)
  from 1 store_one_erase [of db m c] have "store_one (erase db) m = (Inr c, erase db1)" by simp
  with Cons.IH [OF 2(1)] 2(2) show ?case by simp
qed simp

text \<open>A stored half that succeeds does to the rules what the batch says.\<close>

lemma applyToStore_effect:
  assumes "db_exact db" "\<forall>m\<in>set ms. mutation_ok m" "applyToStore db ms = (Inr cs, db')"
  shows "db_exact db' \<and> length cs = length ms \<and>
    (\<forall>pt r. r \<in> set (stored_rules db' pt) \<longleftrightarrow> batch_effect ms pt r (r \<in> set (stored_rules db pt)))"
proof -
  have len: "length (fst (replay_all f x ms)) = length ms" for f :: "policy_db \<Rightarrow> _" and x
    by (induction ms arbitrary: x) (simp_all add: Let_def)
  have good: "db_good (erase db)" using assms(1) by (simp add: db_exact_def)
  have "cs = fst (replay_all table.replay (erase db) ms)" "erase db' = snd (replay_all table.replay (erase db) ms)"
    using applyToStore_erase [OF assms(3)] applyToStore_replay [OF good assms(2)] by auto
  then show ?thesis
    using table.replay_all_good [OF good assms(2)] table.replay_all_effect [OF good assms(2)] len
    by (auto simp: db_exact_def) (metis erase_sel(5))+
qed

section \<open>The memory half\<close>

lemma apply_one_good: "policySet_good ps \<Longrightarrow> mutation_ok m \<Longrightarrow> policySet_good (snd (apply_one ps m))"
  using memory.replay_good [of ps m] by (simp add: memory_replay_apply)

lemma apply_each_good:
  "policySet_good ps \<Longrightarrow> \<forall>m\<in>set ms. mutation_ok m \<Longrightarrow> policySet_good (snd (apply_each ps ms cs))"
  by (induction ps ms cs rule: apply_each.induct) (auto simp: Let_def apply_one_good split: option.splits)

lemma apply_each_True:
  "apply_each ps ms cs = (True, ps') \<Longrightarrow> length cs = length ms \<Longrightarrow> ps' = snd (replay_all memory.replay ps ms)"
  by (induction ps ms cs rule: apply_each.induct)
    (auto simp: Let_def memory_replay_apply split: option.splits if_splits)

section \<open>Steps\<close>

type_synonym system = "rbac_process \<times> pending list"

inductive sys_step :: "system \<Rightarrow> system \<Rightarrow> bool" where
  commit: "\<forall>m\<in>set ms. mutation_ok m \<Longrightarrow> validate_all ms = None \<Longrightarrow> mutate_stored p ms = (Inr b, p') \<Longrightarrow>
    sys_step (p, w) (p', w @ [b])"
| abort: "mutate_stored p ms = (Inl e, p') \<Longrightarrow> sys_step (p, w) (p', w)"
| apply_memory: "applyToModel p n ms cs = (e, p') \<Longrightarrow>
    sys_step (p, w1 @ (n, ms, cs) # w2) (p', w1 @ w2)"
| periodic: "sys_step (p, w) (periodic_tick p, w)"
| retry: "sys_step (p, w) (retry_tick p, w)"
| fault: "sys_step (p, w) (p\<lparr>store := (store p)\<lparr>db_faults := fs\<rparr>\<rparr>, w)"

section \<open>The invariant\<close>

definition last_writer :: "(nat \<Rightarrow> policyMutation list) \<Rightarrow> nat \<Rightarrow> string \<Rightarrow> rule \<Rightarrow> bool" where
  "last_writer hist n pt r \<longleftrightarrow> batch_touches (hist n) pt r \<and> (\<forall>k>n. \<not> batch_touches (hist k) pt r)"

text \<open>The stored rules are what the history of committed batches made of them.\<close>

definition hist_ok :: "(nat \<Rightarrow> policyMutation list) \<Rightarrow> system \<Rightarrow> bool" where
  "hist_ok hist sys \<longleftrightarrow>
     (\<forall>n>policySequence (fst sys). hist n = []) \<and>
     (\<forall>(n, ms, cs)\<in>set (snd sys). n \<le> policySequence (fst sys) \<and> hist n = ms \<and>
        length cs = length ms \<and> (\<forall>m\<in>set ms. mutation_ok m)) \<and>
     distinct (map fst (snd sys)) \<and>
     (\<forall>n. hist n \<noteq> [] \<longrightarrow> n \<in> fst ` set (snd sys) \<or> n \<le> appliedSequence (fst sys)) \<and>
     (\<forall>n pt r. last_writer hist n pt r \<longrightarrow>
        (r \<in> set (stored_rules (store (fst sys)) pt)) = batch_effect (hist n) pt r False)"

lemma hist_okI:
  assumes "\<forall>n>policySequence p. hist n = []"
    "\<forall>(n, ms, cs)\<in>set w. n \<le> policySequence p \<and> hist n = ms \<and> length cs = length ms \<and> (\<forall>m\<in>set ms. mutation_ok m)"
    "distinct (map fst w)"
    "\<forall>n. hist n \<noteq> [] \<longrightarrow> n \<in> fst ` set w \<or> n \<le> appliedSequence p"
    "\<forall>n pt r. last_writer hist n pt r \<longrightarrow> (r \<in> set (stored_rules (store p) pt)) = batch_effect (hist n) pt r False"
  shows "hist_ok hist (p, w)"
  unfolding hist_ok_def fst_conv snd_conv by (intro conjI assms)

lemma hist_ok_waiting:
  "hist_ok hist (p, w) \<Longrightarrow> (n, ms, cs) \<in> set w \<Longrightarrow>
     n \<le> policySequence p \<and> hist n = ms \<and> length cs = length ms \<and> (\<forall>m\<in>set ms. mutation_ok m)"
  unfolding hist_ok_def by fastforce

definition settled :: "(nat \<Rightarrow> policyMutation list) \<Rightarrow> pending list \<Rightarrow> policySet \<Rightarrow> policy_db \<Rightarrow> bool" where
  "settled hist w ps db \<longleftrightarrow>
     (\<forall>pt r. (r \<in> set (rules_of ps pt)) = (r \<in> set (stored_rules db pt)) \<or>
        (\<exists>n\<in>fst ` set w. last_writer hist n pt r))"

definition sys_inv :: "system \<Rightarrow> bool" where
  "sys_inv sys \<longleftrightarrow>
     db_exact (store (fst sys)) \<and> appliedSequence (fst sys) \<le> policySequence (fst sys) \<and>
     (\<exists>ps hist. policyRules (world (fst sys)) = Some ps \<and> policySet_good ps \<and> hist_ok hist sys \<and>
        (\<not> policiesDiverged (fst sys) \<longrightarrow>
           world (fst sys) = installed ps \<and> settled hist (snd sys) ps (store (fst sys))))"

lemma sys_invI:
  assumes "db_exact (store p)" "appliedSequence p \<le> policySequence p" "policyRules (world p) = Some ps"
    "policySet_good ps" "hist_ok hist (p, w)"
    "\<not> policiesDiverged p \<Longrightarrow> world p = installed ps \<and> settled hist w ps (store p)"
  shows "sys_inv (p, w)"
  using assms by (auto simp: sys_inv_def)

lemma sys_invE:
  assumes "sys_inv (p, w)"
  obtains ps hist where "db_exact (store p)" "appliedSequence p \<le> policySequence p"
    "policyRules (world p) = Some ps" "policySet_good ps" "hist_ok hist (p, w)"
    "\<not> policiesDiverged p \<Longrightarrow> world p = installed ps \<and> settled hist w ps (store p)"
  using assms by (auto simp: sys_inv_def)

text \<open>A reload leaves the counters and the stored rules alone.\<close>

lemma loadPolicies_db: "loadPolicies db = (r, db') \<Longrightarrow> erase db' = erase db"
  using statement_faultD [of db] by (auto simp: loadPolicies_def split: prod.splits option.splits)

lemma loadPolicies_exact:
  assumes "db_exact db" "loadPolicies db = (Inr ps, db')"
  shows "policySet_good ps \<and> rules_of ps = stored_rules db"
proof -
  obtain f d where f: "statement_fault db = (f, d)" by fastforce
  with assms have "f = None" "load_rows newPolicySet (db_rows d) = Inr ps"
    by (auto simp: loadPolicies_def split: option.splits)
  moreover have "db_rows d = db_rows db" using statement_faultD [OF f] by (metis erase_sel(1))
  ultimately have "loadPolicies (erase db) = (Inr ps, erase db)" by (simp add: loadPolicies_def)
  then show ?thesis using loadPolicies_spec [of "erase db"] assms(1) by (auto simp: db_exact_def)
qed

lemma erase_eq:
  "erase a = erase b \<Longrightarrow> db_exact a = db_exact b \<and> stored_rules a = stored_rules b \<and> db_rows a = db_rows b"
  by (metis db_exact_def erase_sel(1,5))

lemma hist_ok_cong:
  assumes "hist_ok hist (p, w)" "policySequence p' = policySequence p" "appliedSequence p \<le> appliedSequence p'"
    "stored_rules (store p') = stored_rules (store p)"
  shows "hist_ok hist (p', w)"
  using assms(1) unfolding hist_ok_def fst_conv snd_conv assms(2,4)
  by (metis (no_types, lifting) assms(3) order_trans)

lemma reload_inv:
  assumes "db_exact (store p)" "appliedSequence p \<le> policySequence p" "policyRules (world p) = Some ps"
    "policySet_good ps" "hist_ok hist (p, w)" "fst (reload p) \<noteq> None \<Longrightarrow> policiesDiverged p"
  shows "sys_inv (snd (reload p), w)"
proof -
  obtain r db where l: "loadPolicies (store p) = (r, db)" by fastforce
  note db = erase_eq [OF loadPolicies_db [OF l]]
  show ?thesis
  proof (cases r)
    case (Inl e)
    then have eq: "reload p = (Some (ErrReload e), p\<lparr>store := db\<rparr>)" using l by (simp add: reload_def)
    show ?thesis
      unfolding eq snd_conv using assms(1-5) assms(6) db eq
      by (intro sys_invI [where ps = ps and hist = hist] hist_ok_cong [OF assms(5)]) simp_all
  next
    case (Inr qs)
    let ?p = "p\<lparr>store := db, world := installed qs, policiesDiverged := False\<rparr>"
    have eq: "reload p = (None, ?p)"
      using l Inr by (simp add: reload_def publishPolicyDivergence_def installed_rebuild)
    have q: "policySet_good qs" "rules_of qs = stored_rules (store p)"
      using loadPolicies_exact [OF assms(1)] l Inr by auto
    show ?thesis
      unfolding eq snd_conv using assms(1-5) db q
      by (intro sys_invI [where ps = qs and hist = hist] hist_ok_cong [OF assms(5)])
        (simp_all add: settled_def)
  qed
qed

lemma sys_inv_retry [simp]: "sys_inv (p\<lparr>reloadRetryRunning := b\<rparr>, w) = sys_inv (p, w)"
  by (simp add: sys_inv_def hist_ok_def)

lemma recover_inv:
  assumes "db_exact (store p)" "appliedSequence p \<le> policySequence p" "policyRules (world p) = Some ps"
    "policySet_good ps" "hist_ok hist (p, w)"
  shows "sys_inv (snd (recoverPolicies p None), w)"
proof (cases "fst (reload p)")
  case None
  with reload_inv [OF assms] show ?thesis
    by (auto simp: recoverPolicies_def split: prod.splits)
next
  case (Some e)
  then obtain r db where l: "loadPolicies (store p) = (Inl r, db)" and eq: "reload p = (Some e, p\<lparr>store := db\<rparr>)"
    by (auto simp: reload_def split: prod.splits sum.splits)
  note db = erase_eq [OF loadPolicies_db [OF l]]
  have "sys_inv (p\<lparr>store := db, policiesDiverged := True\<rparr>, w)"
    using assms db by (intro sys_invI [where ps = ps and hist = hist] hist_ok_cong [OF assms(5)]) simp_all
  with eq show ?thesis
    by (simp add: recoverPolicies_def Let_def scheduleReloadRetry_def publishPolicyDivergence_def)
qed

lemma hist_ok_pop:
  assumes "hist_ok hist (p, w1 @ (n, ms, cs) # w2)" "n \<le> appliedSequence p'"
    "policySequence p' = policySequence p" "appliedSequence p \<le> appliedSequence p'" "store p' = store p"
  shows "hist_ok hist (p', w1 @ w2)"
  using assms unfolding hist_ok_def by auto

lemma last_writer_exists:
  assumes "batch_touches (hist n) pt r" "\<forall>k>N. hist k = []"
  obtains k where "n \<le> k" "last_writer hist k pt r"
proof -
  let ?K = "{k. batch_touches (hist k) pt r}"
  have "k \<le> N" if "k \<in> ?K" for k
  proof (rule ccontr)
    assume "\<not> k \<le> N"
    then show False using that assms(2) by (simp add: batch_touches_def)
  qed
  then have "?K \<subseteq> {..N}" by auto
  then have fin: "finite ?K" by (rule finite_subset) simp
  have ne: "n \<in> ?K" using assms(1) by simp
  have 1: "batch_touches (hist (Max ?K)) pt r" using Max_in [OF fin] ne by blast
  have 2: "n \<le> Max ?K" using fin ne by simp
  have 3: "\<forall>k>Max ?K. \<not> batch_touches (hist k) pt r"
  proof (intro allI impI notI)
    fix k assume "Max ?K < k" "batch_touches (hist k) pt r"
    moreover from this(2) have "k \<le> Max ?K" using fin by simp
    ultimately show False by simp
  qed
  show thesis
    by (rule that [OF 2]) (unfold last_writer_def, rule conjI [OF 1 3])
qed

text \<open>Replaying a batch that was not overtaken settles every rule whose last writer it is.\<close>

lemma replay_settled:
  assumes h: "hist_ok hist (p, w1 @ (n, ms, cs) # w2)" and n: "appliedSequence p \<le> n"
    and good: "policySet_good ps"
    and s: "settled hist (w1 @ (n, ms, cs) # w2) ps (store p)"
  shows "settled hist (w1 @ w2) (snd (replay_all memory.replay ps ms)) (store p)"
  unfolding settled_def
proof (intro allI)
  fix pt r
  let ?w = "w1 @ (n, ms, cs) # w2"
  have hn: "hist n = ms" and ok: "\<forall>m\<in>set ms. mutation_ok m" and distinct: "distinct (map fst ?w)"
    using h by (auto simp: hist_ok_def)
  have M: "r \<in> set (rules_of (snd (replay_all memory.replay ps ms)) pt) \<longleftrightarrow>
      batch_effect ms pt r (r \<in> set (rules_of ps pt))"
    by (rule memory.replay_all_effect [OF good ok])
  have keep: "k \<in> fst ` set (w1 @ w2)" if "k \<in> fst ` set ?w" "k \<noteq> n" for k
    using that by auto
  show "(r \<in> set (rules_of (snd (replay_all memory.replay ps ms)) pt)) = (r \<in> set (stored_rules (store p) pt)) \<or>
      (\<exists>k\<in>fst ` set (w1 @ w2). last_writer hist k pt r)"
  proof (cases "batch_touches ms pt r")
    case True
    with hn obtain k where k: "n \<le> k" "last_writer hist k pt r"
      using last_writer_exists [of hist n pt r "policySequence p"] h by (auto simp: hist_ok_def)
    show ?thesis
    proof (cases "k = n")
      case True
      with k(2) h hn have "(r \<in> set (stored_rules (store p) pt)) = batch_effect ms pt r False"
        by (auto simp: hist_ok_def)
      with M show ?thesis
        using batch_effect_touched [OF \<open>batch_touches ms pt r\<close>, of "r \<in> set (rules_of ps pt)" False] by simp
    next
      case False
      with k(1) n have "\<not> k \<le> appliedSequence p" by simp
      moreover have "hist k \<noteq> []" using k(2) by (auto simp: last_writer_def batch_touches_def)
      ultimately have "k \<in> fst ` set ?w" using h by (auto simp: hist_ok_def)
      with keep False k(2) show ?thesis by blast
    qed
  next
    case False
    with M have "r \<in> set (rules_of (snd (replay_all memory.replay ps ms)) pt) \<longleftrightarrow> r \<in> set (rules_of ps pt)"
      by (simp add: batch_effect_untouched)
    moreover have "k \<noteq> n" if "last_writer hist k pt r" for k
      using that False hn by (auto simp: last_writer_def)
    ultimately show ?thesis using s keep unfolding settled_def by metis
  qed
qed

lemma apply_inv:
  assumes inv: "sys_inv (p, w1 @ (n, ms, cs) # w2)" and eq: "applyToModel p n ms cs = (e, p')"
  shows "sys_inv (p', w1 @ w2)"
proof -
  from inv obtain ps hist where i: "db_exact (store p)" "appliedSequence p \<le> policySequence p"
    "policyRules (world p) = Some ps" "policySet_good ps" "hist_ok hist (p, w1 @ (n, ms, cs) # w2)"
    "\<not> policiesDiverged p \<Longrightarrow> world p = installed ps \<and> settled hist (w1 @ (n, ms, cs) # w2) ps (store p)"
    by (rule sys_invE) blast
  from i(5) have b: "n \<le> policySequence p" "length cs = length ms" "\<forall>m\<in>set ms. mutation_ok m"
    by (auto simp: hist_ok_def)
  let ?s1 = "p\<lparr>appliedSequence := max (appliedSequence p) n\<rparr>"
  have pop: "hist_ok hist (p'', w1 @ w2)" if "policySequence p'' = policySequence p"
    "appliedSequence p'' = max (appliedSequence p) n" "store p'' = store p" for p''
    using that by (intro hist_ok_pop [OF i(5)]) simp_all
  show ?thesis
  proof (cases "fst (applyMutations p n ms cs)")
    case False
    then obtain qs where qs: "policySet_good qs" "policyRules (world (snd (applyMutations p n ms cs))) = Some qs"
      using i(3,4) apply_each_good [OF i(4) b(3)]
      by (auto simp: applyMutations_def Let_def split: if_splits)
    have f: "store (snd (applyMutations p n ms cs)) = store p"
      "policySequence (snd (applyMutations p n ms cs)) = policySequence p"
      "appliedSequence (snd (applyMutations p n ms cs)) = max (appliedSequence p) n"
      using i(3) by (auto simp: applyMutations_def Let_def)
    have "p' = snd (recoverPolicies (snd (applyMutations p n ms cs)) None)"
      using False eq by (auto simp: applyToModel_def split: prod.splits bool.splits)
    then show ?thesis
      using recover_inv [of "snd (applyMutations p n ms cs)" qs hist "w1 @ w2"] f qs i(1,2) b(1) pop by simp
  next
    case True
    then have n: "appliedSequence p \<le> n" and ap: "apply_each ps ms cs = (True, snd (apply_each ps ms cs))"
      using i(3) by (auto simp: applyMutations_def Let_def prod_eq_iff split: if_splits)
    have ps': "snd (apply_each ps ms cs) = snd (replay_all memory.replay ps ms)"
      by (rule apply_each_True [OF ap b(2)])
    have "p' = ?s1\<lparr>world := installed (snd (replay_all memory.replay ps ms))\<rparr>"
      using eq True n i(3) ap ps' by (auto simp: applyToModel_def applyMutations_def Let_def installed_rebuild
          split: prod.splits if_splits)
    then show ?thesis
      using i b n pop replay_settled [OF i(5) n i(4)] memory.replay_all_good [OF i(4) b(3)]
      by (intro sys_invI [where ps = "snd (replay_all memory.replay ps ms)" and hist = hist]) simp_all
  qed
qed

lemma statement_fault_db: "statement_fault db = (f, db') \<Longrightarrow> erase db' = erase db"
  using statement_faultD by blast

lemma remove_each_coll:
  "db_coll (snd (remove_each db pt rs n)) = db_coll db"
  by (induction rs arbitrary: db n)
    (auto simp: Let_def delete_rows_def dest!: statement_faultD split: prod.splits option.splits)

lemma insert_rows_coll: "db_coll (insert_rows db rs) = db_coll db"
  by (induction db rs rule: insert_rows.induct) simp_all

lemma store_one_coll: "db_coll (snd (store_one db m)) = db_coll db"
  using statement_faultD [of db] remove_each_coll [of db]
  by (auto simp: store_one_def addPolicies_def removePoliciesCount_def removeFilteredPolicyCount_def
      delete_rows_def Let_def insert_rows_coll split: policyOp.splits prod.splits option.splits)

lemma applyToStore_coll: "db_coll (snd (applyToStore db ms)) = db_coll db"
proof (induction ms arbitrary: db)
  case (Cons m ms)
  show ?case
    using store_one_coll [of db m] Cons.IH [of "snd (store_one db m)"]
    by (auto split: prod.splits sum.splits)
qed simp

lemma rollback_erase:
  assumes "db_coll db' = db_coll db"
  shows "stored_rules (rollback db db') = stored_rules db" "db_exact (rollback db db') = db_exact db"
  using assms by (simp add: rollback_def stored_rules_def fun_eq_iff)
    (use assms in \<open>simp add: rollback_def db_exact_def db_good_def\<close>)

lemma abort_inv:
  assumes inv: "sys_inv (p, w)" and eq: "mutate_stored p ms = (Inl e, p')"
  shows "sys_inv (p', w)"
proof -
  from inv obtain ps hist where i: "db_exact (store p)" "appliedSequence p \<le> policySequence p"
    "policyRules (world p) = Some ps" "policySet_good ps" "hist_ok hist (p, w)"
    "\<not> policiesDiverged p \<Longrightarrow> world p = installed ps \<and> settled hist w ps (store p)"
    by (rule sys_invE) blast
  have "db_coll (snd (statement_fault (snd (applyToStore (store p) ms)))) = db_coll (store p)"
    using statement_faultD [of "snd (applyToStore (store p) ms)"] applyToStore_coll [of "store p" ms]
    by (metis prod.collapse)
  then obtain db' where p': "store p' = rollback (store p) db'" "world p' = world p"
      "appliedSequence p' = appliedSequence p" "policiesDiverged p' = policiesDiverged p"
    and coll: "db_coll db' = db_coll (store p)" and n: "policySequence p \<le> policySequence p'"
    using eq applyToStore_coll [of "store p" ms]
    by (auto simp: mutate_stored_def Let_def split: prod.splits sum.splits option.splits)
  have "hist_ok hist (p', w)"
    using i(5) n rollback_erase [OF coll] unfolding hist_ok_def fst_conv snd_conv p' by fastforce
  with i n rollback_erase [OF coll] show ?thesis
    by (intro sys_invI [where ps = ps and hist = hist]) (simp_all add: p' settled_def)
qed

lemma commit_inv:
  assumes inv: "sys_inv (p, w)" and ok: "\<forall>m\<in>set ms. mutation_ok m"
    and eq: "mutate_stored p ms = (Inr b, p')"
  shows "sys_inv (p', w @ [b])"
proof -
  from inv obtain ps hist where i: "db_exact (store p)" "appliedSequence p \<le> policySequence p"
    "policyRules (world p) = Some ps" "policySet_good ps" "hist_ok hist (p, w)"
    "\<not> policiesDiverged p \<Longrightarrow> world p = installed ps \<and> settled hist w ps (store p)"
    by (rule sys_invE) blast
  let ?n = "Suc (policySequence p)"
  from eq obtain cs db db' where a: "applyToStore (store p) ms = (Inr cs, db)" "statement_fault db = (None, db')"
    and b: "b = (?n, ms, cs)" and p': "p' = p\<lparr>policySequence := ?n, store := db'\<rparr>"
    by (auto simp: mutate_stored_def Let_def split: prod.splits sum.splits option.splits)
  have st: "db_exact db'" "length cs = length ms"
    "\<And>pt r. r \<in> set (stored_rules db' pt) \<longleftrightarrow> batch_effect ms pt r (r \<in> set (stored_rules (store p) pt))"
    using applyToStore_effect [OF i(1) ok a(1)] erase_eq [OF statement_fault_db [OF a(2)]] by auto
  let ?hist = "hist(?n := ms)"
  have lw: "last_writer ?hist k pt r \<longleftrightarrow> (if batch_touches ms pt r then k = ?n else last_writer hist k pt r)" for k pt r
  proof -
    have late: "\<not> batch_touches (hist j) pt r" if "j > policySequence p" for j
      using that i(5) by (simp add: hist_ok_def batch_touches_def)
    show ?thesis
    proof (cases "batch_touches ms pt r")
      case True
      consider "k < ?n" | "k = ?n" | "k > ?n" by linarith
      then show ?thesis
        using True late by cases (auto simp: last_writer_def)
    next
      case False
      then have "batch_touches (?hist j) pt r = batch_touches (hist j) pt r" for j
        using late [of ?n] by simp
      with False show ?thesis by (simp only: last_writer_def if_False)
    qed
  qed
  have small: "k \<le> policySequence p" if "k \<in> fst ` set w" for k
    using that i(5) by (auto simp: hist_ok_def)
  have lw_stored: "(r \<in> set (stored_rules db' pt)) = batch_effect (?hist k) pt r False"
    if "last_writer ?hist k pt r" for k pt r
  proof (cases "batch_touches ms pt r")
    case True
    with that lw have "k = ?n" by simp
    then show ?thesis using st(3) batch_effect_touched [OF True] by simp
  next
    case False
    with that lw have k: "last_writer hist k pt r" by simp
    then have "k \<noteq> ?n" using i(5) by (auto simp: hist_ok_def last_writer_def batch_touches_def)
    with k i(5) st(3) False show ?thesis by (auto simp: hist_ok_def batch_effect_untouched)
  qed
  have h: "hist_ok ?hist (p', w @ [b])"
  proof (rule hist_okI)
    show "\<forall>n>policySequence p'. ?hist n = []" using i(5) by (simp add: hist_ok_def p')
    show "\<forall>(k, ks, ds)\<in>set (w @ [b]). k \<le> policySequence p' \<and> ?hist k = ks \<and> length ds = length ks \<and>
        (\<forall>m\<in>set ks. mutation_ok m)"
    proof clarify
      fix k ks ds assume "(k, ks, ds) \<in> set (w @ [b])"
      then consider "(k, ks, ds) \<in> set w" | "(k, ks, ds) = (?n, ms, cs)" by (auto simp: b)
      then show "k \<le> policySequence p' \<and> ?hist k = ks \<and> length ds = length ks \<and> (\<forall>m\<in>set ks. mutation_ok m)"
      proof cases
        case 1
        from hist_ok_waiting [OF i(5) 1] show ?thesis by (auto simp: p')
      qed (use st(2) ok in \<open>simp add: p'\<close>)
    qed
    show "distinct (map fst (w @ [b]))" using i(5) small by (auto simp: hist_ok_def b)
    show "\<forall>k. ?hist k \<noteq> [] \<longrightarrow> k \<in> fst ` set (w @ [b]) \<or> k \<le> appliedSequence p'"
      using i(5) by (auto simp: hist_ok_def p' b)
    show "\<forall>k pt r. last_writer ?hist k pt r \<longrightarrow>
        (r \<in> set (stored_rules (store p') pt)) = batch_effect (?hist k) pt r False"
    proof (intro allI impI)
      fix k pt r assume "last_writer ?hist k pt r"
      moreover have "store p' = db'" by (simp add: p')
      ultimately show "(r \<in> set (stored_rules (store p') pt)) = batch_effect (?hist k) pt r False"
        using lw_stored by simp
    qed
  qed
  have "settled ?hist (w @ [b]) ps db'" if "settled hist w ps (store p)"
    using that st(3) unfolding settled_def b lw
    by (auto simp: batch_effect_untouched)
  with i h st(1) show ?thesis
    by (intro sys_invI [where ps = ps and hist = ?hist]) (simp_all add: p')
qed

lemma tick_inv:
  assumes "sys_inv (p, w)" shows "sys_inv (snd (reload p), w)"
proof (cases "fst (reload p)")
  case None
  with assms show ?thesis by (elim sys_invE) (auto intro: reload_inv)
next
  case (Some e)
  then obtain r db where l: "loadPolicies (store p) = (Inl r, db)" and eq: "reload p = (Some e, p\<lparr>store := db\<rparr>)"
    by (auto simp: reload_def split: prod.splits sum.splits)
  note db = erase_eq [OF loadPolicies_db [OF l]]
  from assms show ?thesis
    unfolding eq snd_conv
    by (elim sys_invE) (rule sys_invI, simp_all add: db, rule hist_ok_cong, simp_all add: db,
      auto simp: settled_def db)
qed

lemma fault_inv:
  assumes "sys_inv (p, w)" shows "sys_inv (p\<lparr>store := (store p)\<lparr>db_faults := fs\<rparr>\<rparr>, w)"
proof -
  have "erase ((store p)\<lparr>db_faults := fs\<rparr>) = erase (store p)" by (simp add: erase_def)
  note db = erase_eq [OF this]
  from assms show ?thesis
    by (elim sys_invE) (rule sys_invI, simp_all add: db, rule hist_ok_cong, simp_all add: db, auto simp: settled_def db)
qed

theorem sys_step_inv: "sys_step sys sys' \<Longrightarrow> sys_inv sys \<Longrightarrow> sys_inv sys'"
proof (induction rule: sys_step.induct)
  case (commit ms p b p' w)
  then show ?case using commit_inv by blast
next
  case (abort p ms e p' w)
  then show ?case using abort_inv by blast
next
  case (apply_memory p n ms cs e p' w1 w2)
  then show ?case using apply_inv by blast
next
  case (periodic p w)
  then show ?case using tick_inv by (auto simp: periodic_tick_def split: option.splits)
next
  case (retry p w)
  then show ?case using tick_inv [of p w]
    by (auto simp: retry_tick_def split: prod.splits option.splits)
next
  case (fault p w fs)
  then show ?case by (rule fault_inv)
qed

lemma reachable_inv: "sys_step\<^sup>*\<^sup>* sys sys' \<Longrightarrow> sys_inv sys \<Longrightarrow> sys_inv sys'"
  by (induction rule: rtranclp_induct) (auto intro: sys_step_inv)

lemma in_step_inv: "in_step p \<Longrightarrow> sys_inv (p, [])"
proof -
  assume "in_step p"
  then obtain ps where "db_good (store p)" "appliedSequence p \<le> policySequence p"
    "world p = installed ps" "policySet_good ps" "rules_of ps = stored_rules (store p)"
    by (auto simp: in_step_def)
  moreover from this have "erase (store p) = store p" by (simp add: db_good_def erase_def)
  ultimately show ?thesis
    by (intro sys_invI [where ps = ps and hist = "\<lambda>_. []"])
      (auto simp: db_exact_def hist_ok_def settled_def last_writer_def batch_touches_def)
qed

section \<open>Property\<close>


text \<open>
  A run through a divergence: two assignments commit, the memory half of the second runs first, the
  database fails the reload that the overtaken first one needs, and the retry loop brings memory back.
\<close>

definition demo_batch :: "string \<Rightarrow> policyMutation list" where
  "demo_batch user = [addRules tenantRoleGrouping [[user, ''editor'', ''acme'']]]"

definition demo_row :: "nat \<Rightarrow> string \<Rightarrow> policyRow" where
  "demo_row n user = (newPolicyRow tenantRoleGrouping [user, ''editor'', ''acme''])\<lparr>row_ID := n\<rparr>"

definition demo_committed :: rbac_process where
  "demo_committed = (installPolicySet newPolicySet fresh_process)\<lparr>policySequence := 2,
     store := \<lparr>db_rows = [demo_row 1 ''alice'', demo_row 2 ''bob''], db_next = 3, db_coll = (\<lambda>v. v), db_faults = []\<rparr>\<rparr>"

definition demo_diverged :: rbac_process where
  "demo_diverged =
     (let p = snd (applyToModel demo_committed 2 (demo_batch ''bob'') [None])
      in snd (applyToModel (p\<lparr>store := (store p)\<lparr>db_faults := [Some ''connection lost'']\<rparr>\<rparr>) 1 (demo_batch ''alice'') [None]))"

lemma demo_batch_ok: "user \<noteq> [] \<Longrightarrow> CHR 0x00 \<notin> set user \<Longrightarrow> (\<forall>m\<in>set (demo_batch user). mutation_ok m) \<and> validate_all (demo_batch user) = None"
  by (simp add: demo_batch_def mutation_ok_def mutation_defs rule_ok_kinds validate_all_None validate_None)

lemma demo_commits: "sys_step\<^sup>*\<^sup>* (installPolicySet newPolicySet fresh_process, []) (demo_committed, [(1, demo_batch ''alice'', [None]), (2, demo_batch ''bob'', [None])])"
proof -
  let ?p0 = "installPolicySet newPolicySet fresh_process"
  let ?p1 = "?p0\<lparr>policySequence := 1, store := \<lparr>db_rows = [demo_row 1 ''alice''], db_next = 2, db_coll = (\<lambda>v. v), db_faults = []\<rparr>\<rparr>"
  have 1: "mutate_stored ?p0 (demo_batch ''alice'') = (Inr (1, demo_batch ''alice'', [None]), ?p1)"
    by (simp add: demo_batch_def demo_row_def mutate_stored_def store_one_def mutation_defs addPolicies_def statement_fault_def
        fresh_process_def installPolicySet_def rebuildDerived_def)
  have "\<not> same_row (\<lambda>v. v) (demo_row 1 ''alice'') (newPolicyRow tenantRoleGrouping [''bob'', ''editor'', ''acme''])"
    by (simp add: same_row_def demo_row_def row_values_def newPolicyRow_def ruleColumnCount_def)
  then have 2: "mutate_stored ?p1 (demo_batch ''bob'') = (Inr (2, demo_batch ''bob'', [None]), demo_committed)"
    by (simp add: demo_batch_def demo_row_def demo_committed_def mutate_stored_def store_one_def mutation_defs addPolicies_def statement_fault_def
        fresh_process_def installPolicySet_def rebuildDerived_def)
  have "sys_step (?p0, []) (?p1, [] @ [(1, demo_batch ''alice'', [None])])"
    using demo_batch_ok [of "''alice''"] 1 by (intro sys_step.commit) simp_all
  moreover have "sys_step (?p1, [] @ [(1, demo_batch ''alice'', [None])]) (demo_committed, ([] @ [(1, demo_batch ''alice'', [None])]) @ [(2, demo_batch ''bob'', [None])])"
    using demo_batch_ok [of "''bob''"] 2 by (intro sys_step.commit) simp_all
  ultimately show ?thesis by simp
qed

lemma demo_diverges:
  "sys_step\<^sup>*\<^sup>* (installPolicySet newPolicySet fresh_process, []) (demo_diverged, [])"
  "policiesDiverged demo_diverged" "reloadRetryRunning demo_diverged" "db_faults (store demo_diverged) = []"
  "db_rows (store demo_diverged) = [demo_row 1 ''alice'', demo_row 2 ''bob'']"
proof -
  let ?b = "(1, demo_batch ''alice'', [None])"
  define p where "p = snd (applyToModel demo_committed 2 (demo_batch ''bob'') [None])"
  let ?q = "p\<lparr>store := (store p)\<lparr>db_faults := [Some ''connection lost'']\<rparr>\<rparr>"
  have d: "demo_diverged = snd (applyToModel ?q 1 (demo_batch ''alice'') [None])" by (simp add: demo_diverged_def p_def Let_def)
  have "sys_step (demo_committed, [?b] @ (2, demo_batch ''bob'', [None]) # []) (p, [?b] @ [])"
    by (rule sys_step.apply_memory [where e = "fst (applyToModel demo_committed 2 (demo_batch ''bob'') [None])"]) (simp add: p_def)
  moreover have "sys_step (p, [?b]) (?q, [?b])" by (rule sys_step.fault)
  moreover have "sys_step (?q, [] @ ?b # []) (demo_diverged, [] @ [])"
    by (rule sys_step.apply_memory [where e = "fst (applyToModel ?q 1 (demo_batch ''alice'') [None])"]) (simp add: d)
  ultimately have "sys_step\<^sup>*\<^sup>* (demo_committed, [?b, (2, demo_batch ''bob'', [None])]) (demo_diverged, [])"
    by (auto intro: converse_rtranclp_into_rtranclp)
  then show "sys_step\<^sup>*\<^sup>* (installPolicySet newPolicySet fresh_process, []) (demo_diverged, [])" using demo_commits by (rule rtranclp_trans [rotated])
  have fresh_seq: "appliedSequence fresh_process = 0" by (simp add: fresh_process_def)
  have p: "appliedSequence p = 2" "store p = store demo_committed"
    by (simp_all add: p_def demo_committed_def applyToModel_def applyMutations_def Let_def installPolicySet_def installed_rebuild
        fresh_seq demo_batch_def)
  then have e: "demo_diverged = p\<lparr>policiesDiverged := True, reloadRetryRunning := True\<rparr>"
    by (simp add: d applyToModel_def applyMutations_def recoverPolicies_def reload_def loadPolicies_def statement_fault_def
        scheduleReloadRetry_def publishPolicyDivergence_def demo_committed_def)
  show "policiesDiverged demo_diverged" "reloadRetryRunning demo_diverged" "db_faults (store demo_diverged) = []"
    "db_rows (store demo_diverged) = [demo_row 1 ''alice'', demo_row 2 ''bob'']"
    by (simp_all add: e p demo_committed_def)
qed


end
