(* ===== verification/Lease.thy ===== *)
theory Lease
  imports Prelude
begin

text \<open>
  The statements of the lease protocol, \<^verbatim>\<open>src/internal/lease/lease.go\<close> and \<^verbatim>\<open>slot.go\<close>, on the table
  \<^verbatim>\<open>gst_leases\<close>: one row per coordinated name. Each statement is one function on the table, at the
  database clock it runs at; the operations compose them the way the code does. What the database
  answers besides the rows, an error or none, is an argument, one per statement; a statement that
  errs has not run. \<open>Lease_Protocol\<close> interleaves the statements of many processes.

  Times are milliseconds; the database clock and slot instants are natural numbers, terms too (the
  code's are unsigned 64-bit, one increment per change of hands).
\<close>

section \<open>Timings, names, errors\<close>

definition leaseDuration :: nat where "leaseDuration = 15000"
definition renewInterval :: nat where "renewInterval = 2000"
definition localDeadline :: nat where "localDeadline = 10000"
definition stepDownGrace :: nat where "stepDownGrace = 5000"
definition nameMaxLength :: nat where "nameMaxLength = 191"

lemmas timings = leaseDuration_def renewInterval_def localDeadline_def stepDownGrace_def

datatype lease_error =
    ErrLost
  | ErrUnsupportedDatabase string
  | ErrNotInitialized
  | ErrEmptyName
  | ErrNameTooLong nat
  | ErrNoInstant
  | ErrDatabase string

definition ValidateName :: "string \<Rightarrow> lease_error option" where
  "ValidateName name =
     (if name = [] then Some ErrEmptyName
      else if length name > nameMaxLength then Some (ErrNameTooLong (length name))
      else None)"

text \<open>
  A connection: the dialect of the primary database (none before it is initialized) and its clock.
\<close>

record conn =
  conn_dialect :: "string option"
  conn_now :: nat

definition nowExpression :: "string \<Rightarrow> nat \<Rightarrow> lease_error + nat" where
  "nowExpression dialect clock =
     (if dialect = ''mysql'' \<or> dialect = ''postgres'' \<or> dialect = ''sqlite'' then Inr clock
      else Inl (ErrUnsupportedDatabase dialect))"

definition primary :: "conn \<Rightarrow> lease_error + nat" where
  "primary c = (case conn_dialect c of None \<Rightarrow> Inl ErrNotInitialized | Some d \<Rightarrow> nowExpression d (conn_now c))"

definition Available :: "conn \<Rightarrow> lease_error option" where
  "Available c = (case primary c of Inl e \<Rightarrow> Some e | Inr _ \<Rightarrow> None)"

section \<open>Rows and handles\<close>

record lease_row =
  lr_holder :: string
  lr_instance :: string
  lr_term :: nat
  lr_expires :: nat
  lr_slot :: nat
  lr_unfinished :: nat
  lr_rerun :: nat

type_synonym lease_table = "string \<rightharpoonup> lease_row"

record Unfinished =
  u_name :: string
  u_slot :: nat
  u_rerun :: bool
  u_term :: nat

record Handle =
  h_name :: string
  h_holder :: string
  h_term :: nat
  h_slotMs :: nat
  h_superseded :: "Unfinished option"
  h_claimedAt :: nat
  h_lost :: bool

definition newHandle :: "string \<Rightarrow> string \<Rightarrow> nat \<Rightarrow> nat \<Rightarrow> Handle" where
  "newHandle name holder term claimedAt =
     \<lparr>h_name = name, h_holder = holder, h_term = term, h_slotMs = 0, h_superseded = None,
      h_claimedAt = claimedAt, h_lost = False\<rparr>"

section \<open>Statements\<close>

text \<open>Each returns the number of affected rows, 0 or 1 by the unique name, and the table.\<close>

definition update_row :: "lease_table \<Rightarrow> string \<Rightarrow> (lease_row \<Rightarrow> bool) \<Rightarrow> (lease_row \<Rightarrow> lease_row) \<Rightarrow> nat \<times> lease_table" where
  "update_row tbl name cond f =
     (case tbl name of
        Some r \<Rightarrow> if cond r then (1, tbl(name \<mapsto> f r)) else (0, tbl)
      | None \<Rightarrow> (0, tbl))"

definition claim_stmt :: "nat \<Rightarrow> string \<Rightarrow> string \<Rightarrow> string \<Rightarrow> lease_table \<Rightarrow> nat \<times> lease_table" where
  "claim_stmt now holder inst name tbl =
     update_row tbl name (\<lambda>r. lr_expires r \<le> now)
       (\<lambda>r. r\<lparr>lr_holder := holder, lr_instance := inst, lr_term := lr_term r + 1,
             lr_expires := now + leaseDuration\<rparr>)"

definition insert_stmt :: "nat \<Rightarrow> string \<Rightarrow> string \<Rightarrow> string \<Rightarrow> nat \<Rightarrow> lease_table \<Rightarrow> nat \<times> lease_table" where
  "insert_stmt now holder inst name slotMs tbl =
     (case tbl name of
        Some _ \<Rightarrow> (0, tbl)
      | None \<Rightarrow>
          (1, tbl(name \<mapsto> \<lparr>lr_holder = holder, lr_instance = inst, lr_term = 1,
                          lr_expires = now + leaseDuration, lr_slot = slotMs,
                          lr_unfinished = slotMs, lr_rerun = 0\<rparr>)))"

definition renew_stmt :: "nat \<Rightarrow> string \<Rightarrow> string \<Rightarrow> lease_table \<Rightarrow> nat \<times> lease_table" where
  "renew_stmt now name holder tbl =
     update_row tbl name (\<lambda>r. lr_holder r = holder \<and> lr_expires r > now)
       (\<lambda>r. r\<lparr>lr_expires := now + leaseDuration\<rparr>)"

definition release_stmt :: "string \<Rightarrow> string \<Rightarrow> lease_table \<Rightarrow> nat \<times> lease_table" where
  "release_stmt name holder tbl =
     update_row tbl name (\<lambda>r. lr_holder r = holder) (\<lambda>r. r\<lparr>lr_expires := 0\<rparr>)"

definition verify_stmt :: "nat \<Rightarrow> string \<Rightarrow> string \<Rightarrow> lease_table \<Rightarrow> nat option" where
  "verify_stmt now name holder tbl =
     (case tbl name of
        Some r \<Rightarrow> if lr_holder r = holder \<and> lr_expires r > now then Some (lr_term r) else None
      | None \<Rightarrow> None)"

definition term_stmt :: "string \<Rightarrow> string \<Rightarrow> lease_table \<Rightarrow> nat option" where
  "term_stmt name holder tbl =
     (case tbl name of Some r \<Rightarrow> if lr_holder r = holder then Some (lr_term r) else None | None \<Rightarrow> None)"

text \<open>What the claim of an instant reads; \<open>ss_expired\<close> is by the database clock.\<close>

record slotState =
  ss_term :: nat
  ss_slot :: nat
  ss_unfinished :: nat
  ss_rerun :: nat
  ss_expired :: bool

definition slot_read_stmt :: "nat \<Rightarrow> string \<Rightarrow> lease_table \<Rightarrow> slotState option" where
  "slot_read_stmt now name tbl =
     map_option (\<lambda>r. \<lparr>ss_term = lr_term r, ss_slot = lr_slot r, ss_unfinished = lr_unfinished r,
                     ss_rerun = lr_rerun r, ss_expired = (lr_expires r \<le> now)\<rparr>) (tbl name)"

definition slot_write_stmt ::
  "nat \<Rightarrow> string \<Rightarrow> string \<Rightarrow> string \<Rightarrow> nat \<Rightarrow> nat \<Rightarrow> lease_table \<Rightarrow> nat \<times> lease_table" where
  "slot_write_stmt now holder inst name slotMs term tbl =
     update_row tbl name (\<lambda>r. lr_term r = term \<and> lr_expires r \<le> now)
       (\<lambda>r. r\<lparr>lr_holder := holder, lr_instance := inst, lr_term := lr_term r + 1,
             lr_expires := now + leaseDuration, lr_slot := slotMs, lr_unfinished := slotMs\<rparr>)"

definition finish_held_stmt :: "nat \<Rightarrow> string \<Rightarrow> string \<Rightarrow> nat \<Rightarrow> lease_table \<Rightarrow> nat \<times> lease_table" where
  "finish_held_stmt now name holder passedMs tbl =
     update_row tbl name (\<lambda>r. lr_holder r = holder)
       (\<lambda>r. r\<lparr>lr_expires := 0, lr_unfinished := 0,
             lr_slot := (if lr_slot r < passedMs \<and> passedMs \<le> now then passedMs else lr_slot r)\<rparr>)"

definition finish_record_stmt :: "string \<Rightarrow> nat \<Rightarrow> lease_table \<Rightarrow> nat \<times> lease_table" where
  "finish_record_stmt name slotMs tbl =
     update_row tbl name (\<lambda>r. lr_unfinished r = slotMs) (\<lambda>r. r\<lparr>lr_unfinished := 0\<rparr>)"

definition rerun_stmt :: "nat \<Rightarrow> string \<Rightarrow> string \<Rightarrow> string \<Rightarrow> nat \<Rightarrow> lease_table \<Rightarrow> nat \<times> lease_table" where
  "rerun_stmt now holder inst name term tbl =
     update_row tbl name
       (\<lambda>r. lr_term r = term \<and> lr_unfinished r = lr_slot r \<and> lr_rerun r < lr_slot r \<and> lr_expires r \<le> now)
       (\<lambda>r. r\<lparr>lr_holder := holder, lr_instance := inst, lr_term := lr_term r + 1,
             lr_expires := now + leaseDuration, lr_rerun := lr_slot r\<rparr>)"

lemmas stmt_defs = claim_stmt_def insert_stmt_def renew_stmt_def release_stmt_def verify_stmt_def
  term_stmt_def slot_read_stmt_def slot_write_stmt_def finish_held_stmt_def finish_record_stmt_def
  rerun_stmt_def

section \<open>Operations\<close>

text \<open>
  The answers of the database, one per statement in the order they run: an error, or none. \<open>holder\<close>
  is the token \<open>newHolder\<close> minted, \<open>inst\<close> the process, \<open>claimedAt\<close> its own clock.
\<close>

type_synonym answers = "nat \<Rightarrow> string option"

definition run_stmt :: "string option \<Rightarrow> nat \<times> lease_table \<Rightarrow> lease_table \<Rightarrow> (lease_error + nat) \<times> lease_table" where
  "run_stmt answer result tbl =
     (case answer of Some e \<Rightarrow> (Inl (ErrDatabase e), tbl) | None \<Rightarrow> (Inr (fst result), snd result))"

definition Renew :: "conn \<Rightarrow> answers \<Rightarrow> Handle \<Rightarrow> lease_table \<Rightarrow> lease_error option \<times> lease_table" where
  "Renew c ans h tbl =
     (case primary c of
        Inl e \<Rightarrow> (Some e, tbl)
      | Inr now \<Rightarrow>
          (case run_stmt (ans 0) (renew_stmt now (h_name h) (h_holder h) tbl) tbl of
             (Inl e, tbl') \<Rightarrow> (Some e, tbl')
           | (Inr rows, tbl') \<Rightarrow> (if rows = 0 then Some ErrLost else None, tbl')))"

definition Release :: "conn \<Rightarrow> answers \<Rightarrow> Handle \<Rightarrow> lease_table \<Rightarrow> lease_error option \<times> lease_table" where
  "Release c ans h tbl =
     (case primary c of
        Inl e \<Rightarrow> (Some e, tbl)
      | Inr now \<Rightarrow>
          (case run_stmt (ans 0) (release_stmt (h_name h) (h_holder h) tbl) tbl of
             (Inl e, tbl') \<Rightarrow> (Some e, tbl')
           | (Inr rows, tbl') \<Rightarrow> (if rows = 0 then Some ErrLost else None, tbl')))"

text \<open>The result of a claim: an error, refused (\<open>None\<close>), or a handle.\<close>

type_synonym claim_result = "lease_error + Handle option"

definition handleOf :: "string option \<Rightarrow> string \<Rightarrow> string \<Rightarrow> nat \<Rightarrow> lease_table \<Rightarrow> claim_result" where
  "handleOf answer name holder claimedAt tbl =
     (case answer of
        Some e \<Rightarrow> Inl (ErrDatabase e)
      | None \<Rightarrow>
          (case term_stmt name holder tbl of
             None \<Rightarrow> Inl ErrLost
           | Some term \<Rightarrow> Inr (Some (newHandle name holder term claimedAt))))"

definition insertClaim ::
  "string option \<Rightarrow> nat \<Rightarrow> string \<Rightarrow> string \<Rightarrow> string \<Rightarrow> nat \<Rightarrow> nat \<Rightarrow> lease_table \<Rightarrow> claim_result \<times> lease_table" where
  "insertClaim answer now name holder inst slotMs claimedAt tbl =
     (case run_stmt answer (insert_stmt now holder inst name slotMs tbl) tbl of
        (Inl e, tbl') \<Rightarrow> (Inl e, tbl')
      | (Inr rows, tbl') \<Rightarrow>
          if rows = 0 then (Inr None, tbl')
          else (Inr (Some ((newHandle name holder 1 claimedAt)\<lparr>h_slotMs := slotMs\<rparr>)), tbl'))"

definition Claim ::
  "conn \<Rightarrow> answers \<Rightarrow> string \<Rightarrow> string \<Rightarrow> nat \<Rightarrow> string \<Rightarrow> lease_table \<Rightarrow> claim_result \<times> lease_table" where
  "Claim c ans holder inst claimedAt name tbl =
     (case ValidateName name of
        Some e \<Rightarrow> (Inl e, tbl)
      | None \<Rightarrow>
          (case primary c of
             Inl e \<Rightarrow> (Inl e, tbl)
           | Inr now \<Rightarrow>
               (case run_stmt (ans 0) (claim_stmt now holder inst name tbl) tbl of
                  (Inl e, tbl') \<Rightarrow> (Inl e, tbl')
                | (Inr rows, tbl') \<Rightarrow>
                    if rows = 1 then (handleOf (ans 1) name holder claimedAt tbl', tbl')
                    else insertClaim (ans 1) now name holder inst 0 claimedAt tbl')))"

text \<open>\<open>Verify\<close>; a context carrying no lease is \<open>None\<close>.\<close>

definition Verify :: "conn \<Rightarrow> string option \<Rightarrow> Handle option \<Rightarrow> lease_table \<Rightarrow> lease_error option" where
  "Verify c answer carried tbl =
     (case carried of
        None \<Rightarrow> None
      | Some h \<Rightarrow>
          (case primary c of
             Inl e \<Rightarrow> Some e
           | Inr now \<Rightarrow>
               (case answer of
                  Some e \<Rightarrow> Some (ErrDatabase e)
                | None \<Rightarrow>
                    if verify_stmt now (h_name h) (h_holder h) tbl = None then Some ErrLost else None)))"

text \<open>
  \<open>ClaimSlot\<close> with its read and its write; \<open>between\<close> is what other processes did to the table in
  the meantime, the identity when nothing ran. The clock of the write is \<open>now'\<close>.
\<close>

definition slot_handle :: "string \<Rightarrow> string \<Rightarrow> nat \<Rightarrow> slotState \<Rightarrow> nat \<Rightarrow> Handle" where
  "slot_handle name holder slotMs current claimedAt =
     (newHandle name holder (ss_term current + 1) claimedAt)
       \<lparr>h_slotMs := slotMs,
        h_superseded :=
          (if ss_unfinished current \<noteq> 0 \<and> ss_unfinished current = ss_slot current
           then Some \<lparr>u_name = name, u_slot = ss_unfinished current,
                      u_rerun = (ss_rerun current = ss_unfinished current), u_term = 0\<rparr>
           else None)\<rparr>"

definition ClaimSlot ::
  "conn \<Rightarrow> answers \<Rightarrow> (lease_table \<Rightarrow> lease_table) \<Rightarrow> nat \<Rightarrow> string \<Rightarrow> string \<Rightarrow> nat \<Rightarrow> string \<Rightarrow> nat \<Rightarrow> lease_table \<Rightarrow>
     claim_result \<times> lease_table" where
  "ClaimSlot c ans between now' holder inst claimedAt name slotMs tbl =
     (case ValidateName name of
        Some e \<Rightarrow> (Inl e, tbl)
      | None \<Rightarrow>
          (case primary c of
             Inl e \<Rightarrow> (Inl e, tbl)
           | Inr now \<Rightarrow>
               (case ans 0 of
                  Some e \<Rightarrow> (Inl (ErrDatabase e), tbl)
                | None \<Rightarrow>
                    (case slot_read_stmt now name tbl of
                       None \<Rightarrow> insertClaim (ans 1) now' name holder inst slotMs claimedAt (between tbl)
                     | Some current \<Rightarrow>
                         if \<not> ss_expired current \<or> slotMs \<le> ss_slot current then (Inr None, tbl)
                         else
                           (case run_stmt (ans 1)
                                   (slot_write_stmt now' holder inst name slotMs (ss_term current) (between tbl))
                                   (between tbl) of
                              (Inl e, tbl') \<Rightarrow> (Inl e, tbl')
                            | (Inr rows, tbl') \<Rightarrow>
                                if rows = 0 then (Inr None, tbl')
                                else (Inr (Some (slot_handle name holder slotMs current claimedAt)), tbl'))))))"

definition Superseded :: "Handle \<Rightarrow> Unfinished option" where
  "Superseded h = h_superseded h"

definition Finish :: "conn \<Rightarrow> answers \<Rightarrow> Handle \<Rightarrow> nat \<Rightarrow> lease_table \<Rightarrow> lease_error option \<times> lease_table" where
  "Finish c ans h passedMs tbl =
     (if h_slotMs h = 0 then (Some ErrNoInstant, tbl)
      else
        (case primary c of
           Inl e \<Rightarrow> (Some e, tbl)
         | Inr now \<Rightarrow>
             (let record_end = (\<lambda>i t. case run_stmt (ans i) (finish_record_stmt (h_name h) (h_slotMs h) t) t of
                    (Inl e, t') \<Rightarrow> (Some e, t')
                  | (Inr _, t') \<Rightarrow> (if h_lost h then None else Some ErrLost, t'))
              in if h_lost h then record_end 0 tbl
                 else
                   (case run_stmt (ans 0) (finish_held_stmt now (h_name h) (h_holder h) passedMs tbl) tbl of
                      (Inl e, t) \<Rightarrow> (Some e, t)
                    | (Inr rows, t) \<Rightarrow> if rows = 1 then (None, t) else record_end 1 t))))"

definition unfinished_now :: "nat \<Rightarrow> lease_row \<Rightarrow> bool" where
  "unfinished_now now r \<longleftrightarrow> lr_unfinished r = lr_slot r \<and> lr_rerun r < lr_slot r \<and> lr_expires r \<le> now"

fun find_unfinished :: "nat \<Rightarrow> string list \<Rightarrow> lease_table \<Rightarrow> Unfinished list" where
  "find_unfinished now [] tbl = []"
| "find_unfinished now (name # names) tbl =
     (case tbl name of
        Some r \<Rightarrow>
          if unfinished_now now r
          then \<lparr>u_name = name, u_slot = lr_slot r, u_rerun = False, u_term = lr_term r\<rparr> # find_unfinished now names tbl
          else find_unfinished now names tbl
      | None \<Rightarrow> find_unfinished now names tbl)"

definition UnfinishedSlots :: "conn \<Rightarrow> string option \<Rightarrow> string list \<Rightarrow> lease_table \<Rightarrow> lease_error + Unfinished list" where
  "UnfinishedSlots c answer names tbl =
     (if names = [] then Inr []
      else
        (case primary c of
           Inl e \<Rightarrow> Inl e
         | Inr now \<Rightarrow>
             (case answer of
                Some e \<Rightarrow> Inl (ErrDatabase e)
              | None \<Rightarrow> Inr (find_unfinished now (remdups names) tbl))))"

definition ClaimRerun ::
  "conn \<Rightarrow> answers \<Rightarrow> string \<Rightarrow> string \<Rightarrow> nat \<Rightarrow> Unfinished \<Rightarrow> lease_table \<Rightarrow> claim_result \<times> lease_table" where
  "ClaimRerun c ans holder inst claimedAt u tbl =
     (case ValidateName (u_name u) of
        Some e \<Rightarrow> (Inl e, tbl)
      | None \<Rightarrow>
          (case primary c of
             Inl e \<Rightarrow> (Inl e, tbl)
           | Inr now \<Rightarrow>
               (case run_stmt (ans 0) (rerun_stmt now holder inst (u_name u) (u_term u) tbl) tbl of
                  (Inl e, tbl') \<Rightarrow> (Inl e, tbl')
                | (Inr rows, tbl') \<Rightarrow>
                    if rows = 0 then (Inr None, tbl')
                    else (Inr (Some ((newHandle (u_name u) holder (u_term u + 1) claimedAt)
                                       \<lparr>h_slotMs := u_slot u\<rparr>)), tbl'))))"

definition LastSlot :: "conn \<Rightarrow> string option \<Rightarrow> string \<Rightarrow> lease_table \<Rightarrow> lease_error + nat option" where
  "LastSlot c answer name tbl =
     (case primary c of
        Inl e \<Rightarrow> Inl e
      | Inr _ \<Rightarrow> (case answer of Some e \<Rightarrow> Inl (ErrDatabase e) | None \<Rightarrow> Inr (map_option lr_slot (tbl name))))"

end
