(* ===== verification/Lease_Protocol.thy ===== *)
theory Lease_Protocol
  imports Lease
begin

text \<open>
  The lease protocol among any number of processes. A step is one statement at the database, one
  reading of the clock, or one thing a process learns: a renewal acknowledged, a lease given up. The
  statements are those of \<open>Lease\<close>. Between sending a statement and its running any time may pass, and
  an acknowledgement may never come; a holder counts its deadline from the moment it sent the last
  statement it knows succeeded, as \<^verbatim>\<open>src/internal/lease/hold.go\<close> does.

  Assumed, as the protocol's documentation does: the database clock does not run backwards, a
  process's clock advances at the rate of the database's, and a holder token is never minted twice
  (\<^verbatim>\<open>newHolder\<close> draws 16 random bytes).
\<close>

section \<open>State\<close>

datatype grant_kind = Plain | Slot nat | Rerun nat

record grant =
  g_name :: string
  g_holder :: string
  g_term :: nat
  g_kind :: grant_kind

text \<open>
  What a process knows about a claim of its own: \<open>cl_last\<close> is when it sent the last claim or renewal it
  knows succeeded; \<open>cl_live\<close> ends when the work has returned or the lease is known lost.
\<close>

record client =
  cl_name :: string
  cl_last :: nat
  cl_live :: bool

record lease_sys =
  ls_table :: lease_table
  ls_now :: nat
  ls_clients :: "string \<rightharpoonup> client"
  ls_reads :: "(string \<times> slotState) set"
  ls_finds :: "Unfinished set"
  ls_grants :: "grant list"

definition lease_init :: "nat \<Rightarrow> lease_sys" where
  "lease_init now = \<lparr>ls_table = Map.empty, ls_now = now, ls_clients = Map.empty, ls_reads = {},
                     ls_finds = {}, ls_grants = []\<rparr>"

text \<open>A process acts under the lease while it has not given it up and its own deadline has not passed.\<close>

definition acting :: "lease_sys \<Rightarrow> string \<Rightarrow> string \<Rightarrow> bool" where
  "acting s name holder \<longleftrightarrow>
     (case ls_clients s holder of
        None \<Rightarrow> False
      | Some cl \<Rightarrow> cl_name cl = name \<and> cl_live cl \<and> ls_now s < cl_last cl + localDeadline)"

section \<open>Steps\<close>

text \<open>The bookkeeping every successful claim shares; \<open>sent\<close> is when the process sent it.\<close>

definition granted :: "lease_sys \<Rightarrow> lease_table \<Rightarrow> string \<Rightarrow> string \<Rightarrow> nat \<Rightarrow> grant_kind \<Rightarrow> lease_sys" where
  "granted s tbl name holder sent kind =
     s\<lparr>ls_table := tbl,
       ls_clients := (ls_clients s)(holder \<mapsto> \<lparr>cl_name = name, cl_last = sent, cl_live = True\<rparr>),
       ls_grants := ls_grants s @ [\<lparr>g_name = name, g_holder = holder,
         g_term = (case tbl name of Some r \<Rightarrow> lr_term r | None \<Rightarrow> 0), g_kind = kind\<rparr>]\<rparr>"

inductive lease_step :: "lease_sys \<Rightarrow> lease_sys \<Rightarrow> bool" where
  clock: "lease_step s (s\<lparr>ls_now := ls_now s + d\<rparr>)"
| claim: "ls_clients s holder = None \<Longrightarrow> sent \<le> ls_now s \<Longrightarrow>
    claim_stmt (ls_now s) holder inst name (ls_table s) = (1, tbl) \<Longrightarrow>
    lease_step s (granted s tbl name holder sent Plain)"
| insert: "ls_clients s holder = None \<Longrightarrow> sent \<le> ls_now s \<Longrightarrow>
    insert_stmt (ls_now s) holder inst name slot (ls_table s) = (1, tbl) \<Longrightarrow>
    lease_step s (granted s tbl name holder sent (if slot = 0 then Plain else Slot slot))"
| slot_read: "slot_read_stmt (ls_now s) name (ls_table s) = Some st \<Longrightarrow>
    lease_step s (s\<lparr>ls_reads := Set.insert (name, st) (ls_reads s)\<rparr>)"
| slot_write: "(name, st) \<in> ls_reads s \<Longrightarrow> ss_expired st \<Longrightarrow> ss_slot st < slot \<Longrightarrow>
    ls_clients s holder = None \<Longrightarrow> sent \<le> ls_now s \<Longrightarrow>
    slot_write_stmt (ls_now s) holder inst name slot (ss_term st) (ls_table s) = (1, tbl) \<Longrightarrow>
    lease_step s (granted s tbl name holder sent (Slot slot))"
| find: "u \<in> set (find_unfinished (ls_now s) names (ls_table s)) \<Longrightarrow>
    lease_step s (s\<lparr>ls_finds := Set.insert u (ls_finds s)\<rparr>)"
| rerun: "u \<in> ls_finds s \<Longrightarrow> ls_clients s holder = None \<Longrightarrow> sent \<le> ls_now s \<Longrightarrow>
    rerun_stmt (ls_now s) holder inst (u_name u) (u_term u) (ls_table s) = (1, tbl) \<Longrightarrow>
    lease_step s (granted s tbl (u_name u) holder sent (Rerun (u_slot u)))"
| renew: "ls_clients s holder = Some cl \<Longrightarrow> cl_last cl \<le> sent \<Longrightarrow> sent \<le> ls_now s \<Longrightarrow>
    renew_stmt (ls_now s) (cl_name cl) holder (ls_table s) = (1, tbl) \<Longrightarrow>
    lease_step s (s\<lparr>ls_table := tbl, ls_clients := (ls_clients s)(holder \<mapsto> cl\<lparr>cl_last := sent\<rparr>)\<rparr>)"
| renew_unheard: "ls_clients s holder = Some cl \<Longrightarrow>
    renew_stmt (ls_now s) (cl_name cl) holder (ls_table s) = (1, tbl) \<Longrightarrow>
    lease_step s (s\<lparr>ls_table := tbl\<rparr>)"
| give_up: "ls_clients s holder = Some cl \<Longrightarrow>
    lease_step s (s\<lparr>ls_clients := (ls_clients s)(holder \<mapsto> cl\<lparr>cl_live := False\<rparr>)\<rparr>)"
| release: "ls_clients s holder = Some cl \<Longrightarrow> \<not> cl_live cl \<Longrightarrow>
    release_stmt (cl_name cl) holder (ls_table s) = (n, tbl) \<Longrightarrow> lease_step s (s\<lparr>ls_table := tbl\<rparr>)"
| finish_held: "ls_clients s holder = Some cl \<Longrightarrow> \<not> cl_live cl \<Longrightarrow>
    finish_held_stmt (ls_now s) (cl_name cl) holder passed (ls_table s) = (n, tbl) \<Longrightarrow>
    lease_step s (s\<lparr>ls_table := tbl\<rparr>)"
| finish_record: "ls_clients s holder = Some cl \<Longrightarrow> \<not> cl_live cl \<Longrightarrow>
    finish_record_stmt (cl_name cl) slot (ls_table s) = (n, tbl) \<Longrightarrow>
    lease_step s (s\<lparr>ls_table := tbl\<rparr>)"

section \<open>Mutual exclusion\<close>

text \<open>
  The row protects a holder for the whole lease duration from the moment it sent the statement, five
  seconds longer than the holder itself goes on.
\<close>

definition protected :: "lease_sys \<Rightarrow> bool" where
  "protected s \<longleftrightarrow>
     (\<forall>h cl. ls_clients s h = Some cl \<and> cl_live cl \<and> ls_now s < cl_last cl + leaseDuration \<longrightarrow>
        (\<exists>r. ls_table s (cl_name cl) = Some r \<and> lr_holder r = h \<and> cl_last cl + leaseDuration \<le> lr_expires r))"

definition rows_known :: "lease_sys \<Rightarrow> bool" where
  "rows_known s \<longleftrightarrow>
     (\<forall>n r. ls_table s n = Some r \<longrightarrow> ls_clients s (lr_holder r) \<noteq> None)"

lemma update_row_1:
  assumes "update_row tbl name cond f = (1, tbl')"
  obtains r where "tbl name = Some r" "cond r" "tbl' = tbl(name \<mapsto> f r)"
  using assms by (auto simp: update_row_def split: option.splits if_splits)

lemma update_row_any:
  assumes "update_row tbl name cond f = (n, tbl')"
  obtains "tbl' = tbl" | r where "tbl name = Some r" "cond r" "tbl' = tbl(name \<mapsto> f r)"
  using assms by (auto simp: update_row_def split: option.splits if_splits)

lemma insert_stmt_1:
  assumes "insert_stmt now holder inst name slot tbl = (1, tbl')"
  shows "tbl name = None \<and> tbl' = tbl(name \<mapsto> \<lparr>lr_holder = holder, lr_instance = inst, lr_term = 1,
      lr_expires = now + leaseDuration, lr_slot = slot, lr_unfinished = slot, lr_rerun = 0\<rparr>)"
  using assms by (auto simp: insert_stmt_def split: option.splits)

lemma claim_stmt_1:
  assumes "claim_stmt now holder inst name tbl = (1, tbl')"
  obtains r where "tbl name = Some r" "lr_expires r \<le> now"
    "tbl' = tbl(name \<mapsto> r\<lparr>lr_holder := holder, lr_instance := inst, lr_term := lr_term r + 1,
       lr_expires := now + leaseDuration\<rparr>)"
  using assms unfolding claim_stmt_def by (rule update_row_1) blast

lemma slot_write_stmt_1:
  assumes "slot_write_stmt now holder inst name slot term tbl = (1, tbl')"
  obtains r where "tbl name = Some r" "lr_expires r \<le> now" "lr_term r = term"
    "tbl' = tbl(name \<mapsto> r\<lparr>lr_holder := holder, lr_instance := inst, lr_term := lr_term r + 1,
       lr_expires := now + leaseDuration, lr_slot := slot, lr_unfinished := slot\<rparr>)"
  using assms unfolding slot_write_stmt_def by (rule update_row_1) blast

lemma rerun_stmt_1:
  assumes "rerun_stmt now holder inst name term tbl = (1, tbl')"
  obtains r where "tbl name = Some r" "lr_expires r \<le> now" "lr_term r = term"
    "lr_unfinished r = lr_slot r" "lr_rerun r < lr_slot r"
    "tbl' = tbl(name \<mapsto> r\<lparr>lr_holder := holder, lr_instance := inst, lr_term := lr_term r + 1,
       lr_expires := now + leaseDuration, lr_rerun := lr_slot r\<rparr>)"
  using assms unfolding rerun_stmt_def by (rule update_row_1) blast

lemma renew_stmt_1:
  assumes "renew_stmt now name holder tbl = (1, tbl')"
  obtains r where "tbl name = Some r" "lr_holder r = holder" "now < lr_expires r"
    "tbl' = tbl(name \<mapsto> r\<lparr>lr_expires := now + leaseDuration\<rparr>)"
  using assms unfolding renew_stmt_def by (rule update_row_1) blast

text \<open>A claim by a fresh token on a row that is absent or expired.\<close>

lemma granted_protected:
  assumes "protected s" "rows_known s" "ls_clients s h = None" "sent \<le> ls_now s"
    "\<And>r. ls_table s name = Some r \<Longrightarrow> lr_expires r \<le> ls_now s"
    "lr_holder r' = h" "lr_expires r' = ls_now s + leaseDuration"
  shows "protected (granted s ((ls_table s)(name \<mapsto> r')) name h sent kind) \<and>
    rows_known (granted s ((ls_table s)(name \<mapsto> r')) name h sent kind)"
proof
  show "protected (granted s ((ls_table s)(name \<mapsto> r')) name h sent kind)"
    unfolding protected_def
  proof (intro allI impI)
    fix h' cl
    assume a: "ls_clients (granted s ((ls_table s)(name \<mapsto> r')) name h sent kind) h' = Some cl \<and> cl_live cl \<and>
      ls_now (granted s ((ls_table s)(name \<mapsto> r')) name h sent kind) < cl_last cl + leaseDuration"
    show "\<exists>r. ls_table (granted s ((ls_table s)(name \<mapsto> r')) name h sent kind) (cl_name cl) = Some r \<and>
      lr_holder r = h' \<and> cl_last cl + leaseDuration \<le> lr_expires r"
    proof (cases "h' = h")
      case True
      with a assms(4,6,7) show ?thesis by (auto simp: granted_def)
    next
      case False
      with a have "ls_clients s h' = Some cl" "cl_live cl" "ls_now s < cl_last cl + leaseDuration"
        by (auto simp: granted_def)
      with assms(1) obtain r where r: "ls_table s (cl_name cl) = Some r" "lr_holder r = h'"
        "cl_last cl + leaseDuration \<le> lr_expires r" by (auto simp: protected_def)
      with assms(5) \<open>ls_now s < cl_last cl + leaseDuration\<close> have "cl_name cl \<noteq> name" by force
      with r show ?thesis by (auto simp: granted_def)
    qed
  qed
  show "rows_known (granted s ((ls_table s)(name \<mapsto> r')) name h sent kind)"
    using assms(2,6) by (auto simp: rows_known_def granted_def)
qed

text \<open>Any other change of a row by the one who holds it, or by one who gave it up.\<close>

lemma changed_protected:
  assumes "protected s" "rows_known s" "ls_table s name = Some r" "lr_holder r' = lr_holder r"
    "\<And>cl. ls_clients s (lr_holder r) = Some cl \<Longrightarrow> cl_live cl \<Longrightarrow> cl_last cl + leaseDuration \<le> lr_expires r \<Longrightarrow>
       cl_last cl + leaseDuration \<le> lr_expires r'"
  shows "protected (s\<lparr>ls_table := (ls_table s)(name \<mapsto> r')\<rparr>) \<and> rows_known (s\<lparr>ls_table := (ls_table s)(name \<mapsto> r')\<rparr>)"
  using assms by (fastforce simp: protected_def rows_known_def)

lemma clients_protected:
  assumes "protected s" "rows_known s" "ls_clients s h = Some cl"
    "cl_live cl' \<Longrightarrow> ls_now s < cl_last cl' + leaseDuration \<Longrightarrow>
       \<exists>r. ls_table s (cl_name cl') = Some r \<and> lr_holder r = h \<and> cl_last cl' + leaseDuration \<le> lr_expires r"
  shows "protected (s\<lparr>ls_clients := (ls_clients s)(h \<mapsto> cl')\<rparr>) \<and> rows_known (s\<lparr>ls_clients := (ls_clients s)(h \<mapsto> cl')\<rparr>)"
  using assms by (auto simp: protected_def rows_known_def)

definition lasts_past :: "lease_sys \<Rightarrow> bool" where
  "lasts_past s \<longleftrightarrow> (\<forall>h cl. ls_clients s h = Some cl \<longrightarrow> cl_last cl \<le> ls_now s)"

definition excl_inv :: "lease_sys \<Rightarrow> bool" where
  "excl_inv s \<longleftrightarrow> protected s \<and> rows_known s \<and> lasts_past s"

lemma granted_excl:
  assumes "excl_inv s" "ls_clients s h = None" "sent \<le> ls_now s"
    "\<And>r. ls_table s name = Some r \<Longrightarrow> lr_expires r \<le> ls_now s"
    "lr_holder r' = h" "lr_expires r' = ls_now s + leaseDuration"
  shows "excl_inv (granted s ((ls_table s)(name \<mapsto> r')) name h sent kind)"
  using assms granted_protected [of s h sent name r' kind]
  by (auto simp: excl_inv_def lasts_past_def granted_def)

lemma changed_excl:
  assumes "excl_inv s" "ls_table s name = Some r" "lr_holder r' = lr_holder r"
    "\<And>cl. ls_clients s (lr_holder r) = Some cl \<Longrightarrow> cl_live cl \<Longrightarrow> cl_last cl + leaseDuration \<le> lr_expires r \<Longrightarrow>
       cl_last cl + leaseDuration \<le> lr_expires r'"
  shows "excl_inv (s\<lparr>ls_table := (ls_table s)(name \<mapsto> r')\<rparr>)"
  using assms changed_protected [of s name r r'] by (auto simp: excl_inv_def lasts_past_def)

lemma renew_excl:
  assumes "excl_inv s" "renew_stmt (ls_now s) name h (ls_table s) = (1, tbl)"
  shows "excl_inv (s\<lparr>ls_table := tbl\<rparr>)"
proof -
  from assms(2) obtain r where r: "ls_table s name = Some r" "lr_holder r = h"
    "tbl = (ls_table s)(name \<mapsto> r\<lparr>lr_expires := ls_now s + leaseDuration\<rparr>)"
    by (rule renew_stmt_1)
  show ?thesis
    unfolding r(3) by (rule changed_excl [OF assms(1) r(1)])
      (use assms(1) r in \<open>auto simp: excl_inv_def lasts_past_def\<close>)
qed

lemma renew_heard_excl:
  assumes "excl_inv s" "ls_clients s holder = Some cl" "cl_last cl \<le> sent" "sent \<le> ls_now s"
    "renew_stmt (ls_now s) (cl_name cl) holder (ls_table s) = (1, tbl)"
  shows "excl_inv (s\<lparr>ls_table := tbl, ls_clients := (ls_clients s)(holder \<mapsto> cl\<lparr>cl_last := sent\<rparr>)\<rparr>)"
proof -
  let ?s = "s\<lparr>ls_table := tbl\<rparr>"
  have e: "excl_inv ?s" using assms by (intro renew_excl) auto
  from assms(5) obtain r where r: "ls_table s (cl_name cl) = Some r" "lr_holder r = holder"
    "tbl = (ls_table s)(cl_name cl \<mapsto> r\<lparr>lr_expires := ls_now s + leaseDuration\<rparr>)"
    by (rule renew_stmt_1)
  have "protected (?s\<lparr>ls_clients := (ls_clients ?s)(holder \<mapsto> cl\<lparr>cl_last := sent\<rparr>)\<rparr>) \<and>
    rows_known (?s\<lparr>ls_clients := (ls_clients ?s)(holder \<mapsto> cl\<lparr>cl_last := sent\<rparr>)\<rparr>)"
    using e r assms by (intro clients_protected [where cl = cl]) (auto simp: excl_inv_def)
  with e assms show ?thesis by (auto simp: excl_inv_def lasts_past_def)
qed

theorem excl_step: "lease_step s s' \<Longrightarrow> excl_inv s \<Longrightarrow> excl_inv s'"
proof (induction rule: lease_step.induct)
  case (clock s d)
  then show ?case by (auto simp: excl_inv_def protected_def rows_known_def lasts_past_def intro: trans_le_add1)
next
  case (claim s holder sent inst name tbl)
  from claim.hyps(3) show ?case
    by (rule claim_stmt_1) (use claim in \<open>auto intro!: granted_excl\<close>)
next
  case (insert s holder sent inst name slot tbl)
  note i = insert_stmt_1 [OF insert.hyps(3)]
  show ?case
    unfolding i [THEN conjunct2] using insert i by (intro granted_excl) auto
next
  case (slot_write name st s slot holder sent inst tbl)
  from slot_write.hyps(6) show ?case
    by (rule slot_write_stmt_1) (use slot_write in \<open>auto intro!: granted_excl\<close>)
next
  case (rerun u s holder sent inst tbl)
  from rerun.hyps(4) show ?case
    by (rule rerun_stmt_1) (use rerun in \<open>auto intro!: granted_excl\<close>)
next
  case (renew s holder cl sent tbl)
  then show ?case by (intro renew_heard_excl) auto
next
  case (renew_unheard s holder cl tbl)
  then show ?case by (intro renew_excl) auto
next
  case (give_up s holder cl)
  then have "protected (s\<lparr>ls_clients := (ls_clients s)(holder \<mapsto> cl\<lparr>cl_live := False\<rparr>)\<rparr>) \<and>
    rows_known (s\<lparr>ls_clients := (ls_clients s)(holder \<mapsto> cl\<lparr>cl_live := False\<rparr>)\<rparr>)"
    by (intro clients_protected [where cl = cl]) (auto simp: excl_inv_def)
  with give_up show ?case by (auto simp: excl_inv_def lasts_past_def)
next
  case (release s holder cl n tbl)
  from release.hyps(3) show ?case
    unfolding release_stmt_def
  proof (rule update_row_any)
    fix r assume "ls_table s (cl_name cl) = Some r" "lr_holder r = holder"
      "tbl = (ls_table s)(cl_name cl \<mapsto> r\<lparr>lr_expires := 0\<rparr>)"
    then show ?thesis using release by (auto intro!: changed_excl)
  qed (use release.prems in simp)
next
  case (finish_held s holder cl passed n tbl)
  from finish_held.hyps(3) show ?case
    unfolding finish_held_stmt_def
  proof (rule update_row_any)
    fix r assume "ls_table s (cl_name cl) = Some r" "lr_holder r = holder"
      "tbl = (ls_table s)(cl_name cl \<mapsto> r\<lparr>lr_expires := 0, lr_unfinished := 0,
         lr_slot := (if lr_slot r < passed \<and> passed \<le> ls_now s then passed else lr_slot r)\<rparr>)"
    then show ?thesis using finish_held by (auto intro!: changed_excl)
  qed (use finish_held.prems in simp)
next
  case (finish_record s holder cl slot n tbl)
  from finish_record.hyps(3) show ?case
    unfolding finish_record_stmt_def
  proof (rule update_row_any)
    fix r assume "ls_table s (cl_name cl) = Some r" "lr_unfinished r = slot"
      "tbl = (ls_table s)(cl_name cl \<mapsto> r\<lparr>lr_unfinished := 0\<rparr>)"
    then show ?thesis using finish_record.prems by (auto intro!: changed_excl)
  qed (use finish_record.prems in simp)
qed (auto simp: excl_inv_def protected_def rows_known_def lasts_past_def)

section \<open>Terms and instants\<close>

definition kinds :: "lease_sys \<Rightarrow> string \<Rightarrow> grant_kind set" where
  "kinds s n = g_kind ` {g \<in> set (ls_grants s). g_name g = n}"

definition terms_ordered :: "lease_sys \<Rightarrow> bool" where
  "terms_ordered s \<longleftrightarrow>
     (\<forall>g\<in>set (ls_grants s). \<exists>r. ls_table s (g_name g) = Some r \<and> g_term g \<le> lr_term r) \<and>
     sorted_wrt (\<lambda>a b. g_name a = g_name b \<longrightarrow> g_term a < g_term b) (ls_grants s)"

text \<open>What a row says about the instants claimed under its name.\<close>

definition row_slots :: "grant_kind set \<Rightarrow> lease_row \<Rightarrow> bool" where
  "row_slots K r \<longleftrightarrow>
     (\<forall>x. Slot x \<in> K \<longrightarrow> x \<le> lr_slot r) \<and> (\<forall>x. Rerun x \<in> K \<longrightarrow> x \<le> lr_rerun r \<and> Slot x \<in> K) \<and>
     (lr_unfinished r = lr_slot r \<and> 0 < lr_slot r \<longrightarrow> Slot (lr_slot r) \<in> K)"

definition read_ok :: "lease_sys \<Rightarrow> string \<Rightarrow> slotState \<Rightarrow> bool" where
  "read_ok s n st \<longleftrightarrow>
     (\<exists>r. ls_table s n = Some r \<and> ss_term st \<le> lr_term r \<and>
        (lr_term r = ss_term st \<longrightarrow> (\<forall>x. Slot x \<in> kinds s n \<longrightarrow> x \<le> ss_slot st)))"

definition find_ok :: "lease_sys \<Rightarrow> Unfinished \<Rightarrow> bool" where
  "find_ok s u \<longleftrightarrow>
     (\<exists>r. ls_table s (u_name u) = Some r \<and> u_term u \<le> lr_term r \<and>
        (lr_term r = u_term u \<and> lr_unfinished r = lr_slot r \<and> 0 < lr_slot r \<longrightarrow> lr_slot r = u_slot u))"

definition instants :: "grant list \<Rightarrow> (string \<times> grant_kind) list" where
  "instants gs = map (\<lambda>g. (g_name g, g_kind g)) (filter (\<lambda>g. g_kind g \<noteq> Plain) gs)"

definition order_inv :: "lease_sys \<Rightarrow> bool" where
  "order_inv s \<longleftrightarrow>
     terms_ordered s \<and> (\<forall>n r. ls_table s n = Some r \<longrightarrow> row_slots (kinds s n) r) \<and>
     (\<forall>(n, st)\<in>ls_reads s. read_ok s n st) \<and> (\<forall>u\<in>ls_finds s. find_ok s u) \<and>
     distinct (instants (ls_grants s))"

lemma set_instants: "(n, k) \<in> set (instants gs) \<longleftrightarrow> k \<noteq> Plain \<and> (\<exists>g\<in>set gs. g_name g = n \<and> g_kind g = k)"
  by (auto simp: instants_def image_iff)

lemma kinds_mem: "k \<in> kinds s n \<longleftrightarrow> (\<exists>g\<in>set (ls_grants s). g_name g = n \<and> g_kind g = k)"
  by (auto simp: kinds_def)

lemma kinds_update [simp]:
  "kinds (s\<lparr>ls_table := t\<rparr>) = kinds s" "kinds (s\<lparr>ls_clients := c\<rparr>) = kinds s"
  "kinds (s\<lparr>ls_reads := rd\<rparr>) = kinds s" "kinds (s\<lparr>ls_finds := f\<rparr>) = kinds s" "kinds (s\<lparr>ls_now := d\<rparr>) = kinds s"
  by (simp_all add: kinds_def fun_eq_iff)

lemma kinds_granted:
  "kinds (granted s tbl name h sent k) n = (if n = name then insert k (kinds s n) else kinds s n)"
  by (intro set_eqI) (auto simp: kinds_mem granted_def)

lemma no_row_no_kinds: "order_inv s \<Longrightarrow> ls_table s n = None \<Longrightarrow> kinds s n = {}"
  by (force simp: order_inv_def terms_ordered_def kinds_def)

text \<open>A row changed without changing hands.\<close>

lemma order_changed:
  assumes inv: "order_inv s" and r: "ls_table s name = Some r" "lr_term r' = lr_term r"
    "lr_slot r \<le> lr_slot r'" "lr_rerun r' = lr_rerun r"
    "lr_unfinished r' = 0 \<or> lr_unfinished r' = lr_unfinished r \<and> lr_slot r' = lr_slot r"
  shows "order_inv (s\<lparr>ls_table := (ls_table s)(name \<mapsto> r')\<rparr>)"
proof -
  let ?s = "s\<lparr>ls_table := (ls_table s)(name \<mapsto> r')\<rparr>"
  have "terms_ordered ?s" using inv r by (auto simp: order_inv_def terms_ordered_def)
  moreover have "row_slots (kinds s name) r" using inv r(1) by (simp add: order_inv_def)
  then have "row_slots (kinds s name) r'"
    using r by (auto simp: row_slots_def intro: order_trans)
  moreover have "read_ok ?s n st" if "read_ok s n st" for n st
    using that r by (auto simp: read_ok_def)
  moreover have "find_ok ?s u" if "find_ok s u" for u
    using that r by (auto simp: find_ok_def)
  ultimately show ?thesis using inv by (auto simp: order_inv_def)
qed

text \<open>A name that changes hands.\<close>

lemma order_granted:
  assumes inv: "order_inv s" and up: "\<And>r. ls_table s name = Some r \<Longrightarrow> lr_term r < lr_term r'"
    and row: "row_slots (insert k (kinds s name)) r'" and fresh: "k \<noteq> Plain \<Longrightarrow> k \<notin> kinds s name"
  shows "order_inv (granted s ((ls_table s)(name \<mapsto> r')) name h sent k)"
proof -
  let ?s = "granted s ((ls_table s)(name \<mapsto> r')) name h sent k"
  have older: "g_term g < lr_term r'" if "g \<in> set (ls_grants s)" "g_name g = name" for g
    using that inv up unfolding order_inv_def terms_ordered_def by (metis le_less_trans)
  have "terms_ordered ?s"
    using inv older up by (auto simp: order_inv_def terms_ordered_def granted_def sorted_wrt_append intro: less_imp_le)
  moreover have "\<forall>n r. ls_table ?s n = Some r \<longrightarrow> row_slots (kinds ?s n) r"
    using inv row by (auto simp: order_inv_def kinds_granted) (simp_all add: granted_def split: if_splits)
  moreover have "read_ok ?s n st" if "(n, st) \<in> ls_reads s" for n st
  proof -
    from that inv have "read_ok s n st" by (auto simp: order_inv_def)
    then obtain r where "ls_table s n = Some r" "ss_term st \<le> lr_term r"
      "lr_term r = ss_term st \<longrightarrow> (\<forall>x. Slot x \<in> kinds s n \<longrightarrow> x \<le> ss_slot st)" by (auto simp: read_ok_def)
    with up show ?thesis
      unfolding read_ok_def kinds_granted by (cases "n = name") (auto simp: granted_def dest: le_less_trans)
  qed
  moreover have "find_ok ?s u" if "u \<in> ls_finds s" for u
  proof -
    from that inv have "find_ok s u" by (auto simp: order_inv_def)
    with up show ?thesis
      unfolding find_ok_def by (cases "u_name u = name") (auto simp: granted_def dest: le_less_trans)
  qed
  moreover have "distinct (instants (ls_grants ?s))"
    using inv fresh by (auto simp: order_inv_def granted_def instants_def kinds_mem image_iff)
  ultimately show ?thesis by (auto simp: order_inv_def) (simp_all add: granted_def)
qed

lemma order_init: "order_inv (lease_init now)"
  by (simp add: order_inv_def lease_init_def terms_ordered_def instants_def)

lemma order_granted_old:
  assumes inv: "order_inv s" and r: "ls_table s name = Some r" "lr_term r' = lr_term r + 1"
    and row: "row_slots (insert k (kinds s name)) r'" and fresh: "k \<noteq> Plain \<Longrightarrow> k \<notin> kinds s name"
  shows "order_inv (granted s ((ls_table s)(name \<mapsto> r')) name h sent k)"
  by (rule order_granted [OF inv _ row fresh]) (use r in auto)

lemma order_slot_write:
  assumes inv: "order_inv s" and st: "(name, st) \<in> ls_reads s" "ss_slot st < slot"
    and r: "ls_table s name = Some r" "lr_term r = ss_term st"
    and r': "lr_term r' = lr_term r + 1" "lr_slot r' = slot" "lr_unfinished r' = slot" "lr_rerun r' = lr_rerun r"
  shows "order_inv (granted s ((ls_table s)(name \<mapsto> r')) name h sent (Slot slot))"
proof (rule order_granted_old [OF inv r(1) r'(1)])
  from inv st(1) have "read_ok s name st" by (auto simp: order_inv_def)
  with r have le: "x < slot" if "Slot x \<in> kinds s name" for x
    using that st(2) by (auto simp: read_ok_def intro: le_less_trans)
  have "row_slots (kinds s name) r" using inv r(1) by (simp add: order_inv_def)
  with r' le show "row_slots (insert (Slot slot) (kinds s name)) r'"
    by (auto simp: row_slots_def intro: less_imp_le)
  show "Slot slot \<notin> kinds s name" using le by blast
qed

lemma order_rerun:
  assumes inv: "order_inv s" and u: "u \<in> ls_finds s"
    and r: "ls_table s (u_name u) = Some r" "lr_term r = u_term u" "lr_unfinished r = lr_slot r" "lr_rerun r < lr_slot r"
    and r': "lr_term r' = lr_term r + 1" "lr_slot r' = lr_slot r" "lr_unfinished r' = lr_unfinished r" "lr_rerun r' = lr_slot r"
  shows "order_inv (granted s ((ls_table s)(u_name u \<mapsto> r')) (u_name u) h sent (Rerun (u_slot u)))"
proof (rule order_granted_old [OF inv r(1) r'(1)])
  from inv u have "find_ok s u" by (auto simp: order_inv_def)
  with r have eq: "u_slot u = lr_slot r" by (auto simp: find_ok_def)
  have row: "row_slots (kinds s (u_name u)) r" using inv r(1) by (simp add: order_inv_def)
  with r' r eq show "row_slots (insert (Rerun (u_slot u)) (kinds s (u_name u))) r'"
    by (auto simp: row_slots_def intro: less_imp_le le_less_trans order_trans)
  show "Rerun (u_slot u) \<notin> kinds s (u_name u)" using row r eq by (auto simp: row_slots_def)
qed

lemma order_find:
  assumes "u \<in> set (find_unfinished now names tbl)"
  obtains r where "tbl (u_name u) = Some r" "u_term u = lr_term r" "u_slot u = lr_slot r"
  using assms by (induction names) (auto split: option.splits if_splits)

theorem order_step: "lease_step s s' \<Longrightarrow> order_inv s \<Longrightarrow> order_inv s'"
proof (induction rule: lease_step.induct)
  case (claim s holder sent inst name tbl)
  from claim.hyps(3) show ?case
  proof (rule claim_stmt_1)
    fix r assume r: "ls_table s name = Some r" "tbl = (ls_table s)(name \<mapsto> r\<lparr>lr_holder := holder,
      lr_instance := inst, lr_term := lr_term r + 1, lr_expires := ls_now s + leaseDuration\<rparr>)"
    moreover have "row_slots (kinds s name) r" using claim.prems r(1) by (simp add: order_inv_def)
    ultimately show ?thesis
      using claim.prems by (auto intro!: order_granted_old simp: row_slots_def)
  qed
next
  case (insert s holder sent inst name slot tbl)
  note i = insert_stmt_1 [OF insert.hyps(3)]
  then have "kinds s name = {}" using no_row_no_kinds [OF insert.prems] by blast
  then show ?case
    unfolding i [THEN conjunct2] using insert.prems i by (intro order_granted) (auto simp: row_slots_def)
next
  case (slot_write name st s slot holder sent inst tbl)
  from slot_write.hyps(6) show ?case
    by (rule slot_write_stmt_1) (use slot_write in \<open>auto intro!: order_slot_write [of s name st]\<close>)
next
  case (rerun u s holder sent inst tbl)
  from rerun.hyps(4) show ?case
    by (rule rerun_stmt_1) (use rerun in \<open>auto intro!: order_rerun\<close>)
next
  case (slot_read s name st)
  then have "read_ok s name st" by (auto simp: slot_read_stmt_def read_ok_def order_inv_def row_slots_def)
  with slot_read.prems show ?case
    by (auto simp: order_inv_def terms_ordered_def read_ok_def find_ok_def)
next
  case (find u s names)
  then have "find_ok s u" by (auto elim!: order_find simp: find_ok_def)
  with find.prems show ?case by (auto simp: order_inv_def terms_ordered_def read_ok_def find_ok_def)
next
  case (renew s holder cl sent tbl)
  from renew.hyps(4) have "order_inv (s\<lparr>ls_table := tbl\<rparr>)"
    by (rule renew_stmt_1) (use renew.prems in \<open>auto intro!: order_changed\<close>)
  then show ?case by (simp add: order_inv_def terms_ordered_def read_ok_def find_ok_def)
next
  case (renew_unheard s holder cl tbl)
  from renew_unheard.hyps(2) show ?case
    by (rule renew_stmt_1) (use renew_unheard.prems in \<open>auto intro!: order_changed\<close>)
next
  case (release s holder cl n tbl)
  from release.hyps(3) show ?case
    unfolding release_stmt_def by (rule update_row_any) (use release.prems in \<open>auto intro!: order_changed\<close>)
next
  case (finish_held s holder cl passed n tbl)
  from finish_held.hyps(3) show ?case
    unfolding finish_held_stmt_def by (rule update_row_any) (use finish_held.prems in \<open>auto intro!: order_changed\<close>)
next
  case (finish_record s holder cl slot n tbl)
  from finish_record.hyps(3) show ?case
    unfolding finish_record_stmt_def by (rule update_row_any) (use finish_record.prems in \<open>auto intro!: order_changed\<close>)
qed (simp_all add: order_inv_def terms_ordered_def read_ok_def find_ok_def)

lemma reachable_invs:
  assumes "lease_step\<^sup>*\<^sup>* (lease_init now) s"
  shows "excl_inv s \<and> order_inv s"
  using assms
proof (induction rule: rtranclp_induct)
  case base
  show ?case
    using order_init [of now] by (simp add: excl_inv_def protected_def rows_known_def lasts_past_def) (simp add: lease_init_def)
qed (auto intro: excl_step order_step)

text \<open>
  An instant that was claimed and whose round is over: the row no longer names it as unfinished, and
  nothing makes it do so again.
\<close>

definition finished :: "lease_sys \<Rightarrow> string \<Rightarrow> nat \<Rightarrow> bool" where
  "finished s name x \<longleftrightarrow> order_inv s \<and> Slot x \<in> kinds s name \<and> (\<exists>r. ls_table s name = Some r \<and> lr_unfinished r \<noteq> x)"

lemma finished_changed:
  assumes "finished s name x" "order_inv (s\<lparr>ls_table := tbl\<rparr>)" "update_row (ls_table s) n cond f = (k, tbl)" "0 < x"
    "\<And>r. lr_unfinished (f r) = 0 \<or> lr_unfinished (f r) = lr_unfinished r"
  shows "finished (s\<lparr>ls_table := tbl\<rparr>) name x"
proof -
  from assms(3) have "\<exists>r. tbl name = Some r \<and> lr_unfinished r \<noteq> x"
  proof (rule update_row_any)
    fix r assume "ls_table s n = Some r" "tbl = (ls_table s)(n \<mapsto> f r)"
    with assms(1,4) assms(5) [of r] show ?thesis by (cases "n = name") (auto simp: finished_def)
  qed (use assms(1) in \<open>simp add: finished_def\<close>)
  with assms(1,2) show ?thesis by (simp add: finished_def)
qed

lemma finished_granted:
  assumes "finished s name x" "order_inv (granted s ((ls_table s)(n \<mapsto> r')) n h sent k)" "n = name \<Longrightarrow> lr_unfinished r' \<noteq> x \<and> k \<noteq> Rerun x"
  shows "finished (granted s ((ls_table s)(n \<mapsto> r')) n h sent k) name x \<and>
    (Rerun x \<in> kinds (granted s ((ls_table s)(n \<mapsto> r')) n h sent k) name \<longrightarrow> Rerun x \<in> kinds s name)"
proof -
  have "ls_table (granted s ((ls_table s)(n \<mapsto> r')) n h sent k) = (ls_table s)(n \<mapsto> r')" by (simp add: granted_def)
  with assms show ?thesis by (auto simp: finished_def kinds_granted)
qed

lemma finished_step:
  assumes "lease_step s s'" "finished s name x" "0 < x"
  shows "finished s' name x \<and> (Rerun x \<in> kinds s' name \<longrightarrow> Rerun x \<in> kinds s name)"
proof -
  have inv: "order_inv s" "order_inv s'" using assms(1,2) order_step by (auto simp: finished_def)
  obtain r where r: "ls_table s name = Some r" "lr_unfinished r \<noteq> x" "Slot x \<in> kinds s name"
    using assms(2) by (auto simp: finished_def)
  note changed = finished_changed [OF assms(2) _ _ assms(3)]
  from assms(1) show ?thesis
  proof cases
    case (claim holder sent inst n tbl)
    from claim(4) show ?thesis
    proof (rule claim_stmt_1)
      fix q assume "ls_table s n = Some q" "tbl = (ls_table s)(n \<mapsto> q\<lparr>lr_holder := holder, lr_instance := inst,
        lr_term := lr_term q + 1, lr_expires := ls_now s + leaseDuration\<rparr>)"
      with claim(1) inv(2) r show ?thesis by (auto intro!: finished_granted [OF assms(2)])
    qed
  next
    case (insert holder sent inst n slot tbl)
    with insert_stmt_1 [OF insert(4)] inv(2) r show ?thesis by (auto intro!: finished_granted [OF assms(2)])
  next
    case (slot_write n st slot holder sent inst tbl)
    from slot_write(7) show ?thesis
    proof (rule slot_write_stmt_1)
      fix q assume q: "ls_table s n = Some q" "lr_term q = ss_term st" "tbl = (ls_table s)(n \<mapsto> q\<lparr>lr_holder := holder, lr_instance := inst,
        lr_term := lr_term q + 1, lr_expires := ls_now s + leaseDuration, lr_slot := slot, lr_unfinished := slot\<rparr>)"
      have "read_ok s n st" using inv(1) slot_write(2) by (auto simp: order_inv_def)
      then have "n = name \<Longrightarrow> slot \<noteq> x" using q(1,2) r(3) slot_write(4) by (auto simp: read_ok_def)
      with slot_write(1) inv(2) q show ?thesis by (auto intro!: finished_granted [OF assms(2)])
    qed
  next
    case (rerun u holder sent inst tbl)
    from rerun(5) show ?thesis
    proof (rule rerun_stmt_1)
      fix q assume q: "ls_table s (u_name u) = Some q" "lr_term q = u_term u" "lr_unfinished q = lr_slot q" "lr_rerun q < lr_slot q"
        "tbl = (ls_table s)(u_name u \<mapsto> q\<lparr>lr_holder := holder, lr_instance := inst, lr_term := lr_term q + 1,
          lr_expires := ls_now s + leaseDuration, lr_rerun := lr_slot q\<rparr>)"
      have "find_ok s u" using inv(1) rerun(2) by (auto simp: order_inv_def)
      then have "u_name u = name \<Longrightarrow> u_slot u \<noteq> x" using q r(1,2) by (auto simp: find_ok_def)
      with rerun(1) inv(2) q r show ?thesis by (auto intro!: finished_granted [OF assms(2)])
    qed
  next
    case (renew holder cl sent tbl)
    have "order_inv (s\<lparr>ls_table := tbl\<rparr>)"
      using inv(2) by (simp add: renew(1) order_inv_def terms_ordered_def read_ok_def find_ok_def)
    then have "finished (s\<lparr>ls_table := tbl\<rparr>) name x" using renew(5) unfolding renew_stmt_def by (rule changed) simp
    with inv(2) show ?thesis by (simp add: renew(1) finished_def)
  next
    case (renew_unheard holder cl tbl)
    with inv(2) show ?thesis by (auto intro!: changed simp: renew_stmt_def)
  next
    case (release holder cl n tbl)
    with inv(2) show ?thesis by (auto intro!: changed simp: release_stmt_def)
  next
    case (finish_held holder cl passed n tbl)
    with inv(2) show ?thesis by (auto intro!: changed simp: finish_held_stmt_def)
  next
    case (finish_record holder cl slot n tbl)
    with inv(2) show ?thesis by (auto intro!: changed simp: finish_record_stmt_def)
  qed (use assms(2) inv(2) in \<open>auto simp: finished_def\<close>)
qed

lemma rerun_not_after:
  "lease_step\<^sup>*\<^sup>* s s' \<Longrightarrow> finished s name x \<Longrightarrow> 0 < x \<Longrightarrow> finished s' name x \<and> (Rerun x \<in> kinds s' name \<longrightarrow> Rerun x \<in> kinds s name)"
  by (induction rule: rtranclp_induct) (auto dest: finished_step)

lemma finish_finishes:
  assumes o: "order_inv s" and x: "0 < x" "Slot x \<in> kinds s name"
    and f: "finish_held_stmt now name holder passed (ls_table s) = (1, tbl) \<or> finish_record_stmt name x (ls_table s) = (n, tbl)"
  shows "finished (s\<lparr>ls_table := tbl\<rparr>) name x"
proof -
  from o x(2) no_row_no_kinds [of s name] obtain r where r: "ls_table s name = Some r" by fastforce
  from f consider q where "ls_table s name = Some q" "tbl = (ls_table s)(name \<mapsto> q\<lparr>lr_expires := 0, lr_unfinished := 0,
      lr_slot := (if lr_slot q < passed \<and> passed \<le> now then passed else lr_slot q)\<rparr>)"
    | "tbl = (ls_table s)(name \<mapsto> r\<lparr>lr_unfinished := 0\<rparr>)" | "tbl = ls_table s" "lr_unfinished r \<noteq> x"
    using r by (auto simp: finish_held_stmt_def finish_record_stmt_def update_row_def split: if_splits)
  then show ?thesis
  proof cases
    case 1
    then have "order_inv (s\<lparr>ls_table := tbl\<rparr>)" using o by (auto intro!: order_changed)
    with 1 x show ?thesis by (simp add: finished_def)
  next
    case 2
    then have "order_inv (s\<lparr>ls_table := tbl\<rparr>)" using o r by (auto intro!: order_changed)
    with 2 x show ?thesis by (simp add: finished_def)
  next
    case 3
    with o r x show ?thesis by (simp add: finished_def)
  qed
qed

section \<open>Properties\<close>

text \<open>
  C4: mutual exclusion with a margin. In every state processes can reach, at most one of them acts under
  a name; one whose transaction guard passes is that one; and whenever the name can be claimed, every
  process that has not given it up passed its own deadline at least five seconds ago.
\<close>

theorem lease_mutual_exclusion:
  assumes "lease_step\<^sup>*\<^sup>* (lease_init start) s"
  shows "(acting s name h1 \<and> acting s name h2 \<longrightarrow> h1 = h2) \<and>
    (acting s name h1 \<and> verify_stmt (ls_now s) name h2 (ls_table s) \<noteq> None \<longrightarrow> h1 = h2) \<and>
    (\<forall>cl r. ls_clients s h1 = Some cl \<and> cl_live cl \<and> cl_name cl = name \<and> ls_table s name = Some r \<and>
        lr_expires r \<le> ls_now s \<longrightarrow> cl_last cl + localDeadline + 5000 \<le> ls_now s)"
proof -
  have p: "protected s" using reachable_invs [OF assms] by (simp add: excl_inv_def)
  have act: "\<exists>r. ls_table s name = Some r \<and> lr_holder r = h" if "acting s name h" for h
    using that p by (fastforce simp: acting_def protected_def timings split: option.splits)
  have exp: "cl_last cl + leaseDuration \<le> ls_now s"
    if "ls_clients s h1 = Some cl" "cl_live cl" "cl_name cl = name" "ls_table s name = Some r" "lr_expires r \<le> ls_now s" for cl r
    using that p by (force simp: protected_def)
  show ?thesis
  proof (intro conjI)
    show "acting s name h1 \<and> acting s name h2 \<longrightarrow> h1 = h2"
      using act [of h1] act [of h2] by auto
    show "acting s name h1 \<and> verify_stmt (ls_now s) name h2 (ls_table s) \<noteq> None \<longrightarrow> h1 = h2"
      using act [of h1] by (auto simp: verify_stmt_def split: if_splits)
    show "\<forall>cl r. ls_clients s h1 = Some cl \<and> cl_live cl \<and> cl_name cl = name \<and> ls_table s name = Some r \<and>
        lr_expires r \<le> ls_now s \<longrightarrow> cl_last cl + localDeadline + 5000 \<le> ls_now s"
    proof (intro allI impI, elim conjE)
      fix cl r
      assume "ls_clients s h1 = Some cl" "cl_live cl" "cl_name cl = name" "ls_table s name = Some r"
        "lr_expires r \<le> ls_now s"
      from exp [OF this] show "cl_last cl + localDeadline + 5000 \<le> ls_now s" by (simp add: timings)
    qed
  qed
qed

text \<open>A run of one job: its instant claimed by a first replica, which dies, and again by a second.\<close>

definition demo_row :: lease_row where
  "demo_row = \<lparr>lr_holder = ''h1'', lr_instance = ''a'', lr_term = 1, lr_expires = 16000, lr_slot = 900,
               lr_unfinished = 900, lr_rerun = 0\<rparr>"

definition demo1 :: lease_sys where
  "demo1 = granted (lease_init 1000) [''cron:x'' \<mapsto> demo_row] ''cron:x'' ''h1'' 990 (Slot 900)"

definition demo2 :: lease_sys where
  "demo2 = demo1\<lparr>ls_now := 1000 + 20000,
     ls_finds := {\<lparr>u_name = ''cron:x'', u_slot = 900, u_rerun = False, u_term = 1\<rparr>}\<rparr>"

definition demo3 :: lease_sys where
  "demo3 = granted demo2 [''cron:x'' \<mapsto> demo_row\<lparr>lr_holder := ''h2'', lr_instance := ''b'', lr_term := 2,
       lr_expires := 36000, lr_rerun := 900\<rparr>] ''cron:x'' ''h2'' 20990 (Rerun 900)"

lemma demo1_reachable: "lease_step\<^sup>*\<^sup>* (lease_init 1000) demo1"
proof -
  have "lease_step (lease_init 1000) (granted (lease_init 1000) [''cron:x'' \<mapsto> demo_row] ''cron:x'' ''h1'' 990
      (if (900::nat) = 0 then Plain else Slot 900))"
    by (rule lease_step.insert [where inst = "''a''"]) (simp_all add: lease_init_def insert_stmt_def demo_row_def timings)
  then show ?thesis by (simp add: demo1_def)
qed

lemma demo3_reachable: "lease_step\<^sup>*\<^sup>* (lease_init 1000) demo3"
proof -
  let ?u = "\<lparr>u_name = ''cron:x'', u_slot = 900, u_rerun = False, u_term = 1\<rparr>"
  let ?c = "demo1\<lparr>ls_now := ls_now demo1 + 20000\<rparr>"
  have "lease_step demo1 ?c" by (rule lease_step.clock)
  moreover have "lease_step ?c (?c\<lparr>ls_finds := Set.insert ?u (ls_finds ?c)\<rparr>)"
    by (rule lease_step.find [where names = "[''cron:x'']"])
      (simp add: demo1_def granted_def unfinished_now_def demo_row_def lease_init_def)
  moreover have "?c\<lparr>ls_finds := Set.insert ?u (ls_finds ?c)\<rparr> = demo2"
    by (simp add: demo2_def demo1_def granted_def lease_init_def)
  moreover have "lease_step demo2 demo3"
    unfolding demo3_def by (rule lease_step.rerun [where u = ?u and inst = "''b''", simplified])
      (simp_all add: demo2_def demo1_def granted_def lease_init_def rerun_stmt_def update_row_def demo_row_def timings
        numeral_2_eq_2)
  ultimately show ?thesis using demo1_reachable by (metis (no_types) rtranclp.rtrancl_into_rtrancl)
qed

theorem lease_mutual_exclusion_witness:
  "acting demo1 ''cron:x'' ''h1'' \<and> \<not> acting demo1 ''cron:x'' ''h2'' \<and> acting demo3 ''cron:x'' ''h2'' \<and>
   \<not> acting demo3 ''cron:x'' ''h1''"
proof -
  have "acting demo1 ''cron:x'' ''h1''" "acting demo3 ''cron:x'' ''h2''"
    by (simp_all add: acting_def demo1_def demo2_def demo3_def granted_def lease_init_def timings)
  then show ?thesis
    using lease_mutual_exclusion [OF demo1_reachable, of "''cron:x''" "''h1''" "''h2''"]
      lease_mutual_exclusion [OF demo3_reachable, of "''cron:x''" "''h1''" "''h2''"] by auto
qed

text \<open>
  Fencing. The claims granted under one name carry strictly increasing terms, in the order they
  were granted, and no claim carries a term above the row's.
\<close>

theorem lease_terms_increase:
  assumes "lease_step\<^sup>*\<^sup>* (lease_init start) s"
  shows "sorted_wrt (\<lambda>a b. g_name a = g_name b \<longrightarrow> g_term a < g_term b) (ls_grants s) \<and>
    (\<forall>g\<in>set (ls_grants s). \<exists>r. ls_table s (g_name g) = Some r \<and> g_term g \<le> lr_term r)"
  using reachable_invs [OF assms] by (simp add: order_inv_def terms_ordered_def)

theorem lease_terms_increase_witness:
  "\<exists>r. ls_table demo3 ''cron:x'' = Some r \<and> 2 \<le> lr_term r"
  using lease_terms_increase [OF demo3_reachable]
  by (simp add: demo3_def demo2_def demo1_def granted_def lease_init_def)

text \<open>
  C26: every instant of a job is claimed at most once across the deployment and at most once more, never a
  second time without the first, and the second time only when its round was cut short: once the end of a
  round has reached the row, while the row is still the holder's or, after that, as the record that the
  instant is unfinished, no second claim of the instant is granted that was not granted before, whatever
  the replicas do from then on and however their reads and writes interleave.
\<close>

theorem slot_claimed_once_rerun_once:
  assumes "lease_step\<^sup>*\<^sup>* (lease_init start) s"
  shows "distinct (instants (ls_grants s)) \<and>
    (Rerun x \<in> kinds s name \<longrightarrow> Slot x \<in> kinds s name) \<and>
    (\<forall>holder passed n tbl s'. 0 < x \<and> Slot x \<in> kinds s name \<and>
       (finish_held_stmt (ls_now s) name holder passed (ls_table s) = (1, tbl) \<or> finish_record_stmt name x (ls_table s) = (n, tbl)) \<and>
       lease_step\<^sup>*\<^sup>* (s\<lparr>ls_table := tbl\<rparr>) s' \<and> Rerun x \<in> kinds s' name \<longrightarrow> Rerun x \<in> kinds s name)"
proof -
  have o: "order_inv s" using reachable_invs [OF assms] by simp
  have "Slot x \<in> kinds s name" if "Rerun x \<in> kinds s name"
  proof -
    from that no_row_no_kinds [OF o] obtain r where "ls_table s name = Some r" by fastforce
    with o that show ?thesis by (auto simp: order_inv_def row_slots_def)
  qed
  moreover have "Rerun x \<in> kinds s name"
    if x: "0 < x" "Slot x \<in> kinds s name" and s': "lease_step\<^sup>*\<^sup>* (s\<lparr>ls_table := tbl\<rparr>) s'" "Rerun x \<in> kinds s' name"
      and f: "finish_held_stmt (ls_now s) name holder passed (ls_table s) = (1, tbl) \<or> finish_record_stmt name x (ls_table s) = (n, tbl)"
    for holder passed n tbl s'
  proof -
    have "finished (s\<lparr>ls_table := tbl\<rparr>) name x" using f by (rule finish_finishes [OF o x])
    from rerun_not_after [OF s'(1) this x(1)] s'(2) show ?thesis by simp
  qed
  moreover have "distinct (instants (ls_grants s))" using o by (simp add: order_inv_def)
  ultimately show ?thesis by blast
qed

text \<open>The run above; and the same first round, had it ended.\<close>

definition demo_finished :: lease_table where
  "demo_finished = [''cron:x'' \<mapsto> demo_row\<lparr>lr_expires := 0, lr_unfinished := 0\<rparr>]"

theorem slot_claimed_once_rerun_once_witness:
  "Rerun 900 \<in> kinds demo3 ''cron:x'' \<and> Slot 900 \<in> kinds demo3 ''cron:x'' \<and>
   finish_held_stmt (ls_now demo1) ''cron:x'' ''h1'' 900 (ls_table demo1) = (1, demo_finished) \<and>
   {s'. lease_step\<^sup>*\<^sup>* (demo1\<lparr>ls_table := demo_finished\<rparr>) s' \<and> Rerun 900 \<in> kinds s' ''cron:x''} = {}"
proof -
  have "Rerun 900 \<in> kinds demo3 ''cron:x''" by (simp add: demo3_def kinds_granted)
  moreover from this have "Slot 900 \<in> kinds demo3 ''cron:x''"
    using slot_claimed_once_rerun_once [OF demo3_reachable, of 900 "''cron:x''"] by blast
  moreover have f: "finish_held_stmt (ls_now demo1) ''cron:x'' ''h1'' 900 (ls_table demo1) = (1, demo_finished)"
    by (simp add: demo1_def granted_def lease_init_def finish_held_stmt_def update_row_def demo_row_def demo_finished_def)
  moreover have k: "Slot 900 \<in> kinds demo1 ''cron:x''" "Rerun 900 \<notin> kinds demo1 ''cron:x''"
    by (simp_all add: demo1_def kinds_granted) (simp add: kinds_def lease_init_def)
  have "Rerun 900 \<notin> kinds s' ''cron:x''" if "lease_step\<^sup>*\<^sup>* (demo1\<lparr>ls_table := demo_finished\<rparr>) s'" for s'
    using slot_claimed_once_rerun_once [OF demo1_reachable, of 900 "''cron:x''"] f k that by fastforce
  ultimately show ?thesis by blast
qed

text \<open>
  The record of the last instant can move back. The write of an instant's claim compares the term
  and the expiry but not the instant recorded, and the end of a round changes that record without
  changing the term. A replica that read the row after the round's lease expired and writes after the
  round's own \<open>Finish\<close> recorded the instants it overran claims one of those instants, and the row's
  last instant goes from 300 back to 200.
\<close>

theorem slot_record_can_move_back:
  "let row = \<lparr>lr_holder = ''h1'', lr_instance = ''a'', lr_term = 1, lr_expires = 1000, lr_slot = 100,
              lr_unfinished = 100, lr_rerun = 0\<rparr>;
       h1 = (newHandle ''cron:x'' ''h1'' 1 0)\<lparr>h_slotMs := 100\<rparr>;
       db = \<lparr>conn_dialect = Some ''postgres'', conn_now = 2000\<rparr>;
       finish = (\<lambda>t. snd (Finish db (\<lambda>_. None) h1 300 t));
       tbl = [''cron:x'' \<mapsto> row];
       res = ClaimSlot db (\<lambda>_. None) finish 2000 ''h2'' ''b'' 2000 ''cron:x'' 200 tbl
   in fst (Finish db (\<lambda>_. None) h1 300 tbl) = None \<and>
      map_option lr_slot (finish tbl ''cron:x'') = Some 300 \<and>
      (\<exists>h. fst res = Inr (Some h) \<and> h_slotMs h = 200) \<and>
      map_option lr_slot (snd res ''cron:x'') = Some 200"
  by (simp add: Finish_def ClaimSlot_def ValidateName_def nameMaxLength_def primary_def nowExpression_def
      run_stmt_def finish_held_stmt_def slot_read_stmt_def slot_write_stmt_def update_row_def newHandle_def
      slot_handle_def Let_def)

end
