(* ===== verification/Lease_Hold.thy ===== *)
theory Lease_Hold
  imports Lease
begin

text \<open>
  A holder's side of a lease, \<^verbatim>\<open>src/internal/lease/hold.go\<close>, and the lock built on it,
  \<^verbatim>\<open>src/lock/lock.go\<close>. The renewal goroutine is a loop over what its attempts come to; times are
  the process's own clock, in milliseconds, and integers, since the code subtracts them. An attempt
  lasts as long as the database takes, cut at the timeout its context carries; timers fire when due.
\<close>

section \<open>The renewal loop\<close>

definition untilNextRenewal :: "int \<Rightarrow> int \<Rightarrow> int \<Rightarrow> int \<Rightarrow> int \<Rightarrow> int" where
  "untilNextRenewal now attempted last_ok interval deadline =
     max (min (attempted + interval - now) (last_ok + deadline - now)) 0"

datatype renewal = Renewed | Gone | Failed string

datatype lose_reason = NoRenewalInTime | NoLongerHolder

datatype hold_outcome =
    Lost lose_reason int int
  | Stopped int
  | Waiting int int int

text \<open>
  One turn of the loop, from the timer firing at \<open>now\<close>. \<open>took\<close> is how long the database takes to
  answer, \<open>stopping\<close> whether \<open>stop\<close> was called before it did. \<open>Lost\<close> carries when the loss is known
  and the last success it counts from; \<open>Waiting\<close> the last attempt, the last success and when the
  timer fires next.
\<close>

definition hold_turn :: "int \<Rightarrow> int \<Rightarrow> int \<Rightarrow> int \<Rightarrow> renewal \<times> int \<times> bool \<Rightarrow> hold_outcome" where
  "hold_turn interval deadline last_ok now ev =
     (case ev of (result, took, stopping) \<Rightarrow>
        (let remaining = last_ok + deadline - now
         in if remaining \<le> 0 then Lost NoRenewalInTime now last_ok
            else
              (let timeout = min (deadline div 2) remaining;
                   end_at = now + min took timeout;
                   outcome = (if took < timeout then result else Failed ''timeout'')
               in if outcome = Gone then Lost NoLongerHolder end_at last_ok
                  else if outcome \<noteq> Renewed \<and> stopping then Stopped end_at
                  else
                    (let last' = (if outcome = Renewed then now else last_ok)
                     in if end_at - last' \<ge> deadline then Lost NoRenewalInTime end_at last'
                        else Waiting now last' (end_at + untilNextRenewal end_at now last' interval deadline)))))"

text \<open>The loop; it goes on for as long as there are events.\<close>

fun hold_loop :: "int \<Rightarrow> int \<Rightarrow> int \<Rightarrow> int \<Rightarrow> (renewal \<times> int \<times> bool) list \<Rightarrow> hold_outcome" where
  "hold_loop interval deadline last_ok wake [] = Waiting wake last_ok wake"
| "hold_loop interval deadline last_ok wake (ev # evs) =
     (case hold_turn interval deadline last_ok wake ev of
        Waiting attempted last' wake' \<Rightarrow> hold_loop interval deadline last' wake' evs
      | outcome \<Rightarrow> outcome)"

definition Hold :: "int \<Rightarrow> (renewal \<times> int \<times> bool) list \<Rightarrow> hold_outcome" where
  "Hold claimedAt evs =
     hold_loop (int renewInterval) (int localDeadline) claimedAt
       (claimedAt + untilNextRenewal claimedAt claimedAt claimedAt (int renewInterval) (int localDeadline)) evs"

section \<open>Run\<close>

text \<open>
  What can end the wait of \<open>Run\<close>: the work returning, the loss of the lease, or the context ending for
  another reason; each with when it happens, if it does. The process fails when the work is still
  running a grace after the loss.
\<close>

definition run_fails :: "int option \<Rightarrow> int option \<Rightarrow> bool" where
  "run_fails returned lost =
     (case lost of
        None \<Rightarrow> False
      | Some l \<Rightarrow> (case returned of None \<Rightarrow> True | Some r \<Rightarrow> \<not> r < l + int stepDownGrace))"

section \<open>Locks\<close>

datatype lock_error =
    LockNoName
  | LockDeclaredTwice string
  | LockBadName string lease_error
  | LockUnavailable string lease_error
  | LockInTransaction string
  | LockHeld string
  | LockClaim string lease_error
  | LockLost string
  | LockWork string

record lock_package =
  locks :: "string list"
  errDeclare :: "lock_error list"
  started :: bool

definition leaseName :: "string \<Rightarrow> string" where
  "leaseName name = ''lock:'' @ name"

text \<open>\<open>None\<close> is the panic of a declaration after the start.\<close>

definition lock_New :: "lock_package \<Rightarrow> string \<Rightarrow> lock_package option" where
  "lock_New p name0 =
     (if started p then None
      else
        (let name = TrimSpace name0
         in if name = [] then Some (p\<lparr>errDeclare := errDeclare p @ [LockNoName]\<rparr>)
            else if name \<in> set (locks p) then Some (p\<lparr>errDeclare := errDeclare p @ [LockDeclaredTwice name]\<rparr>)
            else
              (case ValidateName (leaseName name) of
                 Some e \<Rightarrow> Some (p\<lparr>errDeclare := errDeclare p @ [LockBadName name e]\<rparr>)
               | None \<Rightarrow> Some (p\<lparr>locks := locks p @ [name]\<rparr>))))"

definition lock_start :: "conn \<Rightarrow> lock_package \<Rightarrow> lock_error list \<times> lock_package" where
  "lock_start c p =
     (let err = (if errDeclare p \<noteq> [] then errDeclare p
                 else if locks p \<noteq> [] then
                   (case Available c of None \<Rightarrow> [] | Some e \<Rightarrow> [LockUnavailable (hd (locks p)) e])
                 else [])
      in (err, if err = [] then p\<lparr>started := True\<rparr> else p))"

text \<open>
  \<open>work\<close> is \<open>fn\<close> under \<open>Hold\<close> and \<open>Run\<close>: what it returned, whether the lease was lost meanwhile, and
  the table as it left it. The result is the joined errors, none meaning success.
\<close>

definition TryRun ::
  "bool \<Rightarrow> conn \<Rightarrow> answers \<Rightarrow> conn \<Rightarrow> string option \<Rightarrow> string \<Rightarrow> string \<Rightarrow> nat \<Rightarrow> string \<Rightarrow>
     (Handle \<Rightarrow> lease_table \<Rightarrow> string option \<times> bool \<times> lease_table) \<Rightarrow> lease_table \<Rightarrow>
     lock_error list \<times> lease_table" where
  "TryRun inTransaction c ans c' releaseAnswer holder inst claimedAt name work tbl =
     (if inTransaction then ([LockInTransaction name], tbl)
      else
        (case Claim c ans holder inst claimedAt (leaseName name) tbl of
           (Inl e, tbl') \<Rightarrow> ([LockClaim name e], tbl')
         | (Inr None, tbl') \<Rightarrow> ([LockHeld name], tbl')
         | (Inr (Some h), tbl') \<Rightarrow>
             (case work h tbl' of
                (err, lost, tbl2) \<Rightarrow>
                  (let werr = (case err of None \<Rightarrow> [] | Some e \<Rightarrow> [LockWork e])
                   in if lost then (LockLost name # werr, tbl2)
                      else (werr, snd (Release c' (\<lambda>_. releaseAnswer) h tbl2))))))"

section \<open>Lemmas\<close>

lemma untilNextRenewal_deadline:
  "now \<le> last_ok + deadline \<Longrightarrow> now + untilNextRenewal now attempted last_ok interval deadline \<le> last_ok + deadline"
  by (simp add: untilNextRenewal_def)

lemma hold_turn_bound:
  assumes "now \<le> last_ok + deadline" "last_ok \<le> now" "0 \<le> took" "0 < deadline" "0 \<le> interval"
  shows "case hold_turn interval deadline last_ok now (result, took, stopping) of
      Lost _ at from \<Rightarrow> at \<le> from + deadline \<and> last_ok \<le> from
    | Stopped at \<Rightarrow> at \<le> last_ok + deadline
    | Waiting attempted last' wake \<Rightarrow> last_ok \<le> last' \<and> last' \<le> wake \<and> wake \<le> last' + deadline"
  using assms by (auto simp: hold_turn_def Let_def untilNextRenewal_def min_def max_def)

lemma hold_loop_bound:
  assumes "wake \<le> last_ok + deadline" "last_ok \<le> wake" "\<forall>(r, took, st)\<in>set evs. 0 \<le> took" "0 < deadline" "0 \<le> interval"
  shows "case hold_loop interval deadline last_ok wake evs of
      Lost _ at from \<Rightarrow> at \<le> from + deadline \<and> last_ok \<le> from
    | Stopped at \<Rightarrow> True
    | Waiting attempted last' wake' \<Rightarrow> last_ok \<le> last' \<and> last' \<le> wake' \<and> wake' \<le> last' + deadline"
  using assms
proof (induction evs arbitrary: last_ok wake)
  case (Cons ev evs)
  obtain r took st where ev: "ev = (r, took, st)" by (cases ev)
  have took: "0 \<le> took" using Cons.prems ev by auto
  note b = hold_turn_bound [OF Cons.prems(1,2) took Cons.prems(4,5), of r st]
  show ?case
  proof (cases "hold_turn interval deadline last_ok wake ev")
    case (Waiting a l w)
    with b ev have "last_ok \<le> l" "l \<le> w" "w \<le> l + deadline" by auto
    with Cons.IH [of w l] Cons.prems Waiting show ?thesis
      by (auto split: hold_outcome.splits)
  qed (use b ev in auto)
qed simp

lemma claim_answered:
  assumes "ValidateName name = None" "primary c = Inr now"
  shows "Claim c (\<lambda>_. None) holder inst at name tbl =
    (case tbl name of
       None \<Rightarrow> (Inr (Some (newHandle name holder 1 at)), snd (insert_stmt now holder inst name 0 tbl))
     | Some r \<Rightarrow>
         if lr_expires r \<le> now
         then (Inr (Some (newHandle name holder (lr_term r + 1) at)), snd (claim_stmt now holder inst name tbl))
         else (Inr None, tbl))"
  using assms
  by (cases "tbl name")
    (simp_all add: Claim_def run_stmt_def claim_stmt_def update_row_def insertClaim_def insert_stmt_def handleOf_def
      term_stmt_def newHandle_def)

section \<open>Properties\<close>



text \<open>
  A try never waits and never runs beside a holder. Outside a transaction, with a database that
  answers, \<open>TryRun\<close> is refused exactly when the row is held, leaving the table as it was and the work
  not run; otherwise the work runs with the row holding this claim's token for a full lease duration,
  and afterwards the name is given back unless the lease was lost.
\<close>

theorem lock_try_run:
  assumes "ValidateName (leaseName name) = None" "primary c = Inr now" "primary c' = Inr now'"
  shows "if \<exists>r. tbl (leaseName name) = Some r \<and> now < lr_expires r
    then TryRun False c (\<lambda>_. None) c' None holder inst at name work tbl = ([LockHeld name], tbl)
    else \<exists>h r. h_holder h = holder \<and> h_name h = leaseName name \<and> lr_holder r = holder \<and>
      lr_term r = h_term h \<and> lr_expires r = now + leaseDuration \<and>
      TryRun False c (\<lambda>_. None) c' None holder inst at name work tbl =
        (case work h (tbl(leaseName name \<mapsto> r)) of
           (err, lost, tbl2) \<Rightarrow>
             if lost then (LockLost name # (case err of None \<Rightarrow> [] | Some e \<Rightarrow> [LockWork e]), tbl2)
             else (case err of None \<Rightarrow> [] | Some e \<Rightarrow> [LockWork e],
                   snd (release_stmt (leaseName name) holder tbl2)))"
proof (cases "tbl (leaseName name)")
  case None
  let ?r = "\<lparr>lr_holder = holder, lr_instance = inst, lr_term = 1, lr_expires = now + leaseDuration, lr_slot = 0,
     lr_unfinished = 0, lr_rerun = 0\<rparr>"
  show ?thesis
    using None assms
    by (auto simp: TryRun_def claim_answered insert_stmt_def Release_def run_stmt_def newHandle_def Let_def
        split: prod.splits intro!: exI [of _ "newHandle (leaseName name) holder 1 at"] exI [of _ ?r])
next
  case (Some r)
  let ?r = "r\<lparr>lr_holder := holder, lr_instance := inst, lr_term := lr_term r + 1, lr_expires := now + leaseDuration\<rparr>"
  show ?thesis
    using Some assms
    by (auto simp: TryRun_def claim_answered claim_stmt_def update_row_def Release_def run_stmt_def newHandle_def Let_def
        split: prod.splits
        intro!: exI [of _ "newHandle (leaseName name) holder (lr_term r + 1) at"] exI [of _ ?r])
qed

theorem lock_try_run_witness:
  "\<exists>t. TryRun False \<lparr>conn_dialect = Some ''sqlite'', conn_now = 5\<rparr> (\<lambda>_. None)
     \<lparr>conn_dialect = Some ''sqlite'', conn_now = 9\<rparr> None ''h1'' ''a'' 4 ''report'' (\<lambda>h t. (None, False, t)) Map.empty = ([], t)"
proof -
  have v: "ValidateName (leaseName ''report'') = None" by (simp add: ValidateName_def leaseName_def nameMaxLength_def)
  have p: "primary \<lparr>conn_dialect = Some ''sqlite'', conn_now = 5\<rparr> = Inr 5"
    "primary \<lparr>conn_dialect = Some ''sqlite'', conn_now = 9\<rparr> = Inr 9"
    by (simp_all add: primary_def nowExpression_def)
  show ?thesis
    using lock_try_run [OF v p, of Map.empty "''h1''" "''a''" 4 "\<lambda>h t. (None, False, t)"] by auto
qed

end
