(* ===== verification/Cron_Schedule.thy ===== *)
theory Cron_Schedule
  imports Prelude "HOL-Library.Signed_Division"
begin

text \<open>
  The schedule arithmetic of the scheduler, \<^verbatim>\<open>src/cronjob/schedule.go\<close>, and what a job's loop computes
  from it, \<open>nextAfter\<close> and \<open>instantsBetween\<close> of \<^verbatim>\<open>job.go\<close>. Times are nanoseconds since the Unix epoch;
  \<open>None\<close> is Go's zero time, which a schedule answers when it has no instant left. The cron library is
  not part of the repository: a parsed expression is the function it answers with, and the locale
  \<open>schedule\<close> states what is documented of it, the first instant after a moment, and that instants are
  whole seconds apart at least. The repository's own schedule, the grid of an \<open>@every\<close>, satisfies it.
\<close>

section \<open>Expressions\<close>

text \<open>\<open>strings.Cut\<close> at the first blank: what comes before it, what comes after it.\<close>

fun cut_blank :: "string \<Rightarrow> string \<times> string" where
  "cut_blank [] = ([], [])"
| "cut_blank (c # cs) = (if c = CHR '' '' then ([], cs) else (let (a, b) = cut_blank cs in (c # a, b)))"

definition zoneOf :: "string \<Rightarrow> string \<times> bool" where
  "zoneOf spec =
     (let first = fst (cut_blank spec)
      in case strip_prefix ''CRON_TZ='' first of
           Some zone \<Rightarrow> (zone, True)
         | None \<Rightarrow> (case strip_prefix ''TZ='' first of Some zone \<Rightarrow> (zone, True) | None \<Rightarrow> (first, False)))"

datatype location = Local | UTC | Zone string

text \<open>What the parser returns: an expression with a zone, a constant delay, or another schedule.\<close>

datatype cron_schedule =
    SpecSchedule "location \<Rightarrow> int \<Rightarrow> int option" location
  | ConstantDelay int
  | OtherSchedule "int \<Rightarrow> int option"
  | EverySchedule int

text \<open>Go's division of integers truncates.\<close>

definition everySchedule_Next :: "int \<Rightarrow> int \<Rightarrow> int option" where
  "everySchedule_Next period t = (if period \<le> 0 then None else Some ((t sdiv period + 1) * period))"

definition inUTC :: "cron_schedule \<Rightarrow> cron_schedule" where
  "inUTC s =
     (case s of
        SpecSchedule f loc \<Rightarrow> SpecSchedule f (if loc = Local then UTC else loc)
      | ConstantDelay d \<Rightarrow> EverySchedule d
      | _ \<Rightarrow> s)"

text \<open>The library's constant delay counts from the moment it is asked at, in whole seconds.\<close>

definition Second :: int where "Second = 1000000000"
definition Millisecond :: int where "Millisecond = 1000000"

definition schedule_Next :: "cron_schedule \<Rightarrow> int \<Rightarrow> int option" where
  "schedule_Next s t =
     (case s of
        SpecSchedule f loc \<Rightarrow> f loc t
      | ConstantDelay d \<Rightarrow> Some (t + d - t mod Second)
      | OtherSchedule f \<Rightarrow> f t
      | EverySchedule p \<Rightarrow> everySchedule_Next p t)"

section \<open>The instant before a moment\<close>

definition catchUpLookback :: int where
  "catchUpLookback = 24 * 60 * 60 * Second"

text \<open>Whether a schedule asked at a moment answers with one that has come by now.\<close>

definition come_by :: "(int \<Rightarrow> int option) \<Rightarrow> int \<Rightarrow> int \<Rightarrow> bool" where
  "come_by Next now t = (case Next t of None \<Rightarrow> False | Some n \<Rightarrow> n \<le> now)"

function bisect :: "(int \<Rightarrow> int option) \<Rightarrow> int \<Rightarrow> int \<Rightarrow> int \<Rightarrow> int" where
  "bisect Next now lo hi =
     (if hi - lo > Millisecond then
        (let mid = lo + (hi - lo) div 2
         in if come_by Next now mid then bisect Next now mid hi else bisect Next now lo mid)
      else lo)"
  by auto
termination
  by (relation "measure (\<lambda>(Next, now, lo, hi). nat (hi - lo))") (auto simp: Millisecond_def)

declare bisect.simps [simp del]

definition previousInstant :: "(int \<Rightarrow> int option) \<Rightarrow> int \<Rightarrow> int option" where
  "previousInstant Next now =
     (let lo = now - catchUpLookback
      in if \<not> come_by Next now lo then None else Next (bisect Next now lo now))"

section \<open>The instant after a round\<close>

text \<open>The loop counts to an instant, or, to the zero time, not at all.\<close>

partial_function (option) count_instants :: "(int \<Rightarrow> int option) \<Rightarrow> int option \<Rightarrow> int option \<Rightarrow> nat option" where
  "count_instants Next t to =
     (case (t, to) of
        (Some t', Some to') \<Rightarrow>
          if t' < to' then Option.bind (count_instants Next (Next t') to) (\<lambda>n. Some (n + 1)) else Some 0
      | _ \<Rightarrow> Some 0)"

definition instantsBetween :: "(int \<Rightarrow> int option) \<Rightarrow> int \<Rightarrow> int option \<Rightarrow> nat option" where
  "instantsBetween Next from to = count_instants Next (Next from) to"

text \<open>What \<open>nextAfter\<close> returns, with the number of skipped instants its log entry carries.\<close>

definition nextAfter :: "(int \<Rightarrow> int option) \<Rightarrow> int \<Rightarrow> int \<Rightarrow> (int option \<times> nat) option" where
  "nextAfter Next now at =
     (let after = (if now < at then at else now); following = Next after
      in map_option (\<lambda>skipped. (following, skipped)) (instantsBetween Next at following))"

section \<open>The contract of a schedule\<close>

locale schedule =
  fixes Next :: "int \<Rightarrow> int option"
  assumes next_later: "0 \<le> t \<Longrightarrow> Next t = Some n \<Longrightarrow> t < n"
    and next_first: "0 \<le> t \<Longrightarrow> t \<le> t' \<Longrightarrow> Next t = Some n \<Longrightarrow> t' < n \<Longrightarrow> Next t' = Some n"
    and next_none: "0 \<le> t \<Longrightarrow> t \<le> t' \<Longrightarrow> Next t = None \<Longrightarrow> Next t' = None"
    and next_apart: "0 \<le> t \<Longrightarrow> Next t = Some n \<Longrightarrow> Next n = Some n' \<Longrightarrow> n + Second \<le> n'"
begin

definition instant :: "int \<Rightarrow> bool" where
  "instant n \<longleftrightarrow> (\<exists>t\<ge>0. Next t = Some n)"

lemma instant_pos: "instant n \<Longrightarrow> 0 < n"
  using next_later by (fastforce simp: instant_def)

text \<open>The answer is the first instant after the moment.\<close>

lemma next_least: "0 \<le> t \<Longrightarrow> instant q \<Longrightarrow> t < q \<Longrightarrow> \<exists>n. Next t = Some n \<and> n \<le> q"
proof -
  assume t: "0 \<le> t" and q: "instant q" "t < q"
  then obtain u where u: "0 \<le> u" "Next u = Some q" by (auto simp: instant_def)
  show ?thesis
  proof (cases "u \<le> t")
    case True
    with next_first [OF u(1) True u(2)] q show ?thesis by simp
  next
    case False
    then have tu: "t \<le> u" by simp
    show ?thesis
    proof (cases "Next t")
      case None
      with next_none [OF t tu] u show ?thesis by simp
    next
      case (Some n)
      with next_first [OF t tu Some] next_later [OF u] u show ?thesis by (cases "u < n") auto
    qed
  qed
qed

lemma next_instant: "0 \<le> t \<Longrightarrow> Next t = Some n \<Longrightarrow> instant n"
  by (auto simp: instant_def)

lemma come_by_iff: "0 \<le> t \<Longrightarrow> come_by Next now t \<longleftrightarrow> (\<exists>q. instant q \<and> t < q \<and> q \<le> now)"
proof
  assume "0 \<le> t" "come_by Next now t"
  then show "\<exists>q. instant q \<and> t < q \<and> q \<le> now"
    using next_later next_instant by (fastforce simp: come_by_def split: option.splits)
next
  assume t: "0 \<le> t" and "\<exists>q. instant q \<and> t < q \<and> q \<le> now"
  then obtain q where "instant q" "t < q" "q \<le> now" by blast
  with next_least [OF t this(1,2)] show "come_by Next now t" by (auto simp: come_by_def)
qed

lemma bisect_bounds:
  "0 \<le> lo \<Longrightarrow> lo \<le> hi \<Longrightarrow> come_by Next now lo \<Longrightarrow> \<not> come_by Next now hi \<Longrightarrow>
     lo \<le> bisect Next now lo hi \<and> come_by Next now (bisect Next now lo hi) \<and>
     (\<exists>h. bisect Next now lo hi \<le> h \<and> h \<le> bisect Next now lo hi + Millisecond \<and> \<not> come_by Next now h)"
proof (induction "nat (hi - lo)" arbitrary: lo hi rule: less_induct)
  case less
  show ?case
  proof (cases "hi - lo > Millisecond")
    case True
    let ?mid = "lo + (hi - lo) div 2"
    have mid: "lo < ?mid" "?mid < hi" using True by (auto simp: Millisecond_def)
    show ?thesis
    proof (cases "come_by Next now ?mid")
      case come: True
      then have "bisect Next now lo hi = bisect Next now ?mid hi" using True by (subst bisect.simps) (simp add: Let_def)
      moreover have "nat (hi - ?mid) < nat (hi - lo)" using mid by simp
      moreover have "0 \<le> ?mid" "?mid \<le> hi" using less.prems mid by simp_all
      ultimately show ?thesis using less.hyps [of hi ?mid] less.prems(4) mid come by auto
    next
      case come: False
      then have "bisect Next now lo hi = bisect Next now lo ?mid" using True by (subst bisect.simps) (simp add: Let_def)
      moreover have "nat (?mid - lo) < nat (hi - lo)" using mid by simp
      ultimately show ?thesis using less.hyps [of ?mid lo] less.prems mid come by simp
    qed
  next
    case False
    then have "bisect Next now lo hi = lo" by (subst bisect.simps) simp
    with less.prems False show ?thesis by (auto intro!: exI [of _ hi])
  qed
qed

lemma previousInstant_latest:
  assumes "catchUpLookback \<le> now"
  shows "case previousInstant Next now of
      None \<Rightarrow> \<not> (\<exists>q. instant q \<and> now - catchUpLookback < q \<and> q \<le> now)
    | Some p \<Rightarrow> instant p \<and> now - catchUpLookback < p \<and> p \<le> now \<and> (\<forall>q. instant q \<longrightarrow> q \<le> now \<longrightarrow> q \<le> p)"
proof -
  let ?lo = "now - catchUpLookback" and ?b = "bisect Next now (now - catchUpLookback) now"
  have lo: "0 \<le> ?lo" "?lo \<le> now" using assms by (auto simp: catchUpLookback_def Second_def)
  show ?thesis
  proof (cases "come_by Next now ?lo")
    case False
    then show ?thesis using come_by_iff [OF lo(1), of now] by (auto simp: previousInstant_def)
  next
    case True
    have "\<not> come_by Next now now" using come_by_iff [of now now] lo by auto
    from bisect_bounds [OF lo True this] obtain h where b: "?lo \<le> ?b" "come_by Next now ?b" "?b \<le> h" "h \<le> ?b + Millisecond" "\<not> come_by Next now h"
      by blast
    from b(2) obtain p where p: "Next ?b = Some p" "p \<le> now" by (auto simp: come_by_def split: option.splits)
    have b0: "0 \<le> ?b" using lo b by simp
    have inst: "instant p" "?b < p" using next_instant [OF b0 p(1)] next_later [OF b0 p(1)] by auto
    have "q \<le> p" if q: "instant q" "q \<le> now" for q
    proof (rule ccontr)
      assume "\<not> q \<le> p"
      then have pq: "p < q" by simp
      have p0: "0 \<le> p" using inst(1) instant_pos by fastforce
      obtain r where r: "Next p = Some r" "r \<le> q" using next_least [OF p0 q(1) pq] by blast
      have "p + Second \<le> r" using next_apart [OF b0 p(1) r(1)] .
      then have "h < r" using b(4) inst(2) by (simp add: Second_def Millisecond_def)
      moreover have "instant r" "r \<le> now" using next_instant [OF p0 r(1)] r(2) q(2) by auto
      moreover have "0 \<le> h" using b0 b(3) by simp
      ultimately show False using come_by_iff [of h now] b(5) by blast
    qed
    moreover have "previousInstant Next now = Some p" using True p by (simp add: previousInstant_def Let_def)
    ultimately show ?thesis using inst p b by auto
  qed
qed

text \<open>The instants between two moments are finitely many, a second apart, and the loop counts them.\<close>

lemma instants_finite: "finite {q. instant q \<and> a < q \<and> q < b}"
  by (rule finite_subset [of _ "{a..b}"]) auto

lemma count_instants_card:
  assumes "0 \<le> from"
  shows "count_instants Next (Next from) (Some to) = Some (card {q. instant q \<and> from < q \<and> q < to})"
  using assms
proof (induction "nat (to - from)" arbitrary: "from" rule: less_induct)
  case less
  show ?case
  proof (cases "Next from")
    case None
    then have "{q. instant q \<and> from < q \<and> q < to} = {}" using next_least [OF less.prems] by force
    with None show ?thesis by (simp add: count_instants.simps)
  next
    case (Some n)
    have n: "from < n" "instant n" using next_later [OF less.prems Some] next_instant [OF less.prems Some] by auto
    have least: "n \<le> q" if "instant q" "from < q" for q using next_least [OF less.prems that] Some by simp
    show ?thesis
    proof (cases "n < to")
      case True
      have "{q. instant q \<and> from < q \<and> q < to} = insert n {q. instant q \<and> n < q \<and> q < to}"
        using n True least by force
      then have "card {q. instant q \<and> from < q \<and> q < to} = card {q. instant q \<and> n < q \<and> q < to} + 1"
        using instants_finite by simp
      moreover have "count_instants Next (Next n) (Some to) = Some (card {q. instant q \<and> n < q \<and> q < to})"
        by (rule less.hyps) (use n True less.prems in auto)
      ultimately show ?thesis using Some True by (subst count_instants.simps) simp
    next
      case False
      then have "{q. instant q \<and> from < q \<and> q < to} = {}" using least by force
      with Some False show ?thesis by (subst count_instants.simps) simp
    qed
  qed
qed

lemma nextAfter_later:
  assumes "0 \<le> now" "0 \<le> at"
  shows "\<exists>skipped. nextAfter Next now at = Some (Next (max now at), skipped) \<and>
    (case Next (max now at) of
       None \<Rightarrow> skipped = 0 \<and> \<not> (\<exists>q. instant q \<and> max now at < q)
     | Some n \<Rightarrow> at < n \<and> now < n \<and> instant n \<and> skipped = card {q. instant q \<and> at < q \<and> q < n})"
proof -
  have m: "0 \<le> max now at" "(if now < at then at else now) = max now at" using assms by auto
  show ?thesis
  proof (cases "Next (max now at)")
    case None
    then have "\<not> (\<exists>q. instant q \<and> max now at < q)" using next_least [OF m(1)] by fastforce
    with None m(2) show ?thesis by (auto simp: nextAfter_def instantsBetween_def count_instants.simps Let_def split: option.splits)
  next
    case (Some n)
    with next_later [OF m(1) Some] next_instant [OF m(1) Some] count_instants_card [OF assms(2), of n] m(2)
    show ?thesis by (auto simp: nextAfter_def instantsBetween_def Let_def)
  qed
qed

end

section \<open>The grid of an \<open>@every\<close>\<close>

lemma every_grid:
  assumes "0 < period" "0 \<le> t"
  shows "everySchedule_Next period t = Some ((t div period + 1) * period)"
  using assms by (cases "t = 0") (simp_all add: everySchedule_Next_def signed_divide_int_def)

lemma every_schedule:
  assumes "Second \<le> period"
  shows "schedule (everySchedule_Next period)"
proof
  have p: "0 < period" using assms by (simp add: Second_def)
  fix t n :: int assume t: "0 \<le> t" and n: "everySchedule_Next period t = Some n"
  then have e: "n = (t div period + 1) * period" using every_grid [OF p t] by simp
  have bounds: "t div period * period \<le> t" "t < (t div period + 1) * period"
    using div_mult_mod_eq [of t period] pos_mod_bound [OF p, of t] pos_mod_sign [OF p, of t] unfolding distrib_right mult_1
    by linarith+
  then show "t < n" using e by simp
next
  fix t t' n :: int
  have p: "0 < period" using assms by (simp add: Second_def)
  assume t: "0 \<le> t" "t \<le> t'" and n: "everySchedule_Next period t = Some n" "t' < n"
  then have "t' < (t div period + 1) * period" using every_grid [OF p t(1)] by simp
  moreover have "t' div period * period \<le> t'" using div_mult_mod_eq [of t' period] pos_mod_sign [OF p, of t'] by linarith
  ultimately have "t' div period * period < (t div period + 1) * period" by linarith
  then have "t' div period < t div period + 1" using p by (simp add: mult_less_cancel_right)
  moreover have "t div period \<le> t' div period" using zdiv_mono1 [OF t(2) p] .
  ultimately show "everySchedule_Next period t' = Some n" using n every_grid [OF p] t by simp
next
  fix t n n' :: int
  have p: "0 < period" using assms by (simp add: Second_def)
  assume t: "0 \<le> t" and n: "everySchedule_Next period t = Some n" "everySchedule_Next period n = Some n'"
  then have e: "n = (t div period + 1) * period" using every_grid [OF p t] by simp
  moreover have "0 \<le> n" using e t p by (simp add: pos_imp_zdiv_nonneg_iff)
  ultimately have "n' = n + period" using n(2) every_grid [OF p, of n] p by (simp add: algebra_simps)
  then show "n + Second \<le> n'" using assms by simp
qed (use assms in \<open>auto simp: everySchedule_Next_def Second_def split: if_splits\<close>)

text \<open>The periods a registration accepts, the whole seconds.\<close>

interpretation every: schedule "everySchedule_Next (int (Suc k) * Second)" for k
  by (rule every_schedule) (simp add: Second_def)

end
