(* ===== verification/Lifecycle.thy ===== *)
theory Lifecycle
  imports Prelude "HOL-Library.Multiset"
begin

text \<open>
  The registry of components with a lifetime, \<^verbatim>\<open>src/internal/lifecycle/lifecycle.go\<close>, and the test of
  whether work stopped because it was asked to, \<^verbatim>\<open>interrupted.go\<close>. What a component's own functions come
  to is part of the component: whether it is enabled, what \<open>Start\<close> and \<open>Stop\<close> return. The registry
  records what it calls, so that the order of the calls can be stated. Elapsed times and the debug
  entries are left out.
\<close>

section \<open>Components and the registry\<close>

definition StageProvider :: int where "StageProvider = 0"
definition StageComponent :: int where "StageComponent = 1"
definition stageCount :: int where "stageCount = 2"

text \<open>
  \<open>None\<close> is a nil function. A \<open>Start\<close> that is not nil returns an error or none; so does a \<open>Stop\<close>, with
  whether it returns within the window the shutdown gives it.
\<close>

record component =
  c_Name :: string
  c_Stage :: int
  c_Enabled :: "bool option"
  c_SetLogger :: bool
  c_Start :: "string option option"
  c_Stop :: "(string option \<times> bool) option"

datatype lc_call =
    Bind string string
  | StartCall string
  | StopCall string
  | StopFailed string string
  | LeftBehind string

record lifecycle =
  lc_components :: "component list"
  lc_started :: "int \<Rightarrow> bool"
  lc_running :: "component list"
  lc_calls :: "lc_call list"
  lc_failure :: "string option"
  lc_failedNow :: "string option"

definition lc_init :: lifecycle where
  "lc_init = \<lparr>lc_components = [], lc_started = \<lambda>_. False, lc_running = [], lc_calls = [],
     lc_failure = None, lc_failedNow = None\<rparr>"

datatype lc_panic =
    NoName
  | NilStart string
  | UnknownStage int string
  | AfterStart int string
  | DuplicateName string

definition lc_Register :: "component \<Rightarrow> lifecycle \<Rightarrow> lc_panic + lifecycle" where
  "lc_Register c0 s =
     (let c = c0\<lparr>c_Name := TrimSpace (c_Name c0)\<rparr>
      in if c_Name c = [] then Inl NoName
         else if c_Start c = None then Inl (NilStart (c_Name c))
         else if c_Stage c < 0 \<or> c_Stage c \<ge> stageCount then Inl (UnknownStage (c_Stage c) (c_Name c))
         else if lc_started s (c_Stage c) then Inl (AfterStart (c_Stage c) (c_Name c))
         else if list_ex (\<lambda>r. c_Name r = c_Name c) (lc_components s) then Inl (DuplicateName (c_Name c))
         else Inr (s\<lparr>lc_components := lc_components s @ [c]\<rparr>))"

text \<open>The sort of the standard library is not stable, but names are unique, so its result is.\<close>

definition componentsOf :: "int \<Rightarrow> lifecycle \<Rightarrow> component list" where
  "componentsOf stage s = sort_key c_Name (filter (\<lambda>c. c_Stage c = stage) (lc_components s))"

definition lc_Components :: "int \<Rightarrow> lifecycle \<Rightarrow> component list" where
  "lc_Components stage s = componentsOf stage s"

section \<open>Starting\<close>

definition bind_loggers :: "component list \<Rightarrow> lifecycle \<Rightarrow> lifecycle" where
  "bind_loggers cs s =
     s\<lparr>lc_calls := lc_calls s @ map (\<lambda>c. Bind (c_Name c) (c_Name c @ ''.log'')) (filter c_SetLogger cs)\<rparr>"

datatype lc_error = AlreadyStarted int | StartFailed int string string

definition start_one :: "component \<Rightarrow> lifecycle \<Rightarrow> lc_error option \<times> lifecycle" where
  "start_one c s =
     (let s = s\<lparr>lc_calls := lc_calls s @ [StartCall (c_Name c)]\<rparr>
      in case c_Start c of
           Some (Some err) \<Rightarrow> (Some (StartFailed (c_Stage c) (c_Name c) err), s)
         | _ \<Rightarrow> (None, s))"

fun start_loop :: "component list \<Rightarrow> lifecycle \<Rightarrow> lc_error option \<times> lifecycle" where
  "start_loop [] s = (None, s)"
| "start_loop (c # cs) s =
     (if c_Enabled c = Some False then start_loop cs s
      else
        (case start_one c s of
           (Some err, s) \<Rightarrow> (Some err, s)
         | (None, s) \<Rightarrow> start_loop cs (s\<lparr>lc_running := lc_running s @ [c]\<rparr>)))"

definition lc_Start :: "int \<Rightarrow> lifecycle \<Rightarrow> lc_error option \<times> lifecycle" where
  "lc_Start stage s =
     (if lc_started s stage then (Some (AlreadyStarted stage), s)
      else
        (let pending = componentsOf stage s;
             s = s\<lparr>lc_started := (lc_started s)(stage := True)\<rparr>
         in start_loop pending (bind_loggers pending s)))"

section \<open>Stopping\<close>

text \<open>A provider that does not stop in time is left behind; a component is waited for.\<close>

definition stopOne :: "component \<Rightarrow> lifecycle \<Rightarrow> lifecycle" where
  "stopOne c s =
     (case c_Stop c of
        None \<Rightarrow> s
      | Some (err, in_time) \<Rightarrow>
          s\<lparr>lc_calls := lc_calls s @ StopCall (c_Name c) #
              (if c_Stage c = StageProvider \<and> \<not> in_time then [LeftBehind (c_Name c)]
               else case err of None \<Rightarrow> [] | Some e \<Rightarrow> [StopFailed (c_Name c) e])\<rparr>)"

definition lc_Stop :: "lifecycle \<Rightarrow> lifecycle" where
  "lc_Stop s = (let stopping = lc_running s in fold stopOne (rev stopping) (s\<lparr>lc_running := []\<rparr>))"

section \<open>Failing\<close>

definition orUnexplained :: "string option \<Rightarrow> string" where
  "orUnexplained err =
     (case err of None \<Rightarrow> ''lifecycle: a component failed without saying why'' | Some e \<Rightarrow> e)"

text \<open>A context keeps the first cause it was ended with.\<close>

definition end_with :: "string \<Rightarrow> string option \<Rightarrow> string option" where
  "end_with cause ended = (case ended of None \<Rightarrow> Some cause | Some c \<Rightarrow> Some c)"

definition lc_Fail :: "string option \<Rightarrow> lifecycle \<Rightarrow> lifecycle" where
  "lc_Fail err s = s\<lparr>lc_failure := end_with (orUnexplained err) (lc_failure s)\<rparr>"

definition lc_FailNow :: "string option \<Rightarrow> lifecycle \<Rightarrow> lifecycle" where
  "lc_FailNow err s =
     s\<lparr>lc_failedNow := end_with (orUnexplained err) (lc_failedNow s),
       lc_failure := end_with (orUnexplained err) (lc_failure s)\<rparr>"

definition AbandonWaits :: "string option \<Rightarrow> lifecycle \<Rightarrow> lifecycle" where
  "AbandonWaits reason s = s\<lparr>lc_failedNow := end_with (orUnexplained reason) (lc_failedNow s)\<rparr>"

text \<open>
  \<open>Await\<close>: when the work is done and when the context ends, if ever; a select picks at random among
  what is ready, which \<open>pick\<close> decides. Waiting for neither is \<open>None\<close>.
\<close>

definition Await :: "nat \<Rightarrow> nat option \<Rightarrow> nat option \<Rightarrow> bool \<Rightarrow> bool option" where
  "Await now done_at ended_at pick =
     (if \<exists>d. done_at = Some d \<and> d \<le> now then Some True
      else case (done_at, ended_at) of
        (None, None) \<Rightarrow> None
      | (Some d, None) \<Rightarrow> Some True
      | (None, Some e) \<Rightarrow> Some False
      | (Some d, Some e) \<Rightarrow> Some (if d < max e now then True else if max e now < d then False else pick))"

section \<open>Interruptions\<close>

text \<open>
  An error value: its identity, whether its type is comparable and which identities its own \<open>Is\<close> method
  accepts; it wraps one error, joins several, or is a leaf.
\<close>

record err_node =
  en_id :: nat
  en_comparable :: bool
  en_is :: "nat list"

datatype goerr = Leaf err_node | Wrap err_node goerr | Joined err_node "goerr list"

fun err_node_of :: "goerr \<Rightarrow> err_node" where
  "err_node_of (Leaf n) = n"
| "err_node_of (Wrap n e) = n"
| "err_node_of (Joined n es) = n"

definition isLeaf :: "goerr \<Rightarrow> goerr \<Rightarrow> bool" where
  "isLeaf leaf target \<longleftrightarrow>
     en_comparable (err_node_of target) \<and> en_id (err_node_of leaf) = en_id (err_node_of target) \<or>
     en_id (err_node_of target) \<in> set (en_is (err_node_of leaf))"

fun onlyEnding :: "goerr \<Rightarrow> goerr list \<Rightarrow> bool" where
  "onlyEnding (Joined n members) endings =
     (if members = [] then False else list_all (\<lambda>m. onlyEnding m endings) members)"
| "onlyEnding (Wrap n next) endings = onlyEnding next endings"
| "onlyEnding (Leaf n) endings = list_ex (\<lambda>ending. isLeaf (Leaf n) ending) endings"

text \<open>The error at the bottom of a chain; a join has nothing a single step unwraps to.\<close>

fun innermost :: "goerr \<Rightarrow> goerr" where
  "innermost (Wrap n next) = innermost next"
| "innermost e = e"

text \<open>How a context has ended: its error and its cause.\<close>

type_synonym ctx_end = "(goerr \<times> goerr) option"

definition Interrupted :: "ctx_end \<Rightarrow> goerr option \<Rightarrow> bool" where
  "Interrupted ctx err =
     (case (ctx, err) of
        (Some (ctx_err, cause), Some e) \<Rightarrow> onlyEnding e [innermost ctx_err, innermost cause]
      | _ \<Rightarrow> False)"

section \<open>What an error carries\<close>

text \<open>The leaves of an error tree; a join of nothing is a failure of its own, so it counts as one.\<close>

fun err_leaves :: "goerr \<Rightarrow> goerr list" where
  "err_leaves (Joined n members) = (if members = [] then [Joined n []] else concat (map err_leaves members))"
| "err_leaves (Wrap n next) = err_leaves next"
| "err_leaves (Leaf n) = [Leaf n]"

definition ends_ctx :: "goerr list \<Rightarrow> goerr \<Rightarrow> bool" where
  "ends_ctx endings leaf = (case leaf of Leaf n \<Rightarrow> list_ex (isLeaf leaf) endings | _ \<Rightarrow> False)"

lemma ends_ctx_join [simp]: "\<not> ends_ctx endings (Joined n es)"
  by (simp add: ends_ctx_def)

lemma onlyEnding_leaves: "onlyEnding e endings \<longleftrightarrow> list_all (ends_ctx endings) (err_leaves e)"
  by (induction e endings rule: onlyEnding.induct) (auto simp: ends_ctx_def list_all_iff)

lemma err_leaves_nonempty: "err_leaves e \<noteq> []"
proof (induction e rule: err_leaves.induct)
  case (1 n members)
  then show ?case by (cases members) auto
qed auto

section \<open>The registry over time\<close>

text \<open>Registrations, starts, stops and failures, in any order; a panic ends the process and is no step.\<close>

inductive lc_step :: "lifecycle \<Rightarrow> lifecycle \<Rightarrow> bool" where
  Registers: "lc_Register c s = Inr s' \<Longrightarrow> lc_step s s'"
| Starts: "snd (lc_Start stage s) = s' \<Longrightarrow> lc_step s s'"
| Stops: "lc_Stop s = s' \<Longrightarrow> lc_step s s'"
| Fails: "lc_Fail err s = s' \<Longrightarrow> lc_step s s'"
| FailsNow: "lc_FailNow err s = s' \<Longrightarrow> lc_step s s'"
| Abandons: "AbandonWaits err s = s' \<Longrightarrow> lc_step s s'"

definition started_names :: "lc_call list \<Rightarrow> string list" where
  "started_names calls = concat (map (\<lambda>x. case x of StartCall n \<Rightarrow> [n] | _ \<Rightarrow> []) calls)"

definition stopped_names :: "lc_call list \<Rightarrow> string list" where
  "stopped_names calls = concat (map (\<lambda>x. case x of StopCall n \<Rightarrow> [n] | _ \<Rightarrow> []) calls)"

lemma names_append [simp]:
  "started_names (a @ b) = started_names a @ started_names b" "stopped_names (a @ b) = stopped_names a @ stopped_names b"
  "started_names [] = []" "stopped_names [] = []"
  by (simp_all add: started_names_def stopped_names_def)

lemma names_Cons [simp]:
  "started_names (x # b) = (case x of StartCall n \<Rightarrow> n # started_names b | _ \<Rightarrow> started_names b)"
  "stopped_names (x # b) = (case x of StopCall n \<Rightarrow> n # stopped_names b | _ \<Rightarrow> stopped_names b)"
  by (cases x; simp add: started_names_def stopped_names_def)+

definition lc_inv :: "lifecycle \<Rightarrow> bool" where
  "lc_inv s \<longleftrightarrow> distinct (map c_Name (lc_components s)) \<and>
     (\<forall>c\<in>set (lc_components s). c_Name c \<noteq> [] \<and> 0 \<le> c_Stage c \<and> c_Stage c < stageCount \<and> c_Start c \<noteq> None) \<and>
     set (lc_running s) \<subseteq> set (lc_components s) \<and> distinct (map c_Name (lc_running s)) \<and>
     (\<forall>n\<in>set (started_names (lc_calls s)). \<exists>c\<in>set (lc_components s). c_Name c = n \<and> lc_started s (c_Stage c)) \<and>
     distinct (started_names (lc_calls s)) \<and>
     c_Name ` set (lc_running s) \<subseteq> set (started_names (lc_calls s)) \<and>
     distinct (stopped_names (lc_calls s)) \<and> set (stopped_names (lc_calls s)) \<subseteq> set (started_names (lc_calls s)) \<and>
     set (stopped_names (lc_calls s)) \<inter> c_Name ` set (lc_running s) = {}"

lemma start_one_simps:
  "start_one c s = (map_option (StartFailed (c_Stage c) (c_Name c)) (case c_Start c of None \<Rightarrow> None | Some e \<Rightarrow> e),
     s\<lparr>lc_calls := lc_calls s @ [StartCall (c_Name c)]\<rparr>)"
  by (auto simp: start_one_def Let_def split: option.splits)

text \<open>The loop starts the enabled components in order, up to the first that fails.\<close>

definition start_ok :: "component \<Rightarrow> bool" where
  "start_ok c \<longleftrightarrow> c_Start c \<noteq> Some None \<longrightarrow> c_Start c = None"

lemma start_loop_eq:
  "let on = filter (\<lambda>c. c_Enabled c \<noteq> Some False) cs; good = takeWhile start_ok on; s' = snd (start_loop cs s) in
     lc_running s' = lc_running s @ good \<and>
     lc_calls s' = lc_calls s @ map (\<lambda>c. StartCall (c_Name c)) (good @ take 1 (drop (length good) on)) \<and>
     lc_components s' = lc_components s \<and> lc_started s' = lc_started s \<and>
     lc_failure s' = lc_failure s \<and> lc_failedNow s' = lc_failedNow s \<and>
     (fst (start_loop cs s) = None \<longleftrightarrow> list_all start_ok on)"
proof (induction cs arbitrary: s)
  case (Cons c cs)
  show ?case
  proof (cases "c_Enabled c = Some False")
    case True
    with Cons show ?thesis by simp
  next
    case False
    show ?thesis
    proof (cases "start_ok c")
      case True
      then have "start_loop (c # cs) s = start_loop cs
          (s\<lparr>lc_calls := lc_calls s @ [StartCall (c_Name c)], lc_running := lc_running s @ [c]\<rparr>)"
        using False by (auto simp: start_one_simps start_ok_def split: option.splits)
      with Cons [of "s\<lparr>lc_calls := lc_calls s @ [StartCall (c_Name c)], lc_running := lc_running s @ [c]\<rparr>"] True False
      show ?thesis by (simp add: Let_def)
    next
      case bad: False
      then obtain e where "c_Start c = Some (Some e)" by (cases "c_Start c") (auto simp: start_ok_def)
      with False bad show ?thesis by (simp add: start_one_simps)
    qed
  qed
qed simp

lemma sublist_names:
  "distinct (map c_Name cs) \<Longrightarrow> distinct (map c_Name (takeWhile P cs @ take 1 (drop (length (takeWhile P cs)) cs)))"
proof -
  have "takeWhile P cs @ take 1 (drop (length (takeWhile P cs)) cs) = take (length (takeWhile P cs) + 1) cs"
    unfolding take_add takeWhile_eq_take [symmetric] by simp
  then show "distinct (map c_Name cs) \<Longrightarrow> ?thesis" by (metis distinct_take take_map)
qed

lemma tried_subset: "set (takeWhile P xs @ take 1 (drop n xs)) \<subseteq> set xs"
  by (auto dest: set_takeWhileD in_set_takeD in_set_dropD)

lemma componentsOf_distinct: "lc_inv s \<Longrightarrow> distinct (map c_Name (componentsOf stage s))"
proof -
  assume "lc_inv s"
  then have "distinct (map c_Name (filter (\<lambda>c. c_Stage c = stage) (lc_components s)))"
    by (simp add: lc_inv_def distinct_map_filter_imp)
  moreover have "mset (map c_Name (componentsOf stage s)) = mset (map c_Name (filter (\<lambda>c. c_Stage c = stage) (lc_components s)))"
    by (simp add: componentsOf_def)
  ultimately show ?thesis by (metis mset_eq_imp_distinct_iff)
qed

lemma set_componentsOf: "set (componentsOf stage s) = {c \<in> set (lc_components s). c_Stage c = stage}"
  by (auto simp: componentsOf_def)

lemma first_failing: "c \<in> set (take 1 (drop (length (takeWhile P xs)) xs)) \<Longrightarrow> \<not> P c"
  by (induction xs) (auto split: if_splits)

text \<open>
  What starting a stage comes to: the components that started, and after them at most one that failed,
  all of that stage, none of them called before.
\<close>

lemma lc_Start_effect:
  assumes "lc_inv s" "\<not> lc_started s stage"
  obtains good failed where "lc_running (snd (lc_Start stage s)) = lc_running s @ good"
    "started_names (lc_calls (snd (lc_Start stage s))) = started_names (lc_calls s) @ map c_Name (good @ failed)"
    "stopped_names (lc_calls (snd (lc_Start stage s))) = stopped_names (lc_calls s)"
    "lc_components (snd (lc_Start stage s)) = lc_components s"
    "lc_started (snd (lc_Start stage s)) = (lc_started s)(stage := True)"
    "set (good @ failed) \<subseteq> {c \<in> set (lc_components s). c_Stage c = stage}"
    "distinct (map c_Name (good @ failed))" "set (map c_Name (good @ failed)) \<inter> set (started_names (lc_calls s)) = {}"
    "\<forall>c\<in>set good. c_Start c = Some None" "\<forall>c\<in>set failed. c_Start c \<noteq> Some None"
proof -
  let ?cs = "componentsOf stage s"
  let ?s = "bind_loggers ?cs (s\<lparr>lc_started := (lc_started s)(stage := True)\<rparr>)"
  let ?on = "filter (\<lambda>c. c_Enabled c \<noteq> Some False) ?cs"
  define good where "good = takeWhile start_ok ?on"
  define failed where "failed = take 1 (drop (length good) ?on)"
  let ?s' = "snd (lc_Start stage s)"
  have binds: "started_names (map (\<lambda>c. Bind (c_Name c) (c_Name c @ ''.log'')) xs) = []"
    "stopped_names (map (\<lambda>c. Bind (c_Name c) (c_Name c @ ''.log'')) xs) = []" for xs by (induction xs) simp_all
  have starts: "started_names (map (\<lambda>c. StartCall (c_Name c)) xs) = map c_Name xs"
    "stopped_names (map (\<lambda>c. StartCall (c_Name c)) xs) = []" for xs by (induction xs) simp_all
  have s': "?s' = snd (start_loop ?cs ?s)" using assms(2) by (simp add: lc_Start_def Let_def)
  have e: "lc_running ?s' = lc_running s @ good" "started_names (lc_calls ?s') = started_names (lc_calls s) @ map c_Name (good @ failed)"
    "stopped_names (lc_calls ?s') = stopped_names (lc_calls s)" "lc_components ?s' = lc_components s"
    "lc_started ?s' = (lc_started s)(stage := True)"
    using start_loop_eq [of ?cs ?s] unfolding s' good_def failed_def by (simp_all add: Let_def bind_loggers_def binds starts)
  have "set ?on \<subseteq> {c \<in> set (lc_components s). c_Stage c = stage}"
    unfolding set_componentsOf [symmetric] by (rule filter_is_subset)
  with tried_subset have sub: "set (good @ failed) \<subseteq> {c \<in> set (lc_components s). c_Stage c = stage}"
    unfolding good_def failed_def by (rule order_trans)
  have dist: "distinct (map c_Name (good @ failed))"
    unfolding good_def failed_def
    by (rule sublist_names) (rule distinct_map_filter_imp [OF componentsOf_distinct [OF assms(1)]])
  have "c_Name c \<notin> set (started_names (lc_calls s))" if "c \<in> set (lc_components s)" "c_Stage c = stage" for c
  proof
    assume "c_Name c \<in> set (started_names (lc_calls s))"
    then obtain d where d: "d \<in> set (lc_components s)" "c_Name d = c_Name c" "lc_started s (c_Stage d)"
      using assms by (auto simp: lc_inv_def)
    moreover have "d = c" using assms d that by (auto simp: lc_inv_def distinct_map dest: inj_onD)
    ultimately show False using that assms(2) by simp
  qed
  then have apart: "set (map c_Name (good @ failed)) \<inter> set (started_names (lc_calls s)) = {}" using sub by auto
  have ok: "\<forall>c\<in>set good. c_Start c = Some None"
  proof
    fix c assume c: "c \<in> set good"
    then have "start_ok c" unfolding good_def by (rule conjunct2 [OF set_takeWhileD])
    moreover have "c_Start c \<noteq> None" using c sub assms(1) by (auto simp: lc_inv_def)
    ultimately show "c_Start c = Some None" unfolding start_ok_def by blast
  qed
  have "c_Start c \<noteq> Some None" if "c \<in> set failed" for c
    using first_failing [OF that [unfolded failed_def good_def]] by (simp add: start_ok_def)
  then have "\<forall>c\<in>set failed. c_Start c \<noteq> Some None" by blast
  with e sub dist apart ok show thesis by (rule that)
qed

lemma lc_inv_Start:
  assumes "lc_inv s"
  shows "lc_inv (snd (lc_Start stage s))"
proof (cases "lc_started s stage")
  case True
  with assms show ?thesis by (simp add: lc_Start_def)
next
  case False
  let ?s' = "snd (lc_Start stage s)"
  obtain good failed where e: "lc_running ?s' = lc_running s @ good"
    "started_names (lc_calls ?s') = started_names (lc_calls s) @ map c_Name (good @ failed)"
    "stopped_names (lc_calls ?s') = stopped_names (lc_calls s)" "lc_components ?s' = lc_components s"
    "lc_started ?s' = (lc_started s)(stage := True)"
    and sub: "set (good @ failed) \<subseteq> {c \<in> set (lc_components s). c_Stage c = stage}"
    and dist: "distinct (map c_Name (good @ failed))"
    and apart: "set (map c_Name (good @ failed)) \<inter> set (started_names (lc_calls s)) = {}"
    using assms False by (rule lc_Start_effect)
  have old: "distinct (started_names (lc_calls s))" "distinct (map c_Name (lc_running s))" "set (lc_running s) \<subseteq> set (lc_components s)"
    "c_Name ` set (lc_running s) \<subseteq> set (started_names (lc_calls s))" "set (stopped_names (lc_calls s)) \<subseteq> set (started_names (lc_calls s))"
    "set (stopped_names (lc_calls s)) \<inter> c_Name ` set (lc_running s) = {}" "distinct (stopped_names (lc_calls s))"
    using assms by (auto simp: lc_inv_def)
  have good: "c_Name ` set good \<inter> set (started_names (lc_calls s)) = {}" "distinct (map c_Name good)"
    using apart dist by (auto simp: distinct_append)
  show ?thesis
    unfolding lc_inv_def e
  proof (intro conjI)
    show "distinct (started_names (lc_calls s) @ map c_Name (good @ failed))" using old(1) dist apart by auto
    show "set (lc_running s @ good) \<subseteq> set (lc_components s)" using old(3) sub by auto
    show "distinct (map c_Name (lc_running s @ good))" using old(2,4) good by auto
    show "c_Name ` set (lc_running s @ good) \<subseteq> set (started_names (lc_calls s) @ map c_Name (good @ failed))" using old(4) by auto
    show "set (stopped_names (lc_calls s)) \<subseteq> set (started_names (lc_calls s) @ map c_Name (good @ failed))" using old(5) by auto
    show "set (stopped_names (lc_calls s)) \<inter> c_Name ` set (lc_running s @ good) = {}" using old(5,6) good(1) by auto
    show "\<forall>n\<in>set (started_names (lc_calls s) @ map c_Name (good @ failed)).
        \<exists>c\<in>set (lc_components s). c_Name c = n \<and> ((lc_started s)(stage := True)) (c_Stage c)"
    proof
      fix n assume "n \<in> set (started_names (lc_calls s) @ map c_Name (good @ failed))"
      then consider "n \<in> set (started_names (lc_calls s))" | "n \<in> c_Name ` set (good @ failed)" by auto
      then show "\<exists>c\<in>set (lc_components s). c_Name c = n \<and> ((lc_started s)(stage := True)) (c_Stage c)"
      proof cases
        case 1
        with assms show ?thesis by (fastforce simp: lc_inv_def)
      next
        case 2
        with sub show ?thesis by fastforce
      qed
    qed
  qed (use assms old in \<open>auto simp: lc_inv_def\<close>)
qed

lemma fold_stopOne:
  "let s' = fold stopOne cs s in
     lc_components s' = lc_components s \<and> lc_started s' = lc_started s \<and> lc_running s' = lc_running s \<and>
     lc_failure s' = lc_failure s \<and> lc_failedNow s' = lc_failedNow s \<and>
     started_names (lc_calls s') = started_names (lc_calls s) \<and>
     stopped_names (lc_calls s') = stopped_names (lc_calls s) @ map c_Name (filter (\<lambda>c. c_Stop c \<noteq> None) cs)"
proof (induction cs arbitrary: s)
  case (Cons c cs)
  have "lc_components (stopOne c s) = lc_components s \<and> lc_started (stopOne c s) = lc_started s \<and> lc_running (stopOne c s) = lc_running s \<and>
     lc_failure (stopOne c s) = lc_failure s \<and> lc_failedNow (stopOne c s) = lc_failedNow s \<and>
     started_names (lc_calls (stopOne c s)) = started_names (lc_calls s) \<and>
     stopped_names (lc_calls (stopOne c s)) = stopped_names (lc_calls s) @ (if c_Stop c \<noteq> None then [c_Name c] else [])"
    by (auto simp: stopOne_def split: option.splits)
  with Cons [of "stopOne c s"] show ?case by (simp add: Let_def)
qed simp

lemma lc_inv_Stop: "lc_inv s \<Longrightarrow> lc_inv (lc_Stop s)"
proof -
  assume inv: "lc_inv s"
  let ?stop = "filter (\<lambda>c. c_Stop c \<noteq> None) (rev (lc_running s))"
  have e: "lc_components (lc_Stop s) = lc_components s" "lc_started (lc_Stop s) = lc_started s" "lc_running (lc_Stop s) = []"
    "started_names (lc_calls (lc_Stop s)) = started_names (lc_calls s)"
    "stopped_names (lc_calls (lc_Stop s)) = stopped_names (lc_calls s) @ map c_Name ?stop"
    using fold_stopOne [of "rev (lc_running s)" "s\<lparr>lc_running := []\<rparr>"] by (simp_all add: lc_Stop_def Let_def)
  have "distinct (map c_Name ?stop)" using inv by (simp add: lc_inv_def distinct_map_filter_imp rev_map [symmetric])
  moreover have "c_Name ` set ?stop \<subseteq> c_Name ` set (lc_running s)" by auto
  ultimately show ?thesis using inv unfolding lc_inv_def e by (auto 4 3)
qed

lemma lc_inv_Register: "lc_inv s \<Longrightarrow> lc_Register c s = Inr s' \<Longrightarrow> lc_inv s'"
  by (auto simp: lc_Register_def lc_inv_def Let_def list_ex_iff image_subset_iff split: if_splits) blast

lemma lc_inv_fails: "lc_inv s \<Longrightarrow> lc_inv (lc_Fail e s)" "lc_inv s \<Longrightarrow> lc_inv (lc_FailNow e s)" "lc_inv s \<Longrightarrow> lc_inv (AbandonWaits e s)"
  by (simp_all add: lc_inv_def lc_Fail_def lc_FailNow_def AbandonWaits_def)

text \<open>
  What a shutdown still has to stop, read off the calls alone: what was started without an error and has
  not been stopped yet, of the components that have something to stop.
\<close>

definition due_to_stop :: "lifecycle \<Rightarrow> string \<Rightarrow> bool" where
  "due_to_stop s n \<longleftrightarrow> n \<notin> set (stopped_names (lc_calls s)) \<and>
     (\<exists>c\<in>set (lc_components s). c_Name c = n \<and> c_Start c = Some None \<and> c_Stop c \<noteq> None)"

definition runs_in_order :: "lifecycle \<Rightarrow> bool" where
  "runs_in_order s \<longleftrightarrow>
     map c_Name (filter (\<lambda>c. c_Stop c \<noteq> None) (lc_running s)) = filter (due_to_stop s) (started_names (lc_calls s))"

lemma runs_in_order_Register:
  assumes "lc_inv s" "runs_in_order s" "lc_Register c s = Inr s'"
  shows "runs_in_order s'"
proof -
  define d where "d = c\<lparr>c_Name := TrimSpace (c_Name c)\<rparr>"
  have s': "s' = s\<lparr>lc_components := lc_components s @ [d]\<rparr>" "c_Name d \<notin> c_Name ` set (lc_components s)"
    using assms(3) unfolding d_def by (auto simp: lc_Register_def Let_def list_ex_iff split: if_splits)
  have "due_to_stop s' n = due_to_stop s n" if "n \<in> set (started_names (lc_calls s))" for n
  proof -
    have "n \<in> c_Name ` set (lc_components s)" using assms(1) that by (auto simp: lc_inv_def)
    with s' show ?thesis by (auto simp: due_to_stop_def)
  qed
  then have "filter (due_to_stop s') (started_names (lc_calls s)) = filter (due_to_stop s) (started_names (lc_calls s))"
    by (intro filter_cong) auto
  with assms(2) show ?thesis by (simp add: runs_in_order_def s'(1))
qed

lemma runs_in_order_Start:
  assumes "lc_inv s" "runs_in_order s"
  shows "runs_in_order (snd (lc_Start stage s))"
proof (cases "lc_started s stage")
  case True
  with assms show ?thesis by (simp add: lc_Start_def)
next
  case False
  let ?s' = "snd (lc_Start stage s)"
  obtain good failed where e: "lc_running ?s' = lc_running s @ good"
    "started_names (lc_calls ?s') = started_names (lc_calls s) @ map c_Name (good @ failed)"
    "stopped_names (lc_calls ?s') = stopped_names (lc_calls s)" "lc_components ?s' = lc_components s"
    and sub: "set (good @ failed) \<subseteq> {c \<in> set (lc_components s). c_Stage c = stage}"
    and apart: "set (map c_Name (good @ failed)) \<inter> set (started_names (lc_calls s)) = {}"
    and ok: "\<forall>c\<in>set good. c_Start c = Some None" "\<forall>c\<in>set failed. c_Start c \<noteq> Some None"
    using assms(1) False by (rule lc_Start_effect)
  have due: "due_to_stop ?s' = due_to_stop s" by (rule ext) (simp add: due_to_stop_def e)
  have tried: "due_to_stop s (c_Name c) \<longleftrightarrow> c_Start c = Some None \<and> c_Stop c \<noteq> None" if "c \<in> set (good @ failed)" for c
  proof -
    have "c_Name c \<notin> set (stopped_names (lc_calls s))" using assms(1) apart that by (auto simp: lc_inv_def)
    moreover have "d = c" if "d \<in> set (lc_components s)" "c_Name d = c_Name c" for d
      using assms(1) sub that \<open>c \<in> set (good @ failed)\<close> by (auto simp: lc_inv_def distinct_map dest: inj_onD)
    ultimately show ?thesis using sub that by (auto simp: due_to_stop_def)
  qed
  have "filter (due_to_stop s) (map c_Name good) = map c_Name (filter (\<lambda>c. c_Stop c \<noteq> None) good)"
    unfolding filter_map o_def using tried ok(1) by (intro arg_cong [where f = "map c_Name"] filter_cong) auto
  moreover have "filter (due_to_stop s) (map c_Name failed) = []"
    using tried ok(2) by (auto simp: filter_empty_conv)
  ultimately show ?thesis using assms(2) by (simp add: runs_in_order_def due e)
qed

lemma lc_Stop_effect:
  "lc_components (lc_Stop s) = lc_components s" "lc_running (lc_Stop s) = []"
  "started_names (lc_calls (lc_Stop s)) = started_names (lc_calls s)"
  "stopped_names (lc_calls (lc_Stop s)) =
     stopped_names (lc_calls s) @ rev (map c_Name (filter (\<lambda>c. c_Stop c \<noteq> None) (lc_running s)))"
  using fold_stopOne [of "rev (lc_running s)" "s\<lparr>lc_running := []\<rparr>"] by (simp_all add: lc_Stop_def Let_def rev_map rev_filter)

lemma runs_in_order_Stop:
  assumes "runs_in_order s"
  shows "runs_in_order (lc_Stop s)"
proof -
  have "stopped_names (lc_calls (lc_Stop s)) = stopped_names (lc_calls s) @ rev (filter (due_to_stop s) (started_names (lc_calls s)))"
    unfolding lc_Stop_effect assms [unfolded runs_in_order_def] ..
  then have "\<not> due_to_stop (lc_Stop s) n" if "n \<in> set (started_names (lc_calls s))" for n
    using that by (auto simp: due_to_stop_def lc_Stop_effect(1))
  then show ?thesis by (simp add: runs_in_order_def lc_Stop_effect filter_empty_conv)
qed

lemma runs_in_order_fails:
  "runs_in_order s \<Longrightarrow> runs_in_order (lc_Fail e s)" "runs_in_order s \<Longrightarrow> runs_in_order (lc_FailNow e s)"
  "runs_in_order s \<Longrightarrow> runs_in_order (AbandonWaits e s)"
  by (simp_all add: runs_in_order_def due_to_stop_def [abs_def] lc_Fail_def lc_FailNow_def AbandonWaits_def)

lemma lc_reachable_inv: "lc_step\<^sup>*\<^sup>* lc_init s \<Longrightarrow> lc_inv s \<and> runs_in_order s"
proof (induction rule: rtranclp_induct)
  case base
  show ?case by (simp add: lc_inv_def lc_init_def runs_in_order_def)
next
  case (step s s')
  from step(2,3) show ?case
    by (cases rule: lc_step.cases)
      (auto intro: lc_inv_Register lc_inv_Start lc_inv_Stop lc_inv_fails
        runs_in_order_Register runs_in_order_Start runs_in_order_Stop runs_in_order_fails)
qed

lemma failure_sticks:
  assumes "lc_step s s'" "lc_failure s = Some e"
  shows "lc_failure s' = Some e"
  using assms(1)
proof cases
  case (Starts stage)
  have "lc_failure (snd (lc_Start stage s)) = lc_failure s"
    using start_loop_eq [of "componentsOf stage s" "bind_loggers (componentsOf stage s) (s\<lparr>lc_started := (lc_started s)(stage := True)\<rparr>)"]
    by (simp add: lc_Start_def Let_def bind_loggers_def)
  with Starts assms(2) show ?thesis by simp
next
  case Stops
  have "lc_failure (lc_Stop s) = lc_failure s"
    using fold_stopOne [of "rev (lc_running s)" "s\<lparr>lc_running := []\<rparr>"] by (simp add: lc_Stop_def Let_def)
  with Stops assms(2) show ?thesis by simp
qed (use assms(2) in \<open>auto simp: lc_Register_def Let_def lc_Fail_def lc_FailNow_def AbandonWaits_def end_with_def split: if_splits\<close>)

section \<open>Properties\<close>

text \<open>
  C32: the lifecycle of a process. Whatever is registered, started, stopped and failed in whatever order,
  no component is started twice or stopped twice, none is stopped that was not started, and stopping
  calls \<open>Stop\<close>, in the reverse order of the calls of \<open>Start\<close>, of exactly the components that started
  without an error, have a \<open>Stop\<close> and were not stopped before. Nothing is left running, so that stopping
  again calls nothing. A stage starts once. The first failure stays the reason the process ends with.
\<close>

theorem lifecycle_starts_and_stops_once:
  assumes "lc_step\<^sup>*\<^sup>* lc_init s" "lc_step\<^sup>*\<^sup>* s s'"
  shows "distinct (started_names (lc_calls s)) \<and> distinct (stopped_names (lc_calls s)) \<and>
    set (stopped_names (lc_calls s)) \<subseteq> set (started_names (lc_calls s)) \<and>
    stopped_names (lc_calls (lc_Stop s)) =
      stopped_names (lc_calls s) @ rev (filter (due_to_stop s) (started_names (lc_calls s))) \<and>
    lc_running (lc_Stop s) = [] \<and> lc_Stop (lc_Stop s) = lc_Stop s \<and>
    (lc_started s stage \<longrightarrow> lc_Start stage s = (Some (AlreadyStarted stage), s)) \<and>
    (lc_failure s = Some e \<longrightarrow> lc_failure s' = Some e)"
proof -
  note inv = lc_reachable_inv [OF assms(1)]
  have "lc_running (lc_Stop s) = []" by (rule lc_Stop_effect)
  moreover have "stopped_names (lc_calls (lc_Stop s)) = stopped_names (lc_calls s) @ rev (filter (due_to_stop s) (started_names (lc_calls s)))"
    using inv by (simp add: lc_Stop_effect runs_in_order_def)
  moreover from \<open>lc_running (lc_Stop s) = []\<close> have "lc_Stop (lc_Stop s) = lc_Stop s" by (simp add: lc_Stop_def [of "lc_Stop s"])
  moreover have "lc_failure s = Some e \<longrightarrow> lc_failure s' = Some e"
    using assms(2) by (induction rule: rtranclp_induct) (auto dest: failure_sticks)
  ultimately show ?thesis using inv by (simp add: lc_inv_def lc_Start_def)
qed

definition demo_component :: "string \<Rightarrow> int \<Rightarrow> component" where
  "demo_component name stage =
     \<lparr>c_Name = name, c_Stage = stage, c_Enabled = None, c_SetLogger = True, c_Start = Some None, c_Stop = Some (None, True)\<rparr>"

definition demo_lifecycle :: lifecycle where
  "demo_lifecycle =
     (case lc_Register (demo_component ''redis'' StageProvider) lc_init of
        Inr s \<Rightarrow> (case lc_Register (demo_component ''cronjob'' StageComponent) s of Inr s' \<Rightarrow> s' | Inl _ \<Rightarrow> s)
      | Inl _ \<Rightarrow> lc_init)"

theorem lifecycle_starts_and_stops_once_witness:
  "stopped_names (lc_calls (lc_Stop (snd (lc_Start StageComponent (snd (lc_Start StageProvider demo_lifecycle)))))) = [''cronjob'', ''redis'']"
proof -
  have r: "\<not> isl (lc_Register (demo_component ''redis'' StageProvider) lc_init)"
    "\<not> isl (lc_Register (demo_component ''cronjob'' StageComponent) (projr (lc_Register (demo_component ''redis'' StageProvider) lc_init)))"
    by code_simp+
  define s1 where "s1 = projr (lc_Register (demo_component ''redis'' StageProvider) lc_init)"
  have s1: "lc_Register (demo_component ''redis'' StageProvider) lc_init = Inr s1"
    "lc_Register (demo_component ''cronjob'' StageComponent) s1 = Inr demo_lifecycle"
    using r unfolding s1_def by (auto simp: demo_lifecycle_def split: sum.splits)
  let ?s = "snd (lc_Start StageComponent (snd (lc_Start StageProvider demo_lifecycle)))"
  have "lc_step lc_init s1" "lc_step s1 demo_lifecycle" using s1 by (auto intro: lc_step.intros)
  moreover have "lc_step demo_lifecycle (snd (lc_Start StageProvider demo_lifecycle))"
    "lc_step (snd (lc_Start StageProvider demo_lifecycle)) ?s" by (auto intro: lc_step.intros)
  ultimately have "lc_step\<^sup>*\<^sup>* lc_init ?s" by (meson r_into_rtranclp rtranclp.rtrancl_into_rtrancl)
  from lifecycle_starts_and_stops_once [OF this rtranclp.rtrancl_refl, of 0 "[]"]
  have "stopped_names (lc_calls (lc_Stop ?s)) =
      stopped_names (lc_calls ?s) @ rev (filter (due_to_stop ?s) (started_names (lc_calls ?s)))" by blast
  moreover have "stopped_names (lc_calls ?s) @ rev (filter (due_to_stop ?s) (started_names (lc_calls ?s))) = [''cronjob'', ''redis'']"
    by code_simp
  ultimately show ?thesis by simp
qed

text \<open>
  An interruption is nothing but the ending. Work counts as interrupted exactly when its context has
  ended and every leaf of the error it returned is that ending, its error or its cause, however wrapped
  and joined; an error joined with a failure of the work's own never is, and wrapping changes nothing.
\<close>

theorem interrupted_only_by_the_ending:
  "(Interrupted ctx err \<longleftrightarrow>
     (\<exists>ctx_err cause e. ctx = Some (ctx_err, cause) \<and> err = Some e \<and>
        list_all (ends_ctx [innermost ctx_err, innermost cause]) (err_leaves e))) \<and>
   (Interrupted (Some (ctx_err, cause)) (Some (Joined n es)) \<longleftrightarrow>
      es \<noteq> [] \<and> list_all (\<lambda>e. Interrupted (Some (ctx_err, cause)) (Some e)) es) \<and>
   Interrupted ctx (Some (Wrap n e)) = Interrupted ctx (Some e) \<and>
   \<not> Interrupted None err \<and> \<not> Interrupted ctx None"
  by (auto simp: Interrupted_def onlyEnding_leaves list_all_iff split: option.splits prod.splits)

end
