(* ===== verification/Cronjob.thy ===== *)
theory Cronjob
  imports Cron_Schedule Lease Lifecycle
begin

text \<open>
  The scheduler, \<^verbatim>\<open>src/cronjob/cronjob.go\<close>, and one job's side of it, \<^verbatim>\<open>job.go\<close>: registration, the claim
  of an instant with its retries, the round and what is recorded of its end, the second run of a round
  cut short, the catch-up at the start, the sweep and the turn of a job's loop. The work a job does is
  an argument: what it returned, how its context ended, whether its lease was lost, and the lease table
  as it is by then, with whatever other replicas did to it meanwhile. The cron parser and
  \<open>time.ParseDuration\<close> are arguments of the registration. Spans and round identities are left out, and
  so are the warnings a goroutine writes while a round overruns.
\<close>

section \<open>Registration\<close>

record job =
  j_name :: string
  j_spec :: string
  j_schedule :: cron_schedule
  j_perInstance :: bool

definition j_leaseName :: "job \<Rightarrow> string" where
  "j_leaseName j = ''cron:'' @ j_name j"

definition j_Next :: "job \<Rightarrow> int \<Rightarrow> int option" where
  "j_Next j = schedule_Next (j_schedule j)"

datatype cron_error =
    CronNoName string
  | CronNilFunction string
  | CronEmptySchedule string
  | CronRegisteredTwice string
  | CronLocalZone string string
  | CronInvalidSchedule string string string
  | CronBadPeriod string string
  | CronNeverFires string string
  | CronBadName string lease_error
  | CronNeedsLease string lease_error

record cron_package =
  cp_jobs :: "job list"
  cp_errRegister :: "cron_error list"
  cp_started :: bool

text \<open>The body of a schedule behind a zone prefix.\<close>

definition schedule_body :: "string \<Rightarrow> string" where
  "schedule_body spec = (if snd (zoneOf spec) then TrimSpace (snd (cut_blank spec)) else spec)"

definition check_period :: "(string \<Rightarrow> string + int) \<Rightarrow> string \<Rightarrow> string \<Rightarrow> cron_error option" where
  "check_period parseDuration name spec =
     (case strip_prefix ''@every '' (schedule_body spec) of
        None \<Rightarrow> None
      | Some period \<Rightarrow>
          (case parseDuration period of
             Inl err \<Rightarrow> Some (CronInvalidSchedule name spec err)
           | Inr d \<Rightarrow> if d < Second \<or> d mod Second \<noteq> 0 then Some (CronBadPeriod name spec) else None))"

definition newJob ::
  "(string \<Rightarrow> string + int) \<Rightarrow> (string \<Rightarrow> string + cron_schedule) \<Rightarrow> int \<Rightarrow> job list \<Rightarrow> bool \<Rightarrow> string \<Rightarrow> string \<Rightarrow> cron_error + job" where
  "newJob parseDuration parse now jobs fn_nil spec0 name0 =
     (let name = TrimSpace name0; spec = TrimSpace spec0
      in if name = [] then Inl (CronNoName spec)
         else if fn_nil then Inl (CronNilFunction name)
         else if spec = [] then Inl (CronEmptySchedule name)
         else if list_ex (\<lambda>j. j_name j = name) jobs then Inl (CronRegisteredTwice name)
         else if snd (zoneOf spec) \<and> fst (zoneOf spec) = ''Local'' then Inl (CronLocalZone name spec)
         else case check_period parseDuration name spec of
           Some err \<Rightarrow> Inl err
         | None \<Rightarrow>
             (case parse spec of
                Inl err \<Rightarrow> Inl (CronInvalidSchedule name spec err)
              | Inr parsed \<Rightarrow>
                  (let j = \<lparr>j_name = name, j_spec = spec, j_schedule = inUTC parsed, j_perInstance = False\<rparr>
                   in if j_Next j now = None then Inl (CronNeverFires name spec)
                      else case ValidateName (j_leaseName j) of
                        Some err \<Rightarrow> Inl (CronBadName name err)
                      | None \<Rightarrow> Inr j)))"

text \<open>\<open>None\<close> is the panic of a registration after the start.\<close>

definition cron_register ::
  "(string \<Rightarrow> string + int) \<Rightarrow> (string \<Rightarrow> string + cron_schedule) \<Rightarrow> int \<Rightarrow> bool \<Rightarrow> string \<Rightarrow> string \<Rightarrow> bool \<Rightarrow> cron_package \<Rightarrow> cron_package option" where
  "cron_register parseDuration parse now fn_nil spec name perInstance p =
     (if cp_started p then None
      else
        (case newJob parseDuration parse now (cp_jobs p) fn_nil spec name of
           Inl err \<Rightarrow> Some (p\<lparr>cp_errRegister := cp_errRegister p @ [err]\<rparr>)
         | Inr j \<Rightarrow> Some (p\<lparr>cp_jobs := cp_jobs p @ [j\<lparr>j_perInstance := perInstance\<rparr>]\<rparr>)))"

fun requireLeases :: "conn \<Rightarrow> job list \<Rightarrow> cron_error option" where
  "requireLeases c [] = None"
| "requireLeases c (j # js) =
     (if j_perInstance j then requireLeases c js
      else map_option (CronNeedsLease (j_name j)) (Available c))"

definition cron_start :: "conn \<Rightarrow> cron_package \<Rightarrow> cron_error list \<times> cron_package" where
  "cron_start c p =
     (if cp_errRegister p \<noteq> [] then (cp_errRegister p, p)
      else case requireLeases c (cp_jobs p) of
        Some err \<Rightarrow> ([err], p)
      | None \<Rightarrow> ([], p\<lparr>cp_started := True\<rparr>))"

section \<open>Claiming an instant\<close>

definition unixMilli :: "int \<Rightarrow> nat" where
  "unixMilli t = nat (t div Millisecond)"

text \<open>
  One try at a claim: the connection, the answers and the token of \<open>ClaimSlot\<close>, what other processes do
  between its statements, whether the context has ended by the time it returns, the scheduler's clock
  then, and whether the context ends while waiting for the next try.
\<close>

record attempt =
  at_conn :: conn
  at_ans :: answers
  at_between :: "lease_table \<Rightarrow> lease_table"
  at_writeNow :: nat
  at_holder :: string
  at_claimedAt :: nat
  at_ctxEnded :: bool
  at_clock :: int
  at_waitEnded :: bool

definition RetryInterval :: int where
  "RetryInterval = int renewInterval * Millisecond"

text \<open>The loop over the tries; \<open>None\<close> when it is still trying once they are used up.\<close>

fun claim_loop :: "string \<Rightarrow> string \<Rightarrow> int option \<Rightarrow> int \<Rightarrow> attempt list \<Rightarrow> lease_table \<Rightarrow> (claim_result \<times> lease_table) option" where
  "claim_loop name inst following at [] tbl = None"
| "claim_loop name inst following at (a # as) tbl =
     (case ClaimSlot (at_conn a) (at_ans a) (at_between a) (at_writeNow a) (at_holder a) inst (at_claimedAt a) name (unixMilli at) tbl of
        (Inr r, tbl') \<Rightarrow> Some (Inr r, tbl')
      | (Inl err, tbl') \<Rightarrow>
          if at_ctxEnded a then Some (Inl err, tbl')
          else
            (let retryAt = at_clock a + RetryInterval
             in if (case following of None \<Rightarrow> False | Some f \<Rightarrow> \<not> retryAt < f) then Some (Inl err, tbl')
                else if at_waitEnded a then Some (Inl err, tbl')
                else claim_loop name inst following at as tbl'))"

definition claimSlot :: "job \<Rightarrow> string \<Rightarrow> int \<Rightarrow> attempt list \<Rightarrow> lease_table \<Rightarrow> (claim_result \<times> lease_table) option" where
  "claimSlot j inst at tries tbl = claim_loop (j_leaseName j) inst (j_Next j at) at tries tbl"

section \<open>The round\<close>

record round_outcome =
  ro_err :: "goerr option"
  ro_held :: ctx_end
  ro_lost :: bool
  ro_tbl :: lease_table

datatype cron_log =
    LogNoFurtherInstant
  | LogSkipped int nat
  | LogCouldNotReadLast
  | LogCouldNotClaim int
  | LogClaimedElsewhere int
  | LogGaveUp nat bool int
  | LogLostDuringRound int
  | LogCouldNotRelease int
  | LogCouldNotRecord int

text \<open>
  The end of a round: recorded finished, left unfinished because the name is no longer this round's, or
  given back unfinished. \<open>now\<close> is the scheduler's clock as the round ends; the zero time is before
  every instant on record.
\<close>

definition passedMs :: "(int \<Rightarrow> int option) \<Rightarrow> int \<Rightarrow> nat" where
  "passedMs Next now = (case previousInstant Next now of None \<Rightarrow> 0 | Some p \<Rightarrow> unixMilli p)"

definition runClaimed :: "job \<Rightarrow> int \<Rightarrow> conn \<Rightarrow> answers \<Rightarrow> Handle \<Rightarrow> int \<Rightarrow> (Handle \<Rightarrow> lease_table \<Rightarrow> round_outcome) \<Rightarrow> lease_table \<Rightarrow> cron_log list \<times> lease_table" where
  "runClaimed j now c ans h at work tbl =
     (let out = work h tbl;
          finished = (\<not> Interrupted (ro_held out) (ro_err out));
          h' = h\<lparr>h_lost := ro_lost out\<rparr>;
          logs = (if ro_lost out \<and> finished then [LogLostDuringRound at] else [])
      in if finished then
           (case Finish c ans h' (passedMs (j_Next j) now) (ro_tbl out) of
              (None, t) \<Rightarrow> (logs, t)
            | (Some ErrLost, t) \<Rightarrow> (logs @ [LogCouldNotRelease at], t)
            | (Some err, t) \<Rightarrow> (logs @ [LogCouldNotRecord at], t))
         else if ro_lost out then (logs, ro_tbl out)
         else
           (case Release c ans h' (ro_tbl out) of
              (None, t) \<Rightarrow> (logs, t)
            | (Some err, t) \<Rightarrow> (logs @ [LogCouldNotRelease at], t)))"

text \<open>
  What a round writes of its own outcome: the function's error, or the panic recovered into one. A
  round's context carries its lease only under a lease; \<open>lost\<close> is \<open>None\<close> without one.
\<close>

datatype interruption_reason = RoundLeaseLost | RoundShuttingDown

definition interruption :: "ctx_end \<Rightarrow> bool option \<Rightarrow> goerr option \<Rightarrow> interruption_reason option" where
  "interruption ctx lost err =
     (if \<not> Interrupted ctx err then None
      else if lost = Some True then Some RoundLeaseLost
      else Some RoundShuttingDown)"

datatype job_end = JobReturns "goerr option" | JobPanics goerr

datatype round_log = RoundFinished | RoundInterrupted interruption_reason | RoundFailed goerr | RoundPanicked goerr

definition j_run :: "ctx_end \<Rightarrow> bool option \<Rightarrow> job_end \<Rightarrow> goerr option \<times> round_log" where
  "j_run ctx lost fn =
     (case fn of
        JobPanics p \<Rightarrow> (Some p, RoundPanicked p)
      | JobReturns runErr \<Rightarrow>
          (runErr,
           case runErr of
             None \<Rightarrow> RoundFinished
           | Some e \<Rightarrow> (case interruption ctx lost runErr of Some reason \<Rightarrow> RoundInterrupted reason | None \<Rightarrow> RoundFailed e)))"

text \<open>Whether a claim was won, and the entry of one that was not.\<close>

definition claimed :: "bool \<Rightarrow> int \<Rightarrow> claim_result \<Rightarrow> Handle option \<times> cron_log list" where
  "claimed ctxEnded at r =
     (case r of
        Inl err \<Rightarrow> (None, if ctxEnded then [] else [LogCouldNotClaim at])
      | Inr None \<Rightarrow> (None, [LogClaimedElsewhere at])
      | Inr (Some h) \<Rightarrow> (Some h, []))"

text \<open>What the process meets around a round: its tries at the claim and the settling of its end.\<close>

record surroundings =
  su_inst :: string
  su_tries :: "attempt list"
  su_ctxEnded :: bool
  su_endClock :: int
  su_conn :: conn
  su_ans :: answers

definition run_won :: "job \<Rightarrow> surroundings \<Rightarrow> int \<Rightarrow> claim_result \<Rightarrow> (Handle \<Rightarrow> lease_table \<Rightarrow> round_outcome) \<Rightarrow> lease_table \<Rightarrow> bool \<times> cron_log list \<times> lease_table" where
  "run_won j su at r work tbl =
     (case claimed (su_ctxEnded su) at r of
        (None, logs) \<Rightarrow> (False, logs, tbl)
      | (Some h, logs) \<Rightarrow>
          (let gave = (case Superseded h of None \<Rightarrow> [] | Some u \<Rightarrow> [LogGaveUp (u_slot u) (u_rerun u) at]);
               (logs', tbl') = runClaimed j (su_endClock su) (su_conn su) (su_ans su) h at work tbl
           in (True, logs @ gave @ logs', tbl')))"

text \<open>A per-instance job runs its work outright; the lease table is not its business.\<close>

definition runInstant :: "job \<Rightarrow> surroundings \<Rightarrow> int \<Rightarrow> (Handle \<Rightarrow> lease_table \<Rightarrow> round_outcome) \<Rightarrow> lease_table \<Rightarrow> (bool \<times> cron_log list \<times> lease_table) option" where
  "runInstant j su at work tbl =
     (if j_perInstance j then Some (True, [], tbl)
      else map_option (\<lambda>(r, tbl'). run_won j su at r work tbl') (claimSlot j (su_inst su) at (su_tries su) tbl))"

definition rerun :: "job \<Rightarrow> surroundings \<Rightarrow> conn \<Rightarrow> answers \<Rightarrow> string \<Rightarrow> nat \<Rightarrow> Unfinished \<Rightarrow> (Handle \<Rightarrow> lease_table \<Rightarrow> round_outcome) \<Rightarrow> lease_table \<Rightarrow> bool \<times> cron_log list \<times> lease_table" where
  "rerun j su c ans holder claimedAt u work tbl =
     (case ClaimRerun c ans holder (su_inst su) claimedAt u tbl of
        (r, tbl') \<Rightarrow> run_won j su (int (u_slot u) * Millisecond) r work tbl')"

section \<open>The start-up catch-up\<close>

definition catchUp :: "job \<Rightarrow> surroundings \<Rightarrow> int \<Rightarrow> conn \<Rightarrow> string option \<Rightarrow> (Handle \<Rightarrow> lease_table \<Rightarrow> round_outcome) \<Rightarrow> lease_table \<Rightarrow> (int option \<times> cron_log list \<times> lease_table) option" where
  "catchUp j su now c answer work tbl =
     (case previousInstant (j_Next j) now of
        None \<Rightarrow> Some (None, [], tbl)
      | Some prev \<Rightarrow>
          (case LastSlot c answer (j_leaseName j) tbl of
             Inl err \<Rightarrow> Some (None, if su_ctxEnded su then [] else [LogCouldNotReadLast], tbl)
           | Inr last_slot \<Rightarrow>
               (if (case last_slot of None \<Rightarrow> True | Some ms \<Rightarrow> \<not> int ms * Millisecond < prev) then Some (None, [], tbl)
                else map_option (\<lambda>(ran_it, logs, tbl'). (if ran_it then Some prev else None, logs, tbl'))
                       (runInstant j su prev work tbl))))"

section \<open>The loop and the sweep\<close>

datatype loop_event = Due | CutShort Unfinished | CtxDone

text \<open>
  One turn of the loop: what to wait for next, \<open>None\<close> once the loop has returned. The outcome of the
  round is what \<open>runInstant\<close> or \<open>rerun\<close> came to; \<open>now\<close> is the clock once it has.
\<close>

definition loop_turn :: "job \<Rightarrow> int \<Rightarrow> bool \<Rightarrow> int option \<Rightarrow> loop_event \<Rightarrow> (int option option \<times> cron_log list) option" where
  "loop_turn j now ran_it next ev =
     (case next of
        None \<Rightarrow> Some (None, [LogNoFurtherInstant])
      | Some n \<Rightarrow>
          (let go_on = (\<lambda>at. map_option (\<lambda>(following, skipped).
                 (Some following, if skipped > 0 then [LogSkipped at skipped] else [])) (nextAfter (j_Next j) now at))
           in case ev of
                Due \<Rightarrow> go_on n
              | CutShort u \<Rightarrow> if ran_it then go_on (int (u_slot u) * Millisecond) else Some (Some (Some n), [])
              | CtxDone \<Rightarrow> Some (None, [])))"

text \<open>Where the loop begins: after the catch-up of a job under a lease, if a round ran for it.\<close>

definition loop_begin :: "job \<Rightarrow> int \<Rightarrow> int option \<Rightarrow> int option \<Rightarrow> int option option" where
  "loop_begin j now caught next =
     (if j_perInstance j then Some next
      else case caught of
        None \<Rightarrow> Some next
      | Some at \<Rightarrow> map_option fst (nextAfter (j_Next j) now at))"

definition sweepInterval :: nat where "sweepInterval = 15000"
definition sweepJitter :: nat where "sweepJitter = 1000"

definition sweepWait :: "nat \<Rightarrow> nat" where
  "sweepWait draw = (if sweepJitter \<le> 0 then sweepInterval else sweepInterval + draw mod sweepJitter)"

text \<open>The channels of a started scheduler: one for each job under a lease, by its lease name.\<close>

definition sweep_names :: "job list \<Rightarrow> string list" where
  "sweep_names jobs = sort (map j_leaseName (filter (\<lambda>j. \<not> j_perInstance j) jobs))"

definition cron_stop :: "cron_package \<Rightarrow> nat \<Rightarrow> nat option \<Rightarrow> nat option \<Rightarrow> bool \<Rightarrow> bool option" where
  "cron_stop p now done_at ended_at pick =
     (if cp_started p then Await now done_at ended_at pick else Some True)"

text \<open>A channel holds one round; a look leaves what is still there.\<close>

fun sweep_hand :: "Unfinished list \<Rightarrow> (string \<Rightarrow> Unfinished option) \<Rightarrow> (string \<Rightarrow> Unfinished option)" where
  "sweep_hand [] found = found"
| "sweep_hand (u # us) found =
     sweep_hand us (if found (u_name u) = None then found(u_name u := Some u) else found)"

definition sweep_look :: "conn \<Rightarrow> string option \<Rightarrow> string list \<Rightarrow> lease_table \<Rightarrow> (string \<Rightarrow> Unfinished option) \<Rightarrow> (string \<Rightarrow> Unfinished option)" where
  "sweep_look c answer names tbl found =
     (case UnfinishedSlots c answer names tbl of Inl err \<Rightarrow> found | Inr rounds \<Rightarrow> sweep_hand rounds found)"

section \<open>Lemmas\<close>

text \<open>What settling leaves of a row still held by the round.\<close>

definition settled_row :: "bool \<Rightarrow> nat \<Rightarrow> nat \<Rightarrow> lease_row \<Rightarrow> lease_row" where
  "settled_row interrupted dbnow passed r =
     (if interrupted then r\<lparr>lr_expires := 0\<rparr>
      else r\<lparr>lr_expires := 0, lr_unfinished := 0, lr_slot := (if lr_slot r < passed \<and> passed \<le> dbnow then passed else lr_slot r)\<rparr>)"

lemma runClaimed_held:
  assumes "ro_tbl (work h tbl) (h_name h) = Some r" "lr_holder r = h_holder h" "h_slotMs h \<noteq> 0"
    "\<not> ro_lost (work h tbl)" "primary c = Inr dbnow"
  shows "runClaimed j now c (\<lambda>_. None) h at work tbl =
    ([], (ro_tbl (work h tbl))(h_name h \<mapsto> settled_row (Interrupted (ro_held (work h tbl)) (ro_err (work h tbl))) dbnow (passedMs (j_Next j) now) r))"
  using assms
  by (simp add: runClaimed_def Let_def Finish_def Release_def run_stmt_def finish_held_stmt_def release_stmt_def update_row_def settled_row_def)

lemma claim_passed_refused:
  assumes "tbl name = Some r" "slotMs \<le> lr_slot r" "primary c = Inr dbnow" "ValidateName name = None"
  shows "ClaimSlot c (\<lambda>_. None) between now' holder inst claimedAt name slotMs tbl = (Inr None, tbl)"
  using assms by (simp add: ClaimSlot_def slot_read_stmt_def)

lemma rerun_granted:
  assumes "tbl (u_name u) = Some r" "unfinished_now dbnow r" "u_term u = lr_term r" "primary c = Inr dbnow" "ValidateName (u_name u) = None"
  shows "\<exists>h r'. ClaimRerun c (\<lambda>_. None) holder inst claimedAt u tbl = (Inr (Some h), tbl(u_name u \<mapsto> r')) \<and>
    h_slotMs h = u_slot u \<and> lr_holder r' = holder \<and> h_holder h = holder \<and> h_name h = u_name u \<and>
    lr_slot r' = lr_slot r \<and> lr_unfinished r' = lr_slot r' \<and> lr_rerun r' = lr_slot r'"
  using assms by (auto simp: ClaimRerun_def run_stmt_def rerun_stmt_def update_row_def unfinished_now_def newHandle_def)

lemma sweep_hand_keeps: "found n = Some u \<Longrightarrow> sweep_hand us found n = Some u"
proof (induction us arbitrary: found)
  case (Cons a us)
  then have "(if found (u_name a) = None then found(u_name a := Some a) else found) n = Some u" by auto
  then show ?case by (simp only: sweep_hand.simps Cons.IH)
qed simp

lemma sweep_hand_finds: "found n = None \<Longrightarrow> \<exists>u\<in>set us. u_name u = n \<Longrightarrow> \<exists>u\<in>set us. u_name u = n \<and> sweep_hand us found n = Some u"
proof (induction us arbitrary: found)
  case (Cons u us)
  show ?case
  proof (cases "u_name u = n")
    case True
    with Cons.prems sweep_hand_keeps [of "found(n := Some u)" n u us] show ?thesis by auto
  next
    case False
    with Cons.prems Cons.IH [of "if found (u_name u) = None then found(u_name u := Some u) else found"] show ?thesis by auto
  qed
qed simp

lemma find_unfinished_iff:
  "u \<in> set (find_unfinished now names tbl) \<longleftrightarrow>
     (\<exists>r. u_name u \<in> set names \<and> tbl (u_name u) = Some r \<and> unfinished_now now r \<and>
        u = \<lparr>u_name = u_name u, u_slot = lr_slot r, u_rerun = False, u_term = lr_term r\<rparr>)"
  by (induction now names tbl rule: find_unfinished.induct) (auto split: option.splits)

section \<open>Properties\<close>

text \<open>
  C31: the arithmetic of a schedule. For any schedule that answers with the first instant after a moment,
  its instants a second apart or more, the search by bisection gives exactly the latest instant of the
  past day, or none when the day had none; and the instant a job waits for after a round is later than
  the round's own and than now, even when the clock was set back, with the number of instants it skipped
  counted exactly. Both loops end.
\<close>

theorem schedule_instants:
  assumes "schedule Next" "catchUpLookback \<le> now" "0 \<le> at"
  shows "(case previousInstant Next now of
      None \<Rightarrow> \<not> (\<exists>q. schedule.instant Next q \<and> now - catchUpLookback < q \<and> q \<le> now)
    | Some p \<Rightarrow> schedule.instant Next p \<and> now - catchUpLookback < p \<and> p \<le> now \<and>
        (\<forall>q. schedule.instant Next q \<longrightarrow> q \<le> now \<longrightarrow> q \<le> p)) \<and>
    (\<exists>following skipped. nextAfter Next now at = Some (following, skipped) \<and>
      (case following of
         None \<Rightarrow> skipped = 0 \<and> \<not> (\<exists>q. schedule.instant Next q \<and> max now at < q)
       | Some n \<Rightarrow> at < n \<and> now < n \<and> schedule.instant Next n \<and> skipped = card {q. schedule.instant Next q \<and> at < q \<and> q < n}))"
proof -
  have "0 \<le> now" using assms(2) by (simp add: catchUpLookback_def Second_def)
  with schedule.previousInstant_latest [OF assms(1,2)] schedule.nextAfter_later [OF assms(1) _ assms(3), of now]
  show ?thesis by blast
qed

theorem schedule_instants_witness:
  "previousInstant (everySchedule_Next (3600 * Second)) (90000 * Second + 5) = Some (90000 * Second) \<and>
   (case previousInstant (everySchedule_Next (3600 * Second)) (90000 * Second + 5) of
      None \<Rightarrow> False | Some p \<Rightarrow> p \<le> 90000 * Second + 5)"
proof -
  let ?now = "90000 * Second + 5" and ?N = "everySchedule_Next (3600 * Second)"
  have s: "schedule ?N" by (rule every_schedule) (simp add: Second_def)
  have l: "catchUpLookback \<le> ?now" by (simp add: catchUpLookback_def Second_def)
  have n: "?N (?now - catchUpLookback) = Some (7200 * Second)" "?N (86400 * Second) = Some (90000 * Second)" by code_simp+
  have in_day: "?now - catchUpLookback < 90000 * Second" "90000 * Second \<le> ?now" by (simp_all add: catchUpLookback_def Second_def)
  from n have i: "come_by ?N ?now (?now - catchUpLookback)" "schedule.instant ?N (90000 * Second)"
    using schedule.next_instant [OF s, of "86400 * Second" "90000 * Second"] by (auto simp: come_by_def Second_def)
  note latest = schedule_instants [OF s l order_refl, THEN conjunct1]
  obtain p where p: "previousInstant ?N ?now = Some p"
    using latest i(2) in_day by (cases "previousInstant ?N ?now") (simp only: option.case, blast, blast)
  have w: "schedule.instant ?N p" "p \<le> ?now" "90000 * Second \<le> p"
    using latest i(2) in_day(2) unfolding p option.case by blast+
  from w(1) obtain t where t: "0 \<le> t" "?N t = Some p" by (auto simp: schedule.instant_def [OF s])
  have "0 < 3600 * Second" by (simp add: Second_def)
  from every_grid [OF this t(1)] t(2) obtain k where k: "p = k * (3600 * Second)" by force
  with w(2,3) have "24 < k" "k < 26" by (simp_all add: Second_def)
  then have "k = 25" by simp
  with k have "p = 90000 * Second" by simp
  with p w(2) show ?thesis by simp
qed

text \<open>
  How a round ends. While the round still holds its lease and the database answers, a round that ran
  to its end, with an error of its own or without, is recorded finished: it is found by no sweep, no
  claim of its instant or an earlier one is granted again, and the name is free. A round cut short, its
  job returning the ending of its context, gives the name back with its instant unfinished: a sweep
  finds it and a second claim is granted exactly when the instant has not run a second time, and the
  claim records that it has. Nothing else in the table changes.
\<close>

theorem cron_round_settled:
  assumes "ro_tbl (work h tbl) (h_name h) = Some r" "lr_holder r = h_holder h" "h_slotMs h = lr_slot r" "0 < lr_slot r"
    "lr_unfinished r = lr_slot r" "\<not> ro_lost (work h tbl)" "primary c = Inr dbnow" "ValidateName (h_name h) = None" "slotMs \<le> lr_slot r"
  shows "\<exists>r'. snd (runClaimed j now c (\<lambda>_. None) h at work tbl) = (ro_tbl (work h tbl))(h_name h \<mapsto> r') \<and>
    lr_expires r' = 0 \<and> lr_slot r \<le> lr_slot r' \<and>
    ClaimSlot c (\<lambda>_. None) between now' holder inst claimedAt (h_name h) slotMs (snd (runClaimed j now c (\<lambda>_. None) h at work tbl)) =
      (Inr None, snd (runClaimed j now c (\<lambda>_. None) h at work tbl)) \<and>
    (if Interrupted (ro_held (work h tbl)) (ro_err (work h tbl))
     then (unfinished_now dbnow r' \<longleftrightarrow> lr_rerun r < lr_slot r) \<and>
       (lr_rerun r < lr_slot r \<longrightarrow>
         (\<exists>u h2 r2. UnfinishedSlots c None [h_name h] (snd (runClaimed j now c (\<lambda>_. None) h at work tbl)) = Inr [u] \<and> u_slot u = lr_slot r \<and>
            ClaimRerun c (\<lambda>_. None) holder inst claimedAt u (snd (runClaimed j now c (\<lambda>_. None) h at work tbl)) =
              (Inr (Some h2), (ro_tbl (work h tbl))(h_name h \<mapsto> r2)) \<and> h_slotMs h2 = lr_slot r \<and> \<not> unfinished_now later r2))
     else UnfinishedSlots c None [h_name h] (snd (runClaimed j now c (\<lambda>_. None) h at work tbl)) = Inr [])"
proof -
  let ?i = "Interrupted (ro_held (work h tbl)) (ro_err (work h tbl))"
  let ?r = "settled_row ?i dbnow (passedMs (j_Next j) now) r"
  let ?t = "(ro_tbl (work h tbl))(h_name h \<mapsto> ?r)"
  have t: "snd (runClaimed j now c (\<lambda>_. None) h at work tbl) = ?t"
    using runClaimed_held [of work h tbl r c dbnow j now at] assms by simp
  have row: "lr_expires ?r = 0" "lr_slot r \<le> lr_slot ?r" "lr_rerun ?r = lr_rerun r" by (simp_all add: settled_row_def)
  have claim: "ClaimSlot c (\<lambda>_. None) between now' holder inst claimedAt (h_name h) slotMs ?t = (Inr None, ?t)"
    by (rule claim_passed_refused [of _ _ ?r, OF _ _ assms(7,8)]) (use row(2) assms(9) in auto)
  have "if ?i then (unfinished_now dbnow ?r \<longleftrightarrow> lr_rerun r < lr_slot r) \<and>
       (lr_rerun r < lr_slot r \<longrightarrow>
         (\<exists>u h2 r2. UnfinishedSlots c None [h_name h] ?t = Inr [u] \<and> u_slot u = lr_slot r \<and>
            ClaimRerun c (\<lambda>_. None) holder inst claimedAt u ?t = (Inr (Some h2), (ro_tbl (work h tbl))(h_name h \<mapsto> r2)) \<and>
            h_slotMs h2 = lr_slot r \<and> \<not> unfinished_now later r2))
     else UnfinishedSlots c None [h_name h] ?t = Inr []"
  proof (cases ?i)
    case True
    let ?u = "\<lparr>u_name = h_name h, u_slot = lr_slot r, u_rerun = False, u_term = lr_term r\<rparr>"
    have s: "lr_slot ?r = lr_slot r" "lr_unfinished ?r = lr_slot r" "lr_term ?r = lr_term r" using True assms(5) by (simp_all add: settled_row_def)
    then have un: "unfinished_now dbnow ?r \<longleftrightarrow> lr_rerun r < lr_slot r" using row by (simp add: unfinished_now_def)
    have "\<exists>u h2 r2. UnfinishedSlots c None [h_name h] ?t = Inr [u] \<and> u_slot u = lr_slot r \<and>
            ClaimRerun c (\<lambda>_. None) holder inst claimedAt u ?t = (Inr (Some h2), (ro_tbl (work h tbl))(h_name h \<mapsto> r2)) \<and>
            h_slotMs h2 = lr_slot r \<and> \<not> unfinished_now later r2" if again: "lr_rerun r < lr_slot r"
    proof -
      have f: "UnfinishedSlots c None [h_name h] ?t = Inr [?u]"
        using un again s assms(7) by (simp add: UnfinishedSlots_def)
      obtain h2 r2 where g: "ClaimRerun c (\<lambda>_. None) holder inst claimedAt ?u ?t = (Inr (Some h2), ?t(h_name h \<mapsto> r2))"
        "h_slotMs h2 = lr_slot r" "lr_rerun r2 = lr_slot r2"
        using rerun_granted [of ?t ?u ?r dbnow c holder inst claimedAt, OF _ iffD2 [OF un again] _ assms(7)] s assms(8) by auto
      then have "\<not> unfinished_now later r2" by (simp add: unfinished_now_def)
      with f g show ?thesis by (intro exI [of _ ?u] exI [of _ h2] exI [of _ r2]) simp
    qed
    with True un show ?thesis by simp
  next
    case False
    then have "\<not> unfinished_now dbnow ?r" using row(2) assms(4) by (simp add: unfinished_now_def settled_row_def)
    with False assms(7) show ?thesis by (simp add: UnfinishedSlots_def)
  qed
  with row claim show ?thesis unfolding t by (intro exI [of _ ?r]) simp
qed

theorem cron_round_settled_witness:
  "\<exists>r'. lr_unfinished r' = 5 \<and> lr_expires r' = 0 \<and>
     snd (runClaimed \<lparr>j_name = ''a'', j_spec = ''@every 1s'', j_schedule = EverySchedule Second, j_perInstance = False\<rparr> 0
       \<lparr>conn_dialect = Some ''sqlite'', conn_now = 9\<rparr> (\<lambda>_. None)
       (newHandle ''cron:a'' ''h'' 1 0 \<lparr>h_slotMs := 5\<rparr>) 0
       (\<lambda>h t. \<lparr>ro_err = Some (Leaf \<lparr>en_id = 1, en_comparable = True, en_is = []\<rparr>),
          ro_held = Some (Leaf \<lparr>en_id = 1, en_comparable = True, en_is = []\<rparr>, Leaf \<lparr>en_id = 1, en_comparable = True, en_is = []\<rparr>),
          ro_lost = False, ro_tbl = t\<rparr>)
       [''cron:a'' \<mapsto> \<lparr>lr_holder = ''h'', lr_instance = ''i'', lr_term = 1, lr_expires = 20, lr_slot = 5, lr_unfinished = 5, lr_rerun = 0\<rparr>])
     = [''cron:a'' \<mapsto> r']"
proof -
  let ?e = "Leaf \<lparr>en_id = 1, en_comparable = True, en_is = []\<rparr>"
  let ?w = "\<lambda>(h::Handle) t. \<lparr>ro_err = Some ?e, ro_held = Some (?e, ?e), ro_lost = False, ro_tbl = t\<rparr>"
  let ?h = "newHandle ''cron:a'' ''h'' 1 0 \<lparr>h_slotMs := 5\<rparr>"
  let ?r = "\<lparr>lr_holder = ''h'', lr_instance = ''i'', lr_term = 1, lr_expires = 20, lr_slot = 5, lr_unfinished = 5, lr_rerun = 0\<rparr>"
  let ?c = "\<lparr>conn_dialect = Some ''sqlite'', conn_now = 9\<rparr>"
  let ?j = "\<lparr>j_name = ''a'', j_spec = ''@every 1s'', j_schedule = EverySchedule Second, j_perInstance = False\<rparr>"
  let ?t = "snd (runClaimed ?j 0 ?c (\<lambda>_. None) ?h 0 ?w [''cron:a'' \<mapsto> ?r])"
  have i: "Interrupted (Some (?e, ?e)) (Some ?e)" by (simp add: Interrupted_def isLeaf_def)
  have p: "primary ?c = Inr 9" by (simp add: primary_def nowExpression_def)
  have v: "ValidateName (h_name ?h) = None" by (simp add: ValidateName_def nameMaxLength_def newHandle_def)
  obtain r' where r: "?t = [''cron:a'' \<mapsto> r']" "lr_expires r' = 0" "unfinished_now 9 r'" "5 \<le> lr_slot r'"
    using cron_round_settled [of ?w ?h "[''cron:a'' \<mapsto> ?r]" ?r ?c 9 5 ?j 0 0 id 0 "[]" "[]" 0 0] i p v
    by (auto simp: newHandle_def)
  have "?t ''cron:a'' = Some (settled_row True 9 (passedMs (j_Next ?j) 0) ?r)"
    using runClaimed_held [of ?w ?h "[''cron:a'' \<mapsto> ?r]" ?r ?c 9 ?j 0 0] i p by (simp add: newHandle_def)
  with r show ?thesis by (intro exI [of _ r']) (simp add: settled_row_def)
qed

text \<open>
  The start-up catch-up repeats nothing. It runs no round when the past day had no instant, when the
  job has never run, and when the last instant on record is the latest of the past day or a later one;
  the lease table is then left as it was. When it does run one, the round is for the latest instant of
  the past day, later than every instant on record.
\<close>

theorem catch_up_only_missed:
  assumes "primary c = Inr dbnow"
  shows "((case previousInstant (j_Next j) now of None \<Rightarrow> True
       | Some prev \<Rightarrow> (case tbl (j_leaseName j) of None \<Rightarrow> True | Some r \<Rightarrow> prev \<le> int (lr_slot r) * Millisecond)) \<longrightarrow>
      catchUp j su now c None work tbl = Some (None, [], tbl)) \<and>
    (catchUp j su now c None work tbl = Some (Some at, logs, tbl') \<longrightarrow>
      previousInstant (j_Next j) now = Some at \<and>
      (\<exists>r. tbl (j_leaseName j) = Some r \<and> int (lr_slot r) * Millisecond < at))"
proof -
  have last_slot: "LastSlot c None (j_leaseName j) tbl = Inr (map_option lr_slot (tbl (j_leaseName j)))"
    using assms by (simp add: LastSlot_def)
  show ?thesis
    by (auto simp: catchUp_def last_slot split: option.splits prod.splits if_splits)
qed

theorem catch_up_only_missed_witness:
  "\<forall>j su now work. catchUp j su now \<lparr>conn_dialect = Some ''sqlite'', conn_now = 9\<rparr> None work Map.empty = Some (None, [], Map.empty)"
proof -
  have p: "primary \<lparr>conn_dialect = Some ''sqlite'', conn_now = 9\<rparr> = Inr 9" by (simp add: primary_def nowExpression_def)
  have "catchUp j su now \<lparr>conn_dialect = Some ''sqlite'', conn_now = 9\<rparr> None work Map.empty = Some (None, [], Map.empty)" for j su now work
    using catch_up_only_missed [where j = j and now = now and su = su and work = work and tbl = Map.empty, OF p, THEN conjunct1] by (cases "previousInstant (j_Next j) now") simp_all
  then show ?thesis by blast
qed

end
