(* ===== verification/Leader.thy ===== *)
theory Leader
  imports Lease_Hold Lifecycle
begin

text \<open>
  The elections, \<^verbatim>\<open>src/leader/leader.go\<close>, and one registration's side of them, \<^verbatim>\<open>work.go\<close>: registration,
  the start, the campaign loop, the tenure and how the name is given back. The work is an argument: what
  it returned or that it panicked, how the tenure's context had ended by then, whether the lease was
  lost, and the lease table as it is by then, other replicas' doing included. Spans and trace identities
  are left out. Times are milliseconds.
\<close>

section \<open>Registration\<close>

record work =
  w_name :: string

definition w_leaseName :: "work \<Rightarrow> string" where
  "w_leaseName w = ''leader:'' @ w_name w"

datatype leader_error =
    LeaderNoName
  | LeaderNilFunction string
  | LeaderRegisteredTwice string
  | LeaderBadName string lease_error
  | LeaderNeedsLease string lease_error

record leader_package =
  lp_works :: "work list"
  lp_errRegister :: "leader_error list"
  lp_current :: "work list option"

definition newWork :: "work list \<Rightarrow> bool \<Rightarrow> string \<Rightarrow> leader_error + work" where
  "newWork works fn_nil name0 =
     (let name = TrimSpace name0; w = \<lparr>w_name = name\<rparr>
      in if name = [] then Inl LeaderNoName
         else if fn_nil then Inl (LeaderNilFunction name)
         else if list_ex (\<lambda>w. w_name w = name) works then Inl (LeaderRegisteredTwice name)
         else case ValidateName (w_leaseName w) of
           Some err \<Rightarrow> Inl (LeaderBadName name err)
         | None \<Rightarrow> Inr w)"

text \<open>\<open>None\<close> is the panic of a registration after the start.\<close>

definition leader_Register :: "bool \<Rightarrow> string \<Rightarrow> leader_package \<Rightarrow> leader_package option" where
  "leader_Register fn_nil name p =
     (if lp_current p \<noteq> None then None
      else
        (case newWork (lp_works p) fn_nil name of
           Inl err \<Rightarrow> Some (p\<lparr>lp_errRegister := lp_errRegister p @ [err]\<rparr>)
         | Inr w \<Rightarrow> Some (p\<lparr>lp_works := lp_works p @ [w]\<rparr>)))"

definition leader_start :: "conn \<Rightarrow> leader_package \<Rightarrow> leader_error list \<times> leader_package" where
  "leader_start c p =
     (if lp_errRegister p \<noteq> [] then (lp_errRegister p, p)
      else
        (let started = p\<lparr>lp_current := Some (lp_works p)\<rparr>
         in case lp_works p of
              [] \<Rightarrow> ([], started)
            | w # ws \<Rightarrow>
                (case Available c of
                   Some err \<Rightarrow> ([LeaderNeedsLease (w_name w) err], p)
                 | None \<Rightarrow> ([], started))))"

text \<open>
  Stopping ends every loop and waits for them; \<open>True\<close> when they all returned in time. Without a started
  elector there is nothing to wait for.
\<close>

definition leader_stop :: "leader_package \<Rightarrow> nat \<Rightarrow> nat option \<Rightarrow> nat option \<Rightarrow> bool \<Rightarrow> bool option" where
  "leader_stop p now done_at ended_at pick =
     (case lp_current p of None \<Rightarrow> Some True | Some works \<Rightarrow> Await now done_at ended_at pick)"

section \<open>The tenure\<close>

text \<open>What the work did: its error or none, or the panic that \<open>run\<close> turns into an error.\<close>

datatype work_end = Returns "goerr option" | Panics goerr

record tenure =
  tn_end :: work_end
  tn_held :: ctx_end
  tn_lost :: bool
  tn_tbl :: lease_table

datatype reason = LeaseLost | ShuttingDown | WorkReturned

datatype leader_log =
    LogCampaignFailed lease_error
  | LogElected nat
  | LogPanicked goerr
  | LogSteppedDownError goerr reason
  | LogSteppedDown reason
  | LogCouldNotReleaseLease lease_error

definition tenureEnd :: "ctx_end \<Rightarrow> bool \<Rightarrow> reason \<times> bool" where
  "tenureEnd held lost =
     (if lost then (LeaseLost, True) else if held \<noteq> None then (ShuttingDown, False) else (WorkReturned, False))"

definition run_work :: "work_end \<Rightarrow> goerr option \<times> leader_log list" where
  "run_work e = (case e of Returns err \<Rightarrow> (err, []) | Panics p \<Rightarrow> (Some p, [LogPanicked p]))"

definition lead :: "conn \<Rightarrow> answers \<Rightarrow> (Handle \<Rightarrow> lease_table \<Rightarrow> tenure) \<Rightarrow> Handle \<Rightarrow> lease_table \<Rightarrow> leader_log list \<times> lease_table" where
  "lead c ans fn h tbl =
     (let tn = fn h tbl;
          (err, panicked) = run_work (tn_end tn);
          (reason, lost) = tenureEnd (tn_held tn) (tn_lost tn);
          err' = (if Interrupted (tn_held tn) err then None else err);
          logs = [LogElected (h_term h)] @ panicked @
            [case err' of None \<Rightarrow> LogSteppedDown reason | Some e \<Rightarrow> LogSteppedDownError e reason]
      in if lost then (logs, tn_tbl tn)
         else
           (case Release c ans (h\<lparr>h_lost := tn_lost tn\<rparr>) (tn_tbl tn) of
              (None, t) \<Rightarrow> (logs, t)
            | (Some e, t) \<Rightarrow> (logs @ [LogCouldNotReleaseLease e], t)))"

section \<open>The campaign\<close>

definition campaignInterval :: nat where "campaignInterval = 5000"
definition campaignJitter :: nat where "campaignJitter = 1000"

text \<open>\<open>draw\<close> is what the random source gives; the jitter is its share below the bound.\<close>

definition campaignWait :: "nat \<Rightarrow> nat" where
  "campaignWait draw = (if campaignJitter \<le> 0 then campaignInterval else campaignInterval + draw mod campaignJitter)"

text \<open>
  The wait of the loop: from when it starts, for how long, by how much the timer runs over, and when the
  context ends, if ever; a tie is the choice of \<open>select\<close>. Whether the time passed, and when the wait ended.
\<close>

definition leader_wait :: "nat option \<Rightarrow> bool \<Rightarrow> nat \<Rightarrow> nat \<Rightarrow> nat \<Rightarrow> bool \<times> nat" where
  "leader_wait ended pick clock d overrun =
     (let fires = clock + d + overrun
      in case ended of
           None \<Rightarrow> (True, fires)
         | Some e \<Rightarrow> if e < fires \<or> e = fires \<and> \<not> pick then (False, max clock e) else (True, fires))"

text \<open>
  What one turn of the loop meets: the database, the answers and the token of the claim, how long the claim
  takes to reach the database and how long its answer takes back, the work, how long the tenure lasts and
  the settling of it, the random draw, what the timer of the wait runs over, and what other replicas do to
  the table meanwhile.
\<close>

record turn =
  t_dialect :: "string option"
  t_ans :: answers
  t_holder :: string
  t_claimedAt :: nat
  t_sent :: nat
  t_reply :: nat
  t_fn :: "Handle \<Rightarrow> lease_table \<Rightarrow> tenure"
  t_tenure :: nat
  t_releaseConn :: conn
  t_releaseAns :: answers
  t_draw :: nat
  t_overrun :: nat
  t_pick :: bool
  t_others :: "lease_table \<Rightarrow> lease_table"

definition t_conn :: "turn \<Rightarrow> nat \<Rightarrow> conn" where
  "t_conn t clock = \<lparr>conn_dialect = t_dialect t, conn_now = clock + t_sent t\<rparr>"

text \<open>
  One turn from a point of time on: whether the loop has returned, the entries, the table, and the time
  the next turn starts.
\<close>

definition campaign_turn ::
  "work \<Rightarrow> string \<Rightarrow> nat option \<Rightarrow> turn \<Rightarrow> nat \<Rightarrow> lease_table \<Rightarrow> bool \<times> leader_log list \<times> lease_table \<times> nat" where
  "campaign_turn w inst ended t clock tbl =
     (let answeredAt = clock + t_sent t + t_reply t;
          pause = (\<lambda>from logs tbl'.
            let (passed, now) = leader_wait ended (t_pick t) from (campaignWait (t_draw t)) (t_overrun t)
            in (\<not> passed, logs, tbl', now))
      in case Claim (t_conn t clock) (t_ans t) (t_holder t) inst (t_claimedAt t) (w_leaseName w) tbl of
           (Inl err, tbl') \<Rightarrow>
             if \<exists>e. ended = Some e \<and> e \<le> answeredAt then (True, [], tbl', answeredAt)
             else pause answeredAt [LogCampaignFailed err] tbl'
         | (Inr None, tbl') \<Rightarrow> pause answeredAt [] tbl'
         | (Inr (Some h), tbl') \<Rightarrow>
             (let (logs, tbl'') = lead (t_releaseConn t) (t_releaseAns t) (t_fn t) h tbl'
              in pause (answeredAt + t_tenure t) logs tbl''))"

text \<open>The loop, over the turns it takes; whether it has returned once they are used up.\<close>

fun campaign_loop ::
  "work \<Rightarrow> string \<Rightarrow> nat option \<Rightarrow> turn list \<Rightarrow> nat \<Rightarrow> lease_table \<Rightarrow> bool \<times> leader_log list \<times> lease_table" where
  "campaign_loop w inst ended [] clock tbl = (False, [], tbl)"
| "campaign_loop w inst ended (t # ts) clock tbl =
     (case campaign_turn w inst ended t clock tbl of
        (True, logs, tbl', now) \<Rightarrow> (True, logs, tbl')
      | (False, logs, tbl', now) \<Rightarrow>
          (let (returned, logs', tbl'') = campaign_loop w inst ended ts now (t_others t tbl') in (returned, logs @ logs', tbl'')))"

section \<open>Lemmas\<close>

lemma campaignWait_bounds: "campaignInterval \<le> campaignWait draw \<and> campaignWait draw < campaignInterval + campaignJitter"
  by (simp add: campaignWait_def campaignJitter_def)

lemma lead_given_back:
  assumes "\<not> tn_lost (fn h tbl)" "primary c = Inr now" "tn_tbl (fn h tbl) (h_name h) = Some r" "lr_holder r = h_holder h"
  shows "snd (lead c (\<lambda>_. None) fn h tbl) = (tn_tbl (fn h tbl))(h_name h \<mapsto> r\<lparr>lr_expires := 0\<rparr>)"
  using assms
  by (simp add: lead_def Let_def tenureEnd_def Release_def run_stmt_def release_stmt_def update_row_def split: prod.splits)

lemma lead_not_ours:
  assumes "tn_lost (fn h tbl) \<or> (\<forall>r. tn_tbl (fn h tbl) (h_name h) = Some r \<longrightarrow> lr_holder r \<noteq> h_holder h)"
  shows "snd (lead c ans fn h tbl) = tn_tbl (fn h tbl)"
  using assms
  by (auto simp: lead_def Let_def tenureEnd_def Release_def run_stmt_def release_stmt_def update_row_def
      split: prod.splits option.splits sum.splits)

lemma lead_elected: "\<exists>logs tbl'. lead c ans fn h tbl = (LogElected (h_term h) # logs, tbl')"
proof -
  obtain o_err t where "Release c ans (h\<lparr>h_lost := tn_lost (fn h tbl)\<rparr>) (tn_tbl (fn h tbl)) = (o_err, t)" by fastforce
  moreover obtain err panicked where "run_work (tn_end (fn h tbl)) = (err, panicked)" by fastforce
  moreover obtain reason lost where "tenureEnd (tn_held (fn h tbl)) (tn_lost (fn h tbl)) = (reason, lost)" by fastforce
  ultimately show ?thesis by (cases o_err) (auto simp: lead_def Let_def)
qed

text \<open>A claim of a free name wins, one of a name in use does not.\<close>

lemma claim_free:
  assumes "ValidateName name = None" "primary c = Inr now" "tbl name = Some r" "lr_expires r \<le> now"
  shows "Claim c (\<lambda>_. None) holder inst at name tbl =
    (Inr (Some (newHandle name holder (lr_term r + 1) at)),
     tbl(name \<mapsto> r\<lparr>lr_holder := holder, lr_instance := inst, lr_term := lr_term r + 1, lr_expires := now + leaseDuration\<rparr>))"
  using assms by (simp add: claim_answered claim_stmt_def update_row_def)

lemma claim_in_use:
  assumes "ValidateName name = None" "primary c = Inr now" "tbl name = Some r" "now < lr_expires r"
  shows "Claim c (\<lambda>_. None) holder inst at name tbl = (Inr None, tbl)"
  using assms by (simp add: claim_answered)

text \<open>
  A claim the database answers, on a network that takes at most \<open>delay\<close> to deliver it and at most
  \<open>slack\<close> for the answer and the timer of the wait to come through.
\<close>

definition answered :: "nat \<Rightarrow> nat \<Rightarrow> turn \<Rightarrow> bool" where
  "answered delay slack t \<longleftrightarrow> t_ans t = (\<lambda>_. None) \<and> (\<forall>clock. primary (t_conn t clock) = Inr (clock + t_sent t)) \<and>
     t_sent t \<le> delay \<and> t_reply t + t_overrun t \<le> slack"

text \<open>A turn that finds the name in use changes nothing and ends after its wait.\<close>

lemma campaign_turn_in_use:
  assumes "answered delay slack t" "ValidateName (w_leaseName w) = None" "tbl (w_leaseName w) = Some r" "clock + t_sent t < lr_expires r"
  shows "campaign_turn w inst None t clock tbl =
    (False, [], tbl, clock + t_sent t + t_reply t + campaignWait (t_draw t) + t_overrun t)"
  using assms claim_in_use [of "w_leaseName w" "t_conn t clock" "clock + t_sent t" tbl r "t_holder t" inst "t_claimedAt t"]
  by (simp add: answered_def campaign_turn_def leader_wait_def Let_def)

lemma campaign_reaches:
  assumes "list_all (answered delay slack) ts" "\<forall>t\<in>set ts. t_others t tbl = tbl" "ValidateName (w_leaseName w) = None"
    "tbl (w_leaseName w) = Some r" "ts \<noteq> []" "start < lr_expires r + campaignInterval + campaignJitter + slack"
    "lr_expires r \<le> start + (length ts - 1) * campaignInterval"
  shows "\<exists>pre t post clock. ts = pre @ t # post \<and> lr_expires r \<le> clock + t_sent t \<and>
    clock + t_sent t < lr_expires r + campaignInterval + campaignJitter + slack + delay \<and>
    campaign_loop w inst None ts start tbl = campaign_loop w inst None (t # post) clock tbl"
  using assms
proof (induction ts arbitrary: start)
  case (Cons t ts)
  note a = Cons.prems(1) [unfolded list.pred_inject, THEN conjunct1]
  show ?case
  proof (cases "lr_expires r \<le> start + t_sent t")
    case True
    with Cons.prems(6) a show ?thesis
      by (intro exI [of _ "[]"] exI [of _ t] exI [of _ ts] exI [of _ start]) (auto simp: answered_def simp del: campaign_loop.simps)
  next
    case False
    let ?next = "start + t_sent t + t_reply t + campaignWait (t_draw t) + t_overrun t"
    have step: "campaign_loop w inst None (t # ts) start tbl = campaign_loop w inst None ts ?next tbl"
      using False a campaign_turn_in_use [of delay slack t w tbl r start inst] Cons.prems(2-4) by (simp split: prod.split)
    have ne: "ts \<noteq> []" using Cons.prems(7) False by auto
    then have "(length (t # ts) - 1) * campaignInterval = (length ts - 1) * campaignInterval + campaignInterval"
      by (cases ts) simp_all
    with Cons.prems(7) campaignWait_bounds [of "t_draw t"]
    have enough: "lr_expires r \<le> ?next + (length ts - 1) * campaignInterval" by linarith
    have soon: "?next < lr_expires r + campaignInterval + campaignJitter + slack"
      using False campaignWait_bounds [of "t_draw t"] a by (simp add: answered_def)
    have prems: "list_all (answered delay slack) ts" "\<forall>t\<in>set ts. t_others t tbl = tbl" using Cons.prems by simp_all
    obtain pre u post clock where
      "ts = pre @ u # post" "lr_expires r \<le> clock + t_sent u" "clock + t_sent u < lr_expires r + campaignInterval + campaignJitter + slack + delay"
      "campaign_loop w inst None ts ?next tbl = campaign_loop w inst None (u # post) clock tbl"
      using Cons.IH [OF prems Cons.prems(3,4) ne soon enough] by blast
    then show ?thesis unfolding step
      by (intro exI [of _ "t # pre"] exI [of _ u] exI [of _ post] exI [of _ clock]) (simp del: campaign_loop.simps)
  qed
qed simp

section \<open>Properties\<close>

text \<open>
  C22: a crashed leader is replaced in time. A leader last renewed its lease at \<open>renewed\<close> and then did
  nothing; a replica was campaigning, and its process keeps running. Its loop, which waits the interval
  and the jitter it drew after every answer, leaves the lease alone while it runs and wins it, with the
  next term, no earlier than 15 seconds after the renewal and less than 21 seconds and the latencies after
  it: what a claim takes to reach the database, and an answer and a timer to come through. That many
  turns happen follows from their number alone, as each takes at least the interval. Other replicas are
  taken not to win the name first, and the timers to run at the rate of the clock of the database.
\<close>

theorem leader_replaced_in_time:
  assumes "list_all (answered delay slack) ts" "\<forall>t\<in>set ts. t_others t tbl = tbl" "ValidateName (w_leaseName w) = None"
    "tbl (w_leaseName w) = Some r" "lr_expires r = renewed + leaseDuration"
    "start \<le> renewed + leaseDuration" "ts \<noteq> []" "renewed + leaseDuration \<le> start + (length ts - 1) * campaignInterval"
  shows "\<exists>pre t post clock h tbl'. ts = pre @ t # post \<and>
    campaign_loop w inst None ts start tbl = campaign_loop w inst None (t # post) clock tbl \<and>
    renewed + 15000 \<le> clock + t_sent t \<and> clock + t_sent t < renewed + 21000 + delay + slack \<and>
    Claim (t_conn t clock) (t_ans t) (t_holder t) inst (t_claimedAt t) (w_leaseName w) tbl = (Inr (Some h), tbl') \<and>
    h_term h = lr_term r + 1 \<and>
    hd (fst (snd (campaign_loop w inst None ts start tbl))) = LogElected (lr_term r + 1)"
proof -
  have "start < lr_expires r + campaignInterval + campaignJitter + slack"
    "lr_expires r \<le> start + (length ts - 1) * campaignInterval"
    using assms(5,6,8) by (simp_all add: campaignInterval_def)
  from campaign_reaches [OF assms(1-4,7) this]
  obtain pre t post clock where t: "ts = pre @ t # post" "lr_expires r \<le> clock + t_sent t"
    "clock + t_sent t < lr_expires r + campaignInterval + campaignJitter + slack + delay"
    "campaign_loop w inst None ts start tbl = campaign_loop w inst None (t # post) clock tbl" by blast
  have a: "answered delay slack t" using assms(1) t(1) by simp
  let ?h = "newHandle (w_leaseName w) (t_holder t) (lr_term r + 1) (t_claimedAt t)"
  obtain tbl' where claim: "Claim (t_conn t clock) (t_ans t) (t_holder t) inst (t_claimedAt t) (w_leaseName w) tbl = (Inr (Some ?h), tbl')"
    using a claim_free [of "w_leaseName w" "t_conn t clock" "clock + t_sent t" tbl r "t_holder t" inst "t_claimedAt t"] assms(3,4) t(2)
    by (simp add: answered_def)
  obtain logs tbl'' where led: "lead (t_releaseConn t) (t_releaseAns t) (t_fn t) ?h tbl' = (LogElected (h_term ?h) # logs, tbl'')"
    using lead_elected by blast
  have "hd (fst (snd (campaign_loop w inst None ts start tbl))) = LogElected (lr_term r + 1)"
    using claim led unfolding t(4) by (simp add: campaign_turn_def leader_wait_def newHandle_def Let_def split: prod.splits)
  with t claim assms(5) show ?thesis
    by (intro exI [of _ pre] exI [of _ t] exI [of _ post] exI [of _ clock] exI [of _ ?h] exI [of _ tbl'])
      (simp add: newHandle_def leaseDuration_def campaignInterval_def campaignJitter_def)
qed

definition sample_turn :: turn where
  "sample_turn =
     \<lparr>t_dialect = Some ''mysql'', t_ans = \<lambda>_. None, t_holder = ''b'', t_claimedAt = 0, t_sent = 3, t_reply = 4,
      t_fn = \<lambda>h t. \<lparr>tn_end = Returns None, tn_held = None, tn_lost = False, tn_tbl = t\<rparr>, t_tenure = 60000,
      t_releaseConn = \<lparr>conn_dialect = Some ''mysql'', conn_now = 7\<rparr>, t_releaseAns = \<lambda>_. None, t_draw = 999,
      t_overrun = 1, t_pick = True, t_others = id\<rparr>"

theorem leader_replaced_in_time_witness:
  "hd (fst (snd (campaign_loop \<lparr>w_name = ''relay''\<rparr> ''pod'' None (replicate 4 sample_turn) 2000
     [''leader:relay'' \<mapsto> \<lparr>lr_holder = ''a'', lr_instance = ''x'', lr_term = 4, lr_expires = 16000, lr_slot = 0, lr_unfinished = 0, lr_rerun = 0\<rparr>])))
   = LogElected 5"
proof -
  let ?r = "\<lparr>lr_holder = ''a'', lr_instance = ''x'', lr_term = 4, lr_expires = 16000, lr_slot = 0, lr_unfinished = 0, lr_rerun = 0\<rparr>"
  let ?ts = "replicate 4 sample_turn" and ?w = "\<lparr>w_name = ''relay''\<rparr>"
  have p: "list_all (answered 3 5) ?ts"
    by (simp add: list_all_iff answered_def sample_turn_def t_conn_def primary_def nowExpression_def)
  have v: "ValidateName (w_leaseName ?w) = None" by (simp add: ValidateName_def w_leaseName_def nameMaxLength_def)
  have o: "\<forall>t\<in>set ?ts. t_others t [''leader:relay'' \<mapsto> ?r] = [''leader:relay'' \<mapsto> ?r]" by (simp add: sample_turn_def)
  have r: "[''leader:relay'' \<mapsto> ?r] (w_leaseName ?w) = Some ?r" "lr_expires ?r = 1000 + leaseDuration"
    by (simp_all add: w_leaseName_def leaseDuration_def)
  have t: "2000 \<le> 1000 + leaseDuration" "?ts \<noteq> []" "1000 + leaseDuration \<le> 2000 + (length ?ts - 1) * campaignInterval"
    by (simp_all add: leaseDuration_def campaignInterval_def)
  have "hd (fst (snd (campaign_loop ?w ''pod'' None ?ts 2000 [''leader:relay'' \<mapsto> ?r]))) = LogElected (lr_term ?r + 1)"
    using leader_replaced_in_time [OF p o v r t, of "''pod''"] by blast
  moreover have "lr_term ?r + 1 = 5" by simp
  ultimately show ?thesis by (rule subst [rotated])
qed

text \<open>
  How a tenure ends. The name is given back exactly when the lease was not lost and is still this
  tenure's: the row then expires at once, keeps its term, and the next claim by any replica, at any time,
  wins with a term one higher. Otherwise the table stays as the tenure left it, so a leader that lost its
  name never frees the one its successor holds. An error of the work is reported as one exactly when it
  is more than the tenure's own ending, a panic included.
\<close>

theorem tenure_hands_over:
  assumes "primary c = Inr now" "primary c' = Inr later" "ValidateName (h_name h) = None"
  shows "(case tn_tbl (fn h tbl) (h_name h) of
      Some r \<Rightarrow>
        if \<not> tn_lost (fn h tbl) \<and> lr_holder r = h_holder h
        then snd (lead c (\<lambda>_. None) fn h tbl) = (tn_tbl (fn h tbl))(h_name h \<mapsto> r\<lparr>lr_expires := 0\<rparr>) \<and>
          (\<exists>h2 tbl2. Claim c' (\<lambda>_. None) holder inst at (h_name h) (snd (lead c (\<lambda>_. None) fn h tbl)) = (Inr (Some h2), tbl2) \<and>
             h_term h2 = lr_term r + 1 \<and> h_holder h2 = holder)
        else snd (lead c (\<lambda>_. None) fn h tbl) = tn_tbl (fn h tbl)
    | None \<Rightarrow> snd (lead c (\<lambda>_. None) fn h tbl) = tn_tbl (fn h tbl)) \<and>
    ((\<exists>e reason. LogSteppedDownError e reason \<in> set (fst (lead c (\<lambda>_. None) fn h tbl))) \<longleftrightarrow>
      (case tn_end (fn h tbl) of Returns err \<Rightarrow> err \<noteq> None \<and> \<not> Interrupted (tn_held (fn h tbl)) err
       | Panics p \<Rightarrow> \<not> Interrupted (tn_held (fn h tbl)) (Some p)))"
proof -
  have logs: "(\<exists>e reason. LogSteppedDownError e reason \<in> set (fst (lead c (\<lambda>_. None) fn h tbl))) \<longleftrightarrow>
      (case tn_end (fn h tbl) of Returns err \<Rightarrow> err \<noteq> None \<and> \<not> Interrupted (tn_held (fn h tbl)) err
       | Panics p \<Rightarrow> \<not> Interrupted (tn_held (fn h tbl)) (Some p))"
    by (cases "tn_end (fn h tbl)")
      (auto simp: lead_def Let_def run_work_def tenureEnd_def split: prod.splits option.splits if_splits)
  have given: "snd (lead c (\<lambda>_. None) fn h tbl) = (tn_tbl (fn h tbl))(h_name h \<mapsto> r\<lparr>lr_expires := 0\<rparr>) \<and>
      (\<exists>h2 tbl2. Claim c' (\<lambda>_. None) holder inst at (h_name h) (snd (lead c (\<lambda>_. None) fn h tbl)) = (Inr (Some h2), tbl2) \<and>
         h_term h2 = lr_term r + 1 \<and> h_holder h2 = holder)"
    if r: "tn_tbl (fn h tbl) (h_name h) = Some r" "\<not> tn_lost (fn h tbl)" "lr_holder r = h_holder h" for r
    using lead_given_back [of fn h tbl c now r] r assms(1)
      claim_free [OF assms(3,2), of "(tn_tbl (fn h tbl))(h_name h \<mapsto> r\<lparr>lr_expires := 0\<rparr>)" "r\<lparr>lr_expires := 0\<rparr>" holder inst at]
    by (simp add: newHandle_def)
  show ?thesis
    using logs given lead_not_ours [of fn h tbl c "\<lambda>_. None"] by (auto split: option.splits)
qed

theorem tenure_hands_over_witness:
  "snd (lead \<lparr>conn_dialect = Some ''mysql'', conn_now = 8\<rparr> (\<lambda>_. None)
     (\<lambda>h t. \<lparr>tn_end = Returns None, tn_held = None, tn_lost = False, tn_tbl = t\<rparr>) (newHandle ''leader:relay'' ''a'' 4 0)
     [''leader:relay'' \<mapsto> \<lparr>lr_holder = ''a'', lr_instance = ''x'', lr_term = 4, lr_expires = 16000, lr_slot = 0, lr_unfinished = 0, lr_rerun = 0\<rparr>])
   = [''leader:relay'' \<mapsto> \<lparr>lr_holder = ''a'', lr_instance = ''x'', lr_term = 4, lr_expires = 0, lr_slot = 0, lr_unfinished = 0, lr_rerun = 0\<rparr>]"
proof -
  let ?c = "\<lparr>conn_dialect = Some ''mysql'', conn_now = 8\<rparr>"
  have p: "primary ?c = Inr 8" by (simp add: primary_def nowExpression_def)
  have v: "ValidateName (h_name (newHandle ''leader:relay'' ''a'' 4 0)) = None"
    by (simp add: ValidateName_def nameMaxLength_def newHandle_def)
  show ?thesis
    using tenure_hands_over [OF p p v, THEN conjunct1, of "\<lambda>h t. \<lparr>tn_end = Returns None, tn_held = None, tn_lost = False, tn_tbl = t\<rparr>"
        "[''leader:relay'' \<mapsto> \<lparr>lr_holder = ''a'', lr_instance = ''x'', lr_term = 4, lr_expires = 16000, lr_slot = 0, lr_unfinished = 0, lr_rerun = 0\<rparr>]"]
    by (simp add: newHandle_def)
qed

end
