(* ===== verification/Dcache.thy ===== *)
theory Dcache
  imports Utf8
begin

text \<open>
  The replicated cache, \<^verbatim>\<open>src/dcache/replicated.go\<close> and \<^verbatim>\<open>helper.go\<close>: one replica's operations, the events
  it publishes and the listener that applies the events of its peers, then many replicas over one topic.
  The store behind a replica is a map; what it answers besides, an error or none, is an argument, and an
  entry that expires or is evicted is a step of the system. The timestamp table is a map too: a key it
  evicts is outside the system's steps, as the package documents. How a value is encoded as JSON is an
  argument. Stamps are the 64-bit nanoseconds of \<open>UnixNano\<close>, as integers, with the wrap-around of the
  one addition written out. Durations of waits, metrics output and log texts are left out.
\<close>

section \<open>Replicas and events\<close>

definition opSet :: int where "opSet = 0"
definition opDel :: int where "opDel = 1"

definition op_String :: "int \<Rightarrow> string" where
  "op_String p = (if p = opSet then ''set'' else if p = opDel then ''del'' else ''unknown'')"

record event =
  ev_CacheID :: string
  ev_Key :: string
  ev_TS :: int
  ev_Op :: int
  ev_Val :: string
  ev_Typ :: string
  ev_TTL :: int
  ev_Instance :: string

record 'v replica =
  dc_store :: "string \<rightharpoonup> 'v \<times> int"
  dc_typ :: string
  dc_cacheID :: string
  dc_appliedTS :: "string \<rightharpoonup> int"
  dc_hits :: int
  dc_misses :: int
  dc_sets :: int
  dc_deletes :: int
  dc_peerSets :: int
  dc_peerDeletes :: int
  dc_publishDropped :: int

definition newReplicatedCache :: "string \<Rightarrow> string \<Rightarrow> 'v replica" where
  "newReplicatedCache typ cacheID =
     \<lparr>dc_store = Map.empty, dc_typ = typ, dc_cacheID = cacheID, dc_appliedTS = Map.empty, dc_hits = 0, dc_misses = 0,
      dc_sets = 0, dc_deletes = 0, dc_peerSets = 0, dc_peerDeletes = 0, dc_publishDropped = 0\<rparr>"

datatype dcache_error = NegativeTTL | InvalidKey | EntryNotFound | StoreError string | MarshalError string

definition validKey :: "string \<Rightarrow> dcache_error option" where
  "validKey key = (if runes_strict (bytes key) = None then Some InvalidKey else None)"

definition watermarkEntries :: "int \<Rightarrow> int" where
  "watermarkEntries entries = min (10 * entries) 10000000"

definition hitRatio :: "int \<Rightarrow> int \<Rightarrow> int" where
  "hitRatio hits misses = (if hits + misses = 0 then 0 else hits * 100 div (hits + misses))"

section \<open>Stamps\<close>

definition stampLocked :: "int \<Rightarrow> string \<Rightarrow> 'v replica \<Rightarrow> int" where
  "stampLocked now key dc =
     (case dc_appliedTS dc key of
        Some last_ts \<Rightarrow> if now \<le> last_ts then signed_take_bit 63 (last_ts + 1) else now
      | None \<Rightarrow> now)"

definition advanceWatermarkLocked :: "string \<Rightarrow> int \<Rightarrow> 'v replica \<Rightarrow> 'v replica" where
  "advanceWatermarkLocked key ts dc =
     (if (case dc_appliedTS dc key of Some last_ts \<Rightarrow> ts \<le> last_ts | None \<Rightarrow> False) then dc
      else dc\<lparr>dc_appliedTS := (dc_appliedTS dc)(key \<mapsto> ts)\<rparr>)"

section \<open>Local operations\<close>

text \<open>
  \<open>val\<close> is what marshalling the value came to, \<open>submitted\<close> whether the pool took the task. The event is
  what the task produces; whether the broker takes it is the system's business.
\<close>

definition sendEvent :: "string \<Rightarrow> string + string \<Rightarrow> bool \<Rightarrow> event \<Rightarrow> 'v replica \<Rightarrow> dcache_error option \<times> event option \<times> 'v replica" where
  "sendEvent inst val submitted evt dc =
     (case val of
        Inl err \<Rightarrow> (Some (MarshalError err), None, dc)
      | Inr v \<Rightarrow>
          (let evt' = evt\<lparr>ev_CacheID := dc_cacheID dc, ev_Typ := dc_typ dc, ev_Instance := inst, ev_Val := v\<rparr>
           in if submitted then (None, Some evt', dc)
              else (None, None, dc\<lparr>dc_publishDropped := dc_publishDropped dc + 1\<rparr>)))"

definition bare_event :: event where
  "bare_event = \<lparr>ev_CacheID = [], ev_Key = [], ev_TS = 0, ev_Op = 0, ev_Val = [], ev_Typ = [], ev_TTL = 0, ev_Instance = []\<rparr>"

text \<open>What a call meets: the clock, the store's answer, the process and the publishing pool.\<close>

record surround =
  sr_now :: int
  sr_store :: "string option"
  sr_instance :: string
  sr_submitted :: bool

definition dc_Set ::
  "('v \<Rightarrow> string + string) \<Rightarrow> surround \<Rightarrow> string \<Rightarrow> 'v \<Rightarrow> int \<Rightarrow> 'v replica \<Rightarrow> dcache_error option \<times> event option \<times> 'v replica" where
  "dc_Set marshal sr key value ttl dc =
     (if ttl < 0 then (Some NegativeTTL, None, dc)
      else case validKey key of
        Some err \<Rightarrow> (Some err, None, dc)
      | None \<Rightarrow>
          (let ts = stampLocked (sr_now sr) key dc
           in case sr_store sr of
                Some err \<Rightarrow> (Some (StoreError err), None, dc)
              | None \<Rightarrow>
                  (let dc1 = dc\<lparr>dc_store := (dc_store dc)(key \<mapsto> (value, ttl))\<rparr>;
                       dc2 = advanceWatermarkLocked key ts dc1;
                       dc3 = dc2\<lparr>dc_sets := dc_sets dc2 + 1\<rparr>
                   in sendEvent (sr_instance sr) (marshal value) (sr_submitted sr)
                        (bare_event\<lparr>ev_TS := ts, ev_Op := opSet, ev_Key := key, ev_TTL := ttl\<rparr>) dc3)))"

text \<open>A failing read is not a miss; \<open>failure\<close> is the store's error besides the missing entry.\<close>

definition dc_Get :: "string option \<Rightarrow> string \<Rightarrow> 'v replica \<Rightarrow> (dcache_error + 'v) \<times> 'v replica" where
  "dc_Get failure key dc =
     (case failure of
        Some err \<Rightarrow> (Inl (StoreError err), dc)
      | None \<Rightarrow>
          (case dc_store dc key of
             Some (value, ttl) \<Rightarrow> (Inr value, dc\<lparr>dc_hits := dc_hits dc + 1\<rparr>)
           | None \<Rightarrow> (Inl EntryNotFound, dc\<lparr>dc_misses := dc_misses dc + 1\<rparr>)))"

definition dc_Delete :: "surround \<Rightarrow> string \<Rightarrow> 'v replica \<Rightarrow> dcache_error option \<times> event option \<times> 'v replica" where
  "dc_Delete sr key dc =
     (case validKey key of
        Some err \<Rightarrow> (Some err, None, dc)
      | None \<Rightarrow>
          (let ts = stampLocked (sr_now sr) key dc
           in case sr_store sr of
                Some err \<Rightarrow> (Some (StoreError err), None, dc)
              | None \<Rightarrow>
                  (let dc1 = dc\<lparr>dc_store := (dc_store dc)(key := None)\<rparr>;
                       dc2 = advanceWatermarkLocked key ts dc1;
                       dc3 = dc2\<lparr>dc_deletes := dc_deletes dc2 + 1\<rparr>
                   in sendEvent (sr_instance sr) (Inr ''null'') (sr_submitted sr)
                        (bare_event\<lparr>ev_TS := ts, ev_Op := opDel, ev_Key := key\<rparr>) dc3)))"

definition dc_Exists :: "string \<Rightarrow> 'v replica \<Rightarrow> bool" where
  "dc_Exists key dc \<longleftrightarrow> dc_store dc key \<noteq> None"

section \<open>The listener\<close>

definition is_stale :: "event \<Rightarrow> 'v replica \<Rightarrow> bool" where
  "is_stale evt dc = (case dc_appliedTS dc (ev_Key evt) of Some last_ts \<Rightarrow> ev_TS evt \<le> last_ts | None \<Rightarrow> False)"

definition applyPeerSet :: "string option \<Rightarrow> event \<Rightarrow> 'v \<Rightarrow> 'v replica \<Rightarrow> (string + bool) \<times> 'v replica" where
  "applyPeerSet answer evt val dc =
     (if is_stale evt dc then (Inr True, dc)
      else case answer of
        Some err \<Rightarrow> (Inl err, dc)
      | None \<Rightarrow>
          (Inr False, dc\<lparr>dc_store := (dc_store dc)(ev_Key evt \<mapsto> (val, ev_TTL evt)),
                         dc_appliedTS := (dc_appliedTS dc)(ev_Key evt \<mapsto> ev_TS evt)\<rparr>))"

definition applyPeerDelete :: "string option \<Rightarrow> event \<Rightarrow> 'v replica \<Rightarrow> (string + bool) \<times> 'v replica" where
  "applyPeerDelete answer evt dc =
     (if is_stale evt dc then (Inr True, dc)
      else case answer of
        Some err \<Rightarrow> (Inl err, dc)
      | None \<Rightarrow>
          (Inr False, dc\<lparr>dc_store := (dc_store dc)(ev_Key evt := None),
                         dc_appliedTS := (dc_appliedTS dc)(ev_Key evt \<mapsto> ev_TS evt)\<rparr>))"

datatype consumed = BadRecord | OwnEvent | ForeignType | BadValue | StoreFailed | StaleEvent | AppliedEvent | UnknownOp

text \<open>One record of a poll; \<open>None\<close> is a record that does not decode.\<close>

definition consume :: "(string \<Rightarrow> string + 'v) \<Rightarrow> string option \<Rightarrow> event option \<Rightarrow> 'v replica \<Rightarrow> consumed \<times> 'v replica" where
  "consume unmarshal answer rec dc =
     (case rec of
        None \<Rightarrow> (BadRecord, dc)
      | Some evt \<Rightarrow>
          if ev_CacheID evt = dc_cacheID dc then (OwnEvent, dc)
          else if ev_Typ evt \<noteq> dc_typ dc then (ForeignType, dc)
          else if ev_Op evt = opSet then
            (case unmarshal (ev_Val evt) of
               Inl err \<Rightarrow> (BadValue, dc)
             | Inr val \<Rightarrow>
                 (case applyPeerSet answer evt val dc of
                    (Inl err, dc') \<Rightarrow> (StoreFailed, dc')
                  | (Inr stale, dc') \<Rightarrow>
                      if stale then (StaleEvent, dc') else (AppliedEvent, dc'\<lparr>dc_peerSets := dc_peerSets dc' + 1\<rparr>)))
          else if ev_Op evt = opDel then
            (case applyPeerDelete answer evt dc of
               (Inl err, dc') \<Rightarrow> (StoreFailed, dc')
             | (Inr stale, dc') \<Rightarrow>
                 if stale then (StaleEvent, dc') else (AppliedEvent, dc'\<lparr>dc_peerDeletes := dc_peerDeletes dc' + 1\<rparr>))
          else (UnknownOp, dc))"

text \<open>
  The state of a run of failing polls, and what one poll does to it: \<open>None\<close> when the client is closed and
  the listener returns; otherwise whether the failure is reported, whether the topic is consumed anew,
  whether the loop pauses, and the records it goes on to consume. \<open>unknown\<close> is \<open>topicUnknown\<close> of the
  errors, \<open>None\<close> for a poll without errors.
\<close>

record polls =
  po_failed :: nat
  po_reportedAt :: "int option"
  po_resolvedAt :: "int option"

datatype fetch_error = UnknownTopicID | InconsistentTopicID | UnknownTopicOrPartition | OtherFetchError

definition topicUnknown :: "fetch_error list \<Rightarrow> bool" where
  "topicUnknown errs = list_ex (\<lambda>e. e \<noteq> OtherFetchError) errs"

definition fetchErrorInterval :: int where "fetchErrorInterval = 30000000000"

definition due :: "int \<Rightarrow> int option \<Rightarrow> bool" where
  "due now at = (case at of None \<Rightarrow> True | Some t \<Rightarrow> now - t \<ge> fetchErrorInterval)"

definition poll_turn :: "int \<Rightarrow> bool \<Rightarrow> fetch_error list \<Rightarrow> 'r list \<Rightarrow> polls \<Rightarrow> (polls \<times> bool \<times> bool \<times> bool \<times> 'r list) option" where
  "poll_turn now closed errs records p =
     (if closed then None
      else
        (let report = (errs \<noteq> [] \<and> due now (po_reportedAt p));
             resolve = (errs \<noteq> [] \<and> topicUnknown errs \<and> due now (po_resolvedAt p));
             p' = (if errs \<noteq> [] then
                     p\<lparr>po_failed := po_failed p + 1, po_reportedAt := (if report then Some now else po_reportedAt p),
                       po_resolvedAt := (if resolve then Some now else po_resolvedAt p)\<rparr>
                   else if po_failed p > 0 then \<lparr>po_failed = 0, po_reportedAt = None, po_resolvedAt = None\<rparr>
                   else p)
         in Some (p', report, resolve, records = [] \<and> po_failed p' > 0, records)))"

section \<open>Many replicas\<close>

text \<open>
  The replicas share one topic. Besides their states and the events the broker can still deliver, the
  system keeps a history: the writes each replica has seen of a key, its own and its peers', as stamps
  with the entry they leave; which events were delivered to whom; the entries a store has dropped since
  they were written; and the keys with a write that peers may never see, because its publication failed
  or its event was lost.
\<close>

type_synonym 'v stamped = "int \<times> ('v \<times> int) option"

record 'v dsys =
  ds_replica :: "nat \<Rightarrow> 'v replica"
  ds_topic :: "event set"
  ds_seen :: "nat \<Rightarrow> string \<Rightarrow> ('v stamped) set"
  ds_delivered :: "(nat \<times> event) set"
  ds_gone :: "(nat \<times> string) set"
  ds_silent :: "string set"

definition dsys_init :: "(nat \<Rightarrow> string) \<Rightarrow> (nat \<Rightarrow> string) \<Rightarrow> 'v dsys" where
  "dsys_init typ cacheID =
     \<lparr>ds_replica = \<lambda>i. newReplicatedCache (typ i) (cacheID i), ds_topic = {}, ds_seen = \<lambda>i k. {}, ds_delivered = {},
      ds_gone = {}, ds_silent = {}\<rparr>"

definition entry_of :: "(string \<Rightarrow> string + 'v) \<Rightarrow> event \<Rightarrow> ('v \<times> int) option" where
  "entry_of unmarshal e =
     (if ev_Op e = opSet then (case unmarshal (ev_Val e) of Inr v \<Rightarrow> Some (v, ev_TTL e) | Inl _ \<Rightarrow> None) else None)"

text \<open>A write of a replica: its new state, the write it has seen, the event if one goes out.\<close>

definition wrote :: "nat \<Rightarrow> string \<Rightarrow> 'v stamped \<Rightarrow> event option \<Rightarrow> 'v replica \<Rightarrow> 'v dsys \<Rightarrow> 'v dsys" where
  "wrote i k w ev dc s =
     s\<lparr>ds_replica := (ds_replica s)(i := dc), ds_topic := ds_topic s \<union> set_option ev,
       ds_seen := (ds_seen s)(i := (ds_seen s i)(k := insert w (ds_seen s i k))), ds_gone := ds_gone s - {(i, k)},
       ds_silent := (if ev = None then insert k (ds_silent s) else ds_silent s)\<rparr>"

definition received :: "(string \<Rightarrow> string + 'v) \<Rightarrow> nat \<Rightarrow> event \<Rightarrow> consumed \<times> 'v replica \<Rightarrow> 'v dsys \<Rightarrow> 'v dsys" where
  "received unmarshal i e r s =
     (let applied = (fst r = AppliedEvent \<or> fst r = StaleEvent); k = ev_Key e
      in s\<lparr>ds_replica := (ds_replica s)(i := snd r),
           ds_seen := (if applied then (ds_seen s)(i := (ds_seen s i)(k := insert (ev_TS e, entry_of unmarshal e) (ds_seen s i k))) else ds_seen s),
           ds_delivered := (if applied then insert (i, e) (ds_delivered s) else ds_delivered s),
           ds_gone := (if fst r = AppliedEvent then ds_gone s - {(i, k)} else ds_gone s)\<rparr>)"

text \<open>
  The steps: a set or a delete that reached the store, published or not; the delivery of an event, in any
  order and any number of times; an entry leaving a store; an event lost. No write is made at the last
  instant the 64-bit clock can express.
\<close>

inductive dsys_step :: "('v \<Rightarrow> string + string) \<Rightarrow> (string \<Rightarrow> string + 'v) \<Rightarrow> 'v dsys \<Rightarrow> 'v dsys \<Rightarrow> bool"
  for marshal unmarshal where
  Sets: "dc_Set marshal sr k v ttl (ds_replica s i) = (err, ev, dc) \<Longrightarrow> 0 \<le> ttl \<Longrightarrow> validKey k = None \<Longrightarrow> sr_store sr = None \<Longrightarrow>
      \<forall>l. dc_appliedTS (ds_replica s i) k = Some l \<longrightarrow> - (2 ^ 63) \<le> l \<and> l < 2 ^ 63 - 1 \<Longrightarrow>
      dsys_step marshal unmarshal s (wrote i k (stampLocked (sr_now sr) k (ds_replica s i), Some (v, ttl)) ev dc s)"
| Deletes: "dc_Delete sr k (ds_replica s i) = (err, ev, dc) \<Longrightarrow> validKey k = None \<Longrightarrow> sr_store sr = None \<Longrightarrow>
      \<forall>l. dc_appliedTS (ds_replica s i) k = Some l \<longrightarrow> - (2 ^ 63) \<le> l \<and> l < 2 ^ 63 - 1 \<Longrightarrow>
      dsys_step marshal unmarshal s (wrote i k (stampLocked (sr_now sr) k (ds_replica s i), None) ev dc s)"
| Delivers: "e \<in> ds_topic s \<Longrightarrow>
      dsys_step marshal unmarshal s (received unmarshal i e (consume unmarshal answer (Some e) (ds_replica s i)) s)"
| Expires: "dc_store (ds_replica s i) k \<noteq> None \<Longrightarrow>
      dsys_step marshal unmarshal s
        (s\<lparr>ds_replica := (ds_replica s)(i := (ds_replica s i)\<lparr>dc_store := (dc_store (ds_replica s i))(k := None)\<rparr>),
           ds_gone := insert (i, k) (ds_gone s)\<rparr>)"
| Loses: "e \<in> ds_topic s \<Longrightarrow>
      dsys_step marshal unmarshal s (s\<lparr>ds_topic := ds_topic s - {e}, ds_silent := insert (ev_Key e) (ds_silent s)\<rparr>)"

section \<open>Lemmas\<close>

lemma stampLocked_newer:
  assumes "\<forall>l. dc_appliedTS dc k = Some l \<longrightarrow> - (2 ^ 63) \<le> l \<and> l < 2 ^ 63 - 1" "dc_appliedTS dc k = Some l"
  shows "l < stampLocked now k dc"
proof -
  have "signed_take_bit 63 (l + 1) = l + 1" using assms by (intro signed_take_bit_int_eq_self) auto
  with assms(2) show ?thesis by (simp add: stampLocked_def)
qed

lemma advanceWatermark_newer:
  assumes "\<forall>l. dc_appliedTS dc k = Some l \<longrightarrow> l < ts"
  shows "advanceWatermarkLocked k ts dc = dc\<lparr>dc_appliedTS := (dc_appliedTS dc)(k \<mapsto> ts)\<rparr>"
  using assms by (fastforce simp: advanceWatermarkLocked_def split: option.splits)

text \<open>What a local write leaves: the entry, its stamp as the key's watermark, and the event that carries both.\<close>

definition write_effect :: "string \<Rightarrow> 'v stamped \<Rightarrow> event option \<Rightarrow> 'v replica \<Rightarrow> 'v replica \<Rightarrow> bool" where
  "write_effect k w ev dc dc' \<longleftrightarrow>
     (\<forall>l. dc_appliedTS dc k = Some l \<longrightarrow> l < fst w) \<and>
     dc_store dc' = (dc_store dc)(k := snd w) \<and> dc_appliedTS dc' = (dc_appliedTS dc)(k \<mapsto> fst w) \<and>
     dc_typ dc' = dc_typ dc \<and> dc_cacheID dc' = dc_cacheID dc \<and>
     (\<forall>e. ev = Some e \<longrightarrow> ev_CacheID e = dc_cacheID dc \<and> ev_Typ e = dc_typ dc \<and> ev_Key e = k \<and> ev_TS e = fst w)"

lemma dc_Set_effect:
  assumes "dc_Set marshal sr k v ttl dc = (err, ev, dc')" "0 \<le> ttl" "validKey k = None" "sr_store sr = None"
    "\<forall>l. dc_appliedTS dc k = Some l \<longrightarrow> - (2 ^ 63) \<le> l \<and> l < 2 ^ 63 - 1"
  shows "write_effect k (stampLocked (sr_now sr) k dc, Some (v, ttl)) ev dc dc'"
    and "(\<And>b. marshal v = Inr b \<Longrightarrow> unmarshal b = Inr v) \<Longrightarrow> ev = Some e \<Longrightarrow> entry_of unmarshal e = Some (v, ttl)"
proof -
  let ?ts = "stampLocked (sr_now sr) k dc"
  have newer: "\<forall>l. dc_appliedTS dc k = Some l \<longrightarrow> l < ?ts" using stampLocked_newer [OF assms(5)] by blast
  have adv: "advanceWatermarkLocked k ?ts (dc\<lparr>dc_store := st\<rparr>) = dc\<lparr>dc_store := st, dc_appliedTS := (dc_appliedTS dc)(k \<mapsto> ?ts)\<rparr>" for st
    using newer by (subst advanceWatermark_newer) simp_all
  show "write_effect k (?ts, Some (v, ttl)) ev dc dc'"
    using assms newer
    by (auto simp: dc_Set_def Let_def adv sendEvent_def write_effect_def split: sum.splits if_splits)
  show "entry_of unmarshal e = Some (v, ttl)" if "\<And>b. marshal v = Inr b \<Longrightarrow> unmarshal b = Inr v" "ev = Some e"
    using assms that
    by (auto simp: dc_Set_def Let_def adv sendEvent_def entry_of_def bare_event_def split: sum.splits if_splits)
qed

lemma dc_Delete_effect:
  assumes "dc_Delete sr k dc = (err, ev, dc')" "validKey k = None" "sr_store sr = None"
    "\<forall>l. dc_appliedTS dc k = Some l \<longrightarrow> - (2 ^ 63) \<le> l \<and> l < 2 ^ 63 - 1"
  shows "write_effect k (stampLocked (sr_now sr) k dc, None) ev dc dc'"
    and "ev = Some e \<Longrightarrow> entry_of unmarshal e = None"
proof -
  let ?ts = "stampLocked (sr_now sr) k dc"
  have newer: "\<forall>l. dc_appliedTS dc k = Some l \<longrightarrow> l < ?ts" using stampLocked_newer [OF assms(4)] by blast
  have adv: "advanceWatermarkLocked k ?ts (dc\<lparr>dc_store := st\<rparr>) = dc\<lparr>dc_store := st, dc_appliedTS := (dc_appliedTS dc)(k \<mapsto> ?ts)\<rparr>" for st
    using newer by (subst advanceWatermark_newer) simp_all
  show "write_effect k (?ts, None) ev dc dc'"
    using assms newer by (auto simp: dc_Delete_def Let_def adv sendEvent_def write_effect_def split: if_splits)
  show "ev = Some e \<Longrightarrow> entry_of unmarshal e = None"
    using assms by (auto simp: dc_Delete_def Let_def adv sendEvent_def entry_of_def bare_event_def opSet_def opDel_def split: if_splits)
qed

text \<open>What the listener does with an event, by its outcome.\<close>

lemma consume_effect:
  assumes "consume unmarshal answer (Some e) dc = (out, dc')"
  shows "dc_typ dc' = dc_typ dc" "dc_cacheID dc' = dc_cacheID dc"
    and "out = AppliedEvent \<Longrightarrow> (\<forall>l. dc_appliedTS dc (ev_Key e) = Some l \<longrightarrow> l < ev_TS e) \<and>
        dc_store dc' = (dc_store dc)(ev_Key e := entry_of unmarshal e) \<and>
        dc_appliedTS dc' = (dc_appliedTS dc)(ev_Key e \<mapsto> ev_TS e)"
    and "out = StaleEvent \<Longrightarrow> \<exists>l. dc_appliedTS dc (ev_Key e) = Some l \<and> ev_TS e \<le> l"
    and "out \<noteq> AppliedEvent \<Longrightarrow> dc' = dc"
    and "out = AppliedEvent \<or> out = StaleEvent \<Longrightarrow> ev_CacheID e \<noteq> dc_cacheID dc \<and> ev_Typ e = dc_typ dc"
proof -
  note defs = consume_def applyPeerSet_def applyPeerDelete_def is_stale_def entry_of_def opSet_def opDel_def
  note splits = if_splits sum.splits option.splits
  show "dc_typ dc' = dc_typ dc" "dc_cacheID dc' = dc_cacheID dc" using assms by (auto simp: defs split: splits)
  show "out = AppliedEvent \<Longrightarrow> (\<forall>l. dc_appliedTS dc (ev_Key e) = Some l \<longrightarrow> l < ev_TS e) \<and>
        dc_store dc' = (dc_store dc)(ev_Key e := entry_of unmarshal e) \<and>
        dc_appliedTS dc' = (dc_appliedTS dc)(ev_Key e \<mapsto> ev_TS e)" using assms by (auto simp: defs split: splits)
  show "out = StaleEvent \<Longrightarrow> \<exists>l. dc_appliedTS dc (ev_Key e) = Some l \<and> ev_TS e \<le> l" using assms by (auto simp: defs split: splits)
  show "out \<noteq> AppliedEvent \<Longrightarrow> dc' = dc" using assms by (auto simp: defs split: splits)
  show "out = AppliedEvent \<or> out = StaleEvent \<Longrightarrow> ev_CacheID e \<noteq> dc_cacheID dc \<and> ev_Typ e = dc_typ dc"
    using assms by (auto simp: defs split: splits)
qed

section \<open>Invariants\<close>

text \<open>A replica holds, of each key, the newest write it has seen, unless its store dropped the entry since.\<close>

fun newest_ok :: "int option \<Rightarrow> 'v stamped set \<Rightarrow> ('v \<times> int) option \<Rightarrow> bool \<Rightarrow> bool" where
  "newest_ok None seen held gone \<longleftrightarrow> seen = {} \<and> held = None"
| "newest_ok (Some ts) seen held gone \<longleftrightarrow>
     (\<exists>en. (ts, en) \<in> seen \<and> (\<forall>w\<in>seen. fst w \<le> ts) \<and> held = (if gone then None else en))"

lemma newest_ok_add:
  "newest_ok wm seen held gone \<Longrightarrow> (\<And>l. wm = Some l \<Longrightarrow> l < ts) \<Longrightarrow> newest_ok (Some ts) (insert (ts, en) seen) en False"
  by (cases wm) fastforce+

lemma newest_ok_stale:
  "newest_ok (Some l) seen held gone \<Longrightarrow> ts \<le> l \<Longrightarrow> newest_ok (Some l) (insert (ts, en) seen) held gone"
  by auto

lemma newest_ok_drop: "newest_ok wm seen held gone \<Longrightarrow> held \<noteq> None \<Longrightarrow> newest_ok wm seen None True"
  by (cases wm) auto

definition holds_newest :: "'v dsys \<Rightarrow> nat \<Rightarrow> string \<Rightarrow> bool" where
  "holds_newest s i k =
     newest_ok (dc_appliedTS (ds_replica s i) k) (ds_seen s i k) (dc_store (ds_replica s i) k) ((i, k) \<in> ds_gone s)"

lemma received_simps [simp]:
  "ds_replica (received unmarshal i e r s) = (ds_replica s)(i := snd r)"
  "ds_topic (received unmarshal i e r s) = ds_topic s"
  "ds_silent (received unmarshal i e r s) = ds_silent s"
  "ds_seen (received unmarshal i e r s) = (if fst r = AppliedEvent \<or> fst r = StaleEvent
     then (ds_seen s)(i := (ds_seen s i)(ev_Key e := insert (ev_TS e, entry_of unmarshal e) (ds_seen s i (ev_Key e)))) else ds_seen s)"
  "ds_delivered (received unmarshal i e r s) = (if fst r = AppliedEvent \<or> fst r = StaleEvent then insert (i, e) (ds_delivered s) else ds_delivered s)"
  "ds_gone (received unmarshal i e r s) = (if fst r = AppliedEvent then ds_gone s - {(i, ev_Key e)} else ds_gone s)"
  by (simp_all add: received_def Let_def)

lemma wrote_simps [simp]:
  "ds_replica (wrote i k w ev dc s) = (ds_replica s)(i := dc)"
  "ds_topic (wrote i k w ev dc s) = ds_topic s \<union> set_option ev"
  "ds_seen (wrote i k w ev dc s) = (ds_seen s)(i := (ds_seen s i)(k := insert w (ds_seen s i k)))"
  "ds_delivered (wrote i k w ev dc s) = ds_delivered s"
  "ds_gone (wrote i k w ev dc s) = ds_gone s - {(i, k)}"
  "ds_silent (wrote i k w ev dc s) = (if ev = None then insert k (ds_silent s) else ds_silent s)"
  by (simp_all add: wrote_def)

lemma holds_newest_wrote:
  assumes "\<And>i k. holds_newest s i k" "write_effect k w ev (ds_replica s i) dc"
  shows "holds_newest (wrote i k w ev dc s) i' k'"
proof (cases "i' = i \<and> k' = k")
  case True
  have "newest_ok (Some (fst w)) (insert (fst w, snd w) (ds_seen s i k)) (snd w) False"
    by (rule newest_ok_add [OF assms(1) [of i k, unfolded holds_newest_def]]) (use assms(2) in \<open>simp add: write_effect_def\<close>)
  with True assms(2) show ?thesis by (simp add: holds_newest_def write_effect_def)
next
  case False
  with assms(1) [of i' k'] assms(2) show ?thesis by (auto simp: holds_newest_def write_effect_def)
qed

lemma holds_newest_received:
  assumes "\<And>i k. holds_newest s i k" "consume unmarshal answer (Some e) (ds_replica s i) = (out, dc)"
  shows "holds_newest (received unmarshal i e (out, dc) s) i' k'"
proof -
  have inv: "newest_ok (dc_appliedTS (ds_replica s i) (ev_Key e)) (ds_seen s i (ev_Key e)) (dc_store (ds_replica s i) (ev_Key e)) ((i, ev_Key e) \<in> ds_gone s)"
    using assms(1) by (simp add: holds_newest_def)
  consider (applied) "out = AppliedEvent" | (stale) "out = StaleEvent" | (other) "out \<noteq> AppliedEvent" "out \<noteq> StaleEvent" by blast
  then show ?thesis
  proof cases
    case applied
    note eff = consume_effect(3) [OF assms(2) applied]
    have "newest_ok (Some (ev_TS e)) (insert (ev_TS e, entry_of unmarshal e) (ds_seen s i (ev_Key e))) (entry_of unmarshal e) False"
      by (rule newest_ok_add [OF inv]) (use eff in blast)
    with eff applied assms(1) [of i' k'] show ?thesis by (auto simp: holds_newest_def)
  next
    case stale
    then have dc: "dc = ds_replica s i" using consume_effect(5) [OF assms(2)] by simp
    from consume_effect(4) [OF assms(2) stale] obtain l where l: "dc_appliedTS (ds_replica s i) (ev_Key e) = Some l" "ev_TS e \<le> l" by blast
    note newest_ok_stale [OF inv [unfolded l(1)] l(2), of "entry_of unmarshal e"]
    with l stale assms(1) [of i' k'] show ?thesis by (auto simp: holds_newest_def dc simp del: newest_ok.simps)
  next
    case other
    with consume_effect(5) [OF assms(2)] assms(1) [of i' k'] show ?thesis by (auto simp: holds_newest_def)
  qed
qed

lemma holds_newest_step:
  assumes "dsys_step marshal unmarshal s s'" "\<And>i k. holds_newest s i k"
  shows "holds_newest s' i' k'"
  using assms
proof cases
  case (Sets sr k v ttl i err ev dc)
  with holds_newest_wrote [OF assms(2) dc_Set_effect(1) [OF Sets(2-6)]] show ?thesis by simp
next
  case (Deletes sr k i err ev dc)
  with holds_newest_wrote [OF assms(2) dc_Delete_effect(1) [OF Deletes(2-5)]] show ?thesis by simp
next
  case (Delivers e i answer)
  obtain out dc where "consume unmarshal answer (Some e) (ds_replica s i) = (out, dc)" by fastforce
  with holds_newest_received [OF assms(2) this] Delivers show ?thesis by simp
next
  case (Expires i k)
  with newest_ok_drop [OF assms(2) [of i k, unfolded holds_newest_def]] assms(2) [of i' k'] show ?thesis
    by (auto simp: holds_newest_def)
next
  case (Loses e)
  with assms(2) [of i' k'] show ?thesis by (simp add: holds_newest_def)
qed

text \<open>
  The history agrees with the topic: of a key none of whose writes is hidden from the peers, a replica has
  seen exactly its own events and those delivered to it.
\<close>

definition own_or_got :: "'v dsys \<Rightarrow> nat \<Rightarrow> event \<Rightarrow> bool" where
  "own_or_got s i e \<longleftrightarrow> ev_CacheID e = dc_cacheID (ds_replica s i) \<or> (i, e) \<in> ds_delivered s"

definition events_of :: "'v dsys \<Rightarrow> nat \<Rightarrow> string \<Rightarrow> event set" where
  "events_of s i k = {e \<in> ds_topic s. ev_Key e = k \<and> ev_Typ e = dc_typ (ds_replica s i)}"

definition topic_ok :: "(nat \<Rightarrow> string) \<Rightarrow> (nat \<Rightarrow> string) \<Rightarrow> (string \<Rightarrow> string + 'v) \<Rightarrow> 'v dsys \<Rightarrow> bool" where
  "topic_ok typ cacheID unmarshal s \<longleftrightarrow>
     (\<forall>i. dc_typ (ds_replica s i) = typ i \<and> dc_cacheID (ds_replica s i) = cacheID i) \<and>
     (\<forall>e\<in>ds_topic s. \<exists>i. ev_CacheID e = cacheID i \<and> ev_Typ e = typ i) \<and>
     (\<forall>j e. (j, e) \<in> ds_delivered s \<longrightarrow> ev_Key e \<notin> ds_silent s \<longrightarrow> e \<in> ds_topic s) \<and>
     (\<forall>i k. k \<notin> ds_silent s \<longrightarrow>
        ds_seen s i k = (\<lambda>e. (ev_TS e, entry_of unmarshal e)) ` {e \<in> events_of s i k. own_or_got s i e})"

lemma topic_ok_wrote:
  assumes ok: "topic_ok typ cacheID unmarshal s" and inj: "inj cacheID" and eff: "write_effect k w ev (ds_replica s i) dc"
    and entry: "\<And>e. ev = Some e \<Longrightarrow> entry_of unmarshal e = snd w" and newest: "holds_newest s i k"
  shows "topic_ok typ cacheID unmarshal (wrote i k w ev dc s)"
proof (cases ev)
  case None
  with ok eff show ?thesis
    unfolding topic_ok_def events_of_def own_or_got_def write_effect_def by (auto split: if_splits)
next
  case (Some e)
  let ?s = "wrote i k w ev dc s"
  have e: "ev_CacheID e = cacheID i" "ev_Typ e = typ i" "ev_Key e = k" "ev_TS e = fst w"
    using eff ok Some by (auto simp: write_effect_def topic_ok_def)
  have same: "dc_typ (ds_replica ?s j) = typ j" "dc_cacheID (ds_replica ?s j) = cacheID j" for j
    using eff ok by (auto simp: write_effect_def topic_ok_def)
  have fresh: "e \<notin> ds_topic s" if "k \<notin> ds_silent s"
  proof
    assume "e \<in> ds_topic s"
    with ok e have "e \<in> {x \<in> events_of s i k. own_or_got s i x}" by (simp add: topic_ok_def events_of_def own_or_got_def)
    moreover have "ds_seen s i k = (\<lambda>e. (ev_TS e, entry_of unmarshal e)) ` {x \<in> events_of s i k. own_or_got s i x}"
      using ok that by (simp add: topic_ok_def)
    ultimately have "(ev_TS e, entry_of unmarshal e) \<in> ds_seen s i k" by blast
    with newest eff e(4) show False
      by (cases "dc_appliedTS (ds_replica s i) k") (fastforce simp: holds_newest_def write_effect_def)+
  qed
  have undelivered: "(j, e) \<notin> ds_delivered s" if "k \<notin> ds_silent s" for j
    using fresh [OF that] ok e(3) that by (auto simp: topic_ok_def)
  have seen: "ds_seen ?s j k' = (\<lambda>e. (ev_TS e, entry_of unmarshal e)) ` {e \<in> events_of ?s j k'. own_or_got ?s j e}"
    if "k' \<notin> ds_silent s" for j k'
  proof -
    have old: "ds_seen s j k' = (\<lambda>e. (ev_TS e, entry_of unmarshal e)) ` {e \<in> events_of s j k'. own_or_got s j e}"
      using ok that by (simp add: topic_ok_def)
    have keep: "x \<in> events_of ?s j k' \<and> own_or_got ?s j x \<longleftrightarrow> x \<in> events_of s j k' \<and> own_or_got s j x \<or> x = e \<and> j = i \<and> k' = k" for x
      using same e inj undelivered that ok Some
      by (auto simp: events_of_def own_or_got_def topic_ok_def inj_eq)
    show ?thesis
    proof (cases "j = i \<and> k' = k")
      case True
      then have "{x \<in> events_of ?s j k'. own_or_got ?s j x} = insert e {x \<in> events_of s j k'. own_or_got s j x}" using keep by auto
      with True old e(4) entry [OF Some] show ?thesis by simp
    next
      case False
      then have "{x \<in> events_of ?s j k'. own_or_got ?s j x} = {x \<in> events_of s j k'. own_or_got s j x}" using keep by auto
      with False old show ?thesis by auto
    qed
  qed
  have "\<forall>x\<in>ds_topic ?s. \<exists>j. ev_CacheID x = cacheID j \<and> ev_Typ x = typ j" using ok e Some by (auto simp: topic_ok_def)
  moreover have "\<forall>j x. (j, x) \<in> ds_delivered ?s \<longrightarrow> ev_Key x \<notin> ds_silent ?s \<longrightarrow> x \<in> ds_topic ?s" using ok Some by (auto simp: topic_ok_def)
  ultimately show ?thesis using same seen Some unfolding topic_ok_def by simp
qed

lemma topic_ok_received:
  assumes ok: "topic_ok typ cacheID unmarshal s" and e: "e \<in> ds_topic s"
    and con: "consume unmarshal answer (Some e) (ds_replica s i) = (out, dc)"
  shows "topic_ok typ cacheID unmarshal (received unmarshal i e (out, dc) s)"
proof -
  let ?s = "received unmarshal i e (out, dc) s"
  have same: "dc_typ (ds_replica ?s j) = typ j" "dc_cacheID (ds_replica ?s j) = cacheID j" for j
    using consume_effect(1,2) [OF con] ok by (auto simp: topic_ok_def)
  have evs: "events_of ?s j k = events_of s j k" for j k using same ok by (auto simp: events_of_def topic_ok_def)
  show ?thesis
  proof (cases "out = AppliedEvent \<or> out = StaleEvent")
    case False
    then have "own_or_got ?s j x = own_or_got s j x" for j x using same ok by (auto simp: own_or_got_def topic_ok_def)
    with False same evs ok show ?thesis by (simp add: topic_ok_def)
  next
    case True
    have got: "own_or_got ?s j x \<longleftrightarrow> own_or_got s j x \<or> j = i \<and> x = e" for j x
      using True same ok by (auto simp: own_or_got_def topic_ok_def)
    have mine: "e \<in> events_of s i (ev_Key e)"
      using consume_effect(6) [OF con True] e by (simp add: events_of_def)
    have "ds_seen ?s j k = (\<lambda>e. (ev_TS e, entry_of unmarshal e)) ` {x \<in> events_of ?s j k. own_or_got ?s j x}" if "k \<notin> ds_silent s" for j k
    proof -
      have "{x \<in> events_of ?s j k. own_or_got ?s j x} =
          (if j = i \<and> k = ev_Key e then insert e {x \<in> events_of s j k. own_or_got s j x} else {x \<in> events_of s j k. own_or_got s j x})"
        using mine unfolding evs got by (auto simp: events_of_def)
      with True ok that show ?thesis by (auto simp: topic_ok_def)
    qed
    with True same ok e show ?thesis unfolding topic_ok_def by auto
  qed
qed

lemma topic_ok_step:
  assumes "dsys_step marshal unmarshal s s'" "inj cacheID" "\<And>v b. marshal v = Inr b \<Longrightarrow> unmarshal b = Inr v"
    "topic_ok typ cacheID unmarshal s" "\<And>i k. holds_newest s i k"
  shows "topic_ok typ cacheID unmarshal s'"
  using assms(1)
proof cases
  case (Sets sr k v ttl i err ev dc)
  show ?thesis
    unfolding Sets(1) by (rule topic_ok_wrote [OF assms(4,2) dc_Set_effect(1) [OF Sets(2-6)] _ assms(5)])
      (use dc_Set_effect(2) [OF Sets(2-6) assms(3)] in simp)
next
  case (Deletes sr k i err ev dc)
  show ?thesis
    unfolding Deletes(1) by (rule topic_ok_wrote [OF assms(4,2) dc_Delete_effect(1) [OF Deletes(2-5)] _ assms(5)])
      (simp add: dc_Delete_effect(2) [OF Deletes(2-5)])
next
  case (Delivers e i answer)
  obtain out dc where "consume unmarshal answer (Some e) (ds_replica s i) = (out, dc)" by fastforce
  with topic_ok_received [OF assms(4) Delivers(2) this] Delivers show ?thesis by simp
next
  case (Expires i k)
  with assms(4) show ?thesis by (auto simp: topic_ok_def events_of_def own_or_got_def)
next
  case (Loses e)
  with assms(4) show ?thesis by (auto simp: topic_ok_def events_of_def own_or_got_def)
qed

lemma dsys_reach:
  assumes "(dsys_step marshal unmarshal)\<^sup>*\<^sup>* (dsys_init typ cacheID) s"
  shows "holds_newest s i k"
    and "inj cacheID \<Longrightarrow> (\<And>v b. marshal v = Inr b \<Longrightarrow> unmarshal b = Inr v) \<Longrightarrow> topic_ok typ cacheID unmarshal s"
proof -
  have "(\<forall>i k. holds_newest s i k) \<and>
      (inj cacheID \<longrightarrow> (\<forall>v b. marshal v = Inr b \<longrightarrow> unmarshal b = Inr v) \<longrightarrow> topic_ok typ cacheID unmarshal s)"
    using assms
  proof (induction rule: rtranclp_induct)
    case base
    show ?case
      by (auto simp: holds_newest_def topic_ok_def dsys_init_def newReplicatedCache_def events_of_def)
  next
    case (step s s')
    then show ?case using holds_newest_step [OF step(2)] topic_ok_step [OF step(2)] by blast
  qed
  then show "holds_newest s i k"
    "inj cacheID \<Longrightarrow> (\<And>v b. marshal v = Inr b \<Longrightarrow> unmarshal b = Inr v) \<Longrightarrow> topic_ok typ cacheID unmarshal s" by blast+
qed

section \<open>Properties\<close>

text \<open>
  C5: the replicas converge. Take replicas of one type with distinct identities, values that survive the
  encoding, and a key every write of which was published and not lost. Once each of two replicas has been
  given every event of the key it did not publish itself, in whatever order and however often each, and
  no two writes of the key carry the same stamp with different contents, both hold the same entry for
  it, unless a store has dropped its copy; and that entry is the one of the event with the greatest stamp.
\<close>

theorem dcache_converges:
  assumes "(dsys_step marshal unmarshal)\<^sup>*\<^sup>* (dsys_init typ cacheID) s" "inj cacheID"
    "\<And>v b. marshal v = Inr b \<Longrightarrow> unmarshal b = Inr v" "typ i = typ j" "k \<notin> ds_silent s"
    "\<forall>e\<in>events_of s i k. own_or_got s i e \<and> own_or_got s j e" "(i, k) \<notin> ds_gone s" "(j, k) \<notin> ds_gone s"
    "\<forall>e\<in>events_of s i k. \<forall>e'\<in>events_of s i k. ev_TS e = ev_TS e' \<longrightarrow> entry_of unmarshal e = entry_of unmarshal e'"
  shows "dc_store (ds_replica s i) k = dc_store (ds_replica s j) k \<and>
    (\<forall>e\<in>events_of s i k. (\<forall>e'\<in>events_of s i k. ev_TS e' \<le> ev_TS e) \<longrightarrow> dc_store (ds_replica s i) k = entry_of unmarshal e)"
proof -
  have ok: "topic_ok typ cacheID unmarshal s" by (rule dsys_reach(2) [OF assms(1,2)]) (rule assms(3))
  let ?w = "\<lambda>e. (ev_TS e, entry_of unmarshal e)"
  have evs: "events_of s j k = events_of s i k" using ok assms(4) by (simp add: events_of_def topic_ok_def)
  have "ds_seen s i k = ?w ` {e \<in> events_of s i k. own_or_got s i e}" using ok assms(5) by (simp add: topic_ok_def)
  moreover have "{e \<in> events_of s i k. own_or_got s i e} = events_of s i k" using assms(6) by blast
  ultimately have seen_i: "ds_seen s i k = ?w ` events_of s i k" by simp
  have "ds_seen s j k = ?w ` {e \<in> events_of s j k. own_or_got s j e}" using ok assms(5) by (simp add: topic_ok_def)
  moreover have "{e \<in> events_of s j k. own_or_got s j e} = events_of s i k" unfolding evs using assms(6) by blast
  ultimately have seen_j: "ds_seen s j k = ?w ` events_of s i k" by simp
  have held: "dc_store (ds_replica s l) k = entry_of unmarshal e"
    if l: "ds_seen s l k = ?w ` events_of s i k" "(l, k) \<notin> ds_gone s" "e \<in> events_of s i k" "\<forall>e'\<in>events_of s i k. ev_TS e' \<le> ev_TS e" for l e
  proof -
    have h: "newest_ok (dc_appliedTS (ds_replica s l) k) (?w ` events_of s i k) (dc_store (ds_replica s l) k) False"
      using dsys_reach(1) [OF assms(1), of l k] l(1,2) by (simp add: holds_newest_def)
    obtain ts where ts: "dc_appliedTS (ds_replica s l) k = Some ts" using h l(3) by (cases "dc_appliedTS (ds_replica s l) k") auto
    from h [unfolded ts] obtain e' where e': "e' \<in> events_of s i k" "ts = ev_TS e'" "dc_store (ds_replica s l) k = entry_of unmarshal e'"
      "\<forall>x\<in>events_of s i k. ev_TS x \<le> ts" by auto
    then have "ev_TS e' = ev_TS e" using l(3,4) by (metis order_antisym)
    then have "entry_of unmarshal e' = entry_of unmarshal e" using assms(9) e'(1) l(3) by blast
    with e'(3) show ?thesis by simp
  qed
  show ?thesis
  proof (cases "events_of s i k = {}")
    case True
    then have "dc_store (ds_replica s l) k = None" if "l = i \<or> l = j" for l
      using dsys_reach(1) [OF assms(1), of l k] seen_i seen_j that
      by (cases "dc_appliedTS (ds_replica s l) k") (auto simp: holds_newest_def)
    with True show ?thesis by simp
  next
    case False
    have "newest_ok (dc_appliedTS (ds_replica s i) k) (?w ` events_of s i k) (dc_store (ds_replica s i) k) False"
      using dsys_reach(1) [OF assms(1), of i k] seen_i assms(7) by (simp add: holds_newest_def)
    then obtain e where e: "e \<in> events_of s i k" "\<forall>e'\<in>events_of s i k. ev_TS e' \<le> ev_TS e"
      using False by (cases "dc_appliedTS (ds_replica s i) k") auto
    from held [OF seen_i assms(7) e] held [OF seen_j assms(8) e] held [OF seen_i assms(7)] show ?thesis by auto
  qed
qed

text \<open>A run: the first replica sets a key, the second is given the event.\<close>

definition sample_set :: "string dsys" where
  "sample_set =
     (let s = dsys_init (\<lambda>_. ''t'') (\<lambda>i. replicate i CHR ''i'')
      in case dc_Set Inr \<lparr>sr_now = 7, sr_store = None, sr_instance = ''p'', sr_submitted = True\<rparr> ''k'' ''v'' 5 (ds_replica s 0) of
           (err, ev, dc) \<Rightarrow> wrote 0 ''k'' (7, Some (''v'', 5)) ev dc s)"

definition sample_event :: event where
  "sample_event = \<lparr>ev_CacheID = [], ev_Key = ''k'', ev_TS = 7, ev_Op = 0, ev_Val = ''v'', ev_Typ = ''t'', ev_TTL = 5, ev_Instance = ''p''\<rparr>"

definition sample_got :: "string dsys" where
  "sample_got = received Inr 1 sample_event (consume Inr None (Some sample_event) (ds_replica sample_set 1)) sample_set"

lemma validKey_k: "validKey ''k'' = None"
  by (simp add: validKey_def runes_strict_ascii)

lemmas sample_defs = sample_set_def sample_event_def sample_got_def dsys_init_def newReplicatedCache_def dc_Set_def validKey_k
  stampLocked_def advanceWatermarkLocked_def sendEvent_def bare_event_def opSet_def opDel_def consume_def applyPeerSet_def is_stale_def

lemma sample_topic: "ds_topic sample_set = {sample_event}"
  by (simp add: sample_defs)

lemma sample_reached: "(dsys_step Inr Inr)\<^sup>*\<^sup>* (dsys_init (\<lambda>_. ''t'') (\<lambda>i. replicate i CHR ''i'')) sample_got"
proof -
  let ?s = "dsys_init (\<lambda>_. ''t'') (\<lambda>i. replicate i CHR ''i'') :: string dsys"
  let ?sr = "\<lparr>sr_now = 7, sr_store = None, sr_instance = ''p'', sr_submitted = True\<rparr>"
  obtain err ev dc where d: "dc_Set Inr ?sr ''k'' ''v'' 5 (ds_replica ?s 0) = (err, ev, dc)" by (metis prod_cases3)
  have "stampLocked (sr_now ?sr) ''k'' (ds_replica ?s 0) = 7" by (simp add: sample_defs)
  with Sets [of Inr ?sr "''k''" "''v''" 5 ?s 0 err ev dc Inr, OF d] have "dsys_step Inr Inr ?s sample_set"
    using d by (simp add: sample_set_def Let_def validKey_k) (simp add: dsys_init_def newReplicatedCache_def)
  moreover have "dsys_step Inr Inr sample_set sample_got"
    unfolding sample_got_def by (rule Delivers) (simp add: sample_topic)
  ultimately show ?thesis by (meson converse_rtranclp_into_rtranclp rtranclp.rtrancl_refl)
qed

lemma sample_state:
  "ds_topic sample_got = {sample_event}" "ds_silent sample_got = {}" "ds_gone sample_got = {}" "(1, sample_event) \<in> ds_delivered sample_got"
  "dc_cacheID (ds_replica sample_got 0) = []" "ds_seen sample_got 1 ''k'' = {(7, Some (''v'', 5))}"
  by (simp_all add: sample_defs entry_of_def)

theorem dcache_converges_witness:
  "dc_store (ds_replica sample_got 0) ''k'' = dc_store (ds_replica sample_got 1) ''k''"
proof -
  have inj: "inj (\<lambda>i. replicate i CHR ''i'')" by (rule injI) (metis length_replicate)
  have got: "\<forall>e\<in>events_of sample_got 0 ''k''. own_or_got sample_got 0 e \<and> own_or_got sample_got 1 e"
    using sample_state by (auto simp: events_of_def own_or_got_def sample_event_def)
  show ?thesis
    by (rule dcache_converges [OF sample_reached inj _ _ _ got, THEN conjunct1])
      (auto simp: sample_state events_of_def)
qed

text \<open>
  A replica never goes back. Whatever is lost, reordered, repeated or dropped, a replica holds of each
  key the entry of the newest write it has seen, or nothing once its store dropped that; an event no newer
  than that changes neither the entry nor the watermark, so a late set cannot bring a deleted entry back;
  and a write made here is stamped past everything this replica has seen, even when its clock trails.
\<close>

theorem dcache_never_goes_back:
  assumes "(dsys_step marshal unmarshal)\<^sup>*\<^sup>* (dsys_init typ cacheID) s"
  shows "(\<forall>en. dc_store (ds_replica s i) k = Some en \<longrightarrow>
      (\<exists>ts. (ts, Some en) \<in> ds_seen s i k \<and> (\<forall>w\<in>ds_seen s i k. fst w \<le> ts))) \<and>
    (ev_Key e = k \<longrightarrow> (\<exists>w\<in>ds_seen s i k. ev_TS e \<le> fst w) \<longrightarrow>
      snd (consume unmarshal answer (Some e) (ds_replica s i)) = ds_replica s i) \<and>
    ((\<forall>w\<in>ds_seen s i k. - (2 ^ 63) \<le> fst w \<and> fst w < 2 ^ 63 - 1) \<longrightarrow> (\<forall>w\<in>ds_seen s i k. fst w < stampLocked now k (ds_replica s i)))"
proof -
  have inv: "newest_ok (dc_appliedTS (ds_replica s i) k) (ds_seen s i k) (dc_store (ds_replica s i) k) ((i, k) \<in> ds_gone s)"
    using dsys_reach(1) [OF assms] by (simp add: holds_newest_def)
  obtain out dc where con: "consume unmarshal answer (Some e) (ds_replica s i) = (out, dc)" by fastforce
  show ?thesis
  proof (cases "dc_appliedTS (ds_replica s i) k")
    case None
    with inv show ?thesis by simp
  next
    case (Some ts)
    with inv obtain en where en: "(ts, en) \<in> ds_seen s i k" "\<forall>w\<in>ds_seen s i k. fst w \<le> ts"
      "dc_store (ds_replica s i) k = (if (i, k) \<in> ds_gone s then None else en)" by auto
    have "dc = ds_replica s i" if "ev_Key e = k" "w \<in> ds_seen s i k" "ev_TS e \<le> fst w" for w
      using consume_effect(3,5) [OF con] Some en(2) that by (cases "out = AppliedEvent") fastforce+
    moreover have "fst w < stampLocked now k (ds_replica s i)"
      if "\<forall>w\<in>ds_seen s i k. - (2 ^ 63) \<le> fst w \<and> fst w < 2 ^ 63 - 1" "w \<in> ds_seen s i k" for w
      using stampLocked_newer [of "ds_replica s i" k ts now] Some en(1,2) that by fastforce
    ultimately show ?thesis using en con by (auto split: if_splits)
  qed
qed

theorem dcache_never_goes_back_witness:
  "snd (consume Inr None (Some (sample_event\<lparr>ev_TS := 6, ev_Val := ''old''\<rparr>)) (ds_replica sample_got 1)) = ds_replica sample_got 1"
  using dcache_never_goes_back [OF sample_reached, of 1 "''k''" "sample_event\<lparr>ev_TS := 6, ev_Val := ''old''\<rparr>" None 0] sample_state(6)
  by (simp add: sample_event_def)

text \<open>
  Two replicas that stamp a write of one key with the same nanosecond refuse each other's event: each keeps
  its own value, and neither is corrected by a redelivery.
\<close>

lemma dcache_tie_diverges:
  "let r0 = newReplicatedCache ''t'' ''a''; r1 = newReplicatedCache ''t'' ''b'';
       sr = \<lparr>sr_now = 7, sr_store = None, sr_instance = ''p'', sr_submitted = True\<rparr>
   in case (dc_Set Inr sr ''k'' ''x'' 5 r0, dc_Set Inr sr ''k'' ''y'' 5 r1) of
        ((_, Some e0, r0'), (_, Some e1, r1')) \<Rightarrow>
          consume Inr None (Some e1) r0' = (StaleEvent, r0') \<and> consume Inr None (Some e0) r1' = (StaleEvent, r1') \<and>
          dc_store r0' ''k'' = Some (''x'', 5) \<and> dc_store r1' ''k'' = Some (''y'', 5)
      | _ \<Rightarrow> False"
  by (simp add: sample_defs)

end
