(* ===== verification/Strconv.thy ===== *)
theory Strconv
  imports Prelude
begin

text \<open>
  Decimal numbers as texts, as the standard library and Redis read and write them: \<open>strconv.ParseInt\<close>
  and \<open>ParseUint\<close>, and the text of a number, which reads back as that number.
\<close>

section \<open>Parsing numbers\<close>

definition digit :: "char \<Rightarrow> bool" where
  "digit c \<longleftrightarrow> CHR ''0'' \<le> c \<and> c \<le> CHR ''9''"

fun digits_value :: "int \<Rightarrow> string \<Rightarrow> int option" where
  "digits_value acc [] = Some acc"
| "digits_value acc (c # cs) = (if digit c then digits_value (acc * 10 + (of_char c - 48)) cs else None)"

definition parse_digits :: "string \<Rightarrow> int option" where
  "parse_digits s = (if s = [] then None else digits_value 0 s)"

text \<open>
  \<open>strconv.ParseInt\<close> and \<open>ParseUint\<close> in base ten: not a number, out of the range of the width with the
  bound it is cut to, or the number.
\<close>

datatype parsed = SyntaxError | RangeError int | Number int

definition ParseUint :: "nat \<Rightarrow> string \<Rightarrow> parsed" where
  "ParseUint bits s =
     (case parse_digits s of
        None \<Rightarrow> SyntaxError
      | Some n \<Rightarrow> if n < 2 ^ bits then Number n else RangeError (2 ^ bits - 1))"

definition ParseInt :: "nat \<Rightarrow> string \<Rightarrow> parsed" where
  "ParseInt bits s =
     (let (neg, rest) = (case s of c # cs \<Rightarrow> if c = CHR ''+'' then (False, cs) else if c = CHR ''-'' then (True, cs) else (False, s) | [] \<Rightarrow> (False, []))
      in case parse_digits rest of
           None \<Rightarrow> SyntaxError
         | Some n \<Rightarrow>
             if \<not> neg \<and> n \<ge> 2 ^ (bits - 1) then RangeError (2 ^ (bits - 1) - 1)
             else if neg \<and> n > 2 ^ (bits - 1) then RangeError (- (2 ^ (bits - 1)))
             else Number (if neg then - n else n))"

section \<open>Writing numbers\<close>

fun decimal :: "nat \<Rightarrow> string" where
  "decimal n = (if n < 10 then [char_of (48 + n)] else decimal (n div 10) @ [char_of (48 + n mod 10)])"

declare decimal.simps [simp del]

definition FormatInt :: "int \<Rightarrow> string" where
  "FormatInt n = (if n < 0 then ''-'' @ decimal (nat (- n)) else decimal (nat n))"

section \<open>Lemmas\<close>

lemma digits_value_nonneg: "0 \<le> acc \<Longrightarrow> digits_value acc s = Some n \<Longrightarrow> 0 \<le> n"
proof (induction acc s rule: digits_value.induct)
  case (2 acc c cs)
  then have d: "digit c" "digits_value (acc * 10 + (of_char c - 48)) cs = Some n" by (auto split: if_splits)
  have "48 \<le> (of_char c :: nat)" using d(1) by (simp add: digit_def less_eq_char_def)
  then have "48 \<le> (of_char c :: int)" by (metis of_nat_numeral of_nat_le_iff of_nat_of_char)
  with 2 d show ?case by auto
qed simp

lemma parse_digits_nonneg: "parse_digits s = Some n \<Longrightarrow> 0 \<le> n"
  by (auto simp: parse_digits_def split: if_splits dest: digits_value_nonneg [OF order_refl])

lemma ParseInt_range: "ParseInt bits s = Number n \<Longrightarrow> - (2 ^ (bits - 1)) \<le> n \<and> n < 2 ^ (bits - 1)"
proof -
  assume p: "ParseInt bits s = Number n"
  have pos: "(0 :: int) < 2 ^ (bits - 1)" by simp
  show ?thesis
    using p pos
    by (auto simp: ParseInt_def Let_def simp del: zero_less_power split: list.splits if_splits option.splits prod.splits dest!: parse_digits_nonneg)
qed

lemma ParseUint_range: "ParseUint bits s = Number n \<Longrightarrow> 0 \<le> n \<and> n < 2 ^ bits"
  by (auto simp: ParseUint_def split: if_splits option.splits dest: parse_digits_nonneg)

lemma digits_value_append:
  "digits_value acc (s @ t) = (case digits_value acc s of None \<Rightarrow> None | Some n \<Rightarrow> digits_value n t)"
  by (induction acc s rule: digits_value.induct) simp_all

lemma digits_value_digit: "d < 10 \<Longrightarrow> digits_value acc [char_of (48 + d)] = Some (acc * 10 + int d)"
proof -
  assume d: "d < 10"
  have "(of_char (char_of (48 + d)) :: nat) = 48 + d" using d by simp
  then have "(of_char (char_of (48 + d)) :: int) = int (48 + d)" by (metis of_nat_of_char)
  then show ?thesis using d by (simp add: digit_def less_eq_char_def)
qed

lemma decimal_value: "digits_value 0 (decimal n) = Some (int n)"
proof (induction n rule: decimal.induct)
  case (1 n)
  show ?case
  proof (cases "n < 10")
    case True
    then show ?thesis using digits_value_digit [of n 0] by (simp add: decimal.simps [of n])
  next
    case False
    have "int (n div 10) * 10 + int (n mod 10) = int n" by presburger
    then show ?thesis
      using 1 [OF False] False digits_value_digit [of "n mod 10" "int (n div 10)"]
      by (simp add: decimal.simps [of n] digits_value_append)
  qed
qed

lemma decimal_cons: "\<exists>c cs. decimal n = c # cs \<and> digit c"
proof (induction n rule: decimal.induct)
  case (1 n)
  then show ?case
    by (cases "n < 10") (auto simp: decimal.simps [of n] digit_def less_eq_char_def of_char_of)
qed

lemma parse_decimal: "parse_digits (decimal n) = Some (int n)"
  using decimal_cons [of n] by (auto simp: parse_digits_def decimal_value)

lemma ParseInt_FormatInt: "\<bar>n\<bar> < 2 ^ 63 \<Longrightarrow> ParseInt 64 (FormatInt n) = Number n"
proof -
  assume b: "\<bar>n\<bar> < 2 ^ 63"
  obtain c cs where c: "decimal (nat n) = c # cs" "digit c" using decimal_cons by blast
  have "c \<noteq> CHR ''+''" "c \<noteq> CHR ''-''" using c(2) by (auto simp: digit_def less_eq_char_def)
  then show ?thesis
    using b c parse_decimal [of "nat n"] parse_decimal [of "nat (- n)"]
    by (auto simp: ParseInt_def FormatInt_def)
qed

end
