(* ===== verification/Urlquery.thy ===== *)
theory Urlquery
  imports Utf8 Strconv
begin

text \<open>
  How a list request is read, \<^verbatim>\<open>src/internal/urlquery\<close>: the decoding of bare keys into the model's
  fields, the field filters, the order, the page and the cursor, with what they ask of the model's
  columns, \<^verbatim>\<open>src/internal/modelschema/classify.go\<close>, \<^verbatim>\<open>lookup.go\<close> and \<^verbatim>\<open>identifyingcolumns.go\<close>, the
  operators of \<^verbatim>\<open>src/internal/types/filterop.go\<close> and the gate of \<^verbatim>\<open>src/internal/controller/query.go\<close>.

  A parsed query is a list of keys with their values, in the order a range over the map visits them;
  parsing a URL leaves no key without a value, which is where the code indexes the first one. The
  columns of a model and the fields of its struct are data, as gorm and reflection report them; times and
  floats are texts the standard library reads or refuses, so those two readers are arguments. Caches
  are left out.
\<close>

section \<open>Parsing numbers and booleans\<close>

text \<open>\<open>strconv.Atoi\<close> with its error dropped, as the page and the size are read.\<close>

definition Atoi_value :: "string \<Rightarrow> int" where
  "Atoi_value s = (case ParseInt 64 s of SyntaxError \<Rightarrow> 0 | RangeError n \<Rightarrow> n | Number n \<Rightarrow> n)"

definition ParseBool :: "string \<Rightarrow> bool option" where
  "ParseBool s =
     (if s \<in> {''1'', ''t'', ''T'', ''TRUE'', ''true'', ''True''} then Some True
      else if s \<in> {''0'', ''f'', ''F'', ''FALSE'', ''false'', ''False''} then Some False
      else None)"

section \<open>Queries\<close>

type_synonym query = "(string \<times> string list) list"

definition q_values :: "query \<Rightarrow> string \<Rightarrow> string list" where
  "q_values q key = (case map_of q key of None \<Rightarrow> [] | Some vs \<Rightarrow> vs)"

definition q_Get :: "query \<Rightarrow> string \<Rightarrow> string" where
  "q_Get q key = (case q_values q key of [] \<Rightarrow> [] | v # _ \<Rightarrow> v)"

definition q_Has :: "query \<Rightarrow> string \<Rightarrow> bool" where
  "q_Has q key \<longleftrightarrow> key \<in> set (map fst q)"

definition QueryPage :: string where "QueryPage = ''_page''"
definition QuerySize :: string where "QuerySize = ''_size''"
definition QueryLimit :: string where "QueryLimit = ''_limit''"
definition QueryExpand :: string where "QueryExpand = ''_expand''"
definition QueryDepth :: string where "QueryDepth = ''_depth''"
definition QuerySortBy :: string where "QuerySortBy = ''_sort_by''"
definition QueryFormat :: string where "QueryFormat = ''_format''"
definition QueryCursorValue :: string where "QueryCursorValue = ''_cursor_value''"
definition QueryCursorField :: string where "QueryCursorField = ''_cursor_field''"
definition QueryCursorNext :: string where "QueryCursorNext = ''_cursor_next''"

lemmas query_names = QueryPage_def QuerySize_def QueryLimit_def QueryExpand_def QueryDepth_def QuerySortBy_def QueryFormat_def
  QueryCursorValue_def QueryCursorField_def QueryCursorNext_def

definition WithoutExportKeys :: "query \<Rightarrow> query" where
  "WithoutExportKeys q = filter (\<lambda>(k, vs). k \<noteq> QueryFormat \<and> k \<noteq> QueryLimit) q"

section \<open>Columns\<close>

record column =
  co_GoName :: string
  co_QueryName :: string
  co_DBName :: string
  co_timeOfDay :: bool
  co_nullable :: bool
  co_dataType :: string
  co_gormDataType :: string
  co_Index :: "nat list"
  co_Filterable :: bool
  co_NotNull :: bool
  co_PrimaryKey :: bool

definition to_lower :: "string \<Rightarrow> string" where
  "to_lower s = map (\<lambda>c. if CHR ''A'' \<le> c \<and> c \<le> CHR ''Z'' then char_of ((of_char c :: nat) + 32) else c) s"

definition IsTimeOfDayColumn :: "column \<Rightarrow> bool" where
  "IsTimeOfDayColumn c = co_timeOfDay c"

definition IsTimeColumn :: "column \<Rightarrow> bool" where
  "IsTimeColumn c \<longleftrightarrow> (co_gormDataType c = ''time'' \<or> co_gormDataType c = ''date'') \<and> \<not> IsTimeOfDayColumn c"

definition IsDateColumn :: "column \<Rightarrow> bool" where
  "IsDateColumn c \<longleftrightarrow> to_lower (co_dataType c) = ''date''"

definition IsNumericColumn :: "column \<Rightarrow> bool" where
  "IsNumericColumn c \<longleftrightarrow> co_gormDataType c \<in> {''int'', ''uint'', ''float''}"

definition IsBoolColumn :: "column \<Rightarrow> bool" where
  "IsBoolColumn c \<longleftrightarrow> co_gormDataType c = ''bool''"

definition isJSONDataType :: "string \<Rightarrow> bool" where
  "isJSONDataType name = prefix ''json'' (to_lower name)"

definition IsJSONColumn :: "column \<Rightarrow> bool" where
  "IsJSONColumn c \<longleftrightarrow> isJSONDataType (co_gormDataType c) \<or> isJSONDataType (co_dataType c)"

datatype ColumnClass = ColumnClassOther | ColumnClassNumeric | ColumnClassTime

definition ClassifyColumn :: "column \<Rightarrow> ColumnClass" where
  "ClassifyColumn c =
     (if IsNumericColumn c then ColumnClassNumeric else if IsTimeColumn c then ColumnClassTime else ColumnClassOther)"

text \<open>What the standard library makes of a float, an RFC 3339 time and a time of day, rendered as bound.\<close>

record readers =
  rd_float :: "nat \<Rightarrow> string \<Rightarrow> bool"
  rd_time :: "string \<Rightarrow> string option"
  rd_timeOfDay :: "string \<Rightarrow> string option"

definition is_number :: "parsed \<Rightarrow> bool" where
  "is_number p = (case p of Number _ \<Rightarrow> True | _ \<Rightarrow> False)"

definition ValidateNumericValue :: "readers \<Rightarrow> column \<Rightarrow> string \<Rightarrow> bool" where
  "ValidateNumericValue rd c value =
     (if co_gormDataType c = ''int'' then is_number (ParseInt 64 value)
      else if co_gormDataType c = ''uint'' then is_number (ParseUint 64 value)
      else if co_gormDataType c = ''float'' then rd_float rd 64 value
      else True)"

text \<open>A map built in the order of the columns: a later one of the same name replaces an earlier one.\<close>

definition FilterableIndex :: "column list \<Rightarrow> string \<Rightarrow> column option" where
  "FilterableIndex cols name = map_of (rev (map (\<lambda>c. (co_QueryName c, c)) (filter co_Filterable cols))) name"

record index_declaration =
  ix_Fields :: "string list"
  ix_Unique :: bool

definition IdentifyingColumns :: "column list \<Rightarrow> index_declaration list \<Rightarrow> string set" where
  "IdentifyingColumns cols indexes =
     set (map co_DBName (filter co_PrimaryKey cols)) \<union>
     set (map co_DBName (filter (\<lambda>c. list_ex (\<lambda>ix. ix_Unique ix \<and> ix_Fields ix = [co_GoName c]) indexes \<and> (co_NotNull c \<or> \<not> co_nullable c)) cols))"

section \<open>Fields a bare key fills\<close>

text \<open>
  A struct type: its fields in order, with their Go name, their query tag up to the comma, whether they
  are embedded and exported. Any type no setter exists for is \<open>OtherType\<close>.
\<close>

datatype scalar = KString | KBool | KInt nat | KUint nat | KFloat nat

datatype gotype = Scalar scalar | PointerTo gotype | StructOf "gofield list" | OtherType
  and gofield = GoField (gf_name: string) (gf_query: string) (gf_anonymous: bool) (gf_exported: bool) (gf_type: gotype)

lemma size_embedded: "gf_type f = StructOf gs \<Longrightarrow> size_list size gs < size f"
  by (cases f) auto

lemma size_embedded_pointer: "gf_type f = PointerTo (StructOf gs) \<Longrightarrow> size_list size gs < size f"
  by (cases f) auto

text \<open>The fields a walk visits, with their path and the number of structs embedded on the way.\<close>

function (sequential) walk_struct :: "nat list \<Rightarrow> nat \<Rightarrow> nat \<Rightarrow> gofield list \<Rightarrow> (gofield \<times> nat list \<times> nat) list" where
  "walk_struct path depth i [] = []"
| "walk_struct path depth i (f # fs) =
     (let index = path @ [i]; rest = walk_struct path depth (i + 1) fs
      in case (gf_anonymous f \<and> gf_exported f, gf_type f) of
           (True, StructOf gs) \<Rightarrow> walk_struct index (depth + 1) 0 gs @ rest
         | (True, PointerTo (StructOf gs)) \<Rightarrow> walk_struct index (depth + 1) 0 gs @ rest
         | _ \<Rightarrow> if gf_exported f then (f, index, depth) # rest else rest)"
  by pat_completeness auto
termination
  by (relation "measure (\<lambda>(path, depth, i, fs). size_list size fs)")
    (auto dest!: size_embedded [OF sym] size_embedded_pointer [OF sym])


definition field_scalar :: "gotype \<Rightarrow> scalar option" where
  "field_scalar t =
     (case t of
        Scalar k \<Rightarrow> Some k
      | PointerTo (Scalar k) \<Rightarrow> Some k
      | _ \<Rightarrow> None)"

record decodable =
  de_index :: "nat list"
  de_kind :: scalar

text \<open>The plan so far, with the depth each name was found at.\<close>

fun collectDecodableFields ::
  "(nat list \<Rightarrow> bool) \<Rightarrow> (gofield \<times> nat list \<times> nat) list \<Rightarrow> (string \<rightharpoonup> nat \<times> decodable) \<Rightarrow> (string \<rightharpoonup> nat \<times> decodable)" where
  "collectDecodableFields unfilterable [] plan = plan"
| "collectDecodableFields unfilterable ((f, index, depth) # visits) plan =
     collectDecodableFields unfilterable visits
       (if unfilterable index \<or> gf_query f = [] then plan
        else case field_scalar (gf_type f) of
          None \<Rightarrow> plan
        | Some k \<Rightarrow>
            (case plan (gf_query f) of
               Some (seen, _) \<Rightarrow> if seen \<le> depth then plan else plan(gf_query f \<mapsto> (depth, \<lparr>de_index = index, de_kind = k\<rparr>))
             | None \<Rightarrow> plan(gf_query f \<mapsto> (depth, \<lparr>de_index = index, de_kind = k\<rparr>))))"

text \<open>The field an index path reaches, through the pointers on the way.\<close>

fun deref :: "gotype \<Rightarrow> gotype" where
  "deref (PointerTo t) = deref t"
| "deref t = t"

fun structFieldAlong :: "gotype \<Rightarrow> nat list \<Rightarrow> gotype option" where
  "structFieldAlong t [] = Some t"
| "structFieldAlong t (i # is) =
     (case deref t of
        StructOf fs \<Rightarrow> if i < length fs then structFieldAlong (gf_type (fs ! i)) is else None
      | _ \<Rightarrow> None)"

definition collectEmbeddedColumns :: "gotype \<Rightarrow> column list \<Rightarrow> (string \<rightharpoonup> decodable) \<Rightarrow> (string \<rightharpoonup> decodable)" where
  "collectEmbeddedColumns typ cols plan0 =
     fold (\<lambda>col plan.
         if \<not> co_Filterable col \<or> CHR ''.'' \<notin> set (co_GoName col) \<or> plan (co_QueryName col) \<noteq> None then plan
         else case Option.bind (structFieldAlong typ (co_Index col)) field_scalar of
           None \<Rightarrow> plan
         | Some k \<Rightarrow> plan(co_QueryName col \<mapsto> \<lparr>de_index = co_Index col, de_kind = k\<rparr>)) cols plan0"

definition decodePlanOf :: "gotype \<Rightarrow> column list \<Rightarrow> (string \<rightharpoonup> decodable)" where
  "decodePlanOf typ cols =
     (case deref typ of
        StructOf fs \<Rightarrow>
          collectEmbeddedColumns (deref typ) cols
            (map_option snd \<circ> collectDecodableFields (\<lambda>index. list_ex (\<lambda>c. \<not> co_Filterable c \<and> co_Index c = index) cols)
               (walk_struct [] 0 0 fs) Map.empty)
      | _ \<Rightarrow> Map.empty)"

section \<open>Models\<close>

record model_info =
  mi_type :: gotype
  mi_columns :: "column list"
  mi_indexes :: "index_declaration list"
  mi_queryable :: bool
  mi_paginatable :: bool
  mi_cursorable :: bool

section \<open>Filter keys\<close>

datatype FilterOp =
    FilterOpEq | FilterOpNe | FilterOpGt | FilterOpGte | FilterOpLt | FilterOpLte | FilterOpIn | FilterOpNotIn
  | FilterOpLike | FilterOpNotLike | FilterOpStartsWith | FilterOpEndsWith | FilterOpIsNull

definition FilterOps :: "FilterOp list" where
  "FilterOps =
     [FilterOpEq, FilterOpNe, FilterOpGt, FilterOpGte, FilterOpLt, FilterOpLte, FilterOpIn, FilterOpNotIn,
      FilterOpLike, FilterOpNotLike, FilterOpStartsWith, FilterOpEndsWith, FilterOpIsNull]"

fun op_token :: "FilterOp \<Rightarrow> string" where
  "op_token FilterOpEq = ''eq''"
| "op_token FilterOpNe = ''ne''"
| "op_token FilterOpGt = ''gt''"
| "op_token FilterOpGte = ''gte''"
| "op_token FilterOpLt = ''lt''"
| "op_token FilterOpLte = ''lte''"
| "op_token FilterOpIn = ''in''"
| "op_token FilterOpNotIn = ''notin''"
| "op_token FilterOpLike = ''like''"
| "op_token FilterOpNotLike = ''notlike''"
| "op_token FilterOpStartsWith = ''startswith''"
| "op_token FilterOpEndsWith = ''endswith''"
| "op_token FilterOpIsNull = ''isnull''"

definition ParseFilterOp :: "string \<Rightarrow> FilterOp option" where
  "ParseFilterOp s = map_of (map (\<lambda>p. (op_token p, p)) FilterOps) s"

definition bareTimeFilterColumns :: "string set" where
  "bareTimeFilterColumns = {''created_at'', ''updated_at''}"

definition isFilterKey :: "string \<Rightarrow> bool" where
  "isFilterKey key \<longleftrightarrow> \<not> prefix ''_'' key \<and> CHR ''['' \<in> set key"

definition isFilterQueryKey :: "string \<Rightarrow> bool" where
  "isFilterQueryKey key \<longleftrightarrow> isFilterKey key \<or> key \<in> bareTimeFilterColumns"

text \<open>The field and the operator token of \<open>field[op]\<close>; \<open>None\<close> for a key of another shape.\<close>

definition splitFilterKey :: "string \<Rightarrow> (string \<times> string) option" where
  "splitFilterKey key =
     (let field = takeWhile (\<lambda>c. c \<noteq> CHR ''['') key; rest = drop (length field + 1) key; op = butlast rest
      in if length field = length key \<or> field = [] \<or> key = [] \<or> last key \<noteq> CHR '']'' then None
         else if op = [] \<or> CHR ''['' \<in> set field \<or> CHR '']'' \<in> set field \<or> CHR ''['' \<in> set op \<or> CHR '']'' \<in> set op then None
         else Some (field, op))"

definition filterOps :: "column \<Rightarrow> FilterOp list \<times> string" where
  "filterOps col =
     (if IsTimeColumn col \<or> IsTimeOfDayColumn col then
        ([FilterOpEq, FilterOpNe, FilterOpGt, FilterOpGte, FilterOpLt, FilterOpLte, FilterOpIsNull], ''time'')
      else if IsBoolColumn col then ([FilterOpEq, FilterOpNe, FilterOpIsNull], ''bool'')
      else if IsNumericColumn col then (FilterOps, [])
      else if IsJSONColumn col then
        ([FilterOpLike, FilterOpNotLike, FilterOpStartsWith, FilterOpEndsWith, FilterOpIsNull], ''JSON'')
      else (FilterOps, []))"

section \<open>Filter values\<close>

datatype fvalue = VBool bool | VStr string | VList "string list"

datatype value_error =
    OpUnsupported FilterOp string
  | NotBoolean string
  | NotNumeric string
  | NotTime string

definition timeBound :: "readers \<Rightarrow> column \<Rightarrow> string \<Rightarrow> value_error + string" where
  "timeBound rd col value =
     (case (if IsTimeOfDayColumn col then rd_timeOfDay rd value else rd_time rd value) of
        None \<Rightarrow> Inl (NotTime value)
      | Some bound \<Rightarrow> Inr bound)"

text \<open>\<open>strings.Split\<close> at commas.\<close>

fun split_comma :: "string \<Rightarrow> string list" where
  "split_comma [] = [[]]"
| "split_comma (c # cs) =
     (if c = CHR '','' then [] # split_comma cs
      else case split_comma cs of [] \<Rightarrow> [[c]] | w # ws \<Rightarrow> (c # w) # ws)"

definition parsed_bool :: "string \<Rightarrow> value_error + fvalue" where
  "parsed_bool value = (case ParseBool value of None \<Rightarrow> Inl (NotBoolean value) | Some b \<Rightarrow> Inr (VBool b))"

definition normalizeFilterValue :: "readers \<Rightarrow> column \<Rightarrow> FilterOp \<Rightarrow> string \<Rightarrow> value_error + fvalue" where
  "normalizeFilterValue rd col op value =
     (if op \<notin> set (fst (filterOps col)) then Inl (OpUnsupported op (snd (filterOps col)))
      else if op = FilterOpIsNull then parsed_bool value
      else if IsTimeColumn col \<or> IsTimeOfDayColumn col then map_sum id VStr (timeBound rd col value)
      else if IsBoolColumn col then parsed_bool value
      else if IsNumericColumn col then
        (if op = FilterOpIn \<or> op = FilterOpNotIn then
           (case filter (\<lambda>item. \<not> ValidateNumericValue rd col item) (split_comma value) of
              [] \<Rightarrow> Inr (VList (split_comma value))
            | bad # _ \<Rightarrow> Inl (NotNumeric bad))
         else if op \<in> {FilterOpLike, FilterOpNotLike, FilterOpStartsWith, FilterOpEndsWith} then Inr (VStr value)
         else if ValidateNumericValue rd col value then Inr (VStr value) else Inl (NotNumeric value))
      else if IsJSONColumn col then Inr (VStr value)
      else if op = FilterOpIn \<or> op = FilterOpNotIn then Inr (VList (split_comma value))
      else Inr (VStr value))"


section \<open>Errors\<close>

datatype uq_error =
    UnsupportedParameters "string list"
  | InvalidParameters "string list" "string list"
  | BadFilterShape string
  | UnknownOperator string string
  | UnknownField string string
  | BadFilterValue string value_error
  | BadSortTerm string
  | UnknownSortColumn string
  | BadSortDirection string string
  | UnknownCursorColumn string
  | SharedCursorColumn string
  | BadCursorValue value_error
  | CursorWithSort

section \<open>Filters\<close>

record filter_cond =
  fc_column :: string
  fc_op :: FilterOp
  fc_value :: fvalue

definition filter_target :: "string \<Rightarrow> uq_error + string \<times> FilterOp" where
  "filter_target key =
     (if key \<in> bareTimeFilterColumns \<and> \<not> isFilterKey key then Inr (key, FilterOpEq)
      else case splitFilterKey key of
        None \<Rightarrow> Inl (BadFilterShape key)
      | Some (field, token) \<Rightarrow>
          (case ParseFilterOp token of None \<Rightarrow> Inl (UnknownOperator key token) | Some op \<Rightarrow> Inr (field, op)))"

definition filter_key :: "readers \<Rightarrow> column list \<Rightarrow> query \<Rightarrow> string \<Rightarrow> uq_error + filter_cond option" where
  "filter_key rd cols q key =
     (case filter_target key of
        Inl err \<Rightarrow> Inl err
      | Inr (field, op) \<Rightarrow>
          (case FilterableIndex cols field of
             None \<Rightarrow> Inl (UnknownField key field)
           | Some col \<Rightarrow>
               (let raw = q_Get q key
                in if raw = [] then Inr None
                   else case normalizeFilterValue rd col op raw of
                     Inl err \<Rightarrow> Inl (BadFilterValue key err)
                   | Inr value \<Rightarrow> Inr (Some \<lparr>fc_column = co_DBName col, fc_op = op, fc_value = value\<rparr>))))"

fun filter_keys :: "readers \<Rightarrow> column list \<Rightarrow> query \<Rightarrow> string list \<Rightarrow> uq_error + filter_cond list" where
  "filter_keys rd cols q [] = Inr []"
| "filter_keys rd cols q (key # keys) =
     (case filter_key rd cols q key of
        Inl err \<Rightarrow> Inl err
      | Inr cond \<Rightarrow> map_sum id (\<lambda>conds. (case cond of None \<Rightarrow> conds | Some c \<Rightarrow> c # conds)) (filter_keys rd cols q keys))"

definition Filters :: "readers \<Rightarrow> query \<Rightarrow> model_info \<Rightarrow> uq_error + filter_cond list" where
  "Filters rd q m =
     (let keys = filter isFilterQueryKey (map fst q)
      in if keys = [] then Inr []
         else if \<not> mi_queryable m then Inl (UnsupportedParameters (sort keys))
         else filter_keys rd (mi_columns m) q (sort keys))"

definition PresentFields :: "query \<Rightarrow> string set" where
  "PresentFields q = set (map fst (filter (\<lambda>(k, vs). \<not> prefix ''_'' k \<and> \<not> isFilterKey k \<and> concat vs \<noteq> []) q))"

section \<open>Decoding\<close>

datatype goval = GStr string | GBool bool | GInt int | GUint int | GFloat string

definition assign_scalar :: "readers \<Rightarrow> scalar \<Rightarrow> string \<Rightarrow> goval option" where
  "assign_scalar rd k raw =
     (case k of
        KString \<Rightarrow> Some (GStr raw)
      | KBool \<Rightarrow> map_option GBool (ParseBool raw)
      | KInt bits \<Rightarrow> (case ParseInt bits raw of Number n \<Rightarrow> Some (GInt n) | _ \<Rightarrow> None)
      | KUint bits \<Rightarrow> (case ParseUint bits raw of Number n \<Rightarrow> Some (GUint n) | _ \<Rightarrow> None)
      | KFloat bits \<Rightarrow> if rd_float rd bits raw then Some (GFloat raw) else None)"

text \<open>
  What the loop of \<open>Decode\<close> collects: the values assigned to fields, by their path, the keys nothing
  takes and the keys whose value does not parse.
\<close>

record decoding =
  dg_assigned :: "(nat list \<times> goval) list"
  dg_unsupported :: "string list"
  dg_invalid :: "string list"

definition decode_key :: "readers \<Rightarrow> (string \<rightharpoonup> decodable) \<Rightarrow> bool \<Rightarrow> string \<times> string list \<Rightarrow> decoding \<Rightarrow> decoding" where
  "decode_key rd plan paginatable kv d =
     (case kv of (key, vs) \<Rightarrow>
        if isFilterQueryKey key then d
        else case plan key of
          None \<Rightarrow> if key = QuerySize \<and> \<not> paginatable then d else d\<lparr>dg_unsupported := dg_unsupported d @ [key]\<rparr>
        | Some field \<Rightarrow>
            if vs = [] \<or> last vs = [] then d
            else case assign_scalar rd (de_kind field) (last vs) of
              None \<Rightarrow> d\<lparr>dg_invalid := dg_invalid d @ [key]\<rparr>
            | Some v \<Rightarrow> d\<lparr>dg_assigned := dg_assigned d @ [(de_index field, v)]\<rparr>)"

definition Decode :: "readers \<Rightarrow> query \<Rightarrow> model_info \<Rightarrow> uq_error option \<times> (nat list \<times> goval) list" where
  "Decode rd q m =
     (let d = fold (decode_key rd (decodePlanOf (mi_type m) (mi_columns m)) (mi_paginatable m)) q
                \<lparr>dg_assigned = [], dg_unsupported = [], dg_invalid = []\<rparr>
      in (if dg_unsupported d = [] \<and> dg_invalid d = [] then None
          else Some (InvalidParameters (sort (dg_unsupported d)) (sort (dg_invalid d))),
          dg_assigned d))"

section \<open>Orders\<close>

text \<open>\<open>strings.Fields\<close>; a fuel of the length of the text is enough, each word takes a byte of it.\<close>

fun span_word :: "string \<Rightarrow> string \<times> string" where
  "span_word [] = ([], [])"
| "span_word (c # cs) =
     (if strip_first white_space (c # cs) \<noteq> None then ([], c # cs)
      else (let (w, r) = span_word cs in (c # w, r)))"

fun fields_fuel :: "nat \<Rightarrow> string \<Rightarrow> string list" where
  "fields_fuel 0 s = []"
| "fields_fuel (Suc n) s =
     (let t = trim_left s
      in if t = [] then [] else (let (w, r) = span_word t in w # fields_fuel n r))"

definition strings_Fields :: "string \<Rightarrow> string list" where
  "strings_Fields s = fields_fuel (length s) s"

text \<open>
  \<open>strings.EqualFold\<close> with a lower case ASCII word: besides the ASCII letters, U+017F folds to s and U+212A
  to k.
\<close>

definition fold_rune :: "rune \<Rightarrow> rune" where
  "fold_rune r = (if 65 \<le> r \<and> r \<le> 90 then r + 32 else if r = 0x17F then 115 else if r = 0x212A then 107 else r)"

definition equal_fold_ascii :: "string \<Rightarrow> string \<Rightarrow> bool" where
  "equal_fold_ascii s word \<longleftrightarrow> map fold_rune (runes (bytes s)) = bytes word"

datatype OrderDirection = OrderAsc | OrderDesc

definition Flip :: "OrderDirection \<Rightarrow> OrderDirection" where
  "Flip d = (if d = OrderDesc then OrderAsc else OrderDesc)"

type_synonym order_term = "string \<times> OrderDirection"

definition parse_order_term :: "column list \<Rightarrow> string \<Rightarrow> uq_error + order_term" where
  "parse_order_term cols text =
     (case strings_Fields text of
        [name] \<Rightarrow>
          (case FilterableIndex cols name of None \<Rightarrow> Inl (UnknownSortColumn name) | Some col \<Rightarrow> Inr (co_DBName col, OrderAsc))
      | [name, direction] \<Rightarrow>
          (case FilterableIndex cols name of
             None \<Rightarrow> Inl (UnknownSortColumn name)
           | Some col \<Rightarrow>
               if equal_fold_ascii direction ''asc'' then Inr (co_DBName col, OrderAsc)
               else if equal_fold_ascii direction ''desc'' then Inr (co_DBName col, OrderDesc)
               else Inl (BadSortDirection direction name))
      | _ \<Rightarrow> Inl (BadSortTerm (TrimSpace text)))"

fun order_terms :: "column list \<Rightarrow> string list \<Rightarrow> uq_error + order_term list" where
  "order_terms cols [] = Inr []"
| "order_terms cols (t # ts) =
     (case parse_order_term cols t of Inl err \<Rightarrow> Inl err | Inr o1 \<Rightarrow> map_sum id (\<lambda>os. o1 # os) (order_terms cols ts))"

definition Orders :: "query \<Rightarrow> model_info \<Rightarrow> uq_error + order_term list" where
  "Orders q m =
     (if \<not> mi_queryable m then Inr []
      else
        (let expression = TrimSpace (q_Get q QuerySortBy)
         in if expression = [] then Inr [] else order_terms (mi_columns m) (split_comma expression)))"

section \<open>Pages and cursors\<close>

definition DefaultPageSize :: int where "DefaultPageSize = 20"
definition MaxPageSize :: int where "MaxPageSize = 100"
definition uq_defaultLimit :: int where "uq_defaultLimit = 1000"

definition cursorRequested :: "query \<Rightarrow> model_info \<Rightarrow> bool" where
  "cursorRequested q m \<longleftrightarrow>
     mi_cursorable m \<and>
     (q_Get q QueryCursorValue \<noteq> [] \<or>
      q_Get q QuerySortBy = [] \<and> (q_Has q QueryCursorField \<or> q_Has q QueryCursorNext \<or> \<not> mi_paginatable m))"

definition Pagination :: "query \<Rightarrow> model_info \<Rightarrow> int \<times> int" where
  "Pagination q m =
     (let raw = q_Get q QueryPage;
          page0 = (if mi_paginatable m \<and> raw \<noteq> [] then Atoi_value raw else 0);
          page = (if page0 \<le> 0 then 1 else page0);
          size_raw = q_Get q QuerySize;
          size0 = (if size_raw \<noteq> [] then Atoi_value size_raw else 0);
          sz = (if mi_paginatable m \<or> mi_cursorable m then
                  (if size0 \<le> 0 then DefaultPageSize else if size0 > MaxPageSize then MaxPageSize else size0)
                else uq_defaultLimit)
      in (if cursorRequested q m then 1 else page, sz))"

record cursor =
  cu_column :: string
  cu_direction :: OrderDirection
  cu_value :: string
  cu_backward :: bool
  cu_paging :: bool

definition no_cursor :: cursor where
  "no_cursor = \<lparr>cu_column = [], cu_direction = OrderAsc, cu_value = [], cu_backward = False, cu_paging = False\<rparr>"

definition CursorForward :: "string \<Rightarrow> OrderDirection \<Rightarrow> string \<Rightarrow> cursor" where
  "CursorForward col dir value = \<lparr>cu_column = col, cu_direction = dir, cu_value = value, cu_backward = False, cu_paging = True\<rparr>"

definition CursorBackward :: "string \<Rightarrow> OrderDirection \<Rightarrow> string \<Rightarrow> cursor" where
  "CursorBackward col dir value = \<lparr>cu_column = col, cu_direction = dir, cu_value = value, cu_backward = True, cu_paging = True\<rparr>"

definition DefaultCursorColumn :: string where "DefaultCursorColumn = ''id''"

definition normalizeCursorValue :: "readers \<Rightarrow> column option \<Rightarrow> string \<Rightarrow> value_error + string" where
  "normalizeCursorValue rd col0 value =
     (case col0 of
        None \<Rightarrow> Inr value
      | Some col \<Rightarrow>
          if IsTimeColumn col \<or> IsTimeOfDayColumn col then timeBound rd col value
          else if IsBoolColumn col then (if ParseBool value = None then Inl (NotBoolean value) else Inr value)
          else if IsNumericColumn col then (if ValidateNumericValue rd col value then Inr value else Inl (NotNumeric value))
          else Inr value)"

text \<open>The column a cursor names, by its database name, with the column its value is checked against.\<close>

definition cursor_column :: "query \<Rightarrow> model_info \<Rightarrow> uq_error + string \<times> column option" where
  "cursor_column q m =
     (let field = TrimSpace (q_Get q QueryCursorField)
      in if field \<noteq> [] then
           (case FilterableIndex (mi_columns m) field of
              None \<Rightarrow> Inl (UnknownCursorColumn field)
            | Some col \<Rightarrow>
                if co_DBName col \<notin> IdentifyingColumns (mi_columns m) (mi_indexes m) then Inl (SharedCursorColumn field)
                else Inr (co_DBName col, Some col))
         else Inr ([], find (\<lambda>c. co_DBName c = DefaultCursorColumn) (mi_columns m)))"

definition Cursor :: "readers \<Rightarrow> query \<Rightarrow> model_info \<Rightarrow> uq_error + cursor" where
  "Cursor rd q m =
     (if \<not> cursorRequested q m then Inr no_cursor
      else case cursor_column q m of
        Inl err \<Rightarrow> Inl err
      | Inr (col, checked) \<Rightarrow>
          (let value = q_Get q QueryCursorValue
           in if value = [] then Inr (CursorForward col OrderAsc [])
              else case normalizeCursorValue rd checked value of
                Inl err \<Rightarrow> Inl (BadCursorValue err)
              | Inr bound \<Rightarrow>
                  if ParseBool (q_Get q QueryCursorNext) = Some True then Inr (CursorForward col OrderAsc bound)
                  else Inr (CursorBackward col OrderAsc bound)))"

section \<open>The gate of a list request\<close>

definition matchQueryKeys :: "query \<Rightarrow> string list \<Rightarrow> string list" where
  "matchQueryKeys q keys = filter (\<lambda>k. k \<in> set keys) (map fst q)"

definition rejected_keys :: "query \<Rightarrow> model_info \<Rightarrow> string list" where
  "rejected_keys q m =
     (if mi_queryable m then [] else matchQueryKeys q [QueryExpand, QueryDepth, QuerySortBy]) @
     (if mi_paginatable m then [] else matchQueryKeys q [QueryPage]) @
     (if mi_paginatable m \<or> mi_cursorable m then [] else matchQueryKeys q [QuerySize]) @
     (if mi_cursorable m then [] else matchQueryKeys q [QueryCursorValue, QueryCursorField, QueryCursorNext])"

definition decodeListQuery :: "readers \<Rightarrow> query \<Rightarrow> model_info \<Rightarrow> uq_error option \<times> (nat list \<times> goval) list" where
  "decodeListQuery rd q m =
     (if rejected_keys q m \<noteq> [] then (Some (UnsupportedParameters (sort (rejected_keys q m))), []) else Decode rd q m)"

definition checkCursorOrderConflict :: "cursor \<Rightarrow> order_term list \<Rightarrow> uq_error option" where
  "checkCursorOrderConflict c os = (if cu_paging c \<and> os \<noteq> [] then Some CursorWithSort else None)"

text \<open>What the parsers make of a list request, in the order the list flow runs them.\<close>

record list_request =
  lq_assigned :: "(nat list \<times> goval) list"
  lq_filters :: "filter_cond list"
  lq_present :: "string set"
  lq_orders :: "order_term list"
  lq_cursor :: cursor
  lq_page :: int
  lq_size :: int

definition parse_list_request :: "readers \<Rightarrow> query \<Rightarrow> model_info \<Rightarrow> uq_error + list_request" where
  "parse_list_request rd q m =
     (case decodeListQuery rd q m of
        (Some err, _) \<Rightarrow> Inl err
      | (None, assigned) \<Rightarrow>
          (case Filters rd q m of
             Inl err \<Rightarrow> Inl err
           | Inr filters \<Rightarrow>
               (case Orders q m of
                  Inl err \<Rightarrow> Inl err
                | Inr os \<Rightarrow>
                    (case Cursor rd q m of
                       Inl err \<Rightarrow> Inl err
                     | Inr cur \<Rightarrow>
                         (case checkCursorOrderConflict cur os of
                            Some err \<Rightarrow> Inl err
                          | None \<Rightarrow>
                              Inr \<lparr>lq_assigned = assigned, lq_filters = filters, lq_present = PresentFields q, lq_orders = os,
                                   lq_cursor = cur, lq_page = fst (Pagination q m), lq_size = snd (Pagination q m)\<rparr>)))))"

section \<open>Lemmas\<close>

text \<open>A value that a field of a kind can hold.\<close>

fun fits :: "scalar \<Rightarrow> goval \<Rightarrow> bool" where
  "fits KString (GStr _) = True"
| "fits KBool (GBool _) = True"
| "fits (KInt bits) (GInt n) = (- (2 ^ (bits - 1)) \<le> n \<and> n < 2 ^ (bits - 1))"
| "fits (KUint bits) (GUint n) = (0 \<le> n \<and> n < 2 ^ bits)"
| "fits (KFloat bits) (GFloat _) = True"
| "fits _ _ = False"

lemma assign_scalar_fits: "assign_scalar rd k raw = Some v \<Longrightarrow> fits k v"
  using ParseInt_range ParseUint_range by (cases k) (auto simp: assign_scalar_def split: parsed.splits if_splits)

lemma walk_struct_Cons:
  "x \<in> set (walk_struct path depth i (g # gs)) \<Longrightarrow>
     x = (g, path @ [i], depth) \<or> x \<in> set (walk_struct path depth (i + 1) gs) \<or>
     (\<exists>hs. (gf_type g = StructOf hs \<or> gf_type g = PointerTo (StructOf hs)) \<and> x \<in> set (walk_struct (path @ [i]) (depth + 1) 0 hs))"
  by (auto simp: Let_def split: gotype.splits bool.splits if_splits)

lemma walk_struct_reaches:
  assumes "(f, index, d) \<in> set (walk_struct path depth i fs)" "drop i whole = fs"
  shows "\<exists>rest. index = path @ rest \<and> rest \<noteq> [] \<and> structFieldAlong (StructOf whole) rest = Some (gf_type f)"
  using assms
proof (induction "size_list size fs" arbitrary: path depth i fs whole rule: less_induct)
  case less
  show ?case
  proof (cases fs)
    case Nil
    with less.prems show ?thesis by simp
  next
    case (Cons g gs)
    have i: "i < length whole" "whole ! i = g" "drop (i + 1) whole = gs"
      using less.prems(2) Cons by (metis drop_eq_Nil2 list.distinct(1) not_le, metis nth_via_drop, metis drop_Suc drop_tl list.sel(3) Suc_eq_plus1)
    from walk_struct_Cons [OF less.prems(1) [unfolded Cons]]
    consider "f = g" "index = path @ [i]" | "(f, index, d) \<in> set (walk_struct path depth (i + 1) gs)"
      | hs where "gf_type g = StructOf hs \<or> gf_type g = PointerTo (StructOf hs)" "(f, index, d) \<in> set (walk_struct (path @ [i]) (depth + 1) 0 hs)"
      by auto
    then show ?thesis
    proof cases
      case 1
      with i show ?thesis by (intro exI [of _ "[i]"]) simp
    next
      case 2
      from less.hyps [OF _ 2 i(3)] Cons show ?thesis by (cases g) auto
    next
      case 3
      then have "size_list size hs < size_list size fs" using Cons size_embedded size_embedded_pointer by fastforce
      from less.hyps [OF this 3(2), of hs] obtain rest where
        r: "index = (path @ [i]) @ rest" "rest \<noteq> []" "structFieldAlong (StructOf hs) rest = Some (gf_type f)" by auto
      have "structFieldAlong (gf_type g) rest = structFieldAlong (StructOf hs) rest" using 3(1) r(2) by (cases rest) auto
      with r i show ?thesis by (intro exI [of _ "i # rest"]) simp
    qed
  qed
qed

text \<open>Every field of the plan is a field of the struct of the kind its setter parses.\<close>

definition plan_typed :: "gotype \<Rightarrow> (string \<rightharpoonup> decodable) \<Rightarrow> bool" where
  "plan_typed typ plan \<longleftrightarrow>
     (\<forall>name fd. plan name = Some fd \<longrightarrow> (\<exists>t. structFieldAlong typ (de_index fd) = Some t \<and> field_scalar t = Some (de_kind fd)))"

lemma collectDecodableFields_typed:
  assumes "\<forall>(f, index, d)\<in>set visits. structFieldAlong typ index = Some (gf_type f)"
    "\<forall>name x. plan name = Some x \<longrightarrow> (\<exists>t. structFieldAlong typ (de_index (snd x)) = Some t \<and> field_scalar t = Some (de_kind (snd x)))"
  shows "\<forall>name x. collectDecodableFields unfilterable visits plan name = Some x \<longrightarrow>
    (\<exists>t. structFieldAlong typ (de_index (snd x)) = Some t \<and> field_scalar t = Some (de_kind (snd x)))"
  using assms
proof (induction visits arbitrary: plan)
  case (Cons v visits)
  obtain f index depth where v: "v = (f, index, depth)" by (cases v)
  show ?case
    unfolding v collectDecodableFields.simps
    by (rule Cons.IH) (use Cons.prems v in \<open>auto split: option.splits if_splits\<close>)
qed simp

lemma collectEmbeddedColumns_typed:
  "plan_typed typ plan \<Longrightarrow> plan_typed typ (collectEmbeddedColumns typ cols plan)"
  unfolding collectEmbeddedColumns_def
proof (induction cols arbitrary: plan)
  case (Cons col cols)
  show ?case
    unfolding fold_simps comp_def
    by (rule Cons.IH) (use Cons.prems in \<open>auto simp: plan_typed_def split: option.splits bind_splits\<close>)
qed simp

lemma decodePlanOf_typed: "plan_typed (deref typ) (decodePlanOf typ cols)"
proof (cases "deref typ")
  case (StructOf fs)
  have "\<forall>(f, index, d)\<in>set (walk_struct [] 0 0 fs). structFieldAlong (StructOf fs) index = Some (gf_type f)"
    using walk_struct_reaches [of _ _ _ "[]" 0 0 fs fs] by fastforce
  from collectDecodableFields_typed [OF this, of Map.empty] have
    "plan_typed (StructOf fs) (map_option snd \<circ> collectDecodableFields u (walk_struct [] 0 0 fs) Map.empty)" for u
    by (fastforce simp: plan_typed_def)
  with StructOf show ?thesis by (simp add: decodePlanOf_def collectEmbeddedColumns_typed)
qed (auto simp: decodePlanOf_def plan_typed_def)


text \<open>The loops of \<open>Decode\<close> and \<open>Filters\<close>, key by key.\<close>

definition no_decoding :: decoding where
  "no_decoding = \<lparr>dg_assigned = [], dg_unsupported = [], dg_invalid = []\<rparr>"

lemma decode_key_appends:
  "decode_key rd plan pg kv d =
     \<lparr>dg_assigned = dg_assigned d @ dg_assigned (decode_key rd plan pg kv no_decoding),
      dg_unsupported = dg_unsupported d @ dg_unsupported (decode_key rd plan pg kv no_decoding),
      dg_invalid = dg_invalid d @ dg_invalid (decode_key rd plan pg kv no_decoding)\<rparr>"
  by (cases kv) (simp add: decode_key_def no_decoding_def split: option.split)

lemma fold_decode_key:
  "fold (decode_key rd plan pg) q d =
     \<lparr>dg_assigned = dg_assigned d @ concat (map (\<lambda>kv. dg_assigned (decode_key rd plan pg kv no_decoding)) q),
      dg_unsupported = dg_unsupported d @ concat (map (\<lambda>kv. dg_unsupported (decode_key rd plan pg kv no_decoding)) q),
      dg_invalid = dg_invalid d @ concat (map (\<lambda>kv. dg_invalid (decode_key rd plan pg kv no_decoding)) q)\<rparr>"
proof (induction q arbitrary: d)
  case (Cons kv q)
  show ?case
    unfolding fold_simps comp_def Cons.IH by (subst (1 2 3) decode_key_appends) simp
qed simp

lemma concat_map_Nil: "concat (map f xs) = [] \<Longrightarrow> x \<in> set xs \<Longrightarrow> f x = []"
  by auto

lemma concat_map_member: "x \<in> set xs \<Longrightarrow> set (f x) \<subseteq> set (concat (map f xs))"
  by auto

lemma Decode_eq:
  "Decode rd q m =
     (let parts = map (\<lambda>kv. decode_key rd (decodePlanOf (mi_type m) (mi_columns m)) (mi_paginatable m) kv no_decoding) q
      in (if concat (map dg_unsupported parts) = [] \<and> concat (map dg_invalid parts) = [] then None
          else Some (InvalidParameters (sort (concat (map dg_unsupported parts))) (sort (concat (map dg_invalid parts)))),
          concat (map dg_assigned parts)))"
  unfolding Decode_def no_decoding_def [symmetric] fold_decode_key by (simp add: no_decoding_def Let_def comp_def)

lemma filter_keys_ok:
  "filter_keys rd cols q keys = Inr conds \<Longrightarrow>
     (\<forall>key\<in>set keys. \<exists>r. filter_key rd cols q key = Inr r \<and> set_option r \<subseteq> set conds) \<and>
     (\<forall>c\<in>set conds. \<exists>key\<in>set keys. filter_key rd cols q key = Inr (Some c))"
proof (induction keys arbitrary: conds)
  case (Cons key keys)
  then obtain r rest where r: "filter_key rd cols q key = Inr r" "filter_keys rd cols q keys = Inr rest"
    "conds = (case r of None \<Rightarrow> rest | Some c \<Rightarrow> c # rest)"
    by (auto split: sum.splits simp: map_sum_def)
  with Cons.IH [OF r(2)] show ?case by (fastforce split: option.splits)
qed simp

lemma normalizeFilterValue_op: "normalizeFilterValue rd col op raw = Inr v \<Longrightarrow> op \<in> set (fst (filterOps col))"
  by (simp add: normalizeFilterValue_def split: if_splits)

lemma FilterableIndex_filterable: "FilterableIndex cols name = Some c \<Longrightarrow> c \<in> set cols \<and> co_Filterable c \<and> co_QueryName c = name"
  by (auto simp: FilterableIndex_def dest!: map_of_SomeD)


lemma parse_list_request_parts:
  assumes "parse_list_request rd q m = Inr lr"
  shows "rejected_keys q m = []" "Decode rd q m = (None, lq_assigned lr)" "Filters rd q m = Inr (lq_filters lr)"
    "Orders q m = Inr (lq_orders lr)" "Cursor rd q m = Inr (lq_cursor lr)" "\<not> (cu_paging (lq_cursor lr) \<and> lq_orders lr \<noteq> [])"
    "(lq_page lr, lq_size lr) = Pagination q m"
  using assms
  by (auto simp: parse_list_request_def decodeListQuery_def checkCursorOrderConflict_def split: prod.splits option.splits sum.splits if_splits)

lemma q_Get_single: "distinct (map fst q) \<Longrightarrow> (key, [v]) \<in> set q \<Longrightarrow> q_Get q key = v"
  by (simp add: q_Get_def q_values_def)

lemma splitFilterKey_iff:
  "splitFilterKey key = Some (field, tok) \<longleftrightarrow>
     key = field @ ''['' @ tok @ '']'' \<and> field \<noteq> [] \<and> tok \<noteq> [] \<and>
     CHR ''['' \<notin> set field \<and> CHR '']'' \<notin> set field \<and> CHR ''['' \<notin> set tok \<and> CHR '']'' \<notin> set tok"
proof
  assume s: "splitFilterKey key = Some (field, tok)"
  let ?f = "takeWhile (\<lambda>c. c \<noteq> CHR ''['') key" and ?r = "drop (length (takeWhile (\<lambda>c. c \<noteq> CHR ''['') key) + 1) key"
  have h: "field = ?f" "tok = butlast ?r" "length ?f \<noteq> length key" "field \<noteq> []" "key \<noteq> []" "last key = CHR '']''" "tok \<noteq> []"
    "CHR '']'' \<notin> set field" "CHR ''['' \<notin> set tok" "CHR '']'' \<notin> set tok"
    using s by (auto simp: splitFilterKey_def Let_def split: if_splits)
  have "dropWhile (\<lambda>c. c \<noteq> CHR ''['') key \<noteq> []" using h(3) by (metis append_Nil2 takeWhile_dropWhile_id)
  with hd_dropWhile [OF this] obtain r where r: "dropWhile (\<lambda>c. c \<noteq> CHR ''['') key = CHR ''['' # r"
    by (cases "dropWhile (\<lambda>c. c \<noteq> CHR ''['') key") auto
  have key: "key = ?f @ CHR ''['' # r" unfolding r [symmetric] by simp
  then have "drop (length ?f + 1) key = r" by (metis Suc_eq_plus1 append_eq_conv_conj drop_Suc list.sel(3) tl_drop)
  with key have "key = ?f @ CHR ''['' # ?r" by simp
  moreover have "?r \<noteq> []" using h(2,7) by auto
  ultimately have "key = field @ CHR ''['' # tok @ [last ?r]" "last ?r = last key"
    using h(1,2) by (metis append_butlast_last_id, metis last_append last_ConsR list.distinct(1))
  then show "key = field @ ''['' @ tok @ '']'' \<and> field \<noteq> [] \<and> tok \<noteq> [] \<and>
     CHR ''['' \<notin> set field \<and> CHR '']'' \<notin> set field \<and> CHR ''['' \<notin> set tok \<and> CHR '']'' \<notin> set tok"
    using h set_takeWhileD [of "CHR ''[''" "\<lambda>c. c \<noteq> CHR ''[''" key] by auto
next
  assume k: "key = field @ ''['' @ tok @ '']'' \<and> field \<noteq> [] \<and> tok \<noteq> [] \<and>
     CHR ''['' \<notin> set field \<and> CHR '']'' \<notin> set field \<and> CHR ''['' \<notin> set tok \<and> CHR '']'' \<notin> set tok"
  then have "takeWhile (\<lambda>c. c \<noteq> CHR ''['') key = field" by (auto simp: takeWhile_append)
  with k show "splitFilterKey key = Some (field, tok)" by (simp add: splitFilterKey_def Let_def butlast_append)
qed

lemma ParseFilterOp_token [simp]: "ParseFilterOp (op_token p) = Some p"
  by (cases p) (simp_all add: ParseFilterOp_def FilterOps_def)

lemma ParseFilterOp_iff: "ParseFilterOp s = Some p \<longleftrightarrow> s = op_token p"
proof
  assume "ParseFilterOp s = Some p"
  then have "(s, p) \<in> set (map (\<lambda>p. (op_token p, p)) FilterOps)" unfolding ParseFilterOp_def by (rule map_of_SomeD)
  then show "s = op_token p" by auto
qed simp

text \<open>A model with a title and an age, filtered by both.\<close>

definition sample_readers :: readers where
  "sample_readers = \<lparr>rd_float = \<lambda>_ _. False, rd_time = \<lambda>_. None, rd_timeOfDay = \<lambda>_. None\<rparr>"

definition sample_column :: "string \<Rightarrow> string \<Rightarrow> nat \<Rightarrow> column" where
  "sample_column name dt i =
     \<lparr>co_GoName = name, co_QueryName = name, co_DBName = name, co_timeOfDay = False, co_nullable = False, co_dataType = dt,
      co_gormDataType = dt, co_Index = [i], co_Filterable = True, co_NotNull = True, co_PrimaryKey = False\<rparr>"

definition sample_model :: model_info where
  "sample_model =
     \<lparr>mi_type = PointerTo (StructOf [GoField ''title'' ''title'' False True (Scalar KString), GoField ''age'' ''age'' False True (Scalar (KInt 64))]),
      mi_columns = [sample_column ''age'' ''int'' 1, sample_column ''title'' ''string'' 0], mi_indexes = [], mi_queryable = True,
      mi_paginatable = True, mi_cursorable = False\<rparr>"

definition sample_query :: query where
  "sample_query = [(''age[gt]'', [''20'']), (''title'', [''a''])]"

lemma sample_accepted: "\<exists>lr. parse_list_request sample_readers sample_query sample_model = Inr lr"
proof -
  have "\<not> isl (parse_list_request sample_readers sample_query sample_model)" by code_simp
  then show ?thesis by (cases "parse_list_request sample_readers sample_query sample_model") auto
qed

section \<open>Properties\<close>

text \<open>
  C7: nothing a list request asks for is dropped. When the request is accepted, every key it gives one
  non-empty value is put to use: an operator key or a bare framework timestamp becomes a condition of that
  operator, with its checked value, on the column clients name so; any other key is parsed into the
  model's field that carries it, or is the batch size of a feed. A mistyped or hidden name therefore
  fails the request, and never widens it.
\<close>

theorem list_request_drops_nothing:
  assumes "parse_list_request rd q m = Inr lr" "distinct (map fst q)" "(key, [v]) \<in> set q" "v \<noteq> []"
  shows "if isFilterQueryKey key
    then (\<exists>field op col c. filter_target key = Inr (field, op) \<and> FilterableIndex (mi_columns m) field = Some col \<and>
        c \<in> set (lq_filters lr) \<and> fc_column c = co_DBName col \<and> fc_op c = op \<and> normalizeFilterValue rd col op v = Inr (fc_value c))
    else (\<exists>fd x. decodePlanOf (mi_type m) (mi_columns m) key = Some fd \<and> assign_scalar rd (de_kind fd) v = Some x \<and>
        (de_index fd, x) \<in> set (lq_assigned lr)) \<or> key = QuerySize \<and> mi_cursorable m"
proof (cases "isFilterQueryKey key")
  case True
  note parts = parse_list_request_parts [OF assms(1)]
  let ?keys = "filter isFilterQueryKey (map fst q)"
  have key: "key \<in> set ?keys" using True assms(3) by force
  then have "filter_keys rd (mi_columns m) q (sort ?keys) = Inr (lq_filters lr)"
    using parts(3) by (auto simp: Filters_def Let_def split: if_splits)
  from filter_keys_ok [OF this] key obtain r where r: "filter_key rd (mi_columns m) q key = Inr r" "set_option r \<subseteq> set (lq_filters lr)"
    by (auto simp: ball_Un)
  with True q_Get_single [OF assms(2,3)] assms(4) show ?thesis
    by (auto simp: filter_key_def Let_def split: sum.splits prod.splits option.splits if_splits)
next
  case False
  note parts = parse_list_request_parts [OF assms(1)]
  let ?plan = "decodePlanOf (mi_type m) (mi_columns m)"
  let ?part = "decode_key rd ?plan (mi_paginatable m) (key, [v]) no_decoding"
  let ?parts = "map (\<lambda>kv. decode_key rd ?plan (mi_paginatable m) kv no_decoding) q"
  have mem: "?part \<in> set ?parts" using assms(3) by (rule image_eqI [OF refl, of _ "set q", simplified set_map [symmetric]])
  have none: "concat (map dg_unsupported ?parts) = []" "concat (map dg_invalid ?parts) = []" and all: "lq_assigned lr = concat (map dg_assigned ?parts)"
    using parts(2) by (auto simp: Decode_eq Let_def split: if_splits)
  have "dg_unsupported ?part = []" by (rule concat_map_Nil [OF none(1) mem])
  moreover have "dg_invalid ?part = []" by (rule concat_map_Nil [OF none(2) mem])
  moreover have "set (dg_assigned ?part) \<subseteq> set (lq_assigned lr)" unfolding all by (rule concat_map_member [OF mem])
  moreover have "mi_paginatable m \<or> mi_cursorable m" if "key = QuerySize"
    using parts(1) that assms(3) by (force simp: rejected_keys_def matchQueryKeys_def filter_empty_conv split: if_splits)
  ultimately show ?thesis
    using False assms(4) by (auto simp: decode_key_def no_decoding_def split: option.splits if_splits)
qed

theorem list_request_drops_nothing_witness:
  "\<exists>lr c. parse_list_request sample_readers sample_query sample_model = Inr lr \<and> c \<in> set (lq_filters lr) \<and>
     fc_column c = ''age'' \<and> fc_op c = FilterOpGt"
proof -
  obtain lr where lr: "parse_list_request sample_readers sample_query sample_model = Inr lr" using sample_accepted by blast
  have "distinct (map fst sample_query)" "(''age[gt]'', [''20'']) \<in> set sample_query" by (simp_all add: sample_query_def)
  from list_request_drops_nothing [OF lr this] obtain field op col c where c:
    "filter_target ''age[gt]'' = Inr (field, op)" "FilterableIndex (mi_columns sample_model) field = Some col"
    "c \<in> set (lq_filters lr)" "fc_column c = co_DBName col" "fc_op c = op"
    by (auto simp: isFilterQueryKey_def isFilterKey_def)
  moreover have "filter_target ''age[gt]'' = Inr (''age'', FilterOpGt)" by code_simp
  moreover have "co_DBName (the (FilterableIndex (mi_columns sample_model) ''age'')) = ''age''" by code_simp
  ultimately show ?thesis using lr by auto
qed

text \<open>
  A filter reaches only what clients may filter on. Every condition an accepted request leads to comes
  from one of its keys, is on a column with a URL name that is not hidden from clients, and uses an
  operator the column's type takes: a time, a boolean and a JSON document each have their own few.
\<close>

theorem filters_reach_filterable:
  assumes "Filters rd q m = Inr conds" "c \<in> set conds"
  shows "mi_queryable m \<and>
    (\<exists>key col. q_Has q key \<and> isFilterQueryKey key \<and> col \<in> set (mi_columns m) \<and> co_Filterable col \<and> fc_column c = co_DBName col \<and>
       fc_op c \<in> set (fst (filterOps col)) \<and> normalizeFilterValue rd col (fc_op c) (q_Get q key) = Inr (fc_value c))"
proof -
  let ?keys = "filter isFilterQueryKey (map fst q)"
  have q: "?keys \<noteq> []" "mi_queryable m" "filter_keys rd (mi_columns m) q (sort ?keys) = Inr conds"
    using assms by (auto simp: Filters_def Let_def split: if_splits)
  from filter_keys_ok [OF q(3)] assms(2) obtain key where "key \<in> set (sort ?keys)" "filter_key rd (mi_columns m) q key = Inr (Some c)"
    by blast
  then have key: "key \<in> set ?keys" "filter_key rd (mi_columns m) q key = Inr (Some c)" by simp_all
  from key(2) obtain field op col where col: "FilterableIndex (mi_columns m) field = Some col" "fc_column c = co_DBName col" "fc_op c = op"
    "normalizeFilterValue rd col op (q_Get q key) = Inr (fc_value c)"
    by (auto simp: filter_key_def Let_def split: sum.splits prod.splits option.splits if_splits)
  show ?thesis
    using q(2) key(1) col FilterableIndex_filterable [OF col(1)] normalizeFilterValue_op [OF col(4)] by (auto simp: q_Has_def)
qed

theorem filters_reach_filterable_witness:
  "\<exists>conds c. Filters sample_readers sample_query sample_model = Inr conds \<and> c \<in> set conds \<and>
     (\<exists>col\<in>set (mi_columns sample_model). co_Filterable col \<and> fc_column c = co_DBName col)"
proof -
  have "Filters sample_readers sample_query sample_model = Inr [\<lparr>fc_column = ''age'', fc_op = FilterOpGt, fc_value = VStr ''20''\<rparr>]"
    by code_simp
  from this filters_reach_filterable [OF this, of "\<lparr>fc_column = ''age'', fc_op = FilterOpGt, fc_value = VStr ''20''\<rparr>"] show ?thesis
    by fastforce
qed

text \<open>
  C36: the syntax of a filter key is unambiguous. A field and an operator are read back exactly from the key
  that joins them, and every operator key that is accepted joins exactly the field and the operator read
  from it.
\<close>

theorem filter_key_roundtrip:
  assumes "isFilterKey key"
  shows "filter_target key = Inr (field, op) \<longleftrightarrow>
    key = field @ ''['' @ op_token op @ '']'' \<and> field \<noteq> [] \<and> CHR ''['' \<notin> set field \<and> CHR '']'' \<notin> set field"
proof -
  have tok: "op_token op \<noteq> [] \<and> CHR ''['' \<notin> set (op_token op) \<and> CHR '']'' \<notin> set (op_token op)" by (cases op) simp_all
  have "filter_target key = Inr (field, op) \<longleftrightarrow> splitFilterKey key = Some (field, op_token op)"
    using assms by (auto simp: filter_target_def split: option.splits dest: ParseFilterOp_iff [THEN iffD1])
  with tok show ?thesis by (simp add: splitFilterKey_iff)
qed

theorem filter_key_roundtrip_witness:
  "filter_target ''created_at[notin]'' = Inr (''created_at'', FilterOpNotIn)"
  by (rule filter_key_roundtrip [THEN iffD2]) (simp_all add: isFilterKey_def)

text \<open>
  C37: decoding is type safe. Every value \<open>Decode\<close> assigns goes to a field the model's struct has at that
  path, through embedded structs and pointers, of a scalar type, and is a value of that type: an integer
  within the width of the field, never one cut to it.
\<close>

theorem decode_well_typed:
  assumes "Decode rd q m = (err, assigned)" "(index, x) \<in> set assigned"
  shows "\<exists>t k. structFieldAlong (deref (mi_type m)) index = Some t \<and> field_scalar t = Some k \<and> fits k x"
proof -
  let ?plan = "decodePlanOf (mi_type m) (mi_columns m)"
  obtain kv where "(index, x) \<in> set (dg_assigned (decode_key rd ?plan (mi_paginatable m) kv no_decoding))"
    using assms by (auto simp: Decode_eq Let_def)
  then obtain key fd raw where "?plan key = Some fd" "de_index fd = index" "assign_scalar rd (de_kind fd) raw = Some x"
    by (cases kv) (auto simp: decode_key_def no_decoding_def split: option.splits if_splits)
  with decodePlanOf_typed [of "mi_type m" "mi_columns m"] assign_scalar_fits show ?thesis
    by (fastforce simp: plan_typed_def)
qed

theorem decode_well_typed_witness:
  "\<exists>t k. structFieldAlong (deref (mi_type sample_model)) [0] = Some t \<and> field_scalar t = Some k \<and> fits k (GStr ''a'')"
proof -
  have d: "snd (Decode sample_readers sample_query sample_model) = [([0], GStr ''a'')]" by code_simp
  show ?thesis
    by (rule decode_well_typed [OF prod.collapse [symmetric], of _ _ sample_readers sample_query sample_model]) (simp add: d)
qed

text \<open>
  Pages are bounded. Whatever a request says, the page is at least the first, and the size is at least
  one row and at most a hundred where the client chooses it, a thousand where it does not; a request that
  reads a feed through a cursor starts no page past the first and carries no other order.
\<close>

theorem page_bounds:
  "(let (page, sz) = Pagination q m
    in 1 \<le> page \<and> 1 \<le> sz \<and> sz \<le> (if mi_paginatable m \<or> mi_cursorable m then 100 else 1000) \<and> (cursorRequested q m \<longrightarrow> page = 1)) \<and>
   (parse_list_request rd q m = Inr lr \<longrightarrow> cu_paging (lq_cursor lr) \<longrightarrow> lq_orders lr = [] \<and> lq_page lr = 1 \<and> lq_size lr \<le> 100)"
proof -
  have one: "cursorRequested q m \<Longrightarrow> fst (Pagination q m) = 1 \<and> snd (Pagination q m) \<le> 100"
    by (auto simp: Pagination_def Let_def DefaultPageSize_def MaxPageSize_def cursorRequested_def)
  have "cursorRequested q m" if "Cursor rd q m = Inr c" "cu_paging c" for c
    using that by (auto simp: Cursor_def no_cursor_def split: if_splits)
  with one parse_list_request_parts [of rd q m lr]
  have "parse_list_request rd q m = Inr lr \<longrightarrow> cu_paging (lq_cursor lr) \<longrightarrow> lq_orders lr = [] \<and> lq_page lr = 1 \<and> lq_size lr \<le> 100"
    by (metis fst_conv snd_conv)
  then show ?thesis by (auto simp: Pagination_def Let_def DefaultPageSize_def MaxPageSize_def uq_defaultLimit_def)
qed

theorem page_bounds_witness:
  "snd (Pagination [(QuerySize, [''5000''])] sample_model) \<le> 100 \<and> 1 \<le> fst (Pagination [(QuerySize, [''5000''])] sample_model)"
proof -
  have "mi_paginatable sample_model" by (simp add: sample_model_def)
  with page_bounds [of "[(QuerySize, [''5000''])]" sample_model, THEN conjunct1] show ?thesis
    by (cases "Pagination [(QuerySize, [''5000''])] sample_model") simp
qed

end
