(* ===== verification/Paging.thy ===== *)
theory Paging
  imports Urlquery "HOL-Library.Multiset"
begin

text \<open>
  Paging in the database layer, \<^verbatim>\<open>src/database/query_options.go\<close>: the options of a chain that decide the
  order and the window of a \<open>List\<close>, the completion of an order to a total one, and the read itself,
  \<^verbatim>\<open>src/database/read.go\<close>, which turns the rows of a backward page around again. What the database makes of a
  statement is stated as SQL does: the rows that pass the condition, in any arrangement the ORDER BY
  allows, cut to the window. Columns are read from a row by \<open>val\<close>, and \<open>bind\<close> is the value a cursor's text
  compares as. Hooks, dry runs and other options are left out; pages and sizes are 64-bit integers.
\<close>

section \<open>The chain\<close>

record db_order =
  od_table :: string
  od_column :: string
  od_direction :: OrderDirection

datatype chain_error = ErrCursorWithOrder | ErrColumnTable string | ErrSharedCursorColumn string

record db_cursor =
  dk_order :: db_order
  dk_value :: string
  dk_backward :: bool
  dk_paging :: bool

definition dk_none :: db_cursor where
  "dk_none = \<lparr>dk_order = \<lparr>od_table = [], od_column = [], od_direction = OrderAsc\<rparr>, dk_value = [], dk_backward = False, dk_paging = False\<rparr>"

text \<open>The chain: its orders and cursor, and what has been put on the statement so far.\<close>

record chain =
  ch_orders :: "db_order list"
  ch_cursor :: db_cursor
  ch_paginated :: bool
  ch_err :: "chain_error option"
  ch_sqlOrder :: "order_term list"
  ch_where :: "(string \<times> bool \<times> string) option"
  ch_offset :: int
  ch_limit :: int

definition db_defaultLimit :: int where "db_defaultLimit = - 1"

definition new_chain :: chain where
  "new_chain = \<lparr>ch_orders = [], ch_cursor = dk_none, ch_paginated = False, ch_err = None, ch_sqlOrder = [], ch_where = None,
     ch_offset = - 1, ch_limit = db_defaultLimit\<rparr>"

text \<open>The model a chain reads: its table, its columns and its index declarations.\<close>

record db_model =
  dm_table :: string
  dm_columns :: "column list"
  dm_indexes :: "index_declaration list"

definition ownOrder :: "db_model \<Rightarrow> db_order \<Rightarrow> chain_error option" where
  "ownOrder m order = (if od_table order \<noteq> [] \<and> od_table order \<noteq> dm_table m then Some (ErrColumnTable (od_column order)) else None)"

definition identifyingCursorColumn :: "db_model \<Rightarrow> string \<Rightarrow> chain_error option" where
  "identifyingCursorColumn m col =
     (if col \<in> IdentifyingColumns (dm_columns m) (dm_indexes m) then None else Some (ErrSharedCursorColumn col))"

definition WithCursor :: "db_model \<Rightarrow> db_cursor \<Rightarrow> chain \<Rightarrow> chain" where
  "WithCursor m cursor ch =
     (if \<not> dk_paging cursor then ch
      else if ch_orders ch \<noteq> [] then ch\<lparr>ch_err := Some ErrCursorWithOrder\<rparr>
      else case ownOrder m (dk_order cursor) of
        Some err \<Rightarrow> ch\<lparr>ch_err := Some err\<rparr>
      | None \<Rightarrow>
          (let cur = (if od_column (dk_order cursor) = [] then cursor\<lparr>dk_order := (dk_order cursor)\<lparr>od_column := DefaultCursorColumn\<rparr>\<rparr> else cursor)
           in case identifyingCursorColumn m (od_column (dk_order cur)) of
                Some err \<Rightarrow> ch\<lparr>ch_err := Some err\<rparr>
              | None \<Rightarrow> ch\<lparr>ch_cursor := cur\<rparr>))"

fun WithOrder :: "db_model \<Rightarrow> db_order list \<Rightarrow> chain \<Rightarrow> chain" where
  "WithOrder m [] ch = ch"
| "WithOrder m (order # orders) ch =
     (if od_column order = [] then WithOrder m orders ch
      else if dk_paging (ch_cursor ch) then ch\<lparr>ch_err := Some ErrCursorWithOrder\<rparr>
      else case ownOrder m order of
        Some err \<Rightarrow> ch\<lparr>ch_err := Some err\<rparr>
      | None \<Rightarrow>
          WithOrder m orders (ch\<lparr>ch_sqlOrder := ch_sqlOrder ch @ [(od_column order, od_direction order)], ch_orders := ch_orders ch @ [order]\<rparr>))"

text \<open>The product of the page and the size wraps around at 64 bits.\<close>

definition WithPagination :: "int \<Rightarrow> int \<Rightarrow> chain \<Rightarrow> chain" where
  "WithPagination page0 size0 ch =
     (let page = (if page0 \<le> 0 then 1 else page0);
          sz = (if size0 \<le> 0 then db_defaultLimit else size0);
          offset = signed_take_bit 63 ((page - 1) * sz)
      in ch\<lparr>ch_paginated := True, ch_offset := (if offset \<le> 0 then - 1 else offset), ch_limit := sz\<rparr>)"

definition WithLimit :: "int \<Rightarrow> chain \<Rightarrow> chain" where
  "WithLimit limit ch = ch\<lparr>ch_limit := (if limit \<le> 0 then db_defaultLimit else limit)\<rparr>"

section \<open>The statement of a List\<close>

definition applyCursorPagination :: "chain \<Rightarrow> chain" where
  "applyCursorPagination ch =
     (let cur = ch_cursor ch
      in if \<not> dk_paging cur then ch
         else
           (let direction = (if dk_backward cur then Flip (od_direction (dk_order cur)) else od_direction (dk_order cur));
                col = od_column (dk_order cur);
                ch' = (if dk_value cur \<noteq> [] then ch\<lparr>ch_where := Some (col, direction = OrderAsc, dk_value cur)\<rparr> else ch)
            in ch'\<lparr>ch_sqlOrder := ch_sqlOrder ch @ [(col, direction)]\<rparr>))"

definition completeOrder :: "db_model \<Rightarrow> chain \<Rightarrow> chain" where
  "completeOrder m ch =
     (if \<not> ch_paginated ch \<or> dk_paging (ch_cursor ch) then ch
      else if list_ex (\<lambda>order. od_column order \<in> IdentifyingColumns (dm_columns m) (dm_indexes m)) (ch_orders ch) then ch
      else
        (let direction = (if ch_orders ch = [] then OrderAsc else od_direction (last (ch_orders ch)))
         in ch\<lparr>ch_sqlOrder := ch_sqlOrder ch @ map (\<lambda>c. (co_DBName c, direction)) (filter co_PrimaryKey (dm_columns m))\<rparr>))"

section \<open>What SQL promises\<close>

fun in_order :: "(string \<Rightarrow> 'r \<Rightarrow> 'v::linorder) \<Rightarrow> order_term list \<Rightarrow> 'r \<Rightarrow> 'r \<Rightarrow> bool" where
  "in_order val [] r s = True"
| "in_order val ((c, d) # os) r s =
     (if val c r = val c s then in_order val os r s
      else if d = OrderAsc then val c r < val c s else val c s < val c r)"

definition passes :: "(string \<Rightarrow> 'r \<Rightarrow> 'v::linorder) \<Rightarrow> (string \<Rightarrow> 'v) \<Rightarrow> (string \<times> bool \<times> string) option \<Rightarrow> 'r \<Rightarrow> bool" where
  "passes val bind cond r =
     (case cond of None \<Rightarrow> True | Some (c, past, v) \<Rightarrow> if past then bind v < val c r else val c r < bind v)"

definition window :: "int \<Rightarrow> int \<Rightarrow> 'r list \<Rightarrow> 'r list" where
  "window offset limit xs =
     (let ys = (if offset \<le> 0 then xs else drop (nat offset) xs) in if limit < 0 then ys else take (nat limit) ys)"

definition answers_select :: "(string \<Rightarrow> 'r \<Rightarrow> 'v::linorder) \<Rightarrow> (string \<Rightarrow> 'v) \<Rightarrow> chain \<Rightarrow> 'r list \<Rightarrow> 'r list \<Rightarrow> bool" where
  "answers_select val bind ch rows out \<longleftrightarrow>
     (\<exists>xs. mset xs = mset (filter (passes val bind (ch_where ch)) rows) \<and> sorted_wrt (in_order val (ch_sqlOrder ch)) xs \<and>
        out = window (ch_offset ch) (ch_limit ch) xs)"

text \<open>\<open>List\<close>: the error of the chain, or rows the database may answer with, a backward page turned around.\<close>

definition db_List :: "(string \<Rightarrow> 'r \<Rightarrow> 'v::linorder) \<Rightarrow> (string \<Rightarrow> 'v) \<Rightarrow> db_model \<Rightarrow> chain \<Rightarrow> 'r list \<Rightarrow> chain_error + 'r list \<Rightarrow> bool" where
  "db_List val bind m ch rows result =
     (case ch_err ch of
        Some err \<Rightarrow> result = Inl err
      | None \<Rightarrow>
          (\<exists>out. answers_select val bind (completeOrder m (applyCursorPagination ch)) rows out \<and>
             result = Inr (if dk_paging (ch_cursor ch) \<and> dk_backward (ch_cursor ch) then rev out else out)))"

section \<open>Lemmas\<close>

lemma sorted_wrt_unique:
  assumes "mset xs = mset ys" "sorted_wrt R xs" "sorted_wrt R ys" "\<And>x y. x \<in> set xs \<Longrightarrow> y \<in> set xs \<Longrightarrow> R x y \<Longrightarrow> R y x \<Longrightarrow> x = y"
  shows "xs = ys"
  using assms
proof (induction xs arbitrary: ys)
  case (Cons x xs)
  then obtain y ys' where ys: "ys = y # ys'" by (cases ys) auto
  have set_eq: "set (x # xs) = set ys" using Cons.prems(1) by (metis set_mset_mset)
  have "x = y"
  proof (rule ccontr)
    assume ne: "x \<noteq> y"
    then have "x \<in> set ys'" "y \<in> set xs" using set_eq ys by auto
    then have "R y x" "R x y" using Cons.prems(2,3) ys by auto
    with Cons.prems(4) [of x y] \<open>y \<in> set xs\<close> ne show False by auto
  qed
  with Cons.prems ys have "mset xs = mset ys'" by simp
  with Cons ys \<open>x = y\<close> show ?case by auto
qed simp

lemma in_order_antisym: "in_order val os r s \<Longrightarrow> in_order val os s r \<Longrightarrow> (c, d) \<in> set os \<Longrightarrow> val c r = val c s"
  by (induction val os r s rule: in_order.induct) (auto split: if_splits)

text \<open>The rows in the order of a column no two of them share.\<close>

definition feed :: "(string \<Rightarrow> 'r \<Rightarrow> 'v::linorder) \<Rightarrow> string \<Rightarrow> OrderDirection \<Rightarrow> 'r list \<Rightarrow> 'r list" where
  "feed val c d rows = (if d = OrderAsc then sort_key (val c) rows else rev (sort_key (val c) rows))"

lemma feed_sorted:
  assumes "distinct rows" "inj_on (val c) (set rows)"
  shows "sorted_wrt (\<lambda>r s. if d = OrderAsc then val c r < val c s else val c s < val c r) (feed val c d rows)"
proof -
  have "sorted_wrt (<) (map (val c) (sort_key (val c) rows))"
    using assms by (simp add: strict_sorted_iff distinct_map)
  then have asc: "sorted_wrt (\<lambda>r s. val c r < val c s) (sort_key (val c) rows)" by (simp add: sorted_wrt_map)
  then have "sorted_wrt (\<lambda>r s. val c s < val c r) (rev (sort_key (val c) rows))" by (simp add: sorted_wrt_rev)
  with asc show ?thesis by (simp add: feed_def)
qed

lemma mset_feed [simp]: "mset (feed val c d rows) = mset rows"
  by (simp add: feed_def)

lemma set_feed [simp]: "set (feed val c d rows) = set rows"
  by (metis mset_feed set_mset_mset)

lemma feed_flip: "feed val c (Flip d) rows = rev (feed val c d rows)"
  by (cases d) (simp_all add: feed_def Flip_def)

lemma select_by_unique:
  assumes "distinct rows" "inj_on (val c) (set rows)" "mset xs = mset (filter P rows)" "sorted_wrt (in_order val [(c, d)]) xs"
  shows "xs = filter P (feed val c d rows)"
proof (rule sorted_wrt_unique [OF _ assms(4)])
  show "mset xs = mset (filter P (feed val c d rows))" using assms(3) by simp
  have "sorted_wrt (\<lambda>r s. if d = OrderAsc then val c r < val c s else val c s < val c r) (filter P (feed val c d rows))"
    by (rule sorted_wrt_filter [OF feed_sorted [of rows val c d]]) (use assms in auto)
  then show "sorted_wrt (in_order val [(c, d)]) (filter P (feed val c d rows))"
    by (rule sorted_wrt_mono_rel [rotated]) (auto split: if_splits)
  have sub: "set xs \<subseteq> set rows" using assms(3) by (metis filter_is_subset set_mset_mset)
  fix r s assume "r \<in> set xs" "s \<in> set xs" "in_order val [(c, d)] r s" "in_order val [(c, d)] s r"
  then have "val c r = val c s" "r \<in> set rows" "s \<in> set rows"
    using in_order_antisym [of val "[(c, d)]" r s c d] sub by (simp only: list.set insert_iff simp_thms, blast, blast)
  then show "r = s" by (rule inj_onD [OF assms(2)])
qed


lemma feed_in_order:
  assumes "distinct rows" "inj_on (val c) (set rows)"
  shows "sorted_wrt (in_order val [(c, d)]) (filter P (feed val c d rows))"
proof -
  have "sorted_wrt (\<lambda>r s. if d = OrderAsc then val c r < val c s else val c s < val c r) (filter P (feed val c d rows))"
    by (rule sorted_wrt_filter [OF feed_sorted [of rows val c d]]) (use assms in auto)
  then show ?thesis by (rule sorted_wrt_mono_rel [rotated]) (auto split: if_splits)
qed

text \<open>A page of a feed, as the list flow asks for it: the first page of a size, with a cursor.\<close>

definition feed_cursor :: "string \<Rightarrow> OrderDirection \<Rightarrow> string \<Rightarrow> bool \<Rightarrow> db_cursor" where
  "feed_cursor c d v back = \<lparr>dk_order = \<lparr>od_table = [], od_column = c, od_direction = d\<rparr>, dk_value = v, dk_backward = back, dk_paging = True\<rparr>"

definition past :: "(string \<Rightarrow> 'r \<Rightarrow> 'v::linorder) \<Rightarrow> (string \<Rightarrow> 'v) \<Rightarrow> string \<Rightarrow> OrderDirection \<Rightarrow> string \<Rightarrow> 'r \<Rightarrow> bool" where
  "past val bind c d v r \<longleftrightarrow> v = [] \<or> (if d = OrderAsc then bind v < val c r else val c r < bind v)"

lemma cursor_page:
  assumes "distinct rows" "inj_on (val c) (set rows)" "c \<in> IdentifyingColumns (dm_columns m) (dm_indexes m)" "c \<noteq> []" "0 < n"
  shows "db_List val bind m (WithCursor m (feed_cursor c d v back) (WithPagination 1 n new_chain)) rows result \<longleftrightarrow>
    result = Inr (if back then rev (take (nat n) (filter (past val bind c (Flip d) v) (rev (feed val c d rows))))
                  else take (nat n) (filter (past val bind c d v) (feed val c d rows)))"
proof -
  let ?d = "if back then Flip d else d"
  let ?ch = "WithCursor m (feed_cursor c d v back) (WithPagination 1 n new_chain)"
  let ?st = "completeOrder m (applyCursorPagination ?ch)"
  have ch: "ch_err ?ch = None" "dk_paging (ch_cursor ?ch)" "dk_backward (ch_cursor ?ch) = back"
    using assms(3,4) by (simp_all add: WithCursor_def feed_cursor_def ownOrder_def identifyingCursorColumn_def WithPagination_def new_chain_def dk_none_def)
  have st: "ch_where ?st = (if v = [] then None else Some (c, ?d = OrderAsc, v))" "ch_sqlOrder ?st = [(c, ?d)]" "ch_offset ?st = - 1" "ch_limit ?st = n"
    using assms(3-5)
    by (simp_all add: completeOrder_def applyCursorPagination_def Let_def WithCursor_def feed_cursor_def ownOrder_def identifyingCursorColumn_def
        WithPagination_def new_chain_def dk_none_def)
  have pass: "passes val bind (ch_where ?st) = past val bind c ?d v"
    unfolding st by (rule ext) (auto simp: passes_def past_def)
  have sel: "answers_select val bind ?st rows out \<longleftrightarrow> out = take (nat n) (filter (past val bind c ?d v) (feed val c ?d rows))" for out
  proof
    assume "answers_select val bind ?st rows out"
    then obtain xs where xs: "mset xs = mset (filter (past val bind c ?d v) rows)" "sorted_wrt (in_order val [(c, ?d)]) xs" "out = window (- 1) n xs"
      unfolding answers_select_def pass st(2-4) by blast
    from select_by_unique [OF assms(1,2) xs(1,2)] xs(3) assms(5) show "out = take (nat n) (filter (past val bind c ?d v) (feed val c ?d rows))"
      by (simp add: window_def)
  next
    assume "out = take (nat n) (filter (past val bind c ?d v) (feed val c ?d rows))"
    then show "answers_select val bind ?st rows out"
      unfolding answers_select_def pass st(2-4)
      using feed_in_order [of rows val c ?d "past val bind c ?d v"] assms(1,2,5)
      by (intro exI [of _ "filter (past val bind c ?d v) (feed val c ?d rows)"]) (simp add: window_def)
  qed
  show ?thesis
    using ch(2,3) unfolding db_List_def ch(1) option.case sel
    by (cases "back") (simp_all add: feed_flip)
qed

lemma in_order_total: "in_order val os r s \<or> in_order val os s r"
  by (induction val os r s rule: in_order.induct) auto

lemma in_order_trans: "in_order val os r s \<Longrightarrow> in_order val os s t \<Longrightarrow> in_order val os r t"
proof (induction val os r s arbitrary: t rule: in_order.induct)
  case (2 val c d os r s)
  show ?case
  proof (cases "val c r = val c s \<and> val c s = val c t")
    case True
    with 2 show ?thesis by auto
  next
    case False
    with 2 show ?thesis by (cases d) (auto split: if_splits dest: less_trans)
  qed
qed simp

lemma sorting_exists:
  assumes total: "\<And>x y. R x y \<or> R y x" and trans: "\<And>x y z. R x y \<Longrightarrow> R y z \<Longrightarrow> R x z"
  shows "\<exists>ys. mset ys = mset xs \<and> sorted_wrt R ys"
proof (induction xs)
  case (Cons x xs)
  then obtain ys where ys: "mset ys = mset xs" "sorted_wrt R ys" by blast
  let ?zs = "filter (\<lambda>y. R y x) ys @ x # filter (\<lambda>y. \<not> R y x) ys"
  have "mset ?zs = add_mset x (mset ys)" by (simp add: multiset_partition [symmetric])
  moreover have "sorted_wrt R ?zs"
    using ys(2) total trans by (auto simp: sorted_wrt_append sorted_wrt_filter) (metis total trans)+
  ultimately show ?case using ys(1) by (intro exI [of _ ?zs]) simp
qed simp

lemma WithOrder_eq:
  "\<forall>order\<in>set orders. od_table order = [] \<Longrightarrow> \<not> dk_paging (ch_cursor ch) \<Longrightarrow>
     WithOrder m orders ch =
       ch\<lparr>ch_sqlOrder := ch_sqlOrder ch @ map (\<lambda>order. (od_column order, od_direction order)) (filter (\<lambda>order. od_column order \<noteq> []) orders),
          ch_orders := ch_orders ch @ filter (\<lambda>order. od_column order \<noteq> []) orders\<rparr>"
  by (induction m orders ch rule: WithOrder.induct) (auto simp: ownOrder_def)

text \<open>The ORDER BY of a page, whichever the page.\<close>

definition page_order :: "db_model \<Rightarrow> db_order list \<Rightarrow> order_term list" where
  "page_order m orders = ch_sqlOrder (completeOrder m (WithOrder m orders (WithPagination 1 1 new_chain)))"

lemma page_statement:
  assumes "\<forall>order\<in>set orders. od_table order = []" "0 < sz" "1 \<le> page" "(page - 1) * sz < 2 ^ 63"
  shows "let st = completeOrder m (applyCursorPagination (WithOrder m orders (WithPagination page sz new_chain)))
    in ch_sqlOrder st = page_order m orders \<and> ch_where st = None \<and> ch_limit st = sz \<and>
       ch_offset st = (if page = 1 then - 1 else (page - 1) * sz) \<and>
       ch_err (WithOrder m orders (WithPagination page sz new_chain)) = None \<and>
       \<not> dk_paging (ch_cursor (WithOrder m orders (WithPagination page sz new_chain)))"
proof -
  have "0 \<le> (page - 1) * sz" using assms(2,3) by simp
  then have "signed_take_bit 63 ((page - 1) * sz) = (page - 1) * sz" using assms(4) by (intro signed_take_bit_int_eq_self) auto
  moreover have "0 < (page - 1) * sz" if "page \<noteq> 1" using that assms(2,3) by simp
  moreover have "page = 1 \<or> \<not> (page - 1) * sz \<le> 0" using assms(2,3) by (simp add: mult_le_0_iff)
  ultimately show ?thesis
    using assms(1-3)
    by (auto simp: Let_def page_order_def WithOrder_eq WithPagination_def new_chain_def dk_none_def applyCursorPagination_def completeOrder_def)
qed

lemma page_order_total:
  assumes "\<forall>order\<in>set orders. od_table order = []" "r \<in> set rows" "s \<in> set rows"
    "\<forall>c\<in>IdentifyingColumns (dm_columns m) (dm_indexes m). inj_on (val c) (set rows)"
    "\<forall>r\<in>set rows. \<forall>s\<in>set rows. (\<forall>c\<in>set (dm_columns m). co_PrimaryKey c \<longrightarrow> val (co_DBName c) r = val (co_DBName c) s) \<longrightarrow> r = s"
    "in_order val (page_order m orders) r s" "in_order val (page_order m orders) s r"
  shows "r = s"
proof -
  have eq: "val c r = val c s" if "(c, d) \<in> set (page_order m orders)" for c d using in_order_antisym [OF assms(6,7) that] .
  let ?ch = "WithOrder m orders (WithPagination 1 1 new_chain)"
  have ch: "ch_orders ?ch = filter (\<lambda>order. od_column order \<noteq> []) orders" "ch_paginated ?ch" "\<not> dk_paging (ch_cursor ?ch)"
    "ch_sqlOrder ?ch = map (\<lambda>order. (od_column order, od_direction order)) (filter (\<lambda>order. od_column order \<noteq> []) orders)"
    using assms(1) by (simp_all add: WithOrder_eq WithPagination_def new_chain_def dk_none_def)
  show ?thesis
  proof (cases "list_ex (\<lambda>order. od_column order \<in> IdentifyingColumns (dm_columns m) (dm_indexes m)) (ch_orders ?ch)")
    case True
    then obtain order where o1: "order \<in> set (ch_orders ?ch)" "od_column order \<in> IdentifyingColumns (dm_columns m) (dm_indexes m)"
      by (auto simp: list_ex_iff)
    have "page_order m orders = ch_sqlOrder ?ch" using True ch(2,3) by (simp add: page_order_def completeOrder_def)
    with o1(1) ch have "(od_column order, od_direction order) \<in> set (page_order m orders)" by auto
    from eq [OF this] show ?thesis using assms(2-4) o1(2) by (auto dest: inj_onD)
  next
    case False
    have "val (co_DBName c) r = val (co_DBName c) s" if "c \<in> set (dm_columns m)" "co_PrimaryKey c" for c
    proof -
      obtain d where "page_order m orders = ch_sqlOrder ?ch @ map (\<lambda>c. (co_DBName c, d)) (filter co_PrimaryKey (dm_columns m))"
        using False ch(2,3) by (auto simp: page_order_def completeOrder_def Let_def)
      then have "(co_DBName c, d) \<in> set (page_order m orders)" using that by auto
      from eq [OF this] show ?thesis .
    qed
    with assms(2,3,5) show ?thesis by blast
  qed
qed

text \<open>Of a sorted feed, what comes past its first rows is the rest.\<close>

lemma past_drop:
  assumes "distinct rows" "inj_on (val c) (set rows)" "acc \<noteq> []" "feed val c d rows = acc @ rest" "bind v = val c (last acc)" "v \<noteq> []"
  shows "filter (past val bind c d v) (feed val c d rows) = rest"
proof -
  let ?R = "\<lambda>r s. if d = OrderAsc then val c r < val c s else val c s < val c r"
  have s: "sorted_wrt ?R (acc @ rest)" using feed_sorted [of rows val c d] assms(1,2,4) by simp
  obtain acc' l where acc: "acc = acc' @ [l]" using assms(3) by (metis rev_exhaust)
  have "\<not> past val bind c d v r" if "r \<in> set acc" for r
    using s that assms(5,6) unfolding acc by (auto simp: past_def sorted_wrt_append split: if_splits)
  moreover have "past val bind c d v r" if "r \<in> set rest" for r
    using s that assms(5,6) unfolding acc by (auto simp: past_def sorted_wrt_append split: if_splits)
  ultimately show ?thesis unfolding assms(4) by (simp add: filter_empty_conv)
qed

section \<open>Properties\<close>

text \<open>Reading a feed: the first page, then page after page from the last row read.\<close>

inductive cursor_walk ::
  "(string \<Rightarrow> 'r \<Rightarrow> 'v::linorder) \<Rightarrow> (string \<Rightarrow> 'v) \<Rightarrow> db_model \<Rightarrow> string \<Rightarrow> OrderDirection \<Rightarrow> int \<Rightarrow> 'r list \<Rightarrow> 'r list \<Rightarrow> bool"
  for val bind m c d n rows where
  FirstPage: "db_List val bind m (WithCursor m (feed_cursor c d [] False) (WithPagination 1 n new_chain)) rows (Inr out) \<Longrightarrow>
    cursor_walk val bind m c d n rows out"
| NextPage: "cursor_walk val bind m c d n rows acc \<Longrightarrow> acc \<noteq> [] \<Longrightarrow> bind v = val c (last acc) \<Longrightarrow> v \<noteq> [] \<Longrightarrow>
    db_List val bind m (WithCursor m (feed_cursor c d v False) (WithPagination 1 n new_chain)) rows (Inr out) \<Longrightarrow>
    cursor_walk val bind m c d n rows (acc @ out)"

text \<open>
  C6: a feed has no holes. On a column no two rows share, reading page after page from the last row read
  gives the rows in the order of the feed, each exactly once: what has been read is a prefix of the feed,
  and a page is empty only once the feed is through. A page back from a row of the feed returns the rows
  just before it, as many as fit, in the feed's own order.
\<close>

theorem cursor_feed_complete:
  assumes "distinct rows" "inj_on (val c) (set rows)" "c \<in> IdentifyingColumns (dm_columns m) (dm_indexes m)" "c \<noteq> []" "0 < n"
    "cursor_walk val bind m c d n rows acc"
  shows "prefix acc (feed val c d rows) \<and>
    (acc \<noteq> [] \<longrightarrow> bind v = val c (last acc) \<longrightarrow> v \<noteq> [] \<longrightarrow>
      db_List val bind m (WithCursor m (feed_cursor c d v False) (WithPagination 1 n new_chain)) rows (Inr out) \<longrightarrow>
      (out = [] \<longleftrightarrow> acc = feed val c d rows)) \<and>
    (acc \<noteq> [] \<longrightarrow> bind v = val c (last acc) \<longrightarrow> v \<noteq> [] \<longrightarrow>
      db_List val bind m (WithCursor m (feed_cursor c d v True) (WithPagination 1 n new_chain)) rows (Inr out) \<longrightarrow>
      out = drop (length acc - 1 - nat n) (butlast acc))"
proof -
  note page = cursor_page [of rows val c m n, OF assms(1-5)]
  have pre: "prefix acc (feed val c d rows)"
    using assms(6)
  proof induction
    case (FirstPage out)
    have "filter (past val bind c d []) (feed val c d rows) = feed val c d rows" by (simp add: past_def)
    with FirstPage show ?case
      unfolding page by (simp add: take_is_prefix)
  next
    case (NextPage acc v out)
    then obtain rest where rest: "feed val c d rows = acc @ rest" by (auto simp: prefix_def)
    from NextPage(5) past_drop [of rows val c acc d rest bind v, OF assms(1,2) NextPage(2) rest NextPage(3,4)]
    have "out = take (nat n) rest" unfolding page by simp
    with rest show ?case by (simp add: take_is_prefix)
  qed
  then obtain rest where rest: "feed val c d rows = acc @ rest" by (auto simp: prefix_def)
  have fwd: "out = [] \<longleftrightarrow> acc = feed val c d rows"
    if "acc \<noteq> []" "bind v = val c (last acc)" "v \<noteq> []"
      "db_List val bind m (WithCursor m (feed_cursor c d v False) (WithPagination 1 n new_chain)) rows (Inr out)"
    using that(4) past_drop [of rows val c acc d rest bind v, OF assms(1,2) that(1) rest that(2,3)] assms(5) rest unfolding page by auto
  have bwd: "out = drop (length acc - 1 - nat n) (butlast acc)"
    if h: "acc \<noteq> []" "bind v = val c (last acc)" "v \<noteq> []"
      "db_List val bind m (WithCursor m (feed_cursor c d v True) (WithPagination 1 n new_chain)) rows (Inr out)"
  proof -
    obtain acc' l where acc: "acc = acc' @ [l]" using h(1) by (metis rev_exhaust)
    have f: "feed val c (Flip d) rows = (rev rest @ [l]) @ rev acc'" using rest acc by (simp add: feed_flip)
    have "filter (past val bind c (Flip d) v) (feed val c (Flip d) rows) = rev acc'"
      by (rule past_drop [of rows val c _ "Flip d" _ bind v, OF assms(1,2) _ f]) (use h acc in auto)
    with h(4) show ?thesis
      unfolding page by (simp add: feed_flip acc rev_take)
  qed
  from pre fwd bwd show ?thesis by blast
qed

definition key_column :: "string \<Rightarrow> column" where
  "key_column name =
     \<lparr>co_GoName = name, co_QueryName = name, co_DBName = name, co_timeOfDay = False, co_nullable = False, co_dataType = ''string'',
      co_gormDataType = ''string'', co_Index = [0], co_Filterable = True, co_NotNull = True, co_PrimaryKey = True\<rparr>"

definition keyed_model :: "string list \<Rightarrow> db_model" where
  "keyed_model names = \<lparr>dm_table = ''t'', dm_columns = map key_column names, dm_indexes = []\<rparr>"

lemma keyed_model_identifying [simp]: "IdentifyingColumns (dm_columns (keyed_model names)) (dm_indexes (keyed_model names)) = set names"
  by (auto simp: IdentifyingColumns_def keyed_model_def key_column_def comp_def)

theorem cursor_feed_complete_witness:
  "cursor_walk (\<lambda>c r. r) length (keyed_model [''id'']) ''id'' OrderAsc 2 [3, 1, 2] [1, 2 :: nat] \<and>
   prefix [1, 2 :: nat] (feed (\<lambda>c r. r) ''id'' OrderAsc [3, 1, 2])"
proof -
  have u: "distinct [3, 1, 2 :: nat]" "inj_on (\<lambda>r. r) (set [3, 1, 2 :: nat])"
    "''id'' \<in> IdentifyingColumns (dm_columns (keyed_model [''id''])) (dm_indexes (keyed_model [''id'']))" "''id'' \<noteq> []" "0 < (2 :: int)"
    by (simp_all add: inj_on_def)
  have w: "cursor_walk (\<lambda>c r. r) length (keyed_model [''id'']) ''id'' OrderAsc 2 [3, 1, 2] [1, 2 :: nat]"
    by (rule FirstPage, subst cursor_page [where val = "\<lambda>c r. r", OF u]) (simp add: feed_def past_def)
  with cursor_feed_complete [where val = "\<lambda>c r. r", OF u w] show ?thesis by blast
qed

text \<open>
  The columns of a key of several columns are each taken for one no two rows share: a feed by the first of
  them loses the rows that share its value with the last row of a page.
\<close>

lemma composite_key_feed_hole:
  "let val = (\<lambda>c r. if c = ''kind'' then fst r else snd r); rows = [(1, 1), (1, 2 :: nat)]; m = keyed_model [''kind'', ''id'']
   in cursor_walk val (\<lambda>_. 1) m ''kind'' OrderAsc 1 rows [(1, 1)] \<and>
      (\<forall>result. db_List val (\<lambda>_. 1) m (WithCursor m (feed_cursor ''kind'' OrderAsc ''1'' False) (WithPagination 1 1 new_chain)) rows result \<longrightarrow>
         result = Inr [])"
proof -
  let ?val = "\<lambda>c (r :: nat \<times> nat). if c = ''kind'' then fst r else snd r"
  let ?m = "keyed_model [''kind'', ''id'']"
  have id: "identifyingCursorColumn ?m ''kind'' = None" by (simp add: identifyingCursorColumn_def)
  note defs = WithCursor_def feed_cursor_def ownOrder_def WithPagination_def new_chain_def dk_none_def db_List_def applyCursorPagination_def
    completeOrder_def answers_select_def window_def Let_def passes_def
  have "db_List ?val (\<lambda>_. 1) ?m (WithCursor ?m (feed_cursor ''kind'' OrderAsc [] False) (WithPagination 1 1 new_chain)) [(1, 1), (1, 2)] (Inr [(1, 1)])"
    by (simp add: defs id) (rule exI [of _ "[(1, 1), (1, 2)]"], simp)
  then have "cursor_walk ?val (\<lambda>_. 1) ?m ''kind'' OrderAsc 1 [(1, 1), (1, 2)] [(1, 1)]" by (rule FirstPage)
  then show ?thesis unfolding Let_def by (simp add: defs id)
qed

text \<open>
  Numbered pages hold still. Whatever order is asked for, or none, every page the database answers
  is a window of one and the same arrangement of the rows: the pages of one size, put together, hold every
  row exactly once. It holds as long as the product of the page and the size fits 64 bits.
\<close>

theorem offset_pages_partition:
  assumes "\<forall>order\<in>set orders. od_table order = []" "0 < sz"
    "\<forall>c\<in>IdentifyingColumns (dm_columns m) (dm_indexes m). inj_on (val c) (set rows)"
    "\<forall>r\<in>set rows. \<forall>s\<in>set rows. (\<forall>c\<in>set (dm_columns m). co_PrimaryKey c \<longrightarrow> val (co_DBName c) r = val (co_DBName c) s) \<longrightarrow> r = s"
  shows "\<exists>xs. mset xs = mset rows \<and>
    (\<forall>page result. 1 \<le> page \<longrightarrow> (page - 1) * sz < 2 ^ 63 \<longrightarrow>
      (db_List val bind m (WithOrder m orders (WithPagination page sz new_chain)) rows result \<longleftrightarrow>
       result = Inr (take (nat sz) (drop (nat ((page - 1) * sz)) xs))))"
proof -
  let ?R = "in_order val (page_order m orders)"
  obtain xs where xs: "mset xs = mset rows" "sorted_wrt ?R xs"
    using sorting_exists [of ?R rows] in_order_total in_order_trans by metis
  have set_xs: "set xs = set rows" using xs(1) by (metis set_mset_mset)
  have uniq: "ys = xs" if "mset ys = mset rows" "sorted_wrt ?R ys" for ys
  proof (rule sorted_wrt_unique [OF _ that(2) xs(2)])
    show "mset ys = mset xs" using that(1) xs(1) by simp
    have "set ys = set rows" using that(1) by (metis set_mset_mset)
    then show "r = s" if "r \<in> set ys" "s \<in> set ys" "?R r s" "?R s r" for r s
      using page_order_total [OF assms(1) _ _ assms(3,4), of r s] that by simp
  qed
  have "db_List val bind m (WithOrder m orders (WithPagination page sz new_chain)) rows result \<longleftrightarrow>
       result = Inr (take (nat sz) (drop (nat ((page - 1) * sz)) xs))"
    if p: "1 \<le> page" "(page - 1) * sz < 2 ^ 63" for page result
  proof -
    let ?ch = "WithOrder m orders (WithPagination page sz new_chain)"
    let ?st = "completeOrder m (applyCursorPagination ?ch)"
    have st: "ch_sqlOrder ?st = page_order m orders" "ch_where ?st = None" "ch_limit ?st = sz" "ch_offset ?st = (if page = 1 then - 1 else (page - 1) * sz)"
      "ch_err ?ch = None" "\<not> dk_paging (ch_cursor ?ch)"
      using page_statement [OF assms(1,2) p, of m] by (simp_all add: Let_def)
    have w: "window (ch_offset ?st) (ch_limit ?st) ys = take (nat sz) (drop (nat ((page - 1) * sz)) ys)" for ys :: "'a list"
      using assms(2) p(1) unfolding st by (auto simp: window_def Let_def mult_le_0_iff)
    have "passes val bind None = (\<lambda>_. True)" by (rule ext) (simp add: passes_def)
    then have rows: "filter (passes val bind (ch_where ?st)) rows = rows" unfolding st(2) by simp
    have "answers_select val bind ?st rows out \<longleftrightarrow> out = take (nat sz) (drop (nat ((page - 1) * sz)) xs)" for out
      unfolding answers_select_def rows w st(1) using xs uniq by (metis (no_types))
    with st(5,6) show ?thesis by (simp add: db_List_def)
  qed
  with xs(1) show ?thesis by blast
qed

theorem offset_pages_partition_witness:
  "\<exists>xs. mset xs = mset [3, 1, 2 :: nat] \<and>
     db_List (\<lambda>c r. r) length (keyed_model [''id'']) (WithOrder (keyed_model [''id'']) [] (WithPagination 2 2 new_chain)) [3, 1, 2] (Inr (take 2 (drop 2 xs)))"
proof -
  obtain xs where xs: "mset xs = mset [3, 1, 2 :: nat]"
    "\<forall>page result. 1 \<le> page \<longrightarrow> (page - 1) * 2 < 2 ^ 63 \<longrightarrow>
      (db_List (\<lambda>c r. r) length (keyed_model [''id'']) (WithOrder (keyed_model [''id'']) [] (WithPagination page 2 new_chain)) [3, 1, 2] result \<longleftrightarrow>
       result = Inr (take (nat 2) (drop (nat ((page - 1) * 2)) xs)))"
    using offset_pages_partition [of "[]" 2 "keyed_model [''id'']" "\<lambda>c r. r" "[3, 1, 2 :: nat]" length]
    by (auto simp: keyed_model_def key_column_def inj_on_def)
  from xs(2) [rule_format, of 2 "Inr (take 2 (drop 2 xs))"] xs(1) show ?thesis by auto
qed

text \<open>Past that, the offset wraps around: of pages of sixteen rows, page \<open>2 ^ 60 + 1\<close> is the first page again.\<close>

lemma page_number_wraps: "WithPagination (2 ^ 60 + 1) 16 ch = WithPagination 1 16 ch"
  by (simp add: WithPagination_def signed_take_bit_eq_take_bit_minus take_bit_eq_mod)

end
