(* ===== verification/Db_Dialect.thy ===== *)
theory Db_Dialect
  imports Urlquery
begin

text \<open>
  Where the framework differs per database, \<^verbatim>\<open>src/database/dialect.go\<close>: the spelling of operators and
  functions, and the escaping of a value into a literal LIKE pattern. SQL is text, as the code builds
  it. What a LIKE pattern matches is SQL's definition of it; two characters a collation takes for the
  same are an argument, so that a case-insensitive comparison is covered.
\<close>

section \<open>Dialects\<close>

type_synonym dialect = string

definition dialectMySQL :: dialect where "dialectMySQL = ''mysql''"
definition dialectPostgres :: dialect where "dialectPostgres = ''postgres''"
definition dialectSQLite :: dialect where "dialectSQLite = ''sqlite''"
definition dialectClickHouse :: dialect where "dialectClickHouse = ''clickhouse''"

lemmas dialect_names = dialectMySQL_def dialectPostgres_def dialectSQLite_def dialectClickHouse_def

text \<open>The name the driver of a connection reports, \<open>None\<close> for no connection or no driver.\<close>

definition dialectOf :: "string option \<Rightarrow> dialect" where
  "dialectOf driver = (case driver of None \<Rightarrow> dialectMySQL | Some name \<Rightarrow> to_lower name)"

definition regexpOperator :: "dialect \<Rightarrow> string" where
  "regexpOperator d = (if d = dialectPostgres then ''~'' else ''REGEXP'')"

definition timeComparableExpr :: "dialect \<Rightarrow> string \<Rightarrow> string" where
  "timeComparableExpr d operand =
     (if d = dialectSQLite then ''strftime('' @ [CHR 0x27] @ ''%Y-%m-%d %H:%M:%f'' @ [CHR 0x27] @ '', '' @ operand @ '')''
      else operand)"

definition textPatternColumn :: "dialect \<Rightarrow> string \<Rightarrow> bool \<Rightarrow> string" where
  "textPatternColumn d quotedColumn cast =
     (if \<not> cast then quotedColumn
      else if d = dialectPostgres then ''CAST('' @ quotedColumn @ '' AS TEXT)''
      else if d = dialectClickHouse then ''toString('' @ quotedColumn @ '')''
      else quotedColumn)"

definition likeEscapeSuffix :: "dialect \<Rightarrow> string" where
  "likeEscapeSuffix d = (if d = dialectClickHouse then [] else '' ESCAPE '' @ [CHR 0x27, CHR ''|'', CHR 0x27])"

text \<open>The replacer of the code, one byte at a time: the escape character, \<open>%\<close> and \<open>_\<close> get one before them.\<close>

definition like_escaper :: "char \<Rightarrow> string \<Rightarrow> string" where
  "like_escaper e value = concat (map (\<lambda>c. if c = e \<or> c = CHR ''%'' \<or> c = CHR ''_'' then [e, c] else [c]) value)"

definition like_escape_char :: "dialect \<Rightarrow> char" where
  "like_escape_char d = (if d = dialectClickHouse then CHR 0x5C else CHR ''|'')"

definition escapeLikePattern :: "dialect \<Rightarrow> string \<Rightarrow> string" where
  "escapeLikePattern d value =
     (if d = dialectClickHouse then like_escaper (CHR 0x5C) value else like_escaper (CHR ''|'') value)"

datatype TimeBucket = TimeBucketNone | TimeBucketHour | TimeBucketDay | TimeBucketMonth

definition strftimeBucketFormat :: "TimeBucket \<Rightarrow> string" where
  "strftimeBucketFormat bucket =
     (case bucket of
        TimeBucketHour \<Rightarrow> ''%Y-%m-%d %H:00:00''
      | TimeBucketMonth \<Rightarrow> ''%Y-%m''
      | _ \<Rightarrow> ''%Y-%m-%d'')"

definition postgresBucketFormat :: "TimeBucket \<Rightarrow> string" where
  "postgresBucketFormat bucket =
     (case bucket of
        TimeBucketHour \<Rightarrow> ''YYYY-MM-DD HH24:00:00''
      | TimeBucketMonth \<Rightarrow> ''YYYY-MM''
      | _ \<Rightarrow> ''YYYY-MM-DD'')"

definition timeBucketExpr :: "dialect \<Rightarrow> string \<Rightarrow> TimeBucket \<Rightarrow> string" where
  "timeBucketExpr d quotedColumn bucket =
     (let quoted = (\<lambda>s. [CHR 0x27] @ s @ [CHR 0x27]) in
      if d = dialectPostgres then ''to_char('' @ quotedColumn @ '', '' @ quoted (postgresBucketFormat bucket) @ '')''
      else if d = dialectSQLite then ''strftime('' @ quoted (strftimeBucketFormat bucket) @ '', '' @ quotedColumn @ '')''
      else if d = dialectClickHouse then ''formatDateTime('' @ quotedColumn @ '', '' @ quoted (strftimeBucketFormat bucket) @ '')''
      else ''DATE_FORMAT('' @ quotedColumn @ '', '' @ quoted (strftimeBucketFormat bucket) @ '')'')"

section \<open>LIKE\<close>

text \<open>
  Whether a text matches a pattern: the escape character makes the next one literal, \<open>%\<close> stands for any
  run of characters and \<open>_\<close> for one. A pattern that ends in its escape character matches nothing.
\<close>

fun like_match :: "(char \<Rightarrow> char \<Rightarrow> bool) \<Rightarrow> char \<Rightarrow> string \<Rightarrow> string \<Rightarrow> bool" where
  "like_match same e [] t \<longleftrightarrow> t = []"
| "like_match same e (p # ps) [] \<longleftrightarrow> p = CHR ''%'' \<and> p \<noteq> e \<and> like_match same e ps []"
| "like_match same e (p # ps) (x # xs) \<longleftrightarrow>
     (if p = e then (case ps of [] \<Rightarrow> False | c # cs \<Rightarrow> same c x \<and> like_match same e cs xs)
      else if p = CHR ''%'' then like_match same e ps (x # xs) \<or> like_match same e (p # ps) xs
      else if p = CHR ''_'' then like_match same e ps xs
      else same p x \<and> like_match same e ps xs)"

lemma like_match_literal:
  assumes "e \<noteq> CHR ''%''" and "e \<noteq> CHR ''_''"
  shows "like_match same e (like_escaper e s @ ps) t
    \<longleftrightarrow> (\<exists>u v. t = u @ v \<and> list_all2 same s u \<and> like_match same e ps v)"
proof (induction s arbitrary: t)
  case Nil
  then show ?case by (simp add: like_escaper_def)
next
  case (Cons c s)
  have step: "like_match same e (like_escaper e (c # s) @ ps) t
    \<longleftrightarrow> (\<exists>x xs. t = x # xs \<and> same c x \<and> like_match same e (like_escaper e s @ ps) xs)"
    using assms by (cases t) (auto simp: like_escaper_def)
  show ?case unfolding step Cons.IH by (auto simp: list_all2_Cons1) (metis append_Cons, blast)
qed

lemma like_match_percent:
  assumes "e \<noteq> CHR ''%''"
  shows "like_match same e (CHR ''%'' # ps) t \<longleftrightarrow> (\<exists>u v. t = u @ v \<and> like_match same e ps v)"
proof (induction t)
  case Nil
  then show ?case using assms by simp
next
  case (Cons x xs)
  have "like_match same e (CHR ''%'' # ps) (x # xs)
    \<longleftrightarrow> like_match same e ps (x # xs) \<or> like_match same e (CHR ''%'' # ps) xs"
    using assms by simp
  also have "\<dots> \<longleftrightarrow> (\<exists>u v. x # xs = u @ v \<and> like_match same e ps v)"
    unfolding Cons.IH by (metis append_Cons append_Nil append_eq_Cons_conv list.inject)
  finally show ?case .
qed

text \<open>The text a value is found in: at its start, its end or anywhere, character by character.\<close>

definition occurs_at :: "bool \<Rightarrow> bool \<Rightarrow> (char \<Rightarrow> char \<Rightarrow> bool) \<Rightarrow> string \<Rightarrow> string \<Rightarrow> bool" where
  "occurs_at any_start any_end same value t \<longleftrightarrow>
     list_ex (\<lambda>i. (any_start \<or> i = 0) \<and> (any_end \<or> i + length value = length t)
         \<and> list_all2 same value (take (length value) (drop i t)))
       [0..<Suc (length t)]"

lemma occurs_at_iff:
  "occurs_at any_start any_end same value t \<longleftrightarrow>
     (\<exists>u w v. t = u @ w @ v \<and> list_all2 same value w \<and> (any_start \<or> u = []) \<and> (any_end \<or> v = []))"
proof
  assume "occurs_at any_start any_end same value t"
  then obtain i where "i \<in> set [0..<Suc (length t)]" and i: "(any_start \<or> i = 0)
      \<and> (any_end \<or> i + length value = length t) \<and> list_all2 same value (take (length value) (drop i t))"
    unfolding occurs_at_def list_ex_iff by (elim bexE)
  let ?w = "take (length value) (drop i t)" and ?v = "drop (length value) (drop i t)"
  have "t = take i t @ ?w @ ?v" by (simp del: drop_drop)
  moreover have "any_start \<or> take i t = []" "any_end \<or> ?v = []" using i by auto
  ultimately show "\<exists>u w v. t = u @ w @ v \<and> list_all2 same value w \<and> (any_start \<or> u = []) \<and> (any_end \<or> v = [])"
    using i by blast
next
  assume "\<exists>u w v. t = u @ w @ v \<and> list_all2 same value w \<and> (any_start \<or> u = []) \<and> (any_end \<or> v = [])"
  then obtain u w v where t: "t = u @ w @ v" "list_all2 same value w" "any_start \<or> u = []" "any_end \<or> v = []" by blast
  have "length w = length value" using t(2) by (simp add: list_all2_lengthD)
  then show "occurs_at any_start any_end same value t"
    using t by (auto simp: occurs_at_def list_ex_iff intro!: bexI [of _ "length u"])
qed

lemma like_match_prefix: "e \<noteq> CHR ''%'' \<Longrightarrow> like_match same e (CHR ''%'' # []) t"
  by (simp add: like_match_percent)

lemma like_match_occurs:
  assumes e: "e \<noteq> CHR ''%''" "e \<noteq> CHR ''_''"
  shows "like_match same e ((if a then ''%'' else []) @ like_escaper e s @ (if b then ''%'' else [])) t
    \<longleftrightarrow> occurs_at a b same s t"
proof -
  have tail: "like_match same e (like_escaper e s @ (if b then ''%'' else [])) t'
    \<longleftrightarrow> (\<exists>w v. t' = w @ v \<and> list_all2 same s w \<and> (b \<or> v = []))" for t'
    unfolding like_match_literal [OF e] by (cases b) (auto simp: like_match_prefix e)
  show ?thesis
  proof (cases a)
    case True
    have "like_match same e (CHR ''%'' # like_escaper e s @ (if b then ''%'' else [])) t
      \<longleftrightarrow> (\<exists>u v. t = u @ v \<and> (\<exists>w v'. v = w @ v' \<and> list_all2 same s w \<and> (b \<or> v' = [])))"
      unfolding like_match_percent [OF e(1)] tail ..
    then show ?thesis using True by (auto simp: occurs_at_iff)
  next
    case False
    then show ?thesis using tail [of t] by (auto simp: occurs_at_iff)
  qed
qed

lemma escapeLikePattern_char: "escapeLikePattern d s = like_escaper (like_escape_char d) s"
  by (simp add: escapeLikePattern_def like_escape_char_def)

lemma like_escape_char_plain [simp]: "like_escape_char d \<noteq> CHR ''%''" "like_escape_char d \<noteq> CHR ''_''"
  by (simp_all add: like_escape_char_def)

text \<open>
  A value escaped for a dialect and put between wildcards matches exactly the texts it occurs in,
  whatever wildcards or escape characters the value holds.
\<close>

lemma like_pattern_is_literal:
  "like_match same (like_escape_char d)
     ((if a then ''%'' else []) @ escapeLikePattern d s @ (if b then ''%'' else [])) t
   \<longleftrightarrow> occurs_at a b same s t"
  unfolding escapeLikePattern_char by (rule like_match_occurs) simp_all

end
