(* ===== verification/Db_Filter.thy ===== *)
theory Db_Filter
  imports Db_Dialect
begin

text \<open>
  The predicate engine of the database layer, \<^verbatim>\<open>src/database/filter.go\<close>: the one implementation that turns
  a tree of filters, \<^verbatim>\<open>src/internal/types/filter.go\<close> and \<^verbatim>\<open>subquery.go\<close>, into SQL. A rendered condition is
  kept as its parts; \<open>expr_SQL\<close> spells it as the code does. Its meaning is that of SQL's three-valued
  logic over rows, with what a database decides by itself, how two values compare or a regular
  expression matches, as a record of functions. Log entries and the wording of errors are left out; what
  an error is, and which filter it is about, is kept.
\<close>

section \<open>Values and filters\<close>

text \<open>
  A Go value as far as the renderer tells values apart. \<open>TimeVal\<close> is an instant in nanoseconds since the
  Unix epoch, \<open>TimeStruct\<close> a struct over one such as \<open>datatypes.Date\<close>; \<open>ValuerVal\<close> binds itself, and its
  flag says whether it is a slice or an array by kind. A related model is known by its table, the
  columns gorm resolves for it, if it can, and the column that marks its deleted rows.
\<close>

record related =
  rl_table :: string
  rl_columns :: "column list option"
  rl_deleted :: "string option"

datatype gval =
    NilVal | BoolVal bool | StringVal string | IntVal int | TimeVal int | TimeStruct int | BytesVal string
  | SliceVal "gval list" | ArrayVal "gval list" | ValuerVal bool string | PointerVal "gval option"
  | ColumnRef string string | FiltersVal "db_filter list" | SubqueryVal "related option" "db_filter list" bool
  | OtherVal string
and db_filter = Filter (f_Table: string) (f_Column: string) (f_Op: string) (f_Value: gval)

datatype any_op =
    UrlOp FilterOp | OpRegex | OpNotRegex | OpJSONContains | OpOr | OpAnd | OpExists | OpEqCol | OpFalse | OpUnknown

definition service_ops :: "(string \<times> any_op) list" where
  "service_ops =
     [(''regex'', OpRegex), (''notregex'', OpNotRegex), (''jsoncontains'', OpJSONContains), (''or'', OpOr),
      (''and'', OpAnd), (''exists'', OpExists), (''eqcol'', OpEqCol), (''false'', OpFalse)]"

definition op_case :: "string \<Rightarrow> any_op" where
  "op_case op =
     (case ParseFilterOp op of
        Some p \<Rightarrow> UrlOp p
      | None \<Rightarrow> (case map_of service_ops op of Some p \<Rightarrow> p | None \<Rightarrow> OpUnknown))"

definition FilterEq :: "string \<Rightarrow> gval \<Rightarrow> db_filter" where
  "FilterEq c v = Filter [] c ''eq'' v"

definition FilterNe :: "string \<Rightarrow> gval \<Rightarrow> db_filter" where
  "FilterNe c v = Filter [] c ''ne'' v"

definition FilterGt :: "string \<Rightarrow> gval \<Rightarrow> db_filter" where
  "FilterGt c v = Filter [] c ''gt'' v"

definition FilterGte :: "string \<Rightarrow> gval \<Rightarrow> db_filter" where
  "FilterGte c v = Filter [] c ''gte'' v"

definition FilterLt :: "string \<Rightarrow> gval \<Rightarrow> db_filter" where
  "FilterLt c v = Filter [] c ''lt'' v"

definition FilterLte :: "string \<Rightarrow> gval \<Rightarrow> db_filter" where
  "FilterLte c v = Filter [] c ''lte'' v"

definition FilterIn :: "string \<Rightarrow> gval list \<Rightarrow> db_filter" where
  "FilterIn c vs = Filter [] c ''in'' (SliceVal vs)"

definition FilterNotIn :: "string \<Rightarrow> gval list \<Rightarrow> db_filter" where
  "FilterNotIn c vs = Filter [] c ''notin'' (SliceVal vs)"

definition FilterLike :: "string \<Rightarrow> string \<Rightarrow> db_filter" where
  "FilterLike c v = Filter [] c ''like'' (StringVal v)"

definition FilterNotLike :: "string \<Rightarrow> string \<Rightarrow> db_filter" where
  "FilterNotLike c v = Filter [] c ''notlike'' (StringVal v)"

definition FilterStartsWith :: "string \<Rightarrow> string \<Rightarrow> db_filter" where
  "FilterStartsWith c v = Filter [] c ''startswith'' (StringVal v)"

definition FilterEndsWith :: "string \<Rightarrow> string \<Rightarrow> db_filter" where
  "FilterEndsWith c v = Filter [] c ''endswith'' (StringVal v)"

definition FilterIsNull :: "string \<Rightarrow> db_filter" where
  "FilterIsNull c = Filter [] c ''isnull'' (BoolVal True)"

definition FilterIsNotNull :: "string \<Rightarrow> db_filter" where
  "FilterIsNotNull c = Filter [] c ''isnull'' (BoolVal False)"

definition FilterRegex :: "string \<Rightarrow> string \<Rightarrow> db_filter" where
  "FilterRegex c expr = Filter [] c ''regex'' (StringVal expr)"

definition FilterNotRegex :: "string \<Rightarrow> string \<Rightarrow> db_filter" where
  "FilterNotRegex c expr = Filter [] c ''notregex'' (StringVal expr)"

definition FilterJSONContains :: "string \<Rightarrow> string \<Rightarrow> db_filter" where
  "FilterJSONContains c v = Filter [] c ''jsoncontains'' (StringVal v)"

definition FilterFalse :: db_filter where
  "FilterFalse = Filter [] [] ''false'' NilVal"

definition FilterOr :: "db_filter list \<Rightarrow> db_filter" where
  "FilterOr fs = Filter [] [] ''or'' (FiltersVal fs)"

definition FilterAnd :: "db_filter list \<Rightarrow> db_filter" where
  "FilterAnd fs = Filter [] [] ''and'' (FiltersVal fs)"

definition FilterEqCol :: "string \<Rightarrow> string \<Rightarrow> db_filter" where
  "FilterEqCol c parent = Filter [] c ''eqcol'' (StringVal parent)"

definition subqueryFilter :: "related option \<Rightarrow> db_filter list \<Rightarrow> bool \<Rightarrow> db_filter" where
  "subqueryFilter m fs negate = Filter [] [] ''exists'' (SubqueryVal m fs negate)"

definition FilterExists :: "related option \<Rightarrow> db_filter list \<Rightarrow> db_filter" where
  "FilterExists m fs = subqueryFilter m fs False"

definition FilterNotExists :: "related option \<Rightarrow> db_filter list \<Rightarrow> db_filter" where
  "FilterNotExists m fs = subqueryFilter m fs True"

lemmas filter_constructors =
  FilterEq_def FilterNe_def FilterGt_def FilterGte_def FilterLt_def FilterLte_def FilterIn_def FilterNotIn_def
  FilterLike_def FilterNotLike_def FilterStartsWith_def FilterEndsWith_def FilterIsNull_def FilterIsNotNull_def
  FilterRegex_def FilterNotRegex_def FilterJSONContains_def FilterFalse_def FilterOr_def FilterAnd_def
  FilterEqCol_def FilterExists_def FilterNotExists_def subqueryFilter_def

section \<open>What the renderer knows\<close>

record tableInfo =
  ti_columns :: "string set option"
  ti_timeColumns :: "string set"
  ti_dateColumns :: "string set"
  ti_jsonColumns :: "string set"
  ti_numericColumns :: "string set"
  ti_qualify :: string
  ti_rename :: "(string \<rightharpoonup> string) option"

record filterScope =
  sc_info :: tableInfo
  sc_parent :: string
  sc_outer :: string
  sc_outerTable :: string
  sc_outerColumns :: "string set option"
  sc_depth :: nat
  sc_table :: string
  sc_tables :: "(string \<rightharpoonup> tableInfo) option"
  sc_derived :: bool

text \<open>The chain as the renderer reads it: the dialect, its own model, and the reading and spelling of a time.\<close>

record renderer =
  rr_dialect :: dialect
  rr_model :: related
  rr_parseTime :: "string \<Rightarrow> int option"
  rr_formatTime :: "int \<Rightarrow> string"

definition info_column :: "tableInfo \<Rightarrow> string \<Rightarrow> string" where
  "info_column info name =
     (case ti_rename info of
        None \<Rightarrow> name
      | Some rename \<Rightarrow> (case rename name of Some alias \<Rightarrow> alias | None \<Rightarrow> name))"

definition qualifiedBy :: "tableInfo \<Rightarrow> string \<Rightarrow> tableInfo" where
  "qualifiedBy info name = info\<lparr>ti_qualify := name\<rparr>"

definition column_set :: "(column \<Rightarrow> bool) \<Rightarrow> column list \<Rightarrow> string set" where
  "column_set P cols = co_DBName ` set (filter P cols)"

definition tableInfoOf :: "column list \<Rightarrow> tableInfo" where
  "tableInfoOf cols =
     \<lparr>ti_columns = Some (column_set (\<lambda>_. True) cols), ti_timeColumns = column_set IsTimeColumn cols,
      ti_dateColumns = column_set IsDateColumn cols, ti_jsonColumns = column_set IsJSONColumn cols,
      ti_numericColumns = column_set IsNumericColumn cols, ti_qualify = [], ti_rename = None\<rparr>"

text \<open>A model whose columns gorm cannot resolve has empty column sets at the top level.\<close>

definition resolved_columns :: "related \<Rightarrow> column list" where
  "resolved_columns m = (case rl_columns m of None \<Rightarrow> [] | Some cols \<Rightarrow> cols)"

definition outerScope :: "renderer \<Rightarrow> filterScope" where
  "outerScope rr =
     \<lparr>sc_info = (tableInfoOf (resolved_columns (rr_model rr)))\<lparr>ti_columns := None\<rparr>,
      sc_parent = rl_table (rr_model rr), sc_outer = [], sc_outerTable = [], sc_outerColumns = None,
      sc_depth = 0, sc_table = rl_table (rr_model rr), sc_tables = None, sc_derived = False\<rparr>"

definition outerColumnSet :: "renderer \<Rightarrow> string set option" where
  "outerColumnSet rr = map_option (column_set (\<lambda>_. True)) (rl_columns (rr_model rr))"

section \<open>Conditions\<close>

text \<open>A column is the name it is qualified with, empty for none, and its own; a table in a subquery has the name it is read under.\<close>

type_synonym colref = "string \<times> string"

datatype sql_expr =
    FalseExpr
  | Comparison FilterOp bool colref gval
  | Membership bool colref gval
  | Pattern bool bool colref string
  | NullTest bool colref
  | RegexTest bool bool colref string
  | JSONMember colref string
  | ColumnsEqual colref colref
  | ExistsExpr bool related string "sql_expr option"
  | AndExpr "sql_expr list"
  | OrExpr "sql_expr list"

datatype reason =
    ExpectsSubquery | EmptyColumn | ExpectsBool | ExpectsJSONColumn | ExpectsString | ExpectsScalar | ExpectsSlice
  | UnknownOp | ForeignTable string | ColumnNotInTable | ColumnNotInScope string | NotAKey string string
  | ExpectsColumn | EmptyCorrelation | CorrelatesOutside | EnclosingUnresolved | NotEnclosingTable string string
  | EnclosingHasNoColumn | TieWithoutTable | TieForeignTable string | TieColumnNotInTable
  | ExpectsFilterList | NoChildren | NoRelatedModel | NoCorrelation | CorrelatesInDerived | NoParentTable
  | NoRelatedTable | RelatedUnresolved

text \<open>
  \<open>unusableFilterError\<close> carries the filter's operator; it may be joined with one of two sentinels. The
  other two are not about a filter's shape: a capability the dialect lacks and a column of a table the
  query does not read.
\<close>

datatype flt_error =
    Unusable db_filter reason
  | UnusableColumnTable db_filter reason
  | UnusableJoinSelect db_filter reason
  | UnsupportedOnDialect string dialect
  | ForeignColumn db_filter reason

type_synonym rendered = "sql_expr \<times> flt_error option"

definition failClosedFilter :: "db_filter \<Rightarrow> reason \<Rightarrow> rendered" where
  "failClosedFilter f why = (FalseExpr, Some (Unusable f why))"

definition narrows :: "flt_error \<Rightarrow> bool" where
  "narrows err =
     (case err of
        Unusable f _ \<Rightarrow> ParseFilterOp (f_Op f) \<noteq> None
      | UnusableJoinSelect f _ \<Rightarrow> ParseFilterOp (f_Op f) \<noteq> None
      | _ \<Rightarrow> False)"

section \<open>One filter of a column\<close>

definition tableColumn :: "string \<Rightarrow> tableInfo \<Rightarrow> string \<Rightarrow> colref" where
  "tableColumn table info c = ((if ti_qualify info = [] then table else ti_qualify info), info_column info c)"

definition scopedColumn :: "string \<Rightarrow> filterScope \<Rightarrow> colref" where
  "scopedColumn c sc = (ti_qualify (sc_info sc), info_column (sc_info sc) c)"

definition derivedKeyFilter :: "db_filter \<Rightarrow> string \<Rightarrow> string \<Rightarrow> flt_error" where
  "derivedKeyFilter f c table = UnusableJoinSelect f (NotAKey c table)"

definition has_column :: "tableInfo \<Rightarrow> string \<Rightarrow> bool" where
  "has_column info c = (case ti_columns info of None \<Rightarrow> False | Some cs \<Rightarrow> c \<in> cs)"

definition other_table :: "filterScope \<Rightarrow> string \<Rightarrow> tableInfo option" where
  "other_table sc table = (case sc_tables sc of None \<Rightarrow> None | Some tables \<Rightarrow> tables table)"

definition names_other_table :: "db_filter \<Rightarrow> filterScope \<Rightarrow> bool" where
  "names_other_table f sc \<longleftrightarrow> f_Table f \<noteq> [] \<and> sc_table sc \<noteq> [] \<and> f_Table f \<noteq> sc_table sc"

definition placeFilter :: "db_filter \<Rightarrow> filterScope \<Rightarrow> flt_error + colref \<times> tableInfo" where
  "placeFilter f sc =
     (if names_other_table f sc then
        (case other_table sc (f_Table f) of
           None \<Rightarrow> Inl (UnusableColumnTable f (ForeignTable (f_Table f)))
         | Some info \<Rightarrow>
             (if has_column info (f_Column f) then Inr (tableColumn (f_Table f) info (f_Column f), info)
              else if ti_rename info \<noteq> None then Inl (derivedKeyFilter f (f_Column f) (f_Table f))
              else Inl (Unusable f ColumnNotInTable)))
      else if ti_columns (sc_info sc) \<noteq> None \<and> \<not> has_column (sc_info sc) (f_Column f) then
        (if sc_derived sc then Inl (derivedKeyFilter f (f_Column f) (sc_table sc))
         else Inl (Unusable f (ColumnNotInScope (sc_table sc))))
      else Inr (scopedColumn (f_Column f) sc, sc_info sc))"

definition placedName :: "db_filter \<Rightarrow> filterScope \<Rightarrow> tableInfo \<Rightarrow> colref" where
  "placedName f sc info =
     ((if ti_qualify info = [] \<and> names_other_table f sc then f_Table f else ti_qualify info),
      info_column info (f_Column f))"

text \<open>The UTC day of an instant: the multiple of a day's nanoseconds at or before it.\<close>

definition UTCDay :: "int \<Rightarrow> int" where
  "UTCDay t = t div 86400000000000 * 86400000000000"

definition dayValue :: "renderer \<Rightarrow> gval \<Rightarrow> gval" where
  "dayValue rr v =
     (case v of
        StringVal s \<Rightarrow>
          (case rr_parseTime rr s of None \<Rightarrow> v | Some t \<Rightarrow> StringVal (rr_formatTime rr (UTCDay t)))
      | TimeVal t \<Rightarrow> TimeVal (UTCDay t)
      | TimeStruct t \<Rightarrow> TimeVal (UTCDay t)
      | _ \<Rightarrow> v)"

definition list_kind :: "gval \<Rightarrow> bool" where
  "list_kind v =
     (case v of
        SliceVal _ \<Rightarrow> True | ArrayVal _ \<Rightarrow> True | BytesVal _ \<Rightarrow> True | FiltersVal _ \<Rightarrow> True
      | ValuerVal b _ \<Rightarrow> b | _ \<Rightarrow> False)"

definition byte_vals :: "string \<Rightarrow> gval list" where
  "byte_vals s = map (\<lambda>c. IntVal (of_char c)) s"

definition list_elems :: "gval \<Rightarrow> gval list" where
  "list_elems v =
     (case v of
        SliceVal vs \<Rightarrow> vs | ArrayVal vs \<Rightarrow> vs | BytesVal s \<Rightarrow> byte_vals s | ValuerVal _ s \<Rightarrow> byte_vals s
      | FiltersVal fs \<Rightarrow> map (\<lambda>_. OtherVal ''Filter'') fs | _ \<Rightarrow> [])"

definition binds_itself :: "gval \<Rightarrow> bool" where
  "binds_itself v = (case v of BytesVal _ \<Rightarrow> True | ValuerVal _ _ \<Rightarrow> True | _ \<Rightarrow> False)"

definition scalarFilter :: "renderer \<Rightarrow> db_filter \<Rightarrow> tableInfo \<Rightarrow> FilterOp \<Rightarrow> colref \<Rightarrow> rendered" where
  "scalarFilter rr f info p col =
     (if f_Value f = NilVal then failClosedFilter f ExpectsScalar
      else if list_kind (f_Value f) \<and> (f_Column f \<in> ti_jsonColumns info \<or> \<not> binds_itself (f_Value f))
      then failClosedFilter f ExpectsScalar
      else
        (Comparison p (f_Column f \<in> ti_timeColumns info) col
           (if f_Column f \<in> ti_dateColumns info then dayValue rr (f_Value f) else f_Value f), None))"

definition listFilter :: "renderer \<Rightarrow> db_filter \<Rightarrow> tableInfo \<Rightarrow> bool \<Rightarrow> colref \<Rightarrow> rendered" where
  "listFilter rr f info negated col =
     (if f_Value f = NilVal \<or> \<not> list_kind (f_Value f) then failClosedFilter f ExpectsSlice
      else
        (Membership negated col
           (if f_Column f \<in> ti_dateColumns info then SliceVal (map (dayValue rr) (list_elems (f_Value f)))
            else f_Value f), None))"

text \<open>Whether a text pattern reads the column through its text form.\<close>

definition patternColumn :: "tableInfo \<Rightarrow> string \<Rightarrow> bool" where
  "patternColumn info c \<longleftrightarrow> c \<in> ti_jsonColumns info \<or> c \<in> ti_numericColumns info"

definition patternFilter ::
  "renderer \<Rightarrow> db_filter \<Rightarrow> tableInfo \<Rightarrow> bool \<Rightarrow> colref \<Rightarrow> string \<Rightarrow> string \<Rightarrow> rendered" where
  "patternFilter rr f info negated col pre suf =
     (case f_Value f of
        StringVal s \<Rightarrow>
          (Pattern negated (patternColumn info (f_Column f)) col (pre @ escapeLikePattern (rr_dialect rr) s @ suf), None)
      | _ \<Rightarrow> failClosedFilter f ExpectsString)"

definition stringFilter :: "db_filter \<Rightarrow> tableInfo \<Rightarrow> bool \<Rightarrow> colref \<Rightarrow> rendered" where
  "stringFilter f info negated col =
     (case f_Value f of
        StringVal s \<Rightarrow> (RegexTest negated (patternColumn info (f_Column f)) col s, None)
      | _ \<Rightarrow> failClosedFilter f ExpectsString)"

definition eqColParent :: "gval \<Rightarrow> (string \<times> string) option" where
  "eqColParent v =
     (case v of StringVal s \<Rightarrow> Some (s, []) | ColumnRef name table \<Rightarrow> Some (name, table) | _ \<Rightarrow> None)"

definition joinEqCol :: "db_filter \<Rightarrow> colref \<Rightarrow> string \<Rightarrow> string \<Rightarrow> filterScope \<Rightarrow> rendered" where
  "joinEqCol f col parent parentTable sc =
     (if parentTable = [] then failClosedFilter f TieWithoutTable
      else
        (case (if parentTable = sc_table sc then Some (sc_info sc) else other_table sc parentTable) of
           None \<Rightarrow> (FalseExpr, Some (UnusableColumnTable f (TieForeignTable parentTable)))
         | Some info \<Rightarrow>
             (if has_column info parent then (ColumnsEqual col (tableColumn parentTable info parent), None)
              else if ti_rename info \<noteq> None then (FalseExpr, Some (derivedKeyFilter f parent parentTable))
              else failClosedFilter f TieColumnNotInTable)))"

definition eqColCondition :: "db_filter \<Rightarrow> colref \<Rightarrow> filterScope \<Rightarrow> rendered" where
  "eqColCondition f col sc =
     (case eqColParent (f_Value f) of
        None \<Rightarrow> failClosedFilter f ExpectsColumn
      | Some (parent, parentTable) \<Rightarrow>
          if parent = [] then failClosedFilter f EmptyCorrelation
          else if sc_tables sc \<noteq> None \<and> sc_outer sc = [] then joinEqCol f col parent parentTable sc
          else if sc_outer sc = [] then failClosedFilter f CorrelatesOutside
          else
            (case sc_outerColumns sc of
               None \<Rightarrow> failClosedFilter f EnclosingUnresolved
             | Some cs \<Rightarrow>
                 (if parentTable \<noteq> [] \<and> parentTable \<noteq> sc_outerTable sc then
                    (FalseExpr, Some (UnusableColumnTable f (NotEnclosingTable parentTable (sc_outerTable sc))))
                  else if parent \<notin> cs then failClosedFilter f EnclosingHasNoColumn
                  else (ColumnsEqual col (sc_outer sc, parent), None))))"

definition jsonFilter :: "renderer \<Rightarrow> db_filter \<Rightarrow> filterScope \<Rightarrow> tableInfo \<Rightarrow> rendered" where
  "jsonFilter rr f sc info =
     (if rr_dialect rr \<notin> {dialectMySQL, dialectPostgres, dialectSQLite} then
        (FalseExpr, Some (UnsupportedOnDialect (f_Op f) (rr_dialect rr)))
      else if f_Column f \<notin> ti_jsonColumns info then failClosedFilter f ExpectsJSONColumn
      else
        (case f_Value f of
           StringVal s \<Rightarrow> (JSONMember (placedName f sc info) s, None)
         | _ \<Rightarrow> failClosedFilter f ExpectsString))"

definition url_filter :: "renderer \<Rightarrow> db_filter \<Rightarrow> tableInfo \<Rightarrow> colref \<Rightarrow> FilterOp \<Rightarrow> rendered" where
  "url_filter rr f info col p =
     (case p of
        FilterOpIn \<Rightarrow> listFilter rr f info False col
      | FilterOpNotIn \<Rightarrow> listFilter rr f info True col
      | FilterOpLike \<Rightarrow> patternFilter rr f info False col ''%'' ''%''
      | FilterOpNotLike \<Rightarrow> patternFilter rr f info True col ''%'' ''%''
      | FilterOpStartsWith \<Rightarrow> patternFilter rr f info False col [] ''%''
      | FilterOpEndsWith \<Rightarrow> patternFilter rr f info False col ''%'' []
      | FilterOpIsNull \<Rightarrow>
          (case f_Value f of BoolVal b \<Rightarrow> (NullTest b col, None) | _ \<Rightarrow> failClosedFilter f ExpectsBool)
      | _ \<Rightarrow> scalarFilter rr f info p col)"

text \<open>A filter that names a column: the part of \<open>renderFilter\<close> after the groups and the subqueries.\<close>

definition column_filter :: "renderer \<Rightarrow> db_filter \<Rightarrow> filterScope \<Rightarrow> rendered" where
  "column_filter rr f sc =
     (if f_Column f = [] then failClosedFilter f EmptyColumn
      else
        (case placeFilter f sc of
           Inl err \<Rightarrow> (FalseExpr, Some err)
         | Inr (col, info) \<Rightarrow>
             (case op_case (f_Op f) of
                UrlOp p \<Rightarrow> url_filter rr f info col p
              | OpRegex \<Rightarrow> stringFilter f info False col
              | OpNotRegex \<Rightarrow> stringFilter f info True col
              | OpJSONContains \<Rightarrow> jsonFilter rr f sc info
              | OpEqCol \<Rightarrow> eqColCondition f col sc
              | _ \<Rightarrow> failClosedFilter f UnknownOp)))"

section \<open>Groups and subqueries\<close>

fun pick_failure :: "flt_error option \<Rightarrow> flt_error option list \<Rightarrow> flt_error option" where
  "pick_failure failure [] = failure"
| "pick_failure failure (err # errs) =
     (case err of
        None \<Rightarrow> pick_failure failure errs
      | Some e \<Rightarrow>
          (case failure of
             None \<Rightarrow> pick_failure err errs
           | Some seen \<Rightarrow> pick_failure (if narrows seen \<and> \<not> narrows e then err else failure) errs))"

text \<open>What \<open>renderFilters\<close> makes of its rendered filters: one condition of them, and the failure to report.\<close>

definition combine_filters :: "bool \<Rightarrow> rendered list \<Rightarrow> sql_expr option \<times> flt_error option" where
  "combine_filters alt rs =
     (if rs = [] then (None, None)
      else
        (Some (if alt then (if length rs = 1 then fst (hd rs) else OrExpr (map fst rs)) else AndExpr (map fst rs)),
         pick_failure None (map snd rs)))"

fun hasCorrelation :: "db_filter list \<Rightarrow> bool" where
  "hasCorrelation [] \<longleftrightarrow> False"
| "hasCorrelation (Filter t c op v # fs) \<longleftrightarrow>
     (case op_case op of
        OpEqCol \<Rightarrow> True
      | OpOr \<Rightarrow> (case v of FiltersVal children \<Rightarrow> hasCorrelation children | _ \<Rightarrow> False) \<or> hasCorrelation fs
      | OpAnd \<Rightarrow> (case v of FiltersVal children \<Rightarrow> hasCorrelation children | _ \<Rightarrow> False) \<or> hasCorrelation fs
      | _ \<Rightarrow> hasCorrelation fs)"

definition subquery_name :: "string \<Rightarrow> filterScope \<Rightarrow> string" where
  "subquery_name childTable sc =
     (if childTable = sc_parent sc then childTable @ ''_gst'' @ decimal (sc_depth sc + 1) else childTable)"

text \<open>\<open>existsCondition\<close> up to the rendering of its predicates: the related model and the scope they are read in.\<close>

definition exists_scope ::
  "renderer \<Rightarrow> db_filter \<Rightarrow> related option \<Rightarrow> db_filter list \<Rightarrow> filterScope \<Rightarrow> flt_error + related \<times> filterScope" where
  "exists_scope rr f model fs sc =
     (if rr_dialect rr = dialectClickHouse then Inl (UnsupportedOnDialect (f_Op f) (rr_dialect rr))
      else
        (case model of
           None \<Rightarrow> Inl (Unusable f NoRelatedModel)
         | Some m \<Rightarrow>
             (if \<not> hasCorrelation fs then Inl (Unusable f NoCorrelation)
              else if sc_derived sc then Inl (Unusable f CorrelatesInDerived)
              else if sc_parent sc = [] then Inl (Unusable f NoParentTable)
              else if rl_table m = [] then Inl (Unusable f NoRelatedTable)
              else
                (case rl_columns m of
                   None \<Rightarrow> Inl (Unusable f RelatedUnresolved)
                 | Some cols \<Rightarrow>
                     (let childRef = subquery_name (rl_table m) sc in
                      Inr (m,
                        \<lparr>sc_info = qualifiedBy (tableInfoOf cols) childRef, sc_parent = childRef,
                         sc_outer = sc_parent sc, sc_outerTable = sc_table sc,
                         sc_outerColumns =
                           (case ti_columns (sc_info sc) of None \<Rightarrow> outerColumnSet rr | Some cs \<Rightarrow> Some cs),
                         sc_depth = sc_depth sc + 1, sc_table = rl_table m, sc_tables = None,
                         sc_derived = False\<rparr>))))))"

text \<open>The two endings: \<open>groupCondition\<close> over its rendered children, and \<open>existsCondition\<close> over its rendered predicates.\<close>

definition groupCondition :: "db_filter \<Rightarrow> bool \<Rightarrow> rendered list \<Rightarrow> rendered" where
  "groupCondition f alt rs =
     (case combine_filters alt rs of
        (None, _) \<Rightarrow> failClosedFilter f NoChildren
      | (Some expr, failure) \<Rightarrow> (expr, failure))"

definition existsCondition :: "bool \<Rightarrow> related \<Rightarrow> string \<Rightarrow> rendered list \<Rightarrow> rendered" where
  "existsCondition negate m name rs =
     (case combine_filters False rs of
        (_, Some failure) \<Rightarrow> (FalseExpr, Some failure)
      | (expr, None) \<Rightarrow> (ExistsExpr negate m name expr, None))"

fun renderFilter :: "renderer \<Rightarrow> db_filter \<Rightarrow> filterScope \<Rightarrow> rendered"
  and render_each :: "renderer \<Rightarrow> db_filter list \<Rightarrow> filterScope \<Rightarrow> rendered list" where
  "renderFilter rr (Filter t c op v) sc =
     (let f = Filter t c op v;
          group = (\<lambda>alt.
            (case v of
               FiltersVal children \<Rightarrow> groupCondition f alt (render_each rr children sc)
             | _ \<Rightarrow> failClosedFilter f ExpectsFilterList))
      in
      (case op_case op of
         OpOr \<Rightarrow> group True
       | OpAnd \<Rightarrow> group False
       | OpExists \<Rightarrow>
           (case v of
              SubqueryVal model fs negate \<Rightarrow>
                (case exists_scope rr f model fs sc of
                   Inl err \<Rightarrow> (FalseExpr, Some err)
                 | Inr (m, inner) \<Rightarrow> existsCondition negate m (sc_parent inner) (render_each rr fs inner))
            | _ \<Rightarrow> failClosedFilter f ExpectsSubquery)
       | OpFalse \<Rightarrow> (FalseExpr, None)
       | _ \<Rightarrow> column_filter rr f sc))"
| "render_each rr [] sc = []"
| "render_each rr (f # fs) sc = renderFilter rr f sc # render_each rr fs sc"

definition renderFilters :: "renderer \<Rightarrow> db_filter list \<Rightarrow> bool \<Rightarrow> filterScope \<Rightarrow> sql_expr option \<times> flt_error option" where
  "renderFilters rr fs alt sc = combine_filters alt (render_each rr fs sc)"

fun foreignTableFilter :: "db_filter list \<Rightarrow> string \<Rightarrow> string \<Rightarrow> (db_filter \<times> reason) option" where
  "foreignTableFilter [] own enclosing = None"
| "foreignTableFilter (Filter t c op v # fs) own enclosing =
     (let here = (if t \<noteq> [] \<and> t \<noteq> own then Some (Filter t c op v, ForeignTable t) else None);
          inside = (\<lambda>found. (case found of Some r \<Rightarrow> Some r | None \<Rightarrow> foreignTableFilter fs own enclosing))
      in
      (case op_case op of
         OpOr \<Rightarrow> (case v of FiltersVal children \<Rightarrow> inside (foreignTableFilter children own enclosing) | _ \<Rightarrow> inside None)
       | OpAnd \<Rightarrow> (case v of FiltersVal children \<Rightarrow> inside (foreignTableFilter children own enclosing) | _ \<Rightarrow> inside None)
       | OpExists \<Rightarrow>
           (case v of
              SubqueryVal (Some m) sub _ \<Rightarrow> inside (foreignTableFilter sub (rl_table m) own)
            | _ \<Rightarrow> inside None)
       | OpEqCol \<Rightarrow>
           inside
             (if here \<noteq> None then here
              else
                (case eqColParent v of
                   Some (_, parentTable) \<Rightarrow>
                     (if enclosing \<noteq> [] \<and> parentTable \<noteq> [] \<and> parentTable \<noteq> enclosing
                      then Some (Filter t c op v, NotEnclosingTable parentTable enclosing) else None)
                 | None \<Rightarrow> None))
       | _ \<Rightarrow> inside here))"

text \<open>The conditions and the defect of a chain; \<open>WithQuery\<close> also records that every row was meant.\<close>

record query_chain =
  qc_where :: "sql_expr list"
  qc_err :: "flt_error option"
  qc_matchAll :: bool

definition applyFilters :: "renderer \<Rightarrow> db_filter list \<Rightarrow> query_chain \<Rightarrow> query_chain" where
  "applyFilters rr fs ch =
     (case foreignTableFilter fs (rl_table (rr_model rr)) [] of
        Some (f, why) \<Rightarrow> ch\<lparr>qc_err := Some (ForeignColumn f why)\<rparr>
      | None \<Rightarrow>
          (case renderFilters rr fs False (outerScope rr) of
             (expr, failure) \<Rightarrow>
               (if (case failure of None \<Rightarrow> False | Some e \<Rightarrow> \<not> narrows e) then ch\<lparr>qc_err := failure\<rparr>
                else (case expr of None \<Rightarrow> ch | Some e \<Rightarrow> ch\<lparr>qc_where := qc_where ch @ [e]\<rparr>))))"

section \<open>The text of a condition\<close>

definition quoteTableColumn :: "(string \<Rightarrow> string) \<Rightarrow> colref \<Rightarrow> string" where
  "quoteTableColumn quote col = (if fst col = [] then quote (snd col) else quote (fst col) @ ''.'' @ quote (snd col))"

fun comparison_symbol :: "FilterOp \<Rightarrow> string" where
  "comparison_symbol FilterOpEq = '' = ''"
| "comparison_symbol FilterOpNe = '' <> ''"
| "comparison_symbol FilterOpGt = '' > ''"
| "comparison_symbol FilterOpGte = '' >= ''"
| "comparison_symbol FilterOpLt = '' < ''"
| "comparison_symbol FilterOpLte = '' <= ''"
| "comparison_symbol _ = []"

definition comparisonSQL :: "dialect \<Rightarrow> bool \<Rightarrow> string \<Rightarrow> string \<Rightarrow> string" where
  "comparisonSQL d isTime col symbol =
     (if isTime then timeComparableExpr d col @ symbol @ timeComparableExpr d ''?'' else col @ symbol @ ''?'')"

text \<open>
  The SQL of a single condition and the values bound to its placeholders; a subquery, a group and the
  JSON test are spelled by gorm, so their text is not given here.
\<close>

fun expr_SQL :: "(string \<Rightarrow> string) \<Rightarrow> dialect \<Rightarrow> sql_expr \<Rightarrow> (string \<times> gval list) option" where
  "expr_SQL quote d FalseExpr = Some (''1 = 0'', [])"
| "expr_SQL quote d (Comparison p isTime col v) =
     Some (comparisonSQL d isTime (quoteTableColumn quote col) (comparison_symbol p), [v])"
| "expr_SQL quote d (Membership negated col v) =
     Some (quoteTableColumn quote col @ (if negated then '' NOT IN ?'' else '' IN ?''), [v])"
| "expr_SQL quote d (Pattern negated cast col pattern) =
     Some (textPatternColumn d (quoteTableColumn quote col) cast @ (if negated then '' NOT LIKE ?'' else '' LIKE ?'')
             @ likeEscapeSuffix d, [StringVal pattern])"
| "expr_SQL quote d (NullTest b col) = Some (quoteTableColumn quote col @ (if b then '' IS NULL'' else '' IS NOT NULL''), [])"
| "expr_SQL quote d (RegexTest negated cast col s) =
     (let test = textPatternColumn d (quoteTableColumn quote col) cast @ '' '' @ regexpOperator d @ '' ?'' in
      Some (if negated then ''NOT ('' @ test @ '')'' else test, [StringVal s]))"
| "expr_SQL quote d (ColumnsEqual col other) = Some (quoteTableColumn quote col @ '' = '' @ quoteTableColumn quote other, [])"
| "expr_SQL quote d _ = None"

text \<open>Every value is bound to a placeholder of its own, and none is part of the text.\<close>

lemma expr_SQL_binds:
  assumes quoted: "\<And>name. CHR ''?'' \<notin> set (quote name)" and res: "expr_SQL quote d e = Some (text, vs)"
  shows "length (filter (\<lambda>c. c = CHR ''?'') text) = length vs"
proof -
  have col: "filter (\<lambda>c. c = CHR ''?'') (quoteTableColumn quote col) = []" for col
    using quoted by (auto simp: quoteTableColumn_def filter_empty_conv)
  have symbol: "filter (\<lambda>c. c = CHR ''?'') (comparison_symbol p) = []" for p by (cases p) simp_all
  show ?thesis using res
    by (cases e) (auto simp: comparisonSQL_def timeComparableExpr_def textPatternColumn_def likeEscapeSuffix_def
        regexpOperator_def col symbol Let_def)
qed

section \<open>What a condition means\<close>

text \<open>
  A row gives each column its value, \<open>None\<close> for NULL. What the database decides by itself: how a stored
  value compares with a bound one, under the operators that take one value and, when the flag is set,
  both sides normalised as times; whether it is in a bound list, unknown for an empty one; its text
  form; which characters count as the same; regular expressions; membership in a JSON array; equality of
  two columns; and the rows of each table.
\<close>

type_synonym 'v row = "string \<Rightarrow> 'v option"

record 'v sql_sem =
  sm_compare :: "bool \<Rightarrow> FilterOp \<Rightarrow> 'v \<Rightarrow> gval \<Rightarrow> bool option"
  sm_member :: "'v \<Rightarrow> gval \<Rightarrow> bool option"
  sm_text :: "'v \<Rightarrow> string"
  sm_same :: "char \<Rightarrow> char \<Rightarrow> bool"
  sm_regex :: "string \<Rightarrow> string \<Rightarrow> bool"
  sm_json :: "'v \<Rightarrow> string \<Rightarrow> bool option"
  sm_equal :: "'v \<Rightarrow> 'v \<Rightarrow> bool option"
  sm_rows :: "string \<Rightarrow> 'v row list"

text \<open>The rows in scope, innermost first, each under the name its table is read by.\<close>

type_synonym 'v env = "(string \<times> 'v row) list"

definition col_value :: "'v env \<Rightarrow> colref \<Rightarrow> 'v option" where
  "col_value env col =
     (if fst col = [] then (case env of [] \<Rightarrow> None | (_, row) # _ \<Rightarrow> row (snd col))
      else (case map_of env (fst col) of None \<Rightarrow> None | Some row \<Rightarrow> row (snd col)))"

definition and3 :: "bool option list \<Rightarrow> bool option" where
  "and3 bs = (if Some False \<in> set bs then Some False else if None \<in> set bs then None else Some True)"

definition or3 :: "bool option list \<Rightarrow> bool option" where
  "or3 bs = (if Some True \<in> set bs then Some True else if None \<in> set bs then None else Some False)"

definition not3 :: "bool option \<Rightarrow> bool option" where
  "not3 b = map_option Not b"

text \<open>
  gorm joins the conditions of a list with AND, except that it joins one that is an OR group of a single
  element with OR to what stands before it; AND binds tighter.
\<close>

fun segments :: "(bool \<times> 'a) list \<Rightarrow> 'a list \<Rightarrow> 'a list list" where
  "segments [] cur = [cur]"
| "segments ((connector, x) # xs) cur =
     (if connector \<and> cur \<noteq> [] then cur # segments xs [x] else segments xs (x # cur))"

definition joined :: "(bool \<times> bool option) list \<Rightarrow> bool option" where
  "joined xs = or3 (map and3 (segments xs []))"

definition or_connector :: "sql_expr \<Rightarrow> bool" where
  "or_connector e = (case e of OrExpr es \<Rightarrow> length es = 1 | _ \<Rightarrow> False)"

definition live_row :: "related \<Rightarrow> 'v row \<Rightarrow> bool" where
  "live_row m row \<longleftrightarrow> (case rl_deleted m of None \<Rightarrow> True | Some c \<Rightarrow> row c = None)"

fun eval :: "dialect \<Rightarrow> 'v sql_sem \<Rightarrow> 'v env \<Rightarrow> sql_expr \<Rightarrow> bool option" where
  "eval d sem env FalseExpr = Some False"
| "eval d sem env (Comparison p isTime col v) =
     Option.bind (col_value env col) (\<lambda>x. sm_compare sem (isTime \<and> d = dialectSQLite) p x v)"
| "eval d sem env (Membership negated col v) =
     Option.bind (col_value env col) (\<lambda>x. (if negated then not3 else id) (sm_member sem x v))"
| "eval d sem env (Pattern negated cast col pattern) =
     Option.bind (col_value env col)
       (\<lambda>x. Some (negated \<noteq> like_match (sm_same sem) (like_escape_char d) pattern (sm_text sem x)))"
| "eval d sem env (NullTest b col) = Some (b = (col_value env col = None))"
| "eval d sem env (RegexTest negated cast col s) =
     Option.bind (col_value env col) (\<lambda>x. Some (negated \<noteq> sm_regex sem s (sm_text sem x)))"
| "eval d sem env (JSONMember col s) = Option.bind (col_value env col) (\<lambda>x. sm_json sem x s)"
| "eval d sem env (ColumnsEqual col other) =
     Option.bind (col_value env col) (\<lambda>x. Option.bind (col_value env other) (sm_equal sem x))"
| "eval d sem env (ExistsExpr negate m name cond) =
     Some (negate \<noteq>
       list_ex (\<lambda>row. live_row m row \<and>
           (case cond of None \<Rightarrow> True | Some e \<Rightarrow> eval d sem ((name, row) # env) e = Some True))
         (sm_rows sem (rl_table m)))"
| "eval d sem env (AndExpr es) = joined (map (\<lambda>e. (or_connector e, eval d sem env e)) es)"
| "eval d sem env (OrExpr es) = or3 (map (eval d sem env) es)"

definition selects_row :: "dialect \<Rightarrow> 'v sql_sem \<Rightarrow> related \<Rightarrow> sql_expr list \<Rightarrow> 'v row \<Rightarrow> bool" where
  "selects_row d sem m conds row \<longleftrightarrow> eval d sem [(rl_table m, row)] (AndExpr conds) = Some True"

section \<open>What a filter means\<close>

text \<open>
  The meaning of a filter in two-valued terms over the rows in scope, innermost first: a comparison holds
  of a column that has a value, a subquery of a row that has, or has not, a live related row with all its
  predicates. Nothing here knows of SQL, of names tables are read under or of unknown. A filter that
  cannot be applied has no meaning of its own: whatever one might give it is the argument \<open>u\<close>.
\<close>

definition url_holds :: "renderer \<Rightarrow> 'v sql_sem \<Rightarrow> tableInfo \<Rightarrow> string \<Rightarrow> FilterOp \<Rightarrow> gval \<Rightarrow> 'v option \<Rightarrow> bool" where
  "url_holds rr sem info c p v stored =
     (if p = FilterOpIsNull then v = BoolVal (stored = None)
      else
        (case stored of
           None \<Rightarrow> False
         | Some x \<Rightarrow>
             (let day = (if c \<in> ti_dateColumns info then dayValue rr else id);
                  among = (if c \<in> ti_dateColumns info then SliceVal (map day (list_elems v)) else v);
                  found = (\<lambda>a b. (case v of StringVal s \<Rightarrow> occurs_at a b (sm_same sem) s (sm_text sem x) | _ \<Rightarrow> False))
              in
              (case p of
                 FilterOpIn \<Rightarrow> sm_member sem x among = Some True
               | FilterOpNotIn \<Rightarrow> sm_member sem x among = Some False
               | FilterOpLike \<Rightarrow> found True True
               | FilterOpNotLike \<Rightarrow> \<not> found True True
               | FilterOpStartsWith \<Rightarrow> found False True
               | FilterOpEndsWith \<Rightarrow> found True False
               | _ \<Rightarrow> sm_compare sem (c \<in> ti_timeColumns info \<and> rr_dialect rr = dialectSQLite) p x (day v) = Some True))))"

definition column_holds :: "renderer \<Rightarrow> 'v sql_sem \<Rightarrow> tableInfo \<Rightarrow> 'v row list \<Rightarrow> db_filter \<Rightarrow> bool" where
  "column_holds rr sem info rows f =
     (let stored = hd rows (f_Column f);
          text_is = (\<lambda>P. (case (stored, f_Value f) of (Some x, StringVal s) \<Rightarrow> P x s | _ \<Rightarrow> False))
      in
      (case op_case (f_Op f) of
         UrlOp p \<Rightarrow> url_holds rr sem info (f_Column f) p (f_Value f) stored
       | OpRegex \<Rightarrow> text_is (\<lambda>x s. sm_regex sem s (sm_text sem x))
       | OpNotRegex \<Rightarrow> text_is (\<lambda>x s. \<not> sm_regex sem s (sm_text sem x))
       | OpJSONContains \<Rightarrow> text_is (\<lambda>x s. sm_json sem x s = Some True)
       | OpEqCol \<Rightarrow>
           (case (stored, eqColParent (f_Value f)) of
              (Some x, Some (parent, _)) \<Rightarrow>
                (case (rows ! 1) parent of None \<Rightarrow> False | Some y \<Rightarrow> sm_equal sem x y = Some True)
            | _ \<Rightarrow> False)
       | _ \<Rightarrow> False))"

fun filter_holds ::
  "renderer \<Rightarrow> 'v sql_sem \<Rightarrow> (db_filter \<Rightarrow> 'v row list \<Rightarrow> bool) \<Rightarrow> filterScope \<Rightarrow> 'v row list \<Rightarrow> db_filter \<Rightarrow> bool" where
  "filter_holds rr sem u sc rows (Filter t c op v) =
     (let f = Filter t c op v in
      (case op_case op of
         OpOr \<Rightarrow>
           (case v of
              FiltersVal children \<Rightarrow>
                (if children = [] then u f rows else list_ex (filter_holds rr sem u sc rows) children)
            | _ \<Rightarrow> u f rows)
       | OpAnd \<Rightarrow>
           (case v of
              FiltersVal children \<Rightarrow>
                (if children = [] then u f rows else list_all (filter_holds rr sem u sc rows) children)
            | _ \<Rightarrow> u f rows)
       | OpExists \<Rightarrow>
           (case v of
              SubqueryVal model fs negate \<Rightarrow>
                (case exists_scope rr f model fs sc of
                   Inl _ \<Rightarrow> u f rows
                 | Inr (m, inner) \<Rightarrow>
                     negate \<noteq> list_ex (\<lambda>row. live_row m row \<and> list_all (filter_holds rr sem u inner (row # rows)) fs)
                       (sm_rows sem (rl_table m)))
            | _ \<Rightarrow> u f rows)
       | OpFalse \<Rightarrow> False
       | _ \<Rightarrow>
           (if snd (column_filter rr f sc) = None then column_holds rr sem (sc_info sc) rows f else u f rows)))"

section \<open>Three-valued logic\<close>

lemma and3_True [simp]: "and3 bs = Some True \<longleftrightarrow> (\<forall>b\<in>set bs. b = Some True)"
proof -
  have "(\<forall>b\<in>set bs. b = Some True) \<longleftrightarrow> Some False \<notin> set bs \<and> None \<notin> set bs"
    by (metis (full_types) option.distinct(1) option.exhaust option.inject)
  then show ?thesis by (auto simp: and3_def)
qed

lemma or3_True [simp]: "or3 bs = Some True \<longleftrightarrow> Some True \<in> set bs"
  by (simp add: or3_def)

lemma not3_True [simp]: "not3 b = Some True \<longleftrightarrow> b = Some False"
  by (cases b) (auto simp: not3_def)

lemma segments_plain:
  "\<forall>p\<in>set xs. \<not> fst p \<Longrightarrow> segments xs cur = [rev (map snd xs) @ cur]"
  by (induction xs arbitrary: cur) auto

lemma joined_plain:
  "\<forall>p\<in>set xs. \<not> fst p \<Longrightarrow> joined xs = Some True \<longleftrightarrow> (\<forall>p\<in>set xs. snd p = Some True)"
proof -
  assume plain: "\<forall>p\<in>set xs. \<not> fst p"
  have "joined xs = Some True \<longleftrightarrow> and3 (rev (map snd xs)) = Some True"
    unfolding joined_def segments_plain [OF plain] by (simp del: and3_True) (rule eq_commute)
  then show ?thesis by simp
qed

lemma eval_AndExpr:
  "\<forall>e\<in>set es. \<not> or_connector e
    \<Longrightarrow> eval d sem env (AndExpr es) = Some True \<longleftrightarrow> (\<forall>e\<in>set es. eval d sem env e = Some True)"
  by (simp add: joined_plain)

section \<open>One column filter\<close>

text \<open>The rows a scope reads: its own row first, under the name its columns are qualified with, and in a subquery the enclosing one next, under another name.\<close>

definition scope_ok :: "filterScope \<Rightarrow> 'v env \<Rightarrow> bool" where
  "scope_ok sc env \<longleftrightarrow>
     sc_tables sc = None \<and> \<not> sc_derived sc \<and> ti_rename (sc_info sc) = None \<and>
     (\<exists>row rest. env = (sc_parent sc, row) # rest \<and>
        (ti_qualify (sc_info sc) = [] \<and> sc_outer sc = [] \<and> rest = []
         \<or> ti_qualify (sc_info sc) = sc_parent sc \<and> sc_parent sc \<noteq> [] \<and> sc_outer sc \<noteq> [] \<and> sc_outer sc \<noteq> sc_parent sc
           \<and> (\<exists>row' rest'. rest = (sc_outer sc, row') # rest')))"

lemma scope_ok_own:
  "scope_ok sc env \<Longrightarrow> col_value env (ti_qualify (sc_info sc), c) = hd (map snd env) c"
  by (auto simp: scope_ok_def col_value_def)

lemma scope_ok_outer:
  "scope_ok sc env \<Longrightarrow> sc_outer sc \<noteq> [] \<Longrightarrow> col_value env (sc_outer sc, c) = (map snd env ! 1) c"
  by (auto simp: scope_ok_def col_value_def)

lemma scope_ok_outerScope: "scope_ok (outerScope rr) [(rl_table (rr_model rr), row)]"
  by (simp add: scope_ok_def outerScope_def tableInfoOf_def)

lemma placeFilter_own:
  assumes "scope_ok sc env" and "placeFilter f sc = Inr (col, info)"
  shows "col = (ti_qualify (sc_info sc), f_Column f)" and "info = sc_info sc" and "\<not> names_other_table f sc"
  using assms
  by (auto simp: placeFilter_def other_table_def scope_ok_def scopedColumn_def info_column_def split: if_splits)

lemma failClosedFilter_Some [simp]: "failClosedFilter f why \<noteq> (e, None)" "snd (failClosedFilter f why) \<noteq> None"
  by (simp_all add: failClosedFilter_def)

lemma scalarFilter_holds:
  assumes "scalarFilter rr f info p col = (e, None)"
  shows "eval (rr_dialect rr) sem env e = Some True \<longleftrightarrow>
    (\<exists>x. col_value env col = Some x \<and>
      sm_compare sem (f_Column f \<in> ti_timeColumns info \<and> rr_dialect rr = dialectSQLite) p x
        ((if f_Column f \<in> ti_dateColumns info then dayValue rr else id) (f_Value f)) = Some True)"
  using assms by (auto simp: scalarFilter_def bind_eq_Some_conv split: if_splits)

lemma listFilter_holds:
  assumes "listFilter rr f info negated col = (e, None)"
  shows "eval (rr_dialect rr) sem env e = Some True \<longleftrightarrow>
    (\<exists>x. col_value env col = Some x \<and>
      sm_member sem x (if f_Column f \<in> ti_dateColumns info then SliceVal (map (dayValue rr) (list_elems (f_Value f)))
        else f_Value f) = Some (\<not> negated))"
  using assms by (auto simp: listFilter_def bind_eq_Some_conv split: if_splits)

lemma patternFilter_holds:
  assumes "patternFilter rr f info negated col (if a then ''%'' else []) (if b then ''%'' else []) = (e, None)"
  shows "eval (rr_dialect rr) sem env e = Some True \<longleftrightarrow>
    (\<exists>x s. col_value env col = Some x \<and> f_Value f = StringVal s
      \<and> negated \<noteq> occurs_at a b (sm_same sem) s (sm_text sem x))"
  using assms
  by (cases "f_Value f") (auto simp: patternFilter_def bind_eq_Some_conv like_pattern_is_literal)

lemma stringFilter_holds:
  assumes "stringFilter f info negated col = (e, None)"
  shows "eval d sem env e = Some True \<longleftrightarrow>
    (\<exists>x s. col_value env col = Some x \<and> f_Value f = StringVal s \<and> negated \<noteq> sm_regex sem s (sm_text sem x))"
  using assms by (cases "f_Value f") (auto simp: stringFilter_def bind_eq_Some_conv)

lemma url_filter_holds:
  assumes "url_filter rr f info col p = (e, None)"
  shows "eval (rr_dialect rr) sem env e = Some True
    \<longleftrightarrow> url_holds rr sem info (f_Column f) p (f_Value f) (col_value env col)"
proof (cases p)
  case FilterOpIn
  then show ?thesis using listFilter_holds [of rr f info False col e sem env] assms
    by (auto simp: url_filter_def url_holds_def split: option.split)
next
  case FilterOpNotIn
  then show ?thesis using listFilter_holds [of rr f info True col e sem env] assms
    by (auto simp: url_filter_def url_holds_def split: option.split)
next
  case FilterOpLike
  then show ?thesis using patternFilter_holds [of rr f info False col True True e sem env] assms
    by (auto simp: url_filter_def url_holds_def split: option.split gval.split)
next
  case FilterOpNotLike
  have "\<exists>s. f_Value f = StringVal s"
    using assms FilterOpNotLike by (cases "f_Value f") (auto simp: url_filter_def patternFilter_def)
  then show ?thesis using FilterOpNotLike patternFilter_holds [of rr f info True col True True e sem env] assms
    by (auto simp: url_filter_def url_holds_def split: option.split)
next
  case FilterOpStartsWith
  then show ?thesis using patternFilter_holds [of rr f info False col False True e sem env] assms
    by (auto simp: url_filter_def url_holds_def split: option.split gval.split)
next
  case FilterOpEndsWith
  then show ?thesis using patternFilter_holds [of rr f info False col True False e sem env] assms
    by (auto simp: url_filter_def url_holds_def split: option.split gval.split)
next
  case FilterOpIsNull
  then show ?thesis using assms by (cases "f_Value f") (auto simp: url_filter_def url_holds_def)
qed (use scalarFilter_holds [of rr f info p col e sem env] assms in
      \<open>auto simp: url_filter_def url_holds_def split: option.split\<close>)

lemma jsonFilter_holds:
  assumes "jsonFilter rr f sc info = (e, None)"
  shows "eval d sem env e = Some True \<longleftrightarrow>
    (\<exists>x s. col_value env (placedName f sc info) = Some x \<and> f_Value f = StringVal s \<and> sm_json sem x s = Some True)"
  using assms by (cases "f_Value f") (auto simp: jsonFilter_def bind_eq_Some_conv split: if_splits)

lemma eqColCondition_holds:
  assumes ok: "scope_ok sc env" and res: "eqColCondition f (ti_qualify (sc_info sc), f_Column f) sc = (e, None)"
  shows "eval d sem env e = Some True \<longleftrightarrow>
    (\<exists>x y parent table. hd (map snd env) (f_Column f) = Some x \<and> eqColParent (f_Value f) = Some (parent, table)
      \<and> (map snd env ! 1) parent = Some y \<and> sm_equal sem x y = Some True)"
proof -
  obtain parent table where p: "eqColParent (f_Value f) = Some (parent, table)"
    using res by (cases "eqColParent (f_Value f)") (auto simp: eqColCondition_def)
  have none: "sc_tables sc = None" using ok by (simp add: scope_ok_def)
  have out: "sc_outer sc \<noteq> []" and e: "e = ColumnsEqual (ti_qualify (sc_info sc), f_Column f) (sc_outer sc, parent)"
    using res by (auto simp: eqColCondition_def p none split: if_splits option.splits)
  show ?thesis
    by (auto simp: e p bind_eq_Some_conv scope_ok_own [OF ok] scope_ok_outer [OF ok out])
qed

lemma column_filter_holds:
  assumes ok: "scope_ok sc env" and res: "column_filter rr f sc = (e, None)"
  shows "eval (rr_dialect rr) sem env e = Some True \<longleftrightarrow> column_holds rr sem (sc_info sc) (map snd env) f"
proof -
  obtain col info where place: "placeFilter f sc = Inr (col, info)"
    using res by (auto simp: column_filter_def split: if_splits sum.splits)
  note own = placeFilter_own [OF ok place]
  have name: "placedName f sc info = (ti_qualify (sc_info sc), f_Column f)"
    using ok own by (simp add: placedName_def info_column_def scope_ok_def)
  note stored = scope_ok_own [OF ok, of "f_Column f"]
  show ?thesis
  proof (cases "op_case (f_Op f)")
    case (UrlOp p)
    then show ?thesis
      using res url_filter_holds [of rr f "sc_info sc" "(ti_qualify (sc_info sc), f_Column f)" p e sem env]
      by (simp add: column_filter_def place own column_holds_def stored split: if_splits)
  next
    case OpRegex
    then show ?thesis
      using res stringFilter_holds [of f "sc_info sc" False "(ti_qualify (sc_info sc), f_Column f)" e "rr_dialect rr" sem env]
      by (auto simp: column_filter_def place own column_holds_def stored split: if_splits option.splits gval.splits)
  next
    case OpNotRegex
    then show ?thesis
      using res stringFilter_holds [of f "sc_info sc" True "(ti_qualify (sc_info sc), f_Column f)" e "rr_dialect rr" sem env]
      by (auto simp: column_filter_def place own column_holds_def stored split: if_splits option.splits gval.splits)
  next
    case OpJSONContains
    then show ?thesis
      using res jsonFilter_holds [of rr f sc "sc_info sc" e "rr_dialect rr" sem env] name
      by (auto simp: column_filter_def place own column_holds_def stored split: if_splits option.splits gval.splits)
  next
    case OpEqCol
    then show ?thesis
      using res eqColCondition_holds [OF ok, of f e "rr_dialect rr" sem]
      by (auto simp: column_filter_def place own column_holds_def split: if_splits option.splits)
  qed (use res in \<open>simp_all add: column_filter_def place split: if_splits\<close>)
qed

section \<open>Groups, subqueries and lists\<close>

lemma render_each_map: "render_each rr fs sc = map (\<lambda>f. renderFilter rr f sc) fs"
  by (induction fs) simp_all

lemma pick_failure_None: "pick_failure failure errs = None \<longleftrightarrow> failure = None \<and> (\<forall>e\<in>set errs. e = None)"
  by (induction errs arbitrary: failure) (auto split: option.splits)

definition well_shaped :: "rendered \<Rightarrow> bool" where
  "well_shaped r \<longleftrightarrow> \<not> or_connector (fst r) \<and> (snd r = None \<or> fst r = FalseExpr)"

lemma well_shaped_simps [simp]:
  "well_shaped (failClosedFilter f why)" "well_shaped (FalseExpr, err)"
  "well_shaped (Comparison p b col v, None)" "well_shaped (Membership b col v, None)"
  "well_shaped (Pattern b cast col pat, None)" "well_shaped (NullTest b col, None)"
  "well_shaped (RegexTest b cast col s, None)" "well_shaped (JSONMember col s, None)"
  "well_shaped (ColumnsEqual col other, None)"
  by (simp_all add: well_shaped_def failClosedFilter_def or_connector_def)

lemma well_shaped_parts [simp]:
  "well_shaped (scalarFilter rr f info p col)"
  "well_shaped (listFilter rr f info negated col)"
  "well_shaped (patternFilter rr f info negated col pre suf)"
  "well_shaped (stringFilter f info negated col)"
  "well_shaped (jsonFilter rr f sc info)"
  "well_shaped (joinEqCol f col parent parentTable sc)"
  by (simp_all add: scalarFilter_def listFilter_def patternFilter_def stringFilter_def jsonFilter_def joinEqCol_def
      split: gval.split option.split)

lemma well_shaped_eqCol [simp]: "well_shaped (eqColCondition f col sc)"
  by (simp add: eqColCondition_def split: option.split prod.split)

lemma well_shaped_url [simp]: "well_shaped (url_filter rr f info col p)"
  by (simp add: url_filter_def split: FilterOp.split gval.split)

lemma column_filter_shape: "well_shaped (column_filter rr f sc)"
  by (simp add: column_filter_def split: sum.split prod.split any_op.split)

lemma size_children: "g \<in> set fs \<Longrightarrow> size g < size (Filter t c op (FiltersVal fs))"
  by (induction fs) auto

lemma size_subquery: "g \<in> set fs \<Longrightarrow> size g < size (Filter t c op (SubqueryVal m fs negate))"
  by (induction fs) auto

lemma existsCondition_not_connector: "\<not> or_connector (fst (existsCondition negate m name rs))"
  by (auto simp: existsCondition_def or_connector_def split: prod.split option.split)

lemma groupCondition_not_connector:
  "\<forall>r\<in>set rs. \<not> or_connector (fst r) \<Longrightarrow> \<not> or_connector (fst (groupCondition f alt rs))"
  by (cases rs) (auto simp: groupCondition_def combine_filters_def failClosedFilter_def or_connector_def)

lemma renderFilter_not_connector: "\<not> or_connector (fst (renderFilter rr f sc))"
proof (induction f arbitrary: sc rule: measure_induct_rule [of size])
  case (less f)
  obtain t c op v where f: "f = Filter t c op v" by (cases f)
  have group: "\<not> or_connector (fst (groupCondition f alt (render_each rr fs sc)))" if "v = FiltersVal fs" for alt fs
    by (rule groupCondition_not_connector) (use less size_children that in \<open>auto simp: render_each_map f\<close>)
  show ?case
  proof (cases "op_case op")
    case OpOr
    then show ?thesis using group by (cases v) (auto simp: f failClosedFilter_def or_connector_def)
  next
    case OpAnd
    then show ?thesis using group by (cases v) (auto simp: f failClosedFilter_def or_connector_def)
  next
    case OpExists
    then show ?thesis using existsCondition_not_connector
      by (cases v) (auto simp: f failClosedFilter_def or_connector_def split: sum.split)
  qed (use column_filter_shape [of rr f sc] in \<open>auto simp: f well_shaped_def or_connector_def\<close>)
qed

declare renderFilter.simps [simp del] filter_holds.simps [simp del]

lemma renderFilter_group:
  "op_case op = OpOr \<Longrightarrow> renderFilter rr (Filter t c op (FiltersVal fs)) sc
     = groupCondition (Filter t c op (FiltersVal fs)) True (render_each rr fs sc)"
  "op_case op = OpAnd \<Longrightarrow> renderFilter rr (Filter t c op (FiltersVal fs)) sc
     = groupCondition (Filter t c op (FiltersVal fs)) False (render_each rr fs sc)"
  by (simp_all add: renderFilter.simps)

lemma filter_holds_group:
  "op_case op = OpOr \<Longrightarrow> fs \<noteq> [] \<Longrightarrow> filter_holds rr sem u sc rows (Filter t c op (FiltersVal fs))
     = list_ex (filter_holds rr sem u sc rows) fs"
  "op_case op = OpAnd \<Longrightarrow> fs \<noteq> [] \<Longrightarrow> filter_holds rr sem u sc rows (Filter t c op (FiltersVal fs))
     = list_all (filter_holds rr sem u sc rows) fs"
  by (simp_all add: filter_holds.simps)

lemma renderFilter_exists:
  assumes "op_case op = OpExists" "exists_scope rr (Filter t c op (SubqueryVal model fs negate)) model fs sc = Inr (m, inner)"
  shows "renderFilter rr (Filter t c op (SubqueryVal model fs negate)) sc
    = existsCondition negate m (sc_parent inner) (render_each rr fs inner)"
  using assms by (simp add: renderFilter.simps)

lemma filter_holds_exists:
  assumes "op_case op = OpExists" "exists_scope rr (Filter t c op (SubqueryVal model fs negate)) model fs sc = Inr (m, inner)"
  shows "filter_holds rr sem u sc rows (Filter t c op (SubqueryVal model fs negate))
    = (negate \<noteq> list_ex (\<lambda>row. live_row m row \<and> list_all (filter_holds rr sem u inner (row # rows)) fs)
        (sm_rows sem (rl_table m)))"
  using assms by (simp add: filter_holds.simps)

text \<open>Every other way a filter renders: by its column, or as the condition that matches nothing.\<close>

lemma renderFilter_cases:
  assumes f: "f = Filter t c op v"
  obtains (group) fs where "op_case op \<in> {OpOr, OpAnd}" "v = FiltersVal fs"
    | (sub) model fs negate m inner where "op_case op = OpExists" "v = SubqueryVal model fs negate"
        "exists_scope rr f model fs sc = Inr (m, inner)"
    | (false) "fst (renderFilter rr f sc) = FalseExpr" "snd (renderFilter rr f sc) \<noteq> None \<or> op_case op = OpFalse"
    | (column) "op_case op \<notin> {OpOr, OpAnd, OpExists, OpFalse}" "renderFilter rr f sc = column_filter rr f sc"
proof (cases "op_case op \<in> {OpOr, OpAnd}")
  case True
  show thesis
  proof (cases "\<exists>fs. v = FiltersVal fs")
    case yes: True
    then show thesis using True group by blast
  next
    case False
    then have "renderFilter rr f sc = failClosedFilter f ExpectsFilterList"
      using True by (cases v) (auto simp: f renderFilter.simps)
    then show thesis using false by (simp add: failClosedFilter_def)
  qed
next
  case no: False
  show thesis
  proof (cases "op_case op = OpExists")
    case True
    show thesis
    proof (cases v)
      case (SubqueryVal model fs negate)
      show thesis
      proof (cases "exists_scope rr f model fs sc")
        case (Inl err)
        then have "renderFilter rr f sc = (FalseExpr, Some err)"
          using True SubqueryVal by (simp add: f renderFilter.simps)
        then show thesis using false by simp
      next
        case (Inr r)
        then show thesis using sub [OF True SubqueryVal] by (cases r) auto
      qed
    qed (use True false in \<open>simp_all add: f renderFilter.simps failClosedFilter_def\<close>)
  next
    case False
    show thesis
    proof (cases "op_case op = OpFalse")
      case True
      then show thesis using false by (simp add: f renderFilter.simps)
    next
      case f0: False
      have "renderFilter rr f sc = column_filter rr f sc"
        using no False f0 by (cases "op_case op") (simp_all add: f renderFilter.simps)
      then show thesis using column no False f0 by blast
    qed
  qed
qed

lemma subquery_name_new: "subquery_name table sc \<noteq> sc_parent sc"
  by (auto simp: subquery_name_def)

lemma exists_scope_ok:
  assumes ok: "scope_ok sc env" and res: "exists_scope rr f model fs sc = Inr (m, inner)"
  shows "scope_ok inner ((sc_parent inner, row) # env)"
proof -
  obtain row' rest where env: "env = (sc_parent sc, row') # rest" using ok by (auto simp: scope_ok_def)
  have name: "sc_parent inner = subquery_name (rl_table m) sc" "sc_outer inner = sc_parent sc" "sc_parent sc \<noteq> []"
      "rl_table m \<noteq> []" "sc_tables inner = None" "\<not> sc_derived inner" "ti_rename (sc_info inner) = None"
      "ti_qualify (sc_info inner) = sc_parent inner"
    using res by (auto simp: exists_scope_def Let_def qualifiedBy_def tableInfoOf_def split: if_splits option.splits)
  then show ?thesis
    using subquery_name_new [of "rl_table m" sc] by (auto simp: scope_ok_def env subquery_name_def)
qed

text \<open>A rendered condition is at most what the filter means, and exactly that where nothing failed.\<close>

definition faithful ::
  "renderer \<Rightarrow> 'v sql_sem \<Rightarrow> (db_filter \<Rightarrow> 'v row list \<Rightarrow> bool) \<Rightarrow> filterScope \<Rightarrow> 'v env \<Rightarrow> db_filter \<Rightarrow> bool" where
  "faithful rr sem u sc env f \<longleftrightarrow>
     (eval (rr_dialect rr) sem env (fst (renderFilter rr f sc)) = Some True
        \<longrightarrow> filter_holds rr sem u sc (map snd env) f)
     \<and> (snd (renderFilter rr f sc) = None \<longrightarrow> filter_holds rr sem u sc (map snd env) f
        \<longrightarrow> eval (rr_dialect rr) sem env (fst (renderFilter rr f sc)) = Some True)"

lemma combine_and:
  assumes "combine_filters False (render_each rr fs sc) = (Some e, failure)"
    and "\<forall>f\<in>set fs. faithful rr sem u sc env f"
  shows "eval (rr_dialect rr) sem env e = Some True \<Longrightarrow> list_all (filter_holds rr sem u sc (map snd env)) fs"
    and "failure = None \<Longrightarrow> list_all (filter_holds rr sem u sc (map snd env)) fs
      \<Longrightarrow> eval (rr_dialect rr) sem env e = Some True"
proof -
  have e: "e = AndExpr (map (\<lambda>f. fst (renderFilter rr f sc)) fs)"
    and failure: "failure = pick_failure None (map (\<lambda>f. snd (renderFilter rr f sc)) fs)"
    using assms(1) by (auto simp: combine_filters_def render_each_map comp_def split: if_splits)
  have true: "eval (rr_dialect rr) sem env e = Some True
    \<longleftrightarrow> (\<forall>f\<in>set fs. eval (rr_dialect rr) sem env (fst (renderFilter rr f sc)) = Some True)"
    unfolding e using renderFilter_not_connector by (subst eval_AndExpr) auto
  show "eval (rr_dialect rr) sem env e = Some True \<Longrightarrow> list_all (filter_holds rr sem u sc (map snd env)) fs"
    using assms(2) by (auto simp: true faithful_def list_all_iff)
  show "failure = None \<Longrightarrow> list_all (filter_holds rr sem u sc (map snd env)) fs
      \<Longrightarrow> eval (rr_dialect rr) sem env e = Some True"
    using assms(2)
    by (auto simp: true failure faithful_def list_all_iff pick_failure_None)
qed

lemma combine_or:
  assumes "combine_filters True (render_each rr fs sc) = (Some e, failure)"
    and "\<forall>f\<in>set fs. faithful rr sem u sc env f"
  shows "eval (rr_dialect rr) sem env e = Some True \<Longrightarrow> list_ex (filter_holds rr sem u sc (map snd env)) fs"
    and "failure = None \<Longrightarrow> list_ex (filter_holds rr sem u sc (map snd env)) fs
      \<Longrightarrow> eval (rr_dialect rr) sem env e = Some True"
proof -
  have fs: "fs \<noteq> []" and failure: "failure = pick_failure None (map (\<lambda>f. snd (renderFilter rr f sc)) fs)"
    using assms(1) by (auto simp: combine_filters_def render_each_map comp_def split: if_splits)
  have true: "eval (rr_dialect rr) sem env e = Some True
    \<longleftrightarrow> (\<exists>f\<in>set fs. eval (rr_dialect rr) sem env (fst (renderFilter rr f sc)) = Some True)"
  proof (cases "length fs = 1")
    case True
    then obtain f where "fs = [f]" by (cases fs) auto
    then show ?thesis using assms(1) by (auto simp: combine_filters_def)
  next
    case False
    then have "e = OrExpr (map (\<lambda>f. fst (renderFilter rr f sc)) fs)"
      using assms(1) fs by (auto simp: combine_filters_def render_each_map comp_def)
    then show ?thesis by (auto simp: image_iff) metis
  qed
  show "eval (rr_dialect rr) sem env e = Some True \<Longrightarrow> list_ex (filter_holds rr sem u sc (map snd env)) fs"
    using assms(2) by (auto simp: true faithful_def list_ex_iff)
  show "failure = None \<Longrightarrow> list_ex (filter_holds rr sem u sc (map snd env)) fs
      \<Longrightarrow> eval (rr_dialect rr) sem env e = Some True"
    using assms(2)
    by (auto simp: true failure faithful_def list_ex_iff pick_failure_None)
qed

lemma faithful_group:
  assumes "\<forall>f\<in>set fs. faithful rr sem u sc env f" and "op_case op \<in> {OpOr, OpAnd}"
  shows "faithful rr sem u sc env (Filter t c op (FiltersVal fs))"
proof (cases "fs = []")
  case True
  then show ?thesis
    using assms(2) by (auto simp: faithful_def renderFilter_group groupCondition_def combine_filters_def failClosedFilter_def)
next
  case False
  obtain e failure where r: "combine_filters (op_case op = OpOr) (render_each rr fs sc) = (Some e, failure)"
    using False by (auto simp: combine_filters_def render_each_map)
  show ?thesis
  proof (cases "op_case op = OpOr")
    case True
    have "renderFilter rr (Filter t c op (FiltersVal fs)) sc = (e, failure)"
      using r True by (simp add: renderFilter_group groupCondition_def)
    then show ?thesis
      using combine_or [of rr fs sc e failure, OF _ assms(1)] r True False
      by (simp add: faithful_def filter_holds_group)
  next
    case no: False
    then have op: "op_case op = OpAnd" using assms(2) by simp
    have "renderFilter rr (Filter t c op (FiltersVal fs)) sc = (e, failure)"
      using r op by (simp add: renderFilter_group groupCondition_def)
    then show ?thesis
      using combine_and [of rr fs sc e failure, OF _ assms(1)] r op False
      by (simp add: faithful_def filter_holds_group)
  qed
qed

lemma faithful_exists:
  assumes sub: "\<And>row. \<forall>f\<in>set fs. faithful rr sem u inner ((sc_parent inner, row) # env) f"
    and scope: "exists_scope rr (Filter t c op (SubqueryVal model fs negate)) model fs sc = Inr (m, inner)"
    and op: "op_case op = OpExists"
  shows "faithful rr sem u sc env (Filter t c op (SubqueryVal model fs negate))"
proof -
  have fs: "fs \<noteq> []" using scope by (auto simp: exists_scope_def split: if_splits option.splits)
  obtain e failure where r: "combine_filters False (render_each rr fs inner) = (Some e, failure)"
    using fs by (auto simp: combine_filters_def render_each_map)
  note sub' = combine_and [OF r sub]
  note eqs = faithful_def renderFilter_exists [OF op scope] filter_holds_exists [OF op scope] existsCondition_def r
  show ?thesis
  proof (cases failure)
    case None
    have "(eval (rr_dialect rr) sem ((sc_parent inner, row) # env) e = Some True)
      = list_all (filter_holds rr sem u inner (row # map snd env)) fs" for row
      using sub' [of row] None by auto
    then show ?thesis unfolding eqs None by simp
  next
    case (Some err)
    then show ?thesis by (simp add: eqs)
  qed
qed

lemma faithful_column:
  assumes ok: "scope_ok sc env" and op: "op_case (f_Op f) \<notin> {OpOr, OpAnd, OpExists, OpFalse}"
    and render: "renderFilter rr f sc = column_filter rr f sc"
  shows "faithful rr sem u sc env f"
proof -
  have holds: "filter_holds rr sem u sc rows f
    = (if snd (column_filter rr f sc) = None then column_holds rr sem (sc_info sc) rows f else u f rows)" for rows
    using op by (cases f; cases "op_case (f_Op f)") (simp_all add: filter_holds.simps Let_def)
  obtain e failure where r: "column_filter rr f sc = (e, failure)" by (cases "column_filter rr f sc")
  show ?thesis
  proof (cases failure)
    case None
    then show ?thesis using column_filter_holds [OF ok, of rr f e sem] r by (simp add: faithful_def render holds)
  next
    case (Some err)
    then show ?thesis using column_filter_shape [of rr f sc] r by (simp add: faithful_def render well_shaped_def)
  qed
qed

lemma renderFilter_faithful: "scope_ok sc env \<Longrightarrow> faithful rr sem u sc env f"
proof (induction f arbitrary: sc env rule: measure_induct_rule [of size])
  case (less f)
  obtain t c op v where f: "f = Filter t c op v" by (cases f)
  from f show ?case
  proof (cases rule: renderFilter_cases [where rr = rr and sc = sc])
    case (group fs)
    then show ?thesis using faithful_group [of fs rr sem u sc env op t c] less size_children by (simp add: f)
  next
    case (sub model fs negate m inner)
    show ?thesis unfolding f sub(2)
    proof (rule faithful_exists [OF _ sub(3) [unfolded f sub(2)] sub(1)])
      fix row
      show "\<forall>g\<in>set fs. faithful rr sem u inner ((sc_parent inner, row) # env) g"
        using less.IH exists_scope_ok [OF less.prems sub(3)] size_subquery by (metis f sub(2))
    qed
  next
    case false
    then show ?thesis by (auto simp: faithful_def f filter_holds.simps Let_def)
  next
    case column
    then show ?thesis using faithful_column [OF less.prems] by (simp add: f)
  qed
qed

section \<open>Filters on a chain\<close>

lemma selects_row_append:
  assumes "\<forall>e\<in>set (conds @ new). \<not> or_connector e"
  shows "selects_row d sem m (conds @ new) row
    \<longleftrightarrow> selects_row d sem m conds row \<and> (\<forall>e\<in>set new. eval d sem [(rl_table m, row)] e = Some True)"
  using assms unfolding selects_row_def by (auto simp: eval_AndExpr simp del: eval.simps)

lemma renderFilters_chain:
  assumes r: "renderFilters rr fs False (outerScope rr) = (Some e, failure)"
  shows "\<not> or_connector e"
    and "eval (rr_dialect rr) sem [(rl_table (rr_model rr), row)] e = Some True
      \<Longrightarrow> list_all (filter_holds rr sem u (outerScope rr) [row]) fs"
    and "failure = None \<Longrightarrow> list_all (filter_holds rr sem u (outerScope rr) [row]) fs
      \<Longrightarrow> eval (rr_dialect rr) sem [(rl_table (rr_model rr), row)] e = Some True"
proof -
  have c: "combine_filters False (render_each rr fs (outerScope rr)) = (Some e, failure)"
    using r by (simp add: renderFilters_def)
  have all: "\<forall>f\<in>set fs. faithful rr sem u (outerScope rr) [(rl_table (rr_model rr), row)] f"
    using renderFilter_faithful [OF scope_ok_outerScope] by blast
  show "\<not> or_connector e" using c by (auto simp: combine_filters_def or_connector_def split: if_splits)
  show "eval (rr_dialect rr) sem [(rl_table (rr_model rr), row)] e = Some True
      \<Longrightarrow> list_all (filter_holds rr sem u (outerScope rr) [row]) fs"
    using combine_and(1) [OF c all] by simp
  show "failure = None \<Longrightarrow> list_all (filter_holds rr sem u (outerScope rr) [row]) fs
      \<Longrightarrow> eval (rr_dialect rr) sem [(rl_table (rr_model rr), row)] e = Some True"
    using combine_and(2) [OF c all] by simp
qed

text \<open>What \<open>applyFilters\<close> leaves of a chain: a defect, or at most one more condition.\<close>

lemma applyFilters_cases:
  obtains (err) err where "applyFilters rr fs ch = ch\<lparr>qc_err := Some err\<rparr>" "\<not> narrows err"
    | (empty) "fs = []" "applyFilters rr fs ch = ch"
    | (added) e failure where "renderFilters rr fs False (outerScope rr) = (Some e, failure)"
        "failure = None \<or> (\<exists>x. failure = Some x \<and> narrows x)"
        "applyFilters rr fs ch = ch\<lparr>qc_where := qc_where ch @ [e]\<rparr>"
proof (cases "foreignTableFilter fs (rl_table (rr_model rr)) []")
  case (Some r)
  then show thesis by (cases r) (auto simp: applyFilters_def narrows_def intro: err)
next
  case None
  obtain expr failure where r: "renderFilters rr fs False (outerScope rr) = (expr, failure)" by fastforce
  show thesis
  proof (cases "\<exists>x. failure = Some x \<and> \<not> narrows x")
    case True
    then show thesis using None r by (auto simp: applyFilters_def intro: err)
  next
    case False
    then have ok: "failure = None \<or> (\<exists>x. failure = Some x \<and> narrows x)" by (cases failure) auto
    show thesis
    proof (cases expr)
      case no: None
      then show thesis using None r ok
        by (auto simp: applyFilters_def renderFilters_def combine_filters_def render_each_map split: if_splits intro: empty)
    next
      case (Some e)
      then show thesis using None r ok by (auto simp: applyFilters_def intro: added)
    qed
  qed
qed

lemma chain_filters_sound:
  assumes err: "qc_err (applyFilters rr fs ch) = None"
    and plain: "list_all (\<lambda>e. \<not> or_connector e) (qc_where ch)"
  shows "(selects_row (rr_dialect rr) sem (rr_model rr) (qc_where (applyFilters rr fs ch)) row
            \<longrightarrow> selects_row (rr_dialect rr) sem (rr_model rr) (qc_where ch) row
                \<and> list_all (filter_holds rr sem u (outerScope rr) [row]) fs)
       \<and> (snd (renderFilters rr fs False (outerScope rr)) = None
            \<longrightarrow> selects_row (rr_dialect rr) sem (rr_model rr) (qc_where ch) row
            \<longrightarrow> list_all (filter_holds rr sem u (outerScope rr) [row]) fs
            \<longrightarrow> selects_row (rr_dialect rr) sem (rr_model rr) (qc_where (applyFilters rr fs ch)) row)"
proof (rule applyFilters_cases [of rr fs ch])
  fix e failure
  assume r: "renderFilters rr fs False (outerScope rr) = (Some e, failure)"
    and ch': "applyFilters rr fs ch = ch\<lparr>qc_where := qc_where ch @ [e]\<rparr>"
  note chain = renderFilters_chain(1) [OF r] renderFilters_chain(2,3) [OF r, where sem = sem and row = row and u = u]
  have "selects_row (rr_dialect rr) sem (rr_model rr) (qc_where ch @ [e]) row
    \<longleftrightarrow> selects_row (rr_dialect rr) sem (rr_model rr) (qc_where ch) row
        \<and> eval (rr_dialect rr) sem [(rl_table (rr_model rr), row)] e = Some True"
    using plain chain(1) by (subst selects_row_append) (auto simp: list_all_iff)
  then show ?thesis using chain(2,3) r ch' by auto
qed (use err in auto)

text \<open>The chain fails on a mistake only service code can make, and on no other.\<close>

lemma pick_failure_fatal:
  "(\<exists>e. pick_failure failure errs = Some e \<and> \<not> narrows e)
     \<longleftrightarrow> (\<exists>e. failure = Some e \<and> \<not> narrows e) \<or> (\<exists>e. Some e \<in> set errs \<and> \<not> narrows e)"
  by (induction errs arbitrary: failure) (auto split: option.splits)

end
