(* ===== verification/Db_Query.thy ===== *)
theory Db_Query
  imports Db_Filter
begin

text \<open>
  \<open>WithQuery\<close>, \<^verbatim>\<open>src/database/with_query.go\<close>: the fields of a query model and a list of filters as the
  conditions of a chain, with the guard against a query that has none; and what the list controller's
  parser hands it. A query model is what gorm reads of it: for each column, whether its field is
  readable, the value gorm binds for it and whether it is zero. \<open>None\<close> is the nil model.
\<close>

section \<open>The fields of a query model\<close>

record qfield =
  qf_readable :: bool
  qf_value :: gval
  qf_zero :: bool

type_synonym query_model = "string \<Rightarrow> qfield option"

record query_options =
  qo_AllowEmpty :: bool
  qo_PresentFields :: "string set"
  qo_Filters :: "db_filter list"

definition frameworkColumns :: "string list" where
  "frameworkColumns = [''id'', ''created_by'', ''updated_by'', ''created_at'', ''updated_at'', ''deleted_at'']"

definition timestampColumns :: "string list" where
  "timestampColumns = [''created_at'', ''updated_at'', ''deleted_at'']"

fun indirectValue :: "gval \<Rightarrow> gval option" where
  "indirectValue (PointerVal None) = None"
| "indirectValue (PointerVal (Some v)) = indirectValue v"
| "indirectValue v = Some v"

text \<open>An instant is bound in UTC, which is the same instant.\<close>

definition conditionValue :: "renderer \<Rightarrow> bool \<Rightarrow> gval \<Rightarrow> gval" where
  "conditionValue rr day v = (if day then dayValue rr v else v)"

definition column_condition :: "renderer \<Rightarrow> query_model \<Rightarrow> string set \<Rightarrow> column \<Rightarrow> gval option" where
  "column_condition rr query present c =
     (let named = co_QueryName c \<in> present \<and> co_Filterable c \<and> co_DBName c \<notin> set frameworkColumns in
      (case query (co_DBName c) of
         None \<Rightarrow> None
       | Some fld \<Rightarrow>
           (if \<not> named \<and> \<not> qf_readable fld \<or> co_DBName c \<in> set timestampColumns then None
            else if qf_zero fld \<and> \<not> named \<or> qf_value fld = NilVal then None
            else map_option (conditionValue rr (IsDateColumn c)) (indirectValue (qf_value fld)))))"

definition structConditions :: "renderer \<Rightarrow> query_model \<Rightarrow> column list \<Rightarrow> string set \<Rightarrow> string \<rightharpoonup> gval" where
  "structConditions rr query cols present =
     fold (\<lambda>c q. (case column_condition rr query present c of None \<Rightarrow> q | Some v \<Rightarrow> q(co_DBName c \<mapsto> v))) cols Map.empty"

definition sorted_keys :: "(string \<rightharpoonup> gval) \<Rightarrow> column list \<Rightarrow> string list" where
  "sorted_keys q cols = sort (remdups (filter (\<lambda>k. q k \<noteq> None) (map co_DBName cols)))"

definition blank_value :: "gval \<Rightarrow> bool" where
  "blank_value v =
     (case v of
        StringVal s \<Rightarrow> s = [] | BytesVal s \<Rightarrow> s = [] | SliceVal vs \<Rightarrow> vs = [] | FiltersVal fs \<Rightarrow> fs = []
      | ValuerVal b s \<Rightarrow> b \<and> s = [] | _ \<Rightarrow> False)"

section \<open>WithQuery\<close>

text \<open>The conditions of the fields, in column order; a field whose value is empty adds none.\<close>

definition field_conditions :: "column list \<Rightarrow> (string \<rightharpoonup> gval) \<Rightarrow> sql_expr list" where
  "field_conditions cols q =
     concat (map (\<lambda>k.
       (case q k of
          None \<Rightarrow> []
        | Some v \<Rightarrow>
            (if blank_value v then []
             else if k \<in> column_set IsJSONColumn cols then [FalseExpr]
             else [Comparison FilterOpEq (k \<in> column_set IsTimeColumn cols) ([], k) v])))
       (sorted_keys q cols))"

definition add_conditions :: "sql_expr list \<Rightarrow> query_chain \<Rightarrow> query_chain" where
  "add_conditions conds ch = ch\<lparr>qc_where := qc_where ch @ conds\<rparr>"

definition empty_query :: "query_options \<Rightarrow> query_chain \<Rightarrow> query_chain" where
  "empty_query opt ch =
     (if qo_Filters opt \<noteq> [] then ch
      else if \<not> qo_AllowEmpty opt then add_conditions [FalseExpr] ch
      else ch\<lparr>qc_matchAll := True\<rparr>)"

definition WithQuery :: "renderer \<Rightarrow> query_model option \<Rightarrow> query_options \<Rightarrow> query_chain \<Rightarrow> query_chain" where
  "WithQuery rr query opt ch =
     (let ch1 = (if qo_Filters opt \<noteq> [] then applyFilters rr (qo_Filters opt) ch else ch) in
      (case query of
         None \<Rightarrow> empty_query opt ch1
       | Some qm \<Rightarrow>
           (case rl_columns (rr_model rr) of
              None \<Rightarrow> add_conditions [FalseExpr] ch1
            | Some cols \<Rightarrow>
                (let q = structConditions rr qm cols (qo_PresentFields opt); conds = field_conditions cols q in
                 if sorted_keys q cols = [] then empty_query opt ch1
                 else
                   add_conditions
                     (conds @ (if conds = [] \<and> qo_Filters opt = [] \<and> \<not> qo_AllowEmpty opt then [FalseExpr] else []))
                     ch1))))"

section \<open>What it selects\<close>

text \<open>The equalities a query model stands for: one per column that gives a value which is not empty.\<close>

definition field_equalities :: "renderer \<Rightarrow> query_model option \<Rightarrow> query_options \<Rightarrow> (string \<times> gval) list" where
  "field_equalities rr query opt =
     (case (query, rl_columns (rr_model rr)) of
        (Some qm, Some cols) \<Rightarrow>
          (let q = structConditions rr qm cols (qo_PresentFields opt) in
           map (\<lambda>k. (k, the (q k))) (filter (\<lambda>k. \<not> blank_value (the (q k))) (sorted_keys q cols)))
      | _ \<Rightarrow> [])"

definition equality_holds :: "renderer \<Rightarrow> 'v sql_sem \<Rightarrow> 'v row \<Rightarrow> string \<times> gval \<Rightarrow> bool" where
  "equality_holds rr sem row eq \<longleftrightarrow>
     fst eq \<notin> column_set IsJSONColumn (resolved_columns (rr_model rr)) \<and>
     (\<exists>x. row (fst eq) = Some x \<and>
        sm_compare sem (fst eq \<in> column_set IsTimeColumn (resolved_columns (rr_model rr)) \<and> rr_dialect rr = dialectSQLite)
          FilterOpEq x (snd eq) = Some True)"

lemma sorted_keys_Some: "k \<in> set (sorted_keys q cols) \<Longrightarrow> q k \<noteq> None"
  by (auto simp: sorted_keys_def)

definition equality_expr :: "column list \<Rightarrow> string \<times> gval \<Rightarrow> sql_expr" where
  "equality_expr cols eq =
     (if fst eq \<in> column_set IsJSONColumn cols then FalseExpr
      else Comparison FilterOpEq (fst eq \<in> column_set IsTimeColumn cols) ([], fst eq) (snd eq))"

lemma field_conditions_equalities:
  assumes "rl_columns (rr_model rr) = Some cols" "q = structConditions rr qm cols (qo_PresentFields opt)"
  shows "field_conditions cols q = map (equality_expr cols) (field_equalities rr (Some qm) opt)"
proof -
  have "concat (map (\<lambda>k. (case q k of None \<Rightarrow> [] | Some v \<Rightarrow>
            (if blank_value v then [] else if k \<in> column_set IsJSONColumn cols then [FalseExpr]
             else [Comparison FilterOpEq (k \<in> column_set IsTimeColumn cols) ([], k) v]))) ks)
      = map (equality_expr cols) (map (\<lambda>k. (k, the (q k))) (filter (\<lambda>k. \<not> blank_value (the (q k))) ks))"
    if "\<forall>k\<in>set ks. q k \<noteq> None" for ks
    using that by (induction ks) (auto simp: equality_expr_def)
  then show ?thesis
    using sorted_keys_Some by (simp add: field_conditions_def field_equalities_def Let_def assms)
qed

lemma equality_expr_plain: "\<not> or_connector (equality_expr cols eq)"
  by (simp add: equality_expr_def or_connector_def)

lemma equality_expr_holds:
  "rl_columns (rr_model rr) = Some cols \<Longrightarrow>
    eval (rr_dialect rr) sem [(t, row)] (equality_expr cols eq) = Some True \<longleftrightarrow> equality_holds rr sem row eq"
  by (auto simp: equality_expr_def equality_holds_def resolved_columns_def col_value_def bind_eq_Some_conv)

lemma no_equalities_without_keys:
  "rl_columns (rr_model rr) = Some cols \<Longrightarrow> sorted_keys (structConditions rr qm cols (qo_PresentFields opt)) cols = []
    \<Longrightarrow> field_equalities rr (Some qm) opt = []"
  by (simp add: field_equalities_def)

text \<open>Whether a query says nothing: no filter, and no field with a value.\<close>

definition says_nothing :: "renderer \<Rightarrow> query_model option \<Rightarrow> query_options \<Rightarrow> bool" where
  "says_nothing rr query opt \<longleftrightarrow> qo_Filters opt = [] \<and> field_equalities rr query opt = []"

definition unreadable :: "renderer \<Rightarrow> query_model option \<Rightarrow> bool" where
  "unreadable rr query \<longleftrightarrow> query \<noteq> None \<and> rl_columns (rr_model rr) = None"

lemma empty_query_conditions:
  "qc_where (empty_query opt ch) = qc_where ch @ (if qo_Filters opt = [] \<and> \<not> qo_AllowEmpty opt then [FalseExpr] else [])"
  by (simp add: empty_query_def add_conditions_def)

text \<open>The conditions \<open>WithQuery\<close> adds besides those of its filters.\<close>

definition extra_conditions :: "renderer \<Rightarrow> query_model option \<Rightarrow> query_options \<Rightarrow> sql_expr list" where
  "extra_conditions rr query opt =
     (if unreadable rr query then [FalseExpr]
      else map (equality_expr (resolved_columns (rr_model rr))) (field_equalities rr query opt)
        @ (if says_nothing rr query opt \<and> \<not> qo_AllowEmpty opt then [FalseExpr] else []))"

lemma WithQuery_conditions:
  "qc_where (WithQuery rr query opt ch)
     = qc_where (if qo_Filters opt \<noteq> [] then applyFilters rr (qo_Filters opt) ch else ch) @ extra_conditions rr query opt"
proof (cases query)
  case None
  then show ?thesis
    by (simp add: WithQuery_def Let_def empty_query_conditions extra_conditions_def unreadable_def
        says_nothing_def field_equalities_def)
next
  case (Some qm)
  show ?thesis
  proof (cases "rl_columns (rr_model rr)")
    case None
    then show ?thesis using Some
      by (simp add: WithQuery_def Let_def extra_conditions_def unreadable_def add_conditions_def)
  next
    case cols: (Some cols)
    define q where "q = structConditions rr qm cols (qo_PresentFields opt)"
    have fc: "field_conditions cols q = map (equality_expr cols) (field_equalities rr query opt)"
      using field_conditions_equalities [OF cols] Some by (simp add: q_def)
    show ?thesis
      using fc no_equalities_without_keys [OF cols, of qm opt] Some
      by (auto simp: WithQuery_def Let_def cols q_def [symmetric] empty_query_conditions
          extra_conditions_def unreadable_def add_conditions_def says_nothing_def resolved_columns_def)
  qed
qed

lemma extra_conditions_plain: "e \<in> set (extra_conditions rr query opt) \<Longrightarrow> \<not> or_connector e"
proof -
  have "\<not> or_connector FalseExpr" by (simp add: or_connector_def)
  then show "e \<in> set (extra_conditions rr query opt) \<Longrightarrow> \<not> or_connector e"
    by (auto simp: extra_conditions_def equality_expr_plain split: if_splits)
qed

lemma extra_conditions_hold:
  "(\<forall>e\<in>set (extra_conditions rr query opt). eval (rr_dialect rr) sem [(t, row)] e = Some True)
     \<longleftrightarrow> \<not> unreadable rr query \<and> list_all (equality_holds rr sem row) (field_equalities rr query opt)
         \<and> (says_nothing rr query opt \<longrightarrow> qo_AllowEmpty opt)"
proof (cases "rl_columns (rr_model rr)")
  case None
  then have "field_equalities rr query opt = []" by (simp add: field_equalities_def split: option.splits)
  then show ?thesis by (auto simp: extra_conditions_def)
next
  case (Some cols)
  then show ?thesis
    by (simp add: extra_conditions_def unreadable_def resolved_columns_def equality_expr_holds list_all_iff ball_Un)
qed

lemma WithQuery_err:
  "qc_err (WithQuery rr query opt ch)
     = qc_err (if qo_Filters opt \<noteq> [] then applyFilters rr (qo_Filters opt) ch else ch)"
  by (simp add: WithQuery_def Let_def empty_query_def add_conditions_def split: option.split)

lemma applyFilters_plain:
  assumes "list_all (\<lambda>e. \<not> or_connector e) (qc_where ch)"
  shows "list_all (\<lambda>e. \<not> or_connector e) (qc_where (applyFilters rr fs ch))"
  by (rule applyFilters_cases [of rr fs ch]) (use assms renderFilters_chain(1) in auto)

lemma WithQuery_selects:
  assumes err: "qc_err (WithQuery rr query opt ch) = None"
    and plain: "list_all (\<lambda>e. \<not> or_connector e) (qc_where ch)"
  shows "(selects_row (rr_dialect rr) sem (rr_model rr) (qc_where (WithQuery rr query opt ch)) row
      \<longrightarrow> selects_row (rr_dialect rr) sem (rr_model rr) (qc_where ch) row
          \<and> list_all (filter_holds rr sem u (outerScope rr) [row]) (qo_Filters opt)
          \<and> \<not> unreadable rr query \<and> list_all (equality_holds rr sem row) (field_equalities rr query opt)
          \<and> (says_nothing rr query opt \<longrightarrow> qo_AllowEmpty opt))
    \<and> (snd (renderFilters rr (qo_Filters opt) False (outerScope rr)) = None
      \<longrightarrow> selects_row (rr_dialect rr) sem (rr_model rr) (qc_where ch) row
      \<longrightarrow> list_all (filter_holds rr sem u (outerScope rr) [row]) (qo_Filters opt)
      \<longrightarrow> \<not> unreadable rr query \<longrightarrow> list_all (equality_holds rr sem row) (field_equalities rr query opt)
      \<longrightarrow> (says_nothing rr query opt \<longrightarrow> qo_AllowEmpty opt)
      \<longrightarrow> selects_row (rr_dialect rr) sem (rr_model rr) (qc_where (WithQuery rr query opt ch)) row)"
proof -
  define ch1 where "ch1 = (if qo_Filters opt \<noteq> [] then applyFilters rr (qo_Filters opt) ch else ch)"
  have plain1: "list_all (\<lambda>e. \<not> or_connector e) (qc_where ch1)"
    using plain applyFilters_plain by (simp add: ch1_def)
  have all: "\<forall>e\<in>set (qc_where ch1 @ extra_conditions rr query opt). \<not> or_connector e"
    using plain1 extra_conditions_plain by (auto simp: list_all_iff)
  have split: "selects_row (rr_dialect rr) sem (rr_model rr) (qc_where (WithQuery rr query opt ch)) row
    \<longleftrightarrow> selects_row (rr_dialect rr) sem (rr_model rr) (qc_where ch1) row
      \<and> \<not> unreadable rr query \<and> list_all (equality_holds rr sem row) (field_equalities rr query opt)
      \<and> (says_nothing rr query opt \<longrightarrow> qo_AllowEmpty opt)"
    unfolding WithQuery_conditions ch1_def [symmetric] selects_row_append [OF all] extra_conditions_hold ..
  show ?thesis
  proof (cases "qo_Filters opt = []")
    case True
    then show ?thesis unfolding split by (simp add: ch1_def)
  next
    case False
    have "qc_err (applyFilters rr (qo_Filters opt) ch) = None" using err False by (simp add: WithQuery_err)
    from chain_filters_sound [OF this plain, of sem row u] show ?thesis
      unfolding split using False by (simp add: ch1_def)
  qed
qed

section \<open>What a query model asks for\<close>

text \<open>
  The rules of the documentation of \<open>structConditions\<close>, one by one and without its loop. A pointer stands for
  what it points to, and a nil one for nothing; a day stands for the instant it begins.
\<close>

inductive stands_for :: "gval \<Rightarrow> gval \<Rightarrow> bool" where
  stands_pointer: "stands_for v w \<Longrightarrow> stands_for (PointerVal (Some v)) w"
| stands_itself: "\<nexists>p. v = PointerVal p \<Longrightarrow> stands_for v v"

definition day_begins :: "int \<Rightarrow> int \<Rightarrow> bool" where
  "day_begins t d \<longleftrightarrow> d \<le> t \<and> t < d + 86400000000000 \<and> 86400000000000 dvd d"

definition on_day :: "renderer \<Rightarrow> gval \<Rightarrow> gval \<Rightarrow> bool" where
  "on_day rr w v \<longleftrightarrow>
     (case w of
        TimeVal t \<Rightarrow> \<exists>d. day_begins t d \<and> v = TimeVal d
      | TimeStruct t \<Rightarrow> \<exists>d. day_begins t d \<and> v = TimeVal d
      | StringVal s \<Rightarrow>
          (case rr_parseTime rr s of None \<Rightarrow> v = w | Some t \<Rightarrow> \<exists>d. day_begins t d \<and> v = StringVal (rr_formatTime rr d))
      | _ \<Rightarrow> v = w)"

text \<open>A client may name a column to ask for its zero value, unless it is one every model carries.\<close>

definition named_by_client :: "string set \<Rightarrow> column \<Rightarrow> bool" where
  "named_by_client present c \<longleftrightarrow> co_QueryName c \<in> present \<and> co_Filterable c \<and>
     co_DBName c \<notin> {''id'', ''created_by'', ''updated_by'', ''created_at'', ''updated_at'', ''deleted_at''}"

definition asks :: "renderer \<Rightarrow> query_model option \<Rightarrow> string set \<Rightarrow> column \<Rightarrow> gval \<Rightarrow> bool" where
  "asks rr query present c v \<longleftrightarrow>
     (\<exists>qm fld w. query = Some qm \<and> qm (co_DBName c) = Some fld \<and>
        co_DBName c \<notin> {''created_at'', ''updated_at'', ''deleted_at''} \<and>
        (named_by_client present c \<or> qf_readable fld \<and> \<not> qf_zero fld) \<and>
        qf_value fld \<noteq> NilVal \<and> stands_for (qf_value fld) w \<and>
        (if IsDateColumn c then on_day rr w v else v = w) \<and>
        v \<notin> {StringVal [], BytesVal [], SliceVal [], FiltersVal [], ValuerVal True []})"

text \<open>No value equals a JSON document; instants compare as such where the dialect stores them as text.\<close>

definition column_equals :: "renderer \<Rightarrow> 'v sql_sem \<Rightarrow> 'v row \<Rightarrow> column \<Rightarrow> gval \<Rightarrow> bool" where
  "column_equals rr sem row c v \<longleftrightarrow> \<not> IsJSONColumn c \<and>
     (\<exists>x. row (co_DBName c) = Some x \<and> sm_compare sem (IsTimeColumn c \<and> rr_dialect rr = dialectSQLite) FilterOpEq x v = Some True)"

definition all_asked_hold :: "renderer \<Rightarrow> query_model option \<Rightarrow> query_options \<Rightarrow> 'v sql_sem \<Rightarrow> 'v row \<Rightarrow> bool" where
  "all_asked_hold rr query opt sem row \<longleftrightarrow>
     (\<forall>c\<in>set (resolved_columns (rr_model rr)). \<forall>v. asks rr query (qo_PresentFields opt) c v \<longrightarrow> column_equals rr sem row c v)"

definition asks_nothing :: "renderer \<Rightarrow> query_model option \<Rightarrow> query_options \<Rightarrow> bool" where
  "asks_nothing rr query opt \<longleftrightarrow> qo_Filters opt = [] \<and>
     (\<forall>c\<in>set (resolved_columns (rr_model rr)). \<forall>v. \<not> asks rr query (qo_PresentFields opt) c v)"

lemma stands_for_iff: "stands_for v w \<longleftrightarrow> indirectValue v = Some w"
proof
  show "stands_for v w \<Longrightarrow> indirectValue v = Some w"
  proof (induction rule: stands_for.induct)
    case (stands_itself v)
    then show ?case by (cases v) auto
  qed simp
  show "indirectValue v = Some w \<Longrightarrow> stands_for v w"
    by (induction v rule: indirectValue.induct) (auto intro: stands_for.intros)
qed

lemma day_begins_iff: "day_begins t d \<longleftrightarrow> d = UTCDay t"
proof
  assume a: "day_begins t d"
  then obtain k where k: "d = 86400000000000 * k" by (auto simp: day_begins_def)
  with a have "t div 86400000000000 = k"
    by (intro int_div_pos_eq [of t _ k "t - d"]) (simp_all add: day_begins_def)
  with k show "d = UTCDay t" by (simp add: UTCDay_def)
next
  assume "d = UTCDay t"
  then show "day_begins t d" by (auto simp: day_begins_def UTCDay_def)
qed

lemma on_day_iff: "on_day rr w v \<longleftrightarrow> v = dayValue rr w"
  by (auto simp: on_day_def dayValue_def day_begins_iff split: gval.split option.split)

lemma asks_iff: "asks rr (Some qm) present c v \<longleftrightarrow> column_condition rr qm present c = Some v \<and> \<not> blank_value v"
proof -
  have blank: "v \<notin> {StringVal [], BytesVal [], SliceVal [], FiltersVal [], ValuerVal True []} \<longleftrightarrow> \<not> blank_value v"
    by (cases v) (auto simp: blank_value_def)
  have named: "named_by_client present c \<longleftrightarrow> co_QueryName c \<in> present \<and> co_Filterable c \<and> co_DBName c \<notin> set frameworkColumns"
    by (simp add: named_by_client_def frameworkColumns_def)
  have stamps: "co_DBName c \<in> set timestampColumns \<longleftrightarrow> co_DBName c \<in> {''created_at'', ''updated_at'', ''deleted_at''}"
    by (simp add: timestampColumns_def)
  show ?thesis
    unfolding asks_def blank named stands_for_iff on_day_iff column_condition_def stamps Let_def conditionValue_def
    by (auto split: option.splits)
qed

lemma structConditions_iff:
  assumes "distinct (map co_DBName cols)"
  shows "structConditions rr qm cols present k = Some v \<longleftrightarrow>
    (\<exists>c\<in>set cols. co_DBName c = k \<and> column_condition rr qm present c = Some v)"
proof -
  have "fold (\<lambda>c q. (case column_condition rr qm present c of None \<Rightarrow> q | Some v \<Rightarrow> q(co_DBName c \<mapsto> v))) cols q0 k = Some v \<longleftrightarrow>
      (\<exists>c\<in>set cols. co_DBName c = k \<and> column_condition rr qm present c = Some v) \<or>
      q0 k = Some v \<and> (\<forall>c\<in>set cols. co_DBName c = k \<longrightarrow> column_condition rr qm present c = None)" for q0
    using assms
  proof (induction cols arbitrary: q0)
    case (Cons c cols)
    then have "co_DBName c \<notin> co_DBName ` set cols" by simp
    then have "c' \<in> set cols \<Longrightarrow> co_DBName c' \<noteq> co_DBName c" for c' by (metis image_eqI)
    with Cons show ?case by (cases "column_condition rr qm present c") auto
  qed simp
  then show ?thesis by (simp add: structConditions_def)
qed

text \<open>The equalities the code computes are the ones the query model asks for.\<close>

lemma set_field_equalities:
  assumes "distinct (map co_DBName (resolved_columns (rr_model rr)))"
  shows "set (field_equalities rr query opt) =
    {(co_DBName c, v) | c v. c \<in> set (resolved_columns (rr_model rr)) \<and> asks rr query (qo_PresentFields opt) c v}"
proof (cases "query = None \<or> rl_columns (rr_model rr) = None")
  case True
  then show ?thesis by (auto simp: field_equalities_def asks_def resolved_columns_def split: option.splits)
next
  case False
  then obtain qm cols where qm: "query = Some qm" "rl_columns (rr_model rr) = Some cols" by auto
  then have cols: "resolved_columns (rr_model rr) = cols" by (simp add: resolved_columns_def)
  let ?q = "structConditions rr qm cols (qo_PresentFields opt)"
  note q = structConditions_iff [OF assms [unfolded cols], of rr qm "qo_PresentFields opt"]
  have "k \<in> set (sorted_keys ?q cols)" if "?q k = Some v" for k v
    using that q [of k v] by (auto simp: sorted_keys_def)
  then have keys: "k \<in> set (sorted_keys ?q cols) \<longleftrightarrow> (\<exists>v. ?q k = Some v)" for k
    using sorted_keys_Some [of k ?q cols] by (cases "?q k") auto
  have "(k, v) \<in> set (field_equalities rr query opt) \<longleftrightarrow> ?q k = Some v \<and> \<not> blank_value v" for k v
    by (auto simp: field_equalities_def qm Let_def keys image_iff)
  then have "(k, v) \<in> set (field_equalities rr query opt) \<longleftrightarrow>
      (k, v) \<in> {(co_DBName c, v) | c v. c \<in> set cols \<and> asks rr query (qo_PresentFields opt) c v}" for k v
    unfolding q qm(1) asks_iff by auto
  then show ?thesis unfolding cols by auto
qed

lemma field_equalities_asked:
  assumes d: "distinct (map co_DBName (resolved_columns (rr_model rr)))"
  shows "list_all (equality_holds rr sem row) (field_equalities rr query opt) \<longleftrightarrow> all_asked_hold rr query opt sem row"
    and "says_nothing rr query opt \<longleftrightarrow> asks_nothing rr query opt"
proof -
  have "co_DBName c \<in> column_set P (resolved_columns (rr_model rr)) \<longleftrightarrow> P c" if "c \<in> set (resolved_columns (rr_model rr))" for c P
    using that d by (auto simp: column_set_def distinct_map dest: inj_onD)
  then have "equality_holds rr sem row (co_DBName c, v) \<longleftrightarrow> column_equals rr sem row c v"
    if "c \<in> set (resolved_columns (rr_model rr))" for c v
    using that by (simp add: equality_holds_def column_equals_def)
  then show "list_all (equality_holds rr sem row) (field_equalities rr query opt) \<longleftrightarrow> all_asked_hold rr query opt sem row"
    unfolding list_all_iff set_field_equalities [OF d] all_asked_hold_def by fastforce
  have "field_equalities rr query opt = [] \<longleftrightarrow> set (field_equalities rr query opt) = {}" by simp
  also have "\<dots> \<longleftrightarrow> (\<forall>c\<in>set (resolved_columns (rr_model rr)). \<forall>v. \<not> asks rr query (qo_PresentFields opt) c v)"
    unfolding set_field_equalities [OF d] by auto
  finally show "says_nothing rr query opt \<longleftrightarrow> asks_nothing rr query opt"
    by (simp add: says_nothing_def asks_nothing_def)
qed

section \<open>The filters of a list request\<close>

text \<open>A condition the URL parser built, as the filter it hands the database layer.\<close>

definition bound_value :: "fvalue \<Rightarrow> gval" where
  "bound_value v =
     (case v of VBool b \<Rightarrow> BoolVal b | VStr s \<Rightarrow> StringVal s | VList items \<Rightarrow> SliceVal (map StringVal items))"

definition NewFilter :: "filter_cond \<Rightarrow> db_filter" where
  "NewFilter c = Filter [] (fc_column c) (op_token (fc_op c)) (bound_value (fc_value c))"

text \<open>The shape of value an operator takes, as the parser normalises it.\<close>

definition shape_of :: "FilterOp \<Rightarrow> fvalue \<Rightarrow> bool" where
  "shape_of p v =
     (case v of
        VBool _ \<Rightarrow> p \<in> {FilterOpIsNull, FilterOpEq, FilterOpNe}
      | VList _ \<Rightarrow> p \<in> {FilterOpIn, FilterOpNotIn}
      | VStr _ \<Rightarrow> p \<notin> {FilterOpIsNull, FilterOpIn, FilterOpNotIn})"

lemma normalizeFilterValue_shape: "normalizeFilterValue rd col p raw = Inr v \<Longrightarrow> shape_of p v"
  unfolding normalizeFilterValue_def
  by (auto simp: shape_of_def parsed_bool_def filterOps_def FilterOps_def timeBound_def
      split: if_splits option.splits list.splits)

lemma filter_key_shape:
  "filter_key rd cols q key = Inr (Some c) \<Longrightarrow> shape_of (fc_op c) (fc_value c) \<and> fc_column c \<in> co_DBName ` set cols"
  by (auto simp: filter_key_def Let_def FilterableIndex_def
      split: sum.splits option.splits if_splits dest!: normalizeFilterValue_shape map_of_SomeD)

lemma filter_keys_shape:
  "filter_keys rd cols q keys = Inr conds
    \<Longrightarrow> list_all (\<lambda>c. shape_of (fc_op c) (fc_value c) \<and> fc_column c \<in> co_DBName ` set cols) conds"
proof (induction keys arbitrary: conds)
  case (Cons key keys)
  obtain r where r: "filter_key rd cols q key = Inr r"
    using Cons.prems by (cases "filter_key rd cols q key") auto
  obtain conds' where rest: "filter_keys rd cols q keys = Inr conds'"
    using Cons.prems r by (cases "filter_keys rd cols q keys") auto
  show ?case using Cons.prems Cons.IH [OF rest] r rest filter_key_shape [of rd cols q key]
    by (auto split: option.splits)
qed simp

lemma Filters_shape:
  "Filters rd q m = Inr conds
    \<Longrightarrow> list_all (\<lambda>c. shape_of (fc_op c) (fc_value c) \<and> fc_column c \<in> co_DBName ` set (mi_columns m)) conds"
  by (auto simp: Filters_def Let_def split: if_splits dest: filter_keys_shape)

lemma op_case_token [simp]: "op_case (op_token p) = UrlOp p"
  by (simp add: op_case_def)

lemma url_filter_usable:
  "shape_of p v \<Longrightarrow> snd (url_filter rr (Filter t c (op_token p) (bound_value v)) info col p) = None"
  by (cases p; cases v)
     (simp_all add: shape_of_def bound_value_def url_filter_def scalarFilter_def listFilter_def patternFilter_def list_kind_def)

lemma placeFilter_outer: "f_Table f = [] \<Longrightarrow> placeFilter f (outerScope rr) = Inr (([], f_Column f), sc_info (outerScope rr))"
  by (simp add: placeFilter_def names_other_table_def outerScope_def scopedColumn_def info_column_def tableInfoOf_def)

lemma NewFilter_renders:
  assumes "shape_of (fc_op c) (fc_value c)" and "fc_column c \<noteq> []"
  shows "snd (renderFilter rr (NewFilter c) (outerScope rr)) = None"
    and "filter_holds rr sem u (outerScope rr) [row] (NewFilter c)
      \<longleftrightarrow> url_holds rr sem (sc_info (outerScope rr)) (fc_column c) (fc_op c) (bound_value (fc_value c)) (row (fc_column c))"
proof -
  have col: "snd (column_filter rr (NewFilter c) (outerScope rr)) = None"
    using assms url_filter_usable by (simp add: column_filter_def NewFilter_def placeFilter_outer)
  then show "snd (renderFilter rr (NewFilter c) (outerScope rr)) = None"
    by (simp add: NewFilter_def renderFilter.simps)
  show "filter_holds rr sem u (outerScope rr) [row] (NewFilter c)
      \<longleftrightarrow> url_holds rr sem (sc_info (outerScope rr)) (fc_column c) (fc_op c) (bound_value (fc_value c)) (row (fc_column c))"
    using col by (simp add: NewFilter_def filter_holds.simps Let_def column_holds_def)
qed

lemma NewFilter_own_table: "foreignTableFilter (map NewFilter conds) own enclosing = None"
  by (induction conds) (simp_all add: NewFilter_def)

section \<open>Properties\<close>

text \<open>
  C8: filters never widen a query. Whatever meaning one gives the filters that cannot be applied, a chain
  that is not refused selects only rows that were selected before and that pass every filter, groups,
  subqueries and their negations included; where every filter can be applied it selects exactly those.
\<close>

theorem filters_never_widen:
  assumes "qc_err (applyFilters rr fs ch) = None" and "list_all (\<lambda>e. \<not> or_connector e) (qc_where ch)"
  shows "(selects_row (rr_dialect rr) sem (rr_model rr) (qc_where (applyFilters rr fs ch)) row
            \<longrightarrow> selects_row (rr_dialect rr) sem (rr_model rr) (qc_where ch) row
                \<and> list_all (filter_holds rr sem u (outerScope rr) [row]) fs)
       \<and> (snd (renderFilters rr fs False (outerScope rr)) = None
            \<longrightarrow> selects_row (rr_dialect rr) sem (rr_model rr) (qc_where ch) row
            \<longrightarrow> list_all (filter_holds rr sem u (outerScope rr) [row]) fs
            \<longrightarrow> selects_row (rr_dialect rr) sem (rr_model rr) (qc_where (applyFilters rr fs ch)) row)"
  using assms by (rule chain_filters_sound)

text \<open>A chain over notes and their items; values are strings, compared as such.\<close>

definition text_column :: "string \<Rightarrow> column" where
  "text_column name =
     \<lparr>co_GoName = name, co_QueryName = name, co_DBName = name, co_timeOfDay = False, co_nullable = False,
      co_dataType = ''string'', co_gormDataType = ''string'', co_Index = [0], co_Filterable = True, co_NotNull = True,
      co_PrimaryKey = (name = ''id'')\<rparr>"

definition note_model :: related where
  "note_model = \<lparr>rl_table = ''notes'', rl_columns = Some [text_column ''id'', text_column ''owner''], rl_deleted = None\<rparr>"

definition item_model :: related where
  "item_model = \<lparr>rl_table = ''items'', rl_columns = Some [text_column ''note_id'', text_column ''kind''],
            rl_deleted = Some ''deleted_at''\<rparr>"

definition notes_chain :: renderer where
  "notes_chain = \<lparr>rr_dialect = dialectSQLite, rr_model = note_model, rr_parseTime = (\<lambda>_. None), rr_formatTime = (\<lambda>_. [])\<rparr>"

definition string_sem :: "string sql_sem" where
  "string_sem =
     \<lparr>sm_compare = (\<lambda>_ p x v. (case v of
          StringVal s \<Rightarrow> Some (if p = FilterOpEq then x = s else if p = FilterOpNe then x \<noteq> s else False) | _ \<Rightarrow> None)),
      sm_member = (\<lambda>x v. (case v of SliceVal [] \<Rightarrow> None | SliceVal vs \<Rightarrow> Some (StringVal x \<in> set vs) | _ \<Rightarrow> None)),
      sm_text = id, sm_same = (=), sm_regex = (\<lambda>_ _. False), sm_json = (\<lambda>_ _. None), sm_equal = (\<lambda>x y. Some (x = y)),
      sm_rows = (\<lambda>t. if t = ''items'' then
        [(\<lambda>c. if c = ''note_id'' then Some ''n1'' else if c = ''kind'' then Some ''done'' else None)] else [])\<rparr>"

definition note_row :: "string \<Rightarrow> string row" where
  "note_row name = (\<lambda>c. if c = ''id'' then Some name else if c = ''owner'' then Some ''me'' else None)"

definition open_notes :: "db_filter list" where
  "open_notes =
     [FilterOr [FilterLike ''owner'' ''m'', Filter [] ''id'' ''in'' NilVal],
      FilterNotExists (Some item_model) [FilterEqCol ''note_id'' ''id'', FilterEq ''kind'' (StringVal ''done'')]]"

definition empty_chain :: query_chain where
  "empty_chain = \<lparr>qc_where = [], qc_err = None, qc_matchAll = False\<rparr>"

lemma open_notes_chain:
  "qc_err (applyFilters notes_chain open_notes empty_chain) = None"
  "selects_row (rr_dialect notes_chain) string_sem (rr_model notes_chain)
     (qc_where (applyFilters notes_chain open_notes empty_chain)) (note_row ''n2'')"
  "\<not> selects_row (rr_dialect notes_chain) string_sem (rr_model notes_chain)
     (qc_where (applyFilters notes_chain open_notes empty_chain)) (note_row ''n1'')"
  by code_simp+

theorem filters_never_widen_witness:
  "selects_row (rr_dialect notes_chain) string_sem (rr_model notes_chain)
     (qc_where (applyFilters notes_chain open_notes empty_chain)) (note_row ''n2'')
   \<and> list_all (filter_holds notes_chain string_sem (\<lambda>_ _. False) (outerScope notes_chain) [note_row ''n2'']) open_notes"
  using filters_never_widen [of notes_chain open_notes empty_chain string_sem "note_row ''n2''" "\<lambda>_ _. False"]
    open_notes_chain by (simp add: empty_chain_def)

text \<open>
  C10: what a query selects, in full: of the rows selected before, those that pass every filter and whose
  columns equal every value the query model asks for, by the documented rules: the readable fields that are
  not zero and those a client may name and did, not the timestamps, neither nil nor empty, a day as the
  instant it begins. A query that asks nothing selects no row at all unless that was wanted, and neither
  does one over a model gorm cannot read. Columns have distinct names.
\<close>

theorem query_selects_exactly:
  assumes "qc_err (WithQuery rr query opt ch) = None" and "list_all (\<lambda>e. \<not> or_connector e) (qc_where ch)"
    and "distinct (map co_DBName (resolved_columns (rr_model rr)))"
  shows "(selects_row (rr_dialect rr) sem (rr_model rr) (qc_where (WithQuery rr query opt ch)) row
      \<longrightarrow> selects_row (rr_dialect rr) sem (rr_model rr) (qc_where ch) row
          \<and> list_all (filter_holds rr sem u (outerScope rr) [row]) (qo_Filters opt)
          \<and> \<not> unreadable rr query \<and> all_asked_hold rr query opt sem row
          \<and> (asks_nothing rr query opt \<longrightarrow> qo_AllowEmpty opt))
    \<and> (snd (renderFilters rr (qo_Filters opt) False (outerScope rr)) = None
      \<longrightarrow> selects_row (rr_dialect rr) sem (rr_model rr) (qc_where ch) row
      \<longrightarrow> list_all (filter_holds rr sem u (outerScope rr) [row]) (qo_Filters opt)
      \<longrightarrow> \<not> unreadable rr query \<longrightarrow> all_asked_hold rr query opt sem row
      \<longrightarrow> (asks_nothing rr query opt \<longrightarrow> qo_AllowEmpty opt)
      \<longrightarrow> selects_row (rr_dialect rr) sem (rr_model rr) (qc_where (WithQuery rr query opt ch)) row)"
  using WithQuery_selects [OF assms(1,2), of sem row u] unfolding field_equalities_asked [OF assms(3)] .

definition owner_query :: "string \<Rightarrow> query_model" where
  "owner_query owner = (\<lambda>c.
     if c = ''owner'' then Some \<lparr>qf_readable = True, qf_value = StringVal owner, qf_zero = (owner = [])\<rparr>
     else if c = ''id'' then Some \<lparr>qf_readable = True, qf_value = StringVal [], qf_zero = True\<rparr> else None)"

definition plain_options :: query_options where
  "plain_options = \<lparr>qo_AllowEmpty = False, qo_PresentFields = {}, qo_Filters = []\<rparr>"

lemma owner_query_chain:
  "qc_err (WithQuery notes_chain (Some (owner_query ''me'')) plain_options empty_chain) = None"
  "qc_err (WithQuery notes_chain (Some (owner_query [])) plain_options empty_chain) = None"
  "distinct (map co_DBName (resolved_columns (rr_model notes_chain)))"
  "selects_row (rr_dialect notes_chain) string_sem (rr_model notes_chain)
     (qc_where (WithQuery notes_chain (Some (owner_query ''me'')) plain_options empty_chain)) (note_row ''n1'')"
  by code_simp+

lemma owner_query_asks:
  "asks notes_chain (Some (owner_query ''me'')) {} (text_column ''owner'') (StringVal ''me'')"
  "asks_nothing notes_chain (Some (owner_query [])) plain_options"
proof -
  have "\<not> IsDateColumn (text_column ''owner'')" by code_simp
  then show "asks notes_chain (Some (owner_query ''me'')) {} (text_column ''owner'') (StringVal ''me'')"
    by (simp add: asks_def owner_query_def text_column_def stands_itself)
  show "asks_nothing notes_chain (Some (owner_query [])) plain_options"
    by (auto simp: asks_nothing_def asks_def owner_query_def plain_options_def named_by_client_def split: if_splits)
qed

theorem query_selects_exactly_witness:
  "column_equals notes_chain string_sem (note_row ''n1'') (text_column ''owner'') (StringVal ''me'')
   \<and> \<not> selects_row (rr_dialect notes_chain) string_sem (rr_model notes_chain)
       (qc_where (WithQuery notes_chain (Some (owner_query [])) plain_options empty_chain)) (note_row ''n1'')"
proof
  have "text_column ''owner'' \<in> set (resolved_columns (rr_model notes_chain))"
    by (simp add: resolved_columns_def notes_chain_def note_model_def)
  moreover have "all_asked_hold notes_chain (Some (owner_query ''me'')) plain_options string_sem (note_row ''n1'')"
    using query_selects_exactly [OF owner_query_chain(1) _ owner_query_chain(3), where row = "note_row ''n1''" and sem = string_sem
        and u = "\<lambda>_ _. False"] owner_query_chain(4) by (simp add: empty_chain_def)
  ultimately show "column_equals notes_chain string_sem (note_row ''n1'') (text_column ''owner'') (StringVal ''me'')"
    using owner_query_asks(1) by (auto simp: all_asked_hold_def plain_options_def)
  show "\<not> selects_row (rr_dialect notes_chain) string_sem (rr_model notes_chain)
       (qc_where (WithQuery notes_chain (Some (owner_query [])) plain_options empty_chain)) (note_row ''n1'')"
    using query_selects_exactly [OF owner_query_chain(2) _ owner_query_chain(3), where row = "note_row ''n1''" and sem = string_sem
        and u = "\<lambda>_ _. False"] owner_query_asks(2) by (simp add: empty_chain_def plain_options_def)
qed

text \<open>
  A query model whose only value is a pointer to an empty string, sent with \<open>AllowEmpty\<close>, adds no condition
  and is not recorded as meaning every row, unlike the nil model and the zero one.
\<close>

definition pointer_query :: query_model where
  "pointer_query = (\<lambda>c. if c = ''owner'' then
     Some \<lparr>qf_readable = True, qf_value = PointerVal (Some (StringVal [])), qf_zero = False\<rparr> else None)"

lemma allow_empty_not_recorded:
  "qc_where (WithQuery notes_chain (Some pointer_query) (plain_options\<lparr>qo_AllowEmpty := True\<rparr>) empty_chain) = []"
  "\<not> qc_matchAll (WithQuery notes_chain (Some pointer_query) (plain_options\<lparr>qo_AllowEmpty := True\<rparr>) empty_chain)"
  "qc_matchAll (WithQuery notes_chain (Some (owner_query [])) (plain_options\<lparr>qo_AllowEmpty := True\<rparr>) empty_chain)"
  by code_simp+

text \<open>
  C9: the filters of an accepted list request never fail the chain, on any dialect, and each is applied: the
  chain selects, of the rows it selected before, exactly those that meet every condition the client
  wrote, with what it wrote between wildcards taken literally.
\<close>

theorem url_filters_apply:
  assumes filters: "Filters rd q m = Inr conds" and named: "list_all (\<lambda>c. co_DBName c \<noteq> []) (mi_columns m)"
    and plain: "list_all (\<lambda>e. \<not> or_connector e) (qc_where ch)"
  shows "qc_err (applyFilters rr (map NewFilter conds) ch) = qc_err ch
    \<and> (selects_row (rr_dialect rr) sem (rr_model rr) (qc_where (applyFilters rr (map NewFilter conds) ch)) row
      \<longleftrightarrow> selects_row (rr_dialect rr) sem (rr_model rr) (qc_where ch) row
        \<and> list_all (\<lambda>c. url_holds rr sem (sc_info (outerScope rr)) (fc_column c) (fc_op c) (bound_value (fc_value c))
             (row (fc_column c))) conds)"
proof -
  have each: "shape_of (fc_op c) (fc_value c)" "fc_column c \<noteq> []" if "c \<in> set conds" for c
    using Filters_shape [OF filters] named that by (auto simp: list_all_iff)
  have none: "snd (renderFilters rr (map NewFilter conds) False (outerScope rr)) = None"
    using NewFilter_renders(1) [OF each]
    by (auto simp: renderFilters_def combine_filters_def render_each_map pick_failure_None)
  have err: "qc_err (applyFilters rr (map NewFilter conds) ch) = qc_err ch"
    using none NewFilter_own_table
    by (auto simp: applyFilters_def split: option.split prod.split)
  have holds: "list_all (filter_holds rr sem (\<lambda>_ _. False) (outerScope rr) [row]) (map NewFilter conds)
    \<longleftrightarrow> list_all (\<lambda>c. url_holds rr sem (sc_info (outerScope rr)) (fc_column c) (fc_op c) (bound_value (fc_value c))
             (row (fc_column c))) conds"
    by (simp add: list_all_iff NewFilter_renders(2) [OF each])
  have "qc_err (applyFilters rr (map NewFilter conds) (ch\<lparr>qc_err := None\<rparr>)) = None"
    using none NewFilter_own_table by (auto simp: applyFilters_def split: option.split prod.split)
  moreover have "qc_where (applyFilters rr (map NewFilter conds) (ch\<lparr>qc_err := None\<rparr>))
      = qc_where (applyFilters rr (map NewFilter conds) ch)"
    by (auto simp: applyFilters_def split: option.split prod.split)
  ultimately show ?thesis
    using chain_filters_sound [of rr "map NewFilter conds" "ch\<lparr>qc_err := None\<rparr>" sem row "\<lambda>_ _. False"]
      plain none holds err by auto
qed

definition notes_info :: model_info where
  "notes_info = \<lparr>mi_type = OtherType, mi_columns = [text_column ''id'', text_column ''owner''], mi_indexes = [],
                 mi_queryable = True, mi_paginatable = True, mi_cursorable = True\<rparr>"

definition notes_readers :: readers where
  "notes_readers = \<lparr>rd_float = (\<lambda>_ _. False), rd_time = (\<lambda>_. None), rd_timeOfDay = (\<lambda>_. None)\<rparr>"

definition notes_url :: "Urlquery.query" where
  "notes_url = [(''owner[like]'', [''e%'']), (''id[in]'', [''n1,n2''])]"

definition notes_conds :: "filter_cond list" where
  "notes_conds =
     [\<lparr>fc_column = ''id'', fc_op = FilterOpIn, fc_value = VList [''n1'', ''n2'']\<rparr>,
      \<lparr>fc_column = ''owner'', fc_op = FilterOpLike, fc_value = VStr ''e%''\<rparr>]"

lemma notes_url_parsed:
  "Filters notes_readers notes_url notes_info = Inr notes_conds"
  "list_all (\<lambda>c. co_DBName c \<noteq> []) (mi_columns notes_info)"
  by code_simp+

theorem url_filters_apply_witness:
  "qc_err (applyFilters notes_chain (map NewFilter notes_conds) empty_chain) = None
   \<and> \<not> selects_row (rr_dialect notes_chain) string_sem (rr_model notes_chain)
       (qc_where (applyFilters notes_chain (map NewFilter notes_conds) empty_chain)) (note_row ''n1'')"
proof -
  have "\<not> list_all (\<lambda>c. url_holds notes_chain string_sem (sc_info (outerScope notes_chain)) (fc_column c) (fc_op c)
      (bound_value (fc_value c)) (note_row ''n1'' (fc_column c))) notes_conds"
    by code_simp
  then show ?thesis
    using url_filters_apply [OF notes_url_parsed, of empty_chain notes_chain string_sem "note_row ''n1''"]
    by (simp add: empty_chain_def)
qed

lemma column_filter_error:
  assumes "snd (column_filter rr f sc) = Some e" and "narrows e"
  shows "ParseFilterOp (f_Op f) \<noteq> None"
proof -
  have url: "ParseFilterOp (f_Op f) \<noteq> None" if "op_case (f_Op f) = UrlOp p" for p
    using that by (auto simp: op_case_def service_ops_def split: option.splits if_splits)
  have place: "placeFilter f sc = Inl err \<Longrightarrow> narrows err \<Longrightarrow> ParseFilterOp (f_Op f) \<noteq> None" for err
    by (auto simp: placeFilter_def derivedKeyFilter_def narrows_def split: if_splits option.splits)
  have own: "snd (failClosedFilter f why) = Some e \<Longrightarrow> ParseFilterOp (f_Op f) \<noteq> None" for why
    using assms(2) by (auto simp: failClosedFilter_def narrows_def)
  have str: "snd (stringFilter f info b col) = Some e \<Longrightarrow> ParseFilterOp (f_Op f) \<noteq> None" for info b col
    using own by (auto simp: stringFilter_def split: gval.splits)
  have json: "snd (jsonFilter rr f sc info) = Some e \<Longrightarrow> ParseFilterOp (f_Op f) \<noteq> None" for info
    using own assms(2) by (auto simp: jsonFilter_def narrows_def split: gval.splits if_splits)
  have join: "snd (joinEqCol f col parent table sc) = Some e \<Longrightarrow> ParseFilterOp (f_Op f) \<noteq> None" for col parent table
    using own assms(2) by (auto simp: joinEqCol_def derivedKeyFilter_def narrows_def split: if_splits option.splits)
  have eqcol: "snd (eqColCondition f col sc) = Some e \<Longrightarrow> ParseFilterOp (f_Op f) \<noteq> None" for col
    using own join assms(2) by (auto simp: eqColCondition_def narrows_def split: option.splits if_splits prod.splits)
  show ?thesis
    using assms url place own str json eqcol
    by (cases "op_case (f_Op f)") (auto simp: column_filter_def split: if_splits sum.splits prod.splits)
qed

lemma renderFilters_fatal:
  "(\<exists>e. snd (renderFilters rr fs False sc) = Some e \<and> \<not> narrows e)
    \<longleftrightarrow> (\<exists>f\<in>set fs. \<exists>e. snd (renderFilter rr f sc) = Some e \<and> \<not> narrows e)"
proof -
  have "(\<exists>e. pick_failure None (map (\<lambda>f. snd (renderFilter rr f sc)) fs) = Some e \<and> \<not> narrows e)
    \<longleftrightarrow> (\<exists>f\<in>set fs. \<exists>e. snd (renderFilter rr f sc) = Some e \<and> \<not> narrows e)"
    unfolding pick_failure_fatal by (simp add: image_iff) metis
  then show ?thesis by (cases fs) (simp_all add: renderFilters_def combine_filters_def render_each_map comp_def)
qed

text \<open>
  Whose mistake a filter is, without the renderer's own tests. These are the operators a client can write
  in a URL; a failure it can cause is that such an operator got a value, or a column, it has no use for.
\<close>

definition client_operators :: "string list" where
  "client_operators = [''eq'', ''ne'', ''gt'', ''gte'', ''lt'', ''lte'', ''in'', ''notin'', ''like'', ''notlike'', ''startswith'',
     ''endswith'', ''isnull'']"

definition client_failure :: "flt_error \<Rightarrow> bool" where
  "client_failure e \<longleftrightarrow> (\<exists>f why. (e = Unusable f why \<or> e = UnusableJoinSelect f why) \<and> f_Op f \<in> set client_operators)"

text \<open>
  A filter that reads a table its scope does not: of its own, in a group, in a subquery, whose table it
  then has to be, or by tying a column of a subquery to one of a table that does not enclose it.
\<close>

inductive reads_foreign :: "string \<Rightarrow> string \<Rightarrow> db_filter \<Rightarrow> bool" where
  foreign_column: "t \<noteq> [] \<Longrightarrow> t \<noteq> own \<Longrightarrow> op \<notin> {''or'', ''and'', ''exists''} \<Longrightarrow> reads_foreign own enclosing (Filter t c op v)"
| foreign_in_group: "op \<in> {''or'', ''and''} \<Longrightarrow> f \<in> set fs \<Longrightarrow> reads_foreign own enclosing f \<Longrightarrow>
    reads_foreign own enclosing (Filter t c op (FiltersVal fs))"
| foreign_in_subquery: "f \<in> set fs \<Longrightarrow> reads_foreign (rl_table m) own f \<Longrightarrow>
    reads_foreign own enclosing (Filter t c ''exists'' (SubqueryVal (Some m) fs negate))"
| foreign_tie: "enclosing \<noteq> [] \<Longrightarrow> table \<noteq> [] \<Longrightarrow> table \<noteq> enclosing \<Longrightarrow>
    reads_foreign own enclosing (Filter t c ''eqcol'' (ColumnRef name table))"

inductive_simps reads_foreign_Filter: "reads_foreign own enclosing (Filter t c op v)"

text \<open>What a client can have written: its operators on any column and value of the table, in groups too.\<close>

inductive client_filter :: "string \<Rightarrow> db_filter \<Rightarrow> bool" where
  client_column: "t = [] \<or> t = own \<Longrightarrow> op \<in> set client_operators \<Longrightarrow> client_filter own (Filter t c op v)"
| client_group: "op \<in> {''or'', ''and''} \<Longrightarrow> fs \<noteq> [] \<Longrightarrow> \<forall>f\<in>set fs. client_filter own f \<Longrightarrow> client_filter own (Filter t c op (FiltersVal fs))"

lemma client_operators_iff: "op \<in> set client_operators \<longleftrightarrow> ParseFilterOp op \<noteq> None"
proof -
  have "op \<in> set client_operators \<longleftrightarrow> (\<exists>p. op = op_token p)"
  proof
    assume "op \<in> set client_operators"
    then have "op \<in> op_token ` set FilterOps" by (simp add: client_operators_def FilterOps_def)
    then show "\<exists>p. op = op_token p" by blast
  next
    assume "\<exists>p. op = op_token p"
    then obtain p where "op = op_token p" ..
    then show "op \<in> set client_operators" by (cases p) (simp_all add: client_operators_def)
  qed
  then show ?thesis using ParseFilterOp_iff [of op] by auto
qed

lemma client_failure_iff: "client_failure e \<longleftrightarrow> narrows e"
  by (cases e) (auto simp: client_failure_def narrows_def client_operators_iff)

lemma op_case_service:
  "op_case op = OpOr \<longleftrightarrow> op = ''or''" "op_case op = OpAnd \<longleftrightarrow> op = ''and''" "op_case op = OpExists \<longleftrightarrow> op = ''exists''"
  "op_case op = OpEqCol \<longleftrightarrow> op = ''eqcol''"
proof -
  have "ParseFilterOp ''or'' = None" "ParseFilterOp ''and'' = None" "ParseFilterOp ''exists'' = None" "ParseFilterOp ''eqcol'' = None"
    by code_simp+
  then show "op_case op = OpOr \<longleftrightarrow> op = ''or''" "op_case op = OpAnd \<longleftrightarrow> op = ''and''" "op_case op = OpExists \<longleftrightarrow> op = ''exists''"
    "op_case op = OpEqCol \<longleftrightarrow> op = ''eqcol''"
    by (auto simp: op_case_def service_ops_def split: option.splits if_splits)
qed

lemma op_case_client: "op \<in> set client_operators \<Longrightarrow> \<exists>p. op_case op = UrlOp p"
  by (auto simp: client_operators_iff op_case_def)

lemma foreignTableFilter_iff: "foreignTableFilter fs own enclosing \<noteq> None \<longleftrightarrow> (\<exists>f\<in>set fs. reads_foreign own enclosing f)"
proof (induction fs own enclosing rule: foreignTableFilter.induct)
  case (2 t c op v fs own enclosing)
  note rest = 2(1) [OF refl]
  note ors = 2(2) [OF refl refl] and ands = 2(3) [OF refl refl] and subs = 2(4) [OF refl refl]
  have "foreignTableFilter (Filter t c op v # fs) own enclosing \<noteq> None \<longleftrightarrow>
      reads_foreign own enclosing (Filter t c op v) \<or> foreignTableFilter fs own enclosing \<noteq> None"
  proof (cases "op_case op")
    case OpOr
    then have op: "op = ''or''" by (simp add: op_case_service)
    show ?thesis
    proof (cases "\<exists>children. v = FiltersVal children")
      case True
      then obtain children where v: "v = FiltersVal children" ..
      show ?thesis using ors [OF OpOr v] OpOr op v
        by (cases "foreignTableFilter children own enclosing") (auto simp: reads_foreign_Filter)
    next
      case False
      then show ?thesis using OpOr op by (cases v) (simp_all add: reads_foreign_Filter)
    qed
  next
    case OpAnd
    then have op: "op = ''and''" by (simp add: op_case_service)
    show ?thesis
    proof (cases "\<exists>children. v = FiltersVal children")
      case True
      then obtain children where v: "v = FiltersVal children" ..
      show ?thesis using ands [OF OpAnd v] OpAnd op v
        by (cases "foreignTableFilter children own enclosing") (auto simp: reads_foreign_Filter)
    next
      case False
      then show ?thesis using OpAnd op by (cases v) (simp_all add: reads_foreign_Filter)
    qed
  next
    case OpExists
    then have op: "op = ''exists''" by (simp add: op_case_service)
    show ?thesis
    proof (cases "\<exists>m sub negate. v = SubqueryVal (Some m) sub negate")
      case True
      then obtain m sub negate where v: "v = SubqueryVal (Some m) sub negate" by blast
      show ?thesis using subs [OF OpExists v refl] OpExists op v
        by (cases "foreignTableFilter sub (rl_table m) own") (auto simp: reads_foreign_Filter)
    next
      case False
      then show ?thesis using OpExists op by (cases v) (auto simp: reads_foreign_Filter split: option.split)
    qed
  next
    case OpEqCol
    then have op: "op = ''eqcol''" by (simp add: op_case_service)
    show ?thesis using OpEqCol op by (cases v) (auto simp: reads_foreign_Filter eqColParent_def split: option.split)
  qed (use op_case_service [of op] in \<open>auto simp: reads_foreign_Filter split: option.split\<close>)
  with rest show ?case by simp
qed simp

lemma client_filter_own: "client_filter own f \<Longrightarrow> \<not> reads_foreign own enclosing f"
proof (induction rule: client_filter.induct)
  case (client_column t own op c v)
  then have "op \<noteq> ''or''" "op \<noteq> ''and''" "op \<noteq> ''exists''" "op \<noteq> ''eqcol''" by (auto simp: client_operators_def)
  with client_column show ?case by (auto simp: reads_foreign_Filter)
qed (auto simp: reads_foreign_Filter)

lemma url_filter_failure: "snd (url_filter rr f info col p) = Some e \<Longrightarrow> \<exists>why. e = Unusable f why"
  by (cases p) (auto simp: url_filter_def scalarFilter_def listFilter_def patternFilter_def failClosedFilter_def split: gval.splits if_splits)

text \<open>Whatever a client writes, it fails in the way a client can cause, if it fails.\<close>

lemma client_filter_failure:
  "client_filter own f \<Longrightarrow> own = rl_table (rr_model rr) \<Longrightarrow> snd (renderFilter rr f (outerScope rr)) = Some e \<Longrightarrow> narrows e"
proof (induction arbitrary: e rule: client_filter.induct)
  case (client_column t own op c v)
  let ?f = "Filter t c op v"
  obtain p where p: "op_case op = UrlOp p" using op_case_client [OF client_column(2)] ..
  have "placeFilter ?f (outerScope rr) = Inr (scopedColumn c (outerScope rr), sc_info (outerScope rr))"
    using client_column(1,3) by (auto simp: placeFilter_def names_other_table_def outerScope_def)
  then have "\<exists>why. e = Unusable ?f why"
    using client_column(4) p url_filter_failure [of rr ?f "sc_info (outerScope rr)" "scopedColumn c (outerScope rr)" p e]
    by (auto simp: renderFilter.simps column_filter_def failClosedFilter_def Let_def split: if_splits)
  with client_column(2) show ?case by (auto simp: narrows_def client_operators_iff)
next
  case (client_group op fs own t c)
  have "renderFilter rr (Filter t c op (FiltersVal fs)) (outerScope rr) =
      groupCondition (Filter t c op (FiltersVal fs)) (op = ''or'') (render_each rr fs (outerScope rr))"
    using client_group(1) op_case_service(1,2) [of op] by (auto simp: renderFilter.simps Let_def)
  with client_group(2,5) have "pick_failure None (map (\<lambda>f. snd (renderFilter rr f (outerScope rr))) fs) = Some e"
    by (auto simp: groupCondition_def combine_filters_def render_each_map comp_def)
  then have "\<not> narrows e \<Longrightarrow> \<exists>f\<in>set fs. \<exists>e. snd (renderFilter rr f (outerScope rr)) = Some e \<and> \<not> narrows e"
    using pick_failure_fatal [of None "map (\<lambda>f. snd (renderFilter rr f (outerScope rr))) fs"] by (auto simp: image_iff) metis
  with client_group(3,4) show ?case by blast
qed

text \<open>
  C30: whose mistakes fail a chain. A chain is refused exactly when a filter reads a table its scope does not
  or fails in a way no client can cause, that is, other than by an operator a client can write meeting a
  value or a column it has no use for; a refused chain gets no condition. So a service-only operator that
  cannot be applied refuses the chain, and nothing a client can write does: its operators, on any column
  of the table, with any value, alone or in groups, never refuse a chain.
\<close>

theorem service_mistakes_fail_the_chain:
  assumes "qc_err ch = None"
  shows "(qc_err (applyFilters rr fs ch) \<noteq> None \<longleftrightarrow>
      (\<exists>f\<in>set fs. reads_foreign (rl_table (rr_model rr)) [] f)
      \<or> (\<exists>f\<in>set fs. \<exists>e. snd (renderFilter rr f (outerScope rr)) = Some e \<and> \<not> client_failure e))
    \<and> (qc_err (applyFilters rr fs ch) \<noteq> None \<longrightarrow> qc_where (applyFilters rr fs ch) = qc_where ch)
    \<and> (\<forall>f\<in>set fs. f_Op f \<notin> set client_operators \<union> {''or'', ''and'', ''exists''}
        \<and> snd (renderFilter rr f (outerScope rr)) \<noteq> None \<longrightarrow> qc_err (applyFilters rr fs ch) \<noteq> None)
    \<and> ((\<forall>f\<in>set fs. client_filter (rl_table (rr_model rr)) f) \<longrightarrow> qc_err (applyFilters rr fs ch) = None)"
proof -
  let ?own = "rl_table (rr_model rr)" and ?sc = "outerScope rr"
  have 1: "qc_err (applyFilters rr fs ch) \<noteq> None \<longleftrightarrow> (\<exists>f\<in>set fs. reads_foreign ?own [] f)
      \<or> (\<exists>f\<in>set fs. \<exists>e. snd (renderFilter rr f ?sc) = Some e \<and> \<not> client_failure e)"
    unfolding client_failure_iff renderFilters_fatal [symmetric] foreignTableFilter_iff [symmetric] using assms
    by (auto simp: applyFilters_def split: option.splits prod.splits if_splits)
  moreover have "qc_err (applyFilters rr fs ch) \<noteq> None \<longrightarrow> qc_where (applyFilters rr fs ch) = qc_where ch"
    by (rule applyFilters_cases [of rr fs ch]) (use assms in auto)
  moreover have "\<not> client_failure e"
    if f: "f_Op f \<notin> set client_operators \<union> {''or'', ''and'', ''exists''}" and e: "snd (renderFilter rr f ?sc) = Some e" for f e
  proof -
    have "op_case (f_Op f) = OpFalse \<or> renderFilter rr f ?sc = column_filter rr f ?sc"
      using f op_case_service [of "f_Op f"] by (cases f; cases "op_case (f_Op f)") (auto simp: renderFilter.simps)
    with e have "snd (column_filter rr f ?sc) = Some e" by (cases f) (auto simp: renderFilter.simps)
    from column_filter_error [OF this] f show ?thesis by (auto simp: client_failure_iff client_operators_iff)
  qed
  moreover have "qc_err (applyFilters rr fs ch) = None" if "\<forall>f\<in>set fs. client_filter ?own f"
  proof (rule ccontr)
    assume "\<not> ?thesis"
    with 1 that client_filter_own client_filter_failure [OF _ refl] show False by (auto simp: client_failure_iff)
  qed
  ultimately show ?thesis by blast
qed

definition tied_filters :: "db_filter list" where
  "tied_filters = [FilterEq ''id'' (StringVal ''n1''), FilterEqCol ''id'' ''owner'']"

definition clumsy_filters :: "db_filter list" where
  "clumsy_filters = [FilterEq ''id'' NilVal, FilterOr [Filter [] ''owner'' ''in'' (StringVal ''me''), FilterGt [] (IntVal 3)]]"

theorem service_mistakes_fail_the_chain_witness:
  "qc_err (applyFilters notes_chain tied_filters empty_chain) \<noteq> None
   \<and> qc_where (applyFilters notes_chain tied_filters empty_chain) = []
   \<and> qc_err (applyFilters notes_chain clumsy_filters empty_chain) = None"
proof -
  have tied: "FilterEqCol ''id'' ''owner'' \<in> set tied_filters" by (simp add: tied_filters_def)
  have op: "f_Op (FilterEqCol ''id'' ''owner'') \<notin> set client_operators \<union> {''or'', ''and'', ''exists''}"
    by (simp add: FilterEqCol_def client_operators_def)
  have fails: "snd (renderFilter notes_chain (FilterEqCol ''id'' ''owner'') (outerScope notes_chain)) \<noteq> None" by code_simp
  have empty: "qc_err empty_chain = None" "qc_where empty_chain = []" by (simp_all add: empty_chain_def)
  note res = service_mistakes_fail_the_chain [OF empty(1), of notes_chain]
  have refused: "qc_err (applyFilters notes_chain tied_filters empty_chain) \<noteq> None"
    using res [of tied_filters] tied op fails by blast
  then have "qc_where (applyFilters notes_chain tied_filters empty_chain) = []"
    using res [of tied_filters] empty(2) by metis
  moreover have column: "client_filter own (Filter [] c op v)" if "op \<in> {''eq'', ''gt'', ''in''}" for own c op v
    using that by (intro client_column) (auto simp: client_operators_def)
  have "client_filter own (FilterOr [Filter [] ''owner'' ''in'' (StringVal ''me''), FilterGt [] (IntVal 3)])" for own
    unfolding filter_constructors by (rule client_group) (simp_all add: column)
  with column have "client_filter own f" if "f \<in> set clumsy_filters" for f own
    using that by (auto simp: clumsy_filters_def FilterEq_def)
  then have "qc_err (applyFilters notes_chain clumsy_filters empty_chain) = None"
    using res [of clumsy_filters] by blast
  ultimately show ?thesis using refused by blast
qed

end
