(* ===== verification/Client_Address.thy ===== *)
theory Client_Address
  imports Urlquery
begin

text \<open>
  Which address counts as the client's, \<^verbatim>\<open>src/internal/requestctx/trusted_proxies.go\<close>: the networks whose
  peers may speak for a client, and the reading of the forwarding headers. Addresses and networks are
  those of \<open>net/netip\<close>: their parsers, the network of one address and membership are arguments.
\<close>

record ('ip, 'net) netip =
  ni_ParsePrefix :: "string \<Rightarrow> 'net option"
  ni_ParseAddr :: "string \<Rightarrow> 'ip option"
  ni_PrefixFrom :: "'ip \<Rightarrow> 'net"
  ni_Contains :: "'net \<Rightarrow> 'ip \<Rightarrow> bool"

text \<open>The networks of the configured entries, or the entry that is neither a block nor an address.\<close>

fun TrustedProxies :: "('ip, 'net) netip \<Rightarrow> string list \<Rightarrow> string + 'net list" where
  "TrustedProxies ni [] = Inr []"
| "TrustedProxies ni (e # es) =
     (let entry = TrimSpace e
      in if entry = [] then TrustedProxies ni es
         else case ni_ParsePrefix ni entry of
           Some p \<Rightarrow> map_sum id (\<lambda>ps. p # ps) (TrustedProxies ni es)
         | None \<Rightarrow>
             (case ni_ParseAddr ni entry of
                None \<Rightarrow> Inl entry
              | Some a \<Rightarrow> map_sum id (\<lambda>ps. ni_PrefixFrom ni a # ps) (TrustedProxies ni es)))"

definition inNetworks :: "('ip, 'net) netip \<Rightarrow> 'ip \<Rightarrow> 'net list \<Rightarrow> bool" where
  "inNetworks ni ip networks = list_ex (\<lambda>n. ni_Contains ni n ip) networks"

text \<open>The hops of a header from its right end; \<open>True\<close> marks the leftmost one.\<close>

fun scan_hops :: "('ip, 'net) netip \<Rightarrow> 'net list \<Rightarrow> (string \<times> bool) list \<Rightarrow> 'ip option" where
  "scan_hops ni proxies [] = None"
| "scan_hops ni proxies ((hop, leftmost) # hops) =
     (case ni_ParseAddr ni (TrimSpace hop) of
        None \<Rightarrow> None
      | Some ip \<Rightarrow> if leftmost \<or> \<not> inNetworks ni ip proxies then Some ip else scan_hops ni proxies hops)"

definition forwardedIP :: "('ip, 'net) netip \<Rightarrow> string \<Rightarrow> 'net list \<Rightarrow> 'ip option" where
  "forwardedIP ni value proxies =
     (if value = [] then None
      else (let hops = split_comma value in scan_hops ni proxies (rev (zip hops (map (\<lambda>i. i = 0) [0..<length hops])))))"

definition forwardingHeaders :: "string list" where
  "forwardingHeaders = [''X-Forwarded-For'', ''X-Real-IP'']"

fun first_forwarded :: "('ip, 'net) netip \<Rightarrow> 'net list \<Rightarrow> (string \<Rightarrow> string) \<Rightarrow> string list \<Rightarrow> 'ip option" where
  "first_forwarded ni proxies header [] = None"
| "first_forwarded ni proxies header (name # names) =
     (case forwardedIP ni (header name) proxies of Some ip \<Rightarrow> Some ip | None \<Rightarrow> first_forwarded ni proxies header names)"

definition ClientIP :: "('ip, 'net) netip \<Rightarrow> 'ip \<Rightarrow> 'net list \<Rightarrow> (string \<Rightarrow> string) \<Rightarrow> 'ip" where
  "ClientIP ni peer proxies header =
     (if \<not> inNetworks ni peer proxies then peer
      else case first_forwarded ni proxies header forwardingHeaders of Some ip \<Rightarrow> ip | None \<Rightarrow> peer)"

section \<open>Lemmas\<close>

lemma split_comma_nonempty [simp]: "split_comma s \<noteq> []"
  by (cases s) (auto split: list.split)

lemma split_comma_append: "split_comma (a @ CHR '','' # b) = split_comma a @ split_comma b"
  by (induction a) (auto split: list.split dest: sym [of "[]"])

text \<open>Reading from the right, trusted hops are skipped and the first other one decides.\<close>

lemma scan_hops_skip:
  assumes "\<forall>hop\<in>set trusted. \<exists>ip. ni_ParseAddr ni (TrimSpace hop) = Some ip \<and> inNetworks ni ip proxies"
  shows "scan_hops ni proxies (map (\<lambda>h. (h, False)) trusted @ rest) = scan_hops ni proxies rest"
  using assms by (induction trusted) auto

lemma marked_hops:
  "xs \<noteq> [] \<Longrightarrow> zip (xs @ ys) (map (\<lambda>i. i = 0) [0..<length (xs @ ys)]) = zip xs (map (\<lambda>i. i = 0) [0..<length xs]) @ map (\<lambda>h. (h, False)) ys"
  by (auto intro!: nth_equalityI simp: nth_append split: nat_diff_split)

text \<open>The part the proxies appended decides, whatever stands before it.\<close>

lemma forwardedIP_appended:
  assumes "split_comma appended = hop # trusted" "ni_ParseAddr ni (TrimSpace hop) = Some client" "\<not> inNetworks ni client proxies"
    "\<forall>h\<in>set trusted. \<exists>ip. ni_ParseAddr ni (TrimSpace h) = Some ip \<and> inNetworks ni ip proxies"
    "v = appended \<or> v = forged @ '','' @ appended" "appended \<noteq> []"
  shows "forwardedIP ni v proxies = Some client"
proof -
  obtain before where hops: "split_comma v = before @ hop # trusted" and v: "v \<noteq> []"
    using assms(1,5,6) by (auto simp: split_comma_append)
  have "zip (split_comma v) (map (\<lambda>i. i = 0) [0..<length (split_comma v)]) =
      zip (before @ [hop]) (map (\<lambda>i. i = 0) [0..<length (before @ [hop])]) @ map (\<lambda>h. (h, False)) trusted"
    using marked_hops [of "before @ [hop]" trusted] by (simp add: hops)
  moreover have "\<exists>b more. rev (zip (before @ [hop]) (map (\<lambda>i. i = 0) [0..<length (before @ [hop])])) = (hop, b) # more"
    by simp
  ultimately obtain b more where r: "rev (zip (split_comma v) (map (\<lambda>i. i = 0) [0..<length (split_comma v)])) =
      map (\<lambda>h. (h, False)) (rev trusted) @ (hop, b) # more"
    by (auto simp: rev_map)
  show ?thesis using v assms(2-4) unfolding forwardedIP_def Let_def r by (simp add: scan_hops_skip)
qed

section \<open>Properties\<close>

text \<open>
  C35: whose word is taken for the client's address. A peer outside the trusted networks is the client
  itself, whatever any of its headers says. Behind trusted proxies, when the part of
  \<^verbatim>\<open>X-Forwarded-For\<close> they appended names the address the first of them was called from, that address is
  the client, whatever the caller wrote into the header before it and whatever every other header says.
  A trusted peer that forwards neither header is the client. (A trusted peer whose
  \<^verbatim>\<open>X-Forwarded-For\<close> cannot be read is believed in its \<^verbatim>\<open>X-Real-IP\<close>, which is its own to write.)
\<close>

theorem client_address_not_spoofed:
  "(\<not> inNetworks ni peer proxies \<longrightarrow> (\<forall>header. ClientIP ni peer proxies header = peer)) \<and>
   (inNetworks ni peer proxies \<and> split_comma appended = hop # trusted \<and> appended \<noteq> [] \<and>
     ni_ParseAddr ni (TrimSpace hop) = Some client \<and> \<not> inNetworks ni client proxies \<and>
     (\<forall>h\<in>set trusted. \<exists>ip. ni_ParseAddr ni (TrimSpace h) = Some ip \<and> inNetworks ni ip proxies) \<longrightarrow>
     (\<forall>forged other.
        ClientIP ni peer proxies (other(''X-Forwarded-For'' := appended)) = client \<and>
        ClientIP ni peer proxies (other(''X-Forwarded-For'' := forged @ '','' @ appended)) = client)) \<and>
   (\<forall>header. header ''X-Forwarded-For'' = [] \<and> header ''X-Real-IP'' = [] \<longrightarrow> ClientIP ni peer proxies header = peer)"
  by (auto simp: ClientIP_def forwardingHeaders_def forwardedIP_appended [where hop = hop and trusted = trusted and client = client]
      forwardedIP_def [of ni "[]"])

definition demo_netip :: "(string, string) netip" where
  "demo_netip = \<lparr>ni_ParsePrefix = \<lambda>_. None, ni_ParseAddr = \<lambda>s. if s = [] then None else Some s, ni_PrefixFrom = \<lambda>a. a, ni_Contains = (=)\<rparr>"

theorem client_address_not_spoofed_witness:
  "ClientIP demo_netip ''10.0.0.1'' [''10.0.0.1'', ''10.0.0.2''] ((\<lambda>name. ''6.6.6.6'')(''X-Forwarded-For'' := ''6.6.6.6'' @ '','' @ ''1.2.3.4,10.0.0.2'')) = ''1.2.3.4'' \<and>
   ClientIP demo_netip ''5.5.5.5'' [''10.0.0.1'', ''10.0.0.2''] ((\<lambda>name. ''6.6.6.6'')(''X-Forwarded-For'' := [])) = ''5.5.5.5''"
proof -
  let ?ps = "[''10.0.0.1'', ''10.0.0.2'']"
  have t: "TrimSpace ''1.2.3.4'' = ''1.2.3.4''" "TrimSpace ''10.0.0.2'' = ''10.0.0.2''" by code_simp+
  have n: "inNetworks demo_netip ''10.0.0.1'' ?ps" "inNetworks demo_netip ''10.0.0.2'' ?ps"
    "\<not> inNetworks demo_netip ''1.2.3.4'' ?ps" "\<not> inNetworks demo_netip ''5.5.5.5'' ?ps"
    by (simp_all add: inNetworks_def demo_netip_def)
  have p: "ni_ParseAddr demo_netip ''1.2.3.4'' = Some ''1.2.3.4''" "ni_ParseAddr demo_netip ''10.0.0.2'' = Some ''10.0.0.2''"
    by (simp_all add: demo_netip_def)
  have c: "split_comma ''1.2.3.4,10.0.0.2'' = [''1.2.3.4'', ''10.0.0.2'']" by code_simp
  have "ClientIP demo_netip ''10.0.0.1'' ?ps (other(''X-Forwarded-For'' := forged @ '','' @ ''1.2.3.4,10.0.0.2'')) = ''1.2.3.4''" for forged other
    using client_address_not_spoofed [of demo_netip "''10.0.0.1''" ?ps "''1.2.3.4,10.0.0.2''" "''1.2.3.4''" "[''10.0.0.2'']" "''1.2.3.4''"]
    unfolding c list.set t using n p t by simp
  moreover have "ClientIP demo_netip ''5.5.5.5'' ?ps header = ''5.5.5.5''" for header
    using client_address_not_spoofed [of demo_netip "''5.5.5.5''" ?ps] n by simp
  ultimately show ?thesis by blast
qed

end
