(* ===== verification/Ds_Interfaces.thy ===== *)
theory Ds_Interfaces
  imports Prelude "HOL-Library.Multiset"
begin

text \<open>
  The contracts of the containers under \<^verbatim>\<open>src/ds\<close>, as locales: what a comparison function has to be,
  and what first-in-first-out, last-in-first-out and priority containers promise, each over the list
  or multiset of what it holds. Each container's theory interprets the contract on the container's own
  model. A Go pair of a value and a flag is an option; the mutex each method may take makes every
  method one step and is not modelled.
\<close>

section \<open>Comparison functions\<close>

locale comparator =
  fixes cmp :: "'e \<Rightarrow> 'e \<Rightarrow> int"
  assumes cmp_sign: "cmp a b < 0 \<longleftrightarrow> 0 < cmp b a"
    and cmp_trans: "cmp a b \<le> 0 \<Longrightarrow> cmp b c \<le> 0 \<Longrightarrow> cmp a c \<le> 0"
begin

lemma cmp_total: "cmp a b \<le> 0 \<or> cmp b a \<le> 0"
  using cmp_sign [of a b] by linarith

lemma cmp_refl: "cmp a a \<le> 0"
  using cmp_total by blast

lemma cmp_not_le: "\<not> cmp a b \<le> 0 \<Longrightarrow> cmp b a \<le> 0"
  using cmp_total by blast

lemma cmp_ge: "0 \<le> cmp a b \<longleftrightarrow> cmp b a \<le> 0"
  using cmp_sign [of a b] by linarith

lemma cmp_eq_trans: "cmp a b = 0 \<Longrightarrow> cmp b c = 0 \<Longrightarrow> cmp a c = 0"
  using cmp_trans [of a b c] cmp_trans [of c b a] cmp_ge [of a c] cmp_ge [of b c] cmp_ge [of a b] by force

lemma cmp_less_trans: "cmp a b < 0 \<Longrightarrow> cmp b c \<le> 0 \<Longrightarrow> cmp a c < 0"
  by (metis cmp_not_le cmp_sign cmp_trans less_le_not_le linorder_not_less)

lemma reversed: "comparator (\<lambda>a b. - cmp a b)"
proof
  show "- cmp a b < 0 \<longleftrightarrow> 0 < - cmp b a" for a b using cmp_sign [of b a] by linarith
  show "- cmp a b \<le> 0 \<Longrightarrow> - cmp b c \<le> 0 \<Longrightarrow> - cmp a c \<le> 0" for a b c
    using cmp_trans [of c b a] cmp_ge [of a b] cmp_ge [of b c] cmp_ge [of a c] by linarith
qed

end

text \<open>\<open>cmp.Compare\<close>, the comparison the ordered constructors pass.\<close>

definition cmp_Compare :: "'e::linorder \<Rightarrow> 'e \<Rightarrow> int" where
  "cmp_Compare a b = (if a < b then -1 else if b < a then 1 else 0)"

text \<open>
  The constructors refuse a nil comparison function. Below, a constructor's definition takes the function
  it builds with; \<open>checked_New\<close> is the guard in front of it.
\<close>

definition ErrComparisonNil :: string where
  "ErrComparisonNil = ''comparison function cannot be nil''"

definition checked_New :: "(('e \<Rightarrow> 'e \<Rightarrow> int) \<Rightarrow> 'c) \<Rightarrow> ('e \<Rightarrow> 'e \<Rightarrow> int) option \<Rightarrow> string + 'c" where
  "checked_New mk cmp = (case cmp of None \<Rightarrow> Inl ErrComparisonNil | Some c \<Rightarrow> Inr (mk c))"

interpretation ordered: comparator "cmp_Compare :: 'e::linorder \<Rightarrow> 'e \<Rightarrow> int"
  by unfold_locales (auto simp: cmp_Compare_def split: if_splits)

interpretation ordered_reversed: comparator "\<lambda>a b. - cmp_Compare (a :: 'e::linorder) b"
  by (rule ordered.reversed)

section \<open>Sorting\<close>

text \<open>
  What \<open>slices.SortStableFunc\<close> returns: the elements in order, equal ones in the order they came in.
\<close>

fun insert_by :: "('e \<Rightarrow> 'e \<Rightarrow> int) \<Rightarrow> 'e \<Rightarrow> 'e list \<Rightarrow> 'e list" where
  "insert_by cmp x [] = [x]"
| "insert_by cmp x (y # ys) = (if cmp x y \<le> 0 then x # y # ys else y # insert_by cmp x ys)"

definition sort_by :: "('e \<Rightarrow> 'e \<Rightarrow> int) \<Rightarrow> 'e list \<Rightarrow> 'e list" where
  "sort_by cmp xs = foldr (insert_by cmp) xs []"

lemma mset_insert_by: "mset (insert_by cmp x ys) = add_mset x (mset ys)"
  by (induction ys) auto

lemma mset_sort_by: "mset (sort_by cmp xs) = mset xs"
  by (induction xs) (auto simp: sort_by_def mset_insert_by)

lemma set_sort_by [simp]: "set (sort_by cmp xs) = set xs"
  using arg_cong [OF mset_sort_by, of set_mset cmp xs] by simp

context comparator
begin

lemma sorted_insert_by: "sorted_wrt (\<lambda>a b. cmp a b \<le> 0) ys \<Longrightarrow> sorted_wrt (\<lambda>a b. cmp a b \<le> 0) (insert_by cmp x ys)"
proof (induction ys)
  case (Cons y ys)
  have "set (insert_by cmp x ys) = insert x (set ys)"
    using arg_cong [OF mset_insert_by, of set_mset cmp x ys] by simp
  with Cons cmp_not_le [of x y] show ?case by (auto intro: cmp_trans)
qed simp

lemma sorted_sort_by: "sorted_wrt (\<lambda>a b. cmp a b \<le> 0) (sort_by cmp xs)"
  by (induction xs) (auto simp: sort_by_def sorted_insert_by)

text \<open>Stability: the elements equal to any given one keep their order.\<close>

lemma insert_by_equal:
  "filter (\<lambda>y. cmp z y = 0) (insert_by cmp x ys) = filter (\<lambda>y. cmp z y = 0) (x # ys)"
proof (induction ys)
  case (Cons y ys)
  have "\<not> (cmp z x = 0 \<and> cmp z y = 0)" if "\<not> cmp x y \<le> 0"
    using that cmp_eq_trans [of x z y] cmp_ge [of x z] cmp_ge [of z x] by force
  with Cons show ?case by auto
qed simp

lemma sort_by_stable: "filter (\<lambda>y. cmp z y = 0) (sort_by cmp xs) = filter (\<lambda>y. cmp z y = 0) xs"
  by (induction xs) (auto simp: sort_by_def insert_by_equal)

end

section \<open>Queues\<close>

locale fifo =
  fixes ok :: "'q \<Rightarrow> bool" and contents :: "'q \<Rightarrow> 'e list" and empty :: 'q
    and enqueue :: "'e \<Rightarrow> 'q \<Rightarrow> 'q" and dequeue :: "'q \<Rightarrow> ('e \<times> 'q) option" and peek :: "'q \<Rightarrow> 'e option"
  assumes ok_empty: "ok empty" and contents_empty: "contents empty = []"
    and ok_enqueue: "ok q \<Longrightarrow> ok (enqueue e q)"
    and contents_enqueue: "ok q \<Longrightarrow> contents (enqueue e q) = contents q @ [e]"
    and dequeue_empty: "ok q \<Longrightarrow> contents q = [] \<Longrightarrow> dequeue q = None"
    and dequeue_some: "ok q \<Longrightarrow> contents q = x # xs \<Longrightarrow> \<exists>q'. dequeue q = Some (x, q') \<and> ok q' \<and> contents q' = xs"
    and peek_contents: "ok q \<Longrightarrow> peek q = (case contents q of [] \<Rightarrow> None | x # _ \<Rightarrow> Some x)"
begin

text \<open>Enqueueing everything and then draining returns everything, in order.\<close>

fun drain :: "nat \<Rightarrow> 'q \<Rightarrow> 'e list" where
  "drain 0 q = []"
| "drain (Suc n) q = (case dequeue q of None \<Rightarrow> [] | Some (x, q') \<Rightarrow> x # drain n q')"

lemma contents_fold: "ok q \<Longrightarrow> ok (fold enqueue xs q) \<and> contents (fold enqueue xs q) = contents q @ xs"
  by (induction xs arbitrary: q) (auto simp: ok_enqueue contents_enqueue)

lemma drain_contents: "ok q \<Longrightarrow> length (contents q) \<le> n \<Longrightarrow> drain n q = contents q"
proof (induction n arbitrary: q)
  case (Suc n)
  show ?case
  proof (cases "contents q")
    case Nil
    with Suc.prems show ?thesis by (simp add: dequeue_empty)
  next
    case (Cons x xs)
    with dequeue_some [OF Suc.prems(1) Cons] Suc show ?thesis by auto
  qed
qed simp

lemma fifo_order: "drain (length xs) (fold enqueue xs empty) = xs"
  using contents_fold [OF ok_empty, of xs] drain_contents by (simp add: contents_empty)

end

section \<open>Stacks\<close>

locale lifo =
  fixes ok :: "'s \<Rightarrow> bool" and contents :: "'s \<Rightarrow> 'e list" and empty :: 's
    and push :: "'e \<Rightarrow> 's \<Rightarrow> 's" and pop :: "'s \<Rightarrow> ('e \<times> 's) option" and peek :: "'s \<Rightarrow> 'e option"
  assumes ok_empty: "ok empty" and contents_empty: "contents empty = []"
    and ok_push: "ok s \<Longrightarrow> ok (push e s)" and contents_push: "ok s \<Longrightarrow> contents (push e s) = e # contents s"
    and pop_empty: "ok s \<Longrightarrow> contents s = [] \<Longrightarrow> pop s = None"
    and pop_some: "ok s \<Longrightarrow> contents s = x # xs \<Longrightarrow> \<exists>s'. pop s = Some (x, s') \<and> ok s' \<and> contents s' = xs"
    and peek_contents: "ok s \<Longrightarrow> peek s = (case contents s of [] \<Rightarrow> None | x # _ \<Rightarrow> Some x)"
begin

fun unwind :: "nat \<Rightarrow> 's \<Rightarrow> 'e list" where
  "unwind 0 s = []"
| "unwind (Suc n) s = (case pop s of None \<Rightarrow> [] | Some (x, s') \<Rightarrow> x # unwind n s')"

lemma contents_fold: "ok s \<Longrightarrow> ok (fold push xs s) \<and> contents (fold push xs s) = rev xs @ contents s"
  by (induction xs arbitrary: s) (auto simp: ok_push contents_push)

lemma unwind_contents: "ok s \<Longrightarrow> length (contents s) \<le> n \<Longrightarrow> unwind n s = contents s"
proof (induction n arbitrary: s)
  case (Suc n)
  show ?case
  proof (cases "contents s")
    case Nil
    with Suc.prems show ?thesis by (simp add: pop_empty)
  next
    case (Cons x xs)
    with pop_some [OF Suc.prems(1) Cons] Suc show ?thesis by auto
  qed
qed simp

lemma lifo_order: "unwind (length xs) (fold push xs empty) = rev xs"
  using contents_fold [OF ok_empty, of xs] unwind_contents by (simp add: contents_empty)

end

section \<open>Priority queues\<close>

locale priority_container = comparator cmp
  for cmp :: "'e \<Rightarrow> 'e \<Rightarrow> int" +
  fixes ok :: "'q \<Rightarrow> bool" and elements :: "'q \<Rightarrow> 'e multiset" and empty :: 'q
    and insert :: "'e \<Rightarrow> 'q \<Rightarrow> 'q" and pop_min :: "'q \<Rightarrow> ('e \<times> 'q) option"
  assumes ok_empty: "ok empty" and elements_empty: "elements empty = {#}"
    and ok_insert: "ok q \<Longrightarrow> ok (insert e q)" and elements_insert: "ok q \<Longrightarrow> elements (insert e q) = add_mset e (elements q)"
    and pop_empty: "ok q \<Longrightarrow> elements q = {#} \<Longrightarrow> pop_min q = None"
    and pop_some: "ok q \<Longrightarrow> elements q \<noteq> {#} \<Longrightarrow>
      \<exists>x q'. pop_min q = Some (x, q') \<and> ok q' \<and> elements q = add_mset x (elements q') \<and>
        (\<forall>y\<in>#elements q. cmp x y \<le> 0)"
begin

fun pop_all :: "nat \<Rightarrow> 'q \<Rightarrow> 'e list" where
  "pop_all 0 q = []"
| "pop_all (Suc n) q = (case pop_min q of None \<Rightarrow> [] | Some (x, q') \<Rightarrow> x # pop_all n q')"

text \<open>Popping everything sorts.\<close>

lemma pop_all_sorts:
  "ok q \<Longrightarrow> size (elements q) \<le> n \<Longrightarrow>
     mset (pop_all n q) = elements q \<and> sorted_wrt (\<lambda>a b. cmp a b \<le> 0) (pop_all n q)"
proof (induction n arbitrary: q)
  case (Suc n)
  show ?case
  proof (cases "elements q = {#}")
    case True
    with Suc.prems show ?thesis by (simp add: pop_empty)
  next
    case False
    then obtain x q' where p: "pop_min q = Some (x, q')" "ok q'" "elements q = add_mset x (elements q')"
      "\<forall>y\<in>#elements q. cmp x y \<le> 0" using pop_some [OF Suc.prems(1)] by blast
    with Suc have IH: "mset (pop_all n q') = elements q'" "sorted_wrt (\<lambda>a b. cmp a b \<le> 0) (pop_all n q')" by auto
    then have "set (pop_all n q') = set_mset (elements q')" by (metis set_mset_mset)
    with p IH show ?thesis by simp
  qed
qed simp

end

end
