(* ===== verification/Ds_Heap.thy ===== *)
theory Ds_Heap
  imports Ds_Interfaces
begin

text \<open>
  The binary heap of \<^verbatim>\<open>src/ds/heap/binaryheap/binaryheap.go\<close> and the priority queue over it,
  \<^verbatim>\<open>src/ds/queue/priorityqueue/queue.go\<close>. The heap is an array; sifting up and down are the two loops
  of the code, once per direction of the order. Both directions satisfy \<open>priority_container\<close>, the
  second for the reversed comparison.
\<close>

section \<open>Sifting\<close>

definition parent :: "nat \<Rightarrow> nat" where
  "parent i = (i - 1) div 2"

definition swap_at :: "'e list \<Rightarrow> nat \<Rightarrow> nat \<Rightarrow> 'e list" where
  "swap_at d i j = d[i := d ! j, j := d ! i]"

function upMinHeap :: "('e \<Rightarrow> 'e \<Rightarrow> int) \<Rightarrow> 'e list \<Rightarrow> nat \<Rightarrow> 'e list" where
  "upMinHeap cmp d i =
     (if i \<le> 0 \<or> cmp (d ! i) (d ! parent i) \<ge> 0 then d
      else upMinHeap cmp (swap_at d (parent i) i) (parent i))"
  by auto
termination by (relation "measure (\<lambda>(cmp, d, i). i)") (auto simp: parent_def)

function upMaxHeap :: "('e \<Rightarrow> 'e \<Rightarrow> int) \<Rightarrow> 'e list \<Rightarrow> nat \<Rightarrow> 'e list" where
  "upMaxHeap cmp d i =
     (if i \<le> 0 \<or> cmp (d ! i) (d ! parent i) \<le> 0 then d
      else upMaxHeap cmp (swap_at d (parent i) i) (parent i))"
  by auto
termination by (relation "measure (\<lambda>(cmp, d, i). i)") (auto simp: parent_def)

lemma length_swap_at [simp]: "length (swap_at d i j) = length d"
  by (simp add: swap_at_def)

definition min_child :: "('e \<Rightarrow> 'e \<Rightarrow> int) \<Rightarrow> 'e list \<Rightarrow> nat \<Rightarrow> nat" where
  "min_child cmp d i =
     (if 2 * i + 2 < length d \<and> cmp (d ! (2 * i + 2)) (d ! (2 * i + 1)) < 0 then 2 * i + 2 else 2 * i + 1)"

definition max_child :: "('e \<Rightarrow> 'e \<Rightarrow> int) \<Rightarrow> 'e list \<Rightarrow> nat \<Rightarrow> nat" where
  "max_child cmp d i =
     (if 2 * i + 2 < length d \<and> cmp (d ! (2 * i + 2)) (d ! (2 * i + 1)) > 0 then 2 * i + 2 else 2 * i + 1)"

lemma min_child_bounds: "2 * i + 1 < length d \<Longrightarrow> i < min_child cmp d i \<and> min_child cmp d i < length d"
  by (auto simp: min_child_def)

lemma max_child_bounds: "2 * i + 1 < length d \<Longrightarrow> i < max_child cmp d i \<and> max_child cmp d i < length d"
  by (auto simp: max_child_def)

text \<open>
  The \<open>l < 0\<close> test of the code guards the overflow of \<open>2*i+1\<close>, which an index into a slice in memory
  does not reach.
\<close>

function downMinHeap :: "('e \<Rightarrow> 'e \<Rightarrow> int) \<Rightarrow> 'e list \<Rightarrow> nat \<Rightarrow> 'e list" where
  "downMinHeap cmp d i =
     (if 2 * i + 1 \<ge> length d then d
      else if cmp (d ! i) (d ! min_child cmp d i) \<le> 0 then d
      else downMinHeap cmp (swap_at d i (min_child cmp d i)) (min_child cmp d i))"
  by auto
termination
proof (relation "measure (\<lambda>(cmp, d, i). length d - i)")
  fix cmp :: "'e \<Rightarrow> 'e \<Rightarrow> int" and d :: "'e list" and i assume "\<not> length d \<le> 2 * i + 1"
  then show "((cmp, swap_at d i (min_child cmp d i), min_child cmp d i), (cmp, d, i)) \<in> measure (\<lambda>(cmp, d, i). length d - i)"
    using min_child_bounds [of i d cmp] by (simp add: diff_less_mono2)
qed simp

function downMaxHeap :: "('e \<Rightarrow> 'e \<Rightarrow> int) \<Rightarrow> 'e list \<Rightarrow> nat \<Rightarrow> 'e list" where
  "downMaxHeap cmp d i =
     (if 2 * i + 1 \<ge> length d then d
      else if cmp (d ! i) (d ! max_child cmp d i) \<ge> 0 then d
      else downMaxHeap cmp (swap_at d i (max_child cmp d i)) (max_child cmp d i))"
  by auto
termination
proof (relation "measure (\<lambda>(cmp, d, i). length d - i)")
  fix cmp :: "'e \<Rightarrow> 'e \<Rightarrow> int" and d :: "'e list" and i assume "\<not> length d \<le> 2 * i + 1"
  then show "((cmp, swap_at d i (max_child cmp d i), max_child cmp d i), (cmp, d, i)) \<in> measure (\<lambda>(cmp, d, i). length d - i)"
    using max_child_bounds [of i d cmp] by (simp add: diff_less_mono2)
qed simp

declare upMinHeap.simps [simp del] upMaxHeap.simps [simp del] downMinHeap.simps [simp del] downMaxHeap.simps [simp del]

text \<open>The two directions are one, for the reversed comparison.\<close>

lemma upMaxHeap_reversed: "upMaxHeap cmp d i = upMinHeap (\<lambda>a b. - cmp a b) d i"
proof (induction cmp d i rule: upMaxHeap.induct)
  case (1 cmp d i)
  then show ?case by (subst upMaxHeap.simps, subst upMinHeap.simps) auto
qed

lemma downMaxHeap_reversed: "downMaxHeap cmp d i = downMinHeap (\<lambda>a b. - cmp a b) d i"
proof (induction cmp d i rule: downMaxHeap.induct)
  case (1 cmp d i)
  have "max_child cmp d i = min_child (\<lambda>a b. - cmp a b) d i" by (simp add: max_child_def min_child_def)
  with 1 show ?case by (subst downMaxHeap.simps, subst downMinHeap.simps) auto
qed

section \<open>The heap\<close>

record 'e heap =
  heap_data :: "'e list"
  heap_cmp :: "'e \<Rightarrow> 'e \<Rightarrow> int"
  heap_safe :: bool
  heap_maxHeap :: bool

definition heap_New :: "('e \<Rightarrow> 'e \<Rightarrow> int) \<Rightarrow> bool \<Rightarrow> bool \<Rightarrow> 'e heap" where
  "heap_New cmp safe maxHeap = \<lparr>heap_data = [], heap_cmp = cmp, heap_safe = safe, heap_maxHeap = maxHeap\<rparr>"

definition binaryheap_New :: "('e \<Rightarrow> 'e \<Rightarrow> int) option \<Rightarrow> bool \<Rightarrow> bool \<Rightarrow> string + 'e heap" where
  "binaryheap_New cmp safe maxHeap = checked_New (\<lambda>c. heap_New c safe maxHeap) cmp"

definition heap_push :: "'e \<Rightarrow> 'e heap \<Rightarrow> 'e heap" where
  "heap_push e h =
     (let d = heap_data h @ [e]
      in h\<lparr>heap_data :=
           (if heap_maxHeap h then upMaxHeap (heap_cmp h) d (length d - 1)
            else upMinHeap (heap_cmp h) d (length d - 1))\<rparr>)"

definition heap_pop :: "'e heap \<Rightarrow> ('e \<times> 'e heap) option" where
  "heap_pop h =
     (let d = heap_data h
      in if d = [] then None
         else if length d > 1 then
           (let d1 = take (length d - 1) (d[0 := d ! (length d - 1)])
            in Some (d ! 0, h\<lparr>heap_data := (if heap_maxHeap h then downMaxHeap (heap_cmp h) d1 0
                                          else downMinHeap (heap_cmp h) d1 0)\<rparr>))
         else Some (d ! 0, h\<lparr>heap_data := []\<rparr>))"

definition heap_Peek :: "'e heap \<Rightarrow> 'e option" where
  "heap_Peek h = (if heap_data h = [] then None else Some (heap_data h ! 0))"

definition heap_IsEmpty :: "'e heap \<Rightarrow> bool" where
  "heap_IsEmpty h \<longleftrightarrow> length (heap_data h) = 0"

definition heap_Size :: "'e heap \<Rightarrow> nat" where
  "heap_Size h = length (heap_data h)"

definition heap_Clear :: "'e heap \<Rightarrow> 'e heap" where
  "heap_Clear h = h\<lparr>heap_data := []\<rparr>"

definition heap_NewFromSlice :: "'e list \<Rightarrow> ('e \<Rightarrow> 'e \<Rightarrow> int) \<Rightarrow> bool \<Rightarrow> bool \<Rightarrow> 'e heap" where
  "heap_NewFromSlice slice cmp safe maxHeap = fold heap_push slice (heap_New cmp safe maxHeap)"

definition heap_clone :: "'e heap \<Rightarrow> 'e heap" where
  "heap_clone h = fold heap_push (heap_data h) (heap_New (heap_cmp h) (heap_safe h) (heap_maxHeap h))"

text \<open>The loop of \<open>values\<close>: one pop per element; every pop shortens the copy.\<close>

fun pop_loop :: "nat \<Rightarrow> 'e heap \<Rightarrow> 'e list" where
  "pop_loop 0 h = []"
| "pop_loop (Suc n) h = (case heap_pop h of None \<Rightarrow> [] | Some (e, h') \<Rightarrow> e # pop_loop n h')"

definition heap_values :: "'e heap \<Rightarrow> 'e list" where
  "heap_values h = pop_loop (length (heap_data h)) (heap_clone h)"

text \<open>\<open>Range\<close>: the elements the function is called on, up to the one it refuses.\<close>

fun heap_range_loop :: "('e \<Rightarrow> bool) \<Rightarrow> 'e list \<Rightarrow> 'e list" where
  "heap_range_loop fn [] = []"
| "heap_range_loop fn (e # es) = (if \<not> fn e then [e] else e # heap_range_loop fn es)"

definition heap_Range :: "('e \<Rightarrow> bool) \<Rightarrow> 'e heap \<Rightarrow> 'e list" where
  "heap_Range fn h = heap_range_loop fn (heap_data h)"

text \<open>The exported methods take the lock around these; the other constructors push what they are given.\<close>

definition heap_Push :: "'e \<Rightarrow> 'e heap \<Rightarrow> 'e heap" where
  "heap_Push v h = heap_push v h"

definition heap_Pop :: "'e heap \<Rightarrow> ('e \<times> 'e heap) option" where
  "heap_Pop h = heap_pop h"

definition heap_Values :: "'e heap \<Rightarrow> 'e list" where
  "heap_Values h = heap_values h"

definition heap_Clone :: "'e heap \<Rightarrow> 'e heap" where
  "heap_Clone h = heap_clone h"

definition heap_NewOrdered :: "bool \<Rightarrow> bool \<Rightarrow> 'e::linorder heap" where
  "heap_NewOrdered safe maxHeap = heap_New cmp_Compare safe maxHeap"

definition heap_NewFromOrderedSlice :: "'e::linorder list \<Rightarrow> bool \<Rightarrow> bool \<Rightarrow> 'e heap" where
  "heap_NewFromOrderedSlice slice safe maxHeap = fold heap_Push slice (heap_NewOrdered safe maxHeap)"

definition heap_NewFromMapKeys :: "('k \<times> 'v) list \<Rightarrow> ('k \<Rightarrow> 'k \<Rightarrow> int) \<Rightarrow> bool \<Rightarrow> bool \<Rightarrow> 'k heap" where
  "heap_NewFromMapKeys m cmp safe maxHeap = fold (\<lambda>(k, v). heap_Push k) m (heap_New cmp safe maxHeap)"

definition heap_NewFromMapValues :: "('k \<times> 'v) list \<Rightarrow> ('v \<Rightarrow> 'v \<Rightarrow> int) \<Rightarrow> bool \<Rightarrow> bool \<Rightarrow> 'v heap" where
  "heap_NewFromMapValues m cmp safe maxHeap = fold (\<lambda>(k, v). heap_Push v) m (heap_New cmp safe maxHeap)"

definition heap_NewFromOrderedMapKeys :: "('k::linorder \<times> 'v) list \<Rightarrow> bool \<Rightarrow> bool \<Rightarrow> 'k heap" where
  "heap_NewFromOrderedMapKeys m safe maxHeap = fold (\<lambda>(k, v). heap_Push k) m (heap_NewOrdered safe maxHeap)"

definition heap_NewFromOrderedMapValues :: "('k \<times> 'v::linorder) list \<Rightarrow> bool \<Rightarrow> bool \<Rightarrow> 'v heap" where
  "heap_NewFromOrderedMapValues m safe maxHeap = fold (\<lambda>(k, v). heap_Push v) m (heap_NewOrdered safe maxHeap)"

section \<open>The priority queue\<close>

record 'e pqueue =
  pq_heap :: "'e heap"
  pq_cmp :: "'e \<Rightarrow> 'e \<Rightarrow> int"
  pq_safe :: bool
  pq_maxPriority :: bool

definition pq_New :: "('e \<Rightarrow> 'e \<Rightarrow> int) \<Rightarrow> bool \<Rightarrow> bool \<Rightarrow> 'e pqueue" where
  "pq_New cmp safe maxPriority =
     \<lparr>pq_heap = heap_New cmp False maxPriority, pq_cmp = cmp, pq_safe = safe, pq_maxPriority = maxPriority\<rparr>"

definition priorityqueue_New :: "('e \<Rightarrow> 'e \<Rightarrow> int) option \<Rightarrow> bool \<Rightarrow> bool \<Rightarrow> string + 'e pqueue" where
  "priorityqueue_New cmp safe maxPriority = checked_New (\<lambda>c. pq_New c safe maxPriority) cmp"

definition pq_Enqueue :: "'e \<Rightarrow> 'e pqueue \<Rightarrow> 'e pqueue" where
  "pq_Enqueue e q = q\<lparr>pq_heap := heap_push e (pq_heap q)\<rparr>"

definition pq_Dequeue :: "'e pqueue \<Rightarrow> ('e \<times> 'e pqueue) option" where
  "pq_Dequeue q = map_option (\<lambda>(e, h). (e, q\<lparr>pq_heap := h\<rparr>)) (heap_pop (pq_heap q))"

definition pq_Peek :: "'e pqueue \<Rightarrow> 'e option" where
  "pq_Peek q = heap_Peek (pq_heap q)"

definition pq_IsEmpty :: "'e pqueue \<Rightarrow> bool" where
  "pq_IsEmpty q = heap_IsEmpty (pq_heap q)"

definition pq_Len :: "'e pqueue \<Rightarrow> nat" where
  "pq_Len q = heap_Size (pq_heap q)"

definition pq_Values :: "'e pqueue \<Rightarrow> 'e list" where
  "pq_Values q = heap_values (pq_heap q)"

definition pq_Clear :: "'e pqueue \<Rightarrow> 'e pqueue" where
  "pq_Clear q = q\<lparr>pq_heap := heap_Clear (pq_heap q)\<rparr>"

text \<open>\<open>options\<close> carries the safety flag and nothing else, so the clone is built without the priority.\<close>

definition pq_Clone :: "'e pqueue \<Rightarrow> 'e pqueue" where
  "pq_Clone q =
     (let clone = pq_New (pq_cmp q) (pq_safe q) False
      in clone\<lparr>pq_heap := fold heap_push (heap_values (pq_heap q)) (pq_heap clone)\<rparr>)"

section \<open>The heap property\<close>

lemma parent_children: "0 < j \<Longrightarrow> parent j = i \<longleftrightarrow> j = 2 * i + 1 \<or> j = 2 * i + 2"
  by (auto simp: parent_def)

lemma parent_less: "0 < j \<Longrightarrow> parent j < j"
  by (auto simp: parent_def)

lemma mset_swap_at: "i < length d \<Longrightarrow> j < length d \<Longrightarrow> mset (swap_at d i j) = mset d"
  by (simp add: swap_at_def mset_swap)

lemma nth_swap_at:
  "i < length d \<Longrightarrow> j < length d \<Longrightarrow> k < length d \<Longrightarrow>
     swap_at d i j ! k = (if k = j then d ! i else if k = i then d ! j else d ! k)"
  by (auto simp: swap_at_def nth_list_update)

context comparator
begin

definition heap_ok :: "'e list \<Rightarrow> bool" where
  "heap_ok d \<longleftrightarrow> (\<forall>j<length d. 0 < j \<longrightarrow> cmp (d ! parent j) (d ! j) \<le> 0)"

definition up_ok :: "'e list \<Rightarrow> nat \<Rightarrow> bool" where
  "up_ok d i \<longleftrightarrow>
     (\<forall>j<length d. 0 < j \<and> j \<noteq> i \<longrightarrow> cmp (d ! parent j) (d ! j) \<le> 0) \<and>
     (\<forall>j<length d. 0 < j \<and> parent j = i \<and> 0 < i \<longrightarrow> cmp (d ! parent i) (d ! j) \<le> 0)"

definition down_ok :: "'e list \<Rightarrow> nat \<Rightarrow> bool" where
  "down_ok d i \<longleftrightarrow>
     (\<forall>j<length d. 0 < j \<and> parent j \<noteq> i \<longrightarrow> cmp (d ! parent j) (d ! j) \<le> 0) \<and>
     (\<forall>j<length d. 0 < j \<and> parent j = i \<and> 0 < i \<longrightarrow> cmp (d ! parent i) (d ! j) \<le> 0)"

lemma up_step:
  assumes u: "up_ok d i" and i: "i < length d" "0 < i" and c: "cmp (d ! i) (d ! parent i) < 0"
  shows "up_ok (swap_at d (parent i) i) (parent i)"
proof -
  let ?p = "parent i"
  let ?d = "swap_at d ?p i"
  have p: "?p < i" using parent_less i by simp
  have n: "k < length d \<Longrightarrow> ?d ! k = (if k = i then d ! ?p else if k = ?p then d ! i else d ! k)" for k
    using nth_swap_at [of ?p d i k] p i by simp
  have c': "cmp (d ! i) (d ! ?p) \<le> 0" using c by simp
  have par: "parent j < length d" if "j < length d" "0 < j" for j using parent_less [of j] that by simp
  have 1: "cmp (?d ! parent j) (?d ! j) \<le> 0" if j: "j < length d" "0 < j" "j \<noteq> ?p" for j
  proof -
    consider "j = i" | "j \<noteq> i" "parent j = i" | "j \<noteq> i" "parent j = ?p" | "j \<noteq> i" "parent j \<noteq> i" "parent j \<noteq> ?p"
      by blast
    then show ?thesis
    proof cases
      case 1 then show ?thesis using n [of j] n [of "parent j"] j par [of j] p c' by simp
    next
      case 2 then show ?thesis using n [of j] n [of "parent j"] j par [of j] u i by (simp add: up_ok_def)
    next
      case 3
      then have "cmp (d ! ?p) (d ! j) \<le> 0" using u j by (auto simp: up_ok_def)
      with 3 show ?thesis using n [of j] n [of "parent j"] j par [of j] p cmp_trans [OF c'] by simp
    next
      case 4 then show ?thesis using n [of j] n [of "parent j"] j par [of j] u by (simp add: up_ok_def)
    qed
  qed
  have 2: "cmp (?d ! parent ?p) (?d ! j) \<le> 0" if j: "j < length d" "0 < j" "parent j = ?p" "0 < ?p" for j
  proof -
    have pp: "parent ?p < ?p" using parent_less j(4) by blast
    have up: "cmp (d ! parent ?p) (d ! ?p) \<le> 0" using u p i j(4) by (auto simp: up_ok_def)
    show ?thesis
    proof (cases "j = i")
      case True then show ?thesis using n [of j] n [of "parent ?p"] up pp p i by simp
    next
      case False
      then have "cmp (d ! ?p) (d ! j) \<le> 0" using u j by (auto simp: up_ok_def)
      moreover have "j \<noteq> ?p" using parent_less [of j] j by auto
      ultimately show ?thesis using n [of j] n [of "parent ?p"] False pp p i j(1) cmp_trans [OF up] by simp
    qed
  qed
  from 1 2 show ?thesis by (simp add: up_ok_def)
qed

lemma upMinHeap_spec:
  "i < length d \<Longrightarrow> up_ok d i \<Longrightarrow>
     heap_ok (upMinHeap cmp d i) \<and> mset (upMinHeap cmp d i) = mset d \<and> length (upMinHeap cmp d i) = length d"
proof (induction i arbitrary: d rule: less_induct)
  case (less i)
  show ?case
  proof (cases "i \<le> 0 \<or> cmp (d ! i) (d ! parent i) \<ge> 0")
    case True
    then have "heap_ok d"
      using less.prems cmp_ge [of "d ! i" "d ! parent i"] by (auto simp: heap_ok_def up_ok_def)
    with True show ?thesis by (subst (1 2 3) upMinHeap.simps) simp
  next
    case False
    then have "parent i < i" using parent_less by simp
    with less.IH [OF this, of "swap_at d (parent i) i"] False up_step [OF less.prems(2,1)] less.prems(1)
    show ?thesis by (subst (1 2 3) upMinHeap.simps) (simp add: mset_swap_at)
  qed
qed

lemma min_child_le:
  assumes "j < length d" "0 < j" "parent j = i"
  shows "cmp (d ! min_child cmp d i) (d ! j) \<le> 0"
  using assms parent_children [of j i] cmp_refl cmp_ge [of "d ! (2 * i + 2)" "d ! (2 * i + 1)"]
  by (auto simp: min_child_def)

lemma parent_min_child: "parent (min_child cmp d i) = i"
  by (simp add: min_child_def parent_def)

lemma down_step:
  assumes u: "down_ok d i" and i: "2 * i + 1 < length d" and c: "\<not> cmp (d ! i) (d ! min_child cmp d i) \<le> 0"
  shows "down_ok (swap_at d i (min_child cmp d i)) (min_child cmp d i)"
proof -
  let ?m = "min_child cmp d i"
  let ?d = "swap_at d i ?m"
  have m: "i < ?m" "?m < length d" "parent ?m = i" using min_child_bounds [OF i] parent_min_child by auto
  have n: "k < length d \<Longrightarrow> ?d ! k = (if k = ?m then d ! i else if k = i then d ! ?m else d ! k)" for k
    using nth_swap_at [of i d ?m k] m by simp
  have c': "cmp (d ! ?m) (d ! i) \<le> 0" using cmp_not_le [OF c] .
  have par: "parent j < length d" "parent j < j" if "j < length d" "0 < j" for j using parent_less [of j] that by simp_all
  have 1: "cmp (?d ! parent j) (?d ! j) \<le> 0" if j: "j < length d" "0 < j" "parent j \<noteq> ?m" for j
  proof -
    consider "j = ?m" | "j \<noteq> ?m" "parent j = i" | "j \<noteq> ?m" "j = i" | "j \<noteq> ?m" "parent j \<noteq> i" "j \<noteq> i" by blast
    then show ?thesis
    proof cases
      case 1 then show ?thesis using n [of j] n [of "parent j"] j par [of j] m c' by simp
    next
      case 2 then show ?thesis using n [of j] n [of "parent j"] j par [of j] m min_child_le [OF j(1,2)] by simp
    next
      case 3 then show ?thesis using n [of j] n [of "parent j"] j par [of j] m u by (auto simp: down_ok_def)
    next
      case 4 then show ?thesis using n [of j] n [of "parent j"] j par [of j] u by (auto simp: down_ok_def)
    qed
  qed
  have 2: "cmp (?d ! parent ?m) (?d ! j) \<le> 0" if j: "j < length d" "0 < j" "parent j = ?m" for j
    using n [of j] n [of i] j par [of j] m u by (auto simp: down_ok_def)
  from 1 2 show ?thesis by (simp add: down_ok_def)
qed

lemma downMinHeap_spec:
  "down_ok d i \<Longrightarrow> i < length d \<Longrightarrow>
     heap_ok (downMinHeap cmp d i) \<and> mset (downMinHeap cmp d i) = mset d"
proof (induction "length d - i" arbitrary: d i rule: less_induct)
  case less
  consider "2 * i + 1 \<ge> length d" | "2 * i + 1 < length d" "cmp (d ! i) (d ! min_child cmp d i) \<le> 0"
    | "2 * i + 1 < length d" "\<not> cmp (d ! i) (d ! min_child cmp d i) \<le> 0" by linarith
  then show ?case
  proof cases
    case 1
    then have "heap_ok d"
      using less.prems parent_children by (auto simp: heap_ok_def down_ok_def)
    with 1 show ?thesis by (subst (1 2) downMinHeap.simps) simp
  next
    case 2
    then have "heap_ok d"
      using less.prems min_child_le cmp_trans [OF 2(2)] by (auto simp: heap_ok_def down_ok_def)
    with 2 show ?thesis by (subst (1 2) downMinHeap.simps) simp
  next
    case 3
    let ?m = "min_child cmp d i"
    have m: "i < ?m" "?m < length d" using min_child_bounds [OF 3(1)] by auto
    with less.hyps [of "swap_at d i ?m" ?m] down_step [OF less.prems(1) 3] less.prems(2)
    have "heap_ok (downMinHeap cmp (swap_at d i ?m) ?m) \<and> mset (downMinHeap cmp (swap_at d i ?m) ?m) = mset d"
      by (simp add: mset_swap_at)
    with 3 show ?thesis by (subst (1 2) downMinHeap.simps) simp
  qed
qed

lemma heap_root_least: "heap_ok d \<Longrightarrow> j < length d \<Longrightarrow> cmp (d ! 0) (d ! j) \<le> 0"
proof (induction j rule: less_induct)
  case (less j)
  show ?case
  proof (cases "j = 0")
    case False
    then have "parent j < j" using parent_less by simp
    with less False have "cmp (d ! 0) (d ! parent j) \<le> 0" "cmp (d ! parent j) (d ! j) \<le> 0"
      by (auto simp: heap_ok_def)
    then show ?thesis using cmp_trans by blast
  qed (simp add: cmp_refl)
qed

end

section \<open>The heap as a priority container\<close>

text \<open>The comparison a heap keeps its smallest element first by.\<close>

definition dir_cmp :: "'e heap \<Rightarrow> 'e \<Rightarrow> 'e \<Rightarrow> int" where
  "dir_cmp h = (if heap_maxHeap h then (\<lambda>a b. - heap_cmp h a b) else heap_cmp h)"

lemma dir_cmp_update [simp]: "dir_cmp (h\<lparr>heap_data := d\<rparr>) = dir_cmp h"
  by (simp add: dir_cmp_def)

lemma heap_push_dir:
  "heap_push e h = h\<lparr>heap_data := upMinHeap (dir_cmp h) (heap_data h @ [e]) (length (heap_data h))\<rparr>"
  by (simp add: heap_push_def dir_cmp_def upMaxHeap_reversed Let_def)

lemma heap_pop_dir:
  "heap_pop h =
     (if heap_data h = [] then None
      else Some (hd (heap_data h), h\<lparr>heap_data :=
        (if length (heap_data h) = 1 then []
         else downMinHeap (dir_cmp h) (last (heap_data h) # butlast (tl (heap_data h))) 0)\<rparr>))"
proof (cases "heap_data h")
  case (Cons x xs)
  have "take (length xs) ((x # xs)[0 := (x # xs) ! length xs]) = last (x # xs) # butlast xs" if "xs \<noteq> []"
    using that by (cases xs rule: rev_cases) (simp_all add: nth_append)
  with Cons show ?thesis
    by (cases "xs = []") (simp_all add: heap_pop_def dir_cmp_def downMaxHeap_reversed Let_def)
qed (simp add: heap_pop_def)

context comparator
begin

definition good_heap :: "'e heap \<Rightarrow> bool" where
  "good_heap h \<longleftrightarrow> dir_cmp h = cmp \<and> heap_ok (heap_data h)"

lemma good_push:
  assumes "good_heap h"
  shows "good_heap (heap_push e h) \<and> mset (heap_data (heap_push e h)) = add_mset e (mset (heap_data h))"
proof -
  let ?d = "heap_data h @ [e]"
  have ok: "heap_ok (heap_data h)" using assms by (simp add: good_heap_def)
  have "up_ok ?d (length (heap_data h))"
    unfolding up_ok_def
  proof (intro conjI allI impI)
    fix j assume "j < length ?d" "0 < j \<and> j \<noteq> length (heap_data h)"
    then have "j < length (heap_data h)" "0 < j" "parent j < length (heap_data h)" using parent_less [of j] by auto
    with ok show "cmp (?d ! parent j) (?d ! j) \<le> 0" by (simp add: heap_ok_def nth_append)
  next
    fix j assume "j < length ?d" "0 < j \<and> parent j = length (heap_data h) \<and> 0 < length (heap_data h)"
    then show "cmp (?d ! parent (length (heap_data h))) (?d ! j) \<le> 0" using parent_less [of j] by simp
  qed
  with assms show ?thesis
    using upMinHeap_spec [of "length (heap_data h)" ?d] by (simp add: heap_push_dir good_heap_def)
qed

lemma good_pop:
  assumes "good_heap h" "heap_data h \<noteq> []"
  shows "\<exists>x h'. heap_pop h = Some (x, h') \<and> good_heap h' \<and> mset (heap_data h) = add_mset x (mset (heap_data h')) \<and>
    (\<forall>y\<in>set (heap_data h). cmp x y \<le> 0)"
proof -
  obtain x xs where d: "heap_data h = x # xs" using assms(2) by (cases "heap_data h") auto
  have least: "\<forall>y\<in>set (heap_data h). cmp x y \<le> 0"
  proof
    fix y assume "y \<in> set (heap_data h)"
    then obtain j where "j < length (heap_data h)" "heap_data h ! j = y" by (auto simp: in_set_conv_nth)
    with heap_root_least [of "heap_data h" j] assms(1) d show "cmp x y \<le> 0" by (simp add: good_heap_def)
  qed
  show ?thesis
  proof (cases "xs = []")
    case True
    with assms d least show ?thesis by (simp add: heap_pop_dir good_heap_def heap_ok_def)
  next
    case False
    let ?d = "last xs # butlast xs"
    have "?d ! j = (x # xs) ! j" if "0 < j" "j < length xs" for j
      using that by (simp add: nth_butlast nth_Cons')
    moreover have "heap_ok (x # xs)" using assms(1) d by (simp add: good_heap_def)
    ultimately have "down_ok ?d 0"
      unfolding down_ok_def
    proof (intro conjI allI impI)
      fix j assume same: "\<And>j. 0 < j \<Longrightarrow> j < length xs \<Longrightarrow> ?d ! j = (x # xs) ! j" and ok: "heap_ok (x # xs)"
        and j: "j < length ?d" "0 < j \<and> parent j \<noteq> 0"
      then have "j < length xs" "0 < parent j" "parent j < length xs" using parent_less [of j] False by auto
      moreover have "cmp ((x # xs) ! parent j) ((x # xs) ! j) \<le> 0"
        using ok j \<open>j < length xs\<close> unfolding heap_ok_def by (metis length_Cons less_SucI)
      ultimately show "cmp (?d ! parent j) (?d ! j) \<le> 0" using same [of j] same [of "parent j"] j by metis
    qed simp
    then have s: "heap_ok (downMinHeap cmp ?d 0) \<and> mset (downMinHeap cmp ?d 0) = mset ?d"
      by (rule downMinHeap_spec) simp
    have "mset ?d = mset xs" using False by (cases xs rule: rev_cases) simp_all
    with s False d assms(1) least show ?thesis by (simp add: heap_pop_dir good_heap_def)
  qed
qed

sublocale binary_heap: priority_container cmp good_heap "\<lambda>h. mset (heap_data h)" "heap_New cmp False False" heap_push heap_pop
proof
  show "good_heap (heap_New cmp False False)" by (simp add: good_heap_def heap_New_def dir_cmp_def heap_ok_def)
  show "mset (heap_data (heap_New cmp False False)) = {#}" by (simp add: heap_New_def)
  show "good_heap q \<Longrightarrow> good_heap (heap_push e q)" for q e using good_push by blast
  show "good_heap q \<Longrightarrow> mset (heap_data (heap_push e q)) = add_mset e (mset (heap_data q))" for q e
    using good_push by blast
  show "good_heap q \<Longrightarrow> mset (heap_data q) = {#} \<Longrightarrow> heap_pop q = None" for q by (simp add: heap_pop_def)
  show "good_heap q \<Longrightarrow> mset (heap_data q) \<noteq> {#} \<Longrightarrow>
      \<exists>x q'. heap_pop q = Some (x, q') \<and> good_heap q' \<and> mset (heap_data q) = add_mset x (mset (heap_data q')) \<and>
        (\<forall>y\<in>#mset (heap_data q). cmp x y \<le> 0)" for q
    using good_pop [of q] by simp
qed

lemma good_fold:
  "good_heap h \<Longrightarrow> good_heap (fold heap_push xs h) \<and> mset (heap_data (fold heap_push xs h)) = mset xs + mset (heap_data h)"
  by (induction xs arbitrary: h) (auto simp: good_push)

lemma pop_loop_sorted:
  "good_heap h \<Longrightarrow> length (heap_data h) \<le> n \<Longrightarrow>
     mset (pop_loop n h) = mset (heap_data h) \<and> sorted_wrt (\<lambda>a b. cmp a b \<le> 0) (pop_loop n h)"
proof -
  have "pop_loop n h = binary_heap.pop_all n h" for n h
    by (induction n h rule: pop_loop.induct) (auto split: option.splits)
  then show "good_heap h \<Longrightarrow> length (heap_data h) \<le> n \<Longrightarrow> ?thesis" using binary_heap.pop_all_sorts by simp
qed

lemma good_New: "dir_cmp (heap_New c safe mx) = cmp \<Longrightarrow> good_heap (heap_New c safe mx)"
  by (simp add: good_heap_def heap_ok_def heap_New_def)

lemma heap_values_sorted:
  assumes "dir_cmp h = cmp"
  shows "mset (heap_values h) = mset (heap_data h) \<and> sorted_wrt (\<lambda>a b. cmp a b \<le> 0) (heap_values h)"
proof -
  have "good_heap (heap_New (heap_cmp h) (heap_safe h) (heap_maxHeap h))"
    by (rule good_New) (use assms in \<open>simp add: dir_cmp_def heap_New_def split: if_splits\<close>)
  then have c: "good_heap (heap_clone h)" "mset (heap_data (heap_clone h)) = mset (heap_data h)"
    unfolding heap_clone_def using good_fold by (auto simp: heap_New_def)
  then have "length (heap_data (heap_clone h)) = length (heap_data h)" by (metis size_mset)
  with c show ?thesis using pop_loop_sorted [of "heap_clone h" "length (heap_data h)"] by (simp add: heap_values_def)
qed

end

section \<open>Properties\<close>

text \<open>
  C33: a heap of either direction is a priority container. For any comparison function, pushing keeps the
  heap property and adds exactly the element, and popping returns an element no other precedes, removes
  exactly it and keeps the heap property; only an empty heap pops nothing. A heap built from a slice
  lists its elements in priority order.
\<close>

theorem heap_priority:
  assumes "comparator (dir_cmp h)" "comparator.heap_ok (dir_cmp h) (heap_data h)"
  shows "comparator.heap_ok (dir_cmp h) (heap_data (heap_push e h)) \<and>
    mset (heap_data (heap_push e h)) = add_mset e (mset (heap_data h)) \<and>
    (case heap_pop h of
       None \<Rightarrow> heap_data h = []
     | Some (x, h') \<Rightarrow> mset (heap_data h) = add_mset x (mset (heap_data h')) \<and>
         comparator.heap_ok (dir_cmp h) (heap_data h') \<and> (\<forall>y. y \<in># mset (heap_data h) \<longrightarrow> dir_cmp h x y \<le> 0)) \<and>
    mset (heap_values h) = mset (heap_data h) \<and>
    sorted_wrt (\<lambda>a b. dir_cmp h a b \<le> 0) (heap_values h)"
proof -
  have g: "comparator.good_heap (dir_cmp h) h"
    using assms by (simp add: comparator.good_heap_def)
  note push = comparator.good_push [OF assms(1) g, of e]
  have pop: "case heap_pop h of None \<Rightarrow> heap_data h = []
     | Some (x, h') \<Rightarrow> mset (heap_data h) = add_mset x (mset (heap_data h')) \<and>
         comparator.heap_ok (dir_cmp h) (heap_data h') \<and> (\<forall>y. y \<in># mset (heap_data h) \<longrightarrow> dir_cmp h x y \<le> 0)"
  proof (cases "heap_data h = []")
    case True
    then show ?thesis by (simp add: heap_pop_def)
  next
    case False
    with comparator.good_pop [OF assms(1) g] obtain x h' where p: "heap_pop h = Some (x, h')"
      "comparator.good_heap (dir_cmp h) h'" "mset (heap_data h) = add_mset x (mset (heap_data h'))"
      and least: "\<forall>y\<in>set (heap_data h). dir_cmp h x y \<le> 0" by blast
    have "y \<in># mset (heap_data h) \<longrightarrow> dir_cmp h x y \<le> 0" for y
      unfolding set_mset_mset using least by blast
    moreover have "comparator.heap_ok (dir_cmp h) (heap_data h')"
      using p(2) assms(1) by (simp add: comparator.good_heap_def)
    ultimately show ?thesis unfolding p(1) option.case case_prod_conv using p(3) by blast
  qed
  show ?thesis
    using push pop comparator.heap_values_sorted [OF assms(1) refl] assms(1)
    by (simp add: comparator.good_heap_def)
qed

theorem heap_priority_witness:
  "heap_values (heap_NewFromSlice [3, 1, 2] cmp_Compare False True) = [3, 2, 1::int] \<and>
   sorted_wrt (\<lambda>a b. dir_cmp (heap_New cmp_Compare False True) a b \<le> 0)
     (heap_values (heap_push (5::int) (heap_New cmp_Compare False True)))"
proof -
  have d: "dir_cmp (heap_New cmp_Compare False True) = (\<lambda>a b. - cmp_Compare (a::int) b)"
    by (simp add: dir_cmp_def heap_New_def)
  have v: "heap_values (heap_NewFromSlice [3, 1, 2] cmp_Compare False True) = [3, 2, 1::int]" by code_simp
  let ?h = "heap_push (5::int) (heap_New cmp_Compare False True)"
  have e: "comparator.heap_ok (dir_cmp (heap_New cmp_Compare False True)) (heap_data (heap_New cmp_Compare False True :: int heap))"
    unfolding d by (simp add: ordered_reversed.heap_ok_def heap_New_def)
  have h: "dir_cmp ?h = dir_cmp (heap_New cmp_Compare False True)" by (simp add: heap_push_dir)
  have c: "comparator (dir_cmp (heap_New cmp_Compare False True :: int heap))"
    unfolding d by (rule ordered_reversed.comparator_axioms)
  have "comparator.heap_ok (dir_cmp ?h) (heap_data ?h)"
    unfolding h using heap_priority [OF c e, of 5] by (rule conjunct1)
  from heap_priority [OF c [folded h] this, of 0] v show ?thesis unfolding h by simp
qed

text \<open>
  A clone of a priority queue holds the same elements and, for a queue of the default direction,
  lists them in the same priority order. The direction itself is not carried over: the clone of a queue
  that dequeues its largest element first dequeues its smallest first.
\<close>

theorem pqueue_clone:
  assumes "comparator (pq_cmp q)" "pq_cmp q = heap_cmp (pq_heap q)" "pq_maxPriority q = heap_maxHeap (pq_heap q)"
  shows "mset (pq_Values (pq_Clone q)) = mset (pq_Values q) \<and>
    sorted_wrt (\<lambda>a b. pq_cmp q a b \<le> 0) (pq_Values (pq_Clone q)) \<and>
    pq_maxPriority (pq_Clone q) = False \<and>
    sorted_wrt (\<lambda>a b. (if pq_maxPriority q then - pq_cmp q a b else pq_cmp q a b) \<le> 0) (pq_Values q)"
proof -
  let ?h = "fold heap_push (heap_values (pq_heap q)) (heap_New (pq_cmp q) False False)"
  have "comparator.good_heap (pq_cmp q) (heap_New (pq_cmp q) False False)"
    by (rule comparator.good_New [OF assms(1)]) (simp add: dir_cmp_def heap_New_def)
  then have g: "comparator.good_heap (pq_cmp q) ?h" "mset (heap_data ?h) = mset (heap_values (pq_heap q))"
    using comparator.good_fold [OF assms(1)] by (auto simp: heap_New_def)
  then have d: "dir_cmp ?h = pq_cmp q" using assms(1) by (simp add: comparator.good_heap_def)
  have clone: "pq_Values (pq_Clone q) = heap_values ?h" "pq_maxPriority (pq_Clone q) = False"
    by (simp_all add: pq_Values_def pq_Clone_def pq_New_def Let_def)
  have dq: "comparator (dir_cmp (pq_heap q))"
    using assms comparator.reversed by (auto simp: dir_cmp_def)
  have "dir_cmp (pq_heap q) a b = (if pq_maxPriority q then - pq_cmp q a b else pq_cmp q a b)" for a b
    using assms by (simp add: dir_cmp_def)
  then show ?thesis
    using clone g comparator.heap_values_sorted [OF assms(1) d] comparator.heap_values_sorted [OF dq refl]
    by (simp add: pq_Values_def)
qed

theorem pqueue_clone_witness:
  "map_option fst (pq_Dequeue (pq_Enqueue 1 (pq_Enqueue 2 (pq_New cmp_Compare False True)))) = Some (2::int) \<and>
   map_option fst (pq_Dequeue (pq_Clone (pq_Enqueue 1 (pq_Enqueue 2 (pq_New cmp_Compare False True))))) = Some (1::int) \<and>
   pq_maxPriority (pq_Clone (pq_Enqueue 1 (pq_Enqueue 2 (pq_New cmp_Compare False True) :: int pqueue))) = False"
proof -
  let ?q = "pq_Enqueue 1 (pq_Enqueue 2 (pq_New cmp_Compare False True)) :: int pqueue"
  have "map_option fst (pq_Dequeue ?q) = Some 2" "map_option fst (pq_Dequeue (pq_Clone ?q)) = Some 1"
    by code_simp+
  moreover have q: "pq_cmp ?q = cmp_Compare" "pq_cmp ?q = heap_cmp (pq_heap ?q)" "pq_maxPriority ?q = heap_maxHeap (pq_heap ?q)"
    by (simp_all add: pq_Enqueue_def pq_New_def heap_push_def heap_New_def Let_def)
  have "comparator (pq_cmp ?q)" unfolding q(1) by (rule ordered.comparator_axioms)
  then have "pq_maxPriority (pq_Clone ?q) = False" using pqueue_clone [OF _ q(2,3)] by blast
  ultimately show ?thesis by simp
qed

end
