(* ===== verification/Ds_Array.thy ===== *)
theory Ds_Array
  imports Ds_Interfaces
begin

text \<open>
  The containers over a slice: the queue of \<^verbatim>\<open>src/ds/queue/arrayqueue/queue.go\<close>, the stack of
  \<^verbatim>\<open>src/ds/stack/arraystack/stack.go\<close> and the ring of
  \<^verbatim>\<open>src/ds/queue/circularbuffer/circularbuffer.go\<close>. The constant \<open>0\<close> of the element type is Go's zero
  value. The options of the constructors set flags and cannot fail, so they are the flags. A map
  given to a constructor is the association list in the order Go happens to range over it.
\<close>

section \<open>The array queue\<close>

record 'e aqueue =
  aq_elements :: "'e list"
  aq_safe :: bool

definition aq_New :: "bool \<Rightarrow> 'e aqueue" where
  "aq_New safe = \<lparr>aq_elements = [], aq_safe = safe\<rparr>"

definition aq_NewFromSlice :: "'e list \<Rightarrow> bool \<Rightarrow> 'e aqueue" where
  "aq_NewFromSlice slice safe = (let q = aq_New safe in q\<lparr>aq_elements := aq_elements q @ slice\<rparr>)"

definition aq_NewFromMapKeys :: "('k \<times> 'v) list \<Rightarrow> bool \<Rightarrow> 'k aqueue" where
  "aq_NewFromMapKeys m safe = fold (\<lambda>(k, v) q. q\<lparr>aq_elements := aq_elements q @ [k]\<rparr>) m (aq_New safe)"

definition aq_NewFromMapValues :: "('k \<times> 'v) list \<Rightarrow> bool \<Rightarrow> 'v aqueue" where
  "aq_NewFromMapValues m safe = fold (\<lambda>(k, v) q. q\<lparr>aq_elements := aq_elements q @ [v]\<rparr>) m (aq_New safe)"

definition aq_Enqueue :: "'e \<Rightarrow> 'e aqueue \<Rightarrow> 'e aqueue" where
  "aq_Enqueue e q = q\<lparr>aq_elements := aq_elements q @ [e]\<rparr>"

definition aq_Dequeue :: "'e::zero aqueue \<Rightarrow> ('e \<times> 'e aqueue) option" where
  "aq_Dequeue q =
     (if length (aq_elements q) = 0 then None
      else (let e = aq_elements q ! 0; cleared = (aq_elements q)[0 := 0]
            in Some (e, q\<lparr>aq_elements := drop 1 cleared\<rparr>)))"

definition aq_Peek :: "'e aqueue \<Rightarrow> 'e option" where
  "aq_Peek q = (if length (aq_elements q) = 0 then None else Some (aq_elements q ! 0))"

definition aq_IsEmpty :: "'e aqueue \<Rightarrow> bool" where
  "aq_IsEmpty q \<longleftrightarrow> length (aq_elements q) = 0"

definition aq_Len :: "'e aqueue \<Rightarrow> nat" where
  "aq_Len q = length (aq_elements q)"

definition aq_Values :: "'e aqueue \<Rightarrow> 'e list" where
  "aq_Values q = aq_elements q"

definition aq_Clear :: "'e aqueue \<Rightarrow> 'e aqueue" where
  "aq_Clear q = q\<lparr>aq_elements := []\<rparr>"

definition aq_Clone :: "'e aqueue \<Rightarrow> 'e aqueue" where
  "aq_Clone q = aq_NewFromSlice (aq_elements q) (aq_safe q)"

section \<open>The array stack\<close>

record 'e astack =
  as_elements :: "'e list"
  as_safe :: bool

definition as_New :: "bool \<Rightarrow> 'e astack" where
  "as_New safe = \<lparr>as_elements = [], as_safe = safe\<rparr>"

definition as_NewFromSlice :: "'e list \<Rightarrow> bool \<Rightarrow> 'e astack" where
  "as_NewFromSlice slice safe = (let s = as_New safe in s\<lparr>as_elements := as_elements s @ slice\<rparr>)"

definition as_NewFromMapKeys :: "('k \<times> 'v) list \<Rightarrow> bool \<Rightarrow> 'k astack" where
  "as_NewFromMapKeys m safe = fold (\<lambda>(k, v) s. s\<lparr>as_elements := as_elements s @ [k]\<rparr>) m (as_New safe)"

definition as_NewFromMapValues :: "('k \<times> 'v) list \<Rightarrow> bool \<Rightarrow> 'v astack" where
  "as_NewFromMapValues m safe = fold (\<lambda>(k, v) s. s\<lparr>as_elements := as_elements s @ [v]\<rparr>) m (as_New safe)"

definition as_Push :: "'e \<Rightarrow> 'e astack \<Rightarrow> 'e astack" where
  "as_Push e s = s\<lparr>as_elements := as_elements s @ [e]\<rparr>"

definition as_Pop :: "'e::zero astack \<Rightarrow> ('e \<times> 'e astack) option" where
  "as_Pop s =
     (let n = length (as_elements s)
      in if n = 0 then None
         else (let e = as_elements s ! (n - 1); cleared = (as_elements s)[n - 1 := 0]
               in Some (e, s\<lparr>as_elements := take (n - 1) cleared\<rparr>)))"

definition as_Peek :: "'e astack \<Rightarrow> 'e option" where
  "as_Peek s = (if length (as_elements s) = 0 then None else Some (as_elements s ! (length (as_elements s) - 1)))"

definition as_IsEmpty :: "'e astack \<Rightarrow> bool" where
  "as_IsEmpty s \<longleftrightarrow> length (as_elements s) = 0"

definition as_Len :: "'e astack \<Rightarrow> nat" where
  "as_Len s = length (as_elements s)"

definition as_Values :: "'e astack \<Rightarrow> 'e list" where
  "as_Values s = rev (as_elements s)"

definition as_Clear :: "'e astack \<Rightarrow> 'e astack" where
  "as_Clear s = s\<lparr>as_elements := []\<rparr>"

definition as_Clone :: "'e astack \<Rightarrow> 'e astack" where
  "as_Clone s = as_NewFromSlice (as_elements s) (as_safe s)"

section \<open>The circular buffer\<close>

record 'e cbuffer =
  cb_buf :: "'e list option"
  cb_head :: nat
  cb_tail :: nat
  cb_size :: nat
  cb_maxSize :: nat
  cb_safe :: bool
  cb_drop :: bool

definition cb_New :: "int \<Rightarrow> bool \<Rightarrow> bool \<Rightarrow> string + 'e cbuffer" where
  "cb_New n safe drop_new =
     (if n \<le> 0 then Inl ''size must be greater than 0''
      else Inr \<lparr>cb_buf = None, cb_head = 0, cb_tail = 0, cb_size = 0, cb_maxSize = nat n,
                cb_safe = safe, cb_drop = drop_new\<rparr>)"

text \<open>A nil slice has length zero; an index outside the slice would panic, which the invariant excludes.\<close>

definition cb_slots :: "'e cbuffer \<Rightarrow> 'e list" where
  "cb_slots cb = (case cb_buf cb of None \<Rightarrow> [] | Some b \<Rightarrow> b)"

definition cb_enqueue :: "'e::zero \<Rightarrow> 'e cbuffer \<Rightarrow> bool \<times> 'e cbuffer" where
  "cb_enqueue e cb =
     (let cb = (if cb_buf cb = None then cb\<lparr>cb_buf := Some (replicate (cb_maxSize cb) 0)\<rparr> else cb)
      in if cb_size cb = cb_maxSize cb \<and> cb_drop cb then (False, cb)
         else
           (let cb = (if cb_size cb = cb_maxSize cb then cb\<lparr>cb_head := (cb_head cb + 1) mod cb_maxSize cb\<rparr>
                      else cb\<lparr>cb_size := cb_size cb + 1\<rparr>)
            in (True, cb\<lparr>cb_buf := Some ((cb_slots cb)[cb_tail cb := e]),
                         cb_tail := (cb_tail cb + 1) mod cb_maxSize cb\<rparr>)))"

definition cb_NewFromSlice :: "'e::zero list \<Rightarrow> bool \<Rightarrow> bool \<Rightarrow> string + 'e cbuffer" where
  "cb_NewFromSlice slice safe drop_new =
     (case cb_New (int (length slice)) safe drop_new of
        Inl err \<Rightarrow> Inl err
      | Inr cb \<Rightarrow> Inr (fold (\<lambda>e cb. snd (cb_enqueue e cb)) slice cb))"

definition cb_Dequeue :: "'e::zero cbuffer \<Rightarrow> ('e \<times> 'e cbuffer) option" where
  "cb_Dequeue cb =
     (if cb_size cb = 0 then None
      else Some (cb_slots cb ! cb_head cb,
             cb\<lparr>cb_buf := Some ((cb_slots cb)[cb_head cb := 0]),
                cb_head := (cb_head cb + 1) mod cb_maxSize cb,
                cb_size := cb_size cb - 1\<rparr>))"

definition cb_Peek :: "'e cbuffer \<Rightarrow> 'e option" where
  "cb_Peek cb = (if cb_size cb = 0 then None else Some (cb_slots cb ! cb_head cb))"

definition cb_IsEmpty :: "'e cbuffer \<Rightarrow> bool" where
  "cb_IsEmpty cb \<longleftrightarrow> cb_size cb = 0"

definition cb_IsFull :: "'e cbuffer \<Rightarrow> bool" where
  "cb_IsFull cb \<longleftrightarrow> cb_size cb = cb_maxSize cb"

definition cb_Len :: "'e cbuffer \<Rightarrow> nat" where
  "cb_Len cb = cb_size cb"

definition cb_Clear :: "'e::zero cbuffer \<Rightarrow> 'e cbuffer" where
  "cb_Clear cb =
     (if cb_size cb = 0 then cb
      else cb\<lparr>cb_buf := map_option (map (\<lambda>_. 0)) (cb_buf cb), cb_head := 0, cb_tail := 0, cb_size := 0\<rparr>)"

text \<open>\<open>copy\<close> writes as many elements as both slices have room for.\<close>

definition go_copy :: "'e list \<Rightarrow> nat \<Rightarrow> 'e list \<Rightarrow> 'e list" where
  "go_copy dst off src = take off dst @ take (length dst - off) src @ drop (off + length src) dst"

definition cb_Slice :: "'e::zero cbuffer \<Rightarrow> 'e list" where
  "cb_Slice cb =
     (let result = replicate (cb_size cb) 0; front = drop (cb_head cb) (cb_slots cb); back = take (cb_tail cb) (cb_slots cb)
      in if cb_size cb = 0 then []
         else if cb_head cb = cb_tail cb then
           go_copy (go_copy result 0 front) (min (length result) (length front)) back
         else if cb_head cb < cb_tail cb then
           go_copy result 0 (drop (cb_head cb) (take (cb_tail cb) (cb_slots cb)))
         else go_copy (go_copy result 0 front) (min (length result) (length front)) back)"

text \<open>
  The loop \<open>Clone\<close>, \<open>Range\<close> and \<open>String\<close> share: the elements visited from an index on, for a number
  of rounds; \<open>Range\<close> stops it early.
\<close>

fun cb_walk :: "'e list \<Rightarrow> nat \<Rightarrow> nat \<Rightarrow> 'e list" where
  "cb_walk b idx 0 = []"
| "cb_walk b idx (Suc n) = b ! idx # cb_walk b ((idx + 1) mod length b) n"

fun cb_range_loop :: "('e \<Rightarrow> bool) \<Rightarrow> 'e list \<Rightarrow> nat \<Rightarrow> nat \<Rightarrow> 'e list" where
  "cb_range_loop fn b idx 0 = []"
| "cb_range_loop fn b idx (Suc n) =
     (if \<not> fn (b ! idx) then [b ! idx] else b ! idx # cb_range_loop fn b ((idx + 1) mod length b) n)"

text \<open>The elements \<open>fn\<close> is called on.\<close>

definition cb_Range :: "('e \<Rightarrow> bool) \<Rightarrow> 'e cbuffer \<Rightarrow> 'e list" where
  "cb_Range fn cb = cb_range_loop fn (cb_slots cb) (cb_head cb) (cb_size cb)"

definition cb_Clone :: "'e::zero cbuffer \<Rightarrow> string + 'e cbuffer" where
  "cb_Clone cb =
     (case cb_New (int (cb_maxSize cb)) (cb_safe cb) (cb_drop cb) of
        Inl err \<Rightarrow> Inl err
      | Inr clone \<Rightarrow> Inr (fold (\<lambda>e c. snd (cb_enqueue e c)) (cb_walk (cb_slots cb) (cb_head cb) (cb_size cb)) clone))"

section \<open>The queue and the stack keep their contracts\<close>

interpretation array_queue: fifo "\<lambda>_. True" aq_elements "aq_New safe" aq_Enqueue "aq_Dequeue :: 'e::zero aqueue \<Rightarrow> _" aq_Peek
  by unfold_locales
    (auto simp: aq_New_def aq_Enqueue_def aq_Dequeue_def aq_Peek_def Let_def split: list.splits)

lemma as_Pop_rev:
  "as_Pop s = (case rev (as_elements s) of [] \<Rightarrow> None | x # xs \<Rightarrow> Some (x, s\<lparr>as_elements := rev xs\<rparr>))"
  by (cases "as_elements s" rule: rev_cases) (auto simp: as_Pop_def Let_def nth_append)

interpretation array_stack: lifo "\<lambda>_. True" "\<lambda>s. rev (as_elements s)" "as_New safe" as_Push "as_Pop :: 'e::zero astack \<Rightarrow> _" as_Peek
proof
  fix s :: "'e astack"
  show "as_Peek s = (case rev (as_elements s) of [] \<Rightarrow> None | x # _ \<Rightarrow> Some x)"
    by (cases "as_elements s" rule: rev_cases) (auto simp: as_Peek_def nth_append)
qed (auto simp: as_New_def as_Push_def as_Pop_rev)

lemma aq_maps:
  "aq_elements (aq_NewFromMapKeys m safe) = map fst m" "aq_elements (aq_NewFromMapValues m safe) = map snd m"
proof -
  have "aq_elements (fold (\<lambda>(k, v) q. q\<lparr>aq_elements := aq_elements q @ [k]\<rparr>) m q) = aq_elements q @ map fst m" for q :: "'a aqueue"
    by (induction m arbitrary: q) auto
  then show "aq_elements (aq_NewFromMapKeys m safe) = map fst m" by (simp add: aq_NewFromMapKeys_def aq_New_def)
  have "aq_elements (fold (\<lambda>(k, v) q. q\<lparr>aq_elements := aq_elements q @ [v]\<rparr>) m q) = aq_elements q @ map snd m" for q :: "'b aqueue"
    by (induction m arbitrary: q) auto
  then show "aq_elements (aq_NewFromMapValues m safe) = map snd m" by (simp add: aq_NewFromMapValues_def aq_New_def)
qed

lemma aq_clone: "aq_elements (aq_Clone q) = aq_elements q"
  by (simp add: aq_Clone_def aq_NewFromSlice_def aq_New_def)

lemma as_clone: "as_elements (as_Clone s) = as_elements s"
  by (simp add: as_Clone_def as_NewFromSlice_def as_New_def)

section \<open>The ring holds a bounded queue\<close>

definition cb_ok :: "'e cbuffer \<Rightarrow> bool" where
  "cb_ok cb \<longleftrightarrow> 0 < cb_maxSize cb \<and> cb_head cb < cb_maxSize cb \<and> cb_size cb \<le> cb_maxSize cb \<and>
     cb_tail cb = (cb_head cb + cb_size cb) mod cb_maxSize cb \<and>
     (case cb_buf cb of None \<Rightarrow> cb_size cb = 0 \<and> cb_head cb = 0 | Some b \<Rightarrow> length b = cb_maxSize cb)"

definition cb_contents :: "'e cbuffer \<Rightarrow> 'e list" where
  "cb_contents cb = map (\<lambda>k. cb_slots cb ! ((cb_head cb + k) mod cb_maxSize cb)) [0..<cb_size cb]"

text \<open>What enqueueing promises: a queue of bounded length that drops its oldest or refuses its newest element.\<close>

definition bounded_enqueue :: "nat \<Rightarrow> bool \<Rightarrow> 'e \<Rightarrow> 'e list \<Rightarrow> bool \<times> 'e list" where
  "bounded_enqueue limit drop_new e xs =
     (if length xs < limit then (True, xs @ [e])
      else if drop_new then (False, xs)
      else (True, tl xs @ [e]))"

lemma length_cb_contents [simp]: "length (cb_contents cb) = cb_size cb"
  by (simp add: cb_contents_def)

lemma ring_distinct_le:
  assumes "j < (m::nat)" "k \<le> j" "(h + k) mod m = (h + j) mod m"
  shows "k = j"
proof -
  have "m dvd (h + j) - (h + k)" using mod_eq_dvd_iff_nat [of "h + k" "h + j" m] assms by simp
  then have "m dvd j - k" by simp
  with assms show ?thesis using dvd_imp_le [of m "j - k"] by linarith
qed

lemma ring_distinct: "k < (m::nat) \<Longrightarrow> j < m \<Longrightarrow> (h + k) mod m = (h + j) mod m \<longleftrightarrow> k = j"
  using ring_distinct_le [of j m k h] ring_distinct_le [of k m j h] by (metis nat_le_linear)

definition cb_alloc :: "'e::zero cbuffer \<Rightarrow> 'e cbuffer" where
  "cb_alloc cb = (if cb_buf cb = None then cb\<lparr>cb_buf := Some (replicate (cb_maxSize cb) 0)\<rparr> else cb)"

lemma cb_alloc_ok: "cb_ok cb \<Longrightarrow> cb_ok (cb_alloc cb) \<and> cb_contents (cb_alloc cb) = cb_contents cb"
  by (auto simp: cb_alloc_def cb_ok_def cb_contents_def)

lemma cb_alloc_fields [simp]:
  "cb_head (cb_alloc cb) = cb_head cb" "cb_tail (cb_alloc cb) = cb_tail cb" "cb_size (cb_alloc cb) = cb_size cb"
  "cb_maxSize (cb_alloc cb) = cb_maxSize cb" "cb_drop (cb_alloc cb) = cb_drop cb" "cb_safe (cb_alloc cb) = cb_safe cb"
  by (simp_all add: cb_alloc_def)

lemma cb_alloc_slots: "cb_ok cb \<Longrightarrow> length (cb_slots (cb_alloc cb)) = cb_maxSize cb"
  by (auto simp: cb_alloc_def cb_ok_def cb_slots_def split: option.splits)

definition cb_grow :: "'e cbuffer \<Rightarrow> 'e cbuffer" where
  "cb_grow cb = (if cb_size cb = cb_maxSize cb then cb\<lparr>cb_head := (cb_head cb + 1) mod cb_maxSize cb\<rparr>
                 else cb\<lparr>cb_size := cb_size cb + 1\<rparr>)"

lemma cb_enqueue_steps:
  "cb_enqueue e cb =
     (let cb = cb_alloc cb in
      if cb_size cb = cb_maxSize cb \<and> cb_drop cb then (False, cb)
      else (True, (cb_grow cb)\<lparr>cb_buf := Some ((cb_slots (cb_grow cb))[cb_tail (cb_grow cb) := e]),
                   cb_tail := (cb_tail (cb_grow cb) + 1) mod cb_maxSize (cb_grow cb)\<rparr>))"
  by (simp add: cb_enqueue_def cb_alloc_def cb_grow_def Let_def)

text \<open>Writing a free slot behind the contents appends; writing the oldest slot and moving past it replaces it.\<close>

lemma cb_write_free:
  fixes cb :: "'e cbuffer" and e :: 'e
  assumes "cb_ok cb" "length (cb_slots cb) = cb_maxSize cb" "cb_size cb < cb_maxSize cb"
  defines "cb' \<equiv> cb\<lparr>cb_size := cb_size cb + 1, cb_buf := Some ((cb_slots cb)[cb_tail cb := e]),
                  cb_tail := (cb_tail cb + 1) mod cb_maxSize cb\<rparr>"
  shows "cb_ok cb' \<and> cb_contents cb' = cb_contents cb @ [e]"
proof -
  let ?m = "cb_maxSize cb"
  have t: "cb_tail cb = (cb_head cb + cb_size cb) mod ?m" "cb_tail cb < ?m" using assms(1) by (auto simp: cb_ok_def)
  have "cb_ok cb'" using assms t by (auto simp: cb_ok_def mod_simps)
  moreover have "(cb_slots cb)[cb_tail cb := e] ! ((cb_head cb + k) mod ?m) = cb_slots cb ! ((cb_head cb + k) mod ?m)"
    if "k < cb_size cb" for k
  proof -
    have "(cb_head cb + k) mod ?m \<noteq> cb_tail cb"
      unfolding t(1) using ring_distinct [of k ?m "cb_size cb" "cb_head cb"] that assms(3) by simp
    then show ?thesis by simp
  qed
  then have "cb_contents cb' = cb_contents cb @ [e]"
    using t assms(2) by (auto simp: cb_contents_def cb'_def cb_slots_def)
  ultimately show ?thesis by blast
qed

lemma cb_write_full:
  fixes cb :: "'e cbuffer" and e :: 'e
  assumes "cb_ok cb" "length (cb_slots cb) = cb_maxSize cb" "cb_size cb = cb_maxSize cb"
  defines "cb' \<equiv> cb\<lparr>cb_head := (cb_head cb + 1) mod cb_maxSize cb, cb_buf := Some ((cb_slots cb)[cb_tail cb := e]),
                  cb_tail := (cb_tail cb + 1) mod cb_maxSize cb\<rparr>"
  shows "cb_ok cb' \<and> cb_contents cb' = tl (cb_contents cb) @ [e]"
proof -
  let ?m = "cb_maxSize cb"
  have t: "cb_tail cb = cb_head cb" "cb_head cb < ?m" "0 < ?m" using assms(1,3) by (auto simp: cb_ok_def)
  have f: "cb_head cb' = (cb_head cb + 1) mod ?m" "cb_maxSize cb' = ?m" "cb_size cb' = ?m"
    using assms(3) by (simp_all add: cb'_def)
  have ok: "cb_ok cb'" using assms t by (auto simp: cb_ok_def mod_simps)
  have slots: "cb_slots cb' = (cb_slots cb)[cb_head cb := e]" by (simp add: cb'_def cb_slots_def t)
  have "cb_contents cb' ! k = (tl (cb_contents cb) @ [e]) ! k" if "k < ?m" for k
  proof (cases "k = ?m - 1")
    case True
    have "((cb_head cb + 1) mod ?m + k) mod ?m = (cb_head cb + 1 + k) mod ?m" by (rule mod_add_left_eq)
    also have "cb_head cb + 1 + k = cb_head cb + ?m" using True t by simp
    finally have "((cb_head cb + 1) mod ?m + k) mod ?m = cb_head cb" using t by simp
    with True t assms(2,3) show ?thesis
      by (simp add: cb_contents_def slots nth_append f)
  next
    case False
    with that have k: "k + 1 < ?m" by simp
    have "((cb_head cb + 1) mod ?m + k) mod ?m = (cb_head cb + (k + 1)) mod ?m" by (simp add: mod_simps)
    moreover have "(cb_head cb + (k + 1)) mod ?m \<noteq> cb_head cb"
      using ring_distinct [of "k + 1" ?m 0 "cb_head cb"] k t by simp
    moreover have "k < ?m - 1" using k by simp
    ultimately show ?thesis using k assms(3)
      by (simp add: cb_contents_def slots nth_append nth_tl f)
  qed
  then have "cb_contents cb' = tl (cb_contents cb) @ [e]"
    using t assms(3) by (intro nth_equalityI) (auto simp: cb'_def)
  with ok show ?thesis by blast
qed

lemma cb_enqueue_bounded:
  assumes "cb_ok cb"
  shows "cb_ok (snd (cb_enqueue e cb)) \<and>
    (fst (cb_enqueue e cb), cb_contents (snd (cb_enqueue e cb))) =
      bounded_enqueue (cb_maxSize cb) (cb_drop cb) e (cb_contents cb)"
proof -
  let ?c = "cb_alloc cb"
  note a = cb_alloc_ok [OF assms] cb_alloc_slots [OF assms]
  consider (free) "cb_size cb < cb_maxSize cb" | (full) "cb_size cb = cb_maxSize cb"
    using assms by (auto simp: cb_ok_def le_less)
  then show ?thesis
  proof cases
    case free
    with a show ?thesis using cb_write_free [of ?c e]
      by (simp add: cb_enqueue_steps cb_grow_def bounded_enqueue_def Let_def cb_slots_def)
  next
    case full
    with a show ?thesis using cb_write_full [of ?c e]
      by (simp add: cb_enqueue_steps cb_grow_def bounded_enqueue_def Let_def cb_slots_def)
  qed
qed

lemma cb_enqueue_limits:
  "cb_maxSize (snd (cb_enqueue e cb)) = cb_maxSize cb \<and> cb_drop (snd (cb_enqueue e cb)) = cb_drop cb \<and>
   cb_safe (snd (cb_enqueue e cb)) = cb_safe cb"
  by (simp add: cb_enqueue_def Let_def)

lemma cb_New_ok:
  "0 < n \<Longrightarrow> \<exists>cb. cb_New n safe drop_new = Inr cb \<and> cb_ok cb \<and> cb_contents cb = [] \<and>
     cb_maxSize cb = nat n \<and> cb_drop cb = drop_new \<and> cb_safe cb = safe"
  by (simp add: cb_New_def cb_ok_def cb_contents_def)

lemma cb_contents_first:
  "cb_ok cb \<Longrightarrow> 0 < cb_size cb \<Longrightarrow> cb_contents cb =
     cb_slots cb ! cb_head cb # map (\<lambda>k. cb_slots cb ! ((cb_head cb + 1 + k) mod cb_maxSize cb)) [0..<cb_size cb - 1]"
proof -
  assume "cb_ok cb" "0 < cb_size cb"
  moreover from this have "[0..<cb_size cb] = 0 # map Suc [0..<cb_size cb - 1]" by (simp add: map_Suc_upt upt_conv_Cons)
  ultimately show ?thesis by (simp add: cb_contents_def cb_ok_def)
qed

lemma cb_Dequeue_contents:
  assumes "cb_ok cb"
  shows "case cb_contents cb of
      [] \<Rightarrow> cb_Dequeue cb = None \<and> cb_Peek cb = None
    | x # xs \<Rightarrow> \<exists>cb'. cb_Dequeue cb = Some (x, cb') \<and> cb_ok cb' \<and> cb_contents cb' = xs \<and> cb_Peek cb = Some x"
proof (cases "cb_size cb = 0")
  case True
  then show ?thesis by (simp add: cb_contents_def cb_Dequeue_def cb_Peek_def)
next
  case False
  let ?m = "cb_maxSize cb" and ?b = "cb_slots cb"
  let ?cb = "cb\<lparr>cb_buf := Some (?b[cb_head cb := 0]), cb_head := (cb_head cb + 1) mod ?m, cb_size := cb_size cb - 1\<rparr>"
  obtain b where b: "cb_buf cb = Some b" "length b = ?m" using False assms by (auto simp: cb_ok_def split: option.splits)
  have m: "cb_head cb < ?m" "cb_size cb \<le> ?m" using assms by (auto simp: cb_ok_def)
  have "?b[cb_head cb := 0] ! ((cb_head cb + 1 + k) mod ?m) = ?b ! ((cb_head cb + 1 + k) mod ?m)" if "k < cb_size cb - 1" for k
  proof -
    have "(cb_head cb + (k + 1)) mod ?m \<noteq> cb_head cb"
      using ring_distinct [of "k + 1" ?m 0 "cb_head cb"] that m by simp
    then show ?thesis by (simp add: ac_simps)
  qed
  then have "cb_contents ?cb = map (\<lambda>k. ?b ! ((cb_head cb + 1 + k) mod ?m)) [0..<cb_size cb - 1]"
    by (simp add: cb_contents_def mod_add_left_eq) (simp add: cb_slots_def)
  moreover have "((cb_head cb + 1) mod ?m + (cb_size cb - 1)) mod ?m = (cb_head cb + cb_size cb) mod ?m"
    using mod_add_left_eq [of "cb_head cb + 1" ?m "cb_size cb - 1"] False by simp
  then have "cb_ok ?cb" using assms False b m by (simp add: cb_ok_def cb_slots_def)
  ultimately show ?thesis
    using cb_contents_first [OF assms] False by (simp add: cb_Dequeue_def cb_Peek_def)
qed

lemma cb_walk_contents:
  "length b = m \<Longrightarrow> 0 < m \<Longrightarrow> idx < m \<Longrightarrow> cb_walk b idx n = map (\<lambda>k. b ! ((idx + k) mod m)) [0..<n]"
proof (induction b idx n rule: cb_walk.induct)
  case (2 b idx n)
  have "[0..<Suc n] = 0 # map Suc [0..<n]" by (simp add: map_Suc_upt upt_conv_Cons del: upt_Suc)
  with 2 show ?case by (simp add: mod_add_left_eq comp_def del: upt_Suc)
qed simp

lemma cb_walk_ok: "cb_ok cb \<Longrightarrow> cb_walk (cb_slots cb) (cb_head cb) (cb_size cb) = cb_contents cb"
  unfolding cb_contents_def
  by (cases "cb_size cb = 0") (auto simp: cb_ok_def cb_slots_def cb_walk_contents split: option.splits)

text \<open>A call that returns false ends the iteration.\<close>

lemma cb_range_prefix:
  "cb_range_loop fn b idx n = (let xs = cb_walk b idx n in takeWhile fn xs @ take 1 (dropWhile fn xs))"
  by (induction fn b idx n rule: cb_range_loop.induct) (auto simp: Let_def)

lemma fold_cb_enqueue:
  "cb_ok cb \<Longrightarrow> cb_size cb + length xs \<le> cb_maxSize cb \<Longrightarrow>
     let cb' = fold (\<lambda>e cb. snd (cb_enqueue e cb)) xs cb
     in cb_ok cb' \<and> cb_contents cb' = cb_contents cb @ xs \<and> cb_maxSize cb' = cb_maxSize cb \<and>
        cb_drop cb' = cb_drop cb \<and> cb_safe cb' = cb_safe cb"
proof (induction xs arbitrary: cb)
  case (Cons x xs)
  let ?c = "snd (cb_enqueue x cb)"
  have c: "cb_ok ?c" "cb_contents ?c = cb_contents cb @ [x]"
    using cb_enqueue_bounded [OF Cons.prems(1), of x] Cons.prems(2) by (auto simp: bounded_enqueue_def)
  then have "cb_size ?c = cb_size cb + 1" by (metis length_append_singleton length_cb_contents Suc_eq_plus1)
  with Cons.IH [of ?c] Cons.prems c cb_enqueue_limits [of x cb] show ?case by (simp add: Let_def)
qed simp

lemma go_copy_two:
  "length r = length xs + length ys \<Longrightarrow> go_copy (go_copy r 0 xs) (length xs) ys = xs @ ys"
  by (simp add: go_copy_def)

lemma ring_slice:
  assumes "length b = m" "h < m" "n \<le> m" "m \<le> h + n" "length r = n"
  shows "go_copy (go_copy r 0 (drop h b)) (min (length r) (length (drop h b))) (take (h + n - m) b) =
    drop h b @ take (h + n - m) b"
proof -
  have "min (length r) (length (drop h b)) = length (drop h b)" using assms by simp
  then show ?thesis using assms by (simp only:) (rule go_copy_two, simp)
qed

lemma cb_Slice_contents:
  assumes "cb_ok cb"
  shows "cb_Slice cb = cb_contents cb"
proof (cases "cb_size cb = 0")
  case True
  then show ?thesis by (simp add: cb_Slice_def cb_contents_def)
next
  case False
  let ?m = "cb_maxSize cb" and ?b = "cb_slots cb" and ?h = "cb_head cb" and ?t = "cb_tail cb" and ?n = "cb_size cb"
  have b: "length ?b = ?m" using False assms by (auto simp: cb_ok_def cb_slots_def split: option.splits)
  have m: "?h < ?m" "?n \<le> ?m" "?t = (?h + ?n) mod ?m" using assms by (auto simp: cb_ok_def)
  show ?thesis
  proof (cases "?h + ?n < ?m")
    case True
    then have t: "?t = ?h + ?n" using m by simp
    then have "cb_Slice cb = drop ?h (take ?t ?b)" using False True b m by (simp add: cb_Slice_def go_copy_def Let_def)
    also have "\<dots> = cb_contents cb"
      unfolding cb_contents_def using True b m t by (intro nth_equalityI) auto
    finally show ?thesis .
  next
    case wrap: False
    then have t: "?t = ?h + ?n - ?m" using m by (simp add: le_mod_geq)
    have le: "?t \<le> ?h" using t m wrap by linarith
    have "cb_Slice cb = drop ?h ?b @ take ?t ?b"
    proof -
      have "cb_Slice cb = go_copy (go_copy (replicate ?n 0) 0 (drop ?h ?b)) (min (length (replicate ?n (0::'a))) (length (drop ?h ?b))) (take ?t ?b)"
        unfolding cb_Slice_def Let_def using False le by (simp only: if_False linorder_not_le if_cancel split: if_split) auto
      also have "\<dots> = drop ?h ?b @ take ?t ?b"
        unfolding t by (rule ring_slice) (use b m wrap in auto)
      finally show ?thesis .
    qed
    also have "\<dots> = cb_contents cb"
      unfolding cb_contents_def using b m t wrap
      by (intro nth_equalityI) (auto simp: nth_append le_mod_geq add.commute)
    finally show ?thesis .
  qed
qed

section \<open>Properties\<close>

text \<open>
  The array queue is first-in-first-out and the array stack last-in-first-out: whatever was put in
  comes out in the same, respectively the opposite, order, and both clones hold what the original holds.
\<close>

theorem array_queue_stack_order:
  "array_queue.drain (length xs) (fold aq_Enqueue xs (aq_New safe)) = (xs :: 'e::zero list) \<and>
   array_stack.unwind (length xs) (fold as_Push xs (as_New safe)) = rev xs \<and>
   aq_Values (aq_Clone q) = aq_Values q \<and> as_Values (as_Clone s) = as_Values s \<and>
   aq_Values (aq_NewFromMapKeys m safe) = map fst m"
  using array_queue.fifo_order [of xs safe] array_stack.lifo_order [of xs safe]
    aq_clone [of q] as_clone [of s] aq_maps(1) [of m safe]
  by (simp add: aq_Values_def as_Values_def)

text \<open>
  The circular buffer is a queue of bounded length. Enqueueing appends while there is room; on a full
  buffer it replaces the oldest element, or refuses the new one when built to drop. Dequeueing and peeking
  give the oldest element, the slice lists the contents from the oldest to the newest wherever the ring
  wraps, and no index leaves the array.
\<close>

theorem circular_buffer_bounded_queue:
  assumes "cb_ok cb"
  shows "(let (r, cb') = cb_enqueue e cb in cb_ok cb' \<and>
      (r, cb_contents cb') = bounded_enqueue (cb_maxSize cb) (cb_drop cb) e (cb_contents cb)) \<and>
    (case cb_contents cb of
       [] \<Rightarrow> cb_Dequeue cb = None \<and> cb_Peek cb = None
     | x # xs \<Rightarrow> \<exists>cb'. cb_Dequeue cb = Some (x, cb') \<and> cb_ok cb' \<and> cb_contents cb' = xs \<and> cb_Peek cb = Some x) \<and>
    cb_Slice cb = cb_contents cb \<and> cb_Len cb = length (cb_contents cb) \<and>
    cb_ok (cb_Clear cb) \<and> cb_contents (cb_Clear cb) = [] \<and>
    cb_Range fn cb = takeWhile fn (cb_contents cb) @ take 1 (dropWhile fn (cb_contents cb)) \<and>
    (cb_size cb \<noteq> 0 \<longrightarrow> cb_head cb < length (cb_slots cb))"
proof -
  have "cb_ok (cb_Clear cb) \<and> cb_contents (cb_Clear cb) = []"
    using assms by (auto simp: cb_Clear_def cb_ok_def cb_contents_def split: option.splits)
  moreover have "cb_Range fn cb = takeWhile fn (cb_contents cb) @ take 1 (dropWhile fn (cb_contents cb))"
    by (simp add: cb_Range_def cb_range_prefix cb_walk_ok [OF assms] Let_def)
  moreover have "cb_size cb \<noteq> 0 \<longrightarrow> cb_head cb < length (cb_slots cb)"
    using assms by (auto simp: cb_ok_def cb_slots_def split: option.splits)
  ultimately show ?thesis
    using cb_enqueue_bounded [OF assms, of e] cb_Dequeue_contents [OF assms] cb_Slice_contents [OF assms]
    by (auto simp: cb_Len_def split: prod.splits)
qed

theorem circular_buffer_bounded_queue_witness:
  "\<exists>cb. cb_NewFromSlice [1, 2, 3::int] False False = Inr cb \<and> cb_Slice (snd (cb_enqueue 4 cb)) = [2, 3, 4] \<and>
     cb_Range (\<lambda>_. True) cb = [1, 2, 3]"
proof -
  obtain cb :: "int cbuffer" where cb: "cb_NewFromSlice [1, 2, 3] False False = Inr cb" "cb_ok cb" "cb_contents cb = [1, 2, 3]"
    "cb_maxSize cb = 3" "\<not> cb_drop cb"
  proof
    let ?cb = "\<lparr>cb_buf = Some [1, 2, 3], cb_head = 0, cb_tail = 0, cb_size = 3, cb_maxSize = 3, cb_safe = False, cb_drop = False\<rparr> :: int cbuffer"
    show "cb_NewFromSlice [1, 2, 3] False False = Inr ?cb" by code_simp
    show "cb_ok ?cb" by code_simp
    show "cb_contents ?cb = [1, 2, 3]" by code_simp
  qed simp_all
  let ?cb = "snd (cb_enqueue 4 cb)"
  have "cb_ok ?cb \<and> cb_contents ?cb = [2, 3, 4]"
    using conjunct1 [OF circular_buffer_bounded_queue [OF cb(2), of 4]] cb(3-)
    by (simp add: bounded_enqueue_def split: prod.splits)
  then have "cb_Slice ?cb = [2, 3, 4]" using circular_buffer_bounded_queue [of ?cb] by simp
  moreover have "cb_Range (\<lambda>_. True) cb = [1, 2, 3]"
    using circular_buffer_bounded_queue [OF cb(2), where fn = "\<lambda>_. True"] cb by simp
  ultimately show ?thesis using cb(1) by blast
qed

text \<open>
  A circular buffer built from a slice, and the clone of one, hold exactly the given elements in
  order, with the same limit and policy; building one from nothing fails.
\<close>

theorem circular_buffer_copies:
  fixes cb :: "'e::zero cbuffer" and xs :: "'e list"
  assumes "cb_ok cb" "xs \<noteq> []"
  shows "(\<exists>c. cb_NewFromSlice xs safe drop_new = Inr c \<and> cb_ok c \<and> cb_contents c = xs \<and> cb_IsFull c) \<and>
    (\<exists>c. cb_Clone cb = Inr c \<and> cb_ok c \<and> cb_contents c = cb_contents cb \<and> cb_maxSize c = cb_maxSize cb \<and>
       cb_drop c = cb_drop cb \<and> cb_safe c = cb_safe cb) \<and>
    cb_NewFromSlice ([] :: 'e list) safe drop_new = Inl ''size must be greater than 0''"
proof -
  obtain n :: "'e cbuffer" where n: "cb_New (int (length xs)) safe drop_new = Inr n" "cb_ok n" "cb_contents n = []" "cb_maxSize n = length xs"
    using cb_New_ok [of "int (length xs)" safe drop_new] assms(2) by auto
  then have "cb_size n + length xs \<le> cb_maxSize n" by (metis add_0 length_cb_contents list.size(3) order_refl)
  from fold_cb_enqueue [OF n(2) this] n(1,3,4)
  have "\<exists>c. cb_NewFromSlice xs safe drop_new = Inr c \<and> cb_ok c \<and> cb_contents c = xs \<and> cb_maxSize c = length xs"
    by (simp add: cb_NewFromSlice_def Let_def)
  then have "\<exists>c. cb_NewFromSlice xs safe drop_new = Inr c \<and> cb_ok c \<and> cb_contents c = xs \<and> cb_IsFull c"
    unfolding cb_IsFull_def by (metis length_cb_contents)
  moreover have pos: "0 < int (cb_maxSize cb)" using assms(1) by (simp add: cb_ok_def)
  obtain c :: "'e cbuffer" where c: "cb_New (int (cb_maxSize cb)) (cb_safe cb) (cb_drop cb) = Inr c" "cb_ok c"
    "cb_contents c = []" "cb_maxSize c = cb_maxSize cb" "cb_drop c = cb_drop cb" "cb_safe c = cb_safe cb"
    using cb_New_ok [of "int (cb_maxSize cb)" "cb_safe cb" "cb_drop cb"] pos by auto
  then have "cb_size c + length (cb_contents cb) \<le> cb_maxSize c"
    using assms(1) length_cb_contents [of c] by (simp add: cb_ok_def)
  from fold_cb_enqueue [OF c(2) this] c(1,3-) assms(1)
  have "\<exists>c. cb_Clone cb = Inr c \<and> cb_ok c \<and> cb_contents c = cb_contents cb \<and> cb_maxSize c = cb_maxSize cb \<and>
       cb_drop c = cb_drop cb \<and> cb_safe c = cb_safe cb"
    by (simp add: cb_Clone_def cb_walk_ok Let_def)
  ultimately show ?thesis by (simp add: cb_NewFromSlice_def cb_New_def)
qed

theorem circular_buffer_copies_witness:
  "\<exists>c. cb_Clone \<lparr>cb_buf = Some [1, 2], cb_head = 1, cb_tail = 1, cb_size = 2, cb_maxSize = 2, cb_safe = False, cb_drop = True\<rparr>
     = Inr c \<and> cb_contents c = [2, 1::int]"
proof -
  let ?cb = "\<lparr>cb_buf = Some [1, 2], cb_head = 1, cb_tail = 1, cb_size = 2, cb_maxSize = 2, cb_safe = False, cb_drop = True\<rparr> :: int cbuffer"
  have "cb_ok ?cb" "cb_contents ?cb = [2, 1]" by code_simp+
  with circular_buffer_copies [of ?cb "[7]"] show ?thesis by auto
qed

end
