(* ===== verification/Ds_Arraylist.thy ===== *)
theory Ds_Arraylist
  imports Ds_Array
begin

text \<open>
  The resizable list of \<^verbatim>\<open>src/ds/list/arraylist/list.go\<close>. The backing array and the length of the slice
  over it are separate, so that growing and shrinking show: growing within the capacity exposes slots of
  the array, growing beyond it and shrinking move to a new array. Capacities are computed in single
  precision in the code, which rounds large numbers, so the rounding is written out; the growth loop
  that could then stand still returns \<open>None\<close>. The constant \<open>0\<close> is Go's zero value.
\<close>

section \<open>Single precision\<close>

text \<open>The value of \<open>float32(n)\<close>: 24 significant bits, ties to even.\<close>

fun f32_shift :: "nat \<Rightarrow> nat" where
  "f32_shift n = (if n < 2 ^ 24 then 0 else Suc (f32_shift (n div 2)))"

declare f32_shift.simps [simp del]

definition f32 :: "nat \<Rightarrow> nat" where
  "f32 n =
     (let s = f32_shift n; q = n div 2 ^ s; r = n mod 2 ^ s; half = 2 ^ s div 2
      in if s = 0 then n
         else if r > half \<or> r = half \<and> odd q then (q + 1) * 2 ^ s
         else q * 2 ^ s)"

text \<open>\<open>int(growthFactor * float32(c))\<close> and \<open>int(shrinkFactor * float32(c))\<close>; scaling by powers of two is exact.\<close>

definition minCap :: nat where
  "minCap = 16"

definition grown :: "nat \<Rightarrow> nat" where
  "grown c = 2 * f32 c"

definition shrunk :: "nat \<Rightarrow> nat" where
  "shrunk c = f32 c div 4"

lemma f32_shift_div: "0 < n \<Longrightarrow> 0 < n div 2 ^ f32_shift n"
proof (induction n rule: f32_shift.induct)
  case (1 n)
  show ?case
  proof (cases "n < 2 ^ 24")
    case True
    with 1 show ?thesis by (simp add: f32_shift.simps [of n])
  next
    case False
    with 1 have "0 < n div 2 div 2 ^ f32_shift (n div 2)" by simp
    with False show ?thesis by (simp add: f32_shift.simps [of n] div_mult2_eq)
  qed
qed

lemma f32_shift_power: "f32_shift (2 ^ j) \<le> j"
proof (induction j)
  case (Suc j)
  then show ?case by (subst f32_shift.simps) simp
qed (simp add: f32_shift.simps)

text \<open>Powers of two are exact, and doubling a positive number always grows it.\<close>

lemma f32_power: "f32 (2 ^ j) = 2 ^ j"
proof -
  let ?s = "f32_shift (2 ^ j)"
  have d: "(2::nat) ^ ?s dvd 2 ^ j" using f32_shift_power by (rule le_imp_power_dvd)
  then have "(2::nat) ^ j mod 2 ^ ?s = 0" "(2::nat) ^ j div 2 ^ ?s * 2 ^ ?s = 2 ^ j" by auto
  then show ?thesis
  proof (cases ?s)
    case (Suc s)
    then have "(0::nat) < 2 ^ ?s div 2" by simp
    then show ?thesis using \<open>2 ^ j mod 2 ^ ?s = 0\<close> \<open>2 ^ j div 2 ^ ?s * 2 ^ ?s = 2 ^ j\<close> by (auto simp: f32_def Let_def)
  qed (simp add: f32_def)
qed

lemma grown_greater: "0 < c \<Longrightarrow> c < grown c"
proof -
  assume c: "0 < c"
  let ?s = "f32_shift c"
  let ?q = "c div 2 ^ ?s"
  have "?q * 2 ^ ?s \<le> f32 c" by (simp add: f32_def Let_def)
  moreover have "0 < ?q" using f32_shift_div [OF c] .
  moreover have "c < (?q + 1) * 2 ^ ?s" using dividend_less_div_times [of "2 ^ ?s" c] by simp
  moreover have "(?q + 1) * 2 ^ ?s \<le> 2 * (?q * 2 ^ ?s)" using \<open>0 < ?q\<close> by simp
  ultimately show ?thesis unfolding grown_def by linarith
qed

section \<open>The list\<close>

record 'e arraylist =
  al_buf :: "'e list"
  al_len :: nat
  al_cmp :: "'e \<Rightarrow> 'e \<Rightarrow> int"
  al_safe :: bool

definition al_elements :: "'e arraylist \<Rightarrow> 'e list" where
  "al_elements l = take (al_len l) (al_buf l)"

definition al_cap :: "'e arraylist \<Rightarrow> nat" where
  "al_cap l = length (al_buf l)"

definition al_resize :: "nat \<Rightarrow> nat \<Rightarrow> 'e::zero arraylist \<Rightarrow> 'e arraylist" where
  "al_resize newLen newCap l =
     (let copied = take newLen (al_elements l)
      in l\<lparr>al_buf := copied @ replicate (newCap - length copied) 0, al_len := newLen\<rparr>)"

text \<open>The loop of \<open>growBy\<close>. A capacity of zero would double to zero for ever: \<open>None\<close>.\<close>

function grow_loop :: "nat \<Rightarrow> nat \<Rightarrow> nat option" where
  "grow_loop newCap newLen =
     (if newCap < newLen then (if newCap = 0 then None else grow_loop (grown newCap) newLen) else Some newCap)"
  by auto
termination
  by (relation "measure (\<lambda>(newCap, newLen). newLen - newCap)") (auto simp: diff_less_mono2 grown_greater)

declare grow_loop.simps [simp del]

definition growBy :: "nat \<Rightarrow> 'e::zero arraylist \<Rightarrow> 'e arraylist option" where
  "growBy n l =
     (let currCap = al_cap l; newLen = al_len l + n
      in if newLen > currCap then
           (let newCap = grown currCap; newCap = (if newCap = 0 then minCap else newCap)
            in map_option (\<lambda>c. al_resize newLen c l) (grow_loop newCap newLen))
         else Some (l\<lparr>al_len := newLen\<rparr>))"

definition shrink :: "'e::zero arraylist \<Rightarrow> 'e arraylist" where
  "shrink l =
     (let currCap = al_cap l
      in if al_len l \<le> shrunk currCap then al_resize (al_len l) (max (shrunk currCap) minCap) l else l)"

definition withinRange :: "int \<Rightarrow> bool \<Rightarrow> 'e arraylist \<Rightarrow> bool" where
  "withinRange index allowEnd l \<longleftrightarrow>
     (if allowEnd then index \<ge> 0 \<and> index \<le> int (al_len l) else index \<ge> 0 \<and> index < int (al_len l))"

text \<open>Writing into \<open>l.elements\<close> from an offset on: assignments in a loop, and \<open>copy\<close>.\<close>

fun assign_loop :: "'e list \<Rightarrow> nat \<Rightarrow> 'e list \<Rightarrow> 'e list" where
  "assign_loop buf off [] = buf"
| "assign_loop buf off (e # es) = assign_loop (buf[off := e]) (off + 1) es"

definition al_copy :: "nat \<Rightarrow> 'e list \<Rightarrow> 'e arraylist \<Rightarrow> 'e arraylist" where
  "al_copy off src l = l\<lparr>al_buf := go_copy (al_elements l) off src @ drop (al_len l) (al_buf l)\<rparr>"

definition al_New :: "('e \<Rightarrow> 'e \<Rightarrow> int) \<Rightarrow> bool \<Rightarrow> 'e::zero arraylist" where
  "al_New cmp safe = \<lparr>al_buf = replicate minCap 0, al_len = 0, al_cmp = cmp, al_safe = safe\<rparr>"

definition arraylist_New :: "('e \<Rightarrow> 'e \<Rightarrow> int) option \<Rightarrow> bool \<Rightarrow> string + 'e::zero arraylist" where
  "arraylist_New cmp safe = checked_New (\<lambda>c. al_New c safe) cmp"

definition al_NewFromSlice :: "('e \<Rightarrow> 'e \<Rightarrow> int) \<Rightarrow> 'e list \<Rightarrow> bool \<Rightarrow> 'e::zero arraylist option" where
  "al_NewFromSlice cmp elements safe =
     map_option (al_copy 0 elements) (growBy (length elements) (al_New cmp safe))"

definition al_Get :: "int \<Rightarrow> 'e arraylist \<Rightarrow> 'e option" where
  "al_Get index l = (if \<not> withinRange index False l then None else Some (al_buf l ! nat index))"

definition al_append :: "'e::zero list \<Rightarrow> 'e arraylist \<Rightarrow> 'e arraylist option" where
  "al_append el l =
     map_option (\<lambda>l'. l'\<lparr>al_buf := assign_loop (al_buf l') (al_len l) el\<rparr>) (growBy (length el) l)"

definition al_Append :: "'e::zero list \<Rightarrow> 'e arraylist \<Rightarrow> 'e arraylist option" where
  "al_Append el l = (if length el = 0 then Some l else al_append el l)"

definition al_Insert :: "int \<Rightarrow> 'e::zero list \<Rightarrow> 'e arraylist \<Rightarrow> 'e arraylist option" where
  "al_Insert index el l =
     (if length el = 0 then Some l
      else if \<not> withinRange index True l then Some l
      else if index = int (al_len l) then al_append el l
      else
        (let i = nat index; addLen = length el; oldLen = al_len l
         in map_option (\<lambda>l'. al_copy i el (al_copy (i + addLen) (drop i (take oldLen (al_buf l'))) l')) (growBy addLen l)))"

definition al_Set :: "int \<Rightarrow> 'e::zero \<Rightarrow> 'e arraylist \<Rightarrow> 'e arraylist option" where
  "al_Set index e l =
     (if \<not> withinRange index True l then Some l
      else if index = int (al_len l) then al_append [e] l
      else Some (l\<lparr>al_buf := (al_buf l)[nat index := e]\<rparr>))"

text \<open>\<open>slices.Delete\<close> moves the rest down and clears the slot that falls free.\<close>

definition al_delete :: "nat \<Rightarrow> 'e::zero arraylist \<Rightarrow> 'e arraylist" where
  "al_delete i l =
     l\<lparr>al_buf := take i (al_elements l) @ drop (i + 1) (al_elements l) @ [0] @ drop (al_len l) (al_buf l),
       al_len := al_len l - 1\<rparr>"

definition removeAt :: "int \<Rightarrow> 'e::zero arraylist \<Rightarrow> 'e \<times> 'e arraylist" where
  "removeAt index l =
     (if \<not> withinRange index False l then (0, l)
      else (al_buf l ! nat index, shrink (al_delete (nat index) l)))"

definition al_RemoveAt :: "int \<Rightarrow> 'e::zero arraylist \<Rightarrow> 'e \<times> 'e arraylist" where
  "al_RemoveAt index l = removeAt index l"

lemma al_len_removeAt: "i < al_len l \<Longrightarrow> al_len (snd (removeAt (int i) l)) = al_len l - 1"
  by (simp add: removeAt_def withinRange_def shrink_def al_delete_def al_resize_def Let_def)

function remove_loop :: "'e::zero \<Rightarrow> nat \<Rightarrow> 'e arraylist \<Rightarrow> 'e arraylist" where
  "remove_loop e i l =
     (if i < al_len l then
        (if al_cmp l e (al_buf l ! i) = 0 then remove_loop e i (snd (removeAt (int i) l))
         else remove_loop e (i + 1) l)
      else l)"
  by auto
termination
  by (relation "measure (\<lambda>(e, i, l). al_len l - i)") (auto simp: al_len_removeAt)

declare remove_loop.simps [simp del]

definition al_Remove :: "'e::zero \<Rightarrow> 'e arraylist \<Rightarrow> 'e arraylist" where
  "al_Remove e l = remove_loop e 0 l"

definition al_Clear :: "'e arraylist \<Rightarrow> 'e arraylist" where
  "al_Clear l = l\<lparr>al_buf := [], al_len := 0\<rparr>"

fun contains_loop :: "('e \<Rightarrow> 'e \<Rightarrow> int) \<Rightarrow> 'e \<Rightarrow> 'e list \<Rightarrow> bool" where
  "contains_loop cmp e [] = False"
| "contains_loop cmp e (v # vs) = (if cmp v e = 0 then True else contains_loop cmp e vs)"

definition al_contains :: "'e \<Rightarrow> 'e arraylist \<Rightarrow> bool" where
  "al_contains e l = contains_loop (al_cmp l) e (al_elements l)"

fun al_Contains :: "'e list \<Rightarrow> 'e arraylist \<Rightarrow> bool" where
  "al_Contains [] l = True"
| "al_Contains (e # el) l = (if \<not> al_contains e l then False else al_Contains el l)"

definition al_Values :: "'e arraylist \<Rightarrow> 'e list" where
  "al_Values l = al_elements l"

fun index_loop :: "('e \<Rightarrow> 'e \<Rightarrow> int) \<Rightarrow> 'e \<Rightarrow> int \<Rightarrow> 'e list \<Rightarrow> int" where
  "index_loop cmp e i [] = -1"
| "index_loop cmp e i (v # vs) = (if cmp v e = 0 then i else index_loop cmp e (i + 1) vs)"

definition al_IndexOf :: "'e \<Rightarrow> 'e arraylist \<Rightarrow> int" where
  "al_IndexOf e l = index_loop (al_cmp l) e 0 (al_elements l)"

definition al_IsEmpty :: "'e arraylist \<Rightarrow> bool" where
  "al_IsEmpty l \<longleftrightarrow> al_len l = 0"

definition al_Len :: "'e arraylist \<Rightarrow> nat" where
  "al_Len l = al_len l"

text \<open>\<open>slices.SortFunc\<close> sorts in place and promises no order among equal elements, so it is an argument.\<close>

definition al_Sort :: "(('e \<Rightarrow> 'e \<Rightarrow> int) \<Rightarrow> 'e list \<Rightarrow> 'e list) \<Rightarrow> 'e arraylist \<Rightarrow> 'e arraylist" where
  "al_Sort sortFunc l =
     (if al_len l < 2 then l
      else l\<lparr>al_buf := sortFunc (al_cmp l) (al_elements l) @ drop (al_len l) (al_buf l)\<rparr>)"

definition al_Swap :: "int \<Rightarrow> int \<Rightarrow> 'e arraylist \<Rightarrow> 'e arraylist" where
  "al_Swap i j l =
     (if withinRange i False l \<and> withinRange j False l then
        l\<lparr>al_buf := (al_buf l)[nat i := al_buf l ! nat j, nat j := al_buf l ! nat i]\<rparr>
      else l)"

text \<open>The elements \<open>fn\<close> is called on.\<close>

fun range_loop :: "('e \<Rightarrow> bool) \<Rightarrow> 'e list \<Rightarrow> 'e list" where
  "range_loop fn [] = []"
| "range_loop fn (e # es) = (if \<not> fn e then [e] else e # range_loop fn es)"

definition al_Range :: "('e \<Rightarrow> bool) \<Rightarrow> 'e arraylist \<Rightarrow> 'e list" where
  "al_Range fn l = range_loop fn (al_elements l)"

section \<open>Capacities\<close>

text \<open>
  Every capacity the list ever has is zero, after \<open>Clear\<close>, or sixteen times a power of two: on those
  the single precision arithmetic is exact.
\<close>

definition cap_ok :: "nat \<Rightarrow> bool" where
  "cap_ok c \<longleftrightarrow> c = 0 \<or> (\<exists>k. c = 16 * 2 ^ k)"

lemma f32_cap: "cap_ok c \<Longrightarrow> f32 c = c"
proof -
  have "(16::nat) * 2 ^ k = 2 ^ (4 + k)" for k by (simp add: power_add)
  then show "cap_ok c \<Longrightarrow> f32 c = c" using f32_power
    by (auto simp: cap_ok_def f32_def f32_shift.simps [of 0])
qed

lemma cap_ok_grown: "cap_ok c \<Longrightarrow> 0 < c \<Longrightarrow> cap_ok (grown c) \<and> grown c = 2 * c"
  by (auto simp: f32_cap grown_def) (auto simp: cap_ok_def intro: exI [of _ "Suc _"])

lemma cap_ok_shrunk: "cap_ok c \<Longrightarrow> cap_ok (max (shrunk c) minCap) \<and> shrunk c = c div 4"
proof -
  assume "cap_ok c"
  then have s: "shrunk c = c div 4" by (simp add: f32_cap shrunk_def)
  have "cap_ok (max (16 * 2 ^ k div 4) 16)" for k
  proof (cases "k \<ge> 2")
    case True
    then obtain j where "k = j + 2" by (metis le_iff_add add.commute)
    then have "(16::nat) * 2 ^ k div 4 = 16 * 2 ^ j" by (simp add: power_add)
    then have "max (16 * 2 ^ k div 4) 16 = (16::nat) * 2 ^ j" by simp
    then show ?thesis unfolding cap_ok_def by blast
  next
    case False
    then have "k = 0 \<or> k = 1" by auto
    then have "max (16 * 2 ^ k div 4) 16 = (16::nat) * 2 ^ 0" by auto
    then show ?thesis unfolding cap_ok_def by blast
  qed
  moreover have "cap_ok 16" unfolding cap_ok_def by (intro disjI2 exI [of _ 0]) simp
  ultimately show ?thesis using \<open>cap_ok c\<close> s by (auto simp: cap_ok_def minCap_def)
qed

text \<open>The growth loop returns a capacity that fits, at most twice what is needed.\<close>

lemma grow_loop_ok:
  "cap_ok c \<Longrightarrow> 0 < c \<Longrightarrow> c \<le> max 16 (2 * n) \<Longrightarrow>
     \<exists>c'. grow_loop c n = Some c' \<and> cap_ok c' \<and> n \<le> c' \<and> c' \<le> max 16 (2 * n)"
proof (induction c n rule: grow_loop.induct)
  case (1 c n)
  show ?case
  proof (cases "c < n")
    case True
    have g: "cap_ok (grown c)" "grown c = 2 * c" using cap_ok_grown [OF 1(2,3)] by auto
    then have "\<exists>c'. grow_loop (grown c) n = Some c' \<and> cap_ok c' \<and> n \<le> c' \<and> c' \<le> max 16 (2 * n)"
      using 1 True by simp
    with True 1 show ?thesis by (simp add: grow_loop.simps [of c])
  next
    case False
    with 1 show ?thesis by (simp add: grow_loop.simps [of c])
  qed
qed

text \<open>The invariant: the slice fits its array, and the array is at most four times what it holds.\<close>

definition al_ok :: "'e arraylist \<Rightarrow> bool" where
  "al_ok l \<longleftrightarrow> al_len l \<le> al_cap l \<and> cap_ok (al_cap l) \<and> al_cap l \<le> max 16 (4 * al_len l)"

lemma length_al_elements [simp]: "al_ok l \<Longrightarrow> length (al_elements l) = al_len l"
  by (simp add: al_ok_def al_elements_def al_cap_def)

lemma al_resize_fields:
  assumes "al_ok l" "al_len l \<le> n" "n \<le> c"
  shows "al_cap (al_resize n c l) = c \<and> al_len (al_resize n c l) = n \<and>
    take (al_len l) (al_buf (al_resize n c l)) = al_elements l \<and> al_cmp (al_resize n c l) = al_cmp l"
  using assms length_al_elements [OF assms(1)] by (simp add: al_resize_def al_cap_def Let_def)

lemma growBy_ok:
  assumes "al_ok l"
  shows "\<exists>l'. growBy n l = Some l' \<and> al_ok l' \<and> al_len l' = al_len l + n \<and>
    take (al_len l) (al_buf l') = al_elements l \<and> al_cmp l' = al_cmp l"
proof (cases "al_len l + n > al_cap l")
  case True
  let ?c = "if grown (al_cap l) = 0 then minCap else grown (al_cap l)"
  have "cap_ok 16" unfolding cap_ok_def by (intro disjI2 exI [of _ 0]) simp
  moreover have "grown 0 = 0" by (simp add: grown_def f32_def f32_shift.simps)
  ultimately have "cap_ok ?c \<and> 0 < ?c \<and> ?c \<le> max 16 (2 * (al_len l + n))"
    using cap_ok_grown [of "al_cap l"] grown_greater [of "al_cap l"] assms True
    by (cases "al_cap l = 0") (auto simp: al_ok_def minCap_def)
  then obtain c where c: "grow_loop ?c (al_len l + n) = Some c" "cap_ok c" "al_len l + n \<le> c" "c \<le> max 16 (2 * (al_len l + n))"
    using grow_loop_ok by blast
  from c(1) True have "growBy n l = Some (al_resize (al_len l + n) c l)" by (simp add: growBy_def Let_def)
  with c al_resize_fields [OF assms, of "al_len l + n" c] show ?thesis by (auto simp: al_ok_def)
next
  case False
  with assms show ?thesis by (auto simp: growBy_def al_ok_def al_cap_def al_elements_def Let_def)
qed

section \<open>The operations on the elements\<close>

lemma assign_loop_eq:
  "off + length es \<le> length buf \<Longrightarrow> assign_loop buf off es = take off buf @ es @ drop (off + length es) buf"
proof (induction buf off es rule: assign_loop.induct)
  case (2 buf off e es)
  then have "assign_loop (buf[off := e]) (off + 1) es = take (off + 1) (buf[off := e]) @ es @ drop (off + 1 + length es) (buf[off := e])" by simp
  with 2 show ?case by (simp add: take_Suc_conv_app_nth)
qed simp

lemma al_append_ok:
  assumes "al_ok l"
  shows "\<exists>l'. al_append el l = Some l' \<and> al_ok l' \<and> al_elements l' = al_elements l @ el \<and> al_cmp l' = al_cmp l"
proof -
  obtain g where g: "growBy (length el) l = Some g" "al_ok g" "al_len g = al_len l + length el"
    "take (al_len l) (al_buf g) = al_elements l" "al_cmp g = al_cmp l" using growBy_ok [OF assms] by blast
  have "al_len l + length el \<le> length (al_buf g)" using g(2,3) by (simp add: al_ok_def al_cap_def)
  moreover from this have "length (take (al_len l) (al_buf g)) = al_len l" by simp
  ultimately show ?thesis using g by (auto simp: al_append_def al_ok_def al_cap_def al_elements_def assign_loop_eq)
qed

lemma al_copy_ok:
  assumes "al_ok l" "off + length src \<le> al_len l"
  shows "al_ok (al_copy off src l) \<and> al_len (al_copy off src l) = al_len l \<and> al_cmp (al_copy off src l) = al_cmp l \<and>
    al_elements (al_copy off src l) = take off (al_elements l) @ src @ drop (off + length src) (al_elements l)"
proof -
  have len: "length (al_elements l) = al_len l" using assms(1) by simp
  then have "length (go_copy (al_elements l) off src) = al_len l" using assms(2) by (simp add: go_copy_def)
  with assms len show ?thesis by (auto simp: al_copy_def al_ok_def al_cap_def al_elements_def go_copy_def)
qed

lemma al_Insert_ok:
  assumes "al_ok l"
  shows "\<exists>l'. al_Insert index el l = Some l' \<and> al_ok l' \<and> al_cmp l' = al_cmp l \<and>
    al_elements l' = (if 0 \<le> index \<and> index \<le> int (al_len l)
      then take (nat index) (al_elements l) @ el @ drop (nat index) (al_elements l) else al_elements l)"
proof (cases "el = [] \<or> \<not> withinRange index True l \<or> index = int (al_len l)")
  case True
  with assms al_append_ok [OF assms, of el] show ?thesis by (auto simp: al_Insert_def withinRange_def)
next
  case False
  let ?i = "nat index"
  from False have i: "?i < al_len l" "0 \<le> index" by (auto simp: withinRange_def)
  obtain g where g: "growBy (length el) l = Some g" "al_ok g" "al_len g = al_len l + length el"
    "take (al_len l) (al_buf g) = al_elements l" "al_cmp g = al_cmp l" using growBy_ok [OF assms] by blast
  let ?g = "al_copy (?i + length el) (drop ?i (al_elements l)) g"
  have 1: "al_ok ?g \<and> al_len ?g = al_len g \<and> al_cmp ?g = al_cmp g \<and> al_elements ?g =
      take (?i + length el) (al_elements g) @ drop ?i (al_elements l)"
    using al_copy_ok [OF g(2), of "?i + length el" "drop ?i (al_elements l)"] g(2,3) assms i by simp
  then have 2: "al_ok (al_copy ?i el ?g) \<and> al_cmp (al_copy ?i el ?g) = al_cmp g \<and> al_elements (al_copy ?i el ?g) =
      take ?i (al_elements g) @ el @ drop ?i (al_elements l)"
    using al_copy_ok [of ?g ?i el] g(2,3) assms i by simp
  have "take ?i (al_elements g) = take ?i (al_elements l)"
    unfolding g(4) [symmetric] using i g(3) by (simp add: al_elements_def min_def)
  moreover have "al_Insert index el l = Some (al_copy ?i el ?g)"
    using False g(1,4) by (simp add: al_Insert_def Let_def)
  ultimately show ?thesis using 2 g(5) i by auto
qed

lemma al_Set_ok:
  assumes "al_ok l"
  shows "\<exists>l'. al_Set index e l = Some l' \<and> al_ok l' \<and> al_cmp l' = al_cmp l \<and>
    al_elements l' = (if index = int (al_len l) then al_elements l @ [e]
      else if 0 \<le> index \<and> index < int (al_len l) then (al_elements l)[nat index := e] else al_elements l)"
proof (cases "index = int (al_len l)")
  case True
  with al_append_ok [OF assms, of "[e]"] show ?thesis by (auto simp: al_Set_def withinRange_def)
next
  case False
  with assms show ?thesis
    by (auto simp: al_Set_def withinRange_def al_ok_def al_cap_def al_elements_def take_update_swap)
qed

lemma al_delete_eq:
  assumes "al_ok l" "i < al_len l"
  shows "al_elements (al_delete i l) = take i (al_elements l) @ drop (i + 1) (al_elements l)"
    "al_cap (al_delete i l) = al_cap l" "al_len (al_delete i l) = al_len l - 1" "al_cmp (al_delete i l) = al_cmp l"
proof -
  have len: "length (al_elements l) = al_len l" using assms(1) by simp
  then have "length (take i (al_elements l) @ drop (i + 1) (al_elements l)) = al_len l - 1" using assms(2) by simp
  moreover have "i \<le> al_len l - 1" using assms(2) by simp
  ultimately show "al_elements (al_delete i l) = take i (al_elements l) @ drop (i + 1) (al_elements l)"
    using len unfolding al_elements_def [of "al_delete i l"] by (simp add: al_delete_def min_def)
  show "al_cap (al_delete i l) = al_cap l"
    using assms len by (auto simp: al_delete_def al_cap_def al_ok_def)
qed (simp_all add: al_delete_def)

lemma shrink_ok:
  assumes "al_len l \<le> al_cap l" "cap_ok (al_cap l)" "al_cap l \<le> max 16 (4 * (al_len l + 1))"
  shows "al_ok (shrink l) \<and> al_elements (shrink l) = al_elements l \<and> al_cmp (shrink l) = al_cmp l"
proof -
  note c = cap_ok_shrunk [OF assms(2)]
  have len: "length (al_elements l) = al_len l" using assms(1) by (simp add: al_elements_def al_cap_def)
  have mult: "4 dvd al_cap l" using assms(2) by (auto simp: cap_ok_def)
  show ?thesis
  proof (cases "al_len l \<le> shrunk (al_cap l)")
    case True
    let ?c = "max (shrunk (al_cap l)) minCap"
    have "?c \<le> max 16 (4 * al_len l)"
      using assms(3) conjunct2 [OF c] by (auto simp: minCap_def max_def split: if_splits)
    moreover have "al_len l \<le> ?c" using True by simp
    moreover have "cap_ok (max (al_cap l div 4) minCap)" using c by metis
    ultimately show ?thesis using True conjunct2 [OF c] len
      unfolding shrink_def al_resize_def al_ok_def al_cap_def al_elements_def Let_def by simp
  next
    case False
    then have "al_cap l < 4 * al_len l" using c mult by auto
    with False assms show ?thesis by (simp add: shrink_def al_ok_def)
  qed
qed

lemma removeAt_ok:
  assumes "al_ok l"
  shows "al_ok (snd (removeAt index l)) \<and> al_cmp (snd (removeAt index l)) = al_cmp l \<and>
    (if 0 \<le> index \<and> index < int (al_len l)
     then fst (removeAt index l) = al_elements l ! nat index \<and>
       al_elements (snd (removeAt index l)) = take (nat index) (al_elements l) @ drop (nat index + 1) (al_elements l)
     else removeAt index l = (0, l))"
proof (cases "0 \<le> index \<and> index < int (al_len l)")
  case True
  then have i: "nat index < al_len l" by auto
  note d = al_delete_eq [OF assms i]
  have "al_ok (shrink (al_delete (nat index) l)) \<and> al_elements (shrink (al_delete (nat index) l)) = al_elements (al_delete (nat index) l) \<and>
      al_cmp (shrink (al_delete (nat index) l)) = al_cmp (al_delete (nat index) l)"
    by (rule shrink_ok) (use assms i d in \<open>auto simp: al_ok_def\<close>)
  moreover have "al_buf l ! nat index = al_elements l ! nat index" using i by (simp add: al_elements_def)
  ultimately show ?thesis using True d by (simp add: removeAt_def withinRange_def)
qed (use assms in \<open>auto simp: removeAt_def withinRange_def\<close>)

lemma remove_loop_ok:
  "al_ok l \<Longrightarrow> i \<le> al_len l \<Longrightarrow> al_ok (remove_loop e i l) \<and> al_cmp (remove_loop e i l) = al_cmp l \<and>
     al_elements (remove_loop e i l) = take i (al_elements l) @ filter (\<lambda>x. al_cmp l e x \<noteq> 0) (drop i (al_elements l))"
proof (induction e i l rule: remove_loop.induct)
  case (1 e i l)
  show ?case
  proof (cases "i < al_len l")
    case True
    have nth: "al_buf l ! i = al_elements l ! i" using True by (simp add: al_elements_def)
    have split: "drop i (al_elements l) = al_elements l ! i # drop (i + 1) (al_elements l)"
      using True 1 by (simp add: Cons_nth_drop_Suc)
    have len: "length (al_elements l) = al_len l" using 1 by simp
    show ?thesis
    proof (cases "al_cmp l e (al_buf l ! i) = 0")
      case eq: True
      let ?r = "snd (removeAt (int i) l)"
      have r: "al_ok ?r" "al_cmp ?r = al_cmp l" "al_elements ?r = take i (al_elements l) @ drop (i + 1) (al_elements l)"
        using removeAt_ok [OF 1(3), of "int i"] True by auto
      have "al_len ?r = al_len l - 1" by (rule al_len_removeAt [OF True])
      then have "i \<le> al_len ?r" using True by simp
      from 1(1) [OF True eq r(1) this] r eq nth split True len show ?thesis
        by (simp add: remove_loop.simps [of e i l])
    next
      case False
      then have "al_ok (remove_loop e (i + 1) l) \<and> al_cmp (remove_loop e (i + 1) l) = al_cmp l \<and>
        al_elements (remove_loop e (i + 1) l) = take (i + 1) (al_elements l) @ filter (\<lambda>x. al_cmp l e x \<noteq> 0) (drop (i + 1) (al_elements l))"
        using 1(2) [OF True False 1(3)] True by simp
      with False True nth split len show ?thesis
        by (simp add: remove_loop.simps [of e i l] take_Suc_conv_app_nth)
    qed
  next
    case False
    then have "remove_loop e i l = l" by (subst remove_loop.simps) simp
    with 1(3,4) False show ?thesis by simp
  qed
qed

lemma al_NewFromSlice_ok:
  "\<exists>l. al_NewFromSlice cmp xs safe = Some l \<and> al_ok l \<and> al_elements l = xs \<and> al_cmp l = cmp"
proof -
  have "cap_ok 16" unfolding cap_ok_def by (intro disjI2 exI [of _ 0]) simp
  then have n: "al_ok (al_New cmp safe)" "al_len (al_New cmp safe) = 0" "al_cmp (al_New cmp safe) = cmp"
    by (simp_all add: al_New_def al_ok_def al_cap_def minCap_def)
  then obtain g where g: "growBy (length xs) (al_New cmp safe) = Some g" "al_ok g" "al_len g = length xs" "al_cmp g = cmp"
    using growBy_ok [OF n(1), of "length xs"] by auto
  with al_copy_ok [OF g(2), of 0 xs] show ?thesis by (auto simp: al_NewFromSlice_def)
qed

lemma contains_loop_eq: "contains_loop cmp e vs \<longleftrightarrow> (\<exists>v\<in>set vs. cmp v e = 0)"
  by (induction vs) auto

lemma al_Contains_eq: "al_Contains el l \<longleftrightarrow> (\<forall>e\<in>set el. \<exists>v\<in>set (al_elements l). al_cmp l v e = 0)"
  by (induction el) (auto simp: al_contains_def contains_loop_eq)

lemma index_loop_eq:
  "index_loop cmp e i vs =
     (if \<exists>v\<in>set vs. cmp v e = 0 then i + int (length (takeWhile (\<lambda>v. cmp v e \<noteq> 0) vs)) else -1)"
  by (induction vs arbitrary: i) auto

lemma range_loop_eq: "range_loop fn es = takeWhile fn es @ take 1 (dropWhile fn es)"
  by (induction es) auto

lemma al_Swap_ok:
  "al_ok l \<Longrightarrow> al_ok (al_Swap i j l) \<and> al_elements (al_Swap i j l) =
     (if 0 \<le> i \<and> i < int (al_len l) \<and> 0 \<le> j \<and> j < int (al_len l)
      then (al_elements l)[nat i := al_elements l ! nat j, nat j := al_elements l ! nat i] else al_elements l)"
  by (auto simp: al_Swap_def withinRange_def al_ok_def al_cap_def al_elements_def take_update_swap)

lemma al_Sort_ok:
  assumes "al_ok l" "mset (sortFunc (al_cmp l) (al_elements l)) = mset (al_elements l)"
  shows "al_ok (al_Sort sortFunc l)" "al_cap (al_Sort sortFunc l) = al_cap l" "al_cmp (al_Sort sortFunc l) = al_cmp l"
    "al_elements (al_Sort sortFunc l) = (if al_len l < 2 then al_elements l else sortFunc (al_cmp l) (al_elements l))"
proof -
  from assms(2) have len: "length (sortFunc (al_cmp l) (al_elements l)) = al_len l"
    using mset_eq_length length_al_elements [OF assms(1)] by metis
  then show "al_elements (al_Sort sortFunc l) = (if al_len l < 2 then al_elements l else sortFunc (al_cmp l) (al_elements l))"
    by (simp add: al_Sort_def al_elements_def)
  show cap: "al_cap (al_Sort sortFunc l) = al_cap l" using assms(1) len by (auto simp: al_Sort_def al_cap_def al_ok_def)
  have "al_len (al_Sort sortFunc l) = al_len l" by (simp add: al_Sort_def)
  with assms(1) show "al_ok (al_Sort sortFunc l)" unfolding al_ok_def cap by simp
qed (simp add: al_Sort_def)

section \<open>Sequences of calls\<close>

text \<open>The calls that change a list, and any number of them on the same list.\<close>

datatype 'e al_call =
    CAppend "'e list" | CInsert int "'e list" | CSet int 'e | CRemove 'e | CRemoveAt int | CClear | CSort | CSwap int int

fun al_apply :: "(('e \<Rightarrow> 'e \<Rightarrow> int) \<Rightarrow> 'e list \<Rightarrow> 'e list) \<Rightarrow> 'e al_call \<Rightarrow> 'e::zero arraylist \<Rightarrow> 'e arraylist option" where
  "al_apply sortFunc (CAppend el) l = al_Append el l"
| "al_apply sortFunc (CInsert i el) l = al_Insert i el l"
| "al_apply sortFunc (CSet i e) l = al_Set i e l"
| "al_apply sortFunc (CRemove e) l = Some (al_Remove e l)"
| "al_apply sortFunc (CRemoveAt i) l = Some (snd (al_RemoveAt i l))"
| "al_apply sortFunc CClear l = Some (al_Clear l)"
| "al_apply sortFunc CSort l = Some (al_Sort sortFunc l)"
| "al_apply sortFunc (CSwap i j) l = Some (al_Swap i j l)"

fun al_run :: "(('e \<Rightarrow> 'e \<Rightarrow> int) \<Rightarrow> 'e list \<Rightarrow> 'e list) \<Rightarrow> 'e al_call list \<Rightarrow> 'e::zero arraylist \<Rightarrow> 'e arraylist option" where
  "al_run sortFunc [] l = Some l"
| "al_run sortFunc (c # cs) l = (case al_apply sortFunc c l of None \<Rightarrow> None | Some l' \<Rightarrow> al_run sortFunc cs l')"

text \<open>What the same calls mean for a plain list; an index out of range means nothing.\<close>

fun list_apply :: "(('e \<Rightarrow> 'e \<Rightarrow> int) \<Rightarrow> 'e list \<Rightarrow> 'e list) \<Rightarrow> ('e \<Rightarrow> 'e \<Rightarrow> int) \<Rightarrow> 'e al_call \<Rightarrow> 'e list \<Rightarrow> 'e list" where
  "list_apply sortFunc cmp (CAppend el) xs = xs @ el"
| "list_apply sortFunc cmp (CInsert i el) xs =
     (if 0 \<le> i \<and> i \<le> int (length xs) then take (nat i) xs @ el @ drop (nat i) xs else xs)"
| "list_apply sortFunc cmp (CSet i e) xs =
     (if i = int (length xs) then xs @ [e] else if 0 \<le> i \<and> i < int (length xs) then xs[nat i := e] else xs)"
| "list_apply sortFunc cmp (CRemove e) xs = filter (\<lambda>x. cmp e x \<noteq> 0) xs"
| "list_apply sortFunc cmp (CRemoveAt i) xs =
     (if 0 \<le> i \<and> i < int (length xs) then take (nat i) xs @ drop (nat i + 1) xs else xs)"
| "list_apply sortFunc cmp CClear xs = []"
| "list_apply sortFunc cmp CSort xs = (if length xs < 2 then xs else sortFunc cmp xs)"
| "list_apply sortFunc cmp (CSwap i j) xs =
     (if 0 \<le> i \<and> i < int (length xs) \<and> 0 \<le> j \<and> j < int (length xs) then xs[nat i := xs ! nat j, nat j := xs ! nat i] else xs)"

lemma al_apply_ok:
  assumes "al_ok l" "\<forall>c xs. mset (sortFunc c xs) = mset xs"
  shows "\<exists>l'. al_apply sortFunc c l = Some l' \<and> al_ok l' \<and> al_cmp l' = al_cmp l \<and>
    al_elements l' = list_apply sortFunc (al_cmp l) c (al_elements l)"
proof (cases c)
  case (CAppend el)
  with al_append_ok [OF assms(1), of el] assms(1) show ?thesis by (auto simp: al_Append_def)
next
  case (CInsert i el)
  with al_Insert_ok [OF assms(1), of i el] assms(1) show ?thesis by simp
next
  case (CSet i e)
  with al_Set_ok [OF assms(1), of i e] assms(1) show ?thesis by (auto split: if_splits)
next
  case (CRemove e)
  with remove_loop_ok [OF assms(1), of 0 e] show ?thesis by (simp add: al_Remove_def)
next
  case (CRemoveAt i)
  with removeAt_ok [OF assms(1), of i] assms(1) show ?thesis by (auto simp: al_RemoveAt_def)
next
  case CClear
  then show ?thesis by (simp add: al_Clear_def al_ok_def al_cap_def al_elements_def cap_ok_def)
next
  case CSort
  with al_Sort_ok [OF assms(1), of sortFunc] assms show ?thesis by simp
next
  case (CSwap i j)
  moreover have "al_cmp (al_Swap i j l) = al_cmp l" by (simp add: al_Swap_def)
  ultimately show ?thesis using al_Swap_ok [OF assms(1), of i j] assms(1) by simp
qed

lemma al_run_ok:
  assumes "\<forall>c xs. mset (sortFunc c xs) = mset xs"
  shows "al_ok l \<Longrightarrow> \<exists>l'. al_run sortFunc cs l = Some l' \<and> al_ok l' \<and> al_elements l' = fold (list_apply sortFunc (al_cmp l)) cs (al_elements l)"
proof (induction cs arbitrary: l)
  case (Cons c cs)
  obtain l1 where l1: "al_apply sortFunc c l = Some l1" "al_ok l1" "al_cmp l1 = al_cmp l"
    "al_elements l1 = list_apply sortFunc (al_cmp l) c (al_elements l)"
    using al_apply_ok [OF Cons.prems assms] by blast
  from Cons.IH [OF l1(2)] l1 show ?case by simp
qed simp

section \<open>Properties\<close>

text \<open>
  The array list is a list. Appending, inserting at an index and setting an element always return,
  do to the elements what the same operation does to a list, do nothing for an index out of range, and
  keep the invariant; removing every element equal to a given one filters, removing at an index drops
  exactly that element, and clearing leaves nothing. Building from a slice gives its elements.
\<close>

theorem arraylist_refines_list:
  assumes "al_ok l"
  shows "(\<exists>l'. al_Append el l = Some l' \<and> al_ok l' \<and> al_elements l' = al_elements l @ el) \<and>
    (\<exists>l'. al_Insert i el l = Some l' \<and> al_ok l' \<and> al_elements l' =
       (if 0 \<le> i \<and> i \<le> int (al_len l) then take (nat i) (al_elements l) @ el @ drop (nat i) (al_elements l)
        else al_elements l)) \<and>
    (\<exists>l'. al_Set i e l = Some l' \<and> al_ok l' \<and> al_elements l' =
       (if i = int (al_len l) then al_elements l @ [e]
        else if 0 \<le> i \<and> i < int (al_len l) then (al_elements l)[nat i := e] else al_elements l)) \<and>
    al_ok (al_Remove e l) \<and> al_elements (al_Remove e l) = filter (\<lambda>x. al_cmp l e x \<noteq> 0) (al_elements l) \<and>
    al_ok (snd (al_RemoveAt i l)) \<and>
    (if 0 \<le> i \<and> i < int (al_len l)
     then fst (al_RemoveAt i l) = al_elements l ! nat i \<and>
       al_elements (snd (al_RemoveAt i l)) = take (nat i) (al_elements l) @ drop (nat i + 1) (al_elements l)
     else al_RemoveAt i l = (0, l)) \<and>
    al_ok (al_Clear l) \<and> al_elements (al_Clear l) = [] \<and>
    (\<exists>l'. al_NewFromSlice cmp el safe = Some l' \<and> al_ok l' \<and> al_elements l' = el)"
proof -
  have "\<exists>l'. al_Append el l = Some l' \<and> al_ok l' \<and> al_elements l' = al_elements l @ el"
    using al_append_ok [OF assms, of el] assms by (auto simp: al_Append_def)
  moreover have "al_ok (al_Clear l) \<and> al_elements (al_Clear l) = []"
    by (simp add: al_Clear_def al_ok_def al_cap_def al_elements_def cap_ok_def)
  ultimately show ?thesis
    using al_Insert_ok [OF assms, of i el] al_Set_ok [OF assms, of i e] remove_loop_ok [OF assms, of 0 e]
      removeAt_ok [OF assms, of i] al_NewFromSlice_ok [of cmp el safe]
    unfolding al_Remove_def al_RemoveAt_def by (simp only: take_0 drop_0 append_Nil le0 simp_thms) blast
qed

theorem arraylist_refines_list_witness:
  "\<exists>l. al_NewFromSlice cmp_Compare [1, 2, 1::int] False = Some l \<and> al_elements (al_Remove 1 l) = [2] \<and>
     (\<exists>l'. al_Insert 1 [7, 8] l = Some l' \<and> al_elements l' = [1, 7, 8, 2, 1])"
proof -
  obtain l :: "int arraylist" where l: "al_NewFromSlice cmp_Compare [1, 2, 1] False = Some l" "al_ok l" "al_elements l = [1, 2, 1]"
    "al_cmp l = cmp_Compare" using al_NewFromSlice_ok by blast
  then have n: "al_len l = 3" using length_al_elements [OF l(2)] by simp
  from arraylist_refines_list [OF l(2), of "[7, 8]" 1 1] l n show ?thesis by (auto simp: cmp_Compare_def)
qed

text \<open>
  C34: every call on an array list returns, and the capacity stays bounded. Any sequence of calls on a
  list built from any slice returns (the growth loop, which would not return from a capacity of zero,
  included), leaves the elements that the same calls leave in a plain list, and leaves a backing array
  that fits them and is never more than four times as long, beyond the minimum of sixteen; on every
  capacity the list ever has, the single precision factors are exactly a doubling and a quartering.
\<close>

theorem arraylist_capacity:
  assumes "\<forall>c ys. mset (sortFunc c ys) = mset ys"
  shows "\<exists>l0 l. al_NewFromSlice cmp xs safe = Some l0 \<and> al_run sortFunc calls l0 = Some l \<and>
    al_elements l = fold (list_apply sortFunc cmp) calls xs \<and> al_len l = length (al_elements l) \<and>
    al_len l \<le> al_cap l \<and> al_cap l \<le> max 16 (4 * al_len l) \<and>
    grown (al_cap l) = 2 * al_cap l \<and> shrunk (al_cap l) = al_cap l div 4"
proof -
  obtain l0 where l0: "al_NewFromSlice cmp xs safe = Some l0" "al_ok l0" "al_elements l0 = xs" "al_cmp l0 = cmp"
    using al_NewFromSlice_ok by blast
  obtain l where l: "al_run sortFunc calls l0 = Some l" "al_ok l" "al_elements l = fold (list_apply sortFunc cmp) calls xs"
    using al_run_ok [OF assms l0(2), of calls] unfolding l0(3,4) by blast
  have "f32 (al_cap l) = al_cap l" using l(2) f32_cap by (simp add: al_ok_def)
  then have "grown (al_cap l) = 2 * al_cap l" "shrunk (al_cap l) = al_cap l div 4" by (simp_all add: grown_def shrunk_def)
  moreover have "al_len l = length (al_elements l)" "al_len l \<le> al_cap l" "al_cap l \<le> max 16 (4 * al_len l)"
    using l(2) length_al_elements [OF l(2)] by (simp_all add: al_ok_def)
  ultimately show ?thesis using l0(1) l(1,3) by blast
qed

theorem arraylist_capacity_witness:
  "\<exists>l0 l. al_NewFromSlice cmp_Compare (replicate 100 1 @ [2::int]) False = Some l0 \<and>
     al_run sort_by [CAppend [5, 4], CRemove 1, CInsert 0 [9], CSort, CSet 0 3, CRemoveAt 1] l0 = Some l \<and>
     al_elements l = [3, 5, 9] \<and> al_cap l \<le> 16"
proof -
  have "\<forall>(c :: int \<Rightarrow> int \<Rightarrow> int) ys. mset (sort_by c ys) = mset ys" by (simp add: mset_sort_by)
  from arraylist_capacity [OF this, of cmp_Compare "replicate 100 1 @ [2]" False
      "[CAppend [5, 4], CRemove 1, CInsert 0 [9], CSort, CSet 0 3, CRemoveAt 1]"]
  obtain l0 l where l: "al_NewFromSlice cmp_Compare (replicate 100 1 @ [2::int]) False = Some l0"
    "al_run sort_by [CAppend [5, 4], CRemove 1, CInsert 0 [9], CSort, CSet 0 3, CRemoveAt 1] l0 = Some l"
    "al_elements l = fold (list_apply sort_by cmp_Compare) [CAppend [5, 4], CRemove 1, CInsert 0 [9], CSort, CSet 0 3, CRemoveAt 1]
       (replicate 100 1 @ [2::int])" "al_len l = length (al_elements l)" "al_cap l \<le> max 16 (4 * al_len l)" by blast
  have "fold (list_apply sort_by cmp_Compare) [CAppend [5, 4], CRemove 1, CInsert 0 [9], CSort, CSet 0 3, CRemoveAt 1]
       (replicate 100 1 @ [2::int]) = [3, 5, 9]" by code_simp
  with l(3) have e: "al_elements l = [3, 5, 9]" by (rule trans)
  with l(4,5) have "al_cap l \<le> 16" by simp
  with l(1,2) e show ?thesis by blast
qed

text \<open>
  Looking up and rearranging. An element is reported contained, and its index given, exactly when the
  comparison says it equals one of the list, the index being the first such; swapping exchanges two
  positions and nothing else; sorting with a correct sorting routine orders the elements, keeps all of
  them and leaves the capacity alone.
\<close>

theorem arraylist_queries:
  assumes "al_ok l" "\<forall>c xs. mset (sortFunc c xs) = mset xs"
    "\<forall>c xs. comparator c \<longrightarrow> sorted_wrt (\<lambda>a b. c a b \<le> 0) (sortFunc c xs)" "comparator (al_cmp l)"
  shows "(al_Contains el l \<longleftrightarrow> (\<forall>e\<in>set el. \<exists>v\<in>set (al_elements l). al_cmp l v e = 0)) \<and>
    al_IndexOf e l = (if \<exists>v\<in>set (al_elements l). al_cmp l v e = 0
      then int (length (takeWhile (\<lambda>v. al_cmp l v e \<noteq> 0) (al_elements l))) else -1) \<and>
    al_elements (al_Swap i j l) =
      (if 0 \<le> i \<and> i < int (al_len l) \<and> 0 \<le> j \<and> j < int (al_len l)
       then (al_elements l)[nat i := al_elements l ! nat j, nat j := al_elements l ! nat i] else al_elements l) \<and>
    al_Range fn l = takeWhile fn (al_elements l) @ take 1 (dropWhile fn (al_elements l)) \<and>
    al_ok (al_Sort sortFunc l) \<and> al_cap (al_Sort sortFunc l) = al_cap l \<and>
    mset (al_elements (al_Sort sortFunc l)) = mset (al_elements l) \<and>
    sorted_wrt (\<lambda>a b. al_cmp l a b \<le> 0) (al_elements (al_Sort sortFunc l))"
proof -
  let ?s = "sortFunc (al_cmp l) (al_elements l)"
  have ms: "mset ?s = mset (al_elements l)" and sd: "sorted_wrt (\<lambda>a b. al_cmp l a b \<le> 0) ?s" using assms(2-4) by auto
  have "sorted_wrt (\<lambda>a b. al_cmp l a b \<le> 0) (al_elements l)" if "al_len l < 2"
    using that length_al_elements [OF assms(1)] by (cases "al_elements l" rule: list.exhaust) (auto simp: less_2_cases_iff)
  then have "al_ok (al_Sort sortFunc l) \<and> al_cap (al_Sort sortFunc l) = al_cap l \<and>
    mset (al_elements (al_Sort sortFunc l)) = mset (al_elements l) \<and>
    sorted_wrt (\<lambda>a b. al_cmp l a b \<le> 0) (al_elements (al_Sort sortFunc l))"
    using al_Sort_ok [OF assms(1), of sortFunc] ms sd by simp
  then show ?thesis
    using al_Swap_ok [OF assms(1), of i j]
    by (simp add: al_Contains_eq al_IndexOf_def index_loop_eq al_Range_def range_loop_eq)
qed

theorem arraylist_queries_witness:
  "\<exists>l. al_NewFromSlice cmp_Compare [3, 1, 2::int] False = Some l \<and> al_IndexOf 2 l = 2 \<and> al_Contains [1, 3] l \<and>
     sorted_wrt (\<lambda>a b. cmp_Compare a b \<le> 0) (al_elements (al_Sort sort_by l))"
proof -
  obtain l :: "int arraylist" where l: "al_NewFromSlice cmp_Compare [3, 1, 2] False = Some l" "al_ok l" "al_elements l = [3, 1, 2]"
    "al_cmp l = cmp_Compare" using al_NewFromSlice_ok by blast
  have "\<forall>(c :: int \<Rightarrow> int \<Rightarrow> int) xs. comparator c \<longrightarrow> sorted_wrt (\<lambda>a b. c a b \<le> 0) (sort_by c xs)"
    using comparator.sorted_sort_by by blast
  moreover have "comparator (al_cmp l)" unfolding l(4) by (rule ordered.comparator_axioms)
  ultimately show ?thesis
    using arraylist_queries [OF l(2), of sort_by "[1, 3]" 2 0 0 "\<lambda>_. True"] l
    by (auto simp: mset_sort_by cmp_Compare_def simp del: al_Contains.simps)
qed

end
