(* ===== verification/Ds_Linked.thy ===== *)
theory Ds_Linked
  imports Ds_Interfaces
begin

text \<open>
  The doubly linked list of \<^verbatim>\<open>src/ds/list/linkedlist\<close>, over an explicit store: nodes and lists are objects
  at addresses, the fields are the pointers of the code, and nil is \<open>None\<close>. Nodes are handles a caller
  may keep, use on another list or use after removing them, so what a method does to every other node and
  list is part of its contract. A loop over the links that would never end returns \<open>None\<close>, as does
  following a nil pointer, which panics. The constant \<open>0\<close> of the value type is Go's zero value.
\<close>

section \<open>The store\<close>

record 'v node =
  nd_Value :: 'v
  nd_prev :: "nat option"
  nd_next :: "nat option"
  nd_list :: "nat option"

record llist =
  ll_head :: "nat option"
  ll_tail :: "nat option"
  ll_count :: int
  ll_safe :: bool

record 'v store =
  st_node :: "nat \<Rightarrow> 'v node"
  st_list :: "nat \<Rightarrow> llist"
  st_nodes :: nat
  st_lists :: nat

text \<open>Objects are allocated at increasing addresses; those below the counters exist.\<close>

definition upd_node :: "nat \<Rightarrow> ('v node \<Rightarrow> 'v node) \<Rightarrow> 'v store \<Rightarrow> 'v store" where
  "upd_node r f s = s\<lparr>st_node := (st_node s)(r := f (st_node s r))\<rparr>"

definition upd_list :: "nat \<Rightarrow> (llist \<Rightarrow> llist) \<Rightarrow> 'v store \<Rightarrow> 'v store" where
  "upd_list l f s = s\<lparr>st_list := (st_list s)(l := f (st_list s l))\<rparr>"

definition new_node :: "'v node \<Rightarrow> 'v store \<Rightarrow> nat \<times> 'v store" where
  "new_node n s = (st_nodes s, s\<lparr>st_node := (st_node s)(st_nodes s := n), st_nodes := st_nodes s + 1\<rparr>)"

section \<open>The operations\<close>

definition ll_New :: "bool \<Rightarrow> 'v store \<Rightarrow> nat \<times> 'v store" where
  "ll_New safe s =
     (st_lists s,
      s\<lparr>st_list := (st_list s)(st_lists s := \<lparr>ll_head = None, ll_tail = None, ll_count = 0, ll_safe = safe\<rparr>),
        st_lists := st_lists s + 1\<rparr>)"

definition pushBackNode :: "nat \<Rightarrow> nat \<Rightarrow> 'v store \<Rightarrow> 'v store" where
  "pushBackNode l n s =
     (let tail = ll_tail (st_list s l);
          s = upd_node n (\<lambda>nd. nd\<lparr>nd_prev := tail, nd_next := None, nd_list := Some l\<rparr>) s;
          s = (case tail of Some t \<Rightarrow> upd_node t (\<lambda>nd. nd\<lparr>nd_next := Some n\<rparr>) s
               | None \<Rightarrow> upd_list l (\<lambda>h. h\<lparr>ll_head := Some n\<rparr>) s)
      in upd_list l (\<lambda>h. h\<lparr>ll_tail := Some n, ll_count := ll_count h + 1\<rparr>) s)"

definition ll_PushBack :: "nat \<Rightarrow> 'v \<Rightarrow> 'v store \<Rightarrow> nat \<times> 'v store" where
  "ll_PushBack l v s =
     (let (n, s) = new_node \<lparr>nd_Value = v, nd_prev = None, nd_next = None, nd_list = None\<rparr> s
      in (n, pushBackNode l n s))"

definition ll_NewFromSlice :: "'v list \<Rightarrow> bool \<Rightarrow> 'v store \<Rightarrow> nat \<times> 'v store" where
  "ll_NewFromSlice xs safe s =
     (let (l, s) = ll_New safe s in (l, fold (\<lambda>v s. snd (ll_PushBack l v s)) xs s))"

definition pushFrontNode :: "nat \<Rightarrow> nat \<Rightarrow> 'v store \<Rightarrow> 'v store" where
  "pushFrontNode l n s =
     (let head = ll_head (st_list s l);
          s = upd_node n (\<lambda>nd. nd\<lparr>nd_prev := None, nd_next := head, nd_list := Some l\<rparr>) s;
          s = (case head of Some h \<Rightarrow> upd_node h (\<lambda>nd. nd\<lparr>nd_prev := Some n\<rparr>) s
               | None \<Rightarrow> upd_list l (\<lambda>h. h\<lparr>ll_tail := Some n\<rparr>) s)
      in upd_list l (\<lambda>h. h\<lparr>ll_head := Some n, ll_count := ll_count h + 1\<rparr>) s)"

definition ll_PushFront :: "nat \<Rightarrow> 'v \<Rightarrow> 'v store \<Rightarrow> nat \<times> 'v store" where
  "ll_PushFront l v s =
     (let (n, s) = new_node \<lparr>nd_Value = v, nd_prev = None, nd_next = None, nd_list = None\<rparr> s
      in (n, pushFrontNode l n s))"

definition ll_InsertAfter :: "nat \<Rightarrow> nat option \<Rightarrow> 'v \<Rightarrow> 'v store \<Rightarrow> nat option \<times> 'v store" where
  "ll_InsertAfter l node v s =
     (case node of None \<Rightarrow> (None, s)
      | Some n \<Rightarrow>
          if nd_list (st_node s n) \<noteq> Some l then (None, s)
          else
            (let after = nd_next (st_node s n);
                 (new, s) = new_node \<lparr>nd_Value = v, nd_prev = Some n, nd_next = after, nd_list = Some l\<rparr> s;
                 s = (case after of Some a \<Rightarrow> upd_node a (\<lambda>nd. nd\<lparr>nd_prev := Some new\<rparr>) s
                      | None \<Rightarrow> upd_list l (\<lambda>h. h\<lparr>ll_tail := Some new\<rparr>) s);
                 s = upd_node n (\<lambda>nd. nd\<lparr>nd_next := Some new\<rparr>) s
             in (Some new, upd_list l (\<lambda>h. h\<lparr>ll_count := ll_count h + 1\<rparr>) s)))"

definition ll_InsertBefore :: "nat \<Rightarrow> nat option \<Rightarrow> 'v \<Rightarrow> 'v store \<Rightarrow> nat option \<times> 'v store" where
  "ll_InsertBefore l node v s =
     (case node of None \<Rightarrow> (None, s)
      | Some n \<Rightarrow>
          if nd_list (st_node s n) \<noteq> Some l then (None, s)
          else
            (let before = nd_prev (st_node s n);
                 (new, s) = new_node \<lparr>nd_Value = v, nd_prev = before, nd_next = Some n, nd_list = Some l\<rparr> s;
                 s = (case before of Some b \<Rightarrow> upd_node b (\<lambda>nd. nd\<lparr>nd_next := Some new\<rparr>) s
                      | None \<Rightarrow> upd_list l (\<lambda>h. h\<lparr>ll_head := Some new\<rparr>) s);
                 s = upd_node n (\<lambda>nd. nd\<lparr>nd_prev := Some new\<rparr>) s
             in (Some new, upd_list l (\<lambda>h. h\<lparr>ll_count := ll_count h + 1\<rparr>) s)))"

definition remove_node :: "nat \<Rightarrow> nat \<Rightarrow> 'v store \<Rightarrow> 'v \<times> 'v store" where
  "remove_node l n s =
     (let after = nd_next (st_node s n); before = nd_prev (st_node s n);
          s = (case after of Some a \<Rightarrow> upd_node a (\<lambda>nd. nd\<lparr>nd_prev := before\<rparr>) s
               | None \<Rightarrow> upd_list l (\<lambda>h. h\<lparr>ll_tail := before\<rparr>) s);
          s = (case before of Some b \<Rightarrow> upd_node b (\<lambda>nd. nd\<lparr>nd_next := after\<rparr>) s
               | None \<Rightarrow> upd_list l (\<lambda>h. h\<lparr>ll_head := after\<rparr>) s);
          s = upd_node n (\<lambda>nd. nd\<lparr>nd_prev := None, nd_next := None, nd_list := None\<rparr>) s;
          s = upd_list l (\<lambda>h. h\<lparr>ll_count := ll_count h - 1\<rparr>) s
      in (nd_Value (st_node s n), s))"

definition ll_Remove :: "nat \<Rightarrow> nat option \<Rightarrow> 'v::zero store \<Rightarrow> 'v \<times> 'v store" where
  "ll_Remove l node s =
     (case node of None \<Rightarrow> (0, s)
      | Some n \<Rightarrow>
          if nd_list (st_node s n) \<noteq> Some l then (nd_Value (st_node s n), s) else remove_node l n s)"

definition ll_isEmpty :: "nat \<Rightarrow> 'v store \<Rightarrow> bool" where
  "ll_isEmpty l s \<longleftrightarrow> ll_count (st_list s l) = 0"

definition ll_PopFront :: "nat \<Rightarrow> 'v::zero store \<Rightarrow> ('v \<times> 'v store) option" where
  "ll_PopFront l s =
     (if ll_isEmpty l s then Some (0, s)
      else map_option (\<lambda>h. remove_node l h s) (ll_head (st_list s l)))"

definition ll_PopBack :: "nat \<Rightarrow> 'v::zero store \<Rightarrow> ('v \<times> 'v store) option" where
  "ll_PopBack l s =
     (if ll_isEmpty l s then Some (0, s)
      else map_option (\<lambda>t. remove_node l t s) (ll_tail (st_list s l)))"

text \<open>The loop over the links, forwards and backwards: the nodes it visits.\<close>

partial_function (option) walk :: "(nat \<Rightarrow> 'v node) \<Rightarrow> nat option \<Rightarrow> nat list option" where
  "walk m n =
     (case n of None \<Rightarrow> Some []
      | Some r \<Rightarrow> Option.bind (walk m (nd_next (m r))) (\<lambda>rs. Some (r # rs)))"

partial_function (option) walk_back :: "(nat \<Rightarrow> 'v node) \<Rightarrow> nat option \<Rightarrow> nat list option" where
  "walk_back m n =
     (case n of None \<Rightarrow> Some []
      | Some r \<Rightarrow> Option.bind (walk_back m (nd_prev (m r))) (\<lambda>rs. Some (r # rs)))"

text \<open>The loop that changes each node it visits, having read where to go on.\<close>

partial_function (option) each_node :: "('v node \<Rightarrow> 'v node) \<Rightarrow> (nat \<Rightarrow> 'v node) \<Rightarrow> nat option \<Rightarrow> (nat \<Rightarrow> 'v node) option" where
  "each_node f m n =
     (case n of None \<Rightarrow> Some m
      | Some r \<Rightarrow> each_node f (m(r := f (m r))) (nd_next (m r)))"

partial_function (option) find_loop :: "('v \<Rightarrow> bool) \<Rightarrow> (nat \<Rightarrow> 'v node) \<Rightarrow> nat option \<Rightarrow> nat option option" where
  "find_loop eq m n =
     (case n of None \<Rightarrow> Some None
      | Some r \<Rightarrow> if eq (nd_Value (m r)) then Some (Some r) else find_loop eq m (nd_next (m r)))"

text \<open>\<open>Range\<close>: the values \<open>fn\<close> is called on, up to the one it refuses.\<close>

partial_function (option) range_values :: "('v \<Rightarrow> bool) \<Rightarrow> (nat \<Rightarrow> 'v node) \<Rightarrow> nat option \<Rightarrow> 'v list option" where
  "range_values fn m n =
     (case n of None \<Rightarrow> Some []
      | Some r \<Rightarrow> if \<not> fn (nd_Value (m r)) then Some [nd_Value (m r)]
                 else Option.bind (range_values fn m (nd_next (m r))) (\<lambda>vs. Some (nd_Value (m r) # vs)))"

definition values_of :: "'v store \<Rightarrow> nat list \<Rightarrow> 'v list" where
  "values_of s ns = map (\<lambda>n. nd_Value (st_node s n)) ns"

definition ll_Slice :: "nat \<Rightarrow> 'v store \<Rightarrow> 'v list option" where
  "ll_Slice l s = map_option (values_of s) (walk (st_node s) (ll_head (st_list s l)))"

definition ll_Range :: "nat \<Rightarrow> ('v \<Rightarrow> bool) \<Rightarrow> 'v store \<Rightarrow> 'v list option" where
  "ll_Range l fn s = range_values fn (st_node s) (ll_head (st_list s l))"

definition ll_Find :: "nat \<Rightarrow> 'v \<Rightarrow> ('v \<Rightarrow> 'v \<Rightarrow> bool) option \<Rightarrow> 'v store \<Rightarrow> nat option option" where
  "ll_Find l v equal s =
     (case equal of None \<Rightarrow> Some None
      | Some eq \<Rightarrow> find_loop (\<lambda>x. eq x v) (st_node s) (ll_head (st_list s l)))"

definition ll_Reverse :: "nat \<Rightarrow> 'v store \<Rightarrow> 'v store option" where
  "ll_Reverse l s =
     (if ll_count (st_list s l) \<le> 1 then Some s
      else
        (let curr = ll_head (st_list s l);
             s = upd_list l (\<lambda>h. h\<lparr>ll_head := ll_tail h, ll_tail := ll_head h\<rparr>) s
         in map_option (\<lambda>m. s\<lparr>st_node := m\<rparr>)
              (each_node (\<lambda>nd. nd\<lparr>nd_next := nd_prev nd, nd_prev := nd_next nd\<rparr>) (st_node s) curr)))"

definition ErrMergeWithSelf :: string where
  "ErrMergeWithSelf = ''cannot merge a list with itself''"

definition empty_list :: "nat \<Rightarrow> 'v store \<Rightarrow> 'v store" where
  "empty_list l s = upd_list l (\<lambda>h. h\<lparr>ll_head := None, ll_tail := None, ll_count := 0\<rparr>) s"

definition ll_Merge :: "nat \<Rightarrow> nat option \<Rightarrow> 'v store \<Rightarrow> (string option \<times> 'v store) option" where
  "ll_Merge l other s =
     (if other = Some l then Some (Some ErrMergeWithSelf, s)
      else case other of None \<Rightarrow> Some (None, s)
      | Some k \<Rightarrow>
          if ll_isEmpty k s then Some (None, s)
          else
            Option.bind (each_node (\<lambda>nd. nd\<lparr>nd_list := Some l\<rparr>) (st_node s) (ll_head (st_list s k))) (\<lambda>m.
              let s = s\<lparr>st_node := m\<rparr>
              in if ll_isEmpty l s then
                   (let h = st_list s k;
                        s = upd_list l (\<lambda>x. x\<lparr>ll_head := ll_head h, ll_tail := ll_tail h, ll_count := ll_count h\<rparr>) s
                    in Some (None, empty_list k s))
                 else
                   (case (ll_tail (st_list s l), ll_head (st_list s k)) of
                      (Some t, Some h) \<Rightarrow>
                        (let s = upd_node t (\<lambda>nd. nd\<lparr>nd_next := Some h\<rparr>) s;
                             s = upd_node h (\<lambda>nd. nd\<lparr>nd_prev := Some t\<rparr>) s;
                             oh = st_list s k;
                             s = upd_list l (\<lambda>x. x\<lparr>ll_tail := ll_tail oh, ll_count := ll_count x + ll_count oh\<rparr>) s
                         in Some (None, empty_list k s))
                    | _ \<Rightarrow> None)))"

text \<open>\<open>MergeSorted\<close>: the nodes of both lists, sorted stably by value, pushed back one by one.\<close>

definition ll_MergeSorted ::
  "nat \<Rightarrow> nat option \<Rightarrow> ('v \<Rightarrow> 'v \<Rightarrow> int) option \<Rightarrow> 'v store \<Rightarrow> (string option \<times> 'v store) option" where
  "ll_MergeSorted l other cmp s =
     (case cmp of None \<Rightarrow> Some (Some ErrComparisonNil, s)
      | Some c \<Rightarrow>
          if other = Some l then Some (Some ErrMergeWithSelf, s)
          else
            Option.bind (walk (st_node s) (ll_head (st_list s l))) (\<lambda>own.
            Option.bind (case other of None \<Rightarrow> Some [] | Some k \<Rightarrow> walk (st_node s) (ll_head (st_list s k))) (\<lambda>theirs.
              let nodes = sort_by (\<lambda>a b. c (nd_Value (st_node s a)) (nd_Value (st_node s b))) (own @ theirs);
                  s = (case other of None \<Rightarrow> s | Some k \<Rightarrow> empty_list k s);
                  s = empty_list l s
              in Some (None, fold (pushBackNode l) nodes s))))"

definition ll_Clone :: "nat \<Rightarrow> 'v store \<Rightarrow> (nat \<times> 'v store) option" where
  "ll_Clone l s =
     map_option (\<lambda>ns.
       let (l', s') = ll_New False s
       in (l', fold (\<lambda>n s'. snd (ll_PushBack l' (nd_Value (st_node s n)) s')) ns s'))
     (walk (st_node s) (ll_head (st_list s l)))"

definition ll_Front :: "nat \<Rightarrow> 'v store \<Rightarrow> nat option" where
  "ll_Front l s = ll_head (st_list s l)"

definition ll_Back :: "nat \<Rightarrow> 'v store \<Rightarrow> nat option" where
  "ll_Back l s = ll_tail (st_list s l)"

definition ll_Len :: "nat \<Rightarrow> 'v store \<Rightarrow> int" where
  "ll_Len l s = ll_count (st_list s l)"

definition ll_Clear :: "nat \<Rightarrow> 'v store \<Rightarrow> 'v store option" where
  "ll_Clear l s =
     map_option (\<lambda>m. empty_list l (s\<lparr>st_node := m\<rparr>))
       (each_node (\<lambda>nd. nd\<lparr>nd_prev := None, nd_next := None, nd_list := None\<rparr>) (st_node s) (ll_head (st_list s l)))"

text \<open>Reading from a node, and the iterators, which are positions.\<close>

definition nd_Each :: "nat option \<Rightarrow> 'v store \<Rightarrow> 'v list option" where
  "nd_Each n s = map_option (values_of s) (walk (st_node s) n)"

definition nd_EachReverse :: "nat option \<Rightarrow> 'v store \<Rightarrow> 'v list option" where
  "nd_EachReverse n s = map_option (values_of s) (walk_back (st_node s) n)"

definition NewIterator :: "nat \<Rightarrow> nat option \<Rightarrow> 'v store \<Rightarrow> nat option" where
  "NewIterator l n s =
     (case n of None \<Rightarrow> None | Some r \<Rightarrow> if nd_list (st_node s r) \<noteq> Some l then None else Some r)"

definition it_Next :: "nat option \<Rightarrow> 'v store \<Rightarrow> nat option" where
  "it_Next i s = (case i of None \<Rightarrow> None | Some r \<Rightarrow> nd_next (st_node s r))"

definition it_Prev :: "nat option \<Rightarrow> 'v store \<Rightarrow> nat option" where
  "it_Prev i s = (case i of None \<Rightarrow> None | Some r \<Rightarrow> nd_prev (st_node s r))"

definition it_Value :: "nat option \<Rightarrow> 'v::zero store \<Rightarrow> 'v" where
  "it_Value i s = (case i of None \<Rightarrow> 0 | Some r \<Rightarrow> nd_Value (st_node s r))"

definition it_SetValue :: "nat option \<Rightarrow> 'v \<Rightarrow> 'v store \<Rightarrow> 'v store" where
  "it_SetValue i v s = (case i of None \<Rightarrow> s | Some r \<Rightarrow> upd_node r (\<lambda>nd. nd\<lparr>nd_Value := v\<rparr>) s)"

section \<open>The invariant\<close>

definition first :: "nat list \<Rightarrow> nat option \<Rightarrow> nat option" where
  "first ns q = (case ns of [] \<Rightarrow> q | n # _ \<Rightarrow> Some n)"

definition final :: "nat option \<Rightarrow> nat list \<Rightarrow> nat option" where
  "final p ns = (if ns = [] then p else Some (last ns))"

text \<open>The links of a run of nodes on a list, between the node before it and the node after it.\<close>

fun seg :: "(nat \<Rightarrow> 'v node) \<Rightarrow> nat \<Rightarrow> nat option \<Rightarrow> nat list \<Rightarrow> nat option \<Rightarrow> bool" where
  "seg m l p [] q \<longleftrightarrow> True"
| "seg m l p (n # ns) q \<longleftrightarrow>
     nd_prev (m n) = p \<and> nd_next (m n) = first ns q \<and> nd_list (m n) = Some l \<and> seg m l (Some n) ns q"

definition dll :: "'v store \<Rightarrow> nat \<Rightarrow> nat list \<Rightarrow> bool" where
  "dll s l ns \<longleftrightarrow> seg (st_node s) l None ns None \<and> distinct ns \<and> (\<forall>n\<in>set ns. n < st_nodes s) \<and>
     ll_head (st_list s l) = first ns None \<and> ll_tail (st_list s l) = final None ns \<and>
     ll_count (st_list s l) = int (length ns)"

text \<open>
  A store is well-formed for the nodes \<open>\<sigma> l\<close> of each list \<open>l\<close>: every list is doubly linked through its
  nodes, and a node that says it is on a list is one of them, while a node on no list has no links.
\<close>

definition store_ok :: "'v store \<Rightarrow> (nat \<Rightarrow> nat list) \<Rightarrow> bool" where
  "store_ok s \<sigma> \<longleftrightarrow> (\<forall>l<st_lists s. dll s l (\<sigma> l)) \<and>
     (\<forall>n<st_nodes s. case nd_list (st_node s n) of
        None \<Rightarrow> nd_prev (st_node s n) = None \<and> nd_next (st_node s n) = None
      | Some l \<Rightarrow> l < st_lists s \<and> n \<in> set (\<sigma> l))"

text \<open>What a method leaves alone: the values of the nodes there were.\<close>

definition same_values :: "'v store \<Rightarrow> 'v store \<Rightarrow> bool" where
  "same_values s s' \<longleftrightarrow> st_nodes s \<le> st_nodes s' \<and> (\<forall>n<st_nodes s. nd_Value (st_node s' n) = nd_Value (st_node s n))"

lemma upd_simps [simp]:
  "st_node (upd_node r f s) = (st_node s)(r := f (st_node s r))" "st_list (upd_node r f s) = st_list s"
  "st_nodes (upd_node r f s) = st_nodes s" "st_lists (upd_node r f s) = st_lists s"
  "st_list (upd_list l g s) = (st_list s)(l := g (st_list s l))" "st_node (upd_list l g s) = st_node s"
  "st_nodes (upd_list l g s) = st_nodes s" "st_lists (upd_list l g s) = st_lists s"
  by (simp_all add: upd_node_def upd_list_def)

lemma first_simps [simp]: "first [] q = q" "first (n # ns) q = Some n" "final p [] = p" "final p (ns @ [n]) = Some n"
  by (simp_all add: first_def final_def)

lemma first_append [simp]: "first (as @ bs) q = first as (first bs q)"
  by (cases as) simp_all

lemma final_append [simp]: "final p (as @ bs) = final (final p as) bs"
  by (simp add: final_def)

lemma final_Cons [simp]: "final p (n # ns) = final (Some n) ns"
  by (simp add: final_def)

lemma seg_append [simp]: "seg m l p (as @ bs) q \<longleftrightarrow> seg m l p as (first bs q) \<and> seg m l (final p as) bs q"
  by (induction as arbitrary: p) auto

lemma seg_upd [simp]: "n \<notin> set ns \<Longrightarrow> seg (m(n := x)) l p ns q = seg m l p ns q"
  by (induction ns arbitrary: p) auto

lemma seg_cong: "(\<And>n. n \<in> set ns \<Longrightarrow> m' n = m n) \<Longrightarrow> seg m' l p ns q = seg m l p ns q"
  by (induction ns arbitrary: p) auto

lemma seg_list: "seg m l p ns q \<Longrightarrow> n \<in> set ns \<Longrightarrow> nd_list (m n) = Some l"
  by (induction ns arbitrary: p) auto

lemma store_ok_list: "store_ok s \<sigma> \<Longrightarrow> l < st_lists s \<Longrightarrow> dll s l (\<sigma> l)"
  by (simp add: store_ok_def)

lemma dll_mem: "dll s l ns \<Longrightarrow> n \<in> set ns \<Longrightarrow> nd_list (st_node s n) = Some l \<and> n < st_nodes s"
  using seg_list by (auto simp: dll_def)

text \<open>The test \<open>n.list != l\<close> of the methods is membership.\<close>

lemma on_list_iff:
  "store_ok s \<sigma> \<Longrightarrow> l < st_lists s \<Longrightarrow> n < st_nodes s \<Longrightarrow> nd_list (st_node s n) = Some l \<longleftrightarrow> n \<in> set (\<sigma> l)"
  using dll_mem [OF store_ok_list, of s \<sigma> l n] by (auto simp: store_ok_def)

lemma dll_frame:
  "dll s k ns \<Longrightarrow> (\<And>n. n \<in> set ns \<Longrightarrow> st_node s' n = st_node s n) \<Longrightarrow> st_list s' k = st_list s k \<Longrightarrow>
     st_nodes s \<le> st_nodes s' \<Longrightarrow> dll s' k ns"
  using seg_cong [of ns "st_node s'" "st_node s" k None None] by (auto simp: dll_def)

text \<open>A method on some lists rebuilds their chains from their nodes and new ones, and detaches what it drops.\<close>

lemma store_ok_frame_lists:
  assumes ok: "store_ok s \<sigma>" "\<forall>l\<in>K. l < st_lists s" "\<forall>l\<in>K. dll s' l (\<sigma>' l)"
    and lists: "\<forall>k. k \<notin> K \<longrightarrow> st_list s' k = st_list s k \<and> \<sigma>' k = \<sigma> k" "st_lists s' = st_lists s" "st_nodes s \<le> st_nodes s'"
    and sub: "\<forall>l\<in>K. \<forall>n\<in>set (\<sigma>' l). (\<exists>k\<in>K. n \<in> set (\<sigma> k)) \<or> st_nodes s \<le> n"
    and frame: "\<forall>n<st_nodes s'. (\<forall>l\<in>K. n \<notin> set (\<sigma>' l)) \<longrightarrow>
      (if n < st_nodes s \<and> (\<forall>l\<in>K. n \<notin> set (\<sigma> l)) then st_node s' n = st_node s n
       else nd_list (st_node s' n) = None \<and> nd_prev (st_node s' n) = None \<and> nd_next (st_node s' n) = None)"
  shows "store_ok s' \<sigma>'"
  unfolding store_ok_def
proof (intro conjI allI impI)
  fix k assume k: "k < st_lists s'"
  show "dll s' k (\<sigma>' k)"
  proof (cases "k \<in> K")
    case False
    have dk: "dll s k (\<sigma> k)" using store_ok_list [OF ok(1)] k lists(2) by simp
    have "st_node s' n = st_node s n" if "n \<in> set (\<sigma> k)" for n
    proof -
      from dll_mem [OF dk that] have n: "nd_list (st_node s n) = Some k" "n < st_nodes s" by auto
      have off: "n \<notin> set (\<sigma> l)" if "l \<in> K" for l using on_list_iff [OF ok(1) _ n(2)] n(1) False that ok(2) by fastforce
      moreover have "\<forall>l\<in>K. n \<notin> set (\<sigma>' l)" using sub off n(2) by fastforce
      moreover have "n < st_nodes s'" using n(2) lists(3) by simp
      ultimately show ?thesis using frame [rule_format, of n] n(2) by auto
    qed
    from dll_frame [OF dk this _ lists(3)] False lists(1) show ?thesis by simp
  qed (use ok(3) in simp)
next
  fix n assume n: "n < st_nodes s'"
  show "case nd_list (st_node s' n) of None \<Rightarrow> nd_prev (st_node s' n) = None \<and> nd_next (st_node s' n) = None
      | Some k \<Rightarrow> k < st_lists s' \<and> n \<in> set (\<sigma>' k)"
  proof (cases "\<exists>l\<in>K. n \<in> set (\<sigma>' l)")
    case True
    then obtain l where "l \<in> K" "n \<in> set (\<sigma>' l)" by blast
    with dll_mem [of s' l "\<sigma>' l" n] ok(2,3) lists(2) show ?thesis by simp
  next
    case False
    show ?thesis
    proof (cases "n < st_nodes s \<and> (\<forall>l\<in>K. n \<notin> set (\<sigma> l))")
      case True
      with frame n False have "st_node s' n = st_node s n" by simp
      moreover have "case nd_list (st_node s n) of None \<Rightarrow> nd_prev (st_node s n) = None \<and> nd_next (st_node s n) = None
        | Some k \<Rightarrow> k < st_lists s \<and> n \<in> set (\<sigma> k)" using ok(1) True by (simp add: store_ok_def)
      ultimately show ?thesis using True lists(1,2) by (auto split: option.splits)
    next
      case detached: False
      have "nd_list (st_node s' n) = None \<and> nd_prev (st_node s' n) = None \<and> nd_next (st_node s' n) = None"
        using frame [rule_format, OF n] False unfolding if_not_P [OF detached] by blast
      then show ?thesis by simp
    qed
  qed
qed

lemma store_ok_frame:
  assumes "store_ok s \<sigma>" "l < st_lists s" "dll s' l ns'"
    and "\<forall>k. k \<noteq> l \<longrightarrow> st_list s' k = st_list s k" "st_lists s' = st_lists s" "st_nodes s \<le> st_nodes s'"
    and "\<forall>n\<in>set ns'. n \<in> set (\<sigma> l) \<or> st_nodes s \<le> n"
    and "\<forall>n<st_nodes s'. n \<notin> set ns' \<longrightarrow> (if n < st_nodes s \<and> n \<notin> set (\<sigma> l) then st_node s' n = st_node s n
      else nd_list (st_node s' n) = None \<and> nd_prev (st_node s' n) = None \<and> nd_next (st_node s' n) = None)"
  shows "store_ok s' (\<sigma>(l := ns'))"
  using store_ok_frame_lists [of s \<sigma> "{l}" s' "\<sigma>(l := ns')"] assms by simp

section \<open>Pushing\<close>

lemma pushBackNode_dll:
  assumes "dll s l ns" "n \<notin> set ns" "n < st_nodes s"
  shows "dll (pushBackNode l n s) l (ns @ [n])"
proof (cases ns rule: rev_cases)
  case Nil
  with assms show ?thesis by (simp add: dll_def pushBackNode_def Let_def)
next
  case (snoc ms t)
  with assms show ?thesis by (simp add: dll_def pushBackNode_def Let_def)
qed

lemma pushBackNode_frame:
  assumes "dll s l ns" "n \<notin> set ns"
  shows "st_nodes (pushBackNode l n s) = st_nodes s" "st_lists (pushBackNode l n s) = st_lists s"
    "k \<noteq> l \<Longrightarrow> st_list (pushBackNode l n s) k = st_list s k"
    "x \<notin> set ns \<Longrightarrow> x \<noteq> n \<Longrightarrow> st_node (pushBackNode l n s) x = st_node s x"
    "nd_Value (st_node (pushBackNode l n s) x) = nd_Value (st_node s x)"
  using assms by (cases ns rule: rev_cases; auto simp: dll_def pushBackNode_def Let_def)+

lemma pushFrontNode_dll:
  assumes "dll s l ns" "n \<notin> set ns" "n < st_nodes s"
  shows "dll (pushFrontNode l n s) l (n # ns)"
  using assms by (cases ns) (simp_all add: dll_def pushFrontNode_def Let_def)

lemma pushFrontNode_frame:
  assumes "dll s l ns" "n \<notin> set ns"
  shows "st_nodes (pushFrontNode l n s) = st_nodes s" "st_lists (pushFrontNode l n s) = st_lists s"
    "k \<noteq> l \<Longrightarrow> st_list (pushFrontNode l n s) k = st_list s k"
    "x \<notin> set ns \<Longrightarrow> x \<noteq> n \<Longrightarrow> st_node (pushFrontNode l n s) x = st_node s x"
    "nd_Value (st_node (pushFrontNode l n s) x) = nd_Value (st_node s x)"
  using assms by (cases ns; auto simp: dll_def pushFrontNode_def Let_def)+

text \<open>A new node is on no list, above every node there was, and changes no list.\<close>

lemma new_node_dll:
  "dll s l ns \<Longrightarrow> dll (snd (new_node nd s)) l ns \<and> st_nodes s \<notin> set ns"
  using dll_frame [of s l ns "snd (new_node nd s)"] by (auto simp: new_node_def dll_def)

lemma new_node_simps [simp]:
  "fst (new_node nd s) = st_nodes s" "st_nodes (snd (new_node nd s)) = st_nodes s + 1"
  "st_lists (snd (new_node nd s)) = st_lists s" "st_list (snd (new_node nd s)) = st_list s"
  "st_node (snd (new_node nd s)) = (st_node s)(st_nodes s := nd)"
  by (simp_all add: new_node_def)

lemma PushBack_ok:
  assumes "store_ok s \<sigma>" "l < st_lists s"
  shows "let (n, s') = ll_PushBack l v s in
    store_ok s' (\<sigma>(l := \<sigma> l @ [n])) \<and> same_values s s' \<and> n = st_nodes s \<and> nd_Value (st_node s' n) = v \<and> st_lists s' = st_lists s"
proof -
  let ?n = "st_nodes s" and ?s = "snd (new_node \<lparr>nd_Value = v, nd_prev = None, nd_next = None, nd_list = None\<rparr> s)"
  let ?s' = "pushBackNode l ?n ?s"
  have d: "dll ?s l (\<sigma> l)" "?n \<notin> set (\<sigma> l)" using new_node_dll [OF store_ok_list [OF assms]] by auto
  note f = pushBackNode_frame [OF d]
  have "dll ?s' l (\<sigma> l @ [?n])" using pushBackNode_dll [OF d] by simp
  with assms(1,2) have "store_ok ?s' (\<sigma>(l := \<sigma> l @ [?n]))"
    by (rule store_ok_frame) (use f in auto)
  moreover have "same_values s ?s'" unfolding same_values_def using f by simp
  moreover have "nd_Value (st_node ?s' ?n) = v" using f(5) by simp
  moreover have "ll_PushBack l v s = (?n, ?s')" by (simp add: ll_PushBack_def Let_def split_def)
  ultimately show ?thesis using f(2) by simp
qed

lemma PushFront_ok:
  assumes "store_ok s \<sigma>" "l < st_lists s"
  shows "let (n, s') = ll_PushFront l v s in
    store_ok s' (\<sigma>(l := n # \<sigma> l)) \<and> same_values s s' \<and> n = st_nodes s \<and> nd_Value (st_node s' n) = v \<and> st_lists s' = st_lists s"
proof -
  let ?n = "st_nodes s" and ?s = "snd (new_node \<lparr>nd_Value = v, nd_prev = None, nd_next = None, nd_list = None\<rparr> s)"
  let ?s' = "pushFrontNode l ?n ?s"
  have d: "dll ?s l (\<sigma> l)" "?n \<notin> set (\<sigma> l)" using new_node_dll [OF store_ok_list [OF assms]] by auto
  note f = pushFrontNode_frame [OF d]
  have "dll ?s' l (?n # \<sigma> l)" using pushFrontNode_dll [OF d] by simp
  with assms(1,2) have "store_ok ?s' (\<sigma>(l := ?n # \<sigma> l))"
    by (rule store_ok_frame) (use f in auto)
  moreover have "same_values s ?s'" unfolding same_values_def using f by simp
  moreover have "nd_Value (st_node ?s' ?n) = v" using f(5) by simp
  moreover have "ll_PushFront l v s = (?n, ?s')" by (simp add: ll_PushFront_def Let_def split_def)
  ultimately show ?thesis using f(2) by simp
qed

section \<open>Inserting next to a node\<close>

lemma insert_after_dll:
  fixes s :: "'v store" and v :: 'v
  assumes "dll s l (as @ n # bs)"
  defines "s' \<equiv> snd (ll_InsertAfter l (Some n) v s)"
  shows "fst (ll_InsertAfter l (Some n) v s) = Some (st_nodes s)" "dll s' l (as @ n # st_nodes s # bs)"
    "st_nodes s' = st_nodes s + 1" "st_lists s' = st_lists s" "k \<noteq> l \<Longrightarrow> st_list s' k = st_list s k"
    "x \<notin> set (as @ n # bs) \<Longrightarrow> x \<noteq> st_nodes s \<Longrightarrow> st_node s' x = st_node s x"
    "nd_Value (st_node s' x) = (if x = st_nodes s then v else nd_Value (st_node s x))"
proof -
  have new: "st_nodes s \<notin> set (as @ n # bs)" using assms(1) by (auto simp: dll_def)
  have on: "nd_list (st_node s n) = Some l" "nd_next (st_node s n) = first bs None" using assms(1) by (auto simp: dll_def)
  show "fst (ll_InsertAfter l (Some n) v s) = Some (st_nodes s)"
    by (simp add: ll_InsertAfter_def on Let_def split_def)
  show "dll s' l (as @ n # st_nodes s # bs)"
    using assms(1) new unfolding s'_def by (cases bs) (auto simp: ll_InsertAfter_def Let_def split_def dll_def less_Suc_eq final_def)
  show "st_nodes s' = st_nodes s + 1" "st_lists s' = st_lists s"
    unfolding s'_def using on by (cases bs; simp add: ll_InsertAfter_def Let_def split_def)+
  show "k \<noteq> l \<Longrightarrow> st_list s' k = st_list s k"
    "x \<notin> set (as @ n # bs) \<Longrightarrow> x \<noteq> st_nodes s \<Longrightarrow> st_node s' x = st_node s x"
    "nd_Value (st_node s' x) = (if x = st_nodes s then v else nd_Value (st_node s x))"
    unfolding s'_def using on new by (cases bs; simp add: ll_InsertAfter_def Let_def split_def)+
qed

lemma insert_before_dll:
  fixes s :: "'v store" and v :: 'v
  assumes "dll s l (as @ n # bs)"
  defines "s' \<equiv> snd (ll_InsertBefore l (Some n) v s)"
  shows "fst (ll_InsertBefore l (Some n) v s) = Some (st_nodes s)" "dll s' l (as @ st_nodes s # n # bs)"
    "st_nodes s' = st_nodes s + 1" "st_lists s' = st_lists s" "k \<noteq> l \<Longrightarrow> st_list s' k = st_list s k"
    "x \<notin> set (as @ n # bs) \<Longrightarrow> x \<noteq> st_nodes s \<Longrightarrow> st_node s' x = st_node s x"
    "nd_Value (st_node s' x) = (if x = st_nodes s then v else nd_Value (st_node s x))"
proof -
  have new: "st_nodes s \<notin> set (as @ n # bs)" using assms(1) by (auto simp: dll_def)
  have on: "nd_list (st_node s n) = Some l" "nd_prev (st_node s n) = final None as" using assms(1) by (auto simp: dll_def)
  show "fst (ll_InsertBefore l (Some n) v s) = Some (st_nodes s)"
    by (simp add: ll_InsertBefore_def on Let_def split_def)
  show "dll s' l (as @ st_nodes s # n # bs)"
    using assms(1) new unfolding s'_def
    by (cases as rule: rev_cases) (auto simp: ll_InsertBefore_def Let_def split_def dll_def less_Suc_eq)
  show "st_nodes s' = st_nodes s + 1" "st_lists s' = st_lists s"
    unfolding s'_def using on by (cases as rule: rev_cases; simp add: ll_InsertBefore_def Let_def split_def)+
  show "k \<noteq> l \<Longrightarrow> st_list s' k = st_list s k"
    "x \<notin> set (as @ n # bs) \<Longrightarrow> x \<noteq> st_nodes s \<Longrightarrow> st_node s' x = st_node s x"
    "nd_Value (st_node s' x) = (if x = st_nodes s then v else nd_Value (st_node s x))"
    unfolding s'_def using on new by (cases as rule: rev_cases; simp add: ll_InsertBefore_def Let_def split_def)+
qed

section \<open>Removing\<close>

lemma remove_node_dll:
  assumes "dll s l (as @ n # bs)"
  defines "s' \<equiv> snd (remove_node l n s)"
  shows "fst (remove_node l n s) = nd_Value (st_node s n)" "dll s' l (as @ bs)"
    "st_nodes s' = st_nodes s" "st_lists s' = st_lists s" "k \<noteq> l \<Longrightarrow> st_list s' k = st_list s k"
    "x \<notin> set (as @ n # bs) \<Longrightarrow> st_node s' x = st_node s x"
    "nd_list (st_node s' n) = None \<and> nd_prev (st_node s' n) = None \<and> nd_next (st_node s' n) = None"
    "nd_Value (st_node s' x) = nd_Value (st_node s x)"
proof -
  have on: "nd_next (st_node s n) = first bs None" "nd_prev (st_node s n) = final None as" "n \<notin> set as" "n \<notin> set bs"
    using assms(1) by (auto simp: dll_def)
  show "dll s' l (as @ bs)"
    using assms(1) unfolding s'_def
    by (cases as rule: rev_cases; cases bs) (auto simp: remove_node_def Let_def dll_def)
  show "st_nodes s' = st_nodes s" "st_lists s' = st_lists s" "k \<noteq> l \<Longrightarrow> st_list s' k = st_list s k"
    "nd_list (st_node s' n) = None \<and> nd_prev (st_node s' n) = None \<and> nd_next (st_node s' n) = None"
    "x \<notin> set (as @ n # bs) \<Longrightarrow> st_node s' x = st_node s x"
    "nd_Value (st_node s' x) = nd_Value (st_node s x)"
    "fst (remove_node l n s) = nd_Value (st_node s n)"
    unfolding s'_def using on by (cases as rule: rev_cases; cases bs; simp add: remove_node_def Let_def)+
qed

text \<open>What inserting next to an element does to a list.\<close>

fun insert_next :: "'a \<Rightarrow> 'a \<Rightarrow> 'a list \<Rightarrow> 'a list" where
  "insert_next n x [] = []"
| "insert_next n x (y # ys) = (if y = n then y # x # ys else y # insert_next n x ys)"

fun insert_prev :: "'a \<Rightarrow> 'a \<Rightarrow> 'a list \<Rightarrow> 'a list" where
  "insert_prev n x [] = []"
| "insert_prev n x (y # ys) = (if y = n then x # y # ys else y # insert_prev n x ys)"

lemma insert_next_split: "n \<notin> set as \<Longrightarrow> insert_next n x (as @ n # bs) = as @ n # x # bs"
  by (induction as) auto

lemma insert_prev_split: "n \<notin> set as \<Longrightarrow> insert_prev n x (as @ n # bs) = as @ x # n # bs"
  by (induction as) auto

lemma InsertAfter_ok:
  assumes "store_ok s \<sigma>" "l < st_lists s" "n < st_nodes s"
  shows "let (r, s') = ll_InsertAfter l (Some n) v s in
    if n \<in> set (\<sigma> l)
    then r = Some (st_nodes s) \<and> store_ok s' (\<sigma>(l := insert_next n (st_nodes s) (\<sigma> l))) \<and> same_values s s' \<and>
      nd_Value (st_node s' (st_nodes s)) = v \<and> st_lists s' = st_lists s
    else r = None \<and> s' = s"
proof (cases "n \<in> set (\<sigma> l)")
  case True
  then obtain as bs where ns: "\<sigma> l = as @ n # bs" "n \<notin> set as" using split_list_first by metis
  have d: "dll s l (as @ n # bs)" using store_ok_list [OF assms(1,2)] ns by simp
  let ?s' = "snd (ll_InsertAfter l (Some n) v s)"
  note f = insert_after_dll [OF d, where v = v]
  from assms(1,2) f(2) have "store_ok ?s' (\<sigma>(l := as @ n # st_nodes s # bs))"
    by (rule store_ok_frame) (use f ns in auto)
  moreover have "same_values s ?s'" unfolding same_values_def using f by simp
  ultimately show ?thesis using True f ns by (simp add: insert_next_split split_def Let_def)
next
  case False
  with on_list_iff [OF assms] show ?thesis by (simp add: ll_InsertAfter_def)
qed

lemma InsertBefore_ok:
  assumes "store_ok s \<sigma>" "l < st_lists s" "n < st_nodes s"
  shows "let (r, s') = ll_InsertBefore l (Some n) v s in
    if n \<in> set (\<sigma> l)
    then r = Some (st_nodes s) \<and> store_ok s' (\<sigma>(l := insert_prev n (st_nodes s) (\<sigma> l))) \<and> same_values s s' \<and>
      nd_Value (st_node s' (st_nodes s)) = v \<and> st_lists s' = st_lists s
    else r = None \<and> s' = s"
proof (cases "n \<in> set (\<sigma> l)")
  case True
  then obtain as bs where ns: "\<sigma> l = as @ n # bs" "n \<notin> set as" using split_list_first by metis
  have d: "dll s l (as @ n # bs)" using store_ok_list [OF assms(1,2)] ns by simp
  let ?s' = "snd (ll_InsertBefore l (Some n) v s)"
  note f = insert_before_dll [OF d, where v = v]
  from assms(1,2) f(2) have "store_ok ?s' (\<sigma>(l := as @ st_nodes s # n # bs))"
    by (rule store_ok_frame) (use f ns in auto)
  moreover have "same_values s ?s'" unfolding same_values_def using f by simp
  ultimately show ?thesis using True f ns by (simp add: insert_prev_split split_def Let_def)
next
  case False
  with on_list_iff [OF assms] show ?thesis by (simp add: ll_InsertBefore_def)
qed

lemma remove_node_ok:
  assumes "store_ok s \<sigma>" "l < st_lists s" "n \<in> set (\<sigma> l)"
  shows "let (v, s') = remove_node l n s in
    v = nd_Value (st_node s n) \<and> store_ok s' (\<sigma>(l := remove1 n (\<sigma> l))) \<and> same_values s s' \<and>
    nd_list (st_node s' n) = None \<and> st_lists s' = st_lists s"
proof -
  obtain as bs where ns: "\<sigma> l = as @ n # bs" "n \<notin> set as" using assms(3) split_list_first by metis
  have d: "dll s l (as @ n # bs)" using store_ok_list [OF assms(1,2)] ns by simp
  let ?s' = "snd (remove_node l n s)"
  note f = remove_node_dll [OF d]
  have "n \<notin> set bs" using d by (simp add: dll_def)
  from assms(1,2) f(2) have "store_ok ?s' (\<sigma>(l := as @ bs))"
    by (rule store_ok_frame) (use f ns in auto)
  moreover have "same_values s ?s'" unfolding same_values_def using f by simp
  ultimately show ?thesis using f ns by (simp add: remove1_append split_def Let_def)
qed

lemma Remove_ok:
  assumes "store_ok s \<sigma>" "l < st_lists s" "n < st_nodes s"
  shows "let (v, s') = ll_Remove l (Some n) s in
    v = nd_Value (st_node s n) \<and> same_values s s' \<and> st_lists s' = st_lists s \<and>
    (if n \<in> set (\<sigma> l) then store_ok s' (\<sigma>(l := remove1 n (\<sigma> l))) \<and> nd_list (st_node s' n) = None else s' = s)"
proof (cases "n \<in> set (\<sigma> l)")
  case True
  with remove_node_ok [OF assms(1,2) True] on_list_iff [OF assms] show ?thesis by (simp add: ll_Remove_def split_def Let_def)
next
  case False
  with on_list_iff [OF assms] show ?thesis by (simp add: ll_Remove_def same_values_def)
qed

lemma count_zero: "dll s l ns \<Longrightarrow> ll_isEmpty l s \<longleftrightarrow> ns = []"
  by (simp add: dll_def ll_isEmpty_def)

lemma PopFront_ok:
  assumes "store_ok s \<sigma>" "l < st_lists s"
  shows "case \<sigma> l of
      [] \<Rightarrow> ll_PopFront l s = Some (0, s)
    | n # ns \<Rightarrow> \<exists>s'. ll_PopFront l s = Some (nd_Value (st_node s n), s') \<and> store_ok s' (\<sigma>(l := ns)) \<and> same_values s s' \<and> st_lists s' = st_lists s"
proof (cases "\<sigma> l")
  case Nil
  with count_zero [OF store_ok_list [OF assms]] show ?thesis by (simp add: ll_PopFront_def)
next
  case (Cons n ns)
  with count_zero [OF store_ok_list [OF assms]] store_ok_list [OF assms] remove_node_ok [OF assms, of n]
  show ?thesis by (auto simp: ll_PopFront_def dll_def split_def Let_def prod_eq_iff)
qed

lemma PopBack_ok:
  assumes "store_ok s \<sigma>" "l < st_lists s"
  shows "case rev (\<sigma> l) of
      [] \<Rightarrow> ll_PopBack l s = Some (0, s)
    | n # ns \<Rightarrow> \<exists>s'. ll_PopBack l s = Some (nd_Value (st_node s n), s') \<and> store_ok s' (\<sigma>(l := rev ns)) \<and> same_values s s' \<and> st_lists s' = st_lists s"
proof (cases "\<sigma> l" rule: rev_cases)
  case Nil
  with count_zero [OF store_ok_list [OF assms]] show ?thesis by (simp add: ll_PopBack_def)
next
  case (snoc ns n)
  with count_zero [OF store_ok_list [OF assms]] store_ok_list [OF assms] remove_node_ok [OF assms, of n]
  show ?thesis by (auto simp: ll_PopBack_def dll_def split_def Let_def prod_eq_iff remove1_append)
qed

section \<open>The loops\<close>

lemma walk_seg: "seg m l p ns None \<Longrightarrow> walk m (first ns None) = Some ns"
proof (induction ns arbitrary: p)
  case (Cons n ns)
  then have "walk m (nd_next (m n)) = Some ns" by auto
  then show ?case by (subst walk.simps) simp
qed (simp add: walk.simps)

lemma walk_dll: "dll s l ns \<Longrightarrow> walk (st_node s) (ll_head (st_list s l)) = Some ns"
  using walk_seg by (auto simp: dll_def)

lemma walk_back_seg: "seg m l None ns q \<Longrightarrow> walk_back m (final None ns) = Some (rev ns)"
proof (induction ns arbitrary: q rule: rev_induct)
  case (snoc n ns)
  then have "walk_back m (nd_prev (m n)) = Some (rev ns)" by auto
  then show ?case by (subst walk_back.simps) simp
qed (simp add: walk_back.simps)

lemma each_node_seg:
  "seg m l p ns None \<Longrightarrow> distinct ns \<Longrightarrow> each_node f m (first ns None) = Some (\<lambda>n. if n \<in> set ns then f (m n) else m n)"
proof (induction ns arbitrary: p m)
  case (Cons n ns)
  let ?m = "m(n := f (m n))"
  have "seg ?m l (Some n) ns None" "distinct ns" using Cons.prems by simp_all
  note IH = Cons.IH [OF this]
  have "each_node f m (first (n # ns) None) = each_node f ?m (first ns None)"
    using Cons.prems by (subst each_node.simps) simp
  also have "\<dots> = Some (\<lambda>x. if x \<in> set ns then f (?m x) else ?m x)" by (rule IH)
  also have "(\<lambda>x. if x \<in> set ns then f (?m x) else ?m x) = (\<lambda>x. if x \<in> set (n # ns) then f (m x) else m x)"
    using Cons.prems(2) by (auto simp: fun_eq_iff)
  finally show ?case .
qed (simp add: each_node.simps)

lemma find_loop_seg:
  "seg m l p ns None \<Longrightarrow> find_loop eq m (first ns None) = Some (find (\<lambda>n. eq (nd_Value (m n))) ns)"
proof (induction ns arbitrary: p)
  case (Cons n ns)
  then have "find_loop eq m (nd_next (m n)) = Some (find (\<lambda>n. eq (nd_Value (m n))) ns)" by auto
  then show ?case by (subst find_loop.simps) simp
qed (simp add: find_loop.simps)

lemma range_values_seg:
  "seg m l p ns None \<Longrightarrow> range_values fn m (first ns None) =
     Some (let vs = map (\<lambda>n. nd_Value (m n)) ns in takeWhile fn vs @ take 1 (dropWhile fn vs))"
proof (induction ns arbitrary: p)
  case (Cons n ns)
  then have "range_values fn m (nd_next (m n)) =
      Some (let vs = map (\<lambda>n. nd_Value (m n)) ns in takeWhile fn vs @ take 1 (dropWhile fn vs))" by auto
  then show ?case by (subst range_values.simps) (simp add: Let_def)
qed (simp add: range_values.simps)

text \<open>Building a chain node by node, whatever the nodes' old links were.\<close>

lemma fold_pushBackNode:
  "dll s l as \<Longrightarrow> distinct (as @ bs) \<Longrightarrow> \<forall>n\<in>set bs. n < st_nodes s \<Longrightarrow>
     let s' = fold (pushBackNode l) bs s in
     dll s' l (as @ bs) \<and> st_nodes s' = st_nodes s \<and> st_lists s' = st_lists s \<and>
     (\<forall>k. k \<noteq> l \<longrightarrow> st_list s' k = st_list s k) \<and>
     (\<forall>x. x \<notin> set (as @ bs) \<longrightarrow> st_node s' x = st_node s x) \<and> (\<forall>x. nd_Value (st_node s' x) = nd_Value (st_node s x))"
proof (induction bs arbitrary: s as)
  case (Cons b bs)
  have b: "b \<notin> set as" "b < st_nodes s" using Cons.prems by auto
  note f = pushBackNode_frame [OF Cons.prems(1) b(1)]
  from Cons.IH [OF pushBackNode_dll [OF Cons.prems(1) b]] Cons.prems f show ?case by (simp add: Let_def)
qed simp

text \<open>Exchanging the links of every node turns a chain around.\<close>

lemma seg_rev:
  "seg m l p ns q \<Longrightarrow> (\<And>n. n \<in> set ns \<Longrightarrow> nd_prev (m' n) = nd_next (m n) \<and> nd_next (m' n) = nd_prev (m n) \<and> nd_list (m' n) = nd_list (m n)) \<Longrightarrow>
     seg m' l q (rev ns) p"
proof (induction ns arbitrary: p)
  case (Cons n ns)
  then have "seg m' l q (rev ns) (Some n)" by simp
  moreover have "final q (rev ns) = first ns q" by (cases ns) simp_all
  ultimately show ?case using Cons.prems by simp
qed simp

lemma final_rev: "final None (rev ns) = first ns None" "first (rev ns) None = final None ns"
  by (cases ns; simp)(cases ns rule: rev_cases; simp)

lemma Reverse_ok:
  assumes "store_ok s \<sigma>" "l < st_lists s"
  shows "\<exists>s'. ll_Reverse l s = Some s' \<and> store_ok s' (\<sigma>(l := rev (\<sigma> l))) \<and> same_values s s' \<and> st_lists s' = st_lists s"
proof (cases "ll_count (st_list s l) \<le> 1")
  case True
  with store_ok_list [OF assms] have "length (\<sigma> l) \<le> 1" by (simp add: dll_def)
  then have "rev (\<sigma> l) = \<sigma> l" by (cases "\<sigma> l") auto
  then have "\<sigma>(l := rev (\<sigma> l)) = \<sigma>" by simp
  with True assms show ?thesis by (simp add: ll_Reverse_def same_values_def)
next
  case False
  let ?ns = "\<sigma> l"
  let ?m = "\<lambda>n. if n \<in> set ?ns then (st_node s n)\<lparr>nd_next := nd_prev (st_node s n), nd_prev := nd_next (st_node s n)\<rparr> else st_node s n"
  let ?s = "(upd_list l (\<lambda>h. h\<lparr>ll_head := ll_tail h, ll_tail := ll_head h\<rparr>) s)\<lparr>st_node := ?m\<rparr>"
  have d: "seg (st_node s) l None ?ns None" "distinct ?ns" "\<forall>n\<in>set ?ns. n < st_nodes s"
    "ll_head (st_list s l) = first ?ns None" "ll_tail (st_list s l) = final None ?ns" "ll_count (st_list s l) = int (length ?ns)"
    using store_ok_list [OF assms] by (auto simp: dll_def)
  have "seg ?m l None (rev ?ns) None" by (rule seg_rev [OF d(1)]) simp
  with d have "dll ?s l (rev ?ns)" by (simp add: dll_def final_rev)
  with assms have "store_ok ?s (\<sigma>(l := rev ?ns))" by (rule store_ok_frame) auto
  moreover have "ll_Reverse l s = Some ?s"
    using False each_node_seg [OF d(1,2)] d(4) by (simp add: ll_Reverse_def Let_def)
  moreover have "same_values s ?s" by (simp add: same_values_def)
  ultimately show ?thesis by auto
qed

lemma Clear_ok:
  assumes "store_ok s \<sigma>" "l < st_lists s"
  shows "\<exists>s'. ll_Clear l s = Some s' \<and> store_ok s' (\<sigma>(l := [])) \<and> same_values s s' \<and> st_lists s' = st_lists s \<and>
    (\<forall>n\<in>set (\<sigma> l). nd_list (st_node s' n) = None)"
proof -
  let ?ns = "\<sigma> l"
  let ?m = "\<lambda>n. if n \<in> set ?ns then (st_node s n)\<lparr>nd_prev := None, nd_next := None, nd_list := None\<rparr> else st_node s n"
  let ?s = "empty_list l (s\<lparr>st_node := ?m\<rparr>)"
  have d: "seg (st_node s) l None ?ns None" "distinct ?ns" "ll_head (st_list s l) = first ?ns None"
    using store_ok_list [OF assms] by (auto simp: dll_def)
  have "dll ?s l []" by (simp add: dll_def empty_list_def)
  with assms have "store_ok ?s (\<sigma>(l := []))" by (rule store_ok_frame) (auto simp: empty_list_def)
  moreover have "ll_Clear l s = Some ?s"
    using each_node_seg [OF d(1,2)] d(3) by (simp add: ll_Clear_def)
  moreover have "same_values s ?s" by (simp add: same_values_def empty_list_def)
  ultimately show ?thesis by (auto simp: empty_list_def)
qed

lemma New_ok:
  assumes "store_ok s \<sigma>"
  shows "let (l, s') = ll_New safe s in
    store_ok s' (\<sigma>(l := [])) \<and> same_values s s' \<and> l = st_lists s \<and> st_lists s' = st_lists s + 1"
proof -
  let ?s = "snd (ll_New safe s)" and ?l = "st_lists s"
  have "dll ?s k ((\<sigma>(?l := [])) k)" if "k < st_lists s + 1" for k
  proof (cases "k = ?l")
    case True
    then show ?thesis by (simp add: dll_def ll_New_def)
  next
    case False
    with that have "dll s k (\<sigma> k)" using store_ok_list [OF assms] by simp
    from dll_frame [OF this] False show ?thesis by (simp add: ll_New_def)
  qed
  with assms show ?thesis by (auto simp: store_ok_def ll_New_def same_values_def split: option.splits)
qed

section \<open>Merging\<close>

lemma seg_relabel:
  "seg m k p ns q \<Longrightarrow> (\<And>n. n \<in> set ns \<Longrightarrow> m' n = (m n)\<lparr>nd_list := Some l\<rparr>) \<Longrightarrow> seg m' l p ns q"
  by (induction ns arbitrary: p) auto

lemma lists_disjoint:
  "store_ok s \<sigma> \<Longrightarrow> l < st_lists s \<Longrightarrow> k < st_lists s \<Longrightarrow> l \<noteq> k \<Longrightarrow> set (\<sigma> l) \<inter> set (\<sigma> k) = {}"
  using dll_mem [OF store_ok_list, of s \<sigma> l] dll_mem [OF store_ok_list, of s \<sigma> k] by force

lemma Merge_ok:
  assumes ok: "store_ok s \<sigma>" and l: "l < st_lists s" "k < st_lists s" "l \<noteq> k"
  shows "\<exists>s'. ll_Merge l (Some k) s = Some (None, s') \<and> store_ok s' (\<sigma>(l := \<sigma> l @ \<sigma> k, k := [])) \<and> same_values s s' \<and> st_lists s' = st_lists s"
proof (cases "\<sigma> k = []")
  case True
  then have "\<sigma>(l := \<sigma> l @ \<sigma> k, k := []) = \<sigma>" by auto
  with True ok l count_zero [OF store_ok_list [OF ok l(2)]] show ?thesis by (simp add: ll_Merge_def same_values_def)
next
  case False
  let ?m = "\<lambda>n. if n \<in> set (\<sigma> k) then (st_node s n)\<lparr>nd_list := Some l\<rparr> else st_node s n"
  let ?s = "s\<lparr>st_node := ?m\<rparr>"
  have dl: "dll s l (\<sigma> l)" and dk: "dll s k (\<sigma> k)" using store_ok_list [OF ok] l by auto
  have disj: "set (\<sigma> l) \<inter> set (\<sigma> k) = {}" using lists_disjoint [OF ok l] .
  have seg_k: "seg (st_node s) k None (\<sigma> k) None" "distinct (\<sigma> k)" "ll_head (st_list s k) = first (\<sigma> k) None"
    using dk by (auto simp: dll_def)
  have moved: "seg ?m l None (\<sigma> k) None" by (rule seg_relabel [OF seg_k(1)]) simp
  have kept: "seg ?m l None (\<sigma> l) None = seg (st_node s) l None (\<sigma> l) None" by (rule seg_cong) (use disj in auto)
  have each: "each_node (\<lambda>nd. nd\<lparr>nd_list := Some l\<rparr>) (st_node s) (ll_head (st_list s k)) = Some ?m"
    using each_node_seg [OF seg_k(1,2)] seg_k(3) by simp
  have nk: "\<not> ll_isEmpty k s" using count_zero [OF dk] False by simp
  have empty: "ll_isEmpty l ?s \<longleftrightarrow> \<sigma> l = []" using count_zero [OF dl] by (simp add: ll_isEmpty_def)
  show ?thesis
  proof (cases "\<sigma> l = []")
    case True
    let ?h = "st_list s k"
    let ?s' = "empty_list k (upd_list l (\<lambda>x. x\<lparr>ll_head := ll_head ?h, ll_tail := ll_tail ?h, ll_count := ll_count ?h\<rparr>) ?s)"
    have "ll_Merge l (Some k) s = Some (None, ?s')"
      using l(3) nk each empty True by (simp add: ll_Merge_def Let_def)
    moreover have d: "dll ?s' l (\<sigma> k)" "dll ?s' k []" using dk moved l(3) by (simp_all add: dll_def empty_list_def)
    have "store_ok ?s' (\<sigma>(l := \<sigma> k, k := []))"
      by (rule store_ok_frame_lists [OF ok, where K = "{l, k}"]) (use d l True in \<open>auto simp: empty_list_def\<close>)
    moreover have "same_values s ?s'" by (simp add: same_values_def empty_list_def)
    ultimately show ?thesis using True by (auto simp: empty_list_def)
  next
    case nl: False
    obtain as t where as: "\<sigma> l = as @ [t]" using nl by (cases "\<sigma> l" rule: rev_cases) auto
    obtain h bs where bs: "\<sigma> k = h # bs" using False by (cases "\<sigma> k") auto
    let ?s2 = "upd_node h (\<lambda>nd. nd\<lparr>nd_prev := Some t\<rparr>) (upd_node t (\<lambda>nd. nd\<lparr>nd_next := Some h\<rparr>) ?s)"
    let ?oh = "st_list s k"
    let ?s' = "empty_list k (upd_list l (\<lambda>x. x\<lparr>ll_tail := ll_tail ?oh, ll_count := ll_count x + ll_count ?oh\<rparr>) ?s2)"
    have ends: "ll_tail (st_list s l) = Some t" "ll_head (st_list s k) = Some h" using dl dk as bs by (auto simp: dll_def)
    have "ll_Merge l (Some k) s = Some (None, ?s')"
      using l(3) nk each empty nl ends by (simp add: ll_Merge_def Let_def)
    moreover have ne: "t \<notin> set as" "h \<notin> set bs" "t \<notin> set bs" "h \<notin> set as" "t \<noteq> h"
      using dl dk disj as bs by (auto simp: dll_def)
    have "seg (st_node ?s2) l None (as @ t # h # bs) None"
      using moved kept dl ne unfolding as bs by (simp add: dll_def)
    then have d: "dll ?s' l (\<sigma> l @ \<sigma> k)" "dll ?s' k []"
      using dl dk disj l(3) as bs by (auto simp: dll_def empty_list_def)
    have "store_ok ?s' (\<sigma>(l := \<sigma> l @ \<sigma> k, k := []))"
      by (rule store_ok_frame_lists [OF ok, where K = "{l, k}"]) (use d l as bs in \<open>auto simp: empty_list_def\<close>)
    moreover have "same_values s ?s'" by (auto simp: same_values_def empty_list_def)
    ultimately show ?thesis by (auto simp: empty_list_def)
  qed
qed

lemma MergeSorted_ok:
  fixes s :: "'v store" and c :: "'v \<Rightarrow> 'v \<Rightarrow> int" and other :: "nat option"
  assumes ok: "store_ok s \<sigma>" and l: "l < st_lists s" "\<forall>k. other = Some k \<longrightarrow> k < st_lists s \<and> k \<noteq> l"
  defines "theirs \<equiv> (case other of None \<Rightarrow> [] | Some k \<Rightarrow> \<sigma> k)"
  defines "nodes \<equiv> sort_by (\<lambda>a b. c (nd_Value (st_node s a)) (nd_Value (st_node s b))) (\<sigma> l @ theirs)"
  shows "\<exists>s'. ll_MergeSorted l other (Some c) s = Some (None, s') \<and>
    store_ok s' ((case other of None \<Rightarrow> \<sigma> | Some k \<Rightarrow> \<sigma>(k := []))(l := nodes)) \<and> same_values s s' \<and> st_lists s' = st_lists s"
proof -
  let ?s1 = "case other of None \<Rightarrow> s | Some k \<Rightarrow> empty_list k s" and ?\<sigma> = "case other of None \<Rightarrow> \<sigma> | Some k \<Rightarrow> \<sigma>(k := [])"
  let ?s' = "fold (pushBackNode l) nodes (empty_list l ?s1)"
  let ?K = "insert l (set_option other)"
  have dl: "dll s l (\<sigma> l)" using store_ok_list [OF ok l(1)] .
  have dk: "dll s k (\<sigma> k)" "set (\<sigma> l) \<inter> set (\<sigma> k) = {}" if "other = Some k" for k
    using store_ok_list [OF ok] lists_disjoint [OF ok l(1)] l(2) that by auto
  have s1: "st_node (empty_list l ?s1) = st_node s" "st_nodes (empty_list l ?s1) = st_nodes s" "st_lists (empty_list l ?s1) = st_lists s"
    "\<forall>k. k \<notin> ?K \<longrightarrow> st_list (empty_list l ?s1) k = st_list s k" "dll (empty_list l ?s1) l []"
    by (cases other; simp add: empty_list_def dll_def)+
  have nodes: "mset nodes = mset (\<sigma> l @ theirs)" unfolding nodes_def by (rule mset_sort_by)
  have set_nodes: "set nodes = set (\<sigma> l) \<union> set theirs" by (simp add: nodes_def)
  have "distinct (\<sigma> l @ theirs)" using dl dk by (cases other) (auto simp: theirs_def dll_def)
  then have "distinct nodes" using nodes mset_eq_imp_distinct_iff by metis
  moreover have "\<forall>n\<in>set nodes. n < st_nodes s"
    using dl dk set_nodes by (cases other) (auto simp: theirs_def dll_def)
  ultimately have f: "dll ?s' l nodes" "st_nodes ?s' = st_nodes s" "st_lists ?s' = st_lists s"
    "\<forall>k. k \<noteq> l \<longrightarrow> st_list ?s' k = st_list (empty_list l ?s1) k"
    "\<forall>x. x \<notin> set nodes \<longrightarrow> st_node ?s' x = st_node s x" "\<forall>x. nd_Value (st_node ?s' x) = nd_Value (st_node s x)"
    using fold_pushBackNode [OF s1(5), of nodes] s1 by (simp_all add: Let_def)
  have "store_ok ?s' (?\<sigma>(l := nodes))"
  proof (rule store_ok_frame_lists [OF ok, where K = ?K])
    show "\<forall>k\<in>?K. dll ?s' k ((?\<sigma>(l := nodes)) k)"
      using f l(2) by (cases other) (auto simp: dll_def empty_list_def)
    show "\<forall>k. k \<notin> ?K \<longrightarrow> st_list ?s' k = st_list s k \<and> (?\<sigma>(l := nodes)) k = \<sigma> k"
      using f(4) s1(4) by (cases other) auto
  qed (use f l set_nodes in \<open>cases other; auto simp: theirs_def\<close>)+
  moreover have "ll_MergeSorted l other (Some c) s = Some (None, ?s')"
    using l(2) walk_dll [OF dl] walk_dll [OF dk(1)] by (cases other) (auto simp: ll_MergeSorted_def nodes_def theirs_def Let_def)
  moreover have "same_values s ?s'" using f by (simp add: same_values_def)
  ultimately show ?thesis using f(3) by blast
qed

section \<open>Building and copying\<close>

lemma fold_PushBack_ok:
  "store_ok s \<sigma> \<Longrightarrow> l < st_lists s \<Longrightarrow>
     let s' = fold (\<lambda>v s. snd (ll_PushBack l v s)) vs s; ns = [st_nodes s..<st_nodes s + length vs] in
     store_ok s' (\<sigma>(l := \<sigma> l @ ns)) \<and> values_of s' ns = vs \<and> same_values s s' \<and> st_lists s' = st_lists s"
proof (induction vs arbitrary: s \<sigma>)
  case Nil
  have "store_ok s (\<sigma>(l := \<sigma> l @ []))" using Nil(1) unfolding append_Nil2 fun_upd_triv .
  moreover have "[st_nodes s..<st_nodes s + length ([] :: 'a list)] = []" by simp
  ultimately show ?case unfolding Let_def by (simp only: fold_simps) (simp add: values_of_def same_values_def)
next
  case (Cons v vs)
  let ?s = "snd (ll_PushBack l v s)"
  have p: "store_ok ?s (\<sigma>(l := \<sigma> l @ [st_nodes s]))" "same_values s ?s" "nd_Value (st_node ?s (st_nodes s)) = v" "st_lists ?s = st_lists s"
    using PushBack_ok [OF Cons.prems, of v] by (auto simp: split_def Let_def)
  have n: "st_nodes ?s = st_nodes s + 1"
    by (simp add: ll_PushBack_def pushBackNode_def Let_def split_def split: option.splits)
  let ?s' = "fold (\<lambda>v s. snd (ll_PushBack l v s)) vs ?s" and ?ns = "[st_nodes ?s..<st_nodes ?s + length vs]"
  have IH: "store_ok ?s' (\<sigma>(l := \<sigma> l @ st_nodes s # ?ns))" "values_of ?s' ?ns = vs" "same_values ?s ?s'" "st_lists ?s' = st_lists s"
    using Cons.IH [OF p(1), unfolded Let_def fun_upd_upd fun_upd_same] Cons.prems(2) p(4)
    unfolding append_assoc append_Cons append_Nil by argo+
  have ns: "[st_nodes s..<st_nodes s + length (v # vs)] = st_nodes s # ?ns" unfolding n by (subst upt_conv_Cons) simp_all
  have "nd_Value (st_node ?s' (st_nodes s)) = v" using IH(3) p(3) n by (simp add: same_values_def)
  moreover have "same_values s ?s'" using IH(3) p(2) by (simp add: same_values_def)
  moreover from calculation IH(2) have "values_of ?s' (st_nodes s # ?ns) = v # vs" by (simp add: values_of_def)
  ultimately show ?case using IH(1,4) unfolding Let_def ns fold_simps by blast
qed

lemma NewFromSlice_ok:
  assumes "store_ok s \<sigma>"
  shows "let (l, s') = ll_NewFromSlice vs safe s; ns = [st_nodes s..<st_nodes s + length vs] in
    l = st_lists s \<and> store_ok s' (\<sigma>(l := ns)) \<and> values_of s' ns = vs \<and> same_values s s' \<and> st_lists s' = st_lists s + 1"
proof -
  let ?s = "snd (ll_New safe s)" and ?l = "st_lists s"
  have n: "store_ok ?s (\<sigma>(?l := []))" "same_values s ?s" "st_lists ?s = ?l + 1" "fst (ll_New safe s) = ?l" "st_nodes ?s = st_nodes s"
    using New_ok [OF assms, of safe] by (auto simp: split_def Let_def ll_New_def)
  from fold_PushBack_ok [OF n(1), of ?l vs] n show ?thesis
    by (simp add: ll_NewFromSlice_def split_def Let_def same_values_def)
qed

lemma Clone_eq:
  assumes "store_ok s \<sigma>" "l < st_lists s"
  shows "ll_Clone l s = Some (ll_NewFromSlice (values_of s (\<sigma> l)) False s)"
  using walk_dll [OF store_ok_list [OF assms]]
  by (simp add: ll_Clone_def ll_NewFromSlice_def values_of_def split_def Let_def fold_map comp_def)

section \<open>Properties\<close>

definition empty_store :: "'v::zero store" where
  "empty_store = \<lparr>st_node = \<lambda>_. \<lparr>nd_Value = 0, nd_prev = None, nd_next = None, nd_list = None\<rparr>,
     st_list = \<lambda>_. \<lparr>ll_head = None, ll_tail = None, ll_count = 0, ll_safe = False\<rparr>, st_nodes = 0, st_lists = 0\<rparr>"

lemma empty_store_ok: "store_ok empty_store \<sigma>"
  by (simp add: store_ok_def empty_store_def)

lemma Slice_ok: "store_ok s \<sigma> \<Longrightarrow> l < st_lists s \<Longrightarrow> ll_Slice l s = Some (values_of s (\<sigma> l))"
  using walk_dll [OF store_ok_list, of s \<sigma> l] by (simp add: ll_Slice_def)

lemma values_of_same: "same_values s s' \<Longrightarrow> \<forall>n\<in>set ns. n < st_nodes s \<Longrightarrow> values_of s' ns = values_of s ns"
  by (simp add: same_values_def values_of_def)

lemma on_list_below: "store_ok s \<sigma> \<Longrightarrow> l < st_lists s \<Longrightarrow> \<forall>n\<in>set (\<sigma> l). n < st_nodes s"
  using store_ok_list [of s \<sigma> l] by (simp add: dll_def)

lemma Slice_same:
  "store_ok s \<sigma> \<Longrightarrow> store_ok s' \<sigma>' \<Longrightarrow> same_values s s' \<Longrightarrow> j < st_lists s \<Longrightarrow> j < st_lists s' \<Longrightarrow> \<sigma>' j = \<sigma> j \<Longrightarrow>
     ll_Slice j s' = ll_Slice j s"
  using values_of_same [OF _ on_list_below] by (simp add: Slice_ok)

lemma map_sort_by: "map f (sort_by (\<lambda>a b. c (f a) (f b)) xs) = sort_by c (map f xs)"
proof -
  have "map f (insert_by (\<lambda>a b. c (f a) (f b)) x ys) = insert_by c (f x) (map f ys)" for x ys
    by (induction ys) auto
  then show ?thesis by (induction xs) (simp_all add: sort_by_def)
qed

text \<open>Two lists of two nodes each, for the instances below.\<close>

definition two_lists :: "int store" where
  "two_lists = snd (ll_NewFromSlice [2, 1] False (snd (ll_NewFromSlice [3, 1] False empty_store)))"

lemma NewFromSlice_nodes: "st_nodes (snd (ll_NewFromSlice vs safe s)) = st_nodes s + length vs"
proof -
  have p: "st_nodes (snd (ll_PushBack l v s)) = st_nodes s + 1" for l v and s :: "'a store"
    by (simp add: ll_PushBack_def pushBackNode_def Let_def split_def split: option.splits)
  have "st_nodes (fold (\<lambda>v s. snd (ll_PushBack l v s)) vs s) = st_nodes s + length vs" for l and s :: "'a store"
    by (induction vs arbitrary: s) (simp_all add: p)
  then show ?thesis by (simp add: ll_NewFromSlice_def split_def Let_def) (simp add: ll_New_def)
qed

lemma two_lists_ok:
  "store_ok two_lists (\<lambda>l. if l = 0 then [0, 1] else if l = 1 then [2, 3] else [])"
  "st_lists two_lists = 2" "st_nodes two_lists = 4"
  "values_of two_lists [0, 1] = [3, 1]" "values_of two_lists [2, 3] = [2, 1]"
proof -
  let ?s = "snd (ll_NewFromSlice [3, 1] False empty_store) :: int store"
  have e: "store_ok (empty_store :: int store) (\<lambda>_. [])" "st_nodes (empty_store :: int store) = 0" "st_lists (empty_store :: int store) = 0"
    by (simp_all add: empty_store_ok) (simp_all add: empty_store_def)
  have f: "fst (ll_NewFromSlice xs safe t) = st_lists t" for xs safe and t :: "int store"
    by (simp add: ll_NewFromSlice_def ll_New_def split_def Let_def)
  have s: "store_ok ?s ((\<lambda>_. [])(0 := [0, 1]))" "st_lists ?s = 1" "values_of ?s [0, 1] = [3, 1]" "st_nodes ?s = 2"
    using NewFromSlice_ok [OF e(1), of "[3, 1]" False] by (simp_all add: split_def Let_def f e(2,3) upt_rec NewFromSlice_nodes)
  have t: "store_ok two_lists ((\<lambda>_. [])(0 := [0, 1], 1 := [2, 3]))" "same_values ?s two_lists"
    and "st_lists two_lists = 2" "values_of two_lists [2, 3] = [2, 1]" "st_nodes two_lists = 4"
    using NewFromSlice_ok [OF s(1), of "[2, 1]" False] unfolding two_lists_def
    by (simp_all add: split_def Let_def f s(2,4) e(2,3) upt_rec NewFromSlice_nodes flip: numeral_2_eq_2 numeral_3_eq_3)
  then show "st_lists two_lists = 2" "values_of two_lists [2, 3] = [2, 1]" "st_nodes two_lists = 4" by blast+
  show "values_of two_lists [0, 1] = [3, 1]" using values_of_same [OF t(2), of "[0, 1]"] s(3,4) by simp
  have "(\<lambda>_. [])(0 := [0, 1], 1 := [2, 3]) = (\<lambda>l :: nat. if l = 0 then [0, 1] else if l = 1 then [2, 3] else ([] :: nat list))"
    by (auto simp: fun_eq_iff)
  with t(1) show "store_ok two_lists (\<lambda>l. if l = 0 then [0, 1] else if l = 1 then [2, 3] else [])" by simp
qed

lemma two_lists_values:
  "nd_Value (st_node two_lists 0) = 3" "nd_Value (st_node two_lists 1) = 1" "nd_Value (st_node two_lists 2) = 2" "nd_Value (st_node two_lists 3) = 1"
  using two_lists_ok(4,5) by (simp_all add: values_of_def)

text \<open>
  Pushing and inserting. On a well-formed store, pushing puts a new node with the value at that end of
  the list; inserting next to a node on the list puts it there, and next to a node that was removed or is
  on another list changes nothing and returns nil. The store stays well-formed, no value changes and no
  other list does.
\<close>

theorem linkedlist_insertions:
  assumes "store_ok s \<sigma>" "l < st_lists s" "n < st_nodes s"
  shows "(let (r, s') = ll_PushBack l v s in
      store_ok s' (\<sigma>(l := \<sigma> l @ [r])) \<and> same_values s s' \<and> r = st_nodes s \<and> nd_Value (st_node s' r) = v) \<and>
    (let (r, s') = ll_PushFront l v s in
      store_ok s' (\<sigma>(l := r # \<sigma> l)) \<and> same_values s s' \<and> r = st_nodes s \<and> nd_Value (st_node s' r) = v) \<and>
    (let (r, s') = ll_InsertAfter l (Some n) v s in
      if n \<in> set (\<sigma> l)
      then r = Some (st_nodes s) \<and> store_ok s' (\<sigma>(l := insert_next n (st_nodes s) (\<sigma> l))) \<and> same_values s s' \<and>
        nd_Value (st_node s' (st_nodes s)) = v
      else r = None \<and> s' = s) \<and>
    (let (r, s') = ll_InsertBefore l (Some n) v s in
      if n \<in> set (\<sigma> l)
      then r = Some (st_nodes s) \<and> store_ok s' (\<sigma>(l := insert_prev n (st_nodes s) (\<sigma> l))) \<and> same_values s s' \<and>
        nd_Value (st_node s' (st_nodes s)) = v
      else r = None \<and> s' = s)"
  using PushBack_ok [OF assms(1,2), of v] PushFront_ok [OF assms(1,2), of v] InsertAfter_ok [OF assms, of v] InsertBefore_ok [OF assms, of v]
  by (simp add: split_def Let_def split: if_splits)

theorem linkedlist_insertions_witness:
  "ll_InsertAfter 1 (Some 0) 7 two_lists = (None, two_lists) \<and> fst (ll_InsertAfter 0 (Some 0) 7 two_lists) = Some 4"
proof -
  note w = linkedlist_insertions [OF two_lists_ok(1), unfolded two_lists_ok(2,3), where n = 0 and v = 7]
  from w [of 1] have "ll_InsertAfter 1 (Some 0) 7 two_lists = (None, two_lists)" by (simp add: split_def Let_def prod_eq_iff)
  moreover from w [of 0] have "fst (ll_InsertAfter 0 (Some 0) 7 two_lists) = Some 4" by (simp add: split_def Let_def)
  ultimately show ?thesis by blast
qed

text \<open>
  Removing. Removing a node takes exactly it off its list and leaves it on no list; removing a node
  that is not on the list gives its value and changes nothing. Popping returns the value at that end, or
  the zero value of an empty list, and never follows a nil pointer; clearing leaves an empty list and
  detaches every node it had.
\<close>

theorem linkedlist_removals:
  assumes "store_ok s \<sigma>" "l < st_lists s" "n < st_nodes s"
  shows "(let (v, s') = ll_Remove l (Some n) s in
      v = nd_Value (st_node s n) \<and> same_values s s' \<and>
      (if n \<in> set (\<sigma> l) then store_ok s' (\<sigma>(l := remove1 n (\<sigma> l))) \<and> nd_list (st_node s' n) = None else s' = s)) \<and>
    (case \<sigma> l of
       [] \<Rightarrow> ll_PopFront l s = Some (0, s)
     | h # ns \<Rightarrow> \<exists>s'. ll_PopFront l s = Some (nd_Value (st_node s h), s') \<and> store_ok s' (\<sigma>(l := ns)) \<and> same_values s s') \<and>
    (case rev (\<sigma> l) of
       [] \<Rightarrow> ll_PopBack l s = Some (0, s)
     | t # ns \<Rightarrow> \<exists>s'. ll_PopBack l s = Some (nd_Value (st_node s t), s') \<and> store_ok s' (\<sigma>(l := rev ns)) \<and> same_values s s') \<and>
    (\<exists>s'. ll_Clear l s = Some s' \<and> store_ok s' (\<sigma>(l := [])) \<and> same_values s s' \<and>
      list_all (\<lambda>n. nd_list (st_node s' n) = None) (\<sigma> l))"
proof -
  have r: "let (v, s') = ll_Remove l (Some n) s in v = nd_Value (st_node s n) \<and> same_values s s' \<and>
      (if n \<in> set (\<sigma> l) then store_ok s' (\<sigma>(l := remove1 n (\<sigma> l))) \<and> nd_list (st_node s' n) = None else s' = s)"
    using Remove_ok [OF assms] by (simp add: split_def Let_def)
  have f: "case \<sigma> l of [] \<Rightarrow> ll_PopFront l s = Some (0, s)
     | h # ns \<Rightarrow> \<exists>s'. ll_PopFront l s = Some (nd_Value (st_node s h), s') \<and> store_ok s' (\<sigma>(l := ns)) \<and> same_values s s'"
    using PopFront_ok [OF assms(1,2)] by (cases "\<sigma> l") auto
  have b: "case rev (\<sigma> l) of [] \<Rightarrow> ll_PopBack l s = Some (0, s)
     | t # ns \<Rightarrow> \<exists>s'. ll_PopBack l s = Some (nd_Value (st_node s t), s') \<and> store_ok s' (\<sigma>(l := rev ns)) \<and> same_values s s'"
    using PopBack_ok [OF assms(1,2)] by (cases "rev (\<sigma> l)") auto
  have "\<exists>s'. ll_Clear l s = Some s' \<and> store_ok s' (\<sigma>(l := [])) \<and> same_values s s' \<and>
      list_all (\<lambda>n. nd_list (st_node s' n) = None) (\<sigma> l)"
    using Clear_ok [OF assms(1,2)] unfolding list_all_iff by blast
  with r f b show ?thesis by blast
qed

theorem linkedlist_removals_witness:
  "ll_Remove 1 (Some 0) two_lists = (3, two_lists) \<and> (\<exists>s'. ll_PopBack 0 two_lists = Some (1, s'))"
proof -
  note w = linkedlist_removals [OF two_lists_ok(1), unfolded two_lists_ok(2,3), where n = 0]
  from w [of 1] two_lists_values have "ll_Remove 1 (Some 0) two_lists = (3, two_lists)" by (simp add: split_def Let_def prod_eq_iff)
  moreover from w [of 0] two_lists_values have "\<exists>s'. ll_PopBack 0 two_lists = Some (1, s')" by auto
  ultimately show ?thesis by blast
qed

text \<open>
  Merging. Merging moves every node of the other list to the end of this one, in order and with its
  value, and leaves the other list empty; merging sorted leaves this list with the nodes of both in the
  order of the comparison, equal values in the order they had with this list's own first, also when there
  is no other list. A list is never merged with itself, and every other list reads as before.
\<close>

theorem linkedlist_merges:
  assumes "store_ok s \<sigma>" "l < st_lists s" "k < st_lists s" "l \<noteq> k" "comparator c" "ll_Slice l s = Some xs" "ll_Slice k s = Some ys"
  shows "(\<exists>s'. ll_Merge l (Some k) s = Some (None, s') \<and> store_ok s' (\<sigma>(l := \<sigma> l @ \<sigma> k, k := [])) \<and>
      ll_Slice l s' = Some (xs @ ys) \<and> ll_Slice k s' = Some [] \<and>
      (j \<noteq> l \<and> j \<noteq> k \<and> j < st_lists s \<longrightarrow> ll_Slice j s' = ll_Slice j s)) \<and>
    (\<exists>s' \<sigma>'. ll_MergeSorted l (Some k) (Some c) s = Some (None, s') \<and> store_ok s' \<sigma>' \<and>
      ll_Slice l s' = Some (sort_by c (xs @ ys)) \<and> ll_Slice k s' = Some [] \<and>
      (j \<noteq> l \<and> j \<noteq> k \<and> j < st_lists s \<longrightarrow> ll_Slice j s' = ll_Slice j s)) \<and>
    (\<exists>s' \<sigma>'. ll_MergeSorted l None (Some c) s = Some (None, s') \<and> store_ok s' \<sigma>' \<and> ll_Slice l s' = Some (sort_by c xs)) \<and>
    sorted_wrt (\<lambda>a b. c a b \<le> 0) (sort_by c (xs @ ys)) \<and> mset (sort_by c (xs @ ys)) = mset (xs @ ys) \<and>
    filter (\<lambda>y. c z y = 0) (sort_by c (xs @ ys)) = filter (\<lambda>y. c z y = 0) (xs @ ys) \<and>
    ll_Merge l (Some l) s = Some (Some ErrMergeWithSelf, s) \<and>
    ll_MergeSorted l (Some l) (Some c) s = Some (Some ErrMergeWithSelf, s) \<and>
    ll_MergeSorted l (Some k) None s = Some (Some ErrComparisonNil, s)"
proof -
  have v: "xs = values_of s (\<sigma> l)" "ys = values_of s (\<sigma> k)"
    using assms(6,7) Slice_ok [OF assms(1,2)] Slice_ok [OF assms(1,3)] by simp_all
  note below = on_list_below [OF assms(1,2)] on_list_below [OF assms(1,3)]
  have "\<exists>s'. ll_Merge l (Some k) s = Some (None, s') \<and> store_ok s' (\<sigma>(l := \<sigma> l @ \<sigma> k, k := [])) \<and>
      ll_Slice l s' = Some (xs @ ys) \<and> ll_Slice k s' = Some [] \<and>
      (j \<noteq> l \<and> j \<noteq> k \<and> j < st_lists s \<longrightarrow> ll_Slice j s' = ll_Slice j s)"
  proof -
    obtain s' where m: "ll_Merge l (Some k) s = Some (None, s')" "store_ok s' (\<sigma>(l := \<sigma> l @ \<sigma> k, k := []))"
      "same_values s s'" "st_lists s' = st_lists s" using Merge_ok [OF assms(1-4)] by blast
    have "values_of s' (\<sigma> l @ \<sigma> k) = xs @ ys"
      unfolding v using values_of_same [OF m(3), of "\<sigma> l @ \<sigma> k"] below by (auto simp: values_of_def)
    then have "ll_Slice l s' = Some (xs @ ys)" "ll_Slice k s' = Some []"
      using Slice_ok [OF m(2)] m(4) assms(2-4) by (auto simp: values_of_def)
    then show ?thesis using Slice_same [OF assms(1) m(2,3), of j] m by (intro exI [of _ s']) auto
  qed
  moreover have self: "ll_Merge l (Some l) s = Some (Some ErrMergeWithSelf, s)"
      "ll_MergeSorted l (Some l) (Some c) s = Some (Some ErrMergeWithSelf, s)"
      "ll_MergeSorted l (Some k) None s = Some (Some ErrComparisonNil, s)"
    by (simp_all add: ll_Merge_def ll_MergeSorted_def)
  moreover have sorted: "\<exists>s' \<sigma>'. ll_MergeSorted l other (Some c) s = Some (None, s') \<and> store_ok s' \<sigma>' \<and>
      ll_Slice l s' = Some (sort_by c (xs @ (case other of None \<Rightarrow> [] | Some _ \<Rightarrow> ys))) \<and>
      (other = Some k \<longrightarrow> ll_Slice k s' = Some []) \<and>
      (j \<noteq> l \<and> j \<noteq> k \<and> j < st_lists s \<longrightarrow> ll_Slice j s' = ll_Slice j s)" if o: "other = None \<or> other = Some k" for other
  proof -
    let ?nodes = "sort_by (\<lambda>a b. c (nd_Value (st_node s a)) (nd_Value (st_node s b))) (\<sigma> l @ (case other of None \<Rightarrow> [] | Some k \<Rightarrow> \<sigma> k))"
    let ?\<sigma> = "(case other of None \<Rightarrow> \<sigma> | Some k \<Rightarrow> \<sigma>(k := []))(l := ?nodes)"
    obtain s' where m: "ll_MergeSorted l other (Some c) s = Some (None, s')" "store_ok s' ?\<sigma>" "same_values s s'" "st_lists s' = st_lists s"
      using MergeSorted_ok [OF assms(1,2), of other c] o assms(3,4) by blast
    have "\<forall>n\<in>set ?nodes. n < st_nodes s" using below o by auto
    then have "values_of s' ?nodes = values_of s ?nodes" by (rule values_of_same [OF m(3)])
    also have "\<dots> = sort_by c (xs @ (case other of None \<Rightarrow> [] | Some _ \<Rightarrow> ys))"
      unfolding values_of_def map_sort_by [where f = "\<lambda>n. nd_Value (st_node s n)" and c = c] using v o
      by (auto simp: values_of_def)
    finally have "ll_Slice l s' = Some (sort_by c (xs @ (case other of None \<Rightarrow> [] | Some _ \<Rightarrow> ys)))"
      using Slice_ok [OF m(2), of l] m(4) assms(2) by simp
    moreover have "other = Some k \<longrightarrow> ll_Slice k s' = Some []"
      using Slice_ok [OF m(2), of k] m(4) assms(3,4) by (auto simp: values_of_def)
    moreover have "j \<noteq> l \<and> j \<noteq> k \<and> j < st_lists s \<longrightarrow> ll_Slice j s' = ll_Slice j s"
      using Slice_same [OF assms(1) m(2,3), of j] m(4) o by auto
    ultimately show ?thesis using m(1,2) by blast
  qed
  moreover from sorted [of "Some k"] have "\<exists>s' \<sigma>'. ll_MergeSorted l (Some k) (Some c) s = Some (None, s') \<and> store_ok s' \<sigma>' \<and>
      ll_Slice l s' = Some (sort_by c (xs @ ys)) \<and> ll_Slice k s' = Some [] \<and>
      (j \<noteq> l \<and> j \<noteq> k \<and> j < st_lists s \<longrightarrow> ll_Slice j s' = ll_Slice j s)" by (simp only: option.case simp_thms)
  moreover from sorted [of None] have "\<exists>s' \<sigma>'. ll_MergeSorted l None (Some c) s = Some (None, s') \<and> store_ok s' \<sigma>' \<and>
      ll_Slice l s' = Some (sort_by c xs)" by (simp only: option.case simp_thms append_Nil2) blast
  ultimately show ?thesis
    using comparator.sorted_sort_by [OF assms(5), of "xs @ ys"] mset_sort_by [of c "xs @ ys"]
      comparator.sort_by_stable [OF assms(5), of z "xs @ ys"] self by blast
qed

theorem linkedlist_merges_witness:
  "\<exists>s' s''. ll_Merge 0 (Some 1) two_lists = Some (None, s') \<and> ll_Slice 0 s' = Some [3, 1, 2, 1] \<and>
     ll_MergeSorted 0 (Some 1) (Some cmp_Compare) two_lists = Some (None, s'') \<and> ll_Slice 0 s'' = Some [1, 1, 2, 3]"
proof -
  have v: "ll_Slice 0 two_lists = Some [3, 1]" "ll_Slice 1 two_lists = Some [2, 1]"
    using Slice_ok [OF two_lists_ok(1), of 0] Slice_ok [OF two_lists_ok(1), of 1] two_lists_ok(2-) by simp_all
  have "sort_by cmp_Compare ([3, 1] @ [2, 1]) = [1, 1, 2, 3::int]" by code_simp
  moreover have "(0::nat) < st_lists two_lists" "1 < st_lists two_lists" "(0::nat) \<noteq> 1" by (simp_all add: two_lists_ok(2))
  note w = linkedlist_merges [OF two_lists_ok(1) this ordered.comparator_axioms v, of 0 0]
  ultimately show ?thesis using conjunct1 [OF w] conjunct1 [OF conjunct2 [OF w]] by auto
qed

text \<open>
  Reading a well-formed list. The slice lists its values from the front, the count is their number,
  ranging calls the function up to the first value it refuses, finding gives the first node whose value
  is equal or nil, walking back from the last node gives the values in reverse, and reversing the list in
  place reverses them. A copy holds the same values in a list of its own. Every one of these loops ends.
\<close>

theorem linkedlist_reads:
  assumes "store_ok s \<sigma>" "l < st_lists s"
  shows "ll_Slice l s = Some (values_of s (\<sigma> l)) \<and> ll_Len l s = int (length (\<sigma> l)) \<and>
    ll_Range l fn s = Some (let vs = values_of s (\<sigma> l) in takeWhile fn vs @ take 1 (dropWhile fn vs)) \<and>
    ll_Find l v (Some eq) s = Some (find (\<lambda>n. eq (nd_Value (st_node s n)) v) (\<sigma> l)) \<and>
    nd_EachReverse (ll_Back l s) s = Some (rev (values_of s (\<sigma> l))) \<and>
    (\<exists>s'. ll_Reverse l s = Some s' \<and> store_ok s' (\<sigma>(l := rev (\<sigma> l))) \<and> ll_Slice l s' = Some (rev (values_of s (\<sigma> l)))) \<and>
    (\<exists>s' \<sigma>'. ll_Clone l s = Some (st_lists s, s') \<and> store_ok s' \<sigma>' \<and> ll_Slice (st_lists s) s' = ll_Slice l s \<and>
      ll_Slice l s' = ll_Slice l s)"
proof -
  have d: "seg (st_node s) l None (\<sigma> l) None" "ll_head (st_list s l) = first (\<sigma> l) None" "ll_tail (st_list s l) = final None (\<sigma> l)"
    "ll_count (st_list s l) = int (length (\<sigma> l))" using store_ok_list [OF assms] by (auto simp: dll_def)
  have "nd_EachReverse (ll_Back l s) s = Some (rev (values_of s (\<sigma> l)))"
    using walk_back_seg [OF d(1)] d(3) by (simp add: nd_EachReverse_def ll_Back_def values_of_def rev_map)
  moreover have "\<exists>s'. ll_Reverse l s = Some s' \<and> store_ok s' (\<sigma>(l := rev (\<sigma> l))) \<and> ll_Slice l s' = Some (rev (values_of s (\<sigma> l)))"
  proof -
    obtain s' where r: "ll_Reverse l s = Some s'" "store_ok s' (\<sigma>(l := rev (\<sigma> l)))" "same_values s s'" "st_lists s' = st_lists s"
      using Reverse_ok [OF assms] by blast
    have "ll_Slice l s' = Some (values_of s' (rev (\<sigma> l)))" using Slice_ok [OF r(2), of l] r(4) assms(2) by simp
    moreover have "values_of s' (rev (\<sigma> l)) = values_of s (rev (\<sigma> l))"
      by (rule values_of_same [OF r(3)]) (use on_list_below [OF assms] in simp)
    ultimately show ?thesis using r by (simp add: values_of_def rev_map)
  qed
  moreover have "\<exists>s' \<sigma>'. ll_Clone l s = Some (st_lists s, s') \<and> store_ok s' \<sigma>' \<and> ll_Slice (st_lists s) s' = ll_Slice l s \<and>
      ll_Slice l s' = ll_Slice l s"
  proof -
    let ?vs = "values_of s (\<sigma> l)"
    let ?c = "ll_NewFromSlice ?vs False s" and ?ns = "[st_nodes s..<st_nodes s + length ?vs]"
    have c: "fst ?c = st_lists s" "store_ok (snd ?c) (\<sigma>(st_lists s := ?ns))" "values_of (snd ?c) ?ns = ?vs" "same_values s (snd ?c)"
      "st_lists (snd ?c) = st_lists s + 1"
      using NewFromSlice_ok [OF assms(1), of ?vs False] by (auto simp: split_def Let_def)
    have "ll_Slice (st_lists s) (snd ?c) = Some ?vs" using Slice_ok [OF c(2), of "st_lists s"] c(3,5) by simp
    moreover have "ll_Slice l (snd ?c) = ll_Slice l s"
      by (rule Slice_same [OF assms(1) c(2,4)]) (use assms(2) c(5) in auto)
    moreover have "ll_Clone l s = Some (st_lists s, snd ?c)" using Clone_eq [OF assms] c(1) by (metis prod.collapse)
    ultimately show ?thesis using c(2) Slice_ok [OF assms] by metis
  qed
  ultimately show ?thesis
    using Slice_ok [OF assms] d range_values_seg [OF d(1), of fn] find_loop_seg [OF d(1), of "\<lambda>x. eq x v"]
    by (simp add: ll_Len_def ll_Range_def ll_Find_def values_of_def)
qed

theorem linkedlist_reads_witness:
  "ll_Find 0 1 (Some (=)) two_lists = Some (Some 1) \<and> (\<exists>s'. ll_Reverse 1 two_lists = Some s' \<and> ll_Slice 1 s' = Some [1, 2])"
proof -
  note w = linkedlist_reads [OF two_lists_ok(1), unfolded two_lists_ok(2,3)]
  from w [where l = 0 and v = 1 and eq = "(=)"] two_lists_values have "ll_Find 0 1 (Some (=)) two_lists = Some (Some 1)" by simp
  moreover from w [where l = 1 and fn = "\<lambda>_. True" and v = 0 and eq = "(=)"] two_lists_ok(5) have "\<exists>s'. ll_Reverse 1 two_lists = Some s' \<and> ll_Slice 1 s' = Some [1, 2]" by auto
  ultimately show ?thesis by blast
qed

end
