(* ===== verification/Ds_Linked_Containers.thy ===== *)
theory Ds_Linked_Containers
  imports Ds_Linked
begin

text \<open>
  The queue of \<^verbatim>\<open>src/ds/queue/linkedqueue/queue.go\<close> and the stack of
  \<^verbatim>\<open>src/ds/stack/linkedstack/stack.go\<close>, both over a linked list of their own in the store. A method that
  would follow a nil pointer returns \<open>None\<close>; the pair of a value and a flag it returns otherwise is an
  option. A map given to a constructor is the association list in the order Go happens to range over it.
\<close>

section \<open>The linked queue\<close>

record lqueue =
  lq_list :: nat
  lq_safe :: bool

definition lq_New :: "bool \<Rightarrow> 'e store \<Rightarrow> lqueue \<times> 'e store" where
  "lq_New safe s = (let (l, s) = ll_New False s in (\<lparr>lq_list = l, lq_safe = safe\<rparr>, s))"

definition lq_NewFromSlice :: "'e list \<Rightarrow> bool \<Rightarrow> 'e store \<Rightarrow> lqueue \<times> 'e store" where
  "lq_NewFromSlice slice safe s =
     (let (q, s) = lq_New safe s
      in (q, if length slice > 0 then fold (\<lambda>e s. snd (ll_PushBack (lq_list q) e s)) slice s else s))"

definition lq_NewFromMapKeys :: "('e \<times> 'v) list \<Rightarrow> bool \<Rightarrow> 'e store \<Rightarrow> lqueue \<times> 'e store" where
  "lq_NewFromMapKeys m safe s =
     (let (q, s) = lq_New safe s
      in (q, if length m > 0 then fold (\<lambda>(k, v) s. snd (ll_PushBack (lq_list q) k s)) m s else s))"

definition lq_NewFromMapValues :: "('k \<times> 'e) list \<Rightarrow> bool \<Rightarrow> 'e store \<Rightarrow> lqueue \<times> 'e store" where
  "lq_NewFromMapValues m safe s =
     (let (q, s) = lq_New safe s
      in (q, if length m > 0 then fold (\<lambda>(k, v) s. snd (ll_PushBack (lq_list q) v s)) m s else s))"

definition lq_Enqueue :: "lqueue \<Rightarrow> 'e \<Rightarrow> 'e store \<Rightarrow> 'e store" where
  "lq_Enqueue q e s = snd (ll_PushBack (lq_list q) e s)"

definition lq_Dequeue :: "lqueue \<Rightarrow> 'e::zero store \<Rightarrow> ('e option \<times> 'e store) option" where
  "lq_Dequeue q s =
     (if ll_Len (lq_list q) s = 0 then Some (None, s)
      else map_option (\<lambda>(e, s). (Some e, s)) (ll_PopFront (lq_list q) s))"

definition lq_Peek :: "lqueue \<Rightarrow> 'e store \<Rightarrow> 'e option option" where
  "lq_Peek q s =
     (if ll_isEmpty (lq_list q) s then Some None
      else map_option (\<lambda>n. Some (nd_Value (st_node s n))) (ll_Front (lq_list q) s))"

definition lq_IsEmpty :: "lqueue \<Rightarrow> 'e store \<Rightarrow> bool" where
  "lq_IsEmpty q s = ll_isEmpty (lq_list q) s"

definition lq_Len :: "lqueue \<Rightarrow> 'e store \<Rightarrow> int" where
  "lq_Len q s = ll_Len (lq_list q) s"

definition lq_Values :: "lqueue \<Rightarrow> 'e store \<Rightarrow> 'e list option" where
  "lq_Values q s = ll_Slice (lq_list q) s"

definition lq_Clear :: "lqueue \<Rightarrow> 'e store \<Rightarrow> 'e store option" where
  "lq_Clear q s = ll_Clear (lq_list q) s"

definition lq_Clone :: "lqueue \<Rightarrow> 'e store \<Rightarrow> (lqueue \<times> 'e store) option" where
  "lq_Clone q s = map_option (\<lambda>slice. lq_NewFromSlice slice (lq_safe q) s) (ll_Slice (lq_list q) s)"

section \<open>The linked stack\<close>

record lstack =
  ls_list :: nat
  ls_safe :: bool

definition ls_New :: "bool \<Rightarrow> 'e store \<Rightarrow> lstack \<times> 'e store" where
  "ls_New safe s = (let (l, s) = ll_New False s in (\<lparr>ls_list = l, ls_safe = safe\<rparr>, s))"

definition ls_NewFromSlice :: "'e list \<Rightarrow> bool \<Rightarrow> 'e store \<Rightarrow> lstack \<times> 'e store" where
  "ls_NewFromSlice slice safe s =
     (let (st, s) = ls_New safe s
      in (st, if length slice > 0 then fold (\<lambda>e s. snd (ll_PushBack (ls_list st) e s)) slice s else s))"

definition ls_NewFromMapKeys :: "('e \<times> 'v) list \<Rightarrow> bool \<Rightarrow> 'e store \<Rightarrow> lstack \<times> 'e store" where
  "ls_NewFromMapKeys m safe s =
     (let (st, s) = ls_New safe s
      in (st, if length m > 0 then fold (\<lambda>(k, v) s. snd (ll_PushBack (ls_list st) k s)) m s else s))"

definition ls_NewFromMapValues :: "('k \<times> 'e) list \<Rightarrow> bool \<Rightarrow> 'e store \<Rightarrow> lstack \<times> 'e store" where
  "ls_NewFromMapValues m safe s =
     (let (st, s) = ls_New safe s
      in (st, if length m > 0 then fold (\<lambda>(k, v) s. snd (ll_PushBack (ls_list st) v s)) m s else s))"

definition ls_Push :: "lstack \<Rightarrow> 'e \<Rightarrow> 'e store \<Rightarrow> 'e store" where
  "ls_Push st e s = snd (ll_PushBack (ls_list st) e s)"

definition ls_Pop :: "lstack \<Rightarrow> 'e::zero store \<Rightarrow> ('e option \<times> 'e store) option" where
  "ls_Pop st s =
     (if ll_Len (ls_list st) s = 0 then Some (None, s)
      else map_option (\<lambda>(e, s). (Some e, s)) (ll_PopBack (ls_list st) s))"

definition ls_Peek :: "lstack \<Rightarrow> 'e store \<Rightarrow> 'e option option" where
  "ls_Peek st s =
     (if ll_isEmpty (ls_list st) s then Some None
      else map_option (\<lambda>n. Some (nd_Value (st_node s n))) (ll_Back (ls_list st) s))"

definition ls_IsEmpty :: "lstack \<Rightarrow> 'e store \<Rightarrow> bool" where
  "ls_IsEmpty st s = ll_isEmpty (ls_list st) s"

definition ls_Len :: "lstack \<Rightarrow> 'e store \<Rightarrow> int" where
  "ls_Len st s = ll_Len (ls_list st) s"

definition ls_Values :: "lstack \<Rightarrow> 'e store \<Rightarrow> 'e list option" where
  "ls_Values st s = map_option rev (ll_Slice (ls_list st) s)"

definition ls_Clear :: "lstack \<Rightarrow> 'e store \<Rightarrow> 'e store option" where
  "ls_Clear st s = ll_Clear (ls_list st) s"

definition ls_Clone :: "lstack \<Rightarrow> 'e store \<Rightarrow> (lstack \<times> 'e store) option" where
  "ls_Clone st s = map_option (\<lambda>slice. ls_NewFromSlice slice (ls_safe st) s) (ll_Slice (ls_list st) s)"

section \<open>The contracts\<close>

text \<open>A list of a well-formed store, whatever else the store holds, and the values on it.\<close>

definition on_store :: "nat \<Rightarrow> 'e store \<Rightarrow> bool" where
  "on_store l s \<longleftrightarrow> (\<exists>\<sigma>. store_ok s \<sigma>) \<and> l < st_lists s"

definition contents :: "nat \<Rightarrow> 'e store \<Rightarrow> 'e list" where
  "contents l s = the (ll_Slice l s)"

lemma on_storeE:
  assumes "on_store l s"
  obtains \<sigma> where "store_ok s \<sigma>" "l < st_lists s" "contents l s = values_of s (\<sigma> l)"
proof -
  obtain \<sigma> where \<sigma>: "store_ok s \<sigma>" "l < st_lists s" using assms by (auto simp: on_store_def)
  with Slice_ok [OF this] show thesis by (intro that) (simp_all add: contents_def)
qed

lemma contents_eq: "store_ok s \<sigma> \<Longrightarrow> l < st_lists s \<Longrightarrow> contents l s = values_of s (\<sigma> l)"
  by (simp add: contents_def Slice_ok)

lemma PushBack_contents:
  assumes "on_store l s"
  shows "on_store l (snd (ll_PushBack l e s)) \<and> contents l (snd (ll_PushBack l e s)) = contents l s @ [e]"
proof -
  obtain \<sigma> where \<sigma>: "store_ok s \<sigma>" "l < st_lists s" "contents l s = values_of s (\<sigma> l)" using assms by (rule on_storeE)
  let ?s = "snd (ll_PushBack l e s)"
  have p: "store_ok ?s (\<sigma>(l := \<sigma> l @ [st_nodes s]))" "same_values s ?s" "nd_Value (st_node ?s (st_nodes s)) = e" "st_lists ?s = st_lists s"
    using PushBack_ok [OF \<sigma>(1,2), of e] by (auto simp: split_def Let_def)
  have "contents l ?s = values_of ?s (\<sigma> l @ [st_nodes s])" using contents_eq [OF p(1), of l] \<sigma>(2) p(4) by simp
  also have "\<dots> = values_of s (\<sigma> l) @ [e]"
    using values_of_same [OF p(2) on_list_below [OF \<sigma>(1,2)]] p(3) by (simp add: values_of_def)
  finally show ?thesis using \<sigma>(2,3) p(1,4) by (auto simp: on_store_def)
qed

lemma popped_contents:
  assumes "store_ok s \<sigma>" "l < st_lists s" "store_ok s' (\<sigma>(l := ns))" "same_values s s'" "st_lists s' = st_lists s" "set ns \<subseteq> set (\<sigma> l)"
  shows "on_store l s' \<and> contents l s' = values_of s ns"
proof -
  have "\<forall>n\<in>set ns. n < st_nodes s" using on_list_below [OF assms(1,2)] assms(6) by auto
  from values_of_same [OF assms(4) this] contents_eq [OF assms(3), of l] assms(2,3,5)
  show ?thesis by (auto simp: on_store_def)
qed

text \<open>The queue as a value: its list in the store.\<close>

interpretation linked_queue: fifo
  "\<lambda>(q, s). on_store (lq_list q) s" "\<lambda>(q, s). contents (lq_list q) s" "lq_New safe (empty_store :: 'e::zero store)"
  "\<lambda>e (q, s). (q, lq_Enqueue q e s)"
  "\<lambda>(q, s). case lq_Dequeue q s of Some (Some e, s') \<Rightarrow> Some (e, (q, s')) | _ \<Rightarrow> None"
  "\<lambda>(q, s). case lq_Peek q s of Some r \<Rightarrow> r | None \<Rightarrow> None"
proof (unfold_locales, goal_cases)
  case 1
  from New_ok [OF empty_store_ok, of False] show ?case by (auto simp: lq_New_def split_def Let_def on_store_def)
next
  case 2
  have "store_ok (snd (ll_New False (empty_store :: 'e store))) ((\<lambda>_. [])(0 := []))" "st_lists (snd (ll_New False (empty_store :: 'e store))) = 1"
    "fst (ll_New False (empty_store :: 'e store)) = 0"
    using New_ok [OF empty_store_ok, of False "\<lambda>_. []"] by (auto simp: split_def Let_def empty_store_def ll_New_def)
  with contents_eq [OF this(1), of 0] show ?case by (simp add: lq_New_def split_def Let_def values_of_def)
next
  case (3 q e)
  with PushBack_contents [of "lq_list (fst q)" "snd q" e] show ?case by (auto simp: lq_Enqueue_def split_def)
next
  case (4 q e)
  with PushBack_contents [of "lq_list (fst q)" "snd q" e] show ?case by (auto simp: lq_Enqueue_def split_def)
next
  case (5 q)
  then obtain \<sigma> where "store_ok (snd q) \<sigma>" "lq_list (fst q) < st_lists (snd q)" "\<sigma> (lq_list (fst q)) = []"
    by (auto simp: split_def values_of_def elim!: on_storeE)
  with store_ok_list [OF this(1,2)] show ?case by (simp add: lq_Dequeue_def ll_Len_def dll_def split_def)
next
  case (6 q x xs)
  let ?l = "lq_list (fst q)" and ?s = "snd q"
  obtain \<sigma> where \<sigma>: "store_ok ?s \<sigma>" "?l < st_lists ?s" "values_of ?s (\<sigma> ?l) = x # xs"
    using 6 by (auto simp: split_def elim!: on_storeE)
  then obtain n ns where ns: "\<sigma> ?l = n # ns" "nd_Value (st_node ?s n) = x" "values_of ?s ns = xs" by (cases "\<sigma> ?l") (auto simp: values_of_def)
  with PopFront_ok [OF \<sigma>(1,2)] obtain s' where s': "ll_PopFront ?l ?s = Some (x, s')" "store_ok s' (\<sigma>(?l := ns))"
    "same_values ?s s'" "st_lists s' = st_lists ?s" by auto
  moreover have "ll_Len ?l ?s \<noteq> 0" using store_ok_list [OF \<sigma>(1,2)] ns(1) by (simp add: dll_def ll_Len_def)
  ultimately show ?case using popped_contents [OF \<sigma>(1,2) s'(2-4)] ns by (auto simp: lq_Dequeue_def split_def)
next
  case (7 q)
  then obtain \<sigma> where \<sigma>: "store_ok (snd q) \<sigma>" "lq_list (fst q) < st_lists (snd q)"
    "contents (lq_list (fst q)) (snd q) = values_of (snd q) (\<sigma> (lq_list (fst q)))" by (auto simp: split_def elim!: on_storeE)
  with store_ok_list [OF \<sigma>(1,2)] show ?case
    by (cases "\<sigma> (lq_list (fst q))") (auto simp: lq_Peek_def ll_isEmpty_def ll_Front_def dll_def split_def values_of_def)
qed

interpretation linked_stack: lifo
  "\<lambda>(q, s). on_store (ls_list q) s" "\<lambda>(q, s). rev (contents (ls_list q) s)" "ls_New safe (empty_store :: 'e::zero store)"
  "\<lambda>e (q, s). (q, ls_Push q e s)"
  "\<lambda>(q, s). case ls_Pop q s of Some (Some e, s') \<Rightarrow> Some (e, (q, s')) | _ \<Rightarrow> None"
  "\<lambda>(q, s). case ls_Peek q s of Some r \<Rightarrow> r | None \<Rightarrow> None"
proof (unfold_locales, goal_cases)
  case 1
  from New_ok [OF empty_store_ok, of False] show ?case by (auto simp: ls_New_def split_def Let_def on_store_def)
next
  case 2
  have "store_ok (snd (ll_New False (empty_store :: 'e store))) ((\<lambda>_. [])(0 := []))" "st_lists (snd (ll_New False (empty_store :: 'e store))) = 1"
    "fst (ll_New False (empty_store :: 'e store)) = 0"
    using New_ok [OF empty_store_ok, of False "\<lambda>_. []"] by (auto simp: split_def Let_def empty_store_def ll_New_def)
  with contents_eq [OF this(1), of 0] show ?case by (simp add: ls_New_def split_def Let_def values_of_def)
next
  case (3 q e)
  with PushBack_contents [of "ls_list (fst q)" "snd q" e] show ?case by (auto simp: ls_Push_def split_def)
next
  case (4 q e)
  with PushBack_contents [of "ls_list (fst q)" "snd q" e] show ?case by (auto simp: ls_Push_def split_def)
next
  case (5 q)
  then obtain \<sigma> where "store_ok (snd q) \<sigma>" "ls_list (fst q) < st_lists (snd q)" "\<sigma> (ls_list (fst q)) = []"
    by (auto simp: split_def values_of_def elim!: on_storeE)
  with store_ok_list [OF this(1,2)] show ?case by (simp add: ls_Pop_def ll_Len_def dll_def split_def)
next
  case (6 q x xs)
  let ?l = "ls_list (fst q)" and ?s = "snd q"
  obtain \<sigma> where \<sigma>: "store_ok ?s \<sigma>" "?l < st_lists ?s" "rev (values_of ?s (\<sigma> ?l)) = x # xs"
    using 6 by (auto simp: split_def elim!: on_storeE)
  then obtain n ns where ns: "rev (\<sigma> ?l) = n # ns" "nd_Value (st_node ?s n) = x" "values_of ?s ns = xs"
    by (cases "rev (\<sigma> ?l)") (auto simp: values_of_def rev_map)
  with PopBack_ok [OF \<sigma>(1,2)] obtain s' where s': "ll_PopBack ?l ?s = Some (x, s')" "store_ok s' (\<sigma>(?l := rev ns))"
    "same_values ?s s'" "st_lists s' = st_lists ?s" by auto
  have l: "\<sigma> ?l = rev ns @ [n]" using ns(1) by (simp add: rev_eq_Cons_iff)
  then have "ll_Len ?l ?s \<noteq> 0" using store_ok_list [OF \<sigma>(1,2)] by (simp add: dll_def ll_Len_def)
  moreover have "on_store ?l s' \<and> contents ?l s' = values_of ?s (rev ns)"
    by (rule popped_contents [OF \<sigma>(1,2) s'(2-4)]) (use l in auto)
  ultimately show ?case using s'(1) ns by (simp add: ls_Pop_def split_def values_of_def flip: rev_map)
next
  case (7 q)
  then obtain \<sigma> where \<sigma>: "store_ok (snd q) \<sigma>" "ls_list (fst q) < st_lists (snd q)"
    "contents (ls_list (fst q)) (snd q) = values_of (snd q) (\<sigma> (ls_list (fst q)))" by (auto simp: split_def elim!: on_storeE)
  with store_ok_list [OF \<sigma>(1,2)] show ?case
    by (cases "\<sigma> (ls_list (fst q))" rule: rev_cases)
      (auto simp: ls_Peek_def ll_isEmpty_def ll_Back_def dll_def split_def values_of_def)
qed

section \<open>Properties\<close>

text \<open>
  The linked queue and stack. On a queue or stack whose list is part of a well-formed store, adding
  an element puts it last, taking one never panics and gives the first element put in, respectively the
  last, with everything else left in order, and nothing exactly when it is empty; peeking gives the same
  element without taking it.
\<close>

theorem linked_queue_stack_contract:
  fixes s :: "'e::zero store"
  assumes "on_store (lq_list q) s" "on_store (ls_list st) s"
  shows "lq_Values q (lq_Enqueue q e s) = map_option (\<lambda>xs. xs @ [e]) (lq_Values q s) \<and>
    (\<exists>s'. lq_Dequeue q s = Some (if contents (lq_list q) s = [] then None else Some (hd (contents (lq_list q) s)), s') \<and>
       on_store (lq_list q) s' \<and> contents (lq_list q) s' = tl (contents (lq_list q) s)) \<and>
    ls_Values st (ls_Push st e s) = map_option (\<lambda>xs. e # xs) (ls_Values st s) \<and>
    (\<exists>s'. ls_Pop st s = Some (if contents (ls_list st) s = [] then None else Some (last (contents (ls_list st) s)), s') \<and>
       on_store (ls_list st) s' \<and> contents (ls_list st) s' = butlast (contents (ls_list st) s))"
proof -
  have slice: "ll_Slice l s = Some (contents l s)" if "on_store l s" for l and s :: "'e store"
    using Slice_ok [of s _ l] that by (auto simp: on_store_def contents_def)
  have 1: "lq_Values q (lq_Enqueue q e s) = map_option (\<lambda>xs. xs @ [e]) (lq_Values q s)"
    using PushBack_contents [OF assms(1), of e] slice assms(1) by (simp add: lq_Values_def lq_Enqueue_def)
  have 2: "ls_Values st (ls_Push st e s) = map_option (\<lambda>xs. e # xs) (ls_Values st s)"
    using PushBack_contents [OF assms(2), of e] slice assms(2) by (simp add: ls_Values_def ls_Push_def)
  have 3: "\<exists>s'. lq_Dequeue q s = Some (if contents (lq_list q) s = [] then None else Some (hd (contents (lq_list q) s)), s') \<and>
       on_store (lq_list q) s' \<and> contents (lq_list q) s' = tl (contents (lq_list q) s)"
  proof (cases "contents (lq_list q) s")
    case Nil
    from assms(1) obtain \<sigma> where "store_ok s \<sigma>" "lq_list q < st_lists s" "\<sigma> (lq_list q) = []"
      using Nil by (auto simp: values_of_def elim!: on_storeE)
    with store_ok_list [OF this(1,2)] Nil assms(1) show ?thesis by (simp add: lq_Dequeue_def ll_Len_def dll_def)
  next
    case (Cons x xs)
    with linked_queue.dequeue_some [of "(q, s)" x xs] assms(1) show ?thesis
      by (auto split: option.splits prod.splits)
  qed
  have 4: "\<exists>s'. ls_Pop st s = Some (if contents (ls_list st) s = [] then None else Some (last (contents (ls_list st) s)), s') \<and>
       on_store (ls_list st) s' \<and> contents (ls_list st) s' = butlast (contents (ls_list st) s)"
  proof (cases "contents (ls_list st) s" rule: rev_cases)
    case Nil
    from assms(2) obtain \<sigma> where "store_ok s \<sigma>" "ls_list st < st_lists s" "\<sigma> (ls_list st) = []"
      using Nil by (auto simp: values_of_def elim!: on_storeE)
    with store_ok_list [OF this(1,2)] Nil assms(2) show ?thesis by (simp add: ls_Pop_def ll_Len_def dll_def)
  next
    case (snoc xs x)
    with linked_stack.pop_some [of "(st, s)" x "rev xs"] assms(2) show ?thesis
      by (auto split: option.splits prod.splits)
  qed
  from 1 2 3 4 show ?thesis by blast
qed

theorem linked_queue_stack_contract_witness:
  "\<exists>s'. lq_Dequeue \<lparr>lq_list = 0, lq_safe = False\<rparr> two_lists = Some (Some 3, s') \<and>
     ls_Values \<lparr>ls_list = 1, ls_safe = False\<rparr> (ls_Push \<lparr>ls_list = 1, ls_safe = False\<rparr> 9 two_lists) = Some [9, 1, 2]"
proof -
  have on: "on_store 0 two_lists" "on_store 1 two_lists" using two_lists_ok(1,2) by (auto simp: on_store_def)
  have c: "contents 0 two_lists = [3, 1]" "contents 1 two_lists = [2, 1]" "ll_Slice 1 two_lists = Some [2, 1]"
    using contents_eq [OF two_lists_ok(1), of 0] contents_eq [OF two_lists_ok(1), of 1] Slice_ok [OF two_lists_ok(1), of 1] two_lists_ok(2-)
    by simp_all
  with linked_queue_stack_contract [of "\<lparr>lq_list = 0, lq_safe = False\<rparr>" two_lists "\<lparr>ls_list = 1, ls_safe = False\<rparr>" 9] on
  show ?thesis by (auto simp: ls_Values_def)
qed

end
