(* ===== verification/Ds_Search.thy ===== *)
theory Ds_Search
  imports Ds_Interfaces "HOL-Library.Monad_Syntax"
begin

text \<open>
  What the search trees and the skip list under \<^verbatim>\<open>src/ds\<close> share: binary trees with the balance data of
  their nodes, the ordered association list a container stands for, and the contract of a sorted map.
  The contract is proved to determine every answer of every sequence of calls; each container's theory
  interprets it. An operation answers \<open>None\<close> where the code would dereference a nil pointer.
\<close>

section \<open>Ordered association lists\<close>

definition ascending :: "('k \<Rightarrow> 'k \<Rightarrow> int) \<Rightarrow> ('k \<times> 'v) list \<Rightarrow> bool" where
  "ascending cmp = sorted_wrt (\<lambda>a b. cmp (fst a) (fst b) < 0)"

text \<open>
  The flag says whether a value put under an equal key also replaces the key that was there: keys that
  compare equal need not be the same.
\<close>

fun ins_list :: "('k \<Rightarrow> 'k \<Rightarrow> int) \<Rightarrow> bool \<Rightarrow> 'k \<Rightarrow> 'v \<Rightarrow> ('k \<times> 'v) list \<Rightarrow> ('k \<times> 'v) list" where
  "ins_list cmp rekey k v [] = [(k, v)]"
| "ins_list cmp rekey k v ((a, b) # xs) =
     (if cmp k a < 0 then (k, v) # (a, b) # xs
      else if cmp k a = 0 then (if rekey then k else a, v) # xs
      else (a, b) # ins_list cmp rekey k v xs)"

fun del_list :: "('k \<Rightarrow> 'k \<Rightarrow> int) \<Rightarrow> 'k \<Rightarrow> ('k \<times> 'v) list \<Rightarrow> ('k \<times> 'v) list" where
  "del_list cmp k [] = []"
| "del_list cmp k ((a, b) # xs) = (if cmp k a = 0 then xs else (a, b) # del_list cmp k xs)"

fun get_list :: "('k \<Rightarrow> 'k \<Rightarrow> int) \<Rightarrow> 'k \<Rightarrow> ('k \<times> 'v) list \<Rightarrow> 'v option" where
  "get_list cmp k [] = None"
| "get_list cmp k ((a, b) # xs) = (if cmp k a = 0 then Some b else get_list cmp k xs)"

text \<open>The last entry not above a key, and the first not below it.\<close>

definition floor_list :: "('k \<Rightarrow> 'k \<Rightarrow> int) \<Rightarrow> 'k \<Rightarrow> ('k \<times> 'v) list \<Rightarrow> ('k \<times> 'v) option" where
  "floor_list cmp k xs =
     (let ys = filter (\<lambda>e. cmp (fst e) k \<le> 0) xs in if ys = [] then None else Some (last ys))"

definition ceiling_list :: "('k \<Rightarrow> 'k \<Rightarrow> int) \<Rightarrow> 'k \<Rightarrow> ('k \<times> 'v) list \<Rightarrow> ('k \<times> 'v) option" where
  "ceiling_list cmp k xs =
     (case filter (\<lambda>e. 0 \<le> cmp (fst e) k) xs of [] \<Rightarrow> None | y # _ \<Rightarrow> Some y)"

lemma ascending_append:
  "ascending cmp (xs @ ys) \<longleftrightarrow> ascending cmp xs \<and> ascending cmp ys \<and> (\<forall>x\<in>set xs. \<forall>y\<in>set ys. cmp (fst x) (fst y) < 0)"
  by (auto simp: ascending_def sorted_wrt_append)

lemma ascending_simps [simp]:
  "ascending cmp []" "ascending cmp (x # xs) \<longleftrightarrow> (\<forall>y\<in>set xs. cmp (fst x) (fst y) < 0) \<and> ascending cmp xs"
  by (simp_all add: ascending_def)

context comparator
begin

lemma cmp_self [simp]: "cmp a a = 0"
  using cmp_sign [of a a] by linarith

lemma cmp_zero_sym: "cmp a b = 0 \<longleftrightarrow> cmp b a = 0"
  using cmp_sign [of a b] cmp_sign [of b a] by linarith

lemma cmp_less_trans': "cmp a b \<le> 0 \<Longrightarrow> cmp b c < 0 \<Longrightarrow> cmp a c < 0"
  using cmp_trans [of a b c] cmp_trans [of c a b] cmp_ge cmp_sign by (metis linorder_not_less)

lemma cmp_less_eq_trans: "cmp a b < 0 \<Longrightarrow> cmp b c = 0 \<Longrightarrow> cmp a c < 0" "cmp a b = 0 \<Longrightarrow> cmp b c < 0 \<Longrightarrow> cmp a c < 0"
  using cmp_less_trans [of a b c] cmp_less_trans' [of a b c] by auto

text \<open>A list that holds an entry in the middle: the operation goes to the side the key belongs to.\<close>

lemma ins_list_less:
  "ascending cmp (xs @ (a, b) # ys) \<Longrightarrow> cmp k a < 0 \<Longrightarrow> ins_list cmp r k v (xs @ (a, b) # ys) = ins_list cmp r k v xs @ (a, b) # ys"
  by (induction xs) auto

lemma below_not_equal: "cmp a c < 0 \<Longrightarrow> cmp k c = 0 \<Longrightarrow> 0 < cmp k a"
  using cmp_less_eq_trans(1) [of a c k] cmp_zero_sym cmp_sign by metis

lemma below_above: "cmp a c < 0 \<Longrightarrow> 0 < cmp k c \<Longrightarrow> 0 < cmp k a"
  using cmp_less_trans' [of a c k] cmp_sign by (metis less_le)

lemma ins_list_equal:
  "ascending cmp (xs @ (a, b) # ys) \<Longrightarrow> cmp k a = 0 \<Longrightarrow> ins_list cmp r k v (xs @ (a, b) # ys) = xs @ (if r then k else a, v) # ys"
proof (induction xs)
  case (Cons x xs)
  have "0 < cmp k (fst x)" by (rule below_not_equal [of _ a]) (use Cons.prems in \<open>auto simp: ascending_append\<close>)
  with Cons show ?case by (cases x) auto
qed simp

lemma ins_list_greater:
  "ascending cmp (xs @ (a, b) # ys) \<Longrightarrow> 0 < cmp k a \<Longrightarrow> ins_list cmp r k v (xs @ (a, b) # ys) = xs @ (a, b) # ins_list cmp r k v ys"
proof (induction xs)
  case (Cons x xs)
  have "0 < cmp k (fst x)" by (rule below_above [of _ a]) (use Cons.prems in \<open>auto simp: ascending_append\<close>)
  with Cons show ?case by (cases x) auto
qed simp

lemma del_list_absent: "(\<forall>e\<in>set ys. cmp k (fst e) \<noteq> 0) \<Longrightarrow> del_list cmp k ys = ys"
  by (induction ys) auto

lemma del_list_append:
  "del_list cmp k (xs @ ys) = (if \<exists>e\<in>set xs. cmp k (fst e) = 0 then del_list cmp k xs @ ys else xs @ del_list cmp k ys)"
  by (induction xs) force+

lemma get_list_append:
  "get_list cmp k (xs @ ys) = (if \<exists>e\<in>set xs. cmp k (fst e) = 0 then get_list cmp k xs else get_list cmp k ys)"
  by (induction xs) force+

lemma above_none:
  assumes "ascending cmp ((a, b) # ys)" "cmp k a \<le> 0"
  shows "\<forall>e\<in>set ys. cmp k (fst e) \<noteq> 0"
proof
  fix e assume "e \<in> set ys"
  then have "cmp a (fst e) < 0" using assms(1) by simp
  then show "cmp k (fst e) \<noteq> 0" using cmp_less_trans' [OF assms(2), of "fst e"] by simp
qed

lemma below_none:
  assumes "ascending cmp (xs @ (a, b) # ys)" "0 \<le> cmp k a"
  shows "\<forall>e\<in>set xs. cmp k (fst e) \<noteq> 0"
proof
  fix e assume "e \<in> set xs"
  then have "cmp (fst e) a < 0" using assms(1) by (auto simp: ascending_append)
  then show "cmp k (fst e) \<noteq> 0" using below_not_equal [of "fst e" a k] below_above [of "fst e" a k] assms(2) by fastforce
qed

lemma del_list_less:
  "ascending cmp (xs @ (a, b) # ys) \<Longrightarrow> cmp k a < 0 \<Longrightarrow> del_list cmp k (xs @ (a, b) # ys) = del_list cmp k xs @ (a, b) # ys"
  using above_none [of a b ys k] by (auto simp: del_list_append del_list_absent ascending_append)

lemma del_list_equal:
  "ascending cmp (xs @ (a, b) # ys) \<Longrightarrow> cmp k a = 0 \<Longrightarrow> del_list cmp k (xs @ (a, b) # ys) = xs @ ys"
  using below_none [of xs a b ys k] by (auto simp: del_list_append)

lemma del_list_greater:
  "ascending cmp (xs @ (a, b) # ys) \<Longrightarrow> 0 < cmp k a \<Longrightarrow> del_list cmp k (xs @ (a, b) # ys) = xs @ (a, b) # del_list cmp k ys"
  using below_none [of xs a b ys k] by (auto simp: del_list_append)

lemma get_list_absent: "\<forall>e\<in>set zs. cmp k (fst e) \<noteq> 0 \<Longrightarrow> get_list cmp k zs = None"
  by (induction zs) auto

lemma get_list_less:
  assumes "ascending cmp (xs @ (a, b) # ys)" "cmp k a < 0"
  shows "get_list cmp k (xs @ (a, b) # ys) = get_list cmp k xs"
proof -
  have "\<forall>e\<in>set ys. cmp k (fst e) \<noteq> 0" using assms by (intro above_none) (auto simp: ascending_append)
  then show ?thesis
    using assms(2) by (cases "\<forall>e\<in>set xs. cmp k (fst e) \<noteq> 0") (auto simp: get_list_append get_list_absent)
qed

lemma get_list_equal:
  "ascending cmp (xs @ (a, b) # ys) \<Longrightarrow> cmp k a = 0 \<Longrightarrow> get_list cmp k (xs @ (a, b) # ys) = Some b"
  using below_none [of xs a b ys k] by (auto simp: get_list_append)

lemma get_list_greater:
  "ascending cmp (xs @ (a, b) # ys) \<Longrightarrow> 0 < cmp k a \<Longrightarrow> get_list cmp k (xs @ (a, b) # ys) = get_list cmp k ys"
  using below_none [of xs a b ys k] by (auto simp: get_list_append)

lemmas ins_list_simps = ins_list_less ins_list_equal ins_list_greater
lemmas del_list_simps = del_list_less del_list_equal del_list_greater
lemmas get_list_simps = get_list_less get_list_equal get_list_greater

lemma fst_ins_list: "e \<in> set (ins_list cmp r k v xs) \<Longrightarrow> fst e = k \<or> e \<in> set xs \<or> (\<exists>b. (fst e, b) \<in> set xs)"
  by (induction cmp r k v xs rule: ins_list.induct) (auto split: if_splits)

lemma ascending_ins_list: "ascending cmp xs \<Longrightarrow> ascending cmp (ins_list cmp r k v xs)"
proof (induction xs)
  case (Cons x xs)
  obtain a b where x: "x = (a, b)" by fastforce
  have up: "cmp a (fst e) < 0" if "e \<in> set (ins_list cmp r k v xs)" "0 < cmp k a" for e
    using fst_ins_list [OF that(1)] that(2) Cons.prems x cmp_sign [of a k] by auto
  show ?case
    using Cons x up cmp_less_trans [of k a] cmp_less_eq_trans(2) [of k a]
    by (auto simp: linorder_neq_iff intro: less_imp_le)
qed simp

lemma del_list_same: "get_list cmp k xs = None \<Longrightarrow> del_list cmp k xs = xs"
  by (induction xs) (auto split: if_splits)

lemma set_del_list: "set (del_list cmp k xs) \<subseteq> set xs"
  by (induction xs) (auto split: if_splits)

lemma ascending_del_list: "ascending cmp xs \<Longrightarrow> ascending cmp (del_list cmp k xs)"
  using set_del_list by (induction xs) (fastforce)+

lemma length_ins_list:
  "ascending cmp xs \<Longrightarrow> length (ins_list cmp r k v xs) = length xs + (if get_list cmp k xs = None then 1 else 0)"
proof (induction xs)
  case (Cons x xs)
  obtain a b where x: "x = (a, b)" by fastforce
  have "get_list cmp k xs = None" if "cmp k a < 0"
    using get_list_less [of "[]" a b xs k] that Cons.prems x by auto
  with Cons x show ?case by auto
qed simp

lemma length_del_list: "length (del_list cmp k xs) = length xs - (if get_list cmp k xs = None then 0 else 1)"
proof (induction xs)
  case (Cons x xs)
  have "xs \<noteq> []" if "get_list cmp k xs \<noteq> None" using that by auto
  with Cons show ?case by (cases x) (auto simp: Suc_diff_Suc)
qed simp

end

section \<open>The contract of a sorted map\<close>

datatype ('k, 'v) map_op = OpPut 'k 'v | OpGet 'k | OpDelete 'k | OpClear

text \<open>One call, with the value it answers with, and a sequence of calls.\<close>

fun map_step ::
  "('k \<Rightarrow> 'v \<Rightarrow> 'm \<Rightarrow> 'm option) \<Rightarrow> ('k \<Rightarrow> 'm \<Rightarrow> ('v option \<times> 'm) option) \<Rightarrow> ('k \<Rightarrow> 'm \<Rightarrow> ('v option \<times> 'm) option) \<Rightarrow> ('m \<Rightarrow> 'm) \<Rightarrow>
   ('k, 'v) map_op \<Rightarrow> 'm \<Rightarrow> ('v option \<times> 'm) option" where
  "map_step put get del clr (OpPut k v) m = map_option (Pair None) (put k v m)"
| "map_step put get del clr (OpGet k) m = get k m"
| "map_step put get del clr (OpDelete k) m = del k m"
| "map_step put get del clr OpClear m = Some (None, clr m)"

fun map_run :: "(('k, 'v) map_op \<Rightarrow> 'm \<Rightarrow> ('v option \<times> 'm) option) \<Rightarrow> ('k, 'v) map_op list \<Rightarrow> 'm \<Rightarrow> ('v option list \<times> 'm) option" where
  "map_run step [] m = Some ([], m)"
| "map_run step (c # cs) m =
     do { (a, m') \<leftarrow> step c m; (as, m'') \<leftarrow> map_run step cs m'; Some (a # as, m'') }"

text \<open>The same calls on the ordered association list, where a value put under an equal key takes its place.\<close>

fun spec_step :: "('k \<Rightarrow> 'k \<Rightarrow> int) \<Rightarrow> bool \<Rightarrow> ('k, 'v) map_op \<Rightarrow> ('k \<times> 'v) list \<Rightarrow> 'v option \<times> ('k \<times> 'v) list" where
  "spec_step cmp rekey (OpPut k v) xs = (None, ins_list cmp rekey k v xs)"
| "spec_step cmp rekey (OpGet k) xs = (get_list cmp k xs, xs)"
| "spec_step cmp rekey (OpDelete k) xs = (get_list cmp k xs, del_list cmp k xs)"
| "spec_step cmp rekey OpClear xs = (None, [])"

fun spec_run :: "('k \<Rightarrow> 'k \<Rightarrow> int) \<Rightarrow> bool \<Rightarrow> ('k, 'v) map_op list \<Rightarrow> ('k \<times> 'v) list \<Rightarrow> 'v option list \<times> ('k \<times> 'v) list" where
  "spec_run cmp rekey [] xs = ([], xs)"
| "spec_run cmp rekey (c # cs) xs =
     (let (a, xs') = spec_step cmp rekey c xs; (as, xs'') = spec_run cmp rekey cs xs' in (a # as, xs''))"

locale sorted_map = comparator cmp for cmp :: "'k \<Rightarrow> 'k \<Rightarrow> int" +
  fixes rekey :: bool and ok :: "'m \<Rightarrow> bool" and contents :: "'m \<Rightarrow> ('k \<times> 'v) list" and size_of :: "'m \<Rightarrow> int"
    and put :: "'k \<Rightarrow> 'v \<Rightarrow> 'm \<Rightarrow> 'm option"
    and get :: "'k \<Rightarrow> 'm \<Rightarrow> ('v option \<times> 'm) option"
    and del :: "'k \<Rightarrow> 'm \<Rightarrow> ('v option \<times> 'm) option"
    and clr :: "'m \<Rightarrow> 'm"
  assumes sorted: "ok m \<Longrightarrow> ascending cmp (contents m)"
    and sized: "ok m \<Longrightarrow> size_of m = int (length (contents m))"
    and put_law: "ok m \<Longrightarrow> \<exists>m'. put k v m = Some m' \<and> ok m' \<and> contents m' = ins_list cmp rekey k v (contents m)"
    and get_law: "ok m \<Longrightarrow> \<exists>m'. get k m = Some (get_list cmp k (contents m), m') \<and> ok m' \<and> contents m' = contents m"
    and del_law: "ok m \<Longrightarrow> \<exists>m'. del k m = Some (get_list cmp k (contents m), m') \<and> ok m' \<and> contents m' = del_list cmp k (contents m)"
    and clr_law: "ok m \<Longrightarrow> ok (clr m) \<and> contents (clr m) = []"
begin

lemma step_spec:
  "ok m \<Longrightarrow> \<exists>m'. map_step put get del clr c m = Some (fst (spec_step cmp rekey c (contents m)), m') \<and> ok m' \<and>
     contents m' = snd (spec_step cmp rekey c (contents m))"
  using put_law get_law del_law clr_law by (cases c) fastforce+

text \<open>Every sequence of calls returns, answers like the association list and leaves what it leaves.\<close>

lemma run_spec:
  "ok m \<Longrightarrow> \<exists>m'. map_run (map_step put get del clr) cs m = Some (fst (spec_run cmp rekey cs (contents m)), m') \<and> ok m' \<and>
     contents m' = snd (spec_run cmp rekey cs (contents m)) \<and> size_of m' = int (length (contents m')) \<and> ascending cmp (contents m')"
proof (induction cs arbitrary: m)
  case Nil
  then show ?case using sorted sized by simp
next
  case (Cons c cs)
  obtain m1 where m1: "map_step put get del clr c m = Some (fst (spec_step cmp rekey c (contents m)), m1)" "ok m1"
    "contents m1 = snd (spec_step cmp rekey c (contents m))" using step_spec [OF Cons.prems, of c] by blast
  from Cons.IH [OF m1(2)] show ?case using m1 by (auto simp: split_beta)
qed

text \<open>What the association list promises of a get after a put and after a delete.\<close>

lemma get_put:
  assumes "ok m" "put k v m = Some m'" "get j m' = Some (a, m'')"
  shows "a = (if cmp j k = 0 then Some v else get_list cmp j (contents m))"
proof -
  have c: "contents m' = ins_list cmp rekey k v (contents m)" "ok m'" using put_law [OF assms(1), of k v] assms(2) by auto
  have "get_list cmp j (ins_list cmp rekey k v xs) = (if cmp j k = 0 then Some v else get_list cmp j xs)" if "ascending cmp xs" for xs
    using that
  proof (induction xs)
    case (Cons x xs)
    obtain a b where x: "x = (a, b)" by fastforce
    have e: "cmp j a = 0 \<longleftrightarrow> cmp j k = 0" if "cmp k a = 0" using that cmp_eq_trans cmp_zero_sym by metis
    have "cmp j a \<noteq> 0" if "cmp j k = 0" "cmp k a \<noteq> 0" using that cmp_eq_trans cmp_zero_sym by metis
    then show ?case using Cons x e by auto
  qed simp
  then show ?thesis using get_law [OF c(2), of j] assms(1,3) c sorted by auto
qed

lemma get_del:
  assumes "ok m" "del k m = Some (b, m')" "get j m' = Some (a, m'')"
  shows "a = (if cmp j k = 0 then None else get_list cmp j (contents m))"
proof -
  have c: "contents m' = del_list cmp k (contents m)" "ok m'" using del_law [OF assms(1), of k] assms(2) by auto
  have "get_list cmp j (del_list cmp k xs) = (if cmp j k = 0 then None else get_list cmp j xs)" if "ascending cmp xs"
    for xs :: "('k \<times> 'v) list"
    using that
  proof (induction xs)
    case (Cons x xs)
    obtain a b where x: "x = (a, b)" by fastforce
    have "get_list cmp j xs = None" if "cmp j a = 0" using above_none [of a b xs j] that Cons.prems x get_list_absent by auto
    moreover have "cmp j a = 0 \<longleftrightarrow> cmp j k = 0" if "cmp k a = 0" using that cmp_eq_trans cmp_zero_sym by metis
    moreover have "cmp j a \<noteq> 0" if "cmp j k = 0" "cmp k a \<noteq> 0" using that cmp_eq_trans cmp_zero_sym by metis
    ultimately show ?case using Cons x by auto
  qed simp
  then show ?thesis using get_law [OF c(2), of j] assms(1,3) c sorted by auto
qed

end

section \<open>Binary trees\<close>

datatype ('k, 'v, 'i) bst = Tip | Node "('k, 'v, 'i) bst" 'k 'v 'i "('k, 'v, 'i) bst"

primrec inorder :: "('k, 'v, 'i) bst \<Rightarrow> ('k \<times> 'v) list" where
  "inorder Tip = []"
| "inorder (Node l k v i r) = inorder l @ (k, v) # inorder r"

primrec height :: "('k, 'v, 'i) bst \<Rightarrow> nat" where
  "height Tip = 0"
| "height (Node l k v i r) = Suc (max (height l) (height r))"

text \<open>
  A traversal with a callback, which is given the state of its closure and answers whether to go on.
\<close>

type_synonym ('k, 'v, 's) visit = "'k \<Rightarrow> 'v \<Rightarrow> 's \<Rightarrow> bool \<times> 's"

fun visit_list :: "('k, 'v, 's) visit \<Rightarrow> ('k \<times> 'v) list \<Rightarrow> 's \<Rightarrow> bool \<times> 's" where
  "visit_list fn [] s = (True, s)"
| "visit_list fn ((k, v) # es) s = (let (go, s') = fn k v s in if go then visit_list fn es s' else (False, s'))"

lemma visit_list_append:
  "visit_list fn (xs @ ys) s = (let (go, s') = visit_list fn xs s in if go then visit_list fn ys s' else (False, s'))"
  by (induction fn xs s rule: visit_list.induct) (auto split: prod.split)

text \<open>The loops the trees have in common. The function says where a key lies from the key of a node.\<close>

primrec lookup_loop :: "('k \<Rightarrow> int) \<Rightarrow> ('k, 'v, 'i) bst \<Rightarrow> 'v option" where
  "lookup_loop side Tip = None"
| "lookup_loop side (Node l k v i r) = (if side k = 0 then Some v else if side k < 0 then lookup_loop side l else lookup_loop side r)"

primrec floor_loop :: "('k \<Rightarrow> int) \<Rightarrow> ('k, 'v, 'i) bst \<Rightarrow> ('k \<times> 'v) option \<Rightarrow> ('k \<times> 'v) option" where
  "floor_loop side Tip best = best"
| "floor_loop side (Node l k v i r) best =
     (if side k = 0 then Some (k, v) else if side k < 0 then floor_loop side l best else floor_loop side r (Some (k, v)))"

primrec ceiling_loop :: "('k \<Rightarrow> int) \<Rightarrow> ('k, 'v, 'i) bst \<Rightarrow> ('k \<times> 'v) option \<Rightarrow> ('k \<times> 'v) option" where
  "ceiling_loop side Tip best = best"
| "ceiling_loop side (Node l k v i r) best =
     (if side k = 0 then Some (k, v) else if side k < 0 then ceiling_loop side l (Some (k, v)) else ceiling_loop side r best)"

primrec leftmost :: "('k, 'v, 'i) bst \<Rightarrow> ('k \<times> 'v) option" where
  "leftmost Tip = None"
| "leftmost (Node l k v i r) = (if l = Tip then Some (k, v) else leftmost l)"

primrec rightmost :: "('k, 'v, 'i) bst \<Rightarrow> ('k \<times> 'v) option" where
  "rightmost Tip = None"
| "rightmost (Node l k v i r) = (if r = Tip then Some (k, v) else rightmost r)"

primrec walk_pre :: "('k, 'v, 's) visit \<Rightarrow> ('k, 'v, 'i) bst \<Rightarrow> 's \<Rightarrow> bool \<times> 's" where
  "walk_pre fn Tip s = (True, s)"
| "walk_pre fn (Node l k v i r) s =
     (let (go, s) = fn k v s in if \<not> go then (False, s) else
      let (go, s) = walk_pre fn l s in if \<not> go then (False, s) else walk_pre fn r s)"

primrec walk_in :: "('k, 'v, 's) visit \<Rightarrow> ('k, 'v, 'i) bst \<Rightarrow> 's \<Rightarrow> bool \<times> 's" where
  "walk_in fn Tip s = (True, s)"
| "walk_in fn (Node l k v i r) s =
     (let (go, s) = walk_in fn l s in if \<not> go then (False, s) else
      let (go, s) = fn k v s in if \<not> go then (False, s) else walk_in fn r s)"

primrec walk_post :: "('k, 'v, 's) visit \<Rightarrow> ('k, 'v, 'i) bst \<Rightarrow> 's \<Rightarrow> bool \<times> 's" where
  "walk_post fn Tip s = (True, s)"
| "walk_post fn (Node l k v i r) s =
     (let (go, s) = walk_post fn l s in if \<not> go then (False, s) else
      let (go, s) = walk_post fn r s in if \<not> go then (False, s) else fn k v s)"

text \<open>The queue of a level-order walk holds the nodes that are still to be visited.\<close>

primrec nodes :: "('k, 'v, 'i) bst \<Rightarrow> nat" where
  "nodes Tip = 0"
| "nodes (Node l k v i r) = Suc (nodes l + nodes r)"

definition present :: "('k, 'v, 'i) bst \<Rightarrow> ('k, 'v, 'i) bst list" where
  "present t = (if t = Tip then [] else [t])"

function walk_level :: "('k, 'v, 's) visit \<Rightarrow> ('k, 'v, 'i) bst list \<Rightarrow> 's \<Rightarrow> 's" where
  "walk_level fn [] s = s"
| "walk_level fn (Tip # queue) s = walk_level fn queue s"
| "walk_level fn (Node l k v i r # queue) s =
     (let (go, s) = fn k v s in if \<not> go then s else walk_level fn (queue @ present l @ present r) s)"
  by pat_completeness auto
termination
  by (relation "measure (\<lambda>(fn, q, s). length q + 2 * sum_list (map nodes q))") (auto simp: present_def)

section \<open>What the loops compute\<close>

primrec preorder :: "('k, 'v, 'i) bst \<Rightarrow> ('k \<times> 'v) list" where
  "preorder Tip = []"
| "preorder (Node l k v i r) = (k, v) # preorder l @ preorder r"

primrec postorder :: "('k, 'v, 'i) bst \<Rightarrow> ('k \<times> 'v) list" where
  "postorder Tip = []"
| "postorder (Node l k v i r) = postorder l @ postorder r @ [(k, v)]"

function levelorder :: "('k, 'v, 'i) bst list \<Rightarrow> ('k \<times> 'v) list" where
  "levelorder [] = []"
| "levelorder (Tip # queue) = levelorder queue"
| "levelorder (Node l k v i r # queue) = (k, v) # levelorder (queue @ present l @ present r)"
  by pat_completeness auto
termination
  by (relation "measure (\<lambda>q. length q + 2 * sum_list (map nodes q))") (auto simp: present_def)

lemma walks:
  "walk_pre fn t s = visit_list fn (preorder t) s"
  "walk_in fn t s = visit_list fn (inorder t) s"
  "walk_post fn t s = visit_list fn (postorder t) s"
  by (induction t arbitrary: s) (auto simp: visit_list_append split: prod.split)

lemma walk_level_visits: "walk_level fn q s = snd (visit_list fn (levelorder q) s)"
  by (induction fn q s rule: walk_level.induct) (auto split: prod.split)

lemma mset_orders: "mset (preorder t) = mset (inorder t)" "mset (postorder t) = mset (inorder t)"
  by (induction t) auto

lemma mset_levelorder: "mset (levelorder q) = (\<Sum>t\<leftarrow>q. mset (inorder t))"
  by (induction q rule: levelorder.induct) (auto simp: present_def)

lemma length_inorder: "length (inorder t) = nodes t"
  by (induction t) auto

lemma inorder_eq_Nil [simp]: "inorder t = [] \<longleftrightarrow> t = Tip"
  by (cases t) auto

lemma leftmost_inorder: "leftmost t = (case inorder t of [] \<Rightarrow> None | e # _ \<Rightarrow> Some e)"
  by (induction t) (auto split: list.splits)

lemma rightmost_inorder: "rightmost t = (if t = Tip then None else Some (last (inorder t)))"
  by (induction t) auto

lemma visit_collect:
  "visit_list (\<lambda>k v acc. (True, acc @ [k])) es acc = (True, acc @ map fst es)"
  "visit_list (\<lambda>k v acc. (True, acc @ [v])) es acc' = (True, acc' @ map snd es)"
  by (induction es arbitrary: acc acc') auto

context comparator
begin

definition agrees :: "'e \<Rightarrow> ('e \<Rightarrow> int) \<Rightarrow> bool" where
  "agrees key side \<longleftrightarrow> (\<forall>k. (side k = 0 \<longleftrightarrow> cmp key k = 0) \<and> (side k < 0 \<longleftrightarrow> cmp key k < 0))"

lemma agrees_ways: "agrees key (cmp key)" "agrees key (\<lambda>k. - cmp k key)"
  using cmp_zero_sym cmp_sign by (auto simp: agrees_def)

lemma lookup_loop_get: "agrees key side \<Longrightarrow> ascending cmp (inorder t) \<Longrightarrow> lookup_loop side t = get_list cmp key (inorder t)"
proof (induction t)
  case (Node l k v i r)
  then have "ascending cmp (inorder l)" "ascending cmp (inorder r)" by (simp_all add: ascending_append)
  with Node show ?case by (auto simp: agrees_def get_list_simps not_less)
qed simp

lemma floor_list_append:
  "floor_list cmp key (xs @ ys) = (case floor_list cmp key ys of None \<Rightarrow> floor_list cmp key xs | Some e \<Rightarrow> Some e)"
  by (auto simp: floor_list_def Let_def)

lemma ceiling_list_append:
  "ceiling_list cmp key (xs @ ys) = (case ceiling_list cmp key xs of None \<Rightarrow> ceiling_list cmp key ys | Some e \<Rightarrow> Some e)"
  by (auto simp: ceiling_list_def split: list.split)

lemma floor_none: "\<forall>e\<in>set xs. cmp key (fst e) < 0 \<Longrightarrow> floor_list cmp key xs = None"
  using cmp_sign by (auto simp: floor_list_def Let_def filter_empty_conv not_le)

lemma ceiling_none: "\<forall>e\<in>set xs. cmp (fst e) key < 0 \<Longrightarrow> ceiling_list cmp key xs = None"
  by (auto simp: ceiling_list_def split: list.split) (metis filter_eq_Cons_iff fst_conv in_set_conv_decomp not_le)

lemma floor_loop_list:
  "agrees key side \<Longrightarrow> ascending cmp (inorder t) \<Longrightarrow>
   floor_loop side t best = (case floor_list cmp key (inorder t) of None \<Rightarrow> best | Some e \<Rightarrow> Some e)"
proof (induction t arbitrary: best)
  case (Node l k v i r)
  have s: "ascending cmp (inorder l)" "ascending cmp (inorder r)" "\<forall>e\<in>set (inorder r). cmp k (fst e) < 0"
    using Node.prems by (auto simp: ascending_append)
  have none: "floor_list cmp key (inorder r) = None" if "cmp key k \<le> 0"
    using s(3) cmp_less_trans' [OF that] by (intro floor_none) blast
  have one: "floor_list cmp key [(k, v)] = (if cmp key k < 0 then None else Some (k, v))"
    using cmp_sign [of key k] by (auto simp: floor_list_def)
  have "floor_list cmp key (inorder (Node l k v i r)) =
      (case floor_list cmp key (inorder r) of Some e \<Rightarrow> Some e
       | None \<Rightarrow> (if cmp key k < 0 then floor_list cmp key (inorder l) else Some (k, v)))"
    using floor_list_append [of key "inorder l" "[(k, v)] @ inorder r"] floor_list_append [of key "[(k, v)]" "inorder r"] one
    by (auto split: option.splits)
  with Node.IH [OF Node.prems(1)] s none Node.prems(1) show ?case
    by (auto simp: agrees_def split: option.splits)
qed (simp add: floor_list_def)

lemma ceiling_loop_list:
  "agrees key side \<Longrightarrow> ascending cmp (inorder t) \<Longrightarrow>
   ceiling_loop side t best = (case ceiling_list cmp key (inorder t) of None \<Rightarrow> best | Some e \<Rightarrow> Some e)"
proof (induction t arbitrary: best)
  case (Node l k v i r)
  have s: "ascending cmp (inorder l)" "ascending cmp (inorder r)" "\<forall>e\<in>set (inorder l). cmp (fst e) k < 0"
    using Node.prems by (auto simp: ascending_append)
  have none: "ceiling_list cmp key (inorder l) = None" if "0 \<le> cmp key k"
    using s(3) cmp_less_trans that cmp_ge by (intro ceiling_none) blast
  have one: "ceiling_list cmp key [(k, v)] = (if 0 < cmp key k then None else Some (k, v))"
    using cmp_sign [of k key] by (auto simp: ceiling_list_def)
  have "ceiling_list cmp key (inorder (Node l k v i r)) =
      (case ceiling_list cmp key (inorder l) of Some e \<Rightarrow> Some e
       | None \<Rightarrow> (if 0 < cmp key k then ceiling_list cmp key (inorder r) else Some (k, v)))"
    using ceiling_list_append [of key "inorder l" "[(k, v)] @ inorder r"] ceiling_list_append [of key "[(k, v)]" "inorder r"] one
    by (auto split: option.splits)
  with Node.IH [OF Node.prems(1)] s none Node.prems(1) show ?case
    by (auto simp: agrees_def split: option.splits)
qed (simp add: ceiling_list_def)

end

section \<open>A node and its way to the root\<close>

text \<open>
  Code that follows parent pointers works on a node in its place: the node, and for each node above it
  which child the way comes from, with the rest of that node. \<open>replace\<close> puts a subtree back.
\<close>

datatype ('k, 'v, 'i) frame = LeftOf 'k 'v 'i "('k, 'v, 'i) bst" | RightOf "('k, 'v, 'i) bst" 'k 'v 'i

fun up :: "('k, 'v, 'i) bst \<Rightarrow> ('k, 'v, 'i) frame \<Rightarrow> ('k, 'v, 'i) bst" where
  "up t (LeftOf k v i r) = Node t k v i r"
| "up t (RightOf l k v i) = Node l k v i t"

fun plug :: "('k, 'v, 'i) bst \<Rightarrow> ('k, 'v, 'i) frame list \<Rightarrow> ('k, 'v, 'i) bst" where
  "plug t [] = t"
| "plug t (f # path) = plug (up t f) path"

fun sibling :: "('k, 'v, 'i) frame \<Rightarrow> ('k, 'v, 'i) bst" where
  "sibling (LeftOf k v i r) = r"
| "sibling (RightOf l k v i) = l"

text \<open>The entries before and after the place.\<close>

fun entries_before :: "('k, 'v, 'i) frame list \<Rightarrow> ('k \<times> 'v) list" where
  "entries_before [] = []"
| "entries_before (LeftOf k v i r # path) = entries_before path"
| "entries_before (RightOf l k v i # path) = entries_before path @ inorder l @ [(k, v)]"

fun entries_after :: "('k, 'v, 'i) frame list \<Rightarrow> ('k \<times> 'v) list" where
  "entries_after [] = []"
| "entries_after (LeftOf k v i r # path) = (k, v) # inorder r @ entries_after path"
| "entries_after (RightOf l k v i # path) = entries_after path"

lemma inorder_plug: "inorder (plug t path) = entries_before path @ inorder t @ entries_after path"
proof (induction path arbitrary: t)
  case (Cons f path)
  then show ?case by (cases f) simp_all
qed simp

text \<open>The place of a key, if the tree has it.\<close>

fun locate ::
  "('k \<Rightarrow> int) \<Rightarrow> ('k, 'v, 'i) bst \<Rightarrow> ('k, 'v, 'i) frame list \<Rightarrow> (('k, 'v, 'i) bst \<times> ('k, 'v, 'i) frame list) option" where
  "locate side Tip path = None"
| "locate side (Node l k v i r) path =
     (if side k = 0 then Some (Node l k v i r, path)
      else if side k < 0 then locate side l (LeftOf k v i r # path)
      else locate side r (RightOf l k v i # path))"

text \<open>The place of the greatest entry of a subtree.\<close>

fun max_place :: "('k, 'v, 'i) bst \<Rightarrow> ('k, 'v, 'i) frame list \<Rightarrow> ('k, 'v, 'i) bst \<times> ('k, 'v, 'i) frame list" where
  "max_place Tip path = (Tip, path)"
| "max_place (Node l k v i r) path = (if r = Tip then (Node l k v i r, path) else max_place r (RightOf l k v i # path))"

lemma locate_plug: "locate side t path = Some (n, path') \<Longrightarrow> n \<noteq> Tip \<and> plug n path' = plug t path"
  by (induction side t path rule: locate.induct) (auto split: if_splits)

lemma max_place_plug: "max_place t path = (n, path') \<Longrightarrow> plug n path' = plug t path \<and> (t \<noteq> Tip \<longrightarrow> n \<noteq> Tip)"
  by (induction t path rule: max_place.induct) (auto split: if_splits)

context comparator
begin

lemma agrees_cases:
  assumes "agrees key side"
  obtains "side k = 0" "cmp key k = 0" | "side k < 0" "cmp key k < 0" | "0 < side k" "0 < cmp key k"
  using assms unfolding agrees_def by (metis linorder_neqE)

lemma locate_entries:
  "agrees key side \<Longrightarrow> ascending cmp (inorder t) \<Longrightarrow>
   (case locate side t path of
      None \<Rightarrow> get_list cmp key (inorder t) = None
    | Some (n, path') \<Rightarrow> \<exists>l k v i r. n = Node l k v i r \<and> cmp key k = 0 \<and> get_list cmp key (inorder t) = Some v)"
proof (induction t arbitrary: path)
  case (Node l k v i r)
  have s: "ascending cmp (inorder l)" "ascending cmp (inorder r)" "ascending cmp (inorder l @ (k, v) # inorder r)"
    using Node.prems(2) by (simp_all add: ascending_append)
  from Node.prems(1) show ?case
  proof (cases rule: agrees_cases [of _ _ k])
    case 1
    then show ?thesis using get_list_equal [OF s(3)] by simp
  next
    case 2
    then show ?thesis using get_list_less [OF s(3)] Node.IH(1) [OF Node.prems(1) s(1), of "LeftOf k v i r # path"] by (auto split: option.splits)
  next
    case 3
    then show ?thesis using get_list_greater [OF s(3)] Node.IH(2) [OF Node.prems(1) s(2), of "RightOf l k v i # path"] by (auto split: option.splits)
  qed
qed simp

end

end
