(* ===== verification/Ds_Avl.thy ===== *)
theory Ds_Avl
  imports Ds_Search
begin

text \<open>
  The AVL tree of \<^verbatim>\<open>src/ds/tree/avltree\<close>: balance factors, rotations by side, insertion and deletion that
  report whether a subtree changed its height. The tree stays balanced, no call dereferences a nil
  child, and it is a sorted map. The parent pointers are kept by the code and read nowhere.
\<close>

section \<open>The tree\<close>

type_synonym ('k, 'v) avlnode = "('k, 'v, int) bst"

record ('k, 'v) avltree =
  avl_root :: "('k, 'v) avlnode"
  avl_cmp :: "'k \<Rightarrow> 'k \<Rightarrow> int"
  avl_size :: int

definition avl_New :: "('k \<Rightarrow> 'k \<Rightarrow> int) \<Rightarrow> ('k, 'v) avltree" where
  "avl_New cmp = \<lparr>avl_root = Tip, avl_cmp = cmp, avl_size = 0\<rparr>"

text \<open>\<open>Children[a]\<close>, read and written.\<close>

fun child :: "int \<Rightarrow> ('k, 'v) avlnode \<Rightarrow> ('k, 'v) avlnode" where
  "child a Tip = Tip"
| "child a (Node l k v b r) = (if a = 0 then l else r)"

fun set_child :: "int \<Rightarrow> ('k, 'v) avlnode \<Rightarrow> ('k, 'v) avlnode \<Rightarrow> ('k, 'v) avlnode" where
  "set_child a t Tip = Tip"
| "set_child a t (Node l k v b r) = (if a = 0 then Node t k v b r else Node l k v b t)"

fun set_b :: "int \<Rightarrow> ('k, 'v) avlnode \<Rightarrow> ('k, 'v) avlnode" where
  "set_b b Tip = Tip"
| "set_b b (Node l k v _ r) = Node l k v b r"

fun bal :: "('k, 'v) avlnode \<Rightarrow> int option" where
  "bal Tip = None"
| "bal (Node l k v b r) = Some b"

section \<open>Rotations\<close>

definition avl_rotate :: "int \<Rightarrow> ('k, 'v) avlnode \<Rightarrow> ('k, 'v) avlnode option" where
  "avl_rotate c s =
     (let a = (c + 1) div 2; r = child a s
      in if s = Tip \<or> r = Tip then None
         else Some (set_child (1 - a) (set_child a (child (1 - a) r) s) r))"

definition singleRotate :: "int \<Rightarrow> ('k, 'v) avlnode \<Rightarrow> ('k, 'v) avlnode option" where
  "singleRotate c s = do { s \<leftarrow> avl_rotate c (set_b 0 s); Some (set_b 0 s) }"

text \<open>After the second rotation \<open>s\<close> is the child of \<open>p\<close> on the other side and \<open>r\<close> the one on its side.\<close>

definition doubleRotate :: "int \<Rightarrow> ('k, 'v) avlnode \<Rightarrow> ('k, 'v) avlnode option" where
  "doubleRotate c s =
     (let a = (c + 1) div 2
      in do {
        r \<leftarrow> avl_rotate (- c) (child a s);
        p \<leftarrow> avl_rotate c (set_child a r s);
        pb \<leftarrow> bal p;
        (let (sb, rb) = (if pb = c then (- c, 0) else if pb = - c then (0, c) else (0, 0))
         in Some (set_b 0 (set_child a (set_b rb (child a p)) (set_child (1 - a) (set_b sb (child (1 - a) p)) p))))
      })"

section \<open>Insertion\<close>

definition rebalancePut :: "int \<Rightarrow> ('k, 'v) avlnode \<Rightarrow> (('k, 'v) avlnode \<times> bool) option" where
  "rebalancePut c s =
     do {
       b \<leftarrow> bal s;
       (if b = 0 then Some (set_b c s, True)
        else if b = - c then Some (set_b 0 s, False)
        else do {
          cb \<leftarrow> bal (child ((c + 1) div 2) s);
          s \<leftarrow> (if cb = c then singleRotate c s else doubleRotate c s);
          Some (s, False)
        })
     }"

text \<open>The subtree, whether the tree has grown by a node, and whether the subtree has grown in height.\<close>

fun avl_put :: "('k \<Rightarrow> 'k \<Rightarrow> int) \<Rightarrow> 'k \<Rightarrow> 'v \<Rightarrow> ('k, 'v) avlnode \<Rightarrow> (('k, 'v) avlnode \<times> bool \<times> bool) option" where
  "avl_put cmp key val Tip = Some (Node Tip key val 0 Tip, True, True)"
| "avl_put cmp key val (Node l k v b r) =
     (let res = cmp key k
      in if res = 0 then Some (Node l key val b r, False, False)
         else if res < 0 then
           do {
             (l', added, fix) \<leftarrow> avl_put cmp key val l;
             (if fix then do { (q, f) \<leftarrow> rebalancePut (- 1) (Node l' k v b r); Some (q, added, f) }
              else Some (Node l' k v b r, added, False))
           }
         else
           do {
             (r', added, fix) \<leftarrow> avl_put cmp key val r;
             (if fix then do { (q, f) \<leftarrow> rebalancePut 1 (Node l k v b r'); Some (q, added, f) }
              else Some (Node l k v b r', added, False))
           })"

definition avl_Put :: "'k \<Rightarrow> 'v \<Rightarrow> ('k, 'v) avltree \<Rightarrow> ('k, 'v) avltree option" where
  "avl_Put key val t =
     do {
       (root, added, _) \<leftarrow> avl_put (avl_cmp t) key val (avl_root t);
       Some (t\<lparr>avl_root := root, avl_size := avl_size t + (if added then 1 else 0)\<rparr>)
     }"

section \<open>Deletion\<close>

definition rebalanceDelete :: "int \<Rightarrow> ('k, 'v) avlnode \<Rightarrow> (('k, 'v) avlnode \<times> bool) option" where
  "rebalanceDelete c s =
     do {
       b \<leftarrow> bal s;
       (if b = 0 then Some (set_b c s, False)
        else if b = - c then Some (set_b 0 s, True)
        else do {
          cb \<leftarrow> bal (child ((c + 1) div 2) s);
          (if cb = 0 then do { s \<leftarrow> avl_rotate c s; Some (set_b (- c) s, False) }
           else do {
             s \<leftarrow> (if cb = c then singleRotate c s else doubleRotate c s);
             Some (s, True)
           })
        })
     }"

fun removeMin :: "('k, 'v) avlnode \<Rightarrow> (('k, 'v) avlnode \<times> 'k \<times> 'v \<times> bool) option" where
  "removeMin Tip = None"
| "removeMin (Node l k v b r) =
     (if l = Tip then Some (r, k, v, True)
      else do {
        (l', minKey, minVal, fix) \<leftarrow> removeMin l;
        (if fix then do { (q, f) \<leftarrow> rebalanceDelete 1 (Node l' k v b r); Some (q, minKey, minVal, f) }
         else Some (Node l' k v b r, minKey, minVal, False))
      })"

fun avl_delete :: "('k \<Rightarrow> 'k \<Rightarrow> int) \<Rightarrow> 'k \<Rightarrow> ('k, 'v) avlnode \<Rightarrow> (('k, 'v) avlnode \<times> 'v option \<times> bool) option" where
  "avl_delete cmp key Tip = Some (Tip, None, False)"
| "avl_delete cmp key (Node l k v b r) =
     (let res = cmp key k
      in if res = 0 then
           (if r = Tip then Some (l, Some v, True)
            else do {
              (r', minKey, minVal, fix) \<leftarrow> removeMin r;
              (if fix then do { (q, f) \<leftarrow> rebalanceDelete (- 1) (Node l minKey minVal b r'); Some (q, Some v, f) }
               else Some (Node l minKey minVal b r', Some v, False))
            })
         else if res < 0 then
           do {
             (l', removed, fix) \<leftarrow> avl_delete cmp key l;
             (if fix then do { (q, f) \<leftarrow> rebalanceDelete 1 (Node l' k v b r); Some (q, removed, f) }
              else Some (Node l' k v b r, removed, False))
           }
         else
           do {
             (r', removed, fix) \<leftarrow> avl_delete cmp key r;
             (if fix then do { (q, f) \<leftarrow> rebalanceDelete (- 1) (Node l k v b r'); Some (q, removed, f) }
              else Some (Node l k v b r', removed, False))
           })"

definition avl_Delete :: "'k \<Rightarrow> ('k, 'v) avltree \<Rightarrow> ('v option \<times> ('k, 'v) avltree) option" where
  "avl_Delete key t =
     do {
       (root, removed, _) \<leftarrow> avl_delete (avl_cmp t) key (avl_root t);
       Some (removed, t\<lparr>avl_root := root, avl_size := avl_size t - (if removed \<noteq> None then 1 else 0)\<rparr>)
     }"

section \<open>The other methods\<close>

definition avl_lookup :: "('k, 'v) avltree \<Rightarrow> 'k \<Rightarrow> 'v option" where
  "avl_lookup t key = lookup_loop (\<lambda>k. - avl_cmp t k key) (avl_root t)"

definition avl_Get :: "'k \<Rightarrow> ('k, 'v) avltree \<Rightarrow> 'v option" where
  "avl_Get key t = avl_lookup t key"

definition avl_Size :: "('k, 'v) avltree \<Rightarrow> int" where
  "avl_Size t = avl_size t"

definition avl_IsEmpty :: "('k, 'v) avltree \<Rightarrow> bool" where
  "avl_IsEmpty t \<longleftrightarrow> avl_size t = 0"

primrec avl_height :: "('k, 'v) avlnode \<Rightarrow> int" where
  "avl_height Tip = 0"
| "avl_height (Node l k v b r) = (if avl_height l > avl_height r then avl_height l + 1 else avl_height r + 1)"

definition avl_Height :: "('k, 'v) avltree \<Rightarrow> int" where
  "avl_Height t = avl_height (avl_root t)"

definition avl_Clear :: "('k, 'v) avltree \<Rightarrow> ('k, 'v) avltree" where
  "avl_Clear t = t\<lparr>avl_root := Tip, avl_size := 0\<rparr>"

definition avl_Keys :: "('k, 'v) avltree \<Rightarrow> 'k list" where
  "avl_Keys t = snd (walk_in (\<lambda>k v keys. (True, keys @ [k])) (avl_root t) [])"

definition avl_Values :: "('k, 'v) avltree \<Rightarrow> 'v list" where
  "avl_Values t = snd (walk_in (\<lambda>k v values. (True, values @ [v])) (avl_root t) [])"

definition avl_bottom :: "int \<Rightarrow> ('k, 'v) avltree \<Rightarrow> ('k \<times> 'v) option" where
  "avl_bottom pos t = (if pos = 0 then leftmost (avl_root t) else rightmost (avl_root t))"

definition avl_Min :: "('k, 'v) avltree \<Rightarrow> ('k \<times> 'v) option" where
  "avl_Min t = avl_bottom 0 t"

definition avl_Max :: "('k, 'v) avltree \<Rightarrow> ('k \<times> 'v) option" where
  "avl_Max t = avl_bottom 1 t"

definition avl_Floor :: "'k \<Rightarrow> ('k, 'v) avltree \<Rightarrow> ('k \<times> 'v) option" where
  "avl_Floor key t = floor_loop (avl_cmp t key) (avl_root t) None"

definition avl_Ceiling :: "'k \<Rightarrow> ('k, 'v) avltree \<Rightarrow> ('k \<times> 'v) option" where
  "avl_Ceiling key t = ceiling_loop (avl_cmp t key) (avl_root t) None"

text \<open>A traversal is given no callback or one with the state of its closure.\<close>

definition avl_PreOrder :: "('k, 'v, 's) visit option \<Rightarrow> ('k, 'v) avltree \<Rightarrow> 's \<Rightarrow> 's" where
  "avl_PreOrder fn t s = (case fn of None \<Rightarrow> s | Some f \<Rightarrow> snd (walk_pre f (avl_root t) s))"

definition avl_InOrder :: "('k, 'v, 's) visit option \<Rightarrow> ('k, 'v) avltree \<Rightarrow> 's \<Rightarrow> 's" where
  "avl_InOrder fn t s = (case fn of None \<Rightarrow> s | Some f \<Rightarrow> snd (walk_in f (avl_root t) s))"

definition avl_PostOrder :: "('k, 'v, 's) visit option \<Rightarrow> ('k, 'v) avltree \<Rightarrow> 's \<Rightarrow> 's" where
  "avl_PostOrder fn t s = (case fn of None \<Rightarrow> s | Some f \<Rightarrow> snd (walk_post f (avl_root t) s))"

definition avl_LevelOrder :: "('k, 'v, 's) visit option \<Rightarrow> ('k, 'v) avltree \<Rightarrow> 's \<Rightarrow> 's" where
  "avl_LevelOrder fn t s = (case fn of None \<Rightarrow> s | Some f \<Rightarrow> if avl_root t = Tip then s else walk_level f [avl_root t] s)"

text \<open>
  Construction from a list puts each element under its position; from a map, the pairs in whatever
  order the range over the map gives them.
\<close>

fun put_all :: "('k \<Rightarrow> 'v \<Rightarrow> 'm \<Rightarrow> 'm option) \<Rightarrow> ('k \<times> 'v) list \<Rightarrow> 'm \<Rightarrow> 'm option" where
  "put_all put [] m = Some m"
| "put_all put ((k, v) # es) m = do { m' \<leftarrow> put k v m; put_all put es m' }"

definition avl_NewFromSlice :: "'v list \<Rightarrow> (nat, 'v) avltree option" where
  "avl_NewFromSlice slice = put_all avl_Put (zip [0..<length slice] slice) (avl_New cmp_Compare)"

definition avl_NewFromMap :: "('k \<times> 'v) list \<Rightarrow> ('k \<Rightarrow> 'k \<Rightarrow> int) \<Rightarrow> ('k, 'v) avltree option" where
  "avl_NewFromMap m cmp = put_all avl_Put m (avl_New cmp)"

section \<open>Balance\<close>

definition leans :: "int \<Rightarrow> nat \<Rightarrow> nat \<Rightarrow> bool" where
  "leans b hl hr \<longleftrightarrow> b = 0 \<and> hr = hl \<or> b = 1 \<and> hr = Suc hl \<or> b = -1 \<and> hl = Suc hr"

fun avl :: "('k, 'v) avlnode \<Rightarrow> bool" where
  "avl Tip \<longleftrightarrow> True"
| "avl (Node l k v b r) \<longleftrightarrow> avl l \<and> avl r \<and> leans b (height l) (height r)"

lemma leans_cases:
  assumes "leans b hl hr"
  obtains "b = 0" "hr = hl" | "b = 1" "hr = Suc hl" | "b = -1" "hl = Suc hr"
  using assms by (auto simp: leans_def)

lemma leans_simps [simp]:
  "leans 0 hl hr \<longleftrightarrow> hr = hl" "leans 1 hl hr \<longleftrightarrow> hr = Suc hl" "leans (- 1) hl hr \<longleftrightarrow> hl = Suc hr"
  by (auto simp: leans_def)

text \<open>The rotations on the shapes they are called for.\<close>

lemma avl_rotate_shapes [simp]:
  "avl_rotate 1 (Node l k v b (Node rl rk rv rb rr)) = Some (Node (Node l k v b rl) rk rv rb rr)"
  "avl_rotate (- 1) (Node (Node ll lk lv lb lr) k v b r) = Some (Node ll lk lv lb (Node lr k v b r))"
  by (simp_all add: avl_rotate_def)

lemma singleRotate_shapes [simp]:
  "singleRotate 1 (Node l k v b (Node rl rk rv rb rr)) = Some (Node (Node l k v 0 rl) rk rv 0 rr)"
  "singleRotate (- 1) (Node (Node ll lk lv lb lr) k v b r) = Some (Node ll lk lv 0 (Node lr k v 0 r))"
  by (simp_all add: singleRotate_def)

lemma doubleRotate_shapes [simp]:
  "doubleRotate 1 (Node l k v b (Node (Node ml mk mv mb mr) rk rv rb rr)) =
     Some (Node (Node l k v (if mb = 1 then -1 else 0) ml) mk mv 0 (Node mr rk rv (if mb = -1 then 1 else 0) rr))"
  "doubleRotate (- 1) (Node (Node ll lk lv lb (Node ml mk mv mb mr)) k v b r) =
     Some (Node (Node ll lk lv (if mb = 1 then -1 else 0) ml) mk mv 0 (Node mr k v (if mb = -1 then 1 else 0) r))"
  by (simp_all add: doubleRotate_def)

text \<open>What a step of the rebalancing has to give: a balanced tree of the same entries and its height.\<close>

definition rebalanced :: "('k, 'v) avlnode \<Rightarrow> ('k \<times> 'v) list \<Rightarrow> nat \<Rightarrow> bool" where
  "rebalanced q xs h \<longleftrightarrow> avl q \<and> inorder q = xs \<and> height q = h"

definition leaning :: "('k, 'v) avlnode \<Rightarrow> bool" where
  "leaning t \<longleftrightarrow> (\<exists>c. bal t = Some c \<and> c \<noteq> 0)"

lemma leaning_cases:
  assumes "leaning t" "avl t"
  obtains l k v r where "t = Node l k v 1 r" "height r = Suc (height l)" "avl l" "avl r"
    | l k v r where "t = Node l k v (- 1) r" "height l = Suc (height r)" "avl l" "avl r"
  using assms by (cases t) (auto simp: leaning_def elim!: leans_cases)

lemma avl_SucE:
  assumes "height t = Suc h" "avl t"
  obtains l k v b r where "t = Node l k v b r" "avl l" "avl r" "leans b (height l) (height r)" "max (height l) (height r) = h"
  using assms by (cases t) auto

lemma rebalancePut_right:
  assumes "avl l" "avl r" "height r = Suc h" "leans b (height l) h" "b = 1 \<longrightarrow> leaning r"
  shows "\<exists>q f. rebalancePut 1 (Node l k v b r) = Some (q, f) \<and>
    rebalanced q (inorder l @ (k, v) # inorder r) (Suc (max (height l) h) + (if f then 1 else 0)) \<and> (f \<longrightarrow> leaning q)"
  using assms(4)
proof (cases rule: leans_cases)
  case 2
  have "leaning r" using assms(5) 2 by simp
  then show ?thesis using assms(2)
  proof (cases rule: leaning_cases)
    case (1 rl rk rv rr)
    then show ?thesis using 2 assms by (auto simp: rebalancePut_def rebalanced_def)
  next
    case (2 rl rk rv rr)
    obtain ml mk mv mb mr where m: "rl = Node ml mk mv mb mr" "avl ml" "avl mr" "leans mb (height ml) (height mr)" "max (height ml) (height mr) = height rr"
      using avl_SucE [OF 2(2,3)] .
    from m(4) show ?thesis
      by (cases rule: leans_cases) (use 2 \<open>b = 1\<close> \<open>h = Suc (height l)\<close> m assms in \<open>auto simp: rebalancePut_def rebalanced_def\<close>)
  qed
qed (use assms in \<open>auto simp: rebalancePut_def rebalanced_def leaning_def\<close>)

lemma rebalancePut_left:
  assumes "avl l" "avl r" "height l = Suc h" "leans b h (height r)" "b = -1 \<longrightarrow> leaning l"
  shows "\<exists>q f. rebalancePut (- 1) (Node l k v b r) = Some (q, f) \<and>
    rebalanced q (inorder l @ (k, v) # inorder r) (Suc (max h (height r)) + (if f then 1 else 0)) \<and> (f \<longrightarrow> leaning q)"
  using assms(4)
proof (cases rule: leans_cases)
  case 3
  have "leaning l" using assms(5) 3 by simp
  then show ?thesis using assms(1)
  proof (cases rule: leaning_cases)
    case (2 ll lk lv lr)
    then show ?thesis using 3 assms by (auto simp: rebalancePut_def rebalanced_def)
  next
    case (1 ll lk lv lr)
    obtain ml mk mv mb mr where m: "lr = Node ml mk mv mb mr" "avl ml" "avl mr" "leans mb (height ml) (height mr)" "max (height ml) (height mr) = height ll"
      using avl_SucE [OF 1(2,4)] .
    from m(4) show ?thesis
      by (cases rule: leans_cases) (use 1 \<open>b = -1\<close> \<open>h = Suc (height r)\<close> m assms in \<open>auto simp: rebalancePut_def rebalanced_def\<close>)
  qed
qed (use assms in \<open>auto simp: rebalancePut_def rebalanced_def leaning_def\<close>)

text \<open>The side that is left standing may be evenly balanced: then the height does not change.\<close>

lemma rebalanceDelete_right:
  assumes "avl l" "avl r" "leans b (Suc (height l)) (height r)"
  shows "\<exists>q f. rebalanceDelete 1 (Node l k v b r) = Some (q, f) \<and>
    rebalanced q (inorder l @ (k, v) # inorder r) (Suc (max (Suc (height l)) (height r)) - (if f then 1 else 0))"
  using assms(3)
proof (cases rule: leans_cases)
  case 2
  obtain rl rk rv rb rr where r: "r = Node rl rk rv rb rr" "avl rl" "avl rr" "leans rb (height rl) (height rr)" "max (height rl) (height rr) = Suc (height l)"
    using avl_SucE [OF 2(2) assms(2)] .
  from r(4) show ?thesis
  proof (cases rule: leans_cases)
    case 3
    then have "height rl = Suc (height l)" using r(5) by simp
    then obtain ml mk mv mb mr where m: "rl = Node ml mk mv mb mr" "avl ml" "avl mr" "leans mb (height ml) (height mr)" "max (height ml) (height mr) = height l"
      using avl_SucE [OF _ r(2)] by blast
    from m(4) show ?thesis
      by (cases rule: leans_cases) (use 3 \<open>b = 1\<close> \<open>height rl = Suc (height l)\<close> r m assms in \<open>auto simp: rebalanceDelete_def rebalanced_def\<close>)
  qed (use 2 r assms in \<open>auto simp: rebalanceDelete_def rebalanced_def\<close>)
qed (use assms in \<open>auto simp: rebalanceDelete_def rebalanced_def\<close>)

lemma rebalanceDelete_left:
  assumes "avl l" "avl r" "leans b (height l) (Suc (height r))"
  shows "\<exists>q f. rebalanceDelete (- 1) (Node l k v b r) = Some (q, f) \<and>
    rebalanced q (inorder l @ (k, v) # inorder r) (Suc (max (height l) (Suc (height r))) - (if f then 1 else 0))"
  using assms(3)
proof (cases rule: leans_cases)
  case 3
  obtain ll lk lv lb lr where l: "l = Node ll lk lv lb lr" "avl ll" "avl lr" "leans lb (height ll) (height lr)" "max (height ll) (height lr) = Suc (height r)"
    using avl_SucE [OF 3(2) assms(1)] .
  from l(4) show ?thesis
  proof (cases rule: leans_cases)
    case 2
    then have "height lr = Suc (height r)" using l(5) by simp
    then obtain ml mk mv mb mr where m: "lr = Node ml mk mv mb mr" "avl ml" "avl mr" "leans mb (height ml) (height mr)" "max (height ml) (height mr) = height r"
      using avl_SucE [OF _ l(3)] by blast
    from m(4) show ?thesis
      by (cases rule: leans_cases) (use 2 \<open>b = -1\<close> \<open>height lr = Suc (height r)\<close> l m assms in \<open>auto simp: rebalanceDelete_def rebalanced_def\<close>)
  qed (use 3 l assms in \<open>auto simp: rebalanceDelete_def rebalanced_def\<close>)
qed (use assms in \<open>auto simp: rebalanceDelete_def rebalanced_def\<close>)

section \<open>Insertion and deletion\<close>

lemma leans_grow: "leans 1 hl h \<Longrightarrow> h \<noteq> 0" "leans (- 1) h hr \<Longrightarrow> h \<noteq> 0"
  by simp_all

context comparator
begin

lemma avl_put_ok:
  "avl t \<Longrightarrow> ascending cmp (inorder t) \<Longrightarrow> \<exists>t' added fix. avl_put cmp key val t = Some (t', added, fix) \<and>
     rebalanced t' (ins_list cmp True key val (inorder t)) (height t + (if fix then 1 else 0)) \<and>
     (fix \<longrightarrow> t = Tip \<or> leaning t') \<and> (added \<longleftrightarrow> get_list cmp key (inorder t) = None)"
proof (induction t)
  case (Node l k v b r)
  have a: "avl l" "avl r" "ascending cmp (inorder l)" "ascending cmp (inorder r)" "leans b (height l) (height r)"
    using Node.prems by (auto simp: ascending_append)
  have asc: "ascending cmp (inorder l @ (k, v) # inorder r)" using Node.prems by simp
  consider "cmp key k = 0" | "cmp key k < 0" | "0 < cmp key k" by linarith
  then show ?case
  proof cases
    case 1
    then show ?thesis using Node.prems by (auto simp: rebalanced_def ins_list_equal get_list_equal)
  next
    case 2
    obtain l' added grown where p: "avl_put cmp key val l = Some (l', added, grown)"
        "rebalanced l' (ins_list cmp True key val (inorder l)) (height l + (if grown then 1 else 0))"
        "grown \<longrightarrow> l = Tip \<or> leaning l'" "added \<longleftrightarrow> get_list cmp key (inorder l) = None" using Node.IH(1) a by blast
    note e = ins_list_less [OF asc 2, of True val] get_list_less [OF asc 2]
    show ?thesis
    proof (cases grown)
      case True
      have "height l' = Suc (height l)" "avl l'" "b = -1 \<longrightarrow> leaning l'" using p True a(5) by (auto simp: rebalanced_def)
      then obtain q f where "rebalancePut (- 1) (Node l' k v b r) = Some (q, f)"
          "rebalanced q (inorder l' @ (k, v) # inorder r) (Suc (max (height l) (height r)) + (if f then 1 else 0))" "f \<longrightarrow> leaning q"
        using rebalancePut_left [of l' r "height l" b k v] a by blast
      then show ?thesis using p e 2 True by (auto simp: rebalanced_def)
    next
      case False
      then show ?thesis using p e 2 a by (auto simp: rebalanced_def)
    qed
  next
    case 3
    obtain r' added grown where p: "avl_put cmp key val r = Some (r', added, grown)"
        "rebalanced r' (ins_list cmp True key val (inorder r)) (height r + (if grown then 1 else 0))"
        "grown \<longrightarrow> r = Tip \<or> leaning r'" "added \<longleftrightarrow> get_list cmp key (inorder r) = None" using Node.IH(2) a by blast
    note e = ins_list_greater [OF asc 3, of True val] get_list_greater [OF asc 3]
    show ?thesis
    proof (cases grown)
      case True
      have "height r' = Suc (height r)" "avl r'" "b = 1 \<longrightarrow> leaning r'" using p True a(5) by (auto simp: rebalanced_def)
      then obtain q f where "rebalancePut 1 (Node l k v b r') = Some (q, f)"
          "rebalanced q (inorder l @ (k, v) # inorder r') (Suc (max (height l) (height r)) + (if f then 1 else 0))" "f \<longrightarrow> leaning q"
        using rebalancePut_right [of l r' "height r" b k v] a by blast
      then show ?thesis using p e 3 True by (auto simp: rebalanced_def)
    next
      case False
      then show ?thesis using p e 3 a by (auto simp: rebalanced_def)
    qed
  qed
qed (auto simp: rebalanced_def)

end

lemma removeMin_ok:
  "avl t \<Longrightarrow> t \<noteq> Tip \<Longrightarrow> \<exists>t' k v fix. removeMin t = Some (t', k, v, fix) \<and> inorder t = (k, v) # inorder t' \<and>
     rebalanced t' (inorder t') (height t - (if fix then 1 else 0))"
proof (induction t)
  case (Node l k v b r)
  show ?case
  proof (cases "l = Tip")
    case True
    then show ?thesis using Node.prems by (auto simp: rebalanced_def)
  next
    case False
    then obtain l' mk mv shrunk where m: "removeMin l = Some (l', mk, mv, shrunk)" "inorder l = (mk, mv) # inorder l'"
        "rebalanced l' (inorder l') (height l - (if shrunk then 1 else 0))" using Node by auto
    show ?thesis
    proof (cases shrunk)
      case True
      have "height l = Suc (height l')" using m(3) True False by (cases l) (auto simp: rebalanced_def)
      moreover then obtain q f where "rebalanceDelete 1 (Node l' k v b r) = Some (q, f)"
          "rebalanced q (inorder l' @ (k, v) # inorder r) (Suc (max (Suc (height l')) (height r)) - (if f then 1 else 0))"
        using rebalanceDelete_right [of l' r b k v] Node.prems m(3) by (auto simp: rebalanced_def)
      ultimately show ?thesis using m False True by (auto simp: rebalanced_def)
    next
      case no: False
      then show ?thesis using m False Node.prems by (auto simp: rebalanced_def)
    qed
  qed
qed simp

context comparator
begin

lemma avl_delete_ok:
  "avl t \<Longrightarrow> ascending cmp (inorder t) \<Longrightarrow> \<exists>t' fix. avl_delete cmp key t = Some (t', get_list cmp key (inorder t), fix) \<and>
     (fix \<longrightarrow> t \<noteq> Tip) \<and> rebalanced t' (del_list cmp key (inorder t)) (height t - (if fix then 1 else 0))"
proof (induction t)
  case (Node l k v b r)
  have a: "avl l" "avl r" "ascending cmp (inorder l)" "ascending cmp (inorder r)" "leans b (height l) (height r)"
    using Node.prems by (auto simp: ascending_append)
  have asc: "ascending cmp (inorder l @ (k, v) # inorder r)" using Node.prems by simp
  consider "cmp key k = 0" | "cmp key k < 0" | "0 < cmp key k" by linarith
  then show ?case
  proof cases
    case 1
    note e = del_list_equal [OF asc 1] get_list_equal [OF asc 1]
    show ?thesis
    proof (cases "r = Tip")
      case True
      then show ?thesis using e 1 a by (auto simp: rebalanced_def)
    next
      case False
      then obtain r' mk mv shrunk where m: "removeMin r = Some (r', mk, mv, shrunk)" "inorder r = (mk, mv) # inorder r'"
        "rebalanced r' (inorder r') (height r - (if shrunk then 1 else 0))" using removeMin_ok [OF a(2)] by blast
      show ?thesis
      proof (cases shrunk)
        case True
        have "height r = Suc (height r')" using m(3) True False by (cases r) (auto simp: rebalanced_def)
        moreover then obtain q f where "rebalanceDelete (- 1) (Node l mk mv b r') = Some (q, f)"
          "rebalanced q (inorder l @ (mk, mv) # inorder r') (Suc (max (height l) (Suc (height r'))) - (if f then 1 else 0))"
          using rebalanceDelete_left [of l r' b mk mv] a m(3) by (auto simp: rebalanced_def)
        ultimately show ?thesis using m e 1 False True by (auto simp: rebalanced_def)
      next
        case no: False
        then show ?thesis using m e 1 False a by (auto simp: rebalanced_def)
      qed
    qed
  next
    case 2
    note e = del_list_less [OF asc 2] get_list_less [OF asc 2]
    obtain l' shrunk where p: "avl_delete cmp key l = Some (l', get_list cmp key (inorder l), shrunk)" "shrunk \<longrightarrow> l \<noteq> Tip"
        "rebalanced l' (del_list cmp key (inorder l)) (height l - (if shrunk then 1 else 0))" using Node.IH(1) a by blast
    show ?thesis
    proof (cases shrunk)
      case True
      have "height l = Suc (height l')" using p True by (cases l) (auto simp: rebalanced_def)
      moreover then obtain q f where "rebalanceDelete 1 (Node l' k v b r) = Some (q, f)"
          "rebalanced q (inorder l' @ (k, v) # inorder r) (Suc (max (Suc (height l')) (height r)) - (if f then 1 else 0))"
        using rebalanceDelete_right [of l' r b k v] a p(3) by (auto simp: rebalanced_def)
      ultimately show ?thesis using p e 2 True by (auto simp: rebalanced_def)
    next
      case False
      then show ?thesis using p e 2 a by (auto simp: rebalanced_def)
    qed
  next
    case 3
    note e = del_list_greater [OF asc 3] get_list_greater [OF asc 3]
    obtain r' shrunk where p: "avl_delete cmp key r = Some (r', get_list cmp key (inorder r), shrunk)" "shrunk \<longrightarrow> r \<noteq> Tip"
        "rebalanced r' (del_list cmp key (inorder r)) (height r - (if shrunk then 1 else 0))" using Node.IH(2) a by blast
    show ?thesis
    proof (cases shrunk)
      case True
      have "height r = Suc (height r')" using p True by (cases r) (auto simp: rebalanced_def)
      moreover then obtain q f where "rebalanceDelete (- 1) (Node l k v b r') = Some (q, f)"
          "rebalanced q (inorder l @ (k, v) # inorder r') (Suc (max (height l) (Suc (height r'))) - (if f then 1 else 0))"
        using rebalanceDelete_left [of l r' b k v] a p(3) by (auto simp: rebalanced_def)
      ultimately show ?thesis using p e 3 True by (auto simp: rebalanced_def)
    next
      case False
      then show ?thesis using p e 3 a by (auto simp: rebalanced_def)
    qed
  qed
qed (auto simp: rebalanced_def)

end

section \<open>The contract\<close>

definition avl_ok :: "('k \<Rightarrow> 'k \<Rightarrow> int) \<Rightarrow> ('k, 'v) avltree \<Rightarrow> bool" where
  "avl_ok cmp t \<longleftrightarrow> avl_cmp t = cmp \<and> avl (avl_root t) \<and> ascending cmp (inorder (avl_root t)) \<and> avl_size t = int (nodes (avl_root t))"

definition avl_get :: "'k \<Rightarrow> ('k, 'v) avltree \<Rightarrow> ('v option \<times> ('k, 'v) avltree) option" where
  "avl_get key t = Some (avl_Get key t, t)"

context comparator
begin

lemma avl_get_ok: "avl_ok cmp t \<Longrightarrow> avl_Get key t = get_list cmp key (inorder (avl_root t))"
  unfolding avl_ok_def avl_Get_def avl_lookup_def by (elim conjE, simp only:) (rule lookup_loop_get [OF agrees_ways(2)])

lemma avl_Put_ok:
  assumes "avl_ok cmp t"
  shows "\<exists>t'. avl_Put key val t = Some t' \<and> avl_ok cmp t' \<and> inorder (avl_root t') = ins_list cmp True key val (inorder (avl_root t))"
proof -
  have t: "avl (avl_root t)" "ascending cmp (inorder (avl_root t))" using assms by (simp_all add: avl_ok_def)
  obtain r added f where p: "avl_put cmp key val (avl_root t) = Some (r, added, f)" "avl r"
      "inorder r = ins_list cmp True key val (inorder (avl_root t))" "added \<longleftrightarrow> get_list cmp key (inorder (avl_root t)) = None"
    using avl_put_ok [OF t] unfolding rebalanced_def by blast
  have "nodes r = nodes (avl_root t) + (if added then 1 else 0)"
    using length_ins_list [OF t(2), of True key val] p(3,4) by (simp flip: length_inorder)
  then show ?thesis using p assms ascending_ins_list [OF t(2)] by (auto simp: avl_Put_def avl_ok_def)
qed

lemma avl_Delete_ok:
  assumes "avl_ok cmp t"
  shows "\<exists>t'. avl_Delete key t = Some (get_list cmp key (inorder (avl_root t)), t') \<and> avl_ok cmp t' \<and>
    inorder (avl_root t') = del_list cmp key (inorder (avl_root t))"
proof -
  have t: "avl (avl_root t)" "ascending cmp (inorder (avl_root t))" using assms by (simp_all add: avl_ok_def)
  obtain r f where p: "avl_delete cmp key (avl_root t) = Some (r, get_list cmp key (inorder (avl_root t)), f)" "avl r"
      "inorder r = del_list cmp key (inorder (avl_root t))"
    using avl_delete_ok [OF t] unfolding rebalanced_def by blast
  have "int (nodes r) = int (nodes (avl_root t)) - (if get_list cmp key (inorder (avl_root t)) \<noteq> None then 1 else 0)"
    using length_del_list [of key "inorder (avl_root t)"] p(3) by (cases "inorder (avl_root t)") (auto simp flip: length_inorder)
  then show ?thesis using p assms ascending_del_list [OF t(2)] by (auto simp: avl_Delete_def avl_ok_def)
qed

end

text \<open>For every comparison function the tree meets the contract of a sorted map whose keys are replaced.\<close>

lemma avl_sorted_map:
  assumes "comparator cmp"
  shows "sorted_map cmp True (avl_ok cmp) (\<lambda>t. inorder (avl_root t)) avl_Size avl_Put avl_get avl_Delete avl_Clear"
proof (rule sorted_map.intro [OF assms], unfold_locales)
  fix t :: "('a, 'b) avltree" and key val
  assume ok: "avl_ok cmp t"
  show "ascending cmp (inorder (avl_root t))" using ok by (simp add: avl_ok_def)
  show "avl_Size t = int (length (inorder (avl_root t)))" using ok by (simp add: avl_ok_def avl_Size_def length_inorder)
  show "\<exists>t'. avl_Put key val t = Some t' \<and> avl_ok cmp t' \<and> inorder (avl_root t') = ins_list cmp True key val (inorder (avl_root t))"
    by (rule comparator.avl_Put_ok [OF assms ok])
  show "\<exists>t'. avl_get key t = Some (get_list cmp key (inorder (avl_root t)), t') \<and> avl_ok cmp t' \<and> inorder (avl_root t') = inorder (avl_root t)"
    using ok by (simp add: avl_get_def comparator.avl_get_ok [OF assms ok])
  show "\<exists>t'. avl_Delete key t = Some (get_list cmp key (inorder (avl_root t)), t') \<and> avl_ok cmp t' \<and>
      inorder (avl_root t') = del_list cmp key (inorder (avl_root t))"
    by (rule comparator.avl_Delete_ok [OF assms ok])
  show "avl_ok cmp (avl_Clear t) \<and> inorder (avl_root (avl_Clear t)) = []" using ok by (simp add: avl_ok_def avl_Clear_def)
qed

interpretation avl_map: sorted_map "cmp_Compare :: 'k::linorder \<Rightarrow> 'k \<Rightarrow> int" True "avl_ok cmp_Compare" "\<lambda>t. inorder (avl_root t)"
    avl_Size avl_Put avl_get avl_Delete avl_Clear
  by (rule avl_sorted_map) (rule ordered.comparator_axioms)

section \<open>Properties\<close>

lemma avl_nodes: "avl t \<Longrightarrow> 2 ^ (height t div 2) \<le> nodes t + 1"
proof (induction t)
  case (Node l k v b r)
  have pow: "(2::nat) ^ (h div 2) \<le> 2 ^ (h' div 2)" if "h \<le> h'" for h h' using that by (simp add: div_le_mono)
  have ih: "2 ^ (height l div 2) \<le> nodes l + 1" "2 ^ (height r div 2) \<le> nodes r + 1" using Node by auto
  have b: "leans b (height l) (height r)" using Node.prems by simp
  define h where "h = height (Node l k v b r)"
  have "h - 2 \<le> height l" "h - 2 \<le> height r" using b by (auto simp: h_def elim!: leans_cases)
  then have "2 ^ ((h - 2) div 2) \<le> nodes l + 1" "2 ^ ((h - 2) div 2) \<le> nodes r + 1" using ih pow order_trans by blast+
  then have "2 * 2 ^ ((h - 2) div 2) \<le> nodes (Node l k v b r) + 1" by simp
  moreover have "(2::nat) ^ (h div 2) \<le> 2 * 2 ^ ((h - 2) div 2)"
  proof (cases "h \<le> 1")
    case False
    then have "h div 2 = Suc ((h - 2) div 2)" by (simp add: div_if)
    then show ?thesis by simp
  qed (cases h, auto)
  ultimately show ?case unfolding h_def by (rule order_trans [rotated])
qed simp

lemma avl_height_height: "avl_height t = int (height t)"
  by (induction t) auto

lemma avl_reads:
  assumes "comparator cmp" "avl_ok cmp t"
  shows "avl_Keys t = map fst (inorder (avl_root t))" "avl_Values t = map snd (inorder (avl_root t))"
    "avl_Min t = (case inorder (avl_root t) of [] \<Rightarrow> None | e # _ \<Rightarrow> Some e)"
    "avl_Max t = (if inorder (avl_root t) = [] then None else Some (last (inorder (avl_root t))))"
    "avl_Floor key t = floor_list cmp key (inorder (avl_root t))" "avl_Ceiling key t = ceiling_list cmp key (inorder (avl_root t))"
    "2 ^ (nat (avl_Height t) div 2) \<le> avl_Size t + 1"
proof -
  have t: "avl_cmp t = cmp" "avl (avl_root t)" "ascending cmp (inorder (avl_root t))" "avl_size t = int (nodes (avl_root t))"
    using assms(2) by (simp_all add: avl_ok_def)
  show "avl_Keys t = map fst (inorder (avl_root t))" "avl_Values t = map snd (inorder (avl_root t))"
    by (simp_all add: avl_Keys_def avl_Values_def walks visit_collect)
  show "avl_Min t = (case inorder (avl_root t) of [] \<Rightarrow> None | e # _ \<Rightarrow> Some e)"
    "avl_Max t = (if inorder (avl_root t) = [] then None else Some (last (inorder (avl_root t))))"
    by (simp_all add: avl_Min_def avl_Max_def avl_bottom_def leftmost_inorder rightmost_inorder)
  show "avl_Floor key t = floor_list cmp key (inorder (avl_root t))" "avl_Ceiling key t = ceiling_list cmp key (inorder (avl_root t))"
    using comparator.floor_loop_list [OF assms(1) comparator.agrees_ways(1) [OF assms(1)] t(3)]
      comparator.ceiling_loop_list [OF assms(1) comparator.agrees_ways(1) [OF assms(1)] t(3)]
    by (simp_all add: avl_Floor_def avl_Ceiling_def t(1) split: option.split)
  have "int (2 ^ (height (avl_root t) div 2)) \<le> int (nodes (avl_root t) + 1)" using avl_nodes [OF t(2)] by (rule zle_int [THEN iffD2])
  then show "2 ^ (nat (avl_Height t) div 2) \<le> avl_Size t + 1"
    by (simp add: avl_Height_def avl_height_height avl_Size_def t(4))
qed

text \<open>
  C38: The AVL tree is a sorted map that stays balanced: any sequence of puts, gets, deletes and clears on
  a new tree returns, without touching a nil child, answers as the ordered association list does and
  leaves its keys and values; the least and greatest entry and the entries next to a key are those of
  the list, the size is its length, and the height is at most twice its binary logarithm, rounded.
\<close>

theorem avl_tree_is_balanced_map:
  assumes "comparator cmp"
  shows "\<exists>t. map_run (map_step avl_Put avl_get avl_Delete avl_Clear) calls (avl_New cmp) = Some (fst (spec_run cmp True calls []), t) \<and>
    (let es = snd (spec_run cmp True calls [])
     in ascending cmp es \<and> avl_Keys t = map fst es \<and> avl_Values t = map snd es \<and> avl_Size t = int (length es) \<and>
        (avl_IsEmpty t \<longleftrightarrow> es = []) \<and>
        avl_Min t = (case es of [] \<Rightarrow> None | e # _ \<Rightarrow> Some e) \<and> avl_Max t = (if es = [] then None else Some (last es)) \<and>
        avl_Floor key t = floor_list cmp key es \<and> avl_Ceiling key t = ceiling_list cmp key es \<and>
        2 ^ (nat (avl_Height t) div 2) \<le> avl_Size t + 1)"
proof -
  have new: "avl_ok cmp (avl_New cmp)" "inorder (avl_root (avl_New cmp)) = []" by (simp_all add: avl_ok_def avl_New_def)
  from sorted_map.run_spec [OF avl_sorted_map [OF assms] new(1), of calls] obtain t where
    t: "map_run (map_step avl_Put avl_get avl_Delete avl_Clear) calls (avl_New cmp) = Some (fst (spec_run cmp True calls []), t)" "avl_ok cmp t"
      "inorder (avl_root t) = snd (spec_run cmp True calls [])" "avl_Size t = int (length (inorder (avl_root t)))" "ascending cmp (inorder (avl_root t))"
    unfolding new(2) by blast
  have "avl_IsEmpty t \<longleftrightarrow> inorder (avl_root t) = []" using t(4) by (simp add: avl_IsEmpty_def avl_Size_def)
  then show ?thesis using t avl_reads [OF assms t(2)] by (intro exI [of _ t]) (simp add: Let_def)
qed

theorem avl_tree_is_balanced_map_witness:
  "\<exists>t. map_run (map_step avl_Put avl_get avl_Delete avl_Clear) [OpPut 2 ''b'', OpPut 1 ''a'', OpPut 3 ''c'', OpDelete 2, OpGet (1 :: int)] (avl_New cmp_Compare) =
     Some ([None, None, None, Some ''b'', Some ''a''], t) \<and> avl_Keys t = [1, 3]"
  using avl_tree_is_balanced_map [OF ordered.comparator_axioms, of "[OpPut 2 ''b'', OpPut 1 ''a'', OpPut 3 ''c'', OpDelete 2, OpGet (1 :: int)]" 0]
  by (simp add: cmp_Compare_def Let_def) blast

end
