(* ===== verification/Ds_Rbtree.thy ===== *)
theory Ds_Rbtree
  imports Ds_Avl
begin

text \<open>
  The red-black tree of \<^verbatim>\<open>src/ds/tree/rbtree\<close>, with the rebalancing that climbs parent pointers: each
  case of the code works on a node in its place. The colours stay in order, no case meets a nil node,
  and the tree is a sorted map.
\<close>

section \<open>The tree\<close>

datatype color = Black | Red

type_synonym ('k, 'v) rbnode = "('k, 'v, color) bst"
type_synonym ('k, 'v) rbpath = "('k, 'v, color) frame list"

record ('k, 'v) rbtree =
  rb_root :: "('k, 'v) rbnode"
  rb_cmp :: "'k \<Rightarrow> 'k \<Rightarrow> int"
  rb_size :: int

definition rb_New :: "('k \<Rightarrow> 'k \<Rightarrow> int) \<Rightarrow> ('k, 'v) rbtree" where
  "rb_New cmp = \<lparr>rb_root = Tip, rb_cmp = cmp, rb_size = 0\<rparr>"

fun colorOf :: "('k, 'v) rbnode \<Rightarrow> color" where
  "colorOf Tip = Black"
| "colorOf (Node l k v c r) = c"

fun paint :: "color \<Rightarrow> ('k, 'v) rbnode \<Rightarrow> ('k, 'v) rbnode" where
  "paint c Tip = Tip"
| "paint c (Node l k v _ r) = Node l k v c r"

fun frame_color :: "('k, 'v, color) frame \<Rightarrow> color" where
  "frame_color (LeftOf k v c r) = c"
| "frame_color (RightOf l k v c) = c"

fun paint_frame :: "color \<Rightarrow> ('k, 'v, color) frame \<Rightarrow> ('k, 'v, color) frame" where
  "paint_frame c (LeftOf k v _ r) = LeftOf k v c r"
| "paint_frame c (RightOf l k v _) = RightOf l k v c"

fun set_sibling :: "('k, 'v) rbnode \<Rightarrow> ('k, 'v, color) frame \<Rightarrow> ('k, 'v, color) frame" where
  "set_sibling s (LeftOf k v c r) = LeftOf k v c s"
| "set_sibling s (RightOf l k v c) = RightOf s k v c"

section \<open>Rotations\<close>

fun rotateLeft :: "('k, 'v) rbnode \<Rightarrow> ('k, 'v) rbnode option" where
  "rotateLeft (Node l k v c (Node rl rk rv rc rr)) = Some (Node (Node l k v c rl) rk rv rc rr)"
| "rotateLeft _ = None"

fun rotateRight :: "('k, 'v) rbnode \<Rightarrow> ('k, 'v) rbnode option" where
  "rotateRight (Node (Node ll lk lv lc lr) k v c r) = Some (Node ll lk lv lc (Node lr k v c r))"
| "rotateRight _ = None"

text \<open>
  The rotation of the parent that takes a node further down, as seen from the node: the sibling becomes
  the grandparent. To the left for a left child, to the right for a right one.
\<close>

fun rotate_parent :: "('k, 'v, color) frame \<Rightarrow> ('k, 'v) rbpath \<Rightarrow> ('k, 'v) rbpath option" where
  "rotate_parent (LeftOf k v c (Node sl sk sv sc sr)) path = Some (LeftOf k v c sl # LeftOf sk sv sc sr # path)"
| "rotate_parent (RightOf (Node sl sk sv sc sr) k v c) path = Some (RightOf sr k v c # RightOf sl sk sv sc # path)"
| "rotate_parent _ path = None"

section \<open>Insertion\<close>

fun insertCase5 :: "('k, 'v) rbnode \<Rightarrow> ('k, 'v) rbpath \<Rightarrow> ('k, 'v) rbnode option" where
  "insertCase5 n (p # g # path) =
     (let p = paint_frame Black p; g = paint_frame Red g; t = up (up n p) g
      in case (p, g) of
           (LeftOf _ _ _ _, LeftOf _ _ _ _) \<Rightarrow> do { t \<leftarrow> rotateRight t; Some (plug t path) }
         | (RightOf _ _ _ _, RightOf _ _ _ _) \<Rightarrow> do { t \<leftarrow> rotateLeft t; Some (plug t path) }
         | _ \<Rightarrow> Some (plug t path))"
| "insertCase5 n _ = None"

text \<open>A node on the inside goes up first; the case goes on with the node that was its parent.\<close>

fun insertCase4 :: "('k, 'v) rbnode \<Rightarrow> ('k, 'v) rbpath \<Rightarrow> ('k, 'v) rbnode option" where
  "insertCase4 n (p # g # path) =
     (case (p, g) of
        (RightOf _ _ _ _, LeftOf _ _ _ _) \<Rightarrow>
          do { t \<leftarrow> rotateLeft (up n p);
               (case t of Tip \<Rightarrow> None | Node l k v c r \<Rightarrow> insertCase5 l (LeftOf k v c r # g # path)) }
      | (LeftOf _ _ _ _, RightOf _ _ _ _) \<Rightarrow>
          do { t \<leftarrow> rotateRight (up n p);
               (case t of Tip \<Rightarrow> None | Node l k v c r \<Rightarrow> insertCase5 r (RightOf l k v c # g # path)) }
      | _ \<Rightarrow> insertCase5 n (p # g # path))"
| "insertCase4 n _ = None"

function insertCase1 :: "('k, 'v) rbnode \<Rightarrow> ('k, 'v) rbpath \<Rightarrow> ('k, 'v) rbnode option"
  and insertCase2 :: "('k, 'v) rbnode \<Rightarrow> ('k, 'v) rbpath \<Rightarrow> ('k, 'v) rbnode option"
  and insertCase3 :: "('k, 'v) rbnode \<Rightarrow> ('k, 'v) rbpath \<Rightarrow> ('k, 'v) rbnode option" where
  "insertCase1 n path = (if path = [] then Some (paint Black n) else insertCase2 n path)"
| "insertCase2 n path =
     (if (case path of [] \<Rightarrow> Black | p # _ \<Rightarrow> frame_color p) = Black then Some (plug n path) else insertCase3 n path)"
| "insertCase3 n path =
     (case path of
        p # g # rest \<Rightarrow>
          (let u = sibling g
           in if colorOf u = Red
              then insertCase1 (up (up n (paint_frame Black p)) (paint_frame Red (set_sibling (paint Black u) g))) rest
              else insertCase4 n path)
      | _ \<Rightarrow> insertCase4 n path)"
  by pat_completeness auto
termination
  by (relation "measure (\<lambda>x. case x of Inl (n, p) \<Rightarrow> 3 * length p + 2 | Inr (Inl (n, p)) \<Rightarrow> 3 * length p + 1 | Inr (Inr (n, p)) \<Rightarrow> 3 * length p)") auto

text \<open>The descent of a put; the new node is red and knows whether it was added.\<close>

fun rb_put_loop :: "('k \<Rightarrow> 'k \<Rightarrow> int) \<Rightarrow> 'k \<Rightarrow> 'v \<Rightarrow> ('k, 'v) rbnode \<Rightarrow> ('k, 'v) rbpath \<Rightarrow> (('k, 'v) rbnode \<times> bool) option" where
  "rb_put_loop cmp key val Tip path = map_option (\<lambda>t. (t, True)) (insertCase1 (Node Tip key val Red Tip) path)"
| "rb_put_loop cmp key val (Node l k v c r) path =
     (let res = cmp k key
      in if res = 0 then Some (plug (Node l k val c r) path, False)
         else if res > 0 then rb_put_loop cmp key val l (LeftOf k v c r # path)
         else rb_put_loop cmp key val r (RightOf l k v c # path))"

definition rb_Put :: "'k \<Rightarrow> 'v \<Rightarrow> ('k, 'v) rbtree \<Rightarrow> ('k, 'v) rbtree option" where
  "rb_Put key val t =
     (if rb_root t = Tip then Some (t\<lparr>rb_root := Node Tip key val Black Tip, rb_size := rb_size t + 1\<rparr>)
      else do {
        (root, added) \<leftarrow> rb_put_loop (rb_cmp t) key val (rb_root t) [];
        Some (t\<lparr>rb_root := root, rb_size := rb_size t + (if added then 1 else 0)\<rparr>)
      })"

section \<open>Deletion\<close>

text \<open>
  The cases leave the node they are called on as it is; what they change is its way to the root, which
  they return. A left child whose sibling has a red left child and a black right one does not reach the
  last case, which would rotate the parent the other way; the model has no result there.
\<close>

fun deleteCase6 :: "('k, 'v) rbpath \<Rightarrow> ('k, 'v) rbpath option" where
  "deleteCase6 (f # path) =
     (case sibling f of
        Tip \<Rightarrow> None
      | Node sl sk sv sc sr \<Rightarrow>
          (let f' = (\<lambda>sl sr. paint_frame Black (set_sibling (Node sl sk sv (frame_color f) sr) f))
           in case f of
                LeftOf _ _ _ _ \<Rightarrow>
                  (if colorOf sr = Red then rotate_parent (f' sl (paint Black sr)) path
                   else if colorOf sl = Red then None
                   else Some (f' sl sr # path))
              | RightOf _ _ _ _ \<Rightarrow>
                  (if colorOf sl = Red then rotate_parent (f' (paint Black sl) sr) path
                   else Some (f' sl sr # path))))"
| "deleteCase6 [] = None"

fun deleteCase5 :: "('k, 'v) rbpath \<Rightarrow> ('k, 'v) rbpath option" where
  "deleteCase5 (f # path) =
     (case sibling f of
        Tip \<Rightarrow> None
      | Node sl sk sv sc sr \<Rightarrow>
          (case f of
             LeftOf _ _ _ _ \<Rightarrow>
               (if sc = Black \<and> colorOf sl = Red \<and> colorOf sr = Black
                then do { s \<leftarrow> rotateRight (Node (paint Black sl) sk sv Red sr); deleteCase6 (set_sibling s f # path) }
                else deleteCase6 (f # path))
           | RightOf _ _ _ _ \<Rightarrow>
               (if sc = Black \<and> colorOf sr = Red \<and> colorOf sl = Black
                then do { s \<leftarrow> rotateLeft (Node sl sk sv Red (paint Black sr)); deleteCase6 (set_sibling s f # path) }
                else deleteCase6 (f # path))))"
| "deleteCase5 [] = None"

fun deleteCase4 :: "('k, 'v) rbpath \<Rightarrow> ('k, 'v) rbpath option" where
  "deleteCase4 (f # path) =
     (case sibling f of
        Tip \<Rightarrow> None
      | Node sl sk sv sc sr \<Rightarrow>
          (if frame_color f = Red \<and> sc = Black \<and> colorOf sl = Black \<and> colorOf sr = Black
           then Some (paint_frame Black (set_sibling (Node sl sk sv Red sr) f) # path)
           else deleteCase5 (f # path)))"
| "deleteCase4 [] = None"

function deleteCase1 :: "('k, 'v) rbpath \<Rightarrow> ('k, 'v) rbpath option"
  and deleteCase2 :: "('k, 'v) rbpath \<Rightarrow> ('k, 'v) rbpath option"
  and deleteCase3 :: "('k, 'v) rbpath \<Rightarrow> ('k, 'v) rbpath option" where
  "deleteCase1 path = (if path = [] then Some [] else deleteCase2 path)"
| "deleteCase2 path =
     (case path of
        [] \<Rightarrow> None
      | f # rest \<Rightarrow>
          (if colorOf (sibling f) = Red
           then (case rotate_parent (paint_frame Red (set_sibling (paint Black (sibling f)) f)) rest of
                   Some (g # rest') \<Rightarrow> if frame_color g = Red then deleteCase3 (g # rest') else None
                 | _ \<Rightarrow> None)
           else deleteCase3 path))"
| "deleteCase3 path =
     (case path of
        [] \<Rightarrow> None
      | f # rest \<Rightarrow>
          (case sibling f of
             Tip \<Rightarrow> None
           | Node sl sk sv sc sr \<Rightarrow>
               (if frame_color f = Black \<and> sc = Black \<and> colorOf sl = Black \<and> colorOf sr = Black
                then do { rest' \<leftarrow> deleteCase1 rest; Some (set_sibling (Node sl sk sv Red sr) f # rest') }
                else deleteCase4 path)))"
  by pat_completeness auto
termination
  by (relation "measure (\<lambda>x. case x of Inl p \<Rightarrow> 3 * length p + 2 | Inr (Inl p) \<Rightarrow> 3 * length p + 1
        | Inr (Inr p) \<Rightarrow> (if p \<noteq> [] \<and> frame_color (hd p) = Red then 0 else 3 * length p))") auto

text \<open>A node with two children gives its place to the greatest entry before it.\<close>

definition rb_Delete :: "'k \<Rightarrow> ('k, 'v) rbtree \<Rightarrow> ('v option \<times> ('k, 'v) rbtree) option" where
  "rb_Delete key t =
     (case locate (\<lambda>k. - rb_cmp t k key) (rb_root t) [] of
        None \<Rightarrow> Some (None, t)
      | Some (Tip, path) \<Rightarrow> None
      | Some (Node l k v c r, path) \<Rightarrow>
          (let (n, path) =
             (case rightmost l of
                Some (pk, pv) \<Rightarrow> if r \<noteq> Tip then max_place l (LeftOf pk pv c r # path) else (Node l k v c r, path)
              | None \<Rightarrow> (Node l k v c r, path))
           in case n of
                Tip \<Rightarrow> None
              | Node nl nk nv nc nr \<Rightarrow>
                  (if nl = Tip \<or> nr = Tip then
                     (let child = (if nr = Tip then nl else nr)
                      in do {
                        path \<leftarrow> (if nc = Black then deleteCase1 path else Some path);
                        (let root = plug (if path = [] then paint Black child else child) path
                         in Some (Some v, t\<lparr>rb_root := root, rb_size := rb_size t - 1\<rparr>))
                      })
                   else Some (Some v, t\<lparr>rb_root := plug n path, rb_size := rb_size t - 1\<rparr>))))"

section \<open>The other methods\<close>

definition rb_lookup :: "('k, 'v) rbtree \<Rightarrow> 'k \<Rightarrow> 'v option" where
  "rb_lookup t key = lookup_loop (\<lambda>k. - rb_cmp t k key) (rb_root t)"

definition rb_Get :: "'k \<Rightarrow> ('k, 'v) rbtree \<Rightarrow> 'v option" where
  "rb_Get key t = rb_lookup t key"

definition rb_Size :: "('k, 'v) rbtree \<Rightarrow> int" where
  "rb_Size t = rb_size t"

definition rb_IsEmpty :: "('k, 'v) rbtree \<Rightarrow> bool" where
  "rb_IsEmpty t \<longleftrightarrow> rb_size t = 0"

definition rb_Clear :: "('k, 'v) rbtree \<Rightarrow> ('k, 'v) rbtree" where
  "rb_Clear t = t\<lparr>rb_root := Tip, rb_size := 0\<rparr>"

definition rb_Keys :: "('k, 'v) rbtree \<Rightarrow> 'k list" where
  "rb_Keys t = snd (walk_in (\<lambda>k v keys. (True, keys @ [k])) (rb_root t) [])"

definition rb_Values :: "('k, 'v) rbtree \<Rightarrow> 'v list" where
  "rb_Values t = snd (walk_in (\<lambda>k v values. (True, values @ [v])) (rb_root t) [])"

definition rb_Min :: "('k, 'v) rbtree \<Rightarrow> ('k \<times> 'v) option" where
  "rb_Min t = leftmost (rb_root t)"

definition rb_Max :: "('k, 'v) rbtree \<Rightarrow> ('k \<times> 'v) option" where
  "rb_Max t = rightmost (rb_root t)"

definition rb_Floor :: "'k \<Rightarrow> ('k, 'v) rbtree \<Rightarrow> ('k \<times> 'v) option" where
  "rb_Floor key t = floor_loop (\<lambda>k. - rb_cmp t k key) (rb_root t) None"

definition rb_Ceiling :: "'k \<Rightarrow> ('k, 'v) rbtree \<Rightarrow> ('k \<times> 'v) option" where
  "rb_Ceiling key t = ceiling_loop (\<lambda>k. - rb_cmp t k key) (rb_root t) None"

definition rb_PreOrder :: "('k, 'v, 's) visit option \<Rightarrow> ('k, 'v) rbtree \<Rightarrow> 's \<Rightarrow> 's" where
  "rb_PreOrder fn t s = (case fn of None \<Rightarrow> s | Some f \<Rightarrow> snd (walk_pre f (rb_root t) s))"

definition rb_InOrder :: "('k, 'v, 's) visit option \<Rightarrow> ('k, 'v) rbtree \<Rightarrow> 's \<Rightarrow> 's" where
  "rb_InOrder fn t s = (case fn of None \<Rightarrow> s | Some f \<Rightarrow> snd (walk_in f (rb_root t) s))"

definition rb_PostOrder :: "('k, 'v, 's) visit option \<Rightarrow> ('k, 'v) rbtree \<Rightarrow> 's \<Rightarrow> 's" where
  "rb_PostOrder fn t s = (case fn of None \<Rightarrow> s | Some f \<Rightarrow> snd (walk_post f (rb_root t) s))"

definition rb_LevelOrder :: "('k, 'v, 's) visit option \<Rightarrow> ('k, 'v) rbtree \<Rightarrow> 's \<Rightarrow> 's" where
  "rb_LevelOrder fn t s = (case fn of None \<Rightarrow> s | Some f \<Rightarrow> if rb_root t = Tip then s else walk_level f [rb_root t] s)"

primrec blackCount :: "('k, 'v) rbnode \<Rightarrow> int" where
  "blackCount Tip = 0"
| "blackCount (Node l k v c r) = blackCount l + blackCount r + (if c = Black then 1 else 0)"

primrec redCount :: "('k, 'v) rbnode \<Rightarrow> int" where
  "redCount Tip = 0"
| "redCount (Node l k v c r) = redCount l + redCount r + (if c = Red then 1 else 0)"

primrec leafCount :: "('k, 'v) rbnode \<Rightarrow> int" where
  "leafCount Tip = 0"
| "leafCount (Node l k v c r) = (if l = Tip \<and> r = Tip then 1 else leafCount l + leafCount r)"

primrec maxDepth :: "('k, 'v) rbnode \<Rightarrow> int" where
  "maxDepth Tip = 0"
| "maxDepth (Node l k v c r) = max (maxDepth l) (maxDepth r) + 1"

primrec minDepth :: "('k, 'v) rbnode \<Rightarrow> int" where
  "minDepth Tip = 0"
| "minDepth (Node l k v c r) =
     (if l = Tip \<and> r = Tip then 1 else if l = Tip then minDepth r + 1 else if r = Tip then minDepth l + 1
      else min (minDepth l) (minDepth r) + 1)"

definition rb_BlackCount :: "('k, 'v) rbtree \<Rightarrow> int" where "rb_BlackCount t = blackCount (rb_root t)"
definition rb_RedCount :: "('k, 'v) rbtree \<Rightarrow> int" where "rb_RedCount t = redCount (rb_root t)"
definition rb_LeafCount :: "('k, 'v) rbtree \<Rightarrow> int" where "rb_LeafCount t = leafCount (rb_root t)"
definition rb_MaxDepth :: "('k, 'v) rbtree \<Rightarrow> int" where "rb_MaxDepth t = (if rb_root t = Tip then 0 else maxDepth (rb_root t))"
definition rb_MinDepth :: "('k, 'v) rbtree \<Rightarrow> int" where "rb_MinDepth t = (if rb_root t = Tip then 0 else minDepth (rb_root t))"

definition rb_NewFromSlice :: "'v list \<Rightarrow> (nat, 'v) rbtree option" where
  "rb_NewFromSlice slice = put_all rb_Put (zip [0..<length slice] slice) (rb_New cmp_Compare)"

definition rb_NewFromMap :: "('k \<times> 'v) list \<Rightarrow> ('k \<Rightarrow> 'k \<Rightarrow> int) \<Rightarrow> ('k, 'v) rbtree option" where
  "rb_NewFromMap m cmp = put_all rb_Put m (rb_New cmp)"

section \<open>Colours\<close>

primrec bh :: "('k, 'v) rbnode \<Rightarrow> nat" where
  "bh Tip = 0"
| "bh (Node l k v c r) = bh l + (if c = Black then 1 else 0)"

primrec rb :: "('k, 'v) rbnode \<Rightarrow> bool" where
  "rb Tip \<longleftrightarrow> True"
| "rb (Node l k v c r) \<longleftrightarrow> rb l \<and> rb r \<and> bh l = bh r \<and> (c = Red \<longrightarrow> colorOf l = Black \<and> colorOf r = Black)"

text \<open>A place that a subtree of a black height and a colour of its root may take.\<close>

fun fits :: "nat \<Rightarrow> color \<Rightarrow> ('k, 'v) rbpath \<Rightarrow> bool" where
  "fits h c [] \<longleftrightarrow> c = Black"
| "fits h c (f # path) \<longleftrightarrow> rb (sibling f) \<and> bh (sibling f) = h \<and>
     (frame_color f = Red \<longrightarrow> c = Black \<and> colorOf (sibling f) = Black) \<and>
     fits (h + (if frame_color f = Black then 1 else 0)) (frame_color f) path"

lemma color_cases: "(c = Black \<Longrightarrow> P) \<Longrightarrow> (c = Red \<Longrightarrow> P) \<Longrightarrow> P"
  by (cases c) auto

lemma not_red: "c \<noteq> Red \<longleftrightarrow> c = Black" "c \<noteq> Black \<longleftrightarrow> c = Red"
  by (cases c, simp_all)+

lemma fits_Black: "fits h c path \<Longrightarrow> fits h Black path"
  by (cases path) auto

lemma fits_plug: "rb t \<Longrightarrow> fits (bh t) (colorOf t) path \<Longrightarrow> rb (plug t path) \<and> colorOf (plug t path) = Black"
proof (induction path arbitrary: t)
  case (Cons f path)
  then show ?case using Cons.IH [of "up t f"] by (cases f) auto
qed simp

lemma paint_simps [simp]:
  "inorder (paint c t) = inorder t" "t \<noteq> Tip \<Longrightarrow> colorOf (paint c t) = c"
  "paint c t = Tip \<longleftrightarrow> t = Tip"
  by (cases t, auto)+

lemma frame_simps [simp]:
  "frame_color (paint_frame c f) = c" "frame_color (set_sibling s f) = frame_color f"
  "sibling (paint_frame c f) = sibling f" "sibling (set_sibling s f) = s"
  by (cases f, auto)+

lemma inorder_up: "inorder (up t (paint_frame c f)) = inorder (up t f)"
  "inorder s = inorder (sibling f) \<Longrightarrow> inorder (up t (set_sibling s f)) = inorder (up t f)"
  by (cases f, auto)+

lemma rb_paint: "rb t \<Longrightarrow> rb (paint Black t)"
  by (cases t) auto

lemma bh_paint: "colorOf t = Red \<Longrightarrow> bh (paint Black t) = Suc (bh t)"
  by (cases t) auto

section \<open>Insertion keeps the colours\<close>

text \<open>What an operation returns: a tree in order whose root is black, with given entries.\<close>

definition balanced :: "('k, 'v) rbnode \<Rightarrow> ('k \<times> 'v) list \<Rightarrow> bool" where
  "balanced t es \<longleftrightarrow> rb t \<and> colorOf t = Black \<and> inorder t = es"

lemma balanced_plug:
  "rb t \<Longrightarrow> fits (bh t) (colorOf t) path \<Longrightarrow> inorder t = inorder t' \<Longrightarrow> balanced (plug t path) (inorder (plug t' path))"
  using fits_plug by (auto simp: balanced_def inorder_plug)

lemma insertCase4_ok:
  assumes n: "rb n" "colorOf n = Red" and p: "frame_color p = Red" and u: "colorOf (sibling g) = Black"
    and fits: "fits (bh n) Black (p # g # path)"
  shows "\<exists>t. insertCase4 n (p # g # path) = Some t \<and> balanced t (inorder (plug n (p # g # path)))"
proof -
  obtain nl nk nv nr where nn: "n = Node nl nk nv Red nr" using n(2) by (cases n) auto
  have g: "frame_color g = Black" using fits p not_red by fastforce
  show ?thesis
  proof (cases p; cases g)
    fix pk pv pc pr gk gv gc gr assume pg: "p = LeftOf pk pv pc pr" "g = LeftOf gk gv gc gr"
    show ?thesis using pg n nn p g u fits by (auto intro!: balanced_plug)
  next
    fix pk pv pc pr gl gk gv gc assume pg: "p = LeftOf pk pv pc pr" "g = RightOf gl gk gv gc"
    show ?thesis using pg n nn p g u fits by (auto intro!: balanced_plug)
  next
    fix pl pk pv pc gk gv gc gr assume pg: "p = RightOf pl pk pv pc" "g = LeftOf gk gv gc gr"
    show ?thesis using pg n nn p g u fits by (auto intro!: balanced_plug)
  next
    fix pl pk pv pc gl gk gv gc assume pg: "p = RightOf pl pk pv pc" "g = RightOf gl gk gv gc"
    show ?thesis using pg n nn p g u fits by (auto intro!: balanced_plug)
  qed
qed

text \<open>A red uncle: the parent and the uncle turn black, and the grandparent red.\<close>

lemma recolour_ok:
  assumes "rb n" "fits (bh n) Black (p # g # path)" "frame_color p = Red" "frame_color g = Black" "colorOf (sibling g) = Red"
  defines "t \<equiv> up (up n (paint_frame Black p)) (paint_frame Red (set_sibling (paint Black (sibling g)) g))"
  shows "rb t \<and> colorOf t = Red \<and> fits (bh t) Black path"
proof -
  obtain ul uk uv ur where u: "sibling g = Node ul uk uv Red ur" using assms(5) by (cases "sibling g") auto
  show ?thesis unfolding t_def using assms(1-4) u by (cases p; cases g; clarsimp)
qed

declare insertCase1.simps [simp del] insertCase2.simps [simp del] insertCase3.simps [simp del]
  deleteCase1.simps [simp del] deleteCase2.simps [simp del] deleteCase3.simps [simp del]

lemma insertCase1_ok:
  "rb n \<Longrightarrow> colorOf n = Red \<Longrightarrow> fits (bh n) Black path \<Longrightarrow> \<exists>t. insertCase1 n path = Some t \<and> balanced t (inorder (plug n path))"
proof (induction "length path" arbitrary: n path rule: less_induct)
  case less
  note n = less.prems(1,2)
  note unf = insertCase1.simps [of n path] insertCase2.simps [of n path] insertCase3.simps [of n path]
  show ?case
  proof (cases path)
    case Nil
    then have "insertCase1 n path = Some (paint Black n)" using unf(1) by simp
    moreover have "n \<noteq> Tip" using n by auto
    ultimately show ?thesis using Nil rb_paint [OF n(1)] by (simp add: balanced_def)
  next
    case (Cons p rest)
    show ?thesis
    proof (cases "frame_color p = Black")
      case True
      then have "fits (bh n) (colorOf n) path" using less.prems Cons by (auto simp: not_red)
      moreover have "insertCase1 n path = Some (plug n path)" using unf(1,2) True Cons by simp
      ultimately show ?thesis using balanced_plug [OF n(1)] by blast
    next
      case False
      then obtain g rest' where g: "rest = g # rest'" "frame_color g = Black"
        using less.prems(3) Cons by (cases rest) (auto simp: not_red)
      have eq: "insertCase1 n path = insertCase3 n path" using unf(1,2) Cons False by simp
      show ?thesis
      proof (cases "colorOf (sibling g) = Red")
        case True
        let ?g = "up (up n (paint_frame Black p)) (paint_frame Red (set_sibling (paint Black (sibling g)) g))"
        have "insertCase1 n path = insertCase1 ?g rest'" using unf(3) True eq Cons g(1) by simp
        moreover have "rb ?g" "colorOf ?g = Red" "fits (bh ?g) Black rest'"
          using recolour_ok [OF n(1), of p g rest'] less.prems(3) Cons g True False by (auto simp: not_red)
        moreover have "inorder (plug ?g rest') = inorder (plug n path)"
          using Cons g by (cases p; cases g) (simp_all add: inorder_plug)
        ultimately show ?thesis using less.hyps [of rest' ?g] Cons g(1) by simp
      next
        case no: False
        have "insertCase1 n path = insertCase4 n (p # g # rest')" using unf(3) no eq Cons g(1) by simp
        then show ?thesis using insertCase4_ok [OF n, of p g rest'] False no less.prems(3) Cons g(1) by (simp add: not_red del: insertCase4.simps plug.simps fits.simps)
      qed
    qed
  qed
qed

text \<open>Going down keeps the place fitting.\<close>

lemma fits_down:
  assumes "rb (Node l k v c r)" "fits (bh (Node l k v c r)) c path"
  shows "fits (bh l) (colorOf l) (LeftOf k v c r # path)" "fits (bh r) (colorOf r) (RightOf l k v c # path)"
  using assms by auto

context comparator
begin

lemma rb_put_loop_ok:
  "rb t \<Longrightarrow> fits (bh t) (colorOf t) path \<Longrightarrow> ascending cmp (inorder t) \<Longrightarrow>
   \<exists>t'. rb_put_loop cmp key val t path = Some (t', get_list cmp key (inorder t) = None) \<and>
     balanced t' (entries_before path @ ins_list cmp False key val (inorder t) @ entries_after path)"
proof (induction t arbitrary: path)
  case Tip
  have "fits 0 Black path" using Tip by simp
  then obtain t where "insertCase1 (Node Tip key val Red Tip) path = Some t" "balanced t (inorder (plug (Node Tip key val Red Tip) path))"
    using insertCase1_ok [of "Node Tip key val Red Tip" path] by auto
  then show ?case by (simp add: inorder_plug)
next
  case (Node l k v c r)
  have s: "ascending cmp (inorder l)" "ascending cmp (inorder r)" "ascending cmp (inorder l @ (k, v) # inorder r)"
    using Node.prems(3) by (simp_all add: ascending_append)
  have rb: "rb l" "rb r" using Node.prems(1) by simp_all
  note f = fits_down [OF Node.prems(1) Node.prems(2) [unfolded colorOf.simps]]
  consider "cmp key k = 0" | "cmp key k < 0" | "0 < cmp key k" by linarith
  then show ?case
  proof cases
    case 1
    have "balanced (plug (Node l k val c r) path) (inorder (plug (Node l k val c r) path))"
      by (rule balanced_plug) (use Node.prems in auto)
    then show ?thesis using 1 cmp_zero_sym by (simp add: inorder_plug ins_list_equal [OF s(3)] get_list_equal [OF s(3)])
  next
    case 2
    then have "0 < cmp k key" using cmp_sign by blast
    then show ?thesis using Node.IH(1) [OF rb(1) f(1) s(1)] 2 by (auto simp: ins_list_less [OF s(3)] get_list_less [OF s(3)])
  next
    case 3
    then have "cmp k key < 0" using cmp_sign by blast
    then show ?thesis using Node.IH(2) [OF rb(2) f(2) s(2)] 3 by (auto simp: ins_list_greater [OF s(3)] get_list_greater [OF s(3)])
  qed
qed

end

section \<open>Deletion keeps the colours\<close>

text \<open>
  A node with a black too few below it: after the cases its place takes a subtree of that height and of
  either colour, or it is the root, and the entries around it are the same.
\<close>

definition repaired :: "nat \<Rightarrow> ('k, 'v) rbpath \<Rightarrow> ('k, 'v) rbpath \<Rightarrow> bool" where
  "repaired h path path' \<longleftrightarrow> (path' = [] \<or> fits h Red path') \<and>
     entries_before path' = entries_before path \<and> entries_after path' = entries_after path"

lemma red_NodeE: "colorOf t = Red \<Longrightarrow> (\<And>l k v r. t = Node l k v Red r \<Longrightarrow> P) \<Longrightarrow> P"
  by (cases t) auto

lemma deleteCase6_ok:
  assumes "fits (Suc h) Black (f # path)" "sibling f = Node sl sk sv Black sr"
    "case f of LeftOf _ _ _ _ \<Rightarrow> colorOf sr = Red | RightOf _ _ _ _ \<Rightarrow> colorOf sl = Red"
  shows "\<exists>path'. deleteCase6 (f # path) = Some path' \<and> repaired h (f # path) path'"
proof (cases f)
  case (LeftOf k v c s)
  then have "colorOf sr = Red" using assms(3) by simp
  then show ?thesis using assms LeftOf by (elim red_NodeE) (auto simp: repaired_def not_red)
next
  case (RightOf s k v c)
  then have "colorOf sl = Red" using assms(3) by simp
  then show ?thesis using assms RightOf by (elim red_NodeE) (auto simp: repaired_def not_red)
qed

lemma deleteCase5_ok:
  assumes "fits (Suc h) Black (f # path)" "sibling f = Node sl sk sv Black sr" "colorOf sl = Red \<or> colorOf sr = Red"
  shows "\<exists>path'. deleteCase5 (f # path) = Some path' \<and> repaired h (f # path) path'"
proof (cases f)
  case (LeftOf k v c s)
  show ?thesis
  proof (cases "colorOf sr = Red")
    case True
    then show ?thesis using deleteCase6_ok [OF assms(1,2)] assms(2) LeftOf by simp
  next
    case False
    then have "colorOf sl = Red" using assms(3) by blast
    then obtain al ak av ar where a: "sl = Node al ak av Red ar" by (rule red_NodeE)
    let ?s = "Node al ak av Black (Node ar sk sv Red sr)"
    have "fits (Suc h) Black (LeftOf k v c ?s # path)" using assms(1,2) LeftOf a False by (auto simp: not_red)
    from deleteCase6_ok [OF this, of al ak av "Node ar sk sv Red sr"]
    obtain path' where "deleteCase6 (LeftOf k v c ?s # path) = Some path'" "repaired h (LeftOf k v c ?s # path) path'" by auto
    then show ?thesis using assms(2) LeftOf a False by (simp add: repaired_def not_red)
  qed
next
  case (RightOf s k v c)
  show ?thesis
  proof (cases "colorOf sl = Red")
    case True
    then show ?thesis using deleteCase6_ok [OF assms(1,2)] assms(2) RightOf by simp
  next
    case False
    then have "colorOf sr = Red" using assms(3) by blast
    then obtain al ak av ar where a: "sr = Node al ak av Red ar" by (rule red_NodeE)
    let ?s = "Node (Node sl sk sv Red al) ak av Black ar"
    have "fits (Suc h) Black (RightOf ?s k v c # path)" using assms(1,2) RightOf a False by (auto simp: not_red)
    from deleteCase6_ok [OF this, of "Node sl sk sv Red al" ak av ar]
    obtain path' where "deleteCase6 (RightOf ?s k v c # path) = Some path'" "repaired h (RightOf ?s k v c # path) path'" by auto
    then show ?thesis using assms(2) RightOf a False by (simp add: repaired_def not_red)
  qed
qed

lemma deleteCase4_ok:
  assumes "fits (Suc h) Black (f # path)" "sibling f = Node sl sk sv Black sr"
    "frame_color f = Red \<or> colorOf sl = Red \<or> colorOf sr = Red"
  shows "\<exists>path'. deleteCase4 (f # path) = Some path' \<and> repaired h (f # path) path'"
proof (cases "colorOf sl = Red \<or> colorOf sr = Red")
  case True
  then show ?thesis using deleteCase5_ok [OF assms(1,2)] assms(2) by auto
next
  case False
  then have c: "frame_color f = Red" "colorOf sl = Black" "colorOf sr = Black" using assms(3) by (auto simp: not_red)
  then show ?thesis using assms(1,2) by (cases f) (auto simp: repaired_def dest: fits_Black)
qed

lemma deleteCase1_ok:
  fixes path :: "('a, 'b) rbpath"
  shows "fits (Suc h) Black path \<Longrightarrow> \<exists>path'. deleteCase1 path = Some path' \<and> repaired h path path'"
proof (induction "length path" arbitrary: h path rule: less_induct)
  case less
  have case3: "\<exists>path'. deleteCase3 (f # rest) = Some path' \<and> repaired h' (f # rest) path'"
    if f: "fits (Suc h') Black (f # rest)" "colorOf (sibling f) = Black" "frame_color f = Black \<Longrightarrow> length rest < length path"
    for f and rest :: "('a, 'b) rbpath" and h'
  proof -
    obtain sl sk sv sr where s: "sibling f = Node sl sk sv Black sr"
      using f(1,2) by (cases "sibling f") auto
    show ?thesis
    proof (cases "frame_color f = Black \<and> colorOf sl = Black \<and> colorOf sr = Black")
      case True
      have "fits (Suc (Suc h')) Black rest" using f(1) True by simp
      then obtain rest' where "deleteCase1 rest = Some rest'" "repaired (Suc h') rest rest'" using less.hyps [of rest "Suc h'"] f(3) True by blast
      moreover then have "deleteCase3 (f # rest) = Some (set_sibling (Node sl sk sv Red sr) f # rest')"
        using True s deleteCase3.simps [of "f # rest"] by simp
      moreover have "fits (Suc h') Black rest'" using calculation(2) fits_Black by (auto simp: repaired_def)
      ultimately show ?thesis using True s f(1) by (cases f) (auto simp: repaired_def)
    next
      case False
      then show ?thesis using deleteCase4_ok [OF f(1) s] s by (auto simp: deleteCase3.simps [of "f # rest"] not_red)
    qed
  qed
  note unf = deleteCase1.simps [of path] deleteCase2.simps [of path]
  show ?case
  proof (cases path)
    case Nil
    then show ?thesis using unf(1) by (simp add: repaired_def)
  next
    case (Cons f rest)
    show ?thesis
    proof (cases "colorOf (sibling f) = Red")
      case False
      then show ?thesis using case3 [of h f rest] less.prems unf Cons by (simp add: not_red)
    next
      case True
      then obtain sl sk sv sr where s: "sibling f = Node sl sk sv Red sr" by (rule red_NodeE)
      have b: "frame_color f = Black" using less.prems Cons s by (auto simp: not_red)
      show ?thesis
      proof (cases f)
        case (LeftOf k v c x)
        have "fits (Suc h) Black (LeftOf k v Red sl # LeftOf sk sv Black sr # rest)" "colorOf sl = Black"
          using less.prems Cons LeftOf s b by auto
        from case3 [OF this(1)] this(2) show ?thesis using unf Cons LeftOf s b by (auto simp: repaired_def)
      next
        case (RightOf x k v c)
        have "fits (Suc h) Black (RightOf sr k v Red # RightOf sl sk sv Black # rest)" "colorOf sr = Black"
          using less.prems Cons RightOf s b by auto
        from case3 [OF this(1)] this(2) show ?thesis using unf Cons RightOf s b by (auto simp: repaired_def)
      qed
    qed
  qed
qed

section \<open>The two operations\<close>

lemma locate_fits:
  "locate side t path = Some (n, path') \<Longrightarrow> rb t \<Longrightarrow> fits (bh t) (colorOf t) path \<Longrightarrow> rb n \<and> fits (bh n) (colorOf n) path'"
  by (induction side t path rule: locate.induct) (auto split: if_splits)

lemma max_place_fits:
  "max_place t path = (n, path') \<Longrightarrow> rb t \<Longrightarrow> fits (bh t) (colorOf t) path \<Longrightarrow> rb n \<and> fits (bh n) (colorOf n) path'"
  by (induction t path rule: max_place.induct) (auto split: if_splits)

lemma max_place_entries:
  "max_place t path = (n, path') \<Longrightarrow> t \<noteq> Tip \<Longrightarrow>
   \<exists>l k v i. n = Node l k v i Tip \<and> rightmost t = Some (k, v) \<and> inorder t = butlast (inorder t) @ [(k, v)] \<and>
     entries_before path' @ inorder l = entries_before path @ butlast (inorder t) \<and> entries_after path' = entries_after path"
  by (induction t path rule: max_place.induct) (auto split: if_splits simp: butlast_append)

text \<open>A node with at most one child leaves its place to that child.\<close>

lemma remove_ok:
  assumes n: "rb (Node l k v c r)" "l = Tip \<or> r = Tip" and fits: "fits (bh (Node l k v c r)) c path"
  defines "ch \<equiv> if r = Tip then l else r"
  shows "\<exists>path'. (if c = Black then deleteCase1 path else Some path) = Some path' \<and>
    balanced (plug (if path' = [] then paint Black ch else ch) path') (entries_before path @ inorder ch @ entries_after path)"
proof -
  have ch: "rb ch" "bh ch = 0" "bh l = 0" using n by (auto simp: ch_def)
  have red: "colorOf ch = Red \<longrightarrow> c = Black" using n(1) by (auto simp: ch_def not_red)
  obtain path' where p: "(if c = Black then deleteCase1 path else Some path) = Some path'" "repaired 0 path path'"
    "path' \<noteq> [] \<Longrightarrow> fits 0 (colorOf ch) path'"
  proof (cases "c = Black")
    case True
    then obtain path' where "deleteCase1 path = Some path'" "repaired 0 path path'"
      using deleteCase1_ok [of 0 path] fits ch(3) by auto
    moreover then have "path' \<noteq> [] \<Longrightarrow> fits 0 (colorOf ch) path'"
      using fits_Black [of 0 Red path'] by (cases "colorOf ch") (auto simp: repaired_def)
    ultimately show ?thesis using that True by simp
  next
    case False
    then have "fits 0 Red path" using fits ch(3) by (simp add: not_red)
    moreover then have "fits 0 (colorOf ch) path" using red False fits_Black by (cases "colorOf ch") auto
    ultimately show ?thesis using that [of path] False by (simp add: repaired_def)
  qed
  have "balanced (plug (if path' = [] then paint Black ch else ch) path') (inorder (plug ch path'))"
  proof (cases "path' = []")
    case True
    then show ?thesis using rb_paint [OF ch(1)] by (cases ch) (auto simp: balanced_def)
  next
    case False
    then show ?thesis using balanced_plug [OF ch(1) _ refl, of path'] p(3) ch(2) by simp
  qed
  then show ?thesis using p by (auto simp: inorder_plug repaired_def)
qed

section \<open>The contract\<close>

definition rb_ok :: "('k \<Rightarrow> 'k \<Rightarrow> int) \<Rightarrow> ('k, 'v) rbtree \<Rightarrow> bool" where
  "rb_ok cmp t \<longleftrightarrow> rb_cmp t = cmp \<and> rb (rb_root t) \<and> colorOf (rb_root t) = Black \<and>
     ascending cmp (inorder (rb_root t)) \<and> rb_size t = int (nodes (rb_root t))"

definition rb_get :: "'k \<Rightarrow> ('k, 'v) rbtree \<Rightarrow> ('v option \<times> ('k, 'v) rbtree) option" where
  "rb_get key t = Some (rb_Get key t, t)"

context comparator
begin

lemma rb_get_ok: "rb_ok cmp t \<Longrightarrow> rb_Get key t = get_list cmp key (inorder (rb_root t))"
  unfolding rb_ok_def rb_Get_def rb_lookup_def by (elim conjE, simp only:) (rule lookup_loop_get [OF agrees_ways(2)])

lemma rb_Put_ok:
  assumes "rb_ok cmp t"
  shows "\<exists>t'. rb_Put key val t = Some t' \<and> rb_ok cmp t' \<and> inorder (rb_root t') = ins_list cmp False key val (inorder (rb_root t))"
proof (cases "rb_root t = Tip")
  case True
  then show ?thesis using assms by (simp add: rb_Put_def rb_ok_def)
next
  case False
  have t: "rb_cmp t = cmp" "rb (rb_root t)" "fits (bh (rb_root t)) (colorOf (rb_root t)) []" "ascending cmp (inorder (rb_root t))"
    using assms by (simp_all add: rb_ok_def)
  obtain r where p: "rb_put_loop cmp key val (rb_root t) [] = Some (r, get_list cmp key (inorder (rb_root t)) = None)"
      "balanced r (ins_list cmp False key val (inorder (rb_root t)))"
    using rb_put_loop_ok [OF t(2-4), of key val] by auto
  then have "nodes r = nodes (rb_root t) + (if get_list cmp key (inorder (rb_root t)) = None then 1 else 0)"
    using length_ins_list [OF t(4), of False key val] by (simp add: balanced_def flip: length_inorder)
  then show ?thesis
    using p assms False ascending_ins_list [OF t(4)] t(1) by (auto simp: rb_Put_def rb_ok_def balanced_def)
qed

text \<open>What is left when the place of a key is known.\<close>

lemma rb_Delete_place:
  assumes loc: "locate (\<lambda>k. - rb_cmp t k key) (rb_root t) [] = Some (Node l k v c r, path)"
    and n: "rb (Node l k v c r)" "fits (bh (Node l k v c r)) c path"
  shows "\<exists>root. rb_Delete key t = Some (Some v, t\<lparr>rb_root := root, rb_size := rb_size t - 1\<rparr>) \<and>
    balanced root (entries_before path @ inorder l @ inorder r @ entries_after path)"
proof (cases "l = Tip \<or> r = Tip")
  case True
  have "(case rightmost l of None \<Rightarrow> (Node l k v c r, path)
     | Some (pk, pv) \<Rightarrow> if r \<noteq> Tip then max_place l (LeftOf pk pv c r # path) else (Node l k v c r, path)) = (Node l k v c r, path)"
    using True by (auto split: option.split)
  then show ?thesis using remove_ok [OF n(1) True n(2)] True loc by (auto simp: rb_Delete_def Let_def split: if_splits)
next
  case False
  obtain pk pv where m: "rightmost l = Some (pk, pv)" using False by (cases "rightmost l") (auto simp: rightmost_inorder)
  obtain m path' where p: "max_place l (LeftOf pk pv c r # path) = (m, path')" by fastforce
  from max_place_entries [OF p] False m obtain ml mc where m': "m = Node ml pk pv mc Tip" "inorder l = butlast (inorder l) @ [(pk, pv)]"
    "entries_before path' @ inorder ml = entries_before path @ butlast (inorder l)" "entries_after path' = (pk, pv) # inorder r @ entries_after path"
    by auto
  have "rb m" "fits (bh m) (colorOf m) path'" using max_place_fits [OF p] n by auto
  then obtain path'' where
    q: "(if mc = Black then deleteCase1 path' else Some path') = Some path''"
      "balanced (plug (if path'' = [] then paint Black ml else ml) path'') (entries_before path' @ inorder ml @ entries_after path')"
    using remove_ok [of ml pk pv mc Tip path'] m'(1) by (simp only: colorOf.simps simp_thms if_True) blast
  have "entries_before path' @ inorder ml @ entries_after path' = (entries_before path' @ inorder ml) @ entries_after path'" by simp
  also have "\<dots> = entries_before path @ (butlast (inorder l) @ [(pk, pv)]) @ inorder r @ entries_after path" unfolding m'(3,4) by simp
  finally show ?thesis using q loc False m p m'(1) unfolding m'(2) [symmetric] by (auto simp: rb_Delete_def Let_def)
qed

lemma rb_Delete_ok:
  assumes "rb_ok cmp t"
  shows "\<exists>t'. rb_Delete key t = Some (get_list cmp key (inorder (rb_root t)), t') \<and> rb_ok cmp t' \<and>
    inorder (rb_root t') = del_list cmp key (inorder (rb_root t))"
proof -
  have t: "rb_cmp t = cmp" "rb (rb_root t)" "fits (bh (rb_root t)) (colorOf (rb_root t)) []" "ascending cmp (inorder (rb_root t))"
    using assms by (simp_all add: rb_ok_def)
  note e = locate_entries [OF agrees_ways(2) t(4), of key "[]"]
  show ?thesis
  proof (cases "locate (\<lambda>k. - cmp k key) (rb_root t) []")
    case None
    then have none: "get_list cmp key (inorder (rb_root t)) = None" using e by simp
    then show ?thesis using None del_list_same [OF none] assms t(1) by (simp add: rb_Delete_def)
  next
    case (Some a)
    then obtain l k v c r path where loc: "locate (\<lambda>k. - cmp k key) (rb_root t) [] = Some (Node l k v c r, path)"
      "cmp key k = 0" "get_list cmp key (inorder (rb_root t)) = Some v" using e by (cases a) auto
    have n: "rb (Node l k v c r)" "fits (bh (Node l k v c r)) c path" using locate_fits [OF loc(1) t(2,3)] unfolding colorOf.simps by blast+
    obtain root where root: "rb_Delete key t = Some (Some v, t\<lparr>rb_root := root, rb_size := rb_size t - 1\<rparr>)"
      "balanced root (entries_before path @ inorder l @ inorder r @ entries_after path)"
      using rb_Delete_place [OF _ n, of t key] loc(1) t(1) by auto
    have i: "inorder (rb_root t) = (entries_before path @ inorder l) @ (k, v) # (inorder r @ entries_after path)"
      using locate_plug [OF loc(1)] inorder_plug [of "Node l k v c r" path] by simp
    have del: "inorder root = del_list cmp key (inorder (rb_root t))"
      using root(2) del_list_equal [OF t(4) [unfolded i] loc(2)] i by (simp add: balanced_def)
    have "nodes root = nodes (rb_root t) - 1" "nodes (rb_root t) \<noteq> 0"
      using length_del_list [of key "inorder (rb_root t)"] loc(3) del i by (simp_all flip: length_inorder)
    moreover have "ascending cmp (inorder root)" using ascending_del_list [OF t(4)] del by simp
    moreover have "rb root" "colorOf root = Black" using root(2) by (simp_all add: balanced_def)
    ultimately show ?thesis using root(1) del assms loc(3) by (simp add: rb_ok_def)
  qed
qed

end

text \<open>For every comparison function the tree meets the contract of a sorted map that keeps its keys.\<close>

lemma rb_sorted_map:
  assumes "comparator cmp"
  shows "sorted_map cmp False (rb_ok cmp) (\<lambda>t. inorder (rb_root t)) rb_Size rb_Put rb_get rb_Delete rb_Clear"
proof (rule sorted_map.intro [OF assms], unfold_locales)
  fix t :: "('a, 'b) rbtree" and key val
  assume ok: "rb_ok cmp t"
  show "ascending cmp (inorder (rb_root t))" using ok by (simp add: rb_ok_def)
  show "rb_Size t = int (length (inorder (rb_root t)))" using ok by (simp add: rb_ok_def rb_Size_def length_inorder)
  show "\<exists>t'. rb_Put key val t = Some t' \<and> rb_ok cmp t' \<and> inorder (rb_root t') = ins_list cmp False key val (inorder (rb_root t))"
    by (rule comparator.rb_Put_ok [OF assms ok])
  show "\<exists>t'. rb_get key t = Some (get_list cmp key (inorder (rb_root t)), t') \<and> rb_ok cmp t' \<and> inorder (rb_root t') = inorder (rb_root t)"
    using ok by (simp add: rb_get_def comparator.rb_get_ok [OF assms ok])
  show "\<exists>t'. rb_Delete key t = Some (get_list cmp key (inorder (rb_root t)), t') \<and> rb_ok cmp t' \<and>
      inorder (rb_root t') = del_list cmp key (inorder (rb_root t))"
    by (rule comparator.rb_Delete_ok [OF assms ok])
  show "rb_ok cmp (rb_Clear t) \<and> inorder (rb_root (rb_Clear t)) = []" using ok by (simp add: rb_ok_def rb_Clear_def)
qed

interpretation rb_map: sorted_map "cmp_Compare :: 'k::linorder \<Rightarrow> 'k \<Rightarrow> int" False "rb_ok cmp_Compare" "\<lambda>t. inorder (rb_root t)"
    rb_Size rb_Put rb_get rb_Delete rb_Clear
  by (rule rb_sorted_map) (rule ordered.comparator_axioms)

section \<open>Properties\<close>

text \<open>The black height is between the depths of the leaves.\<close>

lemma maxDepth_bh: "rb t \<Longrightarrow> maxDepth t \<le> 2 * int (bh t) + (if colorOf t = Red then 1 else 0)"
  by (induction t) (auto split: if_splits simp: not_red)

lemma bh_minDepth: "rb t \<Longrightarrow> int (bh t) \<le> minDepth t"
  by (induction t) auto

lemma bh_nodes: "rb t \<Longrightarrow> 2 ^ bh t \<le> nodes t + 1"
  by (induction t) auto

lemma counts: "blackCount t + redCount t = int (nodes t)"
  by (induction t) (auto simp: not_red)

lemma rb_reads:
  assumes "comparator cmp" "rb_ok cmp t"
  shows "rb_Keys t = map fst (inorder (rb_root t))" "rb_Values t = map snd (inorder (rb_root t))"
    "rb_Min t = (case inorder (rb_root t) of [] \<Rightarrow> None | e # _ \<Rightarrow> Some e)"
    "rb_Max t = (if inorder (rb_root t) = [] then None else Some (last (inorder (rb_root t))))"
    "rb_Floor key t = floor_list cmp key (inorder (rb_root t))" "rb_Ceiling key t = ceiling_list cmp key (inorder (rb_root t))"
    "rb_BlackCount t + rb_RedCount t = rb_Size t"
proof -
  have t: "rb_cmp t = cmp" "ascending cmp (inorder (rb_root t))" "rb_size t = int (nodes (rb_root t))"
    using assms(2) by (simp_all add: rb_ok_def)
  show "rb_Keys t = map fst (inorder (rb_root t))" "rb_Values t = map snd (inorder (rb_root t))"
    by (simp_all add: rb_Keys_def rb_Values_def walks visit_collect)
  show "rb_Min t = (case inorder (rb_root t) of [] \<Rightarrow> None | e # _ \<Rightarrow> Some e)"
    "rb_Max t = (if inorder (rb_root t) = [] then None else Some (last (inorder (rb_root t))))"
    by (simp_all add: rb_Min_def rb_Max_def leftmost_inorder rightmost_inorder)
  show "rb_Floor key t = floor_list cmp key (inorder (rb_root t))" "rb_Ceiling key t = ceiling_list cmp key (inorder (rb_root t))"
    using comparator.floor_loop_list [OF assms(1) comparator.agrees_ways(2) [OF assms(1)] t(2)]
      comparator.ceiling_loop_list [OF assms(1) comparator.agrees_ways(2) [OF assms(1)] t(2)]
    by (simp_all add: rb_Floor_def rb_Ceiling_def t(1) split: option.split)
  show "rb_BlackCount t + rb_RedCount t = rb_Size t" by (simp add: rb_BlackCount_def rb_RedCount_def rb_Size_def counts t(3))
qed

lemma rb_depths:
  assumes "rb_ok cmp t"
  shows "rb_MaxDepth t \<le> 2 * rb_MinDepth t" "2 ^ (nat (rb_MaxDepth t) div 2) \<le> rb_Size t + 1"
proof -
  have t: "rb (rb_root t)" "colorOf (rb_root t) = Black" "rb_size t = int (nodes (rb_root t))" using assms by (simp_all add: rb_ok_def)
  have d: "rb_MaxDepth t = maxDepth (rb_root t)" "rb_MinDepth t = minDepth (rb_root t)" by (simp_all add: rb_MaxDepth_def rb_MinDepth_def)
  have m: "maxDepth (rb_root t) \<le> 2 * int (bh (rb_root t))" using maxDepth_bh [OF t(1)] t(2) by simp
  show "rb_MaxDepth t \<le> 2 * rb_MinDepth t" using m bh_minDepth [OF t(1)] d by linarith
  have "(2::int) ^ (nat (rb_MaxDepth t) div 2) \<le> 2 ^ bh (rb_root t)" using m d by (intro power_increasing) auto
  also have "\<dots> = int (2 ^ bh (rb_root t))" by simp
  also have "\<dots> \<le> int (nodes (rb_root t) + 1)" using bh_nodes [OF t(1)] by (rule zle_int [THEN iffD2])
  finally show "2 ^ (nat (rb_MaxDepth t) div 2) \<le> rb_Size t + 1" by (simp add: rb_Size_def t(3))
qed

text \<open>
  C39: The red-black tree is a sorted map that stays balanced: any sequence of puts, gets, deletes and
  clears on a new tree returns, without touching a nil node in any of the repair cases, answers as the
  ordered association list does and leaves its keys and values; its other reads are those of the list,
  no leaf is more than twice as deep as another, and the depth is logarithmic in the size.
\<close>

theorem rb_tree_is_balanced_map:
  assumes "comparator cmp"
  shows "\<exists>t. map_run (map_step rb_Put rb_get rb_Delete rb_Clear) calls (rb_New cmp) = Some (fst (spec_run cmp False calls []), t) \<and>
    (let es = snd (spec_run cmp False calls [])
     in ascending cmp es \<and> rb_Keys t = map fst es \<and> rb_Values t = map snd es \<and> rb_Size t = int (length es) \<and>
        (rb_IsEmpty t \<longleftrightarrow> es = []) \<and>
        rb_Min t = (case es of [] \<Rightarrow> None | e # _ \<Rightarrow> Some e) \<and> rb_Max t = (if es = [] then None else Some (last es)) \<and>
        rb_Floor key t = floor_list cmp key es \<and> rb_Ceiling key t = ceiling_list cmp key es \<and>
        rb_BlackCount t + rb_RedCount t = rb_Size t \<and>
        rb_MaxDepth t \<le> 2 * rb_MinDepth t \<and> 2 ^ (nat (rb_MaxDepth t) div 2) \<le> rb_Size t + 1)"
proof -
  have new: "rb_ok cmp (rb_New cmp)" "inorder (rb_root (rb_New cmp)) = []" by (simp_all add: rb_ok_def rb_New_def)
  from sorted_map.run_spec [OF rb_sorted_map [OF assms] new(1), of calls] obtain t where
    t: "map_run (map_step rb_Put rb_get rb_Delete rb_Clear) calls (rb_New cmp) = Some (fst (spec_run cmp False calls []), t)" "rb_ok cmp t"
      "inorder (rb_root t) = snd (spec_run cmp False calls [])" "rb_Size t = int (length (inorder (rb_root t)))" "ascending cmp (inorder (rb_root t))"
    unfolding new(2) by blast
  have "rb_IsEmpty t \<longleftrightarrow> inorder (rb_root t) = []" using t(4) by (simp add: rb_IsEmpty_def rb_Size_def)
  then show ?thesis using t rb_reads [OF assms t(2)] rb_depths [OF t(2)] by (intro exI [of _ t]) (simp add: Let_def)
qed

theorem rb_tree_is_balanced_map_witness:
  "\<exists>t. map_run (map_step rb_Put rb_get rb_Delete rb_Clear) [OpPut 2 ''b'', OpPut 1 ''a'', OpPut 3 ''c'', OpDelete 2, OpGet (1 :: int)] (rb_New cmp_Compare) =
     Some ([None, None, None, Some ''b'', Some ''a''], t) \<and> rb_Keys t = [1, 3]"
  using rb_tree_is_balanced_map [OF ordered.comparator_axioms, of "[OpPut 2 ''b'', OpPut 1 ''a'', OpPut 3 ''c'', OpDelete 2, OpGet (1 :: int)]" 0]
  by (simp add: cmp_Compare_def Let_def) blast

end
