(* ===== verification/Ds_Splay.thy ===== *)
theory Ds_Splay
  imports Ds_Rbtree
begin

text \<open>
  The splay tree of \<^verbatim>\<open>src/ds/tree/splaytree\<close>. Every access ends by rotating a node up to the root along
  its parent pointers; the node is given with its way to the root. The rotations keep the entries in
  order, the node that is splayed ends at the root, and the tree is a sorted map.
\<close>

section \<open>The tree\<close>

text \<open>The nodes carry no balance.\<close>

datatype plain = Plain

type_synonym ('k, 'v) spnode = "('k, 'v, plain) bst"
type_synonym ('k, 'v) sppath = "('k, 'v, plain) frame list"
type_synonym ('k, 'v) place = "('k, 'v) spnode \<times> ('k, 'v) sppath"

record ('k, 'v) splaytree =
  sp_root :: "('k, 'v) spnode"
  sp_cmp :: "'k \<Rightarrow> 'k \<Rightarrow> int"
  sp_size :: int

definition sp_New :: "('k \<Rightarrow> 'k \<Rightarrow> int) \<Rightarrow> ('k, 'v) splaytree" where
  "sp_New cmp = \<lparr>sp_root = Tip, sp_cmp = cmp, sp_size = 0\<rparr>"

section \<open>Rotations\<close>

text \<open>A rotation changes the subtree of the node it is given; without the children it moves, nothing.\<close>

fun rotateZigRight :: "('k, 'v) spnode \<Rightarrow> ('k, 'v) spnode" where
  "rotateZigRight (Node (Node a pk pv pi b) gk gv gi c) = Node a pk pv pi (Node b gk gv gi c)"
| "rotateZigRight g = g"

fun rotateZigLeft :: "('k, 'v) spnode \<Rightarrow> ('k, 'v) spnode" where
  "rotateZigLeft (Node a gk gv gi (Node b pk pv pi c)) = Node (Node a gk gv gi b) pk pv pi c"
| "rotateZigLeft g = g"

fun rotateZigZigRight :: "('k, 'v) spnode \<Rightarrow> ('k, 'v) spnode" where
  "rotateZigZigRight (Node (Node (Node a xk xv xi b) pk pv pi c) gk gv gi d) =
     Node a xk xv xi (Node b pk pv pi (Node c gk gv gi d))"
| "rotateZigZigRight g = g"

fun rotateZigZigLeft :: "('k, 'v) spnode \<Rightarrow> ('k, 'v) spnode" where
  "rotateZigZigLeft (Node a gk gv gi (Node b pk pv pi (Node c xk xv xi d))) =
     Node (Node (Node a gk gv gi b) pk pv pi c) xk xv xi d"
| "rotateZigZigLeft g = g"

fun rotateZigZagRightLeft :: "('k, 'v) spnode \<Rightarrow> ('k, 'v) spnode" where
  "rotateZigZagRightLeft (Node d gk gv gi (Node (Node a xk xv xi b) pk pv pi c)) =
     Node (Node d gk gv gi a) xk xv xi (Node b pk pv pi c)"
| "rotateZigZagRightLeft g = g"

fun rotateZigZagLeftRight :: "('k, 'v) spnode \<Rightarrow> ('k, 'v) spnode" where
  "rotateZigZagLeftRight (Node (Node d pk pv pi (Node a xk xv xi b)) gk gv gi c) =
     Node (Node d pk pv pi a) xk xv xi (Node b gk gv gi c)"
| "rotateZigZagLeftRight g = g"

text \<open>The loop of \<open>splay\<close>: two levels at a time, then one. The result is the tree at \<open>t.root\<close>.\<close>

fun splay :: "('k, 'v) spnode \<Rightarrow> ('k, 'v) sppath \<Rightarrow> ('k, 'v) spnode" where
  "splay x [] = x"
| "splay x [p] =
     (case p of
        LeftOf _ _ _ _ \<Rightarrow> rotateZigRight (up x p)
      | RightOf _ _ _ _ \<Rightarrow> rotateZigLeft (up x p))"
| "splay x (p # g # path) =
     (let t = up (up x p) g
      in splay (case (g, p) of
           (LeftOf _ _ _ _, LeftOf _ _ _ _) \<Rightarrow> rotateZigZigRight t
         | (RightOf _ _ _ _, RightOf _ _ _ _) \<Rightarrow> rotateZigZigLeft t
         | (LeftOf _ _ _ _, RightOf _ _ _ _) \<Rightarrow> rotateZigZagLeftRight t
         | _ \<Rightarrow> rotateZigZagRightLeft t) path)"

section \<open>The operations\<close>

text \<open>The loop of a put, with whether it made a node.\<close>

fun sp_put_loop :: "('k \<Rightarrow> 'k \<Rightarrow> int) \<Rightarrow> 'k \<Rightarrow> 'v \<Rightarrow> ('k, 'v) spnode \<Rightarrow> ('k, 'v) sppath \<Rightarrow> ('k, 'v) spnode \<times> bool" where
  "sp_put_loop cmp key val Tip path = (splay (Node Tip key val Plain Tip) path, True)"
| "sp_put_loop cmp key val (Node l k v i r) path =
     (let res = cmp key k
      in if res = 0 then (splay (Node l k val i r) path, False)
         else if res < 0 then sp_put_loop cmp key val l (LeftOf k v i r # path)
         else sp_put_loop cmp key val r (RightOf l k v i # path))"

definition sp_Put :: "'k \<Rightarrow> 'v \<Rightarrow> ('k, 'v) splaytree \<Rightarrow> ('k, 'v) splaytree" where
  "sp_Put key val t =
     (if sp_root t = Tip then t\<lparr>sp_root := Node Tip key val Plain Tip, sp_size := sp_size t + 1\<rparr>
      else (let (root, added) = sp_put_loop (sp_cmp t) key val (sp_root t) []
            in t\<lparr>sp_root := root, sp_size := sp_size t + (if added then 1 else 0)\<rparr>))"

text \<open>The last node on the search path of a key.\<close>

fun search_place :: "('k \<Rightarrow> int) \<Rightarrow> ('k, 'v) spnode \<Rightarrow> ('k, 'v) sppath \<Rightarrow> ('k, 'v) place" where
  "search_place side Tip path = (Tip, path)"
| "search_place side (Node l k v i r) path =
     (if side k = 0 then (Node l k v i r, path)
      else if side k > 0 then (if r = Tip then (Node l k v i r, path) else search_place side r (RightOf l k v i # path))
      else (if l = Tip then (Node l k v i r, path) else search_place side l (LeftOf k v i r # path)))"

definition splay_place :: "('k, 'v) place \<Rightarrow> ('k, 'v) splaytree \<Rightarrow> ('k, 'v) splaytree" where
  "splay_place pl t = t\<lparr>sp_root := splay (fst pl) (snd pl)\<rparr>"

definition sp_lookup :: "'k \<Rightarrow> ('k, 'v) splaytree \<Rightarrow> ('v option \<times> ('k, 'v) splaytree) option" where
  "sp_lookup key t =
     (let t = splay_place (search_place (sp_cmp t key) (sp_root t) []) t
      in case sp_root t of
           Tip \<Rightarrow> None
         | Node l k v i r \<Rightarrow> Some (if sp_cmp t key k = 0 then Some v else None, t))"

definition sp_Get :: "'k \<Rightarrow> ('k, 'v) splaytree \<Rightarrow> ('v option \<times> ('k, 'v) splaytree) option" where
  "sp_Get key t = (if sp_root t = Tip then Some (None, t) else sp_lookup key t)"

text \<open>
  With two children the greatest node of the left one is splayed; its way to the root still goes
  through the node that is deleted, which the write of the right child then takes out.
\<close>

fun set_right :: "('k, 'v) spnode \<Rightarrow> ('k, 'v) spnode \<Rightarrow> ('k, 'v) spnode option" where
  "set_right right Tip = None"
| "set_right right (Node l k v i r) = Some (Node l k v i right)"

definition sp_Delete :: "'k \<Rightarrow> ('k, 'v) splaytree \<Rightarrow> ('v option \<times> ('k, 'v) splaytree) option" where
  "sp_Delete key t =
     (if sp_root t = Tip then Some (None, t)
      else do {
        (found, t) \<leftarrow> sp_lookup key t;
        (case found of
           None \<Rightarrow> Some (None, t)
         | Some _ \<Rightarrow>
             (case sp_root t of
                Tip \<Rightarrow> None
              | Node l k v i r \<Rightarrow>
                  (if l = Tip then Some (Some v, t\<lparr>sp_root := r, sp_size := sp_size t - 1\<rparr>)
                   else if r = Tip then Some (Some v, t\<lparr>sp_root := l, sp_size := sp_size t - 1\<rparr>)
                   else do {
                     root \<leftarrow> (case max_place l [LeftOf k v i r] of (n, path) \<Rightarrow> set_right r (splay n path));
                     Some (Some v, t\<lparr>sp_root := root, sp_size := sp_size t - 1\<rparr>)
                   })))
      })"

definition sp_Size :: "('k, 'v) splaytree \<Rightarrow> int" where
  "sp_Size t = sp_size t"

definition sp_IsEmpty :: "('k, 'v) splaytree \<Rightarrow> bool" where
  "sp_IsEmpty t \<longleftrightarrow> sp_size t = 0"

definition sp_Clear :: "('k, 'v) splaytree \<Rightarrow> ('k, 'v) splaytree" where
  "sp_Clear t = t\<lparr>sp_root := Tip, sp_size := 0\<rparr>"

definition sp_Keys :: "('k, 'v) splaytree \<Rightarrow> 'k list" where
  "sp_Keys t = snd (walk_in (\<lambda>k v keys. (True, keys @ [k])) (sp_root t) [])"

definition sp_Values :: "('k, 'v) splaytree \<Rightarrow> 'v list" where
  "sp_Values t = snd (walk_in (\<lambda>k v values. (True, values @ [v])) (sp_root t) [])"

text \<open>Reads that splay the node they answer with.\<close>

fun min_place :: "('k, 'v) spnode \<Rightarrow> ('k, 'v) sppath \<Rightarrow> ('k, 'v) place" where
  "min_place Tip path = (Tip, path)"
| "min_place (Node l k v i r) path = (if l = Tip then (Node l k v i r, path) else min_place l (LeftOf k v i r # path))"

fun floor_place :: "('k \<Rightarrow> int) \<Rightarrow> ('k, 'v) spnode \<Rightarrow> ('k, 'v) sppath \<Rightarrow> ('k, 'v) place option \<Rightarrow> ('k, 'v) place option" where
  "floor_place side Tip path lastLE = lastLE"
| "floor_place side (Node l k v i r) path lastLE =
     (if side k = 0 then Some (Node l k v i r, path)
      else if side k < 0 then floor_place side l (LeftOf k v i r # path) lastLE
      else floor_place side r (RightOf l k v i # path) (Some (Node l k v i r, path)))"

fun ceiling_place :: "('k \<Rightarrow> int) \<Rightarrow> ('k, 'v) spnode \<Rightarrow> ('k, 'v) sppath \<Rightarrow> ('k, 'v) place option \<Rightarrow> ('k, 'v) place option" where
  "ceiling_place side Tip path firstGE = firstGE"
| "ceiling_place side (Node l k v i r) path firstGE =
     (if side k = 0 then Some (Node l k v i r, path)
      else if side k < 0 then ceiling_place side l (LeftOf k v i r # path) (Some (Node l k v i r, path))
      else ceiling_place side r (RightOf l k v i # path) firstGE)"

fun entry :: "('k, 'v, 'i) bst \<Rightarrow> ('k \<times> 'v) option" where
  "entry Tip = None"
| "entry (Node l k v i r) = Some (k, v)"

definition answer_place :: "('k, 'v) place option \<Rightarrow> ('k, 'v) splaytree \<Rightarrow> ('k \<times> 'v) option \<times> ('k, 'v) splaytree" where
  "answer_place pl t = (case pl of None \<Rightarrow> (None, t) | Some p \<Rightarrow> (entry (fst p), splay_place p t))"

definition sp_Min :: "('k, 'v) splaytree \<Rightarrow> ('k \<times> 'v) option \<times> ('k, 'v) splaytree" where
  "sp_Min t = (if sp_root t = Tip then (None, t) else answer_place (Some (min_place (sp_root t) [])) t)"

definition sp_Max :: "('k, 'v) splaytree \<Rightarrow> ('k \<times> 'v) option \<times> ('k, 'v) splaytree" where
  "sp_Max t = (if sp_root t = Tip then (None, t) else answer_place (Some (max_place (sp_root t) [])) t)"

definition sp_Floor :: "'k \<Rightarrow> ('k, 'v) splaytree \<Rightarrow> ('k \<times> 'v) option \<times> ('k, 'v) splaytree" where
  "sp_Floor key t = answer_place (floor_place (sp_cmp t key) (sp_root t) [] None) t"

definition sp_Ceiling :: "'k \<Rightarrow> ('k, 'v) splaytree \<Rightarrow> ('k \<times> 'v) option \<times> ('k, 'v) splaytree" where
  "sp_Ceiling key t = answer_place (ceiling_place (sp_cmp t key) (sp_root t) [] None) t"

definition sp_PreOrder :: "('k, 'v, 's) visit option \<Rightarrow> ('k, 'v) splaytree \<Rightarrow> 's \<Rightarrow> 's" where
  "sp_PreOrder fn t s = (case fn of None \<Rightarrow> s | Some f \<Rightarrow> snd (walk_pre f (sp_root t) s))"

definition sp_InOrder :: "('k, 'v, 's) visit option \<Rightarrow> ('k, 'v) splaytree \<Rightarrow> 's \<Rightarrow> 's" where
  "sp_InOrder fn t s = (case fn of None \<Rightarrow> s | Some f \<Rightarrow> snd (walk_in f (sp_root t) s))"

definition sp_PostOrder :: "('k, 'v, 's) visit option \<Rightarrow> ('k, 'v) splaytree \<Rightarrow> 's \<Rightarrow> 's" where
  "sp_PostOrder fn t s = (case fn of None \<Rightarrow> s | Some f \<Rightarrow> snd (walk_post f (sp_root t) s))"

definition sp_LevelOrder :: "('k, 'v, 's) visit option \<Rightarrow> ('k, 'v) splaytree \<Rightarrow> 's \<Rightarrow> 's" where
  "sp_LevelOrder fn t s = (case fn of None \<Rightarrow> s | Some f \<Rightarrow> if sp_root t = Tip then s else walk_level f [sp_root t] s)"

definition sp_NewFromSlice :: "'v list \<Rightarrow> (nat, 'v) splaytree" where
  "sp_NewFromSlice slice = fold (\<lambda>(i, v). sp_Put i v) (zip [0..<length slice] slice) (sp_New cmp_Compare)"

definition sp_NewFromMap :: "('k \<times> 'v) list \<Rightarrow> ('k \<Rightarrow> 'k \<Rightarrow> int) \<Rightarrow> ('k, 'v) splaytree" where
  "sp_NewFromMap m cmp = fold (\<lambda>(k, v). sp_Put k v) m (sp_New cmp)"

section \<open>Splaying\<close>

text \<open>The node ends at the root, between the entries before its place and those after it.\<close>

lemma splay_root:
  "\<exists>l' r'. splay (Node l k v i r) path = Node l' k v i r' \<and> inorder l' = entries_before path @ inorder l \<and> inorder r' = inorder r @ entries_after path"
proof (induction "length path" arbitrary: l r path rule: less_induct)
  case less
  consider "path = []" | p where "path = [p]" | p g rest where "path = p # g # rest" by (cases path rule: remdups_adj.cases) auto
  then show ?case
  proof cases
    case 3
    then show ?thesis using less [of rest] by (cases p; cases g) (fastforce simp: Let_def)+
  qed (auto split: frame.split)
qed

lemma splay_rootE:
  obtains l' r' where "splay (Node l k v i r) path = Node l' k v i r'"
    "inorder l' = entries_before path @ inorder l" "inorder r' = inorder r @ entries_after path"
  using splay_root [of l k v i r path] by blast

lemma inorder_splay: "n \<noteq> Tip \<Longrightarrow> inorder (splay n path) = inorder (plug n path)"
proof (cases n)
  case (Node l k v i r)
  then show ?thesis by (cases rule: splay_rootE [of l k v i r path]) (simp add: inorder_plug)
qed simp

lemma entry_splay: "n \<noteq> Tip \<Longrightarrow> entry (splay n path) = entry n"
proof (cases n)
  case (Node l k v i r)
  then show ?thesis by (cases rule: splay_rootE [of l k v i r path]) simp
qed simp

text \<open>The places the loops stop at are places of the tree they were given.\<close>

lemma search_place_plug: "t \<noteq> Tip \<Longrightarrow> search_place side t path = (n, path') \<Longrightarrow> n \<noteq> Tip \<and> plug n path' = plug t path"
  by (induction side t path rule: search_place.induct) (auto split: if_splits)

lemma min_place_plug: "t \<noteq> Tip \<Longrightarrow> min_place t path = (n, path') \<Longrightarrow> n \<noteq> Tip \<and> plug n path' = plug t path \<and> entry n = leftmost t"
  by (induction t path rule: min_place.induct) (auto split: if_splits)

lemma max_place_entry: "t \<noteq> Tip \<Longrightarrow> max_place t path = (n, path') \<Longrightarrow> entry n = rightmost t"
  by (induction t path rule: max_place.induct) (auto split: if_splits)

definition place_in :: "('k, 'v) spnode \<Rightarrow> ('k, 'v) place option \<Rightarrow> bool" where
  "place_in t pl \<longleftrightarrow> (case pl of None \<Rightarrow> True | Some p \<Rightarrow> fst p \<noteq> Tip \<and> plug (fst p) (snd p) = t)"

definition found :: "('k, 'v) place option \<Rightarrow> ('k \<times> 'v) option" where
  "found pl = Option.bind pl (\<lambda>p. entry (fst p))"

lemma found_None [simp]: "found None = None"
  by (simp add: found_def)

lemma floor_place_plug:
  "place_in (plug t path) best \<Longrightarrow> place_in (plug t path) (floor_place side t path best) \<and> found (floor_place side t path best) = floor_loop side t (found best)"
  by (induction side t path best rule: floor_place.induct) (auto simp: place_in_def found_def)

lemma ceiling_place_plug:
  "place_in (plug t path) best \<Longrightarrow> place_in (plug t path) (ceiling_place side t path best) \<and> found (ceiling_place side t path best) = ceiling_loop side t (found best)"
  by (induction side t path best rule: ceiling_place.induct) (auto simp: place_in_def found_def)

section \<open>The contract\<close>

definition sp_ok :: "('k \<Rightarrow> 'k \<Rightarrow> int) \<Rightarrow> ('k, 'v) splaytree \<Rightarrow> bool" where
  "sp_ok cmp t \<longleftrightarrow> sp_cmp t = cmp \<and> ascending cmp (inorder (sp_root t)) \<and> sp_size t = int (nodes (sp_root t))"

abbreviation entries :: "('k, 'v) splaytree \<Rightarrow> ('k \<times> 'v) list" where
  "entries t \<equiv> inorder (sp_root t)"

definition sp_put :: "'k \<Rightarrow> 'v \<Rightarrow> ('k, 'v) splaytree \<Rightarrow> ('k, 'v) splaytree option" where
  "sp_put key val t = Some (sp_Put key val t)"

lemma splay_place_ok:
  assumes "sp_ok cmp t" "n \<noteq> Tip" "plug n path = sp_root t"
  shows "sp_ok cmp (splay_place (n, path) t) \<and> entries (splay_place (n, path) t) = entries t"
  using assms inorder_splay [OF assms(2), of path] by (simp add: sp_ok_def splay_place_def flip: length_inorder)

lemma answer_place_ok:
  assumes "sp_ok cmp t" "place_in (sp_root t) pl"
  shows "\<exists>t'. answer_place pl t = (found pl, t') \<and> sp_ok cmp t' \<and> entries t' = entries t"
  using assms splay_place_ok [OF assms(1)] by (auto simp: answer_place_def place_in_def found_def split: option.split)

context comparator
begin

lemma sp_put_loop_ok:
  "ascending cmp (inorder t) \<Longrightarrow> sp_put_loop cmp key val t path = (t', added) \<Longrightarrow>
   added = (get_list cmp key (inorder t) = None) \<and>
   inorder t' = entries_before path @ ins_list cmp False key val (inorder t) @ entries_after path"
proof (induction t arbitrary: path)
  case Tip
  then show ?case using inorder_splay [of "Node Tip key val Plain Tip" path] by (auto simp: inorder_plug)
next
  case (Node l k v i r)
  have s: "ascending cmp (inorder l)" "ascending cmp (inorder r)" "ascending cmp (inorder l @ (k, v) # inorder r)"
    using Node.prems(1) by (simp_all add: ascending_append)
  consider "cmp key k = 0" | "cmp key k < 0" | "0 < cmp key k" by linarith
  then show ?case
  proof cases
    case 1
    then show ?thesis using Node.prems(2) inorder_splay [of "Node l k val i r" path]
      by (auto simp: inorder_plug ins_list_equal [OF s(3)] get_list_equal [OF s(3)])
  next
    case 2
    then show ?thesis using Node.IH(1) [OF s(1)] Node.prems(2) by (auto simp: ins_list_less [OF s(3)] get_list_less [OF s(3)])
  next
    case 3
    then show ?thesis using Node.IH(2) [OF s(2)] Node.prems(2) by (auto simp: ins_list_greater [OF s(3)] get_list_greater [OF s(3)])
  qed
qed

lemma sp_Put_ok:
  assumes "sp_ok cmp t"
  shows "sp_ok cmp (sp_Put key val t) \<and> entries (sp_Put key val t) = ins_list cmp False key val (entries t)"
proof (cases "sp_root t = Tip")
  case True
  then show ?thesis using assms by (simp add: sp_Put_def sp_ok_def)
next
  case False
  have t: "sp_cmp t = cmp" "ascending cmp (entries t)" using assms by (simp_all add: sp_ok_def)
  obtain r added where p: "sp_put_loop cmp key val (sp_root t) [] = (r, added)" by fastforce
  note q = sp_put_loop_ok [OF t(2) p]
  then have "nodes r = nodes (sp_root t) + (if added then 1 else 0)"
    using length_ins_list [OF t(2), of False key val] by (simp flip: length_inorder)
  then show ?thesis using p q assms False ascending_ins_list [OF t(2)] t(1) by (auto simp: sp_Put_def sp_ok_def)
qed

lemma search_place_entries:
  "agrees key side \<Longrightarrow> ascending cmp (inorder t) \<Longrightarrow> t \<noteq> Tip \<Longrightarrow> search_place side t path = (Node l k v i r, path') \<Longrightarrow>
   get_list cmp key (inorder t) = (if cmp key k = 0 then Some v else None)"
proof (induction t arbitrary: path)
  case (Node tl tk tv ti tr)
  have s: "ascending cmp (inorder tl)" "ascending cmp (inorder tr)" "ascending cmp (inorder tl @ (tk, tv) # inorder tr)"
    using Node.prems(2) by (simp_all add: ascending_append)
  from Node.prems(1) show ?case
  proof (cases rule: agrees_cases [of _ _ tk])
    case 1
    then show ?thesis using get_list_equal [OF s(3)] Node.prems(4) by auto
  next
    case 2
    then show ?thesis using get_list_less [OF s(3)] Node.IH(1) [OF Node.prems(1) s(1)] Node.prems(4) by (auto split: if_splits)
  next
    case 3
    then show ?thesis using get_list_greater [OF s(3)] Node.IH(2) [OF Node.prems(1) s(2)] Node.prems(4) by (auto split: if_splits)
  qed
qed simp

text \<open>A lookup brings the last node of the search path to the root, which is the key's if the tree has it.\<close>

lemma get_ok:
  assumes "sp_ok cmp t" "sp_root t \<noteq> Tip"
  shows "\<exists>t' l k v i r. sp_lookup key t = Some (get_list cmp key (entries t), t') \<and> sp_ok cmp t' \<and> entries t' = entries t \<and>
    sp_root t' = Node l k v i r \<and> get_list cmp key (entries t) = (if cmp key k = 0 then Some v else None)"
proof -
  have t: "sp_cmp t = cmp" "ascending cmp (entries t)" using assms by (simp_all add: sp_ok_def)
  obtain n path where p: "search_place (cmp key) (sp_root t) [] = (n, path)" by fastforce
  have n: "n \<noteq> Tip" "plug n path = sp_root t" using search_place_plug [OF assms(2) p] by simp_all
  then obtain l k v i r where nn: "n = Node l k v i r" by (cases n) auto
  obtain l' r' where "splay n path = Node l' k v i r'" unfolding nn by (rule splay_rootE)
  moreover have "get_list cmp key (entries t) = (if cmp key k = 0 then Some v else None)"
    using search_place_entries [OF agrees_ways(1) t(2) assms(2)] p nn by simp
  ultimately show ?thesis using splay_place_ok [OF assms(1) n] p t(1) by (auto simp: sp_lookup_def splay_place_def Let_def sp_ok_def)
qed

lemma sp_Get_ok:
  assumes "sp_ok cmp t"
  shows "\<exists>t'. sp_Get key t = Some (get_list cmp key (entries t), t') \<and> sp_ok cmp t' \<and> entries t' = entries t"
  using get_ok [OF assms, of key] assms by (auto simp: sp_Get_def)

lemma set_right_splay:
  assumes "l \<noteq> Tip"
  shows "\<exists>root. (case max_place l [LeftOf k v i r] of (n, path) \<Rightarrow> set_right r (splay n path)) = Some root \<and> inorder root = inorder l @ inorder r"
proof -
  obtain n path where p: "max_place l [LeftOf k v i r] = (n, path)" by fastforce
  from max_place_entries [OF p assms] obtain nl nk nv ni where n: "n = Node nl nk nv ni Tip" "inorder l = butlast (inorder l) @ [(nk, nv)]"
    "entries_before path @ inorder nl = butlast (inorder l)" by auto
  obtain l' r' where "splay n path = Node l' nk nv ni r'" "inorder l' = entries_before path @ inorder nl" unfolding n(1) by (rule splay_rootE)
  then show ?thesis using p n(3) by (simp add: append_Cons [of _ "[]", symmetric] n(2) [symmetric] del: append_Cons)
qed

lemma sp_Delete_ok:
  assumes "sp_ok cmp t"
  shows "\<exists>t'. sp_Delete key t = Some (get_list cmp key (entries t), t') \<and> sp_ok cmp t' \<and> entries t' = del_list cmp key (entries t)"
proof (cases "sp_root t = Tip")
  case True
  then show ?thesis using assms by (simp add: sp_Delete_def)
next
  case False
  from get_ok [OF assms this, of key] obtain t' l k v i r where g: "sp_lookup key t = Some (get_list cmp key (entries t), t')" "sp_ok cmp t'"
    "entries t' = entries t" "sp_root t' = Node l k v i r" "get_list cmp key (entries t) = (if cmp key k = 0 then Some v else None)" by blast
  show ?thesis
  proof (cases "cmp key k = 0")
    case no: False
    then show ?thesis using g False del_list_same [of key "entries t"] by (simp add: sp_Delete_def)
  next
    case True
    have e: "entries t = inorder l @ (k, v) # inorder r" using g(3,4) by simp
    have asc: "ascending cmp (entries t)" using assms by (simp add: sp_ok_def)
    have d: "del_list cmp key (entries t) = inorder l @ inorder r" using del_list_equal [of "inorder l" k v "inorder r" key] asc True e by simp
    then have asc': "ascending cmp (inorder l @ inorder r)" using ascending_del_list [OF asc, of key] by simp
    have "\<exists>root. sp_Delete key t = Some (Some v, t'\<lparr>sp_root := root, sp_size := sp_size t' - 1\<rparr>) \<and> inorder root = inorder l @ inorder r"
    proof (cases "l = Tip \<or> r = Tip")
      case child: True
      then show ?thesis using g False True by (intro exI [of _ "if l = Tip then r else l"]) (auto simp: sp_Delete_def)
    next
      case both: False
      then obtain root where "(case max_place l [LeftOf k v i r] of (n, path) \<Rightarrow> set_right r (splay n path)) = Some root" "inorder root = inorder l @ inorder r"
        using set_right_splay [where l = l and k = k and v = v and i = i and r = r] by auto
      then show ?thesis using g False True both by (intro exI [of _ root]) (simp add: sp_Delete_def)
    qed
    then obtain root where root: "sp_Delete key t = Some (Some v, t'\<lparr>sp_root := root, sp_size := sp_size t' - 1\<rparr>)" "inorder root = inorder l @ inorder r" by blast
    have "sp_ok cmp (t'\<lparr>sp_root := root, sp_size := sp_size t' - 1\<rparr>)"
      using g(2,4) root(2) asc' length_inorder [of root] length_inorder [of l] length_inorder [of r] by (simp add: sp_ok_def)
    then show ?thesis using root d g(5) True by simp
  qed
qed

end

text \<open>The reads that splay answer like the list and keep its entries.\<close>

lemma sp_reads:
  assumes "comparator cmp" "sp_ok cmp t"
  shows "\<exists>t'. sp_Min t = (case entries t of [] \<Rightarrow> None | e # _ \<Rightarrow> Some e, t') \<and> sp_ok cmp t' \<and> entries t' = entries t"
    "\<exists>t'. sp_Max t = (if entries t = [] then None else Some (last (entries t)), t') \<and> sp_ok cmp t' \<and> entries t' = entries t"
    "\<exists>t'. sp_Floor key t = (floor_list cmp key (entries t), t') \<and> sp_ok cmp t' \<and> entries t' = entries t"
    "\<exists>t'. sp_Ceiling key t = (ceiling_list cmp key (entries t), t') \<and> sp_ok cmp t' \<and> entries t' = entries t"
proof -
  have t: "sp_cmp t = cmp" "ascending cmp (entries t)" using assms(2) by (simp_all add: sp_ok_def)
  have new: "place_in (plug (sp_root t) []) None" by (simp add: place_in_def)
  obtain n path where p: "min_place (sp_root t) [] = (n, path)" by fastforce
  obtain m path' where q: "max_place (sp_root t) [] = (m, path')" by fastforce
  show "\<exists>t'. sp_Min t = (case entries t of [] \<Rightarrow> None | e # _ \<Rightarrow> Some e, t') \<and> sp_ok cmp t' \<and> entries t' = entries t"
    using answer_place_ok [OF assms(2), of "Some (n, path)"] min_place_plug [OF _ p] p assms(2)
    by (cases "sp_root t = Tip") (auto simp: sp_Min_def place_in_def found_def leftmost_inorder)
  show "\<exists>t'. sp_Max t = (if entries t = [] then None else Some (last (entries t)), t') \<and> sp_ok cmp t' \<and> entries t' = entries t"
    using answer_place_ok [OF assms(2), of "Some (m, path')"] max_place_plug [OF q] max_place_entry [OF _ q] q assms(2)
    by (cases "sp_root t = Tip") (auto simp: sp_Max_def place_in_def found_def rightmost_inorder)
  show "\<exists>t'. sp_Floor key t = (floor_list cmp key (entries t), t') \<and> sp_ok cmp t' \<and> entries t' = entries t"
    using answer_place_ok [OF assms(2) conjunct1 [OF floor_place_plug [OF new, of "cmp key", unfolded plug.simps]]]
      floor_place_plug [OF new, of "cmp key"]
      comparator.floor_loop_list [OF assms(1) comparator.agrees_ways(1) [OF assms(1)] t(2), of key None]
    by (simp add: sp_Floor_def t(1) split: option.splits)
  show "\<exists>t'. sp_Ceiling key t = (ceiling_list cmp key (entries t), t') \<and> sp_ok cmp t' \<and> entries t' = entries t"
    using answer_place_ok [OF assms(2) conjunct1 [OF ceiling_place_plug [OF new, of "cmp key", unfolded plug.simps]]]
      ceiling_place_plug [OF new, of "cmp key"]
      comparator.ceiling_loop_list [OF assms(1) comparator.agrees_ways(1) [OF assms(1)] t(2), of key None]
    by (simp add: sp_Ceiling_def t(1) split: option.splits)
qed

lemma sp_sorted_map:
  assumes "comparator cmp"
  shows "sorted_map cmp False (sp_ok cmp) entries sp_Size sp_put sp_Get sp_Delete sp_Clear"
proof (rule sorted_map.intro [OF assms], unfold_locales)
  fix t :: "('a, 'b) splaytree" and key val
  assume ok: "sp_ok cmp t"
  show "ascending cmp (entries t)" using ok by (simp add: sp_ok_def)
  show "sp_Size t = int (length (entries t))" using ok by (simp add: sp_ok_def sp_Size_def length_inorder)
  show "\<exists>t'. sp_put key val t = Some t' \<and> sp_ok cmp t' \<and> entries t' = ins_list cmp False key val (entries t)"
    using comparator.sp_Put_ok [OF assms ok] by (simp add: sp_put_def)
  show "\<exists>t'. sp_Get key t = Some (get_list cmp key (entries t), t') \<and> sp_ok cmp t' \<and> entries t' = entries t"
    by (rule comparator.sp_Get_ok [OF assms ok])
  show "\<exists>t'. sp_Delete key t = Some (get_list cmp key (entries t), t') \<and> sp_ok cmp t' \<and> entries t' = del_list cmp key (entries t)"
    by (rule comparator.sp_Delete_ok [OF assms ok])
  show "sp_ok cmp (sp_Clear t) \<and> entries (sp_Clear t) = []" using ok by (simp add: sp_ok_def sp_Clear_def)
qed

interpretation sp_map: sorted_map "cmp_Compare :: 'k::linorder \<Rightarrow> 'k \<Rightarrow> int" False "sp_ok cmp_Compare" entries
    sp_Size sp_put sp_Get sp_Delete sp_Clear
  by (rule sp_sorted_map) (rule ordered.comparator_axioms)

section \<open>Properties\<close>

lemma sp_collect: "sp_Keys t = map fst (entries t)" "sp_Values t = map snd (entries t)"
  by (simp_all add: sp_Keys_def sp_Values_def walks visit_collect)

lemma sp_Get_root:
  assumes "comparator cmp" "sp_ok cmp t" "sp_Get key t = Some (Some v, t')"
  shows "\<exists>k. entry (sp_root t') = Some (k, v) \<and> cmp key k = 0"
proof -
  have "sp_root t \<noteq> Tip" using assms(3) by (auto simp: sp_Get_def)
  from comparator.get_ok [OF assms(1,2) this, of key] show ?thesis using assms(3) \<open>sp_root t \<noteq> Tip\<close> by (auto simp: sp_Get_def split: if_splits)
qed

text \<open>
  The splay tree is a sorted map that adapts to its accesses: any sequence of puts, gets, deletes and
  clears on a new tree returns, answers as the ordered association list does and leaves its keys and
  values, although gets rearrange the tree. A key that is found is at the root after the call. The reads
  that splay too, of the least and greatest entry and of those next to a key, answer as the list does and
  leave the entries as they were.
\<close>

theorem splay_tree_is_sorted_map:
  assumes "comparator cmp"
  shows "\<exists>t. map_run (map_step sp_put sp_Get sp_Delete sp_Clear) calls (sp_New cmp) = Some (fst (spec_run cmp False calls []), t) \<and>
    (let es = snd (spec_run cmp False calls []); same = (\<lambda>a r. fst r = a \<and> entries (snd r) = es)
     in ascending cmp es \<and> sp_Keys t = map fst es \<and> sp_Values t = map snd es \<and> sp_Size t = int (length es) \<and>
        (sp_IsEmpty t \<longleftrightarrow> es = []) \<and>
        same (case es of [] \<Rightarrow> None | e # _ \<Rightarrow> Some e) (sp_Min t) \<and> same (if es = [] then None else Some (last es)) (sp_Max t) \<and>
        same (floor_list cmp key es) (sp_Floor key t) \<and> same (ceiling_list cmp key es) (sp_Ceiling key t) \<and>
        (case sp_Get key t of
           Some (Some v, t') \<Rightarrow> \<exists>k. entry (sp_root t') = Some (k, v) \<and> cmp key k = 0
         | Some (None, t') \<Rightarrow> get_list cmp key es = None \<and> entries t' = es
         | None \<Rightarrow> False))"
proof -
  have new: "sp_ok cmp (sp_New cmp)" "entries (sp_New cmp) = []" by (simp_all add: sp_ok_def sp_New_def)
  from sorted_map.run_spec [OF sp_sorted_map [OF assms] new(1), of calls] obtain t where
    t: "map_run (map_step sp_put sp_Get sp_Delete sp_Clear) calls (sp_New cmp) = Some (fst (spec_run cmp False calls []), t)" "sp_ok cmp t"
      "entries t = snd (spec_run cmp False calls [])" "sp_Size t = int (length (entries t))" "ascending cmp (entries t)"
    unfolding new(2) by blast
  have e: "sp_IsEmpty t \<longleftrightarrow> entries t = []" using t(4) by (simp add: sp_IsEmpty_def sp_Size_def)
  obtain t' where g: "sp_Get key t = Some (get_list cmp key (entries t), t')" "entries t' = entries t"
    using comparator.sp_Get_ok [OF assms t(2)] by blast
  have "case sp_Get key t of
           Some (Some v, t') \<Rightarrow> \<exists>k. entry (sp_root t') = Some (k, v) \<and> cmp key k = 0
         | Some (None, t') \<Rightarrow> get_list cmp key (entries t) = None \<and> entries t' = entries t
         | None \<Rightarrow> False"
    using g sp_Get_root [OF assms t(2), of key] by (cases "get_list cmp key (entries t)") simp_all
  moreover have "fst (sp_Min t) = (case entries t of [] \<Rightarrow> None | e # _ \<Rightarrow> Some e)" "entries (snd (sp_Min t)) = entries t"
    "fst (sp_Max t) = (if entries t = [] then None else Some (last (entries t)))" "entries (snd (sp_Max t)) = entries t"
    using sp_reads(1,2) [OF assms t(2)] by (fastforce simp del: inorder_eq_Nil)+
  moreover have "fst (sp_Floor key t) = floor_list cmp key (entries t)" "entries (snd (sp_Floor key t)) = entries t"
    "fst (sp_Ceiling key t) = ceiling_list cmp key (entries t)" "entries (snd (sp_Ceiling key t)) = entries t"
    using sp_reads(3,4) [OF assms t(2), of key] by fastforce+
  ultimately show ?thesis using t(1,4,5) e sp_collect [of t]
    unfolding t(3) [symmetric] Let_def by (intro exI [of _ t]) (simp del: inorder_eq_Nil)
qed

theorem splay_tree_is_sorted_map_witness:
  "\<exists>t. map_run (map_step sp_put sp_Get sp_Delete sp_Clear) [OpPut 2 ''b'', OpPut 1 ''a'', OpPut 3 ''c'', OpDelete 2, OpGet (1 :: int)] (sp_New cmp_Compare) =
     Some ([None, None, None, Some ''b'', Some ''a''], t) \<and> sp_Keys t = [1, 3]"
  using splay_tree_is_sorted_map [OF ordered.comparator_axioms, of "[OpPut 2 ''b'', OpPut 1 ''a'', OpPut 3 ''c'', OpDelete 2, OpGet (1 :: int)]" 0]
  by (simp add: cmp_Compare_def Let_def) blast

end
