(* ===== verification/Ds_Trie.thy ===== *)
theory Ds_Trie
  imports Ds_Search "HOL-Library.AList" "HOL-Library.Sublist"
begin

text \<open>
  The trie of \<^verbatim>\<open>src/ds/tree/trie/trie.go\<close>: nodes with a map of children, a value and the number of keys below
  them. Under keys that are not empty it is a map from lists to values; the counts kept along the way
  are the numbers of keys, and no node without a key below it is left behind. An operation answers
  \<open>None\<close> where the code would dereference a nil node.
\<close>

section \<open>Nodes\<close>

text \<open>
  The children are listed in the order in which a range over the map meets them. \<open>value\<close> and \<open>hasValue\<close>
  are one option: a node without a value holds the zero value.
\<close>

datatype ('k, 'v) tnode = TNode (tchildren: "('k \<times> ('k, 'v) tnode) list") (tvalue: "'v option") (tcount: int)

record ('k, 'v) trie =
  trie_root :: "('k, 'v) tnode option"
  trie_size :: int

definition trie_New :: "('k, 'v) trie" where
  "trie_New = \<lparr>trie_root = None, trie_size = 0\<rparr>"

definition empty_node :: "('k, 'v) tnode" where
  "empty_node = TNode [] None 0"

text \<open>The walk along a key that most operations begin with.\<close>

fun find_node :: "'k list \<Rightarrow> ('k, 'v) tnode \<Rightarrow> ('k, 'v) tnode option" where
  "find_node [] n = Some n"
| "find_node (k # ks) n = (case map_of (tchildren n) k of None \<Rightarrow> None | Some child \<Rightarrow> find_node ks child)"

section \<open>Writing\<close>

text \<open>The first loop of a put makes the nodes that are missing and sets the value; whether the key is new.\<close>

fun put_value :: "'k list \<Rightarrow> 'v \<Rightarrow> ('k, 'v) tnode \<Rightarrow> ('k, 'v) tnode \<times> bool" where
  "put_value [] v (TNode cs w c) = (TNode cs (Some v) c, w = None)"
| "put_value (k # ks) v (TNode cs w c) =
     (let child = (case map_of cs k of None \<Rightarrow> empty_node | Some n \<Rightarrow> n);
          (child', new) = put_value ks v child
      in (TNode (AList.update k child' cs) w c, new))"

text \<open>The second counts the key in every node on its way.\<close>

fun count_key :: "'k list \<Rightarrow> ('k, 'v) tnode \<Rightarrow> ('k, 'v) tnode option" where
  "count_key [] (TNode cs w c) = Some (TNode cs w (c + 1))"
| "count_key (k # ks) (TNode cs w c) =
     (case map_of cs k of
        None \<Rightarrow> None
      | Some n \<Rightarrow> do { n' \<leftarrow> count_key ks n; Some (TNode (AList.update k n' cs) w (c + 1)) })"

definition trie_Put :: "'k list \<Rightarrow> 'v \<Rightarrow> ('k, 'v) trie \<Rightarrow> (bool \<times> ('k, 'v) trie) option" where
  "trie_Put keys val t =
     (let root = (case trie_root t of None \<Rightarrow> empty_node | Some n \<Rightarrow> n);
          (root', new) = put_value keys val root
      in if new then do { root'' \<leftarrow> count_key keys root'; Some (True, t\<lparr>trie_root := Some root'', trie_size := trie_size t + 1\<rparr>) }
         else Some (False, t\<lparr>trie_root := Some root'\<rparr>))"

definition trie_Get :: "'k list \<Rightarrow> ('k, 'v) trie \<Rightarrow> 'v option" where
  "trie_Get keys t =
     (case trie_root t of
        None \<Rightarrow> None
      | Some root \<Rightarrow> (case find_node keys root of None \<Rightarrow> None | Some n \<Rightarrow> tvalue n))"

text \<open>
  The way back of a delete: the value is gone from the last node, every node counts one key less, and a
  node other than the root that counts none is taken from its parent.
\<close>

fun remove_key :: "'k list \<Rightarrow> ('k, 'v) tnode \<Rightarrow> ('k, 'v) tnode" where
  "remove_key [] (TNode cs w c) = TNode cs None (c - 1)"
| "remove_key (k # ks) (TNode cs w c) =
     (case map_of cs k of
        None \<Rightarrow> TNode cs w c
      | Some n \<Rightarrow>
          (let n' = remove_key ks n
           in TNode (if tcount n' \<le> 0 then AList.delete k cs else AList.update k n' cs) w (c - 1)))"

definition keep_root :: "('k, 'v) tnode \<Rightarrow> ('k, 'v) tnode option" where
  "keep_root root = (if tchildren root = [] then None else Some root)"

definition trie_Delete :: "'k list \<Rightarrow> ('k, 'v) trie \<Rightarrow> 'v option \<times> ('k, 'v) trie" where
  "trie_Delete key t =
     (if key = [] then (None, t)
      else case trie_root t of
        None \<Rightarrow> (None, t)
      | Some root \<Rightarrow>
          (case find_node key root of
             None \<Rightarrow> (None, t)
           | Some n \<Rightarrow>
               (case tvalue n of
                  None \<Rightarrow> (None, t)
                | Some v \<Rightarrow> (Some v, t\<lparr>trie_root := keep_root (remove_key key root), trie_size := trie_size t - 1\<rparr>))))"

text \<open>The keys below a node, counted one by one.\<close>

fun count_values :: "('k, 'v) tnode \<Rightarrow> int" where
  "count_values (TNode cs w c) = (if w = None then 0 else 1) + sum_list (map (\<lambda>(k, n). count_values n) cs)"

text \<open>
  The way back of a delete of a prefix, given how many keys are below it: the last node leaves its
  parent, and the nodes above count that many keys less; a node that counts none leaves too.
\<close>

fun drop_prefix :: "int \<Rightarrow> 'k list \<Rightarrow> ('k, 'v) tnode \<Rightarrow> ('k, 'v) tnode" where
  "drop_prefix d [] n = n"
| "drop_prefix d (k # ks) (TNode cs w c) =
     (if ks = [] then TNode (AList.delete k cs) w (c - d)
      else case map_of cs k of
        None \<Rightarrow> TNode cs w c
      | Some n \<Rightarrow>
          (let n' = drop_prefix d ks n
           in TNode (if tcount n' = 0 then AList.delete k cs else AList.update k n' cs) w (c - d)))"

definition trie_DeletePrefix :: "'k list \<Rightarrow> ('k, 'v) trie \<Rightarrow> int \<times> ('k, 'v) trie" where
  "trie_DeletePrefix pre t =
     (if pre = [] then (0, t)
      else case trie_root t of
        None \<Rightarrow> (0, t)
      | Some root \<Rightarrow>
          (case find_node pre root of
             None \<Rightarrow> (0, t)
           | Some n \<Rightarrow>
               (let d = count_values n
                in (d, t\<lparr>trie_root := keep_root (drop_prefix d pre root), trie_size := trie_size t - d\<rparr>))))"

definition trie_Clear :: "('k, 'v) trie \<Rightarrow> ('k, 'v) trie" where
  "trie_Clear t = t\<lparr>trie_root := None, trie_size := 0\<rparr>"

section \<open>Reading\<close>

definition trie_IsEmpty :: "('k, 'v) trie \<Rightarrow> bool" where
  "trie_IsEmpty t \<longleftrightarrow> trie_size t = 0"

definition trie_Size :: "('k, 'v) trie \<Rightarrow> int" where
  "trie_Size t = trie_size t"

fun clone :: "('k, 'v) tnode \<Rightarrow> ('k, 'v) tnode" where
  "clone (TNode cs w c) = TNode (map (\<lambda>(k, n). (k, clone n)) cs) w c"

definition trie_Root :: "('k, 'v) trie \<Rightarrow> ('k, 'v) tnode option" where
  "trie_Root t = map_option clone (trie_root t)"

definition trie_Clone :: "('k, 'v) trie \<Rightarrow> ('k, 'v) trie" where
  "trie_Clone t = (case trie_root t of None \<Rightarrow> trie_New | Some root \<Rightarrow> \<lparr>trie_root = Some (clone root), trie_size = trie_size t\<rparr>)"

fun collect :: "'k list \<Rightarrow> ('k, 'v) tnode \<Rightarrow> ('k list \<times> 'v) list" where
  "collect pth (TNode cs w c) =
     (case w of None \<Rightarrow> [] | Some v \<Rightarrow> [(pth, v)]) @ concat (map (\<lambda>(k, n). collect (pth @ [k]) n) cs)"

definition trie_keysValues :: "('k, 'v) trie \<Rightarrow> ('k list \<times> 'v) list" where
  "trie_keysValues t = (case trie_root t of None \<Rightarrow> [] | Some root \<Rightarrow> collect [] root)"

definition trie_Keys :: "('k, 'v) trie \<Rightarrow> 'k list list" where
  "trie_Keys t = (case trie_root t of None \<Rightarrow> [] | Some root \<Rightarrow> map fst (collect [] root))"

fun collect_values :: "('k, 'v) tnode \<Rightarrow> 'v list" where
  "collect_values (TNode cs w c) = (case w of None \<Rightarrow> [] | Some v \<Rightarrow> [v]) @ concat (map (\<lambda>(k, n). collect_values n) cs)"

definition trie_Values :: "('k, 'v) trie \<Rightarrow> 'v list" where
  "trie_Values t = (case trie_root t of None \<Rightarrow> [] | Some root \<Rightarrow> collect_values root)"

definition at_prefix :: "'k list \<Rightarrow> ('k, 'v) trie \<Rightarrow> (('k, 'v) tnode \<Rightarrow> 'a list) \<Rightarrow> 'a list" where
  "at_prefix pre t f =
     (if pre = [] then []
      else case trie_root t of
        None \<Rightarrow> []
      | Some root \<Rightarrow> (case find_node pre root of None \<Rightarrow> [] | Some n \<Rightarrow> f n))"

definition trie_PrefixKeys :: "'k list \<Rightarrow> ('k, 'v) trie \<Rightarrow> 'k list list" where
  "trie_PrefixKeys pre t = at_prefix pre t (\<lambda>n. map fst (collect pre n))"

definition trie_PrefixValues :: "'k list \<Rightarrow> ('k, 'v) trie \<Rightarrow> 'v list" where
  "trie_PrefixValues pre t = at_prefix pre t collect_values"

definition trie_PrefixKeysValues :: "'k list \<Rightarrow> ('k, 'v) trie \<Rightarrow> ('k list \<times> 'v) list" where
  "trie_PrefixKeysValues pre t = at_prefix pre t (collect pre)"

text \<open>Alone among the reads, the count of a prefix does not look whether there is a root.\<close>

definition trie_PrefixCount :: "'k list \<Rightarrow> ('k, 'v) trie \<Rightarrow> int option" where
  "trie_PrefixCount pre t =
     (if pre = [] then Some 0
      else case trie_root t of
        None \<Rightarrow> None
      | Some root \<Rightarrow> Some (case find_node pre root of None \<Rightarrow> 0 | Some n \<Rightarrow> tcount n))"

text \<open>The walk of \<open>Range\<close>, over a node and over its children; the path is cut back after each child.\<close>

fun walk_node :: "('k list, 'v, 's) visit \<Rightarrow> 'k list \<Rightarrow> ('k, 'v) tnode \<Rightarrow> 's \<Rightarrow> bool \<times> 's"
  and walk_children :: "('k list, 'v, 's) visit \<Rightarrow> 'k list \<Rightarrow> ('k \<times> ('k, 'v) tnode) list \<Rightarrow> 's \<Rightarrow> bool \<times> 's" where
  "walk_node fn pth (TNode cs w c) s =
     (let (go, s) = (case w of None \<Rightarrow> (True, s) | Some v \<Rightarrow> fn pth v s)
      in if \<not> go then (False, s) else walk_children fn pth cs s)"
| "walk_children fn pth [] s = (True, s)"
| "walk_children fn pth ((k, n) # cs) s =
     (let pth = pth @ [k]; (go, s) = walk_node fn pth n s
      in if \<not> go then (False, s) else walk_children fn (butlast pth) cs s)"

definition trie_Range :: "('k list, 'v, 's) visit option \<Rightarrow> ('k, 'v) trie \<Rightarrow> 's \<Rightarrow> 's" where
  "trie_Range fn t s =
     (case (fn, trie_root t) of
        (Some f, Some root) \<Rightarrow> snd (walk_node f [] root s)
      | _ \<Rightarrow> s)"

fun longest_loop :: "('k, 'v) tnode \<Rightarrow> 'k list \<Rightarrow> 'k list \<Rightarrow> ('k list \<times> 'v) option \<Rightarrow> ('k list \<times> 'v) option" where
  "longest_loop cur pth [] best = best"
| "longest_loop cur pth (k # ks) best =
     (case map_of (tchildren cur) k of
        None \<Rightarrow> best
      | Some child \<Rightarrow>
          longest_loop child (pth @ [k]) ks (case tvalue child of None \<Rightarrow> best | Some v \<Rightarrow> Some (pth @ [k], v)))"

definition trie_LongestPrefix :: "'k list \<Rightarrow> ('k, 'v) trie \<Rightarrow> ('k list \<times> 'v) option" where
  "trie_LongestPrefix keys t =
     (if keys = [] then None else case trie_root t of None \<Rightarrow> None | Some root \<Rightarrow> longest_loop root [] keys None)"

definition valued :: "'k list \<Rightarrow> ('k, 'v) tnode \<Rightarrow> ('k list \<times> 'v) list" where
  "valued pth n = (case tvalue n of None \<Rightarrow> [] | Some v \<Rightarrow> [(pth, v)])"

fun ancestors_loop :: "('k, 'v) tnode \<Rightarrow> 'k list \<Rightarrow> 'k list \<Rightarrow> ('k list \<times> 'v) list \<Rightarrow> ('k list \<times> 'v) list" where
  "ancestors_loop cur pth [] ancestors = ancestors"
| "ancestors_loop cur pth (k # ks) ancestors =
     (case map_of (tchildren cur) k of
        None \<Rightarrow> ancestors
      | Some child \<Rightarrow> ancestors_loop child (pth @ [k]) ks (ancestors @ valued (pth @ [k]) child))"

definition trie_PathAncestors :: "'k list \<Rightarrow> ('k, 'v) trie \<Rightarrow> ('k list \<times> 'v) list" where
  "trie_PathAncestors keys t =
     (if keys = [] then [] else case trie_root t of None \<Rightarrow> [] | Some root \<Rightarrow> ancestors_loop root [] keys (valued [] root))"

section \<open>The map a node stands for\<close>

definition tlookup :: "('k, 'v) tnode \<Rightarrow> 'k list \<Rightarrow> 'v option" where
  "tlookup n ks = Option.bind (find_node ks n) tvalue"

lemma tlookup_simps [simp]:
  "tlookup (TNode cs w c) [] = w"
  "tlookup (TNode cs w c) (k # ks) = (case map_of cs k of None \<Rightarrow> None | Some n \<Rightarrow> tlookup n ks)"
  by (auto simp: tlookup_def split: option.split)

lemma tlookup_apart: "xs \<noteq> [] \<Longrightarrow> tlookup (TNode cs w c) xs = tlookup (TNode cs w' c') xs"
  by (cases xs) auto

lemma tlookup_empty_node [simp]: "tlookup empty_node ks = None"
  by (cases ks) (simp_all add: empty_node_def)

lemma tnode_induct [case_names TNode]:
  assumes "\<And>cs w c. (\<And>k n. (k, n) \<in> set cs \<Longrightarrow> P n) \<Longrightarrow> P (TNode cs w c)"
  shows "P n"
proof (induction n)
  case (TNode cs w c)
  show ?case by (rule assms) (use TNode in \<open>fastforce simp: snds.simps\<close>)
qed

text \<open>A node counts the keys below it, and each child has one.\<close>

definition below :: "('k \<times> ('k, 'v) tnode) list \<Rightarrow> int" where
  "below cs = sum_list (map (\<lambda>e. tcount (snd e)) cs)"

fun counted :: "('k, 'v) tnode \<Rightarrow> bool" where
  "counted (TNode cs w c) \<longleftrightarrow> distinct (map fst cs) \<and> (\<forall>e\<in>set cs. counted (snd e) \<and> 0 < tcount (snd e)) \<and>
     c = (if w = None then 0 else 1) + below cs"

lemma wf_empty_node [simp]: "counted empty_node" "tcount empty_node = 0"
  by (simp_all add: empty_node_def below_def)

lemma update_update: "AList.update k b (AList.update k a cs) = AList.update k b cs"
  by (induction cs) auto

lemma below_update:
  "distinct (map fst cs) \<Longrightarrow> below (AList.update k n cs) = below cs + tcount n - (case map_of cs k of None \<Rightarrow> 0 | Some m \<Rightarrow> tcount m)"
proof (induction cs)
  case (Cons e cs)
  then show ?case by (cases e) (auto simp: below_def)
qed (simp add: below_def)

lemma below_delete:
  "distinct (map fst cs) \<Longrightarrow> below (AList.delete k cs) = below cs - (case map_of cs k of None \<Rightarrow> 0 | Some m \<Rightarrow> tcount m)"
proof (induction cs)
  case (Cons e cs)
  have "AList.delete k cs = cs" if "k \<notin> fst ` set cs" using that by (induction cs) auto
  with Cons show ?case by (cases e) (auto simp: below_def map_of_eq_None_iff image_iff split: option.splits)
qed (simp add: below_def)

lemma set_update: "e \<in> set (AList.update k n cs) \<Longrightarrow> e = (k, n) \<or> e \<in> set cs"
  by (induction cs) (auto split: if_splits)

lemma set_delete: "e \<in> set (AList.delete k cs) \<Longrightarrow> e \<in> set cs"
  by (auto simp: AList.delete_eq)

lemma wf_child: "counted (TNode cs w c) \<Longrightarrow> map_of cs k = Some n \<Longrightarrow> counted n \<and> 0 < tcount n"
  using map_of_SomeD by fastforce

text \<open>What a new child, and the removal of one, do to a node that is in order.\<close>

lemma wf_update:
  assumes "counted (TNode cs w c)" "counted n" "0 < tcount n" "d = tcount n - (case map_of cs k of None \<Rightarrow> 0 | Some m \<Rightarrow> tcount m)"
  shows "counted (TNode (AList.update k n cs) w (c + d))"
proof -
  have "counted (snd e) \<and> 0 < tcount (snd e)" if "e \<in> set (AList.update k n cs)" for e
    using set_update [OF that] assms(1-3) by auto
  then show ?thesis using assms(1,4) below_update [of cs k n] by (simp add: distinct_update)
qed

lemma wf_delete:
  assumes "counted (TNode cs w c)" "d = (case map_of cs k of None \<Rightarrow> 0 | Some m \<Rightarrow> tcount m)"
  shows "counted (TNode (AList.delete k cs) w (c - d))"
proof -
  have "counted (snd e) \<and> 0 < tcount (snd e)" if "e \<in> set (AList.delete k cs)" for e
    using set_delete [OF that] assms(1) by auto
  then show ?thesis using assms below_delete [of cs k] by (simp add: distinct_delete)
qed

lemma wf_count: "counted n \<Longrightarrow> 0 \<le> tcount n"
proof (induction n rule: tnode_induct)
  case (TNode cs w c)
  have "0 \<le> below cs" unfolding below_def by (rule sum_list_nonneg) (use TNode in force)
  then show ?case using TNode by simp
qed

lemma wf_zero: "counted n \<Longrightarrow> tcount n = 0 \<Longrightarrow> tlookup n ks = None"
proof (cases n)
  case (TNode cs w c)
  assume n: "counted n" "tcount n = 0"
  have nonneg: "0 \<le> below cs" unfolding below_def by (rule sum_list_nonneg) (use n TNode in \<open>force intro: less_imp_le\<close>)
  have "cs = []"
  proof (rule ccontr)
    assume "cs \<noteq> []"
    then obtain e cs' where e: "cs = e # cs'" by (cases cs) auto
    have "0 \<le> below cs'" unfolding below_def by (rule sum_list_nonneg) (use n TNode e in \<open>force intro: less_imp_le\<close>)
    then show False using n TNode e by (auto simp: below_def split: if_splits)
  qed
  then show ?thesis using n TNode nonneg by (cases ks) (auto split: if_splits)
qed

section \<open>Writing keeps the counts\<close>

lemma put_value_lookup:
  "put_value ks v n = (n', new) \<Longrightarrow> tlookup n' = (tlookup n)(ks \<mapsto> v) \<and> (new \<longleftrightarrow> tlookup n ks = None)"
proof (induction ks v n arbitrary: n' new rule: put_value.induct)
  case (1 v cs w c)
  then show ?case using tlookup_apart [of _ cs "Some v" c w c] by (auto simp: fun_eq_iff)
next
  case (2 k ks v cs w c)
  define ch where "ch = (case map_of cs k of None \<Rightarrow> empty_node | Some n \<Rightarrow> n)"
  obtain ch' where p: "put_value ks v ch = (ch', new)" "n' = TNode (AList.update k ch' cs) w c"
    using "2.prems" by (auto simp: ch_def split: prod.splits)
  have ih: "tlookup ch' = (tlookup ch)(ks \<mapsto> v)" "new \<longleftrightarrow> tlookup ch ks = None"
    using "2.IH" [OF refl] p(1) by (auto simp: ch_def)
  have lk: "tlookup (TNode cs w c) (k # xs) = tlookup ch xs" for xs by (auto simp: ch_def split: option.split)
  show ?case
  proof
    show "tlookup n' = (tlookup (TNode cs w c))(k # ks \<mapsto> v)"
    proof
      fix xs
      show "tlookup n' xs = ((tlookup (TNode cs w c))(k # ks \<mapsto> v)) xs"
        using lk ih(1) p(2) by (cases xs) (auto simp: update_conv')
    qed
    show "new \<longleftrightarrow> tlookup (TNode cs w c) (k # ks) = None" using lk ih(2) by simp
  qed
qed

lemma count_key_lookup: "count_key ks n = Some n' \<Longrightarrow> tlookup n' = tlookup n"
proof (induction ks n arbitrary: n' rule: count_key.induct)
  case (1 cs w c)
  then have "tlookup n' xs = tlookup (TNode cs w c) xs" for xs using tlookup_apart [of xs cs w "c + 1" w c] by (cases "xs = []") auto
  then show ?case by blast
next
  case (2 k ks cs w c)
  then obtain m m' where m: "map_of cs k = Some m" "count_key ks m = Some m'" "n' = TNode (AList.update k m' cs) w (c + 1)"
    by (auto split: option.splits bind_splits)
  have "tlookup m' = tlookup m" using "2.IH" m by blast
  then show ?case
  proof (intro ext)
    fix xs
    show "tlookup n' xs = tlookup (TNode cs w c) xs" using \<open>tlookup m' = tlookup m\<close> m by (cases xs) (auto simp: update_conv')
  qed
qed

text \<open>A put leaves a node in order: with one key more, counted on its way, or with the same keys.\<close>

lemma put_value_wf:
  "counted n \<Longrightarrow> put_value ks v n = (n', new) \<Longrightarrow>
   (if new then \<exists>n''. count_key ks n' = Some n'' \<and> counted n'' \<and> tcount n'' = tcount n + 1 else counted n' \<and> tcount n' = tcount n)"
proof (induction ks v n arbitrary: n' new rule: put_value.induct)
  case (2 k ks v cs w c)
  define ch where "ch = (case map_of cs k of None \<Rightarrow> empty_node | Some n \<Rightarrow> n)"
  obtain ch' where p: "put_value ks v ch = (ch', new)" "n' = TNode (AList.update k ch' cs) w c"
    using "2.prems" by (auto simp: ch_def split: prod.splits)
  have ch: "counted ch" "tcount ch = (case map_of cs k of None \<Rightarrow> 0 | Some m \<Rightarrow> tcount m)"
    using wf_child [OF "2.prems"(1)] by (auto simp: ch_def split: option.split)
  note ih = "2.IH" [OF ch_def ch(1) p(1)]
  show ?case
  proof (cases new)
    case True
    then obtain ch'' where c': "count_key ks ch' = Some ch''" "counted ch''" "tcount ch'' = tcount ch + 1" using ih by auto
    have "counted (TNode (AList.update k ch'' cs) w (c + 1))"
      by (rule wf_update [OF "2.prems"(1)]) (use c' ch wf_count [OF ch(1)] in auto)
    then show ?thesis using True c' p(2) by (simp add: update_conv' update_update)
  next
    case False
    then have "tlookup ch ks \<noteq> None" using put_value_lookup [OF p(1)] by simp
    then have "0 < tcount ch" using wf_zero [OF ch(1)] wf_count [OF ch(1)] by force
    then have "counted (TNode (AList.update k ch' cs) w (c + 0))"
      by (intro wf_update [OF "2.prems"(1)]) (use ih False ch in auto)
    then show ?thesis using False p(2) by simp
  qed
qed auto

text \<open>A delete takes the key out and its count from every node on the way.\<close>

lemma remove_key_ok:
  "counted n \<Longrightarrow> tlookup n ks \<noteq> None \<Longrightarrow>
   counted (remove_key ks n) \<and> tcount (remove_key ks n) = tcount n - 1 \<and> tlookup (remove_key ks n) = (tlookup n)(ks := None)"
proof (induction ks n rule: remove_key.induct)
  case (1 cs w c)
  then show ?case using tlookup_apart [of _ cs None "c - 1" w c] by (auto simp: fun_eq_iff)
next
  case (2 k ks cs w c)
  obtain m where m: "map_of cs k = Some m" "tlookup m ks \<noteq> None" using "2.prems"(2) by (auto split: option.splits)
  define m' where "m' = remove_key ks m"
  have ih: "counted m'" "tcount m' = tcount m - 1" "tlookup m' = (tlookup m)(ks := None)"
    using "2.IH" [OF m(1)] wf_child [OF "2.prems"(1) m(1)] m(2) by (auto simp: m'_def)
  have lk: "tlookup (TNode cs w c) (k # xs) = tlookup m xs" for xs using m(1) by simp
  show ?case
  proof (cases "tcount m' \<le> 0")
    case True
    then have z: "tcount m' = 0" using wf_count [OF ih(1)] by simp
    have "counted (TNode (AList.delete k cs) w (c - 1))" by (rule wf_delete [OF "2.prems"(1)]) (use m(1) ih(2) z in auto)
    moreover have "tlookup (TNode (AList.delete k cs) w (c - 1)) xs = ((tlookup (TNode cs w c))(k # ks := None)) xs" for xs
      using lk fun_cong [OF ih(3), of "tl xs"] wf_zero [OF ih(1) z] by (cases xs) (auto simp: delete_conv' fun_upd_def split: if_splits)
    moreover have "remove_key (k # ks) (TNode cs w c) = TNode (AList.delete k cs) w (c - 1)" using m(1) True by (simp add: m'_def)
    ultimately show ?thesis by (simp add: fun_eq_iff del: counted.simps tlookup_simps)
  next
    case False
    have "counted (TNode (AList.update k m' cs) w (c + (- 1)))"
      by (rule wf_update [OF "2.prems"(1) ih(1)]) (use m(1) ih(2) False in auto)
    moreover have "tlookup (TNode (AList.update k m' cs) w (c - 1)) xs = ((tlookup (TNode cs w c))(k # ks := None)) xs" for xs
      using lk ih(3) by (cases xs) (auto simp: update_conv')
    moreover have "remove_key (k # ks) (TNode cs w c) = TNode (AList.update k m' cs) w (c - 1)" using m(1) False by (simp add: m'_def)
    ultimately show ?thesis by (simp add: fun_eq_iff del: counted.simps tlookup_simps)
  qed
qed

lemma count_values_wf: "counted n \<Longrightarrow> count_values n = tcount n"
proof (induction n rule: tnode_induct)
  case (TNode cs w c)
  have "map (\<lambda>(k, n). count_values n) cs = map (\<lambda>e. tcount (snd e)) cs" by (rule map_cong) (use TNode in fastforce)+
  then have "(\<Sum>(k, n)\<leftarrow>cs. count_values n) = below cs" unfolding below_def by (rule arg_cong)
  then show ?case using TNode.prems by simp
qed

lemma drop_prefix_ok:
  "counted n \<Longrightarrow> ks \<noteq> [] \<Longrightarrow> find_node ks n = Some m \<Longrightarrow>
   counted (drop_prefix (tcount m) ks n) \<and> tcount (drop_prefix (tcount m) ks n) = tcount n - tcount m \<and>
   tlookup (drop_prefix (tcount m) ks n) = (\<lambda>xs. if prefix ks xs then None else tlookup n xs)"
proof (induction "tcount m" ks n rule: drop_prefix.induct)
  case (2 k ks cs w c)
  obtain b where b: "map_of cs k = Some b" "find_node ks b = Some m" using "2.prems"(3) by (auto split: option.splits)
  have lk: "tlookup (TNode cs w c) (k # xs) = tlookup b xs" for xs using b(1) by simp
  show ?case
  proof (cases "ks = []")
    case True
    then have "counted (TNode (AList.delete k cs) w (c - tcount m))" using b by (intro wf_delete [OF "2.prems"(1)]) auto
    moreover have "tlookup (TNode (AList.delete k cs) w (c - tcount m)) xs = (if prefix [k] xs then None else tlookup (TNode cs w c) xs)" for xs
      by (cases xs) (auto simp: delete_conv')
    moreover have "drop_prefix (tcount m) (k # ks) (TNode cs w c) = TNode (AList.delete k cs) w (c - tcount m)" using True by simp
    ultimately show ?thesis using True by (simp add: fun_eq_iff del: counted.simps tlookup_simps)
  next
    case False
    define b' where "b' = drop_prefix (tcount m) ks b"
    have ih: "counted b'" "tcount b' = tcount b - tcount m" "tlookup b' = (\<lambda>xs. if prefix ks xs then None else tlookup b xs)"
      using "2.hyps" [OF False b(1) _ False b(2)] wf_child [OF "2.prems"(1) b(1)] by (auto simp: b'_def)
    show ?thesis
    proof (cases "tcount b' = 0")
      case True
      have "counted (TNode (AList.delete k cs) w (c - tcount m))" by (rule wf_delete [OF "2.prems"(1)]) (use b(1) ih(2) True in auto)
      moreover have "tlookup (TNode (AList.delete k cs) w (c - tcount m)) xs = (if prefix (k # ks) xs then None else tlookup (TNode cs w c) xs)" for xs
        using lk fun_cong [OF ih(3), of "tl xs"] wf_zero [OF ih(1) True] by (cases xs) (auto simp: delete_conv' split: if_splits)
      moreover have "drop_prefix (tcount m) (k # ks) (TNode cs w c) = TNode (AList.delete k cs) w (c - tcount m)"
        using b(1) True False by (simp add: b'_def)
      ultimately show ?thesis by (simp add: fun_eq_iff del: counted.simps tlookup_simps)
    next
      case no: False
      have "counted (TNode (AList.update k b' cs) w (c + (- tcount m)))"
        by (rule wf_update [OF "2.prems"(1) ih(1)]) (use b(1) ih(2) wf_count [OF ih(1)] no in auto)
      moreover have "tlookup (TNode (AList.update k b' cs) w (c - tcount m)) xs = (if prefix (k # ks) xs then None else tlookup (TNode cs w c) xs)" for xs
        using lk ih(3) by (cases xs) (auto simp: update_conv')
      moreover have "drop_prefix (tcount m) (k # ks) (TNode cs w c) = TNode (AList.update k b' cs) w (c - tcount m)"
        using b(1) no False by (simp add: b'_def)
      ultimately show ?thesis by (simp add: fun_eq_iff del: counted.simps tlookup_simps)
    qed
  qed
qed simp

section \<open>Reading\<close>

lemma collect_lookup: "counted n \<Longrightarrow> (ks, v) \<in> set (collect pth n) \<longleftrightarrow> (\<exists>xs. ks = pth @ xs \<and> tlookup n xs = Some v)"
proof (induction n arbitrary: pth rule: tnode_induct)
  case (TNode cs w c)
  have d: "distinct (map fst cs)" using TNode.prems by simp
  have ih: "(ks, v) \<in> set (collect (pth @ [k]) n) \<longleftrightarrow> (\<exists>xs. ks = pth @ k # xs \<and> tlookup n xs = Some v)" if "(k, n) \<in> set cs" for k n
    using TNode.IH [OF that, of "pth @ [k]"] TNode.prems that by fastforce
  have "(ks, v) \<in> set (collect pth (TNode cs w c)) \<longleftrightarrow>
      (ks = pth \<and> w = Some v) \<or> (\<exists>k n xs. (k, n) \<in> set cs \<and> ks = pth @ k # xs \<and> tlookup n xs = Some v)"
    using ih by (cases w) fastforce+
  also have "\<dots> \<longleftrightarrow> (\<exists>xs. ks = pth @ xs \<and> tlookup (TNode cs w c) xs = Some v)"
    (is "?l \<longleftrightarrow> ?r")
  proof
    assume ?l
    then show ?r
    proof (elim disjE exE conjE)
      assume "ks = pth" "w = Some v"
      then show ?r by (intro exI [of _ "[]"]) simp
    next
      fix k n xs assume "(k, n) \<in> set cs" "ks = pth @ k # xs" "tlookup n xs = Some v"
      then show ?r using d by (intro exI [of _ "k # xs"]) simp
    qed
  next
    assume ?r
    then obtain xs where xs: "ks = pth @ xs" "tlookup (TNode cs w c) xs = Some v" by blast
    then show ?l by (cases xs) (auto split: option.splits dest!: map_of_SomeD)
  qed
  finally show ?case .
qed

lemma concat_children: "concat (map (\<lambda>(k, n). f k n) cs) = concat (map (\<lambda>e. f (fst e) (snd e)) cs)"
  by (simp add: split_def)

lemma collect_distinct: "counted n \<Longrightarrow> distinct (map fst (collect pth n))"
proof (induction n arbitrary: pth rule: tnode_induct)
  case (TNode cs w c)
  have ih: "distinct (map fst (collect (pth @ [k]) n))" "counted n" if "(k, n) \<in> set cs" for k n using TNode that by fastforce+
  have "distinct (map fst (concat (map (\<lambda>(k, n). collect (pth @ [k]) n) es)))" if "set es \<subseteq> set cs" "distinct (map fst es)" for es
    using that
  proof (induction es)
    case (Cons e es)
    obtain k n where e: "e = (k, n)" by fastforce
    have apart: False if "(ks, v) \<in> set (collect (pth @ [k]) n)" "(j, m) \<in> set es" "(ks, v') \<in> set (collect (pth @ [j]) m)" for ks v v' j m
    proof -
      have "j \<noteq> k" using that(2) Cons.prems(2) e by force
      moreover have "counted n" "counted m" using ih(2) that(2) Cons.prems(1) e by auto
      ultimately show False using that by (auto simp: collect_lookup)
    qed
    show ?case using Cons.IH Cons.prems ih(1) [of k n] e apart by (auto simp: image_iff)
  qed simp
  then have rest: "distinct (map fst (concat (map (\<lambda>(k, n). collect (pth @ [k]) n) cs)))" using TNode.prems by simp
  have "pth \<notin> fst ` set (concat (map (\<lambda>(k, n). collect (pth @ [k]) n) cs))"
  proof
    assume "pth \<in> fst ` set (concat (map (\<lambda>(k, n). collect (pth @ [k]) n) cs))"
    then obtain k n v where "(k, n) \<in> set cs" "(pth, v) \<in> set (collect (pth @ [k]) n)" by auto
    then show False using collect_lookup [OF ih(2)] by fastforce
  qed
  then show ?case using rest by (cases w) auto
qed

lemma collect_length: "counted n \<Longrightarrow> int (length (collect pth n)) = tcount n"
proof (induction n arbitrary: pth rule: tnode_induct)
  case (TNode cs w c)
  have "int (length (collect (pth @ [fst e]) (snd e))) = tcount (snd e)" if "e \<in> set cs" for e
    using TNode.IH [of "fst e" "snd e"] TNode.prems that by simp
  then have "(\<Sum>e\<leftarrow>cs. int (length (collect (pth @ [fst e]) (snd e)))) = below cs"
    unfolding below_def by (intro arg_cong [of _ _ sum_list] map_cong) auto
  moreover have "int (length (concat (map (\<lambda>(k, n). collect (pth @ [k]) n) cs))) = (\<Sum>e\<leftarrow>cs. int (length (collect (pth @ [fst e]) (snd e))))"
    by (induction cs) auto
  ultimately show ?case using TNode.prems by (cases w) auto
qed

lemma collect_values_snd: "collect_values n = map snd (collect pth n)"
proof (induction n arbitrary: pth rule: tnode_induct)
  case (TNode cs w c)
  have "collect_values (snd e) = map snd (collect (pth @ [fst e]) (snd e))" if "e \<in> set cs" for e
    using TNode [of "fst e" "snd e"] that by simp
  then have "concat (map (\<lambda>e. collect_values (snd e)) cs) = map snd (concat (map (\<lambda>e. collect (pth @ [fst e]) (snd e)) cs))"
    by (simp add: map_concat comp_def cong: map_cong)
  then show ?case by (cases w) (simp_all add: split_def)
qed

lemma walk_visits:
  "walk_node fn pth n s = visit_list fn (collect pth n) s"
  "walk_children fn pth cs s = visit_list fn (concat (map (\<lambda>(k, n). collect (pth @ [k]) n) cs)) s"
  by (induction fn pth n s and fn pth cs s rule: walk_node_walk_children.induct)
    (auto simp: visit_list_append Let_def split: option.split prod.split)

lemma clone_same: "clone n = n"
  by (induction n rule: tnode_induct) (force intro: map_idI)

lemma find_node_append: "find_node (xs @ ys) n = Option.bind (find_node xs n) (find_node ys)"
  by (induction xs arbitrary: n) (auto split: option.split)

lemma find_node_counted: "counted n \<Longrightarrow> find_node ks n = Some m \<Longrightarrow> counted m"
proof (induction ks arbitrary: n)
  case (Cons k ks)
  then show ?case using wf_child [of "tchildren n" "tvalue n" "tcount n" k] by (auto split: option.splits)
qed simp

text \<open>The prefixes of a key that have a value, from the shortest.\<close>

definition hits :: "('k, 'v) tnode \<Rightarrow> 'k list \<Rightarrow> 'k list \<Rightarrow> ('k list \<times> 'v) list" where
  "hits n pth ks = concat (map (\<lambda>p. case tlookup n p of None \<Rightarrow> [] | Some v \<Rightarrow> [(pth @ p, v)]) (prefixes ks))"

lemma hits_simps:
  "hits n pth [] = valued pth n"
  "hits n pth (k # ks) = valued pth n @ (case map_of (tchildren n) k of None \<Rightarrow> [] | Some m \<Rightarrow> hits m (pth @ [k]) ks)"
proof -
  have "tlookup n [] = tvalue n" by (cases n) simp
  moreover have "tlookup n (k # p) = (case map_of (tchildren n) k of None \<Rightarrow> None | Some m \<Rightarrow> tlookup m p)" for p by (cases n) simp
  ultimately show "hits n pth [] = valued pth n"
    "hits n pth (k # ks) = valued pth n @ (case map_of (tchildren n) k of None \<Rightarrow> [] | Some m \<Rightarrow> hits m (pth @ [k]) ks)"
    unfolding hits_def valued_def prefixes.simps by (auto simp: comp_def intro!: arg_cong [of _ _ concat] split: option.split)
qed

lemma ancestors_loop_hits: "ancestors_loop n pth ks (acc @ valued pth n) = acc @ hits n pth ks"
proof (induction ks arbitrary: n pth acc)
  case (Cons k ks)
  show ?case using Cons [of _ "pth @ [k]" "acc @ valued pth n"] by (auto simp: hits_simps split: option.split)
qed (simp add: hits_simps)

lemma longest_loop_hits:
  "longest_loop n pth ks best =
     (let h = (case ks of [] \<Rightarrow> [] | k # ks \<Rightarrow> (case map_of (tchildren n) k of None \<Rightarrow> [] | Some m \<Rightarrow> hits m (pth @ [k]) ks))
      in if h = [] then best else Some (last h))"
proof (induction ks arbitrary: n pth best)
  case (Cons k ks)
  show ?case using Cons by (cases ks) (auto simp: hits_simps valued_def Let_def split: option.splits)
qed simp

section \<open>The contract\<close>

definition trie_map :: "('k, 'v) trie \<Rightarrow> 'k list \<Rightarrow> 'v option" where
  "trie_map t = (\<lambda>ks. trie_Get ks t)"

text \<open>A trie under keys that are not empty: no value at the root, and no root without a key.\<close>

definition trie_ok :: "('k, 'v) trie \<Rightarrow> bool" where
  "trie_ok t \<longleftrightarrow>
     (case trie_root t of
        None \<Rightarrow> trie_size t = 0
      | Some n \<Rightarrow> counted n \<and> tvalue n = None \<and> tchildren n \<noteq> [] \<and> trie_size t = tcount n)"

datatype ('k, 'v) trie_op = TPut "'k list" 'v | TDelete "'k list" | TDeletePrefix "'k list" | TClear
datatype 'v trie_answer = IsNew bool | Deleted "'v option" | Removed int | Cleared

fun trie_step :: "('k, 'v) trie_op \<Rightarrow> ('k, 'v) trie \<Rightarrow> ('v trie_answer \<times> ('k, 'v) trie) option" where
  "trie_step (TPut ks v) t = map_option (apfst IsNew) (trie_Put ks v t)"
| "trie_step (TDelete ks) t = Some (apfst Deleted (trie_Delete ks t))"
| "trie_step (TDeletePrefix ks) t = Some (apfst Removed (trie_DeletePrefix ks t))"
| "trie_step TClear t = Some (Cleared, trie_Clear t)"

fun trie_run :: "('k, 'v) trie_op list \<Rightarrow> ('k, 'v) trie \<Rightarrow> ('v trie_answer list \<times> ('k, 'v) trie) option" where
  "trie_run [] t = Some ([], t)"
| "trie_run (c # cs) t = do { (a, t) \<leftarrow> trie_step c t; (as, t) \<leftarrow> trie_run cs t; Some (a # as, t) }"

text \<open>The same calls on a map from lists.\<close>

definition keys_under :: "'k list \<Rightarrow> ('k list \<Rightarrow> 'v option) \<Rightarrow> 'k list set" where
  "keys_under pre m = {ks. prefix pre ks \<and> m ks \<noteq> None}"

fun tmap_step :: "('k, 'v) trie_op \<Rightarrow> ('k list \<Rightarrow> 'v option) \<Rightarrow> 'v trie_answer \<times> ('k list \<Rightarrow> 'v option)" where
  "tmap_step (TPut ks v) m = (IsNew (m ks = None), m(ks \<mapsto> v))"
| "tmap_step (TDelete ks) m = (Deleted (m ks), m(ks := None))"
| "tmap_step (TDeletePrefix pre) m = (Removed (int (card (keys_under pre m))), \<lambda>ks. if prefix pre ks then None else m ks)"
| "tmap_step TClear m = (Cleared, Map.empty)"

fun tmap_run :: "('k, 'v) trie_op list \<Rightarrow> ('k list \<Rightarrow> 'v option) \<Rightarrow> 'v trie_answer list \<times> ('k list \<Rightarrow> 'v option)" where
  "tmap_run [] m = ([], m)"
| "tmap_run (c # cs) m = (let (a, m) = tmap_step c m; (as, m) = tmap_run cs m in (a # as, m))"

fun keyed :: "('k, 'v) trie_op \<Rightarrow> bool" where
  "keyed (TPut ks v) \<longleftrightarrow> ks \<noteq> []"
| "keyed (TDelete ks) \<longleftrightarrow> ks \<noteq> []"
| "keyed (TDeletePrefix ks) \<longleftrightarrow> ks \<noteq> []"
| "keyed TClear \<longleftrightarrow> True"

lemma trie_map_root: "trie_map t = (case trie_root t of None \<Rightarrow> Map.empty | Some n \<Rightarrow> tlookup n)"
  by (auto simp: trie_map_def trie_Get_def tlookup_def fun_eq_iff split: option.split)

lemma tcount_card: "counted n \<Longrightarrow> tcount n = int (card {ks. tlookup n ks \<noteq> None})"
proof -
  assume n: "counted n"
  have "set (map fst (collect [] n)) = {ks. tlookup n ks \<noteq> None}" using collect_lookup [OF n, of _ _ "[]"] by force
  then have "card {ks. tlookup n ks \<noteq> None} = length (collect [] n)"
    using distinct_card [OF collect_distinct [OF n, of "[]"]] by simp
  then show ?thesis using collect_length [OF n, of "[]"] by simp
qed

text \<open>The keys under a prefix are those of the node it leads to.\<close>

lemma tlookup_append: "tlookup n (xs @ ys) = (case find_node xs n of None \<Rightarrow> None | Some m \<Rightarrow> tlookup m ys)"
  by (simp add: tlookup_def find_node_append bind_assoc split: option.split)

lemma under_tlookup:
  "keys_under pre (tlookup n) = (case find_node pre n of None \<Rightarrow> {} | Some m \<Rightarrow> (@) pre ` {ks. tlookup m ks \<noteq> None})"
  by (auto simp: keys_under_def prefix_def tlookup_append split: option.split)

lemma card_under: "counted n \<Longrightarrow> int (card (keys_under pre (tlookup n))) = (case find_node pre n of None \<Rightarrow> 0 | Some m \<Rightarrow> tcount m)"
  using find_node_counted [of n pre] by (auto simp: tcount_card under_tlookup card_image inj_on_def split: option.split)

lemma tvalue_tlookup: "tvalue n = tlookup n []"
  by (simp add: tlookup_def)

lemma children_tlookup: "ks \<noteq> [] \<Longrightarrow> tlookup n ks \<noteq> None \<Longrightarrow> tchildren n \<noteq> []"
  by (cases n; cases ks) auto

lemma keep_root_ok:
  assumes "counted n" "tlookup n [] = None" "sz = tcount n"
  shows "trie_ok (t\<lparr>trie_root := keep_root n, trie_size := sz\<rparr>) \<and> trie_map (t\<lparr>trie_root := keep_root n, trie_size := sz\<rparr>) = tlookup n"
proof (cases "tchildren n = []")
  case True
  then have "tcount n = 0" using assms(1,2) by (cases n) (simp add: below_def)
  then show ?thesis using True wf_zero [OF assms(1)] assms(3) by (auto simp: keep_root_def trie_ok_def trie_map_root)
next
  case False
  then show ?thesis using assms by (simp add: keep_root_def trie_ok_def trie_map_root tvalue_tlookup)
qed

lemma trie_Put_ok:
  assumes "trie_ok t" "ks \<noteq> []"
  shows "\<exists>t'. trie_Put ks v t = Some (trie_map t ks = None, t') \<and> trie_ok t' \<and> trie_map t' = (trie_map t)(ks \<mapsto> v)"
proof -
  define n where "n = (case trie_root t of None \<Rightarrow> empty_node | Some n \<Rightarrow> n)"
  have n: "counted n" "tlookup n [] = None" "trie_size t = tcount n" "trie_map t = tlookup n"
    using assms(1) by (auto simp: n_def trie_ok_def trie_map_root tvalue_tlookup fun_eq_iff split: option.splits)
  obtain n' new where p: "put_value ks v n = (n', new)" by fastforce
  note q = put_value_lookup [OF p] put_value_wf [OF n(1) p]
  have ok: "trie_ok (t\<lparr>trie_root := Some m, trie_size := tcount m\<rparr>)" if "counted m" "tlookup m = (tlookup n)(ks \<mapsto> v)" for m
    using that assms(2) n(2) children_tlookup [OF assms(2), of m] by (simp add: trie_ok_def tvalue_tlookup)
  show ?thesis
  proof (cases new)
    case True
    then obtain m where m: "count_key ks n' = Some m" "counted m" "tcount m = tcount n + 1" using q by auto
    have "tlookup m = (tlookup n)(ks \<mapsto> v)" using count_key_lookup [OF m(1)] q(1) by simp
    then show ?thesis using m p q True n ok [OF m(2)] by (auto simp: trie_Put_def n_def [symmetric] trie_map_root)
  next
    case False
    then have m: "counted n'" "tcount n' = tcount n" "tlookup n' = (tlookup n)(ks \<mapsto> v)" using q by auto
    have "trie_ok (t\<lparr>trie_root := Some n'\<rparr>)" using ok [OF m(1,3)] n(3) m(2) by (simp add: trie_ok_def)
    then show ?thesis using p q False n m by (auto simp: trie_Put_def n_def [symmetric] trie_map_root)
  qed
qed

lemma trie_Delete_ok:
  assumes "trie_ok t" "ks \<noteq> []"
  shows "fst (trie_Delete ks t) = trie_map t ks \<and> trie_ok (snd (trie_Delete ks t)) \<and> trie_map (snd (trie_Delete ks t)) = (trie_map t)(ks := None)"
proof (cases "trie_map t ks")
  case None
  then have "trie_Delete ks t = (None, t)" using assms(2) by (auto simp: trie_Delete_def trie_map_root tlookup_def split: option.splits)
  then show ?thesis using None assms(1) by auto
next
  case (Some v)
  then obtain n m where n: "trie_root t = Some n" "find_node ks n = Some m" "tvalue m = Some v"
    by (auto simp: trie_map_root tlookup_def split: option.splits bind_splits)
  have c: "counted n" "tlookup n [] = None" "trie_size t = tcount n" "trie_map t = tlookup n"
    using assms(1) n(1) by (auto simp: trie_ok_def trie_map_root tvalue_tlookup)
  have r: "counted (remove_key ks n)" "tcount (remove_key ks n) = tcount n - 1" "tlookup (remove_key ks n) = (tlookup n)(ks := None)"
    using remove_key_ok [OF c(1), of ks] Some c(4) by auto
  have "trie_Delete ks t = (Some v, t\<lparr>trie_root := keep_root (remove_key ks n), trie_size := tcount n - 1\<rparr>)"
    using n c(3) assms(2) by (simp add: trie_Delete_def)
  then show ?thesis using keep_root_ok [OF r(1), of "tcount n - 1" t] r c Some assms(2) by simp
qed

lemma trie_DeletePrefix_ok:
  assumes "trie_ok t" "ks \<noteq> []"
  shows "fst (trie_DeletePrefix ks t) = int (card (keys_under ks (trie_map t))) \<and> trie_ok (snd (trie_DeletePrefix ks t)) \<and>
    trie_map (snd (trie_DeletePrefix ks t)) = (\<lambda>xs. if prefix ks xs then None else trie_map t xs)"
proof (cases "\<exists>n m. trie_root t = Some n \<and> find_node ks n = Some m")
  case False
  then have d: "trie_DeletePrefix ks t = (0, t)" using assms(2) by (auto simp: trie_DeletePrefix_def split: option.splits)
  have "keys_under ks (trie_map t) = {}"
  proof (cases "trie_root t")
    case None
    then show ?thesis by (simp add: keys_under_def trie_map_root)
  next
    case (Some n)
    then show ?thesis using False under_tlookup [of ks n] by (simp add: trie_map_root)
  qed
  moreover then have "trie_map t = (\<lambda>xs. if prefix ks xs then None else trie_map t xs)" by (fastforce simp: keys_under_def)
  ultimately show ?thesis using d assms(1) by simp
next
  case True
  then obtain n m where n: "trie_root t = Some n" "find_node ks n = Some m" by blast
  have c: "counted n" "tlookup n [] = None" "trie_size t = tcount n" "trie_map t = tlookup n"
    using assms(1) n(1) by (auto simp: trie_ok_def trie_map_root tvalue_tlookup)
  have d: "count_values m = tcount m" using count_values_wf [OF find_node_counted [OF c(1) n(2)]] .
  have r: "counted (drop_prefix (tcount m) ks n)" "tcount (drop_prefix (tcount m) ks n) = tcount n - tcount m"
      "tlookup (drop_prefix (tcount m) ks n) = (\<lambda>xs. if prefix ks xs then None else tlookup n xs)"
    using drop_prefix_ok [OF c(1) assms(2) n(2)] by auto
  have "trie_DeletePrefix ks t = (tcount m, t\<lparr>trie_root := keep_root (drop_prefix (tcount m) ks n), trie_size := tcount n - tcount m\<rparr>)"
    using n c(3) d assms(2) by (simp add: trie_DeletePrefix_def Let_def)
  then show ?thesis using keep_root_ok [OF r(1), of "tcount n - tcount m" t] r c(1-3) n(2) card_under [OF c(1), of ks] unfolding c(4) by simp
qed

lemma trie_step_ok:
  assumes "trie_ok t" "keyed c"
  shows "\<exists>t'. trie_step c t = Some (fst (tmap_step c (trie_map t)), t') \<and> trie_ok t' \<and> trie_map t' = snd (tmap_step c (trie_map t))"
proof (cases c)
  case (TPut ks v)
  then show ?thesis using trie_Put_ok [OF assms(1), of ks v] assms(2) by auto
next
  case (TDelete ks)
  then show ?thesis using trie_Delete_ok [OF assms(1), of ks] assms(2) by (cases "trie_Delete ks t") auto
next
  case (TDeletePrefix ks)
  then show ?thesis using trie_DeletePrefix_ok [OF assms(1), of ks] assms(2) by (cases "trie_DeletePrefix ks t") auto
next
  case TClear
  then show ?thesis by (simp add: trie_ok_def trie_Clear_def trie_map_root)
qed

lemma trie_run_ok:
  "trie_ok t \<Longrightarrow> \<forall>c\<in>set cs. keyed c \<Longrightarrow>
   \<exists>t'. trie_run cs t = Some (fst (tmap_run cs (trie_map t)), t') \<and> trie_ok t' \<and> trie_map t' = snd (tmap_run cs (trie_map t))"
proof (induction cs arbitrary: t)
  case (Cons c cs)
  obtain t1 where t1: "trie_step c t = Some (fst (tmap_step c (trie_map t)), t1)" "trie_ok t1" "trie_map t1 = snd (tmap_step c (trie_map t))"
    using trie_step_ok [OF Cons.prems(1), of c] Cons.prems(2) by auto
  from Cons.IH [OF t1(2)] Cons.prems(2) show ?case using t1 by (auto simp: split_beta Let_def)
qed simp

section \<open>Properties\<close>

lemma trie_reads:
  assumes "trie_ok t"
  shows "trie_Size t = int (card (dom (trie_map t)))" "distinct (trie_Keys t)"
    "trie_Keys t = map fst (trie_keysValues t)" "trie_Values t = map snd (trie_keysValues t)"
    "set (trie_keysValues t) = {(ks, v). trie_map t ks = Some v}"
    "trie_Root t = trie_root t" "trie_Clone t = t"
proof -
  have n: "counted n" "trie_size t = tcount n" "trie_map t = tlookup n" if "trie_root t = Some n" for n
    using assms that by (simp_all add: trie_ok_def trie_map_root)
  show "trie_Size t = int (card (dom (trie_map t)))"
    using assms n tcount_card by (cases "trie_root t") (auto simp: trie_Size_def trie_ok_def trie_map_root dom_def)
  show "distinct (trie_Keys t)" using n collect_distinct by (auto simp: trie_Keys_def split: option.split)
  show "trie_Keys t = map fst (trie_keysValues t)" by (auto simp: trie_Keys_def trie_keysValues_def split: option.split)
  show "trie_Values t = map snd (trie_keysValues t)"
    using collect_values_snd by (auto simp: trie_Values_def trie_keysValues_def split: option.split)
  show "set (trie_keysValues t) = {(ks, v). trie_map t ks = Some v}"
    using n by (cases "trie_root t") (auto simp: trie_keysValues_def trie_map_root collect_lookup)
  show "trie_Root t = trie_root t" by (cases "trie_root t") (simp_all add: trie_Root_def clone_same)
  show "trie_Clone t = t"
    using assms by (cases t) (auto simp: trie_Clone_def trie_New_def trie_ok_def clone_same split: option.split)
qed

lemma trie_ok_empty: "trie_ok t \<Longrightarrow> trie_root t = None \<longleftrightarrow> trie_map t = Map.empty"
proof
  assume ok: "trie_ok t" and e: "trie_map t = Map.empty"
  show "trie_root t = None"
  proof (cases "trie_root t")
    case (Some n)
    then obtain k m cs where n: "counted n" "tchildren n = (k, m) # cs" using ok by (cases "tchildren n") (auto simp: trie_ok_def)
    then have m: "counted m" "0 < tcount m" by (cases n, simp)+
    then have "{xs. tlookup m xs \<noteq> None} \<noteq> {}" using tcount_card [OF m(1)] card_gt_0_iff [of "{xs. tlookup m xs \<noteq> None}"] by linarith
    then obtain xs where "tlookup m xs \<noteq> None" by blast
    then have "tlookup n (k # xs) \<noteq> None" using n(2) by (cases n) simp
    then show ?thesis using Some e by (auto simp: trie_map_root fun_eq_iff)
  qed
qed (simp add: trie_map_root)

lemma trie_prefix_reads:
  assumes "trie_ok t" "pre \<noteq> []"
  shows "set (trie_PrefixKeysValues pre t) = {(ks, v). prefix pre ks \<and> trie_map t ks = Some v}"
    "trie_PrefixKeys pre t = map fst (trie_PrefixKeysValues pre t)" "trie_PrefixValues pre t = map snd (trie_PrefixKeysValues pre t)"
    "trie_PrefixCount pre t = (if trie_map t = Map.empty then None else Some (int (card (keys_under pre (trie_map t)))))"
proof -
  have n: "counted n" "trie_map t = tlookup n" if "trie_root t = Some n" for n
    using assms(1) that by (simp_all add: trie_ok_def trie_map_root)
  show "set (trie_PrefixKeysValues pre t) = {(ks, v). prefix pre ks \<and> trie_map t ks = Some v}"
  proof (cases "trie_root t")
    case (Some r)
    then show ?thesis using n [OF Some] assms(2) find_node_counted [of r pre]
      by (cases "find_node pre r") (auto simp: trie_PrefixKeysValues_def at_prefix_def prefix_def tlookup_append collect_lookup)
  qed (auto simp: trie_PrefixKeysValues_def at_prefix_def trie_map_root)
  show "trie_PrefixKeys pre t = map fst (trie_PrefixKeysValues pre t)" "trie_PrefixValues pre t = map snd (trie_PrefixKeysValues pre t)"
    using collect_values_snd by (auto simp: trie_PrefixKeys_def trie_PrefixValues_def trie_PrefixKeysValues_def at_prefix_def split: option.split)
  show "trie_PrefixCount pre t = (if trie_map t = Map.empty then None else Some (int (card (keys_under pre (trie_map t)))))"
    using trie_ok_empty [OF assms(1)] n assms(2) by (cases "trie_root t") (auto simp: trie_PrefixCount_def card_under)
qed

text \<open>The prefixes of a key that a map has, from the shortest.\<close>

definition prefix_hits :: "('k list \<Rightarrow> 'v option) \<Rightarrow> 'k list \<Rightarrow> ('k list \<times> 'v) list" where
  "prefix_hits m ks = concat (map (\<lambda>p. case m p of None \<Rightarrow> [] | Some v \<Rightarrow> [(p, v)]) (prefixes ks))"

lemma trie_path_reads:
  assumes "trie_ok t" "ks \<noteq> []"
  shows "trie_PathAncestors ks t = prefix_hits (trie_map t) ks"
    "trie_LongestPrefix ks t = (if prefix_hits (trie_map t) ks = [] then None else Some (last (prefix_hits (trie_map t) ks)))"
proof -
  have h: "prefix_hits (trie_map t) ks = hits n [] ks" "valued [] n = []" if "trie_root t = Some n" for n
    using assms(1) that unfolding hits_def prefix_hits_def append_Nil by (simp_all add: trie_ok_def trie_map_root valued_def)
  have none: "prefix_hits (trie_map t) ks = []" if "trie_root t = None" using that by (simp add: prefix_hits_def trie_map_root)
  show "trie_PathAncestors ks t = prefix_hits (trie_map t) ks"
    using h(1) none assms(2) ancestors_loop_hits [of _ "[]" ks "[]"] by (auto simp: trie_PathAncestors_def split: option.split)
  obtain k ks' where "ks = k # ks'" using assms(2) by (cases ks) auto
  then show "trie_LongestPrefix ks t = (if prefix_hits (trie_map t) ks = [] then None else Some (last (prefix_hits (trie_map t) ks)))"
    using h none by (cases "trie_root t") (simp_all add: trie_LongestPrefix_def longest_loop_hits hits_simps Let_def)
qed

text \<open>
  C40: Under keys that are not empty the trie is a map from lists: any sequence of puts, deletes, deletes
  of a prefix and clears on a new trie returns and answers as the map does, and what the trie holds then
  is the map. The keys are listed once each with their values, the size and the count of a prefix are
  numbers of keys although they are kept as counters, a prefix selects the keys that begin with it, and
  the walk along a key meets its prefixes that have a value, the longest last. The count of a prefix has
  no result on an empty trie.
\<close>

theorem trie_refines_map:
  assumes "\<forall>c\<in>set calls. keyed c" "pre \<noteq> []"
  shows "\<exists>t. trie_run calls trie_New = Some (fst (tmap_run calls Map.empty), t) \<and>
    (let m = snd (tmap_run calls Map.empty)
     in (\<forall>ks. trie_Get ks t = m ks) \<and> trie_Size t = int (card (dom m)) \<and> distinct (trie_Keys t) \<and>
        set (trie_keysValues t) = {(ks, v). m ks = Some v} \<and>
        trie_Keys t = map fst (trie_keysValues t) \<and> trie_Values t = map snd (trie_keysValues t) \<and>
        set (trie_PrefixKeysValues pre t) = {(ks, v). prefix pre ks \<and> m ks = Some v} \<and>
        trie_PrefixCount pre t = (if m = Map.empty then None else Some (int (card (keys_under pre m)))) \<and>
        trie_PathAncestors pre t = prefix_hits m pre \<and>
        trie_LongestPrefix pre t = (if prefix_hits m pre = [] then None else Some (last (prefix_hits m pre))))"
proof -
  have new: "trie_ok trie_New" "trie_map trie_New = Map.empty" by (simp_all add: trie_ok_def trie_New_def trie_map_root)
  from trie_run_ok [OF new(1) assms(1)] obtain t where
    t: "trie_run calls trie_New = Some (fst (tmap_run calls Map.empty), t)" "trie_ok t" "trie_map t = snd (tmap_run calls Map.empty)"
    unfolding new(2) by blast
  have "\<forall>ks. trie_Get ks t = trie_map t ks" by (simp add: trie_map_def)
  then show ?thesis
    using t(1) trie_reads [OF t(2)] trie_prefix_reads [OF t(2) assms(2)] trie_path_reads [OF t(2) assms(2)]
    unfolding t(3) [symmetric] Let_def by (intro exI [of _ t]) simp
qed

theorem trie_refines_map_witness:
  "\<exists>t. trie_run [TPut ''in'' 1, TPut ''inter'' (2 :: int), TPut ''on'' 3, TDelete ''on''] trie_New =
     Some ([IsNew True, IsNew True, IsNew True, Deleted (Some 3)], t) \<and>
     trie_LongestPrefix ''internal'' t = Some (''inter'', 2) \<and> trie_PathAncestors ''internal'' t = [(''in'', 1), (''inter'', 2)]"
  using trie_refines_map [of "[TPut ''in'' 1, TPut ''inter'' (2 :: int), TPut ''on'' 3, TDelete ''on'']" "''internal''"]
  by (simp add: Let_def prefix_hits_def) blast

text \<open>
  The empty key breaks the map. A put takes it, but a delete and a delete of a prefix do not; and when
  the last other key goes, the root goes with it: the value under the empty key is lost while the size
  still counts it. The count of a prefix dereferences the missing root.
\<close>

theorem trie_empty_key_lost:
  "(\<exists>t. trie_run [TPut [] v, TPut [k] w, TDelete [k]] trie_New = Some ([IsNew True, IsNew True, Deleted (Some w)], t) \<and>
     trie_Get [] t = None \<and> trie_keysValues t = [] \<and> trie_Size t = 1 \<and> trie_PrefixCount [k] t = None) \<and>
   trie_run [TPut [] v, TDelete []] trie_New = Some ([IsNew True, Deleted None], \<lparr>trie_root = Some (TNode [] (Some v) 1), trie_size = 1\<rparr>)"
  by (simp add: trie_Put_def trie_Delete_def trie_New_def trie_Get_def trie_Size_def trie_keysValues_def trie_PrefixCount_def
      empty_node_def keep_root_def Let_def)

end
