(* ===== verification/Redis.thy ===== *)
theory Redis
  imports Strconv
begin

text \<open>
  The Redis commands the framework sends and what Redis documents of them. The server is not part of
  the repository: it is a function from a command, an instant and its state to a reply and a state, an
  argument of everything below, and the locale \<open>redis_server\<close> says what is relied on. A command is
  either refused, which changes nothing, or does what \<open>redis_command\<close> says on the keys the server holds.

  Instants and durations are nanoseconds, as in Go; the client sends an expiry of a SET in milliseconds
  and that of an EXPIRE in seconds, rounded down. A score is the integer the code converts to a
  \<open>float64\<close>, exact for the milliseconds it is used with.
\<close>

section \<open>Time\<close>

definition nsPerMilli :: int where "nsPerMilli = 1000000"
definition nsPerSecond :: int where "nsPerSecond = 1000000000"

definition UnixMilli :: "int \<Rightarrow> int" where "UnixMilli t = t div nsPerMilli"

text \<open>The zero \<open>time.Time\<close>, the first instant of the year one, and a difference of times, which saturates.\<close>

definition zero_time :: int where "zero_time = - 62135596800 * nsPerSecond"

definition IsZero :: "int \<Rightarrow> bool" where "IsZero t \<longleftrightarrow> t = zero_time"

definition time_Sub :: "int \<Rightarrow> int \<Rightarrow> int" where
  "time_Sub t u = max (- (2 ^ 63)) (min (2 ^ 63 - 1) (t - u))"

text \<open>How the client writes a duration: whole milliseconds or whole seconds, at least one when positive.\<close>

definition formatMs :: "int \<Rightarrow> int" where
  "formatMs d = (if 0 < d \<and> d < nsPerMilli then nsPerMilli else d div nsPerMilli * nsPerMilli)"

definition formatSec :: "int \<Rightarrow> int" where
  "formatSec d = (if 0 < d \<and> d < nsPerSecond then nsPerSecond else d div nsPerSecond * nsPerSecond)"

section \<open>Commands\<close>

datatype command =
    GET string
  | SET string string int
  | SETNX string string int
  | SETXX string string int
  | DEL "string list"
  | EXPIRE string int
  | ZADD string int "string list"
  | ZREM string "string list"
  | ZRANGE string
  | ZRANGEBYSCORE string int
  | ZREMRANGEBYSCORE string int
  | INCR string
  | INCR_PEXPIRE_NX string int

datatype reply = R_failed | R_nil | R_ok | R_str string | R_int int | R_bool bool | R_members "string list"

datatype rvalue = Text string | Sorted "(string \<times> int) list"

text \<open>A key holds a value and, when it expires, the instant it does.\<close>

type_synonym keyspace = "string \<Rightarrow> (rvalue \<times> int option) option"

definition held :: "int \<Rightarrow> keyspace \<Rightarrow> string \<Rightarrow> (rvalue \<times> int option) option" where
  "held t ks x =
     (case ks x of
        Some (v, Some d) \<Rightarrow> if t < d then Some (v, Some d) else None
      | entry \<Rightarrow> entry)"

definition deadline :: "int \<Rightarrow> int \<Rightarrow> int option" where
  "deadline t ttl = (if ttl \<le> 0 then None else Some (t + ttl))"

section \<open>Sorted sets\<close>

text \<open>In the order of the scores, members of one score in the order of their bytes.\<close>

fun bytes_less :: "string \<Rightarrow> string \<Rightarrow> bool" where
  "bytes_less _ [] \<longleftrightarrow> False"
| "bytes_less [] (_ # _) \<longleftrightarrow> True"
| "bytes_less (c # cs) (d # ds) \<longleftrightarrow> c < d \<or> (c = d \<and> bytes_less cs ds)"

definition zmember :: "(string \<times> int) list \<Rightarrow> string \<Rightarrow> int option" where
  "zmember z m = map_of z m"

fun zinsert :: "string \<Rightarrow> int \<Rightarrow> (string \<times> int) list \<Rightarrow> (string \<times> int) list" where
  "zinsert m s [] = [(m, s)]"
| "zinsert m s ((m', s') # z) = (if s < s' \<or> (s = s' \<and> bytes_less m m') then (m, s) # (m', s') # z else (m', s') # zinsert m s z)"

definition zremove :: "string \<Rightarrow> (string \<times> int) list \<Rightarrow> (string \<times> int) list" where
  "zremove m z = filter (\<lambda>e. fst e \<noteq> m) z"

definition zadd :: "string \<Rightarrow> int \<Rightarrow> (string \<times> int) list \<Rightarrow> (string \<times> int) list" where
  "zadd m s z = zinsert m s (zremove m z)"

text \<open>A sorted set that has lost its last member is no key.\<close>

definition keep_sorted :: "(string \<times> int) list \<Rightarrow> int option \<Rightarrow> (rvalue \<times> int option) option" where
  "keep_sorted z d = (if z = [] then None else Some (Sorted z, d))"

section \<open>What a command does\<close>

fun set_expiry :: "int \<Rightarrow> string \<Rightarrow> (int option \<Rightarrow> int option) \<Rightarrow> keyspace \<Rightarrow> keyspace" where
  "set_expiry t x f ks =
     (case held t ks x of
        None \<Rightarrow> ks
      | Some (v, d) \<Rightarrow> ks(x \<mapsto> (v, f d)))"

definition incr :: "int \<Rightarrow> string \<Rightarrow> keyspace \<Rightarrow> reply \<times> keyspace" where
  "incr t x ks =
     (case held t ks x of
        None \<Rightarrow> (R_int 1, ks(x \<mapsto> (Text ''1'', None)))
      | Some (Sorted z, d) \<Rightarrow> (R_failed, ks)
      | Some (Text v, d) \<Rightarrow>
          (case ParseInt 64 v of
             Number n \<Rightarrow>
               if n + 1 < 2 ^ 63 then (R_int (n + 1), ks(x \<mapsto> (Text (FormatInt (n + 1)), d)))
               else (R_failed, ks)
           | _ \<Rightarrow> (R_failed, ks)))"

fun redis_command :: "command \<Rightarrow> int \<Rightarrow> keyspace \<Rightarrow> reply \<times> keyspace" where
  "redis_command (GET x) t ks =
     (case held t ks x of
        None \<Rightarrow> (R_nil, ks)
      | Some (Text v, d) \<Rightarrow> (R_str v, ks)
      | Some (Sorted z, d) \<Rightarrow> (R_failed, ks))"
| "redis_command (SET x v ttl) t ks = (R_ok, ks(x \<mapsto> (Text v, deadline t ttl)))"
| "redis_command (SETNX x v ttl) t ks =
     (if held t ks x = None then (R_bool True, ks(x \<mapsto> (Text v, deadline t ttl))) else (R_bool False, ks))"
| "redis_command (SETXX x v ttl) t ks =
     (if held t ks x \<noteq> None then (R_bool True, ks(x \<mapsto> (Text v, deadline t ttl))) else (R_bool False, ks))"
| "redis_command (DEL xs) t ks =
     (R_int (int (length (filter (\<lambda>x. held t ks x \<noteq> None) (remdups xs)))), (\<lambda>x. if x \<in> set xs then None else ks x))"
| "redis_command (EXPIRE x ttl) t ks =
     (R_bool (held t ks x \<noteq> None), if ttl \<le> 0 then ks(x := None) else set_expiry t x (\<lambda>_. Some (t + ttl)) ks)"
| "redis_command (ZADD x s ms) t ks =
     (case held t ks x of
        None \<Rightarrow> (R_int (int (length (remdups ms))), ks(x := keep_sorted (fold (\<lambda>m. zadd m s) ms []) None))
      | Some (Sorted z, d) \<Rightarrow> (R_int (int (length (filter (\<lambda>m. zmember z m = None) (remdups ms)))), ks(x := keep_sorted (fold (\<lambda>m. zadd m s) ms z) d))
      | Some (Text v, d) \<Rightarrow> (R_failed, ks))"
| "redis_command (ZREM x ms) t ks =
     (case held t ks x of
        None \<Rightarrow> (R_int 0, ks)
      | Some (Sorted z, d) \<Rightarrow> (R_int (int (length (filter (\<lambda>m. zmember z m \<noteq> None) (remdups ms)))), ks(x := keep_sorted (fold zremove ms z) d))
      | Some (Text v, d) \<Rightarrow> (R_failed, ks))"
| "redis_command (ZRANGE x) t ks =
     (case held t ks x of
        None \<Rightarrow> (R_members [], ks)
      | Some (Sorted z, d) \<Rightarrow> (R_members (map fst z), ks)
      | Some (Text v, d) \<Rightarrow> (R_failed, ks))"
| "redis_command (ZRANGEBYSCORE x lo) t ks =
     (case held t ks x of
        None \<Rightarrow> (R_members [], ks)
      | Some (Sorted z, d) \<Rightarrow> (R_members (map fst (filter (\<lambda>e. lo \<le> snd e) z)), ks)
      | Some (Text v, d) \<Rightarrow> (R_failed, ks))"
| "redis_command (ZREMRANGEBYSCORE x hi) t ks =
     (case held t ks x of
        None \<Rightarrow> (R_int 0, ks)
      | Some (Sorted z, d) \<Rightarrow> (R_int (int (length (filter (\<lambda>e. snd e \<le> hi) z))), ks(x := keep_sorted (filter (\<lambda>e. hi < snd e) z) d))
      | Some (Text v, d) \<Rightarrow> (R_failed, ks))"
| "redis_command (INCR x) t ks = incr t x ks"
| "redis_command (INCR_PEXPIRE_NX x window) t ks =
     (let (r, ks') = incr t x ks
      in (r, set_expiry t x (\<lambda>d. case d of None \<Rightarrow> Some (t + window) | Some e \<Rightarrow> Some e) ks'))"

section \<open>The server\<close>

type_synonym 'k server = "command \<Rightarrow> int \<Rightarrow> 'k \<Rightarrow> reply \<times> 'k"

locale redis_server =
  fixes serve :: "'k server"
    and view :: "'k \<Rightarrow> keyspace"
  assumes documented:
    "serve c t k = (r, k') \<Longrightarrow> (r = R_failed \<and> view k' = view k) \<or> (r, view k') = redis_command c t (view k)"

text \<open>A server in working order refuses only what Redis refuses.\<close>

locale healthy_redis = redis_server +
  assumes healthy: "serve c t k = (r, k') \<Longrightarrow> (r, view k') = redis_command c t (view k)"

interpretation keyspace: healthy_redis redis_command "\<lambda>ks. ks"
  by unfold_locales simp_all

section \<open>Keys no command creates\<close>

text \<open>A command that can bring a key into being, or change what it holds.\<close>

fun creates :: "string \<Rightarrow> command \<Rightarrow> bool" where
  "creates x (SET y v ttl) \<longleftrightarrow> x = y"
| "creates x (SETNX y v ttl) \<longleftrightarrow> x = y"
| "creates x (ZADD y s ms) \<longleftrightarrow> x = y"
| "creates x (INCR y) \<longleftrightarrow> x = y"
| "creates x (INCR_PEXPIRE_NX y window) \<longleftrightarrow> x = y"
| "creates x _ \<longleftrightarrow> False"

fun names :: "string \<Rightarrow> command \<Rightarrow> bool" where
  "names x (GET y) \<longleftrightarrow> x = y"
| "names x (SET y v ttl) \<longleftrightarrow> x = y"
| "names x (SETNX y v ttl) \<longleftrightarrow> x = y"
| "names x (SETXX y v ttl) \<longleftrightarrow> x = y"
| "names x (DEL ys) \<longleftrightarrow> x \<in> set ys"
| "names x (EXPIRE y ttl) \<longleftrightarrow> x = y"
| "names x (ZADD y s ms) \<longleftrightarrow> x = y"
| "names x (ZREM y ms) \<longleftrightarrow> x = y"
| "names x (ZRANGE y) \<longleftrightarrow> x = y"
| "names x (ZRANGEBYSCORE y lo) \<longleftrightarrow> x = y"
| "names x (ZREMRANGEBYSCORE y hi) \<longleftrightarrow> x = y"
| "names x (INCR y) \<longleftrightarrow> x = y"
| "names x (INCR_PEXPIRE_NX y window) \<longleftrightarrow> x = y"

lemma held_upd [simp]: "held t (ks(x \<mapsto> (v, d))) y = (if y = x then (case d of Some e \<Rightarrow> if t < e then Some (v, d) else None | None \<Rightarrow> Some (v, d)) else held t ks y)"
  by (simp add: held_def split: option.splits)

lemma held_upd_opt: "held t (ks(x := e)) y = (if y = x then held t (\<lambda>_. e) x else held t ks y)"
  by (simp add: held_def)

lemma held_None_later: "held t ks x = None \<Longrightarrow> t \<le> t' \<Longrightarrow> held t' ks x = None"
  by (auto simp: held_def split: option.splits if_splits)

lemma held_later: "held t' ks x = Some (v, d) \<Longrightarrow> t \<le> t' \<Longrightarrow> held t ks x = Some (v, d)"
  by (auto simp: held_def split: option.splits if_splits)

lemma held_until: "held t ks x = Some (v, d) \<Longrightarrow> (\<forall>e. d = Some e \<longrightarrow> t' < e) \<Longrightarrow> held t' ks x = Some (v, d)"
  by (auto simp: held_def split: option.splits if_splits)

lemma set_expiry_other: "y \<noteq> x \<Longrightarrow> set_expiry t x f ks y = ks y"
  by (auto split: option.splits)

lemma incr_other: "incr t x ks = (r, ks') \<Longrightarrow> y \<noteq> x \<Longrightarrow> ks' y = ks y"
  by (auto simp: incr_def split: option.splits prod.splits rvalue.splits parsed.splits if_splits)

lemma command_other: "redis_command c t ks = (r, ks') \<Longrightarrow> \<not> names x c \<Longrightarrow> ks' x = ks x"
proof (induction c t ks rule: redis_command.induct)
  case (13 y window t ks)
  obtain r1 k1 where i: "incr t y ks = (r1, k1)" by fastforce
  then have "k1 x = ks x" using incr_other [OF i] 13 by auto
  then show ?case using 13 i set_expiry_other [of x y] by auto
qed (auto simp: incr_other set_expiry_other split: option.splits prod.splits rvalue.splits if_splits)

lemma command_absent:
  assumes "redis_command c t ks = (r, ks')" "held t ks x = None" "\<not> creates x c"
  shows "held t ks' x = None"
  using assms
  by (cases c) (auto simp: held_upd_opt set_expiry_other incr_other held_def fun_upd_def split: option.splits prod.splits rvalue.splits if_splits)

end
