(* ===== verification/Redis_Program.thy ===== *)
theory Redis_Program
  imports Redis
begin

text \<open>
  Request handlers that speak to Redis and to the database, and the package they do it through,
  \<^verbatim>\<open>src/redis\<close> (\<^verbatim>\<open>namespace.go\<close>, \<^verbatim>\<open>string.go\<close>, \<^verbatim>\<open>sortedset.go\<close>, \<^verbatim>\<open>key.go\<close>, \<^verbatim>\<open>cache.go\<close>).

  A handler is a program: a result, a Redis command with what is done with its reply, a reading of the
  clock, or a database statement, what it does to the rows and what is done with its answer. A program is run alone by \<open>exec\<close>,
  or beside others by \<open>run_pool\<close>, which interleaves them command by command. What the surroundings do is
  one \<open>choice\<close> per step: how long it takes, how often the command reached the server with its reply lost
  and was sent again, as the client does, and whether it was answered in the end; a database statement
  that was not answered may have been carried out. A theorem about every
  sequence of choices is a theorem about every network.
\<close>

section \<open>Programs\<close>

datatype ('d, 'a) prog =
    Ret 'a
  | Redis command "reply \<Rightarrow> ('d, 'a) prog"
  | Now "int \<Rightarrow> ('d, 'a) prog"
  | Db "'d \<Rightarrow> 'd" "bool \<Rightarrow> 'd \<Rightarrow> ('d, 'a) prog"

primrec pbind :: "('d, 'a) prog \<Rightarrow> ('a \<Rightarrow> ('d, 'b) prog) \<Rightarrow> ('d, 'b) prog" where
  "pbind (Ret a) f = f a"
| "pbind (Redis c k) f = Redis c (\<lambda>r. pbind (k r) f)"
| "pbind (Now k) f = Now (\<lambda>t. pbind (k t) f)"
| "pbind (Db u k) f = Db u (\<lambda>b d. pbind (k b d) f)"

text \<open>A statement that only reads, whose answer is an error when the database does not answer.\<close>

definition db_read :: "'e \<Rightarrow> ('d \<Rightarrow> 'e + 'a) \<Rightarrow> ('d, 'e + 'a) prog" where
  "db_read failed f = Db (\<lambda>d. d) (\<lambda>answered d. Ret (if answered then f d else Inl failed))"

section \<open>Runs\<close>

record ('k, 'd) world =
  w_now :: int
  w_redis :: 'k
  w_db :: 'd

record choice =
  ch_delay :: nat
  ch_lost :: "nat list"
  ch_answered :: bool

definition calm :: choice where
  "calm = \<lparr>ch_delay = 0, ch_lost = [], ch_answered = True\<rparr>"

fun resend :: "'k server \<Rightarrow> command \<Rightarrow> nat list \<Rightarrow> int \<Rightarrow> 'k \<Rightarrow> int \<times> 'k" where
  "resend serve c [] t k = (t, k)"
| "resend serve c (d # ds) t k = resend serve c ds (t + int d) (snd (serve c t k))"

definition redis_call :: "'k server \<Rightarrow> choice \<Rightarrow> command \<Rightarrow> ('k, 'd) world \<Rightarrow> reply \<times> ('k, 'd) world" where
  "redis_call serve ch c w =
     (let (t, k) = resend serve c (ch_lost ch) (w_now w + int (ch_delay ch)) (w_redis w)
      in if ch_answered ch then
           (let (r, k') = serve c t k in (r, w\<lparr>w_now := t, w_redis := k'\<rparr>))
         else (R_failed, w\<lparr>w_now := t, w_redis := k\<rparr>))"

definition clock_call :: "choice \<Rightarrow> ('k, 'd) world \<Rightarrow> int \<times> ('k, 'd) world" where
  "clock_call ch w = (w_now w + int (ch_delay ch), w\<lparr>w_now := w_now w + int (ch_delay ch)\<rparr>)"

definition db_call :: "choice \<Rightarrow> ('d \<Rightarrow> 'd) \<Rightarrow> ('k, 'd) world \<Rightarrow> ('k, 'd) world" where
  "db_call ch u w =
     w\<lparr>w_now := w_now w + int (ch_delay ch), w_db := (if ch_answered ch \<or> ch_lost ch \<noteq> [] then u (w_db w) else w_db w)\<rparr>"

fun prog_step :: "'k server \<Rightarrow> choice \<Rightarrow> ('d, 'a) prog \<Rightarrow> ('k, 'd) world \<Rightarrow> ('d, 'a) prog \<times> ('k, 'd) world" where
  "prog_step serve ch (Ret a) w = (Ret a, w)"
| "prog_step serve ch (Redis c k) w = (let (r, w') = redis_call serve ch c w in (k r, w'))"
| "prog_step serve ch (Now k) w = (let (t, w') = clock_call ch w in (k t, w'))"
| "prog_step serve ch (Db u k) w = (k (ch_answered ch) (w_db w), db_call ch u w)"

text \<open>A program alone: every program returns, whatever the choices.\<close>

primrec exec :: "'k server \<Rightarrow> ('d, 'a) prog \<Rightarrow> (nat \<Rightarrow> choice) \<Rightarrow> ('k, 'd) world \<Rightarrow> 'a \<times> (nat \<Rightarrow> choice) \<times> ('k, 'd) world" where
  "exec serve (Ret a) e w = (a, e, w)"
| "exec serve (Redis c k) e w =
     (let (r, w') = redis_call serve (e 0) c w in exec serve (k r) (\<lambda>n. e (Suc n)) w')"
| "exec serve (Now k) e w = (let (t, w') = clock_call (e 0) w in exec serve (k t) (\<lambda>n. e (Suc n)) w')"
| "exec serve (Db u k) e w = exec serve (k (ch_answered (e 0)) (w_db w)) (\<lambda>n. e (Suc n)) (db_call (e 0) u w)"

text \<open>Programs side by side: a schedule says which moves next and what its surroundings do.\<close>

definition pool_step :: "'k server \<Rightarrow> nat \<times> choice \<Rightarrow> ('d, 'a) prog list \<times> ('k, 'd) world \<Rightarrow> ('d, 'a) prog list \<times> ('k, 'd) world" where
  "pool_step serve m s =
     (if fst m < length (fst s) then
        (let (p, w) = prog_step serve (snd m) (fst s ! fst m) (snd s) in ((fst s)[fst m := p], w))
      else s)"

definition run_pool ::
  "'k server \<Rightarrow> (nat \<times> choice) list \<Rightarrow> ('d, 'a) prog list \<times> ('k, 'd) world \<Rightarrow> ('d, 'a) prog list \<times> ('k, 'd) world" where
  "run_pool serve sched s = fold (pool_step serve) sched s"

section \<open>The package redis\<close>

datatype redis_error = ErrKeyNotExists | ErrRedis

text \<open>\<open>Key\<close>: the namespace of the deployment in front, unless it is there.\<close>

definition trim_namespace :: "string \<Rightarrow> string" where
  "trim_namespace ns = rev (dropWhile (\<lambda>c. c \<in> set '': '') (rev (dropWhile (\<lambda>c. c \<in> set '': '') ns)))"

definition hasNamespace :: "string \<Rightarrow> string \<Rightarrow> bool" where
  "hasNamespace key namespace \<longleftrightarrow>
     length namespace < length key \<and> key ! length namespace = CHR '':'' \<and> take (length namespace) key = namespace"

definition Key :: "string \<Rightarrow> string \<Rightarrow> string" where
  "Key ns key =
     (let namespace = trim_namespace ns
      in if namespace = [] \<or> hasNamespace key namespace then key else namespace @ '':'' @ key)"

definition namespacedKeys :: "string \<Rightarrow> string list \<Rightarrow> string list" where
  "namespacedKeys ns ks = map (Key ns) ks"

fun status_reply :: "reply \<Rightarrow> redis_error option" where
  "status_reply R_failed = Some ErrRedis"
| "status_reply _ = None"

definition redis_Set :: "string \<Rightarrow> string \<Rightarrow> string \<Rightarrow> int \<Rightarrow> ('d, redis_error option) prog" where
  "redis_Set ns key data ttl = Redis (SET (Key ns key) data (formatMs ttl)) (\<lambda>r. Ret (status_reply r))"

fun bytes_reply :: "reply \<Rightarrow> redis_error + string" where
  "bytes_reply R_nil = Inl ErrKeyNotExists"
| "bytes_reply (R_str v) = Inr v"
| "bytes_reply _ = Inl ErrRedis"

definition redis_Get :: "string \<Rightarrow> string \<Rightarrow> ('d, redis_error + string) prog" where
  "redis_Get ns key = Redis (GET (Key ns key)) (\<lambda>r. Ret (bytes_reply r))"

fun bool_reply :: "reply \<Rightarrow> redis_error + bool" where
  "bool_reply (R_bool b) = Inr b"
| "bool_reply _ = Inl ErrRedis"

definition redis_SetNX :: "string \<Rightarrow> string \<Rightarrow> string \<Rightarrow> int \<Rightarrow> ('d, redis_error + bool) prog" where
  "redis_SetNX ns key v ttl = Redis (SETNX (Key ns key) v (formatMs ttl)) (\<lambda>r. Ret (bool_reply r))"

definition redis_SetXX :: "string \<Rightarrow> string \<Rightarrow> string \<Rightarrow> int \<Rightarrow> ('d, redis_error + bool) prog" where
  "redis_SetXX ns key v ttl = Redis (SETXX (Key ns key) v (formatMs ttl)) (\<lambda>r. Ret (bool_reply r))"

fun int_reply :: "reply \<Rightarrow> redis_error + int" where
  "int_reply (R_int n) = Inr n"
| "int_reply _ = Inl ErrRedis"

definition redis_Incr :: "string \<Rightarrow> string \<Rightarrow> ('d, redis_error + int) prog" where
  "redis_Incr ns key = Redis (INCR (Key ns key)) (\<lambda>r. Ret (int_reply r))"

definition redis_IncrFixedWindow :: "string \<Rightarrow> string \<Rightarrow> int \<Rightarrow> ('d, redis_error + int) prog" where
  "redis_IncrFixedWindow ns key window =
     (if window < nsPerMilli \<or> window mod nsPerMilli \<noteq> 0 then Ret (Inl ErrRedis)
      else Redis (INCR_PEXPIRE_NX (Key ns key) window) (\<lambda>r. Ret (int_reply r)))"

definition redis_GetInt :: "string \<Rightarrow> string \<Rightarrow> ('d, redis_error + int) prog" where
  "redis_GetInt ns key =
     Redis (GET (Key ns key)) (\<lambda>r. Ret
       (case bytes_reply r of
          Inl err \<Rightarrow> Inl err
        | Inr v \<Rightarrow> (case ParseInt 64 v of Number n \<Rightarrow> Inr n | _ \<Rightarrow> Inl ErrRedis)))"

definition redis_Del :: "string \<Rightarrow> string list \<Rightarrow> ('d, redis_error option) prog" where
  "redis_Del ns keys = Redis (DEL (namespacedKeys ns keys)) (\<lambda>r. Ret (status_reply r))"

definition redis_Expire :: "string \<Rightarrow> string \<Rightarrow> int \<Rightarrow> ('d, redis_error option) prog" where
  "redis_Expire ns key ttl = Redis (EXPIRE (Key ns key) (formatSec ttl)) (\<lambda>r. Ret (status_reply r))"

definition redis_ZAdd :: "string \<Rightarrow> string \<Rightarrow> int \<Rightarrow> string list \<Rightarrow> ('d, redis_error option) prog" where
  "redis_ZAdd ns key score ms =
     (if ms = [] then Ret None else Redis (ZADD (Key ns key) score ms) (\<lambda>r. Ret (status_reply r)))"

fun members_reply :: "reply \<Rightarrow> redis_error + string list" where
  "members_reply (R_members ms) = Inr ms"
| "members_reply _ = Inl ErrRedis"

definition redis_ZRange :: "string \<Rightarrow> string \<Rightarrow> ('d, redis_error + string list) prog" where
  "redis_ZRange ns key = Redis (ZRANGE (Key ns key)) (\<lambda>r. Ret (members_reply r))"

definition redis_ZRangeByScore :: "string \<Rightarrow> string \<Rightarrow> int \<Rightarrow> ('d, redis_error + string list) prog" where
  "redis_ZRangeByScore ns key minScore = Redis (ZRANGEBYSCORE (Key ns key) minScore) (\<lambda>r. Ret (members_reply r))"

definition redis_ZRem :: "string \<Rightarrow> string \<Rightarrow> string list \<Rightarrow> ('d, redis_error option) prog" where
  "redis_ZRem ns key ms =
     (if ms = [] then Ret None else Redis (ZREM (Key ns key) ms) (\<lambda>r. Ret (status_reply r)))"

definition redis_ZRemRangeByScore :: "string \<Rightarrow> string \<Rightarrow> int \<Rightarrow> ('d, redis_error option) prog" where
  "redis_ZRemRangeByScore ns key maxScore = Redis (ZREMRANGEBYSCORE (Key ns key) maxScore) (\<lambda>r. Ret (status_reply r))"

text \<open>
  The typed cache: a value that does not decode is deleted and reads as a miss. The codec of the
  cached type is an argument.
\<close>

definition cache_Set :: "string \<Rightarrow> ('v \<Rightarrow> string) \<Rightarrow> string \<Rightarrow> 'v \<Rightarrow> int \<Rightarrow> ('d, redis_error option) prog" where
  "cache_Set ns enc key data ttl =
     (if ttl < 0 then Ret (Some ErrRedis)
      else if enc data = [] then Ret (Some ErrRedis)
      else Redis (SET (Key ns key) (enc data) (formatMs ttl)) (\<lambda>r. Ret (status_reply r)))"

definition cache_Delete :: "string \<Rightarrow> string \<Rightarrow> ('d, redis_error option) prog" where
  "cache_Delete ns key = Redis (DEL [Key ns key]) (\<lambda>r. Ret (status_reply r))"

definition cache_Get :: "string \<Rightarrow> (string \<Rightarrow> 'v option) \<Rightarrow> string \<Rightarrow> ('d, redis_error + 'v) prog" where
  "cache_Get ns dec key =
     Redis (GET (Key ns key)) (\<lambda>r.
       case bytes_reply r of
         Inl err \<Rightarrow> Ret (Inl err)
       | Inr data \<Rightarrow>
           (if data = [] then Ret (Inl ErrKeyNotExists)
            else (case dec data of
                    Some v \<Rightarrow> Ret (Inr v)
                  | None \<Rightarrow> pbind (cache_Delete ns key) (\<lambda>_. Ret (Inl ErrKeyNotExists)))))"

section \<open>Lemmas\<close>

named_theorems issues_simps "which commands a program may send"

text \<open>Every command a program sends, whatever it is answered, satisfies a condition.\<close>

primrec issues :: "(command \<Rightarrow> bool) \<Rightarrow> ('d, 'a) prog \<Rightarrow> bool" where
  "issues P (Ret a) \<longleftrightarrow> True"
| "issues P (Redis c k) \<longleftrightarrow> P c \<and> (\<forall>r. issues P (k r))"
| "issues P (Now k) \<longleftrightarrow> (\<forall>t. issues P (k t))"
| "issues P (Db u k) \<longleftrightarrow> (\<forall>b d. issues P (k b d))"

text \<open>Every result a program may return, whatever it is answered, satisfies a condition.\<close>

primrec returns :: "('a \<Rightarrow> bool) \<Rightarrow> ('d, 'a) prog \<Rightarrow> bool" where
  "returns P (Ret a) \<longleftrightarrow> P a"
| "returns P (Redis c k) \<longleftrightarrow> (\<forall>r. returns P (k r))"
| "returns P (Now k) \<longleftrightarrow> (\<forall>t. returns P (k t))"
| "returns P (Db u k) \<longleftrightarrow> (\<forall>b d. returns P (k b d))"

lemma prog_induct [case_names Ret Redis Now Db]:
  assumes "\<And>a. P (Ret a)" "\<And>c k. (\<And>r. P (k r)) \<Longrightarrow> P (Redis c k)" "\<And>k. (\<And>t. P (k t)) \<Longrightarrow> P (Now k)"
    "\<And>u k. (\<And>b d. P (k b d)) \<Longrightarrow> P (Db u k)"
  shows "P p"
proof (induction p)
  case (Db u k)
  have "P (k b d)" for b d using Db [of "k b" "k b d"] by simp
  then show ?case by (rule assms(4))
qed (use assms in \<open>auto\<close>)

lemma issues_pbind: "issues P m \<Longrightarrow> (\<And>a. issues P (f a)) \<Longrightarrow> issues P (pbind m f)"
  by (induction m rule: prog_induct) auto

lemma returns_pbind: "returns Q m \<Longrightarrow> (\<And>a. Q a \<Longrightarrow> returns P (f a)) \<Longrightarrow> returns P (pbind m f)"
  by (induction m rule: prog_induct) auto

lemma returns_pbind_any: "(\<And>a. returns P (f a)) \<Longrightarrow> returns P (pbind m f)"
  by (induction m rule: prog_induct) auto

lemma pbind_assoc: "pbind (pbind m f) g = pbind m (\<lambda>a. pbind (f a) g)"
  by (induction m rule: prog_induct) auto

lemma exec_pbind:
  "exec serve (pbind m f) e w = (case exec serve m e w of (a, e', w') \<Rightarrow> exec serve (f a) e' w')"
  by (induction m arbitrary: e w rule: prog_induct) (simp_all split: prod.splits)

lemma exec_returns: "returns P p \<Longrightarrow> exec serve p e w = (a, e', w') \<Longrightarrow> P a"
  by (induction p arbitrary: e w rule: prog_induct) (auto split: prod.splits)

lemma issues_db_read [issues_simps]: "issues P (db_read failed f)"
  by (simp add: db_read_def)

lemma issues_redis [issues_simps]:
  "issues P (redis_Set ns key v ttl) \<longleftrightarrow> P (SET (Key ns key) v (formatMs ttl))"
  "issues P (redis_Get ns key) \<longleftrightarrow> P (GET (Key ns key))"
  "issues P (redis_SetNX ns key v ttl) \<longleftrightarrow> P (SETNX (Key ns key) v (formatMs ttl))"
  "issues P (redis_SetXX ns key v ttl) \<longleftrightarrow> P (SETXX (Key ns key) v (formatMs ttl))"
  "issues P (redis_Incr ns key) \<longleftrightarrow> P (INCR (Key ns key))"
  "issues P (redis_GetInt ns key) \<longleftrightarrow> P (GET (Key ns key))"
  "issues P (redis_Del ns keys) \<longleftrightarrow> P (DEL (namespacedKeys ns keys))"
  "issues P (redis_Expire ns key ttl) \<longleftrightarrow> P (EXPIRE (Key ns key) (formatSec ttl))"
  "issues P (redis_ZRange ns key) \<longleftrightarrow> P (ZRANGE (Key ns key))"
  "issues P (redis_ZRangeByScore ns key lo) \<longleftrightarrow> P (ZRANGEBYSCORE (Key ns key) lo)"
  "issues P (redis_ZRemRangeByScore ns key hi) \<longleftrightarrow> P (ZREMRANGEBYSCORE (Key ns key) hi)"
  "issues P (cache_Delete ns key) \<longleftrightarrow> P (DEL [Key ns key])"
  by (simp_all add: redis_Set_def redis_Get_def redis_SetNX_def redis_SetXX_def redis_Incr_def redis_GetInt_def redis_Del_def
      redis_Expire_def redis_ZRange_def redis_ZRangeByScore_def redis_ZRemRangeByScore_def cache_Delete_def)

lemma issues_redis_guarded [issues_simps]:
  "P (INCR_PEXPIRE_NX (Key ns key) window) \<Longrightarrow> issues P (redis_IncrFixedWindow ns key window)"
  "P (ZADD (Key ns key) score ms) \<Longrightarrow> issues P (redis_ZAdd ns key score ms)"
  "P (ZREM (Key ns key) ms) \<Longrightarrow> issues P (redis_ZRem ns key ms)"
  "P (SET (Key ns key) (enc v) (formatMs ttl)) \<Longrightarrow> issues P (cache_Set ns enc key v ttl)"
  "P (GET (Key ns key)) \<Longrightarrow> P (DEL [Key ns key]) \<Longrightarrow> issues P (cache_Get ns dec key)"
  by (auto simp: redis_IncrFixedWindow_def redis_ZAdd_def redis_ZRem_def cache_Set_def cache_Get_def cache_Delete_def
      split: sum.splits option.splits)

subsection \<open>Runs\<close>

lemma resend_time: "resend serve c ds t k = (t', k') \<Longrightarrow> t \<le> t'"
proof (induction ds arbitrary: t k)
  case (Cons d ds)
  then have "t + int d \<le> t'" by simp
  then show ?case by simp
qed simp

lemma call_time: "redis_call serve ch c w = (r, w') \<Longrightarrow> w_now w \<le> w_now w'"
  by (auto simp: redis_call_def split: prod.splits if_splits dest!: resend_time)

lemma call_db: "redis_call serve ch c w = (r, w') \<Longrightarrow> w_db w' = w_db w"
  by (auto simp: redis_call_def split: prod.splits if_splits)

lemma exec_time: "exec serve p e w = (a, e', w') \<Longrightarrow> w_now w \<le> w_now w'"
proof (induction p arbitrary: e w rule: prog_induct)
  case (Redis c k)
  then show ?case using call_time by (fastforce split: prod.splits)
next
  case (Now k)
  then have "w_now (snd (clock_call (e 0) w)) \<le> w_now w'" by (auto split: prod.splits)
  then show ?case by (simp add: clock_call_def)
next
  case (Db u k)
  then have "w_now (db_call (e 0) u w) \<le> w_now w'" by auto
  then show ?case by (simp add: db_call_def)
qed simp

text \<open>A program that does not write to the database.\<close>

primrec reads_only :: "('d, 'a) prog \<Rightarrow> bool" where
  "reads_only (Ret a) \<longleftrightarrow> True"
| "reads_only (Redis c k) \<longleftrightarrow> (\<forall>r. reads_only (k r))"
| "reads_only (Now k) \<longleftrightarrow> (\<forall>t. reads_only (k t))"
| "reads_only (Db u k) \<longleftrightarrow> u = (\<lambda>d. d) \<and> (\<forall>b d. reads_only (k b d))"

lemma reads_only_pbind: "reads_only m \<Longrightarrow> (\<And>a. reads_only (f a)) \<Longrightarrow> reads_only (pbind m f)"
  by (induction m rule: prog_induct) auto

lemma reads_only_exec: "reads_only p \<Longrightarrow> exec serve p e w = (a, e', w') \<Longrightarrow> w_db w' = w_db w"
proof (induction p arbitrary: e w rule: prog_induct)
  case (Redis c k)
  then show ?case using call_db by (fastforce split: prod.splits)
next
  case (Now k)
  then have "w_db w' = w_db (snd (clock_call (e 0) w))" by (auto split: prod.splits)
  then show ?case by (simp add: clock_call_def)
next
  case (Db u k)
  then have "w_db w' = w_db (db_call (e 0) u w)" by auto
  then show ?case using Db.prems by (simp add: db_call_def)
qed simp

lemma exec_Ret [simp]: "exec serve (Ret a) e w = (b, e', w') \<longleftrightarrow> b = a \<and> e' = e \<and> w' = w"
  by auto

lemma exec_pbindE:
  assumes "exec serve (pbind m f) e w = (b, e2, w2)"
  obtains a e1 w1 where "exec serve m e w = (a, e1, w1)" "exec serve (f a) e1 w1 = (b, e2, w2)"
  using assms by (auto simp: exec_pbind split: prod.splits)

lemma exec_then_Ret: "fst (exec serve (pbind m (\<lambda>_. Ret c)) e w) = c"
  by (simp add: exec_pbind split: prod.splits)

lemma exec_NowE:
  assumes "exec serve (Now k) e w = (b, e2, w2)"
  obtains t where "w_now w \<le> t" "exec serve (k t) (\<lambda>n. e (Suc n)) (w\<lparr>w_now := t\<rparr>) = (b, e2, w2)"
  using assms that [of "w_now w + int (ch_delay (e 0))"] by (simp add: clock_call_def)

lemma exec_db_readE:
  assumes "exec serve (db_read failed f) e w = (r, e', w')"
  obtains t where "w_now w \<le> t" "w' = w\<lparr>w_now := t\<rparr>" "r = f (w_db w) \<or> r = Inl failed"
proof
  show "w_now w \<le> w_now w + int (ch_delay (e 0))" by simp
  show "w' = w\<lparr>w_now := w_now w + int (ch_delay (e 0))\<rparr>" using assms by (auto simp: db_read_def db_call_def)
  show "r = f (w_db w) \<or> r = Inl failed" using assms by (auto simp: db_read_def)
qed

lemma resend_GET [simp]: "resend redis_command (GET x) ds t k = (t + int (sum_list ds), k)"
  by (induction ds arbitrary: t) (auto simp: add.assoc split: option.splits prod.splits rvalue.splits)

text \<open>A read changes nothing, and what it says was so when it was answered.\<close>

lemma exec_redis_Get:
  assumes "exec redis_command (redis_Get ns key) e w = (r, e', w')"
  shows "w' = w\<lparr>w_now := w_now w'\<rparr>" "w_now w \<le> w_now w'"
    "r = Inr v \<Longrightarrow> \<exists>d. held (w_now w') (w_redis w) (Key ns key) = Some (Text v, d)"
    "r = Inl ErrKeyNotExists \<Longrightarrow> held (w_now w') (w_redis w) (Key ns key) = None"
  using assms exec_time [OF assms]
  by (auto simp: redis_Get_def redis_call_def split: if_splits option.splits prod.splits rvalue.splits)

lemma step_issues: "issues P p \<Longrightarrow> prog_step serve ch p w = (p', w') \<Longrightarrow> issues P p'"
  by (cases p) (auto split: prod.splits)

lemma pool_issues:
  "\<forall>p\<in>set ps. issues P p \<Longrightarrow> run_pool serve sched (ps, w) = (ps', w') \<Longrightarrow> \<forall>p\<in>set ps'. issues P p"
proof (induction sched arbitrary: ps w)
  case (Cons m sched)
  obtain ps1 w1 where s: "pool_step serve m (ps, w) = (ps1, w1)" by fastforce
  have "\<forall>p\<in>set ps1. issues P p"
  proof (cases "fst m < length ps")
    case True
    obtain p w2 where st: "prog_step serve (snd m) (ps ! fst m) w = (p, w2)" by fastforce
    have "issues P p" using step_issues [OF _ st] True Cons.prems(1) by simp
    moreover have "ps1 = ps[fst m := p]" using s True st by (auto simp: pool_step_def)
    ultimately show ?thesis using Cons.prems(1) set_update_subset_insert [of ps "fst m" p] by blast
  next
    case False
    then show ?thesis using s Cons.prems by (auto simp: pool_step_def)
  qed
  then show ?case using Cons.IH [of ps1 w1] Cons.prems(2) s by (simp add: run_pool_def)
qed (simp add: run_pool_def)

subsection \<open>Keys\<close>

text \<open>A namespace that is not the beginning of one of the framework's own keys leaves them apart.\<close>

definition framework_key :: "string \<Rightarrow> bool" where
  "framework_key x \<longleftrightarrow> prefix ''iam:'' x \<or> prefix ''mfa:'' x"

definition clear_namespace :: "string \<Rightarrow> bool" where
  "clear_namespace ns \<longleftrightarrow> \<not> framework_key (trim_namespace ns @ '':'')"

lemma hasNamespace_iff: "hasNamespace key ns \<longleftrightarrow> prefix (ns @ '':'') key"
proof
  assume "hasNamespace key ns"
  then have "key = take (length ns) key @ key ! length ns # drop (Suc (length ns)) key"
    and "take (length ns) key = ns" "key ! length ns = CHR '':''"
    using id_take_nth_drop [of "length ns" key] by (auto simp: hasNamespace_def)
  then have "key = ns @ '':'' @ drop (Suc (length ns)) key" by simp
  then show "prefix (ns @ '':'') key" by (metis append.assoc prefixI)
qed (auto simp: hasNamespace_def prefix_def)

lemma framework_key_clear:
  assumes "framework_key x" "clear_namespace ns" "trim_namespace ns \<noteq> []"
  shows "\<not> hasNamespace x (trim_namespace ns)"
proof
  let ?n = "trim_namespace ns"
  assume "hasNamespace x ?n"
  then have p: "prefix (?n @ '':'') x" by (simp add: hasNamespace_iff)
  obtain q where q: "q \<in> {''iam:'', ''mfa:''}" "prefix q x" using assms(1) by (auto simp: framework_key_def)
  have "\<not> prefix q (?n @ '':'')" using assms(2) q(1) by (auto simp: clear_namespace_def framework_key_def)
  then have s: "strict_prefix (?n @ '':'') q" using p q(2) prefix_same_cases by (metis prefix_order.dual_order.not_eq_order_implies_strict)
  then have l: "length ?n < 3" using q(1) by (auto dest: prefix_length_less)
  have "q ! length ?n = CHR '':''" using s by (auto simp: strict_prefix_def prefix_def)
  moreover have "length ?n = 0 \<or> length ?n = 1 \<or> length ?n = 2" using l by linarith
  ultimately show False using q(1) by auto
qed

lemma Key_inj:
  assumes "clear_namespace ns" "framework_key x" "framework_key y"
  shows "Key ns x = Key ns y \<longleftrightarrow> x = y"
  using assms framework_key_clear [OF assms(2,1)] framework_key_clear [OF assms(3,1)] by (auto simp: Key_def Let_def)

subsection \<open>Programs and a documented server\<close>

context redis_server
begin

lemma command_view: "serve c t k = (r, k') \<Longrightarrow> view k' = view k \<or> view k' = snd (redis_command c t (view k))"
  using documented [of c t k r k'] by (metis snd_conv)

lemma serve_absent:
  assumes "held t (view k) x = None" "\<not> creates x c"
  shows "held t (view (snd (serve c t k))) x = None"
proof -
  obtain r k' where s: "serve c t k = (r, k')" by fastforce
  have "held t (snd (redis_command c t (view k))) x = None"
    using command_absent [OF _ assms] by (metis prod.collapse)
  then show ?thesis using command_view [OF s] s assms(1) by (auto simp only: snd_conv)
qed

lemma resend_absent:
  assumes "resend serve c ds t k = (t', k')" "held t (view k) x = None" "\<not> creates x c"
  shows "held t' (view k') x = None"
  using assms
proof (induction ds arbitrary: t k)
  case (Cons d ds)
  have "held t (view (snd (serve c t k))) x = None" using serve_absent Cons.prems by blast
  then have "held (t + int d) (view (snd (serve c t k))) x = None" using held_None_later by (metis le_add_same_cancel1 of_nat_0_le_iff)
  then show ?case using Cons.IH Cons.prems by simp
qed simp

lemma call_absent:
  assumes "redis_call serve ch c w = (r, w')" "held (w_now w) (view (w_redis w)) x = None" "\<not> creates x c"
  shows "held (w_now w') (view (w_redis w')) x = None"
proof -
  obtain t k where s: "resend serve c (ch_lost ch) (w_now w + int (ch_delay ch)) (w_redis w) = (t, k)" by fastforce
  have "held (w_now w + int (ch_delay ch)) (view (w_redis w)) x = None"
    using held_None_later [OF assms(2)] by simp
  then have "held t (view k) x = None" using resend_absent [OF s] assms(3) by blast
  then show ?thesis
    using assms(1) s serve_absent [of t k x c] assms(3) by (auto simp: redis_call_def split: if_splits prod.splits)
qed

lemma step_absent:
  assumes "prog_step serve ch p w = (p', w')" "issues (\<lambda>c. \<not> creates x c) p" "held (w_now w) (view (w_redis w)) x = None"
  shows "held (w_now w') (view (w_redis w')) x = None \<and> issues (\<lambda>c. \<not> creates x c) p'"
  using assms held_None_later [OF assms(3)]
  by (cases p) (auto simp: clock_call_def db_call_def split: prod.splits dest: call_absent)

text \<open>What none of the programs creates stays absent, however they are interleaved.\<close>

lemma pool_absent:
  assumes "held (w_now w) (view (w_redis w)) x = None" "\<forall>p\<in>set ps. issues (\<lambda>c. \<not> creates x c) p"
    "run_pool serve sched (ps, w) = (ps', w')"
  shows "held (w_now w') (view (w_redis w')) x = None"
  using assms
proof (induction sched arbitrary: ps w)
  case (Cons m sched)
  obtain ps1 w1 where s: "pool_step serve m (ps, w) = (ps1, w1)" by fastforce
  have "held (w_now w1) (view (w_redis w1)) x = None \<and> (\<forall>p\<in>set ps1. issues (\<lambda>c. \<not> creates x c) p)"
  proof (cases "fst m < length ps")
    case True
    obtain p w2 where st: "prog_step serve (snd m) (ps ! fst m) w = (p, w2)" by fastforce
    have "issues (\<lambda>c. \<not> creates x c) (ps ! fst m)" using True Cons.prems(2) by simp
    then have "held (w_now w2) (view (w_redis w2)) x = None \<and> issues (\<lambda>c. \<not> creates x c) p"
      using step_absent [OF st] Cons.prems(1) by blast
    moreover have "ps1 = ps[fst m := p]" "w1 = w2" using s True st by (auto simp: pool_step_def)
    ultimately show ?thesis using Cons.prems(2) set_update_subset_insert [of ps "fst m" p] by blast
  next
    case False
    then show ?thesis using s Cons.prems by (auto simp: pool_step_def)
  qed
  then show ?case using Cons.IH [of w1 ps1] Cons.prems(3) s by (simp add: run_pool_def)
qed (simp add: run_pool_def)

text \<open>
  Whatever a documented server does, the keyspace of \<open>redis_command\<close> does under other choices: a refusal
  is a command that did not arrive. What holds of every run on the keyspace holds of every run on the
  server.
\<close>

definition seen :: "('k, 'd) world \<Rightarrow> (keyspace, 'd) world" where
  "seen w = \<lparr>w_now = w_now w, w_redis = view (w_redis w), w_db = w_db w\<rparr>"

lemma seen_simps [simp]: "w_now (seen w) = w_now w" "w_redis (seen w) = view (w_redis w)" "w_db (seen w) = w_db w"
  by (simp_all add: seen_def)

lemma resend_keyspace:
  assumes "resend serve c ds t k = (t', k')"
  shows "\<exists>d ds'. resend redis_command c ds' (t + int d) (view k) = (t', view k')"
  using assms
proof (induction ds arbitrary: t k)
  case Nil
  then show ?case by (intro exI [of _ 0] exI [of _ "[]"]) simp
next
  case (Cons d ds)
  obtain r1 k1 where s: "serve c t k = (r1, k1)" by fastforce
  then obtain d0 ds' where ih: "resend redis_command c ds' (t + int d + int d0) (view k1) = (t', view k')"
    using Cons by fastforce
  show ?case
  proof (cases "view k1 = view k")
    case True
    then have "resend redis_command c ds' (t + int (d + d0)) (view k) = (t', view k')" using ih by (simp add: add.assoc)
    then show ?thesis by blast
  next
    case False
    then have "view k1 = snd (redis_command c t (view k))" using command_view [OF s] by blast
    then have "resend redis_command c ((d + d0) # ds') (t + int 0) (view k) = (t', view k')" using ih by (simp add: add.assoc)
    then show ?thesis by blast
  qed
qed

lemma call_keyspace:
  assumes "redis_call serve ch c w = (r, w')"
  shows "\<exists>ch'. redis_call redis_command ch' c (seen w) = (r, seen w')"
proof -
  obtain t k where s: "resend serve c (ch_lost ch) (w_now w + int (ch_delay ch)) (w_redis w) = (t, k)" by fastforce
  obtain d ds where k: "resend redis_command c ds (w_now w + int (ch_delay ch) + int d) (view (w_redis w)) = (t, view k)"
    using resend_keyspace [OF s] by blast
  let ?ch = "\<lambda>b. \<lparr>ch_delay = ch_delay ch + d, ch_lost = ds, ch_answered = b\<rparr>"
  have k': "resend redis_command c ds (w_now w + (int (ch_delay ch) + int d)) (view (w_redis w)) = (t, view k)"
    using k by (simp add: add.assoc)
  show ?thesis
  proof (cases "ch_answered ch")
    case False
    then have "redis_call redis_command (?ch False) c (seen w) = (r, seen w')"
      using assms s k' by (auto simp: redis_call_def seen_def)
    then show ?thesis by blast
  next
    case True
    obtain r1 k1 where a: "serve c t k = (r1, k1)" by fastforce
    have w': "r = r1" "w' = w\<lparr>w_now := t, w_redis := k1\<rparr>" using assms s a True by (simp_all add: redis_call_def)
    consider (refused) "r1 = R_failed" "view k1 = view k" | (carried) "(r1, view k1) = redis_command c t (view k)"
      using documented [OF a] by blast
    then show ?thesis
    proof cases
      case refused
      then have "redis_call redis_command (?ch False) c (seen w) = (r, seen w')"
        using w' k' by (simp add: redis_call_def seen_def)
      then show ?thesis by blast
    next
      case carried
      then have "redis_call redis_command (?ch True) c (seen w) = (r, seen w')"
        using w' k' carried [symmetric] by (simp add: redis_call_def seen_def)
      then show ?thesis by blast
    qed
  qed
qed

lemma step_keyspace:
  assumes "prog_step serve ch p w = (p', w')"
  shows "\<exists>ch'. prog_step redis_command ch' p (seen w) = (p', seen w')"
proof (cases p)
  case (Redis c k)
  obtain r w1 where c: "redis_call serve ch c w = (r, w1)" by fastforce
  obtain ch' where "redis_call redis_command ch' c (seen w) = (r, seen w1)" using call_keyspace [OF c] by blast
  then have "prog_step redis_command ch' p (seen w) = (p', seen w')" using assms c Redis by simp
  then show ?thesis by blast
qed (use assms in \<open>auto simp: clock_call_def db_call_def seen_def intro!: exI [of _ ch]\<close>)

lemma exec_keyspace:
  assumes "exec serve p e w = (a, e1, w')"
  shows "\<exists>e' e2. exec redis_command p e' (seen w) = (a, e2, seen w')"
  using assms
proof (induction p arbitrary: e w rule: prog_induct)
  case (Redis c k)
  obtain r w1 where c: "redis_call serve (e 0) c w = (r, w1)" by fastforce
  obtain ch' where ch': "redis_call redis_command ch' c (seen w) = (r, seen w1)" using call_keyspace [OF c] by blast
  obtain e' e2 where e': "exec redis_command (k r) e' (seen w1) = (a, e2, seen w')"
    using Redis.IH [of r "\<lambda>n. e (Suc n)" w1] Redis.prems c by auto
  have "exec redis_command (Redis c k) (case_nat ch' e') (seen w) = (a, e2, seen w')" using ch' e' by simp
  then show ?case by blast
next
  case (Now k)
  obtain t w1 where c: "clock_call (e 0) w = (t, w1)" by fastforce
  then have c': "clock_call (e 0) (seen w) = (t, seen w1)" by (auto simp: clock_call_def seen_def)
  obtain e' e2 where e': "exec redis_command (k t) e' (seen w1) = (a, e2, seen w')"
    using Now.IH [of t "\<lambda>n. e (Suc n)" w1] Now.prems c by auto
  have "exec redis_command (Now k) (case_nat (e 0) e') (seen w) = (a, e2, seen w')" using c' e' by simp
  then show ?case by blast
next
  case (Db u k)
  obtain e' e2 where e': "exec redis_command (k (ch_answered (e 0)) (w_db w)) e' (seen (db_call (e 0) u w)) = (a, e2, seen w')"
    using Db.IH [of "ch_answered (e 0)" "w_db w" "\<lambda>n. e (Suc n)" "db_call (e 0) u w"] Db.prems by auto
  have "seen (db_call (e 0) u w) = db_call (e 0) u (seen w)" by (simp add: db_call_def seen_def)
  then have "exec redis_command (Db u k) (case_nat (e 0) e') (seen w) = (a, e2, seen w')" using e' by simp
  then show ?case by blast
qed simp

lemma pool_keyspace:
  assumes "run_pool serve sched (ps, w) = (ps', w')"
  shows "\<exists>sched'. run_pool redis_command sched' (ps, seen w) = (ps', seen w')"
  using assms
proof (induction sched arbitrary: ps w)
  case Nil
  then show ?case by (intro exI [of _ "[]"]) (simp add: run_pool_def)
next
  case (Cons m sched)
  obtain ps1 w1 where s: "pool_step serve m (ps, w) = (ps1, w1)" by fastforce
  obtain p w2 where st: "prog_step serve (snd m) (ps ! fst m) w = (p, w2)" by fastforce
  obtain ch' where ch': "prog_step redis_command ch' (ps ! fst m) (seen w) = (p, seen w2)" using step_keyspace [OF st] by blast
  have s': "pool_step redis_command (fst m, ch') (ps, seen w) = (ps1, seen w1)"
    using s st ch' by (auto simp: pool_step_def split: if_splits)
  obtain sched' where "run_pool redis_command sched' (ps1, seen w1) = (ps', seen w')"
    using Cons.IH [of ps1 w1] Cons.prems s by (auto simp: run_pool_def)
  then have "run_pool redis_command ((fst m, ch') # sched') (ps, seen w) = (ps', seen w')" using s' by (simp add: run_pool_def)
  then show ?case by blast
qed

end

context healthy_redis
begin

text \<open>A server in working order makes the very run the keyspace makes.\<close>

lemma healthy_resend: "resend serve c ds t k = (t', k') \<Longrightarrow> resend redis_command c ds t (view k) = (t', view k')"
proof (induction ds arbitrary: t k)
  case (Cons d ds)
  obtain r1 k1 where s: "serve c t k = (r1, k1)" by fastforce
  then show ?case using Cons.IH [of "t + int d" k1] Cons.prems healthy [OF s] by (metis resend.simps(2) snd_conv)
qed simp

lemma healthy_call:
  assumes "redis_call serve ch c w = (r, w')"
  shows "redis_call redis_command ch c (seen w) = (r, seen w')"
proof -
  obtain t k where s: "resend serve c (ch_lost ch) (w_now w + int (ch_delay ch)) (w_redis w) = (t, k)" by fastforce
  note s' = healthy_resend [OF s]
  obtain r1 k1 where a: "serve c t k = (r1, k1)" by fastforce
  show ?thesis using assms s s' a healthy [OF a, symmetric] by (auto simp: redis_call_def seen_def split: if_splits)
qed

lemma exec_healthy: "exec serve p e w = (a, e', w') \<Longrightarrow> exec redis_command p e (seen w) = (a, e', seen w')"
proof (induction p arbitrary: e w rule: prog_induct)
  case (Redis c k)
  obtain r w1 where c: "redis_call serve (e 0) c w = (r, w1)" by fastforce
  then show ?case using Redis healthy_call [OF c] by simp
next
  case (Now k)
  obtain t w1 where c: "clock_call (e 0) w = (t, w1)" by fastforce
  then have "clock_call (e 0) (seen w) = (t, seen w1)" by (auto simp: clock_call_def seen_def)
  then show ?case using Now c by simp
next
  case (Db u k)
  have "seen (db_call (e 0) u w) = db_call (e 0) u (seen w)" by (simp add: db_call_def seen_def)
  then show ?case using Db.IH [of "ch_answered (e 0)" "w_db w" "\<lambda>n. e (Suc n)" "db_call (e 0) u w"] Db.prems by simp
qed simp

end

end
