(* ===== verification/Iam_Session.thy ===== *)
theory Iam_Session
  imports Redis_Program
begin

text \<open>
  Login sessions, \<^verbatim>\<open>src/internal/service/iam/session\<close>: the store every session goes through
  (\<^verbatim>\<open>store.go\<close>), the state of a session's user (\<^verbatim>\<open>helper_userstate.go\<close>) and the authentication of a
  request (\<^verbatim>\<open>authenticate.go\<close>, \<^verbatim>\<open>current.go\<close>).

  A session is a snapshot under its own key and a member of three sorted sets: the sessions of its user,
  all sessions, and the sessions by last activity. Every operation is a program of Redis commands and
  database statements, so it can be cut short, delayed or interleaved with others between any two of
  them. The JSON codec, the user-agent parser and the clock are arguments.
\<close>

section \<open>Data\<close>

record session =
  s_ID :: string
  s_UserID :: string
  s_Username :: string
  s_TenantID :: string
  s_MustChangePassword :: bool
  s_ClientIP :: string
  s_UserAgent :: string
  s_Platform :: string
  s_OS :: string
  s_EngineName :: string
  s_BrowserName :: string
  s_IssuedAt :: int
  s_LastSeenAt :: int
  s_ExpiresAt :: int

definition no_session :: session where
  "no_session = \<lparr>s_ID = [], s_UserID = [], s_Username = [], s_TenantID = [], s_MustChangePassword = False,
     s_ClientIP = [], s_UserAgent = [], s_Platform = [], s_OS = [], s_EngineName = [], s_BrowserName = [],
     s_IssuedAt = zero_time, s_LastSeenAt = zero_time, s_ExpiresAt = zero_time\<rparr>"

record UserState =
  us_Status :: string
  us_MustChangePassword :: bool

record iam_user =
  u_ID :: string
  u_Username :: string
  u_Status :: string

record password_credential =
  pc_ID :: string
  pc_UserID :: string
  pc_PasswordHash :: string
  pc_MustChangePassword :: bool
  pc_PasswordChangedAt :: "int option"

record email_identity =
  ei_UserID :: string
  ei_Email :: string

record totp_device =
  td_ID :: string
  td_UserID :: string
  td_DeviceName :: string
  td_Secret :: string
  td_BackupCodeHashes :: "string list"
  td_IsActive :: bool
  td_LastUsedAt :: "int option"

text \<open>The rows of the database the handlers read and write.\<close>

record accounts =
  db_users :: "iam_user list"
  db_credentials :: "password_credential list"
  db_emails :: "email_identity list"
  db_devices :: "totp_device list"

record device =
  dv_OS :: string
  dv_Platform :: string
  dv_EngineName :: string
  dv_BrowserName :: string

text \<open>What the package is given: the namespace, the codecs, the lifetimes and the user-agent parser.\<close>

record iam =
  im_ns :: string
  im_enc :: "session \<Rightarrow> string"
  im_dec :: "string \<Rightarrow> session option"
  im_enc_state :: "UserState \<Rightarrow> string"
  im_dec_state :: "string \<Rightarrow> UserState option"
  im_expiration :: int
  im_state_ttl :: int
  im_agent :: "string \<Rightarrow> device"

datatype iam_error = Svc nat string | ErrEntryNotFound | ErrSnapshotUnreadable | ErrStore

type_synonym 'a iam_prog = "(accounts, 'a) prog"

section \<open>Keys\<close>

definition sessionTouchInterval :: int where "sessionTouchInterval = 30 * nsPerSecond"

definition namespacedKey :: "string \<Rightarrow> string \<Rightarrow> string" where
  "namespacedKey namespace ident = namespace @ '':'' @ ident"

definition sessionDataKey :: "string \<Rightarrow> string" where
  "sessionDataKey sessionID = namespacedKey ''iam:session:data'' sessionID"

definition sessionIndexUserKey :: "string \<Rightarrow> string" where
  "sessionIndexUserKey userID = namespacedKey ''iam:session:index:user'' userID"

definition sessionIndexAllKey :: string where
  "sessionIndexAllKey = ''iam:session:index:all''"

definition sessionIndexSeenKey :: string where
  "sessionIndexSeenKey = ''iam:session:index:seen''"

definition userStateKey :: "string \<Rightarrow> string" where
  "userStateKey userID = namespacedKey ''iam:user:state'' userID"

definition loginFailureKey :: "string \<Rightarrow> string" where
  "loginFailureKey username = namespacedKey ''iam:login:failure'' username"

section \<open>Snapshots\<close>

fun load_error :: "redis_error \<Rightarrow> iam_error" where
  "load_error ErrKeyNotExists = ErrEntryNotFound"
| "load_error ErrRedis = ErrStore"

definition LoadSession :: "iam \<Rightarrow> string \<Rightarrow> (iam_error + session) iam_prog" where
  "LoadSession im sessionID0 =
     (let sessionID = TrimSpace sessionID0
      in if sessionID = [] then Ret (Inl ErrEntryNotFound)
         else
           pbind (redis_Get (im_ns im) (sessionDataKey sessionID)) (\<lambda>r. Ret
             (case r of
                Inl err \<Rightarrow> Inl (load_error err)
              | Inr data \<Rightarrow>
                  (case im_dec im data of
                     None \<Rightarrow> Inl ErrSnapshotUnreadable
                   | Some current \<Rightarrow> Inr current))))"

definition SaveSession :: "iam \<Rightarrow> session \<Rightarrow> int \<Rightarrow> (iam_error option) iam_prog" where
  "SaveSession im s ttl =
     (if s_ID s = [] then Ret (Some (Svc 500 ''session id is required''))
      else if ttl < 0 then Ret (Some (Svc 500 ''session ttl is negative''))
      else
        pbind (redis_Set (im_ns im) (sessionDataKey (s_ID s)) (im_enc im s) ttl) (\<lambda>r. Ret
          (case r of None \<Rightarrow> None | Some err \<Rightarrow> Some (Svc 500 ''failed to store session''))))"

section \<open>Indexes\<close>

definition dropIndexError :: iam_error where
  "dropIndexError = Svc 500 ''failed to remove session index''"

definition indexSessionError :: iam_error where
  "indexSessionError = Svc 500 ''failed to index session''"

definition DropSessionIndexes :: "iam \<Rightarrow> string \<Rightarrow> string \<Rightarrow> (iam_error option) iam_prog" where
  "DropSessionIndexes im userID sessionID =
     (if sessionID = [] then Ret None
      else
        pbind (if userID \<noteq> [] then redis_ZRem (im_ns im) (sessionIndexUserKey userID) [sessionID] else Ret None) (\<lambda>r1.
        if r1 \<noteq> None then Ret (Some dropIndexError)
        else
          pbind (redis_ZRem (im_ns im) sessionIndexAllKey [sessionID]) (\<lambda>r2.
          if r2 \<noteq> None then Ret (Some dropIndexError)
          else
            pbind (redis_ZRem (im_ns im) sessionIndexSeenKey [sessionID]) (\<lambda>r3.
            if r3 \<noteq> None then Ret (Some dropIndexError) else Ret None))))"

definition DropUserSessionIndexMember :: "iam \<Rightarrow> string \<Rightarrow> string \<Rightarrow> (iam_error option) iam_prog" where
  "DropUserSessionIndexMember im userID sessionID =
     (if userID = [] \<or> sessionID = [] then Ret None
      else
        pbind (redis_ZRem (im_ns im) (sessionIndexUserKey userID) [sessionID]) (\<lambda>r.
        Ret (if r \<noteq> None then Some dropIndexError else None)))"

definition deleteUnreadableSnapshot :: "iam \<Rightarrow> string \<Rightarrow> (iam_error option) iam_prog" where
  "deleteUnreadableSnapshot im sessionID =
     pbind (redis_Del (im_ns im) [sessionDataKey sessionID]) (\<lambda>r.
       case r of
         Some err \<Rightarrow> Ret (Some (load_error err))
       | None \<Rightarrow> DropSessionIndexes im [] sessionID)"

definition DeleteSession :: "iam \<Rightarrow> string \<Rightarrow> (session \<times> iam_error option) iam_prog" where
  "DeleteSession im sessionID =
     (if sessionID = [] then Ret (no_session, None)
      else
        pbind (LoadSession im sessionID) (\<lambda>l.
          case l of
            Inl err \<Rightarrow> Ret (no_session, Some err)
          | Inr s \<Rightarrow>
              pbind (redis_Del (im_ns im) [sessionDataKey sessionID]) (\<lambda>r.
                case r of
                  Some err \<Rightarrow> Ret (s, Some (load_error err))
                | None \<Rightarrow> pbind (DropSessionIndexes im (s_UserID s) sessionID) (\<lambda>d. Ret (s, d)))))"

definition pruneIndex :: "iam \<Rightarrow> string \<Rightarrow> int \<Rightarrow> (iam_error option) iam_prog" where
  "pruneIndex im key cutoff =
     pbind (redis_ZRemRangeByScore (im_ns im) key (UnixMilli cutoff)) (\<lambda>r.
       Ret (case r of None \<Rightarrow> None | Some err \<Rightarrow> Some (Svc 500 ''failed to prune expired sessions'')))"

definition indexRetention :: "iam \<Rightarrow> int" where
  "indexRetention im = im_expiration im"

definition seenIndexRetention :: "iam \<Rightarrow> int" where
  "seenIndexRetention im = im_expiration im + sessionTouchInterval"

definition seenIndexCutoff :: "iam \<Rightarrow> int \<Rightarrow> int" where
  "seenIndexCutoff im now = now - seenIndexRetention im"

text \<open>One write of \<open>IndexSession\<close>: a failure undoes the ones before it and ends the indexing.\<close>

definition or_undo :: "iam \<Rightarrow> session \<Rightarrow> (redis_error option) iam_prog \<Rightarrow> (iam_error option) iam_prog \<Rightarrow> (iam_error option) iam_prog" where
  "or_undo im s step rest =
     pbind step (\<lambda>r.
       if r \<noteq> None then pbind (DropSessionIndexes im (s_UserID s) (s_ID s)) (\<lambda>_. Ret (Some indexSessionError)) else rest)"

definition index_writes :: "iam \<Rightarrow> session \<Rightarrow> (iam_error option) iam_prog" where
  "index_writes im s =
     (let score = UnixMilli (s_ExpiresAt s); userKey = sessionIndexUserKey (s_UserID s); ns = im_ns im
      in pbind (redis_ZAdd ns userKey score [s_ID s]) (\<lambda>r1.
         if r1 \<noteq> None then Ret (Some indexSessionError)
         else
           or_undo im s (redis_ZAdd ns sessionIndexAllKey score [s_ID s])
           (or_undo im s (redis_ZAdd ns sessionIndexSeenKey (UnixMilli (s_LastSeenAt s)) [s_ID s])
           (or_undo im s (redis_Expire ns userKey (indexRetention im))
           (or_undo im s (redis_Expire ns sessionIndexAllKey (indexRetention im))
           (or_undo im s (redis_Expire ns sessionIndexSeenKey (seenIndexRetention im))
           (Ret None)))))))"

definition IndexSession :: "iam \<Rightarrow> session \<Rightarrow> (iam_error option) iam_prog" where
  "IndexSession im s =
     (if s_UserID s = [] \<or> s_ID s = [] then Ret None
      else
        Now (\<lambda>now1.
        pbind (pruneIndex im sessionIndexSeenKey (seenIndexCutoff im now1)) (\<lambda>_.
        Now (\<lambda>now2.
        if time_Sub (s_ExpiresAt s) now2 \<le> 0 then Ret (Some (Svc 500 ''session expired'')) else index_writes im s))))"

definition ListUserSessionIDs :: "iam \<Rightarrow> string \<Rightarrow> (iam_error + string list) iam_prog" where
  "ListUserSessionIDs im userID =
     (if userID = [] then Ret (Inr [])
      else
        Now (\<lambda>now.
        pbind (pruneIndex im (sessionIndexUserKey userID) now) (\<lambda>p.
        case p of
          Some err \<Rightarrow> Ret (Inl err)
        | None \<Rightarrow>
            pbind (redis_ZRange (im_ns im) (sessionIndexUserKey userID)) (\<lambda>r. Ret
              (case r of Inl err \<Rightarrow> Inl (Svc 500 ''failed to list user sessions'') | Inr ids \<Rightarrow> Inr ids)))))"

definition ListAllSessionIDs :: "iam \<Rightarrow> (iam_error + string list) iam_prog" where
  "ListAllSessionIDs im =
     Now (\<lambda>now.
     pbind (pruneIndex im sessionIndexAllKey now) (\<lambda>p.
     case p of
       Some err \<Rightarrow> Ret (Inl err)
     | None \<Rightarrow>
         pbind (redis_ZRange (im_ns im) sessionIndexAllKey) (\<lambda>r. Ret
           (case r of Inl err \<Rightarrow> Inl (Svc 500 ''failed to list sessions'') | Inr ids \<Rightarrow> Inr ids))))"

definition ListSeenSessionIDs :: "iam \<Rightarrow> int \<Rightarrow> (iam_error + string list) iam_prog" where
  "ListSeenSessionIDs im since =
     (if IsZero since then Ret (Inr [])
      else
        Now (\<lambda>now.
        pbind (pruneIndex im sessionIndexSeenKey (seenIndexCutoff im now)) (\<lambda>_.
        pbind (redis_ZRangeByScore (im_ns im) sessionIndexSeenKey (UnixMilli since)) (\<lambda>r. Ret
          (case r of Inl err \<Rightarrow> Inl (Svc 500 ''failed to list online sessions'') | Inr ids \<Rightarrow> Inr ids)))))"

section \<open>Activity\<close>

definition touchSessionError :: iam_error where
  "touchSessionError = Svc 500 ''failed to touch session''"

definition TouchSession :: "iam \<Rightarrow> string \<Rightarrow> session \<Rightarrow> int \<Rightarrow> (iam_error option) iam_prog" where
  "TouchSession im sessionID0 s now0 =
     (let sessionID = TrimSpace sessionID0
      in if sessionID = [] then Ret None
         else
           pbind (if IsZero now0 then Now Ret else Ret now0) (\<lambda>now.
           if time_Sub now (s_LastSeenAt s) < sessionTouchInterval then Ret None
           else
             Now (\<lambda>t.
             let ttl = time_Sub (s_ExpiresAt s) t
             in if ttl \<le> 0 then pbind (DeleteSession im sessionID) (\<lambda>_. Ret (Some ErrEntryNotFound))
                else
                  pbind (redis_SetXX (im_ns im) (sessionDataKey sessionID) (im_enc im (s\<lparr>s_LastSeenAt := now\<rparr>)) ttl) (\<lambda>r.
                    case r of
                      Inl err \<Rightarrow> Ret (Some touchSessionError)
                    | Inr written \<Rightarrow>
                        (if \<not> written then Ret None
                         else
                           pbind (redis_ZAdd (im_ns im) sessionIndexSeenKey (UnixMilli now) [sessionID]) (\<lambda>z.
                           if z \<noteq> None then Ret (Some touchSessionError)
                           else pbind (pruneIndex im sessionIndexSeenKey (seenIndexCutoff im now)) (\<lambda>_. Ret None)))))))"

section \<open>Bulk revocation\<close>

definition DropUserState :: "iam \<Rightarrow> string \<Rightarrow> unit iam_prog" where
  "DropUserState im userID =
     (if userID = [] then Ret () else pbind (redis_Del (im_ns im) [userStateKey userID]) (\<lambda>_. Ret ()))"

fun deleteUserSessions_loop :: "iam \<Rightarrow> string \<Rightarrow> string \<Rightarrow> string list \<Rightarrow> (iam_error option) iam_prog" where
  "deleteUserSessions_loop im userID keep [] = Ret None"
| "deleteUserSessions_loop im userID keep (sessionID # ids) =
     (if sessionID = [] \<or> sessionID = keep then deleteUserSessions_loop im userID keep ids
      else
        pbind (DeleteSession im sessionID) (\<lambda>(_, r).
          case r of
            None \<Rightarrow> deleteUserSessions_loop im userID keep ids
          | Some err \<Rightarrow>
              (if err = ErrEntryNotFound
               then pbind (DropSessionIndexes im userID sessionID) (\<lambda>_. deleteUserSessions_loop im userID keep ids)
               else Ret (Some (Svc 500 ''failed to delete session'')))))"

definition deleteUserSessions :: "iam \<Rightarrow> string \<Rightarrow> string \<Rightarrow> (iam_error option) iam_prog" where
  "deleteUserSessions im userID keep =
     pbind (ListUserSessionIDs im userID) (\<lambda>l.
       case l of Inl err \<Rightarrow> Ret (Some err) | Inr ids \<Rightarrow> deleteUserSessions_loop im userID keep ids)"

definition DeleteUserSessions :: "iam \<Rightarrow> string \<Rightarrow> (iam_error option) iam_prog" where
  "DeleteUserSessions im userID =
     (if userID = [] then Ret None
      else
        pbind (DropUserState im userID) (\<lambda>_.
        pbind (deleteUserSessions im userID []) (\<lambda>r.
          case r of
            Some err \<Rightarrow> Ret (Some err)
          | None \<Rightarrow>
              pbind (redis_Del (im_ns im) [sessionIndexUserKey userID]) (\<lambda>d. Ret
                (if d \<noteq> None then Some (Svc 500 ''failed to delete user session index'') else None)))))"

definition DeleteUserSessionsExcept :: "iam \<Rightarrow> string \<Rightarrow> string \<Rightarrow> (iam_error option) iam_prog" where
  "DeleteUserSessionsExcept im userID keep = (if userID = [] then Ret None else deleteUserSessions im userID keep)"

section \<open>User state\<close>

definition LoadUserState :: "iam \<Rightarrow> string \<Rightarrow> (UserState option) iam_prog" where
  "LoadUserState im userID =
     pbind (cache_Get (im_ns im) (im_dec_state im) (userStateKey userID)) (\<lambda>r. Ret
       (case r of Inl err \<Rightarrow> None | Inr st \<Rightarrow> Some st))"

definition SaveUserState :: "iam \<Rightarrow> string \<Rightarrow> UserState \<Rightarrow> unit iam_prog" where
  "SaveUserState im userID st =
     pbind (cache_Set (im_ns im) (im_enc_state im) (userStateKey userID) st (im_state_ttl im)) (\<lambda>_. Ret ())"

datatype db_error = ErrRecordNotFound | ErrDatabase

definition find_row :: "('r \<Rightarrow> bool) \<Rightarrow> 'r list \<Rightarrow> db_error + 'r" where
  "find_row P rows = (case find P rows of None \<Rightarrow> Inl ErrRecordNotFound | Some r \<Rightarrow> Inr r)"

definition get_user :: "string \<Rightarrow> (db_error + iam_user) iam_prog" where
  "get_user userID = db_read ErrDatabase (\<lambda>d. find_row (\<lambda>u. u_ID u = userID) (db_users d))"

definition loadSessionPasswordCredential :: "string \<Rightarrow> (db_error + password_credential) iam_prog" where
  "loadSessionPasswordCredential userID = db_read ErrDatabase (\<lambda>d. find_row (\<lambda>c. pc_UserID c = userID) (db_credentials d))"

definition ensureSessionUserActive :: "string \<Rightarrow> iam_error option" where
  "ensureSessionUserActive status =
     (if status = ''inactive'' then Some (Svc 403 ''account disabled'')
      else if status = ''locked'' then Some (Svc 403 ''account locked'')
      else None)"

definition refreshFailed :: "db_error \<Rightarrow> iam_error" where
  "refreshFailed err =
     (if err = ErrRecordNotFound then Svc 401 ''session invalid'' else Svc 500 ''failed to refresh session user state'')"

definition refreshSessionUserState :: "iam \<Rightarrow> string \<Rightarrow> (iam_error + UserState) iam_prog" where
  "refreshSessionUserState im userID =
     pbind (get_user userID) (\<lambda>u.
       case u of
         Inl err \<Rightarrow> Ret (Inl (refreshFailed err))
       | Inr user \<Rightarrow>
           pbind (loadSessionPasswordCredential userID) (\<lambda>c.
             case c of
               Inl err \<Rightarrow> Ret (Inl (refreshFailed err))
             | Inr credential \<Rightarrow>
                 (let st = \<lparr>us_Status = u_Status user, us_MustChangePassword = pc_MustChangePassword credential\<rparr>
                  in pbind (SaveUserState im userID st) (\<lambda>_. Ret (Inr st)))))"

definition ValidateSessionUserState :: "iam \<Rightarrow> session \<Rightarrow> (iam_error + session) iam_prog" where
  "ValidateSessionUserState im s =
     (if s_UserID s = [] then Ret (Inl (Svc 401 ''session invalid''))
      else
        pbind (LoadUserState im (s_UserID s)) (\<lambda>cached.
        pbind (case cached of Some st \<Rightarrow> Ret (Inr st) | None \<Rightarrow> refreshSessionUserState im (s_UserID s)) (\<lambda>r. Ret
          (case r of
             Inl err \<Rightarrow> Inl err
           | Inr st \<Rightarrow>
               (case ensureSessionUserActive (us_Status st) of
                  Some err \<Rightarrow> Inl err
                | None \<Rightarrow> Inr (s\<lparr>s_MustChangePassword := us_MustChangePassword st\<rparr>))))))"

section \<open>Login failures\<close>

definition LoginFailures :: "iam \<Rightarrow> string \<Rightarrow> int iam_prog" where
  "LoginFailures im username =
     pbind (redis_GetInt (im_ns im) (loginFailureKey username)) (\<lambda>r. Ret (case r of Inl err \<Rightarrow> 0 | Inr count \<Rightarrow> count))"

definition RecordLoginFailure :: "iam \<Rightarrow> string \<Rightarrow> int \<Rightarrow> int iam_prog" where
  "RecordLoginFailure im username window =
     pbind (redis_Incr (im_ns im) (loginFailureKey username)) (\<lambda>r.
       case r of
         Inl err \<Rightarrow> Ret 0
       | Inr count \<Rightarrow>
           (if count = 1 then
              pbind (redis_Expire (im_ns im) (loginFailureKey username) window) (\<lambda>x.
                if x \<noteq> None then pbind (redis_Del (im_ns im) [loginFailureKey username]) (\<lambda>_. Ret 0) else Ret count)
            else Ret count))"

definition ClearLoginFailures :: "iam \<Rightarrow> string \<Rightarrow> unit iam_prog" where
  "ClearLoginFailures im username =
     (if username = [] then Ret () else pbind (redis_Del (im_ns im) [loginFailureKey username]) (\<lambda>_. Ret ()))"

section \<open>Authentication\<close>

definition ValidateSession :: "int \<Rightarrow> string \<Rightarrow> session \<Rightarrow> string option" where
  "ValidateSession now sessionID0 s =
     (let sessionID = TrimSpace sessionID0
      in if sessionID = [] then Some ''session id is required''
         else if s_ID s \<noteq> sessionID then Some ''session id mismatch''
         else if s_UserID s = [] then Some ''user not authenticated''
         else if IsZero (s_ExpiresAt s) then Some ''session expiration is required''
         else if \<not> now < s_ExpiresAt s then Some ''session expired''
         else None)"

definition MustChangePasswordExempt :: "string \<Rightarrow> string \<Rightarrow> bool" where
  "MustChangePasswordExempt method path \<longleftrightarrow>
     (method = ''POST'' \<and> path = ''/api/iam/change-password'') \<or>
     (method = ''POST'' \<and> path = ''/api/logout'') \<or>
     (method = ''GET'' \<and> path = ''/api/iam/session/current'') \<or>
     (method = ''DELETE'' \<and> path = ''/api/iam/session/current'')"

definition deviceMismatch :: "iam \<Rightarrow> session \<Rightarrow> string \<Rightarrow> string" where
  "deviceMismatch im s userAgent =
     (let ua = im_agent im userAgent
      in if s_OS s \<noteq> dv_OS ua then ''os mismatch''
         else if s_Platform s \<noteq> dv_Platform ua then ''platform mismatch''
         else if dv_EngineName ua \<noteq> s_EngineName s then ''engine mismatch''
         else if dv_BrowserName ua \<noteq> s_BrowserName s then ''browser mismatch''
         else [])"

text \<open>\<open>rejected\<close> keeps the reason for the log.\<close>

definition rejected :: "string \<Rightarrow> iam_error" where
  "rejected reason = Svc 401 ''session invalid''"

text \<open>\<open>loadSession\<close>: the snapshot, no snapshot, or a store that did not answer.\<close>

definition loadSession :: "iam \<Rightarrow> string \<Rightarrow> (iam_error + session option) iam_prog" where
  "loadSession im sessionID =
     pbind (LoadSession im sessionID) (\<lambda>l.
       case l of
         Inr current \<Rightarrow> Ret (Inr (Some current))
       | Inl ErrEntryNotFound \<Rightarrow> Ret (Inr None)
       | Inl ErrSnapshotUnreadable \<Rightarrow> pbind (deleteUnreadableSnapshot im sessionID) (\<lambda>_. Ret (Inr None))
       | Inl _ \<Rightarrow> Ret (Inl (Svc 500 ''failed to load session'')))"

fun as_service_error :: "iam_error \<Rightarrow> nat \<times> string" where
  "as_service_error (Svc status msg) = (status, msg)"
| "as_service_error _ = (403, ''session invalid'')"

text \<open>\<open>Authenticate\<close> in three parts: once the user's state is known, once a snapshot is found, and as a whole.\<close>

definition authenticate_user ::
  "iam \<Rightarrow> string \<Rightarrow> string \<Rightarrow> string \<Rightarrow> iam_error + session \<Rightarrow> (nat \<times> string + session) iam_prog" where
  "authenticate_user im sessionID method path v =
     (case v of
        Inl err \<Rightarrow>
          (let (status, msg) = as_service_error err
           in if status = 401 \<or> status = 403
              then pbind (DeleteSession im sessionID) (\<lambda>_. Ret (Inl (status, msg)))
              else Ret (Inl (status, msg)))
      | Inr current \<Rightarrow>
          (if s_MustChangePassword current \<and> \<not> MustChangePasswordExempt method path
           then Ret (Inl (403, ''password change required before using this resource''))
           else Now (\<lambda>t. pbind (TouchSession im sessionID current t) (\<lambda>_. Ret (Inr current)))))"

definition authenticate_snapshot ::
  "iam \<Rightarrow> string \<Rightarrow> string \<Rightarrow> string \<Rightarrow> string \<Rightarrow> session \<Rightarrow> (nat \<times> string + session) iam_prog" where
  "authenticate_snapshot im sessionID userAgent method path current =
     Now (\<lambda>t.
     case ValidateSession t sessionID current of
       Some reason \<Rightarrow> pbind (DeleteSession im sessionID) (\<lambda>_. Ret (Inl (as_service_error (rejected reason))))
     | None \<Rightarrow>
         (if deviceMismatch im current userAgent \<noteq> []
          then Ret (Inl (as_service_error (rejected (deviceMismatch im current userAgent))))
          else pbind (ValidateSessionUserState im current) (authenticate_user im sessionID method path)))"

definition Authenticate :: "iam \<Rightarrow> string \<Rightarrow> string \<Rightarrow> string \<Rightarrow> string \<Rightarrow> (nat \<times> string + session) iam_prog" where
  "Authenticate im sessionID0 userAgent method path =
     (let sessionID = TrimSpace sessionID0
      in if sessionID = [] then Ret (Inl (401, ''no session''))
         else
           pbind (loadSession im sessionID) (\<lambda>l.
           case l of
             Inl err \<Rightarrow> Ret (Inl (as_service_error err))
           | Inr None \<Rightarrow> Ret (Inl (as_service_error (rejected ''session not found'')))
           | Inr (Some current) \<Rightarrow> authenticate_snapshot im sessionID userAgent method path current))"

section \<open>Lemmas\<close>

lemmas key_defs = namespacedKey_def sessionDataKey_def sessionIndexUserKey_def sessionIndexAllKey_def sessionIndexSeenKey_def
  userStateKey_def loginFailureKey_def

lemma framework_keys [simp]:
  "framework_key (sessionDataKey x)" "framework_key (sessionIndexUserKey x)" "framework_key sessionIndexAllKey"
  "framework_key sessionIndexSeenKey" "framework_key (userStateKey x)" "framework_key (loginFailureKey x)"
  by (simp_all add: framework_key_def key_defs)

lemma keys_apart [simp]:
  "sessionDataKey x = sessionDataKey y \<longleftrightarrow> x = y"
  "sessionIndexUserKey x = sessionIndexUserKey y \<longleftrightarrow> x = y"
  "sessionDataKey x \<noteq> sessionIndexUserKey y" "sessionDataKey x \<noteq> sessionIndexAllKey" "sessionDataKey x \<noteq> sessionIndexSeenKey"
  "sessionDataKey x \<noteq> userStateKey y" "sessionDataKey x \<noteq> loginFailureKey y"
  "sessionIndexUserKey y \<noteq> sessionDataKey x" "sessionIndexAllKey \<noteq> sessionDataKey x" "sessionIndexSeenKey \<noteq> sessionDataKey x"
  "sessionIndexUserKey x \<noteq> sessionIndexAllKey" "sessionIndexUserKey x \<noteq> sessionIndexSeenKey"
  "sessionIndexAllKey \<noteq> sessionIndexUserKey x" "sessionIndexSeenKey \<noteq> sessionIndexUserKey x"
  "sessionIndexAllKey \<noteq> sessionIndexSeenKey" "sessionIndexSeenKey \<noteq> sessionIndexAllKey"
  "userStateKey y \<noteq> sessionDataKey x" "userStateKey y \<noteq> sessionIndexUserKey x" "loginFailureKey y \<noteq> sessionDataKey x"
  "sessionIndexUserKey x \<noteq> userStateKey y"
  "loginFailureKey x = loginFailureKey y \<longleftrightarrow> x = y"
  by (simp_all add: key_defs)

subsection \<open>Only a login stores a snapshot\<close>

text \<open>A program that never creates the snapshot of one session.\<close>

abbreviation never_stores :: "iam \<Rightarrow> string \<Rightarrow> ('d, 'a) prog \<Rightarrow> bool" where
  "never_stores im x p \<equiv> issues (\<lambda>c. \<not> creates (Key (im_ns im) (sessionDataKey x)) c) p"

lemma never_stores_reads:
  "never_stores im x (LoadSession im i)"
  "never_stores im x (DropSessionIndexes im u i)"
  "never_stores im x (DropUserSessionIndexMember im u i)"
  "never_stores im x (pruneIndex im k t)"
  "never_stores im x (ListUserSessionIDs im u)"
  "never_stores im x (ListAllSessionIDs im)"
  "never_stores im x (ListSeenSessionIDs im t)"
  "never_stores im x (DropUserState im u)"
  "never_stores im x (LoadUserState im u)"
  "never_stores im x (LoginFailures im u)"
  "never_stores im x (ClearLoginFailures im u)"
  by (auto simp: LoadSession_def DropSessionIndexes_def DropUserSessionIndexMember_def pruneIndex_def ListUserSessionIDs_def
      ListAllSessionIDs_def ListSeenSessionIDs_def DropUserState_def LoadUserState_def LoginFailures_def ClearLoginFailures_def
      Let_def issues_simps intro!: issues_pbind split: sum.splits option.splits)

lemma never_stores_deletes:
  "never_stores im x (deleteUnreadableSnapshot im i)"
  "never_stores im x (DeleteSession im i)"
  by (auto simp: deleteUnreadableSnapshot_def DeleteSession_def issues_simps never_stores_reads
      intro!: issues_pbind split: sum.splits option.splits)

lemma never_stores_deleteUserSessions_loop: "never_stores im x (deleteUserSessions_loop im u keep ids)"
  by (induction im u keep ids rule: deleteUserSessions_loop.induct)
     (auto simp: never_stores_reads never_stores_deletes intro!: issues_pbind split: option.splits)

lemma never_stores_bulk:
  "never_stores im x (deleteUserSessions im u keep)"
  "never_stores im x (DeleteUserSessions im u)"
  "never_stores im x (DeleteUserSessionsExcept im u keep)"
  "never_stores im x (loadSession im i)"
  by (auto simp: deleteUserSessions_def DeleteUserSessions_def DeleteUserSessionsExcept_def loadSession_def issues_simps
      never_stores_reads never_stores_deletes never_stores_deleteUserSessions_loop
      intro!: issues_pbind split: sum.splits option.splits iam_error.splits)

lemma never_stores_or_undo:
  "never_stores im x st \<Longrightarrow> never_stores im x rest \<Longrightarrow> never_stores im x (or_undo im s st rest)"
  by (auto simp: or_undo_def never_stores_reads intro!: issues_pbind)

lemma never_stores_writes:
  assumes "clear_namespace (im_ns im)"
  shows "never_stores im x (IndexSession im s)"
    and "never_stores im x (TouchSession im i s now)"
    and "never_stores im x (SaveUserState im u st)"
    and "never_stores im x (RecordLoginFailure im u window)"
  using assms
  by (auto simp: IndexSession_def index_writes_def TouchSession_def SaveUserState_def RecordLoginFailure_def Let_def issues_simps Key_inj
      never_stores_reads never_stores_deletes
      intro!: issues_pbind never_stores_or_undo issues_redis_guarded split: sum.splits option.splits)

lemma never_stores_SaveSession:
  "clear_namespace (im_ns im) \<Longrightarrow> s_ID s \<noteq> x \<Longrightarrow> never_stores im x (SaveSession im s ttl)"
  by (auto simp: SaveSession_def issues_simps Key_inj intro!: issues_pbind)

lemma never_stores_user_state:
  assumes "clear_namespace (im_ns im)"
  shows "never_stores im x (refreshSessionUserState im u)"
    and "never_stores im x (ValidateSessionUserState im s)"
  using never_stores_writes [OF assms]
  by (auto simp: refreshSessionUserState_def ValidateSessionUserState_def get_user_def loadSessionPasswordCredential_def issues_simps
      never_stores_reads Let_def intro!: issues_pbind split: sum.splits option.splits)

lemma never_stores_authenticate_snapshot:
  "clear_namespace (im_ns im) \<Longrightarrow> never_stores im x (authenticate_snapshot im i ua m p s)"
  by (auto simp: authenticate_snapshot_def authenticate_user_def Let_def never_stores_deletes never_stores_user_state never_stores_writes
      intro!: issues_pbind split: sum.splits option.splits prod.splits)

lemma never_stores_Authenticate:
  "clear_namespace (im_ns im) \<Longrightarrow> never_stores im x (Authenticate im i ua m p)"
  by (auto simp: Authenticate_def Let_def never_stores_bulk never_stores_authenticate_snapshot
      intro!: issues_pbind split: sum.splits option.splits)

end
