(* ===== verification/Iam_Service.thy ===== *)
theory Iam_Service
  imports Iam_Session
begin

text \<open>
  The handlers over the session store: the session endpoints of \<^verbatim>\<open>src/internal/service/iam/session\<close>
  (current session, list, get, delete, delete all, the administrator's) and login, logout, lockout,
  password change and reset of \<^verbatim>\<open>src/internal/service/iam/account\<close>. A handler answers with a response or
  an error and says what becomes of the session cookie.

  bcrypt, the random session id, the second-factor verifier the deployment installed and the answers
  of the authorization engine are arguments. Log lines, spans and login observers are left out.
\<close>

section \<open>Requests\<close>

record iam_ctx =
  cx_session :: "(string \<times> session) option"
  cx_cookie :: "string option"
  cx_id :: string
  cx_UserAgent :: string
  cx_ClientIP :: string

datatype cookie_act = KeepCookie | SetCookie string int | ClearCookie

type_synonym 'r answer = "(iam_error + 'r) \<times> cookie_act"

abbreviation refuse :: "iam_error \<Rightarrow> 'r answer iam_prog" where
  "refuse err \<equiv> Ret (Inl err, KeepCookie)"

abbreviation done_with :: "cookie_act \<Rightarrow> unit answer iam_prog" where
  "done_with act \<equiv> Ret (Inr (), act)"

definition CookieSessionID :: "iam_ctx \<Rightarrow> iam_error + string" where
  "CookieSessionID cx =
     (case cx_cookie cx of
        None \<Rightarrow> Inl (Svc 401 ''http: named cookie not present'')
      | Some raw \<Rightarrow>
          (let sessionID = TrimSpace raw
           in if sessionID = [] then Inl (Svc 401 ''session id is required'') else Inr sessionID))"

definition WithCurrentSession :: "iam_ctx \<Rightarrow> string \<Rightarrow> session \<Rightarrow> iam_ctx" where
  "WithCurrentSession cx sessionID0 s =
     (let sessionID = TrimSpace sessionID0 in if sessionID = [] then cx else cx\<lparr>cx_session := Some (sessionID, s)\<rparr>)"

definition currentSessionFromContext :: "iam_ctx \<Rightarrow> (string \<times> session) option" where
  "currentSessionFromContext cx =
     (case cx_session cx of
        None \<Rightarrow> None
      | Some (sessionID, s) \<Rightarrow> if sessionID = [] then None else Some (sessionID, s))"

text \<open>The check both branches of \<open>CurrentSession\<close> end with.\<close>

definition validated :: "iam \<Rightarrow> string \<Rightarrow> session \<Rightarrow> (iam_error + string \<times> session) iam_prog" where
  "validated im sessionID s =
     Now (\<lambda>t.
     case ValidateSession t sessionID s of
       Some reason \<Rightarrow> pbind (DeleteSession im sessionID) (\<lambda>_. Ret (Inl (Svc 401 ''session invalid'')))
     | None \<Rightarrow> Ret (Inr (sessionID, s)))"

definition CurrentSession :: "iam \<Rightarrow> iam_ctx \<Rightarrow> (iam_error + string \<times> session) iam_prog" where
  "CurrentSession im cx =
     (case currentSessionFromContext cx of
        Some (sessionID, s) \<Rightarrow> validated im sessionID s
      | None \<Rightarrow>
          (case CookieSessionID cx of
             Inl err \<Rightarrow> Ret (Inl err)
           | Inr sessionID \<Rightarrow>
               pbind (loadSession im sessionID) (\<lambda>l.
                 case l of
                   Inl err \<Rightarrow> Ret (Inl err)
                 | Inr None \<Rightarrow> Ret (Inl (Svc 401 ''session not exists''))
                 | Inr (Some s) \<Rightarrow> validated im sessionID s)))"

text \<open>What a handler does once the current session is known.\<close>

definition with_current :: "iam \<Rightarrow> iam_ctx \<Rightarrow> (string \<Rightarrow> session \<Rightarrow> 'r answer iam_prog) \<Rightarrow> 'r answer iam_prog" where
  "with_current im cx f =
     pbind (CurrentSession im cx) (\<lambda>c. case c of Inl err \<Rightarrow> refuse err | Inr (sessionID, s) \<Rightarrow> f sessionID s)"

section \<open>Session endpoints\<close>

record session_view =
  sv_ID :: string
  sv_TenantID :: string
  sv_IssuedAt :: int
  sv_LastSeenAt :: int
  sv_ExpiresAt :: int
  sv_ClientIP :: string
  sv_Platform :: string
  sv_OS :: string
  sv_BrowserName :: string
  sv_IsCurrent :: bool

definition buildSessionView :: "session \<Rightarrow> string \<Rightarrow> session_view" where
  "buildSessionView s currentSessionID =
     (let sessionID = (if s_ID s = [] then currentSessionID else s_ID s)
      in \<lparr>sv_ID = sessionID, sv_TenantID = s_TenantID s, sv_IssuedAt = s_IssuedAt s, sv_LastSeenAt = s_LastSeenAt s,
          sv_ExpiresAt = s_ExpiresAt s, sv_ClientIP = s_ClientIP s, sv_Platform = s_Platform s, sv_OS = s_OS s,
          sv_BrowserName = s_BrowserName s, sv_IsCurrent = (sessionID = currentSessionID)\<rparr>)"

definition sessionViewActiveAt :: "session_view \<Rightarrow> int" where
  "sessionViewActiveAt v = (if \<not> IsZero (sv_LastSeenAt v) then sv_LastSeenAt v else sv_IssuedAt v)"

definition view_before :: "session_view \<Rightarrow> session_view \<Rightarrow> bool" where
  "view_before a b \<longleftrightarrow>
     (if sessionViewActiveAt a = sessionViewActiveAt b then bytes_less (sv_ID b) (sv_ID a)
      else sessionViewActiveAt b < sessionViewActiveAt a)"

text \<open>\<open>sort.Slice\<close> by an order in which different items are never equal, which leaves one result.\<close>

fun insert_by :: "('a \<Rightarrow> 'a \<Rightarrow> bool) \<Rightarrow> 'a \<Rightarrow> 'a list \<Rightarrow> 'a list" where
  "insert_by before v [] = [v]"
| "insert_by before v (u # vs) = (if before u v then u # insert_by before v vs else v # u # vs)"

definition sort_by :: "('a \<Rightarrow> 'a \<Rightarrow> bool) \<Rightarrow> 'a list \<Rightarrow> 'a list" where
  "sort_by before vs = foldr (insert_by before) vs []"

definition sort_views :: "session_view list \<Rightarrow> session_view list" where
  "sort_views vs = sort_by view_before vs"

fun SessionList_loop :: "iam \<Rightarrow> string \<Rightarrow> session \<Rightarrow> string list \<Rightarrow> session_view list \<Rightarrow> (iam_error + session_view list) iam_prog" where
  "SessionList_loop im currentID current [] items = Ret (Inr items)"
| "SessionList_loop im currentID current (sessionID # ids) items =
     (if sessionID = currentID then SessionList_loop im currentID current ids (items @ [buildSessionView current currentID])
      else
        pbind (LoadSession im sessionID) (\<lambda>l.
          case l of
            Inl err \<Rightarrow>
              (if err = ErrEntryNotFound
               then pbind (DropSessionIndexes im (s_UserID current) sessionID) (\<lambda>_. SessionList_loop im currentID current ids items)
               else Ret (Inl (Svc 500 ''failed to load session'')))
          | Inr s \<Rightarrow>
              Now (\<lambda>t.
              case ValidateSession t sessionID s of
                Some reason \<Rightarrow> pbind (DeleteSession im sessionID) (\<lambda>_. SessionList_loop im currentID current ids items)
              | None \<Rightarrow> SessionList_loop im currentID current ids (items @ [buildSessionView s currentID]))))"

definition SessionList :: "iam \<Rightarrow> iam_ctx \<Rightarrow> session_view list answer iam_prog" where
  "SessionList im cx =
     with_current im cx (\<lambda>currentID current.
       pbind (ListUserSessionIDs im (s_UserID current)) (\<lambda>l.
         case l of
           Inl err \<Rightarrow> refuse err
         | Inr ids \<Rightarrow>
             pbind (SessionList_loop im currentID current ids []) (\<lambda>r.
               case r of Inl err \<Rightarrow> refuse err | Inr items \<Rightarrow> Ret (Inr (sort_views items), KeepCookie))))"

definition SessionGet :: "iam \<Rightarrow> iam_ctx \<Rightarrow> session_view answer iam_prog" where
  "SessionGet im cx =
     with_current im cx (\<lambda>currentID current.
       if cx_id cx = [] then refuse (Svc 400 ''session id is required'')
       else
         pbind (LoadSession im (cx_id cx)) (\<lambda>l.
           case l of
             Inl err \<Rightarrow>
               (if err = ErrEntryNotFound then refuse (Svc 404 ''session not found'') else refuse (Svc 500 ''failed to load target session''))
           | Inr target \<Rightarrow>
               Now (\<lambda>t.
               if ValidateSession t (cx_id cx) target \<noteq> None
               then pbind (DeleteSession im (cx_id cx)) (\<lambda>_. refuse (Svc 404 ''session not found''))
               else if s_UserID target \<noteq> s_UserID current then refuse (Svc 403 ''forbidden'')
               else Ret (Inr (buildSessionView target currentID), KeepCookie))))"

definition cookie_if :: "bool \<Rightarrow> cookie_act" where
  "cookie_if current = (if current then ClearCookie else KeepCookie)"

definition SessionDelete :: "iam \<Rightarrow> iam_ctx \<Rightarrow> unit answer iam_prog" where
  "SessionDelete im cx =
     with_current im cx (\<lambda>currentID current.
       let target = cx_id cx
       in if target = [] then refuse (Svc 400 ''session id is required'')
          else if target = ''others'' then
            pbind (DeleteUserSessionsExcept im (s_UserID current) currentID) (\<lambda>r.
              case r of Some err \<Rightarrow> refuse err | None \<Rightarrow> done_with KeepCookie)
          else
            pbind (LoadSession im target) (\<lambda>l.
              case l of
                Inl err \<Rightarrow>
                  (if err = ErrEntryNotFound then done_with (cookie_if (target = currentID))
                   else refuse (Svc 500 ''failed to load target session''))
              | Inr targetSession \<Rightarrow>
                  Now (\<lambda>t.
                  if ValidateSession t target targetSession \<noteq> None
                  then pbind (DeleteSession im target) (\<lambda>_. done_with (cookie_if (target = currentID)))
                  else if s_UserID targetSession \<noteq> s_UserID current then refuse (Svc 403 ''forbidden'')
                  else
                    pbind (DeleteSession im target) (\<lambda>(_, d).
                      case d of
                        None \<Rightarrow> done_with (cookie_if (target = currentID))
                      | Some err \<Rightarrow>
                          (if err = ErrEntryNotFound then done_with (cookie_if (target = currentID))
                           else refuse (Svc 500 ''failed to delete session''))))))"

definition SessionDeleteAll :: "iam \<Rightarrow> iam_ctx \<Rightarrow> unit answer iam_prog" where
  "SessionDeleteAll im cx =
     with_current im cx (\<lambda>_ current.
       pbind (DeleteUserSessions im (s_UserID current)) (\<lambda>r.
         case r of Some err \<Rightarrow> refuse err | None \<Rightarrow> done_with ClearCookie))"

definition CurrentDelete :: "iam \<Rightarrow> iam_ctx \<Rightarrow> unit answer iam_prog" where
  "CurrentDelete im cx =
     (case CookieSessionID cx of
        Inl err \<Rightarrow> refuse err
      | Inr sessionID \<Rightarrow>
          pbind (DeleteSession im sessionID) (\<lambda>(_, d).
            if d \<noteq> None then refuse (Svc 401 ''session not exists'') else done_with ClearCookie))"

section \<open>Administrators\<close>

text \<open>
  What authorization answers: whether a user holds the system root role, and whether one user may
  administer another, as \<open>adminauth.EnsureTenantAdmin\<close> decides; \<open>None\<close> when the engine did not answer.
\<close>

record iam_authz =
  az_root :: "string \<Rightarrow> bool option"
  az_roles :: "string \<Rightarrow> string \<Rightarrow> string list option"
  az_tenant_admin :: "iam_user \<Rightarrow> iam_user \<Rightarrow> iam_error option"

definition loadAdminSessionActor :: "iam \<Rightarrow> iam_ctx \<Rightarrow> (iam_error + iam_user) iam_prog" where
  "loadAdminSessionActor im cx =
     pbind (CurrentSession im cx) (\<lambda>c.
       case c of
         Inl err \<Rightarrow> Ret (Inl err)
       | Inr (_, s) \<Rightarrow>
           pbind (get_user (s_UserID s)) (\<lambda>u. Ret
             (case u of
                Inl err \<Rightarrow> Inl (Svc 401 ''session invalid'')
              | Inr actor \<Rightarrow> (case ensureSessionUserActive (u_Status actor) of Some err \<Rightarrow> Inl err | None \<Rightarrow> Inr actor))))"

definition ensureAdminSessionActor :: "iam \<Rightarrow> iam_authz \<Rightarrow> iam_ctx \<Rightarrow> (iam_error option) iam_prog" where
  "ensureAdminSessionActor im az cx =
     pbind (loadAdminSessionActor im cx) (\<lambda>a. Ret
       (case a of
          Inl err \<Rightarrow> Some err
        | Inr actor \<Rightarrow>
            (case az_root az (u_ID actor) of
               None \<Rightarrow> Some (Svc 500 ''authorization unavailable'')
             | Some root \<Rightarrow> if root then None else Some (Svc 403 ''forbidden''))))"

definition ensureAdminSessionTarget :: "iam \<Rightarrow> iam_authz \<Rightarrow> iam_ctx \<Rightarrow> iam_user \<Rightarrow> (iam_error option) iam_prog" where
  "ensureAdminSessionTarget im az cx target =
     pbind (loadAdminSessionActor im cx) (\<lambda>a. Ret
       (case a of Inl err \<Rightarrow> Some err | Inr actor \<Rightarrow> az_tenant_admin az actor target))"

definition AdminSessionDelete :: "iam \<Rightarrow> iam_authz \<Rightarrow> iam_ctx \<Rightarrow> unit answer iam_prog" where
  "AdminSessionDelete im az cx =
     with_current im cx (\<lambda>currentID _.
       pbind (ensureAdminSessionActor im az cx) (\<lambda>a.
         case a of
           Some err \<Rightarrow> refuse err
         | None \<Rightarrow>
             (let target = cx_id cx
              in if target = [] then refuse (Svc 400 ''session id is required'')
                 else
                   pbind (LoadSession im target) (\<lambda>l.
                     case l of
                       Inl err \<Rightarrow>
                         (if err = ErrEntryNotFound then refuse (Svc 404 ''session not found'')
                          else refuse (Svc 500 ''failed to load target session''))
                     | Inr s \<Rightarrow>
                         Now (\<lambda>t.
                         if ValidateSession t target s \<noteq> None
                         then pbind (DeleteSession im target) (\<lambda>_. refuse (Svc 404 ''session not found''))
                         else
                           pbind (DeleteSession im target) (\<lambda>(_, d).
                             case d of
                               None \<Rightarrow> done_with (cookie_if (target = currentID))
                             | Some err \<Rightarrow>
                                 (if err = ErrEntryNotFound then refuse (Svc 404 ''session not found'')
                                  else refuse (Svc 500 ''failed to delete session''))))))))"

definition AdminUserSessionDelete :: "iam \<Rightarrow> iam_authz \<Rightarrow> iam_ctx \<Rightarrow> unit answer iam_prog" where
  "AdminUserSessionDelete im az cx =
     with_current im cx (\<lambda>_ current.
       let targetUserID = cx_id cx
       in if targetUserID = [] then refuse (Svc 400 ''user id is required'')
          else
            pbind (get_user targetUserID) (\<lambda>u.
              case u of
                Inl err \<Rightarrow>
                  (if err = ErrRecordNotFound then refuse (Svc 404 ''user not found'') else refuse (Svc 500 ''failed to load user''))
              | Inr target \<Rightarrow>
                  pbind (ensureAdminSessionTarget im az cx target) (\<lambda>a.
                    case a of
                      Some err \<Rightarrow> refuse err
                    | None \<Rightarrow>
                        pbind (DeleteUserSessions im targetUserID) (\<lambda>r.
                          case r of
                            Some err \<Rightarrow> refuse err
                          | None \<Rightarrow> done_with (cookie_if (s_UserID current = targetUserID))))))"

text \<open>
  The administrator's lists. \<open>online\<close> is the window of \<open>parseAdminSessionOnlineSince\<close>: \<open>None\<close> without one,
  else the instant it opens at.
\<close>

definition AdminSessionGet :: "iam \<Rightarrow> iam_authz \<Rightarrow> iam_ctx \<Rightarrow> session_view answer iam_prog" where
  "AdminSessionGet im az cx =
     with_current im cx (\<lambda>currentID _.
       pbind (ensureAdminSessionActor im az cx) (\<lambda>a.
         case a of
           Some err \<Rightarrow> refuse err
         | None \<Rightarrow>
             (if cx_id cx = [] then refuse (Svc 400 ''session id is required'')
              else
                pbind (LoadSession im (cx_id cx)) (\<lambda>l.
                  case l of
                    Inl err \<Rightarrow>
                      (if err = ErrEntryNotFound then refuse (Svc 404 ''session not found'')
                       else refuse (Svc 500 ''failed to load target session''))
                  | Inr s \<Rightarrow>
                      Now (\<lambda>t.
                      if ValidateSession t (cx_id cx) s \<noteq> None
                      then pbind (DeleteSession im (cx_id cx)) (\<lambda>_. refuse (Svc 404 ''session not found''))
                      else Ret (Inr (buildSessionView s currentID), KeepCookie))))))"

definition loadSessionEmail :: "string \<Rightarrow> (iam_error + string) iam_prog" where
  "loadSessionEmail userID =
     pbind (db_read ErrDatabase (\<lambda>d. find_row (\<lambda>i. ei_UserID i = userID) (db_emails d))) (\<lambda>r. Ret
       (case r of
          Inr identity \<Rightarrow> Inr (ei_Email identity)
        | Inl err \<Rightarrow> if err = ErrRecordNotFound then Inr [] else Inl (Svc 500 ''failed to load email identity'')))"

record owner_view =
  ov_UserID :: string
  ov_Username :: string
  ov_Email :: string
  ov_Status :: string
  ov_MustChangePassword :: bool
  ov_Sessions :: "session_view list"

definition sessionSeenSince :: "session \<Rightarrow> int \<Rightarrow> bool" where
  "sessionSeenSince s since \<longleftrightarrow> \<not> IsZero (s_LastSeenAt s) \<and> \<not> s_LastSeenAt s < since"

definition seen_in :: "int option \<Rightarrow> session \<Rightarrow> bool" where
  "seen_in online s \<longleftrightarrow> (case online of None \<Rightarrow> True | Some since \<Rightarrow> sessionSeenSince s since)"

fun buildView_loop ::
  "iam \<Rightarrow> iam_user \<Rightarrow> string \<Rightarrow> string \<Rightarrow> int option \<Rightarrow> string list \<Rightarrow> session_view list \<Rightarrow> (iam_error + session_view list) iam_prog" where
  "buildView_loop im user indexUserID currentID online [] views = Ret (Inr views)"
| "buildView_loop im user indexUserID currentID online (sessionID # ids) views =
     (if sessionID = [] then buildView_loop im user indexUserID currentID online ids views
      else
        pbind (LoadSession im sessionID) (\<lambda>l.
          case l of
            Inl err \<Rightarrow>
              (if err = ErrEntryNotFound
               then pbind (DropSessionIndexes im indexUserID sessionID) (\<lambda>_. buildView_loop im user indexUserID currentID online ids views)
               else Ret (Inl (Svc 500 ''failed to load session'')))
          | Inr s \<Rightarrow>
              Now (\<lambda>t.
              if ValidateSession t sessionID s \<noteq> None
              then pbind (DeleteSession im sessionID) (\<lambda>_. buildView_loop im user indexUserID currentID online ids views)
              else if s_UserID s \<noteq> u_ID user then
                (if indexUserID \<noteq> []
                 then pbind (DropUserSessionIndexMember im indexUserID sessionID) (\<lambda>_. buildView_loop im user indexUserID currentID online ids views)
                 else buildView_loop im user indexUserID currentID online ids views)
              else if \<not> seen_in online s then buildView_loop im user indexUserID currentID online ids views
              else buildView_loop im user indexUserID currentID online ids (views @ [buildSessionView s currentID]))))"

definition buildView :: "iam \<Rightarrow> iam_user \<Rightarrow> string \<Rightarrow> int option \<Rightarrow> (iam_error + owner_view) iam_prog" where
  "buildView im user currentID online =
     pbind (loadSessionPasswordCredential (u_ID user)) (\<lambda>c.
     case c of
       Inl err \<Rightarrow> Ret (Inl (Svc 500 ''failed to load password credential''))
     | Inr credential \<Rightarrow>
         pbind (loadSessionEmail (u_ID user)) (\<lambda>m.
         case m of
           Inl err \<Rightarrow> Ret (Inl err)
         | Inr email \<Rightarrow>
             (let indexUserID = (if online = None then u_ID user else [])
              in pbind (case online of None \<Rightarrow> ListUserSessionIDs im (u_ID user) | Some since \<Rightarrow> ListSeenSessionIDs im since) (\<lambda>l.
                 case l of
                   Inl err \<Rightarrow> Ret (Inl err)
                 | Inr ids \<Rightarrow>
                     pbind (buildView_loop im user indexUserID currentID online ids []) (\<lambda>r. Ret
                       (case r of
                          Inl err \<Rightarrow> Inl err
                        | Inr views \<Rightarrow>
                            Inr \<lparr>ov_UserID = u_ID user, ov_Username = u_Username user, ov_Email = email, ov_Status = u_Status user,
                                 ov_MustChangePassword = pc_MustChangePassword credential, ov_Sessions = sort_views views\<rparr>))))))"

definition AdminUserSessionList :: "iam \<Rightarrow> iam_authz \<Rightarrow> iam_ctx \<Rightarrow> iam_error + int option \<Rightarrow> owner_view answer iam_prog" where
  "AdminUserSessionList im az cx parsed =
     with_current im cx (\<lambda>currentID _.
       case parsed of
         Inl err \<Rightarrow> refuse err
       | Inr online \<Rightarrow>
           (if cx_id cx = [] then refuse (Svc 400 ''user id is required'')
            else
              pbind (get_user (cx_id cx)) (\<lambda>u.
                case u of
                  Inl err \<Rightarrow>
                    (if err = ErrRecordNotFound then refuse (Svc 404 ''user not found'') else refuse (Svc 500 ''failed to load user''))
                | Inr target \<Rightarrow>
                    pbind (ensureAdminSessionTarget im az cx target) (\<lambda>a.
                      case a of
                        Some err \<Rightarrow> refuse err
                      | None \<Rightarrow>
                          pbind (buildView im target currentID online) (\<lambda>v.
                            case v of Inl err \<Rightarrow> refuse err | Inr view \<Rightarrow> Ret (Inr view, KeepCookie))))))"

text \<open>An owner in the list of all sessions: the view and when any of its sessions was last active.\<close>

definition buildItem :: "iam \<Rightarrow> session \<Rightarrow> (iam_error + owner_view option) iam_prog" where
  "buildItem im s =
     pbind (get_user (s_UserID s)) (\<lambda>u.
     case u of
       Inl err \<Rightarrow>
         (if err = ErrRecordNotFound then pbind (DeleteSession im (s_ID s)) (\<lambda>_. Ret (Inr None))
          else Ret (Inl (Svc 500 ''failed to load session owner'')))
     | Inr user \<Rightarrow>
         pbind (loadSessionPasswordCredential (u_ID user)) (\<lambda>c.
         case c of
           Inl err \<Rightarrow>
             (if err = ErrRecordNotFound then pbind (DeleteSession im (s_ID s)) (\<lambda>_. Ret (Inr None))
              else Ret (Inl (Svc 500 ''failed to load session owner'')))
         | Inr credential \<Rightarrow>
             pbind (loadSessionEmail (u_ID user)) (\<lambda>m. Ret
               (case m of
                  Inl err \<Rightarrow> Inl (Svc 500 ''failed to load session owner'')
                | Inr email \<Rightarrow>
                    Inr (Some \<lparr>ov_UserID = u_ID user, ov_Username = u_Username user, ov_Email = email, ov_Status = u_Status user,
                               ov_MustChangePassword = pc_MustChangePassword credential, ov_Sessions = []\<rparr>)))))"

type_synonym owner_item = "owner_view \<times> int"

definition add_view :: "session_view \<Rightarrow> owner_item \<Rightarrow> owner_item" where
  "add_view v item =
     (let activeAt = sessionViewActiveAt v
      in ((fst item)\<lparr>ov_Sessions := ov_Sessions (fst item) @ [v]\<rparr>,
          if IsZero (snd item) \<or> snd item < activeAt then activeAt else snd item))"

fun AdminSessionList_loop ::
  "iam \<Rightarrow> int option \<Rightarrow> string list \<Rightarrow> (string \<times> owner_item) list \<Rightarrow> nat \<Rightarrow> (iam_error + (string \<times> owner_item) list \<times> nat) iam_prog" where
  "AdminSessionList_loop im online [] owners sessionTotal = Ret (Inr (owners, sessionTotal))"
| "AdminSessionList_loop im online (sessionID # ids) owners sessionTotal =
     (if sessionID = [] then AdminSessionList_loop im online ids owners sessionTotal
      else
        pbind (LoadSession im sessionID) (\<lambda>l.
          case l of
            Inl err \<Rightarrow>
              (if err = ErrEntryNotFound
               then pbind (DropSessionIndexes im [] sessionID) (\<lambda>_. AdminSessionList_loop im online ids owners sessionTotal)
               else Ret (Inl (Svc 500 ''failed to load session'')))
          | Inr s \<Rightarrow>
              Now (\<lambda>t.
              if ValidateSession t sessionID s \<noteq> None
              then pbind (DeleteSession im sessionID) (\<lambda>_. AdminSessionList_loop im online ids owners sessionTotal)
              else if \<not> seen_in online s then AdminSessionList_loop im online ids owners sessionTotal
              else
                (case map_of owners (s_UserID s) of
                   Some item \<Rightarrow>
                     AdminSessionList_loop im online ids
                       (map (\<lambda>(u, i). if u = s_UserID s then (u, add_view (buildSessionView s []) i) else (u, i)) owners) (sessionTotal + 1)
                 | None \<Rightarrow>
                     pbind (buildItem im s) (\<lambda>b.
                       case b of
                         Inl err \<Rightarrow> Ret (Inl err)
                       | Inr None \<Rightarrow> AdminSessionList_loop im online ids owners sessionTotal
                       | Inr (Some v) \<Rightarrow>
                           AdminSessionList_loop im online ids
                             (owners @ [(s_UserID s, add_view (buildSessionView s []) (v, zero_time))]) (sessionTotal + 1))))))"

definition owner_before :: "owner_item \<Rightarrow> owner_item \<Rightarrow> bool" where
  "owner_before a b \<longleftrightarrow>
     (if snd a = snd b then bytes_less (ov_UserID (fst b)) (ov_UserID (fst a)) else snd b < snd a)"

definition AdminSessionList ::
  "iam \<Rightarrow> iam_authz \<Rightarrow> iam_ctx \<Rightarrow> iam_error + int option \<Rightarrow> (owner_view list \<times> nat) answer iam_prog" where
  "AdminSessionList im az cx parsed =
     pbind (ensureAdminSessionActor im az cx) (\<lambda>a.
     case a of
       Some err \<Rightarrow> refuse err
     | None \<Rightarrow>
         (case parsed of
            Inl err \<Rightarrow> refuse err
          | Inr online \<Rightarrow>
              pbind (case online of Some since \<Rightarrow> ListSeenSessionIDs im since | None \<Rightarrow> ListAllSessionIDs im) (\<lambda>l.
                case l of
                  Inl err \<Rightarrow> refuse err
                | Inr ids \<Rightarrow>
                    pbind (AdminSessionList_loop im online ids [] 0) (\<lambda>r.
                      case r of
                        Inl err \<Rightarrow> refuse err
                      | Inr (owners, sessionTotal) \<Rightarrow>
                          (let items = map (\<lambda>(u, v, at). (v\<lparr>ov_Sessions := sort_views (ov_Sessions v)\<rparr>, at)) owners
                           in Ret (Inr (map fst (sort_by owner_before items), sessionTotal), KeepCookie))))))"

section \<open>The current session\<close>

record authenticated_rsp =
  ar_ServerTime :: int
  ar_TenantID :: string
  ar_IssuedAt :: int
  ar_LastSeenAt :: int
  ar_ExpiresAt :: int
  ar_ExpiresInSeconds :: int
  ar_UserID :: string
  ar_Username :: string
  ar_Email :: string
  ar_MustChangePassword :: bool
  ar_IsSystemRoot :: bool

definition expires_in :: "session \<Rightarrow> int \<Rightarrow> int" where
  "expires_in s now =
     (let n = (if IsZero (s_ExpiresAt s) then 0 else time_Sub (s_ExpiresAt s) now div nsPerSecond) in if n < 0 then 0 else n)"

definition BuildAuthenticatedSessionRsp :: "session \<Rightarrow> iam_user \<Rightarrow> string \<Rightarrow> int \<Rightarrow> bool \<Rightarrow> authenticated_rsp" where
  "BuildAuthenticatedSessionRsp s user email now systemRoot =
     \<lparr>ar_ServerTime = now, ar_TenantID = s_TenantID s, ar_IssuedAt = s_IssuedAt s, ar_LastSeenAt = s_LastSeenAt s,
      ar_ExpiresAt = s_ExpiresAt s, ar_ExpiresInSeconds = expires_in s now, ar_UserID = u_ID user, ar_Username = u_Username user,
      ar_Email = email, ar_MustChangePassword = s_MustChangePassword s, ar_IsSystemRoot = systemRoot\<rparr>"

definition CurrentGet :: "iam \<Rightarrow> iam_authz \<Rightarrow> iam_ctx \<Rightarrow> authenticated_rsp answer iam_prog" where
  "CurrentGet im az cx =
     with_current im cx (\<lambda>_ s.
       pbind (get_user (s_UserID s)) (\<lambda>u.
       case u of
         Inl err \<Rightarrow> refuse (Svc 401 ''session invalid'')
       | Inr user \<Rightarrow>
           (case ensureSessionUserActive (u_Status user) of
              Some err \<Rightarrow> refuse err
            | None \<Rightarrow>
                pbind (loadSessionEmail (u_ID user)) (\<lambda>m.
                case m of
                  Inl err \<Rightarrow> refuse (Svc 500 ''failed to load email identity'')
                | Inr email \<Rightarrow>
                    (case az_root az (u_ID user) of
                       None \<Rightarrow> refuse (Svc 500 ''authorization unavailable'')
                     | Some root \<Rightarrow> Now (\<lambda>t. Ret (Inr (BuildAuthenticatedSessionRsp s user email t root), KeepCookie)))))))"

section \<open>Login and lockout\<close>

record login_cfg =
  lc_limit :: int
  lc_window :: int
  lc_verify :: "string \<Rightarrow> string \<Rightarrow> bool"
  lc_hash :: "string \<Rightarrow> string option"

record login_req =
  lq_Username :: string
  lq_Password :: string
  lq_TenantID :: string
  lq_TOTPCode :: string
  lq_BackupCode :: string

definition defaultLoginFailureLimit :: int where "defaultLoginFailureLimit = 5"
definition defaultLoginFailureWindow :: int where "defaultLoginFailureWindow = 15 * 60 * nsPerSecond"

definition badCredentials :: iam_error where
  "badCredentials = Svc 401 ''invalid username or password''"

definition ensureLoginNotLockedOut :: "iam \<Rightarrow> login_cfg \<Rightarrow> string \<Rightarrow> (iam_error option) iam_prog" where
  "ensureLoginNotLockedOut im lc username =
     pbind (LoginFailures im username) (\<lambda>n. Ret (if n < lc_limit lc then None else Some badCredentials))"

definition recordLoginFailure :: "iam \<Rightarrow> login_cfg \<Rightarrow> string \<Rightarrow> unit iam_prog" where
  "recordLoginFailure im lc username = pbind (RecordLoginFailure im username (lc_window lc)) (\<lambda>_. Ret ())"

definition minAccountPasswordLength :: nat where "minAccountPasswordLength = 6"

definition validateNewAccountPassword :: "string \<Rightarrow> iam_error option" where
  "validateNewAccountPassword password =
     (if password = [] then Some (Svc 400 ''new password is required'')
      else if length password < minAccountPasswordLength then Some (Svc 400 ''password must be at least 6 characters long'')
      else None)"

datatype credential_error = CredentialSvc iam_error | CredentialNotFound

definition LoadPasswordCredential :: "string \<Rightarrow> (credential_error + password_credential) iam_prog" where
  "LoadPasswordCredential userID =
     (if userID = [] then Ret (Inl (CredentialSvc (Svc 400 ''user_id is required'')))
      else
        pbind (loadSessionPasswordCredential userID) (\<lambda>c. Ret
          (case c of
             Inr credential \<Rightarrow> Inr credential
           | Inl err \<Rightarrow>
               (if err = ErrRecordNotFound then Inl CredentialNotFound
                else Inl (CredentialSvc (Svc 500 ''failed to load password credential''))))))"

definition hashAccountPassword :: "login_cfg \<Rightarrow> string \<Rightarrow> iam_error + string" where
  "hashAccountPassword lc password =
     (case validateNewAccountPassword password of
        Some err \<Rightarrow> Inl err
      | None \<Rightarrow> (case lc_hash lc password of None \<Rightarrow> Inl (Svc 500 ''failed to hash password'') | Some h \<Rightarrow> Inr h))"

definition ApplyPasswordCredentialUpdate ::
  "login_cfg \<Rightarrow> password_credential \<Rightarrow> string \<Rightarrow> bool \<Rightarrow> (iam_error + password_credential) iam_prog" where
  "ApplyPasswordCredentialUpdate lc credential newPassword mustChange =
     (case hashAccountPassword lc newPassword of
        Inl err \<Rightarrow> Ret (Inl err)
      | Inr h \<Rightarrow>
          Now (\<lambda>now. Ret (Inr (credential\<lparr>pc_PasswordHash := h, pc_MustChangePassword := mustChange, pc_PasswordChangedAt := Some now\<rparr>))))"

definition ensureLoginTenantMembership :: "iam_authz \<Rightarrow> string \<Rightarrow> string \<Rightarrow> iam_error option" where
  "ensureLoginTenantMembership az userID tenantID =
     (case az_roles az tenantID userID of
        None \<Rightarrow> Some (Svc 500 ''authorization unavailable'')
      | Some roles \<Rightarrow> if roles = [] then Some (Svc 403 ''user is not a member of tenant'') else None)"

text \<open>The verifier a deployment installed answers with a service error of its own; another failure is a 500.\<close>

definition verifyLoginSecondFactor :: "(iam_error option) iam_prog \<Rightarrow> (iam_error option) iam_prog" where
  "verifyLoginSecondFactor verifier =
     pbind verifier (\<lambda>r. Ret
       (case r of
          None \<Rightarrow> None
        | Some (Svc st msg) \<Rightarrow> Some (Svc st msg)
        | Some _ \<Rightarrow> Some (Svc 500 ''failed to verify second factor'')))"

text \<open>The part of a login after every check has passed: the session is stored, indexed and handed out.\<close>

definition login_session ::
  "iam \<Rightarrow> iam_ctx \<Rightarrow> iam_user \<Rightarrow> password_credential \<Rightarrow> string \<Rightarrow> string \<Rightarrow> int \<Rightarrow> session" where
  "login_session im cx user credential tenantID sessionID now =
     (let ua = im_agent im (cx_UserAgent cx)
      in \<lparr>s_ID = sessionID, s_UserID = u_ID user, s_Username = u_Username user, s_TenantID = tenantID,
          s_MustChangePassword = pc_MustChangePassword credential, s_ClientIP = cx_ClientIP cx, s_UserAgent = cx_UserAgent cx,
          s_Platform = dv_Platform ua, s_OS = dv_OS ua, s_EngineName = dv_EngineName ua, s_BrowserName = dv_BrowserName ua,
          s_IssuedAt = now, s_LastSeenAt = now, s_ExpiresAt = now + im_expiration im\<rparr>)"

definition open_session ::
  "iam \<Rightarrow> iam_ctx \<Rightarrow> iam_user \<Rightarrow> password_credential \<Rightarrow> string \<Rightarrow> string option \<Rightarrow> session answer iam_prog" where
  "open_session im cx user credential tenantID newID =
     Now (\<lambda>now.
     case newID of
       None \<Rightarrow> refuse (Svc 500 ''failed to create session id'')
     | Some sessionID \<Rightarrow>
         (let expire = im_expiration im; s = login_session im cx user credential tenantID sessionID now
          in pbind (SaveSession im s expire) (\<lambda>r.
             case r of
               Some err \<Rightarrow> refuse err
             | None \<Rightarrow>
                 pbind (IndexSession im s) (\<lambda>x.
                   case x of
                     Some err \<Rightarrow> pbind (DeleteSession im sessionID) (\<lambda>_. refuse (Svc 500 ''failed to track user session''))
                   | None \<Rightarrow>
                       pbind (ClearLoginFailures im (u_Username user)) (\<lambda>_. Ret (Inr s, SetCookie sessionID expire))))))"

definition Login ::
  "iam \<Rightarrow> iam_authz \<Rightarrow> login_cfg \<Rightarrow> (string \<Rightarrow> string \<Rightarrow> string \<Rightarrow> (iam_error option) iam_prog) \<Rightarrow> string option \<Rightarrow>
   iam_ctx \<Rightarrow> login_req \<Rightarrow> session answer iam_prog" where
  "Login im az lc verifier newID cx rq =
     (if lq_Username rq = [] then refuse (Svc 400 ''username is required'')
      else if lq_Password rq = [] then refuse (Svc 400 ''password is required'')
      else
        pbind (db_read ErrDatabase (\<lambda>d. find_row (\<lambda>u. u_Username u = lq_Username rq) (db_users d))) (\<lambda>u.
        case u of
          Inl err \<Rightarrow> refuse badCredentials
        | Inr user \<Rightarrow>
            (if u_Status user = ''inactive'' then refuse (Svc 403 ''account disabled'')
             else if u_Status user = ''locked'' then refuse (Svc 403 ''account locked'')
             else
               pbind (LoadPasswordCredential (u_ID user)) (\<lambda>c.
               case c of
                 Inl err \<Rightarrow> refuse badCredentials
               | Inr credential \<Rightarrow>
                   pbind (ensureLoginNotLockedOut im lc (u_Username user)) (\<lambda>locked.
                   case locked of
                     Some err \<Rightarrow> refuse err
                   | None \<Rightarrow>
                       (if \<not> lc_verify lc (pc_PasswordHash credential) (lq_Password rq)
                        then pbind (recordLoginFailure im lc (u_Username user)) (\<lambda>_. refuse badCredentials)
                        else
                          (case az_root az (u_ID user) of
                             None \<Rightarrow> refuse (Svc 500 ''authorization unavailable'')
                           | Some systemRoot \<Rightarrow>
                               (let tenantID = TrimSpace (lq_TenantID rq)
                                in case (if tenantID \<noteq> [] \<and> \<not> systemRoot then ensureLoginTenantMembership az (u_ID user) tenantID else None) of
                                     Some err \<Rightarrow> refuse err
                                   | None \<Rightarrow>
                                       pbind (verifyLoginSecondFactor (verifier (u_ID user) (lq_TOTPCode rq) (lq_BackupCode rq))) (\<lambda>f.
                                       case f of
                                         Some err \<Rightarrow> pbind (recordLoginFailure im lc (u_Username user)) (\<lambda>_. refuse err)
                                       | None \<Rightarrow> open_session im cx user credential tenantID newID)))))))))"

definition Logout :: "iam \<Rightarrow> iam_ctx \<Rightarrow> unit answer iam_prog" where
  "Logout im cx =
     (case CookieSessionID cx of
        Inl err \<Rightarrow> done_with ClearCookie
      | Inr sessionID \<Rightarrow>
          pbind (DeleteSession im sessionID) (\<lambda>(_, d).
            case d of
              None \<Rightarrow> done_with ClearCookie
            | Some err \<Rightarrow>
                (if err = ErrEntryNotFound then done_with ClearCookie else refuse (Svc 500 ''failed to logout''))))"

section \<open>Passwords\<close>

definition put_credential :: "password_credential \<Rightarrow> accounts \<Rightarrow> accounts" where
  "put_credential c d =
     d\<lparr>db_credentials := map (\<lambda>r. if pc_ID r = pc_ID c then c else r) (db_credentials d)\<rparr>"

definition add_credential :: "password_credential \<Rightarrow> accounts \<Rightarrow> accounts" where
  "add_credential c d = d\<lparr>db_credentials := db_credentials d @ [c]\<rparr>"

definition ChangePassword :: "iam \<Rightarrow> login_cfg \<Rightarrow> iam_ctx \<Rightarrow> string \<Rightarrow> string \<Rightarrow> unit answer iam_prog" where
  "ChangePassword im lc cx oldPassword newPassword =
     (if oldPassword = [] then refuse (Svc 400 ''old password is required'')
      else
        (case validateNewAccountPassword newPassword of
           Some err \<Rightarrow> refuse err
         | None \<Rightarrow>
             with_current im cx (\<lambda>sessionID current.
               pbind (get_user (s_UserID current)) (\<lambda>u.
               case u of
                 Inl err \<Rightarrow> refuse (Svc 500 ''failed to query user'')
               | Inr user \<Rightarrow>
                   pbind (LoadPasswordCredential (u_ID user)) (\<lambda>c.
                   case c of
                     Inl err \<Rightarrow> refuse (Svc 500 ''failed to load password credential'')
                   | Inr credential \<Rightarrow>
                       (if \<not> lc_verify lc (pc_PasswordHash credential) oldPassword then refuse (Svc 400 ''old password is incorrect'')
                        else
                          pbind (ApplyPasswordCredentialUpdate lc credential newPassword False) (\<lambda>a.
                          case a of
                            Inl err \<Rightarrow> refuse err
                          | Inr updated \<Rightarrow>
                              Db (put_credential updated) (\<lambda>answered _.
                              if \<not> answered then refuse (Svc 500 ''failed to update password'')
                              else
                                pbind (DropUserState im (u_ID user)) (\<lambda>_.
                                pbind (DeleteUserSessionsExcept im (u_ID user) sessionID) (\<lambda>r.
                                if r \<noteq> None then refuse (Svc 500 ''failed to revoke other sessions'') else done_with KeepCookie))))))))))"

definition LoadActor :: "iam \<Rightarrow> iam_ctx \<Rightarrow> (iam_error + iam_user) iam_prog" where
  "LoadActor im cx =
     pbind (CurrentSession im cx) (\<lambda>c.
       case c of
         Inl err \<Rightarrow> Ret (Inl (Svc 401 ''invalid session''))
       | Inr (_, s) \<Rightarrow>
           (if s_UserID s = [] then Ret (Inl (Svc 401 ''current user not found''))
            else
              pbind (get_user (s_UserID s)) (\<lambda>u. Ret
                (case u of
                   Inr actor \<Rightarrow> Inr actor
                 | Inl err \<Rightarrow>
                     Inl (if err = ErrRecordNotFound then Svc 401 ''current user not found'' else Svc 500 ''failed to load current user'')))))"

definition LoadActorAndTarget :: "iam \<Rightarrow> iam_ctx \<Rightarrow> string \<Rightarrow> (iam_error + iam_user \<times> iam_user) iam_prog" where
  "LoadActorAndTarget im cx targetUserID =
     pbind (LoadActor im cx) (\<lambda>a.
       case a of
         Inl err \<Rightarrow> Ret (Inl err)
       | Inr actor \<Rightarrow>
           pbind (get_user targetUserID) (\<lambda>u. Ret
             (case u of
                Inr target \<Rightarrow> Inr (actor, target)
              | Inl err \<Rightarrow>
                  Inl (if err = ErrRecordNotFound then Svc 404 ''user not found'' else Svc 500 ''failed to load target user''))))"

definition ResetPassword :: "iam \<Rightarrow> iam_authz \<Rightarrow> login_cfg \<Rightarrow> iam_ctx \<Rightarrow> string \<Rightarrow> string \<Rightarrow> unit answer iam_prog" where
  "ResetPassword im az lc cx userID newPassword =
     (if userID = [] then refuse (Svc 400 ''user_id is required'')
      else
        (case validateNewAccountPassword newPassword of
           Some err \<Rightarrow> refuse err
         | None \<Rightarrow>
             pbind (LoadActorAndTarget im cx userID) (\<lambda>at.
             case at of
               Inl err \<Rightarrow> refuse err
             | Inr (actor, target) \<Rightarrow>
                 (case az_tenant_admin az actor target of
                    Some err \<Rightarrow> refuse err
                  | None \<Rightarrow>
                      pbind (LoadPasswordCredential (u_ID target)) (\<lambda>c.
                      case (case c of
                              Inr credential \<Rightarrow> Inr credential
                            | Inl CredentialNotFound \<Rightarrow>
                                Inr \<lparr>pc_ID = [], pc_UserID = u_ID target, pc_PasswordHash = [], pc_MustChangePassword = False, pc_PasswordChangedAt = None\<rparr>
                            | Inl (CredentialSvc err) \<Rightarrow> Inl (Svc 500 ''failed to load password credential'')) of
                        Inl err \<Rightarrow> refuse err
                      | Inr credential \<Rightarrow>
                          pbind (ApplyPasswordCredentialUpdate lc credential newPassword True) (\<lambda>a.
                          case a of
                            Inl err \<Rightarrow> refuse err
                          | Inr updated \<Rightarrow>
                              Db (if pc_ID updated = [] then add_credential updated else put_credential updated) (\<lambda>answered _.
                              if \<not> answered then refuse (Svc 500 ''failed to update password'')
                              else
                                pbind (DeleteUserSessions im userID) (\<lambda>r.
                                if r \<noteq> None then refuse (Svc 500 ''failed to revoke user sessions'') else done_with KeepCookie))))))))"

end
