(* ===== verification/Iam_Authenticate.thy ===== *)
theory Iam_Authenticate
  imports Iam_Service
begin

text \<open>
  What the authentication of a request is worth: whom it admits, whatever the network does; what it
  decides on a network in order; that a session once revoked is never admitted again, whatever requests
  are being handled; and the ways it refuses.
\<close>

section \<open>What is stored\<close>

definition stored_snapshot :: "iam \<Rightarrow> keyspace \<Rightarrow> int \<Rightarrow> string \<Rightarrow> session \<Rightarrow> bool" where
  "stored_snapshot im ks t x s \<longleftrightarrow>
     (\<exists>data d. held t ks (Key (im_ns im) (sessionDataKey x)) = Some (Text data, d) \<and> im_dec im data = Some s)"

definition cached_state :: "iam \<Rightarrow> keyspace \<Rightarrow> int \<Rightarrow> string \<Rightarrow> UserState \<Rightarrow> bool" where
  "cached_state im ks t u st \<longleftrightarrow>
     (\<exists>data d. held t ks (Key (im_ns im) (userStateKey u)) = Some (Text data, d) \<and> im_dec_state im data = Some st)"

definition row_state :: "accounts \<Rightarrow> string \<Rightarrow> UserState \<Rightarrow> bool" where
  "row_state d u st \<longleftrightarrow>
     (\<exists>user credential. find (\<lambda>r. u_ID r = u) (db_users d) = Some user \<and> find (\<lambda>c. pc_UserID c = u) (db_credentials d) = Some credential \<and>
        st = \<lparr>us_Status = u_Status user, us_MustChangePassword = pc_MustChangePassword credential\<rparr>)"

definition same_device :: "iam \<Rightarrow> session \<Rightarrow> string \<Rightarrow> bool" where
  "same_device im s ua \<longleftrightarrow>
     s_OS s = dv_OS (im_agent im ua) \<and> s_Platform s = dv_Platform (im_agent im ua) \<and>
     s_EngineName s = dv_EngineName (im_agent im ua) \<and> s_BrowserName s = dv_BrowserName (im_agent im ua)"

lemma deviceMismatch_iff: "deviceMismatch im s ua = [] \<longleftrightarrow> same_device im s ua"
  by (auto simp: deviceMismatch_def same_device_def Let_def)

lemma ValidateSession_iff:
  "ValidateSession t x s = None \<longleftrightarrow>
     TrimSpace x \<noteq> [] \<and> s_ID s = TrimSpace x \<and> s_UserID s \<noteq> [] \<and> \<not> IsZero (s_ExpiresAt s) \<and> t < s_ExpiresAt s"
  by (auto simp: ValidateSession_def Let_def)

lemma ensureSessionUserActive_iff: "ensureSessionUserActive st = None \<longleftrightarrow> st \<noteq> ''inactive'' \<and> st \<noteq> ''locked''"
  by (simp add: ensureSessionUserActive_def)

section \<open>Runs of the parts\<close>

lemma LoadSession_found:
  assumes "exec redis_command (LoadSession im x) e w = (Inr s, e', w')"
  shows "TrimSpace x \<noteq> []" "w' = w\<lparr>w_now := w_now w'\<rparr>" "stored_snapshot im (w_redis w) (w_now w') (TrimSpace x) s"
proof -
  show ne: "TrimSpace x \<noteq> []" using assms by (auto simp: LoadSession_def)
  obtain r e1 w1 where g: "exec redis_command (redis_Get (im_ns im) (sessionDataKey (TrimSpace x))) e w = (r, e1, w1)"
    and k: "(case r of Inl err \<Rightarrow> Inl (load_error err)
             | Inr data \<Rightarrow> (case im_dec im data of None \<Rightarrow> Inl ErrSnapshotUnreadable | Some current \<Rightarrow> Inr current)) = Inr s"
    and w: "w' = w1"
    using assms ne by (auto simp: LoadSession_def Let_def elim!: exec_pbindE)
  obtain data where data: "r = Inr data" "im_dec im data = Some s" using k by (auto split: sum.splits option.splits)
  show "w' = w\<lparr>w_now := w_now w'\<rparr>" using exec_redis_Get(1) [OF g] w by simp
  show "stored_snapshot im (w_redis w) (w_now w') (TrimSpace x) s"
    using exec_redis_Get(3) [OF g data(1)] data(2) w by (auto simp: stored_snapshot_def)
qed

lemma loadSession_found:
  assumes "exec redis_command (loadSession im x) e w = (Inr (Some s), e', w')"
  shows "TrimSpace x \<noteq> []" "w' = w\<lparr>w_now := w_now w'\<rparr>" "stored_snapshot im (w_redis w) (w_now w') (TrimSpace x) s"
proof -
  have "exec redis_command (LoadSession im x) e w = (Inr s, e', w')"
    using assms by (auto simp: loadSession_def split: sum.splits iam_error.splits elim!: exec_pbindE)
  then show "TrimSpace x \<noteq> []" "w' = w\<lparr>w_now := w_now w'\<rparr>" "stored_snapshot im (w_redis w) (w_now w') (TrimSpace x) s"
    by (rule LoadSession_found)+
qed

lemma reads_only_redis:
  "reads_only (redis_Get ns key)" "reads_only (redis_Del ns keys)" "reads_only (redis_SetXX ns key v ttl)"
  "reads_only (redis_ZAdd ns key sc ms)" "reads_only (redis_ZRem ns key ms)" "reads_only (redis_ZRemRangeByScore ns key hi)"
  "reads_only (cache_Get ns dec key)" "reads_only (cache_Set ns enc key v ttl)" "reads_only (db_read failed f)"
  by (auto simp: redis_Get_def redis_Del_def redis_SetXX_def redis_ZAdd_def redis_ZRem_def redis_ZRemRangeByScore_def
      cache_Get_def cache_Set_def cache_Delete_def db_read_def split: sum.splits option.splits)

lemma reads_only_LoadUserState: "reads_only (LoadUserState im u)"
  by (auto simp: LoadUserState_def reads_only_redis intro!: reads_only_pbind)

lemma LoadUserState_cached:
  assumes "exec redis_command (LoadUserState im u) e w = (Some st, e', w')"
  shows "\<exists>t. w_now w \<le> t \<and> t \<le> w_now w' \<and> cached_state im (w_redis w) t u st"
proof -
  obtain e1 w1 where c: "exec redis_command (cache_Get (im_ns im) (im_dec_state im) (userStateKey u)) e w = (Inr st, e1, w1)"
    and w1: "w' = w1"
    using assms by (auto simp: LoadUserState_def split: sum.splits elim!: exec_pbindE)
  obtain r w2 where g: "redis_call redis_command (e 0) (GET (Key (im_ns im) (userStateKey u))) w = (r, w2)" by fastforce
  obtain data where d: "bytes_reply r = Inr data" "im_dec_state im data = Some st" "w1 = w2"
    using c g by (auto simp: cache_Get_def exec_pbind split: sum.splits if_splits option.splits prod.splits)
  have g': "exec redis_command (redis_Get (im_ns im) (userStateKey u)) e w = (Inr data, \<lambda>n. e (Suc n), w2)"
    using g d(1) by (simp add: redis_Get_def)
  show ?thesis using exec_redis_Get(2) [OF g'] exec_redis_Get(3) [OF g' refl] d w1 by (auto simp: cached_state_def)
qed

lemma get_user_found:
  assumes "exec redis_command (get_user u) e w = (Inr user, e', w')"
  shows "find (\<lambda>r. u_ID r = u) (db_users (w_db w)) = Some user" "w_db w' = w_db w"
  using assms by (auto simp: get_user_def find_row_def split: option.splits elim!: exec_db_readE)

lemma credential_found:
  assumes "exec redis_command (loadSessionPasswordCredential u) e w = (Inr c, e', w')"
  shows "find (\<lambda>c. pc_UserID c = u) (db_credentials (w_db w)) = Some c" "w_db w' = w_db w"
  using assms by (auto simp: loadSessionPasswordCredential_def find_row_def split: option.splits elim!: exec_db_readE)

lemma refresh_found:
  assumes "exec redis_command (refreshSessionUserState im u) e w = (Inr st, e', w')"
  shows "row_state (w_db w) u st"
proof -
  obtain a e1 w1 where u: "exec redis_command (get_user u) e w = (a, e1, w1)"
    and k: "exec redis_command (case a of Inl err \<Rightarrow> Ret (Inl (refreshFailed err))
       | Inr user \<Rightarrow>
           pbind (loadSessionPasswordCredential u) (\<lambda>c.
             case c of
               Inl err \<Rightarrow> Ret (Inl (refreshFailed err))
             | Inr credential \<Rightarrow>
                 (let st = \<lparr>us_Status = u_Status user, us_MustChangePassword = pc_MustChangePassword credential\<rparr>
                  in pbind (SaveUserState im u st) (\<lambda>_. Ret (Inr st))))) e1 w1 = (Inr st, e', w')"
    using assms by (auto simp: refreshSessionUserState_def elim!: exec_pbindE)
  obtain user where a: "a = Inr user" using k by (cases a) auto
  obtain b e2 w2 where c: "exec redis_command (loadSessionPasswordCredential u) e1 w1 = (b, e2, w2)"
    and k2: "exec redis_command (case b of Inl err \<Rightarrow> Ret (Inl (refreshFailed err))
             | Inr credential \<Rightarrow>
                 (let st = \<lparr>us_Status = u_Status user, us_MustChangePassword = pc_MustChangePassword credential\<rparr>
                  in pbind (SaveUserState im u st) (\<lambda>_. Ret (Inr st)))) e2 w2 = (Inr st, e', w')"
    using k a by (auto elim!: exec_pbindE)
  obtain cr where b: "b = Inr cr" using k2 by (cases b) auto
  have "st = \<lparr>us_Status = u_Status user, us_MustChangePassword = pc_MustChangePassword cr\<rparr>"
    using k2 b by (auto simp: Let_def elim!: exec_pbindE)
  then show ?thesis
    using get_user_found [of u e w user e1 w1] credential_found [of u e1 w1 cr e2 w2] u c a b by (auto simp: row_state_def)
qed

lemma user_state_admitted:
  assumes "exec redis_command (ValidateSessionUserState im s0) e w = (Inr s, e', w')"
  obtains st t where "w_now w \<le> t" "cached_state im (w_redis w) t (s_UserID s0) st \<or> row_state (w_db w) (s_UserID s0) st"
    "us_Status st \<noteq> ''inactive''" "us_Status st \<noteq> ''locked''" "s = s0\<lparr>s_MustChangePassword := us_MustChangePassword st\<rparr>"
proof -
  obtain cached e1 w1 r e2 w2 where l: "exec redis_command (LoadUserState im (s_UserID s0)) e w = (cached, e1, w1)"
    and r: "exec redis_command (case cached of Some st \<Rightarrow> Ret (Inr st) | None \<Rightarrow> refreshSessionUserState im (s_UserID s0)) e1 w1 = (r, e2, w2)"
    and s: "(case r of
             Inl err \<Rightarrow> Inl err
           | Inr st \<Rightarrow>
               (case ensureSessionUserActive (us_Status st) of
                  Some err \<Rightarrow> Inl err
                | None \<Rightarrow> Inr (s0\<lparr>s_MustChangePassword := us_MustChangePassword st\<rparr>))) = Inr s"
    using assms by (auto simp: ValidateSessionUserState_def split: if_splits elim!: exec_pbindE)
  obtain st where st: "r = Inr st" "ensureSessionUserActive (us_Status st) = None" "s = s0\<lparr>s_MustChangePassword := us_MustChangePassword st\<rparr>"
    using s by (auto split: sum.splits option.splits)
  have db: "w_db w1 = w_db w" by (rule reads_only_exec [OF reads_only_LoadUserState l])
  show thesis
  proof (cases cached)
    case None
    then show thesis
      using that [of "w_now w" st] refresh_found [of im "s_UserID s0" e1 w1 st e2 w2] r st db by (simp add: ensureSessionUserActive_iff)
  next
    case (Some st')
    then have "st' = st" using r st(1) by simp
    then show thesis using LoadUserState_cached [of im "s_UserID s0" e w st e1 w1] l Some that st by (auto simp: ensureSessionUserActive_iff)
  qed
qed

section \<open>Whom it admits\<close>

lemma authenticate_user_admits:
  assumes "exec serve (authenticate_user im x mt pth v) e w = (Inr s, e', w')"
  shows "v = Inr s" "s_MustChangePassword s \<longrightarrow> MustChangePasswordExempt mt pth"
  using assms
  by (auto simp: authenticate_user_def Let_def split: sum.splits prod.splits if_splits elim!: exec_pbindE exec_NowE)

text \<open>A session that may go on: a valid snapshot, the device it was issued to, and a user who is active.\<close>

definition admissible :: "iam \<Rightarrow> keyspace \<Rightarrow> accounts \<Rightarrow> int \<Rightarrow> string \<Rightarrow> string \<Rightarrow> string \<Rightarrow> string \<Rightarrow> session \<Rightarrow> session \<Rightarrow> bool" where
  "admissible im ks db t x ua mt pth s0 s \<longleftrightarrow>
     x \<noteq> [] \<and> s_ID s0 = x \<and> s_UserID s0 \<noteq> [] \<and> t < s_ExpiresAt s0 \<and> same_device im s0 ua \<and>
     (\<exists>st t'. t \<le> t' \<and> (cached_state im ks t' (s_UserID s0) st \<or> row_state db (s_UserID s0) st) \<and>
        us_Status st \<notin> {''inactive'', ''locked''} \<and> s = s0\<lparr>s_MustChangePassword := us_MustChangePassword st\<rparr> \<and>
        (us_MustChangePassword st \<longrightarrow> MustChangePasswordExempt mt pth))"

lemma authenticate_snapshot_admits:
  assumes "exec redis_command (authenticate_snapshot im x ua mt pth s0) e w = (Inr s, e', w')" "x = TrimSpace x"
  shows "\<exists>t. w_now w \<le> t \<and> admissible im (w_redis w) (w_db w) t x ua mt pth s0 s"
proof -
  obtain t where t: "w_now w \<le> t"
    and k: "exec redis_command (case ValidateSession t x s0 of
       Some reason \<Rightarrow> pbind (DeleteSession im x) (\<lambda>_. Ret (Inl (as_service_error (rejected reason))))
     | None \<Rightarrow>
         (if deviceMismatch im s0 ua \<noteq> []
          then Ret (Inl (as_service_error (rejected (deviceMismatch im s0 ua))))
          else pbind (ValidateSessionUserState im s0) (authenticate_user im x mt pth))) (\<lambda>n. e (Suc n)) (w\<lparr>w_now := t\<rparr>) = (Inr s, e', w')"
    using exec_NowE [OF assms(1) [unfolded authenticate_snapshot_def]] by blast
  have v: "ValidateSession t x s0 = None" using k by (auto split: option.splits elim!: exec_pbindE)
  have dm: "deviceMismatch im s0 ua = []" using k v by (auto split: if_splits)
  obtain r e2 w2 where vs: "exec redis_command (ValidateSessionUserState im s0) (\<lambda>n. e (Suc n)) (w\<lparr>w_now := t\<rparr>) = (r, e2, w2)"
    and u: "exec redis_command (authenticate_user im x mt pth r) e2 w2 = (Inr s, e', w')"
    using k v dm by (auto elim!: exec_pbindE)
  obtain st t2 where st: "t \<le> t2" "cached_state im (w_redis w) t2 (s_UserID s0) st \<or> row_state (w_db w) (s_UserID s0) st"
      "us_Status st \<noteq> ''inactive''" "us_Status st \<noteq> ''locked''" "s = s0\<lparr>s_MustChangePassword := us_MustChangePassword st\<rparr>"
  proof (rule user_state_admitted)
    show "exec redis_command (ValidateSessionUserState im s0) (\<lambda>n. e (Suc n)) (w\<lparr>w_now := t\<rparr>) = (Inr s, e2, w2)"
      using vs authenticate_user_admits(1) [OF u] by simp
  qed simp
  have "us_MustChangePassword st \<longrightarrow> MustChangePasswordExempt mt pth" using authenticate_user_admits(2) [OF u] st(5) by simp
  then have "admissible im (w_redis w) (w_db w) t x ua mt pth s0 s"
    using st v dm assms(2) by (auto simp: admissible_def ValidateSession_iff deviceMismatch_iff)
  then show ?thesis using t by blast
qed

lemma Authenticate_admits_keyspace:
  assumes "exec redis_command (Authenticate im sid ua mt pth) e w = (Inr s, e', w')"
  shows "\<exists>s0 t t'. w_now w \<le> t \<and> t \<le> t' \<and> stored_snapshot im (w_redis w) t (TrimSpace sid) s0 \<and>
    admissible im (w_redis w) (w_db w) t' (TrimSpace sid) ua mt pth s0 s"
proof -
  let ?x = "TrimSpace sid"
  obtain l e1 w1 where l: "exec redis_command (loadSession im ?x) e w = (l, e1, w1)"
    and k: "exec redis_command (case l of Inl err \<Rightarrow> Ret (Inl (as_service_error err))
           | Inr None \<Rightarrow> Ret (Inl (as_service_error (rejected ''session not found'')))
           | Inr (Some current) \<Rightarrow> authenticate_snapshot im ?x ua mt pth current) e1 w1 = (Inr s, e', w')"
    using assms by (auto simp: Authenticate_def Let_def split: if_splits elim!: exec_pbindE)
  obtain s0 where s0: "l = Inr (Some s0)" using k by (auto split: sum.splits option.splits)
  have w1: "w1 = w\<lparr>w_now := w_now w1\<rparr>" and st0: "stored_snapshot im (w_redis w) (w_now w1) ?x s0"
    using loadSession_found [of im ?x e w s0 e1 w1] l s0 by (simp_all only: TrimSpace_idem)
  have same: "w_redis w1 = w_redis w" "w_db w1 = w_db w" by (subst w1, simp)+
  obtain t' where "w_now w1 \<le> t'" "admissible im (w_redis w) (w_db w) t' ?x ua mt pth s0 s"
    using authenticate_snapshot_admits [of im ?x ua mt pth s0 e1 w1 s e' w'] k s0 same by auto
  then show ?thesis using st0 exec_time [OF l] by blast
qed

lemma authenticate_admits_aux:
  assumes "redis_server serve view"
    and "exec serve (Authenticate im sid ua mt pth) e w = (Inr s, e', w')"
  shows "\<exists>s0 t t'. w_now w \<le> t \<and> t \<le> t' \<and> stored_snapshot im (view (w_redis w)) t (TrimSpace sid) s0 \<and>
    admissible im (view (w_redis w)) (w_db w) t' (TrimSpace sid) ua mt pth s0 s"
proof -
  obtain e1 e2 where "exec redis_command (Authenticate im sid ua mt pth) e1 (redis_server.seen view w) = (Inr s, e2, redis_server.seen view w')"
    using redis_server.exec_keyspace [OF assms] by blast
  from Authenticate_admits_keyspace [OF this] show ?thesis by (simp add: redis_server.seen_simps [OF assms(1)])
qed

text \<open>
  C13: A request is admitted only under a session that is stored at that time, names itself, belongs to
  a user, has not expired, was issued to the calling device, and whose user is, by the cache or by the
  database, neither disabled nor locked; while the user must change the password, only for the actions
  that get the user out of that state. This holds whatever is lost, delayed, refused or repeated.
\<close>

theorem authenticate_admits:
  assumes "redis_server serve view"
    and "exec serve (Authenticate im sid ua mt pth) e w = (Inr s, e', w')"
  shows "\<exists>s0 t t'. w_now w \<le> t \<and> t \<le> t' \<and> stored_snapshot im (view (w_redis w)) t (TrimSpace sid) s0 \<and>
    admissible im (view (w_redis w)) (w_db w) t' (TrimSpace sid) ua mt pth s0 s"
  by (rule authenticate_admits_aux [OF assms])

section \<open>How it refuses\<close>

lemma returns_ValidateSessionUserState:
  "returns (\<lambda>v. \<forall>err. v = Inl err \<longrightarrow> err \<in> {Svc 401 ''session invalid'', Svc 500 ''failed to refresh session user state'',
     Svc 403 ''account disabled'', Svc 403 ''account locked''}) (ValidateSessionUserState im s)"
proof -
  let ?R = "\<lambda>r. \<forall>err. r = Inl err \<longrightarrow> err \<in> {Svc 401 ''session invalid'', Svc 500 ''failed to refresh session user state''}"
  have "returns ?R (refreshSessionUserState im u)" for u
    by (auto simp: refreshSessionUserState_def refreshFailed_def Let_def intro!: returns_pbind_any split: sum.splits)
  then have "returns ?R (case c of Some st \<Rightarrow> Ret (Inr st) | None \<Rightarrow> refreshSessionUserState im u)" for c u
    by (auto split: option.splits)
  then have "returns (\<lambda>v. \<forall>err. v = Inl err \<longrightarrow> err \<in> {Svc 401 ''session invalid'', Svc 500 ''failed to refresh session user state'',
       Svc 403 ''account disabled'', Svc 403 ''account locked''})
     (pbind (case c of Some st \<Rightarrow> Ret (Inr st) | None \<Rightarrow> refreshSessionUserState im u) (\<lambda>r. Ret
          (case r of
             Inl err \<Rightarrow> Inl err
           | Inr st \<Rightarrow>
               (case ensureSessionUserActive (us_Status st) of
                  Some err \<Rightarrow> Inl err
                | None \<Rightarrow> Inr (s\<lparr>s_MustChangePassword := us_MustChangePassword st\<rparr>)))))" for c u
    by (rule returns_pbind) (auto simp: ensureSessionUserActive_def split: sum.splits if_splits)
  note parts = this
  show ?thesis
  proof (cases "s_UserID s = []")
    case False
    then show ?thesis unfolding ValidateSessionUserState_def by (simp only: if_False) (rule returns_pbind_any, rule parts)
  qed (simp add: ValidateSessionUserState_def)
qed

lemma returns_loadSession: "returns (\<lambda>l. \<forall>err. l = Inl err \<longrightarrow> err = Svc 500 ''failed to load session'') (loadSession im x)"
  by (auto simp: loadSession_def intro!: returns_pbind_any split: sum.splits iam_error.splits)

definition refusals :: "(nat \<times> string) set" where
  "refusals = {(401, ''session invalid''), (403, ''account disabled''), (403, ''account locked''),
     (403, ''password change required before using this resource''), (500, ''failed to load session''),
     (500, ''failed to refresh session user state'')}"

lemma refusals_fixed: "(401, ''session invalid'') \<in> refusals" "(500, ''failed to load session'') \<in> refusals"
  by (simp_all add: refusals_def)

lemma returns_authenticate_snapshot: "returns (\<lambda>r. \<forall>a. r = Inl a \<longrightarrow> a \<in> refusals) (authenticate_snapshot im x ua mt pth s)"
  unfolding authenticate_snapshot_def
  by (auto simp: authenticate_user_def rejected_def refusals_def Let_def split: option.splits sum.splits prod.splits
      intro!: returns_pbind_any returns_pbind [OF returns_ValidateSessionUserState])

text \<open>
  Every refusal of a request that carries a session id is one of six fixed answers, and every 401
  among them is the same words: what the store no longer holds, what has expired, what is bound to
  another device and what belongs to a user who is gone cannot be told apart. A store or a database
  that does not answer is a 500.
\<close>

theorem authenticate_refuses:
  assumes "TrimSpace sid \<noteq> []" "fst (exec serve (Authenticate im sid ua mt pth) e w) = Inl (status, msg)"
  shows "(status, msg) \<in> refusals \<and> (status = 401 \<longrightarrow> msg = ''session invalid'')"
proof -
  have P: "returns (\<lambda>r. \<forall>a. r = Inl a \<longrightarrow> a \<in> refusals) (Authenticate im sid ua mt pth)"
    using assms(1) unfolding Authenticate_def
    by (auto simp: Let_def rejected_def returns_authenticate_snapshot refusals_fixed simp del: split_paired_All split: option.splits sum.splits
        intro!: returns_pbind [OF returns_loadSession])
  obtain e' w' where "exec serve (Authenticate im sid ua mt pth) e w = (Inl (status, msg), e', w')"
    using assms(2) by (cases "exec serve (Authenticate im sid ua mt pth) e w") auto
  from exec_returns [OF P this] have "(status, msg) \<in> refusals" by simp
  then show ?thesis by (auto simp: refusals_def)
qed

section \<open>What it decides\<close>

definition snapshot_at :: "iam \<Rightarrow> keyspace \<Rightarrow> int \<Rightarrow> string \<Rightarrow> session option" where
  "snapshot_at im ks t x =
     (case held t ks (Key (im_ns im) (sessionDataKey x)) of Some (Text data, _) \<Rightarrow> im_dec im data | _ \<Rightarrow> None)"

definition row_state_of :: "accounts \<Rightarrow> string \<Rightarrow> UserState option" where
  "row_state_of d u =
     (case (find (\<lambda>r. u_ID r = u) (db_users d), find (\<lambda>c. pc_UserID c = u) (db_credentials d)) of
        (Some user, Some c) \<Rightarrow> Some \<lparr>us_Status = u_Status user, us_MustChangePassword = pc_MustChangePassword c\<rparr>
      | _ \<Rightarrow> None)"

definition state_at :: "iam \<Rightarrow> keyspace \<Rightarrow> accounts \<Rightarrow> int \<Rightarrow> string \<Rightarrow> UserState option" where
  "state_at im ks db t u =
     (case held t ks (Key (im_ns im) (userStateKey u)) of
        Some (Text data, _) \<Rightarrow> (if data = [] then row_state_of db u else case im_dec_state im data of Some st \<Rightarrow> Some st | None \<Rightarrow> row_state_of db u)
      | _ \<Rightarrow> row_state_of db u)"

text \<open>The decision as a function of what is stored at one instant.\<close>

definition auth_decision :: "iam \<Rightarrow> (keyspace, accounts) world \<Rightarrow> string \<Rightarrow> string \<Rightarrow> string \<Rightarrow> string \<Rightarrow> nat \<times> string + session" where
  "auth_decision im w x ua mt pth =
     (case snapshot_at im (w_redis w) (w_now w) x of
        None \<Rightarrow> Inl (401, ''session invalid'')
      | Some s \<Rightarrow>
          (if \<not> (s_ID s = x \<and> s_UserID s \<noteq> [] \<and> \<not> IsZero (s_ExpiresAt s) \<and> w_now w < s_ExpiresAt s \<and> same_device im s ua)
           then Inl (401, ''session invalid'')
           else
             (case state_at im (w_redis w) (w_db w) (w_now w) (s_UserID s) of
                None \<Rightarrow> Inl (401, ''session invalid'')
              | Some st \<Rightarrow>
                  (if us_Status st = ''inactive'' then Inl (403, ''account disabled'')
                   else if us_Status st = ''locked'' then Inl (403, ''account locked'')
                   else if us_MustChangePassword st \<and> \<not> MustChangePasswordExempt mt pth
                   then Inl (403, ''password change required before using this resource'')
                   else Inr (s\<lparr>s_MustChangePassword := us_MustChangePassword st\<rparr>)))))"

lemma calm_call [simp]: "redis_call redis_command calm c w = (let (r, k) = redis_command c (w_now w) (w_redis w) in (r, w\<lparr>w_redis := k\<rparr>))"
  by (simp add: redis_call_def calm_def)

lemma calm_clock [simp]: "clock_call calm w = (w_now w, w)"
  by (simp add: clock_call_def calm_def)

lemma calm_db [simp]: "db_call calm u w = w\<lparr>w_db := u (w_db w)\<rparr>" "ch_answered calm"
  by (simp_all add: db_call_def calm_def)

abbreviation calmly :: "(accounts, 'a) prog \<Rightarrow> (keyspace, accounts) world \<Rightarrow> 'a" where
  "calmly p w \<equiv> fst (exec redis_command p (\<lambda>_. calm) w)"

lemma exec_calm_env: "snd (exec redis_command p (\<lambda>_. calm) w) = (e', w') \<Longrightarrow> e' = (\<lambda>_. calm)"
  by (induction p arbitrary: w rule: prog_induct) (auto split: prod.splits)

lemma calmly_pbind:
  "calmly (pbind m f) w = calmly (f (calmly m w)) (snd (snd (exec redis_command m (\<lambda>_. calm) w)))"
proof -
  obtain a e1 w1 where m: "exec redis_command m (\<lambda>_. calm) w = (a, e1, w1)" by (metis prod_cases3)
  then have "e1 = (\<lambda>_. calm)" using exec_calm_env by (metis snd_conv)
  then show ?thesis using m by (simp add: exec_pbind)
qed

lemma calm_LoadSession:
  assumes "\<nexists>z d. held (w_now w) (w_redis w) (Key (im_ns im) (sessionDataKey (TrimSpace x))) = Some (Sorted z, d)" "TrimSpace x \<noteq> []"
  shows "exec redis_command (LoadSession im x) (\<lambda>_. calm) w =
    ((case held (w_now w) (w_redis w) (Key (im_ns im) (sessionDataKey (TrimSpace x))) of
        None \<Rightarrow> Inl ErrEntryNotFound
      | Some _ \<Rightarrow> (case snapshot_at im (w_redis w) (w_now w) (TrimSpace x) of None \<Rightarrow> Inl ErrSnapshotUnreadable | Some s \<Rightarrow> Inr s)), \<lambda>_. calm, w)"
  using assms
  by (auto simp: LoadSession_def redis_Get_def snapshot_at_def Let_def split: option.splits prod.splits rvalue.splits)

lemma calm_loadSession:
  assumes "\<nexists>z d. held (w_now w) (w_redis w) (Key (im_ns im) (sessionDataKey (TrimSpace x))) = Some (Sorted z, d)" "TrimSpace x \<noteq> []"
  shows "calmly (loadSession im x) w = Inr (snapshot_at im (w_redis w) (w_now w) (TrimSpace x))"
    "snapshot_at im (w_redis w) (w_now w) (TrimSpace x) \<noteq> None \<Longrightarrow> snd (snd (exec redis_command (loadSession im x) (\<lambda>_. calm) w)) = w"
proof -
  have none: "held (w_now w) (w_redis w) (Key (im_ns im) (sessionDataKey (TrimSpace x))) = None \<Longrightarrow>
      snapshot_at im (w_redis w) (w_now w) (TrimSpace x) = None" by (simp add: snapshot_at_def)
  show "calmly (loadSession im x) w = Inr (snapshot_at im (w_redis w) (w_now w) (TrimSpace x))"
    by (simp add: loadSession_def calmly_pbind calm_LoadSession [OF assms] none split: option.split)
  show "snapshot_at im (w_redis w) (w_now w) (TrimSpace x) \<noteq> None \<Longrightarrow> snd (snd (exec redis_command (loadSession im x) (\<lambda>_. calm) w)) = w"
    using none by (auto simp: loadSession_def exec_pbind calm_LoadSession [OF assms] split: option.splits)
qed

lemma calm_refresh:
  "calmly (refreshSessionUserState im u) w = (case row_state_of (w_db w) u of None \<Rightarrow> Inl (Svc 401 ''session invalid'') | Some st \<Rightarrow> Inr st)"
  by (simp add: refreshSessionUserState_def calmly_pbind get_user_def loadSessionPasswordCredential_def db_read_def find_row_def
      refreshFailed_def row_state_of_def Let_def split: option.split)

lemma calm_LoadUserState:
  "(case calmly (LoadUserState im u) w of Some st \<Rightarrow> Some st | None \<Rightarrow> row_state_of (w_db w) u) = state_at im (w_redis w) (w_db w) (w_now w) u"
  "w_db (snd (snd (exec redis_command (LoadUserState im u) (\<lambda>_. calm) w))) = w_db w"
proof -
  show "(case calmly (LoadUserState im u) w of Some st \<Rightarrow> Some st | None \<Rightarrow> row_state_of (w_db w) u) = state_at im (w_redis w) (w_db w) (w_now w) u"
    by (auto simp: LoadUserState_def calmly_pbind cache_Get_def state_at_def split: option.split prod.split rvalue.split)
  show "w_db (snd (snd (exec redis_command (LoadUserState im u) (\<lambda>_. calm) w))) = w_db w"
    using reads_only_exec [OF reads_only_LoadUserState] by (metis prod.collapse)
qed

lemma calm_user_state:
  assumes "s_UserID s \<noteq> []"
  shows "calmly (ValidateSessionUserState im s) w =
    (case state_at im (w_redis w) (w_db w) (w_now w) (s_UserID s) of
       None \<Rightarrow> Inl (Svc 401 ''session invalid'')
     | Some st \<Rightarrow>
         (case ensureSessionUserActive (us_Status st) of Some err \<Rightarrow> Inl err | None \<Rightarrow> Inr (s\<lparr>s_MustChangePassword := us_MustChangePassword st\<rparr>)))"
proof -
  let ?w = "snd (snd (exec redis_command (LoadUserState im (s_UserID s)) (\<lambda>_. calm) w))"
  have "calmly (case c of Some st \<Rightarrow> Ret (Inr st) | None \<Rightarrow> refreshSessionUserState im (s_UserID s)) ?w =
      (case (case c of Some st \<Rightarrow> Some st | None \<Rightarrow> row_state_of (w_db w) (s_UserID s)) of None \<Rightarrow> Inl (Svc 401 ''session invalid'') | Some st \<Rightarrow> Inr st)" for c
    by (simp add: calm_refresh calm_LoadUserState split: option.split)
  then show ?thesis
    using assms by (simp add: ValidateSessionUserState_def calmly_pbind calm_LoadUserState(1) split: option.split)
qed

lemma calmly_const: "calmly (pbind m (\<lambda>_. Ret c)) w = c"
  by (simp add: exec_then_Ret)

lemma calm_authenticate_user:
  "calmly (authenticate_user im x mt pth v) w =
     (case v of
        Inl err \<Rightarrow> Inl (as_service_error err)
      | Inr s \<Rightarrow>
          (if s_MustChangePassword s \<and> \<not> MustChangePasswordExempt mt pth
           then Inl (403, ''password change required before using this resource'') else Inr s))"
  by (simp add: authenticate_user_def Let_def calmly_const split: sum.split prod.split)

lemma Authenticate_decides_keyspace:
  assumes "TrimSpace sid \<noteq> []"
    "\<nexists>z d. held (w_now w) (w_redis w) (Key (im_ns im) (sessionDataKey (TrimSpace sid))) = Some (Sorted z, d)"
  shows "calmly (Authenticate im sid ua mt pth) w = auth_decision im w (TrimSpace sid) ua mt pth"
proof (cases "snapshot_at im (w_redis w) (w_now w) (TrimSpace sid)")
  case None
  then show ?thesis
    using assms calm_loadSession(1) [of w im "TrimSpace sid"]
    by (simp add: Authenticate_def Let_def calmly_pbind rejected_def auth_decision_def)
next
  case (Some s)
  let ?x = "TrimSpace sid"
  have "calmly (Authenticate im sid ua mt pth) w = calmly (authenticate_snapshot im ?x ua mt pth s) w"
    using assms calm_loadSession [of w im ?x] Some by (simp add: Authenticate_def Let_def calmly_pbind)
  also have "\<dots> = auth_decision im w ?x ua mt pth"
  proof (cases "ValidateSession (w_now w) ?x s = None \<and> deviceMismatch im s ua = []")
    case True
    then have ok: "s_ID s = ?x" "s_UserID s \<noteq> []" "\<not> IsZero (s_ExpiresAt s)" "w_now w < s_ExpiresAt s" "same_device im s ua"
      by (auto simp: ValidateSession_iff deviceMismatch_iff)
    have "calmly (authenticate_snapshot im ?x ua mt pth s) w =
        calmly (authenticate_user im ?x mt pth (calmly (ValidateSessionUserState im s) w))
          (snd (snd (exec redis_command (ValidateSessionUserState im s) (\<lambda>_. calm) w)))"
      using True by (simp add: authenticate_snapshot_def calmly_pbind)
    also have "\<dots> = auth_decision im w ?x ua mt pth"
      using ok Some
      by (simp add: calm_authenticate_user calm_user_state auth_decision_def ensureSessionUserActive_def split: option.split)
    finally show ?thesis .
  next
    case False
    then have "\<not> (s_ID s = ?x \<and> s_UserID s \<noteq> [] \<and> \<not> IsZero (s_ExpiresAt s) \<and> w_now w < s_ExpiresAt s \<and> same_device im s ua)"
      using assms(1) by (auto simp: ValidateSession_iff deviceMismatch_iff)
    then show ?thesis
      using False Some by (auto simp: authenticate_snapshot_def auth_decision_def rejected_def calmly_const split: option.split)
  qed
  finally show ?thesis .
qed

text \<open>
  C14: With the store and the database in working order, the answer to a request is exactly the decision
  the stored snapshot, the calling device and the state of the user call for at that moment, admission
  included; there is nothing else it depends on.
\<close>

theorem authenticate_decides:
  assumes "healthy_redis serve view" "TrimSpace sid \<noteq> []"
    and "\<nexists>z d. held (w_now w) (view (w_redis w)) (Key (im_ns im) (sessionDataKey (TrimSpace sid))) = Some (Sorted z, d)"
  shows "fst (exec serve (Authenticate im sid ua mt pth) (\<lambda>_. calm) w) =
    auth_decision im \<lparr>w_now = w_now w, w_redis = view (w_redis w), w_db = w_db w\<rparr> (TrimSpace sid) ua mt pth"
proof -
  let ?p = "Authenticate im sid ua mt pth"
  have rs: "redis_server serve view" using assms(1) by (rule healthy_redis.axioms)
  have seen: "redis_server.seen view w = \<lparr>w_now = w_now w, w_redis = view (w_redis w), w_db = w_db w\<rparr>"
    by (rule redis_server.seen_def [OF rs])
  obtain a e' w' where x: "exec serve ?p (\<lambda>_. calm) w = (a, e', w')" by (metis prod_cases3)
  have "a = calmly ?p (redis_server.seen view w)" using healthy_redis.exec_healthy [OF assms(1) x] by simp
  also have "\<dots> = auth_decision im (redis_server.seen view w) (TrimSpace sid) ua mt pth"
    by (rule Authenticate_decides_keyspace [OF assms(2)]) (use assms(3) in \<open>simp add: seen\<close>)
  finally show ?thesis using x seen by simp
qed

section \<open>A revoked session stays revoked\<close>

datatype iam_request =
    RqAuthenticate string string string string
  | RqSessionList iam_ctx
  | RqSessionGet iam_ctx
  | RqSessionDelete iam_ctx
  | RqSessionDeleteAll iam_ctx
  | RqCurrentDelete iam_ctx
  | RqCurrentGet iam_ctx
  | RqAdminSessionList iam_ctx "iam_error + int option"
  | RqAdminUserSessionList iam_ctx "iam_error + int option"
  | RqAdminSessionGet iam_ctx
  | RqAdminSessionDelete iam_ctx
  | RqAdminUserSessionDelete iam_ctx
  | RqLogin "string option" iam_ctx login_req
  | RqLogout iam_ctx
  | RqChangePassword iam_ctx string string
  | RqResetPassword iam_ctx string string

definition silently :: "('d, 'a) prog \<Rightarrow> ('d, unit) prog" where
  "silently p = pbind p (\<lambda>_. Ret ())"

fun handle_request ::
  "iam \<Rightarrow> iam_authz \<Rightarrow> login_cfg \<Rightarrow> (string \<Rightarrow> string \<Rightarrow> string \<Rightarrow> (iam_error option) iam_prog) \<Rightarrow> iam_request \<Rightarrow> unit iam_prog" where
  "handle_request im az lc vf (RqAuthenticate sid ua mt pth) = silently (Authenticate im sid ua mt pth)"
| "handle_request im az lc vf (RqSessionList cx) = silently (SessionList im cx)"
| "handle_request im az lc vf (RqSessionGet cx) = silently (SessionGet im cx)"
| "handle_request im az lc vf (RqSessionDelete cx) = silently (SessionDelete im cx)"
| "handle_request im az lc vf (RqSessionDeleteAll cx) = silently (SessionDeleteAll im cx)"
| "handle_request im az lc vf (RqCurrentDelete cx) = silently (CurrentDelete im cx)"
| "handle_request im az lc vf (RqCurrentGet cx) = silently (CurrentGet im az cx)"
| "handle_request im az lc vf (RqAdminSessionList cx online) = silently (AdminSessionList im az cx online)"
| "handle_request im az lc vf (RqAdminUserSessionList cx online) = silently (AdminUserSessionList im az cx online)"
| "handle_request im az lc vf (RqAdminSessionGet cx) = silently (AdminSessionGet im az cx)"
| "handle_request im az lc vf (RqAdminSessionDelete cx) = silently (AdminSessionDelete im az cx)"
| "handle_request im az lc vf (RqAdminUserSessionDelete cx) = silently (AdminUserSessionDelete im az cx)"
| "handle_request im az lc vf (RqLogin newID cx rq) = silently (Login im az lc vf newID cx rq)"
| "handle_request im az lc vf (RqLogout cx) = silently (Logout im cx)"
| "handle_request im az lc vf (RqChangePassword cx old new) = silently (ChangePassword im lc cx old new)"
| "handle_request im az lc vf (RqResetPassword cx u new) = silently (ResetPassword im az lc cx u new)"

fun new_session_id :: "iam_request \<Rightarrow> string option" where
  "new_session_id (RqLogin newID cx rq) = newID"
| "new_session_id _ = None"

lemmas never_stores_store = never_stores_reads never_stores_deletes never_stores_bulk

lemma never_stores_current: "never_stores im x (CurrentSession im cx)"
  by (auto simp: CurrentSession_def validated_def never_stores_store intro!: issues_pbind split: sum.splits option.splits)

lemma never_stores_with_current: "(\<And>i s. never_stores im x (f i s)) \<Longrightarrow> never_stores im x (with_current im cx f)"
  by (auto simp: with_current_def never_stores_current intro!: issues_pbind split: sum.splits)

lemma never_stores_SessionList_loop: "never_stores im x (SessionList_loop im cid cur ids items)"
  by (induction im cid cur ids items rule: SessionList_loop.induct)
     (auto simp: never_stores_store intro!: issues_pbind split: sum.splits option.splits)

lemma never_stores_session_endpoints:
  "never_stores im x (SessionList im cx)" "never_stores im x (SessionGet im cx)" "never_stores im x (SessionDelete im cx)"
  "never_stores im x (SessionDeleteAll im cx)" "never_stores im x (CurrentDelete im cx)" "never_stores im x (Logout im cx)"
  by (auto simp: SessionList_def SessionGet_def SessionDelete_def SessionDeleteAll_def CurrentDelete_def Logout_def Let_def
      never_stores_store never_stores_SessionList_loop
      intro!: issues_pbind never_stores_with_current split: sum.splits option.splits)

lemma never_stores_rows: "never_stores im x (get_user u)" "never_stores im x (LoadPasswordCredential u)"
  by (auto simp: get_user_def LoadPasswordCredential_def loadSessionPasswordCredential_def issues_simps intro!: issues_pbind)

lemma never_stores_actors:
  "never_stores im x (loadAdminSessionActor im cx)" "never_stores im x (ensureAdminSessionActor im az cx)"
  "never_stores im x (ensureAdminSessionTarget im az cx u)" "never_stores im x (LoadActorAndTarget im cx i)"
  "never_stores im x (ApplyPasswordCredentialUpdate lc c p m)"
  by (auto simp: loadAdminSessionActor_def ensureAdminSessionActor_def ensureAdminSessionTarget_def LoadActorAndTarget_def LoadActor_def
      ApplyPasswordCredentialUpdate_def never_stores_current never_stores_rows intro!: issues_pbind split: sum.splits)

lemma never_stores_owner: "never_stores im x (loadSessionPasswordCredential u)" "never_stores im x (loadSessionEmail u)" "never_stores im x (buildItem im s)"
  by (auto simp: loadSessionPasswordCredential_def loadSessionEmail_def buildItem_def issues_simps never_stores_rows never_stores_store
      intro!: issues_pbind split: sum.splits)

lemma never_stores_buildView_loop: "never_stores im x (buildView_loop im user iu cid online ids views)"
  by (induction im user iu cid online ids views rule: buildView_loop.induct)
     (auto simp: never_stores_store intro!: issues_pbind split: sum.splits)

lemma never_stores_AdminSessionList_loop: "never_stores im x (AdminSessionList_loop im online ids owners sessionTotal)"
  by (induction im online ids owners sessionTotal rule: AdminSessionList_loop.induct)
     (auto simp: never_stores_store never_stores_owner intro!: issues_pbind split: sum.splits option.splits)

lemma never_stores_buildView: "never_stores im x (buildView im user cid online)"
  by (auto simp: buildView_def Let_def never_stores_store never_stores_owner never_stores_buildView_loop
      intro!: issues_pbind split: sum.splits option.splits)

lemma never_stores_admin:
  "never_stores im x (AdminSessionDelete im az cx)" "never_stores im x (AdminUserSessionDelete im az cx)"
  "never_stores im x (AdminSessionGet im az cx)" "never_stores im x (AdminSessionList im az cx online)"
  "never_stores im x (AdminUserSessionList im az cx online)" "never_stores im x (CurrentGet im az cx)"
  by (auto simp: AdminSessionDelete_def AdminUserSessionDelete_def AdminSessionGet_def AdminSessionList_def AdminUserSessionList_def
      CurrentGet_def Let_def never_stores_store never_stores_actors never_stores_rows never_stores_owner never_stores_buildView
      never_stores_AdminSessionList_loop
      intro!: issues_pbind never_stores_with_current split: sum.splits option.splits)

lemma never_stores_passwords:
  "never_stores im x (ChangePassword im lc cx old new)" "never_stores im x (ResetPassword im az lc cx u new)"
  by (auto simp: ChangePassword_def ResetPassword_def never_stores_store never_stores_actors never_stores_rows
      intro!: issues_pbind never_stores_with_current split: sum.splits option.splits credential_error.splits)

lemma never_stores_open_session:
  assumes "clear_namespace (im_ns im)" "newID \<noteq> Some x"
  shows "never_stores im x (open_session im cx user c tid newID)"
  using assms
  by (auto simp: open_session_def Let_def login_session_def never_stores_store never_stores_writes
      intro!: issues_pbind never_stores_SaveSession split: option.splits)

lemma never_stores_Login:
  assumes "clear_namespace (im_ns im)" "newID \<noteq> Some x" "\<And>u a b. never_stores im x (vf u a b)"
  shows "never_stores im x (Login im az lc vf newID cx rq)"
  using assms
  by (auto simp: Login_def Let_def ensureLoginNotLockedOut_def recordLoginFailure_def verifyLoginSecondFactor_def issues_simps
      never_stores_store never_stores_rows never_stores_writes
      intro!: issues_pbind never_stores_open_session split: sum.splits option.splits)

lemma never_stores_handle:
  assumes "clear_namespace (im_ns im)" "new_session_id rq \<noteq> Some x" "\<And>u a b. never_stores im x (vf u a b)"
  shows "never_stores im x (handle_request im az lc vf rq)"
  using assms
  by (cases rq) (auto simp: silently_def never_stores_session_endpoints never_stores_admin never_stores_passwords never_stores_Login
      never_stores_Authenticate intro!: issues_pbind)

lemma authenticate_needs_snapshot:
  assumes "redis_server serve view" "x = TrimSpace x" and gone: "held (w_now w) (view (w_redis w)) (Key (im_ns im) (sessionDataKey x)) = None"
  shows "fst (exec serve (Authenticate im x ua mt pth) e w) \<noteq> Inr s"
proof
  assume "fst (exec serve (Authenticate im x ua mt pth) e w) = Inr s"
  then obtain e' w' where "exec serve (Authenticate im x ua mt pth) e w = (Inr s, e', w')"
    by (cases "exec serve (Authenticate im x ua mt pth) e w") auto
  from authenticate_admits_aux [OF assms(1) this] obtain s0 t where "w_now w \<le> t" "stored_snapshot im (view (w_redis w)) t x s0"
    using assms(2) by auto
  then show False using held_None_later [OF gone] by (auto simp: stored_snapshot_def)
qed

text \<open>
  C12: Once the snapshot of a session is gone, no interleaving of requests in progress brings it back: not a
  request that read it before it was deleted and records its activity afterwards, not a login, nor any
  other handler, whatever is lost or repeated on the way. And no request is admitted under it again.
  What is assumed of the random ids is that no login draws the revoked one, and of the installed
  second-factor verifier that it does not write session snapshots.
\<close>

theorem revoked_stays_revoked:
  assumes "redis_server serve view" "clear_namespace (im_ns im)" "x = TrimSpace x"
    and fresh: "\<forall>rq\<in>set rqs. new_session_id rq \<noteq> Some x" and verifier: "\<forall>u a b. never_stores im x (vf u a b)"
    and before: "run_pool serve sched1 (map (handle_request im az lc vf) rqs, w) = (ps1, w1)"
    and revoked: "held (w_now w1) (view (w_redis w1)) (Key (im_ns im) (sessionDataKey x)) = None"
    and afterwards: "run_pool serve sched2 (ps1, w1) = (ps2, w2)"
  shows "held (w_now w2) (view (w_redis w2)) (Key (im_ns im) (sessionDataKey x)) = None \<and>
    (\<forall>ua mt pth e s. fst (exec serve (Authenticate im x ua mt pth) e w2) \<noteq> Inr s)"
proof -
  have "\<forall>p\<in>set (map (handle_request im az lc vf) rqs). never_stores im x p"
    using never_stores_handle [OF assms(2)] fresh verifier by auto
  then have "\<forall>p\<in>set ps1. never_stores im x p" using before by (rule pool_issues)
  then have gone: "held (w_now w2) (view (w_redis w2)) (Key (im_ns im) (sessionDataKey x)) = None"
    using redis_server.pool_absent [OF assms(1) revoked _ afterwards] by blast
  have "fst (exec serve (Authenticate im x ua mt pth) e w2) \<noteq> Inr s" for ua mt pth e s
    by (rule authenticate_needs_snapshot [OF assms(1,3) gone])
  then show ?thesis using gone by blast
qed

end
