(* ===== verification/Iam_Tracking.thy ===== *)
theory Iam_Tracking
  imports Iam_Authenticate
begin

text \<open>
  The promise behind revocation: as long as a session can be used, the index of its user names it, so
  that ending all sessions of a user ends it too. A login that reports success has put its session
  there, every handler leaves it there or deletes the session, and a bulk revocation that reports
  success has deleted every session the index named.
\<close>

section \<open>Triples\<close>

text \<open>Every run of a program from a state that satisfies the first condition ends in one that satisfies the second.\<close>

definition triple :: "((keyspace, 'd) world \<Rightarrow> bool) \<Rightarrow> ('d, 'a) prog \<Rightarrow> ('a \<Rightarrow> (keyspace, 'd) world \<Rightarrow> bool) \<Rightarrow> bool" where
  "triple P p Q \<longleftrightarrow> (\<forall>e w a e' w'. P w \<longrightarrow> exec redis_command p e w = (a, e', w') \<longrightarrow> Q a w')"

lemma triple_Ret: "(\<And>w. P w \<Longrightarrow> Q a w) \<Longrightarrow> triple P (Ret a) Q"
  by (simp add: triple_def)

lemma triple_pbind: "triple P m R \<Longrightarrow> (\<And>a. triple (R a) (f a) Q) \<Longrightarrow> triple P (pbind m f) Q"
  by (auto simp: triple_def elim!: exec_pbindE) blast

lemma triple_Now:
  "(\<And>w t. P w \<Longrightarrow> w_now w \<le> t \<Longrightarrow> R t (w\<lparr>w_now := t\<rparr>)) \<Longrightarrow> (\<And>t. triple (R t) (k t) Q) \<Longrightarrow> triple P (Now k) Q"
  unfolding triple_def by (intro allI impI, erule exec_NowE) blast

lemma triple_Redis:
  "(\<And>ch w r w'. P w \<Longrightarrow> redis_call redis_command ch c w = (r, w') \<Longrightarrow> R r w') \<Longrightarrow> (\<And>r. triple (R r) (k r) Q) \<Longrightarrow> triple P (Redis c k) Q"
  by (auto simp: triple_def split: prod.splits) blast

lemma triple_weaken: "triple P p Q \<Longrightarrow> (\<And>w. P' w \<Longrightarrow> P w) \<Longrightarrow> (\<And>a w. Q a w \<Longrightarrow> Q' a w) \<Longrightarrow> triple P' p Q'"
  by (auto simp: triple_def) blast

lemma triple_read: "(\<And>w t. P w \<Longrightarrow> w_now w \<le> t \<Longrightarrow> P (w\<lparr>w_now := t\<rparr>)) \<Longrightarrow> triple P (db_read failed f) (\<lambda>_. P)"
  by (auto simp: triple_def elim!: exec_db_readE)

text \<open>A condition on the clock and the keys that only weakens with time, and commands that keep it.\<close>

definition holds :: "(int \<Rightarrow> keyspace \<Rightarrow> bool) \<Rightarrow> (keyspace, 'd) world \<Rightarrow> bool" where
  "holds J w \<longleftrightarrow> J (w_now w) (w_redis w)"

definition ages :: "(int \<Rightarrow> keyspace \<Rightarrow> bool) \<Rightarrow> bool" where
  "ages J \<longleftrightarrow> (\<forall>t t' ks. J t ks \<longrightarrow> t \<le> t' \<longrightarrow> J t' ks)"

definition keeps :: "(int \<Rightarrow> keyspace \<Rightarrow> bool) \<Rightarrow> command \<Rightarrow> bool" where
  "keeps J c \<longleftrightarrow> (\<forall>t ks. J t ks \<longrightarrow> J t (snd (redis_command c t ks)))"

lemma resend_keeps:
  assumes "keeps J c" "ages J" "resend redis_command c ds t k = (t', k')" "J t k"
  shows "J t' k'"
  using assms(3,4)
proof (induction ds arbitrary: t k)
  case (Cons d ds)
  have "J t (snd (redis_command c t k))" using assms(1) Cons.prems(2) by (simp add: keeps_def)
  then have "J (t + int d) (snd (redis_command c t k))" using assms(2) unfolding ages_def by (metis le_add_same_cancel1 of_nat_0_le_iff)
  then show ?case using Cons.IH Cons.prems(1) by simp
qed simp

lemma call_keeps:
  assumes "keeps J c" "ages J" "redis_call redis_command ch c w = (r, w')" "holds J w"
  shows "holds J w'" "r \<noteq> R_failed \<Longrightarrow> \<exists>ks. J (w_now w') ks \<and> redis_command c (w_now w') ks = (r, w_redis w')"
proof -
  obtain t k where s: "resend redis_command c (ch_lost ch) (w_now w + int (ch_delay ch)) (w_redis w) = (t, k)" by fastforce
  have "J (w_now w + int (ch_delay ch)) (w_redis w)" using assms(2,4) unfolding ages_def holds_def by (metis le_add_same_cancel1 of_nat_0_le_iff)
  then have j: "J t k" using resend_keeps [OF assms(1,2) s] by blast
  obtain r1 k1 where a: "redis_command c t k = (r1, k1)" by fastforce
  have "J t k1" using assms(1) j a unfolding keeps_def by (metis snd_conv)
  then show "holds J w'" using assms(3) s a j by (auto simp: redis_call_def holds_def split: if_splits)
  show "r \<noteq> R_failed \<Longrightarrow> \<exists>ks. J (w_now w') ks \<and> redis_command c (w_now w') ks = (r, w_redis w')"
    using assms(3) s a j by (auto simp: redis_call_def split: if_splits)
qed

lemma holds_ages: "ages J \<Longrightarrow> holds J w \<Longrightarrow> w_now w \<le> t \<Longrightarrow> holds J (w\<lparr>w_now := t\<rparr>)"
  by (auto simp: holds_def ages_def)

lemma triple_issues:
  assumes "issues (keeps J) p" "ages J"
  shows "triple (holds J) p (\<lambda>_. holds J)"
proof -
  have "exec redis_command p e w = (a, e', w') \<Longrightarrow> holds J w \<Longrightarrow> holds J w'" for e w a e' w'
    using assms(1)
  proof (induction p arbitrary: e w rule: prog_induct)
    case (Redis c k)
    obtain r w1 where c: "redis_call redis_command (e 0) c w = (r, w1)" by fastforce
    then have "holds J w1" using call_keeps(1) [OF _ assms(2) c] Redis.prems by simp
    then show ?case using Redis c by simp
  next
    case (Now k)
    have "holds J (snd (clock_call (e 0) w))" using holds_ages [OF assms(2) Now.prems(2)] by (simp add: clock_call_def)
    then show ?case using Now by (auto split: prod.splits)
  next
    case (Db u k)
    have "holds J (db_call (e 0) u w)" using holds_ages [OF assms(2) Db.prems(2)] by (simp add: db_call_def holds_def)
    then show ?case using Db.IH [of "ch_answered (e 0)" "w_db w" "\<lambda>n. e (Suc n)" "db_call (e 0) u w"] Db.prems by simp
  qed simp
  then show ?thesis by (auto simp: triple_def)
qed

section \<open>Tracked sessions\<close>

text \<open>
  A session that expires at one instant is tracked when the index of its user names it with that
  instant and does not expire before it. It is live while the millisecond of its expiry lies ahead.
\<close>

definition live_until :: "int \<Rightarrow> int \<Rightarrow> bool" where
  "live_until T t \<longleftrightarrow> UnixMilli t < UnixMilli T"

definition tracked :: "iam \<Rightarrow> string \<Rightarrow> string \<Rightarrow> int \<Rightarrow> keyspace \<Rightarrow> bool" where
  "tracked im u x T ks \<longleftrightarrow>
     (\<exists>z d. ks (Key (im_ns im) (sessionIndexUserKey u)) = Some (Sorted z, d) \<and> zmember z x = Some (UnixMilli T) \<and>
        (\<forall>dl. d = Some dl \<longrightarrow> T \<le> dl))"

definition owned_by :: "iam \<Rightarrow> string \<Rightarrow> string \<Rightarrow> int \<Rightarrow> keyspace \<Rightarrow> bool" where
  "owned_by im u x t ks \<longleftrightarrow> (\<forall>s. stored_snapshot im ks t x s \<longrightarrow> s_UserID s = u)"

definition gone :: "iam \<Rightarrow> string \<Rightarrow> int \<Rightarrow> keyspace \<Rightarrow> bool" where
  "gone im x t ks \<longleftrightarrow> held t ks (Key (im_ns im) (sessionDataKey x)) = None"

definition tracked_or_gone :: "iam \<Rightarrow> string \<Rightarrow> string \<Rightarrow> int \<Rightarrow> int \<Rightarrow> keyspace \<Rightarrow> bool" where
  "tracked_or_gone im u x T t ks \<longleftrightarrow> (live_until T t \<longrightarrow> gone im x t ks \<or> (tracked im u x T ks \<and> owned_by im u x t ks))"

definition gone_while_live :: "iam \<Rightarrow> string \<Rightarrow> int \<Rightarrow> int \<Rightarrow> keyspace \<Rightarrow> bool" where
  "gone_while_live im x T t ks \<longleftrightarrow> (live_until T t \<longrightarrow> gone im x t ks)"

lemma live_until_earlier: "live_until T t' \<Longrightarrow> t \<le> t' \<Longrightarrow> live_until T t"
  unfolding live_until_def UnixMilli_def nsPerMilli_def by (meson le_less_trans zero_less_numeral zdiv_mono1)

lemma live_until_less: "live_until T t \<Longrightarrow> t < T"
  unfolding live_until_def UnixMilli_def nsPerMilli_def by (meson leD le_less_linear zdiv_mono1 zero_less_numeral)

lemma ages_gone: "ages (gone im x)"
  by (auto simp: ages_def gone_def intro: held_None_later)

lemma ages_gone_while_live: "ages (gone_while_live im x T)"
  unfolding ages_def gone_while_live_def using ages_gone live_until_earlier by (metis ages_def)

lemma ages_tracked_or_gone: "ages (tracked_or_gone im u x T)"
proof -
  have "owned_by im u x t ks \<Longrightarrow> t \<le> t' \<Longrightarrow> owned_by im u x t' ks" for t t' ks
    by (auto simp: owned_by_def stored_snapshot_def dest: held_later)
  then show ?thesis
    unfolding ages_def tracked_or_gone_def using ages_gone live_until_earlier by (metis ages_def)
qed

lemma gone_while_live_tracked: "gone_while_live im x T t ks \<Longrightarrow> tracked_or_gone im u x T t ks"
  by (simp add: gone_while_live_def tracked_or_gone_def)

lemma gone_keeps:
  assumes "\<not> creates (Key (im_ns im) (sessionDataKey x)) c"
  shows "keeps (gone im x) c" "keeps (gone_while_live im x T) c"
proof -
  have "gone im x t ks \<Longrightarrow> gone im x t (snd (redis_command c t ks))" for t ks
    using command_absent [OF _ _ assms] by (metis gone_def prod.collapse)
  then show "keeps (gone im x) c" "keeps (gone_while_live im x T) c" by (auto simp: keeps_def gone_while_live_def)
qed

subsection \<open>Commands\<close>

lemma zmember_filter: "zmember z x = Some sc \<Longrightarrow> P (x, sc) \<Longrightarrow> zmember (filter P z) x = Some sc"
  by (induction z) (auto simp: zmember_def split: if_splits)

lemma zmember_remove: "zmember (zremove y z) x = (if y = x then None else zmember z x)"
  by (induction z) (auto simp: zmember_def zremove_def)

lemma zmember_insert: "zmember (zremove y z) y = None \<Longrightarrow> zmember (zinsert y s (zremove y z)) x = (if y = x then Some s else zmember (zremove y z) x)"
proof -
  have "zmember w y = None \<Longrightarrow> zmember (zinsert y s w) x = (if y = x then Some s else zmember w x)" for w
    by (induction w) (auto simp: zmember_def split: if_splits)
  then show "zmember (zremove y z) y = None \<Longrightarrow> ?thesis" by blast
qed

lemma zmember_zadd: "zmember (zadd y s z) x = (if y = x then Some s else zmember z x)"
  using zmember_insert [of y z s x] by (simp add: zadd_def zmember_remove)

text \<open>What keeps the index entry, and what keeps the owner of the snapshot.\<close>

lemma tracked_held:
  "tracked im u x T ks \<Longrightarrow> live_until T t \<Longrightarrow>
   \<exists>z d. held t ks (Key (im_ns im) (sessionIndexUserKey u)) = Some (Sorted z, d) \<and>
     ks (Key (im_ns im) (sessionIndexUserKey u)) = Some (Sorted z, d) \<and> zmember z x = Some (UnixMilli T) \<and> (\<forall>dl. d = Some dl \<longrightarrow> T \<le> dl)"
  by (fastforce simp: tracked_def held_def dest!: live_until_less split: option.split)

text \<open>
  Commands that leave a tracked session tracked, sent at or after the instant \<open>t0\<close>: no removal of the
  session from its index, no deletion of the index, no pruning beyond the clock, no expiry of the index
  before the session's own, and no snapshot of it that names another owner.
\<close>

fun harmless :: "iam \<Rightarrow> string \<Rightarrow> string \<Rightarrow> int \<Rightarrow> int \<Rightarrow> command \<Rightarrow> bool" where
  "harmless im u x T t0 (SETXX y v ttl) \<longleftrightarrow>
     y \<noteq> Key (im_ns im) (sessionIndexUserKey u) \<and>
     (y = Key (im_ns im) (sessionDataKey x) \<longrightarrow> (\<forall>s. im_dec im v = Some s \<longrightarrow> s_UserID s = u))"
| "harmless im u x T t0 (DEL ys) \<longleftrightarrow> Key (im_ns im) (sessionIndexUserKey u) \<notin> set ys"
| "harmless im u x T t0 (ZADD y s ms) \<longleftrightarrow>
     y \<noteq> Key (im_ns im) (sessionDataKey x) \<and> (y = Key (im_ns im) (sessionIndexUserKey u) \<longrightarrow> x \<notin> set ms)"
| "harmless im u x T t0 (ZREM y ms) \<longleftrightarrow>
     y \<noteq> Key (im_ns im) (sessionDataKey x) \<and> (y = Key (im_ns im) (sessionIndexUserKey u) \<longrightarrow> x \<notin> set ms)"
| "harmless im u x T t0 (ZREMRANGEBYSCORE y hi) \<longleftrightarrow>
     y \<noteq> Key (im_ns im) (sessionDataKey x) \<and> (y = Key (im_ns im) (sessionIndexUserKey u) \<longrightarrow> hi \<le> UnixMilli t0)"
| "harmless im u x T t0 (EXPIRE y ttl) \<longleftrightarrow>
     y \<noteq> Key (im_ns im) (sessionDataKey x) \<and> (y = Key (im_ns im) (sessionIndexUserKey u) \<longrightarrow> 0 < ttl \<and> T \<le> t0 + ttl)"
| "harmless im u x T t0 (GET y) \<longleftrightarrow> True"
| "harmless im u x T t0 (ZRANGE y) \<longleftrightarrow> True"
| "harmless im u x T t0 (ZRANGEBYSCORE y lo) \<longleftrightarrow> True"
| "harmless im u x T t0 c \<longleftrightarrow> \<not> names (Key (im_ns im) (sessionDataKey x)) c \<and> \<not> names (Key (im_ns im) (sessionIndexUserKey u)) c"

lemma zmember_fold_zadd: "x \<notin> set ms \<Longrightarrow> zmember (fold (\<lambda>m. zadd m s) ms z) x = zmember z x"
  by (induction ms arbitrary: z) (auto simp: zmember_zadd)

lemma zmember_fold_zremove: "x \<notin> set ms \<Longrightarrow> zmember (fold zremove ms z) x = zmember z x"
  by (induction ms arbitrary: z) (auto simp: zmember_remove)

lemma keep_sorted_member: "zmember z x = Some sc \<Longrightarrow> keep_sorted z d = Some (Sorted z, d)"
  by (auto simp: keep_sorted_def zmember_def)

lemma harmless_tracked:
  assumes "harmless im u x T t0 c" "t0 \<le> t" "live_until T t" "tracked im u x T ks"
  shows "tracked im u x T (snd (redis_command c t ks))"
proof (cases "names (Key (im_ns im) (sessionIndexUserKey u)) c")
  case False
  then have "snd (redis_command c t ks) (Key (im_ns im) (sessionIndexUserKey u)) = ks (Key (im_ns im) (sessionIndexUserKey u))"
    using command_other by (metis prod.collapse)
  then show ?thesis using assms(4) by (simp add: tracked_def)
next
  case True
  let ?k = "Key (im_ns im) (sessionIndexUserKey u)"
  obtain z d where h: "held t ks ?k = Some (Sorted z, d)" "ks ?k = Some (Sorted z, d)" "zmember z x = Some (UnixMilli T)"
      "\<forall>dl. d = Some dl \<longrightarrow> T \<le> dl" using tracked_held [OF assms(4,3)] by blast
  show ?thesis
  proof (cases c)
    case (ZADD y s ms)
    then have y: "y = ?k" "x \<notin> set ms" using True assms(1) by auto
    then have m: "zmember (fold (\<lambda>m. zadd m s) ms z) x = Some (UnixMilli T)" using h(3) by (simp add: zmember_fold_zadd)
    show ?thesis using ZADD y h m keep_sorted_member [OF m] by (auto simp: tracked_def)
  next
    case (ZREM y ms)
    then have y: "y = ?k" "x \<notin> set ms" using True assms(1) by auto
    then have m: "zmember (fold zremove ms z) x = Some (UnixMilli T)" using h(3) by (simp add: zmember_fold_zremove)
    show ?thesis using ZREM y h m keep_sorted_member [OF m] by (auto simp: tracked_def)
  next
    case (ZREMRANGEBYSCORE y hi)
    have "UnixMilli t0 \<le> UnixMilli t" using assms(2) by (simp add: UnixMilli_def nsPerMilli_def zdiv_mono1)
    then have "hi < UnixMilli T" using ZREMRANGEBYSCORE True assms(1,3) by (auto simp: live_until_def)
    then have m: "zmember (filter (\<lambda>e. hi < snd e) z) x = Some (UnixMilli T)" using h(3) by (simp add: zmember_filter)
    show ?thesis using ZREMRANGEBYSCORE True h m keep_sorted_member [OF m] by (auto simp: tracked_def)
  next
    case (EXPIRE y ttl)
    then show ?thesis using True assms h by (auto simp: tracked_def)
  qed (use True assms h in \<open>auto simp: tracked_def\<close>)
qed

lemma harmless_owned:
  assumes "harmless im u x T t0 c" "owned_by im u x t ks"
  shows "owned_by im u x t (snd (redis_command c t ks))"
proof (cases "names (Key (im_ns im) (sessionDataKey x)) c")
  case False
  then have "snd (redis_command c t ks) (Key (im_ns im) (sessionDataKey x)) = ks (Key (im_ns im) (sessionDataKey x))"
    using command_other by (metis prod.collapse)
  then show ?thesis using assms(2) by (simp add: owned_by_def stored_snapshot_def held_def)
next
  case True
  then show ?thesis
    using assms by (cases c) (auto simp: owned_by_def stored_snapshot_def held_def split: option.splits prod.splits rvalue.splits if_splits)
qed

lemma harmless_not_creates: "harmless im u x T t0 c \<Longrightarrow> \<not> creates (Key (im_ns im) (sessionDataKey x)) c"
  by (cases c) auto

definition on_watch :: "iam \<Rightarrow> string \<Rightarrow> string \<Rightarrow> int \<Rightarrow> int \<Rightarrow> int \<Rightarrow> keyspace \<Rightarrow> bool" where
  "on_watch im u x T t0 t ks \<longleftrightarrow> t0 \<le> t \<and> tracked_or_gone im u x T t ks"

lemma ages_on_watch: "ages (on_watch im u x T t0)"
  using ages_tracked_or_gone [of im u x T] by (auto simp: ages_def on_watch_def)

lemma harmless_keeps: "harmless im u x T t0 c \<Longrightarrow> keeps (on_watch im u x T t0) c"
  using harmless_tracked harmless_owned gone_keeps(1) [OF harmless_not_creates]
  by (fastforce simp: keeps_def on_watch_def tracked_or_gone_def)

subsection \<open>Programs that guard a session\<close>

definition guards :: "iam \<Rightarrow> string \<Rightarrow> string \<Rightarrow> int \<Rightarrow> int \<Rightarrow> (accounts, 'a) prog \<Rightarrow> bool" where
  "guards im u x T t0 p \<longleftrightarrow> (\<forall>t\<ge>t0. triple (holds (on_watch im u x T t)) p (\<lambda>_. holds (on_watch im u x T t)))"

lemma guardsI: "(\<And>t. t0 \<le> t \<Longrightarrow> triple (holds (on_watch im u x T t)) p (\<lambda>_. holds (on_watch im u x T t))) \<Longrightarrow> guards im u x T t0 p"
  by (simp add: guards_def)

lemma guards_mono: "guards im u x T t0 p \<Longrightarrow> t0 \<le> t \<Longrightarrow> guards im u x T t p"
  by (simp add: guards_def)

lemma on_watch_earlier: "holds (on_watch im u x T t) w \<Longrightarrow> t0 \<le> t \<Longrightarrow> holds (on_watch im u x T t0) w"
  by (simp add: holds_def on_watch_def)

lemma on_watch_now: "holds (on_watch im u x T t0) w \<Longrightarrow> holds (on_watch im u x T (w_now w)) w"
  by (simp add: holds_def on_watch_def)

lemma harmless_mono: "harmless im u x T t0 c \<Longrightarrow> t0 \<le> t \<Longrightarrow> harmless im u x T t c"
proof -
  assume "harmless im u x T t0 c" "t0 \<le> t"
  moreover have "UnixMilli t0 \<le> UnixMilli t" using \<open>t0 \<le> t\<close> by (simp add: UnixMilli_def nsPerMilli_def zdiv_mono1)
  ultimately show ?thesis by (cases c) auto
qed

lemma guards_Ret: "guards im u x T t0 (Ret a)"
  by (auto simp: guards_def intro: triple_Ret)

lemma guards_pbind: "guards im u x T t0 m \<Longrightarrow> (\<And>a. guards im u x T t0 (f a)) \<Longrightarrow> guards im u x T t0 (pbind m f)"
  unfolding guards_def by (blast intro: triple_pbind)

lemma guards_Now: "(\<And>t. t0 \<le> t \<Longrightarrow> guards im u x T t (k t)) \<Longrightarrow> guards im u x T t0 (Now k)"
proof (rule guardsI)
  fix t1 assume k: "\<And>t. t0 \<le> t \<Longrightarrow> guards im u x T t (k t)" and t1: "t0 \<le> t1"
  show "triple (holds (on_watch im u x T t1)) (Now k) (\<lambda>_. holds (on_watch im u x T t1))"
  proof (rule triple_Now [where R = "\<lambda>t w. t1 \<le> t \<and> holds (on_watch im u x T t) w"])
    fix w t assume "holds (on_watch im u x T t1) w" "w_now w \<le> t"
    then show "t1 \<le> t \<and> holds (on_watch im u x T t) (w\<lparr>w_now := t\<rparr>)"
      using holds_ages [OF ages_on_watch, of im u x T "w_now w" w t] by (auto simp: holds_def on_watch_def)
  next
    fix t
    show "triple (\<lambda>w. t1 \<le> t \<and> holds (on_watch im u x T t) w) (k t) (\<lambda>_. holds (on_watch im u x T t1))"
    proof (cases "t1 \<le> t")
      case True
      then have "triple (holds (on_watch im u x T t)) (k t) (\<lambda>_. holds (on_watch im u x T t))" using k [of t] t1 by (simp add: guards_def)
      then show ?thesis by (rule triple_weaken) (use True on_watch_earlier in blast)+
    qed (simp add: triple_def)
  qed
qed

lemma guards_Redis: "harmless im u x T t0 c \<Longrightarrow> (\<And>r. guards im u x T t0 (k r)) \<Longrightarrow> guards im u x T t0 (Redis c k)"
  by (rule guardsI, rule triple_Redis [where R = "\<lambda>_. holds (on_watch im u x T _)"])
     (use call_keeps(1) [OF harmless_keeps [OF harmless_mono] ages_on_watch] in \<open>auto simp: guards_def\<close>)

lemma guards_Db: "(\<And>b d. guards im u x T t0 (k b d)) \<Longrightarrow> guards im u x T t0 (Db f k)"
proof (rule guardsI)
  fix t assume k: "\<And>b d. guards im u x T t0 (k b d)" and t: "t0 \<le> t"
  show "triple (holds (on_watch im u x T t)) (Db f k) (\<lambda>_. holds (on_watch im u x T t))"
    unfolding triple_def
  proof (intro allI impI)
    fix e w a e' w' assume w: "holds (on_watch im u x T t) w" and x: "exec redis_command (Db f k) e w = (a, e', w')"
    have "holds (on_watch im u x T t) (db_call (e 0) f w)"
      using holds_ages [OF ages_on_watch w] by (simp add: db_call_def holds_def)
    moreover have "triple (holds (on_watch im u x T t)) (k (ch_answered (e 0)) (w_db w)) (\<lambda>_. holds (on_watch im u x T t))"
      using k t by (simp add: guards_def)
    ultimately show "holds (on_watch im u x T t) w'" using x unfolding triple_def exec.simps by blast
  qed
qed

lemma guards_issues: "issues (harmless im u x T t0) p \<Longrightarrow> guards im u x T t0 p"
  by (induction p rule: prog_induct) (auto intro: guards_Ret guards_Redis guards_Now guards_Db guards_mono)

lemma guards_pbind_returns:
  assumes "guards im u x T t0 m" "returns R m" "\<And>a. R a \<Longrightarrow> guards im u x T t0 (f a)"
  shows "guards im u x T t0 (pbind m f)"
proof (rule guardsI)
  fix t assume t: "t0 \<le> t"
  have m: "triple (holds (on_watch im u x T t)) m (\<lambda>a w. R a \<and> holds (on_watch im u x T t) w)"
    using assms(1) t exec_returns [OF assms(2)] unfolding guards_def triple_def by blast
  show "triple (holds (on_watch im u x T t)) (pbind m f) (\<lambda>_. holds (on_watch im u x T t))"
  proof (rule triple_pbind [OF m])
    fix a
    show "triple (\<lambda>w. R a \<and> holds (on_watch im u x T t) w) (f a) (\<lambda>_. holds (on_watch im u x T t))"
      using assms(3) [of a] t unfolding guards_def triple_def by blast
  qed
qed

lemmas guards_rules = guards_Ret guards_pbind guards_Now guards_Db

text \<open>Programs that do not touch the index of the user at all, and the ones that touch it harmlessly.\<close>

lemma guards_reads:
  "guards im u x T t0 (LoadSession im i)"
  "guards im u x T t0 (LoginFailures im v)"
  "guards im u x T t0 (get_user v)"
  "guards im u x T t0 (LoadPasswordCredential v)"
  "guards im u x T t0 (loadSessionPasswordCredential v)"
  "guards im u x T t0 (loadSessionEmail v)"
  by (auto intro!: guards_issues issues_pbind simp: LoadSession_def LoginFailures_def get_user_def LoadPasswordCredential_def
      loadSessionPasswordCredential_def loadSessionEmail_def Let_def issues_simps split: sum.splits option.splits)

lemma UnixMilli_mono: "t \<le> t' \<Longrightarrow> UnixMilli t \<le> UnixMilli t'"
  by (simp add: UnixMilli_def nsPerMilli_def zdiv_mono1)

lemma guards_pruneIndex:
  assumes "clear_namespace (im_ns im)" "framework_key k" "\<And>i. k \<noteq> sessionDataKey i" "k = sessionIndexUserKey u \<longrightarrow> cutoff \<le> t0"
  shows "guards im u x T t0 (pruneIndex im k cutoff)"
  using assms
  by (auto intro!: guards_issues issues_pbind simp: pruneIndex_def issues_simps Key_inj UnixMilli_mono)

lemma guards_keys:
  assumes "clear_namespace (im_ns im)"
  shows "guards im u x T t0 (ListUserSessionIDs im v)"
    and "guards im u x T t0 (ListAllSessionIDs im)"
    and "guards im u x T t0 (ListSeenSessionIDs im since)"
    and "guards im u x T t0 (DropUserState im v)"
    and "guards im u x T t0 (LoadUserState im v)"
    and "guards im u x T t0 (SaveUserState im v st)"
    and "guards im u x T t0 (RecordLoginFailure im n window)"
    and "guards im u x T t0 (ClearLoginFailures im n)"
proof -
  have apart: "loginFailureKey n \<noteq> sessionIndexUserKey u" "sessionIndexUserKey u \<noteq> loginFailureKey n" for n by (simp_all add: key_defs)
  show "guards im u x T t0 (ListUserSessionIDs im v)" "guards im u x T t0 (ListAllSessionIDs im)" "guards im u x T t0 (ListSeenSessionIDs im since)"
    using assms
    by (auto simp: ListUserSessionIDs_def ListAllSessionIDs_def ListSeenSessionIDs_def redis_ZRange_def redis_ZRangeByScore_def
        intro!: guards_rules guards_pruneIndex guards_Redis split: option.splits)
  show "guards im u x T t0 (DropUserState im v)" "guards im u x T t0 (LoadUserState im v)" "guards im u x T t0 (SaveUserState im v st)"
      "guards im u x T t0 (RecordLoginFailure im n window)" "guards im u x T t0 (ClearLoginFailures im n)"
    using assms apart
    by (auto simp: DropUserState_def LoadUserState_def SaveUserState_def RecordLoginFailure_def ClearLoginFailures_def namespacedKeys_def
        issues_simps Key_inj intro!: guards_issues issues_pbind issues_redis_guarded split: sum.splits)
qed

lemma guards_user_state:
  assumes "clear_namespace (im_ns im)"
  shows "guards im u x T t0 (ValidateSessionUserState im s)"
  using guards_keys [OF assms] guards_reads
  by (auto simp: ValidateSessionUserState_def refreshSessionUserState_def Let_def intro!: guards_rules split: sum.splits option.splits)

lemma guards_DropSessionIndexes:
  assumes "clear_namespace (im_ns im)" "y \<noteq> x \<or> v \<noteq> u"
  shows "guards im u x T t0 (DropSessionIndexes im v y)"
  using assms
  by (auto simp: DropSessionIndexes_def Key_inj issues_simps intro!: guards_issues issues_pbind issues_redis_guarded)

lemma guards_DropUserSessionIndexMember:
  assumes "clear_namespace (im_ns im)" "y \<noteq> x \<or> v \<noteq> u"
  shows "guards im u x T t0 (DropUserSessionIndexMember im v y)"
  using assms
  by (auto simp: DropUserSessionIndexMember_def Key_inj issues_simps intro!: guards_issues issues_pbind issues_redis_guarded)

lemma guards_SaveSession:
  "clear_namespace (im_ns im) \<Longrightarrow> s_ID s \<noteq> x \<Longrightarrow> guards im u x T t0 (SaveSession im s ttl)"
  by (auto simp: SaveSession_def issues_simps Key_inj intro!: guards_issues issues_pbind)

lemma guards_or_undo:
  "clear_namespace (im_ns im) \<Longrightarrow> s_ID s \<noteq> x \<Longrightarrow> guards im u x T t0 st \<Longrightarrow> guards im u x T t0 rest \<Longrightarrow> guards im u x T t0 (or_undo im s st rest)"
  by (auto simp: or_undo_def intro!: guards_rules guards_DropSessionIndexes)

text \<open>A session lifetime in whole seconds, which the expiry of an index can carry.\<close>

definition whole_lifetime :: "iam \<Rightarrow> bool" where
  "whole_lifetime im \<longleftrightarrow> 0 < im_expiration im \<and> im_expiration im mod nsPerSecond = 0"

lemma formatSec_whole: "whole_lifetime im \<Longrightarrow> formatSec (indexRetention im) = im_expiration im"
proof -
  assume w: "whole_lifetime im"
  then have "im_expiration im = im_expiration im div nsPerSecond * nsPerSecond" using minus_mod_eq_div_mult by (metis diff_zero whole_lifetime_def)
  moreover have "\<not> im_expiration im < nsPerSecond"
  proof
    assume "im_expiration im < nsPerSecond"
    then have "im_expiration im mod nsPerSecond = im_expiration im" using w by (intro mod_pos_pos_trivial) (auto simp: whole_lifetime_def)
    then show False using w unfolding whole_lifetime_def by linarith
  qed
  ultimately show ?thesis by (simp add: formatSec_def indexRetention_def)
qed

lemma guards_writes:
  assumes "clear_namespace (im_ns im)"
  shows "framework_key k \<Longrightarrow> (\<And>i. k \<noteq> sessionDataKey i) \<Longrightarrow> y \<noteq> x \<Longrightarrow> guards im u x T t0 (redis_ZAdd (im_ns im) k sc [y])"
    and "framework_key k \<Longrightarrow> (\<And>i. k \<noteq> sessionDataKey i) \<Longrightarrow> k = sessionIndexUserKey u \<longrightarrow> 0 < formatSec ttl \<and> T \<le> t0 + formatSec ttl \<Longrightarrow>
      guards im u x T t0 (redis_Expire (im_ns im) k ttl)"
  using assms by (auto intro!: guards_issues issues_redis_guarded simp: issues_simps Key_inj)

lemma guards_IndexSession:
  assumes "clear_namespace (im_ns im)" "s_ID s \<noteq> x" "whole_lifetime im" "T \<le> t0 + im_expiration im"
  shows "guards im u x T t0 (IndexSession im s)"
proof -
  have tail: "guards im u x T t (index_writes im s)" if "t0 \<le> t" for t
    using assms that
    by (auto simp: index_writes_def Let_def formatSec_whole intro!: guards_rules guards_or_undo guards_writes) (simp add: whole_lifetime_def)
  show ?thesis
    using assms(1) tail by (auto simp: IndexSession_def Let_def intro!: guards_rules guards_pruneIndex)
qed

subsection \<open>Programs that delete sessions\<close>

text \<open>Once the snapshot is gone, or the session over, nothing the handlers do matters.\<close>

definition lost :: "iam \<Rightarrow> string \<Rightarrow> int \<Rightarrow> int \<Rightarrow> int \<Rightarrow> keyspace \<Rightarrow> bool" where
  "lost im x T t0 t ks \<longleftrightarrow> t0 \<le> t \<and> gone_while_live im x T t ks"

lemma lost_on_watch: "holds (lost im x T t0) w \<Longrightarrow> holds (on_watch im u x T t0) w"
  by (simp add: holds_def lost_def on_watch_def gone_while_live_tracked)

lemma ages_lost: "ages (lost im x T t0)"
  using ages_gone_while_live [of im x T] by (auto simp: ages_def lost_def)

lemma triple_lost: "never_stores im x p \<Longrightarrow> triple (holds (lost im x T t0)) p (\<lambda>_. holds (lost im x T t0))"
proof (rule triple_issues [OF _ ages_lost])
  assume n: "never_stores im x p"
  have "keeps (lost im x T t0) c" if "\<not> creates (Key (im_ns im) (sessionDataKey x)) c" for c
    using gone_keeps(2) [OF that, of T] by (simp add: keeps_def lost_def)
  then show "issues (keeps (lost im x T t0)) p" using n by (induction p rule: prog_induct) auto
qed

lemma lost_watches: "never_stores im x p \<Longrightarrow> triple (holds (lost im x T t0)) p (\<lambda>_. holds (on_watch im u x T t0))"
  by (rule triple_weaken [OF triple_lost]) (auto intro: lost_on_watch)

lemma LoadSession_watched:
  assumes "x = TrimSpace x" "x \<noteq> []"
  shows "triple (holds (on_watch im u x T t0)) (LoadSession im y) (\<lambda>l w. holds (on_watch im u x T t0) w \<and>
    (l = Inl ErrEntryNotFound \<longrightarrow> y = x \<longrightarrow> holds (lost im x T t0) w) \<and>
    (\<forall>s. l = Inr s \<longrightarrow> TrimSpace y = x \<longrightarrow> s_UserID s = u \<or> holds (lost im x T t0) w))"
  unfolding triple_def
proof (intro allI impI)
  fix e w l e' w' assume w: "holds (on_watch im u x T t0) w" and x: "exec redis_command (LoadSession im y) e w = (l, e', w')"
  have w': "holds (on_watch im u x T t0) w'"
    using guards_reads(1) [of im u x T t0 y] w x unfolding guards_def triple_def by blast
  have missing: "holds (lost im x T t0) w'" if m: "l = Inl ErrEntryNotFound" "y = x"
  proof -
    obtain r e1 w1 where g: "exec redis_command (redis_Get (im_ns im) (sessionDataKey x)) e w = (r, e1, w1)"
      and k: "w' = w1" "(case r of Inl err \<Rightarrow> Inl (load_error err)
             | Inr data \<Rightarrow> (case im_dec im data of None \<Rightarrow> Inl ErrSnapshotUnreadable | Some current \<Rightarrow> Inr current)) = l"
      using x m(2) assms by (auto simp: LoadSession_def Let_def elim!: exec_pbindE)
    have "r = Inl ErrKeyNotExists" using k(2) m(1) by (auto split: sum.splits option.splits) (metis iam_error.distinct(9) redis_error.exhaust load_error.simps(2))
    then have "held (w_now w1) (w_redis w) (Key (im_ns im) (sessionDataKey x)) = None" "w_redis w1 = w_redis w"
      using exec_redis_Get(4) [OF g] exec_redis_Get(1) [OF g] by (auto, metis world.select_convs(2) world.surjective world.update_convs(1))
    then show ?thesis using w' k(1) by (simp add: holds_def lost_def on_watch_def gone_while_live_def gone_def)
  qed
  have owner: "s_UserID s = u \<or> holds (lost im x T t0) w'" if l: "l = Inr s" "TrimSpace y = x" for s
  proof -
    have "stored_snapshot im (w_redis w) (w_now w') x s" "w_redis w' = w_redis w"
      using LoadSession_found [of im y e w s e' w'] x l by (auto, metis world.select_convs(2) world.surjective world.update_convs(1))
    then have "s_UserID s = u \<or> \<not> live_until T (w_now w')"
      using w' by (auto simp: holds_def on_watch_def tracked_or_gone_def owned_by_def gone_def stored_snapshot_def)
    then show ?thesis using w' by (auto simp: holds_def lost_def on_watch_def gone_while_live_def)
  qed
  show "holds (on_watch im u x T t0) w' \<and> (l = Inl ErrEntryNotFound \<longrightarrow> y = x \<longrightarrow> holds (lost im x T t0) w') \<and>
    (\<forall>s. l = Inr s \<longrightarrow> TrimSpace y = x \<longrightarrow> s_UserID s = u \<or> holds (lost im x T t0) w')"
    using w' missing owner by blast
qed

lemma Del_watched:
  assumes "clear_namespace (im_ns im)"
  shows "triple (holds (on_watch im u x T t0)) (redis_Del (im_ns im) [sessionDataKey y]) (\<lambda>r w. holds (on_watch im u x T t0) w \<and>
    r \<noteq> Some ErrKeyNotExists \<and> (r = None \<longrightarrow> y = x \<longrightarrow> holds (lost im x T t0) w))"
  unfolding redis_Del_def
proof (rule triple_Redis [where R = "\<lambda>r w. holds (on_watch im u x T t0) w \<and> (r \<noteq> R_failed \<longrightarrow> y = x \<longrightarrow> holds (lost im x T t0) w)"])
  let ?c = "DEL (namespacedKeys (im_ns im) [sessionDataKey y])"
  have h: "harmless im u x T t0 ?c" using assms by (simp add: namespacedKeys_def Key_inj)
  fix ch :: choice and w :: "(keyspace, 'd) world" and r w'
  assume w: "holds (on_watch im u x T t0) w" and c: "redis_call redis_command ch ?c w = (r, w')"
  note k = call_keeps [OF harmless_keeps [OF h] ages_on_watch c w]
  have "gone im x (w_now w') (w_redis w')" if nf: "r \<noteq> R_failed" "y = x"
  proof -
    obtain ks where "redis_command ?c (w_now w') ks = (r, w_redis w')" using k(2) [OF nf(1)] by blast
    then have "w_redis w' = (\<lambda>z. if z \<in> set (namespacedKeys (im_ns im) [sessionDataKey y]) then None else ks z)" by simp
    then have "w_redis w' (Key (im_ns im) (sessionDataKey x)) = None" using nf(2) by (simp add: namespacedKeys_def)
    then show ?thesis by (simp add: gone_def held_def)
  qed
  then show "holds (on_watch im u x T t0) w' \<and> (r \<noteq> R_failed \<longrightarrow> y = x \<longrightarrow> holds (lost im x T t0) w')"
    using k(1) by (simp add: holds_def lost_def on_watch_def gone_while_live_def)
qed (auto intro!: triple_Ret elim!: status_reply.elims)

lemma DeleteSession_watched:
  assumes "clear_namespace (im_ns im)" "x = TrimSpace x" "x \<noteq> []"
  shows "triple (holds (on_watch im u x T t0)) (DeleteSession im y) (\<lambda>(_, r) w. holds (on_watch im u x T t0) w \<and>
    (r = None \<or> r = Some ErrEntryNotFound \<longrightarrow> y = x \<longrightarrow> holds (lost im x T t0) w))"
proof (cases "y = []")
  case True
  then show ?thesis using assms(3) by (auto simp: DeleteSession_def intro!: triple_Ret)
next
  case False
  let ?Q = "\<lambda>(_ :: session, r) w. holds (on_watch im u x T t0) w \<and> (r = None \<or> r = Some ErrEntryNotFound \<longrightarrow> y = x \<longrightarrow> holds (lost im x T t0) w)"
  have drop: "triple (\<lambda>w. holds (on_watch im u x T t0) w \<and> (y = x \<longrightarrow> holds (lost im x T t0) w))
      (pbind (DropSessionIndexes im v y) (\<lambda>d. Ret (s, d))) ?Q" for v s
  proof (cases "y = x")
    case True
    have "triple (holds (lost im x T t0)) (pbind (DropSessionIndexes im v y) (\<lambda>d. Ret (s, d))) (\<lambda>_. holds (lost im x T t0))"
      by (auto intro!: triple_lost issues_pbind never_stores_reads)
    then show ?thesis by (rule triple_weaken) (use True in \<open>auto intro: lost_on_watch\<close>)
  next
    case False
    then have "guards im u x T t0 (pbind (DropSessionIndexes im v y) (\<lambda>d. Ret (s, d)))"
      using assms(1) by (auto intro!: guards_rules guards_DropSessionIndexes)
    then have "triple (holds (on_watch im u x T t0)) (pbind (DropSessionIndexes im v y) (\<lambda>d. Ret (s, d))) (\<lambda>_. holds (on_watch im u x T t0))"
      by (simp add: guards_def)
    then show ?thesis by (rule triple_weaken) (use False in auto)
  qed
  have del: "triple (\<lambda>w. holds (on_watch im u x T t0) w) (pbind (redis_Del (im_ns im) [sessionDataKey y]) (\<lambda>r.
                case r of Some err \<Rightarrow> Ret (s, Some (load_error err))
                | None \<Rightarrow> pbind (DropSessionIndexes im (s_UserID s) y) (\<lambda>d. Ret (s, d)))) ?Q" for s
    by (rule triple_pbind [OF Del_watched [OF assms(1)]])
       (auto split: option.split intro!: triple_Ret triple_weaken [OF drop] elim!: load_error.elims)
  show ?thesis
    unfolding DeleteSession_def using False
    by (auto intro!: triple_pbind [OF LoadSession_watched [OF assms(2,3)]] triple_Ret triple_weaken [OF del] split: sum.split)
qed

lemma guards_DeleteSession:
  assumes "clear_namespace (im_ns im)" "x = TrimSpace x" "x \<noteq> []"
  shows "guards im u x T t0 (DeleteSession im y)"
  by (rule guardsI, rule triple_weaken [OF DeleteSession_watched [OF assms]]) auto

lemma guards_Del: "clear_namespace (im_ns im) \<Longrightarrow> guards im u x T t0 (redis_Del (im_ns im) [sessionDataKey y])"
  by (auto simp: namespacedKeys_def issues_simps Key_inj intro!: guards_issues)

lemma guards_deleteUnreadableSnapshot:
  assumes "clear_namespace (im_ns im)" "u \<noteq> []"
  shows "guards im u x T t0 (deleteUnreadableSnapshot im y)"
  using assms guards_DropSessionIndexes [OF assms(1), of y x "[]" u T t0]
  by (auto simp: deleteUnreadableSnapshot_def intro!: guards_rules guards_Del split: option.split)

lemma guards_loadSession:
  assumes "clear_namespace (im_ns im)" "u \<noteq> []"
  shows "guards im u x T t0 (loadSession im y)"
  using guards_deleteUnreadableSnapshot [OF assms] guards_reads(1)
  by (auto simp: loadSession_def intro!: guards_rules split: sum.split iam_error.split)

text \<open>A sweep of a list of ids deletes the ones it is asked to, and keeps the rest tracked.\<close>

lemma deleteUserSessions_loop_watched:
  assumes "clear_namespace (im_ns im)" "x = TrimSpace x" "x \<noteq> []"
  shows "triple (holds (on_watch im u x T t0)) (deleteUserSessions_loop im v keep ids) (\<lambda>r w. holds (on_watch im u x T t0) w \<and>
    (r = None \<longrightarrow> x \<in> set ids \<longrightarrow> x \<noteq> keep \<longrightarrow> holds (lost im x T t0) w))"
  (is "triple ?W _ (\<lambda>r w. ?Q ids r w)")
proof (induction ids)
  case Nil
  then show ?case by (auto intro: triple_Ret)
next
  case (Cons y ids)
  show ?case
  proof (cases "y = [] \<or> y = keep")
    case True
    have "triple ?W (deleteUserSessions_loop im v keep ids) (?Q (y # ids))"
      by (rule triple_weaken [OF Cons.IH]) (use True assms(3) in auto)
    then show ?thesis using True by simp
  next
    case False
    have on: "triple ?W (deleteUserSessions_loop im v keep ids) (\<lambda>r w. y \<noteq> x \<longrightarrow> ?Q (y # ids) r w)"
      by (rule triple_weaken [OF Cons.IH]) auto
    have gone: "triple (holds (lost im x T t0)) (deleteUserSessions_loop im v keep ids) (?Q (y # ids))"
      by (rule triple_weaken [OF triple_lost [OF never_stores_deleteUserSessions_loop]]) (auto intro: lost_on_watch)
    have rest: "triple (\<lambda>w. ?W w \<and> (y = x \<longrightarrow> holds (lost im x T t0) w)) (deleteUserSessions_loop im v keep ids) (?Q (y # ids))"
      by (cases "y = x") (auto intro: triple_weaken [OF on] triple_weaken [OF gone])
    have drop: "triple (\<lambda>w. ?W w \<and> (y = x \<longrightarrow> holds (lost im x T t0) w)) (DropSessionIndexes im v y) (\<lambda>_ w. ?W w \<and> (y = x \<longrightarrow> holds (lost im x T t0) w))"
    proof (cases "y = x")
      case True
      then show ?thesis by (auto intro!: triple_weaken [OF triple_lost [OF never_stores_reads(2)]] intro: lost_on_watch)
    next
      case False
      then have "triple ?W (DropSessionIndexes im v y) (\<lambda>_. ?W)" using guards_DropSessionIndexes [OF assms(1), of y x v u T t0] by (simp add: guards_def)
      then show ?thesis by (rule triple_weaken) (use False in auto)
    qed
    show ?thesis
      using False
      by (auto intro!: triple_pbind [OF DeleteSession_watched [OF assms]] triple_pbind [OF drop] triple_Ret triple_weaken [OF rest]
          triple_weaken [OF triple_pbind [OF drop rest]] split: option.split)
  qed
qed

lemma ZRange_watched:
  "triple (holds (on_watch im u x T t0)) (redis_ZRange (im_ns im) (sessionIndexUserKey u)) (\<lambda>r w. holds (on_watch im u x T t0) w \<and>
    (\<forall>ids. r = Inr ids \<longrightarrow> x \<in> set ids \<or> holds (lost im x T t0) w))"
  unfolding redis_ZRange_def
proof (rule triple_Redis [where R = "\<lambda>r w. holds (on_watch im u x T t0) w \<and> (\<forall>ids. r = R_members ids \<longrightarrow> x \<in> set ids \<or> holds (lost im x T t0) w)"])
  let ?c = "ZRANGE (Key (im_ns im) (sessionIndexUserKey u))"
  fix ch :: choice and w :: "(keyspace, 'd) world" and r w'
  assume w: "holds (on_watch im u x T t0) w" and c: "redis_call redis_command ch ?c w = (r, w')"
  have h: "harmless im u x T t0 ?c" by simp
  note k = call_keeps [OF harmless_keeps [OF h] ages_on_watch c w]
  have "x \<in> set ids \<or> holds (lost im x T t0) w'" if r: "r = R_members ids" for ids
  proof -
    obtain ks where ks: "on_watch im u x T t0 (w_now w') ks" "redis_command ?c (w_now w') ks = (r, w_redis w')" using k(2) r by auto
    then have same: "w_redis w' = ks" by (auto split: option.splits prod.splits rvalue.splits)
    show ?thesis
    proof (cases "live_until T (w_now w') \<and> \<not> gone im x (w_now w') ks")
      case True
      then have "tracked im u x T ks" using ks(1) by (simp add: on_watch_def tracked_or_gone_def)
      then obtain z d where "held (w_now w') ks (Key (im_ns im) (sessionIndexUserKey u)) = Some (Sorted z, d)" "zmember z x = Some (UnixMilli T)"
        using tracked_held True by blast
      then have "ids = map fst z" "map_of z x = Some (UnixMilli T)" using ks(2) r by (auto simp: zmember_def)
      then show ?thesis using map_of_SomeD [of z x "UnixMilli T"] by force
    next
      case False
      then show ?thesis using ks(1) same by (auto simp: holds_def lost_def on_watch_def gone_while_live_def)
    qed
  qed
  then show "holds (on_watch im u x T t0) w' \<and> (\<forall>ids. r = R_members ids \<longrightarrow> x \<in> set ids \<or> holds (lost im x T t0) w')" using k(1) by blast
qed (auto intro!: triple_Ret elim!: members_reply.elims)

lemma ListUserSessionIDs_watched:
  assumes "clear_namespace (im_ns im)" "u \<noteq> []"
  shows "triple (holds (on_watch im u x T t0)) (ListUserSessionIDs im u) (\<lambda>l w. holds (on_watch im u x T t0) w \<and>
    (\<forall>ids. l = Inr ids \<longrightarrow> x \<in> set ids \<or> holds (lost im x T t0) w))"
proof -
  let ?Q = "\<lambda>l w. holds (on_watch im u x T t0) w \<and> (\<forall>ids. l = Inr ids \<longrightarrow> x \<in> set ids \<or> holds (lost im x T t0) w)"
  have range: "triple (holds (on_watch im u x T t0)) (pbind (redis_ZRange (im_ns im) (sessionIndexUserKey u)) (\<lambda>r. Ret
              (case r of Inl err \<Rightarrow> Inl (Svc 500 ''failed to list user sessions'') | Inr ids \<Rightarrow> Inr ids))) ?Q"
    by (rule triple_pbind [OF ZRange_watched]) (auto intro!: triple_Ret split: sum.splits)
  have prune: "triple (\<lambda>w. t0 \<le> t \<and> holds (on_watch im u x T t) w) (pruneIndex im (sessionIndexUserKey u) t) (\<lambda>_ w. t0 \<le> t \<and> holds (on_watch im u x T t) w)" for t
    using guards_pruneIndex [OF assms(1), of "sessionIndexUserKey u" u t t x T] by (auto simp: guards_def triple_def)
  show ?thesis
    unfolding ListUserSessionIDs_def using assms(2)
    by (auto intro!: triple_Now [where R = "\<lambda>t w. t0 \<le> t \<and> holds (on_watch im u x T t) w"] triple_pbind [OF prune] triple_Ret
        triple_weaken [OF range] dest: on_watch_earlier split: option.split)
       (auto simp: holds_def on_watch_def dest: ages_tracked_or_gone [unfolded ages_def, rule_format])
qed

lemma deleteUserSessions_watched:
  assumes "clear_namespace (im_ns im)" "x = TrimSpace x" "x \<noteq> []" "u \<noteq> []"
  shows "triple (holds (on_watch im u x T t0)) (deleteUserSessions im v keep) (\<lambda>r w. holds (on_watch im u x T t0) w \<and>
    (r = None \<longrightarrow> v = u \<longrightarrow> x \<noteq> keep \<longrightarrow> holds (lost im x T t0) w))"
  (is "triple ?W _ ?Q")
proof -
  note loop = deleteUserSessions_loop_watched [OF assms(1-3), of u T t0 v keep]
  have lost: "triple (holds (lost im x T t0)) (deleteUserSessions_loop im v keep ids) ?Q" for ids
    by (rule triple_weaken [OF triple_lost [OF never_stores_deleteUserSessions_loop]]) (auto intro: lost_on_watch)
  have rest: "triple (\<lambda>w. ?W w \<and> (v = u \<longrightarrow> x \<in> set ids \<or> holds (lost im x T t0) w)) (deleteUserSessions_loop im v keep ids) ?Q" for ids
    using loop [of ids] lost [of ids] unfolding triple_def by blast
  have list: "triple ?W (ListUserSessionIDs im v) (\<lambda>l w. ?W w \<and> (\<forall>ids. l = Inr ids \<longrightarrow> v = u \<longrightarrow> x \<in> set ids \<or> holds (lost im x T t0) w))"
  proof (cases "v = u")
    case True
    then show ?thesis using ListUserSessionIDs_watched [OF assms(1,4), of x T t0] by (auto simp: triple_def)
  next
    case False
    then show ?thesis using guards_keys(1) [OF assms(1), of u x T t0 v] by (auto simp: guards_def triple_def)
  qed
  show ?thesis
    unfolding deleteUserSessions_def
    by (rule triple_pbind [OF list]) (auto split: sum.split intro!: triple_Ret triple_weaken [OF rest])
qed

lemma DeleteUserSessions_watched:
  assumes "clear_namespace (im_ns im)" "x = TrimSpace x" "x \<noteq> []" "u \<noteq> []"
  shows "triple (holds (on_watch im u x T t0)) (DeleteUserSessions im v) (\<lambda>r w. holds (on_watch im u x T t0) w \<and>
    (r = None \<longrightarrow> v = u \<longrightarrow> holds (lost im x T t0) w))"
  (is "triple ?W _ ?Q")
proof (cases "v = []")
  case True
  then show ?thesis using assms(4) by (auto simp: DeleteUserSessions_def intro!: triple_Ret)
next
  case False
  let ?last = "pbind (redis_Del (im_ns im) [sessionIndexUserKey v]) (\<lambda>d. Ret
                (if d \<noteq> None then Some (Svc 500 ''failed to delete user session index'') else None))"
  have lost: "triple (holds (lost im x T t0)) ?last ?Q"
    by (rule triple_weaken [OF triple_lost]) (auto intro: lost_on_watch intro!: issues_pbind simp: issues_simps)
  have other: "triple ?W ?last ?Q" if "v \<noteq> u"
  proof -
    have "guards im u x T t0 ?last"
      using assms(1) that by (auto simp: namespacedKeys_def issues_simps Key_inj intro!: guards_issues issues_pbind)
    then show ?thesis using that by (auto simp: guards_def triple_def)
  qed
  have finish: "triple (\<lambda>w. ?W w \<and> (v = u \<longrightarrow> holds (lost im x T t0) w)) ?last ?Q"
    using lost other unfolding triple_def by blast
  have drop: "triple ?W (DropUserState im v) (\<lambda>_. ?W)" using guards_keys(4) [OF assms(1), of u x T t0 v] by (simp add: guards_def)
  show ?thesis
    unfolding DeleteUserSessions_def using False assms(3)
    by (auto intro!: triple_pbind [OF drop] triple_pbind [OF deleteUserSessions_watched [OF assms]] triple_Ret triple_weaken [OF finish]
        simp del: not_None_eq split: option.split)
qed

text \<open>What a handler does with a loaded snapshot may rely on its owner, and on a missing one being gone.\<close>

definition owner_fits :: "string \<Rightarrow> string \<Rightarrow> string \<Rightarrow> session \<Rightarrow> bool" where
  "owner_fits u x y s \<longleftrightarrow> (TrimSpace y = x \<longrightarrow> s_UserID s = u)"

lemma guards_LoadSession_bind:
  assumes "x = TrimSpace x" "x \<noteq> []"
    and "\<And>s. owner_fits u x y s \<Longrightarrow> guards im u x T t0 (k (Inr s))"
    and "y \<noteq> x \<Longrightarrow> guards im u x T t0 (k (Inl ErrEntryNotFound))"
    and "\<And>err. err \<noteq> ErrEntryNotFound \<Longrightarrow> guards im u x T t0 (k (Inl err))"
    and "\<And>l. never_stores im x (k l)"
  shows "guards im u x T t0 (pbind (LoadSession im y) k)"
proof (rule guardsI, rule triple_pbind [OF LoadSession_watched [OF assms(1,2)]])
  fix t l assume t: "t0 \<le> t"
  let ?W = "holds (on_watch im u x T t)"
  have lost: "triple (holds (lost im x T t)) (k l) (\<lambda>_. ?W)" by (rule lost_watches) (rule assms(6))
  have good: "triple ?W (k l) (\<lambda>_. ?W)" if "\<And>s. l = Inr s \<Longrightarrow> TrimSpace y = x \<longrightarrow> s_UserID s = u" "l = Inl ErrEntryNotFound \<Longrightarrow> y \<noteq> x"
  proof -
    have "guards im u x T t0 (k l)" using that assms(3-5) by (cases l) (metis owner_fits_def)+
    then show ?thesis using t by (simp add: guards_def)
  qed
  show "triple (\<lambda>w. ?W w \<and> (l = Inl ErrEntryNotFound \<longrightarrow> y = x \<longrightarrow> holds (lost im x T t) w) \<and>
    (\<forall>s. l = Inr s \<longrightarrow> TrimSpace y = x \<longrightarrow> s_UserID s = u \<or> holds (lost im x T t) w)) (k l) (\<lambda>_. ?W)"
    using lost good unfolding triple_def by metis
qed

section \<open>The handlers\<close>

text \<open>
  The assumptions on a deployment and on the session that is followed: a namespace apart from the
  framework's keys, a lifetime in whole seconds, and an encoding of snapshots that reads back the id of
  the user.
\<close>

definition deployment :: "iam \<Rightarrow> string \<Rightarrow> bool" where
  "deployment im u \<longleftrightarrow> clear_namespace (im_ns im) \<and> whole_lifetime im \<and>
     (\<forall>s s'. s_UserID s = u \<longrightarrow> im_dec im (im_enc im s) = Some s' \<longrightarrow> s_UserID s' = u)"

lemma deploymentD:
  assumes "deployment im u"
  shows "clear_namespace (im_ns im)" "whole_lifetime im" "s_UserID s = u \<Longrightarrow> im_dec im (im_enc im s) = Some s' \<Longrightarrow> s_UserID s' = u"
  using assms unfolding deployment_def by blast+

definition session_name :: "string \<Rightarrow> bool" where
  "session_name x \<longleftrightarrow> x \<noteq> [] \<and> x = TrimSpace x"

lemmas guards_base = guards_keys guards_reads guards_user_state guards_loadSession guards_DeleteSession guards_SaveSession

lemma guards_bulk:
  assumes "clear_namespace (im_ns im)" "session_name x" "u \<noteq> []"
  shows "guards im u x T t0 (DeleteUserSessions im v)" "guards im u x T t0 (DeleteUserSessionsExcept im v keep)"
proof -
  have x: "x = TrimSpace x" "x \<noteq> []" using assms(2) by (simp_all add: session_name_def)
  show "guards im u x T t0 (DeleteUserSessions im v)"
    by (rule guardsI, rule triple_weaken [OF DeleteUserSessions_watched [OF assms(1) x assms(3)]]) auto
  have "guards im u x T t0 (deleteUserSessions im v keep)"
    by (rule guardsI, rule triple_weaken [OF deleteUserSessions_watched [OF assms(1) x assms(3)]]) auto
  then show "guards im u x T t0 (DeleteUserSessionsExcept im v keep)" by (simp add: DeleteUserSessionsExcept_def guards_Ret)
qed

lemma guards_TouchSession:
  assumes "deployment im u" "session_name x" "TrimSpace y = x \<longrightarrow> s_UserID s = u"
  shows "guards im u x T t0 (TouchSession im y s now)"
proof -
  note ns = deploymentD(1) [OF assms(1)] and dec = deploymentD(3) [OF assms(1)]
  have x: "x = TrimSpace x" "x \<noteq> []" using assms(2) by (simp_all add: session_name_def)
  have refresh: "guards im u x T t (redis_SetXX (im_ns im) (sessionDataKey (TrimSpace y)) (im_enc im (s\<lparr>s_LastSeenAt := n\<rparr>)) ttl)" for t n ttl
  proof -
    have "s_UserID s' = u" if "TrimSpace y = x" "im_dec im (im_enc im (s\<lparr>s_LastSeenAt := n\<rparr>)) = Some s'" for s'
      using dec [OF _ that(2)] assms(3) that(1) by simp
    then show ?thesis using ns by (auto intro!: guards_issues simp: issues_simps Key_inj)
  qed
  have seen: "guards im u x T t (redis_ZAdd (im_ns im) sessionIndexSeenKey sc [i])" for t sc i
    using ns by (auto intro!: guards_issues issues_redis_guarded simp: Key_inj)
  have prune: "guards im u x T t (pruneIndex im sessionIndexSeenKey c)" for t c by (rule guards_pruneIndex [OF ns]) auto
  show ?thesis
    using refresh seen prune guards_DeleteSession [OF ns x]
    by (auto simp: TouchSession_def Let_def intro!: guards_rules split: sum.split)
qed

lemma guards_Authenticate:
  assumes "deployment im u" "session_name x" "u \<noteq> []"
  shows "guards im u x T t0 (Authenticate im sid ua method path)"
proof -
  note ns = deploymentD(1) [OF assms(1)]
  have x: "x = TrimSpace x" "x \<noteq> []" using assms(2) by (simp_all add: session_name_def)
  have user: "guards im u x T t (authenticate_user im y method path v)" if "TrimSpace y = x \<longrightarrow> (\<forall>s. v = Inr s \<longrightarrow> s_UserID s = u)" for t y v
    using that guards_DeleteSession [OF ns x] guards_TouchSession [OF assms(1,2)]
    by (auto simp: authenticate_user_def Let_def intro!: guards_rules split: sum.split prod.split)
  have owner: "returns (\<lambda>v. \<forall>s'. v = Inr s' \<longrightarrow> s_UserID s' = s_UserID s) (ValidateSessionUserState im s)" for s
    by (auto simp: ValidateSessionUserState_def intro!: returns_pbind_any split: sum.split option.split)
  have snapshot: "guards im u x T t (authenticate_snapshot im y ua method path s)" if "TrimSpace y = x \<longrightarrow> s_UserID s = u" for t y s
    using that user guards_DeleteSession [OF ns x] guards_user_state [OF ns] owner
    by (auto simp: authenticate_snapshot_def intro!: guards_rules guards_pbind_returns [OF guards_user_state [OF ns] owner] split: option.split)
  let ?y = "TrimSpace sid"
  let ?k = "\<lambda>l. case l of
      Inr current \<Rightarrow> authenticate_snapshot im ?y ua method path current
    | Inl ErrEntryNotFound \<Rightarrow> Ret (Inl (as_service_error (rejected ''session not found'')))
    | Inl ErrSnapshotUnreadable \<Rightarrow> pbind (deleteUnreadableSnapshot im ?y) (\<lambda>_. Ret (Inl (as_service_error (rejected ''session not found''))))
    | Inl _ \<Rightarrow> Ret (Inl (as_service_error (Svc 500 ''failed to load session'')))"
  have eq: "Authenticate im sid ua method path = pbind (LoadSession im ?y) ?k" if "?y \<noteq> []"
    using that unfolding Authenticate_def loadSession_def Let_def pbind_assoc
    by (auto simp: pbind_assoc intro!: arg_cong [where f = "pbind (LoadSession im ?y)"] split: sum.split iam_error.split)
  have "guards im u x T t0 (pbind (LoadSession im ?y) ?k)"
  proof (rule guards_LoadSession_bind [OF x])
    show "never_stores im x (?k l)" for l
      using never_stores_authenticate_snapshot [OF ns]
      by (auto simp: never_stores_store intro!: issues_pbind split: sum.split iam_error.split)
  qed (use snapshot guards_deleteUnreadableSnapshot [OF ns assms(3)] in \<open>auto simp: owner_fits_def intro!: guards_rules split: iam_error.split\<close>)
  note whole = this
  show ?thesis
  proof (cases "?y = []")
    case False
    show ?thesis unfolding eq [OF False] by (rule whole)
  qed (simp add: Authenticate_def guards_Ret)
qed

text \<open>The handlers of a deployment, for one session and its user.\<close>

lemma guards_CurrentSession:
  assumes "clear_namespace (im_ns im)" "session_name x" "u \<noteq> []"
  shows "guards im u x T t0 (CurrentSession im cx)"
  using assms guards_DeleteSession guards_loadSession
  by (auto simp: CurrentSession_def validated_def session_name_def intro!: guards_rules split: sum.split option.split)

lemma guards_with_current:
  assumes "clear_namespace (im_ns im)" "session_name x" "u \<noteq> []" "\<And>i s. guards im u x T t0 (f i s)"
  shows "guards im u x T t0 (with_current im cx f)"
  using guards_CurrentSession [OF assms(1-3)] assms(4) by (auto simp: with_current_def intro!: guards_rules split: sum.split)

lemma guards_SessionList_loop:
  assumes "clear_namespace (im_ns im)" "session_name x"
  shows "guards im u x T t0 (SessionList_loop im cid cur ids items)"
proof (induction ids arbitrary: items t0)
  case (Cons y ids)
  have x: "x = TrimSpace x" "x \<noteq> []" using assms(2) by (simp_all add: session_name_def)
  let ?loop = "\<lambda>items. SessionList_loop im cid cur ids items"
  have "guards im u x T t0 (pbind (LoadSession im y) (\<lambda>l.
          case l of
            Inl err \<Rightarrow>
              (if err = ErrEntryNotFound
               then pbind (DropSessionIndexes im (s_UserID cur) y) (\<lambda>_. ?loop items)
               else Ret (Inl (Svc 500 ''failed to load session'')))
          | Inr s \<Rightarrow>
              Now (\<lambda>t.
              case ValidateSession t y s of
                Some reason \<Rightarrow> pbind (DeleteSession im y) (\<lambda>_. ?loop items)
              | None \<Rightarrow> ?loop (items @ [buildSessionView s cid]))))"
    by (rule guards_LoadSession_bind [OF x])
       (auto intro!: guards_rules guards_DeleteSession [OF assms(1) x] guards_DropSessionIndexes [OF assms(1)] Cons.IH issues_pbind
          simp: never_stores_store never_stores_SessionList_loop split: sum.split option.split)
  then show ?case using Cons.IH by simp
qed (simp add: guards_Ret)

lemma guards_buildView_loop:
  assumes "clear_namespace (im_ns im)" "session_name x" "iu = [] \<or> iu = u_ID user"
  shows "guards im u x T t0 (buildView_loop im user iu cid online ids views)"
proof (induction ids arbitrary: views t0)
  case (Cons y ids)
  have x: "x = TrimSpace x" "x \<noteq> []" using assms(2) by (simp_all add: session_name_def)
  have wrong: "guards im u x T t (DropUserSessionIndexMember im iu y)" if "owner_fits u x y s" "s_UserID s \<noteq> u_ID user" "iu \<noteq> []" for s t
    using that assms(3) x by (intro guards_DropUserSessionIndexMember [OF assms(1)]) (auto simp: owner_fits_def)
  define loop where "loop views = buildView_loop im user iu cid online ids views" for views
  have ih: "guards im u x T t (loop views)" "never_stores im x (loop views)" for t views
    using Cons.IH never_stores_buildView_loop by (simp_all add: loop_def)
  have "guards im u x T t0 (pbind (LoadSession im y) (\<lambda>l.
          case l of
            Inl err \<Rightarrow>
              (if err = ErrEntryNotFound then pbind (DropSessionIndexes im iu y) (\<lambda>_. loop views)
               else Ret (Inl (Svc 500 ''failed to load session'')))
          | Inr s \<Rightarrow>
              Now (\<lambda>t.
              if ValidateSession t y s \<noteq> None
              then pbind (DeleteSession im y) (\<lambda>_. loop views)
              else if s_UserID s \<noteq> u_ID user then
                (if iu \<noteq> [] then pbind (DropUserSessionIndexMember im iu y) (\<lambda>_. loop views) else loop views)
              else if \<not> seen_in online s then loop views
              else loop (views @ [buildSessionView s cid]))))"
    by (rule guards_LoadSession_bind [OF x])
       (auto intro!: guards_rules guards_DeleteSession [OF assms(1) x] guards_DropSessionIndexes [OF assms(1)] wrong ih issues_pbind
          simp: never_stores_store split: sum.split option.split)
  note step = this [unfolded loop_def]
  show ?case
  proof (cases "y = []")
    case False
    show ?thesis unfolding buildView_loop.simps(2) if_not_P [OF False] by (rule step)
  qed (simp add: Cons.IH)
qed (simp add: guards_Ret)

lemma guards_buildItem:
  assumes "clear_namespace (im_ns im)" "session_name x"
  shows "guards im u x T t0 (buildItem im s)"
  using assms guards_reads guards_DeleteSession
  by (auto simp: buildItem_def session_name_def intro!: guards_rules split: sum.split)

lemma guards_AdminSessionList_loop:
  assumes "clear_namespace (im_ns im)" "session_name x" "u \<noteq> []"
  shows "guards im u x T t0 (AdminSessionList_loop im online ids owners n)"
proof (induction ids arbitrary: owners n t0)
  case (Cons y ids)
  have x: "x = TrimSpace x" "x \<noteq> []" using assms(2) by (simp_all add: session_name_def)
  have parts: "guards im u x T t (LoadSession im y)" "guards im u x T t (DropSessionIndexes im [] y)" "guards im u x T t (DeleteSession im y)"
      "guards im u x T t (buildItem im s)" for t s
    using guards_reads(1) guards_DropSessionIndexes [OF assms(1)] assms(3) guards_DeleteSession [OF assms(1) x] guards_buildItem [OF assms(1,2)]
    by auto
  show ?case
    by (auto intro!: guards_rules parts Cons.IH split: sum.split option.split)
qed (simp add: guards_Ret)

lemma guards_open_session:
  assumes "deployment im u" "session_name x" "newID \<noteq> Some x" "T \<le> t0 + im_expiration im"
  shows "guards im u x T t0 (open_session im cx user c tid newID)"
proof -
  note ns = deploymentD(1) [OF assms(1)] and wl = deploymentD(2) [OF assms(1)]
  have x: "x = TrimSpace x" "x \<noteq> []" using assms(2) by (simp_all add: session_name_def)
  have "s_ID (login_session im cx user c tid i now) = i" for i now by (simp add: login_session_def Let_def)
  then show ?thesis
    using assms(3,4) guards_keys(8) [OF ns] guards_DeleteSession [OF ns x]
    by (auto simp: open_session_def Let_def intro!: guards_rules guards_SaveSession [OF ns] guards_IndexSession [OF ns _ wl] split: option.split)
qed

lemma guards_Login:
  assumes "deployment im u" "session_name x" "newID \<noteq> Some x" "T \<le> t0 + im_expiration im"
    and "\<And>v a b. guards im u x T t0 (vf v a b)"
  shows "guards im u x T t0 (Login im az lc vf newID cx rq)"
proof -
  note ns = deploymentD(1) [OF assms(1)]
  have "guards im u x T t0 (db_read failed f)" for failed :: db_error and f :: "accounts \<Rightarrow> db_error + iam_user"
    by (simp add: db_read_def guards_rules)
  then show ?thesis
    using guards_keys [OF ns] guards_reads guards_open_session [OF assms(1-4)] assms(5)
    by (auto simp: Login_def Let_def ensureLoginNotLockedOut_def recordLoginFailure_def verifyLoginSecondFactor_def
        intro!: guards_rules split: sum.split option.split)
qed

lemma guards_sessions:
  assumes "clear_namespace (im_ns im)" "session_name x" "u \<noteq> []"
  shows "guards im u x T t0 (SessionList im cx)" "guards im u x T t0 (SessionGet im cx)" "guards im u x T t0 (SessionDelete im cx)"
    "guards im u x T t0 (SessionDeleteAll im cx)" "guards im u x T t0 (CurrentDelete im cx)" "guards im u x T t0 (Logout im cx)"
  using assms guards_bulk [OF assms] guards_keys [OF assms(1)] guards_reads guards_DeleteSession guards_SessionList_loop [OF assms(1,2)]
  by (auto simp: SessionList_def SessionGet_def SessionDelete_def SessionDeleteAll_def CurrentDelete_def Logout_def Let_def session_name_def
      intro!: guards_rules guards_with_current split: sum.split option.split)

lemma guards_actors:
  assumes "clear_namespace (im_ns im)" "session_name x" "u \<noteq> []"
  shows "guards im u x T t0 (loadAdminSessionActor im cx)" "guards im u x T t0 (LoadActor im cx)"
    "guards im u x T t0 (ApplyPasswordCredentialUpdate lc c p m)"
  using guards_CurrentSession [OF assms] guards_reads
  by (auto simp: loadAdminSessionActor_def LoadActor_def ApplyPasswordCredentialUpdate_def intro!: guards_rules split: sum.split)

lemma guards_admin_parts:
  assumes "clear_namespace (im_ns im)" "session_name x" "u \<noteq> []"
  shows "guards im u x T t0 (ensureAdminSessionActor im az cx)" "guards im u x T t0 (ensureAdminSessionTarget im az cx v)"
    "guards im u x T t0 (LoadActorAndTarget im cx i)" "guards im u x T t0 (buildView im user cid online)"
  using guards_actors [OF assms] guards_reads guards_keys [OF assms(1)] guards_buildView_loop [OF assms(1,2)]
  by (auto simp: ensureAdminSessionActor_def ensureAdminSessionTarget_def LoadActorAndTarget_def buildView_def Let_def
      intro!: guards_rules split: sum.split option.split)

lemma guards_admin:
  assumes "clear_namespace (im_ns im)" "session_name x" "u \<noteq> []"
  shows "guards im u x T t0 (AdminSessionDelete im az cx)" "guards im u x T t0 (AdminUserSessionDelete im az cx)"
    "guards im u x T t0 (AdminSessionGet im az cx)" "guards im u x T t0 (AdminSessionList im az cx online)"
    "guards im u x T t0 (AdminUserSessionList im az cx online)" "guards im u x T t0 (CurrentGet im az cx)"
proof -
  have x: "x = TrimSpace x" "x \<noteq> []" using assms(2) by (simp_all add: session_name_def)
  note parts = guards_bulk [OF assms] guards_keys [OF assms(1)] guards_reads guards_DeleteSession [OF assms(1) x]
    guards_AdminSessionList_loop [OF assms] guards_admin_parts [OF assms]
  show "guards im u x T t0 (AdminSessionDelete im az cx)" "guards im u x T t0 (AdminUserSessionDelete im az cx)"
    "guards im u x T t0 (AdminSessionGet im az cx)" "guards im u x T t0 (AdminSessionList im az cx online)"
    "guards im u x T t0 (AdminUserSessionList im az cx online)" "guards im u x T t0 (CurrentGet im az cx)"
    by (auto simp: AdminSessionDelete_def AdminUserSessionDelete_def AdminSessionGet_def AdminSessionList_def AdminUserSessionList_def
        CurrentGet_def Let_def intro!: guards_rules guards_with_current [OF assms] parts split: sum.split option.split)
qed

lemma guards_passwords:
  assumes "clear_namespace (im_ns im)" "session_name x" "u \<noteq> []"
  shows "guards im u x T t0 (ChangePassword im lc cx old new)" "guards im u x T t0 (ResetPassword im az lc cx v new)"
  using guards_bulk [OF assms] guards_keys [OF assms(1)] guards_reads guards_actors [OF assms] guards_admin_parts [OF assms]
  by (auto simp: ChangePassword_def ResetPassword_def
      intro!: guards_rules guards_with_current [OF assms] split: sum.split option.split credential_error.split)

lemma guards_handle:
  assumes "deployment im u" "session_name x" "u \<noteq> []" "new_session_id rq \<noteq> Some x" "T \<le> t0 + im_expiration im"
    and "\<And>v a b. guards im u x T t0 (vf v a b)"
  shows "guards im u x T t0 (handle_request im az lc vf rq)"
proof -
  note ns = deploymentD(1) [OF assms(1)]
  note parts = guards_sessions [OF ns assms(2,3)] guards_admin [OF ns assms(2,3)] guards_passwords [OF ns assms(2,3)]
    guards_Authenticate [OF assms(1-3)] guards_Login [OF assms(1,2) _ assms(5,6)]
  show ?thesis using assms(4) by (cases rq) (auto simp: silently_def intro!: guards_rules parts)
qed

end
