(* ===== verification/Iam_Revocation.thy ===== *)
theory Iam_Revocation
  imports Iam_Tracking
begin

text \<open>
  A login that reports success has put its session on the index of the user; with what the handlers
  keep of it, a revocation of all sessions of the user that reports success has ended it.
\<close>

section \<open>A login puts its session on the index\<close>

text \<open>
  The entry of the user's index while a session is being indexed, up to an instant \<open>N\<close>: it can take the
  new member, it names it, it names it and lives as long as the session.
\<close>

definition index_open :: "iam \<Rightarrow> string \<Rightarrow> int \<Rightarrow> int \<Rightarrow> keyspace \<Rightarrow> bool" where
  "index_open im u N t ks \<longleftrightarrow> (t \<le> N \<longrightarrow>
     held t ks (Key (im_ns im) (sessionIndexUserKey u)) = None \<or>
     (\<exists>z d. ks (Key (im_ns im) (sessionIndexUserKey u)) = Some (Sorted z, d) \<and> (\<forall>dl. d = Some dl \<longrightarrow> N < dl)))"

definition index_named :: "iam \<Rightarrow> string \<Rightarrow> string \<Rightarrow> int \<Rightarrow> int \<Rightarrow> int \<Rightarrow> keyspace \<Rightarrow> bool" where
  "index_named im u x T N t ks \<longleftrightarrow> (t \<le> N \<longrightarrow>
     (\<exists>z d. ks (Key (im_ns im) (sessionIndexUserKey u)) = Some (Sorted z, d) \<and> zmember z x = Some (UnixMilli T) \<and> (\<forall>dl. d = Some dl \<longrightarrow> N < dl)))"

definition index_tracked :: "iam \<Rightarrow> string \<Rightarrow> string \<Rightarrow> int \<Rightarrow> int \<Rightarrow> int \<Rightarrow> keyspace \<Rightarrow> bool" where
  "index_tracked im u x T N t ks \<longleftrightarrow> (t \<le> N \<longrightarrow> tracked im u x T ks)"

text \<open>The condition on the index, from an instant on, together with the owner of the snapshot.\<close>

definition indexing :: "iam \<Rightarrow> string \<Rightarrow> string \<Rightarrow> int \<Rightarrow> (int \<Rightarrow> keyspace \<Rightarrow> bool) \<Rightarrow> int \<Rightarrow> keyspace \<Rightarrow> bool" where
  "indexing im u x t0 I t ks \<longleftrightarrow> t0 \<le> t \<and> I t ks \<and> owned_by im u x t ks"

lemma ages_indexing:
  "ages (indexing im u x t0 (index_open im u N))" "ages (indexing im u x t0 (index_named im u x T N))"
  "ages (indexing im u x t0 (index_tracked im u x T N))"
  by (auto simp: ages_def indexing_def index_open_def index_named_def index_tracked_def owned_by_def stored_snapshot_def
      dest: held_later intro: held_None_later)

lemma keeps_indexing:
  assumes "\<not> names (Key (im_ns im) (sessionIndexUserKey u)) c" "\<not> names (Key (im_ns im) (sessionDataKey x)) c"
  shows "keeps (indexing im u x t0 (index_open im u N)) c" "keeps (indexing im u x t0 (index_named im u x T N)) c"
    "keeps (indexing im u x t0 (index_tracked im u x T N)) c"
proof -
  have k: "snd (redis_command c t ks) (Key (im_ns im) (sessionIndexUserKey u)) = ks (Key (im_ns im) (sessionIndexUserKey u))"
    and d: "snd (redis_command c t ks) (Key (im_ns im) (sessionDataKey x)) = ks (Key (im_ns im) (sessionDataKey x))" for t ks
    using command_other [OF _ assms(1)] command_other [OF _ assms(2)] by (metis prod.collapse)+
  show "keeps (indexing im u x t0 (index_open im u N)) c" "keeps (indexing im u x t0 (index_named im u x T N)) c"
      "keeps (indexing im u x t0 (index_tracked im u x T N)) c"
    by (simp_all add: keeps_def indexing_def index_open_def index_named_def index_tracked_def tracked_def owned_by_def stored_snapshot_def held_def k d)
qed

lemma owned_other:
  assumes "\<not> names (Key (im_ns im) (sessionDataKey x)) c" "owned_by im u x t ks"
  shows "owned_by im u x t (snd (redis_command c t ks))"
proof -
  have "snd (redis_command c t ks) (Key (im_ns im) (sessionDataKey x)) = ks (Key (im_ns im) (sessionDataKey x))"
    using command_other [OF _ assms(1)] by (metis prod.collapse)
  then show ?thesis using assms(2) by (simp add: owned_by_def stored_snapshot_def held_def)
qed

lemma ZAdd_indexing:
  assumes "clear_namespace (im_ns im)"
  shows "triple (holds (indexing im u x t0 (index_open im u N))) (redis_ZAdd (im_ns im) (sessionIndexUserKey u) (UnixMilli T) [x])
    (\<lambda>r w. r = None \<longrightarrow> holds (indexing im u x t0 (index_named im u x T N)) w)"
  unfolding redis_ZAdd_def
proof (simp, rule triple_Redis [where R = "\<lambda>r w. r \<noteq> R_failed \<longrightarrow> holds (indexing im u x t0 (index_named im u x T N)) w"])
  let ?K = "Key (im_ns im) (sessionIndexUserKey u)" and ?D = "Key (im_ns im) (sessionDataKey x)"
  let ?c = "ZADD ?K (UnixMilli T) [x]"
  have ne: "?D \<noteq> ?K" using assms by (simp add: Key_inj)
  have step: "fst (redis_command ?c t ks) \<noteq> R_failed \<Longrightarrow> indexing im u x t0 (index_named im u x T N) t (snd (redis_command ?c t ks))"
    if "indexing im u x t0 (index_open im u N) t ks" for t ks
  proof -
    have o: "owned_by im u x t (snd (redis_command ?c t ks))"
      by (rule owned_other) (use that ne in \<open>auto simp: indexing_def\<close>)
    have m: "zmember (zadd x (UnixMilli T) z) x = Some (UnixMilli T)" for z by (simp add: zmember_zadd)
    have "index_named im u x T N t (snd (redis_command ?c t ks))" if "fst (redis_command ?c t ks) \<noteq> R_failed"
      using that \<open>indexing im u x t0 (index_open im u N) t ks\<close> m keep_sorted_member [OF m]
      by (auto simp: indexing_def index_open_def index_named_def held_def split: option.splits rvalue.splits if_splits)
    then show "fst (redis_command ?c t ks) \<noteq> R_failed \<Longrightarrow> ?thesis" using o that by (simp add: indexing_def)
  qed
  have weak: "indexing im u x t0 (index_named im u x T N) t ks \<Longrightarrow> indexing im u x t0 (index_open im u N) t ks" for t ks
    by (auto simp: indexing_def index_named_def index_open_def)
  have same: "fst (redis_command ?c t ks) = R_failed \<Longrightarrow> snd (redis_command ?c t ks) = ks" for t ks
    by (auto split: option.splits prod.splits rvalue.splits)
  have keep: "keeps (indexing im u x t0 (index_open im u N)) ?c" unfolding keeps_def using step weak same by metis
  fix ch :: choice and w :: "(keyspace, 'd) world" and r w'
  assume "holds (indexing im u x t0 (index_open im u N)) w" "redis_call redis_command ch ?c w = (r, w')"
  then show "r \<noteq> R_failed \<longrightarrow> holds (indexing im u x t0 (index_named im u x T N)) w'"
    using call_keeps(2) [OF keep ages_indexing(1)] step by (metis fst_conv holds_def snd_conv)
qed (auto intro!: triple_Ret elim!: status_reply.elims)

lemma Expire_indexing:
  assumes "clear_namespace (im_ns im)" "whole_lifetime im" "T \<le> t0 + im_expiration im" "N < T"
  shows "triple (holds (indexing im u x t0 (index_named im u x T N))) (redis_Expire (im_ns im) (sessionIndexUserKey u) (indexRetention im))
    (\<lambda>r w. r = None \<longrightarrow> holds (indexing im u x t0 (index_tracked im u x T N)) w)"
  unfolding redis_Expire_def formatSec_whole [OF assms(2)]
proof (rule triple_Redis [where R = "\<lambda>r w. r \<noteq> R_failed \<longrightarrow> holds (indexing im u x t0 (index_tracked im u x T N)) w"])
  let ?K = "Key (im_ns im) (sessionIndexUserKey u)" and ?D = "Key (im_ns im) (sessionDataKey x)"
  let ?c = "EXPIRE ?K (im_expiration im)"
  have ne: "?D \<noteq> ?K" using assms by (simp add: Key_inj)
  have step: "indexing im u x t0 (index_tracked im u x T N) t (snd (redis_command ?c t ks))" if i: "indexing im u x t0 (index_named im u x T N) t ks" for t ks
  proof -
    have o: "owned_by im u x t (snd (redis_command ?c t ks))"
      by (rule owned_other) (use i ne in \<open>auto simp: indexing_def\<close>)
    have "tracked im u x T (snd (redis_command ?c t ks))" if tn: "t \<le> N"
    proof -
      obtain z d where z: "ks ?K = Some (Sorted z, d)" "zmember z x = Some (UnixMilli T)" "\<forall>dl. d = Some dl \<longrightarrow> N < dl"
        using i tn by (auto simp: indexing_def index_named_def)
      then have "held t ks ?K = Some (Sorted z, d)" using tn by (auto simp: held_def split: option.split)
      then show ?thesis using z i assms(2,3) by (auto simp: tracked_def indexing_def whole_lifetime_def)
    qed
    then show ?thesis using i o by (simp add: indexing_def index_tracked_def)
  qed
  have weak: "indexing im u x t0 (index_tracked im u x T N) t ks \<Longrightarrow> indexing im u x t0 (index_named im u x T N) t ks" for t ks
    using assms(4) by (fastforce simp: indexing_def index_named_def index_tracked_def tracked_def)
  have keep: "keeps (indexing im u x t0 (index_named im u x T N)) ?c" unfolding keeps_def using step weak by blast
  fix ch :: choice and w :: "(keyspace, 'd) world" and r w'
  assume "holds (indexing im u x t0 (index_named im u x T N)) w" "redis_call redis_command ch ?c w = (r, w')"
  then show "r \<noteq> R_failed \<longrightarrow> holds (indexing im u x t0 (index_tracked im u x T N)) w'"
    using call_keeps(2) [OF keep ages_indexing(2)] step by (metis holds_def snd_conv)
qed (auto intro!: triple_Ret elim!: status_reply.elims)

lemma triple_or_undo:
  assumes "triple P st (\<lambda>r w. r = None \<longrightarrow> R w)" "triple R rest (\<lambda>r w. r = None \<longrightarrow> Q w)"
  shows "triple P (or_undo im s st rest) (\<lambda>r w. r = None \<longrightarrow> Q w)"
  unfolding or_undo_def
proof (rule triple_pbind [OF assms(1)])
  fix r :: "redis_error option"
  have undo: "triple (\<lambda>_. True) (pbind (DropSessionIndexes im (s_UserID s) (s_ID s)) (\<lambda>_. Ret (Some indexSessionError))) (\<lambda>r w. r = None \<longrightarrow> Q w)"
    by (rule triple_pbind [where R = "\<lambda>_ _. True"]) (auto simp: triple_def)
  show "triple (\<lambda>w. r = None \<longrightarrow> R w)
     (if r \<noteq> None then pbind (DropSessionIndexes im (s_UserID s) (s_ID s)) (\<lambda>_. Ret (Some indexSessionError)) else rest) (\<lambda>r w. r = None \<longrightarrow> Q w)"
    using assms(2) undo by (cases r) (auto simp: triple_def)
qed

lemma indexing_other:
  assumes "clear_namespace (im_ns im)" "framework_key k" "k \<noteq> sessionIndexUserKey u" "\<And>i. k \<noteq> sessionDataKey i"
  shows "triple (holds (indexing im u x t0 (index_open im u N))) (pruneIndex im k cutoff) (\<lambda>_. holds (indexing im u x t0 (index_open im u N)))"
    and "triple (holds (indexing im u x t0 (index_named im u x T N))) (redis_ZAdd (im_ns im) k sc [y]) (\<lambda>r w. r = None \<longrightarrow> holds (indexing im u x t0 (index_named im u x T N)) w)"
    and "triple (holds (indexing im u x t0 (index_tracked im u x T N))) (redis_Expire (im_ns im) k ttl) (\<lambda>r w. r = None \<longrightarrow> holds (indexing im u x t0 (index_tracked im u x T N)) w)"
    and "triple (holds (indexing im u x t0 (index_tracked im u x T N))) (redis_Del (im_ns im) [k]) (\<lambda>_. holds (indexing im u x t0 (index_tracked im u x T N)))"
proof -
  have apart: "Key (im_ns im) (sessionIndexUserKey u) \<noteq> Key (im_ns im) k" "Key (im_ns im) (sessionDataKey x) \<noteq> Key (im_ns im) k"
    using assms assms(4) [of x, symmetric] by (auto simp: Key_inj)
  show "triple (holds (indexing im u x t0 (index_open im u N))) (pruneIndex im k cutoff) (\<lambda>_. holds (indexing im u x t0 (index_open im u N)))"
    by (rule triple_issues [OF _ ages_indexing(1)])
       (use apart in \<open>auto simp: pruneIndex_def issues_simps intro!: issues_pbind keeps_indexing\<close>)
  show "triple (holds (indexing im u x t0 (index_named im u x T N))) (redis_ZAdd (im_ns im) k sc [y]) (\<lambda>r w. r = None \<longrightarrow> holds (indexing im u x t0 (index_named im u x T N)) w)"
    by (rule triple_weaken [OF triple_issues [OF _ ages_indexing(2)]])
       (use apart in \<open>auto simp: issues_simps intro!: issues_redis_guarded keeps_indexing\<close>)
  show "triple (holds (indexing im u x t0 (index_tracked im u x T N))) (redis_Expire (im_ns im) k ttl) (\<lambda>r w. r = None \<longrightarrow> holds (indexing im u x t0 (index_tracked im u x T N)) w)"
    by (rule triple_weaken [OF triple_issues [OF _ ages_indexing(3)]])
       (use apart in \<open>auto simp: issues_simps intro!: keeps_indexing\<close>)
  show "triple (holds (indexing im u x t0 (index_tracked im u x T N))) (redis_Del (im_ns im) [k]) (\<lambda>_. holds (indexing im u x t0 (index_tracked im u x T N)))"
    by (rule triple_issues [OF _ ages_indexing(3)])
       (use apart in \<open>auto simp: issues_simps namespacedKeys_def intro!: keeps_indexing\<close>)
qed

lemma index_writes_tracks:
  assumes "clear_namespace (im_ns im)" "whole_lifetime im" "s_ExpiresAt s \<le> t0 + im_expiration im" "N < s_ExpiresAt s"
  shows "triple (holds (indexing im (s_UserID s) (s_ID s) t0 (index_open im (s_UserID s) N))) (index_writes im s)
    (\<lambda>r w. r = None \<longrightarrow> holds (indexing im (s_UserID s) (s_ID s) t0 (index_tracked im (s_UserID s) (s_ID s) (s_ExpiresAt s) N)) w)"
  unfolding index_writes_def Let_def
proof (rule triple_pbind [OF ZAdd_indexing [OF assms(1)]])
  let ?u = "s_UserID s" and ?x = "s_ID s" and ?T = "s_ExpiresAt s" and ?ns = "im_ns im"
  let ?named = "holds (indexing im ?u ?x t0 (index_named im ?u ?x ?T N)) :: (keyspace, accounts) world \<Rightarrow> bool"
  let ?done = "\<lambda>r w. r = None \<longrightarrow> holds (indexing im ?u ?x t0 (index_tracked im ?u ?x ?T N)) w"
  note other = indexing_other [OF assms(1), of sessionIndexAllKey] indexing_other [OF assms(1), of sessionIndexSeenKey]
  have e3: "triple (holds (indexing im ?u ?x t0 (index_tracked im ?u ?x ?T N)))
      (or_undo im s (redis_Expire ?ns sessionIndexSeenKey (seenIndexRetention im)) (Ret None)) ?done"
    by (rule triple_or_undo [OF other(7)]) (auto intro: triple_Ret)
  have e2: "triple (holds (indexing im ?u ?x t0 (index_tracked im ?u ?x ?T N)))
      (or_undo im s (redis_Expire ?ns sessionIndexAllKey (indexRetention im))
        (or_undo im s (redis_Expire ?ns sessionIndexSeenKey (seenIndexRetention im)) (Ret None))) ?done"
    by (rule triple_or_undo [OF other(3) e3]) auto
  note e1 = triple_or_undo [OF Expire_indexing [OF assms, of ?u ?x] e2, of im s]
  have z2: "triple ?named (redis_ZAdd ?ns sessionIndexSeenKey (UnixMilli (s_LastSeenAt s)) [?x]) (\<lambda>r w. r = None \<longrightarrow> ?named w)"
    by (rule other(6)) auto
  have z1: "triple ?named (redis_ZAdd ?ns sessionIndexAllKey (UnixMilli ?T) [?x]) (\<lambda>r w. r = None \<longrightarrow> ?named w)"
    by (rule other(2)) auto
  note rest = triple_or_undo [OF z1 triple_or_undo [OF z2 e1], of im s im s]
  fix r1 :: "redis_error option"
  show "triple (\<lambda>w. r1 = None \<longrightarrow> ?named w)
     (if r1 \<noteq> None then Ret (Some indexSessionError)
      else or_undo im s (redis_ZAdd ?ns sessionIndexAllKey (UnixMilli ?T) [?x])
           (or_undo im s (redis_ZAdd ?ns sessionIndexSeenKey (UnixMilli (s_LastSeenAt s)) [?x])
           (or_undo im s (redis_Expire ?ns (sessionIndexUserKey ?u) (indexRetention im))
           (or_undo im s (redis_Expire ?ns sessionIndexAllKey (indexRetention im))
           (or_undo im s (redis_Expire ?ns sessionIndexSeenKey (seenIndexRetention im))
           (Ret None)))))) ?done"
    using rest by (cases r1) (auto simp: triple_def)
qed

lemma IndexSession_tracks:
  assumes "clear_namespace (im_ns im)" "whole_lifetime im" "s_ExpiresAt s \<le> t0 + im_expiration im" "N < s_ExpiresAt s"
    "s_UserID s \<noteq> []" "s_ID s \<noteq> []"
  shows "triple (holds (indexing im (s_UserID s) (s_ID s) t0 (index_open im (s_UserID s) N))) (IndexSession im s)
    (\<lambda>r w. r = None \<longrightarrow> holds (indexing im (s_UserID s) (s_ID s) t0 (index_tracked im (s_UserID s) (s_ID s) (s_ExpiresAt s) N)) w)"
  (is "triple (holds ?O) _ ?Q")
proof -
  have now: "triple (holds ?O) (Now k) ?Q" if "\<And>t. triple (holds ?O) (k t) ?Q" for k :: "int \<Rightarrow> (iam_error option) iam_prog"
    by (rule triple_Now [where R = "\<lambda>_. holds ?O"]) (auto intro: holds_ages [OF ages_indexing(1)] that)
  have prune: "triple (holds ?O) (pruneIndex im sessionIndexSeenKey c) (\<lambda>_. holds ?O)" for c
    by (rule indexing_other(1) [OF assms(1)]) auto
  show ?thesis
    unfolding IndexSession_def using assms(5,6) index_writes_tracks [OF assms(1-4)]
    by (auto intro!: now triple_pbind [OF prune] triple_Ret)
qed

text \<open>The snapshot is stored first, so that the session has an owner by the time it is indexed.\<close>

definition index_ready :: "iam \<Rightarrow> string \<Rightarrow> int \<Rightarrow> int \<Rightarrow> int \<Rightarrow> keyspace \<Rightarrow> bool" where
  "index_ready im u N t0 t ks \<longleftrightarrow> t0 \<le> t \<and> index_open im u N t ks"

lemma SaveSession_owned:
  assumes "deployment im (s_UserID s)"
  shows "triple (holds (index_ready im (s_UserID s) N t0)) (SaveSession im s ttl)
    (\<lambda>r w. r = None \<longrightarrow> holds (indexing im (s_UserID s) (s_ID s) t0 (index_open im (s_UserID s) N)) w)"
proof -
  let ?K = "Key (im_ns im) (sessionIndexUserKey (s_UserID s))" and ?D = "Key (im_ns im) (sessionDataKey (s_ID s))"
  let ?c = "SET ?D (im_enc im s) (formatMs ttl)"
  let ?J = "index_ready im (s_UserID s) N t0"
  have ne: "?K \<noteq> ?D" using deploymentD(1) [OF assms] by (simp add: Key_inj)
  have ages: "ages ?J" by (auto simp: ages_def index_ready_def index_open_def intro: held_None_later)
  have keep: "keeps ?J ?c" using ne by (simp add: keeps_def index_ready_def index_open_def)
  have owned: "owned_by im (s_UserID s) (s_ID s) t (snd (redis_command ?c t ks))" for t ks
  proof -
    have "s_UserID s' = s_UserID s" if "im_dec im (im_enc im s) = Some s'" for s' using deploymentD(3) [OF assms refl that] .
    then show ?thesis by (auto simp: owned_by_def stored_snapshot_def split: option.splits if_splits)
  qed
  have stored: "triple (holds ?J) (redis_Set (im_ns im) (sessionDataKey (s_ID s)) (im_enc im s) ttl :: (redis_error option) iam_prog)
      (\<lambda>r w. r = None \<longrightarrow> holds (indexing im (s_UserID s) (s_ID s) t0 (index_open im (s_UserID s) N)) w)"
    unfolding redis_Set_def
  proof (rule triple_Redis [where R = "\<lambda>r w. r \<noteq> R_failed \<longrightarrow> holds (indexing im (s_UserID s) (s_ID s) t0 (index_open im (s_UserID s) N)) w"])
    fix ch :: choice and w :: "(keyspace, accounts) world" and r w'
    assume w: "holds ?J w" and c: "redis_call redis_command ch ?c w = (r, w')"
    note k = call_keeps [OF keep ages c w]
    have "owned_by im (s_UserID s) (s_ID s) (w_now w') (w_redis w')" if "r \<noteq> R_failed"
      using k(2) [OF that] owned by (metis snd_conv)
    then show "r \<noteq> R_failed \<longrightarrow> holds (indexing im (s_UserID s) (s_ID s) t0 (index_open im (s_UserID s) N)) w'"
      using k(1) by (simp add: holds_def indexing_def index_ready_def)
  qed (auto intro!: triple_Ret elim!: status_reply.elims)
  show ?thesis
    unfolding SaveSession_def by (auto intro!: triple_pbind [OF stored] triple_Ret split: option.split)
qed

lemma login_session_fields:
  "s_ID (login_session im cx user c tid i now) = i" "s_UserID (login_session im cx user c tid i now) = u_ID user"
  "s_ExpiresAt (login_session im cx user c tid i now) = now + im_expiration im"
  by (simp_all add: login_session_def Let_def)

lemma open_session_tracks:
  assumes "deployment im (u_ID user)" "u_ID user \<noteq> []"
  shows "triple (\<lambda>w. index_open im (u_ID user) N (w_now w) (w_redis w)) (open_session im cx user c tid newID)
    (\<lambda>(r, _) w. \<forall>s. r = Inr s \<longrightarrow> live_until (s_ExpiresAt s) N \<longrightarrow>
       newID = Some (s_ID s) \<and> s_UserID s = u_ID user \<and> s_ExpiresAt s \<le> w_now w + im_expiration im \<and>
       holds (indexing im (u_ID user) (s_ID s) (s_IssuedAt s) (index_tracked im (u_ID user) (s_ID s) (s_ExpiresAt s) N)) w)"
  (is "triple ?P _ ?Q")
proof -
  note ns = deploymentD(1) [OF assms(1)] and wl = deploymentD(2) [OF assms(1)]
  have body: "triple (holds (index_ready im (u_ID user) N now)) (pbind (SaveSession im s (im_expiration im)) (\<lambda>r.
             case r of
               Some err \<Rightarrow> refuse err
             | None \<Rightarrow>
                 pbind (IndexSession im s) (\<lambda>x.
                   case x of
                     Some err \<Rightarrow> pbind (DeleteSession im i) (\<lambda>_. refuse (Svc 500 ''failed to track user session''))
                   | None \<Rightarrow> pbind (ClearLoginFailures im (u_Username user)) (\<lambda>_. Ret (Inr s, SetCookie i (im_expiration im)))))) ?Q"
    if s: "s = login_session im cx user c tid i now" and newID: "newID = Some i" for s i now
  proof -
    have f: "s_ID s = i" "s_UserID s = u_ID user" "s_ExpiresAt s = now + im_expiration im" "s_IssuedAt s = now"
      using s by (simp_all add: login_session_def Let_def)
    let ?O = "holds (indexing im (u_ID user) i now (index_open im (u_ID user) N)) :: (keyspace, accounts) world \<Rightarrow> bool"
    let ?I = "holds (indexing im (u_ID user) i now (index_tracked im (u_ID user) i (s_ExpiresAt s) N)) :: (keyspace, accounts) world \<Rightarrow> bool"
    have fail: "triple (\<lambda>_. True) (pbind (DeleteSession im i) (\<lambda>_. refuse (Svc 500 ''failed to track user session''))) ?Q"
      by (rule triple_pbind [where R = "\<lambda>_ _. True"]) (auto simp: triple_def)
    have clear: "triple ?I (ClearLoginFailures im (u_Username user)) (\<lambda>_. ?I)"
      unfolding ClearLoginFailures_def
      by (auto intro!: triple_Ret triple_pbind [OF indexing_other(4) [OF ns]] simp: key_defs framework_key_def)
    let ?live = "live_until (s_ExpiresAt s) N"
    have finish: "triple (\<lambda>w. ?live \<longrightarrow> ?I w) (pbind (ClearLoginFailures im (u_Username user)) (\<lambda>_. Ret (Inr s, SetCookie i (im_expiration im)))) ?Q"
    proof (cases ?live)
      case True
      have "?Q (Inr s, SetCookie i (im_expiration im)) w" if "?I w" for w :: "(keyspace, accounts) world"
        using that newID f by (simp add: holds_def indexing_def)
      then have "triple ?I (pbind (ClearLoginFailures im (u_Username user)) (\<lambda>_. Ret (Inr s, SetCookie i (im_expiration im)))) ?Q"
        by (intro triple_pbind [OF clear] triple_Ret)
      then show ?thesis using True by (simp add: triple_def)
    next
      case False
      then show ?thesis by (intro triple_pbind [where R = "\<lambda>_ _. True"]) (auto simp: triple_def)
    qed
    have index: "triple ?O (IndexSession im s) (\<lambda>r w. r = None \<longrightarrow> ?live \<longrightarrow> ?I w)" if "i \<noteq> []"
    proof (cases ?live)
      case True
      then have "N < s_ExpiresAt s" using live_until_less by blast
      then show ?thesis using IndexSession_tracks [OF ns wl, of s now N] f assms(2) that by (auto simp: triple_def)
    qed (simp add: triple_def)
    have saved: "triple ?O (pbind (IndexSession im s) (\<lambda>x. case x of
          Some err \<Rightarrow> pbind (DeleteSession im i) (\<lambda>_. refuse (Svc 500 ''failed to track user session''))
        | None \<Rightarrow> pbind (ClearLoginFailures im (u_Username user)) (\<lambda>_. Ret (Inr s, SetCookie i (im_expiration im))))) ?Q" if "i \<noteq> []"
      by (rule triple_pbind [OF index [OF that]]) (use finish fail in \<open>auto simp: triple_def split: option.split\<close>)
    show ?thesis
    proof (cases "i = []")
      case True
      then show ?thesis using f by (simp add: SaveSession_def triple_def)
    next
      case False
      show ?thesis
        by (rule triple_pbind [OF SaveSession_owned [of im s N now, unfolded f(1,2), OF assms(1)]])
           (use saved [OF False] in \<open>auto simp: triple_def split: option.split\<close>)
    qed
  qed
  show ?thesis
    unfolding open_session_def Let_def
  proof (rule triple_Now [where R = "\<lambda>now. holds (index_ready im (u_ID user) N now)"])
    fix w :: "(keyspace, accounts) world" and t
    assume "index_open im (u_ID user) N (w_now w) (w_redis w)" "w_now w \<le> t"
    then show "holds (index_ready im (u_ID user) N t) (w\<lparr>w_now := t\<rparr>)"
      by (auto simp: holds_def index_ready_def index_open_def intro: held_None_later)
  next
    fix t
    show "triple (holds (index_ready im (u_ID user) N t)) (case newID of
        None \<Rightarrow> refuse (Svc 500 ''failed to create session id'')
      | Some i \<Rightarrow> pbind (SaveSession im (login_session im cx user c tid i t) (im_expiration im)) (\<lambda>r.
          case r of
            Some err \<Rightarrow> refuse err
          | None \<Rightarrow>
              pbind (IndexSession im (login_session im cx user c tid i t)) (\<lambda>x.
                case x of
                  Some err \<Rightarrow> pbind (DeleteSession im i) (\<lambda>_. refuse (Svc 500 ''failed to track user session''))
                | None \<Rightarrow> pbind (ClearLoginFailures im (u_Username user))
                    (\<lambda>_. Ret (Inr (login_session im cx user c tid i t), SetCookie i (im_expiration im)))))) ?Q"
    proof (cases newID)
      case (Some i)
      show ?thesis using body [OF refl Some, of t] by (simp only: Some option.case)
    qed (simp add: triple_def)
  qed
qed


lemma open_session_owner:
  "returns (\<lambda>(r, _). \<forall>s. r = Inr s \<longrightarrow> s_UserID s = u_ID user) (open_session im cx user c tid newID)"
  by (auto simp: open_session_def Let_def login_session_def intro!: returns_pbind_any split: option.split)

text \<open>The checks of a login before the session is opened leave the index of every user alone.\<close>

definition leaves_sessions :: "iam \<Rightarrow> ('d, 'a) prog \<Rightarrow> bool" where
  "leaves_sessions im = issues (\<lambda>c. \<forall>y. \<not> names (Key (im_ns im) (sessionDataKey y)) c \<and> \<not> names (Key (im_ns im) (sessionIndexUserKey y)) c)"

lemma leaves_sessions_guards: "leaves_sessions im p \<Longrightarrow> guards im u x T t0 p"
proof (rule guards_issues)
  assume l: "leaves_sessions im p"
  have h: "harmless im u x T t0 c"
    if "\<forall>y. \<not> names (Key (im_ns im) (sessionDataKey y)) c \<and> \<not> names (Key (im_ns im) (sessionIndexUserKey y)) c" for c
    using that by (cases c) auto
  show "issues (harmless im u x T t0) p" using l h unfolding leaves_sessions_def by (induction p rule: prog_induct) auto
qed

lemma leaves_sessions_open:
  "leaves_sessions im p \<Longrightarrow> triple (holds (index_open im u N)) p (\<lambda>_. holds (index_open im u N))"
proof (rule triple_issues)
  assume l: "leaves_sessions im p"
  have h: "keeps (index_open im u N) c" if n: "\<not> names (Key (im_ns im) (sessionIndexUserKey u)) c" for c
  proof -
    have "snd (redis_command c t ks) (Key (im_ns im) (sessionIndexUserKey u)) = ks (Key (im_ns im) (sessionIndexUserKey u))" for t ks
      using command_other [OF _ n] by (metis prod.collapse)
    then show ?thesis by (simp add: keeps_def index_open_def held_def)
  qed
  then show "issues (keeps (index_open im u N)) p"
    using l unfolding leaves_sessions_def by (induction p rule: prog_induct) auto
qed (auto simp: ages_def index_open_def intro: held_None_later)

lemma leaves_sessions_checks:
  assumes "clear_namespace (im_ns im)"
  shows "leaves_sessions im (db_read failed f)" "leaves_sessions im (LoadPasswordCredential v)"
    "leaves_sessions im (ensureLoginNotLockedOut im lc n)" "leaves_sessions im (recordLoginFailure im lc n)"
    "leaves_sessions im p \<Longrightarrow> leaves_sessions im (verifyLoginSecondFactor p)"
proof -
  have apart: "loginFailureKey n \<noteq> sessionIndexUserKey y" "sessionIndexUserKey y \<noteq> loginFailureKey n"
      "loginFailureKey n \<noteq> sessionDataKey y" "sessionDataKey y \<noteq> loginFailureKey n" for n y by (simp_all add: key_defs)
  then show "leaves_sessions im (db_read failed f)" "leaves_sessions im (LoadPasswordCredential v)"
    "leaves_sessions im (ensureLoginNotLockedOut im lc n)" "leaves_sessions im (recordLoginFailure im lc n)"
    "leaves_sessions im p \<Longrightarrow> leaves_sessions im (verifyLoginSecondFactor p)"
    using assms
    by (auto simp: leaves_sessions_def db_read_def LoadPasswordCredential_def loadSessionPasswordCredential_def ensureLoginNotLockedOut_def
        LoginFailures_def recordLoginFailure_def RecordLoginFailure_def verifyLoginSecondFactor_def issues_simps Key_inj namespacedKeys_def
        intro!: issues_pbind issues_redis_guarded split: sum.splits option.splits)
qed

definition opened_on_index :: "iam \<Rightarrow> string \<Rightarrow> string option \<Rightarrow> int \<Rightarrow> session answer \<Rightarrow> (keyspace, 'd) world \<Rightarrow> bool" where
  "opened_on_index im u newID N a w \<longleftrightarrow> (\<forall>s. fst a = Inr s \<longrightarrow> s_UserID s = u \<longrightarrow> live_until (s_ExpiresAt s) N \<longrightarrow>
     newID = Some (s_ID s) \<and> s_ExpiresAt s \<le> w_now w + im_expiration im \<and>
     holds (indexing im u (s_ID s) (s_IssuedAt s) (index_tracked im u (s_ID s) (s_ExpiresAt s) N)) w)"

lemma Login_tracks:
  assumes "deployment im u" "u \<noteq> []" "\<And>v a b. leaves_sessions im (vf v a b)"
  shows "triple (holds (index_open im u N)) (Login im az lc vf newID cx rq) (opened_on_index im u newID N)"
proof -
  note ns = deploymentD(1) [OF assms(1)]
  note step = triple_pbind [OF leaves_sessions_open]
  have refused: "triple (holds (index_open im u N)) (refuse err) (opened_on_index im u newID N)" for err
    by (simp add: triple_def opened_on_index_def)
  have opened: "triple (holds (index_open im u N)) (open_session im cx user c tid newID) (opened_on_index im u newID N)" for user c tid
  proof (cases "u_ID user = u")
    case True
    then show ?thesis
      by (intro triple_weaken [OF open_session_tracks [of im user N]]) (use assms(1,2) in \<open>auto simp: opened_on_index_def holds_def\<close>)
  next
    case False
    then show ?thesis
      using exec_returns [OF open_session_owner] unfolding triple_def opened_on_index_def by (fastforce simp del: split_paired_All)
  qed
  show ?thesis
    unfolding Login_def Let_def
    by (auto intro!: step leaves_sessions_checks [OF ns] assms(3) refused opened split: sum.split option.split)
qed


section \<open>Revocation\<close>

text \<open>Requests served one after the other, each completely.\<close>

primrec in_turn :: "('d, unit) prog list \<Rightarrow> ('d, unit) prog" where
  "in_turn [] = Ret ()"
| "in_turn (p # ps) = pbind p (\<lambda>_. in_turn ps)"

lemma guards_in_turn: "(\<And>p. p \<in> set ps \<Longrightarrow> guards im u x T t0 p) \<Longrightarrow> guards im u x T t0 (in_turn ps)"
  by (induction ps) (auto intro!: guards_rules)

lemma opened_on_watch:
  assumes "opened_on_index im u newID (w_now w) a w" "fst a = Inr s" "s_UserID s = u"
  shows "holds (on_watch im u (s_ID s) (s_ExpiresAt s) (w_now w)) w"
  using assms by (auto simp: opened_on_index_def holds_def on_watch_def tracked_or_gone_def indexing_def index_tracked_def)

lemma exec_guards:
  assumes "guards im u x T (w_now w) p" "holds (on_watch im u x T (w_now w)) w" "exec redis_command p e w = (a, e', w')"
  shows "holds (on_watch im u x T (w_now w)) w'"
  using assms unfolding guards_def triple_def by blast

lemma requests_watch:
  assumes "deployment im u" "session_name x" "u \<noteq> []" "\<forall>rq\<in>set rqs. new_session_id rq \<noteq> Some x" "T \<le> w_now w + im_expiration im"
    and "\<forall>v a b. leaves_sessions im (vf v a b)" "holds (on_watch im u x T (w_now w)) w"
    and "exec redis_command (in_turn (map (handle_request im az lc vf) rqs)) e w = (a, e', w')"
  shows "holds (on_watch im u x T (w_now w)) w'"
proof (rule exec_guards [OF _ assms(7,8)], rule guards_in_turn)
  have vf: "guards im u x T (w_now w) (vf v b c)" for v b c by (rule leaves_sessions_guards) (use assms(6) in simp)
  fix p assume "p \<in> set (map (handle_request im az lc vf) rqs)"
  then obtain rq where rq: "rq \<in> set rqs" and p: "p = handle_request im az lc vf rq" by auto
  show "guards im u x T (w_now w) p" unfolding p by (rule guards_handle [OF assms(1-3) _ assms(5) vf]) (use assms(4) rq in simp)
qed

lemma revocation_watch:
  assumes "deployment im u" "session_name x" "u \<noteq> []" "holds (on_watch im u x T t0) w"
    and "exec redis_command (DeleteUserSessions im u) e w = (None, e', w')"
  shows "gone_while_live im x T (w_now w') (w_redis w')"
proof -
  have "triple (holds (on_watch im u x T t0)) (DeleteUserSessions im u) (\<lambda>r w. holds (on_watch im u x T t0) w \<and>
      (r = None \<longrightarrow> u = u \<longrightarrow> holds (lost im x T t0) w))"
    using deploymentD(1) [OF assms(1)] assms(2,3) by (intro DeleteUserSessions_watched) (auto simp: session_name_def)
  then have "holds (lost im x T t0) w'" using assms(4,5) unfolding triple_def by blast
  then show ?thesis by (simp add: holds_def lost_def)
qed

text \<open>
  C11: A login that reports success can be revoked by user: after it, serve any requests in turn, of any kind
  and with any failures, retries and delays on the way, and then end the sessions of its user; if that
  reports success, the snapshot of the session is gone, and no request is admitted under its id, as long
  as the session would still have been valid. What is assumed is a lifetime in whole seconds, that the
  user's index did not expire while the login ran, that no other login draws the same id, and that the
  installed second-factor verifier does not touch session keys.
\<close>

theorem revocation_reaches_every_login:
  assumes "redis_server serve view" "deployment im (s_UserID s)" "session_name (s_ID s)" "s_UserID s \<noteq> []"
    and verifier: "\<forall>v a b. leaves_sessions im (vf v a b)"
    and fresh: "\<forall>rq\<in>set rqs. new_session_id rq \<noteq> Some (s_ID s)"
    and index: "index_open im (s_UserID s) (w_now w1) (w_now w) (view (w_redis w))"
    and login: "exec serve (Login im az lc vf newID cx rq) e w = ((Inr s, ck), e1, w1)"
    and requests: "exec serve (in_turn (map (handle_request im az lc vf) rqs)) e' w1 = (a, e2, w2)"
    and revoke: "exec serve (DeleteUserSessions im (s_UserID s)) e'' w2 = (None, e3, w3)"
    and live: "live_until (s_ExpiresAt s) (w_now w3)"
  shows "held (w_now w3) (view (w_redis w3)) (Key (im_ns im) (sessionDataKey (s_ID s))) = None \<and>
    (\<forall>ua mt pth e4 s'. fst (exec serve (Authenticate im (s_ID s) ua mt pth) e4 w3) \<noteq> Inr s')"
proof -
  let ?seen = "redis_server.seen view"
  let ?u = "s_UserID s" and ?x = "s_ID s" and ?T = "s_ExpiresAt s"
  note sim = redis_server.exec_keyspace [OF assms(1)]
  have now: "w_now (?seen v) = w_now v" "w_redis (?seen v) = view (w_redis v)" for v
    by (simp_all add: redis_server.seen_def [OF assms(1)])
  obtain f1 f1' where l: "exec redis_command (Login im az lc vf newID cx rq) f1 (?seen w) = ((Inr s, ck), f1', ?seen w1)"
    using sim [OF login] by blast
  obtain f2 f2' where r: "exec redis_command (in_turn (map (handle_request im az lc vf) rqs)) f2 (?seen w1) = (a, f2', ?seen w2)"
    using sim [OF requests] by blast
  obtain f3 f3' where d: "exec redis_command (DeleteUserSessions im ?u) f3 (?seen w2) = (None, f3', ?seen w3)"
    using sim [OF revoke] by blast
  have times: "w_now w1 \<le> w_now w2" "w_now w2 \<le> w_now w3" using exec_time [OF requests] exec_time [OF revoke] by auto
  have "holds (index_open im ?u (w_now w1)) (?seen w)" using index by (simp add: holds_def now)
  then have o: "opened_on_index im ?u newID (w_now (?seen w1)) (Inr s, ck) (?seen w1)"
    using Login_tracks [OF assms(2,4), of vf "w_now w1" az lc newID cx rq] verifier l unfolding triple_def now by blast
  then have w1: "holds (on_watch im ?u ?x ?T (w_now (?seen w1))) (?seen w1)"
    by (rule opened_on_watch) simp_all
  have "?T \<le> w_now (?seen w1) + im_expiration im"
    using o live_until_earlier [OF live] times by (simp add: opened_on_index_def now)
  then have w2: "holds (on_watch im ?u ?x ?T (w_now (?seen w1))) (?seen w2)"
    by (rule requests_watch [OF assms(2-4) fresh _ verifier w1 r])
  have "gone im ?x (w_now w3) (view (w_redis w3))"
    using revocation_watch [OF assms(2-4) w2 d] live by (simp add: gone_while_live_def now)
  then have gone: "held (w_now w3) (view (w_redis w3)) (Key (im_ns im) (sessionDataKey ?x)) = None" by (simp add: gone_def)
  moreover have "fst (exec serve (Authenticate im ?x ua mt pth) e4 w3) \<noteq> Inr s'" for ua mt pth e4 s'
    using authenticate_needs_snapshot [OF assms(1) _ gone] assms(3) by (simp add: session_name_def)
  ultimately show ?thesis by blast
qed

text \<open>
  C15: The index of a user names every live session of the user: from any state where the index names a
  session with its expiry and outlives it, every request, completed with whatever failures and retries,
  leaves the session on the index with its owner, or its snapshot deleted, for as long as the session is
  valid.
\<close>

theorem live_sessions_stay_tracked:
  assumes "redis_server serve view" "deployment im u" "session_name x" "u \<noteq> []"
    and "\<forall>v a b. leaves_sessions im (vf v a b)" "\<forall>rq\<in>set rqs. new_session_id rq \<noteq> Some x"
    and expiry: "T \<le> w_now w + im_expiration im"
    and before: "tracked_or_gone im u x T (w_now w) (view (w_redis w))"
    and requests: "exec serve (in_turn (map (handle_request im az lc vf) rqs)) e w = (a, e', w')"
  shows "tracked_or_gone im u x T (w_now w') (view (w_redis w'))"
proof -
  let ?seen = "redis_server.seen view"
  have now: "w_now (?seen v) = w_now v" "w_redis (?seen v) = view (w_redis v)" for v
    by (simp_all add: redis_server.seen_def [OF assms(1)])
  obtain f f' where r: "exec redis_command (in_turn (map (handle_request im az lc vf) rqs)) f (?seen w) = (a, f', ?seen w')"
    using redis_server.exec_keyspace [OF assms(1) requests] by blast
  have "holds (on_watch im u x T (w_now (?seen w))) (?seen w)" using before by (simp add: holds_def on_watch_def now)
  then have "holds (on_watch im u x T (w_now (?seen w))) (?seen w')"
    using requests_watch [OF assms(2-4,6) _ assms(5) _ r] expiry by (simp add: now)
  then show ?thesis by (simp add: holds_def on_watch_def now)
qed

end
