(* ===== verification/Iam_Example.thy ===== *)
theory Iam_Example
  imports Iam_Revocation
begin

text \<open>
  A small deployment in which the properties of sessions apply: one user, an empty store, a service that
  answers, and an encoding of snapshots that joins the fields.
\<close>

fun sample_bits :: "nat \<Rightarrow> int \<Rightarrow> string" where
  "sample_bits 0 t = []"
| "sample_bits (Suc n) t = (if t mod 2 = 1 then CHR ''1'' else CHR ''0'') # sample_bits n (t div 2)"

definition sample_enc :: "session \<Rightarrow> string" where
  "sample_enc s = concat (map (\<lambda>f. f @ ''|'')
     [s_UserID s, s_ID s, s_Username s, s_TenantID s, if s_MustChangePassword s then ''1'' else ''0'', s_ClientIP s, s_UserAgent s,
      s_Platform s, s_OS s, s_EngineName s, s_BrowserName s, sample_bits 64 (s_IssuedAt s), sample_bits 64 (s_LastSeenAt s), sample_bits 64 (s_ExpiresAt s)])"

fun sample_fields :: "string \<Rightarrow> string \<Rightarrow> string list" where
  "sample_fields acc [] = []"
| "sample_fields acc (c # cs) = (if c = CHR ''|'' then rev acc # sample_fields [] cs else sample_fields (c # acc) cs)"

definition sample_time :: "string \<Rightarrow> int" where
  "sample_time t = foldr (\<lambda>c n. 2 * n + (if c = CHR ''1'' then 1 else 0)) t 0"

definition sample_dec :: "string \<Rightarrow> session option" where
  "sample_dec t =
     (let f = sample_fields [] t
      in if length f = 14 then
           Some \<lparr>s_ID = f ! 1, s_UserID = f ! 0, s_Username = f ! 2, s_TenantID = f ! 3, s_MustChangePassword = (f ! 4 = ''1''),
             s_ClientIP = f ! 5, s_UserAgent = f ! 6, s_Platform = f ! 7, s_OS = f ! 8, s_EngineName = f ! 9, s_BrowserName = f ! 10,
             s_IssuedAt = sample_time (f ! 11), s_LastSeenAt = sample_time (f ! 12), s_ExpiresAt = sample_time (f ! 13)\<rparr>
         else None)"

definition sample_iam :: iam where
  "sample_iam = \<lparr>im_ns = ''app'', im_enc = sample_enc, im_dec = sample_dec,
     im_enc_state = us_Status, im_dec_state = (\<lambda>t. Some \<lparr>us_Status = t, us_MustChangePassword = False\<rparr>),
     im_expiration = 3600 * nsPerSecond, im_state_ttl = 60 * nsPerSecond,
     im_agent = (\<lambda>ua. \<lparr>dv_OS = ''Linux'', dv_Platform = ''X11'', dv_EngineName = ''Gecko'', dv_BrowserName = ua\<rparr>)\<rparr>"

definition sample_accounts :: accounts where
  "sample_accounts = \<lparr>db_users = [\<lparr>u_ID = ''u1'', u_Username = ''ann'', u_Status = ''active''\<rparr>],
     db_credentials = [\<lparr>pc_ID = ''c1'', pc_UserID = ''u1'', pc_PasswordHash = ''secret'', pc_MustChangePassword = False, pc_PasswordChangedAt = None\<rparr>],
     db_emails = [], db_devices = []\<rparr>"

definition sample_world :: "(keyspace, accounts) world" where
  "sample_world = \<lparr>w_now = 1000 * nsPerSecond, w_redis = (\<lambda>_. None), w_db = sample_accounts\<rparr>"

definition sample_authz :: iam_authz where
  "sample_authz = \<lparr>az_root = (\<lambda>_. Some False), az_roles = (\<lambda>_ _. Some [''viewer'']), az_tenant_admin = (\<lambda>_ _. None)\<rparr>"

definition sample_cfg :: login_cfg where
  "sample_cfg = \<lparr>lc_limit = 5, lc_window = 900 * nsPerSecond, lc_verify = (=), lc_hash = Some\<rparr>"

definition sample_ctx :: iam_ctx where
  "sample_ctx = \<lparr>cx_session = None, cx_cookie = Some ''x1'', cx_id = [], cx_UserAgent = ''firefox'', cx_ClientIP = ''10.0.0.7''\<rparr>"

definition sample_login :: "session answer iam_prog" where
  "sample_login = Login sample_iam sample_authz sample_cfg (\<lambda>_ _ _. Ret None) (Some ''x1'') sample_ctx
     \<lparr>lq_Username = ''ann'', lq_Password = ''secret'', lq_TenantID = [], lq_TOTPCode = [], lq_BackupCode = []\<rparr>"

definition sample_session :: session where
  "sample_session = \<lparr>s_ID = ''x1'', s_UserID = ''u1'', s_Username = ''ann'', s_TenantID = [], s_MustChangePassword = False,
     s_ClientIP = ''10.0.0.7'', s_UserAgent = ''firefox'', s_Platform = ''X11'', s_OS = ''Linux'', s_EngineName = ''Gecko'',
     s_BrowserName = ''firefox'', s_IssuedAt = 1000 * nsPerSecond, s_LastSeenAt = 1000 * nsPerSecond, s_ExpiresAt = 4600 * nsPerSecond\<rparr>"

definition world_after :: "(keyspace, accounts) world \<Rightarrow> 'a iam_prog \<Rightarrow> (keyspace, accounts) world" where
  "world_after w p = snd (snd (exec redis_command p (\<lambda>_. calm) w))"

lemma sample_codec: "sample_dec (sample_enc sample_session) = Some sample_session"
  by code_simp

lemma sample_namespace: "clear_namespace (im_ns sample_iam)"
  by code_simp

lemma sample_ids: "TrimSpace ''x1'' = ''x1''" "TrimSpace [] = []" "TrimSpace ''u1'' = ''u1''"
  by code_simp+

definition sample_keys :: keyspace where
  "sample_keys = (\<lambda>_. None)
     (Key ''app'' (sessionDataKey ''x1'') \<mapsto> (Text (sample_enc sample_session), Some (4600 * nsPerSecond)),
      Key ''app'' sessionIndexSeenKey \<mapsto> (Sorted [(''x1'', 1000 * 1000)], Some (4630 * nsPerSecond)),
      Key ''app'' (sessionIndexUserKey ''u1'') \<mapsto> (Sorted [(''x1'', 4600 * 1000)], Some (4600 * nsPerSecond)),
      Key ''app'' sessionIndexAllKey \<mapsto> (Sorted [(''x1'', 4600 * 1000)], Some (4600 * nsPerSecond)))"

definition sample_opened :: "(keyspace, accounts) world" where
  "sample_opened = sample_world\<lparr>w_redis := sample_keys\<rparr>"

lemmas sample_defs = sample_world_def sample_iam_def sample_ctx_def Let_def exec_pbind redis_Set_def redis_Get_def redis_ZRemRangeByScore_def redis_ZAdd_def
  redis_ZRem_def redis_ZRange_def redis_Expire_def redis_Del_def redis_SetXX_def redis_SetNX_def namespacedKeys_def held_def Key_inj deadline_def keep_sorted_def zadd_def zremove_def
  nsPerSecond_def formatMs_def formatSec_def UnixMilli_def nsPerMilli_def indexRetention_def seenIndexRetention_def sessionTouchInterval_def time_Sub_def

lemma sample_open:
  "exec redis_command (open_session sample_iam sample_ctx \<lparr>u_ID = ''u1'', u_Username = ''ann'', u_Status = ''active''\<rparr>
     \<lparr>pc_ID = ''c1'', pc_UserID = ''u1'', pc_PasswordHash = ''secret'', pc_MustChangePassword = False, pc_PasswordChangedAt = None\<rparr> [] (Some ''x1''))
     (\<lambda>_. calm) sample_world = ((Inr sample_session, SetCookie ''x1'' (3600 * nsPerSecond)), \<lambda>_. calm, sample_opened)"
proof -
  have apart: "loginFailureKey n \<noteq> sessionIndexUserKey u" "loginFailureKey n \<noteq> sessionDataKey y"
     "loginFailureKey n \<noteq> sessionIndexSeenKey" "loginFailureKey n \<noteq> sessionIndexAllKey" for n u y by (simp_all add: key_defs)
  note apart = apart apart [symmetric]
  show ?thesis
    using sample_namespace
    by (simp add: sample_defs open_session_def login_session_def SaveSession_def IndexSession_def index_writes_def or_undo_def pruneIndex_def
        ClearLoginFailures_def sample_opened_def sample_session_def sample_keys_def) (auto simp: Key_inj apart fun_eq_iff)
qed

lemma sample_login_run:
  "exec redis_command sample_login (\<lambda>_. calm) sample_world = ((Inr sample_session, SetCookie ''x1'' (3600 * nsPerSecond)), \<lambda>_. calm, sample_opened)"
proof -
  have w: "w_redis sample_world = (\<lambda>_. None)" "w_db sample_world = sample_accounts" "sample_world\<lparr>w_db := w_db sample_world\<rparr> = sample_world"
    by (simp_all add: sample_world_def)
  have same: "sample_world\<lparr>w_db := sample_accounts, w_redis := (\<lambda>_. None)\<rparr> = sample_world" by (simp add: sample_world_def)
  show ?thesis
    by (simp add: sample_login_def Login_def exec_pbind db_read_def find_row_def LoadPasswordCredential_def loadSessionPasswordCredential_def
        ensureLoginNotLockedOut_def LoginFailures_def redis_GetInt_def verifyLoginSecondFactor_def sample_cfg_def sample_authz_def sample_ids
        held_def sample_accounts_def sample_open Let_def w same [unfolded sample_accounts_def])
qed

lemma sample_revoke: "fst (exec redis_command (DeleteUserSessions sample_iam ''u1'') (\<lambda>_. calm) sample_opened) = None"
proof -
  have s: "s_UserID sample_session = ''u1''" "s_ID sample_session = ''x1''" by (simp_all add: sample_session_def)
  show ?thesis
    using sample_namespace
    by (simp add: sample_defs DeleteUserSessions_def deleteUserSessions_def DropUserState_def ListUserSessionIDs_def pruneIndex_def
       sample_opened_def sample_keys_def DeleteSession_def LoadSession_def DropSessionIndexes_def sample_ids sample_codec s)
qed

lemma exec_calm_now: "w_now (snd (snd (exec redis_command p (\<lambda>_. calm) w))) = w_now w"
  by (induction p arbitrary: w rule: prog_induct) (auto simp: split_beta)

lemma sample_deployment: "deployment sample_iam ''u1''"
proof -
  have owner: "s_UserID s' = ''u1''" if "s_UserID s = ''u1''" "sample_dec (sample_enc s) = Some s'" for s s'
  proof -
    have "\<exists>r. sample_enc s = s_UserID s @ ''|'' @ r"
      unfolding sample_enc_def list.map concat.simps append_assoc by (rule exI, rule refl)
    then obtain r where "sample_enc s = s_UserID s @ ''|'' @ r" ..
    then have "sample_enc s = ''u1|'' @ r" by (simp add: that(1))
    then have "sample_fields [] (sample_enc s) = ''u1'' # sample_fields [] r" by simp
    then show ?thesis using that(2) by (auto simp: sample_dec_def Let_def split: if_splits)
  qed
  have im: "im_enc sample_iam = sample_enc" "im_dec sample_iam = sample_dec" "whole_lifetime sample_iam"
    by (simp_all add: sample_iam_def whole_lifetime_def nsPerSecond_def)
  show ?thesis
    unfolding deployment_def im(1,2) by (intro conjI allI impI sample_namespace im(3)) (rule owner)
qed

lemma sample_lookup:
  "snapshot_at sample_iam sample_keys (1000 * nsPerSecond) ''x1'' = Some sample_session"
  "state_at sample_iam sample_keys sample_accounts (1000 * nsPerSecond) ''u1'' = Some \<lparr>us_Status = ''active'', us_MustChangePassword = False\<rparr>"
  "same_device sample_iam sample_session ''firefox''" "\<not> same_device sample_iam sample_session ''curl''"
proof -
  have apart: "userStateKey n \<noteq> sessionIndexUserKey u" "userStateKey n \<noteq> sessionDataKey y"
     "userStateKey n \<noteq> sessionIndexSeenKey" "userStateKey n \<noteq> sessionIndexAllKey" for n u y by (simp_all add: key_defs)
  show "snapshot_at sample_iam sample_keys (1000 * nsPerSecond) ''x1'' = Some sample_session"
    using sample_namespace by (simp add: sample_defs snapshot_at_def sample_keys_def sample_codec)
  show "state_at sample_iam sample_keys sample_accounts (1000 * nsPerSecond) ''u1'' = Some \<lparr>us_Status = ''active'', us_MustChangePassword = False\<rparr>"
    using sample_namespace
    by (simp add: sample_defs state_at_def sample_keys_def apart apart [symmetric] row_state_of_def find_row_def sample_accounts_def)
  show "same_device sample_iam sample_session ''firefox''" "\<not> same_device sample_iam sample_session ''curl''" by code_simp+
qed

lemma sample_text: "\<nexists>z d. held (w_now sample_opened) (w_redis sample_opened) (Key (im_ns sample_iam) (sessionDataKey (TrimSpace ''x1''))) = Some (Sorted z, d)"
  using sample_namespace by (simp add: sample_defs sample_opened_def sample_keys_def sample_ids)

lemma sample_decision:
  "auth_decision sample_iam sample_opened ''x1'' ''firefox'' ''GET'' ''/api/reports'' = Inr sample_session"
  "auth_decision sample_iam sample_opened ''x1'' ''curl'' ''GET'' ''/api/reports'' = Inl (401, ''session invalid'')"
proof -
  have w: "w_now sample_opened = 1000 * nsPerSecond" "w_redis sample_opened = sample_keys" "w_db sample_opened = sample_accounts"
    by (simp_all add: sample_opened_def sample_world_def)
  have s: "s_ID sample_session = ''x1''" "s_UserID sample_session = ''u1''" "\<not> IsZero (s_ExpiresAt sample_session)"
      "1000 * nsPerSecond < s_ExpiresAt sample_session" "sample_session\<lparr>s_MustChangePassword := False\<rparr> = sample_session"
    by (simp_all add: sample_session_def IsZero_def zero_time_def nsPerSecond_def)
  show "auth_decision sample_iam sample_opened ''x1'' ''firefox'' ''GET'' ''/api/reports'' = Inr sample_session"
      "auth_decision sample_iam sample_opened ''x1'' ''curl'' ''GET'' ''/api/reports'' = Inl (401, ''session invalid'')"
    by (simp_all add: auth_decision_def sample_lookup w s)
qed

lemma sample_authenticate:
  "calmly (Authenticate sample_iam ''x1'' ''firefox'' ''GET'' ''/api/reports'') sample_opened = Inr sample_session"
  "calmly (Authenticate sample_iam ''x1'' ''curl'' ''GET'' ''/api/reports'') sample_opened = Inl (401, ''session invalid'')"
  using Authenticate_decides_keyspace [OF _ sample_text, of "''firefox''"] Authenticate_decides_keyspace [OF _ sample_text, of "''curl''"]
  by (simp_all add: sample_ids sample_decision)

lemma sample_stranger:
  "exec redis_command (in_turn (map (handle_request sample_iam sample_authz sample_cfg (\<lambda>_ _ _. Ret None))
     [RqAuthenticate ''y9'' ''curl'' ''GET'' ''/api/reports''])) (\<lambda>_. calm) sample_opened = ((), \<lambda>_. calm, sample_opened)"
proof -
  have "TrimSpace ''y9'' = ''y9''" by code_simp
  then show ?thesis
    using sample_namespace
    by (simp add: sample_defs silently_def Authenticate_def loadSession_def LoadSession_def sample_opened_def sample_keys_def rejected_def)
qed

lemma run_pool_calm_now:
  "\<forall>m\<in>set sched. snd m = calm \<Longrightarrow> run_pool redis_command sched (ps, w) = (ps', w') \<Longrightarrow> w_now w' = w_now w"
proof (induction sched arbitrary: ps w)
  case (Cons m sched)
  obtain ps1 w1 where s: "pool_step redis_command m (ps, w) = (ps1, w1)" by fastforce
  have step: "prog_step redis_command calm p w = (p', v) \<Longrightarrow> w_now v = w_now w" for p p' v
    by (cases p) (auto simp: split_beta)
  have "w_now w1 = w_now w" using s Cons.prems(1) by (auto simp: pool_step_def split: if_splits prod.splits dest: step)
  then show ?case using Cons s by (simp add: run_pool_def)
qed (simp add: run_pool_def)

definition sample_pool :: "unit iam_prog list" where
  "sample_pool = map (handle_request sample_iam sample_authz sample_cfg (\<lambda>_ _ _. Ret None))
     [RqAuthenticate ''x1'' ''firefox'' ''GET'' ''/api/reports'', RqLogout sample_ctx]"

lemma sample_logout:
  "held (1000 * nsPerSecond) (w_redis (snd (run_pool redis_command [(0, calm), (1, calm), (1, calm)] (sample_pool, sample_opened))))
     (Key ''app'' (sessionDataKey ''x1'')) = None"
  using sample_namespace
  by (simp add: sample_defs run_pool_def pool_step_def sample_pool_def silently_def Authenticate_def loadSession_def LoadSession_def Logout_def
      CookieSessionID_def DeleteSession_def sample_opened_def sample_keys_def sample_ids sample_codec)

section \<open>Witnesses\<close>

theorem authenticate_admits_witness:
  "\<exists>s0 t t'. w_now sample_opened \<le> t \<and> t \<le> t' \<and> stored_snapshot sample_iam (w_redis sample_opened) t (TrimSpace ''x1'') s0 \<and>
     admissible sample_iam (w_redis sample_opened) (w_db sample_opened) t' (TrimSpace ''x1'') ''firefox'' ''GET'' ''/api/reports'' s0 sample_session"
proof -
  obtain e w where "exec redis_command (Authenticate sample_iam ''x1'' ''firefox'' ''GET'' ''/api/reports'') (\<lambda>_. calm) sample_opened = (Inr sample_session, e, w)"
    using sample_authenticate(1) by (metis prod.collapse)
  then show ?thesis by (rule authenticate_admits [OF keyspace.redis_server_axioms])
qed

theorem authenticate_refuses_witness:
  "(401, ''session invalid'') \<in> refusals \<and> ((401 :: nat) = 401 \<longrightarrow> ''session invalid'' = ''session invalid'')"
  by (rule authenticate_refuses [OF _ sample_authenticate(2)]) (simp add: sample_ids)

theorem authenticate_decides_witness:
  "fst (exec redis_command (Authenticate sample_iam ''x1'' ''firefox'' ''GET'' ''/api/reports'') (\<lambda>_. calm) sample_opened) = Inr sample_session"
proof -
  have "\<lparr>w_now = w_now sample_opened, w_redis = w_redis sample_opened, w_db = w_db sample_opened\<rparr> = sample_opened" by simp
  then show ?thesis
    using authenticate_decides [OF keyspace.healthy_redis_axioms _ sample_text, of "''firefox''" "''GET''" "''/api/reports''"] sample_decision(1)
    by (simp only: sample_ids) simp
qed

theorem revocation_reaches_every_login_witness:
  "\<exists>w2 w3. live_until (s_ExpiresAt sample_session) (w_now w3) \<and>
     held (w_now w3) (w_redis w3) (Key (im_ns sample_iam) (sessionDataKey ''x1'')) = None \<and>
     exec redis_command (DeleteUserSessions sample_iam ''u1'') (\<lambda>_. calm) w2 = (None, \<lambda>_. calm, w3)"
proof -
  obtain e3 w3 where d: "exec redis_command (DeleteUserSessions sample_iam ''u1'') (\<lambda>_. calm) sample_opened = (None, e3, w3)"
    using sample_revoke by (metis prod.collapse)
  have e3: "e3 = (\<lambda>_. calm)" using exec_calm_env d by (metis snd_conv)
  have "w_now w3 = 1000 * nsPerSecond" using exec_calm_now [of "DeleteUserSessions sample_iam ''u1''" sample_opened] d
    by (simp add: sample_opened_def sample_world_def)
  then have live: "live_until (s_ExpiresAt sample_session) (w_now w3)"
    by (simp add: live_until_def UnixMilli_def sample_session_def nsPerSecond_def nsPerMilli_def)
  have s: "s_ID sample_session = ''x1''" "s_UserID sample_session = ''u1''" by (simp_all add: sample_session_def)
  have "held (w_now w3) (w_redis w3) (Key (im_ns sample_iam) (sessionDataKey (s_ID sample_session))) = None \<and>
    (\<forall>ua method path e4 s'. fst (exec redis_command (Authenticate sample_iam (s_ID sample_session) ua method path) e4 w3) \<noteq> Inr s')"
  proof (rule revocation_reaches_every_login [OF keyspace.redis_server_axioms])
    show "exec redis_command (Login sample_iam sample_authz sample_cfg (\<lambda>_ _ _. Ret None) (Some ''x1'') sample_ctx
     \<lparr>lq_Username = ''ann'', lq_Password = ''secret'', lq_TenantID = [], lq_TOTPCode = [], lq_BackupCode = []\<rparr>) (\<lambda>_. calm) sample_world =
       ((Inr sample_session, SetCookie ''x1'' (3600 * nsPerSecond)), \<lambda>_. calm, sample_opened)"
      using sample_login_run by (simp add: sample_login_def)
    show "exec redis_command (in_turn (map (handle_request sample_iam sample_authz sample_cfg (\<lambda>_ _ _. Ret None))
        [RqAuthenticate ''y9'' ''curl'' ''GET'' ''/api/reports''])) (\<lambda>_. calm) sample_opened = ((), \<lambda>_. calm, sample_opened)"
      by (rule sample_stranger)
    show "exec redis_command (DeleteUserSessions sample_iam (s_UserID sample_session)) (\<lambda>_. calm) sample_opened = (None, e3, w3)"
      using d s by simp
    show "index_open sample_iam (s_UserID sample_session) (w_now sample_opened) (w_now sample_world) (w_redis sample_world)"
      by (simp add: index_open_def sample_world_def held_def)
  qed (use live sample_deployment s in \<open>simp_all add: session_name_def sample_ids leaves_sessions_def\<close>)
  then show ?thesis using live d e3 s by auto
qed


theorem revoked_stays_revoked_witness:
  "held (1000 * nsPerSecond) (w_redis (snd (run_pool redis_command
       ([(0, calm), (1, calm), (1, calm)] @ [(0, calm), (1, calm), (0, calm), (0, calm), (1, calm)]) (sample_pool, sample_opened))))
     (Key ''app'' (sessionDataKey ''x1'')) = None"
proof -
  obtain ps1 w1 where r1: "run_pool redis_command [(0, calm), (1, calm), (1, calm)] (sample_pool, sample_opened) = (ps1, w1)" by fastforce
  obtain ps2 w2 where r2: "run_pool redis_command [(0, calm), (1, calm), (0, calm), (0, calm), (1, calm)] (ps1, w1) = (ps2, w2)" by fastforce
  have now: "w_now w1 = 1000 * nsPerSecond" "w_now w2 = 1000 * nsPerSecond"
    using run_pool_calm_now [OF _ r1] run_pool_calm_now [OF _ r2] by (auto simp: sample_opened_def sample_world_def)
  have "held (w_now w2) (w_redis w2) (Key (im_ns sample_iam) (sessionDataKey ''x1'')) = None \<and>
    (\<forall>ua method path e s. fst (exec redis_command (Authenticate sample_iam ''x1'' ua method path) e w2) \<noteq> Inr s)"
  proof (rule revoked_stays_revoked [OF keyspace.redis_server_axioms sample_namespace _ _ _ r1 [unfolded sample_pool_def] _ r2])
    show "held (w_now w1) (w_redis w1) (Key (im_ns sample_iam) (sessionDataKey ''x1'')) = None"
      using sample_logout r1 now by (simp add: sample_iam_def)
  qed (simp_all add: sample_ids)
  then show ?thesis using r1 r2 now by (simp add: run_pool_def sample_iam_def)
qed

theorem live_sessions_stay_tracked_witness:
  "tracked_or_gone sample_iam ''u1'' ''x1'' (4600 * nsPerSecond) (1000 * nsPerSecond) sample_keys"
proof -
  have "tracked_or_gone sample_iam ''u1'' ''x1'' (4600 * nsPerSecond) (w_now sample_opened) (w_redis sample_opened)"
  proof (rule live_sessions_stay_tracked [OF keyspace.redis_server_axioms sample_deployment _ _ _ _ _ _ sample_stranger])
    have "held (1000 * nsPerSecond) sample_keys (Key (im_ns sample_iam) (sessionDataKey ''x1'')) = Some (Text (sample_enc sample_session), Some (4600 * nsPerSecond))"
      using sample_namespace by (simp add: sample_defs sample_keys_def)
    then have "owned_by sample_iam ''u1'' ''x1'' (1000 * nsPerSecond) sample_keys"
      using sample_codec by (auto simp: owned_by_def stored_snapshot_def sample_iam_def) (simp add: sample_session_def)
    moreover have "tracked sample_iam ''u1'' ''x1'' (4600 * nsPerSecond) sample_keys"
      using sample_namespace by (simp add: sample_defs tracked_def sample_keys_def zmember_def)
    ultimately show "tracked_or_gone sample_iam ''u1'' ''x1'' (4600 * nsPerSecond) (w_now sample_opened) (w_redis sample_opened)"
      by (simp add: tracked_or_gone_def sample_opened_def sample_world_def)
  qed (simp_all add: session_name_def sample_ids leaves_sessions_def sample_opened_def sample_world_def sample_iam_def nsPerSecond_def)
  then show ?thesis by (simp add: sample_opened_def sample_world_def)
qed

end
