(* ===== verification/Redis_Rely.thy ===== *)
theory Redis_Rely
  imports Redis_Program
begin

text \<open>
  What a pool of handlers cannot do while something holds. A condition on the keyspace holds up to an
  instant, a condition on the rows holds throughout; a program is safe for them when each command and
  statement it sends keeps both and, answered under them or not answered, it can only go on to results
  of a given kind. Safe programs stay so however they are interleaved.
\<close>

primrec safe :: "(int \<Rightarrow> keyspace \<Rightarrow> bool) \<Rightarrow> int \<Rightarrow> ('d \<Rightarrow> bool) \<Rightarrow> ('a \<Rightarrow> bool) \<Rightarrow> ('d, 'a) prog \<Rightarrow> bool" where
  "safe J D I G (Ret a) \<longleftrightarrow> G a"
| "safe J D I G (Redis c k) \<longleftrightarrow>
     (\<forall>t ks. t < D \<longrightarrow> J t ks \<longrightarrow> J t (snd (redis_command c t ks))) \<and>
     (\<forall>r. (r = R_failed \<or> (\<exists>t ks. t < D \<and> J t ks \<and> r = fst (redis_command c t ks))) \<longrightarrow> safe J D I G (k r))"
| "safe J D I G (Now k) \<longleftrightarrow> (\<forall>t. safe J D I G (k t))"
| "safe J D I G (Db u k) \<longleftrightarrow> (\<forall>d. I d \<longrightarrow> I (u d)) \<and> (\<forall>b d. I d \<longrightarrow> safe J D I G (k b d))"

definition lasting :: "(int \<Rightarrow> keyspace \<Rightarrow> bool) \<Rightarrow> int \<Rightarrow> bool" where
  "lasting J D \<longleftrightarrow> (\<forall>t t' ks. t \<le> t' \<longrightarrow> t' < D \<longrightarrow> J t ks \<longrightarrow> J t' ks)"

lemma safe_pbind: "safe J D I Q m \<Longrightarrow> (\<And>a. Q a \<Longrightarrow> safe J D I G (f a)) \<Longrightarrow> safe J D I G (pbind m f)"
  by (induction m rule: prog_induct) auto

lemma safe_weaken: "safe J D I Q m \<Longrightarrow> (\<And>a. Q a \<Longrightarrow> G a) \<Longrightarrow> safe J D I G m"
  by (induction m rule: prog_induct) auto

lemma safe_db_read: "(\<And>d. I d \<Longrightarrow> G (f d)) \<Longrightarrow> G (Inl failed) \<Longrightarrow> safe J D I G (db_read failed f)"
  by (simp add: db_read_def)

text \<open>A command that keeps the condition, whatever it answers.\<close>

definition spares :: "(int \<Rightarrow> keyspace \<Rightarrow> bool) \<Rightarrow> int \<Rightarrow> command \<Rightarrow> bool" where
  "spares J D c \<longleftrightarrow> (\<forall>t ks. t < D \<longrightarrow> J t ks \<longrightarrow> J t (snd (redis_command c t ks)))"

lemma safe_Redis: "spares J D c \<Longrightarrow> (\<And>r. safe J D I G (k r)) \<Longrightarrow> safe J D I G (Redis c k)"
  by (simp add: spares_def)

lemma safe_issues: "issues (spares J D) p \<Longrightarrow> reads_only p \<Longrightarrow> returns G p \<Longrightarrow> safe J D I G p"
  by (induction p rule: prog_induct) (auto simp: spares_def)

section \<open>Steps\<close>

lemma resend_safe:
  assumes "lasting J D" "spares J D c" "resend redis_command c ds t k = (t', k')" "J t k" "t' < D"
  shows "J t' k'"
  using assms(3-5)
proof (induction ds arbitrary: t k)
  case (Cons d ds)
  have "t + int d \<le> t'" using resend_time [of redis_command c ds "t + int d"] Cons.prems(1) by simp
  then have "J t (snd (redis_command c t k))" using assms(2) Cons.prems by (simp add: spares_def)
  then have "J (t + int d) (snd (redis_command c t k))"
    using assms(1) \<open>t + int d \<le> t'\<close> Cons.prems(3) unfolding lasting_def by (meson le_add_same_cancel1 le_less_trans of_nat_0_le_iff)
  then show ?case using Cons.IH Cons.prems by simp
qed simp

lemma call_safe:
  assumes "lasting J D" "spares J D c" "redis_call redis_command ch c w = (r, w')" "J (w_now w) (w_redis w)" "w_now w' < D"
  shows "J (w_now w') (w_redis w')" "r = R_failed \<or> (\<exists>t ks. t < D \<and> J t ks \<and> r = fst (redis_command c t ks))"
proof -
  obtain t k where s: "resend redis_command c (ch_lost ch) (w_now w + int (ch_delay ch)) (w_redis w) = (t, k)" by fastforce
  have t: "w_now w' = t" using assms(3) s by (auto simp: redis_call_def split: if_splits prod.splits)
  have "J (w_now w + int (ch_delay ch)) (w_redis w)"
    using assms(1,4,5) resend_time [OF s] t unfolding lasting_def by (meson le_add_same_cancel1 le_less_trans of_nat_0_le_iff)
  then have j: "J t k" using resend_safe [OF assms(1,2) s] t assms(5) by simp
  then have "J t (snd (redis_command c t k))" using assms(2,5) t by (simp add: spares_def)
  then show "J (w_now w') (w_redis w')" using j assms(3) s by (auto simp: redis_call_def split: if_splits prod.splits)
  show "r = R_failed \<or> (\<exists>t ks. t < D \<and> J t ks \<and> r = fst (redis_command c t ks))"
    using j assms(3,5) s t by (auto simp: redis_call_def split: if_splits prod.splits intro!: exI [of _ t] exI [of _ k])
qed

definition rely :: "(int \<Rightarrow> keyspace \<Rightarrow> bool) \<Rightarrow> ('d \<Rightarrow> bool) \<Rightarrow> (keyspace, 'd) world \<Rightarrow> bool" where
  "rely J I w \<longleftrightarrow> J (w_now w) (w_redis w) \<and> I (w_db w)"

lemma step_time: "prog_step serve ch p w = (p', w') \<Longrightarrow> w_now w \<le> w_now w'"
  by (cases p) (auto simp: clock_call_def db_call_def split: prod.splits dest: call_time)

lemma step_safe:
  assumes "lasting J D" "safe J D I G p" "rely J I w" "prog_step redis_command ch p w = (p', w')" "w_now w' < D"
  shows "safe J D I G p' \<and> rely J I w'"
proof (cases p)
  case (Redis c k)
  obtain r w1 where c: "redis_call redis_command ch c w = (r, w1)" by fastforce
  have w1: "w' = w1" "p' = k r" using assms(4) Redis c by simp_all
  have "spares J D c" using assms(2) Redis by (simp add: spares_def)
  note k = call_safe [OF assms(1) this c]
  have "safe J D I G (k r)" 
    using conjunct2 [OF assms(2) [unfolded Redis safe.simps]] k(2) assms(3,5) w1(1) unfolding rely_def by metis
  then show ?thesis using k(1) assms(3,5) w1 call_db [OF c] by (simp add: rely_def)
next
  case (Now k)
  have "w_now w \<le> w_now w'" by (rule step_time [OF assms(4)])
  then have "J (w_now w') (w_redis w)" using assms(1,3,5) by (auto simp: lasting_def rely_def)
  then show ?thesis using assms(2,3,4) Now by (auto simp: clock_call_def rely_def)
next
  case (Db u k)
  have "w_now w \<le> w_now w'" by (rule step_time [OF assms(4)])
  then have "J (w_now w') (w_redis w)" using assms(1,3,5) by (auto simp: lasting_def rely_def)
  then show ?thesis using assms(2,3,4) Db by (auto simp: db_call_def rely_def)
qed (use assms in auto)

lemma pool_time: "run_pool serve sched (ps, w) = (ps', w') \<Longrightarrow> w_now w \<le> w_now w'"
proof (induction sched arbitrary: ps w)
  case (Cons m sched)
  obtain ps1 w1 where s: "pool_step serve m (ps, w) = (ps1, w1)" by fastforce
  have "w_now w \<le> w_now w1" using s step_time by (fastforce simp: pool_step_def split: if_splits prod.splits)
  then show ?case using Cons.IH [of ps1 w1] Cons.prems s by (simp add: run_pool_def)
qed (simp add: run_pool_def)

text \<open>Safe programs, each for results of its own, run side by side up to the instant.\<close>

lemma pool_safe:
  assumes "lasting J D"
  shows "\<forall>i<length ps. safe J D I (G i) (ps ! i) \<Longrightarrow> rely J I w \<Longrightarrow> run_pool redis_command sched (ps, w) = (ps', w') \<Longrightarrow> w_now w' < D \<Longrightarrow>
    length ps' = length ps \<and> (\<forall>i<length ps. safe J D I (G i) (ps' ! i)) \<and> rely J I w'"
proof (induction sched arbitrary: ps w)
  case (Cons m sched)
  obtain ps1 w1 where s: "pool_step redis_command m (ps, w) = (ps1, w1)" by fastforce
  have rest: "run_pool redis_command sched (ps1, w1) = (ps', w')" using Cons.prems(3) s by (simp add: run_pool_def)
  have now: "w_now w1 < D" using pool_time [OF rest] Cons.prems(4) by simp
  have "length ps1 = length ps \<and> (\<forall>i<length ps. safe J D I (G i) (ps1 ! i)) \<and> rely J I w1"
  proof (cases "fst m < length ps")
    case True
    obtain p w2 where st: "prog_step redis_command (snd m) (ps ! fst m) w = (p, w2)" by fastforce
    have p: "ps1 = ps[fst m := p]" "w1 = w2" using s True st by (auto simp: pool_step_def)
    have "safe J D I (G (fst m)) p \<and> rely J I w2"
      by (rule step_safe [OF assms _ Cons.prems(2) st]) (use Cons.prems(1) True now p in auto)
    moreover have "safe J D I (G i) (ps1 ! i)" if "i < length ps" for i
      using that p calculation Cons.prems(1) by (cases "i = fst m") auto
    ultimately show ?thesis using p by simp
  next
    case False
    then show ?thesis using s Cons.prems by (auto simp: pool_step_def)
  qed
  then show ?case using Cons.IH [OF _ _ rest Cons.prems(4)] by auto
qed (auto simp: run_pool_def)

text \<open>The same beside any documented server, the conditions read off what it holds.\<close>

context redis_server
begin

lemma pool_results:
  assumes "lasting J D" "\<forall>i<length ps. safe J D I (G i) (ps ! i)" "J (w_now w) (view (w_redis w))" "I (w_db w)"
    "run_pool serve sched (ps, w) = (ps', w')" "w_now w' < D"
  shows "I (w_db w') \<and> (\<forall>i<length ps. \<forall>a. ps' ! i = Ret a \<longrightarrow> G i a)"
proof -
  obtain sched' where "run_pool redis_command sched' (ps, seen w) = (ps', seen w')" using pool_keyspace [OF assms(5)] by blast
  from pool_safe [OF assms(1,2) _ this] assms(3,4,6)
  have "(\<forall>i<length ps. safe J D I (G i) (ps' ! i)) \<and> rely J I (seen w')" by (simp add: rely_def)
  then show ?thesis by (auto simp: rely_def dest!: spec)
qed

end

end
