(* ===== verification/Mfa.thy ===== *)
theory Mfa
  imports Iam_Session Redis_Rely Utf8
begin

text \<open>
  The second factor, \<^verbatim>\<open>src/internal/service/mfa\<close>: enrolment of a TOTP device in two requests, the gate
  that login calls, recovery codes, unbinding a device, and the administrative reset. Handlers are
  programs over Redis and the rows of the database, like those of the sessions. The validation of a
  code (\<^verbatim>\<open>pquerna/otp\<close>), the keyed hash, the JSON codec of a challenge, the random numbers and the
  authority over other accounts are arguments.

  A transaction that locks the rows it decides from is one statement. The transactions of an unbind with
  a TOTP code, which marks the code in between, and of a reset are a listing and a delete; their row locks
  are left out, so the model has more interleavings than the database allows.
\<close>

section \<open>Data\<close>

record challenge =
  bc_UserID :: string
  bc_SessionID :: string
  bc_Username :: string
  bc_Secret :: string
  bc_IssuedAt :: int
  bc_ExpiresAt :: int

record mfa =
  mf_ns :: string
  mf_validate :: "int \<Rightarrow> string \<Rightarrow> string \<Rightarrow> bool"
  mf_mac :: "string \<Rightarrow> string \<Rightarrow> string"
  mf_upper :: "string \<Rightarrow> string"
  mf_enc :: "challenge \<Rightarrow> string"
  mf_dec :: "string \<Rightarrow> challenge option"

text \<open>What a handler reads of its request: the user, the session, the username and the path parameter.\<close>

record mfa_ctx =
  mx_UserID :: string
  mx_Username :: string
  mx_SessionID :: string
  mx_Param :: string

datatype mfa_error =
    ErrAuthenticationRequired
  | ErrTOTPVerificationLocked
  | ErrTOTPCodeReplayed
  | ErrTOTPCodeInvalid
  | ErrTOTPBackupCodeInvalid
  | ErrTOTPBindChallengeNotFound
  | ErrTOTPBindChallengeExpired
  | ErrTOTPBindChallengeInvalid
  | ErrMfaStore

text \<open>
  The devices a query model selects: a field with its zero value selects nothing, so an empty user id
  would be no condition.
\<close>

definition query_devices :: "string \<Rightarrow> bool \<Rightarrow> accounts \<Rightarrow> totp_device list" where
  "query_devices userID active d =
     filter (\<lambda>r. (userID = [] \<or> td_UserID r = userID) \<and> (active \<longrightarrow> td_IsActive r)) (db_devices d)"

definition has_device :: "string \<Rightarrow> accounts \<Rightarrow> bool" where
  "has_device ident d \<longleftrightarrow> (\<exists>r\<in>set (db_devices d). td_ID r = ident)"

definition list_devices :: "string \<Rightarrow> bool \<Rightarrow> (unit + totp_device list) iam_prog" where
  "list_devices userID active = db_read () (\<lambda>d. Inr (query_devices userID active d))"

section \<open>The attempt budget\<close>

datatype totpVerificationPurpose = TotpLogin | TotpUnbind

definition totpVerificationAttemptLimit :: int where "totpVerificationAttemptLimit = 5"
definition totpVerificationAttemptWindow :: int where "totpVerificationAttemptWindow = 15 * 60 * nsPerSecond"

fun purpose_name :: "totpVerificationPurpose \<Rightarrow> string" where
  "purpose_name TotpLogin = ''login''"
| "purpose_name TotpUnbind = ''unbind''"

definition totpVerificationFailureKey :: "totpVerificationPurpose \<Rightarrow> string \<Rightarrow> string" where
  "totpVerificationFailureKey purpose userID = ''mfa:totp:failure:'' @ purpose_name purpose @ '':'' @ TrimSpace userID"

definition reserveTOTPVerificationAttempt :: "mfa \<Rightarrow> totpVerificationPurpose \<Rightarrow> string \<Rightarrow> (mfa_error option) iam_prog" where
  "reserveTOTPVerificationAttempt mf purpose userID =
     pbind (redis_IncrFixedWindow (mf_ns mf) (totpVerificationFailureKey purpose userID) totpVerificationAttemptWindow) (\<lambda>r. Ret
       (case r of
          Inl _ \<Rightarrow> Some ErrMfaStore
        | Inr count \<Rightarrow> if count > totpVerificationAttemptLimit then Some ErrTOTPVerificationLocked else None))"

definition clearTOTPVerificationFailures :: "mfa \<Rightarrow> string \<Rightarrow> totpVerificationPurpose list \<Rightarrow> unit iam_prog" where
  "clearTOTPVerificationFailures mf userID purposes =
     pbind (redis_Del (mf_ns mf) (map (\<lambda>p. totpVerificationFailureKey p userID) purposes)) (\<lambda>_. Ret ())"

section \<open>One use of a code\<close>

definition totpCodeReplayTTL :: int where "totpCodeReplayTTL = 2 * 60 * nsPerSecond"

definition totpCodeReplayKey :: "string \<Rightarrow> string \<Rightarrow> string" where
  "totpCodeReplayKey userID code = ''mfa:totp:used:'' @ TrimSpace userID @ '':'' @ TrimSpace code"

definition markTOTPCodeUsed :: "mfa \<Rightarrow> string \<Rightarrow> string \<Rightarrow> (mfa_error option) iam_prog" where
  "markTOTPCodeUsed mf userID code =
     pbind (redis_SetNX (mf_ns mf) (totpCodeReplayKey userID code) ''1'' totpCodeReplayTTL) (\<lambda>r. Ret
       (case r of
          Inl _ \<Rightarrow> Some ErrMfaStore
        | Inr ok \<Rightarrow> if ok then None else Some ErrTOTPCodeReplayed))"

text \<open>The first active device that accepts a code; each validation reads the clock.\<close>

fun findLoginTOTPDeviceByCode :: "mfa \<Rightarrow> totp_device list \<Rightarrow> string \<Rightarrow> (totp_device option) iam_prog" where
  "findLoginTOTPDeviceByCode mf [] code = Ret None"
| "findLoginTOTPDeviceByCode mf (device # devices) code =
     (if \<not> td_IsActive device then findLoginTOTPDeviceByCode mf devices code
      else Now (\<lambda>t. if mf_validate mf t code (td_Secret device) then Ret (Some device)
                     else findLoginTOTPDeviceByCode mf devices code))"

definition validateTOTPCodeForDevices :: "mfa \<Rightarrow> string \<Rightarrow> string \<Rightarrow> totp_device list \<Rightarrow> (mfa_error option) iam_prog" where
  "validateTOTPCodeForDevices mf userID code devices =
     (if TrimSpace code = [] then Ret (Some ErrTOTPCodeInvalid)
      else pbind (findLoginTOTPDeviceByCode mf devices code) (\<lambda>device.
        case device of
          None \<Rightarrow> Ret (Some ErrTOTPCodeInvalid)
        | Some _ \<Rightarrow> markTOTPCodeUsed mf userID code))"

section \<open>Recovery codes\<close>

definition totpBackupCodeCount :: nat where "totpBackupCodeCount = 10"
definition totpBackupCodeRawLength :: nat where "totpBackupCodeRawLength = 16"
definition totpBackupCodeGroupSize :: nat where "totpBackupCodeGroupSize = 4"
definition totpBackupCodeAlphabet :: string where "totpBackupCodeAlphabet = ''23456789ABCDEFGHJKLMNPQRSTUVWXYZ''"

text \<open>\<open>strings.ToUpper\<close>: letters of ASCII by their codes; any other text rune by rune through the tables of Unicode.\<close>

definition upper_ascii :: "char \<Rightarrow> char" where
  "upper_ascii c = (if of_char c \<in> {97..122 :: nat} then char_of (of_char c - 32 :: nat) else c)"

definition ToUpper :: "(string \<Rightarrow> string) \<Rightarrow> string \<Rightarrow> string" where
  "ToUpper upper s = (if is_ascii s then map upper_ascii s else upper s)"

definition normalizeTOTPBackupCode :: "mfa \<Rightarrow> string \<Rightarrow> mfa_error + string" where
  "normalizeTOTPBackupCode mf code =
     (let code = ToUpper (mf_upper mf) (filter (\<lambda>c. c \<noteq> CHR ''-'') (TrimSpace code))
      in if length code \<noteq> totpBackupCodeRawLength then Inl ErrTOTPBackupCodeInvalid
         else if \<exists>r\<in>set (runes (bytes code)). r \<notin> set (bytes totpBackupCodeAlphabet) then Inl ErrTOTPBackupCodeInvalid
         else Inr code)"

text \<open>A hyphen before every fourth character but the first.\<close>

fun format_from :: "nat \<Rightarrow> string \<Rightarrow> string" where
  "format_from i [] = []"
| "format_from i (r # rs) = (if i > 0 \<and> i mod totpBackupCodeGroupSize = 0 then ''-'' else []) @ r # format_from (Suc i) rs"

definition formatTOTPBackupCode :: "string \<Rightarrow> string" where
  "formatTOTPBackupCode code = format_from 0 code"

text \<open>The random index of each character of each code is given; without them the reader has failed.\<close>

definition generateTOTPBackupCode :: "(nat \<Rightarrow> nat) \<Rightarrow> string" where
  "generateTOTPBackupCode draw = formatTOTPBackupCode (map (\<lambda>j. totpBackupCodeAlphabet ! draw j) [0..<totpBackupCodeRawLength])"

definition GenerateTOTPBackupCodes :: "(nat \<Rightarrow> nat \<Rightarrow> nat) option \<Rightarrow> mfa_error + string list" where
  "GenerateTOTPBackupCodes draws =
     (case draws of
        None \<Rightarrow> Inl ErrMfaStore
      | Some draw \<Rightarrow> Inr (map (\<lambda>i. generateTOTPBackupCode (draw i)) [0..<totpBackupCodeCount]))"

fun HashTOTPBackupCodes :: "mfa \<Rightarrow> string \<Rightarrow> string list \<Rightarrow> mfa_error + string list" where
  "HashTOTPBackupCodes mf secret [] = Inr []"
| "HashTOTPBackupCodes mf secret (code # codes) =
     (case normalizeTOTPBackupCode mf code of
        Inl err \<Rightarrow> Inl err
      | Inr normalized \<Rightarrow>
          (case HashTOTPBackupCodes mf secret codes of
             Inl err \<Rightarrow> Inl err
           | Inr hashes \<Rightarrow> Inr (mf_mac mf secret normalized # hashes)))"

text \<open>The device a normalized code belongs to, and the write that takes its digest off.\<close>

definition backup_device :: "mfa \<Rightarrow> string \<Rightarrow> totp_device list \<Rightarrow> totp_device option" where
  "backup_device mf n devices = find (\<lambda>r. mf_mac mf (td_Secret r) n \<in> set (td_BackupCodeHashes r)) devices"

definition spend_digest :: "mfa \<Rightarrow> string \<Rightarrow> int \<Rightarrow> totp_device \<Rightarrow> accounts \<Rightarrow> accounts" where
  "spend_digest mf n now device d =
     d\<lparr>db_devices := map (\<lambda>r. if td_ID r = td_ID device
       then r\<lparr>td_BackupCodeHashes := remove1 (mf_mac mf (td_Secret device) n) (td_BackupCodeHashes device), td_LastUsedAt := Some now\<rparr>
       else r) (db_devices d)\<rparr>"

definition consume_rows :: "mfa \<Rightarrow> string \<Rightarrow> string \<Rightarrow> int \<Rightarrow> accounts \<Rightarrow> accounts" where
  "consume_rows mf userID n now d =
     (case backup_device mf n (query_devices (TrimSpace userID) True d) of
        None \<Rightarrow> d
      | Some device \<Rightarrow> spend_digest mf n now device d)"

definition consumeTOTPBackupCode :: "mfa \<Rightarrow> string \<Rightarrow> string \<Rightarrow> (mfa_error option) iam_prog" where
  "consumeTOTPBackupCode mf userID code =
     (if TrimSpace userID = [] then Ret (Some ErrAuthenticationRequired)
      else Now (\<lambda>now.
        case normalizeTOTPBackupCode mf code of
          Inl _ \<Rightarrow> Ret (Some ErrTOTPBackupCodeInvalid)
        | Inr n \<Rightarrow>
            Db (consume_rows mf userID n now) (\<lambda>answered d. Ret
              (if \<not> answered then Some ErrMfaStore
               else if backup_device mf n (query_devices (TrimSpace userID) True d) = None then Some ErrTOTPBackupCodeInvalid
               else None))))"

section \<open>The gate of a login\<close>

definition verifyFailed :: iam_error where
  "verifyFailed = Svc 500 ''failed to verify second factor''"

definition touch_device :: "string \<Rightarrow> int \<Rightarrow> accounts \<Rightarrow> accounts" where
  "touch_device ident now d =
     d\<lparr>db_devices := map (\<lambda>r. if td_ID r = ident then r\<lparr>td_LastUsedAt := Some now\<rparr> else r) (db_devices d)\<rparr>"

definition verifyLoginTOTPCode :: "mfa \<Rightarrow> totp_device list \<Rightarrow> string \<Rightarrow> (iam_error option) iam_prog" where
  "verifyLoginTOTPCode mf devices code =
     pbind (findLoginTOTPDeviceByCode mf devices code) (\<lambda>found.
     case found of
       None \<Rightarrow> Ret (Some (Svc 401 ''invalid TOTP code''))
     | Some device \<Rightarrow>
         pbind (markTOTPCodeUsed mf (td_UserID device) code) (\<lambda>err.
         case err of
           Some e \<Rightarrow> Ret (Some (if e = ErrTOTPCodeReplayed then Svc 401 ''invalid TOTP code'' else verifyFailed))
         | None \<Rightarrow>
             Now (\<lambda>now.
             Db (touch_device (td_ID device) now) (\<lambda>answered d.
               if answered \<and> has_device (td_ID device) d
               then pbind (clearTOTPVerificationFailures mf (td_UserID device) [TotpLogin]) (\<lambda>_. Ret None)
               else Ret (Some verifyFailed)))))"

definition verifyLoginBackupCode :: "mfa \<Rightarrow> string \<Rightarrow> string \<Rightarrow> (iam_error option) iam_prog" where
  "verifyLoginBackupCode mf userID code =
     pbind (consumeTOTPBackupCode mf userID code) (\<lambda>err.
     case err of
       Some e \<Rightarrow> Ret (Some (if e = ErrTOTPBackupCodeInvalid then Svc 401 ''invalid backup code'' else verifyFailed))
     | None \<Rightarrow> pbind (clearTOTPVerificationFailures mf userID [TotpLogin]) (\<lambda>_. Ret None))"

definition LoginSecondFactorVerifier :: "mfa \<Rightarrow> string \<Rightarrow> string \<Rightarrow> string \<Rightarrow> (iam_error option) iam_prog" where
  "LoginSecondFactorVerifier mf user factor_TOTPCode factor_BackupCode =
     (let userID = TrimSpace user; totpCode = TrimSpace factor_TOTPCode; backupCode = TrimSpace factor_BackupCode
      in if userID = [] then Ret (Some (Svc 401 ''authentication required''))
         else pbind (list_devices userID True) (\<lambda>l.
           case l of
             Inl _ \<Rightarrow> Ret (Some verifyFailed)
           | Inr devices \<Rightarrow>
               (if devices = [] then Ret None
                else if totpCode = [] \<and> backupCode = [] then Ret (Some (Svc 401 ''second factor required''))
                else if totpCode \<noteq> [] \<and> backupCode \<noteq> [] then Ret (Some (Svc 400 ''provide exactly one second factor''))
                else pbind (reserveTOTPVerificationAttempt mf TotpLogin userID) (\<lambda>err.
                  case err of
                    Some e \<Rightarrow> Ret (Some (if e = ErrTOTPVerificationLocked then Svc 429 ''too many failed verification attempts'' else verifyFailed))
                  | None \<Rightarrow>
                      (if totpCode \<noteq> [] then verifyLoginTOTPCode mf devices totpCode
                       else verifyLoginBackupCode mf userID backupCode)))))"

section \<open>Enrolment\<close>

definition totpBindChallengeTTL :: int where "totpBindChallengeTTL = 10 * 60 * nsPerSecond"

definition totpBindChallengeKey :: "string \<Rightarrow> string" where
  "totpBindChallengeKey challengeID = ''mfa:totp:bind:'' @ TrimSpace challengeID"

definition authenticationRequired :: iam_error where
  "authenticationRequired = Svc 401 ''authentication required''"

definition currentTOTPBindSessionID :: "mfa_ctx \<Rightarrow> iam_error + string" where
  "currentTOTPBindSessionID cx =
     (if TrimSpace (mx_SessionID cx) \<noteq> [] then Inr (TrimSpace (mx_SessionID cx)) else Inl authenticationRequired)"

definition issueTOTPBindChallenge :: "mfa \<Rightarrow> string option \<Rightarrow> challenge \<Rightarrow> (mfa_error + string \<times> challenge) iam_prog" where
  "issueTOTPBindChallenge mf newID ch =
     (if TrimSpace (bc_UserID ch) = [] \<or> TrimSpace (bc_SessionID ch) = [] \<or> TrimSpace (bc_Username ch) = [] \<or> TrimSpace (bc_Secret ch) = []
      then Ret (Inl ErrTOTPBindChallengeInvalid)
      else
        (case newID of
           None \<Rightarrow> Ret (Inl ErrMfaStore)
         | Some challengeID \<Rightarrow>
             Now (\<lambda>now.
             (let ch = \<lparr>bc_UserID = TrimSpace (bc_UserID ch), bc_SessionID = TrimSpace (bc_SessionID ch), bc_Username = TrimSpace (bc_Username ch),
                        bc_Secret = TrimSpace (bc_Secret ch), bc_IssuedAt = now, bc_ExpiresAt = now + totpBindChallengeTTL\<rparr>
              in pbind (cache_Set (mf_ns mf) (mf_enc mf) (totpBindChallengeKey challengeID) ch totpBindChallengeTTL) (\<lambda>r. Ret
                   (case r of Some _ \<Rightarrow> Inl ErrMfaStore | None \<Rightarrow> Inr (challengeID, ch)))))))"

text \<open>The secret and the image of its URL come from libraries; without them the request fails.\<close>

definition TOTPBind :: "mfa \<Rightarrow> mfa_ctx \<Rightarrow> string option \<Rightarrow> bool \<Rightarrow> string option \<Rightarrow> (iam_error + string) iam_prog" where
  "TOTPBind mf cx secret qrCode newID =
     (if mx_UserID cx = [] then Ret (Inl authenticationRequired)
      else if mx_Username cx = [] then Ret (Inl authenticationRequired)
      else
        (case currentTOTPBindSessionID cx of
           Inl err \<Rightarrow> Ret (Inl err)
         | Inr sessionID \<Rightarrow>
             (case secret of
                None \<Rightarrow> Ret (Inl (Svc 500 ''failed to generate TOTP key''))
              | Some key \<Rightarrow>
                  (if \<not> qrCode then Ret (Inl (Svc 500 ''failed to generate QR code image''))
                   else pbind (issueTOTPBindChallenge mf newID
                          \<lparr>bc_UserID = mx_UserID cx, bc_SessionID = sessionID, bc_Username = mx_Username cx, bc_Secret = key,
                           bc_IssuedAt = zero_time, bc_ExpiresAt = zero_time\<rparr>) (\<lambda>r. Ret
                     (case r of Inl _ \<Rightarrow> Inl (Svc 500 ''failed to issue TOTP binding challenge'') | Inr (challengeID, _) \<Rightarrow> Inr challengeID))))))"

definition loadTOTPBindChallenge :: "mfa \<Rightarrow> string \<Rightarrow> (mfa_error + challenge) iam_prog" where
  "loadTOTPBindChallenge mf challengeID0 =
     (let challengeID = TrimSpace challengeID0
      in if challengeID = [] then Ret (Inl ErrTOTPBindChallengeNotFound)
         else pbind (cache_Get (mf_ns mf) (mf_dec mf) (totpBindChallengeKey challengeID)) (\<lambda>r.
           case r of
             Inl err \<Rightarrow> Ret (Inl (if err = ErrKeyNotExists then ErrTOTPBindChallengeNotFound else ErrMfaStore))
           | Inr ch \<Rightarrow>
               (if TrimSpace (bc_UserID ch) = [] \<or> TrimSpace (bc_SessionID ch) = [] \<or> TrimSpace (bc_Secret ch) = []
                then Ret (Inl ErrTOTPBindChallengeInvalid)
                else if IsZero (bc_ExpiresAt ch) then Ret (Inr ch)
                else Now (\<lambda>now.
                  if bc_ExpiresAt ch \<le> now
                  then pbind (cache_Delete (mf_ns mf) (totpBindChallengeKey challengeID)) (\<lambda>_. Ret (Inl ErrTOTPBindChallengeExpired))
                  else Ret (Inr ch)))))"

definition consumeTOTPBindChallenge :: "mfa \<Rightarrow> string \<Rightarrow> (mfa_error option) iam_prog" where
  "consumeTOTPBindChallenge mf challengeID0 =
     (let challengeID = TrimSpace challengeID0
      in if challengeID = [] then Ret (Some ErrTOTPBindChallengeNotFound)
         else pbind (cache_Delete (mf_ns mf) (totpBindChallengeKey challengeID)) (\<lambda>r. Ret
           (case r of Some _ \<Rightarrow> Some ErrMfaStore | None \<Rightarrow> None)))"

text \<open>An insert that the unique index over user and secret, or the primary key, refuses changes nothing.\<close>

definition device_conflict :: "totp_device \<Rightarrow> accounts \<Rightarrow> bool" where
  "device_conflict device d \<longleftrightarrow>
     (\<exists>r\<in>set (db_devices d). td_ID r = td_ID device \<or> (td_UserID r = td_UserID device \<and> td_Secret r = td_Secret device))"

definition add_device :: "totp_device \<Rightarrow> accounts \<Rightarrow> accounts" where
  "add_device device d = (if device_conflict device d then d else d\<lparr>db_devices := db_devices d @ [device]\<rparr>)"

definition challengeRefused :: iam_error where
  "challengeRefused = Svc 400 ''invalid or expired TOTP binding challenge''"

definition save_confirmed ::
  "mfa \<Rightarrow> mfa_ctx \<Rightarrow> challenge \<Rightarrow> string \<Rightarrow> (nat \<Rightarrow> nat \<Rightarrow> nat) option \<Rightarrow> string \<Rightarrow> (iam_error + string \<times> string list) iam_prog" where
  "save_confirmed mf cx ch name draws newID =
     (case GenerateTOTPBackupCodes draws of
        Inl _ \<Rightarrow> Ret (Inl (Svc 500 ''failed to generate backup codes''))
      | Inr backupCodes \<Rightarrow>
          (case HashTOTPBackupCodes mf (bc_Secret ch) backupCodes of
             Inl _ \<Rightarrow> Ret (Inl (Svc 500 ''failed to hash backup codes''))
           | Inr hashes \<Rightarrow>
               Now (\<lambda>now.
               (let device = \<lparr>td_ID = newID, td_UserID = mx_UserID cx, td_DeviceName = name, td_Secret = bc_Secret ch,
                              td_BackupCodeHashes = hashes, td_IsActive = True, td_LastUsedAt = Some now\<rparr>
                in Db (add_device device) (\<lambda>answered d. Ret
                     (if answered \<and> \<not> device_conflict device d then Inr (newID, backupCodes)
                      else Inl (Svc 500 ''failed to save device'')))))))"

definition TOTPConfirm ::
  "mfa \<Rightarrow> mfa_ctx \<Rightarrow> string \<Rightarrow> string \<Rightarrow> string \<Rightarrow> (nat \<Rightarrow> nat \<Rightarrow> nat) option \<Rightarrow> string \<Rightarrow> (iam_error + string \<times> string list) iam_prog" where
  "TOTPConfirm mf cx challengeID code name draws newID =
     (if mx_UserID cx = [] then Ret (Inl authenticationRequired)
      else
        (case currentTOTPBindSessionID cx of
           Inl err \<Rightarrow> Ret (Inl err)
         | Inr sessionID \<Rightarrow>
             pbind (loadTOTPBindChallenge mf challengeID) (\<lambda>l.
             case l of
               Inl e \<Rightarrow> Ret (Inl (if e = ErrMfaStore then Svc 500 ''failed to load TOTP binding challenge'' else challengeRefused))
             | Inr ch \<Rightarrow>
                 (if bc_UserID ch \<noteq> mx_UserID cx \<or> bc_SessionID ch \<noteq> sessionID then Ret (Inl challengeRefused)
                  else Now (\<lambda>t.
                    if \<not> mf_validate mf t code (bc_Secret ch) then Ret (Inl (Svc 400 ''invalid TOTP code''))
                    else pbind (markTOTPCodeUsed mf (mx_UserID cx) code) (\<lambda>err.
                      case err of
                        Some e \<Rightarrow> Ret (Inl (if e = ErrTOTPCodeReplayed then Svc 400 ''invalid TOTP code'' else Svc 500 ''failed to confirm TOTP binding''))
                      | None \<Rightarrow>
                          pbind (consumeTOTPBindChallenge mf challengeID) (\<lambda>err.
                          case err of
                            Some _ \<Rightarrow> Ret (Inl (Svc 500 ''failed to consume TOTP binding challenge''))
                          | None \<Rightarrow> save_confirmed mf cx ch name draws newID)))))))"

section \<open>Unbinding\<close>

definition countTOTPUnbindVerificationMethods :: "string \<Rightarrow> string \<Rightarrow> nat" where
  "countTOTPUnbindVerificationMethods totpCode backupCode =
     (if TrimSpace totpCode \<noteq> [] then 1 else 0) + (if TrimSpace backupCode \<noteq> [] then 1 else 0)"

definition findTOTPUnbindDevice :: "totp_device list \<Rightarrow> string \<Rightarrow> totp_device option" where
  "findTOTPUnbindDevice devices deviceID = find (\<lambda>r. td_ID r = TrimSpace deviceID) devices"

definition countRemainingTOTPDevices :: "totp_device list \<Rightarrow> string \<Rightarrow> nat" where
  "countRemainingTOTPDevices devices removed = length (filter (\<lambda>r. td_ID r \<noteq> removed) devices)"

definition remove_device :: "string \<Rightarrow> accounts \<Rightarrow> accounts" where
  "remove_device ident d = d\<lparr>db_devices := filter (\<lambda>r. td_ID r \<noteq> ident) (db_devices d)\<rparr>"

definition unbindGone :: iam_error where
  "unbindGone = Svc 404 ''device not found or already unbound''"

definition freshAuthFailed :: iam_error where
  "freshAuthFailed = Svc 500 ''failed to verify fresh authentication''"

text \<open>The end of the transaction once the proof was accepted, with a code and with a recovery code.\<close>

definition unbind_listed :: "totp_device list \<Rightarrow> string \<Rightarrow> (iam_error + nat) iam_prog" where
  "unbind_listed devices deviceID =
     (case findTOTPUnbindDevice devices deviceID of
        None \<Rightarrow> Ret (Inl unbindGone)
      | Some device \<Rightarrow>
          Db (remove_device (td_ID device)) (\<lambda>answered d. Ret
            (if \<not> answered then Inl (Svc 500 ''failed to unbind device'')
             else if \<not> has_device (td_ID device) d then Inl unbindGone
             else Inr (countRemainingTOTPDevices devices (td_ID device)))))"

definition unbind_rows :: "mfa \<Rightarrow> string \<Rightarrow> string \<Rightarrow> string \<Rightarrow> int \<Rightarrow> accounts \<Rightarrow> accounts" where
  "unbind_rows mf userID n deviceID now d =
     (if backup_device mf n (query_devices (TrimSpace userID) True d) = None then d
      else case findTOTPUnbindDevice (query_devices userID True d) deviceID of
             None \<Rightarrow> d
           | Some device \<Rightarrow> remove_device (td_ID device) (consume_rows mf userID n now d))"

definition unbind_consumed :: "mfa \<Rightarrow> string \<Rightarrow> string \<Rightarrow> string \<Rightarrow> (bool \<times> (iam_error + nat)) iam_prog" where
  "unbind_consumed mf userID n deviceID =
     Now (\<lambda>now.
     Db (unbind_rows mf userID n deviceID now) (\<lambda>answered d. Ret
       (if backup_device mf n (query_devices (TrimSpace userID) True d) = None
        then (False, Inl (if answered then Svc 401 ''invalid verification'' else freshAuthFailed))
        else (True,
          if \<not> answered then Inl (Svc 500 ''failed to unbind device'')
          else case findTOTPUnbindDevice (query_devices userID True d) deviceID of
                 None \<Rightarrow> Inl unbindGone
               | Some device \<Rightarrow> Inr (countRemainingTOTPDevices (query_devices userID True d) (td_ID device))))))"

text \<open>The transaction: whether the proof was accepted, and the answer.\<close>

definition unbind_tx :: "mfa \<Rightarrow> string \<Rightarrow> string \<Rightarrow> string \<Rightarrow> string \<Rightarrow> (bool \<times> (iam_error + nat)) iam_prog" where
  "unbind_tx mf userID deviceID totpCode backupCode =
     pbind (list_devices userID True) (\<lambda>l.
     case l of
       Inl _ \<Rightarrow> Ret (False, Inl (Svc 500 ''failed to list active TOTP devices''))
     | Inr devices \<Rightarrow>
         (if TrimSpace totpCode \<noteq> [] then
            pbind (validateTOTPCodeForDevices mf userID totpCode devices) (\<lambda>err.
            case err of
              Some e \<Rightarrow>
                Ret (False, Inl (if e = ErrTOTPCodeInvalid \<or> e = ErrTOTPCodeReplayed then Svc 401 ''invalid verification'' else freshAuthFailed))
            | None \<Rightarrow> pbind (unbind_listed devices deviceID) (\<lambda>r. Ret (True, r)))
          else
            (case normalizeTOTPBackupCode mf backupCode of
               Inl _ \<Rightarrow> Ret (False, Inl (Svc 401 ''invalid verification''))
             | Inr n \<Rightarrow> unbind_consumed mf userID n deviceID)))"

definition TOTPUnbind :: "mfa \<Rightarrow> mfa_ctx \<Rightarrow> string \<Rightarrow> string \<Rightarrow> string \<Rightarrow> (iam_error + nat) iam_prog" where
  "TOTPUnbind mf cx deviceID totpCode backupCode =
     (let userID = mx_UserID cx; methods = countTOTPUnbindVerificationMethods totpCode backupCode
      in if userID = [] then Ret (Inl authenticationRequired)
         else if TrimSpace deviceID = [] then Ret (Inl (Svc 400 ''device_id is required''))
         else if methods = 0 then Ret (Inl (Svc 400 ''fresh authentication required''))
         else if methods \<noteq> 1 then Ret (Inl (Svc 400 ''provide exactly one verification method''))
         else pbind (reserveTOTPVerificationAttempt mf TotpUnbind userID) (\<lambda>err.
           case err of
             Some e \<Rightarrow> Ret (Inl (if e = ErrTOTPVerificationLocked then Svc 429 ''too many failed verification attempts'' else freshAuthFailed))
           | None \<Rightarrow>
               pbind (unbind_tx mf userID deviceID totpCode backupCode) (\<lambda>(proofAccepted, r).
                 if proofAccepted then pbind (clearTOTPVerificationFailures mf userID [TotpUnbind]) (\<lambda>_. Ret r)
                 else Ret r)))"

section \<open>Status and reset\<close>

record totp_info =
  ti_ID :: string
  ti_DeviceName :: string
  ti_LastUsedAt :: "int option"

definition buildTOTPStatusRsp :: "string \<Rightarrow> (iam_error + bool \<times> totp_info list) iam_prog" where
  "buildTOTPStatusRsp userID =
     pbind (list_devices userID True) (\<lambda>l. Ret
       (case l of
          Inl _ \<Rightarrow> Inl (Svc 500 ''failed to retrieve device information'')
        | Inr devices \<Rightarrow>
            Inr (devices \<noteq> [], map (\<lambda>r. \<lparr>ti_ID = td_ID r, ti_DeviceName = td_DeviceName r, ti_LastUsedAt = td_LastUsedAt r\<rparr>) devices)))"

definition TOTPStatus :: "mfa_ctx \<Rightarrow> (iam_error + bool \<times> totp_info list) iam_prog" where
  "TOTPStatus cx = (if mx_UserID cx = [] then Ret (Inl authenticationRequired) else buildTOTPStatusRsp (mx_UserID cx))"

text \<open>Who may administer another account is decided by what the host installed, and by nobody until then.\<close>

type_synonym administrator = "mfa_ctx \<Rightarrow> string \<Rightarrow> (iam_error option) iam_prog"

definition missingAccountAdministrator :: administrator where
  "missingAccountAdministrator cx target = Ret (Some (Svc 500 ''MFA account administrator is not configured''))"

definition ensureCanAdministerMFA :: "administrator option \<Rightarrow> administrator" where
  "ensureCanAdministerMFA installed cx target =
     pbind ((case installed of None \<Rightarrow> missingAccountAdministrator | Some a \<Rightarrow> a) cx target) (\<lambda>r. Ret
       (case r of
          None \<Rightarrow> None
        | Some (Svc st msg) \<Rightarrow> Some (Svc st msg)
        | Some _ \<Rightarrow> Some (Svc 500 ''administrative authorization failed'')))"

definition administer :: "administrator option \<Rightarrow> mfa_ctx \<Rightarrow> (string \<Rightarrow> (iam_error + 'a) iam_prog) \<Rightarrow> (iam_error + 'a) iam_prog" where
  "administer installed cx f =
     (let target = TrimSpace (mx_Param cx)
      in if target = [] then Ret (Inl (Svc 400 ''user id is required''))
         else pbind (ensureCanAdministerMFA installed cx target) (\<lambda>err.
           case err of Some e \<Rightarrow> Ret (Inl e) | None \<Rightarrow> f target))"

definition AdminTOTPStatus :: "administrator option \<Rightarrow> mfa_ctx \<Rightarrow> (iam_error + bool \<times> totp_info list) iam_prog" where
  "AdminTOTPStatus installed cx = administer installed cx buildTOTPStatusRsp"

text \<open>A delete that misses one of its rows fails, and the transaction with it.\<close>

definition reset_rows :: "string list \<Rightarrow> accounts \<Rightarrow> accounts" where
  "reset_rows ids d =
     (if \<forall>i\<in>set ids. has_device i d then d\<lparr>db_devices := filter (\<lambda>r. td_ID r \<notin> set ids) (db_devices d)\<rparr> else d)"

definition reset_tx :: "string \<Rightarrow> (iam_error + nat) iam_prog" where
  "reset_tx userID =
     pbind (list_devices userID False) (\<lambda>l.
     case l of
       Inl _ \<Rightarrow> Ret (Inl (Svc 500 ''failed to list TOTP devices''))
     | Inr devices \<Rightarrow>
         (if devices = [] then Ret (Inr 0)
          else
            (let ids = map td_ID devices
             in Db (reset_rows ids) (\<lambda>answered d. Ret
                  (if answered \<and> (\<forall>i\<in>set ids. has_device i d) then Inr (length devices)
                   else Inl (Svc 500 ''failed to reset TOTP devices''))))))"

definition AdminTOTPReset :: "mfa \<Rightarrow> administrator option \<Rightarrow> mfa_ctx \<Rightarrow> (iam_error + nat) iam_prog" where
  "AdminTOTPReset mf installed cx =
     administer installed cx (\<lambda>target.
       pbind (reset_tx target) (\<lambda>r.
         case r of
           Inl err \<Rightarrow> Ret (Inl err)
         | Inr removed \<Rightarrow> pbind (clearTOTPVerificationFailures mf target [TotpLogin, TotpUnbind]) (\<lambda>_. Ret (Inr removed))))"

end
