(* ===== verification/Redis_Once.thy ===== *)
theory Redis_Once
  imports Redis_Rely
begin

text \<open>
  Latches. Programs that set a key only if it is absent and go on only if they did, or that take something
  off a row in the statement that finds it there and go on only if it was, pass one at a time: whatever
  the interleaving, at most one of them passes, before the key expires or for good.
\<close>

section \<open>One passes\<close>

text \<open>
  Waiting programs have results of one kind only as long as a condition holds; a step leaves a program
  waiting or makes the condition hold. Then at most one program has results of another kind.
\<close>

lemma pool_latch:
  assumes step: "\<And>i p w ch p' w'. W i p \<Longrightarrow> A w \<Longrightarrow> prog_step redis_command ch p w = (p', w') \<Longrightarrow>
      A w' \<and> (W i p' \<or> (safe J D I (\<lambda>_. True) p' \<and> rely J I w'))"
    and waits: "\<And>i p. W i p \<Longrightarrow> safe J D I (G i) p" and "lasting J D" "w_now w' < D"
  shows "\<forall>i<length ps. W i (ps ! i) \<Longrightarrow> A w \<Longrightarrow> run_pool redis_command sched (ps, w) = (ps', w') \<Longrightarrow>
    \<exists>i0. \<forall>i<length ps. \<forall>a. i \<noteq> i0 \<longrightarrow> ps' ! i = Ret a \<longrightarrow> G i a"
proof (induction sched arbitrary: ps w)
  case Nil
  then have "G i a" if "i < length ps" "ps' ! i = Ret a" for i a
    using that waits [of i "Ret a"] by (auto simp: run_pool_def)
  then show ?case by blast
next
  case (Cons m sched)
  obtain ps1 w1 where s: "pool_step redis_command m (ps, w) = (ps1, w1)" by fastforce
  have rest: "run_pool redis_command sched (ps1, w1) = (ps', w')" using Cons.prems(3) s by (simp add: run_pool_def)
  show ?case
  proof (cases "fst m < length ps")
    case False
    then show ?thesis using s Cons.IH [OF Cons.prems(1,2)] rest by (auto simp: pool_step_def)
  next
    case True
    obtain p w2 where st: "prog_step redis_command (snd m) (ps ! fst m) w = (p, w2)" by fastforce
    have p: "ps1 = ps[fst m := p]" "w1 = w2" using s True st by (auto simp: pool_step_def)
    have a: "A w1" and "W (fst m) p \<or> (safe J D I (\<lambda>_. True) p \<and> rely J I w1)"
      using step [OF Cons.prems(1) [rule_format, OF True] Cons.prems(2) st] p by auto
    from this(2) show ?thesis
    proof
      assume "W (fst m) p"
      then have "\<forall>i<length ps1. W i (ps1 ! i)" using Cons.prems(1) p True by (auto simp: nth_list_update)
      then show ?thesis using Cons.IH [OF _ a rest] p by simp
    next
      assume passed: "safe J D I (\<lambda>_. True) p \<and> rely J I w1"
      let ?G = "\<lambda>i a. i \<noteq> fst m \<longrightarrow> G i a"
      have "safe J D I (?G i) (ps1 ! i)" if "i < length ps1" for i
      proof (cases "i = fst m")
        case False
        then show ?thesis using that p Cons.prems(1) waits by simp
      qed (use passed p True in simp)
      then have "\<forall>i<length ps1. safe J D I (?G i) (ps' ! i)"
        using pool_safe [OF assms(3) _ _ rest assms(4), of I ?G] passed by simp
      then have "G i a" if "i < length ps" "i \<noteq> fst m" "ps' ! i = Ret a" for i a using that p by fastforce
      then show ?thesis by blast
    qed
  qed
qed

section \<open>Keys that stay\<close>

text \<open>A key that does not expire before an instant.\<close>

definition kept :: "string \<Rightarrow> int \<Rightarrow> int \<Rightarrow> keyspace \<Rightarrow> bool" where
  "kept x D t ks \<longleftrightarrow> (\<exists>v e. held t ks x = Some (v, Some e) \<and> D \<le> e)"

lemma lasting_kept: "lasting (kept x D) D"
  by (fastforce simp: lasting_def kept_def intro: held_until)

lemma spares_other: "\<not> names x c \<Longrightarrow> spares (kept x D) D c"
proof -
  assume n: "\<not> names x c"
  have "snd (redis_command c t ks) x = ks x" for t ks using command_other [OF _ n] by (metis prod.collapse)
  then show ?thesis by (simp add: spares_def kept_def held_def)
qed

lemma spares_SETNX: "spares (kept x D) D (SETNX y v ttl)"
proof (cases "x = y")
  case True
  then show ?thesis by (auto simp: spares_def kept_def)
qed (rule spares_other, simp)

section \<open>Programs before and behind the latch\<close>

text \<open>A tame program keeps the key and the condition on the rows, whatever it is answered.\<close>

primrec tame :: "(int \<Rightarrow> keyspace \<Rightarrow> bool) \<Rightarrow> int \<Rightarrow> ('d \<Rightarrow> bool) \<Rightarrow> ('d, 'a) prog \<Rightarrow> bool" where
  "tame J D I (Ret a) \<longleftrightarrow> True"
| "tame J D I (Redis c k) \<longleftrightarrow> spares J D c \<and> (\<forall>r. tame J D I (k r))"
| "tame J D I (Now k) \<longleftrightarrow> (\<forall>t. tame J D I (k t))"
| "tame J D I (Db u k) \<longleftrightarrow> (\<forall>d. I d \<longrightarrow> I (u d)) \<and> (\<forall>b d. tame J D I (k b d))"

text \<open>A gated program has results of one kind only, unless it has itself set the key, for a time \<open>T\<close>.\<close>

primrec gated :: "string \<Rightarrow> int \<Rightarrow> int \<Rightarrow> ('d \<Rightarrow> bool) \<Rightarrow> ('a \<Rightarrow> bool) \<Rightarrow> ('d, 'a) prog \<Rightarrow> bool" where
  "gated x T D I G (Ret a) \<longleftrightarrow> G a"
| "gated x T D I G (Redis c k) \<longleftrightarrow> spares (kept x D) D c \<and>
     (\<forall>r. gated x T D I G (k r) \<or> ((\<exists>v. c = SETNX x v T) \<and> r = R_bool True \<and> tame (kept x D) D I (k r)))"
| "gated x T D I G (Now k) \<longleftrightarrow> (\<forall>t. gated x T D I G (k t))"
| "gated x T D I G (Db u k) \<longleftrightarrow> (\<forall>d. I d \<longrightarrow> I (u d)) \<and> (\<forall>b d. I d \<longrightarrow> gated x T D I G (k b d))"

lemma tame_pbind: "tame J D I m \<Longrightarrow> (\<And>a. tame J D I (f a)) \<Longrightarrow> tame J D I (pbind m f)"
  by (induction m rule: prog_induct) auto

lemma tame_issues: "issues (spares J D) p \<Longrightarrow> reads_only p \<Longrightarrow> tame J D I p"
  by (induction p rule: prog_induct) auto

lemma tame_db_read [simp]: "tame J D I (db_read failed f)"
  by (simp add: db_read_def)

lemma tame_safe: "tame J D I p \<Longrightarrow> (\<And>a. G a) \<Longrightarrow> safe J D I G p"
  by (induction p rule: prog_induct) (auto simp: spares_def)

lemma tame_gated: "tame (kept x D) D I p \<Longrightarrow> (\<And>a. G a) \<Longrightarrow> gated x T D I G p"
  by (induction p rule: prog_induct) auto

lemma gated_pbind:
  "gated x T D I Q m \<Longrightarrow> (\<And>a. Q a \<Longrightarrow> gated x T D I G (f a)) \<Longrightarrow> (\<And>a. tame (kept x D) D I (f a)) \<Longrightarrow> gated x T D I G (pbind m f)"
proof (induction m rule: prog_induct)
  case (Redis c k)
  then show ?case using tame_pbind by (auto; blast)
qed auto

lemma gated_weaken: "gated x T D I Q p \<Longrightarrow> (\<And>a. Q a \<Longrightarrow> G a) \<Longrightarrow> gated x T D I G p"
  by (induction p rule: prog_induct) (auto; blast)+

lemma gated_pbind_tame: "tame (kept x D) D I m \<Longrightarrow> (\<And>a. gated x T D I G (f a)) \<Longrightarrow> gated x T D I G (pbind m f)"
  by (induction m rule: prog_induct) auto

text \<open>Behind a key that is there, a gated program is safe.\<close>

lemma gated_safe: "gated x T D I G p \<Longrightarrow> safe (kept x D) D I G p"
proof (induction p rule: prog_induct)
  case (Redis c k)
  have "safe (kept x D) D I G (k r)"
    if r: "r = R_failed \<or> (\<exists>t ks. t < D \<and> kept x D t ks \<and> r = fst (redis_command c t ks))" for r
  proof -
    have "\<not> ((\<exists>v. c = SETNX x v T) \<and> r = R_bool True)" using r by (auto simp: kept_def)
    then show ?thesis using Redis.prems Redis.IH by auto
  qed
  then show ?case using Redis.prems by (simp add: spares_def)
qed auto

lemma call_sets:
  assumes "redis_call redis_command ch (SETNX x v T) w = (R_bool True, w')" "0 < T"
  shows "held (w_now w') (w_redis w') x = Some (Text v, Some (w_now w' + T))"
  using assms by (auto simp: redis_call_def deadline_def split: prod.splits if_splits)

lemma gated_step:
  assumes "gated x T D I G p" "I (w_db w) \<and> D \<le> w_now w + T" "prog_step redis_command ch p w = (p', w')" "0 < T"
  shows "(I (w_db w') \<and> D \<le> w_now w' + T) \<and> (gated x T D I G p' \<or> (safe (kept x D) D I (\<lambda>_. True) p' \<and> rely (kept x D) I w'))"
proof (cases p)
  case (Redis c k)
  obtain r w1 where c: "redis_call redis_command ch c w = (r, w1)" by fastforce
  have w1: "w' = w1" "p' = k r" using assms(3) Redis c by simp_all
  have "kept x D (w_now w1) (w_redis w1)" if "c = SETNX x v T" "r = R_bool True" for v
    using call_sets [of ch x v T w w1] c that assms(2,4) call_time [OF c] unfolding kept_def by fastforce
  then show ?thesis using assms(1,2) Redis w1 call_db [OF c] call_time [OF c] tame_safe [of "kept x D" D I "k r"] by (auto simp: rely_def)
qed (use assms in \<open>auto simp: clock_call_def db_call_def\<close>)

section \<open>What is on a row\<close>

text \<open>
  The same for something on a row: a statement that found it there and took it off is the way past. While it
  may be there, \<open>K\<close> holds of the rows, and \<open>I\<close> once it is gone.
\<close>

abbreviation always :: "int \<Rightarrow> keyspace \<Rightarrow> bool" where
  "always \<equiv> \<lambda>_ _. True"

primrec taking :: "('d \<Rightarrow> bool) \<Rightarrow> ('d \<Rightarrow> bool) \<Rightarrow> int \<Rightarrow> ('a \<Rightarrow> bool) \<Rightarrow> ('d, 'a) prog \<Rightarrow> bool" where
  "taking K I D G (Ret a) \<longleftrightarrow> G a"
| "taking K I D G (Redis c k) \<longleftrightarrow> (\<forall>r. taking K I D G (k r))"
| "taking K I D G (Now k) \<longleftrightarrow> (\<forall>t. taking K I D G (k t))"
| "taking K I D G (Db u k) \<longleftrightarrow> (\<forall>d. K d \<longrightarrow> K (u d)) \<and> (\<forall>d. I d \<longrightarrow> I (u d)) \<and>
     (\<forall>b d. K d \<longrightarrow> taking K I D G (k b d) \<or> (b \<and> \<not> I d \<and> I (u d) \<and> tame always D I (k b d)))"

lemma spares_always [simp]: "spares always D c"
  by (simp add: spares_def)

lemma tame_taking: "tame always D K p \<Longrightarrow> tame always D I p \<Longrightarrow> (\<And>a. G a) \<Longrightarrow> taking K I D G p"
  by (induction p rule: prog_induct) auto

lemma taking_pbind:
  "taking K I D Q m \<Longrightarrow> (\<And>a. Q a \<Longrightarrow> taking K I D G (f a)) \<Longrightarrow> (\<And>a. tame always D I (f a)) \<Longrightarrow> taking K I D G (pbind m f)"
proof (induction m rule: prog_induct)
  case (Db u k)
  have "taking K I D G (pbind (k b d) f) \<or> (b \<and> \<not> I d \<and> I (u d) \<and> tame always D I (pbind (k b d) f))" if "K d" for b d
  proof (cases "taking K I D Q (k b d)")
    case True
    then show ?thesis using Db.IH Db.prems(2,3) by blast
  next
    case False
    then show ?thesis using that Db.prems(1) tame_pbind [of always D I "k b d" f, OF _ Db.prems(3)] by auto
  qed
  then show ?case using Db.prems(1) by simp
qed auto

lemma taking_pbind_tame:
  "tame always D K m \<Longrightarrow> tame always D I m \<Longrightarrow> (\<And>a. taking K I D G (f a)) \<Longrightarrow> taking K I D G (pbind m f)"
  by (induction m rule: prog_induct) auto

lemma taking_safe: "taking K I D G p \<Longrightarrow> (\<And>d. I d \<Longrightarrow> K d) \<Longrightarrow> safe always D I G p"
proof (induction p rule: prog_induct)
  case (Db u k)
  then have "safe always D I G (k b d)" if "I d" for b d using that Db.prems Db.IH by (metis taking.simps(4))
  then show ?case using Db.prems(1) by simp
qed auto

lemma taking_step:
  assumes "taking K I D G p" "K (w_db w)" "prog_step redis_command ch p w = (p', w')"
  shows "K (w_db w') \<and> (taking K I D G p' \<or> (safe always D I (\<lambda>_. True) p' \<and> rely always I w'))"
proof (cases p)
  case (Redis c k)
  obtain r w1 where "redis_call redis_command ch c w = (r, w1)" by fastforce
  then show ?thesis using assms Redis call_db by fastforce
next
  case (Db u k)
  then have p: "p' = k (ch_answered ch) (w_db w)" "w' = db_call ch u w" using assms(3) by auto
  then have "K (w_db w')" using assms(1,2) Db by (simp add: db_call_def)
  moreover have "taking K I D G p' \<or> (ch_answered ch \<and> I (u (w_db w)) \<and> tame always D I p')" using assms(1,2) Db p by auto
  ultimately show ?thesis using p tame_safe [of always D I p'] by (auto simp: rely_def db_call_def)
qed (use assms in \<open>auto simp: clock_call_def\<close>)

section \<open>Beside any documented server\<close>

context redis_server
begin

lemma key_taken_once:
  assumes "0 < T" "D \<le> w_now w + T" "\<forall>i<length ps. gated x T D I (G i) (ps ! i)" "I (w_db w)"
    "run_pool serve sched (ps, w) = (ps', w')" "w_now w' < D"
  shows "\<exists>i0. \<forall>i<length ps. \<forall>a. i \<noteq> i0 \<longrightarrow> ps' ! i = Ret a \<longrightarrow> G i a"
proof -
  obtain sched' where r: "run_pool redis_command sched' (ps, seen w) = (ps', seen w')" using pool_keyspace [OF assms(5)] by blast
  show ?thesis
    by (rule pool_latch [where W = "\<lambda>i p. gated x T D I (G i) p" and A = "\<lambda>w. I (w_db w) \<and> D \<le> w_now w + T", OF _ _ lasting_kept [of x] _ _ _ r])
      (use gated_step [OF _ _ _ assms(1)] gated_safe assms(2-4,6) in \<open>simp_all\<close>)
qed

lemma row_taken_once:
  assumes "\<And>d. I d \<Longrightarrow> K d" "\<forall>i<length ps. taking K I (w_now w' + 1) (G i) (ps ! i)" "K (w_db w)"
    "run_pool serve sched (ps, w) = (ps', w')"
  shows "\<exists>i0. \<forall>i<length ps. \<forall>a. i \<noteq> i0 \<longrightarrow> ps' ! i = Ret a \<longrightarrow> G i a"
proof -
  obtain sched' where r: "run_pool redis_command sched' (ps, seen w) = (ps', seen w')" using pool_keyspace [OF assms(4)] by blast
  have still: "lasting always (w_now w' + 1)" by (simp add: lasting_def)
  show ?thesis
    by (rule pool_latch [where W = "\<lambda>i p. taking K I (w_now w' + 1) (G i) p" and A = "\<lambda>w. K (w_db w)", OF _ _ still _ _ _ r])
      (use taking_step taking_safe [OF _ assms(1)] assms(2,3) in \<open>simp_all\<close>)
qed

end

end
