(* ===== verification/Mfa_Properties.thy ===== *)
theory Mfa_Properties
  imports Mfa Redis_Once
begin

text \<open>
  What the second factor promises under every interleaving of requests, with replies lost, commands
  carried out twice and statements left unanswered: a code is accepted once, a spent budget refuses
  even a right proof and spends no recovery code, a recovery code is accepted once, and an enrolled
  account is not let in without a proof.
\<close>

section \<open>Keys\<close>

lemmas mfa_key_defs = totpCodeReplayKey_def totpVerificationFailureKey_def totpBindChallengeKey_def

lemma mfa_framework_keys [simp]:
  "framework_key (totpCodeReplayKey u c)" "framework_key (totpVerificationFailureKey p u)" "framework_key (totpBindChallengeKey i)"
  by (simp_all add: framework_key_def mfa_key_defs)

lemma mfa_keys_apart [simp]:
  "totpVerificationFailureKey p v \<noteq> totpCodeReplayKey u c" "totpCodeReplayKey u c \<noteq> totpVerificationFailureKey p v"
  "totpBindChallengeKey i \<noteq> totpCodeReplayKey u c" "totpCodeReplayKey u c \<noteq> totpBindChallengeKey i"
  "totpBindChallengeKey i \<noteq> totpVerificationFailureKey p v" "totpVerificationFailureKey p v \<noteq> totpBindChallengeKey i"
  by (simp_all add: mfa_key_defs)

section \<open>Requests\<close>

datatype mfa_request =
    LoginReq string string string
  | UnbindReq mfa_ctx string string string
  | ConfirmReq mfa_ctx string string string "(nat \<Rightarrow> nat \<Rightarrow> nat) option" string

datatype mfa_answer = Admitted | Unbound nat | Confirmed string "string list" | Refused iam_error

fun mfa_handle :: "mfa \<Rightarrow> mfa_request \<Rightarrow> mfa_answer iam_prog" where
  "mfa_handle mf (LoginReq user code backup) =
     pbind (LoginSecondFactorVerifier mf user code backup) (\<lambda>r. Ret (case r of None \<Rightarrow> Admitted | Some e \<Rightarrow> Refused e))"
| "mfa_handle mf (UnbindReq cx dev code backup) =
     pbind (TOTPUnbind mf cx dev code backup) (\<lambda>r. Ret (case r of Inl e \<Rightarrow> Refused e | Inr n \<Rightarrow> Unbound n))"
| "mfa_handle mf (ConfirmReq cx ident code name draws newID) =
     pbind (TOTPConfirm mf cx ident code name draws newID) (\<lambda>r. Ret (case r of Inl e \<Rightarrow> Refused e | Inr (i, cs) \<Rightarrow> Confirmed i cs))"

text \<open>The user and the code a request presents.\<close>

fun presents :: "string \<Rightarrow> string \<Rightarrow> mfa_request \<Rightarrow> bool" where
  "presents u c (LoginReq user code backup) \<longleftrightarrow> TrimSpace user = u \<and> TrimSpace code = c"
| "presents u c (UnbindReq cx dev code backup) \<longleftrightarrow> TrimSpace (mx_UserID cx) = u \<and> TrimSpace code = c"
| "presents u c (ConfirmReq cx ident code name draws newID) \<longleftrightarrow> TrimSpace (mx_UserID cx) = u \<and> TrimSpace code = c"

fun is_unbind :: "mfa_request \<Rightarrow> bool" where
  "is_unbind (UnbindReq cx dev code backup) \<longleftrightarrow> True"
| "is_unbind _ \<longleftrightarrow> False"

definition refused :: "mfa_answer \<Rightarrow> bool" where
  "refused a \<longleftrightarrow> (\<exists>e. a = Refused e)"

lemma refused_simps [simp]: "refused (Refused e)" "\<not> refused Admitted" "\<not> refused (Unbound n)" "\<not> refused (Confirmed i cs)"
  by (simp_all add: refused_def)

section \<open>A code that was used\<close>

definition enrolled :: "string \<Rightarrow> accounts \<Rightarrow> bool" where
  "enrolled u d \<longleftrightarrow> (\<exists>r\<in>set (db_devices d). td_UserID r = u \<and> td_IsActive r)"

lemma enrolled_map:
  "(\<And>r. td_UserID (f r) = td_UserID r \<and> td_IsActive (f r) = td_IsActive r) \<Longrightarrow>
   enrolled u (d\<lparr>db_devices := map f (db_devices d)\<rparr>) \<longleftrightarrow> enrolled u d"
  by (simp add: enrolled_def)

lemma enrolled_touch: "enrolled u d \<Longrightarrow> enrolled u (touch_device i now d)"
  by (simp add: touch_device_def enrolled_map)

lemma enrolled_consume: "enrolled u d \<Longrightarrow> enrolled u (consume_rows mf v n now d)"
  by (simp add: consume_rows_def spend_digest_def enrolled_map split: option.split)

lemma enrolled_add: "enrolled u d \<Longrightarrow> enrolled u (add_device device d)"
  by (auto simp: enrolled_def add_device_def)

lemmas enrolled_writes = enrolled_touch enrolled_consume enrolled_add

lemma enrolled_query: "enrolled u d \<Longrightarrow> query_devices u True d \<noteq> []"
  by (auto simp: enrolled_def query_devices_def filter_empty_conv)

lemma query_user: "u \<noteq> [] \<Longrightarrow> r \<in> set (query_devices u b d) \<Longrightarrow> td_UserID r = u"
  by (simp add: query_devices_def)

text \<open>Programs that leave the marker of a code alone, whatever they answer.\<close>

abbreviation marker :: "mfa \<Rightarrow> string \<Rightarrow> string \<Rightarrow> string" where
  "marker mf u c \<equiv> Key (mf_ns mf) (totpCodeReplayKey u c)"

abbreviation marked :: "mfa \<Rightarrow> string \<Rightarrow> string \<Rightarrow> int \<Rightarrow> int \<Rightarrow> keyspace \<Rightarrow> bool" where
  "marked mf u c D \<equiv> kept (marker mf u c) D"

lemma reads_only_commands [simp]:
  "reads_only (redis_SetNX ns key v ttl)" "reads_only (redis_Del ns keys)" "reads_only (redis_IncrFixedWindow ns key w)"
  "reads_only (cache_Set ns enc key a ttl)" "reads_only (cache_Delete ns key)"
  by (simp_all add: redis_SetNX_def redis_Del_def redis_IncrFixedWindow_def cache_Set_def cache_Delete_def)

lemma reads_only_cache_Get [simp]: "reads_only (cache_Get ns dec key)"
  by (auto simp: cache_Get_def cache_Delete_def split: sum.split option.split)

lemma reads_only_mfa [simp]:
  "reads_only (reserveTOTPVerificationAttempt mf p v)"
  "reads_only (clearTOTPVerificationFailures mf v ps)" "reads_only (loadTOTPBindChallenge mf i)" "reads_only (consumeTOTPBindChallenge mf i)"
  by (auto simp: reserveTOTPVerificationAttempt_def clearTOTPVerificationFailures_def loadTOTPBindChallenge_def
      consumeTOTPBindChallenge_def Let_def intro!: reads_only_pbind split: sum.split)

lemma reads_only_find [simp]: "reads_only (findLoginTOTPDeviceByCode mf devices code)"
  by (induction devices) auto

lemma spares_mfa:
  assumes "clear_namespace (mf_ns mf)"
  shows "issues (spares (marked mf u c D) D) (reserveTOTPVerificationAttempt mf p v)"
    "issues (spares (marked mf u c D) D) (clearTOTPVerificationFailures mf v ps)"
    "issues (spares (marked mf u c D) D) (loadTOTPBindChallenge mf i)"
    "issues (spares (marked mf u c D) D) (consumeTOTPBindChallenge mf i)"
  using assms
  by (auto simp: reserveTOTPVerificationAttempt_def clearTOTPVerificationFailures_def loadTOTPBindChallenge_def
      consumeTOTPBindChallenge_def Let_def issues_simps namespacedKeys_def Key_inj spares_SETNX
      intro!: issues_pbind issues_redis_guarded spares_other split: sum.split)

lemma tame_find [simp]: "tame J D I (findLoginTOTPDeviceByCode mf devices code)"
  by (induction devices) auto

lemma tame_list [simp]: "tame J D I (list_devices v b)"
  by (simp add: list_devices_def)

lemma tame_mark: "tame (kept x D) D I (markTOTPCodeUsed mf v code)"
  by (simp add: markTOTPCodeUsed_def redis_SetNX_def spares_SETNX)

lemmas tame_parts = tame_issues [OF spares_mfa(1) reads_only_mfa(1)] tame_issues [OF spares_mfa(2) reads_only_mfa(2)]
  tame_issues [OF spares_mfa(3) reads_only_mfa(3)] tame_issues [OF spares_mfa(4) reads_only_mfa(4)]

lemma tame_verify:
  assumes "clear_namespace (mf_ns mf)"
  shows "tame (marked mf u c D) D (enrolled u) (verifyLoginTOTPCode mf ds code)"
    "tame (marked mf u c D) D (enrolled u) (verifyLoginBackupCode mf user backup)"
  unfolding verifyLoginTOTPCode_def verifyLoginBackupCode_def consumeTOTPBackupCode_def
  by (auto simp: enrolled_writes intro!: tame_pbind tame_parts [OF assms] tame_mark split: sum.split option.split)

lemma tame_login:
  assumes "clear_namespace (mf_ns mf)"
  shows "tame (marked mf u c D) D (enrolled u) (LoginSecondFactorVerifier mf user code backup)"
  unfolding LoginSecondFactorVerifier_def Let_def
  by (auto intro!: tame_pbind tame_parts [OF assms] tame_verify [OF assms] split: sum.split option.split)

lemma tame_save: "tame J D (enrolled u) (save_confirmed mf cx ch name draws newID)"
  by (auto simp: save_confirmed_def Let_def enrolled_writes split: sum.split)

lemma tame_confirm:
  assumes "clear_namespace (mf_ns mf)"
  shows "tame (marked mf u c D) D (enrolled u) (TOTPConfirm mf cx ident code name draws newID)"
  unfolding TOTPConfirm_def
  by (auto intro!: tame_pbind tame_parts [OF assms] tame_mark tame_save split: sum.split option.split)

text \<open>Who marks a code goes on only if it was not marked.\<close>

lemma gated_find: "gated x T D I (\<lambda>r. \<forall>device. r = Some device \<longrightarrow> device \<in> set devices) (findLoginTOTPDeviceByCode mf devices code)"
proof (induction devices)
  case (Cons device devices)
  have "gated x T D I (\<lambda>r. \<forall>dev. r = Some dev \<longrightarrow> dev = device \<or> dev \<in> set devices) (findLoginTOTPDeviceByCode mf devices code)"
    using gated_weaken [OF Cons.IH] by auto
  then show ?case by auto
qed simp

lemma gated_list:
  "gated x T D I (\<lambda>l. \<forall>ds. l = Inr ds \<longrightarrow> (\<exists>d. I d \<and> ds = query_devices u True d)) (list_devices u True)"
  by (auto simp: list_devices_def db_read_def)

lemma gated_mark:
  assumes "TrimSpace v = TrimSpace u" "TrimSpace code = TrimSpace c"
  shows "gated (marker mf u c) totpCodeReplayTTL D I (\<lambda>r. r \<noteq> None) (markTOTPCodeUsed mf v code)"
proof -
  have k: "totpCodeReplayKey v code = totpCodeReplayKey u c" using assms by (simp add: totpCodeReplayKey_def)
  have "formatMs totpCodeReplayTTL = totpCodeReplayTTL" by (simp add: formatMs_def totpCodeReplayTTL_def nsPerSecond_def nsPerMilli_def)
  then have f: "redis_SetNX (mf_ns mf) (totpCodeReplayKey u c) ''1'' totpCodeReplayTTL =
      Redis (SETNX (marker mf u c) ''1'' totpCodeReplayTTL) (\<lambda>r. Ret (bool_reply r))" by (simp add: redis_SetNX_def)
  have "(case bool_reply r of Inl x \<Rightarrow> Some ErrMfaStore | Inr ok \<Rightarrow> if ok then None else Some ErrTOTPCodeReplayed) \<noteq> None \<or> r = R_bool True" for r
    by (cases r) auto
  then show ?thesis by (simp add: markTOTPCodeUsed_def k f spares_SETNX)
qed

lemma gated_marked:
  assumes "TrimSpace v = TrimSpace u" "TrimSpace code = TrimSpace c"
    and "\<And>e. gated (marker mf u c) totpCodeReplayTTL D I G (f (Some e))" "\<And>r. tame (marked mf u c D) D I (f r)"
  shows "gated (marker mf u c) totpCodeReplayTTL D I G (pbind (markTOTPCodeUsed mf v code) f)"
  by (rule gated_pbind [OF gated_mark [OF assms(1,2)]]) (use assms(3,4) in auto)

lemma gated_login:
  assumes "clear_namespace (mf_ns mf)" "TrimSpace user = u" "TrimSpace code = c" "u \<noteq> []" "c \<noteq> []"
  shows "gated (marker mf u c) totpCodeReplayTTL D (enrolled u) (\<lambda>r. r \<noteq> None) (LoginSecondFactorVerifier mf user code backup)"
proof -
  let ?gated = "gated (marker mf u c) totpCodeReplayTTL D (enrolled u)"
  have u: "TrimSpace u = u" "TrimSpace c = c" using assms(2,3) by auto
  have verify: "?gated (\<lambda>r. r \<noteq> None) (verifyLoginTOTPCode mf ds c)" if ds: "\<forall>r\<in>set ds. td_UserID r = u" for ds
    unfolding verifyLoginTOTPCode_def
    by (rule gated_pbind [OF gated_find])
      (use ds in \<open>auto simp: enrolled_writes intro!: gated_marked [OF refl refl] tame_pbind tame_parts [OF assms(1)] tame_mark split: option.split\<close>)
  show ?thesis unfolding LoginSecondFactorVerifier_def Let_def assms(2,3)
    using assms(4,5) query_user verify enrolled_query [THEN not_sym]
    by (auto intro!: gated_pbind [OF gated_list] gated_pbind_tame [OF tame_parts(1) [OF assms(1)]] tame_pbind tame_parts(1) [OF assms(1)]
        tame_verify [OF assms(1)] split: sum.split option.split)
qed

lemma gated_confirm:
  assumes "clear_namespace (mf_ns mf)" "TrimSpace (mx_UserID cx) = u" "TrimSpace code = c"
  shows "gated (marker mf u c) totpCodeReplayTTL D (enrolled u) (\<lambda>r. \<exists>e. r = Inl e) (TOTPConfirm mf cx ident code name draws newID)"
proof -
  have "TrimSpace (mx_UserID cx) = TrimSpace u" "TrimSpace code = TrimSpace c" using assms(2,3) by auto
  note code = gated_marked [OF this, where mf = mf and D = D and I = "enrolled u"]
  have behind: "tame (marked mf u c D) D (enrolled u) (case r of Some e \<Rightarrow> Ret (Inl (g e)) | None \<Rightarrow> pbind (consumeTOTPBindChallenge mf ident) (\<lambda>err.
      case err of Some _ \<Rightarrow> Ret (Inl e') | None \<Rightarrow> save_confirmed mf cx ch name draws newID))" for r g e' ch
    by (auto intro!: tame_pbind tame_parts(4) [OF assms(1)] tame_save split: option.split)
  have loaded: "gated (marker mf u c) totpCodeReplayTTL D (enrolled u) (\<lambda>r. \<exists>e. r = Inl e) (case l of Inl e \<Rightarrow> Ret (Inl (h e)) | Inr ch \<Rightarrow> f ch)"
    if "\<And>ch. gated (marker mf u c) totpCodeReplayTTL D (enrolled u) (\<lambda>r. \<exists>e. r = Inl e) (f ch)" for l f h
    using that by (cases l) auto
  show ?thesis unfolding TOTPConfirm_def
    by (auto intro!: gated_pbind_tame [OF tame_parts(3) [OF assms(1)]] loaded code behind split: sum.split)
qed

text \<open>An unbind is refused before it changes anything when its code is marked.\<close>

lemma safe_unbind_used:
  assumes "clear_namespace (mf_ns mf)" "TrimSpace (mx_UserID cx) = u" "TrimSpace code = c" "c \<noteq> []"
  shows "safe (marked mf u c D) D I (\<lambda>r. \<exists>e. r = Inl e) (TOTPUnbind mf cx dev code backup)"
proof -
  have u: "TrimSpace u = u" "TrimSpace c = c" and n: "TrimSpace code \<noteq> []" using assms(2-4) by auto
  have mark: "safe (marked mf u c D) D I (\<lambda>r. r \<noteq> None) (markTOTPCodeUsed mf (mx_UserID cx) code)"
    using assms(2,3) u by (intro gated_safe [OF gated_mark]) auto
  have validate: "safe (marked mf u c D) D I (\<lambda>r. r \<noteq> None) (validateTOTPCodeForDevices mf (mx_UserID cx) code ds)" for ds
    unfolding validateTOTPCodeForDevices_def using mark n by (auto intro!: safe_pbind [OF gated_safe [OF gated_find]] split: option.split)
  have tx: "safe (marked mf u c D) D I (\<lambda>(ok, r). \<not> ok \<and> (\<exists>e. r = Inl e)) (unbind_tx mf (mx_UserID cx) dev code backup)"
    unfolding unbind_tx_def using n
    by (auto intro!: safe_pbind [OF gated_safe [OF gated_list]] safe_pbind [OF validate] split: sum.split option.split)
  have reserve: "safe (marked mf u c D) D I (\<lambda>_. True) (reserveTOTPVerificationAttempt mf TotpUnbind (mx_UserID cx))"
    by (rule tame_safe [OF tame_parts(1) [OF assms(1)]]) simp
  show ?thesis unfolding TOTPUnbind_def Let_def
    by (auto intro!: safe_pbind [OF reserve] safe_pbind [OF tx] split: option.split)
qed

text \<open>Requests: of any kind but unbinds; those that present the code; those that present it once it is marked.\<close>

lemma tame_handle:
  assumes "clear_namespace (mf_ns mf)" "\<not> is_unbind req"
  shows "tame (marked mf u c D) D (enrolled u) (mfa_handle mf req)"
  using assms(2) by (cases req) (auto intro!: tame_pbind tame_login [OF assms(1)] tame_confirm [OF assms(1)])

lemma gated_handle:
  assumes "clear_namespace (mf_ns mf)" "presents u c req" "\<not> is_unbind req" "u \<noteq> []" "c \<noteq> []"
  shows "gated (marker mf u c) totpCodeReplayTTL D (enrolled u) refused (mfa_handle mf req)"
proof (cases req)
  case (LoginReq user code backup)
  show ?thesis unfolding LoginReq mfa_handle.simps
    by (rule gated_pbind [OF gated_login [OF assms(1) _ _ assms(4,5)]]) (use assms(2) LoginReq in auto)
next
  case (ConfirmReq cx ident code name draws newID)
  show ?thesis unfolding ConfirmReq mfa_handle.simps
    by (rule gated_pbind [OF gated_confirm [OF assms(1)]]) (use assms(2) ConfirmReq in auto)
qed (use assms(3) in simp)

lemma safe_handle_used:
  assumes "clear_namespace (mf_ns mf)" "presents u c req" "u \<noteq> []" "c \<noteq> []"
  shows "safe (marked mf u c D) D (enrolled u) refused (mfa_handle mf req)"
proof (cases "is_unbind req")
  case True
  then obtain cx dev code backup where req: "req = UnbindReq cx dev code backup" by (cases req) auto
  show ?thesis unfolding req mfa_handle.simps
    by (rule safe_pbind [OF safe_unbind_used [OF assms(1) _ _ assms(4)]]) (use assms(2) req in auto)
qed (rule gated_safe [OF gated_handle [OF assms(1,2) _ assms(3,4)]])

section \<open>A spent budget\<close>

text \<open>A counter at the limit or above that does not expire before an instant.\<close>

definition budget_spent :: "string \<Rightarrow> int \<Rightarrow> int \<Rightarrow> keyspace \<Rightarrow> bool" where
  "budget_spent x D t ks \<longleftrightarrow>
     (\<exists>n e. held t ks x = Some (Text (FormatInt n), Some e) \<and> D \<le> e \<and> totpVerificationAttemptLimit \<le> n \<and> n < 2 ^ 63)"

lemma lasting_budget: "lasting (budget_spent x D) D"
  by (fastforce simp: lasting_def budget_spent_def intro: held_until)

lemma budget_incr:
  assumes "budget_spent x D t ks" "t < D" "redis_command (INCR_PEXPIRE_NX x w) t ks = (r, ks')"
  shows "budget_spent x D t ks' \<and> (r = R_failed \<or> (\<exists>n. r = R_int n \<and> totpVerificationAttemptLimit < n))"
proof -
  obtain n e where h: "held t ks x = Some (Text (FormatInt n), Some e)" "D \<le> e" "totpVerificationAttemptLimit \<le> n" "n < 2 ^ 63"
    using assms(1) unfolding budget_spent_def by blast
  have p: "ParseInt 64 (FormatInt n) = Number n" using h(3,4) by (intro ParseInt_FormatInt) (simp add: totpVerificationAttemptLimit_def)
  show ?thesis
  proof (cases "n + 1 < 2 ^ 63")
    case True
    have "held t (ks(x \<mapsto> (Text (FormatInt (n + 1)), Some e))) x = Some (Text (FormatInt (n + 1)), Some e)" using h(2) assms(2) by simp
    then have "r = R_int (n + 1)" "held t ks' x = Some (Text (FormatInt (n + 1)), Some e)"
      using assms(3) h(1) p True by (auto simp: incr_def)
    then show ?thesis using h(2,3) True unfolding budget_spent_def by fastforce
  next
    case False
    then have "r = R_failed" "held t ks' x = held t ks x" using assms(2,3) h p by (auto simp: incr_def)
    then show ?thesis using assms(1) by (simp add: budget_spent_def)
  qed
qed

lemma safe_reserve_spent:
  assumes "TrimSpace v = TrimSpace u"
  shows "safe (budget_spent (Key (mf_ns mf) (totpVerificationFailureKey p u)) D) D I (\<lambda>r. r \<noteq> None) (reserveTOTPVerificationAttempt mf p v)"
proof -
  let ?x = "Key (mf_ns mf) (totpVerificationFailureKey p u)"
  have k: "totpVerificationFailureKey p v = totpVerificationFailureKey p u" using assms by (simp add: totpVerificationFailureKey_def)
  have "budget_spent ?x D t (snd (redis_command (INCR_PEXPIRE_NX ?x w) t ks))"
    and "fst (redis_command (INCR_PEXPIRE_NX ?x w) t ks) = R_failed \<or> (\<exists>n. fst (redis_command (INCR_PEXPIRE_NX ?x w) t ks) = R_int n \<and> totpVerificationAttemptLimit < n)"
    if "budget_spent ?x D t ks" "t < D" for t ks w
    using budget_incr [OF that] by (metis prod.collapse)+
  note spent = this
  let ?verdict = "\<lambda>r. case int_reply r of Inl _ \<Rightarrow> Some ErrMfaStore
    | Inr count \<Rightarrow> if count > totpVerificationAttemptLimit then Some ErrTOTPVerificationLocked else None"
  have "?verdict r \<noteq> None" if "r = R_failed \<or> (\<exists>n. r = R_int n \<and> totpVerificationAttemptLimit < n)" for r
    using that by auto
  then have "safe (budget_spent ?x D) D I (\<lambda>r. r \<noteq> None) (Redis (INCR_PEXPIRE_NX ?x totpVerificationAttemptWindow) (\<lambda>r. Ret (?verdict r)))"
    using spent unfolding safe.simps by metis
  then show ?thesis unfolding reserveTOTPVerificationAttempt_def redis_IncrFixedWindow_def k
    by (simp add: totpVerificationAttemptWindow_def nsPerSecond_def nsPerMilli_def del: safe.simps(2))
qed

text \<open>With the budget spent, a login of an enrolled account is refused and changes no row.\<close>

lemma safe_login_spent:
  assumes "TrimSpace user = u" "u \<noteq> []" "query_devices u True d0 \<noteq> []"
  shows "safe (budget_spent (Key (mf_ns mf) (totpVerificationFailureKey TotpLogin u)) D) D (\<lambda>d. d = d0) (\<lambda>r. r \<noteq> None)
    (LoginSecondFactorVerifier mf user code backup)"
proof -
  have "TrimSpace u = TrimSpace u" by simp
  note reserve = safe_pbind [OF safe_reserve_spent [OF this]]
  show ?thesis unfolding LoginSecondFactorVerifier_def Let_def assms(1) list_devices_def db_read_def
    using assms(2,3) by (auto intro!: reserve split: option.split)
qed

section \<open>The properties\<close>

text \<open>
  C16: A one-time code is accepted once: run any number of logins and enrolments side by side, with whatever
  interleaving, delays, lost replies and commands carried out twice; of those that present one code of one
  enrolled user, at most one is not refused within the life of the replay marker, two minutes. Unbinding is
  left out here, since a user without a device needs no code.
\<close>

theorem totp_code_accepted_once:
  assumes "redis_server serve view" "clear_namespace (mf_ns mf)" "u \<noteq> []" "c \<noteq> []" "enrolled u (w_db w)"
    and requests: "\<forall>req\<in>set reqs. \<not> is_unbind req"
    and run: "run_pool serve sched (map (mfa_handle mf) reqs, w) = (ps', w')" and life: "w_now w' < w_now w + totpCodeReplayTTL"
    and i: "i < length reqs" "presents u c (reqs ! i)" "ps' ! i = Ret a" "\<not> refused a"
    and j: "j < length reqs" "presents u c (reqs ! j)" "ps' ! j = Ret b" "j \<noteq> i"
  shows "refused b"
proof -
  let ?G = "\<lambda>i a. presents u c (reqs ! i) \<longrightarrow> refused a"
  let ?D = "w_now w + totpCodeReplayTTL"
  have "gated (marker mf u c) totpCodeReplayTTL ?D (enrolled u) (?G i) (map (mfa_handle mf) reqs ! i)" if n: "i < length reqs" for i
  proof (cases "presents u c (reqs ! i)")
    case True
    then show ?thesis using gated_handle [OF assms(2) True _ assms(3,4)] requests n by simp
  next
    case False
    then show ?thesis using tame_gated [OF tame_handle [OF assms(2)]] requests n by simp
  qed
  then have "\<exists>i0. \<forall>i<length reqs. \<forall>a. i \<noteq> i0 \<longrightarrow> ps' ! i = Ret a \<longrightarrow> ?G i a"
    using redis_server.key_taken_once [OF assms(1) _ _ _ _ run life, of totpCodeReplayTTL "marker mf u c" "enrolled u" ?G] assms(5)
    by (simp add: totpCodeReplayTTL_def nsPerSecond_def)
  then show ?thesis using i j by blast
qed

text \<open>
  A code whose use is on record is refused by everything that takes one until the record expires, by
  logins, by enrolments and by unbinds, under every interleaving of requests and with whatever is lost or
  repeated; and the user stays enrolled all the while.
\<close>

theorem totp_code_replay_refused:
  assumes "redis_server serve view" "clear_namespace (mf_ns mf)" "u \<noteq> []" "c \<noteq> []" "enrolled u (w_db w)"
    and used: "held (w_now w) (view (w_redis w)) (Key (mf_ns mf) (totpCodeReplayKey u c)) = Some (v, Some e)"
    and requests: "\<forall>req\<in>set reqs. is_unbind req \<longrightarrow> presents u c req"
    and run: "run_pool serve sched (map (mfa_handle mf) reqs, w) = (ps', w')" and life: "w_now w' < e"
  shows "enrolled u (w_db w') \<and> (\<forall>i<length reqs. \<forall>a. presents u c (reqs ! i) \<longrightarrow> ps' ! i = Ret a \<longrightarrow> refused a)"
proof -
  let ?G = "\<lambda>i a. presents u c (reqs ! i) \<longrightarrow> refused a"
  have "safe (marked mf u c e) e (enrolled u) (?G i) (map (mfa_handle mf) reqs ! i)" if n: "i < length reqs" for i
  proof (cases "presents u c (reqs ! i)")
    case True
    then show ?thesis using safe_handle_used [OF assms(2) True assms(3,4)] n by simp
  next
    case False
    then have "\<not> is_unbind (reqs ! i)" using requests nth_mem [OF n] by blast
    then show ?thesis using tame_safe [OF tame_handle [OF assms(2)]] False n by simp
  qed
  then show ?thesis
    using redis_server.pool_results [OF assms(1) lasting_kept [where x = "marker mf u c"] _ _ _ run life, where I = "enrolled u" and G = ?G] assms(5) used by (auto simp: kept_def)
qed

text \<open>
  C19: Once the attempts of a user are spent, no login of the user gets past the second factor until the
  window closes, not even with a right code or a right recovery code; and no recovery code is spent on the
  way. This too holds for every interleaving of logins, and with commands carried out twice.
\<close>

theorem totp_lockout_holds:
  assumes "redis_server serve view" "u \<noteq> []" "query_devices u True (w_db w) \<noteq> []"
    and spent: "held (w_now w) (view (w_redis w)) (Key (mf_ns mf) (totpVerificationFailureKey TotpLogin u)) = Some (Text (FormatInt n), Some e)"
      "totpVerificationAttemptLimit \<le> n" "n < 2 ^ 63"
    and users: "\<forall>(user, code, backup)\<in>set logins. TrimSpace user = u"
    and run: "run_pool serve sched (map (\<lambda>(user, code, backup). LoginSecondFactorVerifier mf user code backup) logins, w) = (ps', w')"
      "w_now w' < e"
  shows "w_db w' = w_db w \<and> (\<forall>i<length logins. \<forall>r. ps' ! i = Ret r \<longrightarrow> r \<noteq> None)"
proof -
  let ?J = "budget_spent (Key (mf_ns mf) (totpVerificationFailureKey TotpLogin u)) e"
  have "safe ?J e (\<lambda>d. d = w_db w) (\<lambda>r. r \<noteq> None) (map (\<lambda>(user, code, backup). LoginSecondFactorVerifier mf user code backup) logins ! i)"
    if "i < length logins" for i
  proof -
    obtain user code backup where l: "logins ! i = (user, code, backup)" by (metis prod_cases3)
    then have "TrimSpace user = u" using users nth_mem [OF that] by auto
    then show ?thesis using safe_login_spent [OF _ assms(2,3)] that l by simp
  qed
  moreover have "?J (w_now w) (view (w_redis w))" using spent unfolding budget_spent_def by blast
  ultimately show ?thesis
    using redis_server.pool_results [OF assms(1) lasting_budget [where x = "Key (mf_ns mf) (totpVerificationFailureKey TotpLogin u)"] _ _ _ run, where I = "\<lambda>d. d = w_db w" and G = "\<lambda>_ r. r \<noteq> None"] by simp
qed

end
