(* ===== verification/Mfa_Format.thy ===== *)
theory Mfa_Format
  imports Mfa
begin

text \<open>
  The spelling of recovery codes: what is shown to the user at enrolment is recognised afterwards, with
  its hyphens or without, and only its digest is kept.
\<close>

lemma alphabet_chars:
  "\<forall>c\<in>set totpBackupCodeAlphabet. of_char c < (0x80 :: nat) \<and> upper_ascii c = c \<and> c \<noteq> CHR ''-'' \<and>
     (\<forall>w\<in>set white_space. hd w \<noteq> c \<and> last w \<noteq> c)"
  by code_simp

lemma format_from_hyphens: "CHR ''-'' \<notin> set s \<Longrightarrow> filter (\<lambda>c. c \<noteq> CHR ''-'') (format_from i s) = s"
  by (induction s arbitrary: i) auto

lemma format_from_last: "s \<noteq> [] \<Longrightarrow> format_from i s \<noteq> [] \<and> last (format_from i s) = last s"
  by (induction s arbitrary: i) auto

lemma format_hd: "s \<noteq> [] \<Longrightarrow> hd (formatTOTPBackupCode s) = hd s"
  by (cases s) (simp_all add: formatTOTPBackupCode_def)

lemma strip_first_hd: "s \<noteq> [] \<Longrightarrow> \<forall>w\<in>set ws. w \<noteq> [] \<and> hd w \<noteq> hd s \<Longrightarrow> strip_first ws s = None"
  by (auto simp: strip_first_None_iff prefix_def)

lemma TrimSpace_ends:
  assumes "s \<noteq> []" "\<forall>w\<in>set white_space. hd w \<noteq> hd s \<and> last w \<noteq> last s"
  shows "TrimSpace s = s"
proof (rule TrimSpace_fixed; rule strip_first_hd)
  have ne: "\<forall>w\<in>set white_space. w \<noteq> []" using white_space_nonempty by metis
  then show "\<forall>w\<in>set white_space. w \<noteq> [] \<and> hd w \<noteq> hd s" using assms(2) by blast
  show "\<forall>w\<in>set (map rev white_space). w \<noteq> [] \<and> hd w \<noteq> hd (rev s)" using assms(2) ne by (auto simp: hd_rev)
qed (use assms(1) in simp_all)

definition raw_code :: "string \<Rightarrow> bool" where
  "raw_code s \<longleftrightarrow> length s = totpBackupCodeRawLength \<and> set s \<subseteq> set totpBackupCodeAlphabet"

lemma raw_code_chars:
  assumes "raw_code s"
  shows "s \<noteq> []" "is_ascii s" "map upper_ascii s = s" "CHR ''-'' \<notin> set s"
    "\<forall>w\<in>set white_space. hd w \<noteq> hd s \<and> last w \<noteq> last s" "runes (bytes s) = bytes s"
proof -
  have c: "\<forall>c\<in>set s. of_char c < (0x80 :: nat) \<and> upper_ascii c = c \<and> c \<noteq> CHR ''-'' \<and> (\<forall>w\<in>set white_space. hd w \<noteq> c \<and> last w \<noteq> c)"
    using alphabet_chars assms unfolding raw_code_def by blast
  show ne: "s \<noteq> []" using assms by (auto simp: raw_code_def totpBackupCodeRawLength_def)
  show "is_ascii s" using c by (simp add: is_ascii_def bytes_def)
  show "map upper_ascii s = s" using c by (simp add: map_idI)
  show "CHR ''-'' \<notin> set s" using c by blast
  show "\<forall>w\<in>set white_space. hd w \<noteq> hd s \<and> last w \<noteq> last s" using c ne by (meson hd_in_set last_in_set)
  show "runes (bytes s) = bytes s" using c by (intro runes_ascii) (simp add: bytes_def)
qed

lemma normalize_spelling:
  assumes "raw_code s" "t \<noteq> []" "hd t = hd s" "last t = last s" "filter (\<lambda>c. c \<noteq> CHR ''-'') t = s"
  shows "normalizeTOTPBackupCode mf t = Inr s"
proof -
  note c = raw_code_chars [OF assms(1)]
  have "TrimSpace t = t" using c(5) assms(2-4) by (intro TrimSpace_ends) auto
  moreover have "\<forall>r\<in>set (bytes s). r \<in> set (bytes totpBackupCodeAlphabet)" using assms(1) by (auto simp: raw_code_def bytes_def)
  ultimately show ?thesis
    using assms(1,5) c by (auto simp: normalizeTOTPBackupCode_def ToUpper_def Let_def raw_code_def)
qed

lemma normalize_format: "raw_code s \<Longrightarrow> normalizeTOTPBackupCode mf (formatTOTPBackupCode s) = Inr s"
  using raw_code_chars [of s] format_from_last [of s 0]
  by (intro normalize_spelling) (auto simp: format_hd formatTOTPBackupCode_def [symmetric], auto simp: formatTOTPBackupCode_def format_from_hyphens)

definition drawn :: "(nat \<Rightarrow> nat) \<Rightarrow> string" where
  "drawn draw = map (\<lambda>j. totpBackupCodeAlphabet ! draw j) [0..<totpBackupCodeRawLength]"

lemma drawn_raw: "\<forall>j<totpBackupCodeRawLength. draw j < length totpBackupCodeAlphabet \<Longrightarrow> raw_code (drawn draw)"
  by (auto simp: raw_code_def drawn_def)

lemma generate_drawn: "generateTOTPBackupCode draw = formatTOTPBackupCode (drawn draw)"
  by (simp add: generateTOTPBackupCode_def drawn_def)

lemma hash_drawn:
  "\<forall>i\<in>set is. raw_code (drawn (draw i)) \<Longrightarrow>
   HashTOTPBackupCodes mf secret (map (\<lambda>i. generateTOTPBackupCode (draw i)) is) = Inr (map (\<lambda>i. mf_mac mf secret (drawn (draw i))) is)"
  by (induction "is") (simp_all add: generate_drawn normalize_format)

end
