(* ===== verification/Mfa_Recovery.thy ===== *)
theory Mfa_Recovery
  imports Mfa_Properties Mfa_Format
begin

text \<open>
  Recovery codes: each is accepted once, whatever runs beside it, and a code that is shown to the user is
  the code that is recognised.
\<close>

section \<open>A digest on the rows\<close>

definition digest_on :: "mfa \<Rightarrow> string \<Rightarrow> string \<Rightarrow> totp_device \<Rightarrow> bool" where
  "digest_on mf u n r \<longleftrightarrow> td_UserID r = u \<and> td_IsActive r \<and> mf_mac mf (td_Secret r) n \<in> set (td_BackupCodeHashes r)"

text \<open>One device of the user has the digest of the code, once, or none has; ids are a primary key.\<close>

definition code_once :: "mfa \<Rightarrow> string \<Rightarrow> string \<Rightarrow> accounts \<Rightarrow> bool" where
  "code_once mf u n d \<longleftrightarrow> enrolled u d \<and> distinct (map td_ID (db_devices d)) \<and>
     (\<forall>r\<in>set (db_devices d). \<forall>r'\<in>set (db_devices d). digest_on mf u n r \<longrightarrow> digest_on mf u n r' \<longrightarrow> r = r') \<and>
     (\<forall>r\<in>set (db_devices d). digest_on mf u n r \<longrightarrow> count_list (td_BackupCodeHashes r) (mf_mac mf (td_Secret r) n) = 1)"

definition code_spent :: "mfa \<Rightarrow> string \<Rightarrow> string \<Rightarrow> accounts \<Rightarrow> bool" where
  "code_spent mf u n d \<longleftrightarrow> code_once mf u n d \<and> (\<forall>r\<in>set (db_devices d). \<not> digest_on mf u n r)"

lemma code_ids: "code_once mf u n d \<Longrightarrow> distinct (map td_ID (db_devices d))"
  by (simp add: code_once_def)

text \<open>A write that takes digests off devices and adds none.\<close>

definition thins :: "(totp_device \<Rightarrow> totp_device) \<Rightarrow> totp_device \<Rightarrow> bool" where
  "thins f r \<longleftrightarrow> td_ID (f r) = td_ID r \<and> td_UserID (f r) = td_UserID r \<and> td_IsActive (f r) = td_IsActive r \<and> td_Secret (f r) = td_Secret r \<and>
     (\<forall>y. count_list (td_BackupCodeHashes (f r)) y \<le> count_list (td_BackupCodeHashes r) y)"

lemma count_list_remove1: "count_list (remove1 x xs) y = count_list xs y - (if x = y then 1 else 0)"
  by (induction xs) auto

lemma count_list_pos: "y \<in> set xs \<longleftrightarrow> 0 < count_list xs y"
  by (metis count_list_0_iff neq0_conv)

lemma thins_digest: "thins f r \<Longrightarrow> digest_on mf u n (f r) \<Longrightarrow> digest_on mf u n r"
  by (auto simp: thins_def digest_on_def count_list_pos intro: less_le_trans)

lemma thins_count:
  assumes "thins f r" "digest_on mf u n (f r)" "count_list (td_BackupCodeHashes r) (mf_mac mf (td_Secret r) n) = 1"
  shows "count_list (td_BackupCodeHashes (f r)) (mf_mac mf (td_Secret r) n) = 1"
proof -
  have "0 < count_list (td_BackupCodeHashes (f r)) (mf_mac mf (td_Secret r) n)" using assms(1,2) by (auto simp: thins_def digest_on_def count_list_pos)
  moreover have "count_list (td_BackupCodeHashes (f r)) (mf_mac mf (td_Secret r) n) \<le> 1" using assms(1,3) unfolding thins_def by metis
  ultimately show ?thesis by simp
qed

lemma code_once_map:
  assumes "code_once mf u n d" "\<forall>r\<in>set (db_devices d). thins f r"
  shows "code_once mf u n (d\<lparr>db_devices := map f (db_devices d)\<rparr>)"
proof -
  have "map (td_ID \<circ> f) (db_devices d) = map td_ID (db_devices d)" using assms(2) by (simp add: thins_def)
  then have "distinct (map (td_ID \<circ> f) (db_devices d))" using assms(1) by (simp only: code_once_def)
  moreover have "enrolled u (d\<lparr>db_devices := map f (db_devices d)\<rparr>)"
    using assms unfolding code_once_def enrolled_def by (auto simp: thins_def)
  moreover have "f r = f r'" if "r \<in> set (db_devices d)" "r' \<in> set (db_devices d)" "digest_on mf u n (f r)" "digest_on mf u n (f r')" for r r'
    using that assms thins_digest unfolding code_once_def by metis
  moreover have "count_list (td_BackupCodeHashes (f r)) (mf_mac mf (td_Secret (f r)) n) = 1"
    if "r \<in> set (db_devices d)" "digest_on mf u n (f r)" for r
  proof -
    have "thins f r" using assms(2) that(1) by blast
    then show ?thesis using thins_count [of f r] thins_digest [of f r] that assms(1) by (simp add: code_once_def thins_def)
  qed
  ultimately show ?thesis by (simp add: code_once_def)
qed

lemma code_spent_map:
  assumes "code_spent mf u n d" "\<forall>r\<in>set (db_devices d). thins f r"
  shows "code_spent mf u n (d\<lparr>db_devices := map f (db_devices d)\<rparr>)"
proof -
  have "\<not> digest_on mf u n (f r)" if "r \<in> set (db_devices d)" for r using assms that thins_digest unfolding code_spent_def by metis
  then show ?thesis using assms code_once_map by (auto simp: code_spent_def)
qed

lemma code_touch:
  "code_once mf u n d \<Longrightarrow> code_once mf u n (touch_device i now d)" "code_spent mf u n d \<Longrightarrow> code_spent mf u n (touch_device i now d)"
  unfolding touch_device_def by (rule code_once_map code_spent_map; simp add: thins_def)+

lemma backup_device_row:
  assumes "backup_device mf n (query_devices v True d) = Some device"
  shows "device \<in> set (db_devices d)" "td_IsActive device" "v \<noteq> [] \<Longrightarrow> td_UserID device = v"
    "mf_mac mf (td_Secret device) n \<in> set (td_BackupCodeHashes device)"
proof -
  have "device \<in> set (query_devices v True d)" and "mf_mac mf (td_Secret device) n \<in> set (td_BackupCodeHashes device)"
    using assms by (auto simp: backup_device_def find_Some_iff)
  then show "device \<in> set (db_devices d)" "td_IsActive device" "v \<noteq> [] \<Longrightarrow> td_UserID device = v"
    "mf_mac mf (td_Secret device) n \<in> set (td_BackupCodeHashes device)" by (auto simp: query_devices_def)
qed

abbreviation spend :: "string \<Rightarrow> int \<Rightarrow> totp_device \<Rightarrow> totp_device \<Rightarrow> totp_device" where
  "spend y now device r \<equiv> (if td_ID r = td_ID device
     then r\<lparr>td_BackupCodeHashes := remove1 y (td_BackupCodeHashes device), td_LastUsedAt := Some now\<rparr> else r)"

lemma same_device:
  "distinct (map td_ID (db_devices d)) \<Longrightarrow> device \<in> set (db_devices d) \<Longrightarrow> r \<in> set (db_devices d) \<Longrightarrow> td_ID r = td_ID device \<Longrightarrow> r = device"
  by (metis distinct_map inj_onD)

lemma spend_thins:
  assumes "distinct (map td_ID (db_devices d))" "device \<in> set (db_devices d)"
  shows "\<forall>r\<in>set (db_devices d). thins (spend y now device) r"
proof
  fix r assume r: "r \<in> set (db_devices d)"
  show "thins (spend y now device) r"
  proof (cases "td_ID r = td_ID device")
    case True
    then have "r = device" by (rule same_device [OF assms r])
    then show ?thesis by (simp add: thins_def count_list_remove1)
  qed (simp add: thins_def)
qed

lemma code_consume:
  shows "code_once mf u n d \<Longrightarrow> code_once mf u n (consume_rows mf v m now d)"
    and "code_spent mf u n d \<Longrightarrow> code_spent mf u n (consume_rows mf v m now d)"
proof -
  let ?b = "backup_device mf m (query_devices (TrimSpace v) True d)"
  have thin: "\<forall>r\<in>set (db_devices d). thins (spend y now device) r" if "code_once mf u n d" "?b = Some device" for device y
    using spend_thins [OF code_ids [OF that(1)] backup_device_row(1) [OF that(2)]] .
  show "code_once mf u n (consume_rows mf v m now d)" if "code_once mf u n d"
    using that thin code_once_map [OF that] by (simp add: consume_rows_def spend_digest_def split: option.split)
  show "code_spent mf u n (consume_rows mf v m now d)" if s: "code_spent mf u n d"
  proof -
    have "code_once mf u n d" using s by (simp add: code_spent_def)
    then show ?thesis using s thin code_spent_map [OF s] by (simp add: consume_rows_def spend_digest_def split: option.split)
  qed
qed

text \<open>The statement that finds the digest is the one that takes it off.\<close>

lemma code_found:
  assumes "code_once mf u n d" "u \<noteq> []" "TrimSpace u = u" "backup_device mf n (query_devices u True d) = Some device"
  shows "\<not> code_spent mf u n d \<and> code_spent mf u n (consume_rows mf u n now d)"
proof -
  let ?y = "mf_mac mf (td_Secret device) n"
  note row = backup_device_row [OF assms(4)]
  have d: "digest_on mf u n device" using row assms(2) by (simp add: digest_on_def)
  define f where "f = spend ?y now device"
  have "\<not> digest_on mf u n (f r)" if r: "r \<in> set (db_devices d)" for r
  proof (cases "td_ID r = td_ID device")
    case True
    then have "r = device" using same_device [OF code_ids [OF assms(1)] row(1) r] by simp
    moreover have "count_list (td_BackupCodeHashes device) ?y = 1" using assms(1) row(1) d by (simp add: code_once_def)
    ultimately show ?thesis by (simp add: f_def digest_on_def count_list_pos count_list_remove1)
  next
    case False
    then show ?thesis using assms(1) row(1) d r unfolding code_once_def f_def by auto
  qed
  moreover have "consume_rows mf u n now d = d\<lparr>db_devices := map f (db_devices d)\<rparr>"
    using assms(3,4) by (simp add: consume_rows_def spend_digest_def f_def)
  ultimately show ?thesis using code_consume(1) [OF assms(1), of u n now] d row(1) by (auto simp: code_spent_def)
qed

section \<open>Logins over such rows\<close>

lemma tame_reads: "reads_only p \<Longrightarrow> tame always D I p"
  by (induction p rule: prog_induct) auto

lemmas tame_attempts = tame_reads [OF reads_only_mfa(1)] tame_reads [OF reads_only_mfa(2)]

lemma tame_login_rows:
  assumes "\<And>i now d. I d \<Longrightarrow> I (touch_device i now d)" "\<And>v m now d. I d \<Longrightarrow> I (consume_rows mf v m now d)"
  shows "tame always D I (verifyLoginTOTPCode mf ds code)" "tame always D I (verifyLoginBackupCode mf v backup)"
    "tame always D I (LoginSecondFactorVerifier mf user code backup)"
proof -
  have mark: "tame always D I (markTOTPCodeUsed mf v code)" for v code by (simp add: markTOTPCodeUsed_def redis_SetNX_def)
  show a: "tame always D I (verifyLoginTOTPCode mf ds code)" for ds code
    unfolding verifyLoginTOTPCode_def by (auto simp: assms intro!: tame_pbind mark tame_attempts split: option.split)
  show b: "tame always D I (verifyLoginBackupCode mf v backup)" for v backup
    unfolding verifyLoginBackupCode_def consumeTOTPBackupCode_def
    by (auto simp: assms intro!: tame_pbind tame_attempts split: sum.split option.split)
  show "tame always D I (LoginSecondFactorVerifier mf user code backup)"
    unfolding LoginSecondFactorVerifier_def Let_def by (auto intro!: tame_pbind a b tame_attempts split: sum.split option.split)
qed

lemmas tame_code = tame_login_rows [where I = "code_once mf u n", OF code_touch(1) code_consume(1)]
  tame_login_rows [where I = "code_spent mf u n", OF code_touch(2) code_consume(2)] for mf u n

lemma taking_consume:
  assumes "TrimSpace u = u" "u \<noteq> []" "normalizeTOTPBackupCode mf backup = Inr n"
  shows "taking (code_once mf u n) (code_spent mf u n) D (\<lambda>r. r \<noteq> None) (consumeTOTPBackupCode mf u backup)"
proof -
  have "\<not> code_spent mf u n d" "code_spent mf u n (consume_rows mf u n now d)"
    if "code_once mf u n d" "backup_device mf n (query_devices u True d) = Some device" for d now device
    using code_found [OF that(1) assms(2,1) that(2)] by auto
  then show ?thesis unfolding consumeTOTPBackupCode_def using assms code_consume by auto
qed

lemma taking_list:
  "taking K I D (\<lambda>l. \<forall>ds. l = Inr ds \<longrightarrow> (\<exists>d. K d \<and> ds = query_devices u True d)) (list_devices u True)"
  by (auto simp: list_devices_def db_read_def)

lemma taking_login:
  assumes "TrimSpace user = u" "u \<noteq> []" "TrimSpace code = []" "normalizeTOTPBackupCode mf backup = Inr n"
  shows "taking (code_once mf u n) (code_spent mf u n) D (\<lambda>r. r \<noteq> None) (LoginSecondFactorVerifier mf user code backup)"
proof -
  let ?taking = "taking (code_once mf u n) (code_spent mf u n) D"
  have u: "TrimSpace u = u" using assms(1) by auto
  have "normalizeTOTPBackupCode mf (TrimSpace backup) = Inr n" using assms(4) by (simp add: normalizeTOTPBackupCode_def)
  note consume = taking_consume [OF u assms(2) this]
  have verify: "?taking (\<lambda>r. r \<noteq> None) (verifyLoginBackupCode mf u (TrimSpace backup))"
    unfolding verifyLoginBackupCode_def
    by (rule taking_pbind [OF consume]) (auto intro!: tame_pbind tame_attempts split: option.split)
  have some: "query_devices u True d \<noteq> []" if "code_once mf u n d" for d using that enrolled_query by (simp add: code_once_def)
  have reserve: "?taking G (pbind (reserveTOTPVerificationAttempt mf TotpLogin u) f)" if "\<And>r. ?taking G (f r)" for f G
    by (rule taking_pbind_tame) (use that in \<open>auto intro: tame_attempts\<close>)
  show ?thesis unfolding LoginSecondFactorVerifier_def Let_def assms(1,3)
    using assms(2) some [THEN not_sym] verify
    by (auto intro!: taking_pbind [OF taking_list] reserve tame_pbind tame_attempts tame_code split: sum.split option.split)
qed

section \<open>The property\<close>

text \<open>
  C17: A recovery code is accepted once: run any number of logins side by side, of any users and with any
  proofs, with whatever interleaving, delays, lost answers and commands carried out twice; of those that
  present one recovery code of one user, in whatever spelling, at most one gets past the second factor.
  What is assumed is that ids of devices are unique and that the digest of the code is stored at most once.
\<close>

theorem recovery_code_accepted_once:
  assumes "redis_server serve view" "u \<noteq> []" "code_once mf u n (w_db w)"
    and run: "run_pool serve sched (map (\<lambda>(user, code, backup). LoginSecondFactorVerifier mf user code backup) logins, w) = (ps', w')"
    and i: "i < length logins" "logins ! i = (user, code, backup)" "TrimSpace user = u" "TrimSpace code = []"
      "normalizeTOTPBackupCode mf backup = Inr n" "ps' ! i = Ret None"
    and j: "j < length logins" "logins ! j = (user', code', backup')" "TrimSpace user' = u" "TrimSpace code' = []"
      "normalizeTOTPBackupCode mf backup' = Inr n" "ps' ! j = Ret r" "j \<noteq> i"
  shows "r \<noteq> None"
proof -
  let ?shows = "\<lambda>(user, code, backup). TrimSpace user = u \<and> TrimSpace code = [] \<and> normalizeTOTPBackupCode mf backup = Inr n"
  let ?G = "\<lambda>i r. ?shows (logins ! i) \<longrightarrow> r \<noteq> None"
  have "taking (code_once mf u n) (code_spent mf u n) (w_now w' + 1) (?G i)
      (map (\<lambda>(user, code, backup). LoginSecondFactorVerifier mf user code backup) logins ! i)" if "i < length logins" for i
  proof -
    obtain user code backup where l: "logins ! i = (user, code, backup)" by (metis prod_cases3)
    show ?thesis
    proof (cases "?shows (logins ! i)")
      case True
      then show ?thesis using taking_login [of user u code mf backup n] assms(2) that l by simp
    next
      case False
      then show ?thesis using that l by (auto intro!: tame_taking [OF tame_code(3) tame_code(6)])
    qed
  qed
  then obtain i0 where "\<forall>i<length logins. \<forall>r. i \<noteq> i0 \<longrightarrow> ps' ! i = Ret r \<longrightarrow> ?G i r"
    using redis_server.row_taken_once [OF assms(1) _ _ _ run, where I = "code_spent mf u n" and K = "code_once mf u n" and G = ?G]
      assms(3) by (auto simp: code_spent_def)
  then show ?thesis using i j by (cases "i = i0") auto
qed

section \<open>Alone\<close>

text \<open>The device a login found had accepted the code at an instant on the way.\<close>

lemma exec_find:
  "exec serve (findLoginTOTPDeviceByCode mf devices code) e w = (Some device, e', w') \<Longrightarrow>
   device \<in> set devices \<and> td_IsActive device \<and> (\<exists>t. w_now w \<le> t \<and> t \<le> w_now w' \<and> mf_validate mf t code (td_Secret device))"
proof (induction devices arbitrary: e w)
  case (Cons r devices)
  show ?case
  proof (cases "td_IsActive r")
    case True
    have "exec serve (Now (\<lambda>t. if mf_validate mf t code (td_Secret r) then Ret (Some r)
        else findLoginTOTPDeviceByCode mf devices code)) e w = (Some device, e', w')"
      using Cons.prems by (simp only: findLoginTOTPDeviceByCode.simps(2) True not_True_eq_False if_False)
    then obtain t where t: "w_now w \<le> t" "exec serve (if mf_validate mf t code (td_Secret r) then Ret (Some r)
        else findLoginTOTPDeviceByCode mf devices code) (\<lambda>n. e (Suc n)) (w\<lparr>w_now := t\<rparr>) = (Some device, e', w')"
      by (rule exec_NowE)
    show ?thesis
    proof (cases "mf_validate mf t code (td_Secret r)")
      case False
      then have "exec serve (findLoginTOTPDeviceByCode mf devices code) (\<lambda>n. e (Suc n)) (w\<lparr>w_now := t\<rparr>) = (Some device, e', w')"
        using t(2) by simp
      from Cons.IH [OF this] show ?thesis using t(1) by (auto intro: order_trans)
    qed (use t True in auto)
  qed (use Cons in auto)
qed simp

lemma verify_code_alone:
  assumes "exec serve (verifyLoginTOTPCode mf devices code) e w = (None, e', w')"
  shows "\<exists>r\<in>set devices. td_IsActive r \<and> (\<exists>t. w_now w \<le> t \<and> t \<le> w_now w' \<and> mf_validate mf t code (td_Secret r))"
proof -
  obtain f e1 w1 where f: "exec serve (findLoginTOTPDeviceByCode mf devices code) e w = (f, e1, w1)"
    and rest: "exec serve (case f of None \<Rightarrow> Ret (Some (Svc 401 ''invalid TOTP code'')) | Some device \<Rightarrow>
         pbind (markTOTPCodeUsed mf (td_UserID device) code) (\<lambda>err.
         case err of
           Some e \<Rightarrow> Ret (Some (if e = ErrTOTPCodeReplayed then Svc 401 ''invalid TOTP code'' else verifyFailed))
         | None \<Rightarrow>
             Now (\<lambda>now.
             Db (touch_device (td_ID device) now) (\<lambda>answered d.
               if answered \<and> has_device (td_ID device) d
               then pbind (clearTOTPVerificationFailures mf (td_UserID device) [TotpLogin]) (\<lambda>_. Ret None)
               else Ret (Some verifyFailed))))) e1 w1 = (None, e', w')"
    using assms unfolding verifyLoginTOTPCode_def by (rule exec_pbindE)
  obtain device where "f = Some device" using rest by (cases f) auto
  then show ?thesis using exec_find [of serve mf devices code e w device e1 w1] f exec_time [OF rest] by fastforce
qed

lemma consume_alone:
  assumes "exec serve (consumeTOTPBackupCode mf u backup) e w = (None, e', w')"
  shows "\<exists>n now device. normalizeTOTPBackupCode mf backup = Inr n \<and>
    backup_device mf n (query_devices (TrimSpace u) True (w_db w)) = Some device \<and> w_db w' = spend_digest mf n now device (w_db w)"
proof -
  have u: "TrimSpace u \<noteq> []" using assms by (auto simp: consumeTOTPBackupCode_def)
  obtain n where n: "normalizeTOTPBackupCode mf backup = Inr n"
    using assms u by (cases "normalizeTOTPBackupCode mf backup") (auto simp: consumeTOTPBackupCode_def clock_call_def)
  then have a: "ch_answered (e 1)" "backup_device mf n (query_devices (TrimSpace u) True (w_db w)) \<noteq> None"
    and w: "w_db w' = consume_rows mf u n (w_now w + int (ch_delay (e 0))) (w_db w)"
    using assms u by (auto simp: consumeTOTPBackupCode_def clock_call_def db_call_def split: if_splits)
  then show ?thesis using n by (auto simp: consume_rows_def)
qed

lemma verify_backup_alone:
  assumes "exec serve (verifyLoginBackupCode mf u backup) e w = (None, e', w')"
  shows "\<exists>n now device. normalizeTOTPBackupCode mf backup = Inr n \<and>
    backup_device mf n (query_devices (TrimSpace u) True (w_db w)) = Some device \<and> w_db w' = spend_digest mf n now device (w_db w)"
proof -
  obtain c e1 w1 where c: "exec serve (consumeTOTPBackupCode mf u backup) e w = (c, e1, w1)"
    and rest: "exec serve (case c of
       Some e \<Rightarrow> Ret (Some (if e = ErrTOTPBackupCodeInvalid then Svc 401 ''invalid backup code'' else verifyFailed))
     | None \<Rightarrow> pbind (clearTOTPVerificationFailures mf u [TotpLogin]) (\<lambda>_. Ret None)) e1 w1 = (None, e', w')"
    using assms unfolding verifyLoginBackupCode_def by (rule exec_pbindE)
  have n: "c = None" using rest by (cases c) auto
  have "w_db w' = w_db w1" by (rule reads_only_exec [OF _ rest]) (auto intro!: reads_only_pbind simp: n)
  then show ?thesis using consume_alone c n by metis
qed

text \<open>
  C18: An enrolled user is not let in on the password alone: a login gets past the second factor only if the
  user had no active device, or one of the user's active devices accepted the code that was sent, at an
  instant of the login, or the recovery code that was sent is one of a device of the user; and then the
  login spent it. This holds whatever Redis answers or fails to answer.
\<close>

theorem second_factor_needed:
  assumes "exec serve (LoginSecondFactorVerifier mf user code backup) e w = (None, e', w')"
  shows "query_devices (TrimSpace user) True (w_db w) = [] \<or>
    (\<exists>r\<in>set (query_devices (TrimSpace user) True (w_db w)). \<exists>t. w_now w \<le> t \<and> t \<le> w_now w' \<and> mf_validate mf t (TrimSpace code) (td_Secret r)) \<or>
    (\<exists>n now device. normalizeTOTPBackupCode mf backup = Inr n \<and>
       backup_device mf n (query_devices (TrimSpace user) True (w_db w)) = Some device \<and> w_db w' = spend_digest mf n now device (w_db w))"
proof -
  let ?u = "TrimSpace user" and ?c = "TrimSpace code" and ?b = "TrimSpace backup"
  let ?verify = "\<lambda>ds. if ?c \<noteq> [] then verifyLoginTOTPCode mf ds ?c else verifyLoginBackupCode mf ?u ?b"
  let ?locked = "\<lambda>e. Some (if e = ErrTOTPVerificationLocked then Svc 429 ''too many failed verification attempts'' else verifyFailed)"
  have u: "?u \<noteq> []" using assms by (auto simp: LoginSecondFactorVerifier_def)
  obtain l e1 w1 where l: "exec serve (list_devices ?u True) e w = (l, e1, w1)"
    and rest: "exec serve (case l of Inl _ \<Rightarrow> Ret (Some verifyFailed) | Inr devices \<Rightarrow>
       (if devices = [] then Ret None
        else if ?c = [] \<and> ?b = [] then Ret (Some (Svc 401 ''second factor required''))
        else if ?c \<noteq> [] \<and> ?b \<noteq> [] then Ret (Some (Svc 400 ''provide exactly one second factor''))
        else pbind (reserveTOTPVerificationAttempt mf TotpLogin ?u) (\<lambda>err. case err of Some e \<Rightarrow> Ret (?locked e) | None \<Rightarrow> ?verify devices)))
       e1 w1 = (None, e', w')"
    using assms u unfolding LoginSecondFactorVerifier_def Let_def by (auto elim: exec_pbindE)
  obtain t where t: "w_now w \<le> t" "w1 = w\<lparr>w_now := t\<rparr>" "l = Inr (query_devices ?u True (w_db w)) \<or> l = Inl ()"
    using l unfolding list_devices_def by (rule exec_db_readE)
  let ?ds = "query_devices ?u True (w_db w)"
  have ds: "l = Inr ?ds" using t(3) rest by auto
  show ?thesis
  proof (cases "?ds = []")
    case False
    then have "exec serve (pbind (reserveTOTPVerificationAttempt mf TotpLogin ?u) (\<lambda>err. case err of Some e \<Rightarrow> Ret (?locked e) | None \<Rightarrow> ?verify ?ds)) e1 w1 = (None, e', w')"
      using rest ds by (auto split: if_splits)
    then obtain r e2 w2 where r: "exec serve (reserveTOTPVerificationAttempt mf TotpLogin ?u) e1 w1 = (r, e2, w2)"
      and v: "exec serve (case r of Some e \<Rightarrow> Ret (?locked e) | None \<Rightarrow> ?verify ?ds) e2 w2 = (None, e', w')" by (rule exec_pbindE)
    have v: "exec serve (?verify ?ds) e2 w2 = (None, e', w')" using v by (cases r) auto
    have w2: "w_db w2 = w_db w" "w_now w \<le> w_now w2" using reads_only_exec [OF _ r] exec_time [OF r] t by auto
    show ?thesis
    proof (cases "?c = []")
      case True
      then have "exec serve (verifyLoginBackupCode mf ?u ?b) e2 w2 = (None, e', w')" using v by simp
      from verify_backup_alone [OF this] show ?thesis using w2 by (simp add: normalizeTOTPBackupCode_def)
    next
      case False
      then have "exec serve (verifyLoginTOTPCode mf ?ds ?c) e2 w2 = (None, e', w')" using v by simp
      from verify_code_alone [OF this] show ?thesis using w2 by (auto intro: order_trans)
    qed
  qed simp
qed

end
