(* ===== verification/Mfa_Enrol.thy ===== *)
theory Mfa_Enrol
  imports Mfa_Recovery
begin

text \<open>Enrolment: what a confirmed binding leaves on the rows, and in what state the answer finds it.\<close>

lemma exec_save:
  assumes "exec serve (save_confirmed mf cx ch name (Some draw) newID) e w = (Inr (i, codes), e', w')"
    and draws: "\<forall>k<totpBackupCodeCount. raw_code (drawn (draw k))"
  shows "i = newID \<and> codes = map (\<lambda>k. generateTOTPBackupCode (draw k)) [0..<totpBackupCodeCount] \<and> (\<exists>r\<in>set (db_devices (w_db w')).
    td_ID r = newID \<and> td_UserID r = mx_UserID cx \<and> td_IsActive r \<and> td_Secret r = bc_Secret ch \<and>
    td_BackupCodeHashes r = map (\<lambda>k. mf_mac mf (bc_Secret ch) (drawn (draw k))) [0..<totpBackupCodeCount])"
  using assms(1) hash_drawn [of "[0..<totpBackupCodeCount]" draw mf "bc_Secret ch"] draws
  by (auto simp: save_confirmed_def GenerateTOTPBackupCodes_def Let_def clock_call_def db_call_def add_device_def split: if_splits)

text \<open>A binding that is confirmed has gone through the challenge of its user and session, its code and the save.\<close>

lemma exec_confirm:
  assumes "exec serve (TOTPConfirm mf cx ident code name draws newID) e w = (Inr r, e', w')"
  obtains ch t e1 w1 where "bc_UserID ch = mx_UserID cx" "bc_SessionID ch = TrimSpace (mx_SessionID cx)" "mf_validate mf t code (bc_Secret ch)"
    "exec serve (save_confirmed mf cx ch name draws newID) e1 w1 = (Inr r, e', w')"
proof -
  let ?refused = "\<lambda>e. if e = ErrMfaStore then Svc 500 ''failed to load TOTP binding challenge'' else challengeRefused"
  let ?replayed = "\<lambda>e. if e = ErrTOTPCodeReplayed then Svc 400 ''invalid TOTP code'' else Svc 500 ''failed to confirm TOTP binding''"
  let ?consume = "\<lambda>ch err. case err of Some _ \<Rightarrow> Ret (Inl (Svc 500 ''failed to consume TOTP binding challenge'')) | None \<Rightarrow> save_confirmed mf cx ch name draws newID"
  let ?marked = "\<lambda>ch err. case err of Some e \<Rightarrow> Ret (Inl (?replayed e)) | None \<Rightarrow> pbind (consumeTOTPBindChallenge mf ident) (?consume ch)"
  let ?validated = "\<lambda>ch t. if \<not> mf_validate mf t code (bc_Secret ch) then Ret (Inl (Svc 400 ''invalid TOTP code''))
      else pbind (markTOTPCodeUsed mf (mx_UserID cx) code) (?marked ch)"
  let ?loaded = "\<lambda>l. case l of Inl e \<Rightarrow> Ret (Inl (?refused e)) | Inr ch \<Rightarrow>
      (if bc_UserID ch \<noteq> mx_UserID cx \<or> bc_SessionID ch \<noteq> TrimSpace (mx_SessionID cx) then Ret (Inl challengeRefused) else Now (?validated ch))"
  have given: "(mx_UserID cx = []) = False" "(TrimSpace (mx_SessionID cx) \<noteq> []) = True"
    using assms by (cases "mx_UserID cx = []"; auto simp: TOTPConfirm_def currentTOTPBindSessionID_def)+
  have "exec serve (pbind (loadTOTPBindChallenge mf ident) ?loaded) e w = (Inr r, e', w')"
    using assms given unfolding TOTPConfirm_def currentTOTPBindSessionID_def by (simp only: if_False if_True sum.case)
  then obtain l e1 w1 where "exec serve (?loaded l) e1 w1 = (Inr r, e', w')" by (rule exec_pbindE)
  then obtain ch where ch: "bc_UserID ch = mx_UserID cx" "bc_SessionID ch = TrimSpace (mx_SessionID cx)"
    and now: "exec serve (Now (?validated ch)) e1 w1 = (Inr r, e', w')" by (cases l) (auto simp del: exec.simps split: if_splits)
  then obtain t where "exec serve (?validated ch t) (\<lambda>n. e1 (Suc n)) (w1\<lparr>w_now := t\<rparr>) = (Inr r, e', w')" by (elim exec_NowE)
  then have v: "mf_validate mf t code (bc_Secret ch)"
    and "exec serve (pbind (markTOTPCodeUsed mf (mx_UserID cx) code) (?marked ch)) (\<lambda>n. e1 (Suc n)) (w1\<lparr>w_now := t\<rparr>) = (Inr r, e', w')"
    by (auto split: if_splits)
  from this(2) obtain m e2 w2 where "exec serve (?marked ch m) e2 w2 = (Inr r, e', w')" by (rule exec_pbindE)
  then have "exec serve (pbind (consumeTOTPBindChallenge mf ident) (?consume ch)) e2 w2 = (Inr r, e', w')" by (cases m) auto
  then obtain c :: "mfa_error option" and e3 w3 where "exec serve (?consume ch c) e3 w3 = (Inr r, e', w')" by (rule exec_pbindE)
  then have "exec serve (save_confirmed mf cx ch name draws newID) e3 w3 = (Inr r, e', w')" by (cases c) auto
  then show thesis using that ch v by blast
qed

text \<open>
  C20: Every recovery code an enrolment shows is one the service will know: the code as it is written, with
  its hyphens, normalizes, and a device of the user has its digest. No enrolment that reached its save fails
  on the codes it drew.
\<close>

theorem enrolment_codes_known:
  assumes "exec serve (TOTPConfirm mf cx ident code name (Some draw) newID) e w = (Inr (i, codes), e', w')"
    and drawn: "\<forall>k<totpBackupCodeCount. \<forall>j<totpBackupCodeRawLength. draw k j < length totpBackupCodeAlphabet"
    and c: "c \<in> set codes"
  shows "\<exists>n r. normalizeTOTPBackupCode mf c = Inr n \<and> backup_device mf n (query_devices (mx_UserID cx) True (w_db w')) = Some r"
proof -
  have raw: "\<forall>k<totpBackupCodeCount. raw_code (drawn (draw k))" using drawn drawn_raw by blast
  obtain ch t e1 w1 where "exec serve (save_confirmed mf cx ch name (Some draw) newID) e1 w1 = (Inr (i, codes), e', w')"
    using assms(1) by (rule exec_confirm)
  from exec_save [OF this raw] obtain r where codes: "codes = map (\<lambda>k. generateTOTPBackupCode (draw k)) [0..<totpBackupCodeCount]"
    and r: "r \<in> set (db_devices (w_db w'))" "td_UserID r = mx_UserID cx" "td_IsActive r" "td_Secret r = bc_Secret ch"
      "td_BackupCodeHashes r = map (\<lambda>k. mf_mac mf (bc_Secret ch) (drawn (draw k))) [0..<totpBackupCodeCount]" by blast
  obtain k where k: "k < totpBackupCodeCount" "c = formatTOTPBackupCode (drawn (draw k))"
    using c codes by (auto simp: generate_drawn)
  have "r \<in> set (query_devices (mx_UserID cx) True (w_db w'))" "mf_mac mf (td_Secret r) (drawn (draw k)) \<in> set (td_BackupCodeHashes r)"
    using r k by (auto simp: query_devices_def)
  then have "backup_device mf (drawn (draw k)) (query_devices (mx_UserID cx) True (w_db w')) \<noteq> None"
    by (auto simp: backup_device_def find_None_iff)
  then show ?thesis using normalize_format [of "drawn (draw k)" mf] raw k by auto
qed

end
