(* ===== verification/Mfa_Example.thy ===== *)
theory Mfa_Example
  imports Mfa_Enrol Iam_Example
begin

text \<open>
  A small deployment in which the properties of the second factor apply: one user with one device, whose
  authenticator shows the secret itself and whose keyed hash joins key and text.
\<close>

definition sample_challenge :: challenge where
  "sample_challenge = \<lparr>bc_UserID = ''u1'', bc_SessionID = ''x1'', bc_Username = ''ann'', bc_Secret = ''777'', bc_IssuedAt = zero_time, bc_ExpiresAt = zero_time\<rparr>"

definition sample_mfa :: mfa where
  "sample_mfa = \<lparr>mf_ns = ''app'', mf_validate = (\<lambda>t code secret. code = secret), mf_mac = (\<lambda>secret n. secret @ '':'' @ n), mf_upper = (\<lambda>s. s),
     mf_enc = bc_Secret, mf_dec = (\<lambda>t. if t = ''777'' then Some sample_challenge else None)\<rparr>"

definition sample_device :: totp_device where
  "sample_device = \<lparr>td_ID = ''d1'', td_UserID = ''u1'', td_DeviceName = ''phone'', td_Secret = ''123'',
     td_BackupCodeHashes = [''123:23456789ABCDEFGH'', ''123:ABCDEFGH23456789''], td_IsActive = True, td_LastUsedAt = None\<rparr>"

definition sample_rows :: accounts where
  "sample_rows = \<lparr>db_users = [], db_credentials = [], db_emails = [], db_devices = [sample_device]\<rparr>"

definition sample_state :: "(keyspace, accounts) world" where
  "sample_state = \<lparr>w_now = 1000 * nsPerSecond, w_redis = (\<lambda>_. None), w_db = sample_rows\<rparr>"

text \<open>The result of a program that has ended.\<close>

fun result_of :: "('d, 'a) prog \<Rightarrow> 'a option" where
  "result_of (Ret a) = Some a"
| "result_of _ = None"

lemma result_of_Some [simp]: "result_of p = Some a \<longleftrightarrow> p = Ret a"
  by (cases p) auto

definition sample_requests :: "mfa_request list" where
  "sample_requests = [LoginReq ''u1'' ''123'' [], LoginReq ''u1'' '' 123 '' []]"

definition in_step :: "(nat \<times> choice) list" where
  "in_step = concat (replicate 10 [(0, calm), (1, calm)])"

lemma sample_run:
  "map result_of (fst (run_pool redis_command in_step (map (mfa_handle sample_mfa) sample_requests, sample_state))) =
     [Some Admitted, Some (Refused (Svc 401 ''invalid TOTP code''))]"
  by code_simp

lemma sample_space: "clear_namespace (mf_ns sample_mfa)" "TrimSpace ''u1'' = ''u1''" "TrimSpace '' 123 '' = ''123''" "TrimSpace ''123'' = ''123''"
  by code_simp+

lemma sample_enrolled: "enrolled ''u1'' sample_rows" "query_devices ''u1'' True sample_rows \<noteq> []"
  by code_simp+

lemma in_step_calm: "\<forall>m\<in>set in_step. snd m = calm"
  by (simp add: in_step_def)

lemma ended: "map result_of (fst (ps, w)) = rs \<Longrightarrow> i < length rs \<Longrightarrow> rs ! i = Some a \<Longrightarrow> ps ! i = Ret a"
  by auto

definition sample_logins :: "(string \<times> string \<times> string) list" where
  "sample_logins = [(''u1'', [], ''2345-6789-ABCD-EFGH''), (''u1'', [], '' 23456789abcdefgh'')]"

definition sample_gates :: "(iam_error option) iam_prog list" where
  "sample_gates = map (\<lambda>(user, code, backup). LoginSecondFactorVerifier sample_mfa user code backup) sample_logins"

lemma sample_gates_run:
  "map result_of (fst (run_pool redis_command in_step (sample_gates, sample_state))) = [Some None, Some (Some (Svc 401 ''invalid backup code''))]"
  by code_simp

text \<open>Five attempts have been counted, and the window is open for another minute.\<close>

definition sample_locked :: "(keyspace, accounts) world" where
  "sample_locked = sample_state\<lparr>w_redis := (\<lambda>_. None)
     (Key ''app'' (totpVerificationFailureKey TotpLogin ''u1'') \<mapsto> (Text ''5'', Some (1060 * nsPerSecond)))\<rparr>"

definition sample_pending :: "(keyspace, accounts) world" where
  "sample_pending = sample_state\<lparr>w_redis := (\<lambda>_. None) (Key ''app'' (totpBindChallengeKey ''c1'') \<mapsto> (Text ''777'', Some (1600 * nsPerSecond)))\<rparr>"

definition sample_cx :: mfa_ctx where
  "sample_cx = \<lparr>mx_UserID = ''u1'', mx_Username = ''ann'', mx_SessionID = ''x1'', mx_Param = []\<rparr>"

definition sample_confirm :: "(iam_error + string \<times> string list) iam_prog" where
  "sample_confirm = TOTPConfirm sample_mfa sample_cx ''c1'' ''777'' ''tablet'' (Some (\<lambda>i j. i)) ''d2''"

definition sample_codes :: "string list" where
  "sample_codes = map (\<lambda>c. replicate 4 c @ ''-'' @ replicate 4 c @ ''-'' @ replicate 4 c @ ''-'' @ replicate 4 c) ''23456789AB''"

lemma sample_confirm_run:
  "fst (exec redis_command sample_confirm (\<lambda>_. calm) sample_pending) = Inr (''d2'', sample_codes)"
  by code_simp

lemma sample_login_calm:
  "fst (exec redis_command (LoginSecondFactorVerifier sample_mfa ''u1'' ''123'' []) (\<lambda>_. calm) sample_state) = None"
  by code_simp

section \<open>The verifier of a login\<close>

text \<open>
  What the properties of sessions assume of the verifier a login calls holds of this one, when both live
  under one namespace: it sends no command on a session or on the index of a user, and stores no snapshot.
\<close>

lemma mfa_session_keys [simp]:
  "totpCodeReplayKey u c \<noteq> sessionDataKey y" "totpCodeReplayKey u c \<noteq> sessionIndexUserKey y"
  "totpVerificationFailureKey p u \<noteq> sessionDataKey y" "totpVerificationFailureKey p u \<noteq> sessionIndexUserKey y"
  "sessionDataKey y \<noteq> totpCodeReplayKey u c" "sessionIndexUserKey y \<noteq> totpCodeReplayKey u c"
  "sessionDataKey y \<noteq> totpVerificationFailureKey p u" "sessionIndexUserKey y \<noteq> totpVerificationFailureKey p u"
  by (simp_all add: mfa_key_defs key_defs)

lemma verifier_issues:
  assumes "\<And>u c v ttl. P (SETNX (Key (mf_ns mf) (totpCodeReplayKey u c)) v ttl)"
    "\<And>p u window. P (INCR_PEXPIRE_NX (Key (mf_ns mf) (totpVerificationFailureKey p u)) window)"
    "\<And>u ps. P (DEL (namespacedKeys (mf_ns mf) (map (\<lambda>p. totpVerificationFailureKey p u) ps)))"
  shows "issues P (LoginSecondFactorVerifier mf user code backup)"
proof -
  have find: "issues P (findLoginTOTPDeviceByCode mf devices code)" for devices code by (induction devices) auto
  have del: "issues P (redis_Del (mf_ns mf) [totpVerificationFailureKey p u])" for p u using assms(3) [of u "[p]"] by (simp add: redis_Del_def)
  show ?thesis
    unfolding LoginSecondFactorVerifier_def verifyLoginTOTPCode_def verifyLoginBackupCode_def consumeTOTPBackupCode_def markTOTPCodeUsed_def
      reserveTOTPVerificationAttempt_def clearTOTPVerificationFailures_def redis_SetNX_def redis_IncrFixedWindow_def list_devices_def db_read_def Let_def
    by (auto intro!: issues_pbind assms find del split: sum.split option.split)
qed

lemma verifier_leaves_sessions:
  assumes "clear_namespace (im_ns im)" "mf_ns mf = im_ns im"
  shows "leaves_sessions im (LoginSecondFactorVerifier mf user code backup)" "never_stores im x (LoginSecondFactorVerifier mf user code backup)"
  unfolding leaves_sessions_def
  by (rule verifier_issues; use assms in \<open>auto simp: Key_inj namespacedKeys_def\<close>)+

section \<open>Witnesses\<close>

theorem totp_code_accepted_once_witness:
  "\<exists>ps' w' b. run_pool redis_command in_step (map (mfa_handle sample_mfa) sample_requests, sample_state) = (ps', w') \<and>
     ps' ! 0 = Ret Admitted \<and> ps' ! 1 = Ret b \<and> refused b"
proof -
  obtain ps' w' where r: "run_pool redis_command in_step (map (mfa_handle sample_mfa) sample_requests, sample_state) = (ps', w')" by fastforce
  have ends: "ps' ! 0 = Ret Admitted" "ps' ! 1 = Ret (Refused (Svc 401 ''invalid TOTP code''))"
    using ended [OF sample_run [unfolded r]] by simp_all
  have now: "w_now w' < w_now sample_state + totpCodeReplayTTL"
    using run_pool_calm_now [OF in_step_calm r] by (simp add: totpCodeReplayTTL_def nsPerSecond_def)
  have "refused (Refused (Svc 401 ''invalid TOTP code''))"
    by (rule totp_code_accepted_once [OF keyspace.redis_server_axioms sample_space(1) _ _ _ _ r now _ _ ends(1) _ _ _ ends(2), of "''u1''" "''123''"])
      (simp_all add: sample_requests_def sample_space sample_state_def sample_enrolled)
  then show ?thesis using r ends by blast
qed

theorem totp_lockout_holds_witness:
  "w_db (snd (run_pool redis_command in_step (sample_gates, sample_locked))) = sample_rows \<and>
     result_of (fst (run_pool redis_command in_step (sample_gates, sample_locked)) ! 0) \<noteq> Some None"
proof -
  obtain ps' w' where r: "run_pool redis_command in_step (sample_gates, sample_locked) = (ps', w')" by fastforce
  have now: "w_now w' < 1060 * nsPerSecond"
    using run_pool_calm_now [OF in_step_calm r] by (simp add: sample_locked_def sample_state_def nsPerSecond_def)
  have five: "FormatInt 5 = ''5''" by code_simp
  have "w_db w' = w_db sample_locked \<and> (\<forall>i<length sample_logins. \<forall>r. ps' ! i = Ret r \<longrightarrow> r \<noteq> None)"
    by (rule totp_lockout_holds [OF keyspace.redis_server_axioms _ _ _ _ _ _ r [unfolded sample_gates_def] now, of "''u1''" 5])
      (simp_all add: five sample_locked_def sample_state_def sample_enrolled held_def nsPerSecond_def totpVerificationAttemptLimit_def
        sample_logins_def sample_space, simp_all add: sample_mfa_def)
  then show ?thesis using r by (auto simp: sample_locked_def sample_state_def sample_logins_def)
qed

theorem recovery_code_accepted_once_witness:
  "\<exists>ps' w' r. run_pool redis_command in_step (sample_gates, sample_state) = (ps', w') \<and> ps' ! 0 = Ret None \<and> ps' ! 1 = Ret r \<and> r \<noteq> None"
proof -
  obtain ps' w' where r: "run_pool redis_command in_step (sample_gates, sample_state) = (ps', w')" by fastforce
  have ends: "ps' ! 0 = Ret None" "ps' ! 1 = Ret (Some (Svc 401 ''invalid backup code''))"
    using ended [OF sample_gates_run [unfolded r]] by simp_all
  have codes: "normalizeTOTPBackupCode sample_mfa ''2345-6789-ABCD-EFGH'' = Inr ''23456789ABCDEFGH''"
    "normalizeTOTPBackupCode sample_mfa '' 23456789abcdefgh'' = Inr ''23456789ABCDEFGH''" by code_simp+
  have once: "code_once sample_mfa ''u1'' ''23456789ABCDEFGH'' (w_db sample_state)" by code_simp
  have "Some (Svc 401 ''invalid backup code'') \<noteq> None"
    by (rule recovery_code_accepted_once [OF keyspace.redis_server_axioms _ once r [unfolded sample_gates_def] _ _ _ _ codes(1) ends(1) _ _ _ _ codes(2) ends(2)])
      (simp_all add: sample_logins_def sample_space, simp_all add: sample_space)
  then show ?thesis using r ends by blast
qed

theorem second_factor_needed_witness:
  "query_devices ''u1'' True sample_rows = [] \<or>
    (\<exists>r\<in>set (query_devices ''u1'' True sample_rows). \<exists>t. 1000 * nsPerSecond \<le> t \<and> mf_validate sample_mfa t ''123'' (td_Secret r)) \<or>
    (\<exists>n now device. normalizeTOTPBackupCode sample_mfa [] = Inr n \<and> backup_device sample_mfa n (query_devices ''u1'' True sample_rows) = Some device)"
proof -
  obtain e' w' where "exec redis_command (LoginSecondFactorVerifier sample_mfa ''u1'' ''123'' []) (\<lambda>_. calm) sample_state = (None, e', w')"
    using sample_login_calm by (metis prod.collapse)
  from second_factor_needed [OF this] show ?thesis by (auto simp: sample_space sample_state_def)
qed

theorem enrolment_codes_known_witness:
  "\<exists>n r. normalizeTOTPBackupCode sample_mfa ''BBBB-BBBB-BBBB-BBBB'' = Inr n \<and>
     backup_device sample_mfa n (query_devices ''u1'' True (w_db (snd (snd (exec redis_command sample_confirm (\<lambda>_. calm) sample_pending))))) = Some r"
proof -
  obtain e' w' where x: "exec redis_command sample_confirm (\<lambda>_. calm) sample_pending = (Inr (''d2'', sample_codes), e', w')"
    using sample_confirm_run by (metis prod.collapse)
  have "''BBBB-BBBB-BBBB-BBBB'' \<in> set sample_codes" "length totpBackupCodeAlphabet = 32" by code_simp+
  then show ?thesis using enrolment_codes_known [OF x [unfolded sample_confirm_def]] x
    by (simp add: sample_cx_def totpBackupCodeCount_def)
qed

end
