(* ===== verification/Spec2Isabelle.thy ===== *)
theory Spec2Isabelle
  imports Rbac_Protocol Lease_Protocol Lease_Hold Cronjob Leader Dcache Paging Db_Query Client_Address Ds_Heap Ds_Arraylist Ds_Linked_Containers Ds_Splay Ds_Trie Iam_Example Mfa_Example
begin

text \<open>
  \<^bold>\<open>gst\<close> is a framework for Go services. A service built on it declares models; the framework routes
  requests to generated controllers, decides whether a caller may do what it asks, turns the query
  string into a statement, keeps tenants apart in the database, and coordinates the replicas of the
  service: locks, leaders, cron rounds and replicated caches. This development models the parts that
  decide something, in the language of the code, and proves what those decisions are worth. A package
  of containers, \<^verbatim>\<open>src/ds\<close>, is modelled beside them.

  \<^bold>\<open>How the parts interact.\<close> A list request comes from the address \<open>Client_Address\<close> settles on, is read
  by \<open>Urlquery\<close>, runs under the session \<open>Iam_Session\<close> admits, is allowed or denied by \<open>Rbac_Authorize\<close>, and
  becomes a chain of options whose conditions \<open>Db_Filter\<close> and \<open>Db_Query\<close> build and whose order and window
  \<open>Paging\<close> decides; every statement of a scoped model carries the condition of \<open>Tenant\<close>. The
  rules behind a decision are written by \<open>Rbac_Mutation\<close> and live twice, in a table and in memory, and
  \<open>Rbac_Protocol\<close> interleaves the two halves. \<open>Lifecycle\<close> starts the components of a process and stops
  them in reverse. Three of these components, \<open>Lease_Hold\<close> (locks), \<open>Leader\<close> and \<open>Cronjob\<close>, coordinate
  replicas through the one table of \<open>Lease\<close>, whose statements \<open>Lease_Protocol\<close> interleaves; \<open>Dcache\<close>
  coordinates replicas through a topic.

  \<^bold>\<open>Conventions\<close> (\<open>Prelude\<close>). Go strings are byte strings; runes are read from them by \<open>Utf8\<close> where the
  code ranges over a string. Errors are values: a sum whose left side is the error, or an option. A
  struct is a record, with the state of a package passed and returned. A map ranged over in Go's
  unspecified order is a list whose order is an argument. Time is the database clock where the
  statement reads it and the process clock otherwise. Integers keep their width where the code could
  overflow, with the wrap written out.

  \<^bold>\<open>Authorization\<close>, \<^verbatim>\<open>src/authz/rbac\<close>.
  \<^item> \<open>Rbac_Policies\<close>: the rule set of \<^verbatim>\<open>policies.go\<close>, a list without duplicates and an index by key.
  \<^item> \<open>Rbac_Path\<close>: the templates of \<^verbatim>\<open>pathmatch.go\<close>; the regular expression the code emits accepts no
    more than the documented language of the template, and exactly it on paths without a newline; the
    compile cache changes no answer.
  \<^item> \<open>Rbac_Graph\<close>: \<^verbatim>\<open>rolegraph.go\<close> and the role closure; a walk of at most ten levels, the code's own
    bound \<open>maxRoleHierarchy\<close>, against the reachability it decides.
  \<^item> \<open>Rbac_Authorize\<close>: the decision and \<^verbatim>\<open>enforce.go\<close>; the index answers what the rule-by-rule matcher
    says, tenants do not see each other's rules, an error is a denial, and the strongest grant is named.
  \<^item> \<open>Rbac_Container\<close>, \<open>Rbac_Store\<close>, \<open>Rbac_Mutation\<close>: the contract of a rule container, its two
    interpretations (memory and table), and the writes through both. A batch keeps them in step, a
    failure changes neither, and each administrative operation does exactly what it is named for.
  \<^item> \<open>Rbac_Protocol\<close>: commits, memory updates, reloads, retries and which coming statements the
    database fails, as an inductive step relation; a process that is quiet and not marked as diverged
    decides from the stored rules.

  \<^bold>\<open>Tenants\<close>, \<^verbatim>\<open>src/internal/tenant\<close>. \<open>Tenant\<close>: the scope a context resolves to and the clauses added to
  each statement; what they keep apart and what they refuse.

  \<^bold>\<open>Coordination\<close>, \<^verbatim>\<open>src/internal/lease\<close>, \<^verbatim>\<open>src/lock\<close>, \<^verbatim>\<open>src/leader\<close>, \<^verbatim>\<open>src/cronjob\<close>, \<^verbatim>\<open>src/internal/lifecycle\<close>.
  \<^item> \<open>Lease\<close>: every statement on the lease table and the operations over them. \<open>Lease_Protocol\<close>: any
    number of processes, statements delayed and acknowledgements lost; at most one process acts under a
    name, terms grow, a slot is claimed once and run once more at most, and only when the end of its
    round did not reach the row.
  \<^item> \<open>Lease_Hold\<close>: the renewal loop, which gives up before the lease can pass on, and the lock.
  \<^item> \<open>Leader\<close>: campaign and tenure; the loop carries the time, with what a claim, an answer and a timer
    take as arguments, so that how soon a crashed leader is replaced follows from its own waits.
  \<^item> \<open>Cron_Schedule\<close>, \<open>Cronjob\<close>: schedule arithmetic over a parsed schedule, given as a locale, and the
    scheduler over the lease table; which instants run, which run again, which are caught up.
  \<^item> \<open>Lifecycle\<close>: the calls a process makes of its components; stops in the reverse order of the starts.

  \<^bold>\<open>Replicated cache\<close>, \<^verbatim>\<open>src/dcache\<close>. \<open>Dcache\<close>: stamps and watermarks; replicas given the same events
  agree, and none goes back to an older write.

  \<^bold>\<open>Reading requests\<close>, \<^verbatim>\<open>src/internal/urlquery\<close>, \<^verbatim>\<open>src/internal/requestctx\<close>, \<^verbatim>\<open>src/database\<close>.
  \<^item> \<open>Urlquery\<close>: bare keys decoded by the plan of a model struct, filter keys, orders, page, cursor, and
    the gate of the list controller; nothing a caller wrote is dropped, values are of their type.
  \<^item> \<open>Paging\<close>: cursor and numbered pages over what SQL promises of a statement.
  \<^item> \<open>Client_Address\<close>: forwarding headers and trusted networks.
  \<^item> \<open>Strconv\<close>: reading and writing decimal numbers.
  \<^item> \<open>Db_Dialect\<close>, \<open>Db_Filter\<close>, \<open>Db_Query\<close>: the predicate engine of \<^verbatim>\<open>filter.go\<close> with its groups, correlated
    subqueries and failures, per dialect, and \<^verbatim>\<open>with_query.go\<close> with its guard against a query that says
    nothing. A condition has the three-valued meaning of SQL; a chain that is not refused never selects
    more than its filters say, and the filters of a request select exactly the rows they describe.

  \<^bold>\<open>Sessions\<close>, \<^verbatim>\<open>src/redis\<close>, \<^verbatim>\<open>src/internal/service/iam\<close>.
  \<^item> \<open>Redis\<close>: the commands the code sends and what Redis documents of them, as a locale over a server and
    the keys it shows; the model of the documentation itself interprets it.
  \<^item> \<open>Redis_Program\<close>: a handler as a program of commands, clock readings and statements. A run is given
    the choices of its surroundings: a delay, an answer lost after the command took effect, a retry. Any
    number of programs interleave command by command. The wrappers of \<^verbatim>\<open>src/redis\<close> are such programs.
  \<^item> \<open>Iam_Session\<close>, \<open>Iam_Service\<close>: the session store and the authentication of a request; the session
    endpoints of users and administrators, login, logout and passwords.
  \<^item> \<open>Iam_Authenticate\<close>: who is admitted, under any failures; the exact decision of a store in order; no
    interleaving brings a revoked session back.
  \<^item> \<open>Iam_Tracking\<close>, \<open>Iam_Revocation\<close>: triples over programs; a login puts its session on the index of
    the user, every handler keeps it there or deletes it, so that revoking by user reaches it.
    \<open>Iam_Example\<close> runs a small deployment as the witness.

  \<^bold>\<open>Second factor\<close>, \<^verbatim>\<open>src/internal/service/mfa\<close>.
  \<^item> \<open>Redis_Rely\<close>, \<open>Redis_Once\<close>: what programs that run side by side cannot undo while a key or a row
    stays as it is, and latches, a key set if absent or a value taken off a row, which one program passes.
  \<^item> \<open>Mfa\<close>: enrolment with its challenge, the gate a login calls, the attempt budget, the replay markers,
    recovery codes, unbinding, status and the administrative reset, as programs like those of the sessions.
  \<^item> \<open>Mfa_Properties\<close>: a one-time code is accepted once, a recorded code is refused everywhere, a spent
    budget refuses right proofs too and spends nothing. \<open>Mfa_Format\<close>, \<open>Mfa_Recovery\<close>, \<open>Mfa_Enrol\<close>: recovery
    codes are read back as they were shown and accepted once; no enrolled user passes without a proof.
    \<open>Mfa_Example\<close> holds the witnesses, and shows that this verifier is what the theorems on sessions
    assume of the one a login calls.

  \<^bold>\<open>Containers\<close>, \<^verbatim>\<open>src/ds\<close>. \<open>Ds_Interfaces\<close> states the contracts of a comparison, a queue, a stack and
  a priority container as locales; \<open>Ds_Heap\<close>, \<open>Ds_Array\<close>, \<open>Ds_Arraylist\<close>, \<open>Ds_Linked\<close> and
  \<open>Ds_Linked_Containers\<close> interpret them on the models of the code. Each mutex-protected method is one
  step. The linked list is over an explicit store, since its nodes are handles a caller may misuse.
  \<open>Ds_Search\<close> holds what the search trees share, with the contract of a sorted map: every sequence of calls
  answers as an ordered association list does. \<open>Ds_Avl\<close>, \<open>Ds_Rbtree\<close> and \<open>Ds_Splay\<close> model the three trees and
  interpret it. Nodes are trees; code that climbs parent pointers works on a node together with its way
  to the root. That no nil node is dereferenced is part of the contract, as is, for the first two, that
  the depth is logarithmic. \<open>Ds_Trie\<close> models the trie as a map from lists, under keys that are not empty.

  \<^bold>\<open>Bounds and fuel.\<close> The loops of the containers recurse on the list or on a measure; those along the
  links of a store that may be cyclic are \<open>partial_function (option)\<close> and shown to return, and the growth
  of an array list answers \<open>None\<close> where it would never return, which no sequence of calls reaches. The text loops of \<open>Urlquery\<close> take the length of the text as fuel: each turn
  consumes a byte. Array-list capacities go through single precision, whose rounding is written out
  and shown exact below its precision. Durations of the lease protocol are the constants of the code.

  \<^bold>\<open>What is assumed\<close>, always as a hypothesis or a locale law with a witness: the database clock does not
  run backwards, and timers run at its rate; the columns of a model have distinct names; a sorting routine
  permutes; the tokens of two claims differ; a schedule answers instants later than it is asked
  for, in increasing order; a codec reads back what it wrote; a SELECT returns the rows that pass its
  condition in some order its ORDER BY allows; a Go regular expression means what its documentation says;
  Redis executes a command as documented, once or, after a lost answer, again; the encoding of a session
  reads back the id of its user; no two logins draw one session id; the digest of a recovery code is stored
  once. That a TOTP code is valid at an instant and what a keyed hash answers are arguments, of which
  nothing is assumed. A transaction that locks the rows it decides from is one step.

  \<^bold>\<open>Not modelled.\<close> Code whose work is done by a library it calls (gorm, gin, Kafka, the provider
  clients, OpenTelemetry, zap): the repository's part is wiring, and the decision is the library's. The
  generator \<^verbatim>\<open>gg\<close> (\<^verbatim>\<open>gggen\<close>, \<^verbatim>\<open>ggcheck\<close>, \<^verbatim>\<open>ggmodule\<close>, \<^verbatim>\<open>pbschema\<close>, \<^verbatim>\<open>openapigen\<close>), which transforms Go syntax
  trees and protobuf descriptors through \<open>go/ast\<close>. The rest of the database chain: writes, joins and
  aggregates, which are SQL text or gorm calls whose meaning is the database's. The skip
  list, the set and the multimap of \<^verbatim>\<open>src/ds\<close>. Logging, spans and metrics appear only
  where a decision depends on them. Goroutines are interleaved at the level of statements and of
  mutex-protected methods, not of memory accesses.
\<close>

end
